(* ===== verification/DLMDB_Prelude.thy ===== *)
theory DLMDB_Prelude
  imports Main "HOL-Library.Word" "HOL-Library.List_Lexorder" "HOL-Library.Multiset"
begin

text \<open>
  Shared vocabulary of the DLMDB model: machine types, return codes, C arrays and byte memory, and
  the generic lemmas on them that the component theories use through the collections
  \<^theory_text>\<open>mem_simps\<close> (byte memory) and \<^theory_text>\<open>loop_simps\<close> (closed forms of the C loops).
\<close>

unbundle bit_operations_syntax

section \<open>Machine types\<close>

type_synonym byte = "8 word"
type_synonym u16 = "16 word"
type_synonym u32 = "32 word"
type_synonym u64 = "64 word"

text \<open>Byte strings; \<open>MDB_val\<close> is a (size, pointer) pair, \<open>None\<close> is a NULL \<open>mv_data\<close>.\<close>

type_synonym bytes = "byte list"
type_synonym MDB_val = "bytes option"

abbreviation mv_size :: "MDB_val \<Rightarrow> nat" where
  "mv_size v \<equiv> (case v of None \<Rightarrow> 0 | Some d \<Rightarrow> length d)"

named_theorems mem_simps "reads of written byte memory"
named_theorems loop_simps "closed forms of C loops"

section \<open>Return codes\<close>

text \<open>The return codes of \<open>dlmdb.h\<close> and the errno values the modelled functions return.\<close>

datatype rc = MDB_SUCCESS | MDB_KEYEXIST | MDB_NOTFOUND | MDB_PAGE_NOTFOUND | MDB_CORRUPTED
  | MDB_PANIC | MDB_VERSION_MISMATCH | MDB_INVALID | MDB_MAP_FULL | MDB_DBS_FULL | MDB_READERS_FULL
  | MDB_TLS_FULL | MDB_TXN_FULL | MDB_CURSOR_FULL | MDB_PAGE_FULL | MDB_MAP_RESIZED
  | MDB_INCOMPATIBLE | MDB_BAD_RSLOT | MDB_BAD_TXN | MDB_BAD_VALSIZE | MDB_BAD_DBI | MDB_PROBLEM
  | MDB_DBIS_BUSY | ENOMEM | EINVAL | EINTR | EIO

text \<open>
  The outcome of an operation: a value, a return code other than \<open>MDB_SUCCESS\<close>, or a failed
  \<open>mdb_cassert\<close>, which calls \<open>abort()\<close> (\<open>mdb_assert0\<close> is active unless \<open>NDEBUG\<close> is defined).
\<close>

datatype 'a res = Ok 'a | Err rc | Abort

definition bind_res :: "'a res \<Rightarrow> ('a \<Rightarrow> 'b res) \<Rightarrow> 'b res" where
  "bind_res r f = (case r of Ok x \<Rightarrow> f x | Err e \<Rightarrow> Err e | Abort \<Rightarrow> Abort)"

lemma bind_res_simps [simp]:
  "bind_res (Ok x) f = f x"
  "bind_res (Err e) f = Err e"
  "bind_res Abort f = Abort"
  by (simp_all add: bind_res_def)

lemma bind_res_Ok_iff: "bind_res r f = Ok y \<longleftrightarrow> (\<exists>x. r = Ok x \<and> f x = Ok y)"
  by (cases r) auto

definition cassert :: "bool \<Rightarrow> 'a res \<Rightarrow> 'a res" where
  "cassert b r = (if b then r else Abort)"

lemma cassert_simps [simp]: "cassert True r = r" "cassert False r = Abort"
  by (simp_all add: cassert_def)

lemma cassert_Ok_iff: "cassert b r = Ok y \<longleftrightarrow> b \<and> r = Ok y"
  by (simp add: cassert_def)

lemma option_eqI: "(\<And>x. a = Some x \<longleftrightarrow> b = Some x) \<Longrightarrow> a = b"
proof -
  assume *: "\<And>x. a = Some x \<longleftrightarrow> b = Some x"
  show "a = b" using *[of "the a"] *[of "the b"] by (cases a; cases b) simp_all
qed

section \<open>Unsigned arithmetic with the wrap-around written out\<close>

definition u16_sub :: "nat \<Rightarrow> nat \<Rightarrow> nat" where
  "u16_sub a b = nat ((int a - int b) mod 65536)"

lemma u16_sub_le: "b \<le> a \<Longrightarrow> a < 65536 \<Longrightarrow> u16_sub a b = a - b"
  by (simp add: u16_sub_def flip: of_nat_diff)

lemma u16_sub_wrap: "a < b \<Longrightarrow> b < 65536 \<Longrightarrow> u16_sub a b = 65536 + a - b"
proof -
  assume *: "a < b" "b < 65536"
  have "(int a - int b) mod 65536 = (int a - int b + 65536) mod 65536" by simp
  also have "\<dots> = int a - int b + 65536" by (rule mod_pos_pos_trivial) (use * in auto)
  finally show ?thesis using * by (simp add: u16_sub_def)
qed

definition EVEN :: "nat \<Rightarrow> nat" where
  "EVEN n = (n + 1) div 2 * 2"

lemma EVEN_ge: "n \<le> EVEN n" and EVEN_le: "EVEN n \<le> n + 1" and EVEN_even: "even (EVEN n)"
  by (auto simp: EVEN_def)

lemma EVEN_id: "even n \<Longrightarrow> EVEN n = n"
  by (auto simp: EVEN_def)

lemma EVEN_0 [simp]: "EVEN 0 = 0"
  by (simp add: EVEN_def)

section \<open>Little-endian integers in bytes\<close>

fun le_bytes :: "nat \<Rightarrow> nat \<Rightarrow> bytes" where
  "le_bytes 0 v = []"
| "le_bytes (Suc n) v = word_of_nat v # le_bytes n (v div 256)"

fun le_nat :: "bytes \<Rightarrow> nat" where
  "le_nat [] = 0"
| "le_nat (b # bs) = unat b + 256 * le_nat bs"

lemma length_le_bytes [simp]: "length (le_bytes n v) = n"
  by (induction n arbitrary: v) auto

lemma le_nat_le_bytes: "le_nat (le_bytes n v) = v mod 256 ^ n"
proof (induction n arbitrary: v)
  case 0
  then show ?case by simp
next
  case (Suc n)
  have "le_nat (le_bytes (Suc n) v) = v mod 256 + 256 * (v div 256 mod 256 ^ n)"
    by (simp add: Suc unat_of_nat)
  also have "\<dots> = v mod (256 * 256 ^ n)"
    by (simp add: mod_mult2_eq)
  finally show ?case by simp
qed

lemma le_nat_less: "le_nat bs < 256 ^ length bs"
proof (induction bs)
  case Nil
  then show ?case by simp
next
  case (Cons b bs)
  have "unat b < 256" using unsigned_less[of b] by simp
  with Cons show ?case by simp
qed

lemma le_bytes_le_nat: "le_bytes (length bs) (le_nat bs) = bs"
proof (induction bs)
  case Nil
  then show ?case by simp
next
  case (Cons b bs)
  have b: "unat b < 256" using unsigned_less[of b] by simp
  have "(word_of_nat (unat b + 256 * le_nat bs) :: byte) = b"
    by (rule word_unat_eq_iff[THEN iffD2]) (use b in \<open>simp add: unat_of_nat del: of_nat_add\<close>)
  moreover have "(unat b + 256 * le_nat bs) div 256 = le_nat bs" using b by simp
  ultimately show ?case by (simp add: Cons)
qed

section \<open>Byte memory\<close>

text \<open>
  The bytes of a page, by offset. \<open>memcpy\<close> and \<open>memmove\<close> write a byte list that was read
  beforehand, which is \<open>memmove\<close>'s meaning and \<open>memcpy\<close>'s on the disjoint areas it is used on.
\<close>

type_synonym mem = "nat \<Rightarrow> byte"

definition mem_read :: "mem \<Rightarrow> nat \<Rightarrow> nat \<Rightarrow> bytes" where
  "mem_read m a n = map m [a..<a + n]"

definition mem_write :: "mem \<Rightarrow> nat \<Rightarrow> bytes \<Rightarrow> mem" where
  "mem_write m a bs = (\<lambda>x. if a \<le> x \<and> x < a + length bs then bs ! (x - a) else m x)"

text \<open>Evaluated at an address only, so that a memory is never unfolded as a whole.\<close>

lemma mem_write_apply [code]:
  "mem_write m a bs x = (if a \<le> x then if x < a + length bs then bs ! (x - a) else m x else m x)"
  by (simp add: mem_write_def)

definition mem_move :: "mem \<Rightarrow> nat \<Rightarrow> nat \<Rightarrow> nat \<Rightarrow> mem" where
  "mem_move m dst src n = mem_write m dst (mem_read m src n)"

lemma length_mem_read [simp]: "length (mem_read m a n) = n"
  by (simp add: mem_read_def)

lemma mem_read_0 [simp]: "mem_read m a 0 = []"
  by (simp add: mem_read_def)

lemma nth_mem_read [simp]: "i < n \<Longrightarrow> mem_read m a n ! i = m (a + i)"
  by (simp add: mem_read_def)

lemma mem_write_Nil [simp]: "mem_write m a [] = m"
  by (rule ext) (auto simp: mem_write_def)

lemma mem_read_cong: "(\<And>x. a \<le> x \<Longrightarrow> x < a + n \<Longrightarrow> m x = m' x) \<Longrightarrow> mem_read m a n = mem_read m' a n"
  by (auto simp: mem_read_def)

lemma mem_read_add: "mem_read m a (n + k) = mem_read m a n @ mem_read m (a + n) k"
  by (rule nth_equalityI) (auto simp: nth_append)

lemma mem_read_write_same [mem_simps]:
  "n = length bs \<Longrightarrow> mem_read (mem_write m a bs) a n = bs"
  by (rule nth_equalityI) (auto simp: mem_write_def)

lemma mem_read_write_other [mem_simps]:
  "a + n \<le> b \<or> b + length bs \<le> a \<Longrightarrow> mem_read (mem_write m b bs) a n = mem_read m a n"
  by (rule mem_read_cong) (auto simp: mem_write_def)

lemma mem_write_apply_other: "x < b \<or> b + length bs \<le> x \<Longrightarrow> mem_write m b bs x = m x"
  by (auto simp: mem_write_def)

lemma mem_move_apply:
  "mem_move m dst src n x = (if dst \<le> x \<and> x < dst + n then m (src + (x - dst)) else m x)"
  by (auto simp: mem_move_def mem_write_def)

lemma mem_read_move_in [mem_simps]:
  "dst \<le> a \<Longrightarrow> a + k \<le> dst + n \<Longrightarrow> mem_read (mem_move m dst src n) a k = mem_read m (src + (a - dst)) k"
  by (rule nth_equalityI) (auto simp: mem_move_apply intro!: arg_cong[where f = m])

lemma mem_read_move_out [mem_simps]:
  "a + k \<le> dst \<or> dst + n \<le> a \<Longrightarrow> mem_read (mem_move m dst src n) a k = mem_read m a k"
  unfolding mem_move_def by (rule mem_read_write_other) auto

lemma mem_write_append:
  "mem_write m a (xs @ ys) = mem_write (mem_write m a xs) (a + length xs) ys"
  by (auto simp: mem_write_def fun_eq_iff nth_append)

section \<open>C arrays\<close>

text \<open>\<open>for (i = hi; i > lo; --i) a[i] = a[i - 1]\<close> and \<open>for (i = lo; i + 1 < n; ++i) a[i] = a[i + 1]\<close>.\<close>

function shift_up :: "(nat \<Rightarrow> 'a) \<Rightarrow> nat \<Rightarrow> nat \<Rightarrow> (nat \<Rightarrow> 'a)" where
  "shift_up a lo i = (if lo < i then shift_up (a(i := a (i - 1))) lo (i - 1) else a)"
  by pat_completeness auto
termination by (relation "measure (\<lambda>(a, lo, i). i)") auto

function shift_down :: "(nat \<Rightarrow> 'a) \<Rightarrow> nat \<Rightarrow> nat \<Rightarrow> (nat \<Rightarrow> 'a)" where
  "shift_down a i n = (if i + 1 < n then shift_down (a(i := a (i + 1))) (i + 1) n else a)"
  by pat_completeness auto
termination by (relation "measure (\<lambda>(a, i, n). n - i)") auto

declare shift_up.simps [simp del] shift_down.simps [simp del]

lemma shift_up_closed [loop_simps]:
  "shift_up a lo i = (\<lambda>x. if lo < x \<and> x \<le> i then a (x - 1) else a x)"
proof (induction a lo i rule: shift_up.induct)
  case (1 a lo i)
  show ?case
  proof (cases "lo < i")
    case True
    then show ?thesis
      using 1[OF True] by (subst shift_up.simps) (auto simp: fun_eq_iff simp del: fun_upd_apply, auto)
  next
    case False
    then show ?thesis by (subst shift_up.simps) (auto simp: fun_eq_iff)
  qed
qed

lemma shift_down_closed [loop_simps]:
  "shift_down a i n = (\<lambda>x. if i \<le> x \<and> x + 1 < n then a (x + 1) else a x)"
proof (induction a i n rule: shift_down.induct)
  case (1 a i n)
  show ?case
  proof (cases "i + 1 < n")
    case True
    have "shift_down a i n = shift_down (a(i := a (i + 1))) (i + 1) n"
      using True by (subst shift_down.simps) simp
    also have "\<dots> = (\<lambda>x. if i \<le> x \<and> x + 1 < n then a (x + 1) else a x)"
    proof
      fix x
      show "shift_down (a(i := a (i + 1))) (i + 1) n x = (if i \<le> x \<and> x + 1 < n then a (x + 1) else a x)"
        using True by (cases "x = i") (simp_all only: 1[OF True], auto)
    qed
    finally show ?thesis .
  next
    case False
    then show ?thesis by (subst shift_down.simps) (auto simp: fun_eq_iff)
  qed
qed

text \<open>The first \<open>n\<close> cells of an array, as a list.\<close>

definition cells :: "(nat \<Rightarrow> 'a) \<Rightarrow> nat \<Rightarrow> 'a list" where
  "cells a n = map a [0..<n]"

lemma length_cells [simp]: "length (cells a n) = n"
  by (simp add: cells_def)

lemma nth_cells [simp]: "i < n \<Longrightarrow> cells a n ! i = a i"
  by (simp add: cells_def)

lemma cells_Suc: "cells a (Suc n) = cells a n @ [a n]"
  by (simp add: cells_def)

text \<open>Insertion into and removal from a list by position.\<close>

definition insert_at :: "nat \<Rightarrow> 'a \<Rightarrow> 'a list \<Rightarrow> 'a list" where
  "insert_at i x xs = take i xs @ x # drop i xs"

definition remove_at :: "nat \<Rightarrow> 'a list \<Rightarrow> 'a list" where
  "remove_at i xs = take i xs @ drop (Suc i) xs"

lemma length_insert_at [simp]: "length (insert_at i x xs) = Suc (length xs)"
  by (simp add: insert_at_def)

lemma length_remove_at [simp]: "i < length xs \<Longrightarrow> length (remove_at i xs) = length xs - 1"
  by (simp add: remove_at_def)

lemma nth_insert_at:
  "i \<le> length xs \<Longrightarrow> j \<le> length xs \<Longrightarrow>
   insert_at i x xs ! j = (if j < i then xs ! j else if j = i then x else xs ! (j - 1))"
  by (auto simp: insert_at_def nth_append min_def nth_Cons')

lemma nth_remove_at:
  "i < length xs \<Longrightarrow> j < length xs - 1 \<Longrightarrow>
   remove_at i xs ! j = (if j < i then xs ! j else xs ! Suc j)"
  by (auto simp: remove_at_def nth_append min_def)

lemma insert_at_map: "map f (insert_at i x xs) = insert_at i (f x) (map f xs)"
  by (simp add: insert_at_def take_map drop_map)

lemma remove_at_map: "map f (remove_at i xs) = remove_at i (map f xs)"
  by (simp add: remove_at_def take_map drop_map)

lemma remove_at_0: "remove_at 0 xs = tl xs"
  by (simp add: remove_at_def drop_Suc)

lemma remove_at_insert_at: "i \<le> length xs \<Longrightarrow> remove_at i (insert_at i x xs) = xs"
  by (simp add: remove_at_def insert_at_def)

lemma sorted_wrt_take_drop:
  "sorted_wrt P xs \<longleftrightarrow> sorted_wrt P (take n xs) \<and> sorted_wrt P (drop n xs) \<and>
     (\<forall>a\<in>set (take n xs). \<forall>b\<in>set (drop n xs). P a b)"
  by (rule sorted_wrt_append[of P "take n xs" "drop n xs", unfolded append_take_drop_id])

lemma sorted_wrt_insert_at:
  assumes "sorted_wrt P xs" "\<And>a. a \<in> set (take i xs) \<Longrightarrow> P a x" "\<And>b. b \<in> set (drop i xs) \<Longrightarrow> P x b"
  shows "sorted_wrt P (insert_at i x xs)"
proof -
  have "sorted_wrt P (take i xs)" "sorted_wrt P (drop i xs)" "\<forall>a\<in>set (take i xs). \<forall>b\<in>set (drop i xs). P a b"
    using assms(1)[unfolded sorted_wrt_take_drop[of P xs i]] by blast+
  with assms(2,3) show ?thesis
    unfolding insert_at_def sorted_wrt_append sorted_wrt.simps(2) by (simp add: ball_Un) blast?
qed

end
