(* ===== verification/Midl.thy ===== *)
theory Midl
  imports DLMDB_Prelude
begin

text \<open>
  ID lists (\<open>midl.c\<close>): the sorted page-number lists a transaction keeps (\<open>mt_free_pgs\<close>,
  \<open>mt_spill_pgs\<close>, \<open>me_pghead\<close>). \<open>ids[0]\<close> is the count, \<open>ids[-1]\<close> the allocated length.
  \<open>ok\<close> says whether \<open>malloc\<close>/\<open>realloc\<close> succeeds; \<open>junk\<close> is the unspecified content of fresh
  cells. The binary search is shared with the ID2 lists of theory \<open>Id2l\<close> through the
  locale \<open>id_search\<close>.
\<close>

section \<open>Data\<close>

type_synonym MDB_ID = u64

definition MDB_IDL_UM_MAX :: nat where
  "MDB_IDL_UM_MAX = 2 ^ 17 - 1"

record MDB_IDL =
  alloclen :: nat            \<comment> \<open>\<open>ids[-1]\<close>\<close>
  ids :: "MDB_ID list"       \<comment> \<open>\<open>ids[0] .. ids[alloclen]\<close>\<close>

definition idl_len :: "MDB_IDL \<Rightarrow> nat" where
  "idl_len l = unat (ids l ! 0)"

definition idl_elems :: "MDB_IDL \<Rightarrow> MDB_ID list" where
  "idl_elems l = take (idl_len l) (tl (ids l))"

definition idl_wf :: "MDB_IDL \<Rightarrow> bool" where
  "idl_wf l \<longleftrightarrow> length (ids l) = alloclen l + 1 \<and> idl_len l \<le> alloclen l \<and> alloclen l < 2 ^ 32"

lemma length_idl_elems: "idl_wf l \<Longrightarrow> length (idl_elems l) = idl_len l"
  by (simp add: idl_elems_def idl_wf_def)

lemma nth_idl_elems: "idl_wf l \<Longrightarrow> i < idl_len l \<Longrightarrow> idl_elems l ! i = ids l ! (i + 1)"
  by (simp add: idl_elems_def idl_wf_def nth_tl)

section \<open>Search\<close>

definition CMP :: "MDB_ID \<Rightarrow> MDB_ID \<Rightarrow> int" where
  "CMP x y = (if x < y then - 1 else if x > y then 1 else 0)"

text \<open>
  The loop of \<open>mdb_midl_search\<close> and \<open>mdb_mid2l_search\<close>, over the comparison \<open>c\<close> of the
  entry at a position with the wanted ID.
\<close>

function id_search_loop :: "(nat \<Rightarrow> int) \<Rightarrow> nat \<Rightarrow> nat \<Rightarrow> int \<Rightarrow> nat \<Rightarrow> nat" where
  "id_search_loop c base cursor val n =
     (if 0 < n then
        let pivot = n div 2; cursor' = base + pivot + 1; val' = c cursor' in
        if val' < 0 then id_search_loop c base cursor' val' pivot
        else if val' > 0 then id_search_loop c cursor' cursor' val' (n - (pivot + 1))
        else cursor'
      else if val > 0 then cursor + 1 else cursor)"
  by pat_completeness auto
termination by (relation "measure (\<lambda>(c, base, cursor, val, n). n)") auto

declare id_search_loop.simps [simp del]

definition mdb_midl_search :: "MDB_IDL \<Rightarrow> MDB_ID \<Rightarrow> nat" where
  "mdb_midl_search l i =
     id_search_loop (\<lambda>k. CMP (ids l ! k) i) 0 1 0 (idl_len l mod 2 ^ 32)"

text \<open>
  The comparison is positive before the wanted position and negative after it. The loop
  then finds the boundary: everything before the result compares positive, everything from
  the result on compares non-positive, and an exact match is found when there is one.
\<close>

definition falling :: "(nat \<Rightarrow> int) \<Rightarrow> nat \<Rightarrow> bool" where
  "falling c n \<longleftrightarrow> (\<forall>i j. 1 \<le> i \<longrightarrow> i < j \<longrightarrow> j \<le> n \<longrightarrow> c j \<ge> 0 \<longrightarrow> c i > 0)"

lemma id_search_loop_bounds:
  assumes "falling c N" and "base + n \<le> N"
    and "\<And>i. 1 \<le> i \<Longrightarrow> i \<le> base \<Longrightarrow> c i > 0"
    and "\<And>i. base + n < i \<Longrightarrow> i \<le> N \<Longrightarrow> c i < 0"
    and "n = 0 \<Longrightarrow> cursor + (if val > 0 then 1 else 0) = base + 1"
  shows "let r = id_search_loop c base cursor val n in
    1 \<le> r \<and> r \<le> N + 1 \<and> (\<forall>i. 1 \<le> i \<longrightarrow> i < r \<longrightarrow> c i > 0) \<and>
    (\<forall>i. r < i \<longrightarrow> i \<le> N \<longrightarrow> c i < 0) \<and> (r \<le> N \<longrightarrow> c r \<le> 0)"
  using assms
proof (induction c base cursor val n rule: id_search_loop.induct)
  case (1 c base cursor val n)
  show ?case
  proof (cases "n = 0")
    case True
    then have r: "id_search_loop c base cursor val n = base + 1"
      using "1.prems"(5) by (subst id_search_loop.simps) (auto split: if_splits)
    show ?thesis unfolding r using True "1.prems" by (auto intro: less_imp_le)
  next
    case False
    define p where "p = base + n div 2 + 1"
    have p1: "1 \<le> p" by (simp add: p_def)
    have p: "base < p" "p \<le> base + n" "p \<le> N" using False "1.prems"(2) by (auto simp: p_def)
    show ?thesis
    proof (cases "c p < 0")
      case True
      have after: "c i < 0" if "p < i" "i \<le> N" for i
      proof (rule ccontr)
        assume "\<not> c i < 0"
        then have "c p > 0" using "1.prems"(1) that p1 unfolding falling_def by (meson leI)
        with True show False by simp
      qed
      have "id_search_loop c base cursor val n = id_search_loop c base p (c p) (n div 2)"
        using False True by (subst id_search_loop.simps) (simp add: p_def Let_def)
      moreover have "let r = id_search_loop c base p (c p) (n div 2) in
          1 \<le> r \<and> r \<le> N + 1 \<and> (\<forall>i. 1 \<le> i \<longrightarrow> i < r \<longrightarrow> c i > 0) \<and>
          (\<forall>i. r < i \<longrightarrow> i \<le> N \<longrightarrow> c i < 0) \<and> (r \<le> N \<longrightarrow> c r \<le> 0)"
        unfolding p_def
      proof (rule "1.IH"(1)[OF _ refl refl refl])
        show "c i < 0" if "base + n div 2 < i" "i \<le> N" for i
          using after True that by (cases "i = p") (auto simp: p_def)
        show "base + n div 2 + 1 + (if 0 < c (base + n div 2 + 1) then 1 else 0) = base + 1" if "n div 2 = 0"
          using True that by (simp add: p_def)
      qed (use False True p "1.prems" in \<open>auto simp: p_def\<close>)
      ultimately show ?thesis by simp
    next
      case notneg: False
      have before: "c i > 0" if "1 \<le> i" "i < p" for i
        using "1.prems"(1) notneg that p unfolding falling_def by auto
      show ?thesis
      proof (cases "c p > 0")
        case True
        have "id_search_loop c base cursor val n = id_search_loop c p p (c p) (n - (n div 2 + 1))"
          using False True by (subst id_search_loop.simps) (simp add: p_def Let_def)
        moreover have "let r = id_search_loop c p p (c p) (n - (n div 2 + 1)) in
          1 \<le> r \<and> r \<le> N + 1 \<and> (\<forall>i. 1 \<le> i \<longrightarrow> i < r \<longrightarrow> c i > 0) \<and>
          (\<forall>i. r < i \<longrightarrow> i \<le> N \<longrightarrow> c i < 0) \<and> (r \<le> N \<longrightarrow> c r \<le> 0)"
          unfolding p_def
        proof (rule "1.IH"(2)[OF _ refl refl refl])
          show "c i > 0" if "1 \<le> i" "i \<le> base + n div 2 + 1" for i
            using before True that by (cases "i = p") (auto simp: p_def)
        qed (use False True p "1.prems" in \<open>auto simp: p_def\<close>)
        ultimately show ?thesis by simp
      next
        case False
        with notneg have z: "c p = 0" by simp
        have "c i < 0" if "p < i" "i \<le> N" for i
        proof (rule ccontr)
          assume "\<not> c i < 0"
          then have "c p > 0" using "1.prems"(1) that p1 unfolding falling_def by (meson leI)
          with z show False by simp
        qed
        moreover have "id_search_loop c base cursor val n = p"
          using \<open>n \<noteq> 0\<close> z by (subst id_search_loop.simps) (simp add: p_def Let_def)
        ultimately show ?thesis using before z p by auto
      qed
    qed
  qed
qed

text \<open>
  What the callers of a sorted ID array rely on. \<open>pre a b\<close> says that ID \<open>a\<close> comes before
  ID \<open>b\<close>; \<open>key l x\<close> is the ID at position \<open>x\<close>, \<open>1 \<le> x \<le> len l\<close>.
\<close>

locale id_search =
  fixes search :: "'l \<Rightarrow> MDB_ID \<Rightarrow> nat"
    and key :: "'l \<Rightarrow> nat \<Rightarrow> MDB_ID"
    and len :: "'l \<Rightarrow> nat"
    and pre :: "MDB_ID \<Rightarrow> MDB_ID \<Rightarrow> bool"
    and invar :: "'l \<Rightarrow> bool"
  assumes pre_irrefl: "\<not> pre a a"
    and pre_trans: "pre a b \<Longrightarrow> pre b c \<Longrightarrow> pre a c"
    and pre_total: "a \<noteq> b \<Longrightarrow> pre a b \<or> pre b a"
    and sorted: "invar l \<Longrightarrow> 1 \<le> i \<Longrightarrow> i < j \<Longrightarrow> j \<le> len l \<Longrightarrow> pre (key l i) (key l j)"
    and search_range: "invar l \<Longrightarrow> 1 \<le> search l x \<and> search l x \<le> len l + 1"
    and search_before: "invar l \<Longrightarrow> 1 \<le> i \<Longrightarrow> i < search l x \<Longrightarrow> pre (key l i) x"
    and search_at: "invar l \<Longrightarrow> search l x \<le> i \<Longrightarrow> i \<le> len l \<Longrightarrow> \<not> pre (key l i) x"
begin

lemma found_iff_member:
  assumes "invar l"
  shows "search l x \<le> len l \<and> key l (search l x) = x \<longleftrightarrow> (\<exists>i. 1 \<le> i \<and> i \<le> len l \<and> key l i = x)"
    (is "?found \<longleftrightarrow> ?mem")
proof
  assume ?found
  then show ?mem using search_range[OF assms, of x] by blast
next
  assume ?mem
  then obtain i where i: "1 \<le> i" "i \<le> len l" "key l i = x" by blast
  have le: "search l x \<le> i"
    using search_before[OF assms i(1), of x] i(3) pre_irrefl by (meson not_le)
  have "key l (search l x) = x"
  proof (rule ccontr)
    assume ne: "key l (search l x) \<noteq> x"
    with le i have lt: "search l x < i" by (cases "search l x = i") auto
    have "pre (key l (search l x)) x"
      using sorted[OF assms _ lt i(2)] search_range[OF assms, of x] i(3) by simp
    with search_at[OF assms order_refl, of x] le i(2) show False by simp
  qed
  with le i(2) show ?found by simp
qed

lemma absent_iff_before_after:
  assumes "invar l" and "\<not> (search l x \<le> len l \<and> key l (search l x) = x)"
    and "search l x \<le> i" and "i \<le> len l"
  shows "pre x (key l i)"
proof -
  have "key l i \<noteq> x"
    using found_iff_member[OF assms(1), of x] assms(2-4) search_range[OF assms(1), of x] by auto
  with search_at[OF assms(1,3,4)] pre_total[of x "key l i"] show ?thesis by blast
qed

end

text \<open>The lists of \<open>midl.c\<close> are in descending order.\<close>

definition idl_desc :: "MDB_IDL \<Rightarrow> bool" where
  "idl_desc l \<longleftrightarrow> idl_wf l \<and> sorted_wrt (>) (idl_elems l)"

lemma idl_desc_nth:
  assumes "idl_desc l" "1 \<le> i" "i < j" "j \<le> idl_len l"
  shows "ids l ! i > ids l ! j"
proof -
  have "idl_elems l ! (i - 1) > idl_elems l ! (j - 1)"
    using assms by (auto simp: idl_desc_def length_idl_elems sorted_wrt_iff_nth_less)
  then show ?thesis using assms by (simp add: idl_desc_def nth_idl_elems)
qed

lemma idl_len_less: "idl_wf l \<Longrightarrow> idl_len l < 2 ^ 32"
  by (simp add: idl_wf_def)

lemma mdb_midl_search_loop:
  assumes "idl_desc l"
  shows "let r = mdb_midl_search l x in
    1 \<le> r \<and> r \<le> idl_len l + 1 \<and> (\<forall>i. 1 \<le> i \<longrightarrow> i < r \<longrightarrow> CMP (ids l ! i) x > 0) \<and>
    (\<forall>i. r < i \<longrightarrow> i \<le> idl_len l \<longrightarrow> CMP (ids l ! i) x < 0) \<and> (r \<le> idl_len l \<longrightarrow> CMP (ids l ! r) x \<le> 0)"
proof -
  have n: "idl_len l mod 2 ^ 32 = idl_len l"
    using assms by (intro mod_less idl_len_less) (simp add: idl_desc_def)
  have "falling (\<lambda>k. CMP (ids l ! k) x) (idl_len l)"
    unfolding falling_def CMP_def using idl_desc_nth[OF assms] by (fastforce split: if_splits)
  then show ?thesis
    unfolding mdb_midl_search_def n by (rule id_search_loop_bounds) auto
qed

interpretation midl: id_search mdb_midl_search "\<lambda>l i. ids l ! i" idl_len "(>)" idl_desc
proof
  fix l x i
  assume l: "idl_desc l"
  note r = mdb_midl_search_loop[OF l, of x, unfolded Let_def]
  show "1 \<le> mdb_midl_search l x \<and> mdb_midl_search l x \<le> idl_len l + 1" using r by blast
  show "x < ids l ! i" if "1 \<le> i" "i < mdb_midl_search l x"
  proof -
    have "CMP (ids l ! i) x > 0" using r that by blast
    then show ?thesis by (simp add: CMP_def split: if_splits)
  qed
  show "\<not> x < ids l ! i" if "mdb_midl_search l x \<le> i" "i \<le> idl_len l"
  proof -
    have "CMP (ids l ! i) x \<le> 0"
      using r that by (cases "i = mdb_midl_search l x") (auto intro: less_imp_le)
    then show ?thesis by (simp add: CMP_def split: if_splits)
  qed
qed (auto intro: idl_desc_nth)


section \<open>Allocation and growth\<close>

definition mdb_midl_alloc :: "bool \<Rightarrow> MDB_ID \<Rightarrow> nat \<Rightarrow> MDB_IDL option" where
  "mdb_midl_alloc ok junk num =
     (if ok then Some \<lparr>alloclen = num, ids = 0 # replicate num junk\<rparr> else None)"

definition mdb_midl_shrink :: "bool \<Rightarrow> MDB_IDL \<Rightarrow> MDB_IDL" where
  "mdb_midl_shrink ok l =
     (if alloclen l > MDB_IDL_UM_MAX \<and> ok
      then \<lparr>alloclen = MDB_IDL_UM_MAX, ids = take (MDB_IDL_UM_MAX + 1) (ids l)\<rparr> else l)"

definition mdb_midl_grow :: "bool \<Rightarrow> MDB_ID \<Rightarrow> MDB_IDL \<Rightarrow> nat \<Rightarrow> MDB_IDL res" where
  "mdb_midl_grow ok junk l num =
     (if \<not> ok then Err ENOMEM
      else Ok \<lparr>alloclen = alloclen l + num, ids = ids l @ replicate num junk\<rparr>)"

text \<open>\<open>num\<close> is an \<open>unsigned\<close>: its additions wrap at \<open>2 ^ 32\<close>; \<open>& -256\<close> clears the low 8 bits.\<close>

definition mdb_midl_need :: "bool \<Rightarrow> MDB_ID \<Rightarrow> MDB_IDL \<Rightarrow> nat \<Rightarrow> MDB_IDL res" where
  "mdb_midl_need ok junk l num =
     (let num1 = (num + idl_len l) mod 2 ^ 32 in
      if num1 > alloclen l then
        let num2 = (num1 + num1 div 4 + (256 + 2)) mod 2 ^ 32 div 256 * 256 in
        if \<not> ok then Err ENOMEM
        else Ok \<lparr>alloclen = num2 - 2,
                 ids = take (num2 - 1) (ids l @ replicate (num2 - 1 - length (ids l)) junk)\<rparr>
      else Ok l)"

section \<open>Appending\<close>

definition idl_push :: "MDB_IDL \<Rightarrow> MDB_ID \<Rightarrow> MDB_IDL" where
  "idl_push l x = (let len = ids l ! 0 + 1 in l\<lparr>ids := (ids l)[0 := len, unat len := x]\<rparr>)"

definition mdb_midl_append :: "bool \<Rightarrow> MDB_ID \<Rightarrow> MDB_IDL \<Rightarrow> MDB_ID \<Rightarrow> MDB_IDL res" where
  "mdb_midl_append ok junk l x =
     bind_res (if idl_len l \<ge> alloclen l then mdb_midl_grow ok junk l MDB_IDL_UM_MAX else Ok l)
       (\<lambda>l'. Ok (idl_push l' x))"

text \<open>\<open>memcpy(&ids[ids[0]+1], &app[1], app[0] * sizeof(MDB_ID))\<close>\<close>

definition ids_copy :: "MDB_ID list \<Rightarrow> nat \<Rightarrow> MDB_ID list \<Rightarrow> MDB_ID list" where
  "ids_copy xs pos ys = take pos xs @ ys @ drop (pos + length ys) xs"

definition mdb_midl_append_list :: "bool \<Rightarrow> MDB_ID \<Rightarrow> MDB_IDL \<Rightarrow> MDB_IDL \<Rightarrow> MDB_IDL res" where
  "mdb_midl_append_list ok junk l app =
     bind_res (if idl_len l + idl_len app \<ge> alloclen l then mdb_midl_grow ok junk l (idl_len app) else Ok l)
       (\<lambda>l'. Ok (l'\<lparr>ids := (ids_copy (ids l') (idl_len l' + 1) (idl_elems app))[0 := ids l' ! 0 + ids app ! 0]\<rparr>))"

text \<open>\<open>ids += len; while (n) ids[n--] = id++;\<close>\<close>

fun range_fill :: "MDB_ID list \<Rightarrow> nat \<Rightarrow> nat \<Rightarrow> MDB_ID \<Rightarrow> MDB_ID list" where
  "range_fill xs len 0 x = xs"
| "range_fill xs len (Suc n) x = range_fill (xs[len + Suc n := x]) len n (x + 1)"

definition mdb_midl_append_range ::
  "bool \<Rightarrow> MDB_ID \<Rightarrow> MDB_IDL \<Rightarrow> MDB_ID \<Rightarrow> nat \<Rightarrow> MDB_IDL res" where
  "mdb_midl_append_range ok junk l x n =
     (let len = idl_len l in
      bind_res (if len + n > alloclen l then mdb_midl_grow ok junk l (n OR MDB_IDL_UM_MAX) else Ok l)
        (\<lambda>l'. Ok (l'\<lparr>ids := range_fill ((ids l')[0 := word_of_nat (len + n)]) len n x\<rparr>)))"

lemma idl_elems_map: "idl_wf l \<Longrightarrow> idl_elems l = map ((!) (ids l)) [1..<idl_len l + 1]"
  by (auto simp: idl_elems_def idl_wf_def nth_tl simp del: upt_Suc intro!: nth_equalityI)

lemma mdb_midl_grow_Ok:
  assumes "mdb_midl_grow ok junk l num = Ok l'" "idl_wf l" "alloclen l + num < 2 ^ 32"
  shows "idl_wf l' \<and> idl_elems l' = idl_elems l \<and> idl_len l' = idl_len l \<and>
    ids l' ! 0 = ids l ! 0 \<and> alloclen l' = alloclen l + num"
proof -
  have l': "l' = \<lparr>alloclen = alloclen l + num, ids = ids l @ replicate num junk\<rparr>"
    using assms(1) by (auto simp: mdb_midl_grow_def split: if_splits)
  have 0: "ids l' ! 0 = ids l ! 0"
    using assms(2) by (simp add: l' idl_wf_def nth_append)
  then have len: "idl_len l' = idl_len l" by (simp add: idl_len_def)
  have wf: "idl_wf l'"
    using assms len by (simp add: idl_wf_def l')
  have "idl_elems l' = idl_elems l"
    using wf assms(2) len by (auto simp: idl_elems_map l' nth_append idl_wf_def)
  with wf len 0 show ?thesis by (simp add: l')
qed

lemma unat_inc: "unat (c :: u64) < n \<Longrightarrow> n < 2 ^ 32 \<Longrightarrow> unat (c + 1) = unat c + 1"
  by (simp add: unat_word_ariths)

lemma idl_push_elems:
  assumes "idl_wf l" "idl_len l < alloclen l"
  shows "idl_wf (idl_push l x) \<and> idl_elems (idl_push l x) = idl_elems l @ [x] \<and>
    alloclen (idl_push l x) = alloclen l"
proof -
  have n: "unat (ids l ! 0 + 1) = idl_len l + 1"
    using assms unat_inc[of "ids l ! 0" "alloclen l"] by (simp add: idl_wf_def idl_len_def)
  have len: "idl_len (idl_push l x) = idl_len l + 1"
    using assms n by (simp add: idl_push_def Let_def idl_len_def[of "_\<lparr>ids := _\<rparr>"] idl_wf_def)
  have wf: "idl_wf (idl_push l x)"
    using assms len by (simp add: idl_wf_def idl_push_def Let_def)
  have "idl_elems (idl_push l x) = idl_elems l @ [x]"
    using assms wf n len by (auto simp: idl_elems_map idl_push_def Let_def idl_wf_def)
  with wf show ?thesis by (simp add: idl_push_def Let_def)
qed

lemma append_Ok:
  assumes "mdb_midl_append ok junk l x = Ok l'" "idl_wf l" "alloclen l + MDB_IDL_UM_MAX < 2 ^ 32"
  shows "idl_wf l' \<and> idl_elems l' = idl_elems l @ [x] \<and> alloclen l \<le> alloclen l'"
proof -
  obtain l1 where l1: "(if idl_len l \<ge> alloclen l then mdb_midl_grow ok junk l MDB_IDL_UM_MAX else Ok l) = Ok l1"
    and l': "l' = idl_push l1 x"
    using assms(1) by (auto simp: mdb_midl_append_def bind_res_Ok_iff)
  have "idl_wf l1 \<and> idl_elems l1 = idl_elems l \<and> idl_len l1 < alloclen l1 \<and> alloclen l \<le> alloclen l1"
  proof (cases "idl_len l \<ge> alloclen l")
    case True
    then have "mdb_midl_grow ok junk l MDB_IDL_UM_MAX = Ok l1" using l1 by simp
    from mdb_midl_grow_Ok[OF this assms(2,3)] show ?thesis
      using assms(2) by (auto simp: MDB_IDL_UM_MAX_def idl_wf_def)
  next
    case False
    then show ?thesis using l1 assms(2) by auto
  qed
  then show ?thesis using idl_push_elems[of l1 x] l' by auto
qed

lemma append_fails: "mdb_midl_append ok junk l x = Err e \<longleftrightarrow> \<not> ok \<and> e = ENOMEM \<and> idl_len l \<ge> alloclen l"
  by (auto simp: mdb_midl_append_def mdb_midl_grow_def)


lemma nth_ids_copy:
  assumes "pos + length ys \<le> length xs" "i < length xs"
  shows "ids_copy xs pos ys ! i = (if i < pos then xs ! i else if i < pos + length ys then ys ! (i - pos) else xs ! i)"
  using assms by (auto simp: ids_copy_def nth_append min_def)

lemma length_ids_copy [simp]: "pos + length ys \<le> length xs \<Longrightarrow> length (ids_copy xs pos ys) = length xs"
  by (simp add: ids_copy_def)

lemma append_list_Ok:
  assumes "mdb_midl_append_list ok junk l app = Ok l'" "idl_wf l" "idl_wf app"
    and "alloclen l + idl_len app < 2 ^ 32"
  shows "idl_wf l' \<and> idl_elems l' = idl_elems l @ idl_elems app"
proof -
  obtain l1 where l1: "(if idl_len l + idl_len app \<ge> alloclen l then mdb_midl_grow ok junk l (idl_len app) else Ok l) = Ok l1"
    and l': "l' = l1\<lparr>ids := (ids_copy (ids l1) (idl_len l1 + 1) (idl_elems app))[0 := ids l1 ! 0 + ids app ! 0]\<rparr>"
    using assms(1) by (auto simp: mdb_midl_append_list_def bind_res_Ok_iff)
  have 1: "idl_wf l1 \<and> idl_elems l1 = idl_elems l \<and> idl_len l1 = idl_len l \<and> idl_len l + idl_len app \<le> alloclen l1"
  proof (cases "idl_len l + idl_len app \<ge> alloclen l")
    case True
    then have "mdb_midl_grow ok junk l (idl_len app) = Ok l1" using l1 by simp
    from mdb_midl_grow_Ok[OF this assms(2,4)] show ?thesis
      using assms(2) by (auto simp: idl_wf_def)
  next
    case False
    then show ?thesis using l1 assms(2) by auto
  qed
  have e: "length (idl_elems l) = idl_len l" using assms(2) by (rule length_idl_elems)
  have c: "ids l1 ! Suc i = idl_elems l ! i" if "i < idl_len l" for i
    using nth_idl_elems[of l1 i] that 1 by simp
  have app: "length (idl_elems app) = idl_len app" using assms(3) by (rule length_idl_elems)
  have sum: "unat (ids l1 ! 0 + ids app ! 0) = idl_len l + idl_len app"
    using 1 by (simp add: idl_wf_def idl_len_def unat_word_ariths)
  have fit: "idl_len l1 + 1 + length (idl_elems app) \<le> length (ids l1)"
    using 1 app by (simp add: idl_wf_def)
  have len: "idl_len l' = idl_len l + idl_len app"
    using sum 1 fit by (simp add: l' idl_len_def[of "_\<lparr>ids := _\<rparr>"] idl_wf_def)
  have wf: "idl_wf l'"
    using 1 len fit by (simp add: idl_wf_def l')
  have "idl_elems l' = idl_elems l1 @ idl_elems app"
  proof (rule nth_equalityI)
    show "length (idl_elems l') = length (idl_elems l1 @ idl_elems app)"
      using wf 1 len app by (simp add: length_idl_elems[of l'] length_idl_elems[OF assms(2)])
  next
    fix i
    assume "i < length (idl_elems l')"
    then have i: "i < idl_len l + idl_len app" using wf len by (simp add: length_idl_elems)
    then show "idl_elems l' ! i = (idl_elems l1 @ idl_elems app) ! i"
      using wf 1 len fit app
      by (simp add: nth_idl_elems[OF wf] nth_append e c) (simp add: l' nth_ids_copy idl_wf_def c)
  qed
  with wf 1 show ?thesis by simp
qed

lemma length_range_fill [simp]: "length (range_fill xs len n x) = length xs"
  by (induction xs len n x rule: range_fill.induct) auto

lemma nth_range_fill:
  "len + n < length xs \<Longrightarrow> i < length xs \<Longrightarrow>
   range_fill xs len n x ! i = (if len < i \<and> i \<le> len + n then x + of_nat (len + n - i) else xs ! i)"
proof (induction xs len n x rule: range_fill.induct)
  case (1 xs len x)
  then show ?case by auto
next
  case (2 xs len n x)
  then show ?case
    by (auto simp: nth_list_update Suc_diff_le)
qed

text \<open>The range is stored in descending order: the highest of the \<open>n\<close> IDs first.\<close>

lemma append_range_Ok:
  assumes "mdb_midl_append_range ok junk l x n = Ok l'" "idl_wf l"
    and "alloclen l + (n OR MDB_IDL_UM_MAX) < 2 ^ 32"
  shows "idl_wf l' \<and> idl_elems l' = idl_elems l @ map (\<lambda>i. x + of_nat i) (rev [0..<n])"
proof -
  obtain l1 where l1: "(if idl_len l + n > alloclen l then mdb_midl_grow ok junk l (n OR MDB_IDL_UM_MAX) else Ok l) = Ok l1"
    and l': "l' = l1\<lparr>ids := range_fill ((ids l1)[0 := word_of_nat (idl_len l + n)]) (idl_len l) n x\<rparr>"
    using assms(1) by (auto simp: mdb_midl_append_range_def bind_res_Ok_iff Let_def)
  have n: "n \<le> (n OR MDB_IDL_UM_MAX)"
    by (simp add: or_greater_eq flip: of_nat_le_iff[where 'a = int] add: of_nat_or_eq)
  have 1: "idl_wf l1 \<and> idl_elems l1 = idl_elems l \<and> idl_len l1 = idl_len l \<and> idl_len l + n \<le> alloclen l1"
  proof (cases "idl_len l + n > alloclen l")
    case True
    then have "mdb_midl_grow ok junk l (n OR MDB_IDL_UM_MAX) = Ok l1" using l1 by simp
    from mdb_midl_grow_Ok[OF this assms(2,3)] show ?thesis
      using assms(2) n by (auto simp: idl_wf_def)
  next
    case False
    then show ?thesis using l1 assms(2) by auto
  qed
  have e: "length (idl_elems l) = idl_len l" using assms(2) by (rule length_idl_elems)
  have c: "ids l1 ! Suc i = idl_elems l ! i" if "i < idl_len l" for i
    using nth_idl_elems[of l1 i] that 1 by simp
  have "unat (word_of_nat (idl_len l + n) :: u64) = idl_len l + n"
    using 1 by (simp add: idl_wf_def unat_of_nat del: of_nat_add)
  then have len: "idl_len l' = idl_len l + n"
    using 1 by (simp add: l' idl_len_def[of "_\<lparr>ids := _\<rparr>"] nth_range_fill idl_wf_def del: of_nat_add)
  have wf: "idl_wf l'"
    using 1 len by (simp add: idl_wf_def l')
  have "idl_elems l' = idl_elems l1 @ map (\<lambda>i. x + of_nat i) (rev [0..<n])"
  proof (rule nth_equalityI)
    show "length (idl_elems l') = length (idl_elems l1 @ map (\<lambda>i. x + of_nat i) (rev [0..<n]))"
      using wf 1 len by (simp add: length_idl_elems[of l'] length_idl_elems[OF assms(2)])
  next
    fix i
    assume "i < length (idl_elems l')"
    then have i: "i < idl_len l + n" using wf len by (simp add: length_idl_elems)
    moreover have "rev [0..<n] ! (i - idl_len l) = idl_len l + n - Suc i" if "\<not> i < idl_len l"
      using that i by (simp add: rev_nth)
    ultimately show "idl_elems l' ! i = (idl_elems l1 @ map (\<lambda>i. x + of_nat i) (rev [0..<n])) ! i"
      using wf 1 len
      by (simp add: nth_idl_elems[OF wf] nth_append e c) (auto simp: l' nth_range_fill idl_wf_def c)
  qed
  with wf 1 show ?thesis by simp
qed

text \<open>Room after \<open>mdb_midl_need\<close>, unless the 32-bit size computation wraps.\<close>

lemma need_Ok:
  assumes "mdb_midl_need ok junk l num = Ok l'" "idl_wf l"
    and "5 * (num + alloclen l) div 4 + 258 < 2 ^ 32"
  shows "idl_wf l' \<and> idl_elems l' = idl_elems l \<and> idl_len l + num \<le> alloclen l'"
proof -
  define m where "m = num + idl_len l"
  have m: "m < 2 ^ 32" "m + m div 4 + 258 < 2 ^ 32"
    using assms(2,3) by (auto simp: m_def idl_wf_def)
  define k where "k = (m + m div 4 + 258) div 256 * 256"
  have k: "m + 3 \<le> k" "k < 2 ^ 32"
    using m(2) unfolding k_def by linarith+
  show ?thesis
  proof (cases "m > alloclen l")
    case False
    then show ?thesis
      using assms m(1) unfolding mdb_midl_need_def m_def[symmetric] by (simp add: Let_def m_def)
  next
    case True
    then have l': "l' = \<lparr>alloclen = k - 2, ids = take (k - 1) (ids l @ replicate (k - 1 - length (ids l)) junk)\<rparr>"
      using assms(1) m unfolding mdb_midl_need_def m_def[symmetric]
      by (auto simp: Let_def k_def split: if_splits)
    have L: "length (ids l) = alloclen l + 1" "alloclen l + 1 < k" "idl_len l \<le> alloclen l"
      using assms(2) k True by (auto simp: idl_wf_def)
    have 0: "ids l' ! 0 = ids l ! 0" using L k by (simp add: l' nth_append)
    then have len: "idl_len l' = idl_len l" by (simp add: idl_len_def)
    have "idl_len l \<le> k - 2" "k - 2 < 2 ^ 32" using L k by linarith+
    then have wf: "idl_wf l'"
      using L k len by (simp add: idl_wf_def l')
    have "idl_elems l' = idl_elems l"
      using wf assms(2) len L k by (auto simp: idl_elems_map l' nth_append)
    with wf k show ?thesis by (simp add: l' m_def)
  qed
qed

section \<open>Properties\<close>

text \<open>Searching an ID list gives a position between 1 and the length plus one that splits the
  list: all IDs before it are greater than the wanted one, none from it on is, and the wanted ID is
  in the list exactly when it stands at that position.\<close>

theorem midl_search_correct:
  assumes "idl_desc l"
  shows "let r = mdb_midl_search l x in
    1 \<le> r \<and> r \<le> idl_len l + 1 \<and>
    (\<forall>i. 1 \<le> i \<and> i < r \<longrightarrow> x < ids l ! i) \<and> (\<forall>i. r \<le> i \<and> i \<le> idl_len l \<longrightarrow> ids l ! i \<le> x) \<and>
    (r \<le> idl_len l \<and> ids l ! r = x \<longleftrightarrow> x \<in> set (idl_elems l))"
proof -
  have wf: "idl_wf l" using assms by (simp add: idl_desc_def)
  have "x \<in> set (idl_elems l) \<longleftrightarrow> (\<exists>i. 1 \<le> i \<and> i \<le> idl_len l \<and> ids l ! i = x)"
    unfolding in_set_conv_nth length_idl_elems[OF wf]
    using nth_idl_elems[OF wf] by (metis One_nat_def Suc_eq_plus1 Suc_le_D Suc_le_eq le_add2)
  then show ?thesis
    using midl.search_range[OF assms, of x] midl.search_before[OF assms, of _ x] midl.search_at[OF assms, of x]
      midl.found_iff_member[OF assms, of x]
    by (auto simp: Let_def not_less)
qed

theorem midl_search_correct_witness:
  "let l = \<lparr>alloclen = 4, ids = [3, 9, 5, 2, 0]\<rparr>; r = mdb_midl_search l 5 in
    1 \<le> r \<and> r \<le> idl_len l + 1 \<and>
    (\<forall>i. 1 \<le> i \<and> i < r \<longrightarrow> 5 < ids l ! i) \<and> (\<forall>i. r \<le> i \<and> i \<le> idl_len l \<longrightarrow> ids l ! i \<le> 5) \<and>
    (r \<le> idl_len l \<and> ids l ! r = 5 \<longleftrightarrow> 5 \<in> set (idl_elems l))"
  unfolding Let_def
  by (rule midl_search_correct[unfolded Let_def]) (simp add: idl_desc_def idl_wf_def idl_len_def idl_elems_def)

text \<open>Appending to an ID list grows it when it is full and puts the ID at the end; the list only
  fails to take the ID when it has to grow and there is no memory.\<close>

theorem midl_append_correct:
  assumes "idl_wf l" "alloclen l + MDB_IDL_UM_MAX < 2 ^ 32"
  shows "if \<not> ok \<and> alloclen l \<le> idl_len l then mdb_midl_append ok junk l x = Err ENOMEM
    else \<exists>l'. mdb_midl_append ok junk l x = Ok l' \<and> idl_wf l' \<and> idl_elems l' = idl_elems l @ [x]"
proof (cases "mdb_midl_append ok junk l x")
  case (Ok l')
  have "\<not> (\<not> ok \<and> alloclen l \<le> idl_len l)" using Ok append_fails[of ok junk l x ENOMEM] by auto
  with Ok append_Ok[OF Ok assms] show ?thesis by auto
next
  case (Err e)
  then show ?thesis using append_fails[of ok junk l x e] by simp
next
  case Abort
  then show ?thesis by (auto simp: mdb_midl_append_def mdb_midl_grow_def split: if_splits)
qed

theorem midl_append_correct_witness:
  "\<exists>l'. mdb_midl_append True 0 \<lparr>alloclen = 1, ids = [1, 9]\<rparr> 4 = Ok l' \<and> idl_wf l' \<and>
    idl_elems l' = idl_elems \<lparr>alloclen = 1, ids = [1, 9]\<rparr> @ [4]"
  using midl_append_correct[of "\<lparr>alloclen = 1, ids = [1, 9]\<rparr>" True 0 4]
  by (simp add: idl_wf_def idl_len_def MDB_IDL_UM_MAX_def)

end
