(* ===== verification/Midl_Merge.thy ===== *)
theory Midl_Merge
  imports Midl
begin

text \<open>
  \<open>mdb_midl_xmerge\<close>: merging one descending ID list into another in place, from the end. While
  the loop runs, \<open>idl[0]\<close> holds the largest ID as a delimiter, so that the inner scan stops at
  the front of the list without an index check. A scan that ran past \<open>idl[0]\<close> would read
  out of the array; the model returns \<open>None\<close> there.
\<close>

section \<open>The loops\<close>

text \<open>\<open>for (; old_id < merge_id; old_id = idl[--j]) idl[k--] = old_id;\<close>\<close>

fun xmerge_scan :: "MDB_ID list \<Rightarrow> nat \<Rightarrow> nat \<Rightarrow> MDB_ID \<Rightarrow> MDB_ID \<Rightarrow> (MDB_ID list \<times> nat \<times> nat \<times> MDB_ID) option" where
  "xmerge_scan xs 0 k old m = (if old < m then None else Some (xs, 0, k, old))"
| "xmerge_scan xs (Suc j) k old m =
     (if old < m then let xs' = xs[k := old] in xmerge_scan xs' j (k - 1) (xs' ! j) m
      else Some (xs, Suc j, k, old))"

fun xmerge_loop :: "MDB_ID list \<Rightarrow> MDB_ID list \<Rightarrow> nat \<Rightarrow> nat \<Rightarrow> nat \<Rightarrow> MDB_ID \<Rightarrow> MDB_ID list option" where
  "xmerge_loop xs ms 0 j k old = Some xs"
| "xmerge_loop xs ms (Suc i) j k old =
     (let m = ms ! Suc i in
      case xmerge_scan xs j k old m of
        None \<Rightarrow> None
      | Some (xs', j', k', old') \<Rightarrow> xmerge_loop (xs'[k' := m]) ms i j' (k' - 1) old')"

definition mdb_midl_xmerge :: "MDB_IDL \<Rightarrow> MDB_IDL \<Rightarrow> MDB_IDL option" where
  "mdb_midl_xmerge idl merge =
     (let i = idl_len merge; j = idl_len idl; k = i + j;
          xs = (ids idl)[0 := - 1] in
      map_option (\<lambda>xs'. idl\<lparr>ids := xs'[0 := word_of_nat k]\<rparr>)
        (xmerge_loop xs (ids merge) i j k (xs ! j)))"

section \<open>The reference merge\<close>

text \<open>A merge of two ascending lists; the loops build its reverse from the back.\<close>

fun rmerge :: "'a::linorder list \<Rightarrow> 'a list \<Rightarrow> 'a list" where
  "rmerge xs [] = xs"
| "rmerge [] (m # ms) = m # rmerge [] ms"
| "rmerge (x # xs) (m # ms) = (if x < m then x # rmerge xs (m # ms) else m # rmerge (x # xs) ms)"

lemma mset_rmerge [simp]: "mset (rmerge xs ms) = mset xs + mset ms"
  by (induction xs ms rule: rmerge.induct) auto

lemma set_rmerge [simp]: "set (rmerge xs ms) = set xs \<union> set ms"
  by (metis mset_rmerge set_mset_mset set_mset_union)

lemma sorted_rmerge: "sorted xs \<Longrightarrow> sorted ms \<Longrightarrow> sorted (rmerge xs ms)"
  by (induction xs ms rule: rmerge.induct) auto

lemma rmerge_block:
  "(\<And>b. b \<in> set bs \<Longrightarrow> b < m) \<Longrightarrow> (xs = [] \<or> \<not> hd xs < m) \<Longrightarrow>
   rmerge (bs @ xs) (m # ms) = bs @ m # rmerge xs ms"
proof (induction bs)
  case Nil
  then show ?case by (cases xs) auto
next
  case (Cons b bs)
  then show ?case by simp
qed

section \<open>Slices\<close>

definition segm :: "'a list \<Rightarrow> nat \<Rightarrow> nat \<Rightarrow> 'a list" where
  "segm xs a b = map ((!) xs) [a..<b]"

lemma length_slice [simp]: "length (segm xs a b) = b - a"
  by (simp add: segm_def)

lemma segm_append: "a \<le> b \<Longrightarrow> b \<le> c \<Longrightarrow> segm xs a c = segm xs a b @ segm xs b c"
  unfolding segm_def by (metis le_add_diff_inverse map_append upt_add_eq_append)

lemma segm_Suc: "a \<le> b \<Longrightarrow> segm xs a (Suc b) = segm xs a b @ [xs ! b]"
  by (simp add: segm_def)

lemma segm_cong: "(\<And>p. a \<le> p \<Longrightarrow> p < b \<Longrightarrow> xs ! p = ys ! p) \<Longrightarrow> segm xs a b = segm ys a b"
  by (auto simp: segm_def)

lemma segm_shift:
  assumes "\<And>p. a \<le> p \<Longrightarrow> p < b \<Longrightarrow> ys ! (p + d) = xs ! p"
  shows "segm ys (a + d) (b + d) = segm xs a b"
proof (rule nth_equalityI)
  fix i
  assume "i < length (segm ys (a + d) (b + d))"
  then show "segm ys (a + d) (b + d) ! i = segm xs a b ! i"
    using assms[of "a + i"] by (simp add: segm_def add.commute add.left_commute)
qed simp

lemma segm_empty [simp]: "b \<le> a \<Longrightarrow> segm xs a b = []"
  by (simp add: segm_def)

lemma idl_elems_slice: "idl_wf l \<Longrightarrow> idl_elems l = segm (ids l) 1 (idl_len l + 1)"
  by (simp add: idl_elems_map segm_def)

section \<open>Correctness of the loops\<close>

lemma xmerge_scan_spec:
  assumes "old = xs ! j" "xs ! 0 = - 1" "j < k" "k < length xs"
  shows "\<exists>xs' j'. xmerge_scan xs j k old m = Some (xs', j', k - (j - j'), xs' ! j') \<and> j' \<le> j \<and>
    length xs' = length xs \<and> (\<forall>p\<le>j'. xs' ! p = xs ! p) \<and>
    (\<forall>p. j' < p \<longrightarrow> p \<le> j \<longrightarrow> xs' ! (p + (k - j)) = xs ! p \<and> xs ! p < m) \<and>
    (\<forall>p>k. xs' ! p = xs ! p) \<and> \<not> xs ! j' < m"
  using assms
proof (induction xs j k old m rule: xmerge_scan.induct)
  case (1 xs k old m)
  have "\<not> (- 1 :: MDB_ID) < m" using word_order.extremum[of m] by (simp add: not_less)
  with 1 show ?case by simp
next
  case (2 xs j k old m)
  show ?case
  proof (cases "old < m")
    case False
    then show ?thesis using 2 by auto
  next
    case True
    define ys where "ys = xs[k := old]"
    have ys: "ys ! 0 = - 1" "j < k - 1" "k - 1 < length ys" "length ys = length xs"
      using "2.prems" by (auto simp: ys_def)
    from "2.IH"[OF True ys_def refl ys(1-3)] obtain xs' j' where
      s: "xmerge_scan ys j (k - 1) (ys ! j) m = Some (xs', j', k - 1 - (j - j'), xs' ! j')"
      "j' \<le> j" "length xs' = length ys" "\<forall>p\<le>j'. xs' ! p = ys ! p"
      "\<forall>p. j' < p \<longrightarrow> p \<le> j \<longrightarrow> xs' ! (p + (k - 1 - j)) = ys ! p \<and> ys ! p < m"
      "\<forall>p>k - 1. xs' ! p = ys ! p" "\<not> ys ! j' < m"
      by blast
    have same: "ys ! p = xs ! p" if "p \<noteq> k" for p using that by (simp add: ys_def)
    have lt: "Suc j < k" using "2.prems" by simp
    have moved: "xs' ! (p + (k - Suc j)) = xs ! p \<and> xs ! p < m" if p: "j' < p" "p \<le> Suc j" for p
    proof (cases "p = Suc j")
      case True
      then have "xs' ! (p + (k - Suc j)) = ys ! k" using s(6) lt by simp
      also have "\<dots> = xs ! p" using "2.prems" True by (simp add: ys_def)
      finally show ?thesis using True \<open>old < m\<close> "2.prems"(1) by simp
    next
      case False
      then have "p \<le> j" using p by simp
      with s(5) p(1) have "xs' ! (p + (k - 1 - j)) = ys ! p \<and> ys ! p < m" by blast
      then show ?thesis using same[of p] \<open>p \<le> j\<close> lt by simp
    qed
    have "xmerge_scan xs (Suc j) k old m = Some (xs', j', k - (Suc j - j'), xs' ! j')"
      using True s(1,2) by (simp add: ys_def[symmetric] Let_def Suc_diff_le)
    moreover have "xs' ! p = xs ! p" if "p \<le> j'" for p
      using s(2,4) lt that same[of p] by simp
    moreover have "xs' ! p = xs ! p" if "k < p" for p
      using s(6) that same[of p] by simp
    moreover have "\<not> xs ! j' < m" using s(2,7) lt same[of j'] by simp
    ultimately show ?thesis using moved s(2,3) ys(4) by (intro exI[of _ xs'] exI[of _ j']) auto
  qed
qed

lemma xmerge_loop_spec:
  assumes "old = xs ! j" "xs ! 0 = - 1" "k = i + j" "k < length xs"
  shows "\<exists>xs'. xmerge_loop xs ms i j k old = Some xs' \<and> length xs' = length xs \<and>
    (\<forall>p>k. xs' ! p = xs ! p) \<and>
    segm xs' 1 (k + 1) = rev (rmerge (rev (segm xs 1 (j + 1))) (rev (segm ms 1 (i + 1))))"
  using assms
proof (induction xs ms i j k old rule: xmerge_loop.induct)
  case (1 xs ms j k old)
  then show ?case by simp
next
  case (2 xs ms i j k old)
  define m where "m = ms ! Suc i"
  have "j < k" using "2.prems" by simp
  from xmerge_scan_spec[OF "2.prems"(1,2) this "2.prems"(4), of m] obtain ys j' where
    s: "xmerge_scan xs j k old m = Some (ys, j', k - (j - j'), ys ! j')"
    and j': "j' \<le> j" and len: "length ys = length xs"
    and low: "\<And>p. p \<le> j' \<Longrightarrow> ys ! p = xs ! p"
    and mid: "\<And>p. j' < p \<Longrightarrow> p \<le> j \<Longrightarrow> ys ! (p + (k - j)) = xs ! p \<and> xs ! p < m"
    and high: "\<And>p. k < p \<Longrightarrow> ys ! p = xs ! p" and stop: "\<not> xs ! j' < m"
    by blast
  define k' where "k' = k - (j - j')"
  define zs where "zs = ys[k' := m]"
  have k': "k' = Suc (i + j')" "k' \<le> k" "k - j = Suc i" using "2.prems"(3) j' by (auto simp: k'_def)
  have zlen: "length zs = length xs" by (simp add: zs_def len)
  have zlow: "zs ! p = xs ! p" if "p \<le> j'" for p using that k' low by (simp add: zs_def)
  have zk: "zs ! k' = m" using k' "2.prems"(4) len by (simp add: zs_def)
  have zhigh: "zs ! p = ys ! p" if "k' < p" for p using that by (simp add: zs_def)
  have "\<exists>xs'. xmerge_loop zs ms i j' (k' - 1) (ys ! j') = Some xs' \<and> length xs' = length zs \<and>
    (\<forall>p>k' - 1. xs' ! p = zs ! p) \<and>
    segm xs' 1 (k' - 1 + 1) = rev (rmerge (rev (segm zs 1 (j' + 1))) (rev (segm ms 1 (i + 1))))"
    unfolding zs_def
    by (rule "2.IH"[OF m_def s refl refl refl, folded k'_def])
      (use k' low[of j'] low[of 0] "2.prems" zlow[of j'] zlow[of 0] zlen len in \<open>auto simp: zs_def[symmetric]\<close>)
  then obtain xs' where r: "xmerge_loop zs ms i j' (k' - 1) (ys ! j') = Some xs'" "length xs' = length zs"
    "\<And>p. k' \<le> p \<Longrightarrow> xs' ! p = zs ! p"
    "segm xs' 1 k' = rev (rmerge (rev (segm zs 1 (j' + 1))) (rev (segm ms 1 (i + 1))))"
    using k' by auto
  have run: "xmerge_loop xs ms (Suc i) j k old = Some xs'"
    using s r(1) by (simp add: m_def[symmetric] k'_def[symmetric] zs_def[symmetric] Let_def)
  have hi: "xs' ! p = xs ! p" if "k < p" for p
    using r(3)[of p] that k' zhigh[of p] high[of p] by simp
  have block: "segm xs' (k' + 1) (k + 1) = segm xs (j' + 1) (j + 1)"
  proof -
    have "segm xs' (j' + 1 + Suc i) (j + 1 + Suc i) = segm xs (j' + 1) (j + 1)"
    proof (rule segm_shift)
      fix p assume p: "j' + 1 \<le> p" "p < j + 1"
      then have "xs' ! (p + Suc i) = ys ! (p + Suc i)" using r(3)[of "p + Suc i"] zhigh[of "p + Suc i"] k' by simp
      then show "xs' ! (p + Suc i) = xs ! p" using mid[of p] p k'(3) by simp
    qed
    then show ?thesis using k' "2.prems"(3) by (simp add: add.commute add.left_commute)
  qed
  have S1: "segm xs' 1 (k + 1) = segm xs' 1 k' @ m # segm xs' (k' + 1) (k + 1)"
    using k' segm_append[of 1 k' "k + 1" xs'] segm_append[of k' "k' + 1" "k + 1" xs'] r(3)[of k'] zk
    by (simp add: segm_Suc)
  have S2: "rmerge (rev (segm xs 1 (j + 1))) (rev (segm ms 1 (Suc i + 1))) =
      rev (segm xs (j' + 1) (j + 1)) @ m # rmerge (rev (segm xs 1 (j' + 1))) (rev (segm ms 1 (i + 1)))"
  proof -
    have "rev (segm xs 1 (j + 1)) = rev (segm xs (j' + 1) (j + 1)) @ rev (segm xs 1 (j' + 1))"
      using j' segm_append[of 1 "j' + 1" "j + 1" xs] by simp
    moreover have "rev (segm ms 1 (Suc i + 1)) = m # rev (segm ms 1 (i + 1))"
      by (simp add: segm_Suc m_def)
    moreover have "b < m" if "b \<in> set (rev (segm xs (j' + 1) (j + 1)))" for b
      using that mid by (auto simp: segm_def)
    moreover have "rev (segm xs 1 (j' + 1)) = [] \<or> \<not> hd (rev (segm xs 1 (j' + 1))) < m"
      using stop by (cases j') (simp_all add: segm_Suc)
    ultimately show ?thesis
      using rmerge_block[of "rev (segm xs (j' + 1) (j + 1))" m "rev (segm xs 1 (j' + 1))" "rev (segm ms 1 (i + 1))"]
      by simp
  qed
  have S3: "segm zs 1 (j' + 1) = segm xs 1 (j' + 1)"
    by (rule segm_cong) (simp add: zlow)
  have "segm xs' 1 (k + 1) = rev (rmerge (rev (segm xs 1 (j + 1))) (rev (segm ms 1 (Suc i + 1))))"
    by (simp only: S1 S2 r(4) S3 block rev_append rev.simps rev_rev_ident append_assoc append.simps)
  with run hi r(2) zlen show ?case by (intro exI[of _ xs'] conjI allI impI) simp_all
qed

text \<open>Merging two descending lists never leaves the array and gives their descending merge.\<close>

lemma xmerge_Some:
  assumes "idl_wf idl" "idl_wf merge" "idl_len idl + idl_len merge \<le> alloclen idl"
  shows "\<exists>r. mdb_midl_xmerge idl merge = Some r \<and> idl_wf r \<and>
    idl_elems r = rev (rmerge (rev (idl_elems idl)) (rev (idl_elems merge)))"
proof -
  define xs where "xs = (ids idl)[0 := - 1 :: MDB_ID]"
  define k where "k = idl_len merge + idl_len idl"
  have len: "length xs = alloclen idl + 1" and k: "k < length xs" "k < 2 ^ 32"
    using assms(1,3) by (auto simp: xs_def k_def idl_wf_def)
  have "xs ! 0 = - 1" using len by (simp add: xs_def)
  from xmerge_loop_spec[OF refl this k_def k(1), of "ids merge"] obtain ys where
    ys: "xmerge_loop xs (ids merge) (idl_len merge) (idl_len idl) k (xs ! idl_len idl) = Some ys"
    "length ys = length xs"
    "segm ys 1 (k + 1) = rev (rmerge (rev (segm xs 1 (idl_len idl + 1))) (rev (segm (ids merge) 1 (idl_len merge + 1))))"
    by blast
  define r where "r = idl\<lparr>ids := ys[0 := word_of_nat k]\<rparr>"
  have run: "mdb_midl_xmerge idl merge = Some r"
    using ys(1) by (simp add: mdb_midl_xmerge_def Let_def xs_def[symmetric] k_def[symmetric] r_def del: of_nat_add)
  have rl: "idl_len r = k"
    using ys(2) len k by (simp add: r_def idl_len_def unat_of_nat)
  have wf: "idl_wf r"
    using rl ys(2) len assms(1,3) by (simp add: idl_wf_def r_def k_def)
  have "idl_elems r = segm ys 1 (k + 1)"
    unfolding idl_elems_slice[OF wf] rl by (rule segm_cong) (simp add: r_def)
  moreover have "segm xs 1 (idl_len idl + 1) = idl_elems idl"
    unfolding idl_elems_slice[OF assms(1)] by (rule segm_cong) (simp add: xs_def)
  ultimately show ?thesis
    using run wf ys(3) idl_elems_slice[OF assms(2)] by auto
qed

section \<open>Properties\<close>

text \<open>Merging one sorted ID list into another with room for both never leaves the array, keeps the
  list well-formed and gives the IDs of both, in descending order.\<close>

theorem midl_xmerge_correct:
  assumes "idl_desc idl" "idl_desc merge" "idl_len idl + idl_len merge \<le> alloclen idl"
  shows "\<exists>r. mdb_midl_xmerge idl merge = Some r \<and> idl_wf r \<and>
    mset (idl_elems r) = mset (idl_elems idl) + mset (idl_elems merge) \<and> sorted (rev (idl_elems r))"
proof -
  have wf: "idl_wf idl" "idl_wf merge" using assms(1,2) by (simp_all add: idl_desc_def)
  have s: "sorted (rev (idl_elems l))" if "idl_desc l" for l
    using that by (auto simp: idl_desc_def sorted_wrt_rev intro: sorted_wrt_mono_rel[of _ "(>)"])
  obtain r where r: "mdb_midl_xmerge idl merge = Some r" "idl_wf r"
    "idl_elems r = rev (rmerge (rev (idl_elems idl)) (rev (idl_elems merge)))"
    using xmerge_Some[OF wf assms(3)] by blast
  with sorted_rmerge[OF s[OF assms(1)] s[OF assms(2)]] show ?thesis by auto
qed

theorem midl_xmerge_correct_witness:
  "\<exists>r. mdb_midl_xmerge \<lparr>alloclen = 4, ids = [2, 9, 5, 0, 0]\<rparr> \<lparr>alloclen = 2, ids = [2, 7, 1]\<rparr> = Some r \<and> idl_wf r \<and>
    mset (idl_elems r) = mset (idl_elems \<lparr>alloclen = 4, ids = [2, 9, 5, 0, 0]\<rparr>) + mset (idl_elems \<lparr>alloclen = 2, ids = [2, 7, 1]\<rparr>) \<and>
    sorted (rev (idl_elems r))"
  by (rule midl_xmerge_correct) (simp_all add: idl_desc_def idl_wf_def idl_len_def idl_elems_def)

end
