(* ===== verification/Id2l.thy ===== *)
theory Id2l
  imports Midl
begin

text \<open>
  ID2 lists (\<open>midl.c\<close>): the dirty list of a write transaction, an array of (page number,
  pointer) pairs in ascending order of page number. The first element's \<open>mid\<close> is the count.
  Pointers are abstract addresses. The component implements a finite map from page numbers to
  pages, which is the contract the page allocator uses it under.
\<close>

section \<open>Data\<close>

record MDB_ID2 =
  mid :: MDB_ID
  mptr :: nat

type_synonym MDB_ID2L = "MDB_ID2 list"

definition id2l_len :: "MDB_ID2L \<Rightarrow> nat" where
  "id2l_len l = unat (mid (l ! 0))"

definition id2l_elems :: "MDB_ID2L \<Rightarrow> MDB_ID2 list" where
  "id2l_elems l = take (id2l_len l) (tl l)"

text \<open>The arrays are allocated with \<open>MDB_IDL_UM_SIZE = MDB_IDL_UM_MAX + 1\<close> elements.\<close>

definition id2l_wf :: "MDB_ID2L \<Rightarrow> bool" where
  "id2l_wf l \<longleftrightarrow> length l = MDB_IDL_UM_MAX + 1 \<and> id2l_len l \<le> MDB_IDL_UM_MAX"

definition id2l_sorted :: "MDB_ID2L \<Rightarrow> bool" where
  "id2l_sorted l \<longleftrightarrow> id2l_wf l \<and> sorted_wrt (<) (map mid (id2l_elems l))"

section \<open>Operations\<close>

definition mdb_mid2l_search :: "MDB_ID2L \<Rightarrow> MDB_ID \<Rightarrow> nat" where
  "mdb_mid2l_search l i =
     id_search_loop (\<lambda>k. CMP i (mid (l ! k))) 0 1 0 (id2l_len l mod 2 ^ 32)"

text \<open>\<open>for (i = ids[0].mid; i > x; i--) ids[i] = ids[i-1];\<close>\<close>

fun id2l_shift :: "MDB_ID2L \<Rightarrow> nat \<Rightarrow> nat \<Rightarrow> MDB_ID2L" where
  "id2l_shift l x 0 = l"
| "id2l_shift l x (Suc i) = (if Suc i > x then id2l_shift (l[Suc i := l ! i]) x i else l)"

text \<open>The result codes are the C function's: \<open>0\<close>, \<open>-1\<close> (already present), \<open>-2\<close> (no room).\<close>

definition mdb_mid2l_insert :: "MDB_ID2L \<Rightarrow> MDB_ID2 \<Rightarrow> int \<times> MDB_ID2L" where
  "mdb_mid2l_insert l e =
     (let x = mdb_mid2l_search l (mid e) in
      if x < 1 then (- 2, l)
      else if x \<le> id2l_len l \<and> mid (l ! x) = mid e then (- 1, l)
      else if id2l_len l \<ge> MDB_IDL_UM_MAX then (- 2, l)
      else
        let l1 = l[0 := (l ! 0)\<lparr>mid := mid (l ! 0) + 1\<rparr>] in
        (0, (id2l_shift l1 x (id2l_len l1))[x := e]))"

definition mdb_mid2l_append :: "MDB_ID2L \<Rightarrow> MDB_ID2 \<Rightarrow> int \<times> MDB_ID2L" where
  "mdb_mid2l_append l e =
     (if id2l_len l \<ge> MDB_IDL_UM_MAX then (- 2, l)
      else
        let l1 = l[0 := (l ! 0)\<lparr>mid := mid (l ! 0) + 1\<rparr>] in
        (0, l1[id2l_len l1 := e]))"

section \<open>Search\<close>

lemma length_id2l_elems: "id2l_wf l \<Longrightarrow> length (id2l_elems l) = id2l_len l"
  by (simp add: id2l_elems_def id2l_wf_def)

lemma nth_id2l_elems: "id2l_wf l \<Longrightarrow> i < id2l_len l \<Longrightarrow> id2l_elems l ! i = l ! (i + 1)"
  by (simp add: id2l_elems_def id2l_wf_def nth_tl)

lemma id2l_sorted_nth:
  assumes "id2l_sorted l" "1 \<le> i" "i < j" "j \<le> id2l_len l"
  shows "mid (l ! i) < mid (l ! j)"
proof -
  have "map mid (id2l_elems l) ! (i - 1) < map mid (id2l_elems l) ! (j - 1)"
    using assms by (auto simp: id2l_sorted_def length_id2l_elems sorted_wrt_iff_nth_less simp del: nth_map)
  then show ?thesis using assms by (simp add: id2l_sorted_def nth_id2l_elems length_id2l_elems)
qed

lemma mdb_mid2l_search_loop:
  assumes "id2l_sorted l"
  shows "let r = mdb_mid2l_search l x in
    1 \<le> r \<and> r \<le> id2l_len l + 1 \<and> (\<forall>i. 1 \<le> i \<longrightarrow> i < r \<longrightarrow> CMP x (mid (l ! i)) > 0) \<and>
    (\<forall>i. r < i \<longrightarrow> i \<le> id2l_len l \<longrightarrow> CMP x (mid (l ! i)) < 0) \<and> (r \<le> id2l_len l \<longrightarrow> CMP x (mid (l ! r)) \<le> 0)"
proof -
  have n: "id2l_len l mod 2 ^ 32 = id2l_len l"
    using assms by (intro mod_less) (simp add: id2l_sorted_def id2l_wf_def MDB_IDL_UM_MAX_def)
  have "falling (\<lambda>k. CMP x (mid (l ! k))) (id2l_len l)"
    unfolding falling_def CMP_def using id2l_sorted_nth[OF assms] by (fastforce split: if_splits)
  then show ?thesis
    unfolding mdb_mid2l_search_def n by (rule id_search_loop_bounds) auto
qed

interpretation mid2l: id_search mdb_mid2l_search "\<lambda>l i. mid (l ! i)" id2l_len "(<)" id2l_sorted
proof
  fix l x i
  assume l: "id2l_sorted l"
  note r = mdb_mid2l_search_loop[OF l, of x, unfolded Let_def]
  show "1 \<le> mdb_mid2l_search l x \<and> mdb_mid2l_search l x \<le> id2l_len l + 1" using r by blast
  show "mid (l ! i) < x" if "1 \<le> i" "i < mdb_mid2l_search l x"
  proof -
    have "CMP x (mid (l ! i)) > 0" using r that by blast
    then show ?thesis by (simp add: CMP_def split: if_splits)
  qed
  show "\<not> mid (l ! i) < x" if "mdb_mid2l_search l x \<le> i" "i \<le> id2l_len l"
  proof -
    have "CMP x (mid (l ! i)) \<le> 0"
      using r that by (cases "i = mdb_mid2l_search l x") (auto intro: less_imp_le)
    then show ?thesis by (simp add: CMP_def split: if_splits)
  qed
qed (auto intro: id2l_sorted_nth)

section \<open>The map an ID2 list stands for\<close>

definition id2l_map :: "MDB_ID2L \<Rightarrow> MDB_ID \<Rightarrow> nat option" where
  "id2l_map l = map_of (map (\<lambda>e. (mid e, mptr e)) (id2l_elems l))"

lemma id2l_mem_iff:
  assumes "id2l_sorted l"
  shows "x \<in> set (map mid (id2l_elems l)) \<longleftrightarrow> (\<exists>i. 1 \<le> i \<and> i \<le> id2l_len l \<and> mid (l ! i) = x)"
proof -
  have wf: "id2l_wf l" using assms by (simp add: id2l_sorted_def)
  have "x \<in> set (map mid (id2l_elems l)) \<longleftrightarrow> (\<exists>i<id2l_len l. mid (l ! Suc i) = x)"
    unfolding in_set_conv_nth using wf
    by (simp add: length_id2l_elems nth_id2l_elems cong: conj_cong)
  also have "\<dots> \<longleftrightarrow> (\<exists>i. 1 \<le> i \<and> i \<le> id2l_len l \<and> mid (l ! i) = x)"
    by (metis One_nat_def Suc_le_D Suc_le_eq le_add1 plus_1_eq_Suc)
  finally show ?thesis .
qed

lemma id2l_map_dom: "id2l_map l x = None \<longleftrightarrow> x \<notin> set (map mid (id2l_elems l))"
  by (simp add: id2l_map_def map_of_eq_None_iff image_image)

lemma id2l_map_None_iff:
  "id2l_sorted l \<Longrightarrow> id2l_map l x = None \<longleftrightarrow>
   \<not> (mdb_mid2l_search l x \<le> id2l_len l \<and> mid (l ! mdb_mid2l_search l x) = x)"
  using mid2l.found_iff_member[of l x] id2l_mem_iff[of l x] id2l_map_dom[of l x] by simp

lemma id2l_shift_spec:
  assumes "n < length l"
  shows "length (id2l_shift l x n) = length l \<and>
    (\<forall>i<length l. id2l_shift l x n ! i = (if x < i \<and> i \<le> n then l ! (i - 1) else l ! i))"
  using assms
proof (induction l x n rule: id2l_shift.induct)
  case (1 l x)
  then show ?case by auto
next
  case (2 l x n)
  then show ?case by (auto simp: nth_list_update le_Suc_eq)
qed

lemma insert_elems:
  assumes "id2l_sorted l" "id2l_map l (mid e) = None" "id2l_len l < MDB_IDL_UM_MAX"
  shows "\<exists>l'. mdb_mid2l_insert l e = (0, l') \<and> id2l_sorted l' \<and>
    id2l_elems l' = insert_at (mdb_mid2l_search l (mid e) - 1) e (id2l_elems l)"
proof -
  define x where "x = mdb_mid2l_search l (mid e)"
  define l1 where "l1 = l[0 := (l ! 0)\<lparr>mid := mid (l ! 0) + 1\<rparr>]"
  define l' where "l' = (id2l_shift l1 x (id2l_len l1))[x := e]"
  have wf: "id2l_wf l" using assms(1) by (simp add: id2l_sorted_def)
  have x: "1 \<le> x" "x \<le> id2l_len l + 1" using mid2l.search_range[OF assms(1)] by (simp_all add: x_def)
  have absent: "\<not> (x \<le> id2l_len l \<and> mid (l ! x) = mid e)"
    using assms(1,2) id2l_map_None_iff x_def by blast
  have L: "length l = MDB_IDL_UM_MAX + 1" using wf by (simp add: id2l_wf_def)
  have n1: "id2l_len l1 = id2l_len l + 1"
  proof -
    have "unat (mid (l ! 0) + 1) = unat (mid (l ! 0)) + 1"
      by (rule unat_inc[of _ MDB_IDL_UM_MAX]) (use assms(3) in \<open>simp_all add: id2l_len_def MDB_IDL_UM_MAX_def\<close>)
    then show ?thesis using L by (simp add: l1_def id2l_len_def)
  qed
  have l1: "length l1 = length l" "l1 ! i = l ! i" if "i \<noteq> 0" for i using that by (simp_all add: l1_def)
  have sh: "length (id2l_shift l1 x (id2l_len l1)) = length l"
    "\<And>i. i < length l \<Longrightarrow> id2l_shift l1 x (id2l_len l1) ! i = (if x < i \<and> i \<le> id2l_len l + 1 then l1 ! (i - 1) else l1 ! i)"
    using id2l_shift_spec[of "id2l_len l1" l1 x] n1 L assms(3) by (simp_all add: l1_def)
  have run: "mdb_mid2l_insert l e = (0, l')"
    using x absent assms(3) by (simp add: mdb_mid2l_insert_def x_def[symmetric] Let_def l'_def l1_def)
  have n': "id2l_len l' = id2l_len l + 1"
    using x sh L n1 by (simp add: l'_def id2l_len_def)
  have wf': "id2l_wf l'" using n' sh L assms(3) by (simp add: id2l_wf_def l'_def)
  have elems: "id2l_elems l' = insert_at (x - 1) e (id2l_elems l)"
  proof (rule nth_equalityI)
    show "length (id2l_elems l') = length (insert_at (x - 1) e (id2l_elems l))"
      using wf wf' n' by (simp add: length_id2l_elems)
  next
    fix i
    assume "i < length (id2l_elems l')"
    then have i: "i < id2l_len l + 1" using wf' n' by (simp add: length_id2l_elems)
    have "id2l_elems l' ! i = (if Suc i < x then l ! Suc i else if Suc i = x then e else l ! i)"
      using i wf' n' sh x L assms(3) l1(2) by (auto simp: nth_id2l_elems l'_def)
    also have "\<dots> = insert_at (x - 1) e (id2l_elems l) ! i"
      using i x wf by (auto simp: nth_insert_at length_id2l_elems nth_id2l_elems)
    finally show "id2l_elems l' ! i = insert_at (x - 1) e (id2l_elems l) ! i" .
  qed
  have "sorted_wrt (<) (map mid (id2l_elems l'))"
  proof -
    let ?E = "map mid (id2l_elems l)"
    have "sorted_wrt (<) ?E" using assms(1) by (simp add: id2l_sorted_def)
    moreover have "a < mid e" if "a \<in> set (take (x - 1) ?E)" for a
    proof -
      from that obtain i where "i < length (take (x - 1) ?E)" "a = take (x - 1) ?E ! i"
        by (auto simp only: in_set_conv_nth)
      then have "i < x - 1" "i < id2l_len l" "a = mid (l ! Suc i)"
        using wf by (simp_all add: length_id2l_elems nth_id2l_elems)
      then show ?thesis using mid2l.search_before[OF assms(1), of "Suc i" "mid e"] by (simp add: x_def)
    qed
    moreover have "mid e < b" if "b \<in> set (drop (x - 1) ?E)" for b
    proof -
      from that obtain i where "i < length (drop (x - 1) ?E)" "b = drop (x - 1) ?E ! i"
        by (auto simp only: in_set_conv_nth)
      then have "x + i \<le> id2l_len l" "b = mid (l ! (x + i))"
        using wf x by (simp_all add: length_id2l_elems nth_id2l_elems)
      then show ?thesis
        using mid2l.absent_iff_before_after[OF assms(1) absent[unfolded x_def], of "x + i"] by (simp add: x_def)
    qed
    ultimately show ?thesis
      unfolding elems insert_at_map by (rule sorted_wrt_insert_at)
  qed
  with run wf' elems show ?thesis by (simp add: id2l_sorted_def x_def)
qed

lemma map_of_insert_at:
  "distinct (map fst (insert_at i (k, v) xs)) \<Longrightarrow> map_of (insert_at i (k, v) xs) = (map_of xs)(k \<mapsto> v)"
proof -
  assume d: "distinct (map fst (insert_at i (k, v) xs))"
  have "map_of (drop i xs) k = None \<and> map_of (take i xs) k = None"
    using d by (auto simp: insert_at_def map_of_eq_None_iff)
  then have "map_of (insert_at i (k, v) xs) = (map_of (take i xs @ drop i xs))(k \<mapsto> v)"
    by (auto simp: insert_at_def map_of_append fun_eq_iff map_add_def simp del: append_take_drop_id split: option.splits)
  then show ?thesis by simp
qed

lemma insert_map:
  assumes "id2l_sorted l" "id2l_map l (mid e) = None" "id2l_len l < MDB_IDL_UM_MAX"
  shows "\<exists>l'. mdb_mid2l_insert l e = (0, l') \<and> id2l_sorted l' \<and> id2l_map l' = (id2l_map l)(mid e \<mapsto> mptr e)"
proof -
  obtain l' where l': "mdb_mid2l_insert l e = (0, l')" "id2l_sorted l'"
    "id2l_elems l' = insert_at (mdb_mid2l_search l (mid e) - 1) e (id2l_elems l)"
    using insert_elems[OF assms] by blast
  let ?kv = "\<lambda>e. (mid e, mptr e)"
  have eq: "map ?kv (id2l_elems l') = insert_at (mdb_mid2l_search l (mid e) - 1) (mid e, mptr e) (map ?kv (id2l_elems l))"
    by (simp add: l'(3) insert_at_map)
  have "distinct (map mid (id2l_elems l'))"
    using l'(2) by (auto simp: id2l_sorted_def strict_sorted_iff)
  then have "distinct (map fst (map ?kv (id2l_elems l')))" by (simp add: comp_def)
  then have "id2l_map l' = (id2l_map l)(mid e \<mapsto> mptr e)"
    unfolding id2l_map_def eq by (rule map_of_insert_at)
  with l' show ?thesis by blast
qed

lemma insert_present:
  "id2l_sorted l \<Longrightarrow> id2l_map l (mid e) \<noteq> None \<Longrightarrow> mdb_mid2l_insert l e = (- 1, l)"
  using id2l_map_None_iff[of l "mid e"] mid2l.search_range[of l "mid e"]
  by (auto simp: mdb_mid2l_insert_def Let_def)

lemma insert_full:
  "id2l_sorted l \<Longrightarrow> id2l_map l (mid e) = None \<Longrightarrow> id2l_len l = MDB_IDL_UM_MAX \<Longrightarrow>
   mdb_mid2l_insert l e = (- 2, l)"
  using id2l_map_None_iff[of l "mid e"] by (auto simp: mdb_mid2l_insert_def Let_def)

section \<open>Properties\<close>

text \<open>The sorted array of dirty pages is a finite map from page numbers to pages: inserting updates
  the map at the page number, refuses a page number that is present and a full array, and then leaves
  the array as it is.\<close>

theorem mid2l_insert_refines_map:
  assumes "id2l_sorted l"
  shows "case id2l_map l (mid e) of
      Some _ \<Rightarrow> mdb_mid2l_insert l e = (- 1, l)
    | None \<Rightarrow> if id2l_len l = MDB_IDL_UM_MAX then mdb_mid2l_insert l e = (- 2, l)
        else \<exists>l'. mdb_mid2l_insert l e = (0, l') \<and> id2l_sorted l' \<and> id2l_map l' = (id2l_map l)(mid e \<mapsto> mptr e)"
proof -
  have "id2l_len l \<le> MDB_IDL_UM_MAX" using assms by (simp add: id2l_sorted_def id2l_wf_def)
  then show ?thesis
    using insert_present[OF assms, of e] insert_full[OF assms, of e] insert_map[OF assms, of e]
    by (cases "id2l_map l (mid e)") auto
qed

theorem mid2l_insert_refines_map_witness:
  "\<exists>l'. mdb_mid2l_insert (replicate (MDB_IDL_UM_MAX + 1) \<lparr>mid = 0, mptr = 0\<rparr>) \<lparr>mid = 7, mptr = 3\<rparr> = (0, l') \<and>
    id2l_sorted l' \<and> id2l_map l' 7 = Some 3"
proof -
  define l where "l = replicate (MDB_IDL_UM_MAX + 1) \<lparr>mid = 0, mptr = 0\<rparr>"
  have l: "id2l_sorted l" "id2l_map l 7 = None" "id2l_len l = 0"
    by (simp_all add: l_def id2l_sorted_def id2l_wf_def id2l_len_def id2l_elems_def id2l_map_def MDB_IDL_UM_MAX_def)
  have "id2l_len l \<noteq> MDB_IDL_UM_MAX" using l(3) by (simp add: MDB_IDL_UM_MAX_def)
  then show ?thesis
    using mid2l_insert_refines_map[OF l(1), of "\<lparr>mid = 7, mptr = 3\<rparr>"] l(2) unfolding l_def[symmetric] by auto
qed

end
