(* ===== verification/Compare.thy ===== *)
theory Compare
  imports DLMDB_Prelude
begin

text \<open>
  The key comparison functions of \<open>mdb.c\<close>, on byte strings, and the contract the B-tree code
  uses them under: the locale \<open>key_order\<close>, interpreted for each of them. Integers in keys are
  little-endian (the \<open>BYTE_ORDER == LITTLE_ENDIAN\<close> variant of the source).
\<close>

section \<open>The comparison functions\<close>

text \<open>The sign of C's \<open>memcmp\<close> on two areas of equal length.\<close>

fun memcmp :: "bytes \<Rightarrow> bytes \<Rightarrow> int" where
  "memcmp (x # xs) (y # ys) = (if x = y then memcmp xs ys else if x < y then - 1 else 1)"
| "memcmp xs ys = 0"

text \<open>\<open>len\<close> is an \<open>unsigned int\<close>.\<close>

definition mdb_cmp_memn :: "bytes \<Rightarrow> bytes \<Rightarrow> int" where
  "mdb_cmp_memn a b =
     (let len_diff = int (length a) - int (length b);
          len = (if len_diff > 0 then length b else length a) mod 2 ^ 32;
          len_diff = (if len_diff > 0 then 1 else len_diff);
          diff = memcmp (take len a) (take len b)
      in if diff \<noteq> 0 then diff else if len_diff < 0 then - 1 else len_diff)"

text \<open>\<open>while (p1 > p1_lim) { diff = *--p1 - *--p2; if (diff) return diff; }\<close>\<close>

function memnr_loop :: "bytes \<Rightarrow> bytes \<Rightarrow> nat \<Rightarrow> nat \<Rightarrow> nat \<Rightarrow> int" where
  "memnr_loop a b p1 p2 p1_lim =
     (if p1 > p1_lim then
        let diff = int (unat (a ! (p1 - 1))) - int (unat (b ! (p2 - 1)))
        in if diff \<noteq> 0 then diff else memnr_loop a b (p1 - 1) (p2 - 1) p1_lim
      else 0)"
  by pat_completeness auto
termination by (relation "measure (\<lambda>(a, b, p1, p2, lim). p1)") auto

declare memnr_loop.simps [simp del]

definition mdb_cmp_memnr :: "bytes \<Rightarrow> bytes \<Rightarrow> int" where
  "mdb_cmp_memnr a b =
     (let len_diff = int (length a) - int (length b);
          p1_lim = (if len_diff > 0 then nat len_diff else 0);
          len_diff = (if len_diff > 0 then 1 else len_diff);
          diff = memnr_loop a b (length a) (length b) p1_lim
      in if diff \<noteq> 0 then diff else if len_diff < 0 then - 1 else len_diff)"

text \<open>Reading a little-endian integer of \<open>n\<close> bytes at offset \<open>p\<close>.\<close>

definition le_at :: "bytes \<Rightarrow> nat \<Rightarrow> nat \<Rightarrow> nat" where
  "le_at a p n = le_nat (take n (drop p a))"

definition mdb_cmp_long :: "bytes \<Rightarrow> bytes \<Rightarrow> int" where
  "mdb_cmp_long a b = (if le_at a 0 8 < le_at b 0 8 then - 1 else if le_at a 0 8 > le_at b 0 8 then 1 else 0)"

definition mdb_cmp_int :: "bytes \<Rightarrow> bytes \<Rightarrow> int" where
  "mdb_cmp_int a b = (if le_at a 0 4 < le_at b 0 4 then - 1 else if le_at a 0 4 > le_at b 0 4 then 1 else 0)"

text \<open>
  \<open>do { x = *--u - *--c; } while (!x && u > (unsigned short *)a->mv_data);\<close> with \<open>p\<close> the byte
  offset of \<open>u\<close>. \<open>None\<close> is a read before the start of the key (a size that is not a positive
  even number).
\<close>

function cint_loop :: "bytes \<Rightarrow> bytes \<Rightarrow> nat \<Rightarrow> int option" where
  "cint_loop a b p =
     (if p < 2 then None
      else let x = int (le_at a (p - 2) 2) - int (le_at b (p - 2) 2)
           in if x = 0 \<and> p - 2 > 0 then cint_loop a b (p - 2) else Some x)"
  by pat_completeness auto
termination by (relation "measure (\<lambda>(a, b, p). p)") auto

declare cint_loop.simps [simp del]

definition mdb_cmp_cint :: "bytes \<Rightarrow> bytes \<Rightarrow> int option" where
  "mdb_cmp_cint a b = cint_loop a b (length a)"

text \<open>\<open>mdb_cmp_memn\<close> for keys known to agree on their first \<open>skip\<close> bytes.\<close>

definition mdb_cmp_memn_with_skip :: "bytes \<Rightarrow> bytes \<Rightarrow> nat \<Rightarrow> int" where
  "mdb_cmp_memn_with_skip a b skip =
     (let alen = length a; blen = length b; minlen = (if alen < blen then alen else blen);
          by_len = (if alen = blen then 0 else if alen < blen then - 1 else 1) in
      if skip \<ge> minlen then by_len
      else
        let cmp_len = minlen - skip;
            diff = memcmp (take cmp_len (drop skip a)) (take cmp_len (drop skip b))
        in if diff \<noteq> 0 then diff else by_len)"

section \<open>The contract of a comparison function\<close>

text \<open>
  On the keys of one database (\<open>valid\<close>), a comparison function is the sign of a strict linear
  order, and compares only equal keys as equal.
\<close>

locale key_order =
  fixes cmp :: "bytes \<Rightarrow> bytes \<Rightarrow> int"
    and valid :: "bytes \<Rightarrow> bool"
  assumes cmp_eq: "valid a \<Longrightarrow> valid b \<Longrightarrow> cmp a b = 0 \<longleftrightarrow> a = b"
    and cmp_flip: "valid a \<Longrightarrow> valid b \<Longrightarrow> cmp a b < 0 \<longleftrightarrow> cmp b a > 0"
    and cmp_trans: "valid a \<Longrightarrow> valid b \<Longrightarrow> valid c \<Longrightarrow> cmp a b < 0 \<Longrightarrow> cmp b c < 0 \<Longrightarrow> cmp a c < 0"
begin

lemma cmp_refl: "valid a \<Longrightarrow> cmp a a = 0"
  by (simp add: cmp_eq)

lemma cmp_less_total: "valid a \<Longrightarrow> valid b \<Longrightarrow> a \<noteq> b \<Longrightarrow> cmp a b < 0 \<or> cmp b a < 0"
  using cmp_eq[of a b] cmp_flip[of a b] cmp_flip[of b a] by linarith

lemma cmp_le_less_trans:
  "valid a \<Longrightarrow> valid b \<Longrightarrow> valid c \<Longrightarrow> cmp a b \<le> 0 \<Longrightarrow> cmp b c < 0 \<Longrightarrow> cmp a c < 0"
  using cmp_trans[of a b c] cmp_eq[of a b] by (cases "cmp a b = 0") auto

lemma cmp_less_le_trans:
  "valid a \<Longrightarrow> valid b \<Longrightarrow> valid c \<Longrightarrow> cmp a b < 0 \<Longrightarrow> cmp b c \<le> 0 \<Longrightarrow> cmp a c < 0"
  using cmp_trans[of a b c] cmp_eq[of b c] by (cases "cmp b c = 0") auto

lemma cmp_pos_flip: "valid a \<Longrightarrow> valid b \<Longrightarrow> cmp a b > 0 \<longleftrightarrow> cmp b a < 0"
  using cmp_flip[of b a] by simp

lemma cmp_nonneg_flip: "valid a \<Longrightarrow> valid b \<Longrightarrow> cmp a b \<ge> 0 \<longleftrightarrow> cmp b a \<le> 0"
  using cmp_flip[of a b] by (meson not_le)

end

section \<open>\<open>mdb_cmp_memn\<close> is the lexicographic order\<close>

lemma memcmp_take:
  "memcmp (take n a) (take n b) = (if take n a = take n b then 0
     else if take n a < take n b then - 1 else 1)" if "length (take n a) = length (take n b)"
proof -
  have "length xs = length ys \<Longrightarrow> memcmp xs ys = (if xs = ys then 0 else if xs < ys then - 1 else 1)" for xs ys
    by (induction xs ys rule: list_induct2) auto
  with that show ?thesis by blast
qed

lemma memcmp_self [simp]: "memcmp a a = 0"
  by (induction a) auto

fun lexcmp :: "bytes \<Rightarrow> bytes \<Rightarrow> int" where
  "lexcmp [] [] = 0"
| "lexcmp [] (y # ys) = - 1"
| "lexcmp (x # xs) [] = 1"
| "lexcmp (x # xs) (y # ys) = (if x = y then lexcmp xs ys else if x < y then - 1 else 1)"

lemma lexcmp_order: "lexcmp a b = (if a = b then 0 else if a < b then - 1 else 1)"
  by (induction a b rule: lexcmp.induct) auto

lemma lexcmp_memcmp:
  "lexcmp a b = (let n = min (length a) (length b); d = memcmp (take n a) (take n b) in
     if d \<noteq> 0 then d else if length a < length b then - 1 else if length a = length b then 0 else 1)"
  by (induction a b rule: lexcmp.induct) (auto simp: Let_def)

lemma lexcmp_append: "lexcmp (p @ a) (p @ b) = lexcmp a b"
  by (induction p) auto

lemma cmp_memn_lexcmp:
  assumes "length a < 2 ^ 32" "length b < 2 ^ 32"
  shows "mdb_cmp_memn a b = lexcmp a b"
proof (cases "length b < length a")
  case True
  then have "length b mod 2 ^ 32 = length b" using assms by (intro mod_less) simp
  then show ?thesis using True by (simp add: mdb_cmp_memn_def lexcmp_memcmp Let_def min_def)
next
  case False
  then have "length a mod 2 ^ 32 = length a" using assms by (intro mod_less) simp
  then show ?thesis using False by (simp add: mdb_cmp_memn_def lexcmp_memcmp Let_def min_def)
qed

lemma cmp_memn_order:
  assumes "length a < 2 ^ 32" "length b < 2 ^ 32"
  shows "mdb_cmp_memn a b = (if a = b then 0 else if a < b then - 1 else 1)"
  using cmp_memn_lexcmp[OF assms] lexcmp_order by simp

interpretation memn: key_order mdb_cmp_memn "\<lambda>k. length k < 2 ^ 32"
  by unfold_locales (auto simp: cmp_memn_order split: if_splits)

lemma cmp_memn_skip:
  assumes "length a < 2 ^ 32" "length b < 2 ^ 32" "take skip a = take skip b"
  shows "mdb_cmp_memn_with_skip a b skip = mdb_cmp_memn a b"
proof (cases "min (length a) (length b) \<le> skip")
  case True
  let ?n = "min (length a) (length b)"
  have "take ?n a = take ?n b"
    using True assms(3) by (metis min.absorb1 take_take)
  then show ?thesis
    using True by (simp add: mdb_cmp_memn_with_skip_def cmp_memn_lexcmp[OF assms(1,2)] lexcmp_memcmp Let_def min_def
        split: if_splits)
next
  case False
  define a' b' where "a' = drop skip a" and "b' = drop skip b"
  have ab: "a = take skip a @ a'" "b = take skip a @ b'"
    using assms(3) by (metis a'_def append_take_drop_id, metis assms(3) b'_def append_take_drop_id)
  have "lexcmp a b = lexcmp (take skip a @ a') (take skip a @ b')" by (rule arg_cong2[OF ab])
  then have "lexcmp a b = lexcmp a' b'" by (simp only: lexcmp_append)
  moreover have "length a = skip + length a'" "length b = skip + length b'"
    using False by (simp_all add: a'_def b'_def)
  ultimately show ?thesis
    using False by (simp add: mdb_cmp_memn_with_skip_def cmp_memn_lexcmp[OF assms(1,2)] lexcmp_memcmp[of a' b']
        a'_def[symmetric] b'_def[symmetric] Let_def min_def)
qed

section \<open>\<open>mdb_cmp_memnr\<close> is the lexicographic order from the last byte\<close>

lemma byte_diff:
  "int (unat (x :: byte)) - int (unat y) = 0 \<longleftrightarrow> x = y"
  "sgn (int (unat (x :: byte)) - int (unat y)) = (if x = y then 0 else if x < y then - 1 else 1)"
  by (auto simp: word_less_nat_alt word_unat_eq_iff sgn_if simp del: of_nat_unat)

lemma memnr_loop_spec:
  assumes "i + n \<le> length a" "j + n \<le> length b"
  shows "sgn (memnr_loop a b (i + n) (j + n) i) = memcmp (rev (take n (drop i a))) (rev (take n (drop j b)))"
  using assms
proof (induction n)
  case 0
  then show ?case by (subst memnr_loop.simps) simp
next
  case (Suc n)
  have "memnr_loop a b (i + Suc n) (j + Suc n) i =
      (let d = int (unat (a ! (i + n))) - int (unat (b ! (j + n))) in
       if d \<noteq> 0 then d else memnr_loop a b (i + n) (j + n) i)"
    by (subst memnr_loop.simps) simp
  moreover have "rev (take (Suc n) (drop i a)) = a ! (i + n) # rev (take n (drop i a))"
    "rev (take (Suc n) (drop j b)) = b ! (j + n) # rev (take n (drop j b))"
    using Suc.prems by (simp_all add: take_Suc_conv_app_nth)
  ultimately show ?case
    using Suc.IH Suc.prems
    by (cases "a ! (i + n) = b ! (j + n)") (simp_all add: Let_def byte_diff word_unat_eq_iff[symmetric] del: of_nat_unat)
qed

lemma cmp_memnr_lexcmp: "sgn (mdb_cmp_memnr a b) = lexcmp (rev a) (rev b)"
proof -
  define n where "n = min (length a) (length b)"
  define i j where "i = length a - n" and "j = length b - n"
  have ij: "i + n = length a" "j + n = length b" by (simp_all add: i_def j_def n_def)
  have lim: "i = (if int (length a) - int (length b) > 0 then nat (int (length a) - int (length b)) else 0)"
    by (auto simp: i_def n_def min_def)
  have "take n (rev a) = rev (take n (drop i a))" "take n (rev b) = rev (take n (drop j b))"
    by (simp_all add: take_rev i_def j_def)
  then have "sgn (memnr_loop a b (length a) (length b) i) = memcmp (take n (rev a)) (take n (rev b))"
    using memnr_loop_spec[of i n a j b] ij by simp
  then show ?thesis
    unfolding mdb_cmp_memnr_def Let_def lim[symmetric] lexcmp_memcmp n_def[symmetric] length_rev
    by (auto simp: sgn_if split: if_splits)
qed

interpretation memnr: key_order mdb_cmp_memnr "\<lambda>k. True"
proof
  fix a b c
  have s: "mdb_cmp_memnr x y = 0 \<longleftrightarrow> lexcmp (rev x) (rev y) = 0"
    "mdb_cmp_memnr x y < 0 \<longleftrightarrow> lexcmp (rev x) (rev y) < 0"
    "mdb_cmp_memnr x y > 0 \<longleftrightarrow> lexcmp (rev x) (rev y) > 0" for x y
    by (simp_all flip: cmp_memnr_lexcmp add: sgn_0_0)
  show "mdb_cmp_memnr a b = 0 \<longleftrightarrow> a = b" by (simp add: s lexcmp_order)
  show "mdb_cmp_memnr a b < 0 \<longleftrightarrow> mdb_cmp_memnr b a > 0" by (auto simp: s lexcmp_order)
  show "mdb_cmp_memnr a b < 0 \<Longrightarrow> mdb_cmp_memnr b c < 0 \<Longrightarrow> mdb_cmp_memnr a c < 0"
    by (auto simp: s lexcmp_order split: if_splits)
qed

section \<open>Integer keys\<close>

lemma le_nat_inj: "length a = length b \<Longrightarrow> le_nat a = le_nat b \<longleftrightarrow> a = b"
  by (metis le_bytes_le_nat)

interpretation cmp_long: key_order mdb_cmp_long "\<lambda>k. length k = 8"
  by unfold_locales (auto simp: mdb_cmp_long_def le_at_def le_nat_inj[symmetric] split: if_splits)

interpretation cmp_int: key_order mdb_cmp_int "\<lambda>k. length k = 4"
  by unfold_locales (auto simp: mdb_cmp_int_def le_at_def le_nat_inj[symmetric] split: if_splits)

lemma le_nat_append: "le_nat (a @ b) = le_nat a + 256 ^ length a * le_nat b"
  by (induction a) (auto simp: algebra_simps)

text \<open>Comparing 16-bit pieces from the most significant end compares the integers.\<close>

lemma cint_loop_spec:
  assumes "length a = length b" "even p" "0 < p" "p \<le> length a"
  shows "\<exists>x. cint_loop a b p = Some x \<and> sgn x = sgn (int (le_nat (take p a)) - int (le_nat (take p b)))"
  using assms
proof (induction a b p rule: cint_loop.induct)
  case (1 a b p)
  define x where "x = int (le_at a (p - 2) 2) - int (le_at b (p - 2) 2)"
  define la lb where "la = le_nat (take (p - 2) a)" and "lb = le_nat (take (p - 2) b)"
  have p2: "2 \<le> p" using "1.prems" by presburger
  have split: "le_nat (take p c) = le_nat (take (p - 2) c) + 256 ^ (p - 2) * le_at c (p - 2) 2"
    if "p \<le> length c" for c
  proof -
    have "take p c = take (p - 2) c @ take 2 (drop (p - 2) c)"
      using p2 by (metis le_add_diff_inverse2 take_add)
    moreover have "length (take (p - 2) c) = p - 2" using that by simp
    ultimately show ?thesis by (metis le_at_def le_nat_append)
  qed
  have bound: "la < 256 ^ (p - 2)" "lb < 256 ^ (p - 2)"
  proof -
    have "length (take (p - 2) a) = p - 2" "length (take (p - 2) b) = p - 2" using "1.prems" by simp_all
    then show "la < 256 ^ (p - 2)" "lb < 256 ^ (p - 2)"
      using le_nat_less[of "take (p - 2) a"] le_nat_less[of "take (p - 2) b"]
      unfolding la_def lb_def by (simp_all only:)
  qed
  have diff: "int (le_nat (take p a)) - int (le_nat (take p b)) = int la - int lb + 256 ^ (p - 2) * x"
    using "1.prems" by (simp add: split la_def lb_def x_def algebra_simps)
  have unfold: "cint_loop a b p = (if x = 0 \<and> p - 2 > 0 then cint_loop a b (p - 2) else Some x)"
    using p2 by (simp only: cint_loop.simps[of a b p] x_def[symmetric] Let_def not_less[symmetric] if_False)
  show ?case
  proof (cases "x = 0 \<and> p - 2 > 0")
    case True
    have "p - 2 \<le> length a" using "1.prems" by simp
    then obtain y where "cint_loop a b (p - 2) = Some y" "sgn y = sgn (int la - int lb)"
      using "1.IH"[OF _ x_def True] "1.prems" p2 True by (auto simp: la_def lb_def)
    with True show ?thesis by (simp add: unfold diff)
  next
    case False
    have "sgn x = sgn (int la - int lb + 256 ^ (p - 2) * x)"
    proof (cases "x = 0")
      case True
      with False have "p - 2 = 0" by simp
      then show ?thesis using True by (simp add: la_def lb_def)
    next
      case nz: False
      have "int la < int (256 ^ (p - 2))" "int lb < int (256 ^ (p - 2))" using bound by (simp_all only: of_nat_less_iff)
      then have "\<bar>int la - int lb\<bar> < int (256 ^ (p - 2))" by linarith
      then have "\<bar>int la - int lb\<bar> < 256 ^ (p - 2)" by (simp only: of_nat_power of_nat_numeral)
      then have b: "\<bar>int la - int lb\<bar> < 256 ^ (p - 2)" .
      show ?thesis
      proof (cases "x > 0")
        case True
        then have "(256::int) ^ (p - 2) \<le> 256 ^ (p - 2) * x"
          using mult_left_mono[of 1 x "256 ^ (p - 2)"] by simp
        with b have "0 < int la - int lb + 256 ^ (p - 2) * x" by linarith
        with True show ?thesis by (simp only: sgn_1_pos sgn_pos)
      next
        case False
        with nz have "x < 0" by simp
        then have "256 ^ (p - 2) * x \<le> - ((256::int) ^ (p - 2))"
          using mult_left_mono[of x "- 1" "256 ^ (p - 2)"] by simp
        with b have "int la - int lb + 256 ^ (p - 2) * x < 0" by linarith
        with \<open>x < 0\<close> show ?thesis by (simp only: sgn_neg)
      qed
    qed
    moreover have "cint_loop a b p = Some x" using False by (simp only: unfold if_False)
    ultimately show ?thesis by (simp only: diff) blast
  qed
qed

lemma cmp_cint_sgn:
  assumes "length a = n" "length b = n" "even n" "0 < n"
  shows "\<exists>x. mdb_cmp_cint a b = Some x \<and> sgn x = sgn (int (le_nat a) - int (le_nat b))"
  using cint_loop_spec[of a b n] assms by (auto simp: mdb_cmp_cint_def)

text \<open>\<open>mdb_size_t\<close> keys of unknown alignment: the result never is an out-of-range read.\<close>

definition cint8 :: "bytes \<Rightarrow> bytes \<Rightarrow> int" where
  "cint8 a b = (case mdb_cmp_cint a b of None \<Rightarrow> 0 | Some x \<Rightarrow> x)"

lemma cint8_sgn:
  "length a = 8 \<Longrightarrow> length b = 8 \<Longrightarrow> sgn (cint8 a b) = sgn (int (le_nat a) - int (le_nat b))"
  using cmp_cint_sgn[of a 8 b] by (auto simp: cint8_def)

lemma cint8_iff:
  assumes "length a = 8" "length b = 8"
  shows "cint8 a b = 0 \<longleftrightarrow> a = b" "cint8 a b < 0 \<longleftrightarrow> le_nat a < le_nat b" "cint8 a b > 0 \<longleftrightarrow> le_nat b < le_nat a"
  using cint8_sgn[OF assms] le_nat_inj[of a b] assms by (auto simp: sgn_if split: if_splits)

interpretation cint: key_order cint8 "\<lambda>k. length k = 8"
  by unfold_locales (auto simp: cint8_iff)

section \<open>Properties\<close>

text \<open>The default comparison orders keys by their bytes, a proper prefix first: it returns 0, -1 or 1
  exactly as the lexicographic order on byte lists says.\<close>

theorem cmp_memn_lexicographic:
  assumes "length a < 2 ^ 32" "length b < 2 ^ 32"
  shows "mdb_cmp_memn a b = (if a = b then 0 else if a < b then - 1 else 1)"
  by (rule cmp_memn_order[OF assms])

theorem cmp_memn_lexicographic_witness:
  "mdb_cmp_memn [7, 8] [7, 8, 0] = (if [7, 8] = [7, 8, 0 :: byte] then 0 else if [7, 8] < [7, 8, 0 :: byte] then - 1 else 1)"
  by (rule cmp_memn_lexicographic) simp_all

text \<open>Skipping bytes on which two keys agree does not change the outcome of their comparison.\<close>

theorem cmp_memn_with_skip_equiv:
  assumes "length a < 2 ^ 32" "length b < 2 ^ 32" "take skip a = take skip b"
  shows "mdb_cmp_memn_with_skip a b skip = mdb_cmp_memn a b"
  by (rule cmp_memn_skip[OF assms])

theorem cmp_memn_with_skip_equiv_witness:
  "mdb_cmp_memn_with_skip [7, 8, 1] [7, 8] 2 = mdb_cmp_memn [7, 8, 1] [7, 8]"
  by (rule cmp_memn_with_skip_equiv) simp_all

text \<open>Comparing integer keys of unknown alignment by 16-bit pieces, from the most significant end,
  has the sign of the difference of the little-endian integers, and never reads before the key.\<close>

theorem cmp_cint_integers:
  assumes "length a = length b" "even (length a)" "a \<noteq> []"
  shows "\<exists>x. mdb_cmp_cint a b = Some x \<and> sgn x = sgn (int (le_nat a) - int (le_nat b))"
  by (rule cmp_cint_sgn[OF refl assms(1)[symmetric] assms(2)]) (use assms(3) in simp)

theorem cmp_cint_integers_witness:
  "\<exists>x. mdb_cmp_cint [1, 2, 3, 4] [9, 2, 3, 4] = Some x \<and> sgn x = sgn (int (le_nat [1, 2, 3, 4]) - int (le_nat [9, 2, 3, 4]))"
  by (rule cmp_cint_integers) simp_all

end
