(* ===== verification/Codec.thy ===== *)
theory Codec
  imports Compare
begin

text \<open>
  The key codec of prefix-compressed leaf pages (\<open>mdb.c\<close>): the variable-length header, the
  encoding of a key against the trunk (the first key of its page), the decoders, and the comparison
  of a search key with an encoded key.
\<close>

section \<open>Variable-length headers\<close>

definition MDB_VARINT_MAX :: nat where "MDB_VARINT_MAX = 9"

definition MDB_KEYBUF_MAX :: nat where "MDB_KEYBUF_MAX = 511"

function varint_length_loop :: "u64 \<Rightarrow> nat \<Rightarrow> nat" where
  "varint_length_loop v len = (if v \<ge> 0x80 then varint_length_loop (drop_bit 7 v) (len + 1) else len)"
  by pat_completeness auto
termination
  by (relation "measure (\<lambda>(v, len). unat v)") (auto simp: drop_bit_eq_div word_le_nat_alt unat_div)

declare varint_length_loop.simps [simp del]

definition mdb_varint_length :: "u64 \<Rightarrow> nat" where
  "mdb_varint_length v = varint_length_loop v 1"

text \<open>\<open>while (idx) { dest[--idx] = value & 0x7f; value >>= 7; }\<close>, the bytes written so far as the list.\<close>

fun varint_fill :: "u64 \<Rightarrow> nat \<Rightarrow> bytes \<Rightarrow> bytes" where
  "varint_fill v 0 dest = dest"
| "varint_fill v (Suc idx) dest = varint_fill (drop_bit 7 v) idx (ucast (v AND 0x7f) # dest)"

text \<open>\<open>for (i = 0; i + 1 < len; ++i) dest[i] |= 0x80;\<close>\<close>

fun varint_mark :: "bytes \<Rightarrow> bytes" where
  "varint_mark (b # c # bs) = (b OR 0x80) # varint_mark (c # bs)"
| "varint_mark bs = bs"

definition mdb_varint_encode :: "u64 \<Rightarrow> bytes" where
  "mdb_varint_encode v = (let len = mdb_varint_length v in varint_mark (varint_fill v len []))"

text \<open>The decoder's loop; the result is the value and the number of bytes used.\<close>

fun varint_decode_loop :: "bytes \<Rightarrow> u64 \<Rightarrow> nat \<Rightarrow> (u64 \<times> nat) res" where
  "varint_decode_loop [] v consumed = Err MDB_CORRUPTED"
| "varint_decode_loop (b # src) v consumed =
     (if consumed < MDB_VARINT_MAX then
        let v = push_bit 7 v OR ucast (b AND 0x7f) in
        if b AND 0x80 = 0 then Ok (v, consumed + 1) else varint_decode_loop src v (consumed + 1)
      else Err MDB_CORRUPTED)"

definition mdb_varint_decode :: "bytes \<Rightarrow> (u64 \<times> nat) res" where
  "mdb_varint_decode src = varint_decode_loop src 0 0"

section \<open>Encoding a key\<close>

fun mdb_leaf_shared_prefix :: "bytes \<Rightarrow> bytes \<Rightarrow> nat" where
  "mdb_leaf_shared_prefix (x # xs) (y # ys) = (if x = y then Suc (mdb_leaf_shared_prefix xs ys) else 0)"
| "mdb_leaf_shared_prefix xs ys = 0"

text \<open>Results: the encoded size, and what is written to \<open>shared_out\<close> (nothing without a trunk).\<close>

definition mdb_leaf_encoded_size :: "MDB_val \<Rightarrow> bytes \<Rightarrow> nat \<times> nat option" where
  "mdb_leaf_encoded_size trunk key =
     (case trunk of
        None \<Rightarrow> (length key, None)
      | Some t \<Rightarrow>
          let shared = mdb_leaf_shared_prefix t key
          in (mdb_varint_length (word_of_nat shared) + (length key - shared), Some shared))"

definition mdb_leaf_encode_key_fast :: "bytes \<Rightarrow> nat \<Rightarrow> bytes" where
  "mdb_leaf_encode_key_fast key shared =
     (let shared = (if shared > length key then length key else shared);
          header = mdb_varint_encode (word_of_nat shared)
      in header @ drop shared key)"

definition mdb_leaf_encode_key :: "MDB_val \<Rightarrow> bytes \<Rightarrow> bytes \<times> nat" where
  "mdb_leaf_encode_key trunk key =
     (case trunk of
        None \<Rightarrow> (key, 0)
      | Some t \<Rightarrow>
          let shared = mdb_leaf_shared_prefix t key
          in (mdb_leaf_encode_key_fast key shared, shared))"

section \<open>Decoding a key\<close>

definition mdb_prefix_decode_shared :: "bytes \<Rightarrow> (u64 \<times> nat) res" where
  "mdb_prefix_decode_shared encoded =
     (if encoded = [] then Err MDB_CORRUPTED
      else
        let first = encoded ! 0 in
        if first AND 0x80 = 0 then Ok (ucast first, 1)
        else mdb_varint_decode encoded)"

record MDB_prefix_header =
  ph_shared :: nat
  ph_used :: nat
  ph_valid :: bool

text \<open>\<open>prefix\<close> is the trunk's bytes, or NULL for a raw key.\<close>

record MDB_key_parts =
  kp_prefix :: MDB_val
  kp_prefix_len :: nat
  kp_suffix :: bytes

definition raw_parts :: "bytes \<Rightarrow> MDB_key_parts" where
  "raw_parts encoded = \<lparr>kp_prefix = None, kp_prefix_len = 0, kp_suffix = encoded\<rparr>"

text \<open>\<open>header\<close> is \<open>None\<close> for a NULL pointer. The bytes of the header are checked against the canonical one.\<close>

definition canonical_header :: "bytes \<Rightarrow> nat \<Rightarrow> nat \<Rightarrow> bool" where
  "canonical_header encoded shared used =
     (used = 1 \<and> encoded ! 0 < 0x80 \<or>
      (let canonical = mdb_varint_encode (word_of_nat shared);
           n = length canonical
       in n = used \<and> take n encoded = canonical))"

definition mdb_leaf_key_parts ::
    "MDB_val \<Rightarrow> bytes \<Rightarrow> nat \<Rightarrow> MDB_prefix_header option \<Rightarrow> MDB_key_parts res" where
  "mdb_leaf_key_parts trunk encoded limit header =
     (case trunk of
        None \<Rightarrow> Ok (raw_parts encoded)
      | Some t \<Rightarrow>
          bind_res
            (case header of
               Some h \<Rightarrow> if ph_valid h then Ok (ph_shared h, ph_used h)
                         else bind_res (mdb_prefix_decode_shared encoded) (\<lambda>(s, u). Ok (unat s, u))
             | None \<Rightarrow> bind_res (mdb_prefix_decode_shared encoded) (\<lambda>(s, u). Ok (unat s, u)))
            (\<lambda>(shared, used).
               if shared > length t \<or> used > length encoded then Ok (raw_parts encoded)
               else
                 let suffix_len = length encoded - used in
                 if shared > limit \<or> suffix_len > limit - shared then Err MDB_BAD_VALSIZE
                 else if suffix_len > 0 \<and> shared < length t \<and> t ! shared = encoded ! used
                 then Ok (raw_parts encoded)
                 else if \<not> canonical_header encoded shared used then Ok (raw_parts encoded)
                 else Ok \<lparr>kp_prefix = Some t, kp_prefix_len = shared, kp_suffix = drop used encoded\<rparr>))"

text \<open>The decoded key; with \<open>allow_trunk_alias\<close> a raw key is not copied and not limited by the buffer.\<close>

definition mdb_leaf_decode_key ::
    "MDB_val \<Rightarrow> bytes \<Rightarrow> nat \<Rightarrow> bool \<Rightarrow> MDB_prefix_header option \<Rightarrow> bytes res" where
  "mdb_leaf_decode_key trunk encoded buf_size allow_trunk_alias header =
     bind_res (mdb_leaf_key_parts trunk encoded buf_size header)
       (\<lambda>parts.
          let size = kp_prefix_len parts + length (kp_suffix parts) in
          if kp_prefix parts = None \<and> allow_trunk_alias then Ok (kp_suffix parts)
          else if size > buf_size then Err MDB_BAD_VALSIZE
          else Ok (take (kp_prefix_len parts) (case kp_prefix parts of None \<Rightarrow> [] | Some t \<Rightarrow> t)
                   @ kp_suffix parts))"

text \<open>An upper bound of the decoded length, read off the header only.\<close>

definition mdb_prefix_decoded_length :: "nat \<Rightarrow> bytes \<Rightarrow> nat" where
  "mdb_prefix_decoded_length trunk_len encoded =
     (if encoded = [] then 0
      else case mdb_prefix_decode_shared encoded of
        Ok (shared64, used) \<Rightarrow>
          if unat shared64 > trunk_len \<or> used > length encoded then length encoded
          else
            let suffix_len = length encoded - used in
            if unat shared64 > 2 ^ 64 - 1 - suffix_len then length encoded
            else let decoded_len = unat shared64 + suffix_len
                 in if decoded_len < length encoded then length encoded else decoded_len
      | _ \<Rightarrow> length encoded)"

text \<open>The second decoder: \<open>Some (shared, used, full length)\<close> for a canonical encoding, else raw.\<close>

definition mdb_prefix_decode_canonical :: "MDB_val \<Rightarrow> bytes \<Rightarrow> (nat \<times> nat \<times> nat) option" where
  "mdb_prefix_decode_canonical trunk encoded =
     (case trunk of
        None \<Rightarrow> None
      | Some t \<Rightarrow>
          if encoded = [] then None
          else case mdb_prefix_decode_shared encoded of
            Ok (shared64, used) \<Rightarrow>
              if unat shared64 > length t \<or> used > length encoded then None
              else
                let shared = unat shared64; suffix_len = length encoded - used in
                if shared > 2 ^ 64 - 1 - suffix_len then None
                else
                  let extra = mdb_leaf_shared_prefix (drop shared t) (drop used encoded) in
                  if extra > 0 then None
                  else if \<not> canonical_header encoded shared used then None
                  else Some (shared, used, shared + suffix_len)
          | _ \<Rightarrow> None)"

section \<open>Comparing with an encoded key\<close>

text \<open>The byte loop from \<open>pos\<close>: \<open>Some\<close> the result of a difference, \<open>None\<close> if there is none before \<open>minlen\<close>.\<close>

function cmp_encoded_loop :: "bytes \<Rightarrow> bytes \<Rightarrow> bytes \<Rightarrow> nat \<Rightarrow> nat \<Rightarrow> nat \<Rightarrow> int option" where
  "cmp_encoded_loop key t suffix shared pos minlen =
     (if pos < minlen then
        let a = key ! pos; b = (if pos < shared then t ! pos else suffix ! (pos - shared)) in
        if a \<noteq> b then Some (if a < b then - 1 else 1)
        else cmp_encoded_loop key t suffix shared (pos + 1) minlen
      else None)"
  by pat_completeness auto
termination by (relation "measure (\<lambda>(k, t, s, sh, pos, minlen). minlen - pos)") auto

declare cmp_encoded_loop.simps [simp del]

definition mdb_leaf_cmp_memn_encoded :: "bytes \<Rightarrow> MDB_val \<Rightarrow> MDB_val \<Rightarrow> nat \<Rightarrow> int res" where
  "mdb_leaf_cmp_memn_encoded encoded trunk search_key key_trunk_prefix =
     (case (trunk, search_key) of
        (Some t, Some key) \<Rightarrow>
          if encoded = [] then Err MDB_BAD_VALSIZE
          else
            bind_res (mdb_prefix_decode_shared encoded) (\<lambda>(shared64, used).
              if unat shared64 > length t \<or> used > length encoded then Err MDB_BAD_VALSIZE
              else
                let shared = unat shared64;
                    suffix = drop used encoded;
                    candidate_len = shared + length suffix;
                    skip = (if key_trunk_prefix < shared then key_trunk_prefix else shared);
                    minlen = (if length key < candidate_len then length key else candidate_len)
                in case cmp_encoded_loop key t suffix shared skip minlen of
                     Some c \<Rightarrow> Ok c
                   | None \<Rightarrow> Ok (if length key = candidate_len then 0
                                else if length key < candidate_len then - 1 else 1))
      | _ \<Rightarrow> Err MDB_BAD_VALSIZE)"

section \<open>The header round trip\<close>

text \<open>The reference: the base-128 digits of a value, most significant first.\<close>

fun digits :: "nat \<Rightarrow> u64 \<Rightarrow> u64 list" where
  "digits 0 v = []"
| "digits (Suc n) v = digits n (drop_bit 7 v) @ [v AND 0x7f]"

lemma length_digits [simp]: "length (digits n v) = n"
  by (induction n arbitrary: v) auto

lemma varint_fill_digits: "varint_fill v n dest = map ucast (digits n v) @ dest"
  by (induction n arbitrary: v dest) auto

lemma digit_less: "d \<in> set (digits n v) \<Longrightarrow> unat d < 128"
proof (induction n arbitrary: v)
  case 0
  then show ?case by simp
next
  case (Suc n)
  have "v AND 0x7f = v mod 128" using word_mod_2p_is_mask[of 7 v] by (simp add: mask_eq_exp_minus_1)
  then have "unat (v AND 0x7f) < 128" by (simp add: unat_mod)
  with Suc show ?case by auto
qed

lemma drop_bit_7: "drop_bit 7 v = v div (128::u64)"
  by (simp add: drop_bit_eq_div)

lemma digits_value:
  "unat v < 128 ^ n \<Longrightarrow> foldl (\<lambda>a d. a * 128 + d) 0 (digits n v) = v"
proof (induction n arbitrary: v)
  case 0
  then show ?case by (simp add: unat_eq_zero)
next
  case (Suc n)
  have "unat (drop_bit 7 v) < 128 ^ n"
    using Suc.prems by (simp add: drop_bit_7 unat_div less_mult_imp_div_less mult.commute)
  moreover have "v AND 0x7f = v mod 128"
    using word_mod_2p_is_mask[of 7 v] by (simp add: mask_eq_exp_minus_1)
  ultimately show ?case
    using Suc.IH by (simp add: drop_bit_7 div_mult_mod_eq)
qed

lemma varint_length_loop_acc: "varint_length_loop v (len + k) = varint_length_loop v len + k"
proof (induction v len rule: varint_length_loop.induct)
  case (1 v len)
  then show ?case
    by (cases "v \<ge> 0x80") (simp_all add: varint_length_loop.simps[of v] add.commute add.left_commute)
qed

lemma varint_length_rec:
  "mdb_varint_length v = (if v \<ge> 0x80 then Suc (mdb_varint_length (v div 128)) else 1)"
  using varint_length_loop_acc[of "v div 128" 1 1]
  by (simp add: mdb_varint_length_def varint_length_loop.simps[of v] drop_bit_7)

lemma varint_length_pos [simp]: "0 < mdb_varint_length v"
  by (simp add: varint_length_rec[of v])

lemma varint_length_le_iff: "0 < n \<Longrightarrow> mdb_varint_length v \<le> n \<longleftrightarrow> unat v < 128 ^ n"
proof (induction n arbitrary: v)
  case 0
  then show ?case by simp
next
  case (Suc n)
  show ?case
  proof (cases "v \<ge> 0x80")
    case False
    then have "unat v < 128" by (simp add: word_le_nat_alt)
    also have "\<dots> \<le> 128 ^ Suc n" by simp
    finally show ?thesis using False by (simp add: varint_length_rec[of v])
  next
    case True
    then have big: "128 \<le> unat v" by (simp add: word_le_nat_alt)
    show ?thesis
    proof (cases "n = 0")
      case True
      have "mdb_varint_length (v div 128) \<noteq> 0" using varint_length_pos[of "v div 128"] by simp
      with True \<open>v \<ge> 0x80\<close> big show ?thesis by (simp add: varint_length_rec[of v])
    next
      case False
      then have "mdb_varint_length v \<le> Suc n \<longleftrightarrow> unat (v div 128) < 128 ^ n"
        using Suc.IH \<open>v \<ge> 0x80\<close> by (simp add: varint_length_rec[of v])
      also have "\<dots> \<longleftrightarrow> unat v < 128 ^ Suc n"
        by (simp add: unat_div div_less_iff_less_mult mult.commute)
      finally show ?thesis .
    qed
  qed
qed

lemma low7: "(x::'a::len word) AND 0x7f = take_bit 7 x"
  by (simp add: take_bit_eq_mask mask_eq_exp_minus_1)

lemma take_bit_small: "unat (a :: 'a::len word) < 2 ^ n \<Longrightarrow> take_bit n a = a"
  by (simp add: word_unat_eq_iff unsigned_take_bit_eq take_bit_nat_eq_self)

lemma push_or_digit:
  assumes "unat (d :: u64) < 128"
  shows "push_bit 7 v OR d = v * 128 + d"
proof -
  have "take_bit 7 d = d" using assms by (simp add: take_bit_small)
  then have "\<not> bit d n" if "n \<ge> 7" for n
    using that by (metis bit_take_bit_iff not_less)
  then have "push_bit 7 v OR d = push_bit 7 v + d"
    by (intro disjunctive_add[symmetric]) (auto simp: bit_push_bit_iff)
  then show ?thesis by (simp add: push_bit_eq_mult)
qed

lemma byte_bit7: "bit (b :: byte) 7 \<longleftrightarrow> 128 \<le> b"
proof
  assume "bit b 7"
  then have "odd (unat b div 128)" using bit_iff_odd[of "unat b" 7] by (simp add: bit_unsigned_iff)
  then have "unat b div 128 \<noteq> 0" by (metis even_zero)
  then show "128 \<le> b" by (simp add: word_le_nat_alt)
next
  assume "128 \<le> b"
  then have "128 \<le> unat b" "unat b < 256" using unsigned_less[of b] by (simp_all add: word_le_nat_alt)
  then have "unat b div 128 = 1" by simp
  then show "bit b 7" using bit_iff_odd[of "unat b" 7] by (auto simp: bit_unsigned_iff)
qed

lemma byte_bit_high: "bit (b :: byte) n \<Longrightarrow> n < 8"
  using bit_imp_le_length[of b n] by simp

lemma marked_byte:
  "(b :: byte) < 128 \<Longrightarrow> (b OR 0x80) AND 0x7f = b" "(b OR 0x80) AND 0x80 = 0x80"
  "b < 128 \<Longrightarrow> b AND 0x7f = b" "b AND 0x80 = 0 \<longleftrightarrow> b < 128"
proof -
  have e: "(0x80 :: byte) = 2 ^ 7" by simp
  show "b AND 0x80 = 0 \<longleftrightarrow> b < 128"
    unfolding e and_exp_eq_0_iff_not_bit by (simp add: byte_bit7 not_le)
  show 1: "b AND 0x7f = b" if "b < 128"
    using that unfolding low7 by (simp add: take_bit_small word_less_nat_alt)
  show "(b OR 0x80) AND 0x7f = b" if "b < 128"
    using 1[OF that] by (simp add: and.commute bit.conj_disj_distrib)
  show "(b OR 0x80) AND 0x80 = 0x80"
    by (simp add: or.commute)
qed

lemma varint_decode_digits:
  assumes "\<And>d. d \<in> set ds \<Longrightarrow> unat (d :: u64) < 128" "ds \<noteq> []"
  shows "varint_decode_loop (varint_mark (map ucast ds) @ rest) v consumed =
    (if consumed + length ds \<le> MDB_VARINT_MAX
     then Ok (foldl (\<lambda>a d. a * 128 + d) v ds, consumed + length ds) else Err MDB_CORRUPTED)"
  using assms
proof (induction ds arbitrary: v consumed)
  case Nil
  then show ?case by simp
next
  case (Cons d ds)
  have d1: "unat d < 128" using Cons.prems(1)[of d] by simp
  have d2: "unat (ucast d :: byte) = unat d"
    using d1 by (simp add: unsigned_ucast_eq take_bit_nat_eq_self)
  have "unat (ucast (ucast d :: byte) :: u64) = unat d"
    using d1 d2 by (simp add: unsigned_ucast_eq[of "ucast d :: byte"] take_bit_nat_eq_self)
  with d1 d2 have d: "unat d < 128" "(ucast d :: byte) < 128" "ucast (ucast d :: byte) = d"
    by (simp_all add: word_less_nat_alt word_unat_eq_iff)
  have step: "push_bit 7 v OR d = v * 128 + d" by (rule push_or_digit[OF d(1)])
  show ?case
  proof (cases ds)
    case Nil
    then show ?thesis using d step by (auto simp: marked_byte)
  next
    case (Cons e es)
    then show ?thesis using d step Cons.IH[of "v * 128 + d" "consumed + 1"] Cons.prems
      by (auto simp: marked_byte)
  qed
qed

lemma length_varint_mark [simp]: "length (varint_mark bs) = length bs"
  by (induction bs rule: varint_mark.induct) auto

lemma varint_encode_digits: "mdb_varint_encode v = varint_mark (map ucast (digits (mdb_varint_length v) v))"
  by (simp add: mdb_varint_encode_def varint_fill_digits Let_def)

lemma length_varint_encode [simp]: "length (mdb_varint_encode v) = mdb_varint_length v"
  by (simp add: varint_encode_digits)

lemma varint_decode_encode:
  "mdb_varint_decode (mdb_varint_encode v @ rest) =
     (if unat v < 2 ^ 63 then Ok (v, mdb_varint_length v) else Err MDB_CORRUPTED)"
proof -
  let ?n = "mdb_varint_length v"
  have "digits ?n v \<noteq> []" using varint_length_pos[of v] by (metis length_digits list.size(3) less_irrefl)
  moreover have "unat v < 128 ^ ?n" using varint_length_le_iff[of ?n v] by simp
  moreover have "?n \<le> MDB_VARINT_MAX \<longleftrightarrow> unat v < 2 ^ 63"
    using varint_length_le_iff[of 9 v] by (simp add: MDB_VARINT_MAX_def)
  ultimately show ?thesis
    by (simp add: mdb_varint_decode_def varint_encode_digits varint_decode_digits[OF digit_less] digits_value)
qed

lemma decode_shared_varint: "mdb_prefix_decode_shared = mdb_varint_decode"
proof
  fix encoded
  show "mdb_prefix_decode_shared encoded = mdb_varint_decode encoded"
    by (cases encoded)
      (auto simp: mdb_prefix_decode_shared_def mdb_varint_decode_def marked_byte MDB_VARINT_MAX_def)
qed

lemma ucast_byte [simp]: "ucast (ucast (b :: byte) :: u64) = b"
  by (rule bit_word_eqI) (auto simp: bit_ucast_iff)

lemma varint_encode_small: "(b :: byte) < 128 \<Longrightarrow> mdb_varint_encode (ucast b) = [b]"
proof -
  assume b: "b < 128"
  then have "\<not> (ucast b :: u64) \<ge> 0x80"
    by (simp add: not_le word_less_nat_alt unsigned_ucast_eq take_bit_nat_eq_self)
  then have "mdb_varint_length (ucast b) = 1" by (simp add: varint_length_rec[of "ucast b"])
  then have "mdb_varint_encode (ucast b) = [ucast ((ucast b :: u64) AND 0x7f)]"
    by (simp add: mdb_varint_encode_def)
  moreover have "(ucast b :: u64) AND 0x7f = ucast b"
    using b unfolding low7
    by (intro take_bit_small) (simp add: word_less_nat_alt unsigned_ucast_eq take_bit_nat_eq_self)
  ultimately show ?thesis by simp
qed

section \<open>The shared prefix\<close>

lemma shared_prefix_le: "mdb_leaf_shared_prefix a b \<le> length a" "mdb_leaf_shared_prefix a b \<le> length b"
  by (induction a b rule: mdb_leaf_shared_prefix.induct) auto

lemma shared_prefix_take:
  "n \<le> mdb_leaf_shared_prefix a b \<Longrightarrow> take n a = take n b"
proof (induction a b arbitrary: n rule: mdb_leaf_shared_prefix.induct)
  case (1 x xs y ys)
  then show ?case by (cases n) (auto split: if_splits)
qed auto

lemma shared_prefix_split:
  "take (mdb_leaf_shared_prefix t k) t @ drop (mdb_leaf_shared_prefix t k) k = k"
  by (simp only: shared_prefix_take[OF order_refl] append_take_drop_id)

lemma shared_prefix_maximal:
  "mdb_leaf_shared_prefix a b < length a \<Longrightarrow> mdb_leaf_shared_prefix a b < length b \<Longrightarrow>
   a ! mdb_leaf_shared_prefix a b \<noteq> b ! mdb_leaf_shared_prefix a b"
  by (induction a b rule: mdb_leaf_shared_prefix.induct) auto

lemma shared_prefix_eqI:
  "n \<le> length a \<Longrightarrow> s = [] \<or> n = length a \<or> a ! n \<noteq> hd s \<Longrightarrow>
   mdb_leaf_shared_prefix a (take n a @ s) = n"
proof (induction a arbitrary: n)
  case (Cons x a)
  then show ?case
  proof (cases n)
    case 0
    with Cons show ?thesis by (cases s) auto
  next
    case (Suc m)
    with Cons show ?thesis by auto
  qed
qed auto

lemma shared_prefix_0_iff:
  "mdb_leaf_shared_prefix a b = 0 \<longleftrightarrow> a = [] \<or> b = [] \<or> hd a \<noteq> hd b"
  by (cases "(a, b)" rule: mdb_leaf_shared_prefix.cases) auto

section \<open>The key round trip\<close>

text \<open>The stored form of a key on a page with trunk \<open>t\<close>.\<close>

definition enc :: "bytes \<Rightarrow> bytes \<Rightarrow> bytes" where
  "enc t k = fst (mdb_leaf_encode_key (Some t) k)"

lemma enc_eq:
  "enc t k = mdb_varint_encode (word_of_nat (mdb_leaf_shared_prefix t k)) @ drop (mdb_leaf_shared_prefix t k) k"
  using shared_prefix_le(2)[of t k]
  by (simp add: enc_def mdb_leaf_encode_key_def mdb_leaf_encode_key_fast_def Let_def)

lemma enc_not_Nil [simp]: "enc t k \<noteq> []"
  using length_varint_encode[of "word_of_nat (mdb_leaf_shared_prefix t k)"] varint_length_pos
  by (metis append_is_Nil_conv enc_eq less_irrefl list.size(3))

lemma length_enc: "length (enc t k) = fst (mdb_leaf_encoded_size (Some t) k)"
  by (simp add: enc_eq mdb_leaf_encoded_size_def Let_def)

lemma unat_small: "n < 2 ^ 63 \<Longrightarrow> unat (word_of_nat n :: u64) = n"
  by (simp add: unat_of_nat)

lemma decode_shared_enc:
  assumes "length t < 2 ^ 63"
  shows "mdb_prefix_decode_shared (enc t k) =
    Ok (word_of_nat (mdb_leaf_shared_prefix t k), mdb_varint_length (word_of_nat (mdb_leaf_shared_prefix t k)))"
proof -
  have "mdb_leaf_shared_prefix t k < 2 ^ 63" using shared_prefix_le(1)[of t k] assms by linarith
  then show ?thesis
    unfolding decode_shared_varint enc_eq varint_decode_encode by (simp only: unat_small if_True)
qed

lemma canonical_header_iff:
  assumes "mdb_prefix_decode_shared encoded = Ok (s, used)" "used \<le> length encoded"
  shows "canonical_header encoded (unat s) used \<longleftrightarrow> take used encoded = mdb_varint_encode s"
proof -
  have "take 1 encoded = mdb_varint_encode s" if "used = 1" "encoded ! 0 < 0x80"
  proof -
    have ne: "encoded \<noteq> []" using assms that by (auto simp: mdb_prefix_decode_shared_def)
    then have "s = ucast (encoded ! 0)"
      using assms(1) that by (simp add: mdb_prefix_decode_shared_def marked_byte)
    then show ?thesis using ne that by (cases encoded) (simp_all add: varint_encode_small)
  qed
  moreover have "mdb_varint_length s = used" if "take used encoded = mdb_varint_encode s"
    using arg_cong[OF that, of length] assms(2) by simp
  ultimately show ?thesis by (auto simp: canonical_header_def Let_def)
qed

text \<open>
  Both decoders accept exactly the encodings that \<open>mdb_leaf_encode_key\<close> writes; everything else is
  a raw key.
\<close>

lemma canonical_iff_enc:
  assumes t: "length t < 2 ^ 63"
    and dec: "mdb_prefix_decode_shared e = Ok (s, used)" and le: "unat s \<le> length t" "used \<le> length e"
  shows "\<not> (length e - used > 0 \<and> unat s < length t \<and> t ! unat s = e ! used) \<and> canonical_header e (unat s) used
    \<longleftrightarrow> e = enc t (take (unat s) t @ drop used e)" (is "?L = ?R")
proof
  assume L: ?L
  have "drop used e = [] \<or> unat s = length t \<or> t ! unat s \<noteq> hd (drop used e)"
    using L le by (auto simp: hd_drop_conv_nth)
  then have sp: "mdb_leaf_shared_prefix t (take (unat s) t @ drop used e) = unat s"
    using le(1) by (rule shared_prefix_eqI[rotated])
  have "take used e = mdb_varint_encode s" using L canonical_header_iff[OF dec le(2)] by blast
  then have "e = mdb_varint_encode s @ drop used e" by (metis append_take_drop_id)
  then show ?R using le(1) by (simp add: enc_eq sp)
next
  assume R: ?R
  let ?k = "take (unat s) t @ drop used e"
  let ?s = "mdb_leaf_shared_prefix t ?k"
  have "Ok (s, used) = Ok (word_of_nat ?s, mdb_varint_length (word_of_nat ?s))"
    using decode_shared_enc[OF t, of ?k] dec unfolding R[symmetric] by (rule trans[OF sym, rotated])
  then have sp: "s = word_of_nat ?s" "used = mdb_varint_length (word_of_nat ?s)"
    unfolding res.inject prod.inject by (rule conjunct1, rule conjunct2)
  moreover have "?s < 2 ^ 63" using shared_prefix_le(1)[of t ?k] t by linarith
  ultimately have s: "unat s = ?s" using unat_small[of ?s] by metis
  have "e = mdb_varint_encode s @ drop ?s ?k" using R enc_eq sp(1) by metis
  moreover have "used = mdb_varint_length s" using sp by metis
  ultimately have "take used e = mdb_varint_encode s" by (metis append_eq_conv_conj length_varint_encode)
  moreover have "\<not> (length e - used > 0 \<and> unat s < length t \<and> t ! unat s = e ! used)"
  proof
    assume *: "length e - used > 0 \<and> unat s < length t \<and> t ! unat s = e ! used"
    have "length ?k = unat s + (length e - used)" using le by simp
    with * have "unat s < length ?k" by linarith
    moreover have "?k ! unat s = e ! used" using * le by (simp add: nth_append)
    ultimately have "unat s < length ?k" "?k ! unat s = e ! used" by simp_all
    with * shared_prefix_maximal[of t ?k] show False unfolding s[symmetric] by simp
  qed
  ultimately show ?L using canonical_header_iff[OF dec le(2)] by blast
qed

text \<open>A header hint that a caller already decoded: NULL, not valid, or what the header says.\<close>

definition header_ok :: "bytes \<Rightarrow> MDB_prefix_header option \<Rightarrow> bool" where
  "header_ok e header \<longleftrightarrow> (case header of None \<Rightarrow> True | Some h \<Rightarrow> ph_valid h \<longrightarrow>
     (\<exists>s. mdb_prefix_decode_shared e = Ok (s, ph_used h) \<and> unat s = ph_shared h))"

lemma key_parts_header:
  "header_ok e header \<Longrightarrow> mdb_leaf_key_parts trunk e limit header = mdb_leaf_key_parts trunk e limit None"
  by (auto simp: header_ok_def mdb_leaf_key_parts_def split: option.splits)

lemma key_parts_spec:
  assumes t: "length t < 2 ^ 63" and dec: "mdb_prefix_decode_shared e = Ok (s, used)"
  shows "mdb_leaf_key_parts (Some t) e limit None =
    (if unat s > length t \<or> used > length e then Ok (raw_parts e)
     else if unat s + (length e - used) > limit then Err MDB_BAD_VALSIZE
     else if e = enc t (take (unat s) t @ drop used e)
     then Ok \<lparr>kp_prefix = Some t, kp_prefix_len = unat s, kp_suffix = drop used e\<rparr>
     else Ok (raw_parts e))"
proof (cases "unat s > length t \<or> used > length e")
  case True
  then show ?thesis by (simp add: mdb_leaf_key_parts_def dec)
next
  case False
  then have "unat s \<le> length t" "used \<le> length e" by simp_all
  from canonical_iff_enc[OF t dec this] False show ?thesis
    by (auto simp: mdb_leaf_key_parts_def dec Let_def)
qed

lemma key_parts_enc:
  assumes t: "length t < 2 ^ 63" and "length k \<le> limit"
  shows "mdb_leaf_key_parts (Some t) (enc t k) limit None =
    Ok \<lparr>kp_prefix = Some t, kp_prefix_len = mdb_leaf_shared_prefix t k,
        kp_suffix = drop (mdb_leaf_shared_prefix t k) k\<rparr>"
proof -
  let ?n = "mdb_leaf_shared_prefix t k"
  let ?u = "mdb_varint_length (word_of_nat ?n)"
  have le: "?n \<le> length t" "?n \<le> length k" by (rule shared_prefix_le)+
  then have n: "unat (word_of_nat ?n :: u64) = ?n" using t unat_small[of ?n] by linarith
  have d: "drop ?u (enc t k) = drop ?n k" and l: "length (enc t k) = ?u + (length k - ?n)"
    by (simp_all add: enc_eq)
  have "take ?n t @ drop ?n k = k" by (rule shared_prefix_split)
  then show ?thesis
    using le assms(2) unfolding key_parts_spec[OF t decode_shared_enc[OF t]] n d l by simp
qed

lemma decode_key_enc:
  assumes "length t < 2 ^ 63" "length k \<le> buf_size" "header_ok (enc t k) header"
  shows "mdb_leaf_decode_key (Some t) (enc t k) buf_size alias header = Ok k"
  using shared_prefix_le(2)[of t k]
  unfolding mdb_leaf_decode_key_def key_parts_header[OF assms(3)] key_parts_enc[OF assms(1,2)]
  using assms(2) by (simp add: Let_def shared_prefix_split)

lemma key_parts_inverse:
  assumes t: "length t < 2 ^ 63" and k: "mdb_leaf_key_parts (Some t) e limit None = Ok parts"
  shows "parts = raw_parts e \<or>
    (\<exists>n. parts = \<lparr>kp_prefix = Some t, kp_prefix_len = n, kp_suffix = kp_suffix parts\<rparr> \<and> n \<le> length t \<and>
       e = enc t (take n t @ kp_suffix parts))"
proof -
  obtain s used where "mdb_prefix_decode_shared e = Ok (s, used)"
    using k by (cases "mdb_prefix_decode_shared e") (auto simp: mdb_leaf_key_parts_def)
  from k[unfolded key_parts_spec[OF t this]] show ?thesis
    by (auto split: if_splits)
qed

lemma decode_key_inverse:
  assumes "length t < 2 ^ 63" "mdb_leaf_decode_key (Some t) e buf_size alias None = Ok k"
  shows "k = e \<or> e = enc t k"
proof -
  from assms(2) obtain parts where p: "mdb_leaf_key_parts (Some t) e buf_size None = Ok parts"
    unfolding mdb_leaf_decode_key_def bind_res_Ok_iff by blast
  have r: "mdb_leaf_decode_key (Some t) e buf_size alias None =
      (if kp_prefix parts = None \<and> alias then Ok (kp_suffix parts)
       else if kp_prefix_len parts + length (kp_suffix parts) > buf_size then Err MDB_BAD_VALSIZE
       else Ok (take (kp_prefix_len parts) (case kp_prefix parts of None \<Rightarrow> [] | Some t \<Rightarrow> t) @ kp_suffix parts))"
    by (simp add: mdb_leaf_decode_key_def p Let_def)
  from key_parts_inverse[OF assms(1) p] show ?thesis
  proof
    assume "parts = raw_parts e"
    with r assms(2) show ?thesis by (auto simp: raw_parts_def split: if_splits)
  next
    assume "\<exists>n. parts = \<lparr>kp_prefix = Some t, kp_prefix_len = n, kp_suffix = kp_suffix parts\<rparr> \<and> n \<le> length t \<and>
       e = enc t (take n t @ kp_suffix parts)"
    then obtain n where n: "kp_prefix parts = Some t" "kp_prefix_len parts = n" "e = enc t (take n t @ kp_suffix parts)"
      by (metis MDB_key_parts.select_convs(1,2))
    with r assms(2) have "k = take n t @ kp_suffix parts" by (auto split: if_splits)
    with n(3) show ?thesis by simp
  qed
qed

text \<open>The canonical decoder of the stride cache accepts the same encodings.\<close>

lemma extra_0_iff:
  assumes "s \<le> length t" "used \<le> length e"
  shows "mdb_leaf_shared_prefix (drop s t) (drop used e) > 0 \<longleftrightarrow>
    length e - used > 0 \<and> s < length t \<and> t ! s = e ! used"
proof -
  have "mdb_leaf_shared_prefix (drop s t) (drop used e) = 0 \<longleftrightarrow>
      s = length t \<or> used = length e \<or> hd (drop s t) \<noteq> hd (drop used e)"
    using assms by (auto simp: shared_prefix_0_iff)
  then show ?thesis using assms by (cases "s < length t"; cases "used < length e") (auto simp: hd_drop_conv_nth)
qed

lemma decode_canonical_spec:
  assumes t: "length t < 2 ^ 63" and e: "length e < 2 ^ 63"
    and dec: "mdb_prefix_decode_shared e = Ok (s, used)"
  shows "mdb_prefix_decode_canonical (Some t) e =
    (if unat s \<le> length t \<and> used \<le> length e \<and> e = enc t (take (unat s) t @ drop used e)
     then Some (unat s, used, unat s + (length e - used)) else None)"
proof (cases "unat s \<le> length t \<and> used \<le> length e")
  case False
  then show ?thesis by (auto simp: mdb_prefix_decode_canonical_def dec)
next
  case True
  then have le: "unat s \<le> length t" "used \<le> length e" by simp_all
  have ne: "e \<noteq> []" using dec by (auto simp: mdb_prefix_decode_shared_def)
  have nov: "\<not> unat s > 2 ^ 64 - 1 - (length e - used)" using le t e by simp
  have "mdb_prefix_decode_canonical (Some t) e =
      (if mdb_leaf_shared_prefix (drop (unat s) t) (drop used e) > 0 then None
       else if \<not> canonical_header e (unat s) used then None
       else Some (unat s, used, unat s + (length e - used)))"
    using le ne nov unfolding mdb_prefix_decode_canonical_def option.case dec res.case prod.case Let_def
    by (auto simp: not_less)
  also have "\<dots> = (if e = enc t (take (unat s) t @ drop used e) then Some (unat s, used, unat s + (length e - used)) else None)"
    using canonical_iff_enc[OF t dec le] extra_0_iff[OF le] by auto
  finally show ?thesis using True by simp
qed

text \<open>The canonical decoder and \<open>mdb_leaf_key_parts\<close> take the same encodings for prefix keys.\<close>

lemma decoders_agree:
  assumes t: "length t < 2 ^ 63" and e: "length e < 2 ^ 63"
    and p: "mdb_leaf_key_parts (Some t) e limit None = Ok parts"
  shows "mdb_prefix_decode_canonical (Some t) e =
    (case kp_prefix parts of None \<Rightarrow> None
     | Some _ \<Rightarrow> Some (kp_prefix_len parts, length e - length (kp_suffix parts),
                     kp_prefix_len parts + length (kp_suffix parts)))"
proof -
  obtain s used where dec: "mdb_prefix_decode_shared e = Ok (s, used)"
    using p by (cases "mdb_prefix_decode_shared e") (auto simp: mdb_leaf_key_parts_def)
  show ?thesis
    using p[unfolded key_parts_spec[OF t dec]] unfolding decode_canonical_spec[OF t e dec]
    by (auto simp: raw_parts_def split: if_splits)
qed

section \<open>Comparing without decoding\<close>

lemma cmp_encoded_loop_spec:
  assumes "shared \<le> length t" "minlen \<le> length key" "minlen \<le> shared + length suffix" "pos \<le> minlen"
  defines "cand \<equiv> take shared t @ suffix"
  shows "cmp_encoded_loop key t suffix shared pos minlen =
    (let c = memcmp (take (minlen - pos) (drop pos key)) (take (minlen - pos) (drop pos cand))
     in if c = 0 then None else Some c)"
  using assms(1-4)
proof (induction "minlen - pos" arbitrary: pos)
  case 0
  then show ?case by (simp add: cmp_encoded_loop.simps[of key])
next
  case (Suc n)
  then have pos: "pos < minlen" by simp
  have b: "(if pos < shared then t ! pos else suffix ! (pos - shared)) = cand ! pos"
    using Suc.prems by (auto simp: cand_def nth_append)
  have dk: "drop pos key = key ! pos # drop (pos + 1) key" "drop pos cand = cand ! pos # drop (pos + 1) cand"
    using pos Suc.prems Cons_nth_drop_Suc[of pos key] Cons_nth_drop_Suc[of pos cand] by (simp_all add: cand_def)
  have m: "minlen - pos = Suc n" "minlen - (pos + 1) = n" using Suc.hyps(2) by simp_all
  show ?case
    using Suc.hyps(1)[of "pos + 1"] Suc.prems pos
    unfolding cmp_encoded_loop.simps[of key t suffix shared pos] b dk m by (auto simp: Let_def)
qed

lemma cmp_encoded_enc:
  assumes t: "length t < 2 ^ 63" and len: "length key < 2 ^ 32" "length k < 2 ^ 32"
    and p: "p \<le> mdb_leaf_shared_prefix t key"
  shows "mdb_leaf_cmp_memn_encoded (enc t k) (Some t) (Some key) p = Ok (mdb_cmp_memn key k)"
proof -
  let ?n = "mdb_leaf_shared_prefix t k" and ?u = "mdb_varint_length (word_of_nat (mdb_leaf_shared_prefix t k))"
  define skip where "skip = min p ?n"
  have le: "?n \<le> length t" "?n \<le> length k" by (rule shared_prefix_le)+
  then have n: "unat (word_of_nat ?n :: u64) = ?n" using t unat_small[of ?n] by linarith
  have d: "drop ?u (enc t k) = drop ?n k" by (simp add: enc_eq)
  have u: "?u \<le> length (enc t k)" by (simp add: enc_eq)
  have cand: "take ?n t @ drop ?n k = k" by (rule shared_prefix_split)
  have clen: "?n + length (drop ?n k) = length k" using le by simp
  define minlen where "minlen = (if length key < length k then length key else length k)"
  have sk: "skip \<le> length key" "skip \<le> length k" "take skip key = take skip k"
    using shared_prefix_le[of t key] p le shared_prefix_take[of skip t key] shared_prefix_take[of skip t k]
    by (simp_all add: skip_def)
  have loop: "cmp_encoded_loop key t (drop ?n k) ?n skip minlen =
     (let c = memcmp (take (minlen - skip) (drop skip key)) (take (minlen - skip) (drop skip k))
      in if c = 0 then None else Some c)"
    using cmp_encoded_loop_spec[of ?n t minlen key "drop ?n k" skip] le sk(1,2) by (simp add: cand minlen_def)
  have "mdb_leaf_cmp_memn_encoded (enc t k) (Some t) (Some key) p =
    (case cmp_encoded_loop key t (drop ?n k) ?n skip minlen of Some c \<Rightarrow> Ok c
     | None \<Rightarrow> Ok (if length key = length k then 0 else if length key < length k then - 1 else 1))"
    using le(1) u
    by (simp add: mdb_leaf_cmp_memn_encoded_def decode_shared_enc[OF t] n d clen Let_def skip_def minlen_def min_def
        del: length_drop)
  also have "\<dots> = Ok (mdb_cmp_memn_with_skip key k skip)"
    unfolding loop by (auto simp: mdb_cmp_memn_with_skip_def Let_def minlen_def)
  also have "\<dots> = Ok (mdb_cmp_memn key k)"
    using cmp_memn_skip[of key k skip] sk len by simp
  finally show ?thesis .
qed

lemma decoded_length_enc:
  assumes "length t < 2 ^ 63" "length k < 2 ^ 63"
  shows "length k \<le> mdb_prefix_decoded_length (length t) (enc t k)"
proof -
  let ?n = "mdb_leaf_shared_prefix t k"
  have le: "?n \<le> length t" "?n \<le> length k" by (rule shared_prefix_le)+
  then have n: "unat (word_of_nat ?n :: u64) = ?n" using assms unat_small[of ?n] by linarith
  let ?u = "mdb_varint_length (word_of_nat ?n)"
  have l: "length (enc t k) - ?u = length k - ?n" and u: "\<not> ?u > length (enc t k)" by (simp_all add: enc_eq)
  have nov: "\<not> ?n > 2 ^ 64 - 1 - (length k - ?n)" using le assms by simp
  have "mdb_prefix_decoded_length (length t) (enc t k) =
     (if ?n + (length k - ?n) < length (enc t k) then length (enc t k) else ?n + (length k - ?n))"
    unfolding mdb_prefix_decoded_length_def decode_shared_enc[OF assms(1)] res.case prod.case n Let_def l
    using le(1) u nov by (auto simp: not_less)
  then show ?thesis using le(2) by simp
qed

section \<open>Properties\<close>

text \<open>Reading back a variable-length header gives the value and the number of bytes written, with
  anything after it; a value of 64 significant bits, which the encoder writes in ten bytes, is refused
  as corrupted.\<close>

theorem varint_roundtrip:
  "mdb_varint_decode (mdb_varint_encode v @ rest) =
     (if unat v < 2 ^ 63 then Ok (v, mdb_varint_length v) else Err MDB_CORRUPTED)"
  by (rule varint_decode_encode)

text \<open>C39. A key stored against a trunk is read back unchanged by \<open>mdb_leaf_decode_key\<close>, whatever the
  key and the trunk are, with or without a header hint, as soon as the buffer holds the key.\<close>

theorem leaf_key_roundtrip:
  assumes "length t < 2 ^ 63" "length k \<le> buf_size" "header_ok (fst (mdb_leaf_encode_key (Some t) k)) header"
  shows "mdb_leaf_decode_key (Some t) (fst (mdb_leaf_encode_key (Some t) k)) buf_size alias header = Ok k"
  using decode_key_enc[of t k buf_size header] assms by (simp add: enc_def)

theorem leaf_key_roundtrip_witness:
  "mdb_leaf_decode_key (Some [7, 8, 9]) (fst (mdb_leaf_encode_key (Some [7, 8, 9]) [7, 8, 1, 2])) 511 False None
     = Ok [7, 8, 1, 2]"
  by (rule leaf_key_roundtrip) (simp_all add: header_ok_def)

text \<open>Whatever bytes a leaf node holds, a successful decode is one of two things: the bytes
  themselves (a raw key), or a key whose stored form is exactly these bytes. No other reading of a
  plausible header is possible.\<close>

theorem leaf_decode_sound:
  assumes "length t < 2 ^ 63" "mdb_leaf_decode_key (Some t) e buf_size alias None = Ok k"
  shows "k = e \<or> e = fst (mdb_leaf_encode_key (Some t) k)"
  using decode_key_inverse[OF assms] by (simp add: enc_def)

theorem leaf_decode_sound_witness:
  "[7, 8, 1] = [2, 1 :: byte] \<or> [2, 1 :: byte] = fst (mdb_leaf_encode_key (Some [7, 8, 9]) [7, 8, 1])"
proof (rule leaf_decode_sound)
  show "mdb_leaf_decode_key (Some [7, 8, 9]) [2, 1] 511 False None = Ok [7, 8, 1]" by code_simp
qed simp

text \<open>The two decoders of a leaf key, \<open>mdb_leaf_key_parts\<close> of the cursors and
  \<open>mdb_prefix_decode_canonical\<close> of the stride cache, take the same encodings for prefix keys, with the
  same shared length, header length and key length.\<close>

theorem canonical_decoders_agree:
  assumes "length t < 2 ^ 63" "length e < 2 ^ 63" "mdb_leaf_key_parts (Some t) e limit None = Ok parts"
  shows "mdb_prefix_decode_canonical (Some t) e =
    (case kp_prefix parts of None \<Rightarrow> None
     | Some _ \<Rightarrow> Some (kp_prefix_len parts, length e - length (kp_suffix parts),
                     kp_prefix_len parts + length (kp_suffix parts)))"
  using assms by (rule decoders_agree)

theorem canonical_decoders_agree_witness:
  "mdb_prefix_decode_canonical (Some [7, 8, 9]) [2, 1] = Some (2, 1, 3)"
proof -
  have "mdb_leaf_key_parts (Some [7, 8, 9]) [2, 1] 511 None =
      Ok \<lparr>kp_prefix = Some [7, 8, 9], kp_prefix_len = 2, kp_suffix = [1]\<rparr>" by code_simp
  from canonical_decoders_agree[OF _ _ this] show ?thesis by simp
qed

text \<open>C40. Comparing a search key with a stored key without decoding it gives \<open>mdb_cmp_memn\<close> of the
  search key and the key stored, when the caller's prefix hint is not beyond what the search key
  shares with the trunk.\<close>

theorem cmp_encoded_correct:
  assumes "length t < 2 ^ 63" "length key < 2 ^ 32" "length k < 2 ^ 32" "p \<le> mdb_leaf_shared_prefix t key"
  shows "mdb_leaf_cmp_memn_encoded (fst (mdb_leaf_encode_key (Some t) k)) (Some t) (Some key) p =
    Ok (mdb_cmp_memn key k)"
  using cmp_encoded_enc[OF assms] by (simp add: enc_def)

theorem cmp_encoded_correct_witness:
  "mdb_leaf_cmp_memn_encoded (fst (mdb_leaf_encode_key (Some [7, 8, 9]) [7, 9])) (Some [7, 8, 9])
     (Some [7, 8]) 1 = Ok (mdb_cmp_memn [7, 8] [7, 9])"
  by (rule cmp_encoded_correct) simp_all

end
