(* ===== verification/Page.thy ===== *)
theory Page
  imports "HOL-Library.Code_Target_Nat" DLMDB_Prelude
begin

text \<open>
  B-tree pages (\<open>mdb.c\<close>): the page header, the slot array \<open>mp_ptrs\<close> and the bytes of the page, the
  nodes in it, and the slot operations under every insertion and deletion. A page is byte memory
  indexed by the offset from its start; a node is the offset a slot holds (\<open>PAGEBASE\<close> is 0), and
  its fields are read from the bytes. The slot array occupies the bytes below \<open>mp_lower\<close> and is kept
  apart from the byte memory, which the code uses from \<open>mp_upper\<close> on (from the header on for LEAF2).
\<close>

section \<open>The page and its fields\<close>

record MDB_page =
  mp_pgno :: nat
  mp_pad :: nat
  mp_flags :: u16
  mp_lower :: nat
  mp_upper :: nat
  mp_ptrs :: "nat \<Rightarrow> nat"
  mp_mem :: mem

definition P_BRANCH :: u16 where "P_BRANCH = 0x01"
definition P_LEAF :: u16 where "P_LEAF = 0x02"
definition P_OVERFLOW :: u16 where "P_OVERFLOW = 0x04"
definition P_DIRTY :: u16 where "P_DIRTY = 0x10"
definition P_LEAF2 :: u16 where "P_LEAF2 = 0x20"
definition P_SUBP :: u16 where "P_SUBP = 0x40"
definition P_COUNTED :: u16 where "P_COUNTED = 0x80"

definition F_BIGDATA :: u16 where "F_BIGDATA = 0x01"
definition F_SUBDATA :: u16 where "F_SUBDATA = 0x02"
definition F_DUPDATA :: u16 where "F_DUPDATA = 0x04"

definition F_ISSET :: "u16 \<Rightarrow> u16 \<Rightarrow> bool" where
  "F_ISSET w f \<longleftrightarrow> w AND f = f"

definition PAGEHDRSZ :: nat where "PAGEHDRSZ = 16"
definition NODESIZE :: nat where "NODESIZE = 8"

definition NUMKEYS :: "MDB_page \<Rightarrow> nat" where
  "NUMKEYS mp = u16_sub (mp_lower mp) PAGEHDRSZ div 2"

definition SIZELEFT :: "MDB_page \<Rightarrow> nat" where
  "SIZELEFT mp = u16_sub (mp_upper mp) (mp_lower mp)"

definition IS_LEAF :: "MDB_page \<Rightarrow> bool" where "IS_LEAF mp = F_ISSET (mp_flags mp) P_LEAF"
definition IS_LEAF2 :: "MDB_page \<Rightarrow> bool" where "IS_LEAF2 mp = F_ISSET (mp_flags mp) P_LEAF2"
definition IS_BRANCH :: "MDB_page \<Rightarrow> bool" where "IS_BRANCH mp = F_ISSET (mp_flags mp) P_BRANCH"
definition IS_COUNTED :: "MDB_page \<Rightarrow> bool" where "IS_COUNTED mp = F_ISSET (mp_flags mp) P_COUNTED"
definition IS_SUBP :: "MDB_page \<Rightarrow> bool" where "IS_SUBP mp = F_ISSET (mp_flags mp) P_SUBP"

definition OVPAGES :: "nat \<Rightarrow> nat \<Rightarrow> nat" where
  "OVPAGES sz psize = (PAGEHDRSZ - 1 + sz) div psize + 1"

section \<open>Nodes\<close>

definition get16 :: "mem \<Rightarrow> nat \<Rightarrow> nat" where
  "get16 m a = le_nat (mem_read m a 2)"

definition set16 :: "mem \<Rightarrow> nat \<Rightarrow> nat \<Rightarrow> mem" where
  "set16 m a v = mem_write m a (le_bytes 2 v)"

definition mn_lo :: "mem \<Rightarrow> nat \<Rightarrow> nat" where "mn_lo m node = get16 m node"
definition mn_hi :: "mem \<Rightarrow> nat \<Rightarrow> nat" where "mn_hi m node = get16 m (node + 2)"
definition mn_flags :: "mem \<Rightarrow> nat \<Rightarrow> u16" where "mn_flags m node = word_of_nat (get16 m (node + 4))"
definition mn_ksize :: "mem \<Rightarrow> nat \<Rightarrow> nat" where "mn_ksize m node = get16 m (node + 6)"

definition NODEPTR :: "MDB_page \<Rightarrow> nat \<Rightarrow> nat" where
  "NODEPTR mp i = mp_ptrs mp i"

definition counted_branch :: "MDB_page \<Rightarrow> bool" where
  "counted_branch mp \<longleftrightarrow> IS_BRANCH mp \<and> IS_COUNTED mp"

definition NODEKEY_at :: "MDB_page \<Rightarrow> nat \<Rightarrow> nat" where
  "NODEKEY_at mp node = node + NODESIZE + (if counted_branch mp then 8 else 0)"

definition NODEKEY :: "MDB_page \<Rightarrow> nat \<Rightarrow> bytes" where
  "NODEKEY mp node = mem_read (mp_mem mp) (NODEKEY_at mp node) (mn_ksize (mp_mem mp) node)"

definition NODEDATA_at :: "MDB_page \<Rightarrow> nat \<Rightarrow> nat" where
  "NODEDATA_at mp node = node + NODESIZE + EVEN (mn_ksize (mp_mem mp) node)"

text \<open>\<open>lo | hi << 16 | flags << 32\<close>, the fields being 16 bits wide.\<close>

definition NODEPGNO :: "MDB_page \<Rightarrow> nat \<Rightarrow> nat" where
  "NODEPGNO mp node = mn_lo (mp_mem mp) node + mn_hi (mp_mem mp) node * 2 ^ 16
     + unat (mn_flags (mp_mem mp) node) * 2 ^ 32"

definition SETPGNO :: "mem \<Rightarrow> nat \<Rightarrow> nat \<Rightarrow> mem" where
  "SETPGNO m node pgno = set16 (set16 (set16 m node (pgno mod 2 ^ 16)) (node + 2) (pgno div 2 ^ 16)) (node + 4) (pgno div 2 ^ 32)"

definition NODEDSZ :: "MDB_page \<Rightarrow> nat \<Rightarrow> nat" where
  "NODEDSZ mp node = mn_lo (mp_mem mp) node + mn_hi (mp_mem mp) node * 2 ^ 16"

definition SETDSZ :: "mem \<Rightarrow> nat \<Rightarrow> nat \<Rightarrow> mem" where
  "SETDSZ m node sz = set16 (set16 m node (sz mod 2 ^ 16)) (node + 2) (sz div 2 ^ 16)"

definition LEAF2KEY_at :: "nat \<Rightarrow> nat \<Rightarrow> nat" where
  "LEAF2KEY_at i ks = PAGEHDRSZ + i * ks"

definition mdb_node_set_count :: "MDB_page \<Rightarrow> nat \<Rightarrow> u64 \<Rightarrow> MDB_page" where
  "mdb_node_set_count mp node v =
     (if IS_BRANCH mp \<and> IS_COUNTED mp
      then mp\<lparr>mp_mem := mem_write (mp_mem mp) (node + NODESIZE) (le_bytes 8 (unat v))\<rparr> else mp)"

definition mdb_node_get_count :: "MDB_page \<Rightarrow> nat \<Rightarrow> u64" where
  "mdb_node_get_count mp node =
     (if IS_BRANCH mp \<and> IS_COUNTED mp
      then word_of_nat (le_nat (mem_read (mp_mem mp) (node + NODESIZE) 8)) else 0)"

text \<open>The bytes a node takes, as the code adds them up before it deletes one.\<close>

definition node_size :: "MDB_page \<Rightarrow> nat \<Rightarrow> nat" where
  "node_size mp node =
     (let sz = NODESIZE + EVEN (mn_ksize (mp_mem mp) node);
          sz = (if IS_BRANCH mp \<and> IS_COUNTED mp then sz + 8 else sz);
          sz = (if IS_LEAF mp then
                  if F_ISSET (mn_flags (mp_mem mp) node) F_BIGDATA then sz + 8 else sz + NODEDSZ mp node
                else sz)
      in EVEN sz)"

section \<open>Slots\<close>

definition mdb_page_insert_slot :: "MDB_page \<Rightarrow> nat \<Rightarrow> nat \<Rightarrow> MDB_page res" where
  "mdb_page_insert_slot mp indx sz =
     (let numkeys = NUMKEYS mp; delta = sz mod 65536 in
      cassert (sz = delta) (cassert (indx \<le> numkeys) (
        let ptrs = shift_up (mp_ptrs mp) indx numkeys;
            ofs = u16_sub (mp_upper mp) delta
        in cassert (ofs \<ge> mp_lower mp + 2)
             (Ok (mp\<lparr>mp_ptrs := ptrs(indx := ofs), mp_upper := ofs,
                     mp_lower := (mp_lower mp + 2) mod 65536\<rparr>)))))"

text \<open>\<open>for (i = 0; i < numkeys - 1; ++i) if (ptrs[i] < ofs) ptrs[i] += delta;\<close>\<close>

function bump_below :: "(nat \<Rightarrow> nat) \<Rightarrow> nat \<Rightarrow> nat \<Rightarrow> nat \<Rightarrow> nat \<Rightarrow> (nat \<Rightarrow> nat)" where
  "bump_below ptrs ofs delta i n =
     (if i < n then
        bump_below (if ptrs i < ofs then ptrs(i := (ptrs i + delta) mod 65536) else ptrs) ofs delta (i + 1) n
      else ptrs)"
  by pat_completeness auto
termination by (relation "measure (\<lambda>(p, ofs, d, i, n). n - i)") auto

declare bump_below.simps [simp del]

text \<open>A slot below \<open>mp_upper\<close> would make \<open>memmove\<close>'s length wrap around; that is an \<open>Abort\<close> here.\<close>

definition mdb_page_remove_slot :: "MDB_page \<Rightarrow> nat \<Rightarrow> nat \<Rightarrow> MDB_page res" where
  "mdb_page_remove_slot mp indx sz =
     (let numkeys = NUMKEYS mp; delta = sz mod 65536 in
      cassert (sz = delta) (cassert (indx < numkeys) (
        let ofs = mp_ptrs mp indx;
            ptrs = shift_down (mp_ptrs mp) indx numkeys;
            ptrs = bump_below ptrs ofs delta 0 (numkeys - 1);
            base = mp_upper mp;
            span = ofs - mp_upper mp
        in cassert (mp_upper mp \<le> ofs)
             (Ok (mp\<lparr>mp_ptrs := ptrs,
                     mp_mem := (if span > 0 then mem_move (mp_mem mp) (base + delta) base span else mp_mem mp),
                     mp_lower := u16_sub (mp_lower mp) 2,
                     mp_upper := (mp_upper mp + delta) mod 65536\<rparr>)))))"

section \<open>LEAF2 pages\<close>

text \<open>\<open>ksize\<close> is \<open>md_pad\<close>, at least 2; the keys are contiguous after the header.\<close>

definition mdb_leaf2_add :: "MDB_page \<Rightarrow> nat \<Rightarrow> nat \<Rightarrow> bytes \<Rightarrow> MDB_page res" where
  "mdb_leaf2_add mp indx ksize key =
     (let dif = int (NUMKEYS mp) - int indx; ptr = LEAF2KEY_at indx ksize in
      cassert (IS_LEAF2 mp)
        (let m = (if dif > 0 then mem_move (mp_mem mp) (ptr + ksize) ptr (nat dif * ksize) else mp_mem mp)
         in Ok (mp\<lparr>mp_mem := mem_write m ptr (take ksize key),
                   mp_lower := (mp_lower mp + 2) mod 65536,
                   mp_upper := nat ((int (mp_upper mp) - (int ksize - 2)) mod 65536)\<rparr>)))"

text \<open>The LEAF2 branch of \<open>mdb_node_del\<close>.\<close>

definition leaf2_del :: "MDB_page \<Rightarrow> nat \<Rightarrow> nat \<Rightarrow> MDB_page" where
  "leaf2_del mp indx ksize =
     (let x = NUMKEYS mp - 1 - indx; base = LEAF2KEY_at indx ksize
      in mp\<lparr>mp_mem := (if x > 0 then mem_move (mp_mem mp) base (base + ksize) (x * ksize) else mp_mem mp),
            mp_lower := u16_sub (mp_lower mp) 2,
            mp_upper := nat ((int (mp_upper mp) + (int ksize - 2)) mod 65536)\<rparr>)"

section \<open>Lemmas on the loops and fields\<close>

lemma bump_below_closed [loop_simps]:
  "bump_below ptrs ofs delta i n =
     (\<lambda>x. if i \<le> x \<and> x < n \<and> ptrs x < ofs then (ptrs x + delta) mod 65536 else ptrs x)"
proof (induction ptrs ofs delta i n rule: bump_below.induct)
  case (1 ptrs ofs delta i n)
  show ?case
  proof (cases "i < n")
    case True
    show ?thesis
      unfolding bump_below.simps[of ptrs] 1[OF True] using True
      by (auto simp: fun_eq_iff le_Suc_eq not_less_eq_eq)
  next
    case False
    then show ?thesis by (auto simp: bump_below.simps[of ptrs] fun_eq_iff)
  qed
qed

lemma get16_less: "get16 m a < 65536"
  using le_nat_less[of "mem_read m a 2"] by (simp add: get16_def)

lemma get16_set16_same [mem_simps]: "get16 (set16 m a v) a = v mod 65536"
  by (simp add: get16_def set16_def mem_simps le_nat_le_bytes)

lemma get16_set16_other [mem_simps]: "a + 2 \<le> b \<or> b + 2 \<le> a \<Longrightarrow> get16 (set16 m b v) a = get16 m a"
  by (simp add: get16_def set16_def mem_simps)

lemma get16_write_other [mem_simps]:
  "a + 2 \<le> b \<or> b + length bs \<le> a \<Longrightarrow> get16 (mem_write m b bs) a = get16 m a"
  by (simp add: get16_def mem_simps)

lemma NODEPGNO_SETPGNO:
  assumes "pgno < 2 ^ 48"
  shows "NODEPGNO (mp\<lparr>mp_mem := SETPGNO m node pgno\<rparr>) node = pgno"
proof -
  have "pgno div 2 ^ 32 < 65536" using assms by (simp add: div_less_iff_less_mult)
  moreover have "pgno = pgno mod 2 ^ 16 + (pgno div 2 ^ 16) mod 2 ^ 16 * 2 ^ 16 + pgno div 2 ^ 32 * 2 ^ 32"
  proof -
    define a where "a = pgno div 65536"
    have "pgno div 4294967296 = a div 65536" by (simp add: a_def flip: div_mult2_eq)
    moreover have "pgno = pgno mod 65536 + a * 65536" by (simp add: a_def)
    moreover have "a = a mod 65536 + a div 65536 * 65536" by simp
    ultimately have "pgno = pgno mod 65536 + a mod 65536 * 65536 + pgno div 4294967296 * 4294967296" by linarith
    then show ?thesis by (simp add: a_def)
  qed
  ultimately show ?thesis
    by (simp add: NODEPGNO_def SETPGNO_def mn_lo_def mn_hi_def mn_flags_def mem_simps unat_of_nat)
qed

lemma NODEDSZ_SETDSZ:
  assumes "sz < 2 ^ 32"
  shows "NODEDSZ (mp\<lparr>mp_mem := SETDSZ m node sz\<rparr>) node = sz"
proof -
  have "sz div 2 ^ 16 < 65536" using assms by (simp add: div_less_iff_less_mult)
  then show ?thesis
    by (simp add: NODEDSZ_def SETDSZ_def mn_lo_def mn_hi_def mem_simps)
qed

lemma get_set_count:
  assumes "counted_branch mp"
  shows "mdb_node_get_count (mdb_node_set_count mp node v) node = v"
proof -
  have "unat v < 256 ^ 8" using unsigned_less[of v] by simp
  then show ?thesis using assms
    by (simp add: mdb_node_get_count_def mdb_node_set_count_def counted_branch_def IS_BRANCH_def IS_COUNTED_def
        mem_simps le_nat_le_bytes)
qed

section \<open>Well-formed pages\<close>

text \<open>
  \<open>len i\<close> is the number of bytes slot \<open>i\<close> owns: the nodes lie between \<open>mp_upper\<close> and the end of
  the page and do not overlap. \<open>used\<close> is their total size; a page without holes has
  \<open>mp_upper + used = psize\<close>.
\<close>

definition slots_wf :: "nat \<Rightarrow> (nat \<Rightarrow> nat) \<Rightarrow> MDB_page \<Rightarrow> bool" where
  "slots_wf psize len mp \<longleftrightarrow>
     psize < 65536 \<and> even (mp_lower mp) \<and> PAGEHDRSZ \<le> mp_lower mp \<and> mp_lower mp \<le> mp_upper mp \<and> mp_upper mp \<le> psize \<and>
     (\<forall>i<NUMKEYS mp. 0 < len i \<and> mp_upper mp \<le> mp_ptrs mp i \<and> mp_ptrs mp i + len i \<le> psize) \<and>
     (\<forall>i<NUMKEYS mp. \<forall>j<NUMKEYS mp. i \<noteq> j \<longrightarrow>
        mp_ptrs mp i + len i \<le> mp_ptrs mp j \<or> mp_ptrs mp j + len j \<le> mp_ptrs mp i)"

lemma slots_wfD:
  assumes "slots_wf psize len mp"
  shows "psize < 65536" "even (mp_lower mp)" "16 \<le> mp_lower mp" "mp_lower mp \<le> mp_upper mp" "mp_upper mp \<le> psize"
    "i < NUMKEYS mp \<Longrightarrow> 0 < len i" "i < NUMKEYS mp \<Longrightarrow> mp_upper mp \<le> mp_ptrs mp i"
    "i < NUMKEYS mp \<Longrightarrow> mp_ptrs mp i + len i \<le> psize"
    "i < NUMKEYS mp \<Longrightarrow> j < NUMKEYS mp \<Longrightarrow> i \<noteq> j \<Longrightarrow>
       mp_ptrs mp i + len i \<le> mp_ptrs mp j \<or> mp_ptrs mp j + len j \<le> mp_ptrs mp i"
  using assms by (auto simp: slots_wf_def PAGEHDRSZ_def)

lemma slots_wf_lower: "slots_wf psize len mp \<Longrightarrow> mp_lower mp = 16 + 2 * NUMKEYS mp"
  using slots_wfD(1-5)[of psize len mp] by (simp add: NUMKEYS_def PAGEHDRSZ_def u16_sub_le)

lemma NUMKEYS_lower: "16 \<le> l \<Longrightarrow> l < 65536 \<Longrightarrow> NUMKEYS (mp\<lparr>mp_lower := l\<rparr>) = (l - 16) div 2"
  by (simp add: NUMKEYS_def PAGEHDRSZ_def u16_sub_le)

lemma NUMKEYS_cong: "mp_lower mp = mp_lower mp' \<Longrightarrow> NUMKEYS mp = NUMKEYS mp'"
  by (simp add: NUMKEYS_def)

text \<open>The slot that slot \<open>j\<close> of the smaller page was, with slot \<open>i\<close> gone.\<close>

definition skip_slot :: "nat \<Rightarrow> nat \<Rightarrow> nat" where
  "skip_slot i j = (if j < i then j else Suc j)"

lemma skip_slot_facts: "skip_slot i j \<noteq> i" "j + 1 < n \<Longrightarrow> skip_slot i j < n" "i < n \<Longrightarrow> j < n - 1 \<Longrightarrow> skip_slot i j < n"
  "skip_slot i j = skip_slot i k \<longleftrightarrow> j = k"
  by (auto simp: skip_slot_def)

lemma remove_slot_result:
  assumes wf: "slots_wf psize len mp" and i: "i < NUMKEYS mp"
  obtains mp' where "mdb_page_remove_slot mp i (len i) = Ok mp'"
    "mp_flags mp' = mp_flags mp" "mp_pgno mp' = mp_pgno mp" "mp_pad mp' = mp_pad mp"
    "mp_lower mp' = mp_lower mp - 2" "mp_upper mp' = mp_upper mp + len i" "NUMKEYS mp' = NUMKEYS mp - 1"
    "\<And>j. j < NUMKEYS mp - 1 \<Longrightarrow> mp_ptrs mp' j = mp_ptrs mp (skip_slot i j)
        + (if mp_ptrs mp (skip_slot i j) < mp_ptrs mp i then len i else 0)"
    "mp_mem mp' = mem_move (mp_mem mp) (mp_upper mp + len i) (mp_upper mp) (mp_ptrs mp i - mp_upper mp)"
proof -
  note W = slots_wfD[OF wf]
  have li: "0 < len i" "mp_upper mp \<le> mp_ptrs mp i" "mp_ptrs mp i + len i \<le> psize" using W(6-8)[OF i] by simp_all
  have d: "len i mod 65536 = len i" "mp_upper mp + len i < 65536" using li W(1) by simp_all
  have low: "18 \<le> mp_lower mp" using slots_wf_lower[OF wf] i by simp
  define mp' where "mp' = mp\<lparr>mp_ptrs := bump_below (shift_down (mp_ptrs mp) i (NUMKEYS mp)) (mp_ptrs mp i) (len i) 0 (NUMKEYS mp - 1),
     mp_mem := mem_move (mp_mem mp) (mp_upper mp + len i) (mp_upper mp) (mp_ptrs mp i - mp_upper mp),
     mp_lower := mp_lower mp - 2, mp_upper := mp_upper mp + len i\<rparr>"
  have z: "mem_move m a b 0 = m" for m a b by (simp add: mem_move_def)
  have "mdb_page_remove_slot mp i (len i) = Ok mp'"
  proof -
    have u: "u16_sub (mp_lower mp) 2 = mp_lower mp - 2" "(mp_upper mp + len i) mod 65536 = mp_upper mp + len i"
      using low W(1,4,5) d(2) by (simp_all add: u16_sub_le)
    have m: "(if mp_ptrs mp i - mp_upper mp > 0
        then mem_move (mp_mem mp) (mp_upper mp + len i) (mp_upper mp) (mp_ptrs mp i - mp_upper mp) else mp_mem mp)
      = mem_move (mp_mem mp) (mp_upper mp + len i) (mp_upper mp) (mp_ptrs mp i - mp_upper mp)"
      by (cases "mp_ptrs mp i - mp_upper mp") (simp_all add: z)
    show ?thesis
      unfolding mdb_page_remove_slot_def Let_def d(1) mp'_def u m using i li(2) by (simp only: cassert_simps simp_thms)
  qed
  moreover have "NUMKEYS mp' = NUMKEYS mp - 1"
    using low W(1,4,5) by (simp add: mp'_def NUMKEYS_def PAGEHDRSZ_def u16_sub_le)
  moreover have "mp_ptrs mp' j = mp_ptrs mp (skip_slot i j) + (if mp_ptrs mp (skip_slot i j) < mp_ptrs mp i then len i else 0)"
    if "j < NUMKEYS mp - 1" for j
  proof -
    have s: "shift_down (mp_ptrs mp) i (NUMKEYS mp) j = mp_ptrs mp (skip_slot i j)"
      using that by (auto simp: loop_simps skip_slot_def)
    have "mp_ptrs mp (skip_slot i j) + len i < 65536" if "mp_ptrs mp (skip_slot i j) < mp_ptrs mp i"
      using that li W(1) by simp
    with that show ?thesis by (simp add: mp'_def bump_below_closed s)
  qed
  moreover have "mp_flags mp' = mp_flags mp" "mp_pgno mp' = mp_pgno mp" "mp_pad mp' = mp_pad mp"
    "mp_lower mp' = mp_lower mp - 2" "mp_upper mp' = mp_upper mp + len i"
    "mp_mem mp' = mem_move (mp_mem mp) (mp_upper mp + len i) (mp_upper mp) (mp_ptrs mp i - mp_upper mp)"
    by (simp_all add: mp'_def)
  ultimately show thesis by (intro that)
qed

text \<open>Removing a slot: the other slots keep their bytes and the page stays well-formed.\<close>

lemma remove_slot_spec:
  assumes wf: "slots_wf psize len mp" and i: "i < NUMKEYS mp"
  obtains mp' where "mdb_page_remove_slot mp i (len i) = Ok mp'"
    "mp_flags mp' = mp_flags mp" "mp_pgno mp' = mp_pgno mp" "mp_pad mp' = mp_pad mp"
    "mp_lower mp' = mp_lower mp - 2" "mp_upper mp' = mp_upper mp + len i" "NUMKEYS mp' = NUMKEYS mp - 1"
    "\<And>j a n. j < NUMKEYS mp - 1 \<Longrightarrow> a + n \<le> len (skip_slot i j) \<Longrightarrow>
       mem_read (mp_mem mp') (mp_ptrs mp' j + a) n = mem_read (mp_mem mp) (mp_ptrs mp (skip_slot i j) + a) n"
    "slots_wf psize (\<lambda>j. len (skip_slot i j)) mp'"
proof -
  note W = slots_wfD[OF wf]
  obtain mp' where ok: "mdb_page_remove_slot mp i (len i) = Ok mp'" and fl: "mp_flags mp' = mp_flags mp"
    "mp_pgno mp' = mp_pgno mp" "mp_pad mp' = mp_pad mp"
    and lo: "mp_lower mp' = mp_lower mp - 2" and up: "mp_upper mp' = mp_upper mp + len i" and n: "NUMKEYS mp' = NUMKEYS mp - 1"
    and p: "\<And>j. j < NUMKEYS mp - 1 \<Longrightarrow> mp_ptrs mp' j = mp_ptrs mp (skip_slot i j)
        + (if mp_ptrs mp (skip_slot i j) < mp_ptrs mp i then len i else 0)"
    and m: "mp_mem mp' = mem_move (mp_mem mp) (mp_upper mp + len i) (mp_upper mp) (mp_ptrs mp i - mp_upper mp)"
    by (rule remove_slot_result[OF wf i]) blast
  have lt: "skip_slot i j < NUMKEYS mp" if "j < NUMKEYS mp - 1" for j
    using that i by (auto simp: skip_slot_def)
  have dis: "mp_ptrs mp i + len i \<le> mp_ptrs mp (skip_slot i j) \<or> mp_ptrs mp (skip_slot i j) + len (skip_slot i j) \<le> mp_ptrs mp i"
    if "j < NUMKEYS mp - 1" for j
    using W(9)[OF i lt[OF that]] skip_slot_facts(1)[of i j] by metis
  have rd: "mem_read (mp_mem mp') (mp_ptrs mp' j + a) n = mem_read (mp_mem mp) (mp_ptrs mp (skip_slot i j) + a) n"
    if j: "j < NUMKEYS mp - 1" and an: "a + n \<le> len (skip_slot i j)" for j a n
  proof (cases "mp_ptrs mp (skip_slot i j) < mp_ptrs mp i")
    case True
    then have "mp_ptrs mp (skip_slot i j) + len (skip_slot i j) \<le> mp_ptrs mp i" using dis[OF j] W(6)[OF i] by linarith
    with True show ?thesis
      using W(7)[OF lt[OF j]] an unfolding m p[OF j] by (subst mem_read_move_in) (auto simp: algebra_simps)
  next
    case False
    then have "mp_ptrs mp i + len i \<le> mp_ptrs mp (skip_slot i j)" using dis[OF j] W(6)[OF lt[OF j]] by linarith
    with False show ?thesis
      using W(7)[OF i] unfolding m p[OF j] by (subst mem_read_move_out) auto
  qed
  have low: "mp_lower mp = 16 + 2 * NUMKEYS mp" by (rule slots_wf_lower[OF wf])
  have "slots_wf psize (\<lambda>j. len (skip_slot i j)) mp'"
    unfolding slots_wf_def n lo up PAGEHDRSZ_def
  proof (intro conjI allI impI)
    show "psize < 65536" "even (mp_lower mp - 2)" "16 \<le> mp_lower mp - 2"
      using W(1) low i by auto
    show "mp_lower mp - 2 \<le> mp_upper mp + len i" "mp_upper mp + len i \<le> psize"
      using W(4) W(7,8)[OF i] by linarith+
  next
    fix j assume j: "j < NUMKEYS mp - 1"
    show "0 < len (skip_slot i j)" by (rule W(6)[OF lt[OF j]])
    show "mp_upper mp + len i \<le> mp_ptrs mp' j" "mp_ptrs mp' j + len (skip_slot i j) \<le> psize"
      using dis[OF j] W(6-8)[OF lt[OF j]] W(6-8)[OF i] unfolding p[OF j] by auto
  next
    fix j k assume jk: "j < NUMKEYS mp - 1" "k < NUMKEYS mp - 1" "j \<noteq> k"
    have "skip_slot i j \<noteq> skip_slot i k" using jk by (simp add: skip_slot_facts)
    from W(9)[OF lt[OF jk(1)] lt[OF jk(2)] this]
    show "mp_ptrs mp' j + len (skip_slot i j) \<le> mp_ptrs mp' k \<or> mp_ptrs mp' k + len (skip_slot i k) \<le> mp_ptrs mp' j"
      using dis[OF jk(1)] dis[OF jk(2)] W(6)[OF i] W(6)[OF lt[OF jk(1)]] W(6)[OF lt[OF jk(2)]]
      unfolding p[OF jk(1)] p[OF jk(2)] by auto
  qed
  from that[OF ok fl lo up n rd this] show thesis .
qed

text \<open>Inserting a slot: the new slot gets the bytes just below the old \<open>mp_upper\<close>.\<close>

definition insert_len :: "nat \<Rightarrow> nat \<Rightarrow> (nat \<Rightarrow> nat) \<Rightarrow> nat \<Rightarrow> nat" where
  "insert_len i sz len j = (if j < i then len j else if j = i then sz else len (j - 1))"

lemma insert_slot_result:
  assumes wf: "slots_wf psize len mp" and i: "i \<le> NUMKEYS mp"
    and room: "sz + 2 \<le> mp_upper mp - mp_lower mp"
  shows "mdb_page_insert_slot mp i sz = Ok (mp\<lparr>mp_ptrs := (shift_up (mp_ptrs mp) i (NUMKEYS mp))(i := mp_upper mp - sz),
      mp_upper := mp_upper mp - sz, mp_lower := mp_lower mp + 2\<rparr>)"
proof -
  note W = slots_wfD[OF wf]
  have le: "sz \<le> mp_upper mp" "mp_upper mp < 65536" "sz + 2 + mp_lower mp \<le> mp_upper mp"
    using room W(1,4,5) by linarith+
  have u: "sz mod 65536 = sz" "u16_sub (mp_upper mp) sz = mp_upper mp - sz" "(mp_lower mp + 2) mod 65536 = mp_lower mp + 2"
    using le by (simp_all add: u16_sub_le)
  have c: "mp_lower mp + 2 \<le> mp_upper mp - sz" using le by linarith
  show ?thesis
    unfolding mdb_page_insert_slot_def Let_def u using i c by (simp only: cassert_simps simp_thms)
qed

lemma insert_slot_spec:
  assumes wf: "slots_wf psize len mp" and i: "i \<le> NUMKEYS mp" and sz: "0 < sz"
    and room: "sz + 2 \<le> mp_upper mp - mp_lower mp"
  obtains mp' where "mdb_page_insert_slot mp i sz = Ok mp'"
    "mp_flags mp' = mp_flags mp" "mp_pgno mp' = mp_pgno mp" "mp_pad mp' = mp_pad mp" "mp_mem mp' = mp_mem mp"
    "mp_lower mp' = mp_lower mp + 2" "mp_upper mp' = mp_upper mp - sz" "NUMKEYS mp' = NUMKEYS mp + 1"
    "\<And>j. j \<le> NUMKEYS mp \<Longrightarrow> mp_ptrs mp' j = (if j < i then mp_ptrs mp j else if j = i then mp_upper mp - sz else mp_ptrs mp (j - 1))"
    "slots_wf psize (insert_len i sz len) mp'"
proof -
  note W = slots_wfD[OF wf]
  define mp' where "mp' = mp\<lparr>mp_ptrs := (shift_up (mp_ptrs mp) i (NUMKEYS mp))(i := mp_upper mp - sz),
      mp_upper := mp_upper mp - sz, mp_lower := mp_lower mp + 2\<rparr>"
  have low: "mp_lower mp = 16 + 2 * NUMKEYS mp" by (rule slots_wf_lower[OF wf])
  have le: "sz \<le> mp_upper mp" "mp_upper mp < 65536" "sz + 2 + mp_lower mp \<le> mp_upper mp"
    using room W(1,4,5) by linarith+
  have n: "NUMKEYS mp' = NUMKEYS mp + 1"
    using W(3) le by (simp add: mp'_def NUMKEYS_def PAGEHDRSZ_def u16_sub_le)
  have p: "mp_ptrs mp' j = (if j < i then mp_ptrs mp j else if j = i then mp_upper mp - sz else mp_ptrs mp (j - 1))"
    if "j \<le> NUMKEYS mp" for j
    using that i by (auto simp: mp'_def loop_simps)
  have other: "insert_len i sz len j = len k \<and> mp_ptrs mp' j = mp_ptrs mp k \<and> k < NUMKEYS mp"
    if "j < NUMKEYS mp + 1" "j \<noteq> i" "k = (if j < i then j else j - 1)" for j k
    using that i p[of j] by (auto simp: insert_len_def)
  have new: "insert_len i sz len i = sz" "mp_ptrs mp' i = mp_upper mp - sz"
    using p[OF i] by (simp_all add: insert_len_def)
  have "slots_wf psize (insert_len i sz len) mp'"
    unfolding slots_wf_def n PAGEHDRSZ_def
  proof (intro conjI allI impI)
    show "psize < 65536" "even (mp_lower mp')" "16 \<le> mp_lower mp'" "mp_lower mp' \<le> mp_upper mp'" "mp_upper mp' \<le> psize"
      using W(1-5) le by (simp_all add: mp'_def)
  next
    fix j assume j: "j < NUMKEYS mp + 1"
    have up: "mp_upper mp' = mp_upper mp - sz" by (simp add: mp'_def)
    have "0 < insert_len i sz len j \<and> mp_upper mp' \<le> mp_ptrs mp' j \<and> mp_ptrs mp' j + insert_len i sz len j \<le> psize"
    proof (cases "j = i")
      case True
      then show ?thesis using new sz le W(5) up by simp
    next
      case False
      from other[OF j False refl] W(6-8) up show ?thesis by (metis diff_le_self order_trans)
    qed
    then show "0 < insert_len i sz len j" "mp_upper mp' \<le> mp_ptrs mp' j" "mp_ptrs mp' j + insert_len i sz len j \<le> psize"
      by blast+
  next
    fix j k assume jk: "j < NUMKEYS mp + 1" "k < NUMKEYS mp + 1" "j \<noteq> k"
    show "mp_ptrs mp' j + insert_len i sz len j \<le> mp_ptrs mp' k \<or> mp_ptrs mp' k + insert_len i sz len k \<le> mp_ptrs mp' j"
    proof (cases "j = i \<or> k = i")
      case True
      then show ?thesis
        using new other[OF jk(1) _ refl] other[OF jk(2) _ refl] W(7) le jk(3)
        by (metis le_add_diff_inverse2)
    next
      case False
      define j' k' where "j' = (if j < i then j else j - 1)" and "k' = (if k < i then k else k - 1)"
      have "j' \<noteq> k'" using False jk(3) by (auto simp: j'_def k'_def split: if_splits)
      then show ?thesis
        using other[OF jk(1) _ j'_def] other[OF jk(2) _ k'_def] W(9)[of j' k'] False by auto
    qed
  qed
  with insert_slot_result[OF wf i room] n p show thesis
    by (intro that[of mp']) (simp_all add: mp'_def)
qed

section \<open>The nodes of a page\<close>

lemma node_size_ge: "8 \<le> node_size mp node"
  using EVEN_ge[of "NODESIZE + _"] unfolding node_size_def NODESIZE_def Let_def
  by (smt (verit) EVEN_ge le_add1 order_trans)

lemma get16_cong:
  "mem_read m a 8 = mem_read m' b 8 \<Longrightarrow> k \<le> 6 \<Longrightarrow> get16 m (a + k) = get16 m' (b + k)"
proof -
  assume r: "mem_read m a 8 = mem_read m' b 8" and k: "k \<le> 6"
  have t: "mem_read x (c + k) 2 = take 2 (drop k (mem_read x c 8))" for x c
    using k by (intro nth_equalityI) (auto simp: algebra_simps)
  show ?thesis unfolding get16_def t r ..
qed

lemma node_size_cong:
  assumes "mem_read (mp_mem mp) a 8 = mem_read (mp_mem mp') b 8" "mp_flags mp = mp_flags mp'"
  shows "node_size mp a = node_size mp' b"
proof -
  have "get16 (mp_mem mp) a = get16 (mp_mem mp') b" using get16_cong[OF assms(1), of 0] by simp
  then show ?thesis
    using get16_cong[OF assms(1), of 2] get16_cong[OF assms(1), of 4] get16_cong[OF assms(1), of 6] assms(2)
    unfolding node_size_def NODEDSZ_def mn_lo_def mn_hi_def mn_flags_def mn_ksize_def
      IS_LEAF_def IS_BRANCH_def IS_COUNTED_def by (simp only:)
qed

definition page_wf :: "nat \<Rightarrow> MDB_page \<Rightarrow> bool" where
  "page_wf psize mp \<longleftrightarrow> slots_wf psize (\<lambda>i. node_size mp (mp_ptrs mp i)) mp"

text \<open>The abstraction: the bytes of the nodes, in slot order.\<close>

definition page_nodes :: "MDB_page \<Rightarrow> bytes list" where
  "page_nodes mp = cells (\<lambda>i. mem_read (mp_mem mp) (mp_ptrs mp i) (node_size mp (mp_ptrs mp i))) (NUMKEYS mp)"

lemma length_page_nodes [simp]: "length (page_nodes mp) = NUMKEYS mp"
  by (simp add: page_nodes_def)

lemma nth_page_nodes:
  "i < NUMKEYS mp \<Longrightarrow> page_nodes mp ! i = mem_read (mp_mem mp) (mp_ptrs mp i) (node_size mp (mp_ptrs mp i))"
  by (simp add: page_nodes_def)

lemma remove_slot_nodes:
  assumes wf: "page_wf psize mp" and i: "i < NUMKEYS mp"
  obtains mp' where "mdb_page_remove_slot mp i (node_size mp (NODEPTR mp i)) = Ok mp'"
    "page_wf psize mp'" "page_nodes mp' = remove_at i (page_nodes mp)" "NUMKEYS mp' = NUMKEYS mp - 1"
    "mp_flags mp' = mp_flags mp" "mp_pgno mp' = mp_pgno mp" "mp_pad mp' = mp_pad mp"
    "mp_lower mp' = mp_lower mp - 2" "mp_upper mp' = mp_upper mp + node_size mp (NODEPTR mp i)"
proof -
  let ?len = "\<lambda>i. node_size mp (mp_ptrs mp i)"
  obtain mp' where mp': "mdb_page_remove_slot mp i (?len i) = Ok mp'"
    "mp_flags mp' = mp_flags mp" "mp_pgno mp' = mp_pgno mp" "mp_pad mp' = mp_pad mp"
    "mp_lower mp' = mp_lower mp - 2" "mp_upper mp' = mp_upper mp + ?len i" "NUMKEYS mp' = NUMKEYS mp - 1"
    and rd: "\<And>j a n. j < NUMKEYS mp - 1 \<Longrightarrow> a + n \<le> ?len (skip_slot i j) \<Longrightarrow>
       mem_read (mp_mem mp') (mp_ptrs mp' j + a) n = mem_read (mp_mem mp) (mp_ptrs mp (skip_slot i j) + a) n"
    and wf': "slots_wf psize (\<lambda>j. ?len (skip_slot i j)) mp'"
    by (rule remove_slot_spec[OF wf[unfolded page_wf_def] i]) blast
  have sz: "node_size mp' (mp_ptrs mp' j) = ?len (skip_slot i j)" if "j < NUMKEYS mp'" for j
  proof (rule node_size_cong)
    show "mem_read (mp_mem mp') (mp_ptrs mp' j) 8 = mem_read (mp_mem mp) (mp_ptrs mp (skip_slot i j)) 8"
      using rd[of j 0 8] that node_size_ge[of mp "mp_ptrs mp (skip_slot i j)"] mp'(7) by simp
  qed (simp add: mp')
  have "page_wf psize mp'"
    using wf' unfolding page_wf_def slots_wf_def by (simp add: sz)
  moreover have "page_nodes mp' = remove_at i (page_nodes mp)"
  proof (rule nth_equalityI)
    show "length (page_nodes mp') = length (remove_at i (page_nodes mp))" using i mp'(7) by simp
    fix j assume "j < length (page_nodes mp')"
    then have j: "j < NUMKEYS mp'" "j < NUMKEYS mp - 1" "skip_slot i j < NUMKEYS mp"
      using mp'(7) i by (auto simp: skip_slot_def)
    have "page_nodes mp' ! j = mem_read (mp_mem mp) (mp_ptrs mp (skip_slot i j)) (?len (skip_slot i j))"
      using rd[of j 0 "?len (skip_slot i j)"] j sz by (simp add: nth_page_nodes)
    also have "\<dots> = page_nodes mp ! skip_slot i j" using j by (simp add: nth_page_nodes)
    also have "\<dots> = remove_at i (page_nodes mp) ! j"
      using i j by (simp add: nth_remove_at skip_slot_def)
    finally show "page_nodes mp' ! j = remove_at i (page_nodes mp) ! j" .
  qed
  ultimately show thesis using mp' by (intro that) (simp_all add: NODEPTR_def)
qed

section \<open>A sample page\<close>

text \<open>A leaf page of 128 bytes with two nodes, both with the key bytes 02 09 07, and the data 41 and 42.\<close>

definition sample_page :: MDB_page where
  "sample_page = \<lparr>mp_pgno = 3, mp_pad = 4, mp_flags = P_LEAF, mp_lower = 20, mp_upper = 100,
     mp_ptrs = (\<lambda>i. if i = 0 then 114 else 100),
     mp_mem = mem_write (mem_write (\<lambda>_. 0) 114 [1, 0, 0, 0, 0, 0, 3, 0, 2, 9, 7, 0, 65, 0])
                100 [1, 0, 0, 0, 0, 0, 3, 0, 2, 9, 7, 0, 66, 0]\<rparr>"

lemma sample_nodes: "NUMKEYS sample_page = 2" "node_size sample_page 114 = 14" "node_size sample_page 100 = 14"
  "mp_lower sample_page = 20" "mp_upper sample_page = 100" "mp_ptrs sample_page 0 = 114" "mp_ptrs sample_page (Suc 0) = 100"
  by code_simp+

lemma sample_page_wf: "page_wf 128 sample_page"
  unfolding page_wf_def slots_wf_def sample_nodes(1)
  by (auto simp: PAGEHDRSZ_def less_2_cases_iff sample_nodes)

section \<open>Properties\<close>

text \<open>Removing a slot with the size of its node, on a well-formed page, never aborts, leaves a
  well-formed page, and the nodes the page then holds are the others, byte for byte and in their
  order, although the code has moved them inside the page and patched their offsets.\<close>

theorem remove_slot_refines:
  assumes "page_wf psize mp" "i < NUMKEYS mp"
  shows "\<exists>mp'. mdb_page_remove_slot mp i (node_size mp (NODEPTR mp i)) = Ok mp' \<and> page_wf psize mp' \<and>
    page_nodes mp' = remove_at i (page_nodes mp) \<and> SIZELEFT mp' = SIZELEFT mp + node_size mp (NODEPTR mp i) + 2"
proof -
  obtain mp' where mp': "mdb_page_remove_slot mp i (node_size mp (NODEPTR mp i)) = Ok mp'" "page_wf psize mp'"
    "page_nodes mp' = remove_at i (page_nodes mp)"
    "mp_lower mp' = mp_lower mp - 2" "mp_upper mp' = mp_upper mp + node_size mp (NODEPTR mp i)"
    by (rule remove_slot_nodes[OF assms]) blast
  have "SIZELEFT mp' = SIZELEFT mp + node_size mp (NODEPTR mp i) + 2"
    using slots_wfD(1-5)[OF assms(1)[unfolded page_wf_def]] slots_wfD(1-5)[OF mp'(2)[unfolded page_wf_def]]
      slots_wf_lower[OF assms(1)[unfolded page_wf_def]] assms(2)
    by (simp add: SIZELEFT_def u16_sub_le mp'(4,5))
  with mp' show ?thesis by blast
qed

theorem remove_slot_refines_witness:
  "\<exists>mp'. mdb_page_remove_slot sample_page 0 (node_size sample_page (NODEPTR sample_page 0)) = Ok mp' \<and> page_wf 128 mp' \<and>
    page_nodes mp' = remove_at 0 (page_nodes sample_page) \<and>
    SIZELEFT mp' = SIZELEFT sample_page + node_size sample_page (NODEPTR sample_page 0) + 2"
  by (rule remove_slot_refines[OF sample_page_wf]) (simp add: sample_nodes)

text \<open>The page number and the data size written into a node are read back, also beyond 16 bits, and
  so is the entry count of a counted branch node.\<close>

theorem node_fields_roundtrip:
  assumes "pgno < 2 ^ 48" "sz < 2 ^ 32" "counted_branch bp"
  shows "NODEPGNO (mp\<lparr>mp_mem := SETPGNO m node pgno\<rparr>) node = pgno \<and>
    NODEDSZ (mp\<lparr>mp_mem := SETDSZ m node sz\<rparr>) node = sz \<and>
    mdb_node_get_count (mdb_node_set_count bp node v) node = v"
  using NODEPGNO_SETPGNO[OF assms(1)] NODEDSZ_SETDSZ[OF assms(2)] get_set_count[OF assms(3)] by simp

theorem node_fields_roundtrip_witness:
  "NODEPGNO (sample_page\<lparr>mp_mem := SETPGNO (\<lambda>_. 0) 40 0x123456789ABC\<rparr>) 40 = 0x123456789ABC \<and>
    NODEDSZ (sample_page\<lparr>mp_mem := SETDSZ (\<lambda>_. 0) 40 70000\<rparr>) 40 = 70000 \<and>
    mdb_node_get_count (mdb_node_set_count (sample_page\<lparr>mp_flags := 0x81\<rparr>) 40 77) 40 = 77"
  by (rule node_fields_roundtrip) (simp_all add: counted_branch_def IS_BRANCH_def IS_COUNTED_def F_ISSET_def P_BRANCH_def P_COUNTED_def)

end
