(* ===== verification/Stride_Table.thy ===== *)
theory Stride_Table
  imports DLMDB_Prelude
begin

text \<open>
  The table of the stride cache (\<open>mdb_prefix_stride_*\<close> in \<open>mdb.c\<close>): one entry per leaf page in an
  open-addressing hash table with linear probing, and the generation that makes every entry stale
  at once. The probing loops that end only because a slot is free are partial functions, so that a
  full table would be \<open>None\<close>.
\<close>

section \<open>Entries and the table\<close>

definition P_INVALID :: u64 where "P_INVALID = - 1"

text \<open>\<open>lengths\<close> is NULL exactly when \<open>length_cap\<close> is 0; the array's cells are a function.\<close>

record MDB_prefix_stride_entry =
  se_pgno :: u64
  se_lengths :: "nat \<Rightarrow> u32"
  se_length_cap :: nat
  se_count :: nat
  se_max_len :: nat
  se_max_valid :: bool
  se_valid :: nat

text \<open>\<open>entries\<close> is the empty list for NULL.\<close>

record MDB_prefix_stride_cache =
  sc_entries :: "MDB_prefix_stride_entry list"
  sc_count :: nat
  sc_capacity :: nat
  sc_generation :: nat

definition zero_entry :: "u64 \<Rightarrow> MDB_prefix_stride_entry" where
  "zero_entry pgno = \<lparr>se_pgno = pgno, se_lengths = (\<lambda>_. 0), se_length_cap = 0, se_count = 0,
     se_max_len = 0, se_max_valid = False, se_valid = 0\<rparr>"

definition mdb_prefix_stride_cache_clear :: "MDB_prefix_stride_cache \<Rightarrow> MDB_prefix_stride_cache" where
  "mdb_prefix_stride_cache_clear cache =
     (if sc_entries cache = [] then cache
      else \<lparr>sc_entries = [], sc_count = 0, sc_capacity = 0, sc_generation = 0\<rparr>)"

definition mdb_prefix_stride_hash :: "u64 \<Rightarrow> nat" where
  "mdb_prefix_stride_hash pgno = unat (pgno XOR drop_bit 32 pgno) mod 2 ^ 32"

text \<open>\<open>for (probe = 0; probe < capacity; ++probe)\<close>, with the number of probes left.\<close>

fun find_probe :: "MDB_prefix_stride_entry list \<Rightarrow> nat \<Rightarrow> u64 \<Rightarrow> nat \<Rightarrow> nat \<Rightarrow> nat option" where
  "find_probe es msk pgno idx 0 = None"
| "find_probe es msk pgno idx (Suc n) =
     (if se_pgno (es ! idx) = pgno then Some idx
      else if se_pgno (es ! idx) = P_INVALID then None
      else find_probe es msk pgno ((idx + 1) AND msk) n)"

definition mdb_prefix_stride_entry_find_slot ::
    "MDB_prefix_stride_entry list \<Rightarrow> nat \<Rightarrow> u64 \<Rightarrow> nat option" where
  "mdb_prefix_stride_entry_find_slot entries capacity pgno =
     (if entries = [] \<or> capacity = 0 then None
      else let msk = capacity - 1; idx = mdb_prefix_stride_hash pgno AND msk
           in find_probe entries msk pgno idx capacity)"

text \<open>\<open>while (entries[idx].pgno != P_INVALID) idx = (idx + 1) & msk;\<close>\<close>

partial_function (option) empty_probe :: "MDB_prefix_stride_entry list \<Rightarrow> nat \<Rightarrow> nat \<Rightarrow> nat option" where
  "empty_probe es msk idx =
     (if se_pgno (es ! idx) = P_INVALID then Some idx else empty_probe es msk ((idx + 1) AND msk))"

fun rehash :: "MDB_prefix_stride_entry list \<Rightarrow> MDB_prefix_stride_entry list \<Rightarrow> nat \<Rightarrow> MDB_prefix_stride_entry list option" where
  "rehash [] fresh newcap = Some fresh"
| "rehash (old # olds) fresh newcap =
     (if se_pgno old = P_INVALID then rehash olds fresh newcap
      else let msk = newcap - 1; idx = mdb_prefix_stride_hash (se_pgno old) AND msk
           in case empty_probe fresh msk idx of
                None \<Rightarrow> None
              | Some idx \<Rightarrow> rehash olds (fresh[idx := old]) newcap)"

text \<open>\<open>alloc\<close> says whether \<open>calloc\<close> succeeds.\<close>

definition mdb_prefix_stride_cache_grow ::
    "bool \<Rightarrow> MDB_prefix_stride_cache \<Rightarrow> MDB_prefix_stride_cache res option" where
  "mdb_prefix_stride_cache_grow alloc cache =
     (let newcap = (if sc_capacity cache > 0 then (sc_capacity cache * 2) mod 2 ^ 32 else 8) in
      if \<not> alloc then Some (Err ENOMEM)
      else map_option (\<lambda>fresh. Ok (cache\<lparr>sc_entries := fresh, sc_capacity := newcap\<rparr>))
             (rehash (sc_entries cache) (replicate newcap (zero_entry P_INVALID)) newcap))"

text \<open>\<open>acquire\<close> returns the index of the entry in the table it leaves.\<close>

definition mdb_prefix_stride_entry_acquire ::
    "bool \<Rightarrow> MDB_prefix_stride_cache \<Rightarrow> u64 \<Rightarrow> (MDB_prefix_stride_cache \<times> nat res) option" where
  "mdb_prefix_stride_entry_acquire alloc cache pgno =
     (let cache = (if sc_generation cache = 0 then cache\<lparr>sc_generation := 1\<rparr> else cache) in
      case mdb_prefix_stride_entry_find_slot (sc_entries cache) (sc_capacity cache) pgno of
        Some i \<Rightarrow> Some (cache, Ok i)
      | None \<Rightarrow>
          let add = (\<lambda>cache.
                let msk = sc_capacity cache - 1; idx = mdb_prefix_stride_hash pgno AND msk
                in map_option (\<lambda>idx. (cache\<lparr>sc_entries := (sc_entries cache)[idx := zero_entry pgno],
                                            sc_count := sc_count cache + 1\<rparr>, Ok idx))
                     (empty_probe (sc_entries cache) msk idx))
          in if sc_capacity cache = 0 \<or> sc_count cache + 1 > (sc_capacity cache * 3) mod 2 ^ 32 div 4
             then case mdb_prefix_stride_cache_grow alloc cache of
                    None \<Rightarrow> None
                  | Some (Ok cache) \<Rightarrow> add cache
                  | Some (Err e) \<Rightarrow> Some (cache, Err e)
                  | Some Abort \<Rightarrow> Some (cache, Abort)
             else add cache)"

definition mdb_prefix_stride_entry_invalidate :: "MDB_prefix_stride_cache \<Rightarrow> u64 \<Rightarrow> MDB_prefix_stride_cache" where
  "mdb_prefix_stride_entry_invalidate cache pgno =
     (case mdb_prefix_stride_entry_find_slot (sc_entries cache) (sc_capacity cache) pgno of
        None \<Rightarrow> cache
      | Some i \<Rightarrow> cache\<lparr>sc_entries := (sc_entries cache)[i := (sc_entries cache ! i)\<lparr>se_valid := 0\<rparr>]\<rparr>)"

text \<open>The generation step of \<open>mdb_prefix_scratch_reset\<close>; \<open>generation\<close> is a 32-bit counter.\<close>

definition stride_generation_reset :: "MDB_prefix_stride_cache \<Rightarrow> MDB_prefix_stride_cache" where
  "stride_generation_reset cache =
     (let g = (sc_generation cache + 1) mod 2 ^ 32 in
      if g = 0
      then cache\<lparr>sc_generation := 1, sc_entries := map (\<lambda>e. e\<lparr>se_valid := 0\<rparr>) (sc_entries cache)\<rparr>
      else cache\<lparr>sc_generation := g\<rparr>)"

section \<open>Tables as sets of entries\<close>

text \<open>
  The contract of a table of keyed entries, and what its clients use: an entry that is added is
  found, the others are found as before, and an entry that is changed in place is found changed.
\<close>

locale entry_table =
  fixes inv :: "'t \<Rightarrow> bool"
    and contents :: "'t \<Rightarrow> 'e set"
    and key :: "'e \<Rightarrow> 'k"
    and valid_key :: "'k \<Rightarrow> bool"
    and lookup :: "'t \<Rightarrow> 'k \<Rightarrow> 'e option"
  assumes lookup_iff: "inv t \<Longrightarrow> valid_key k \<Longrightarrow> lookup t k = Some e \<longleftrightarrow> e \<in> contents t \<and> key e = k"
begin

lemma lookup_None: "inv t \<Longrightarrow> valid_key k \<Longrightarrow> lookup t k = None \<longleftrightarrow> k \<notin> key ` contents t"
  using lookup_iff[of t k "the (lookup t k)"] lookup_iff[of t k] by (cases "lookup t k") (simp_all add: image_iff, blast+)

lemma lookup_cong:
  "inv t \<Longrightarrow> inv t' \<Longrightarrow> contents t' = contents t \<Longrightarrow> valid_key k \<Longrightarrow> lookup t' k = lookup t k"
  by (rule option_eqI) (simp add: lookup_iff)

lemma lookup_added:
  assumes "inv t" "inv t'" "contents t' = insert e (contents t)" "lookup t (key e) = None" "valid_key (key e)" "valid_key k"
  shows "lookup t' k = (if k = key e then Some e else lookup t k)"
proof (cases "k = key e")
  case True
  then show ?thesis using assms lookup_iff[of t' k e] by simp
next
  case False
  then have "lookup t' k = Some x \<longleftrightarrow> lookup t k = Some x" for x
    using assms by (auto simp: lookup_iff)
  then have "lookup t' k = lookup t k" by (rule option_eqI)
  with False show ?thesis by simp
qed

lemma lookup_changed:
  assumes "inv t" "inv t'" "contents t' = insert e' (contents t - {e})" "lookup t (key e) = Some e" "key e' = key e"
    "valid_key (key e)" "valid_key k"
  shows "lookup t' k = (if k = key e then Some e' else lookup t k)"
proof (cases "k = key e")
  case True
  then show ?thesis using assms lookup_iff[of t' k e'] by simp
next
  case False
  then have "lookup t' k = Some x \<longleftrightarrow> lookup t k = Some x" for x
    using assms by (auto simp: lookup_iff)
  then have "lookup t' k = lookup t k" by (rule option_eqI)
  with False show ?thesis by simp
qed

end

section \<open>The probing invariant\<close>

abbreviation occ :: "MDB_prefix_stride_entry \<Rightarrow> bool" where
  "occ e \<equiv> se_pgno e \<noteq> P_INVALID"

text \<open>The slot that \<open>j\<close> probes from the home of \<open>k\<close> reach, and the invariant of the table.\<close>

definition probe :: "nat \<Rightarrow> u64 \<Rightarrow> nat \<Rightarrow> nat" where
  "probe cap k j = (mdb_prefix_stride_hash k + j) mod cap"

definition chained :: "MDB_prefix_stride_entry list \<Rightarrow> bool" where
  "chained es \<longleftrightarrow> (\<forall>i<length es. occ (es ! i) \<longrightarrow>
     (\<exists>d<length es. i = probe (length es) (se_pgno (es ! i)) d \<and>
        (\<forall>j<d. occ (es ! probe (length es) (se_pgno (es ! i)) j))))"

definition keys_distinct :: "MDB_prefix_stride_entry list \<Rightarrow> bool" where
  "keys_distinct es \<longleftrightarrow> (\<forall>i<length es. \<forall>j<length es. occ (es ! i) \<longrightarrow> se_pgno (es ! i) = se_pgno (es ! j) \<longrightarrow> i = j)"

definition table_ok :: "MDB_prefix_stride_entry list \<Rightarrow> bool" where
  "table_ok es \<longleftrightarrow> (\<exists>n. length es = 2 ^ n) \<and> chained es \<and> keys_distinct es"

definition occupied :: "MDB_prefix_stride_entry list \<Rightarrow> MDB_prefix_stride_entry set" where
  "occupied es = {e \<in> set es. occ e}"

definition load :: "MDB_prefix_stride_entry list \<Rightarrow> nat" where
  "load es = length (filter occ es)"

lemma mask_mod: "cap = 2 ^ n \<Longrightarrow> (x::nat) AND (cap - 1) = x mod cap"
proof -
  have "x AND (2 ^ n - 1) = take_bit n x" by (simp only: take_bit_eq_mask mask_eq_exp_minus_1)
  then show "cap = 2 ^ n \<Longrightarrow> x AND (cap - 1) = x mod cap" by (simp add: take_bit_eq_mod)
qed

lemma probe_less: "0 < cap \<Longrightarrow> probe cap k j < cap"
  by (simp add: probe_def)

lemma probe_Suc: "cap = 2 ^ n \<Longrightarrow> (probe cap k j + 1) AND (cap - 1) = probe cap k (Suc j)"
  by (simp only: mask_mod probe_def) (simp add: mod_simps)

lemma probe_0: "cap = 2 ^ n \<Longrightarrow> mdb_prefix_stride_hash k AND (cap - 1) = probe cap k 0"
  by (simp only: mask_mod probe_def) simp

lemma probe_inj_le: "i \<le> j \<Longrightarrow> j < cap \<Longrightarrow> probe cap k i = probe cap k j \<Longrightarrow> i = j"
proof -
  assume ij: "i \<le> j" "j < cap" and e: "probe cap k i = probe cap k j"
  have "cap dvd (mdb_prefix_stride_hash k + j) - (mdb_prefix_stride_hash k + i)"
    using e ij by (intro mod_eq_dvd_iff_nat[THEN iffD1]) (simp_all add: probe_def)
  then have "cap dvd j - i" by simp
  then show "i = j" using ij by (metis diff_is_0_eq diff_le_self dvd_imp_le leD le_antisym le_less_trans not_gr_zero)
qed

lemma probe_inj: "i < cap \<Longrightarrow> j < cap \<Longrightarrow> probe cap k i = probe cap k j \<Longrightarrow> i = j"
  using probe_inj_le[of i j cap k] probe_inj_le[of j i cap k] by (cases "i \<le> j") auto

lemma probe_surj: "i < cap \<Longrightarrow> \<exists>j<cap. probe cap k j = i"
proof -
  assume i: "i < cap"
  have "probe cap k ` {..<cap} \<subseteq> {..<cap}" using i by (auto simp: probe_def)
  moreover have "inj_on (probe cap k) {..<cap}" by (rule inj_onI) (auto intro: probe_inj)
  ultimately have "probe cap k ` {..<cap} = {..<cap}" by (simp add: endo_inj_surj)
  with i show ?thesis by (metis imageE lessThan_iff)
qed

lemma find_probe_hit:
  assumes "length es = 2 ^ n" "m \<le> d" "d < length es"
    and "se_pgno (es ! probe (length es) k d) = k"
    and "\<And>j. j < d \<Longrightarrow> occ (es ! probe (length es) k j) \<and> se_pgno (es ! probe (length es) k j) \<noteq> k"
  shows "find_probe es (length es - 1) k (probe (length es) k m) (length es - m) = Some (probe (length es) k d)"
  using assms(2)
proof (induction "d - m" arbitrary: m)
  case 0
  then have m: "m = d" by simp
  have l: "length es - d = Suc (length es - d - 1)" using assms(3) by simp
  show ?case unfolding m by (subst l) (simp only: find_probe.simps assms(4) if_True simp_thms)
next
  case (Suc x)
  then have md: "m < d" by simp
  then have l: "length es - m = Suc (length es - Suc m)" using assms(3) by simp
  have ih: "find_probe es (length es - 1) k (probe (length es) k (Suc m)) (length es - Suc m) = Some (probe (length es) k d)"
    using Suc.hyps(1)[of "Suc m"] Suc.hyps(2) md by simp
  show ?case
    unfolding l find_probe.simps probe_Suc[OF assms(1)] using assms(5)[OF md] ih by simp
qed

lemma find_probe_sound:
  "find_probe es msk k i n = Some j \<Longrightarrow> se_pgno (es ! j) = k"
  by (induction es msk k i n rule: find_probe.induct) (auto split: if_splits)

lemma find_probe_less:
  assumes cap: "cap = 2 ^ n"
  shows "find_probe es (cap - 1) k i m = Some j \<Longrightarrow> i < cap \<Longrightarrow> j < cap"
proof (induction m arbitrary: i)
  case (Suc m)
  have "0 < cap" using cap by simp
  then have "(i + 1) AND (cap - 1) < cap" by (simp only: mask_mod[OF cap] mod_less_divisor)
  with Suc show ?case unfolding find_probe.simps by (metis option.inject option.distinct(1))
qed simp

text \<open>Looking up a key: exactly the occupied entries are found.\<close>

lemma find_slot_iff:
  assumes ok: "table_ok es" and k: "k \<noteq> P_INVALID"
  shows "mdb_prefix_stride_entry_find_slot es (length es) k = Some i \<longleftrightarrow> i < length es \<and> se_pgno (es ! i) = k"
proof -
  obtain n where cap: "length es = 2 ^ n" using ok by (auto simp: table_ok_def)
  then have pos: "0 < length es" "es \<noteq> []" by (simp, metis length_0_conv power_not_zero zero_neq_numeral)
  have find: "mdb_prefix_stride_entry_find_slot es (length es) k = find_probe es (length es - 1) k (probe (length es) k 0) (length es)"
    using pos by (simp add: mdb_prefix_stride_entry_find_slot_def Let_def probe_0[OF cap] del: One_nat_def)
  have hit: "find_probe es (length es - 1) k (probe (length es) k 0) (length es) = Some i"
    if i: "i < length es" "se_pgno (es ! i) = k" for i
  proof -
    have "occ (es ! i)" using i k by simp
    with ok i(1) obtain d where d: "d < length es" "i = probe (length es) (se_pgno (es ! i)) d"
        and before: "\<forall>j<d. occ (es ! probe (length es) (se_pgno (es ! i)) j)"
      unfolding table_ok_def chained_def by blast
    have "occ (es ! probe (length es) k j) \<and> se_pgno (es ! probe (length es) k j) \<noteq> k" if "j < d" for j
    proof
      show "occ (es ! probe (length es) k j)" using before that i(2) by simp
      have "probe (length es) k j \<noteq> i" using probe_inj[of j "length es" d k] that d i(2) by auto
      then show "se_pgno (es ! probe (length es) k j) \<noteq> k"
        using ok i probe_less[OF pos(1)] \<open>occ (es ! i)\<close> unfolding table_ok_def keys_distinct_def by metis
    qed
    then show ?thesis
      using find_probe_hit[OF cap, of 0 d k] d i(2) by simp
  qed
  have "i < length es \<and> se_pgno (es ! i) = k"
    if "find_probe es (length es - 1) k (probe (length es) k 0) (length es) = Some i"
    using find_probe_less[OF cap that probe_less[OF pos(1)]] find_probe_sound[OF that] by simp
  with hit find show ?thesis by auto
qed

definition stride_get :: "MDB_prefix_stride_entry list \<Rightarrow> u64 \<Rightarrow> MDB_prefix_stride_entry option" where
  "stride_get es k = map_option (\<lambda>i. es ! i) (mdb_prefix_stride_entry_find_slot es (length es) k)"

interpretation stride: entry_table "\<lambda>es. es = [] \<or> table_ok es" occupied se_pgno "\<lambda>k. k \<noteq> P_INVALID" stride_get
proof
  fix es :: "MDB_prefix_stride_entry list" and k e
  assume inv: "es = [] \<or> table_ok es" and k: "k \<noteq> P_INVALID"
  show "stride_get es k = Some e \<longleftrightarrow> e \<in> occupied es \<and> se_pgno e = k"
  proof (cases "es = []")
    case True
    then show ?thesis by (simp add: stride_get_def mdb_prefix_stride_entry_find_slot_def occupied_def)
  next
    case False
    with inv have "table_ok es" by simp
    then show ?thesis
      using k by (auto simp: stride_get_def find_slot_iff occupied_def in_set_conv_nth)
  qed
qed

section \<open>Adding an entry\<close>

lemma empty_probe_hit:
  assumes cap: "length es = 2 ^ n" and "m \<le> d" "se_pgno (es ! probe (length es) k d) = P_INVALID"
    and "\<And>j. j < d \<Longrightarrow> occ (es ! probe (length es) k j)"
  shows "empty_probe es (length es - 1) (probe (length es) k m) = Some (probe (length es) k d)"
  using assms(2)
proof (induction "d - m" arbitrary: m)
  case 0
  then have "m = d" by simp
  then show ?case using assms(3) by (simp add: empty_probe.simps)
next
  case (Suc x)
  then have md: "m < d" by simp
  then have "empty_probe es (length es - 1) (probe (length es) k (Suc m)) = Some (probe (length es) k d)"
    using Suc by simp
  then show ?case
    using assms(4)[OF md] by (subst empty_probe.simps) (simp only: probe_Suc[OF cap] if_False simp_thms)
qed

lemma empty_probe_Some:
  assumes cap: "length es = 2 ^ n" and free: "e < length es" "se_pgno (es ! e) = P_INVALID"
  obtains d where "d < length es" "empty_probe es (length es - 1) (probe (length es) k 0) = Some (probe (length es) k d)"
    "se_pgno (es ! probe (length es) k d) = P_INVALID" "\<And>j. j < d \<Longrightarrow> occ (es ! probe (length es) k j)"
proof -
  let ?P = "\<lambda>d. se_pgno (es ! probe (length es) k d) = P_INVALID"
  obtain d0 where d0: "d0 < length es" "probe (length es) k d0 = e" using probe_surj[OF free(1)] by blast
  define d where "d = (LEAST d. ?P d)"
  have "?P d0" using d0(2) free(2) by simp
  then have d: "?P d" "d \<le> d0" unfolding d_def by (rule LeastI, rule Least_le)
  have before: "occ (es ! probe (length es) k j)" if "j < d" for j
    using not_less_Least[of j ?P] that unfolding d_def by blast
  show thesis
    using that[of d] empty_probe_hit[OF cap, of 0 d k] d d0(1) before by simp
qed

lemma load_update:
  "i < length es \<Longrightarrow> \<not> occ (es ! i) \<Longrightarrow> occ e \<Longrightarrow> load (es[i := e]) = Suc (load es)"
proof -
  assume *: "i < length es" "\<not> occ (es ! i)" "occ e"
  have "load es = load (take i es @ es ! i # drop (Suc i) es)"
    by (rule arg_cong[OF id_take_nth_drop[OF *(1)]])
  also have "\<dots> = load (take i es) + load (drop (Suc i) es)" using *(2) by (simp add: load_def)
  finally have "load es = load (take i es) + load (drop (Suc i) es)" .
  moreover have "load (es[i := e]) = load (take i es) + Suc (load (drop (Suc i) es))"
    unfolding upd_conv_take_nth_drop[OF *(1)] using *(3) by (simp add: load_def)
  ultimately show ?thesis by linarith
qed

lemma load_full: "load es < length es \<Longrightarrow> \<exists>i<length es. se_pgno (es ! i) = P_INVALID"
proof (rule ccontr)
  assume l: "load es < length es" and "\<not> (\<exists>i<length es. se_pgno (es ! i) = P_INVALID)"
  then have "\<forall>e\<in>set es. occ e" by (auto simp: in_set_conv_nth)
  then have "filter occ es = es" by simp
  with l show False by (simp add: load_def)
qed

lemma occupied_update:
  "i < length es \<Longrightarrow> \<not> occ (es ! i) \<Longrightarrow> occ e \<Longrightarrow> occupied (es[i := e]) = insert e (occupied es)"
proof -
  assume *: "i < length es" "\<not> occ (es ! i)" "occ e"
  have "set es = set (take i es @ es ! i # drop (Suc i) es)"
    by (rule arg_cong[OF id_take_nth_drop[OF *(1)]])
  also have "\<dots> = set (take i es) \<union> {es ! i} \<union> set (drop (Suc i) es)" by simp
  finally have "set es = set (take i es) \<union> {es ! i} \<union> set (drop (Suc i) es)" .
  then show ?thesis unfolding occupied_def upd_conv_take_nth_drop[OF *(1)] using *(2,3) by auto
qed

lemma table_ok_add:
  assumes ok: "table_ok es" and free: "load es < length es" and k: "se_pgno e \<noteq> P_INVALID"
    and new: "stride_get es (se_pgno e) = None"
  obtains i where "empty_probe es (length es - 1) (mdb_prefix_stride_hash (se_pgno e) AND (length es - 1)) = Some i"
    "i < length es" "table_ok (es[i := e])" "occupied (es[i := e]) = insert e (occupied es)"
    "load (es[i := e]) = Suc (load es)"
proof -
  let ?k = "se_pgno e" and ?c = "length es"
  obtain n where cap: "?c = 2 ^ n" using ok by (auto simp: table_ok_def)
  obtain i0 where "i0 < ?c" "se_pgno (es ! i0) = P_INVALID" using load_full[OF free] by blast
  then obtain d where d: "d < ?c" and hit: "empty_probe es (?c - 1) (probe ?c ?k 0) = Some (probe ?c ?k d)"
    and em: "se_pgno (es ! probe ?c ?k d) = P_INVALID" and before: "\<And>j. j < d \<Longrightarrow> occ (es ! probe ?c ?k j)"
    by (rule empty_probe_Some[OF cap, of _ ?k]) blast
  define i where "i = probe ?c ?k d"
  have pos: "0 < ?c" using d by linarith
  have i: "i < ?c" using probe_less[OF pos] by (simp add: i_def)
  have emp: "se_pgno (es ! i) = P_INVALID" using em by (simp add: i_def)
  have absent: "?k \<notin> se_pgno ` occupied es" using stride.lookup_None[of es ?k] ok k new by simp
  have "chained (es[i := e])"
    unfolding chained_def length_list_update
  proof (intro allI impI)
    fix i' assume i': "i' < ?c" "occ (es[i := e] ! i')"
    have keep: "occ (es[i := e] ! x)" if "occ (es ! x)" for x using that k i by (cases "x = i") auto
    show "\<exists>d<?c. i' = probe ?c (se_pgno (es[i := e] ! i')) d \<and> (\<forall>j<d. occ (es[i := e] ! probe ?c (se_pgno (es[i := e] ! i')) j))"
    proof (cases "i' = i")
      case True
      then show ?thesis using d before keep i by (auto simp: i_def)
    next
      case False
      then have "es[i := e] ! i' = es ! i'" "occ (es ! i')" using i' by simp_all
      then show ?thesis using ok i'(1) keep unfolding table_ok_def chained_def by metis
    qed
  qed
  moreover have "keys_distinct (es[i := e])"
    unfolding keys_distinct_def length_list_update
  proof (intro allI impI)
    fix x y assume xy: "x < ?c" "y < ?c" "occ (es[i := e] ! x)" "se_pgno (es[i := e] ! x) = se_pgno (es[i := e] ! y)"
    have ab: "se_pgno (es ! z) \<noteq> ?k" if "z < ?c" for z
    proof
      assume "se_pgno (es ! z) = ?k"
      then have "es ! z \<in> occupied es" using that k by (simp add: occupied_def)
      with absent \<open>se_pgno (es ! z) = ?k\<close> show False by (metis imageI)
    qed
    show "x = y"
    proof (cases "x = i \<or> y = i")
      case True
      then show ?thesis using xy ab[OF xy(1)] ab[OF xy(2)] i by (metis nth_list_update_eq nth_list_update_neq)
    next
      case False
      then show ?thesis using xy ok unfolding table_ok_def keys_distinct_def by (metis nth_list_update_neq)
    qed
  qed
  ultimately have "table_ok (es[i := e])" using cap by (auto simp: table_ok_def)
  moreover have "empty_probe es (?c - 1) (mdb_prefix_stride_hash ?k AND (?c - 1)) = Some i"
    using hit unfolding probe_0[OF cap] i_def .
  ultimately show thesis using that[of i] i emp k by (simp add: occupied_update load_update)
qed

lemma replicate_ok: "table_ok (replicate (2 ^ n) (zero_entry P_INVALID))"
  "occupied (replicate m (zero_entry P_INVALID)) = {}" "load (replicate m (zero_entry P_INVALID)) = 0"
  by (auto simp: table_ok_def chained_def keys_distinct_def zero_entry_def occupied_def load_def)

text \<open>Rehashing adds the occupied entries of the old table to the fresh one.\<close>

lemma rehash_Some:
  assumes "table_ok fresh" "load fresh + load olds < length fresh"
    and "se_pgno ` occupied olds \<inter> se_pgno ` occupied fresh = {}" "keys_distinct olds"
  shows "\<exists>es. rehash olds fresh (length fresh) = Some es \<and> table_ok es \<and> length es = length fresh \<and>
    occupied es = occupied olds \<union> occupied fresh \<and> load es = load olds + load fresh"
  using assms
proof (induction olds arbitrary: fresh)
  case Nil
  then show ?case by (simp add: occupied_def load_def)
next
  case (Cons old olds)
  have kd: "keys_distinct olds"
    unfolding keys_distinct_def
  proof (intro allI impI)
    fix i j assume "i < length olds" "j < length olds" "occ (olds ! i)" "se_pgno (olds ! i) = se_pgno (olds ! j)"
    then show "i = j"
      using Cons.prems(4)[unfolded keys_distinct_def, rule_format, of "Suc i" "Suc j"] by simp
  qed
  have later: "se_pgno x \<noteq> se_pgno old" if mem: "x \<in> set olds" and oo: "occ old" for x
  proof
    assume eq: "se_pgno x = se_pgno old"
    obtain j where "j < length olds" "x = olds ! j" using mem by (metis in_set_conv_nth)
    moreover have "occ (olds ! j)" "se_pgno (olds ! j) = se_pgno old" using calculation eq oo by simp_all
    ultimately have "Suc j = 0"
      by (intro Cons.prems(4)[unfolded keys_distinct_def, rule_format]) simp_all
    then show False by simp
  qed
  show ?case
  proof (cases "occ old")
    case False
    then have "occupied (old # olds) = occupied olds" "load (old # olds) = load olds"
      by (auto simp: occupied_def load_def)
    with Cons.IH[of fresh] Cons.prems kd False show ?thesis by simp
  next
    case True
    have oc: "occupied (old # olds) = insert old (occupied olds)" "load (old # olds) = Suc (load olds)"
      using True by (auto simp: occupied_def load_def)
    have "old \<in> occupied (old # olds)" using oc by simp
    then have "se_pgno old \<notin> se_pgno ` occupied fresh" using Cons.prems(3) by blast
    then have new: "stride_get fresh (se_pgno old) = None"
      using stride.lookup_None[of fresh "se_pgno old"] Cons.prems(1) True by simp
    have room: "load fresh < length fresh" using Cons.prems(2) by simp
    obtain i where i: "empty_probe fresh (length fresh - 1) (mdb_prefix_stride_hash (se_pgno old) AND (length fresh - 1)) = Some i"
      "i < length fresh" "table_ok (fresh[i := old])" "occupied (fresh[i := old]) = insert old (occupied fresh)"
      "load (fresh[i := old]) = Suc (load fresh)"
      by (rule table_ok_add[OF Cons.prems(1) room True new]) blast
    have disj: "se_pgno ` occupied olds \<inter> se_pgno ` occupied (fresh[i := old]) = {}"
    proof -
      have "\<forall>x\<in>set olds. occ x \<longrightarrow> se_pgno x \<noteq> se_pgno old" using later True by blast
      then show ?thesis using Cons.prems(3) unfolding i(4) oc by (auto simp: occupied_def)
    qed
    have "rehash (old # olds) fresh (length fresh) = rehash olds (fresh[i := old]) (length (fresh[i := old]))"
      using True i(1) by (simp add: Let_def)
    moreover have "load (fresh[i := old]) + load olds < length (fresh[i := old])"
      using Cons.prems(2) i(5) oc by simp
    ultimately show ?thesis
      using Cons.IH[OF i(3) _ disj kd] i(4,5) oc by auto
  qed
qed

section \<open>The cache invariant\<close>

definition cache_ok :: "MDB_prefix_stride_cache \<Rightarrow> bool" where
  "cache_ok c \<longleftrightarrow>
     length (sc_entries c) = sc_capacity c \<and> (sc_entries c = [] \<or> table_ok (sc_entries c) \<and> 8 \<le> sc_capacity c) \<and>
     sc_count c = load (sc_entries c) \<and> 4 * sc_count c \<le> 3 * sc_capacity c \<and>
     sc_generation c < 2 ^ 32 \<and> (sc_generation c = 0 \<longrightarrow> sc_capacity c = 0) \<and>
     (\<forall>e\<in>occupied (sc_entries c). se_valid e \<le> sc_generation c)"

lemma cache_ok_empty: "cache_ok \<lparr>sc_entries = [], sc_count = 0, sc_capacity = 0, sc_generation = 0\<rparr>"
  by (simp add: cache_ok_def load_def occupied_def)

lemma cache_clear_ok: "cache_ok c \<Longrightarrow> cache_ok (mdb_prefix_stride_cache_clear c)"
  by (simp add: mdb_prefix_stride_cache_clear_def cache_ok_empty)

lemma generation_reset_ok:
  assumes "cache_ok c"
  shows "cache_ok (stride_generation_reset c)"
    and "\<forall>e\<in>occupied (sc_entries (stride_generation_reset c)). se_valid e \<noteq> sc_generation (stride_generation_reset c)"
proof -
  let ?f = "\<lambda>e :: MDB_prefix_stride_entry. e\<lparr>se_valid := 0\<rparr>"
  have sp: "se_pgno (map ?f es ! i) = se_pgno (es ! i)" if "i < length es" for es i
    using that by simp
  have tab: "table_ok (map ?f es)" if ok: "table_ok es" for es
  proof -
    have pos: "0 < length es" using ok by (auto simp: table_ok_def)
    show ?thesis
      using ok pos unfolding table_ok_def chained_def keys_distinct_def length_map
      by (simp add: probe_less)
  qed
  have ld: "load (map ?f es) = load es" for es
    by (induction es) (auto simp: load_def)
  have lt: "sc_generation c < 2 ^ 32" and cap: "length (sc_entries c) = sc_capacity c" and
    le: "\<forall>e\<in>occupied (sc_entries c). se_valid e \<le> sc_generation c"
    using assms by (simp_all add: cache_ok_def)
  show "cache_ok (stride_generation_reset c)"
  proof (cases "(sc_generation c + 1) mod 2 ^ 32 = 0")
    case True
    then show ?thesis
      using assms tab ld by (auto simp: stride_generation_reset_def cache_ok_def Let_def occupied_def)
  next
    case False
    then have "(sc_generation c + 1) mod 2 ^ 32 = sc_generation c + 1" using lt by (cases "sc_generation c + 1 = 2 ^ 32") auto
    then show ?thesis
      using assms False by (auto simp: stride_generation_reset_def cache_ok_def Let_def)
  qed
  show "\<forall>e\<in>occupied (sc_entries (stride_generation_reset c)). se_valid e \<noteq> sc_generation (stride_generation_reset c)"
  proof (cases "(sc_generation c + 1) mod 2 ^ 32 = 0")
    case True
    then show ?thesis by (auto simp: stride_generation_reset_def Let_def occupied_def)
  next
    case False
    then have "(sc_generation c + 1) mod 2 ^ 32 = sc_generation c + 1" using lt by (cases "sc_generation c + 1 = 2 ^ 32") auto
    then show ?thesis using False le by (auto simp: stride_generation_reset_def Let_def)
  qed
qed

lemma grow_ok:
  assumes ok: "cache_ok c" and cap: "sc_capacity c \<le> 2 ^ 28" and gen: "sc_generation c \<noteq> 0"
  obtains c' where "mdb_prefix_stride_cache_grow True c = Some (Ok c')" "cache_ok c'"
    "table_ok (sc_entries c')" "occupied (sc_entries c') = occupied (sc_entries c)"
    "sc_count c' = sc_count c" "4 * (sc_count c' + 1) \<le> 3 * sc_capacity c'" "sc_generation c' = sc_generation c"
proof -
  let ?es = "sc_entries c"
  define newcap where "newcap = (if sc_capacity c > 0 then (sc_capacity c * 2) mod 2 ^ 32 else 8)"
  have nc: "newcap = (if sc_capacity c > 0 then sc_capacity c * 2 else 8)" using cap by (auto simp: newcap_def)
  have bounds: "4 * sc_count c \<le> 3 * sc_capacity c" "sc_count c = load ?es" "sc_capacity c > 0 \<longrightarrow> 8 \<le> sc_capacity c"
    using ok by (auto simp: cache_ok_def)
  have pow: "\<exists>n. newcap = 2 ^ n"
  proof (cases "sc_capacity c > 0")
    case True
    then have "table_ok ?es" "length ?es = sc_capacity c" using ok by (auto simp: cache_ok_def)
    then obtain n where "sc_capacity c = 2 ^ n" by (auto simp: table_ok_def)
    then have "newcap = 2 ^ Suc n" using True nc by simp
    then show ?thesis by blast
  next
    case False
    then have "newcap = 2 ^ 3" using nc by simp
    then show ?thesis by blast
  qed
  let ?fresh = "replicate newcap (zero_entry P_INVALID)"
  have kd: "keys_distinct ?es" using ok by (auto simp: cache_ok_def table_ok_def keys_distinct_def)
  have "load ?fresh + load ?es < length ?fresh" using bounds nc by (auto simp: replicate_ok)
  moreover have "table_ok ?fresh" using pow replicate_ok(1) by auto
  ultimately obtain es where es: "rehash ?es ?fresh newcap = Some es" "table_ok es" "length es = newcap"
      "occupied es = occupied ?es" "load es = load ?es"
    using rehash_Some[of ?fresh ?es] kd by (auto simp: replicate_ok)
  define c' where "c' = c\<lparr>sc_entries := es, sc_capacity := newcap\<rparr>"
  have valid: "\<forall>e\<in>occupied es. se_valid e \<le> sc_generation c"
    using ok es(4) by (simp add: cache_ok_def)
  have "mdb_prefix_stride_cache_grow True c = Some (Ok c')"
    using es(1) by (simp add: mdb_prefix_stride_cache_grow_def c'_def Let_def flip: newcap_def)
  moreover have "cache_ok c'"
    using ok es valid bounds nc gen by (auto simp: cache_ok_def c'_def)
  ultimately show thesis
    using that[of c'] es bounds nc by (auto simp: c'_def)
qed

lemma add_ok:
  assumes ok: "cache_ok c" and tab: "table_ok (sc_entries c)" and k: "k \<noteq> P_INVALID"
    and new: "stride_get (sc_entries c) k = None" and room: "4 * (sc_count c + 1) \<le> 3 * sc_capacity c"
  obtains i c' where
    "empty_probe (sc_entries c) (sc_capacity c - 1) (mdb_prefix_stride_hash k AND (sc_capacity c - 1)) = Some i"
    "c' = c\<lparr>sc_entries := (sc_entries c)[i := zero_entry k], sc_count := sc_count c + 1\<rparr>"
    "i < length (sc_entries c')" "cache_ok c'" "occupied (sc_entries c') = insert (zero_entry k) (occupied (sc_entries c))"
    "sc_entries c' ! i = zero_entry k"
proof -
  let ?e = "zero_entry k"
  have c: "length (sc_entries c) = sc_capacity c" "sc_count c = load (sc_entries c)" "sc_generation c < 2 ^ 32"
      "sc_generation c = 0 \<longrightarrow> sc_capacity c = 0" "sc_entries c \<noteq> [] \<longrightarrow> 8 \<le> sc_capacity c"
      "\<forall>e\<in>occupied (sc_entries c). se_valid e \<le> sc_generation c"
    using ok by (auto simp: cache_ok_def)
  have ek: "se_pgno ?e = k" "se_valid ?e = 0" by (simp_all add: zero_entry_def)
  have "sc_count c < sc_capacity c" using room by arith
  then have "load (sc_entries c) < length (sc_entries c)" by (simp add: c)
  then obtain i where i: "empty_probe (sc_entries c) (length (sc_entries c) - 1)
        (mdb_prefix_stride_hash k AND (length (sc_entries c) - 1)) = Some i"
      "i < length (sc_entries c)" "table_ok ((sc_entries c)[i := ?e])"
      "occupied ((sc_entries c)[i := ?e]) = insert ?e (occupied (sc_entries c))"
      "load ((sc_entries c)[i := ?e]) = Suc (load (sc_entries c))"
    by (rule table_ok_add[OF tab _ _ _, of ?e, unfolded ek]) (use k new in auto)
  define c' where "c' = c\<lparr>sc_entries := (sc_entries c)[i := ?e], sc_count := sc_count c + 1\<rparr>"
  have "cache_ok c'"
    using i c room ek by (auto simp: cache_ok_def c'_def)
  then show thesis
    using that[of i c'] i c(1) by (simp add: c'_def)
qed

text \<open>
  \<open>acquire\<close> returns the entry of the page, the one the table had or a zeroed one; every other page
  keeps its entry. It fails only when the table has to grow and memory is exhausted.
\<close>

definition acquired :: "bool \<Rightarrow> MDB_prefix_stride_cache \<Rightarrow> u64 \<Rightarrow> MDB_prefix_stride_cache \<Rightarrow> nat res \<Rightarrow> bool" where
  "acquired alloc c k c' r \<longleftrightarrow> cache_ok c' \<and>
     (\<forall>k'. k' \<noteq> P_INVALID \<longrightarrow> k' \<noteq> k \<longrightarrow> stride_get (sc_entries c') k' = stride_get (sc_entries c) k') \<and>
     (case r of
        Ok i \<Rightarrow> sc_generation c' = (if sc_generation c = 0 then 1 else sc_generation c) \<and>
          i < length (sc_entries c') \<and> stride_get (sc_entries c') k = Some (sc_entries c' ! i) \<and>
          sc_entries c' ! i = (case stride_get (sc_entries c) k of None \<Rightarrow> zero_entry k | Some e \<Rightarrow> e)
      | Err e \<Rightarrow> e = ENOMEM \<and> \<not> alloc \<and> sc_entries c' = sc_entries c
      | Abort \<Rightarrow> False)"

lemma acquire_ok:
  assumes ok: "cache_ok c" and cap: "sc_capacity c \<le> 2 ^ 28" and k: "k \<noteq> P_INVALID"
  shows "\<exists>c' r. mdb_prefix_stride_entry_acquire alloc c k = Some (c', r) \<and> acquired alloc c k c' r"
proof -
  define c1 where "c1 = (if sc_generation c = 0 then c\<lparr>sc_generation := 1\<rparr> else c)"
  have es: "sc_entries c1 = sc_entries c" "sc_capacity c1 = sc_capacity c" "sc_count c1 = sc_count c"
    by (simp_all add: c1_def)
  have ok1: "cache_ok c1" and g1: "sc_generation c1 \<noteq> 0"
    using ok by (auto simp: c1_def cache_ok_def occupied_def)
  have len: "length (sc_entries c) = sc_capacity c" and inv: "sc_entries c = [] \<or> table_ok (sc_entries c)"
    using ok by (auto simp: cache_ok_def)
  show ?thesis
  proof (cases "mdb_prefix_stride_entry_find_slot (sc_entries c) (length (sc_entries c)) k")
    case (Some i)
    then have ne: "sc_entries c \<noteq> []" by (auto simp: mdb_prefix_stride_entry_find_slot_def)
    then have "i < length (sc_entries c)" using inv Some k by (simp add: find_slot_iff)
    moreover have "mdb_prefix_stride_entry_acquire alloc c k = Some (c1, Ok i)"
      using Some len by (simp add: mdb_prefix_stride_entry_acquire_def es flip: c1_def)
    ultimately show ?thesis
      using ok1 Some es by (auto simp: acquired_def stride_get_def c1_def)
  next
    case None
    then have new: "stride_get (sc_entries c) k = None" by (simp add: stride_get_def)
    have finish: ?thesis if cx: "cache_ok cx" "table_ok (sc_entries cx)" "occupied (sc_entries cx) = occupied (sc_entries c)"
        "4 * (sc_count cx + 1) \<le> 3 * sc_capacity cx" "sc_generation cx = sc_generation c1"
        and run: "mdb_prefix_stride_entry_acquire alloc c k =
          map_option (\<lambda>idx. (cx\<lparr>sc_entries := (sc_entries cx)[idx := zero_entry k], sc_count := sc_count cx + 1\<rparr>, Ok idx))
            (empty_probe (sc_entries cx) (sc_capacity cx - 1) (mdb_prefix_stride_hash k AND (sc_capacity cx - 1)))" for cx
    proof -
      have same: "stride_get (sc_entries cx) k' = stride_get (sc_entries c) k'" if "k' \<noteq> P_INVALID" for k'
        using stride.lookup_cong[OF inv _ cx(3) that] cx(2) by simp
      obtain i c' where i: "empty_probe (sc_entries cx) (sc_capacity cx - 1) (mdb_prefix_stride_hash k AND (sc_capacity cx - 1)) = Some i"
          "c' = cx\<lparr>sc_entries := (sc_entries cx)[i := zero_entry k], sc_count := sc_count cx + 1\<rparr>"
          "i < length (sc_entries c')" "cache_ok c'" "occupied (sc_entries c') = insert (zero_entry k) (occupied (sc_entries cx))"
          "sc_entries c' ! i = zero_entry k"
        by (rule add_ok[OF cx(1,2) k _ cx(4)]) (use same new k in auto)
      have inv': "sc_entries c' = [] \<or> table_ok (sc_entries c')" using i(4) by (auto simp: cache_ok_def)
      have zk: "se_pgno (zero_entry k) = k" by (simp add: zero_entry_def)
      have get: "stride_get (sc_entries c') k' = (if k' = k then Some (zero_entry k) else stride_get (sc_entries cx) k')"
        if "k' \<noteq> P_INVALID" for k'
        using stride.lookup_added[OF disjI2[OF cx(2)] inv' i(5), of k'] that same[OF k] new k by (simp add: zk)
      have "acquired alloc c k c' (Ok i)"
        using i same get k new cx(5) by (auto simp: acquired_def c1_def)
      then show ?thesis using run i(1,2) by auto
    qed
    show ?thesis
    proof (cases "sc_capacity c = 0 \<or> sc_count c + 1 > (sc_capacity c * 3) mod 2 ^ 32 div 4")
      case True
      show ?thesis
      proof (cases alloc)
        case False
        then have "mdb_prefix_stride_entry_acquire alloc c k = Some (c1, Err ENOMEM)"
          using None True len by (simp add: mdb_prefix_stride_entry_acquire_def es mdb_prefix_stride_cache_grow_def flip: c1_def)
        then show ?thesis using ok1 False es by (auto simp: acquired_def)
      next
        case al: True
        obtain cx where cx: "mdb_prefix_stride_cache_grow True c1 = Some (Ok cx)" "cache_ok cx"
          "table_ok (sc_entries cx)" "occupied (sc_entries cx) = occupied (sc_entries c1)"
          "sc_count cx = sc_count c1" "4 * (sc_count cx + 1) \<le> 3 * sc_capacity cx" "sc_generation cx = sc_generation c1"
          by (rule grow_ok[OF ok1 _ g1]) (use cap es in auto)
        show ?thesis
          by (rule finish[of cx]) (use cx es None True al len in \<open>auto simp: mdb_prefix_stride_entry_acquire_def Let_def simp flip: c1_def\<close>)
      qed
    next
      case False
      have m: "(sc_capacity c * 3) mod 2 ^ 32 = sc_capacity c * 3" using cap by simp
      have "sc_count c + 1 \<le> sc_capacity c * 3 div 4" using False unfolding m by simp
      then have r: "4 * (sc_count c + 1) \<le> 3 * sc_capacity c" by arith
      have ne: "sc_entries c \<noteq> []" using False len by auto
      show ?thesis
        by (rule finish[of c1])
          (use ok1 es inv ne r None False len in \<open>auto simp: mdb_prefix_stride_entry_acquire_def Let_def simp flip: c1_def\<close>)
    qed
  qed
qed

section \<open>Properties\<close>

text \<open>Acquiring the entry of a page always ends, keeps the cache invariant, and returns the entry the
  table had for that page or a zeroed new one; every other page keeps its entry, also when the table
  is rehashed into one of twice the size. It only fails for want of memory, and then changes no entry.\<close>

theorem stride_acquire_correct:
  assumes "cache_ok c" "sc_capacity c \<le> 2 ^ 28" "k \<noteq> P_INVALID"
  shows "\<exists>c' r. mdb_prefix_stride_entry_acquire alloc c k = Some (c', r) \<and> cache_ok c' \<and>
    (\<forall>k'. k' \<noteq> P_INVALID \<longrightarrow> k' \<noteq> k \<longrightarrow> stride_get (sc_entries c') k' = stride_get (sc_entries c) k') \<and>
    (r = Err ENOMEM \<and> \<not> alloc \<and> sc_entries c' = sc_entries c \<or>
     (\<exists>i<length (sc_entries c'). r = Ok i \<and> stride_get (sc_entries c') k = Some (sc_entries c' ! i) \<and>
        sc_entries c' ! i = (case stride_get (sc_entries c) k of None \<Rightarrow> zero_entry k | Some e \<Rightarrow> e)))"
  using acquire_ok[OF assms, of alloc] by (fastforce simp: acquired_def split: res.splits)

theorem stride_acquire_correct_witness:
  "\<exists>c' r. mdb_prefix_stride_entry_acquire True \<lparr>sc_entries = [], sc_count = 0, sc_capacity = 0, sc_generation = 0\<rparr> 5 = Some (c', r) \<and>
    cache_ok c' \<and> (\<exists>i<length (sc_entries c'). r = Ok i \<and> sc_entries c' ! i = zero_entry 5)"
proof -
  let ?c = "\<lparr>sc_entries = [], sc_count = 0, sc_capacity = 0, sc_generation = 0\<rparr>"
  have "stride_get [] 5 = None" by (simp add: stride_get_def mdb_prefix_stride_entry_find_slot_def)
  then show ?thesis
    using stride_acquire_correct[OF cache_ok_empty, of 5 True] by (auto simp: P_INVALID_def)
qed

text \<open>A new generation makes every cached entry stale, also when the 32-bit generation counter wraps
  around, and keeps the cache invariant.\<close>

theorem generation_reset_invalidates:
  assumes "cache_ok c"
  shows "cache_ok (stride_generation_reset c) \<and>
    (\<forall>e\<in>occupied (sc_entries (stride_generation_reset c)). se_valid e \<noteq> sc_generation (stride_generation_reset c))"
  using generation_reset_ok[OF assms] by blast

theorem generation_reset_invalidates_witness:
  "let c = \<lparr>sc_entries = replicate (2 ^ 3) (zero_entry P_INVALID), sc_count = 0, sc_capacity = 8, sc_generation = 2 ^ 32 - 1\<rparr> in
    cache_ok (stride_generation_reset c) \<and>
    (\<forall>e\<in>occupied (sc_entries (stride_generation_reset c)). se_valid e \<noteq> sc_generation (stride_generation_reset c))"
  unfolding Let_def
proof (rule generation_reset_invalidates)
  have "occupied (replicate 8 (zero_entry P_INVALID)) = {}" "load (replicate 8 (zero_entry P_INVALID)) = 0"
    by (auto simp: occupied_def load_def zero_entry_def)
  then show "cache_ok \<lparr>sc_entries = replicate (2 ^ 3) (zero_entry P_INVALID), sc_count = 0, sc_capacity = 8, sc_generation = 2 ^ 32 - 1\<rparr>"
    using replicate_ok[of 3] by (simp add: cache_ok_def)
qed

end
