(* ===== verification/Stride.thy ===== *)
theory Stride
  imports Codec Page Stride_Table
begin

text \<open>
  The stride of a prefix-compressed leaf page (\<open>mdb_prefix_leaf_*\<close> and \<open>mdb_prefix_stride_entry_*\<close>
  in \<open>mdb.c\<close>): the page's \<open>mp_pad\<close> holds the length of its longest decoded key, kept up to date by a
  cache entry with the decoded length of every key, and the growing scratch buffers of a transaction.
  \<open>prefix\<close> stands for the \<open>MDB_PREFIX_COMPRESSION\<close> flag of the cursor's database, \<open>alloc\<close> for the
  success of \<open>realloc\<close>.
\<close>

section \<open>Growing a buffer\<close>

text \<open>\<open>while (newsize < required) { if (newsize > (MAX >> 1)) { newsize = required; break; } newsize <<= 1; }\<close>\<close>

partial_function (option) grow_loop :: "nat \<Rightarrow> nat \<Rightarrow> nat \<Rightarrow> nat option" where
  "grow_loop half newsize required =
     (if newsize < required then
        if newsize > half then Some required else grow_loop half (2 * newsize) required
      else Some newsize)"

definition SIZE_HALF :: nat where "SIZE_HALF = (2 ^ 64 - 1) div 2"
definition UINT_HALF :: nat where "UINT_HALF = (2 ^ 32 - 1) div 2"

record MDB_env_sizes =
  me_maxkey :: nat
  me_nodemax :: nat
  me_psize :: nat

definition mdb_prefix_prealloc_size :: "MDB_env_sizes \<Rightarrow> nat" where
  "mdb_prefix_prealloc_size env =
     (let limit = me_maxkey env;
          limit = (if limit = 0 then if me_nodemax env > 0 then me_nodemax env
                                     else if me_psize env > 0 then me_psize env else limit
                   else limit)
      in if limit = 0 \<or> limit < 4096 then 4096
         else if limit \<le> SIZE_HALF then 2 * limit else limit)"

text \<open>The sizes of the scratch buffers of a transaction (\<open>MDB_prefix_scratch\<close>).\<close>

record MDB_prefix_scratch =
  snapshot_size :: nat
  entries_cap :: nat
  keybuf_size :: nat
  encodedbuf_size :: nat

text \<open>
  The three byte buffers grow the same way; \<open>have_size\<close> is the current size. The result is the new
  size, or \<open>ENOMEM\<close> with the buffer kept.
\<close>

definition ensure_bytes :: "bool \<Rightarrow> nat \<Rightarrow> nat \<Rightarrow> nat \<Rightarrow> nat res option" where
  "ensure_bytes alloc baseline have_size required =
     (let required = (if required < baseline then baseline else required) in
      if have_size < required then
        let newsize = have_size;
            newsize = (if newsize = 0 \<or> newsize < baseline then baseline else newsize);
            newsize = (if newsize = 0 then required else newsize)
        in map_option (\<lambda>newsize. if \<not> alloc then Err ENOMEM else Ok newsize)
             (grow_loop SIZE_HALF newsize required)
      else Some (Ok have_size))"

definition mdb_prefix_ensure_snapshot ::
    "bool \<Rightarrow> MDB_env_sizes \<Rightarrow> MDB_prefix_scratch \<Rightarrow> nat \<Rightarrow> MDB_prefix_scratch res option" where
  "mdb_prefix_ensure_snapshot alloc env scratch sz =
     map_option (\<lambda>r. bind_res r (\<lambda>n. Ok (scratch\<lparr>snapshot_size := n\<rparr>)))
       (ensure_bytes alloc (mdb_prefix_prealloc_size env) (snapshot_size scratch) sz)"

definition mdb_prefix_ensure_keybuf ::
    "bool \<Rightarrow> MDB_env_sizes \<Rightarrow> MDB_prefix_scratch \<Rightarrow> nat \<Rightarrow> MDB_prefix_scratch res option" where
  "mdb_prefix_ensure_keybuf alloc env scratch sz =
     map_option (\<lambda>r. bind_res r (\<lambda>n. Ok (scratch\<lparr>keybuf_size := n\<rparr>)))
       (ensure_bytes alloc (mdb_prefix_prealloc_size env) (keybuf_size scratch) (if sz = 0 then 1 else sz))"

definition mdb_prefix_ensure_encbuf ::
    "bool \<Rightarrow> MDB_env_sizes \<Rightarrow> MDB_prefix_scratch \<Rightarrow> nat \<Rightarrow> MDB_prefix_scratch res option" where
  "mdb_prefix_ensure_encbuf alloc env scratch sz =
     map_option (\<lambda>r. bind_res r (\<lambda>n. Ok (scratch\<lparr>encodedbuf_size := n\<rparr>)))
       (ensure_bytes alloc (mdb_prefix_prealloc_size env) (encodedbuf_size scratch) (if sz = 0 then 1 else sz))"

text \<open>\<open>sizeof(MDB_prefix_rebuild_entry)\<close> is 56 with 64-bit pointers; the counts are \<open>unsigned int\<close>.\<close>

definition mdb_prefix_ensure_entries ::
    "bool \<Rightarrow> MDB_env_sizes \<Rightarrow> MDB_prefix_scratch \<Rightarrow> nat \<Rightarrow> MDB_prefix_scratch res option" where
  "mdb_prefix_ensure_entries alloc env scratch cnt =
     (let baseline_bytes = mdb_prefix_prealloc_size env in
      if cnt = 0 then Some (Ok scratch)
      else
        let baseline = (if baseline_bytes \<ge> 56 then (baseline_bytes div 56) mod 2 ^ 32 else 0);
            baseline = (if baseline = 0 then 32 else baseline);
            target = (if cnt < baseline then baseline else cnt)
        in if entries_cap scratch < target then
             let newcap = entries_cap scratch;
                 newcap = (if newcap = 0 \<or> newcap < baseline then baseline else newcap)
             in map_option (\<lambda>newcap. if \<not> alloc then Err ENOMEM else Ok (scratch\<lparr>entries_cap := newcap\<rparr>))
                  (grow_loop UINT_HALF newcap target)
           else Some (Ok scratch))"

section \<open>The stride of a page\<close>

text \<open>\<open>key_at mp i\<close> is the stored (encoded) key of slot \<open>i\<close>.\<close>

definition key_at :: "MDB_page \<Rightarrow> nat \<Rightarrow> bytes" where
  "key_at mp i = NODEKEY mp (NODEPTR mp i)"

abbreviation ksize_at :: "MDB_page \<Rightarrow> nat \<Rightarrow> nat" where
  "ksize_at mp i \<equiv> mn_ksize (mp_mem mp) (NODEPTR mp i)"

definition mdb_prefix_leaf_maxdecoded :: "MDB_page \<Rightarrow> nat" where
  "mdb_prefix_leaf_maxdecoded mp =
     (if \<not> IS_LEAF mp \<or> IS_LEAF2 mp then 0
      else if NUMKEYS mp = 0 then 0
      else
        let trunk_len = ksize_at mp 0;
            max_len = foldl (\<lambda>max_len i.
              if ksize_at mp i = 0 then max_len
              else let full_len = mdb_prefix_decoded_length trunk_len (key_at mp i)
                   in if full_len > max_len then full_len else max_len) trunk_len [1..<NUMKEYS mp]
        in if max_len > 0 then max_len else trunk_len)"

definition mdb_leaf_maxkey_raw :: "MDB_page \<Rightarrow> nat" where
  "mdb_leaf_maxkey_raw mp =
     (if \<not> IS_LEAF mp \<or> IS_LEAF2 mp then 0
      else foldl (\<lambda>max_len i. if ksize_at mp i > max_len then ksize_at mp i else max_len) 0 [0..<NUMKEYS mp])"

definition mdb_prefix_leaf_store_stride :: "bool \<Rightarrow> MDB_page \<Rightarrow> nat \<Rightarrow> MDB_page" where
  "mdb_prefix_leaf_store_stride prefix mp stride =
     (if \<not> IS_LEAF mp \<or> IS_LEAF2 mp \<or> \<not> prefix
      then if \<not> IS_LEAF2 mp then mp\<lparr>mp_pad := 0\<rparr> else mp
      else let stride = (if stride > 65535 then 65535 else stride) in mp\<lparr>mp_pad := stride\<rparr>)"

definition mdb_prefix_leaf_refresh_stride :: "bool \<Rightarrow> MDB_page \<Rightarrow> MDB_page" where
  "mdb_prefix_leaf_refresh_stride prefix mp =
     (if \<not> IS_LEAF mp \<or> IS_LEAF2 mp \<or> \<not> prefix
      then if \<not> IS_LEAF2 mp then mp\<lparr>mp_pad := 0\<rparr> else mp
      else if NUMKEYS mp = 0 then mp\<lparr>mp_pad := 0\<rparr>
      else
        let stride = mdb_prefix_leaf_maxdecoded mp;
            stride = (if stride = 0 then ksize_at mp 0 else stride)
        in mdb_prefix_leaf_store_stride prefix mp stride)"

section \<open>The length array of a cache entry\<close>

definition mdb_prefix_stride_pack_length :: "nat \<Rightarrow> u32" where
  "mdb_prefix_stride_pack_length len = (if len > 2 ^ 32 - 1 then - 1 else word_of_nat len)"

definition length_of :: "MDB_prefix_stride_entry \<Rightarrow> nat \<Rightarrow> nat" where
  "length_of e i = (if se_length_cap e > 0 then unat (se_lengths e i) else 0)"

definition mdb_prefix_stride_entry_max :: "MDB_prefix_stride_entry \<Rightarrow> nat \<times> MDB_prefix_stride_entry" where
  "mdb_prefix_stride_entry_max e =
     (if se_count e = 0 then (0, e)
      else if se_max_valid e then (se_max_len e, e)
      else
        let max_len = foldl (\<lambda>max_len i. let len = length_of e i in if len > max_len then len else max_len)
                        (length_of e 0) [1..<se_count e]
        in (max_len, e\<lparr>se_max_len := max_len, se_max_valid := True\<rparr>))"

definition mdb_prefix_stride_entry_reserve ::
    "bool \<Rightarrow> MDB_prefix_stride_entry \<Rightarrow> nat \<Rightarrow> MDB_prefix_stride_entry res option" where
  "mdb_prefix_stride_entry_reserve alloc e need =
     (if se_length_cap e \<ge> need then Some (Ok e)
      else
        let newcap = (if se_length_cap e > 0 then se_length_cap e else 16)
        in map_option (\<lambda>newcap. if \<not> alloc then Err ENOMEM else Ok (e\<lparr>se_length_cap := newcap\<rparr>))
             (grow_loop UINT_HALF newcap need))"

text \<open>\<open>generation\<close> is the cache's; the results are the page, whose stride is stored, and the entry.\<close>

definition mdb_prefix_stride_entry_rebuild ::
    "bool \<Rightarrow> bool \<Rightarrow> nat \<Rightarrow> MDB_page \<Rightarrow> MDB_prefix_stride_entry \<Rightarrow> (MDB_page \<times> MDB_prefix_stride_entry) res option" where
  "mdb_prefix_stride_entry_rebuild alloc prefix generation mp e =
     (if \<not> IS_LEAF mp \<or> IS_LEAF2 mp \<or> IS_SUBP mp then Some (Ok (mp, e))
      else if generation = 0 then Some Abort
      else
        let total = NUMKEYS mp in
        map_option (\<lambda>r. bind_res r (\<lambda>e.
          let e = e\<lparr>se_count := total\<rparr> in
          if total = 0 then
            Ok (mdb_prefix_leaf_store_stride prefix mp 0, e\<lparr>se_max_len := 0, se_max_valid := True, se_valid := generation\<rparr>)
          else
            let trunk_len = ksize_at mp 0;
                lengths = (se_lengths e)(0 := mdb_prefix_stride_pack_length trunk_len);
                (lengths, max_len) = foldl (\<lambda>(lengths, max_len) i.
                  let len = mdb_prefix_decoded_length trunk_len (key_at mp i)
                  in (lengths(i := mdb_prefix_stride_pack_length len), if len > max_len then len else max_len))
                  (lengths, trunk_len) [1..<total]
            in Ok (mdb_prefix_leaf_store_stride prefix mp max_len,
                   e\<lparr>se_lengths := lengths, se_max_len := max_len, se_max_valid := True, se_valid := generation\<rparr>)))
          (mdb_prefix_stride_entry_reserve alloc e (if total > 0 then total else 1)))"

text \<open>
  \<open>prepare\<close> finds or makes the entry of the page and rebuilds it when it is stale. Its result is the
  cache, the page and the index of the entry (\<open>None\<close> for NULL: no entry is kept for this page).
\<close>

definition mdb_prefix_stride_prepare ::
    "bool \<Rightarrow> bool \<Rightarrow> bool \<Rightarrow> MDB_prefix_stride_cache \<Rightarrow> MDB_page \<Rightarrow>
     (MDB_prefix_stride_cache \<times> (MDB_page \<times> nat option) res) option" where
  "mdb_prefix_stride_prepare alloc rdonly prefix cache mp =
     (if IS_SUBP mp \<or> rdonly \<or> \<not> prefix \<or> \<not> IS_LEAF mp \<or> IS_LEAF2 mp then Some (cache, Ok (mp, None))
      else
        case mdb_prefix_stride_entry_acquire alloc cache (word_of_nat (mp_pgno mp)) of
          None \<Rightarrow> None
        | Some (cache, Err e) \<Rightarrow> Some (cache, Err e)
        | Some (cache, Abort) \<Rightarrow> Some (cache, Abort)
        | Some (cache, Ok i) \<Rightarrow>
            let e = sc_entries cache ! i in
            if se_valid e \<noteq> sc_generation cache \<or> se_count e \<noteq> NUMKEYS mp then
              let e = e\<lparr>se_valid := 0\<rparr> in
              (case mdb_prefix_stride_entry_rebuild alloc prefix (sc_generation cache) mp e of
                 None \<Rightarrow> None
               | Some (Ok (mp, e)) \<Rightarrow>
                   Some (cache\<lparr>sc_entries := (sc_entries cache)[i := e]\<rparr>, Ok (mp, Some i))
               | Some (Err x) \<Rightarrow> Some (cache\<lparr>sc_entries := (sc_entries cache)[i := e]\<rparr>, Err x)
               | Some Abort \<Rightarrow> Some (cache, Abort))
            else Some (cache, Ok (mp, Some i)))"

definition mdb_prefix_stride_apply_insert ::
    "bool \<Rightarrow> bool \<Rightarrow> MDB_prefix_stride_entry \<Rightarrow> MDB_page \<Rightarrow> nat \<Rightarrow> nat \<Rightarrow> (MDB_prefix_stride_entry \<times> MDB_page) res option" where
  "mdb_prefix_stride_apply_insert alloc prefix e mp indx keylen =
     map_option (\<lambda>r. bind_res r (\<lambda>e.
       let indx = (if indx > se_count e then se_count e else indx);
           lengths = (if se_count e > indx then shift_up (se_lengths e) indx (se_count e) else se_lengths e);
           e = e\<lparr>se_lengths := lengths(indx := mdb_prefix_stride_pack_length keylen), se_count := se_count e + 1\<rparr>;
           e = (if keylen \<ge> se_max_len e then e\<lparr>se_max_len := keylen, se_max_valid := True\<rparr> else e);
           (max_len, e) = mdb_prefix_stride_entry_max e
       in Ok (e, mdb_prefix_leaf_store_stride prefix mp max_len)))
     (mdb_prefix_stride_entry_reserve alloc e (se_count e + 1))"

definition mdb_prefix_stride_apply_delete ::
    "bool \<Rightarrow> MDB_prefix_stride_entry \<Rightarrow> MDB_page \<Rightarrow> nat \<Rightarrow> MDB_prefix_stride_entry \<times> MDB_page" where
  "mdb_prefix_stride_apply_delete prefix e mp indx =
     (if indx \<ge> se_count e then (e, mp)
      else
        let removed = unat (se_lengths e indx);
            lengths = (if indx + 1 < se_count e then shift_down (se_lengths e) indx (se_count e) else se_lengths e);
            e = e\<lparr>se_lengths := lengths, se_count := se_count e - 1\<rparr>
        in if se_count e = 0
           then (e\<lparr>se_max_len := 0, se_max_valid := True\<rparr>, mdb_prefix_leaf_store_stride prefix mp 0)
           else
             let e = (if removed \<ge> se_max_len e then e\<lparr>se_max_valid := False\<rparr> else e);
                 (max_len, e) = mdb_prefix_stride_entry_max e
             in (e, mdb_prefix_leaf_store_stride prefix mp max_len))"

section \<open>The growing buffers\<close>

text \<open>The loop ends, with enough, without overflow, and never shrinks.\<close>

lemma grow_loop_Some:
  "0 < newsize \<Longrightarrow> newsize \<le> 2 * half + 1 \<Longrightarrow> required \<le> 2 * half + 1 \<Longrightarrow>
   \<exists>n. grow_loop half newsize required = Some n \<and> required \<le> n \<and> newsize \<le> n \<and> n \<le> 2 * half + 1"
proof (induction "required - newsize" arbitrary: newsize rule: less_induct)
  case less
  show ?case
  proof (cases "newsize < required \<and> newsize \<le> half")
    case True
    then have "required - 2 * newsize < required - newsize" using less.prems(1) by linarith
    with less.hyps[of "2 * newsize"] less.prems True
    obtain n where "grow_loop half (2 * newsize) required = Some n" "required \<le> n" "2 * newsize \<le> n" "n \<le> 2 * half + 1"
      by auto
    moreover have "grow_loop half newsize required = grow_loop half (2 * newsize) required"
      using True by (subst grow_loop.simps) simp
    ultimately show ?thesis by auto
  next
    case False
    then show ?thesis using less.prems by (subst grow_loop.simps) auto
  qed
qed

lemma ensure_bytes_spec:
  assumes "0 < baseline" "baseline < 2 ^ 64" "have_size < 2 ^ 64" "required < 2 ^ 64"
  shows "\<exists>r. ensure_bytes alloc baseline have_size required = Some r \<and>
    (case r of Ok n \<Rightarrow> required \<le> n \<and> baseline \<le> n \<and> have_size \<le> n \<and> n < 2 ^ 64
     | Err e \<Rightarrow> e = ENOMEM \<and> \<not> alloc \<and> have_size < max required baseline
     | Abort \<Rightarrow> False)"
proof -
  define req where "req = (if required < baseline then baseline else required)"
  define start where "start = (if have_size = 0 \<or> have_size < baseline then baseline else have_size)"
  have half: "2 * SIZE_HALF + 1 = 2 ^ 64 - 1" by (simp add: SIZE_HALF_def)
  have le: "0 < start" "start \<le> 2 * SIZE_HALF + 1" "req \<le> 2 * SIZE_HALF + 1" "have_size \<le> start" "baseline \<le> start"
    using assms unfolding half by (auto simp: start_def req_def)
  obtain n where n: "grow_loop SIZE_HALF start req = Some n" "req \<le> n" "start \<le> n" "n \<le> 2 * SIZE_HALF + 1"
    using grow_loop_Some[OF le(1-3)] by blast
  have n64: "n < 2 ^ 64" using n(4) unfolding half by simp
  have run: "ensure_bytes alloc baseline have_size required =
      (if have_size < req then Some (if \<not> alloc then Err ENOMEM else Ok n) else Some (Ok have_size))"
    using n(1) le(1) unfolding ensure_bytes_def Let_def req_def[symmetric] start_def[symmetric] by simp
  have "required \<le> req" "baseline \<le> req" "req = max required baseline" by (auto simp: req_def)
  then show ?thesis unfolding run using n n64 le assms by auto
qed

lemma prealloc_pos: "4096 \<le> mdb_prefix_prealloc_size env"
  by (simp add: mdb_prefix_prealloc_size_def Let_def)

section \<open>What an entry says\<close>

text \<open>The decoded lengths an entry holds, and its invariant.\<close>

definition lens :: "MDB_prefix_stride_entry \<Rightarrow> nat list" where
  "lens e = cells (\<lambda>i. unat (se_lengths e i)) (se_count e)"

definition list_max :: "nat list \<Rightarrow> nat" where
  "list_max xs = foldr max xs 0"

lemma list_max_simps [simp]: "list_max [] = 0" "list_max (x # xs) = max x (list_max xs)"
  "list_max (xs @ ys) = max (list_max xs) (list_max ys)"
proof -
  show "list_max [] = 0" "list_max (x # xs) = max x (list_max xs)" by (simp_all add: list_max_def)
  show "list_max (xs @ ys) = max (list_max xs) (list_max ys)"
    by (induction xs) (simp_all add: list_max_def max.assoc)
qed

lemma list_max_ge: "x \<in> set xs \<Longrightarrow> x \<le> list_max xs"
  by (induction xs) auto

lemma list_max_le_iff: "list_max xs \<le> m \<longleftrightarrow> (\<forall>x\<in>set xs. x \<le> m)"
  by (induction xs) auto

lemma foldl_max: "foldl (\<lambda>m i. let l = f i in if l > m then l else m) m0 is = max m0 (list_max (map f is))"
  by (induction "is" arbitrary: m0) (auto simp: max_def Let_def)

definition entry_ok :: "MDB_prefix_stride_entry \<Rightarrow> bool" where
  "entry_ok e \<longleftrightarrow> se_count e \<le> se_length_cap e \<and> se_length_cap e < 2 ^ 32 \<and> list_max (lens e) \<le> se_max_len e \<and>
     (se_max_valid e \<longrightarrow> se_max_len e = list_max (lens e))"

lemma length_lens [simp]: "length (lens e) = se_count e"
  by (simp add: lens_def)

lemma entry_max_spec:
  assumes "entry_ok e"
  shows "mdb_prefix_stride_entry_max e = (m, e') \<Longrightarrow>
    m = list_max (lens e) \<and> lens e' = lens e \<and> se_count e' = se_count e \<and> se_length_cap e' = se_length_cap e \<and>
    se_pgno e' = se_pgno e \<and> se_valid e' = se_valid e \<and> entry_ok e' \<and> (se_count e > 0 \<longrightarrow> se_max_valid e')"
proof -
  assume r: "mdb_prefix_stride_entry_max e = (m, e')"
  show ?thesis
  proof (cases "se_count e = 0 \<or> se_max_valid e")
    case True
    then show ?thesis
      using r assms by (auto simp: mdb_prefix_stride_entry_max_def entry_ok_def lens_def cells_def split: if_splits)
  next
    case False
    then have cap: "se_length_cap e > 0" using assms by (auto simp: entry_ok_def)
    have "[0..<se_count e] = 0 # [1..<se_count e]" using False by (simp add: upt_conv_Cons)
    then have l: "lens e = unat (se_lengths e 0) # map (\<lambda>i. unat (se_lengths e i)) [1..<se_count e]"
      by (simp add: lens_def cells_def)
    have m: "foldl (\<lambda>m i. let l = length_of e i in if l > m then l else m) (length_of e 0) [1..<se_count e] = list_max (lens e)"
      unfolding foldl_max l using cap by (simp add: length_of_def)
    have "mdb_prefix_stride_entry_max e = (list_max (lens e), e\<lparr>se_max_len := list_max (lens e), se_max_valid := True\<rparr>)"
      unfolding mdb_prefix_stride_entry_max_def m using False by (simp only: Let_def de_Morgan_disj if_False)
    with r have "(m, e') = (list_max (lens e), e\<lparr>se_max_len := list_max (lens e), se_max_valid := True\<rparr>)"
      by (rule trans[OF sym])
    then have e': "m = list_max (lens e)" "e' = e\<lparr>se_max_len := list_max (lens e), se_max_valid := True\<rparr>"
      unfolding prod.inject by (rule conjunct1, rule conjunct2)
    moreover have "lens e' = lens e" by (simp add: e' lens_def)
    ultimately show ?thesis using assms by (simp add: entry_ok_def)
  qed
qed

lemma unat_pack: "n < 2 ^ 32 \<Longrightarrow> unat (mdb_prefix_stride_pack_length n) = n"
  by (auto simp: mdb_prefix_stride_pack_length_def unat_of_nat)

lemma reserve_spec:
  assumes "se_length_cap e < 2 ^ 32" "need < 2 ^ 32"
  obtains r where "mdb_prefix_stride_entry_reserve alloc e need = Some r"
    "r = Err ENOMEM \<and> \<not> alloc \<and> se_length_cap e < need \<or>
     (\<exists>n. r = Ok (e\<lparr>se_length_cap := n\<rparr>) \<and> need \<le> n \<and> se_length_cap e \<le> n \<and> n < 2 ^ 32)"
proof (cases "se_length_cap e \<ge> need")
  case True
  then show thesis
    using that[of "Ok e"] assms by (simp add: mdb_prefix_stride_entry_reserve_def)
      (metis MDB_prefix_stride_entry.surjective MDB_prefix_stride_entry.update_convs(3) order_refl)
next
  case False
  define start where "start = (if se_length_cap e > 0 then se_length_cap e else 16)"
  have half: "2 * UINT_HALF + 1 = 2 ^ 32 - 1" by (simp add: UINT_HALF_def)
  have "0 < start" "start \<le> 2 * UINT_HALF + 1" "need \<le> 2 * UINT_HALF + 1"
    using assms unfolding half by (auto simp: start_def)
  then obtain n where n: "grow_loop UINT_HALF start need = Some n" "need \<le> n" "start \<le> n" "n \<le> 2 * UINT_HALF + 1"
    using grow_loop_Some by blast
  have n32: "n < 2 ^ 32" "se_length_cap e \<le> n" using n(3,4) unfolding half by (auto simp: start_def split: if_splits)
  have run: "mdb_prefix_stride_entry_reserve alloc e need = Some (if \<not> alloc then Err ENOMEM else Ok (e\<lparr>se_length_cap := n\<rparr>))"
    using False n(1) unfolding mdb_prefix_stride_entry_reserve_def Let_def start_def[symmetric] by simp
  show thesis
  proof (rule that[OF run], cases alloc)
    case True
    have "\<exists>k. Ok (e\<lparr>se_length_cap := n\<rparr>) = Ok (e\<lparr>se_length_cap := k\<rparr>) \<and> need \<le> k \<and> se_length_cap e \<le> k \<and> k < 2 ^ 32"
      using n(2) n32 by blast
    with True show "(if \<not> alloc then Err ENOMEM else Ok (e\<lparr>se_length_cap := n\<rparr>)) = Err ENOMEM \<and> \<not> alloc \<and> se_length_cap e < need \<or>
      (\<exists>k. (if \<not> alloc then Err ENOMEM else Ok (e\<lparr>se_length_cap := n\<rparr>)) = Ok (e\<lparr>se_length_cap := k\<rparr>) \<and>
         need \<le> k \<and> se_length_cap e \<le> k \<and> k < 2 ^ 32)" by simp
  next
    case False
    with \<open>\<not> need \<le> se_length_cap e\<close>
    show "(if \<not> alloc then Err ENOMEM else Ok (e\<lparr>se_length_cap := n\<rparr>)) = Err ENOMEM \<and> \<not> alloc \<and> se_length_cap e < need \<or>
      (\<exists>k. (if \<not> alloc then Err ENOMEM else Ok (e\<lparr>se_length_cap := n\<rparr>)) = Ok (e\<lparr>se_length_cap := k\<rparr>) \<and>
         need \<le> k \<and> se_length_cap e \<le> k \<and> k < 2 ^ 32)" by simp
  qed
qed

section \<open>Inserting, deleting and rebuilding lengths\<close>

definition is_prefix_leaf :: "bool \<Rightarrow> MDB_page \<Rightarrow> bool" where
  "is_prefix_leaf prefix mp \<longleftrightarrow> prefix \<and> IS_LEAF mp \<and> \<not> IS_LEAF2 mp"

lemma store_stride_prefix:
  "is_prefix_leaf prefix mp \<Longrightarrow> mdb_prefix_leaf_store_stride prefix mp n = mp\<lparr>mp_pad := min n 65535\<rparr>"
  by (auto simp: mdb_prefix_leaf_store_stride_def is_prefix_leaf_def min_def)

lemma cells_insert:
  "i \<le> n \<Longrightarrow> cells ((if n > i then shift_up a i n else a)(i := x)) (Suc n) = insert_at i x (cells a n)"
  by (rule nth_equalityI) (auto simp: loop_simps nth_insert_at)

lemma cells_delete:
  "i < n \<Longrightarrow> cells (if i + 1 < n then shift_down a i n else a) (n - 1) = remove_at i (cells a n)"
  by (rule nth_equalityI) (auto simp: loop_simps nth_remove_at)

lemma map_cells: "map f (cells a n) = cells (\<lambda>i. f (a i)) n"
  by (simp add: cells_def)

lemma list_max_insert_at: "list_max (insert_at i x xs) = max x (list_max xs)"
proof -
  have "list_max xs = max (list_max (take i xs)) (list_max (drop i xs))" by (metis append_take_drop_id list_max_simps(3))
  then show ?thesis by (simp add: insert_at_def)
qed

lemma set_remove_at: "set (remove_at i xs) \<subseteq> set xs"
  by (auto simp: remove_at_def dest: in_set_takeD in_set_dropD)

lemma list_max_remove_at:
  assumes "i < length xs"
  shows "list_max (remove_at i xs) \<le> list_max xs"
    and "xs ! i < list_max xs \<Longrightarrow> list_max (remove_at i xs) = list_max xs"
proof -
  have "list_max xs = max (list_max (take i xs)) (max (xs ! i) (list_max (drop (Suc i) xs)))"
    by (subst id_take_nth_drop[OF assms]) simp
  then show "list_max (remove_at i xs) \<le> list_max xs" "xs ! i < list_max xs \<Longrightarrow> list_max (remove_at i xs) = list_max xs"
    unfolding remove_at_def by auto
qed

text \<open>An insertion inserts the length at its place and stores the new maximum as the page's stride.\<close>

lemma apply_insert_spec:
  assumes e: "entry_ok e" "se_count e < 2 ^ 16" and k: "keylen < 2 ^ 32" and i: "indx \<le> se_count e"
    and p: "is_prefix_leaf prefix mp"
  shows "mdb_prefix_stride_apply_insert alloc prefix e mp indx keylen = Some (Err ENOMEM) \<and> \<not> alloc \<or>
    (\<exists>e'. mdb_prefix_stride_apply_insert alloc prefix e mp indx keylen =
        Some (Ok (e', mp\<lparr>mp_pad := min (list_max (insert_at indx keylen (lens e))) 65535\<rparr>)) \<and>
      lens e' = insert_at indx keylen (lens e) \<and> entry_ok e' \<and> se_max_valid e' \<and> se_pgno e' = se_pgno e \<and> se_valid e' = se_valid e)"
proof -
  obtain r where r: "mdb_prefix_stride_entry_reserve alloc e (se_count e + 1) = Some r"
    "r = Err ENOMEM \<and> \<not> alloc \<and> se_length_cap e < se_count e + 1 \<or>
     (\<exists>n. r = Ok (e\<lparr>se_length_cap := n\<rparr>) \<and> se_count e + 1 \<le> n \<and> se_length_cap e \<le> n \<and> n < 2 ^ 32)"
    by (rule reserve_spec[of e "se_count e + 1" alloc]) (use e in \<open>auto simp: entry_ok_def\<close>)
  from r(2) show ?thesis
  proof
    assume "r = Err ENOMEM \<and> \<not> alloc \<and> se_length_cap e < se_count e + 1"
    then show ?thesis using r(1) by (simp add: mdb_prefix_stride_apply_insert_def)
  next
    assume "\<exists>n. r = Ok (e\<lparr>se_length_cap := n\<rparr>) \<and> se_count e + 1 \<le> n \<and> se_length_cap e \<le> n \<and> n < 2 ^ 32"
    then obtain n where n: "r = Ok (e\<lparr>se_length_cap := n\<rparr>)" "se_count e + 1 \<le> n" "n < 2 ^ 32" by blast
    define arr where "arr = (if se_count e > indx then shift_up (se_lengths e) indx (se_count e) else se_lengths e)(indx := mdb_prefix_stride_pack_length keylen)"
    define e1 where "e1 = e\<lparr>se_length_cap := n, se_lengths := arr, se_count := se_count e + 1\<rparr>"
    define e2 where "e2 = (if keylen \<ge> se_max_len e1 then e1\<lparr>se_max_len := keylen, se_max_valid := True\<rparr> else e1)"
    have l1: "lens e1 = insert_at indx keylen (lens e)"
    proof -
      have "lens e1 = map unat (cells arr (Suc (se_count e)))" by (simp add: lens_def e1_def map_cells)
      also have "\<dots> = map unat (insert_at indx (mdb_prefix_stride_pack_length keylen) (cells (se_lengths e) (se_count e)))"
        unfolding arr_def by (simp only: cells_insert[OF i])
      also have "\<dots> = insert_at indx keylen (lens e)"
        by (simp add: insert_at_map unat_pack[OF k] map_cells lens_def)
      finally show ?thesis .
    qed
    have l2: "lens e2 = insert_at indx keylen (lens e)" using l1 by (simp add: e2_def lens_def)
    have ok2: "entry_ok e2"
      using e n l2 unfolding entry_ok_def by (auto simp: e2_def e1_def list_max_insert_at)
    obtain m e' where me: "mdb_prefix_stride_entry_max e2 = (m, e')" by fastforce
    note s = entry_max_spec[OF ok2 me]
    have "mdb_prefix_stride_apply_insert alloc prefix e mp indx keylen = Some (Ok (e', mdb_prefix_leaf_store_stride prefix mp m))"
    proof -
      let ?en = "e\<lparr>se_length_cap := n\<rparr>"
      have f: "se_count ?en = se_count e" "se_lengths ?en = se_lengths e" by simp_all
      have if_id: "(if indx > se_count e then se_count e else indx) = indx" using i by simp
      show ?thesis
        unfolding mdb_prefix_stride_apply_insert_def r(1) n(1) Let_def option.map bind_res_simps f if_id
          arr_def[symmetric] e1_def[symmetric] e2_def[symmetric] me prod.case ..
    qed
    moreover have "se_count e2 > 0" "se_pgno e2 = se_pgno e" "se_valid e2 = se_valid e" by (simp_all add: e2_def e1_def)
    ultimately show ?thesis using s l2 store_stride_prefix[OF p] by auto
  qed
qed

text \<open>A deletion removes the length and recomputes the maximum when the longest one may be gone.\<close>

lemma apply_delete_spec:
  assumes e: "entry_ok e" and i: "indx < se_count e" and p: "is_prefix_leaf prefix mp"
  obtains e' where "mdb_prefix_stride_apply_delete prefix e mp indx =
      (e', mp\<lparr>mp_pad := min (list_max (remove_at indx (lens e))) 65535\<rparr>)"
    "lens e' = remove_at indx (lens e)" "entry_ok e'" "se_max_valid e'" "se_pgno e' = se_pgno e" "se_valid e' = se_valid e"
proof -
  define arr where "arr = (if indx + 1 < se_count e then shift_down (se_lengths e) indx (se_count e) else se_lengths e)"
  define e1 where "e1 = e\<lparr>se_lengths := arr, se_count := se_count e - 1\<rparr>"
  define e2 where "e2 = (if unat (se_lengths e indx) \<ge> se_max_len e1 then e1\<lparr>se_max_valid := False\<rparr> else e1)"
  have il: "indx < length (lens e)" using i by simp
  have l1: "lens e1 = remove_at indx (lens e)"
    using cells_delete[OF i, of "se_lengths e"] by (simp add: lens_def e1_def arr_def remove_at_map flip: map_cells)
  have nth: "lens e ! indx = unat (se_lengths e indx)" using i by (simp add: lens_def)
  have e1f: "se_count e1 = se_count e - 1" "se_max_len e1 = se_max_len e" "se_max_valid e1 = se_max_valid e"
    "se_length_cap e1 = se_length_cap e" "se_pgno e1 = se_pgno e" "se_valid e1 = se_valid e" by (simp_all add: e1_def)
  have ni: "\<not> indx \<ge> se_count e" using i by simp
  have run: "mdb_prefix_stride_apply_delete prefix e mp indx =
      (if se_count e1 = 0 then (e1\<lparr>se_max_len := 0, se_max_valid := True\<rparr>, mdb_prefix_leaf_store_stride prefix mp 0)
       else (case mdb_prefix_stride_entry_max e2 of (m, e) \<Rightarrow> (e, mdb_prefix_leaf_store_stride prefix mp m)))"
    unfolding mdb_prefix_stride_apply_delete_def Let_def if_not_P[OF ni] arr_def[symmetric] e1_def[symmetric] e2_def[symmetric] ..
  show thesis
  proof (cases "se_count e1 = 0")
    case True
    then have "remove_at indx (lens e) = []" using l1 by (metis length_0_conv length_lens)
    moreover have "lens (e1\<lparr>se_max_len := 0, se_max_valid := True\<rparr>) = []" using True by (simp add: lens_def cells_def)
    ultimately show thesis
      using that run True e e1f by (simp add: store_stride_prefix[OF p] entry_ok_def)
  next
    case False
    have l2: "lens e2 = remove_at indx (lens e)" using l1 by (simp add: e2_def lens_def)
    have e2f: "se_count e2 = se_count e1" "se_max_len e2 = se_max_len e" "se_length_cap e2 = se_length_cap e"
      "se_pgno e2 = se_pgno e" "se_valid e2 = se_valid e"
      "se_max_valid e2 \<longleftrightarrow> se_max_valid e \<and> lens e ! indx < se_max_len e"
      using e1f nth by (simp_all add: e2_def)
    have ok2: "entry_ok e2"
      unfolding entry_ok_def e2f l2
    proof (intro conjI impI)
      show "se_count e1 \<le> se_length_cap e" "se_length_cap e < 2 ^ 32" using e e1f by (auto simp: entry_ok_def)
      show "list_max (remove_at indx (lens e)) \<le> se_max_len e"
        using list_max_remove_at(1)[OF il] e by (auto simp: entry_ok_def)
      assume "se_max_valid e \<and> lens e ! indx < se_max_len e"
      then show "se_max_len e = list_max (remove_at indx (lens e))"
        using list_max_remove_at(2)[OF il] e by (simp add: entry_ok_def)
    qed
    obtain m e' where me: "mdb_prefix_stride_entry_max e2 = (m, e')" by fastforce
    show thesis
      using that[of e'] run False entry_max_spec[OF ok2 me] me e2f l2 by (simp add: store_stride_prefix[OF p])
  qed
qed

text \<open>The lengths a rebuild computes: the trunk's, and an upper bound of each decoded length.\<close>

definition decoded_lens :: "MDB_page \<Rightarrow> nat list" where
  "decoded_lens mp = (if NUMKEYS mp = 0 then []
     else ksize_at mp 0 # map (\<lambda>i. mdb_prefix_decoded_length (ksize_at mp 0) (key_at mp i)) [1..<NUMKEYS mp])"

lemma fold_lengths:
  "a \<le> n \<Longrightarrow> foldl (\<lambda>(l, m) i. (l(i := g (f i)), if f i > m then f i else m)) (l0, m0) [a..<n] =
    ((\<lambda>x. if a \<le> x \<and> x < n then g (f x) else l0 x), max m0 (list_max (map f [a..<n])))"
proof (induction n)
  case (Suc n)
  show ?case
  proof (cases "a = Suc n")
    case False
    then show ?thesis using Suc by (auto simp: fun_eq_iff max_def)
  qed (auto simp: fun_eq_iff)
qed auto

lemma decoded_length_le: "mdb_prefix_decoded_length n e \<le> n + length e"
  by (auto simp: mdb_prefix_decoded_length_def Let_def split: res.splits prod.splits)

lemma length_key_at [simp]: "length (key_at mp i) = ksize_at mp i"
  by (simp add: key_at_def NODEKEY_def)

lemma ksize_less: "mn_ksize m a < 65536"
  by (simp add: mn_ksize_def get16_less)

lemma decoded_lens_less: "x \<in> set (decoded_lens mp) \<Longrightarrow> x < 2 ^ 32"
proof -
  have "mdb_prefix_decoded_length (ksize_at mp 0) (key_at mp i) < 2 ^ 32" for i
    using decoded_length_le[of "ksize_at mp 0" "key_at mp i"] ksize_less[of "mp_mem mp" "NODEPTR mp 0"]
      ksize_less[of "mp_mem mp" "NODEPTR mp i"] by simp
  moreover have "ksize_at mp 0 < 2 ^ 32" using ksize_less[of "mp_mem mp" "NODEPTR mp 0"] by simp
  ultimately show "x \<in> set (decoded_lens mp) \<Longrightarrow> x < 2 ^ 32" by (auto simp: decoded_lens_def split: if_splits)
qed

lemma NUMKEYS_less: "NUMKEYS mp < 2 ^ 16"
proof -
  have "(int (mp_lower mp) - int PAGEHDRSZ) mod 65536 < 65536" by simp
  then have "u16_sub (mp_lower mp) PAGEHDRSZ < 65536" unfolding u16_sub_def by linarith
  then show ?thesis by (simp add: NUMKEYS_def)
qed

lemma entry_rebuild_spec:
  assumes p: "is_prefix_leaf prefix mp" "\<not> IS_SUBP mp" and g: "generation \<noteq> 0" and cap: "se_length_cap e < 2 ^ 32"
  shows "mdb_prefix_stride_entry_rebuild alloc prefix generation mp e = Some (Err ENOMEM) \<and> \<not> alloc \<or>
    (\<exists>e'. mdb_prefix_stride_entry_rebuild alloc prefix generation mp e =
        Some (Ok (mp\<lparr>mp_pad := min (list_max (decoded_lens mp)) 65535\<rparr>, e')) \<and>
      lens e' = decoded_lens mp \<and> entry_ok e' \<and> se_max_valid e' \<and> se_valid e' = generation \<and> se_pgno e' = se_pgno e)"
proof -
  let ?n = "NUMKEYS mp" and ?t = "ksize_at mp 0"
  let ?f = "\<lambda>i. mdb_prefix_decoded_length ?t (key_at mp i)"
  have need: "(if ?n > 0 then ?n else 1) < (2 ^ 32 :: nat)" using NUMKEYS_less[of mp] by simp
  have leaf: "\<not> (\<not> IS_LEAF mp \<or> IS_LEAF2 mp \<or> IS_SUBP mp)" using p by (simp add: is_prefix_leaf_def)
  obtain r where r: "mdb_prefix_stride_entry_reserve alloc e (if ?n > 0 then ?n else 1) = Some r"
    "r = Err ENOMEM \<and> \<not> alloc \<and> se_length_cap e < (if ?n > 0 then ?n else 1) \<or>
     (\<exists>n. r = Ok (e\<lparr>se_length_cap := n\<rparr>) \<and> (if ?n > 0 then ?n else 1) \<le> n \<and> se_length_cap e \<le> n \<and> n < 2 ^ 32)"
    by (rule reserve_spec[OF cap need]) blast
  from r(2) show ?thesis
  proof
    assume "r = Err ENOMEM \<and> \<not> alloc \<and> se_length_cap e < (if ?n > 0 then ?n else 1)"
    then show ?thesis
      using r(1) g leaf by (simp only: mdb_prefix_stride_entry_rebuild_def Let_def option.map bind_res_simps if_False simp_thms)
  next
    assume "\<exists>n. r = Ok (e\<lparr>se_length_cap := n\<rparr>) \<and> (if ?n > 0 then ?n else 1) \<le> n \<and> se_length_cap e \<le> n \<and> n < 2 ^ 32"
    then obtain n where n: "r = Ok (e\<lparr>se_length_cap := n\<rparr>)" "(if ?n > 0 then ?n else 1) \<le> n" "n < 2 ^ 32" by blast
    show ?thesis
    proof (cases "?n = 0")
      case True
      let ?e = "e\<lparr>se_length_cap := n, se_count := 0, se_max_len := 0, se_max_valid := True, se_valid := generation\<rparr>"
      have "mdb_prefix_stride_entry_rebuild alloc prefix generation mp e =
          Some (Ok (mdb_prefix_leaf_store_stride prefix mp 0, ?e))"
        using r(1) n(1) g leaf True
        by (simp add: mdb_prefix_stride_entry_rebuild_def Let_def del: de_Morgan_disj)
      moreover have "lens ?e = decoded_lens mp" "entry_ok ?e"
        using True n(3) by (simp_all add: lens_def decoded_lens_def entry_ok_def cells_def)
      ultimately show ?thesis by (auto simp: store_stride_prefix[OF p(1)] decoded_lens_def True)
    next
      case False
      define arr where "arr = (\<lambda>x. if 1 \<le> x \<and> x < ?n then mdb_prefix_stride_pack_length (?f x)
           else ((se_lengths e)(0 := mdb_prefix_stride_pack_length ?t)) x)"
      have m: "max ?t (list_max (map ?f [1..<?n])) = list_max (decoded_lens mp)"
        using False by (simp add: decoded_lens_def)
      let ?e = "e\<lparr>se_length_cap := n, se_count := ?n, se_lengths := arr, se_max_len := list_max (decoded_lens mp),
          se_max_valid := True, se_valid := generation\<rparr>"
      have fl: "foldl (\<lambda>(l, m) i. (l(i := mdb_prefix_stride_pack_length (?f i)), if ?f i > m then ?f i else m))
          ((se_lengths e)(0 := mdb_prefix_stride_pack_length ?t), ?t) [1..<?n] = (arr, list_max (decoded_lens mp))"
        using False fold_lengths[of 1 ?n mdb_prefix_stride_pack_length ?f "(se_lengths e)(0 := mdb_prefix_stride_pack_length ?t)" ?t]
        unfolding arr_def m by simp
      have "mdb_prefix_stride_entry_rebuild alloc prefix generation mp e =
          Some (Ok (mdb_prefix_leaf_store_stride prefix mp (list_max (decoded_lens mp)), ?e))"
        using r(1) n(1) g leaf False fl
        by (simp add: mdb_prefix_stride_entry_rebuild_def Let_def del: de_Morgan_disj One_nat_def)
      moreover have l: "lens ?e = decoded_lens mp"
      proof (rule nth_equalityI)
        have len: "length (decoded_lens mp) = ?n" using False by (simp add: decoded_lens_def)
        then show "length (lens ?e) = length (decoded_lens mp)" by simp
        fix i assume "i < length (lens ?e)"
        then have i: "i < ?n" by simp
        have v: "decoded_lens mp ! i = (if i = 0 then ?t else ?f i)"
          using i False by (auto simp: decoded_lens_def nth_Cons')
        have "decoded_lens mp ! i < 2 ^ 32" using i len by (intro decoded_lens_less[of _ mp]) simp
        with i v show "lens ?e ! i = decoded_lens mp ! i"
          by (auto simp: lens_def arr_def unat_pack split: if_splits)
      qed
      moreover have "entry_ok ?e" unfolding entry_ok_def l using n False by simp
      ultimately show ?thesis by (auto simp: store_stride_prefix[OF p(1)])
    qed
  qed
qed

section \<open>Preparing a page\<close>

text \<open>Changing an entry in place, with the page number kept, changes nothing else in the table.\<close>

lemma load_pgnos: "load es = length (filter (\<lambda>k. k \<noteq> P_INVALID) (map se_pgno es))"
  by (simp add: load_def filter_map o_def)

lemma table_ok_pgnos:
  assumes "map se_pgno es = map se_pgno es'" "table_ok es"
  shows "table_ok es'"
proof -
  have len: "length es' = length es" using assms(1) by (metis length_map)
  have nth: "se_pgno (es' ! i) = se_pgno (es ! i)" if "i < length es" for i
    using assms(1) that len by (metis nth_map)
  have pos: "0 < length es" using assms(2) by (auto simp: table_ok_def)
  then have pl: "probe (length es) k j < length es" for k j by (simp add: probe_less)
  show ?thesis
    using assms(2) unfolding table_ok_def chained_def keys_distinct_def len by (simp add: nth pl)
qed

lemma update_entry_ok:
  assumes ok: "cache_ok c" and i: "i < length (sc_entries c)" and e: "se_pgno e = se_pgno (sc_entries c ! i)"
    and v: "se_valid e \<le> sc_generation c"
  shows "cache_ok (c\<lparr>sc_entries := (sc_entries c)[i := e]\<rparr>)"
proof -
  have m: "map se_pgno ((sc_entries c)[i := e]) = map se_pgno (sc_entries c)"
    unfolding map_update e using i by (simp add: list_update_same_conv)
  have "occupied ((sc_entries c)[i := e]) \<subseteq> insert e (occupied (sc_entries c))"
    using set_update_subset_insert by (fastforce simp: occupied_def)
  then have "\<forall>x\<in>occupied ((sc_entries c)[i := e]). se_valid x \<le> sc_generation c"
    using ok v by (auto simp: cache_ok_def)
  moreover have "sc_entries c = [] \<or> table_ok ((sc_entries c)[i := e])"
    using ok table_ok_pgnos[OF m[symmetric]] by (auto simp: cache_ok_def)
  moreover have "load ((sc_entries c)[i := e]) = load (sc_entries c)" unfolding load_pgnos m ..
  ultimately show ?thesis using ok by (auto simp: cache_ok_def)
qed

text \<open>
  A prepared page has an entry of its number with as many lengths as the page has keys: one of this
  generation, or one just rebuilt from the page, with the page's stride set to its maximum.
\<close>

definition prepared :: "MDB_prefix_stride_cache \<Rightarrow> MDB_page \<Rightarrow> MDB_prefix_stride_cache \<Rightarrow> MDB_page \<Rightarrow> nat \<Rightarrow> bool" where
  "prepared c mp c' mp' i \<longleftrightarrow> cache_ok c' \<and> i < length (sc_entries c') \<and>
     (let e = sc_entries c' ! i in
        se_pgno e = word_of_nat (mp_pgno mp) \<and> se_valid e = sc_generation c' \<and> se_count e = NUMKEYS mp \<and>
        (mp' = mp \<and> stride_get (sc_entries c) (word_of_nat (mp_pgno mp)) = Some e \<or>
         mp' = mp\<lparr>mp_pad := min (list_max (decoded_lens mp)) 65535\<rparr> \<and> entry_ok e \<and> lens e = decoded_lens mp))"

lemma prepare_spec:
  assumes ok: "cache_ok c" and cap: "sc_capacity c \<le> 2 ^ 28"
    and pg: "word_of_nat (mp_pgno mp) \<noteq> P_INVALID"
    and leaf: "is_prefix_leaf prefix mp" "\<not> IS_SUBP mp"
    and small: "\<And>e. e \<in> occupied (sc_entries c) \<Longrightarrow> se_length_cap e < 2 ^ 32"
  shows "\<exists>c' r. mdb_prefix_stride_prepare alloc False prefix c mp = Some (c', r) \<and>
    (r = Err ENOMEM \<and> \<not> alloc \<or> (\<exists>mp' i. r = Ok (mp', Some i) \<and> prepared c mp c' mp' i))"
proof -
  let ?k = "word_of_nat (mp_pgno mp) :: u64"
  have cond: "\<not> (IS_SUBP mp \<or> False \<or> \<not> prefix \<or> \<not> IS_LEAF mp \<or> IS_LEAF2 mp)"
    using leaf by (simp add: is_prefix_leaf_def)
  obtain c1 r1 where acq: "mdb_prefix_stride_entry_acquire alloc c ?k = Some (c1, r1)" "acquired alloc c ?k c1 r1"
    using acquire_ok[OF ok cap pg] by blast
  have ok1: "cache_ok c1" using acq(2) by (simp add: acquired_def)
  show ?thesis
  proof (cases r1)
    case (Err e)
    then show ?thesis using acq cond by (simp add: mdb_prefix_stride_prepare_def acquired_def)
  next
    case Abort
    then show ?thesis using acq(2) by (simp add: acquired_def)
  next
    case (Ok i)
    define e where "e = sc_entries c1 ! i"
    have i: "i < length (sc_entries c1)" and get: "stride_get (sc_entries c1) ?k = Some e"
      and e: "e = (case stride_get (sc_entries c) ?k of None \<Rightarrow> zero_entry ?k | Some e \<Rightarrow> e)"
      and g: "sc_generation c1 \<noteq> 0"
      using acq(2) Ok by (auto simp: acquired_def e_def)
    have inv1: "sc_entries c1 = [] \<or> table_ok (sc_entries c1)" and inv: "sc_entries c = [] \<or> table_ok (sc_entries c)"
      using ok1 ok by (auto simp: cache_ok_def)
    have ek: "se_pgno e = ?k" "e \<in> occupied (sc_entries c1)"
      using stride.lookup_iff[OF inv1 pg, of e] get by simp_all
    have ecap: "se_length_cap e < 2 ^ 32"
      using e small stride.lookup_iff[OF inv pg] by (auto simp: zero_entry_def split: option.splits)
    show ?thesis
    proof (cases "se_valid e \<noteq> sc_generation c1 \<or> se_count e \<noteq> NUMKEYS mp")
      case False
      have "stride_get (sc_entries c) ?k = Some e"
      proof (cases "stride_get (sc_entries c) ?k")
        case None
        then have "se_valid e = 0" using e by (simp add: zero_entry_def)
        with False g show ?thesis by simp
      qed (use e in simp)
      moreover have "mdb_prefix_stride_prepare alloc False prefix c mp = Some (c1, Ok (mp, Some i))"
        using acq(1) Ok cond False by (simp add: mdb_prefix_stride_prepare_def Let_def flip: e_def)
      ultimately show ?thesis
        using ok1 i False ek by (auto simp: prepared_def Let_def simp flip: e_def)
    next
      case True
      let ?e0 = "e\<lparr>se_valid := 0\<rparr>"
      have run: "mdb_prefix_stride_prepare alloc False prefix c mp =
          (case mdb_prefix_stride_entry_rebuild alloc prefix (sc_generation c1) mp ?e0 of
             None \<Rightarrow> None
           | Some (Ok (mp, e)) \<Rightarrow> Some (c1\<lparr>sc_entries := (sc_entries c1)[i := e]\<rparr>, Ok (mp, Some i))
           | Some (Err x) \<Rightarrow> Some (c1\<lparr>sc_entries := (sc_entries c1)[i := ?e0]\<rparr>, Err x)
           | Some Abort \<Rightarrow> Some (c1, Abort))"
        using acq(1) Ok cond True by (simp add: mdb_prefix_stride_prepare_def Let_def flip: e_def)
      have cap0: "se_length_cap ?e0 < 2 ^ 32" using ecap by simp
      from entry_rebuild_spec[OF leaf g cap0, of alloc] show ?thesis
      proof
        assume "mdb_prefix_stride_entry_rebuild alloc prefix (sc_generation c1) mp ?e0 = Some (Err ENOMEM) \<and> \<not> alloc"
        then have rb: "mdb_prefix_stride_entry_rebuild alloc prefix (sc_generation c1) mp ?e0 = Some (Err ENOMEM)"
          and na: "\<not> alloc" by blast+
        show ?thesis unfolding run rb using na by simp
      next
        assume "\<exists>e'. mdb_prefix_stride_entry_rebuild alloc prefix (sc_generation c1) mp ?e0 =
            Some (Ok (mp\<lparr>mp_pad := min (list_max (decoded_lens mp)) 65535\<rparr>, e')) \<and>
          lens e' = decoded_lens mp \<and> entry_ok e' \<and> se_max_valid e' \<and> se_valid e' = sc_generation c1 \<and> se_pgno e' = se_pgno ?e0"
        then obtain e' where e': "mdb_prefix_stride_entry_rebuild alloc prefix (sc_generation c1) mp ?e0 =
            Some (Ok (mp\<lparr>mp_pad := min (list_max (decoded_lens mp)) 65535\<rparr>, e'))"
          "lens e' = decoded_lens mp" "entry_ok e'" "se_valid e' = sc_generation c1" "se_pgno e' = ?k"
          using ek by auto
        have "cache_ok (c1\<lparr>sc_entries := (sc_entries c1)[i := e']\<rparr>)"
          by (rule update_entry_ok[OF ok1 i]) (use e' ek in \<open>simp_all add: e_def\<close>)
        moreover have "se_count e' = NUMKEYS mp"
          using arg_cong[OF e'(2), of length] by (auto simp: decoded_lens_def split: if_splits)
        ultimately have "prepared c mp (c1\<lparr>sc_entries := (sc_entries c1)[i := e']\<rparr>)
            (mp\<lparr>mp_pad := min (list_max (decoded_lens mp)) 65535\<rparr>) i"
          using e' i by (simp add: prepared_def Let_def)
        then show ?thesis using run e'(1) by auto
      qed
    qed
  qed
qed

text \<open>The lengths are upper bounds of the keys that nodes store.\<close>

lemma decoded_lens_bound:
  assumes "NUMKEYS mp > 0" "key_at mp 0 = t" "\<And>i. 0 < i \<Longrightarrow> i < NUMKEYS mp \<Longrightarrow> key_at mp i = enc t (ks ! i)"
    and "ks ! 0 = t" "length ks = NUMKEYS mp" "\<And>i. i < NUMKEYS mp \<Longrightarrow> length (ks ! i) < 2 ^ 32"
    and i: "i < NUMKEYS mp"
  shows "length (ks ! i) \<le> decoded_lens mp ! i"
proof (cases "i = 0")
  case True
  then show ?thesis using assms(1,2,4) length_key_at[of mp 0] by (simp add: decoded_lens_def del: length_key_at)
next
  case False
  have t: "ksize_at mp 0 = length t" using assms(2) length_key_at[of mp 0] by simp
  have "length t < 2 ^ 63" using assms(6)[of 0] assms(1,4) by simp
  moreover have "length (ks ! i) < 2 ^ 63" using assms(6)[OF i] by simp
  ultimately have "length (ks ! i) \<le> mdb_prefix_decoded_length (length t) (enc t (ks ! i))"
    by (rule decoded_length_enc)
  moreover obtain j where "i = Suc j" using False by (cases i) auto
  moreover from this have "[Suc 0..<NUMKEYS mp] ! j = Suc j" using i by (simp add: nth_upt del: upt_Suc)
  ultimately show ?thesis using i assms(3)[of i] by (simp add: decoded_lens_def t del: upt_Suc)
qed

lemma sample_prefix_leaf: "is_prefix_leaf True sample_page" "\<not> IS_SUBP sample_page"
  by (simp_all add: is_prefix_leaf_def sample_page_def IS_LEAF_def IS_LEAF2_def IS_SUBP_def F_ISSET_def P_LEAF_def P_LEAF2_def P_SUBP_def)

section \<open>Properties\<close>

text \<open>The doubling loop of a scratch buffer always ends, never overflows, and leaves a buffer that is
  at least as large as asked for, as the baseline and as before; the request only fails without memory
  when the buffer is too small.\<close>

theorem ensure_bytes_terminates:
  assumes "0 < baseline" "baseline < 2 ^ 64" "have_size < 2 ^ 64" "required < 2 ^ 64"
  shows "\<exists>r. ensure_bytes alloc baseline have_size required = Some r \<and>
    (case r of Ok n \<Rightarrow> required \<le> n \<and> baseline \<le> n \<and> have_size \<le> n \<and> n < 2 ^ 64
     | Err e \<Rightarrow> e = ENOMEM \<and> \<not> alloc \<and> have_size < max required baseline
     | Abort \<Rightarrow> False)"
  by (rule ensure_bytes_spec[OF assms])

theorem ensure_bytes_terminates_witness:
  "\<exists>r. ensure_bytes True 4096 0 (2 ^ 64 - 1) = Some r \<and>
    (case r of Ok n \<Rightarrow> 2 ^ 64 - 1 \<le> n \<and> 4096 \<le> n \<and> 0 \<le> n \<and> n < 2 ^ 64
     | Err e \<Rightarrow> e = ENOMEM \<and> \<not> True \<and> (0::nat) < max (2 ^ 64 - 1) 4096
     | Abort \<Rightarrow> False)"
  by (rule ensure_bytes_terminates) simp_all

text \<open>Recording an insertion in a stride entry inserts the key's length at its position, keeps the
  entry's maximum exact and stores it as the page's stride; the page is otherwise untouched.\<close>

theorem stride_insert_exact:
  assumes "entry_ok e" "se_count e < 2 ^ 16" "keylen < 2 ^ 32" "indx \<le> se_count e" "is_prefix_leaf prefix mp"
  shows "mdb_prefix_stride_apply_insert alloc prefix e mp indx keylen = Some (Err ENOMEM) \<and> \<not> alloc \<or>
    (\<exists>e'. mdb_prefix_stride_apply_insert alloc prefix e mp indx keylen =
        Some (Ok (e', mp\<lparr>mp_pad := min (list_max (insert_at indx keylen (lens e))) 65535\<rparr>)) \<and>
      lens e' = insert_at indx keylen (lens e) \<and> entry_ok e' \<and> se_max_len e' = list_max (lens e'))"
  using apply_insert_spec[OF assms, of alloc] by (auto simp: entry_ok_def)

theorem stride_insert_exact_witness:
  "\<exists>e'. mdb_prefix_stride_apply_insert True True (zero_entry 5) sample_page 0 9 =
      Some (Ok (e', sample_page\<lparr>mp_pad := min (list_max (insert_at 0 9 (lens (zero_entry 5)))) 65535\<rparr>)) \<and>
    lens e' = insert_at 0 9 (lens (zero_entry 5)) \<and> entry_ok e' \<and> se_max_len e' = list_max (lens e')"
proof -
  have "entry_ok (zero_entry 5)" "se_count (zero_entry 5) = 0" by (simp_all add: entry_ok_def zero_entry_def lens_def cells_def)
  with stride_insert_exact[of "zero_entry 5" 9 0 True sample_page True] sample_prefix_leaf show ?thesis by simp
qed

text \<open>Recording a deletion removes the length at its position, recomputes the maximum when the longest
  key may be gone, and stores the exact maximum of the remaining keys as the page's stride.\<close>

theorem stride_delete_exact:
  assumes "entry_ok e" "indx < se_count e" "is_prefix_leaf prefix mp"
  shows "\<exists>e'. mdb_prefix_stride_apply_delete prefix e mp indx =
      (e', mp\<lparr>mp_pad := min (list_max (remove_at indx (lens e))) 65535\<rparr>) \<and>
    lens e' = remove_at indx (lens e) \<and> entry_ok e' \<and> se_max_len e' = list_max (lens e')"
  by (rule apply_delete_spec[OF assms]) (auto simp: entry_ok_def)

theorem stride_delete_exact_witness:
  "let e = (zero_entry 5)\<lparr>se_count := 2, se_length_cap := 2, se_lengths := (\<lambda>i. if i = 0 then 9 else 4), se_max_len := 9\<rparr> in
    \<exists>e'. mdb_prefix_stride_apply_delete True e sample_page 0 =
      (e', sample_page\<lparr>mp_pad := min (list_max (remove_at 0 (lens e))) 65535\<rparr>) \<and>
    lens e' = remove_at 0 (lens e) \<and> entry_ok e' \<and> se_max_len e' = list_max (lens e')"
  unfolding Let_def
  by (rule stride_delete_exact)
    (simp_all add: entry_ok_def zero_entry_def lens_def sample_prefix_leaf cells_def upt_rec)

text \<open>Preparing a prefix leaf page for an update always ends, and gives an entry of the page's number
  and of the current generation with one length per key: an entry that was already current, or one
  just rebuilt from the page, with the exact decoded lengths.\<close>

theorem stride_prepare_correct:
  assumes "cache_ok c" "sc_capacity c \<le> 2 ^ 28" "word_of_nat (mp_pgno mp) \<noteq> P_INVALID"
    "is_prefix_leaf prefix mp" "\<not> IS_SUBP mp" "\<forall>e\<in>occupied (sc_entries c). se_length_cap e < 2 ^ 32"
  shows "\<exists>c' r. mdb_prefix_stride_prepare alloc False prefix c mp = Some (c', r) \<and>
    (r = Err ENOMEM \<and> \<not> alloc \<or> (\<exists>mp' i. r = Ok (mp', Some i) \<and> prepared c mp c' mp' i))"
  by (rule prepare_spec[OF assms(1-5)]) (use assms(6) in blast)

theorem stride_prepare_correct_witness:
  "\<exists>c' mp' i. mdb_prefix_stride_prepare True False True \<lparr>sc_entries = [], sc_count = 0, sc_capacity = 0, sc_generation = 0\<rparr> sample_page =
      Some (c', Ok (mp', Some i)) \<and>
    prepared \<lparr>sc_entries = [], sc_count = 0, sc_capacity = 0, sc_generation = 0\<rparr> sample_page c' mp' i"
proof -
  have "word_of_nat (mp_pgno sample_page) \<noteq> P_INVALID" by (simp add: sample_page_def P_INVALID_def)
  then show ?thesis
    using stride_prepare_correct[OF cache_ok_empty, of sample_page True True] sample_prefix_leaf by (auto simp: occupied_def)
qed

end
