(* ===== verification/Counts.thy ===== *)
theory Counts
  imports Page
begin

text \<open>
  Entry counts (\<open>mdb.c\<close>). In a counted database every node of a branch page stores the number of
  entries under its child. This theory models how the counts of a page are added up, and how a change
  of a leaf is propagated along the cursor's path to the root. A path is the pages on the cursor's
  stack by level, with the cursor's index in each.
\<close>

section \<open>The count of one page\<close>

definition mdb_leaf_count :: "MDB_page \<Rightarrow> u64" where
  "mdb_leaf_count mp = word_of_nat (NUMKEYS mp)"

definition mdb_branch_sum :: "MDB_page \<Rightarrow> u64" where
  "mdb_branch_sum mp =
     (if \<not> IS_BRANCH mp \<or> \<not> IS_COUNTED mp then 0
      else foldl (\<lambda>total i. total + mdb_node_get_count mp (NODEPTR mp i)) 0 [0..<NUMKEYS mp])"

text \<open>\<open>md_entries\<close> of the \<open>MDB_db\<close> at address \<open>a\<close>, and the number of keys of the sub-page at address \<open>a\<close>.\<close>

definition md_entries_at :: "mem \<Rightarrow> nat \<Rightarrow> u64" where
  "md_entries_at m a = word_of_nat (le_nat (mem_read m (a + 32) 8))"

definition sub_numkeys_at :: "mem \<Rightarrow> nat \<Rightarrow> nat" where
  "sub_numkeys_at m a = u16_sub (get16 m (a + 12)) PAGEHDRSZ div 2"

definition mdb_leaf_entry_contribution :: "MDB_page \<Rightarrow> nat \<Rightarrow> u64" where
  "mdb_leaf_entry_contribution mp node =
     (if IS_LEAF2 mp then 1
      else if \<not> IS_LEAF mp then 0
      else if mn_flags (mp_mem mp) node AND F_DUPDATA = 0 then 1
      else if mn_flags (mp_mem mp) node AND F_SUBDATA \<noteq> 0 then md_entries_at (mp_mem mp) (NODEDATA_at mp node)
      else word_of_nat (sub_numkeys_at (mp_mem mp) (NODEDATA_at mp node)))"

text \<open>The running totals of \<open>mdb_leaf_prefix_contribution\<close>, without the cursor's leaf cache.\<close>

definition mdb_leaf_prefix_contribution :: "MDB_page \<Rightarrow> nat \<Rightarrow> u64" where
  "mdb_leaf_prefix_contribution mp limit =
     (if \<not> IS_LEAF mp \<and> \<not> IS_LEAF2 mp then 0
      else
        let count = NUMKEYS mp; limit = (if limit > count then count else limit) in
        if IS_LEAF2 mp then word_of_nat limit
        else if limit = 0 then 0
        else foldl (\<lambda>total i. total + mdb_leaf_entry_contribution mp (NODEPTR mp i)) 0 [0..<limit])"

definition mdb_leaf_contribution :: "MDB_page \<Rightarrow> u64" where
  "mdb_leaf_contribution mp =
     (if IS_LEAF2 mp then mdb_leaf_count mp
      else if \<not> IS_LEAF mp then 0
      else foldl (\<lambda>total i. total + mdb_leaf_entry_contribution mp (NODEPTR mp i)) 0 [0..<NUMKEYS mp])"

definition mdb_page_subtree_count :: "MDB_page \<Rightarrow> u64" where
  "mdb_page_subtree_count mp =
     (if IS_LEAF mp \<or> IS_LEAF2 mp then mdb_leaf_contribution mp
      else if IS_BRANCH mp \<and> IS_COUNTED mp then mdb_branch_sum mp
      else 0)"

section \<open>Propagating a change\<close>

text \<open>\<open>(int64_t)v\<close>; a sum of such values that leaves the 64-bit range is undefined in C and wraps here.\<close>

definition s64 :: "u64 \<Rightarrow> int" where
  "s64 v = sint v"

fun update_parent_loop :: "MDB_page \<Rightarrow> nat \<Rightarrow> u64 \<Rightarrow> nat \<Rightarrow> nat \<Rightarrow> MDB_page \<times> int" where
  "update_parent_loop parent child_pgno tot i 0 = (parent, 0)"
| "update_parent_loop parent child_pgno tot i (Suc n) =
     (let node = NODEPTR parent i in
      if NODEPGNO parent node = child_pgno then
        let before = mdb_node_get_count parent node in
        (if before \<noteq> tot then mdb_node_set_count parent node tot else parent, s64 tot - s64 before)
      else update_parent_loop parent child_pgno tot (i + 1) n)"

definition mdb_update_parent_count :: "MDB_page option \<Rightarrow> nat \<Rightarrow> u64 \<Rightarrow> MDB_page option \<times> int" where
  "mdb_update_parent_count parent child_pgno tot =
     (case parent of
        None \<Rightarrow> (None, 0)
      | Some p \<Rightarrow>
          if \<not> IS_BRANCH p \<or> \<not> IS_COUNTED p then (Some p, 0)
          else case update_parent_loop p child_pgno tot 0 (NUMKEYS p) of (p', d) \<Rightarrow> (Some p', d))"

text \<open>\<open>for (i = level; i >= 0; --i)\<close>, with \<open>n\<close> the number of levels left, so \<open>i = n - 1\<close>.\<close>

fun propagate_loop :: "(nat \<Rightarrow> MDB_page option) \<Rightarrow> (nat \<Rightarrow> nat) \<Rightarrow> nat \<Rightarrow> int \<Rightarrow> (nat \<Rightarrow> MDB_page option)" where
  "propagate_loop pages indices 0 delta = pages"
| "propagate_loop pages indices (Suc i) delta =
     (case pages i of
        None \<Rightarrow> pages
      | Some parent \<Rightarrow>
          if \<not> IS_BRANCH parent \<or> \<not> IS_COUNTED parent then propagate_loop pages indices i delta
          else
            let idx = indices i in
            if idx \<ge> NUMKEYS parent then propagate_loop pages indices i delta
            else
              let node = NODEPTR parent idx;
                  acc = s64 (mdb_node_get_count parent node) + delta;
                  acc = (if acc < 0 then 0 else acc)
              in propagate_loop (pages(i := Some (mdb_node_set_count parent node (word_of_int acc)))) indices i delta)"

definition mdb_propagate_count_delta_path ::
    "(nat \<Rightarrow> MDB_page option) \<Rightarrow> (nat \<Rightarrow> nat) \<Rightarrow> nat \<Rightarrow> int \<Rightarrow> (nat \<Rightarrow> MDB_page option)" where
  "mdb_propagate_count_delta_path pages indices levels delta =
     (if delta = 0 then pages else propagate_loop pages indices levels delta)"

text \<open>
  \<open>counted\<close> is \<open>MDB_COUNTED\<close> of the database. The first result of \<open>slot_adjust\<close> is \<open>None\<close> when the
  code returns at once.
\<close>

definition slot_adjust ::
    "MDB_page \<Rightarrow> nat \<Rightarrow> MDB_page \<Rightarrow> bool \<Rightarrow> int \<Rightarrow> (MDB_page \<times> int) option" where
  "slot_adjust parent node leaf split_performed value_delta =
     (let before = mdb_node_get_count parent node in
      if \<not> split_performed \<and> value_delta = 0 then None
      else
        let after = (if \<not> split_performed
              then let tmp = s64 before + value_delta in word_of_int (if tmp < 0 then 0 else tmp)
              else mdb_page_subtree_count leaf)
        in Some (if after \<noteq> before then mdb_node_set_count parent node after else parent, s64 after - s64 before))"

definition mdb_adjust_counted_parents ::
    "bool \<Rightarrow> nat \<Rightarrow> (nat \<Rightarrow> MDB_page option) \<Rightarrow> (nat \<Rightarrow> nat) \<Rightarrow> MDB_page option \<Rightarrow> bool \<Rightarrow> int \<Rightarrow> (nat \<Rightarrow> MDB_page option)" where
  "mdb_adjust_counted_parents counted mc_top mc_pg mc_ki leaf split_performed value_delta =
     (case leaf of
        None \<Rightarrow> mc_pg
      | Some leaf \<Rightarrow>
          if \<not> counted \<or> mc_top = 0 then mc_pg
          else
            let level = mc_top - 1; idx = mc_ki level;
                unmatched = (\<lambda>_ :: unit.
                  case mdb_update_parent_count (mc_pg level) (mp_pgno leaf) (mdb_page_subtree_count leaf) of
                    (parent', diff) \<Rightarrow>
                      let diff = (if diff = 0 \<and> value_delta \<noteq> 0 then value_delta else diff)
                      in mdb_propagate_count_delta_path (mc_pg(level := parent')) mc_ki level diff)
            in case mc_pg level of
                 None \<Rightarrow> unmatched ()
               | Some parent \<Rightarrow>
                   if IS_BRANCH parent \<and> IS_COUNTED parent \<and> idx < NUMKEYS parent \<and>
                      NODEPGNO parent (NODEPTR parent idx) = mp_pgno leaf
                   then case slot_adjust parent (NODEPTR parent idx) leaf split_performed value_delta of
                          None \<Rightarrow> mc_pg
                        | Some (parent', diff) \<Rightarrow>
                            mdb_propagate_count_delta_path (mc_pg(level := Some parent')) mc_ki level diff
                   else unmatched ())"

section \<open>Sums\<close>

lemma foldl_sum: "foldl (\<lambda>t i. t + f i) a [0..<n] = a + (\<Sum>i<n. f i)" for f :: "nat \<Rightarrow> u64"
  by (induction n) (simp_all add: add_ac)

lemma branch_sum_sum: "counted_branch mp \<Longrightarrow> mdb_branch_sum mp = (\<Sum>i<NUMKEYS mp. mdb_node_get_count mp (NODEPTR mp i))"
  by (simp add: mdb_branch_sum_def counted_branch_def foldl_sum)

lemma leaf_contribution_sum:
  "IS_LEAF mp \<Longrightarrow> \<not> IS_LEAF2 mp \<Longrightarrow>
   mdb_leaf_contribution mp = (\<Sum>i<NUMKEYS mp. mdb_leaf_entry_contribution mp (NODEPTR mp i))"
  by (simp add: mdb_leaf_contribution_def foldl_sum)

lemma leaf_prefix_contribution_sum:
  assumes "IS_LEAF mp"
  shows "mdb_leaf_prefix_contribution mp limit = (\<Sum>i<min limit (NUMKEYS mp). mdb_leaf_entry_contribution mp (NODEPTR mp i))"
proof (cases "IS_LEAF2 mp")
  case True
  then show ?thesis
    using assms by (auto simp: mdb_leaf_prefix_contribution_def mdb_leaf_entry_contribution_def min_def)
next
  case False
  then show ?thesis
    using assms by (auto simp: mdb_leaf_prefix_contribution_def foldl_sum min_def Let_def)
qed

section \<open>Setting one count\<close>

text \<open>Writing the count of one node of a counted branch page touches no other field of any node.\<close>

lemma set_count_fields [simp]:
  "mp_flags (mdb_node_set_count mp node v) = mp_flags mp" "mp_lower (mdb_node_set_count mp node v) = mp_lower mp"
  "mp_upper (mdb_node_set_count mp node v) = mp_upper mp" "mp_ptrs (mdb_node_set_count mp node v) = mp_ptrs mp"
  "mp_pgno (mdb_node_set_count mp node v) = mp_pgno mp" "mp_pad (mdb_node_set_count mp node v) = mp_pad mp"
  "NUMKEYS (mdb_node_set_count mp node v) = NUMKEYS mp" "NODEPTR (mdb_node_set_count mp node v) i = NODEPTR mp i"
  "IS_BRANCH (mdb_node_set_count mp node v) = IS_BRANCH mp" "IS_COUNTED (mdb_node_set_count mp node v) = IS_COUNTED mp"
  "IS_LEAF (mdb_node_set_count mp node v) = IS_LEAF mp" "IS_LEAF2 (mdb_node_set_count mp node v) = IS_LEAF2 mp"
  "counted_branch (mdb_node_set_count mp node v) = counted_branch mp"
  by (simp_all add: mdb_node_set_count_def NUMKEYS_def NODEPTR_def IS_BRANCH_def IS_COUNTED_def IS_LEAF_def IS_LEAF2_def
      counted_branch_def)

lemma counted_node_size: "counted_branch mp \<Longrightarrow> 16 \<le> node_size mp node"
  unfolding node_size_def counted_branch_def Let_def
  using EVEN_ge[of "NODESIZE + EVEN (mn_ksize (mp_mem mp) node) + 8"]
  by (auto simp: NODESIZE_def intro: order_trans[OF _ EVEN_ge])

lemma set_count_others:
  assumes wf: "page_wf psize mp" and c: "counted_branch mp" and i: "i < NUMKEYS mp" and j: "j < NUMKEYS mp"
  shows "mem_read (mp_mem (mdb_node_set_count mp (NODEPTR mp i) v)) (NODEPTR mp j) 8 = mem_read (mp_mem mp) (NODEPTR mp j) 8"
    and "mdb_node_get_count (mdb_node_set_count mp (NODEPTR mp i) v) (NODEPTR mp j) =
      (if j = i then v else mdb_node_get_count mp (NODEPTR mp j))"
proof -
  let ?a = "NODEPTR mp i" and ?b = "NODEPTR mp j"
  have m: "mp_mem (mdb_node_set_count mp ?a v) = mem_write (mp_mem mp) (?a + 8) (le_bytes 8 (unat v))"
    using c by (simp add: mdb_node_set_count_def counted_branch_def NODESIZE_def)
  have sz: "16 \<le> node_size mp ?a" "16 \<le> node_size mp ?b" using counted_node_size[OF c] by simp_all
  have apart: "?a + 16 \<le> ?b \<or> ?b + 16 \<le> ?a" if "j \<noteq> i"
    using slots_wfD(9)[OF wf[unfolded page_wf_def] i j] that sz by (auto simp: NODEPTR_def)
  show "mem_read (mp_mem (mdb_node_set_count mp ?a v)) ?b 8 = mem_read (mp_mem mp) ?b 8"
    unfolding m by (rule mem_read_write_other) (use apart in \<open>cases "j = i"; auto\<close>)
  show "mdb_node_get_count (mdb_node_set_count mp ?a v) ?b = (if j = i then v else mdb_node_get_count mp ?b)"
  proof (cases "j = i")
    case True
    then show ?thesis using get_set_count[OF c] by simp
  next
    case False
    have "mem_read (mp_mem (mdb_node_set_count mp ?a v)) (?b + 8) 8 = mem_read (mp_mem mp) (?b + 8) 8"
      unfolding m by (rule mem_read_write_other) (use apart[OF False] in auto)
    then show ?thesis using False by (simp add: mdb_node_get_count_def NODESIZE_def)
  qed
qed

lemma header_fields_cong:
  assumes "mem_read m a 8 = mem_read m' b 8"
  shows "mn_lo m a = mn_lo m' b" "mn_hi m a = mn_hi m' b" "mn_flags m a = mn_flags m' b" "mn_ksize m a = mn_ksize m' b"
  using get16_cong[OF assms, of 0] get16_cong[OF assms, of 2] get16_cong[OF assms, of 4] get16_cong[OF assms, of 6]
  by (simp_all add: mn_lo_def mn_hi_def mn_flags_def mn_ksize_def)

lemma set_count_wf:
  fixes v :: u64 and mp :: MDB_page and i :: nat
  assumes wf: "page_wf psize mp" and c: "counted_branch mp" and i: "i < NUMKEYS mp"
  defines "mp' \<equiv> mdb_node_set_count mp (NODEPTR mp i) v"
  shows "page_wf psize mp'" "\<And>j. j < NUMKEYS mp \<Longrightarrow> NODEPGNO mp' (NODEPTR mp j) = NODEPGNO mp (NODEPTR mp j)"
    "mdb_branch_sum mp' = mdb_branch_sum mp - mdb_node_get_count mp (NODEPTR mp i) + v"
proof -
  note O = set_count_others[OF wf c i, of _ v, folded mp'_def]
  show "NODEPGNO mp' (NODEPTR mp j) = NODEPGNO mp (NODEPTR mp j)" if "j < NUMKEYS mp" for j
    using header_fields_cong[OF O(1)[OF that]] by (simp add: NODEPGNO_def)
  have "node_size mp' (mp_ptrs mp' j) = node_size mp (mp_ptrs mp j)" if "j < NUMKEYS mp" for j
    by (rule node_size_cong) (use O(1)[OF that] in \<open>simp_all add: mp'_def NODEPTR_def\<close>)
  then show "page_wf psize mp'"
    using wf by (simp add: page_wf_def slots_wf_def) (simp add: mp'_def)
  let ?f = "\<lambda>j. mdb_node_get_count mp (NODEPTR mp j)"
  have "mdb_branch_sum mp' = (\<Sum>j<NUMKEYS mp. if j = i then v else ?f j)"
    using c O(2) by (subst branch_sum_sum) (auto simp: mp'_def)
  also have "\<dots> = (\<Sum>j\<in>{..<NUMKEYS mp} - {i}. ?f j) + v"
    using i by (subst sum.remove[of _ i]) (auto intro!: sum.cong)
  also have "(\<Sum>j\<in>{..<NUMKEYS mp} - {i}. ?f j) = mdb_branch_sum mp - ?f i"
    using i c by (simp add: branch_sum_sum sum_diff1)
  finally show "mdb_branch_sum mp' = mdb_branch_sum mp - ?f i + v" .
qed

section \<open>The counts along a path\<close>

text \<open>
  A path from the root: level \<open>l\<close> holds a counted branch page whose node at the cursor's index points
  to the page of level \<open>l + 1\<close>. The counts are right when each of these nodes stores the count of the
  page below.
\<close>

definition path_ok :: "nat \<Rightarrow> nat \<Rightarrow> (nat \<Rightarrow> MDB_page option) \<Rightarrow> (nat \<Rightarrow> nat) \<Rightarrow> bool" where
  "path_ok psize tp pg ki \<longleftrightarrow>
     (\<forall>l<tp. \<exists>p c. pg l = Some p \<and> pg (Suc l) = Some c \<and> page_wf psize p \<and> counted_branch p \<and> \<not> IS_LEAF p \<and> \<not> IS_LEAF2 p \<and>
        ki l < NUMKEYS p \<and> NODEPGNO p (NODEPTR p (ki l)) = mp_pgno c)"

definition count_ok_at :: "(nat \<Rightarrow> MDB_page option) \<Rightarrow> (nat \<Rightarrow> nat) \<Rightarrow> nat \<Rightarrow> bool" where
  "count_ok_at pg ki l \<longleftrightarrow>
     mdb_node_get_count (the (pg l)) (NODEPTR (the (pg l)) (ki l)) = mdb_page_subtree_count (the (pg (Suc l)))"

definition counts_ok :: "nat \<Rightarrow> (nat \<Rightarrow> MDB_page option) \<Rightarrow> (nat \<Rightarrow> nat) \<Rightarrow> bool" where
  "counts_ok tp pg ki \<longleftrightarrow> (\<forall>l<tp. count_ok_at pg ki l)"

lemma s64_small: "unat v < 2 ^ 63 \<Longrightarrow> s64 v = int (unat v)"
proof -
  assume "unat v < 2 ^ 63"
  then have "int (unat v) < int (2 ^ 63)" by (simp only: of_nat_less_iff)
  then have "uint v < 2 ^ 63" by (simp only: uint_nat of_nat_power of_nat_numeral)
  then have "signed_take_bit 63 (uint v) = uint v" by (intro signed_take_bit_int_eq_self) (auto intro: order_trans[OF _ uint_ge_0])
  then have "s64 v = uint v" by (simp add: s64_def sint_uint)
  then show "s64 v = int (unat v)" by (simp only: uint_nat)
qed

lemma word_of_int_add: "s64 v + d \<ge> 0 \<Longrightarrow> word_of_int (if s64 v + d < 0 then 0 else s64 v + d) = v + word_of_int d"
  by (simp add: s64_def)

lemma subtree_branch: "counted_branch p \<Longrightarrow> \<not> IS_LEAF p \<Longrightarrow> \<not> IS_LEAF2 p \<Longrightarrow> mdb_page_subtree_count p = mdb_branch_sum p"
  by (simp add: mdb_page_subtree_count_def counted_branch_def)

text \<open>
  Changing the count at one level by \<open>delta\<close> changes the page's own count by \<open>delta\<close>, so the loop
  restores the counts of the levels above.
\<close>

lemma count_ok_at_cong:
  "pg l = pg' l \<Longrightarrow> pg (Suc l) = pg' (Suc l) \<Longrightarrow> count_ok_at pg ki l = count_ok_at pg' ki l"
  by (simp add: count_ok_at_def)

lemma path_update:
  assumes path: "path_ok psize tp pg ki" and l: "l < tp" and p: "pg l = Some p"
  shows "path_ok psize tp (pg(l := Some (mdb_node_set_count p (NODEPTR p (ki l)) v))) ki"
proof -
  let ?p' = "mdb_node_set_count p (NODEPTR p (ki l)) v"
  have P: "page_wf psize p" "counted_branch p" "\<not> IS_LEAF p" "\<not> IS_LEAF2 p" "ki l < NUMKEYS p"
    and C: "\<exists>c. pg (Suc l) = Some c \<and> NODEPGNO p (NODEPTR p (ki l)) = mp_pgno c"
    using path l p unfolding path_ok_def by fastforce+
  note W = set_count_wf[OF P(1,2,5), where v = v]
  show ?thesis
    unfolding path_ok_def
  proof (intro allI impI)
    fix k assume k: "k < tp"
    then obtain q c where q: "pg k = Some q" "pg (Suc k) = Some c" "page_wf psize q" "counted_branch q" "\<not> IS_LEAF q" "\<not> IS_LEAF2 q"
      "ki k < NUMKEYS q" "NODEPGNO q (NODEPTR q (ki k)) = mp_pgno c"
      using path unfolding path_ok_def by blast
    consider "k = l" | "Suc k = l" | "k \<noteq> l" "Suc k \<noteq> l" by blast
    then show "\<exists>p c. (pg(l := Some ?p')) k = Some p \<and> (pg(l := Some ?p')) (Suc k) = Some c \<and> page_wf psize p \<and>
        counted_branch p \<and> \<not> IS_LEAF p \<and> \<not> IS_LEAF2 p \<and> ki k < NUMKEYS p \<and> NODEPGNO p (NODEPTR p (ki k)) = mp_pgno c"
    proof cases
      case 1
      then show ?thesis using W(1,2) P C q by (intro exI[of _ ?p'] exI[of _ c]) simp
    next
      case 2
      then show ?thesis using q p by (intro exI[of _ q] exI[of _ ?p']) simp
    next
      case 3
      then show ?thesis using q by (intro exI[of _ q] exI[of _ c]) simp
    qed
  qed
qed

lemma propagate_loop_ok:
  assumes path: "path_ok psize tp pg ki" and n: "n < tp"
    and above: "\<forall>l<n. l + 1 < n \<longrightarrow> count_ok_at pg ki l"
    and at: "\<forall>l. Suc l = n \<longrightarrow> mdb_node_get_count (the (pg l)) (NODEPTR (the (pg l)) (ki l)) + word_of_int delta =
      mdb_page_subtree_count (the (pg n))"
    and below: "\<forall>l. n \<le> l \<longrightarrow> l < tp \<longrightarrow> count_ok_at pg ki l"
    and nonneg: "\<forall>l<n. 0 \<le> s64 (mdb_node_get_count (the (pg l)) (NODEPTR (the (pg l)) (ki l))) + delta"
  shows "path_ok psize tp (propagate_loop pg ki n delta) ki \<and> counts_ok tp (propagate_loop pg ki n delta) ki \<and>
    propagate_loop pg ki n delta tp = pg tp"
  using assms
proof (induction n arbitrary: pg)
  case 0
  then show ?case by (auto simp: counts_ok_def)
next
  case (Suc n)
  obtain p c where p: "pg n = Some p" "pg (Suc n) = Some c" "page_wf psize p" "counted_branch p" "\<not> IS_LEAF p" "\<not> IS_LEAF2 p"
    "ki n < NUMKEYS p"
    using Suc.prems(1,2) unfolding path_ok_def by (meson Suc_lessD)
  let ?node = "NODEPTR p (ki n)"
  let ?old = "mdb_node_get_count p ?node"
  define p' where "p' = mdb_node_set_count p ?node (?old + word_of_int delta)"
  define pg' where "pg' = pg(n := Some p')"
  have nn: "0 \<le> s64 ?old + delta" using Suc.prems(6) p(1) by (metis lessI option.sel)
  have step: "propagate_loop pg ki (Suc n) delta = propagate_loop pg' ki n delta"
    using p(1,4,7) word_of_int_add[OF nn] unfolding pg'_def p'_def counted_branch_def
    by (simp add: Let_def)
  have get: "mdb_node_get_count p' ?node = ?old + word_of_int delta"
    unfolding p'_def using get_set_count[OF p(4)] .
  have sub: "mdb_page_subtree_count p' = mdb_page_subtree_count p + word_of_int delta"
    using set_count_wf(3)[OF p(3,4,7), where v = "?old + word_of_int delta"] p(4-6) by (simp add: p'_def subtree_branch)
  have "path_ok psize tp (propagate_loop pg' ki n delta) ki \<and> counts_ok tp (propagate_loop pg' ki n delta) ki \<and>
      propagate_loop pg' ki n delta tp = pg' tp"
  proof (rule Suc.IH)
    show "path_ok psize tp pg' ki"
      unfolding pg'_def p'_def using path_update[OF Suc.prems(1) _ p(1)] Suc.prems(2) by simp
    show "n < tp" using Suc.prems(2) by simp
    show "\<forall>l<n. l + 1 < n \<longrightarrow> count_ok_at pg' ki l"
    proof (intro allI impI)
      fix l assume l: "l < n" "l + 1 < n"
      then have "count_ok_at pg ki l" using Suc.prems(3) by simp
      then show "count_ok_at pg' ki l" using l count_ok_at_cong[of pg l pg' ki] by (simp add: pg'_def)
    qed
    show "\<forall>l. Suc l = n \<longrightarrow> mdb_node_get_count (the (pg' l)) (NODEPTR (the (pg' l)) (ki l)) + word_of_int delta =
        mdb_page_subtree_count (the (pg' n))"
    proof (intro allI impI)
      fix l assume l: "Suc l = n"
      then have "count_ok_at pg ki l" using Suc.prems(3) by auto
      then show "mdb_node_get_count (the (pg' l)) (NODEPTR (the (pg' l)) (ki l)) + word_of_int delta =
          mdb_page_subtree_count (the (pg' n))"
        using l p(1) sub by (auto simp: pg'_def count_ok_at_def)
    qed
    show "\<forall>l. n \<le> l \<longrightarrow> l < tp \<longrightarrow> count_ok_at pg' ki l"
    proof (intro allI impI)
      fix l assume l: "n \<le> l" "l < tp"
      show "count_ok_at pg' ki l"
      proof (cases "l = n")
        case True
        have "?old + word_of_int delta = mdb_page_subtree_count c" using Suc.prems(4) p(1,2) by (metis option.sel)
        then show ?thesis using True p(2) get by (simp add: count_ok_at_def pg'_def p'_def)
      next
        case False
        then have "count_ok_at pg ki l" using Suc.prems(5) l by simp
        then show ?thesis using False l count_ok_at_cong[of pg l pg' ki] by (simp add: pg'_def)
      qed
    qed
    show "\<forall>l<n. 0 \<le> s64 (mdb_node_get_count (the (pg' l)) (NODEPTR (the (pg' l)) (ki l))) + delta"
      using Suc.prems(6) by (simp add: pg'_def)
  qed
  moreover have "pg' tp = pg tp" using Suc.prems(2) by (simp add: pg'_def)
  ultimately show ?case unfolding step by simp
qed

text \<open>The counts after a leaf has changed from \<open>pg tp\<close> to \<open>leaf\<close>, by \<open>delta\<close> entries.\<close>

lemma slot_adjust_eq:
  assumes d: "delta \<noteq> 0" and b: "mdb_node_get_count p node = b" and new: "s64 (mdb_page_subtree_count leaf) = s64 b + delta"
    and nn: "0 \<le> s64 b + delta"
  shows "slot_adjust p node leaf split_performed delta = Some (mdb_node_set_count p node (b + word_of_int delta), delta)"
proof -
  let ?c = "mdb_page_subtree_count leaf"
  have c: "b + word_of_int delta = ?c"
    using arg_cong[OF new, of "word_of_int :: int \<Rightarrow> u64"] by (simp add: s64_def)
  have "word_of_int (s64 b + delta) = ?c" using c by (simp add: s64_def)
  moreover have "?c \<noteq> b" using new d by auto
  ultimately show ?thesis
    using d b new nn c by (simp add: slot_adjust_def Let_def)
qed

lemma adjust_counted_parents_ok:
  fixes split_performed :: bool
  assumes path: "path_ok psize tp pg ki" and counts: "counts_ok tp pg ki" and tp: "0 < tp" and old: "pg tp = Some old"
    and pgno: "mp_pgno leaf = mp_pgno old"
    and new: "s64 (mdb_page_subtree_count leaf) = s64 (mdb_page_subtree_count old) + delta"
    and nonneg: "\<forall>l<tp. 0 \<le> s64 (mdb_node_get_count (the (pg l)) (NODEPTR (the (pg l)) (ki l))) + delta"
  defines "pg' \<equiv> mdb_adjust_counted_parents True tp (pg(tp := Some leaf)) ki (Some leaf) split_performed delta"
  shows "path_ok psize tp pg' ki \<and> counts_ok tp pg' ki \<and> pg' tp = Some leaf"
proof -
  obtain k where k: "tp = Suc k" using tp by (cases tp) auto
  obtain p c where p: "pg k = Some p" "pg (Suc k) = Some c" "page_wf psize p" "counted_branch p" "\<not> IS_LEAF p" "\<not> IS_LEAF2 p"
    "ki k < NUMKEYS p" "NODEPGNO p (NODEPTR p (ki k)) = mp_pgno c"
    using path k unfolding path_ok_def by blast
  have c: "c = old" using p(2) old k by simp
  let ?node = "NODEPTR p (ki k)"
  let ?pg1 = "pg(tp := Some leaf)"
  have b: "mdb_node_get_count p ?node = mdb_page_subtree_count old"
    using counts p(1,2) c k by (auto simp: counts_ok_def count_ok_at_def)
  have path1: "path_ok psize tp ?pg1 ki"
    using path pgno old unfolding path_ok_def by (fastforce simp: less_Suc_eq k)
  have p1: "?pg1 k = Some p" using p(1) k by simp
  have run: "pg' = (case slot_adjust p ?node leaf split_performed delta of None \<Rightarrow> ?pg1
      | Some (parent', diff) \<Rightarrow> mdb_propagate_count_delta_path (?pg1(k := Some parent')) ki k diff)"
  proof -
    have k1: "tp - 1 = k" using k by simp
    show ?thesis
      unfolding pg'_def mdb_adjust_counted_parents_def Let_def k1 using p tp p1 pgno c by (simp add: counted_branch_def)
  qed
  show ?thesis
  proof (cases "delta = 0")
    case True
    have s: "mdb_page_subtree_count leaf = mdb_page_subtree_count old"
      using arg_cong[OF new, of "word_of_int :: int \<Rightarrow> u64"] True by (simp add: s64_def)
    have same: "?pg1(k := Some p) = ?pg1" using p1 by (simp add: fun_upd_idem)
    have "slot_adjust p ?node leaf split_performed delta = (if split_performed then Some (p, 0) else None)"
      using True s b by (simp add: slot_adjust_def Let_def)
    then have "pg' = ?pg1" unfolding run using same by (simp add: mdb_propagate_count_delta_path_def)
    moreover have "counts_ok tp ?pg1 ki"
      using counts s old k by (auto simp: counts_ok_def count_ok_at_def less_Suc_eq)
    ultimately show ?thesis using path1 by simp
  next
    case False
    define p' where "p' = mdb_node_set_count p ?node (mdb_page_subtree_count old + word_of_int delta)"
    have nn: "0 \<le> s64 (mdb_page_subtree_count old) + delta" using nonneg k p(1) b by (metis lessI option.sel)
    have pg': "pg' = propagate_loop (?pg1(k := Some p')) ki k delta"
      unfolding run slot_adjust_eq[OF False b new nn] using False by (simp add: p'_def mdb_propagate_count_delta_path_def)
    have sub: "mdb_page_subtree_count p' = mdb_page_subtree_count p + word_of_int delta"
      using set_count_wf(3)[OF p(3,4,7), where v = "mdb_page_subtree_count old + word_of_int delta"] p(4-6) b
      by (simp add: p'_def subtree_branch)
    have leaf: "mdb_page_subtree_count leaf = mdb_page_subtree_count old + word_of_int delta"
      using arg_cong[OF new, of "word_of_int :: int \<Rightarrow> u64"] by (simp add: s64_def)
    have get: "mdb_node_get_count p' ?node = mdb_page_subtree_count leaf"
      unfolding p'_def leaf using get_set_count[OF p(4)] .
    let ?pg2 = "?pg1(k := Some p')"
    have below_k: "?pg2 l = pg l" if "l < k" for l using that k by simp
    have "path_ok psize tp (propagate_loop ?pg2 ki k delta) ki \<and> counts_ok tp (propagate_loop ?pg2 ki k delta) ki \<and>
        propagate_loop ?pg2 ki k delta tp = ?pg2 tp"
    proof (rule propagate_loop_ok)
      show "path_ok psize tp ?pg2 ki" unfolding p'_def by (rule path_update[OF path1 _ p1]) (simp add: k)
      show "k < tp" by (simp add: k)
      show "\<forall>l<k. l + 1 < k \<longrightarrow> count_ok_at ?pg2 ki l"
      proof (intro allI impI)
        fix l assume l: "l < k" "l + 1 < k"
        then have "count_ok_at pg ki l" using counts k by (simp add: counts_ok_def)
        then show "count_ok_at ?pg2 ki l"
          using count_ok_at_cong[of pg l ?pg2 ki] below_k[of l] below_k[of "Suc l"] l by simp
      qed
      show "\<forall>l. Suc l = k \<longrightarrow> mdb_node_get_count (the (?pg2 l)) (NODEPTR (the (?pg2 l)) (ki l)) + word_of_int delta =
          mdb_page_subtree_count (the (?pg2 k))"
      proof (intro allI impI)
        fix l assume l: "Suc l = k"
        then have "count_ok_at pg ki l" using counts k by (auto simp: counts_ok_def)
        then show "mdb_node_get_count (the (?pg2 l)) (NODEPTR (the (?pg2 l)) (ki l)) + word_of_int delta =
            mdb_page_subtree_count (the (?pg2 k))"
          using l p(1) sub k by (auto simp: count_ok_at_def)
      qed
      show "\<forall>l. k \<le> l \<longrightarrow> l < tp \<longrightarrow> count_ok_at ?pg2 ki l"
        using get k by (auto simp: count_ok_at_def p'_def less_Suc_eq)
      show "\<forall>l<k. 0 \<le> s64 (mdb_node_get_count (the (?pg2 l)) (NODEPTR (the (?pg2 l)) (ki l))) + delta"
        using nonneg k below_k by simp
    qed
    then show ?thesis unfolding pg' using k by simp
  qed
qed

section \<open>What is not changed\<close>

text \<open>
  The pages above level \<open>tp\<close> differ in the count of the node on the path only: the eight bytes after its header.
\<close>

definition only_count_changed :: "nat \<Rightarrow> MDB_page \<Rightarrow> MDB_page \<Rightarrow> bool" where
  "only_count_changed i p p' \<longleftrightarrow>
     p' = p\<lparr>mp_mem := mp_mem p'\<rparr> \<and>
     (\<forall>a. a < NODEPTR p i + 8 \<or> NODEPTR p i + 16 \<le> a \<longrightarrow> mp_mem p' a = mp_mem p a) \<and>
     (\<forall>j<NUMKEYS p. NODEPGNO p' (NODEPTR p j) = NODEPGNO p (NODEPTR p j) \<and>
        (j \<noteq> i \<longrightarrow> mdb_node_get_count p' (NODEPTR p j) = mdb_node_get_count p (NODEPTR p j)))"

definition only_counts_changed ::
    "nat \<Rightarrow> (nat \<Rightarrow> nat) \<Rightarrow> (nat \<Rightarrow> MDB_page option) \<Rightarrow> (nat \<Rightarrow> MDB_page option) \<Rightarrow> bool" where
  "only_counts_changed tp ki pg pg' \<longleftrightarrow>
     (\<forall>l. if l < tp then \<exists>p p'. pg l = Some p \<and> pg' l = Some p' \<and> only_count_changed (ki l) p p' else pg' l = pg l)"

lemma set_count_only:
  assumes "page_wf psize p" "counted_branch p" "i < NUMKEYS p"
  shows "only_count_changed i p (mdb_node_set_count p (NODEPTR p i) v)"
proof -
  let ?p' = "mdb_node_set_count p (NODEPTR p i) v"
  have m: "mp_mem ?p' = mem_write (mp_mem p) (NODEPTR p i + 8) (le_bytes 8 (unat v))"
    using assms(2) by (simp add: mdb_node_set_count_def counted_branch_def NODESIZE_def)
  have "?p' = p\<lparr>mp_mem := mp_mem ?p'\<rparr>" by (simp add: mdb_node_set_count_def)
  moreover have "mp_mem ?p' a = mp_mem p a" if "a < NODEPTR p i + 8 \<or> NODEPTR p i + 16 \<le> a" for a
    using that unfolding m by (auto simp: mem_write_def)
  ultimately show ?thesis
    unfolding only_count_changed_def
    using set_count_wf(2)[OF assms] set_count_others(2)[OF assms] by auto
qed

lemma only_count_refl: "only_count_changed i p p"
  by (simp add: only_count_changed_def)

lemma propagate_only_counts:
  assumes "path_ok psize tp pg ki" "n \<le> tp"
  shows "only_counts_changed n ki pg (propagate_loop pg ki n delta)"
  using assms
proof (induction n arbitrary: pg)
  case 0
  then show ?case by (simp add: only_counts_changed_def)
next
  case (Suc n)
  obtain p where p: "pg n = Some p" "page_wf psize p" "counted_branch p" "ki n < NUMKEYS p"
    using Suc.prems unfolding path_ok_def by (meson Suc_le_lessD)
  define v :: u64 where "v = word_of_int (let acc = s64 (mdb_node_get_count p (NODEPTR p (ki n))) + delta in if acc < 0 then 0 else acc)"
  define pg1 where "pg1 = pg(n := Some (mdb_node_set_count p (NODEPTR p (ki n)) v))"
  have step: "propagate_loop pg ki (Suc n) delta = propagate_loop pg1 ki n delta"
    using p unfolding pg1_def v_def counted_branch_def by (simp add: Let_def)
  have "path_ok psize tp pg1 ki"
    unfolding pg1_def using path_update[OF Suc.prems(1) _ p(1)] Suc.prems(2) by simp
  then have IH: "only_counts_changed n ki pg1 (propagate_loop pg1 ki n delta)" using Suc by simp
  have one: "only_count_changed (ki n) p (mdb_node_set_count p (NODEPTR p (ki n)) v)" using set_count_only[OF p(2-4)] .
  show ?case unfolding step only_counts_changed_def
  proof
    fix l
    have "if l < n then \<exists>p p'. pg1 l = Some p \<and> propagate_loop pg1 ki n delta l = Some p' \<and> only_count_changed (ki l) p p'
        else propagate_loop pg1 ki n delta l = pg1 l" using IH unfolding only_counts_changed_def by blast
    then show "if l < Suc n then \<exists>p p'. pg l = Some p \<and> propagate_loop pg1 ki n delta l = Some p' \<and> only_count_changed (ki l) p p'
        else propagate_loop pg1 ki n delta l = pg l"
      using one p(1) by (cases l n rule: linorder_cases) (auto simp: pg1_def)
  qed
qed

lemma adjust_only_counts:
  assumes path: "path_ok psize tp pg ki" and tp: "0 < tp" and leaf: "pg tp = Some leaf"
  shows "only_counts_changed tp ki pg (mdb_adjust_counted_parents True tp pg ki (Some leaf) split_performed delta)"
proof -
  obtain k where k: "tp = Suc k" using tp by (cases tp) auto
  obtain p where p: "pg k = Some p" "page_wf psize p" "counted_branch p" "ki k < NUMKEYS p"
    "NODEPGNO p (NODEPTR p (ki k)) = mp_pgno leaf"
    using path leaf k unfolding path_ok_def by fastforce
  have same: "only_counts_changed tp ki pg pg"
    using path unfolding only_counts_changed_def path_ok_def by (auto intro!: only_count_refl)
  have "mdb_adjust_counted_parents True tp pg ki (Some leaf) split_performed delta =
      (case slot_adjust p (NODEPTR p (ki k)) leaf split_performed delta of None \<Rightarrow> pg
       | Some (parent', diff) \<Rightarrow> mdb_propagate_count_delta_path (pg(k := Some parent')) ki k diff)"
  proof -
    have k1: "tp - 1 = k" using k by simp
    show ?thesis unfolding mdb_adjust_counted_parents_def Let_def k1 using p tp by (simp add: counted_branch_def)
  qed
  moreover have "only_counts_changed tp ki pg (mdb_propagate_count_delta_path (pg(k := Some parent')) ki k diff)"
    if s: "slot_adjust p (NODEPTR p (ki k)) leaf split_performed delta = Some (parent', diff)" for parent' diff
  proof -
    have one: "only_count_changed (ki k) p parent'"
      using s set_count_only[OF p(2-4)] only_count_refl by (auto simp: slot_adjust_def Let_def split: if_splits)
    have "\<exists>v. parent' = mdb_node_set_count p (NODEPTR p (ki k)) v \<or> parent' = p"
      using s by (auto simp: slot_adjust_def Let_def split: if_splits)
    then have path': "path_ok psize tp (pg(k := Some parent')) ki"
      using path_update[OF path _ p(1)] path p(1) k by (auto simp: fun_upd_idem)
    have "\<exists>q. (pg(k := Some parent')) l = Some q" if "l < k" for l
      using path' that k unfolding path_ok_def by (meson less_SucI)
    then have "only_counts_changed k ki (pg(k := Some parent')) (pg(k := Some parent'))"
      unfolding only_counts_changed_def using only_count_refl by fastforce
    moreover have "only_counts_changed k ki (pg(k := Some parent')) (propagate_loop (pg(k := Some parent')) ki k diff)"
      by (rule propagate_only_counts[OF path']) (simp add: k)
    ultimately have P: "only_counts_changed k ki (pg(k := Some parent')) (mdb_propagate_count_delta_path (pg(k := Some parent')) ki k diff)"
      by (simp add: mdb_propagate_count_delta_path_def)
    show ?thesis unfolding only_counts_changed_def
    proof
      fix l
      let ?r = "mdb_propagate_count_delta_path (pg(k := Some parent')) ki k diff l"
      have "if l < k then \<exists>p p'. (pg(k := Some parent')) l = Some p \<and> ?r = Some p' \<and> only_count_changed (ki l) p p'
          else ?r = (pg(k := Some parent')) l" using P unfolding only_counts_changed_def by blast
      then show "if l < tp then \<exists>p p'. pg l = Some p \<and> ?r = Some p' \<and> only_count_changed (ki l) p p' else ?r = pg l"
        using one p(1) k by (cases l k rule: linorder_cases) auto
    qed
  qed
  ultimately show ?thesis using same by (auto split: option.splits)
qed

section \<open>Properties\<close>

text \<open>A counted branch page over \<open>sample_page\<close> (page 3, two entries) and a page 4 with one entry.\<close>

definition sample_branch :: MDB_page where
  "sample_branch = \<lparr>mp_pgno = 2, mp_pad = 0, mp_flags = P_BRANCH OR P_COUNTED, mp_lower = 20, mp_upper = 94,
     mp_ptrs = (\<lambda>i. if i = 0 then 112 else 94),
     mp_mem = mem_write (mem_write (\<lambda>_. 0) 112 [3, 0, 0, 0, 0, 0, 0, 0, 2, 0, 0, 0, 0, 0, 0, 0])
                94 [4, 0, 0, 0, 0, 0, 2, 0, 1, 0, 0, 0, 0, 0, 0, 0, 3, 1]\<rparr>"

lemma sample_branch_nodes: "NUMKEYS sample_branch = 2" "node_size sample_branch 112 = 16" "node_size sample_branch 94 = 18"
  "mp_lower sample_branch = 20" "mp_upper sample_branch = 94" "mp_ptrs sample_branch 0 = 112" "mp_ptrs sample_branch (Suc 0) = 94"
  "NODEPTR sample_branch 0 = 112" "NODEPTR sample_branch (Suc 0) = 94"
  "counted_branch sample_branch" "\<not> IS_LEAF sample_branch" "\<not> IS_LEAF2 sample_branch"
  "NODEPGNO sample_branch 112 = 3" "NODEPGNO sample_branch 94 = 4"
  "mdb_node_get_count sample_branch 112 = 2" "mdb_node_get_count sample_branch 94 = 1"
  "mdb_page_subtree_count sample_page = 2" "mdb_page_subtree_count (sample_page\<lparr>mp_lower := 18\<rparr>) = 1"
  by code_simp+

lemma sample_branch_wf: "page_wf 128 sample_branch"
  unfolding page_wf_def slots_wf_def sample_branch_nodes(1)
  by (auto simp: PAGEHDRSZ_def less_2_cases_iff sample_branch_nodes)

text \<open>C16. When a leaf has gained or lost entries, adjusting the counts along the cursor's path restores
  the invariant of a counted tree at every level: each branch node on the path again stores the number
  of entries of the page below it, the path still leads to the same pages, and all pages stay
  well-formed, whether the change came from a split or from a single insertion or deletion. Nothing else changes:
  in each page above the leaf only the eight bytes of the count of the node on the path differ, so every other node keeps its
  count and its child, and the pages at all other levels are as they were.\<close>

theorem adjust_counts_correct:
  assumes "path_ok psize tp pg ki" "counts_ok tp pg ki" "0 < tp" "pg tp = Some old" "mp_pgno leaf = mp_pgno old"
    and "s64 (mdb_page_subtree_count leaf) = s64 (mdb_page_subtree_count old) + delta"
    and "\<forall>l<tp. 0 \<le> s64 (mdb_node_get_count (the (pg l)) (NODEPTR (the (pg l)) (ki l))) + delta"
  shows "let pg' = mdb_adjust_counted_parents True tp (pg(tp := Some leaf)) ki (Some leaf) split_performed delta in
    path_ok psize tp pg' ki \<and> counts_ok tp pg' ki \<and> pg' tp = Some leaf \<and>
    only_counts_changed tp ki (pg(tp := Some leaf)) pg'"
proof -
  let ?pg = "pg(tp := Some leaf)"
  have path: "path_ok psize tp ?pg ki"
    using assms(1,4,5) unfolding path_ok_def by (fastforce simp: less_Suc_eq)
  have "only_counts_changed tp ki ?pg (mdb_adjust_counted_parents True tp ?pg ki (Some leaf) split_performed delta)"
    using adjust_only_counts[OF path assms(3), of leaf split_performed delta] by simp
  then show ?thesis using adjust_counted_parents_ok[OF assms, of split_performed] by (simp add: Let_def)
qed

theorem adjust_counts_correct_witness:
  "let pg = (\<lambda>l. if l = 0 then Some sample_branch else Some sample_page); leaf = sample_page\<lparr>mp_lower := 18\<rparr>;
       pg' = mdb_adjust_counted_parents True 1 (pg(1 := Some leaf)) (\<lambda>_. 0) (Some leaf) False (- 1) in
    path_ok 128 1 pg' (\<lambda>_. 0) \<and> counts_ok 1 pg' (\<lambda>_. 0) \<and> pg' 1 = Some leaf \<and>
    only_counts_changed 1 (\<lambda>_. 0) (pg(1 := Some leaf)) pg'"
  unfolding Let_def
proof (rule adjust_counts_correct[unfolded Let_def])
  let ?pg = "\<lambda>l::nat. if l = 0 then Some sample_branch else Some sample_page"
  have pg3: "mp_pgno sample_page = 3" by (simp add: sample_page_def)
  show "path_ok 128 1 ?pg (\<lambda>_. 0)" using sample_branch_wf by (simp add: path_ok_def sample_branch_nodes pg3)
  show "counts_ok 1 ?pg (\<lambda>_. 0)" by (simp add: counts_ok_def count_ok_at_def sample_branch_nodes)
  show "s64 (mdb_page_subtree_count (sample_page\<lparr>mp_lower := 18\<rparr>)) = s64 (mdb_page_subtree_count sample_page) + - 1"
    by (simp add: sample_branch_nodes s64_def)
  show "\<forall>l<1. 0 \<le> s64 (mdb_node_get_count (the (?pg l)) (NODEPTR (the (?pg l)) 0)) + - 1"
    by (simp add: sample_branch_nodes s64_def)
qed simp_all

end
