(* ===== verification/Leaf_Cache.thy ===== *)
theory Leaf_Cache
  imports Stride Counts
begin

text \<open>
  The cursor-local cache of a leaf page (\<open>MDB_cursor_leaf_cache\<close> in \<open>mdb.c\<close>): the decoded keys of
  the page, in one buffer of equal slots, and the running sums of the entries of its nodes. A pointer
  to a page is its address; \<open>deref\<close> is the memory the pages are read from. \<open>alloc n\<close> tells whether
  \<open>realloc\<close> to \<open>n\<close> bytes succeeds. A pointer into the decode buffer is the offset in it, which is the
  pointer as long as \<open>materialize\<close> assigns the slots after every \<open>realloc\<close> of the buffer, as it does.
\<close>

section \<open>The cache\<close>

record MDB_cursor_leaf_cache =
  val_data :: "nat \<Rightarrow> nat option"
  val_size :: "nat \<Rightarrow> nat"
  decoded_vals_cap :: nat
  decoded_ready :: "nat \<Rightarrow> bool"
  decoded_ready_cap :: nat
  decoded_buf :: mem
  decoded_buf_size :: nat
  decoded_stride :: nat
  decoded_prefix :: "nat \<Rightarrow> u64"
  decoded_prefix_cap :: nat
  decoded_prefix_count :: nat
  decoded_count :: nat
  decoded_slots_ready :: bool
  decoded_pgno :: u64
  decoded_gen :: nat
  decoded_source :: "nat option"

text \<open>The arrays are NULL exactly when their capacity is 0; their contents are then not read.\<close>

definition mdb_cursor_leaf_cache_init :: "MDB_cursor_leaf_cache \<Rightarrow> MDB_cursor_leaf_cache" where
  "mdb_cursor_leaf_cache_init cache = cache\<lparr>decoded_vals_cap := 0, decoded_ready_cap := 0, decoded_buf_size := 0,
     decoded_stride := 0, decoded_prefix_cap := 0, decoded_prefix_count := 0, decoded_count := 0,
     decoded_slots_ready := False, decoded_pgno := P_INVALID, decoded_gen := 0, decoded_source := None\<rparr>"

definition mdb_cursor_leaf_cache_reset :: "MDB_cursor_leaf_cache \<Rightarrow> MDB_cursor_leaf_cache" where
  "mdb_cursor_leaf_cache_reset cache = cache\<lparr>decoded_count := 0, decoded_stride := 0, decoded_prefix_count := 0,
     decoded_slots_ready := False, decoded_pgno := P_INVALID, decoded_gen := 0, decoded_source := None\<rparr>"

text \<open>\<open>free\<close> of the arrays is their disappearance: only the capacities say that they exist.\<close>

definition mdb_cursor_leaf_cache_clear :: "MDB_cursor_leaf_cache \<Rightarrow> MDB_cursor_leaf_cache" where
  "mdb_cursor_leaf_cache_clear cache = mdb_cursor_leaf_cache_init cache"

text \<open>The first argument is the cursor's own cache, the second that of its duplicate cursor, if any.\<close>

definition mdb_cursor_cache_clear ::
    "MDB_cursor_leaf_cache \<Rightarrow> MDB_cursor_leaf_cache option \<Rightarrow> MDB_cursor_leaf_cache \<times> MDB_cursor_leaf_cache option" where
  "mdb_cursor_cache_clear cache xcache =
     (mdb_cursor_leaf_cache_clear cache, map_option mdb_cursor_leaf_cache_clear xcache)"

text \<open>\<open>while (newcap < cnt) newcap *= 2;\<close> on \<open>unsigned int\<close>, which need not end.\<close>

partial_function (option) double_loop :: "nat \<Rightarrow> nat \<Rightarrow> nat option" where
  "double_loop newcap cnt =
     (if newcap < cnt then double_loop (newcap * 2 mod 2 ^ 32) cnt else Some newcap)"

declare double_loop.simps [code] grow_loop.simps [code]

definition mdb_cursor_leaf_cache_ensure_vals ::
    "(nat \<Rightarrow> bool) \<Rightarrow> MDB_cursor_leaf_cache \<Rightarrow> nat \<Rightarrow> (MDB_cursor_leaf_cache \<times> rc) option" where
  "mdb_cursor_leaf_cache_ensure_vals alloc cache cnt =
     (if cnt = 0 then Some (cache, MDB_SUCCESS)
      else if decoded_vals_cap cache < cnt then
        map_option (\<lambda>newcap. if \<not> alloc (16 * newcap) then (cache, ENOMEM)
                             else (cache\<lparr>decoded_vals_cap := newcap\<rparr>, MDB_SUCCESS))
          (double_loop (if decoded_vals_cap cache > 0 then decoded_vals_cap cache else 16) cnt)
      else Some (cache, MDB_SUCCESS))"

definition mdb_cursor_leaf_cache_ensure_ready ::
    "(nat \<Rightarrow> bool) \<Rightarrow> MDB_cursor_leaf_cache \<Rightarrow> nat \<Rightarrow> (MDB_cursor_leaf_cache \<times> rc) option" where
  "mdb_cursor_leaf_cache_ensure_ready alloc cache cnt =
     (if cnt = 0 then Some (cache, MDB_SUCCESS)
      else if decoded_ready_cap cache < cnt then
        map_option (\<lambda>newcap. if \<not> alloc newcap then (cache, ENOMEM)
                             else (cache\<lparr>decoded_ready_cap := newcap\<rparr>, MDB_SUCCESS))
          (double_loop (if decoded_ready_cap cache > 0 then decoded_ready_cap cache else 16) cnt)
      else Some (cache, MDB_SUCCESS))"

definition mdb_cursor_leaf_cache_reserve_buf ::
    "(nat \<Rightarrow> bool) \<Rightarrow> MDB_cursor_leaf_cache \<Rightarrow> nat \<Rightarrow> (MDB_cursor_leaf_cache \<times> rc) option" where
  "mdb_cursor_leaf_cache_reserve_buf alloc cache need =
     (let size = decoded_buf_size cache in
      if size < need then
        map_option (\<lambda>newsize. if \<not> alloc newsize then (cache, ENOMEM)
                              else (cache\<lparr>decoded_buf_size := newsize\<rparr>, MDB_SUCCESS))
          (grow_loop SIZE_HALF (if size > 0 then size else 256) need)
      else Some (cache, MDB_SUCCESS))"

definition mdb_cursor_leaf_cache_assign_slots :: "MDB_cursor_leaf_cache \<Rightarrow> MDB_cursor_leaf_cache" where
  "mdb_cursor_leaf_cache_assign_slots cache =
     (if decoded_buf_size cache = 0 \<or> decoded_vals_cap cache = 0 \<or> decoded_stride cache = 0 \<or> decoded_count cache = 0
      then cache
      else cache\<lparr>val_data := foldl (\<lambda>f i. f(i := Some (i * decoded_stride cache))) (val_data cache) [0..<decoded_count cache]\<rparr>)"

text \<open>\<open>for (i = 0; i < n; ++i) a[i] = x\<close> and \<open>memset\<close>.\<close>

definition fill :: "(nat \<Rightarrow> 'a) \<Rightarrow> 'a \<Rightarrow> nat \<Rightarrow> (nat \<Rightarrow> 'a)" where
  "fill a x n = (\<lambda>i. if i < n then x else a i)"

definition mdb_cursor_leaf_cache_materialize ::
    "(nat \<Rightarrow> bool) \<Rightarrow> (nat \<Rightarrow> MDB_page) \<Rightarrow> MDB_cursor_leaf_cache \<Rightarrow> nat \<Rightarrow> (MDB_cursor_leaf_cache \<times> rc) option" where
  "mdb_cursor_leaf_cache_materialize alloc deref cache mp =
     (if decoded_count cache = 0 \<or> decoded_slots_ready cache then Some (cache, MDB_SUCCESS)
      else
        let need = decoded_count cache * decoded_stride cache in
        map_option (\<lambda>(cache, rc).
          if rc \<noteq> MDB_SUCCESS then (cache, rc)
          else
            let cache = mdb_cursor_leaf_cache_assign_slots cache;
                cache = cache\<lparr>val_size := fill (val_size cache) 0 (decoded_count cache),
                              decoded_ready := fill (decoded_ready cache) False (decoded_count cache),
                              decoded_slots_ready := True\<rparr>;
                source = deref (case decoded_source cache of Some s \<Rightarrow> s | None \<Rightarrow> mp)
            in if IS_LEAF2 source then (cache, MDB_SUCCESS)
               else
                 let trunk = NODEPTR source 0; ksize = mn_ksize (mp_mem source) trunk in
                 case val_data cache 0 of
                   None \<Rightarrow> (cache, MDB_SUCCESS)
                 | Some d \<Rightarrow>
                     let copy = (if ksize > decoded_stride cache then decoded_stride cache else ksize)
                     in (cache\<lparr>decoded_buf := mem_write (decoded_buf cache) d (take copy (NODEKEY source trunk)),
                               val_size := (val_size cache)(0 := ksize),
                               decoded_ready := (decoded_ready cache)(0 := True)\<rparr>, MDB_SUCCESS))
          (mdb_cursor_leaf_cache_reserve_buf alloc cache need))"

definition mdb_cursor_leaf_cache_ensure_prefix ::
    "(nat \<Rightarrow> bool) \<Rightarrow> MDB_env_sizes \<Rightarrow> MDB_cursor_leaf_cache \<Rightarrow> nat \<Rightarrow> (MDB_cursor_leaf_cache \<times> rc) option" where
  "mdb_cursor_leaf_cache_ensure_prefix alloc env cache cnt =
     (let cnt = (if cnt = 0 then 1 else cnt) in
      if decoded_prefix_cap cache < cnt then
        let baseline_bytes = mdb_prefix_prealloc_size env;
            baseline = (if baseline_bytes \<ge> 8 then (baseline_bytes div 8) mod 2 ^ 32 else 0);
            baseline = (if baseline = 0 then 32 else baseline);
            target = (if cnt < baseline then baseline else cnt);
            newcap = decoded_prefix_cap cache;
            newcap = (if newcap = 0 \<or> newcap < baseline then baseline else newcap)
        in map_option (\<lambda>newcap. if \<not> alloc (8 * newcap) then (cache, ENOMEM)
                                else (cache\<lparr>decoded_prefix_cap := newcap\<rparr>, MDB_SUCCESS))
             (grow_loop UINT_HALF newcap target)
      else Some (cache, MDB_SUCCESS))"

text \<open>\<open>MDB_MAXKEYSIZE\<close> is 511 by default; 0 makes it depend on the page size.\<close>

definition mdb_prefix_maxkey :: "nat \<Rightarrow> MDB_env_sizes \<Rightarrow> nat" where
  "mdb_prefix_maxkey maxkeysize env = (if maxkeysize > 0 then maxkeysize else me_maxkey env)"

text \<open>What the cache functions read besides the cache: the environment, the transaction, the database.\<close>

record cache_env =
  ce_alloc :: "nat \<Rightarrow> bool"
  ce_deref :: "nat \<Rightarrow> MDB_page"
  ce_env :: MDB_env_sizes
  ce_maxkeysize :: nat
  ce_rdonly :: bool
  ce_txnid :: nat
  ce_prefix :: bool
  ce_md_pad :: nat

definition leaf_cache_stride :: "cache_env \<Rightarrow> MDB_page \<Rightarrow> nat" where
  "leaf_cache_stride ce mp =
     (let total = NUMKEYS mp; env = ce_env ce; stride = 0;
          stride = (if total > 0 \<and> ce_prefix ce \<and> \<not> IS_LEAF2 mp then mp_pad mp else stride);
          stride = (if total > 0 \<and> ce_prefix ce \<and> \<not> IS_LEAF2 mp \<and> stride = 0 then mdb_prefix_leaf_maxdecoded mp else stride);
          stride = (if total > 0 \<and> \<not> ce_prefix ce then if IS_LEAF2 mp then ce_md_pad ce else mdb_leaf_maxkey_raw mp else stride);
          stride = (if total > 0 \<and> stride = 0 then mdb_prefix_maxkey (ce_maxkeysize ce) env else stride);
          stride = (if stride = 0 then if me_psize env > 0 then me_psize env else 1 else stride)
      in if stride = 0 then 1
         else let limit = mdb_prefix_maxkey (ce_maxkeysize ce) env
              in if limit > 0 \<and> stride > limit then limit else stride)"

definition mdb_cursor_leaf_cache_prepare ::
    "cache_env \<Rightarrow> MDB_cursor_leaf_cache \<Rightarrow> nat \<Rightarrow> (MDB_cursor_leaf_cache \<times> rc) option" where
  "mdb_cursor_leaf_cache_prepare ce cache a =
     (let mp = ce_deref ce a; total = NUMKEYS mp; source = (if IS_SUBP mp then Some a else None) in
      if decoded_pgno cache = word_of_nat (mp_pgno mp) \<and> decoded_gen cache = ce_txnid ce \<and>
         decoded_count cache = total \<and> decoded_source cache = source
      then Some (cache, MDB_SUCCESS)
      else
        case mdb_cursor_leaf_cache_ensure_vals (ce_alloc ce) (mdb_cursor_leaf_cache_reset cache) total of
          None \<Rightarrow> None
        | Some (cache, rc) \<Rightarrow>
            if rc \<noteq> MDB_SUCCESS then Some (mdb_cursor_leaf_cache_reset cache, rc)
            else
              map_option (\<lambda>(cache, rc).
                if rc \<noteq> MDB_SUCCESS then (mdb_cursor_leaf_cache_reset cache, rc)
                else (cache\<lparr>decoded_ready := fill (decoded_ready cache) False total,
                            val_data := fill (val_data cache) None total, val_size := fill (val_size cache) 0 total,
                            decoded_slots_ready := False, decoded_prefix_count := 0,
                            decoded_pgno := word_of_nat (mp_pgno mp), decoded_gen := ce_txnid ce, decoded_count := total,
                            decoded_stride := leaf_cache_stride ce mp, decoded_source := source\<rparr>, MDB_SUCCESS))
                (mdb_cursor_leaf_cache_ensure_ready (ce_alloc ce) cache total))"

text \<open>The read of one slot: the key is decoded into its slot on the first use. A NULL slot is a crash.\<close>

definition leaf_cache_slot ::
    "cache_env \<Rightarrow> MDB_cursor_leaf_cache \<Rightarrow> nat \<Rightarrow> nat \<Rightarrow> MDB_prefix_header option \<Rightarrow> MDB_cursor_leaf_cache \<times> bytes res" where
  "leaf_cache_slot ce cache a idx header =
     (let mp = ce_deref ce a;
          val = (\<lambda>c i. map_option (\<lambda>d. mem_read (decoded_buf c) d (val_size c i)) (val_data c i));
          out = (\<lambda>c. case val c idx of None \<Rightarrow> Abort | Some k \<Rightarrow> Ok k)
      in if \<not> decoded_ready cache idx then
           case mdb_leaf_decode_key (val cache 0) (key_at mp idx) (decoded_stride cache) False header of
             Ok k \<Rightarrow>
               (case val_data cache idx of
                  None \<Rightarrow> (cache, Abort)
                | Some d \<Rightarrow>
                    let cache = cache\<lparr>decoded_buf := mem_write (decoded_buf cache) d k,
                                      val_size := (val_size cache)(idx := length k),
                                      decoded_ready := (decoded_ready cache)(idx := True)\<rparr>
                    in (cache, out cache))
           | e \<Rightarrow> (cache, e)
         else (cache, out cache))"

text \<open>\<open>None\<close> as the result: the cache does not hold this page, and the caller decodes the key itself.\<close>

definition leaf_cache_read ::
    "cache_env \<Rightarrow> MDB_cursor_leaf_cache \<Rightarrow> nat \<Rightarrow> nat \<Rightarrow> MDB_prefix_header option \<Rightarrow>
     (MDB_cursor_leaf_cache \<times> bytes res option) option" where
  "leaf_cache_read ce cache a idx header =
     (case mdb_cursor_leaf_cache_prepare ce cache a of
        None \<Rightarrow> None
      | Some (cache, rc) \<Rightarrow>
          if rc \<noteq> MDB_SUCCESS then Some (cache, Some (Err rc))
          else if idx < decoded_count cache \<and> decoded_pgno cache = word_of_nat (mp_pgno (ce_deref ce a)) then
            if \<not> decoded_slots_ready cache then
              map_option (\<lambda>(cache, rc).
                if rc \<noteq> MDB_SUCCESS then (cache, Some (Err rc))
                else map_prod id Some (leaf_cache_slot ce cache a idx header))
                (mdb_cursor_leaf_cache_materialize (ce_alloc ce) (ce_deref ce) cache a)
            else Some (map_prod id Some (leaf_cache_slot ce cache a idx header))
          else Some (cache, None))"

text \<open>\<open>prefix[limit]\<close>, after the running sums have been extended that far.\<close>

definition extend_sums :: "MDB_page \<Rightarrow> MDB_cursor_leaf_cache \<Rightarrow> nat \<Rightarrow> MDB_cursor_leaf_cache \<times> u64" where
  "extend_sums mp cache limit =
     (let cache = (if decoded_prefix_count cache = 0
            then cache\<lparr>decoded_prefix := (decoded_prefix cache)(0 := 0), decoded_prefix_count := 1\<rparr>
            else cache);
          filled = decoded_prefix_count cache
      in if limit < filled then (cache, decoded_prefix cache limit)
         else
           let (pre, running) = foldl (\<lambda>(pre, running) i.
                 let running = running + mdb_leaf_entry_contribution mp (NODEPTR mp i)
                 in (pre(i + 1 := running), running))
                 (decoded_prefix cache, decoded_prefix cache (filled - 1)) [filled - 1..<limit]
           in (cache\<lparr>decoded_prefix := pre, decoded_prefix_count := limit + 1\<rparr>, pre limit))"

text \<open>
  The entries in the first \<open>limit\<close> nodes of a leaf, from the running sums of the cache, which are
  extended as far as needed; \<open>use_cache\<close> is \<open>C_LEAFCACHE\<close> of the cursor.
\<close>

definition leaf_prefix_contribution_cached ::
    "cache_env \<Rightarrow> bool \<Rightarrow> MDB_cursor_leaf_cache \<Rightarrow> nat \<Rightarrow> nat \<Rightarrow> (MDB_cursor_leaf_cache \<times> u64) option" where
  "leaf_prefix_contribution_cached ce use_cache cache a limit =
     (let mp = ce_deref ce a; plain = (\<lambda>limit. mdb_leaf_prefix_contribution mp limit) in
      if \<not> IS_LEAF mp \<and> \<not> IS_LEAF2 mp then Some (cache, 0)
      else
        let cnt = NUMKEYS mp; limit = (if limit > cnt then cnt else limit) in
        if IS_LEAF2 mp then Some (cache, word_of_nat limit)
        else if limit = 0 then Some (cache, 0)
        else if \<not> (ce_rdonly ce \<and> use_cache \<and> \<not> IS_SUBP mp) then Some (cache, plain limit)
        else
          case (if decoded_pgno cache \<noteq> word_of_nat (mp_pgno mp) \<or> decoded_gen cache \<noteq> ce_txnid ce \<or>
                   decoded_count cache \<noteq> cnt
                then mdb_cursor_leaf_cache_prepare ce cache a else Some (cache, MDB_SUCCESS)) of
            None \<Rightarrow> None
          | Some (cache, prc) \<Rightarrow>
              if prc \<noteq> MDB_SUCCESS then Some (cache, plain limit)
              else
                let needed = cnt + 1 in
                map_option (\<lambda>(cache, erc).
                  if erc \<noteq> MDB_SUCCESS then (cache, plain limit) else extend_sums mp cache limit)
                  (if decoded_prefix_cap cache < needed
                   then mdb_cursor_leaf_cache_ensure_prefix (ce_alloc ce) (ce_env ce) cache needed
                   else Some (cache, MDB_SUCCESS)))"

text \<open>
  The clone of a cache, for the copy of a cursor. The slots of the destination are assigned with the
  stride and the count it had before, as in the code.
\<close>

definition mdb_cursor_leaf_cache_clone ::
    "(nat \<Rightarrow> bool) \<Rightarrow> MDB_env_sizes \<Rightarrow> MDB_cursor_leaf_cache \<Rightarrow> MDB_cursor_leaf_cache \<Rightarrow> (MDB_cursor_leaf_cache \<times> rc) option" where
  "mdb_cursor_leaf_cache_clone alloc env dst src =
     (let cnt = decoded_count src; stride = decoded_stride src;
          buf_need = (if decoded_slots_ready src \<and> stride > 0 then cnt * stride else 0);
          step = (\<lambda>m k. case m of None \<Rightarrow> None | Some (dst, rc) \<Rightarrow> if rc \<noteq> MDB_SUCCESS then Some (dst, rc) else k dst)
      in step (mdb_cursor_leaf_cache_ensure_vals alloc dst cnt) (\<lambda>dst.
         step (mdb_cursor_leaf_cache_ensure_ready alloc dst cnt) (\<lambda>dst.
         let dst = dst\<lparr>decoded_ready := fill (decoded_ready dst) False cnt,
                       val_data := fill (val_data dst) None cnt, val_size := fill (val_size dst) 0 cnt\<rparr>
         in step (if decoded_prefix_count src > 0
                  then mdb_cursor_leaf_cache_ensure_prefix alloc env dst (decoded_prefix_count src)
                  else Some (dst, MDB_SUCCESS)) (\<lambda>dst.
            let dst = dst\<lparr>decoded_prefix := (\<lambda>i. if i < decoded_prefix_count src then decoded_prefix src i else decoded_prefix dst i),
                          decoded_prefix_count := decoded_prefix_count src\<rparr>;
                finish = (\<lambda>dst. Some (dst\<lparr>decoded_ready := (\<lambda>i. if i < cnt then decoded_ready src i else decoded_ready dst i),
                   decoded_stride := stride, decoded_count := cnt, decoded_pgno := decoded_pgno src,
                   decoded_gen := decoded_gen src, decoded_source := decoded_source src\<rparr>, MDB_SUCCESS))
            in if buf_need > 0 then
                 step (mdb_cursor_leaf_cache_reserve_buf alloc dst buf_need) (\<lambda>dst.
                   let dst = mdb_cursor_leaf_cache_assign_slots dst;
                       dst = dst\<lparr>decoded_buf := mem_write (decoded_buf dst) 0 (mem_read (decoded_buf src) 0 buf_need),
                                 val_size := (\<lambda>i. if i < cnt then val_size src i else val_size dst i),
                                 decoded_slots_ready := True\<rparr>
                   in finish dst)
               else finish (dst\<lparr>decoded_slots_ready := False\<rparr>)))))"


section \<open>The growing arrays\<close>

lemma double_loop_Some:
  "0 < n \<Longrightarrow> cnt \<le> 2 ^ 31 \<Longrightarrow> \<exists>m. double_loop n cnt = Some m \<and> cnt \<le> m \<and> n \<le> m"
proof (induction "cnt - n" arbitrary: n rule: less_induct)
  case less
  show ?case
  proof (cases "n < cnt")
    case True
    then have small: "n * 2 mod 2 ^ 32 = n * 2" using less.prems by (intro mod_less) simp
    from True less.prems have "cnt - n * 2 < cnt - n" by linarith
    from less.hyps[OF this] less.prems obtain m where "double_loop (n * 2) cnt = Some m" "cnt \<le> m" "n * 2 \<le> m" by auto
    then show ?thesis using True small by (subst double_loop.simps) auto
  next
    case False
    then show ?thesis by (subst double_loop.simps) auto
  qed
qed

lemma double_loop_start:
  assumes "cnt \<le> 2 ^ 31"
  shows "\<exists>m. double_loop (if cap > 0 then cap else 16) cnt = Some m \<and> cnt \<le> m"
  using double_loop_Some[of cap cnt] double_loop_Some[of 16 cnt] assms by (cases "cap > 0") auto

text \<open>Each of the four functions returns, with the array large enough or with \<open>ENOMEM\<close> and the cache as it was.\<close>

definition grown :: "bool \<Rightarrow> (MDB_cursor_leaf_cache \<times> rc) option \<Rightarrow> MDB_cursor_leaf_cache \<Rightarrow>
    (nat \<Rightarrow> MDB_cursor_leaf_cache \<Rightarrow> MDB_cursor_leaf_cache) \<Rightarrow> nat \<Rightarrow> bool" where
  "grown always r c upd need \<longleftrightarrow>
     r = Some (c, ENOMEM) \<and> \<not> always \<or> (\<exists>n\<ge>need. r = Some (upd n c, MDB_SUCCESS))"

lemma grownI:
  assumes "cap c < need \<Longrightarrow> \<exists>n\<ge>need. r = Some (if \<not> alloc (k n) then (c, ENOMEM) else (upd n c, MDB_SUCCESS))"
    and "need \<le> cap c \<Longrightarrow> r = Some (c, MDB_SUCCESS)" and "upd (cap c) c = c"
  shows "grown (\<forall>n. alloc n) r c upd need"
proof (cases "cap c < need")
  case True
  then obtain n where "n \<ge> need" "r = Some (if \<not> alloc (k n) then (c, ENOMEM) else (upd n c, MDB_SUCCESS))"
    using assms(1) by blast
  then show ?thesis by (cases "alloc (k n)") (auto simp: grown_def)
next
  case False
  then have "r = Some (upd (cap c) c, MDB_SUCCESS)" using assms(2,3) by simp
  moreover have "need \<le> cap c" using False by simp
  ultimately show ?thesis unfolding grown_def by blast
qed

lemma ensure_vals_grown:
  assumes "cnt \<le> 2 ^ 31"
  shows "grown (\<forall>n. alloc n) (mdb_cursor_leaf_cache_ensure_vals alloc c cnt) c (\<lambda>n c. c\<lparr>decoded_vals_cap := n\<rparr>) cnt"
proof (rule grownI[where cap = decoded_vals_cap and k = "\<lambda>n. 16 * n"])
  obtain n where "double_loop (if decoded_vals_cap c > 0 then decoded_vals_cap c else 16) cnt = Some n" "cnt \<le> n"
    using double_loop_start[OF assms] by blast
  then show "\<exists>n\<ge>cnt. mdb_cursor_leaf_cache_ensure_vals alloc c cnt =
      Some (if \<not> alloc (16 * n) then (c, ENOMEM) else (c\<lparr>decoded_vals_cap := n\<rparr>, MDB_SUCCESS))"
    if "decoded_vals_cap c < cnt"
    using that by (intro exI[of _ n]) (simp add: mdb_cursor_leaf_cache_ensure_vals_def)
qed (auto simp: mdb_cursor_leaf_cache_ensure_vals_def)

lemma ensure_ready_grown:
  assumes "cnt \<le> 2 ^ 31"
  shows "grown (\<forall>n. alloc n) (mdb_cursor_leaf_cache_ensure_ready alloc c cnt) c (\<lambda>n c. c\<lparr>decoded_ready_cap := n\<rparr>) cnt"
proof (rule grownI[where cap = decoded_ready_cap and k = "\<lambda>n. n"])
  obtain n where "double_loop (if decoded_ready_cap c > 0 then decoded_ready_cap c else 16) cnt = Some n" "cnt \<le> n"
    using double_loop_start[OF assms] by blast
  then show "\<exists>n\<ge>cnt. mdb_cursor_leaf_cache_ensure_ready alloc c cnt =
      Some (if \<not> alloc n then (c, ENOMEM) else (c\<lparr>decoded_ready_cap := n\<rparr>, MDB_SUCCESS))"
    if "decoded_ready_cap c < cnt"
    using that by (intro exI[of _ n]) (simp add: mdb_cursor_leaf_cache_ensure_ready_def)
qed (auto simp: mdb_cursor_leaf_cache_ensure_ready_def)

lemma grow_loop_total: "0 < newsize \<Longrightarrow> \<exists>n. grow_loop half newsize required = Some n \<and> required \<le> n"
proof (induction "required - newsize" arbitrary: newsize rule: less_induct)
  case less
  show ?case
  proof (cases "newsize < required \<and> newsize \<le> half")
    case True
    then have "required - 2 * newsize < required - newsize" using less.prems by linarith
    with less.hyps[of "2 * newsize"] less.prems True show ?thesis by (subst grow_loop.simps) auto
  next
    case False
    then show ?thesis by (subst grow_loop.simps) auto
  qed
qed

lemma reserve_buf_grown:
  "grown (\<forall>n. alloc n) (mdb_cursor_leaf_cache_reserve_buf alloc c need) c (\<lambda>n c. c\<lparr>decoded_buf_size := n\<rparr>) need"
proof (rule grownI[where cap = decoded_buf_size and k = "\<lambda>n. n"])
  define start where "start = (if decoded_buf_size c > 0 then decoded_buf_size c else 256)"
  have "0 < start" by (simp add: start_def)
  from grow_loop_total[OF this] obtain n where "grow_loop SIZE_HALF start need = Some n" "need \<le> n" by blast
  then show "\<exists>n\<ge>need. mdb_cursor_leaf_cache_reserve_buf alloc c need =
      Some (if \<not> alloc n then (c, ENOMEM) else (c\<lparr>decoded_buf_size := n\<rparr>, MDB_SUCCESS))"
    if "decoded_buf_size c < need"
    using that by (intro exI[of _ n]) (simp add: mdb_cursor_leaf_cache_reserve_buf_def start_def[symmetric])
qed (auto simp: mdb_cursor_leaf_cache_reserve_buf_def)

lemma ensure_prefix_grown:
  "grown (\<forall>n. alloc n) (mdb_cursor_leaf_cache_ensure_prefix alloc env c cnt) c
    (\<lambda>n c. c\<lparr>decoded_prefix_cap := n\<rparr>) (if cnt = 0 then 1 else cnt)"
proof (rule grownI[where cap = decoded_prefix_cap and k = "\<lambda>n. 8 * n"])
  define need where "need = (if cnt = 0 then 1 else cnt)"
  define base where "base = (if mdb_prefix_prealloc_size env \<ge> 8 then (mdb_prefix_prealloc_size env div 8) mod 2 ^ 32 else 0)"
  define baseline where "baseline = (if base = 0 then 32 else base)"
  define target where "target = (if need < baseline then baseline else need)"
  define start where "start = (if decoded_prefix_cap c = 0 \<or> decoded_prefix_cap c < baseline then baseline else decoded_prefix_cap c)"
  have "0 < start" by (auto simp: start_def baseline_def)
  from grow_loop_total[OF this] obtain n where n: "grow_loop UINT_HALF start target = Some n" "target \<le> n" by blast
  have "need \<le> target" by (simp add: target_def)
  have "mdb_cursor_leaf_cache_ensure_prefix alloc env c cnt =
      (if decoded_prefix_cap c < need
       then Some (if \<not> alloc (8 * n) then (c, ENOMEM) else (c\<lparr>decoded_prefix_cap := n\<rparr>, MDB_SUCCESS))
       else Some (c, MDB_SUCCESS))"
    unfolding mdb_cursor_leaf_cache_ensure_prefix_def Let_def need_def[symmetric] base_def[symmetric]
      baseline_def[symmetric] target_def[symmetric] start_def[symmetric] n(1) by simp
  then show "\<exists>n\<ge>if cnt = 0 then 1 else cnt. mdb_cursor_leaf_cache_ensure_prefix alloc env c cnt =
      Some (if \<not> alloc (8 * n) then (c, ENOMEM) else (c\<lparr>decoded_prefix_cap := n\<rparr>, MDB_SUCCESS))"
    if "decoded_prefix_cap c < (if cnt = 0 then 1 else cnt)"
    using that n(2) \<open>need \<le> target\<close> by (intro exI[of _ n]) (simp add: need_def[symmetric])
next
  show "mdb_cursor_leaf_cache_ensure_prefix alloc env c cnt = Some (c, MDB_SUCCESS)"
    if "(if cnt = 0 then 1 else cnt) \<le> decoded_prefix_cap c"
    using that by (simp add: mdb_cursor_leaf_cache_ensure_prefix_def Let_def)
qed simp

section \<open>Coherence\<close>

text \<open>A leaf page whose keys are \<open>ks\<close>: the trunk, and the rest encoded against it.\<close>

definition canonical_leaf :: "MDB_page \<Rightarrow> bytes list \<Rightarrow> bool" where
  "canonical_leaf mp ks \<longleftrightarrow> IS_LEAF mp \<and> \<not> IS_LEAF2 mp \<and> ks \<noteq> [] \<and> NUMKEYS mp = length ks \<and>
     key_at mp 0 = ks ! 0 \<and> (\<forall>i. 0 < i \<and> i < length ks \<longrightarrow> key_at mp i = enc (ks ! 0) (ks ! i)) \<and>
     (\<forall>k\<in>set ks. length k \<le> mp_pad mp \<and> length k \<le> MDB_KEYBUF_MAX)"

definition cached_for :: "cache_env \<Rightarrow> MDB_cursor_leaf_cache \<Rightarrow> nat \<Rightarrow> bool" where
  "cached_for ce c a \<longleftrightarrow> (let mp = ce_deref ce a in
     decoded_pgno c = word_of_nat (mp_pgno mp) \<and> decoded_gen c = ce_txnid ce \<and> decoded_count c = NUMKEYS mp \<and>
     decoded_source c = (if IS_SUBP mp then Some a else None))"

definition leaf_cache_ok :: "cache_env \<Rightarrow> MDB_cursor_leaf_cache \<Rightarrow> nat \<Rightarrow> bytes list \<Rightarrow> bool" where
  "leaf_cache_ok ce c a ks \<longleftrightarrow> (cached_for ce c a \<longrightarrow>
     0 < decoded_vals_cap c \<and> 0 < decoded_stride c \<and> (\<forall>k\<in>set ks. length k \<le> decoded_stride c) \<and> decoded_stride c < 2 ^ 32 \<and>
     (decoded_slots_ready c \<longrightarrow> decoded_ready c 0 \<and>
       (\<forall>i<length ks. val_data c i = Some (i * decoded_stride c) \<and>
          (decoded_ready c i \<longrightarrow> val_size c i = length (ks ! i) \<and>
             mem_read (decoded_buf c) (i * decoded_stride c) (length (ks ! i)) = ks ! i))))"

definition cache_env_ok :: "cache_env \<Rightarrow> nat \<Rightarrow> bytes list \<Rightarrow> bool" where
  "cache_env_ok ce a ks \<longleftrightarrow> ce_prefix ce \<and> canonical_leaf (ce_deref ce a) ks \<and>
     (\<forall>k\<in>set ks. length k \<le> mdb_prefix_maxkey (ce_maxkeysize ce) (ce_env ce)) \<and>
     0 < mdb_prefix_maxkey (ce_maxkeysize ce) (ce_env ce) \<and> mdb_prefix_maxkey (ce_maxkeysize ce) (ce_env ce) < 2 ^ 32"

lemma leaf_cache_stride_ok:
  assumes "cache_env_ok ce a ks"
  shows "0 < leaf_cache_stride ce (ce_deref ce a)" "leaf_cache_stride ce (ce_deref ce a) < 2 ^ 32"
    "\<forall>k\<in>set ks. length k \<le> leaf_cache_stride ce (ce_deref ce a)"
proof -
  let ?mp = "ce_deref ce a" and ?limit = "mdb_prefix_maxkey (ce_maxkeysize ce) (ce_env ce)"
  have e: "ce_prefix ce" "\<not> IS_LEAF2 ?mp" "0 < NUMKEYS ?mp" "0 < ?limit"
      "?limit < 2 ^ 32" "\<forall>k\<in>set ks. length k \<le> mp_pad ?mp" "\<forall>k\<in>set ks. length k \<le> ?limit"
    using assms by (auto simp: cache_env_ok_def canonical_leaf_def)
  show "0 < leaf_cache_stride ce ?mp" "leaf_cache_stride ce ?mp < 2 ^ 32" "\<forall>k\<in>set ks. length k \<le> leaf_cache_stride ce ?mp"
    unfolding leaf_cache_stride_def Let_def using e by (auto split: if_splits)
qed


lemma foldl_upd: "foldl (\<lambda>f i. f(i := g i)) f0 [0..<n] = (\<lambda>i. if i < n then g i else f0 i)"
  by (induction n) (auto simp: fun_eq_iff)

lemma cache_envD:
  assumes "cache_env_ok ce a ks"
  shows "NUMKEYS (ce_deref ce a) = length ks" "ks \<noteq> []" "\<not> IS_LEAF2 (ce_deref ce a)" "length ks < 2 ^ 16"
    "key_at (ce_deref ce a) 0 = ks ! 0" "\<And>i. 0 < i \<Longrightarrow> i < length ks \<Longrightarrow> key_at (ce_deref ce a) i = enc (ks ! 0) (ks ! i)"
    "\<And>k. k \<in> set ks \<Longrightarrow> length k \<le> MDB_KEYBUF_MAX"
  using assms NUMKEYS_less[of "ce_deref ce a"] by (auto simp: cache_env_ok_def canonical_leaf_def)

lemma leaf_cache_prepare_cases:
  obtains (kept) "cached_for ce c a" "mdb_cursor_leaf_cache_prepare ce c a = Some (c, MDB_SUCCESS)"
  | (fail) c' where "mdb_cursor_leaf_cache_prepare ce c a = Some (c', ENOMEM)" "\<not> (\<forall>n. ce_alloc ce n)" "decoded_pgno c' = P_INVALID"
  | (fresh) c' where "mdb_cursor_leaf_cache_prepare ce c a = Some (c', MDB_SUCCESS)" "cached_for ce c' a"
      "NUMKEYS (ce_deref ce a) \<le> decoded_vals_cap c'" "\<not> decoded_slots_ready c'" "decoded_prefix_count c' = 0"
      "decoded_stride c' = leaf_cache_stride ce (ce_deref ce a)"
proof (cases "cached_for ce c a")
  case True
  then have "mdb_cursor_leaf_cache_prepare ce c a = Some (c, MDB_SUCCESS)"
    unfolding mdb_cursor_leaf_cache_prepare_def cached_for_def Let_def by simp
  then show ?thesis by (rule kept[OF True])
next
  case False
  let ?mp = "ce_deref ce a"
  let ?n = "NUMKEYS ?mp"
  have n: "?n \<le> 2 ^ 31" using NUMKEYS_less[of ?mp] by simp
  let ?c = "mdb_cursor_leaf_cache_reset c"
  have run: "mdb_cursor_leaf_cache_prepare ce c a =
      (case mdb_cursor_leaf_cache_ensure_vals (ce_alloc ce) ?c ?n of
        None \<Rightarrow> None
      | Some (cache, rc) \<Rightarrow>
          if rc \<noteq> MDB_SUCCESS then Some (mdb_cursor_leaf_cache_reset cache, rc)
          else
            map_option (\<lambda>(cache, rc).
              if rc \<noteq> MDB_SUCCESS then (mdb_cursor_leaf_cache_reset cache, rc)
              else (cache\<lparr>decoded_ready := fill (decoded_ready cache) False ?n,
                          val_data := fill (val_data cache) None ?n, val_size := fill (val_size cache) 0 ?n,
                          decoded_slots_ready := False, decoded_prefix_count := 0,
                          decoded_pgno := word_of_nat (mp_pgno ?mp), decoded_gen := ce_txnid ce, decoded_count := ?n,
                          decoded_stride := leaf_cache_stride ce ?mp,
                          decoded_source := (if IS_SUBP ?mp then Some a else None)\<rparr>, MDB_SUCCESS))
              (mdb_cursor_leaf_cache_ensure_ready (ce_alloc ce) cache ?n))"
    unfolding mdb_cursor_leaf_cache_prepare_def Let_def
    by (rule if_not_P[OF False[unfolded cached_for_def Let_def]])
  from ensure_vals_grown[OF n, of "ce_alloc ce" ?c] consider
      (fail) "mdb_cursor_leaf_cache_ensure_vals (ce_alloc ce) ?c ?n = Some (?c, ENOMEM)" "\<not> (\<forall>n. ce_alloc ce n)"
    | (ok) m where "m \<ge> ?n" "mdb_cursor_leaf_cache_ensure_vals (ce_alloc ce) ?c ?n = Some (?c\<lparr>decoded_vals_cap := m\<rparr>, MDB_SUCCESS)"
    unfolding grown_def by blast
  then show ?thesis
  proof cases
    case 1: fail
    show ?thesis
    proof (rule fail[OF _ 1(2)])
      show "mdb_cursor_leaf_cache_prepare ce c a = Some (mdb_cursor_leaf_cache_reset ?c, ENOMEM)" by (simp add: run 1(1))
    qed (simp add: mdb_cursor_leaf_cache_reset_def)
  next
    case ok
    let ?c2 = "?c\<lparr>decoded_vals_cap := m\<rparr>"
    from ensure_ready_grown[OF n, of "ce_alloc ce" ?c2] consider
        (fail) "mdb_cursor_leaf_cache_ensure_ready (ce_alloc ce) ?c2 ?n = Some (?c2, ENOMEM)" "\<not> (\<forall>n. ce_alloc ce n)"
      | (ok) r where "mdb_cursor_leaf_cache_ensure_ready (ce_alloc ce) ?c2 ?n = Some (?c2\<lparr>decoded_ready_cap := r\<rparr>, MDB_SUCCESS)"
      unfolding grown_def by blast
    then show ?thesis
    proof cases
      case 1: fail
      show ?thesis
      proof (rule fail[OF _ 1(2)])
        show "mdb_cursor_leaf_cache_prepare ce c a = Some (mdb_cursor_leaf_cache_reset ?c2, ENOMEM)" by (simp add: run ok(2) 1(1))
      qed (simp add: mdb_cursor_leaf_cache_reset_def)
    next
      case 2: ok
      let ?c3 = "?c2\<lparr>decoded_ready_cap := r\<rparr>"
      let ?c' = "?c3\<lparr>decoded_ready := fill (decoded_ready ?c3) False ?n, val_data := fill (val_data ?c3) None ?n,
          val_size := fill (val_size ?c3) 0 ?n, decoded_slots_ready := False, decoded_prefix_count := 0,
          decoded_pgno := word_of_nat (mp_pgno ?mp), decoded_gen := ce_txnid ce, decoded_count := ?n,
          decoded_stride := leaf_cache_stride ce ?mp, decoded_source := (if IS_SUBP ?mp then Some a else None)\<rparr>"
      show ?thesis
      proof (rule fresh)
        show "mdb_cursor_leaf_cache_prepare ce c a = Some (?c', MDB_SUCCESS)"
          unfolding run ok(2) by (simp add: 2)
      qed (use ok(1) in \<open>simp_all add: cached_for_def Let_def\<close>)
    qed
  qed
qed

lemma leaf_cache_prepare_spec:
  assumes env: "cache_env_ok ce a ks" and ok: "leaf_cache_ok ce c a ks"
  shows "(\<exists>c'. mdb_cursor_leaf_cache_prepare ce c a = Some (c', ENOMEM) \<and> \<not> (\<forall>n. ce_alloc ce n) \<and> decoded_pgno c' = P_INVALID) \<or>
    (\<exists>c'. mdb_cursor_leaf_cache_prepare ce c a = Some (c', MDB_SUCCESS) \<and> cached_for ce c' a \<and> leaf_cache_ok ce c' a ks)"
proof (cases rule: leaf_cache_prepare_cases[of ce c a])
  case kept
  then show ?thesis using ok by blast
next
  case (fail c')
  then show ?thesis by blast
next
  case (fresh c')
  have "0 < NUMKEYS (ce_deref ce a)" using cache_envD(1,2)[OF env] by simp
  then have "0 < decoded_vals_cap c'" using fresh(3) by linarith
  then have "leaf_cache_ok ce c' a ks" using fresh leaf_cache_stride_ok[OF env] by (simp add: leaf_cache_ok_def)
  then show ?thesis using fresh by blast
qed

lemma assign_slots_ok:
  assumes "0 < decoded_buf_size c" "0 < decoded_vals_cap c" "0 < s" "0 < n"
    and "decoded_stride c = s" "decoded_count c = n" "val_data c = v"
  shows "mdb_cursor_leaf_cache_assign_slots c = c\<lparr>val_data := (\<lambda>i. if i < n then Some (i * s) else v i)\<rparr>"
  using assms(1-4) unfolding mdb_cursor_leaf_cache_assign_slots_def foldl_upd assms(5-7) by simp

lemma materialize_spec:
  assumes env: "cache_env_ok ce a ks" and ok: "leaf_cache_ok ce c a ks" and c: "cached_for ce c a" "\<not> decoded_slots_ready c"
  shows "mdb_cursor_leaf_cache_materialize (ce_alloc ce) (ce_deref ce) c a = Some (c, ENOMEM) \<and> \<not> (\<forall>n. ce_alloc ce n) \<or>
    (\<exists>c'. mdb_cursor_leaf_cache_materialize (ce_alloc ce) (ce_deref ce) c a = Some (c', MDB_SUCCESS) \<and>
      cached_for ce c' a \<and> leaf_cache_ok ce c' a ks \<and> decoded_slots_ready c')"
proof -
  let ?n = "length ks" and ?s = "decoded_stride c" and ?mp = "ce_deref ce a"
  note e = cache_envD[OF env]
  have cnt: "decoded_count c = ?n" and src: "ce_deref ce (case decoded_source c of Some s \<Rightarrow> s | None \<Rightarrow> a) = ?mp"
    using c(1) e(1) by (auto simp: cached_for_def Let_def)
  have s: "0 < decoded_vals_cap c" "0 < ?s" "\<forall>k\<in>set ks. length k \<le> ?s" "?s < 2 ^ 32"
    using ok c(1) by (auto simp: leaf_cache_ok_def)
  have trunk: "length (ks ! 0) \<le> ?s" "0 < ?n" using s(3) e(2) by simp_all
  have ks0: "NODEKEY ?mp (NODEPTR ?mp 0) = ks ! 0" using e(5) by (simp add: key_at_def)
  then have ksz: "mn_ksize (mp_mem ?mp) (NODEPTR ?mp 0) = length (ks ! 0)"
    using length_key_at[of ?mp 0] by (simp add: key_at_def)
  from reserve_buf_grown[of "ce_alloc ce" c "?n * ?s"] consider
      (fail) "mdb_cursor_leaf_cache_reserve_buf (ce_alloc ce) c (?n * ?s) = Some (c, ENOMEM)" "\<not> (\<forall>n. ce_alloc ce n)"
    | (ok) m where "m \<ge> ?n * ?s" "mdb_cursor_leaf_cache_reserve_buf (ce_alloc ce) c (?n * ?s) = Some (c\<lparr>decoded_buf_size := m\<rparr>, MDB_SUCCESS)"
    unfolding grown_def by blast
  then show ?thesis
  proof cases
    case fail
    then show ?thesis
      using c(2) trunk(2) by (simp add: mdb_cursor_leaf_cache_materialize_def cnt)
  next
    case ok
    have "0 < ?n * ?s" using trunk(2) s(2) by simp
    then have "0 < m" using ok(1) by linarith
    have slots: "mdb_cursor_leaf_cache_assign_slots (c\<lparr>decoded_buf_size := m\<rparr>) =
        c\<lparr>decoded_buf_size := m, val_data := (\<lambda>i. if i < ?n then Some (i * ?s) else val_data c i)\<rparr>"
      by (rule assign_slots_ok) (use \<open>0 < m\<close> s(1,2) trunk(2) in \<open>simp_all add: cnt\<close>)
    let ?c' = "c\<lparr>decoded_buf_size := m, val_data := (\<lambda>i. if i < ?n then Some (i * ?s) else val_data c i),
        val_size := (fill (val_size c) 0 ?n)(0 := length (ks ! 0)), decoded_slots_ready := True,
        decoded_ready := (fill (decoded_ready c) False ?n)(0 := True),
        decoded_buf := mem_write (decoded_buf c) 0 (ks ! 0)\<rparr>"
    have "mdb_cursor_leaf_cache_materialize (ce_alloc ce) (ce_deref ce) c a = Some (?c', MDB_SUCCESS)"
      using c(2) trunk s(2) e(2,3)
      by (simp add: mdb_cursor_leaf_cache_materialize_def cnt ok(2) slots src ks0 ksz Let_def split: option.split)
    moreover have "cached_for ce ?c' a" using c(1) by (simp add: cached_for_def Let_def)
    moreover have "leaf_cache_ok ce ?c' a ks"
      using s by (auto simp: leaf_cache_ok_def fill_def mem_simps)
    ultimately show ?thesis by (intro disjI2 exI[of _ ?c']) simp
  qed
qed

lemma slots_disjoint: "i \<noteq> j \<Longrightarrow> n \<le> s \<Longrightarrow> k \<le> s \<Longrightarrow> i * s + n \<le> j * s \<or> j * s + k \<le> i * s" for i j s :: nat
proof (cases "i < j")
  case True
  assume "n \<le> s"
  from True have "Suc i * s \<le> j * s" by (intro mult_le_mono1) simp
  with \<open>n \<le> s\<close> show ?thesis by simp
next
  case False
  assume "i \<noteq> j" "k \<le> s"
  with False have "Suc j * s \<le> i * s" by (intro mult_le_mono1) simp
  with \<open>k \<le> s\<close> show ?thesis by simp
qed

lemma slot_spec:
  assumes env: "cache_env_ok ce a ks" and ok: "leaf_cache_ok ce c a ks" and c: "cached_for ce c a" "decoded_slots_ready c"
    and i: "0 < i" "i < length ks" and h: "header_ok (key_at (ce_deref ce a) i) header"
  shows "\<exists>c'. leaf_cache_slot ce c a i header = (c', Ok (ks ! i)) \<and> cached_for ce c' a \<and> leaf_cache_ok ce c' a ks"
proof -
  let ?s = "decoded_stride c" and ?mp = "ce_deref ce a"
  note e = cache_envD[OF env]
  have s: "0 < decoded_vals_cap c" "0 < ?s" "\<forall>k\<in>set ks. length k \<le> ?s" "?s < 2 ^ 32"
    and r: "decoded_ready c 0" "\<And>j. j < length ks \<Longrightarrow> val_data c j = Some (j * ?s)"
      "\<And>j. j < length ks \<Longrightarrow> decoded_ready c j \<Longrightarrow> val_size c j = length (ks ! j) \<and> mem_read (decoded_buf c) (j * ?s) (length (ks ! j)) = ks ! j"
    using ok c by (auto simp: leaf_cache_ok_def)
  have n0: "0 < length ks" using e(2) by simp
  have len: "\<And>j. j < length ks \<Longrightarrow> length (ks ! j) \<le> ?s" using s(3) by simp
  show ?thesis
  proof (cases "decoded_ready c i")
    case True
    then show ?thesis using r(2,3)[OF i(2)] ok c(1) by (simp add: leaf_cache_slot_def Let_def)
  next
    case False
    have t: "map_option (\<lambda>d. mem_read (decoded_buf c) d (val_size c 0)) (val_data c 0) = Some (ks ! 0)"
      using r(2,3)[OF n0] r(1) by simp
    have "length (ks ! 0) < 2 ^ 63" using len[OF n0] s(4) by simp
    then have dec: "mdb_leaf_decode_key (Some (ks ! 0)) (key_at ?mp i) ?s False header = Ok (ks ! i)"
      using decode_key_enc[of "ks ! 0" "ks ! i" ?s header False] h len[OF i(2)] unfolding e(6)[OF i] by blast
    let ?c' = "c\<lparr>decoded_buf := mem_write (decoded_buf c) (i * ?s) (ks ! i), val_size := (val_size c)(i := length (ks ! i)),
        decoded_ready := (decoded_ready c)(i := True)\<rparr>"
    have run: "leaf_cache_slot ce c a i header = (?c', Ok (ks ! i))"
      using False r(2)[OF i(2)] by (simp add: leaf_cache_slot_def Let_def t[unfolded option.map] dec mem_simps t)
    have "mem_read (mem_write (decoded_buf c) (i * ?s) (ks ! i)) (j * ?s) (length (ks ! j)) =
        mem_read (decoded_buf c) (j * ?s) (length (ks ! j))" if "j < length ks" "j \<noteq> i" for j
      using slots_disjoint[OF that(2) len[OF that(1)] len[OF i(2)]] by (intro mem_read_write_other) auto
    then have "leaf_cache_ok ce ?c' a ks"
      using s r by (auto simp: leaf_cache_ok_def mem_simps)
    moreover have "cached_for ce ?c' a" using c(1) by (simp add: cached_for_def Let_def)
    ultimately show ?thesis using run by (intro exI[of _ ?c']) simp
  qed
qed


text \<open>Pages of a database the cache can tell apart: by number, sub-pages by their address too.\<close>

definition distinct_pages :: "cache_env \<Rightarrow> nat set \<Rightarrow> bool" where
  "distinct_pages ce A \<longleftrightarrow> (\<forall>a\<in>A. word_of_nat (mp_pgno (ce_deref ce a)) \<noteq> P_INVALID \<and> (\<forall>b\<in>A. a \<noteq> b \<longrightarrow>
     (word_of_nat (mp_pgno (ce_deref ce a)) :: u64) \<noteq> word_of_nat (mp_pgno (ce_deref ce b)) \<or>
     IS_SUBP (ce_deref ce a) \<or> IS_SUBP (ce_deref ce b)))"

lemma cached_for_unique: "distinct_pages ce A \<Longrightarrow> a \<in> A \<Longrightarrow> b \<in> A \<Longrightarrow> cached_for ce c a \<Longrightarrow> cached_for ce c b \<Longrightarrow> a = b"
  by (cases "a = b") (auto simp: distinct_pages_def cached_for_def Let_def split: if_splits)

lemma leaf_cache_ok_others:
  assumes "distinct_pages ce A" "a \<in> A" "cached_for ce c a" "leaf_cache_ok ce c a (keys a)"
  shows "\<forall>b\<in>A. leaf_cache_ok ce c b (keys b)"
proof
  fix b assume b: "b \<in> A"
  show "leaf_cache_ok ce c b (keys b)"
  proof (cases "cached_for ce c b")
    case True
    then have "a = b" by (rule cached_for_unique[OF assms(1,2) b assms(3)])
    then show ?thesis using assms(4) by simp
  next
    case False
    then show ?thesis by (simp add: leaf_cache_ok_def)
  qed
qed

lemma leaf_cache_read_spec:
  assumes ok: "\<forall>b\<in>A. cache_env_ok ce b (keys b) \<and> leaf_cache_ok ce c b (keys b)"
    and d: "distinct_pages ce A" "a \<in> A" and i: "0 < i" "i < length (keys a)" and h: "header_ok (key_at (ce_deref ce a) i) header"
  shows "\<exists>c' r. leaf_cache_read ce c a i header = Some (c', Some r) \<and>
    (r = Ok (keys a ! i) \<or> r = Err ENOMEM \<and> \<not> (\<forall>n. ce_alloc ce n)) \<and> (\<forall>b\<in>A. leaf_cache_ok ce c' b (keys b))"
proof -
  have env: "cache_env_ok ce a (keys a)" and c: "leaf_cache_ok ce c a (keys a)" using ok d(2) by auto
  from leaf_cache_prepare_spec[OF env c] show ?thesis
  proof (elim disjE exE conjE)
    fix c' assume "mdb_cursor_leaf_cache_prepare ce c a = Some (c', ENOMEM)" "\<not> (\<forall>n. ce_alloc ce n)" "decoded_pgno c' = P_INVALID"
    moreover from this d(1) have "\<forall>b\<in>A. leaf_cache_ok ce c' b (keys b)"
      by (auto simp: leaf_cache_ok_def cached_for_def Let_def distinct_pages_def)
    ultimately show ?thesis by (simp add: leaf_cache_read_def)
  next
    fix c1 assume p: "mdb_cursor_leaf_cache_prepare ce c a = Some (c1, MDB_SUCCESS)"
      and c1: "cached_for ce c1 a" "leaf_cache_ok ce c1 a (keys a)"
    note others = leaf_cache_ok_others[where keys = keys, OF d]
    have "decoded_count c1 = length (keys a)" "decoded_pgno c1 = word_of_nat (mp_pgno (ce_deref ce a))"
      using c1(1) cache_envD(1)[OF env] by (simp_all add: cached_for_def Let_def)
    then have run: "leaf_cache_read ce c a i header =
        (if \<not> decoded_slots_ready c1 then
           map_option (\<lambda>(cache, rc). if rc \<noteq> MDB_SUCCESS then (cache, Some (Err rc))
             else map_prod id Some (leaf_cache_slot ce cache a i header))
             (mdb_cursor_leaf_cache_materialize (ce_alloc ce) (ce_deref ce) c1 a)
         else Some (map_prod id Some (leaf_cache_slot ce c1 a i header)))"
      using i(2) by (simp add: leaf_cache_read_def p)
    have slot: "\<exists>c'. leaf_cache_slot ce c2 a i header = (c', Ok (keys a ! i)) \<and> (\<forall>b\<in>A. leaf_cache_ok ce c' b (keys b))"
      if "cached_for ce c2 a" "leaf_cache_ok ce c2 a (keys a)" "decoded_slots_ready c2" for c2
      using slot_spec[OF env that(2,1,3) i h] others by blast
    show ?thesis
    proof (cases "decoded_slots_ready c1")
      case True
      then show ?thesis using slot[OF c1 True] by (auto simp: run)
    next
      case False
      from materialize_spec[OF env c1(2,1) False] show ?thesis
      proof (elim disjE exE conjE)
        assume "mdb_cursor_leaf_cache_materialize (ce_alloc ce) (ce_deref ce) c1 a = Some (c1, ENOMEM)" "\<not> (\<forall>n. ce_alloc ce n)"
        then show ?thesis using False others[OF c1] by (simp add: run)
      next
        fix c2 assume "mdb_cursor_leaf_cache_materialize (ce_alloc ce) (ce_deref ce) c1 a = Some (c2, MDB_SUCCESS)"
          "cached_for ce c2 a" "leaf_cache_ok ce c2 a (keys a)" "decoded_slots_ready c2"
        then show ?thesis using False slot[of c2] by (auto simp: run)
      qed
    qed
  qed
qed

section \<open>The running sums\<close>

definition sums_ok :: "cache_env \<Rightarrow> MDB_cursor_leaf_cache \<Rightarrow> nat \<Rightarrow> bool" where
  "sums_ok ce c a \<longleftrightarrow> (let mp = ce_deref ce a in
     decoded_pgno c = word_of_nat (mp_pgno mp) \<and> decoded_gen c = ce_txnid ce \<and> decoded_count c = NUMKEYS mp \<longrightarrow>
     decoded_prefix_count c \<le> NUMKEYS mp + 1 \<and>
     (\<forall>j<decoded_prefix_count c. decoded_prefix c j = (\<Sum>i<j. mdb_leaf_entry_contribution mp (NODEPTR mp i))))"

lemma running_sums:
  fixes f :: "nat \<Rightarrow> u64"
  assumes "lo \<le> limit" "r = (\<Sum>i<lo. f i)" "\<forall>j\<le>lo. pre j = (\<Sum>i<j. f i)"
  shows "\<exists>pre'. foldl (\<lambda>(pre, running) i. let running = running + f i in (pre(i + 1 := running), running)) (pre, r) [lo..<limit] =
    (pre', (\<Sum>i<limit. f i)) \<and> (\<forall>j\<le>limit. pre' j = (\<Sum>i<j. f i))"
  using assms(1)
proof (induction limit)
  case 0
  then show ?case using assms by simp
next
  case (Suc limit)
  show ?case
  proof (cases "lo = Suc limit")
    case True
    then show ?thesis using assms by simp
  next
    case False
    then have lo: "lo \<le> limit" using Suc.prems by simp
    from Suc.IH[OF this] obtain pre' where p: "foldl (\<lambda>(pre, running) i. let running = running + f i in (pre(i + 1 := running), running)) (pre, r) [lo..<limit] =
        (pre', (\<Sum>i<limit. f i))" "\<forall>j\<le>limit. pre' j = (\<Sum>i<j. f i)" by blast
    have up: "[lo..<Suc limit] = [lo..<limit] @ [limit]" using lo by simp
    show ?thesis
      unfolding up foldl_append p(1) using p(2)
      by (intro exI[of _ "pre'(limit + 1 := (\<Sum>i<limit. f i) + f limit)"]) (auto simp: Let_def le_Suc_eq)
  qed
qed


lemma contribution_cached_spec:
  assumes leaf: "IS_LEAF (ce_deref ce a)" and ok: "sums_ok ce c a"
    and pg: "word_of_nat (mp_pgno (ce_deref ce a)) \<noteq> P_INVALID"
  shows "\<exists>c'. leaf_prefix_contribution_cached ce use_cache c a limit =
    Some (c', mdb_leaf_prefix_contribution (ce_deref ce a) limit) \<and> sums_ok ce c' a"
proof -
  let ?mp = "ce_deref ce a"
  let ?n = "NUMKEYS ?mp"
  let ?f = "\<lambda>i. mdb_leaf_entry_contribution ?mp (NODEPTR ?mp i)"
  define lim where "lim = (if limit > ?n then ?n else limit)"
  have lim: "lim \<le> ?n" by (simp add: lim_def)
  have plain: "mdb_leaf_prefix_contribution ?mp limit = (\<Sum>i<lim. ?f i)" "mdb_leaf_prefix_contribution ?mp lim = (\<Sum>i<lim. ?f i)"
    by (auto simp: leaf_prefix_contribution_sum[OF leaf] lim_def min_def)
  show ?thesis
  proof (cases "IS_LEAF2 ?mp \<or> lim = 0 \<or> \<not> (ce_rdonly ce \<and> use_cache \<and> \<not> IS_SUBP ?mp)")
    case True
    have "word_of_nat lim = (\<Sum>i<lim. ?f i)" if "IS_LEAF2 ?mp"
      using that by (simp add: mdb_leaf_entry_contribution_def)
    with True show ?thesis
      using ok leaf by (auto simp: leaf_prefix_contribution_cached_def Let_def lim_def[symmetric] plain)
  next
    case False
    define start where "start = (if decoded_pgno c \<noteq> word_of_nat (mp_pgno ?mp) \<or> decoded_gen c \<noteq> ce_txnid ce \<or>
        decoded_count c \<noteq> ?n then mdb_cursor_leaf_cache_prepare ce c a else Some (c, MDB_SUCCESS))"
    define grow where "grow = (\<lambda>c :: MDB_cursor_leaf_cache. if decoded_prefix_cap c < ?n + 1
        then mdb_cursor_leaf_cache_ensure_prefix (ce_alloc ce) (ce_env ce) c (?n + 1) else Some (c, MDB_SUCCESS))"
    define fin where "fin = (\<lambda>cache. extend_sums ?mp cache lim)"
    have run: "leaf_prefix_contribution_cached ce use_cache c a limit =
        (case start of None \<Rightarrow> None
         | Some (cache, prc) \<Rightarrow> if prc \<noteq> MDB_SUCCESS then Some (cache, \<Sum>i<lim. ?f i)
             else map_option (\<lambda>(cache, erc). if erc \<noteq> MDB_SUCCESS then (cache, \<Sum>i<lim. ?f i) else fin cache) (grow cache))"
      unfolding leaf_prefix_contribution_cached_def Let_def lim_def[symmetric] plain start_def[symmetric] grow_def fin_def
      using False leaf by simp
    have fin: "\<exists>c'. fin c2 = (c', \<Sum>i<lim. ?f i) \<and> sums_ok ce c' a"
      if c2: "decoded_prefix_count c2 \<le> ?n + 1" "\<forall>j<decoded_prefix_count c2. decoded_prefix c2 j = (\<Sum>i<j. ?f i)" for c2
    proof -
      define c3 where "c3 = (if decoded_prefix_count c2 = 0
          then c2\<lparr>decoded_prefix := (decoded_prefix c2)(0 := 0), decoded_prefix_count := 1\<rparr> else c2)"
      have c3: "0 < decoded_prefix_count c3" "decoded_prefix_count c3 \<le> ?n + 1"
          "\<forall>j<decoded_prefix_count c3. decoded_prefix c3 j = (\<Sum>i<j. ?f i)"
        using c2 by (auto simp: c3_def)
      show ?thesis
      proof (cases "lim < decoded_prefix_count c3")
        case True
        then show ?thesis using c3 by (simp add: fin_def extend_sums_def Let_def c3_def[symmetric] sums_ok_def)
      next
        case False
        let ?lo = "decoded_prefix_count c3 - 1"
        have "?lo \<le> lim" "decoded_prefix c3 ?lo = (\<Sum>i<?lo. ?f i)" "\<forall>j\<le>?lo. decoded_prefix c3 j = (\<Sum>i<j. ?f i)"
          using False c3 by auto
        from running_sums[OF this] obtain pre' where
          "foldl (\<lambda>(pre, running) i. let running = running + ?f i in (pre(i + 1 := running), running))
            (decoded_prefix c3, decoded_prefix c3 ?lo) [?lo..<lim] = (pre', \<Sum>i<lim. ?f i)"
          "\<forall>j\<le>lim. pre' j = (\<Sum>i<j. ?f i)" by blast
        then show ?thesis
          using False lim unfolding fin_def extend_sums_def Let_def c3_def[symmetric] by (auto simp: sums_ok_def Let_def less_Suc_eq_le)
      qed
    qed
    have grow: "grow c2 = Some (c2, ENOMEM) \<or> (\<exists>m. grow c2 = Some (c2\<lparr>decoded_prefix_cap := m\<rparr>, MDB_SUCCESS)) \<or>
        grow c2 = Some (c2, MDB_SUCCESS)" for c2
      using ensure_prefix_grown[of "ce_alloc ce" "ce_env ce" c2 "?n + 1"] unfolding grow_def grown_def by auto
    have rest: "\<exists>c'. map_option (\<lambda>(cache, erc). if erc \<noteq> MDB_SUCCESS then (cache, \<Sum>i<lim. ?f i) else fin cache) (grow c2) =
        Some (c', \<Sum>i<lim. ?f i) \<and> sums_ok ce c' a"
      if c2: "decoded_prefix_count c2 \<le> ?n + 1" "\<forall>j<decoded_prefix_count c2. decoded_prefix c2 j = (\<Sum>i<j. ?f i)" "sums_ok ce c2 a" for c2
      using grow[of c2] fin[OF c2(1,2)] c2 fin[of "c2\<lparr>decoded_prefix_cap := m\<rparr>" for m] by (elim disjE exE) simp_all
    show ?thesis
    proof (cases "decoded_pgno c = word_of_nat (mp_pgno ?mp) \<and> decoded_gen c = ce_txnid ce \<and> decoded_count c = ?n")
      case True
      then have "start = Some (c, MDB_SUCCESS)" by (simp add: start_def)
      moreover have "decoded_prefix_count c \<le> ?n + 1" "\<forall>j<decoded_prefix_count c. decoded_prefix c j = (\<Sum>i<j. ?f i)"
        using ok True by (simp_all add: sums_ok_def Let_def)
      ultimately show ?thesis using rest[of c] ok by (simp add: run plain)
    next
      case other: False
      then have st: "start = mdb_cursor_leaf_cache_prepare ce c a" by (auto simp: start_def)
      show ?thesis
      proof (cases rule: leaf_cache_prepare_cases[of ce c a])
        case kept
        then show ?thesis using other by (simp add: cached_for_def Let_def)
      next
        case (fail c')
        then have "sums_ok ce c' a" using pg by (simp add: sums_ok_def Let_def)
        then show ?thesis by (simp add: run st fail(1) plain)
      next
        case (fresh c')
        then have "sums_ok ce c' a" by (simp add: sums_ok_def Let_def)
        then show ?thesis using rest[of c'] fresh by (simp add: run st plain)
      qed
    qed
  qed
qed


section \<open>The clone\<close>

lemma clone_spec:
  assumes alloc: "\<forall>n. alloc n" and src: "decoded_slots_ready src" "0 < decoded_stride src" "0 < decoded_count src"
      "decoded_count src \<le> 2 ^ 31" and dst: "decoded_count dst = 0"
  shows "\<exists>dst'. mdb_cursor_leaf_cache_clone alloc env dst src = Some (dst', MDB_SUCCESS) \<and> decoded_slots_ready dst' \<and>
    decoded_pgno dst' = decoded_pgno src \<and> decoded_gen dst' = decoded_gen src \<and> decoded_count dst' = decoded_count src \<and>
    decoded_source dst' = decoded_source src \<and>
    (\<forall>i<decoded_count src. decoded_ready dst' i = decoded_ready src i \<and> val_size dst' i = val_size src i \<and> val_data dst' i = None)"
proof -
  let ?n = "decoded_count src" and ?need = "decoded_count src * decoded_stride src"
  have total: "\<exists>n. r = Some (upd n c, MDB_SUCCESS)" if "grown (\<forall>n. alloc n) r c upd need" for r c upd need
    using that alloc unfolding grown_def by blast
  obtain d1 where v: "mdb_cursor_leaf_cache_ensure_vals alloc dst ?n = Some (d1, MDB_SUCCESS)" "decoded_count d1 = 0"
    using total[OF ensure_vals_grown[OF src(4)], of dst] dst by force
  obtain d2 where r: "mdb_cursor_leaf_cache_ensure_ready alloc d1 ?n = Some (d2, MDB_SUCCESS)" "decoded_count d2 = 0"
    using total[OF ensure_ready_grown[OF src(4)], of d1] v(2) by force
  define d3 where "d3 = d2\<lparr>decoded_ready := fill (decoded_ready d2) False ?n, val_data := fill (val_data d2) None ?n,
      val_size := fill (val_size d2) 0 ?n\<rparr>"
  have d3: "decoded_count d3 = 0" "\<forall>i<?n. val_data d3 i = None" using r(2) by (simp_all add: d3_def fill_def)
  obtain d4 where q: "(if decoded_prefix_count src > 0 then mdb_cursor_leaf_cache_ensure_prefix alloc env d3 (decoded_prefix_count src)
      else Some (d3, MDB_SUCCESS)) = Some (d4, MDB_SUCCESS)" "decoded_count d4 = 0" "\<forall>i<?n. val_data d4 i = None"
  proof (cases "decoded_prefix_count src > 0")
    case True
    then show ?thesis
      using total[OF ensure_prefix_grown, of env d3 "decoded_prefix_count src"] d3 that by force
  next
    case False
    then show ?thesis using that[of d3] d3 by simp
  qed
  define d5 where "d5 = d4\<lparr>decoded_prefix := (\<lambda>i. if i < decoded_prefix_count src then decoded_prefix src i else decoded_prefix d4 i),
      decoded_prefix_count := decoded_prefix_count src\<rparr>"
  obtain d6 where b: "mdb_cursor_leaf_cache_reserve_buf alloc d5 ?need = Some (d6, MDB_SUCCESS)"
      "decoded_count d6 = 0" "\<forall>i<?n. val_data d6 i = None"
    using total[OF reserve_buf_grown, of d5 ?need] q(2,3) by (force simp: d5_def)
  have slots: "mdb_cursor_leaf_cache_assign_slots d6 = d6"
    using b(2) by (simp add: mdb_cursor_leaf_cache_assign_slots_def)
  let ?need' = "if decoded_slots_ready src \<and> decoded_stride src > 0 then ?need else 0"
  have need: "?need' = ?need" "?need > 0" using src by simp_all
  show ?thesis
    unfolding mdb_cursor_leaf_cache_clone_def Let_def v(1) r(1) option.case prod.case d3_def[symmetric] q(1)
      d5_def[symmetric] need(1) b(1) slots
    using need(2) b(3) by simp
qed


section \<open>Sample pages\<close>

text \<open>A leaf page with the given stored keys and no data, each node in 32 bytes of its own.\<close>

definition sample_node :: "nat \<Rightarrow> bytes \<Rightarrow> mem \<Rightarrow> mem" where
  "sample_node i k m = mem_write m (64 + 32 * i) ([0, 0, 0, 0, 0, 0, word_of_nat (length k), 0] @ k)"

definition sample_leaf :: "nat \<Rightarrow> nat \<Rightarrow> bytes list \<Rightarrow> MDB_page" where
  "sample_leaf pgno pad stored = \<lparr>mp_pgno = pgno, mp_pad = pad, mp_flags = P_LEAF, mp_lower = 16 + 2 * length stored,
     mp_upper = 64, mp_ptrs = (\<lambda>i. 64 + 32 * i),
     mp_mem = foldr (\<lambda>(i, k). sample_node i k) (zip [0..<length stored] stored) (\<lambda>_. 0)\<rparr>"

text \<open>The keys abca, abcb, abcc and ad.\<close>

definition abc_keys :: "bytes list" where
  "abc_keys = [[97, 98, 99, 97], [97, 98, 99, 98], [97, 98, 99, 99], [97, 100]]"

definition abc_page :: MDB_page where
  "abc_page = sample_leaf 7 4 [[97, 98, 99, 97], [3, 98], [3, 99], [1, 100]]"

definition abc_env :: "bool \<Rightarrow> cache_env" where
  "abc_env rdonly = \<lparr>ce_alloc = (\<lambda>_. True), ce_deref = (\<lambda>_. abc_page),
     ce_env = \<lparr>me_maxkey = 511, me_nodemax = 1000, me_psize = 4096\<rparr>, ce_maxkeysize = 511, ce_rdonly = rdonly,
     ce_txnid = 5, ce_prefix = True, ce_md_pad = 0\<rparr>"

definition empty_cache :: MDB_cursor_leaf_cache where
  "empty_cache = \<lparr>val_data = (\<lambda>_. None), val_size = (\<lambda>_. 0), decoded_vals_cap = 0, decoded_ready = (\<lambda>_. False),
     decoded_ready_cap = 0, decoded_buf = (\<lambda>_. 0), decoded_buf_size = 0, decoded_stride = 0, decoded_prefix = (\<lambda>_. 0),
     decoded_prefix_cap = 0, decoded_prefix_count = 0, decoded_count = 0, decoded_slots_ready = False,
     decoded_pgno = P_INVALID, decoded_gen = 0, decoded_source = None\<rparr>"

lemma abc_fields:
  "IS_LEAF abc_page" "\<not> IS_LEAF2 abc_page" "\<not> IS_SUBP abc_page" "NUMKEYS abc_page = 4" "mp_pad abc_page = 4" "mp_pgno abc_page = 7"
  "key_at abc_page 0 = abc_keys ! 0" "key_at abc_page 1 = enc (abc_keys ! 0) (abc_keys ! 1)"
  "key_at abc_page 2 = enc (abc_keys ! 0) (abc_keys ! 2)" "key_at abc_page 3 = enc (abc_keys ! 0) (abc_keys ! 3)"
  by code_simp+

lemma abc_canonical: "canonical_leaf abc_page abc_keys"
proof -
  have "key_at abc_page i = enc (abc_keys ! 0) (abc_keys ! i)" if "0 < i" "i < 4" for i
  proof -
    have "i = 1 \<or> i = 2 \<or> i = 3" using that by auto
    then show ?thesis using abc_fields(8-10) by (elim disjE) simp_all
  qed
  moreover have "length abc_keys = 4" "abc_keys \<noteq> []" "\<forall>k\<in>set abc_keys. length k \<le> 4"
    by (simp_all add: abc_keys_def)
  ultimately show ?thesis
    using abc_fields(1-7) by (fastforce simp: canonical_leaf_def MDB_KEYBUF_MAX_def)
qed

lemma abc_env_ok: "cache_env_ok (abc_env r) 0 abc_keys" "distinct_pages (abc_env r) {0}"
  using abc_canonical abc_fields(6)
  by (simp_all add: cache_env_ok_def abc_env_def mdb_prefix_maxkey_def abc_keys_def distinct_pages_def P_INVALID_def)

lemma empty_cache_ok: "leaf_cache_ok (abc_env r) empty_cache a ks" "sums_ok (abc_env r) empty_cache a"
  by (simp_all add: leaf_cache_ok_def cached_for_def sums_ok_def empty_cache_def abc_env_def abc_fields(6) P_INVALID_def Let_def)

section \<open>Properties\<close>

text \<open>C24. Reading a key through the leaf cache gives the key of that node, or \<open>ENOMEM\<close> when an
  allocation failed, whatever page of the database the cache held before; and the cache still holds
  only right keys, for every page, so any sequence of reads over any pages is right.\<close>

theorem leaf_cache_read_correct:
  assumes "\<forall>b\<in>A. cache_env_ok ce b (keys b) \<and> leaf_cache_ok ce c b (keys b)" "distinct_pages ce A" "a \<in> A"
    and "0 < i" "i < length (keys a)" "header_ok (key_at (ce_deref ce a) i) header"
  shows "\<exists>c' r. leaf_cache_read ce c a i header = Some (c', Some r) \<and>
    (r = Ok (keys a ! i) \<or> r = Err ENOMEM \<and> \<not> (\<forall>n. ce_alloc ce n)) \<and> (\<forall>b\<in>A. leaf_cache_ok ce c' b (keys b))"
  using leaf_cache_read_spec[OF assms] .

theorem leaf_cache_read_correct_witness:
  "\<exists>c' r. leaf_cache_read (abc_env True) empty_cache 0 2 None = Some (c', Some r) \<and>
    (r = Ok (abc_keys ! 2) \<or> r = Err ENOMEM \<and> \<not> (\<forall>n. ce_alloc (abc_env True) n)) \<and>
    (\<forall>b\<in>{0}. leaf_cache_ok (abc_env True) c' b abc_keys)"
  by (rule leaf_cache_read_correct[where keys = "\<lambda>_. abc_keys"])
    (simp_all add: abc_env_ok empty_cache_ok, simp_all add: abc_keys_def header_ok_def)

text \<open>C25. The cached number of entries before a position of a leaf page is the number that the uncached
  code counts, for every state of the running sums in the cache and every outcome of the allocations.\<close>

theorem prefix_contribution_cached_correct:
  assumes "IS_LEAF (ce_deref ce a)" "sums_ok ce c a" "word_of_nat (mp_pgno (ce_deref ce a)) \<noteq> P_INVALID"
  shows "\<exists>c'. leaf_prefix_contribution_cached ce use_cache c a limit =
    Some (c', mdb_leaf_prefix_contribution (ce_deref ce a) limit) \<and> sums_ok ce c' a"
  using contribution_cached_spec[OF assms] .

theorem prefix_contribution_cached_correct_witness:
  "\<exists>c'. leaf_prefix_contribution_cached (abc_env True) True empty_cache 0 3 =
    Some (c', mdb_leaf_prefix_contribution (ce_deref (abc_env True) 0) 3) \<and> sums_ok (abc_env True) c' 0"
  by (rule prefix_contribution_cached_correct)
    (use abc_fields(1,6) empty_cache_ok(2) in \<open>simp_all add: abc_env_def P_INVALID_def\<close>)

text \<open>C26. Cloning a cache whose keys are decoded into a fresh one copies the sizes and the flags that
  say the keys are there, but no pointers: the slots are assigned before the stride and the count are
  copied, so every key that was decoded reads as a NULL pointer from the clone.\<close>

theorem clone_drops_pointers:
  assumes "\<forall>n. alloc n" "decoded_slots_ready src" "0 < decoded_stride src" "0 < decoded_count src" "decoded_count src \<le> 2 ^ 31"
    and "decoded_count dst = 0" "i < decoded_count src" "decoded_ready src i"
  shows "\<exists>dst'. mdb_cursor_leaf_cache_clone alloc env dst src = Some (dst', MDB_SUCCESS) \<and>
    decoded_pgno dst' = decoded_pgno src \<and> decoded_count dst' = decoded_count src \<and>
    leaf_cache_slot ce dst' a i header = (dst', Abort)"
proof -
  from clone_spec[OF assms(1-6), of env] obtain d where "mdb_cursor_leaf_cache_clone alloc env dst src = Some (d, MDB_SUCCESS)"
    "decoded_pgno d = decoded_pgno src" "decoded_count d = decoded_count src"
    "\<forall>i<decoded_count src. decoded_ready d i = decoded_ready src i \<and> val_size d i = val_size src i \<and> val_data d i = None" by blast
  then show ?thesis using assms(7,8) by (intro exI[of _ d]) (simp add: leaf_cache_slot_def)
qed

definition abc_cache :: MDB_cursor_leaf_cache where
  "abc_cache = fst (the (leaf_cache_read (abc_env True) empty_cache 0 2 None))"

theorem clone_drops_pointers_witness:
  "\<exists>dst'. mdb_cursor_leaf_cache_clone (\<lambda>_. True) (ce_env (abc_env True)) empty_cache abc_cache = Some (dst', MDB_SUCCESS) \<and>
    decoded_pgno dst' = decoded_pgno abc_cache \<and> decoded_count dst' = decoded_count abc_cache \<and>
    leaf_cache_slot (abc_env True) dst' 0 2 None = (dst', Abort)"
proof (rule clone_drops_pointers)
  show "decoded_slots_ready abc_cache" "0 < decoded_stride abc_cache" "0 < decoded_count abc_cache"
    "decoded_count abc_cache \<le> 2 ^ 31" "2 < decoded_count abc_cache" "decoded_ready abc_cache 2"
    by code_simp+
qed (simp_all add: empty_cache_def)

end
