(* ===== verification/Seq_Reader.thy ===== *)
theory Seq_Reader
  imports Leaf_Cache
begin

text \<open>
  How a cursor reads the key of a leaf node (\<open>mdb_cursor_read_key_at\<close> in \<open>mdb.c\<close>): the sequential fast
  path, which reuses the bytes of the previous key that are still in \<open>mc_keybuf\<close>, the leaf cache of
  read-only transactions, and the plain decoding; and the cache of the prefix a search key shares
  with a page's trunk.
\<close>

section \<open>The reader's part of a cursor\<close>

record reader =
  rd_seqexpect :: bool
  rd_leafcache :: bool
  rd_rankvalid :: bool
  mc_keybuf :: mem
  mc_key_in_buf :: bool
  mc_key_size :: nat
  mc_key_pgno :: u64
  mc_key_last :: nat
  mc_seq_pgno :: u64
  mc_seq_idx :: nat
  mc_seq_shared :: nat
  mc_seq_cached_shared :: nat
  mc_seq_cached_used :: nat
  mc_seq_cached_idx :: nat
  mc_seq_cached_pgno :: u64
  mc_seq_cache_valid :: bool
  mc_seq_keybuf_valid :: bool
  mc_seq_cmp_keyptr :: "nat option"
  mc_seq_cmp_keysize :: nat
  mc_seq_cmp_prefix :: nat
  mc_seq_cmp_pgno :: u64
  mc_leaf_cache :: MDB_cursor_leaf_cache
  mc_rank_cached :: u64
  mc_rank_offset :: u64

text \<open>\<open>(indx_t)~0\<close>\<close>

definition NO_IDX :: nat where "NO_IDX = 65535"

definition mdb_cursor_rank_invalidate :: "reader \<Rightarrow> reader" where
  "mdb_cursor_rank_invalidate mc = mc\<lparr>rd_rankvalid := False, mc_rank_cached := 0, mc_rank_offset := 0\<rparr>"

definition mdb_cursor_seq_invalidate :: "reader \<Rightarrow> reader" where
  "mdb_cursor_seq_invalidate mc = mdb_cursor_rank_invalidate (mc\<lparr>mc_seq_pgno := P_INVALID, mc_seq_idx := NO_IDX,
     mc_seq_shared := 0, mc_seq_cached_shared := 0, mc_seq_cached_used := 0, mc_seq_cached_idx := NO_IDX,
     mc_seq_cached_pgno := P_INVALID, mc_seq_cache_valid := False, mc_seq_keybuf_valid := False,
     mc_seq_cmp_keyptr := None, mc_seq_cmp_keysize := 0, mc_seq_cmp_prefix := 0, mc_seq_cmp_pgno := P_INVALID\<rparr>)"

text \<open>The header of a node: read off its first byte, taken from the cursor, or decoded.\<close>

definition seq_header :: "reader \<Rightarrow> MDB_page \<Rightarrow> nat \<Rightarrow> bytes \<Rightarrow> (nat \<times> nat) option" where
  "seq_header mc mp idx encoded =
     (let first = encoded ! 0 in
      if first AND 0x80 = 0 then Some (unat first, 1)
      else if mc_seq_cache_valid mc \<and> mc_seq_cached_pgno mc = word_of_nat (mp_pgno mp) \<and> mc_seq_cached_idx mc = idx
      then Some (mc_seq_cached_shared mc, mc_seq_cached_used mc)
      else case mdb_varint_decode encoded of Ok (shared64, used) \<Rightarrow> Some (unat shared64, used) | _ \<Rightarrow> None)"

text \<open>\<open>None\<close> is the return value 0: the fast path does not apply.\<close>

definition mdb_cursor_try_seq_fastpath :: "reader \<Rightarrow> MDB_page \<Rightarrow> nat \<Rightarrow> bytes \<Rightarrow> reader \<times> bytes option" where
  "mdb_cursor_try_seq_fastpath mc mp idx trunk =
     (let encoded = key_at mp idx; pgno = word_of_nat (mp_pgno mp) in
      if encoded = [] then (mc, None)
      else
        let have_prev = mc_seq_keybuf_valid mc \<and> mc_seq_pgno mc = pgno \<and> mc_seq_idx mc \<noteq> NO_IDX \<and> mc_seq_idx mc + 1 = idx;
            prev_shared = (if have_prev then mc_seq_shared mc else 0)
        in case seq_header mc mp idx encoded of
             None \<Rightarrow> (mc, None)
           | Some (shared, used) \<Rightarrow>
               if used > length encoded then (mc, None)
               else
                 let mc = mc\<lparr>mc_seq_cached_pgno := pgno, mc_seq_cached_idx := idx, mc_seq_cached_shared := shared,
                             mc_seq_cached_used := used, mc_seq_cache_valid := True\<rparr>
                 in if shared > length trunk then (mc, None)
                    else
                      let suffix_len = length encoded - used; needed = shared + suffix_len in
                      if needed > MDB_KEYBUF_MAX then (mc, None)
                      else
                        let reuse = (if have_prev then if prev_shared < shared then prev_shared else shared else 0);
                            dst = (if shared > reuse
                              then mem_write (mc_keybuf mc) reuse (take (shared - reuse) (drop reuse trunk)) else mc_keybuf mc);
                            dst = mem_write dst shared (drop used encoded)
                        in (mc\<lparr>mc_keybuf := dst, mc_key_in_buf := True, mc_key_size := needed, mc_key_pgno := pgno,
                               mc_key_last := idx, mc_seq_shared := shared, mc_seq_keybuf_valid := True\<rparr>,
                            Some (mem_read dst 0 needed)))"

text \<open>What \<open>read_key_at\<close> knows of the header before it decodes: the hint for the decoder and \<open>shared_hint\<close>.\<close>

definition header_hint :: "bytes \<Rightarrow> nat \<Rightarrow> MDB_prefix_header \<times> nat" where
  "header_hint encoded trunk_len =
     (if encoded \<noteq> [] then
        case mdb_prefix_decode_shared encoded of
          Ok (shared64, used) \<Rightarrow>
            (\<lparr>ph_shared = unat shared64, ph_used = used, ph_valid = True\<rparr>,
             if unat shared64 > trunk_len then trunk_len else unat shared64)
        | _ \<Rightarrow> (\<lparr>ph_shared = 0, ph_used = 0, ph_valid = False\<rparr>, 0)
      else (\<lparr>ph_shared = 0, ph_used = 0, ph_valid = False\<rparr>, 0))"

definition seq_forget :: "reader \<Rightarrow> reader" where
  "seq_forget mc = mc\<lparr>mc_seq_cache_valid := False, mc_seq_cached_pgno := P_INVALID, mc_seq_cached_idx := NO_IDX,
     mc_seq_cached_shared := 0, mc_seq_cached_used := 0\<rparr>"

text \<open>The last resort: the key is decoded into \<open>mc_keybuf\<close>.\<close>

definition read_key_plain :: "reader \<Rightarrow> MDB_page \<Rightarrow> nat \<Rightarrow> MDB_prefix_header \<Rightarrow> nat \<Rightarrow> reader \<times> bytes res" where
  "read_key_plain mc mp idx header shared_hint =
     (case mdb_leaf_decode_key (Some (key_at mp 0)) (key_at mp idx) MDB_KEYBUF_MAX False (if ph_valid header then Some header else None) of
        Ok k \<Rightarrow>
          (seq_forget (mc\<lparr>mc_keybuf := mem_write (mc_keybuf mc) 0 k, mc_key_in_buf := True, mc_key_size := length k,
             mc_key_pgno := word_of_nat (mp_pgno mp), mc_key_last := idx, mc_seq_shared := shared_hint,
             mc_seq_keybuf_valid := True\<rparr>), Ok k)
      | e \<Rightarrow> (mc\<lparr>mc_key_in_buf := True\<rparr>, e))"

text \<open>\<open>a\<close> is the address of the page; \<open>out\<close> is not NULL. The outer \<open>option\<close> is termination.\<close>

definition mdb_cursor_read_key_at :: "cache_env \<Rightarrow> reader \<Rightarrow> nat \<Rightarrow> nat \<Rightarrow> (reader \<times> bytes res) option" where
  "mdb_cursor_read_key_at ce mc a idx =
     (let mp = ce_deref ce a in
      if IS_LEAF2 mp then Some (mc, Ok (mem_read (mp_mem mp) (LEAF2KEY_at idx (mp_pad mp)) (mp_pad mp)))
      else if IS_LEAF mp then
        let encoded = key_at mp idx in
        if \<not> ce_prefix ce \<or> idx = 0 then
          let mc = (if ce_prefix ce
                then mc\<lparr>mc_key_pgno := word_of_nat (mp_pgno mp), mc_key_last := idx, mc_key_size := length encoded, mc_key_in_buf := False\<rparr>
                else mc)
          in Some (seq_forget (mc\<lparr>mc_seq_shared := 0, mc_seq_keybuf_valid := False\<rparr>), Ok encoded)
        else
          let trunk = key_at mp 0;
              (mc, fast) = (if rd_seqexpect mc then mdb_cursor_try_seq_fastpath mc mp idx trunk else (mc, None))
          in case fast of
               Some k \<Rightarrow> Some (mc, Ok k)
             | None \<Rightarrow>
                 let (header, shared_hint) = header_hint encoded (length trunk) in
                 if ce_rdonly ce \<and> rd_leafcache mc \<and> \<not> rd_seqexpect mc then
                   map_option (\<lambda>(cache, r).
                     let mc = mc\<lparr>mc_leaf_cache := cache\<rparr> in
                     case r of
                       None \<Rightarrow> read_key_plain mc mp idx header shared_hint
                     | Some (Ok k) \<Rightarrow> (mc\<lparr>mc_seq_shared := shared_hint\<rparr>, Ok k)
                     | Some e \<Rightarrow> (mc, e))
                     (leaf_cache_read ce (mc_leaf_cache mc) a idx (if ph_valid header then Some header else None))
                 else Some (read_key_plain mc mp idx header shared_hint)
      else Some (mc, Ok (NODEKEY mp (NODEPTR mp idx))))"

text \<open>
  How \<open>mdb_cursor_next\<close> reads the key of the entry it has arrived at; \<open>mdb_cursor_prev\<close> and the
  positioning operations call \<open>mdb_cursor_read_key_at\<close> alone.
\<close>

definition next_read_key :: "cache_env \<Rightarrow> reader \<Rightarrow> nat \<Rightarrow> nat \<Rightarrow> (reader \<times> bytes res) option" where
  "next_read_key ce mc a ki =
     (let mp = ce_deref ce a; pgno = word_of_nat (mp_pgno mp);
          mc = (if ki > 0 then mc\<lparr>rd_seqexpect := True, mc_seq_pgno := pgno, mc_seq_idx := ki - 1\<rparr>
                else mdb_cursor_seq_invalidate (mc\<lparr>rd_seqexpect := False\<rparr>))
      in map_option (\<lambda>(mc, r).
           let mc = mc\<lparr>rd_seqexpect := False\<rparr> in
           case r of
             Ok k \<Rightarrow> (mc\<lparr>mc_seq_pgno := pgno, mc_seq_idx := ki\<rparr>, Ok k)
           | e \<Rightarrow> (mdb_cursor_seq_invalidate mc, e))
         (mdb_cursor_read_key_at ce mc a ki))"

datatype reader_op = Next nat nat | Plain nat nat

fun read_op :: "cache_env \<Rightarrow> reader_op \<Rightarrow> reader \<Rightarrow> (reader \<times> bytes res) option" where
  "read_op ce (Next a ki) mc = next_read_key ce mc a ki"
| "read_op ce (Plain a ki) mc = mdb_cursor_read_key_at ce mc a ki"

fun read_ops :: "cache_env \<Rightarrow> reader_op list \<Rightarrow> reader \<Rightarrow> bytes res list option" where
  "read_ops ce [] mc = Some []"
| "read_ops ce (op # ops) mc =
     (case read_op ce op mc of
        None \<Rightarrow> None
      | Some (mc, r) \<Rightarrow> map_option (\<lambda>rs. r # rs) (read_ops ce ops mc))"

text \<open>
  The cached comparison prefix. The search key is its pointer and its bytes; \<open>None\<close> is NULL.
\<close>

fun common_loop :: "bytes \<Rightarrow> bytes \<Rightarrow> nat" where
  "common_loop (x # xs) (y # ys) = (if x = y then 1 + common_loop xs ys else 0)"
| "common_loop xs ys = 0"

definition mdb_cursor_seq_cmp_refresh :: "bool \<Rightarrow> reader \<Rightarrow> MDB_page \<Rightarrow> (nat \<times> bytes) option \<Rightarrow> reader \<times> nat" where
  "mdb_cursor_seq_cmp_refresh prefix mc mp search_key =
     (let none = mc\<lparr>mc_seq_cmp_pgno := P_INVALID, mc_seq_cmp_keyptr := None, mc_seq_cmp_keysize := 0, mc_seq_cmp_prefix := 0\<rparr> in
      case search_key of
        None \<Rightarrow> (none, 0)
      | Some (ptr, key) \<Rightarrow>
          if mc_seq_cmp_pgno mc = word_of_nat (mp_pgno mp) \<and> mc_seq_cmp_keyptr mc = Some ptr \<and>
             mc_seq_cmp_keysize mc = length key
          then (mc, mc_seq_cmp_prefix mc)
          else if \<not> prefix \<or> \<not> IS_LEAF mp \<or> NUMKEYS mp = 0 then (none, 0)
          else
            let n = common_loop (key_at mp 0) key
            in (mc\<lparr>mc_seq_cmp_pgno := word_of_nat (mp_pgno mp), mc_seq_cmp_keyptr := Some ptr,
                   mc_seq_cmp_keysize := length key, mc_seq_cmp_prefix := n\<rparr>, n))"


section \<open>Reading one page\<close>

text \<open>What is in the cursor agrees with the page: the shared bytes in the key buffer, and the cached header.\<close>

definition seq_ok :: "reader \<Rightarrow> MDB_page \<Rightarrow> bytes list \<Rightarrow> bool" where
  "seq_ok mc mp ks \<longleftrightarrow>
     (mc_seq_keybuf_valid mc \<longrightarrow> mc_seq_shared mc \<le> length (ks ! 0) \<and>
        mem_read (mc_keybuf mc) 0 (mc_seq_shared mc) = take (mc_seq_shared mc) (ks ! 0)) \<and>
     (mc_seq_cache_valid mc \<and> mc_seq_cached_pgno mc = word_of_nat (mp_pgno mp) \<longrightarrow>
        (\<forall>i. mc_seq_cached_idx mc = i \<and> 0 < i \<and> i < length ks \<longrightarrow>
           mc_seq_cached_shared mc = mdb_leaf_shared_prefix (ks ! 0) (ks ! i) \<and>
           mc_seq_cached_used mc = mdb_varint_length (word_of_nat (mdb_leaf_shared_prefix (ks ! 0) (ks ! i)))))"

lemma canonical_leafD:
  assumes "canonical_leaf mp ks"
  shows "IS_LEAF mp" "\<not> IS_LEAF2 mp" "ks \<noteq> []" "key_at mp 0 = ks ! 0" "length (ks ! 0) \<le> 511"
    "\<And>i. 0 < i \<Longrightarrow> i < length ks \<Longrightarrow> key_at mp i = enc (ks ! 0) (ks ! i)" "\<And>i. i < length ks \<Longrightarrow> length (ks ! i) \<le> 511"
  using assms by (auto simp: canonical_leaf_def MDB_KEYBUF_MAX_def)

lemma unat_first: "unat (ucast (b :: byte) :: u64) = unat b"
proof -
  have "unat b < 256" using unsigned_less[of b] by simp
  then have "take_bit 64 (unat b) = unat b" by (intro take_bit_nat_eq_self) simp
  then show ?thesis by (simp add: unsigned_ucast_eq)
qed

lemma seq_header_spec:
  assumes c: "canonical_leaf mp ks" and ok: "seq_ok mc mp ks" and i: "0 < i" "i < length ks"
  shows "seq_header mc mp i (enc (ks ! 0) (ks ! i)) =
    Some (mdb_leaf_shared_prefix (ks ! 0) (ks ! i), mdb_varint_length (word_of_nat (mdb_leaf_shared_prefix (ks ! 0) (ks ! i))))"
    (is "seq_header mc mp i ?e = Some (?n, ?u)")
proof -
  have t: "length (ks ! 0) < 2 ^ 63" using canonical_leafD(5)[OF c] by simp
  then have n: "unat (word_of_nat ?n :: u64) = ?n" using shared_prefix_le(1)[of "ks ! 0" "ks ! i"] by (intro unat_small) simp
  note dec = decode_shared_enc[OF t, of "ks ! i"]
  show ?thesis
  proof (cases "?e ! 0 AND 0x80 = 0")
    case True
    then have eq: "(ucast (?e ! 0) :: u64) = word_of_nat ?n" "?u = 1"
      using dec by (simp_all add: mdb_prefix_decode_shared_def)
    have "unat (?e ! 0) = ?n" using unat_first[of "?e ! 0"] unfolding eq(1) n by simp
    with True eq(2) show ?thesis by (simp add: seq_header_def)
  next
    case False
    have "mdb_varint_decode ?e = Ok (word_of_nat ?n, ?u)" using dec unfolding decode_shared_varint .
    with False ok i n show ?thesis by (simp add: seq_header_def Let_def seq_ok_def)
  qed
qed

lemma take_mem_read: "r \<le> n \<Longrightarrow> take r (mem_read m a n) = mem_read m a r"
  by (simp add: mem_read_def take_map)

lemma buffer_spec:
  assumes "r \<le> sh" "sh \<le> length t" "mem_read b 0 r = take r t" "sh \<le> length k" "take sh k = take sh t"
  shows "mem_read (mem_write (if sh > r then mem_write b r (take (sh - r) (drop r t)) else b) sh (drop sh k)) 0 (length k) = k"
proof -
  let ?b = "if sh > r then mem_write b r (take (sh - r) (drop r t)) else b"
  have "mem_read ?b 0 sh = take sh t"
  proof -
    have sh: "sh = r + (sh - r)" using assms(1) by simp
    have "mem_read ?b 0 r = take r t" using assms(2,3) by (auto simp: mem_simps)
    moreover have "mem_read ?b r (sh - r) = take (sh - r) (drop r t)" using assms(1,2) by (auto simp: mem_simps)
    ultimately have "mem_read ?b 0 (r + (sh - r)) = take r t @ take (sh - r) (drop r t)"
      unfolding mem_read_add by simp
    also have "\<dots> = take (r + (sh - r)) t" by (rule take_add[symmetric])
    finally show ?thesis using sh by simp
  qed
  then have "mem_read (mem_write ?b sh (drop sh k)) 0 sh = take sh k" using assms(5) by (simp add: mem_simps)
  moreover have "mem_read (mem_write ?b sh (drop sh k)) sh (length k - sh) = drop sh k" by (simp add: mem_simps)
  moreover have "length k = sh + (length k - sh)" using assms(4) by simp
  ultimately show ?thesis using mem_read_add[of "mem_write ?b sh (drop sh k)" 0 sh "length k - sh"] by simp
qed

text \<open>
  The fast path, whatever the key buffer holds: \<open>reused\<close> is the number of its bytes that are taken for bytes of the key.
  Only the cached header has to agree with the page.
\<close>

definition reused :: "reader \<Rightarrow> MDB_page \<Rightarrow> bytes list \<Rightarrow> nat \<Rightarrow> nat" where
  "reused mc mp ks i =
     (if mc_seq_keybuf_valid mc \<and> mc_seq_pgno mc = word_of_nat (mp_pgno mp) \<and> mc_seq_idx mc \<noteq> NO_IDX \<and> mc_seq_idx mc + 1 = i
      then min (mc_seq_shared mc) (mdb_leaf_shared_prefix (ks ! 0) (ks ! i)) else 0)"

definition header_ok_in :: "reader \<Rightarrow> MDB_page \<Rightarrow> bytes list \<Rightarrow> bool" where
  "header_ok_in mc mp ks \<longleftrightarrow> seq_ok (mc\<lparr>mc_seq_keybuf_valid := False\<rparr>) mp ks"

lemma seq_ok_header: "seq_ok mc mp ks \<Longrightarrow> header_ok_in mc mp ks"
  by (simp add: header_ok_in_def seq_ok_def)

lemma fastpath_run:
  assumes c: "canonical_leaf mp ks" and ok: "header_ok_in mc mp ks" and i: "0 < i" "i < length ks"
  defines "t \<equiv> ks ! 0" and "k \<equiv> ks ! i" and "r \<equiv> reused mc mp ks i"
  defines "sh \<equiv> mdb_leaf_shared_prefix t k"
  defines "b \<equiv> mem_write (if sh > r then mem_write (mc_keybuf mc) r (take (sh - r) (drop r t)) else mc_keybuf mc) sh (drop sh k)"
  shows "mdb_cursor_try_seq_fastpath mc mp i (key_at mp 0) =
    (mc\<lparr>mc_seq_cached_pgno := word_of_nat (mp_pgno mp), mc_seq_cached_idx := i, mc_seq_cached_shared := sh,
      mc_seq_cached_used := mdb_varint_length (word_of_nat sh), mc_seq_cache_valid := True, mc_keybuf := b, mc_key_in_buf := True,
      mc_key_size := length k, mc_key_pgno := word_of_nat (mp_pgno mp), mc_key_last := i, mc_seq_shared := sh, mc_seq_keybuf_valid := True\<rparr>,
     Some (mem_read (mc_keybuf mc) 0 r @ drop r k))"
proof -
  define u where "u = mdb_varint_length (word_of_nat sh)"
  note d = canonical_leafD[OF c]
  have e: "key_at mp 0 = t" "key_at mp i = enc t k" "enc t k \<noteq> []" using d(4) d(6)[OF i] by (simp_all add: t_def k_def)
  have enc: "drop u (enc t k) = drop sh k" "length (enc t k) = u + (length k - sh)"
    by (simp_all add: enc_eq u_def sh_def)
  have sh: "sh \<le> length t" "sh \<le> length k" "take sh k = take sh t"
    using shared_prefix_le[of t k] shared_prefix_take[of sh t k] by (simp_all add: sh_def)
  have len: "sh + (length (enc t k) - u) = length k" "\<not> length k > MDB_KEYBUF_MAX" "\<not> u > length (enc t k)"
    using enc(2) sh(2) d(7)[OF i(2)] by (simp_all add: MDB_KEYBUF_MAX_def k_def)
  have r: "r = (if mc_seq_keybuf_valid mc \<and> mc_seq_pgno mc = word_of_nat (mp_pgno mp) \<and> mc_seq_idx mc \<noteq> NO_IDX \<and>
      mc_seq_idx mc + 1 = i then if mc_seq_shared mc < sh then mc_seq_shared mc else sh else 0)"
    by (simp add: r_def reused_def sh_def t_def k_def min_def)
  have "r \<le> sh" by (simp add: r)
  have hdr: "seq_header mc mp i (enc t k) = Some (sh, u)"
  proof -
    have "seq_header (mc\<lparr>mc_seq_keybuf_valid := False\<rparr>) mp i e = seq_header mc mp i e" for e
      unfolding seq_header_def Let_def by simp
    then show ?thesis using seq_header_spec[OF c ok[unfolded header_ok_in_def] i] unfolding t_def k_def sh_def u_def by simp
  qed
  let ?t = "mem_read (mc_keybuf mc) 0 r @ drop r t" and ?k = "mem_read (mc_keybuf mc) 0 r @ drop r k"
  have "take (sh - r) (drop r k) = take (sh - r) (drop r t)" using sh(3) by (metis drop_take)
  then have tk: "take sh ?k = take sh ?t" by simp
  have buf: "mem_read b 0 (length k) = ?k"
  proof -
    have "drop r ?t = drop r t" "drop sh ?k = drop sh k" "length ?k = length k" using sh(1,2) \<open>r \<le> sh\<close> by simp_all
    then show ?thesis using buffer_spec[OF \<open>r \<le> sh\<close> _ _ _ tk, of "mc_keybuf mc"] sh(1,2) \<open>r \<le> sh\<close> unfolding b_def by auto
  qed
  have "mdb_cursor_try_seq_fastpath mc mp i t =
    (mc\<lparr>mc_seq_cached_pgno := word_of_nat (mp_pgno mp), mc_seq_cached_idx := i, mc_seq_cached_shared := sh,
      mc_seq_cached_used := u, mc_seq_cache_valid := True, mc_keybuf := b, mc_key_in_buf := True,
      mc_key_size := length k, mc_key_pgno := word_of_nat (mp_pgno mp), mc_key_last := i, mc_seq_shared := sh, mc_seq_keybuf_valid := True\<rparr>,
     Some (mem_read b 0 (length k)))"
    using e(3) sh(1) len
    unfolding mdb_cursor_try_seq_fastpath_def e(2) Let_def hdr option.case prod.case enc(1) len(1)
    by (simp add: r b_def)
  then show ?thesis unfolding e(1) buf u_def .
qed

lemma fastpath_spec:
  assumes c: "canonical_leaf mp ks" and ok: "seq_ok mc mp ks" and i: "0 < i" "i < length ks"
  shows "\<exists>mc'. mdb_cursor_try_seq_fastpath mc mp i (key_at mp 0) = (mc', Some (ks ! i)) \<and> seq_ok mc' mp ks"
proof -
  let ?t = "ks ! 0" and ?k = "ks ! i"
  let ?sh = "mdb_leaf_shared_prefix ?t ?k" and ?r = "reused mc mp ks i"
  note run = fastpath_run[OF c seq_ok_header[OF ok] i]
  have sh: "?sh \<le> length ?t" "?sh \<le> length ?k" "take ?sh ?k = take ?sh ?t"
    using shared_prefix_le[of ?t ?k] shared_prefix_take[of ?sh ?t ?k] by simp_all
  have rs: "?r \<le> ?sh" by (simp add: reused_def)
  have r: "mem_read (mc_keybuf mc) 0 ?r = take ?r ?t"
  proof (cases "mc_seq_keybuf_valid mc \<and> ?r \<le> mc_seq_shared mc")
    case True
    then have "mem_read (mc_keybuf mc) 0 ?r = take ?r (mem_read (mc_keybuf mc) 0 (mc_seq_shared mc))" by (simp add: take_mem_read)
    also have "\<dots> = take ?r (take (mc_seq_shared mc) ?t)" using ok True by (simp add: seq_ok_def)
    finally show ?thesis using True by (simp add: min_def)
  next
    case False
    then have "?r = 0" by (auto simp: reused_def split: if_splits)
    then show ?thesis by simp
  qed
  have "take ?r ?k = take ?r ?t" using shared_prefix_take[OF rs] by simp
  then have key: "mem_read (mc_keybuf mc) 0 ?r @ drop ?r ?k = ?k" unfolding r by (metis append_take_drop_id)
  let ?b = "mem_write (if ?sh > ?r then mem_write (mc_keybuf mc) ?r (take (?sh - ?r) (drop ?r ?t)) else mc_keybuf mc) ?sh (drop ?sh ?k)"
  have "mem_read ?b 0 ?sh = take ?sh (mem_read ?b 0 (?sh + (length ?k - ?sh)))" unfolding mem_read_add by simp
  also have "\<dots> = take ?sh ?t" using buffer_spec[OF rs sh(1) r sh(2,3)] sh(2,3) by simp
  finally show ?thesis unfolding run key using sh(1) by (simp add: seq_ok_def)
qed


lemma read_key_plain_spec:
  assumes c: "canonical_leaf mp ks" and i: "0 < i" "i < length ks" and h: "header_hint (key_at mp i) (length (key_at mp 0)) = (header, hint)"
  shows "\<exists>mc'. read_key_plain mc mp i header hint = (mc', Ok (ks ! i)) \<and> seq_ok mc' mp ks \<and> mc_seq_keybuf_valid mc' \<and>
    mc_seq_shared mc' = mdb_leaf_shared_prefix (ks ! 0) (ks ! i) \<and> \<not> mc_seq_cache_valid mc'"
proof -
  let ?t = "ks ! 0" and ?k = "ks ! i" and ?n = "mdb_leaf_shared_prefix (ks ! 0) (ks ! i)"
  note d = canonical_leafD[OF c]
  have t: "length ?t < 2 ^ 63" using d(5) by simp
  have n: "unat (word_of_nat ?n :: u64) = ?n" using shared_prefix_le(1)[of ?t ?k] t by (intro unat_small) simp
  have hint: "header = \<lparr>ph_shared = ?n, ph_used = mdb_varint_length (word_of_nat ?n), ph_valid = True\<rparr>" "hint = ?n"
    using h shared_prefix_le(1)[of ?t ?k] by (auto simp: header_hint_def d(4) d(6)[OF i] decode_shared_enc[OF t] n)
  have "header_ok (enc ?t ?k) (Some header)"
    using n by (simp add: header_ok_def hint(1) decode_shared_enc[OF t])
  then have "mdb_leaf_decode_key (Some ?t) (enc ?t ?k) MDB_KEYBUF_MAX False (Some header) = Ok ?k"
    using decode_key_enc[OF t _] d(7)[OF i(2)] by (simp add: MDB_KEYBUF_MAX_def)
  moreover have "mem_read (mem_write m 0 ?k) 0 ?n = take ?n ?t" for m
  proof -
    have "mem_read (mem_write m 0 ?k) 0 ?n = take ?n (mem_read (mem_write m 0 ?k) 0 (length ?k))"
      by (rule take_mem_read[symmetric]) (rule shared_prefix_le(2))
    then show ?thesis using shared_prefix_take[OF order_refl, of ?t ?k] by (simp add: mem_simps)
  qed
  ultimately show ?thesis
    unfolding read_key_plain_def d(4) d(6)[OF i]
    using hint shared_prefix_le(1)[of ?t ?k] by (simp add: seq_ok_def seq_forget_def)
qed

lemma read_key_at_spec:
  assumes c: "canonical_leaf (ce_deref ce a) ks" and p: "ce_prefix ce" "\<not> ce_rdonly ce"
    and ok: "seq_ok mc (ce_deref ce a) ks" and i: "i < length ks"
  shows "\<exists>mc'. mdb_cursor_read_key_at ce mc a i = Some (mc', Ok (ks ! i)) \<and> seq_ok mc' (ce_deref ce a) ks"
proof -
  let ?mp = "ce_deref ce a"
  note d = canonical_leafD[OF c]
  show ?thesis
  proof (cases "i = 0")
    case True
    then show ?thesis
      using d(1,2) p by (simp add: mdb_cursor_read_key_at_def d(4) seq_ok_def seq_forget_def Let_def)
  next
    case False
    then have i0: "0 < i" by simp
    obtain header hint where h: "header_hint (key_at ?mp i) (length (key_at ?mp 0)) = (header, hint)" by fastforce
    obtain mc1 where f: "mdb_cursor_try_seq_fastpath mc ?mp i (key_at ?mp 0) = (mc1, Some (ks ! i))" "seq_ok mc1 ?mp ks"
      using fastpath_spec[OF c ok i0 i] by blast
    obtain mc2 where g: "read_key_plain mc ?mp i header hint = (mc2, Ok (ks ! i))" "seq_ok mc2 ?mp ks"
      using read_key_plain_spec[OF c i0 i h] by blast
    show ?thesis
      using False d(1,2) p f g h by (simp add: mdb_cursor_read_key_at_def Let_def)
  qed
qed

lemma seq_ok_cong:
  assumes "seq_ok mc mp ks" "mc_seq_keybuf_valid mc' \<longrightarrow> mc_seq_keybuf_valid mc \<and> mc_seq_shared mc' = mc_seq_shared mc \<and> mc_keybuf mc' = mc_keybuf mc"
    and "mc_seq_cache_valid mc' \<longrightarrow> mc_seq_cache_valid mc \<and> mc_seq_cached_pgno mc' = mc_seq_cached_pgno mc \<and> mc_seq_cached_idx mc' = mc_seq_cached_idx mc \<and>
      mc_seq_cached_shared mc' = mc_seq_cached_shared mc \<and> mc_seq_cached_used mc' = mc_seq_cached_used mc"
  shows "seq_ok mc' mp ks"
  using assms unfolding seq_ok_def by auto

text \<open>NEXT, whatever the key buffer holds.\<close>

lemma next_read_key_any:
  assumes c: "canonical_leaf (ce_deref ce a) ks" and p: "ce_prefix ce" and ok: "header_ok_in mc (ce_deref ce a) ks"
    and i: "0 < i" "i < length ks" "i \<le> NO_IDX"
  defines "r \<equiv> (if mc_seq_keybuf_valid mc then min (mc_seq_shared mc) (mdb_leaf_shared_prefix (ks ! 0) (ks ! i)) else 0)"
  shows "\<exists>mc'. next_read_key ce mc a i = Some (mc', Ok (mem_read (mc_keybuf mc) 0 r @ drop r (ks ! i)))"
proof -
  let ?mp = "ce_deref ce a"
  define mc1 where "mc1 = mc\<lparr>rd_seqexpect := True, mc_seq_pgno := word_of_nat (mp_pgno ?mp), mc_seq_idx := i - 1\<rparr>"
  have "header_ok_in mc1 ?mp ks" using ok by (simp add: header_ok_in_def seq_ok_def mc1_def)
  note run = fastpath_run[OF c this i(1,2)]
  have "i - 1 \<noteq> NO_IDX" using i(1,3) by linarith
  then have r: "reused mc1 ?mp ks i = r" using i(1) by (simp add: reused_def r_def mc1_def)
  obtain mc2 where "mdb_cursor_try_seq_fastpath mc1 ?mp i (key_at ?mp 0) = (mc2, Some (mem_read (mc_keybuf mc) 0 r @ drop r (ks ! i)))"
    using run unfolding r by (simp add: mc1_def)
  then have "mdb_cursor_read_key_at ce mc1 a i = Some (mc2, Ok (mem_read (mc_keybuf mc) 0 r @ drop r (ks ! i)))"
    using canonical_leafD(1,2)[OF c] p i(1) by (simp add: mdb_cursor_read_key_at_def Let_def mc1_def)
  moreover have "(if 0 < i then mc\<lparr>rd_seqexpect := True, mc_seq_pgno := word_of_nat (mp_pgno ?mp), mc_seq_idx := i - 1\<rparr>
      else mdb_cursor_seq_invalidate (mc\<lparr>rd_seqexpect := False\<rparr>)) = mc1" using i(1) by (simp add: mc1_def)
  ultimately show ?thesis unfolding next_read_key_def Let_def by simp
qed

lemma mixed_key:
  assumes "r \<le> mdb_leaf_shared_prefix (ks ! 0) k" "length xs = r"
  shows "xs @ drop r k = k \<longleftrightarrow> xs = take r (ks ! 0)"
proof -
  let ?n = "mdb_leaf_shared_prefix (ks ! 0) k"
  have "take r k = take r (ks ! 0)"
    using shared_prefix_take[OF assms(1)] by simp
  moreover have "xs @ drop r k = k \<longleftrightarrow> xs = take r k"
    using assms by (metis append_eq_conv_conj append_take_drop_id)
  ultimately show ?thesis by simp
qed

lemma next_read_key_spec:
  assumes c: "canonical_leaf (ce_deref ce a) ks" and p: "ce_prefix ce" "\<not> ce_rdonly ce"
    and ok: "seq_ok mc (ce_deref ce a) ks" and i: "i < length ks"
  shows "\<exists>mc'. next_read_key ce mc a i = Some (mc', Ok (ks ! i)) \<and> seq_ok mc' (ce_deref ce a) ks"
proof -
  let ?mp = "ce_deref ce a"
  define mc1 where "mc1 = (if i > 0 then mc\<lparr>rd_seqexpect := True, mc_seq_pgno := word_of_nat (mp_pgno ?mp), mc_seq_idx := i - 1\<rparr>
      else mdb_cursor_seq_invalidate (mc\<lparr>rd_seqexpect := False\<rparr>))"
  have "seq_ok mc1 ?mp ks"
    by (rule seq_ok_cong[OF ok]) (auto simp: mc1_def mdb_cursor_seq_invalidate_def mdb_cursor_rank_invalidate_def)
  from read_key_at_spec[OF c p this i] obtain mc2 where mc2: "mdb_cursor_read_key_at ce mc1 a i = Some (mc2, Ok (ks ! i))" "seq_ok mc2 ?mp ks" by blast
  have "seq_ok (mc2\<lparr>rd_seqexpect := False, mc_seq_pgno := word_of_nat (mp_pgno ?mp), mc_seq_idx := i\<rparr>) ?mp ks"
    by (rule seq_ok_cong[OF mc2(2)]) auto
  then show ?thesis
    by (simp add: next_read_key_def Let_def mc1_def[symmetric] mc2(1))
qed

fun op_index :: "reader_op \<Rightarrow> nat" where
  "op_index (Next a i) = i"
| "op_index (Plain a i) = i"

fun op_page :: "reader_op \<Rightarrow> nat" where
  "op_page (Next a i) = a"
| "op_page (Plain a i) = a"

lemma read_ops_spec:
  assumes c: "canonical_leaf (ce_deref ce a) ks" and p: "ce_prefix ce" "\<not> ce_rdonly ce"
  shows "seq_ok mc (ce_deref ce a) ks \<Longrightarrow> \<forall>op\<in>set ops. op_page op = a \<and> op_index op < length ks \<Longrightarrow>
    read_ops ce ops mc = Some (map (\<lambda>op. Ok (ks ! op_index op)) ops)"
proof (induction ops arbitrary: mc)
  case Nil
  then show ?case by simp
next
  case (Cons op ops)
  have "\<exists>mc'. read_op ce op mc = Some (mc', Ok (ks ! op_index op)) \<and> seq_ok mc' (ce_deref ce a) ks"
    using Cons.prems next_read_key_spec[OF c p] read_key_at_spec[OF c p] by (cases op) auto
  then show ?case using Cons by auto
qed

section \<open>Properties\<close>

text \<open>The state of a cursor that has just been opened.\<close>

definition fresh_reader :: reader where
  "fresh_reader = \<lparr>rd_seqexpect = False, rd_leafcache = True, rd_rankvalid = False, mc_keybuf = (\<lambda>_. 0), mc_key_in_buf = True,
     mc_key_size = 0, mc_key_pgno = P_INVALID, mc_key_last = NO_IDX, mc_seq_pgno = P_INVALID, mc_seq_idx = NO_IDX,
     mc_seq_shared = 0, mc_seq_cached_shared = 0, mc_seq_cached_used = 0, mc_seq_cached_idx = NO_IDX,
     mc_seq_cached_pgno = P_INVALID, mc_seq_cache_valid = False, mc_seq_keybuf_valid = False, mc_seq_cmp_keyptr = None,
     mc_seq_cmp_keysize = 0, mc_seq_cmp_prefix = 0, mc_seq_cmp_pgno = P_INVALID, mc_leaf_cache = empty_cache,
     mc_rank_cached = 0, mc_rank_offset = 0\<rparr>"

lemma fresh_reader_ok: "seq_ok fresh_reader mp ks"
  by (simp add: seq_ok_def fresh_reader_def)

text \<open>C17. In a write transaction, every sequence of reads of the keys of one page, by NEXT or by any
  other operation, in any order, returns the keys, although the sequential path only writes the bytes
  of the key buffer that it takes to differ from the key read before.\<close>

theorem sequential_reads_correct:
  assumes "canonical_leaf (ce_deref ce a) ks" "ce_prefix ce" "\<not> ce_rdonly ce" "seq_ok mc (ce_deref ce a) ks"
    and "\<forall>op\<in>set ops. op_page op = a \<and> op_index op < length ks"
  shows "read_ops ce ops mc = Some (map (\<lambda>op. Ok (ks ! op_index op)) ops)"
  using read_ops_spec[OF assms] .

theorem sequential_reads_correct_witness:
  "read_ops (abc_env False) [Plain 0 0, Next 0 1, Next 0 2, Next 0 3, Plain 0 2, Next 0 2] fresh_reader =
    Some (map (\<lambda>op. Ok (abc_keys ! op_index op)) [Plain 0 0, Next 0 1, Next 0 2, Next 0 3, Plain 0 2, Next 0 2])"
  by (rule sequential_reads_correct) (use abc_canonical fresh_reader_ok in \<open>simp_all add: abc_env_def abc_keys_def\<close>)


text \<open>On the page abca, abcb, abcc, ad the operations FIRST, NEXT, NEXT, NEXT, PREV, PREV, NEXT end with the key adcc.\<close>

lemma wrong_next_example:
  "read_ops (abc_env True) [Plain 0 0, Next 0 1, Next 0 2, Next 0 3, Plain 0 2, Plain 0 1, Next 0 2] fresh_reader =
    Some [Ok (abc_keys ! 0), Ok (abc_keys ! 1), Ok (abc_keys ! 2), Ok (abc_keys ! 3), Ok (abc_keys ! 2), Ok (abc_keys ! 1),
          Ok [97, 100, 99, 99]]"
  by code_simp



text \<open>C19. Nor across pages in a write transaction: \<open>mdb_cursor_set\<close> on another page reads the first and the
  last key of the page it leaves, and finds its own by comparing encoded keys, which reads none; NEXT
  then sets the page of the sequential state itself and takes the bytes of the last key for those of
  its own page. After a read of a key of one page, NEXT at an entry of any page returns the smaller number of
  shared bytes from the trunk of the former page, and the right key only if the trunks begin alike.\<close>

theorem next_after_set_reads_stale_bytes:
  assumes "canonical_leaf (ce_deref ce a) ks" "canonical_leaf (ce_deref ce b) ls" "ce_prefix ce" "\<not> ce_rdonly ce" "\<not> rd_seqexpect mc"
    and "0 < j" "j < length ks" "0 < i" "i < length ls" "length ls \<le> NO_IDX"
  defines "r \<equiv> min (mdb_leaf_shared_prefix (ks ! 0) (ks ! j)) (mdb_leaf_shared_prefix (ls ! 0) (ls ! i))"
  defines "got \<equiv> take r (ks ! 0) @ drop r (ls ! i)"
  shows "read_ops ce [Plain a j, Next b i] mc = Some [Ok (ks ! j), Ok got] \<and> (got = ls ! i \<longleftrightarrow> take r (ks ! 0) = take r (ls ! 0))"
proof
  note c = assms(1)
  let ?mp = "ce_deref ce a"
  obtain header hint where hh: "header_hint (key_at ?mp j) (length (key_at ?mp 0)) = (header, hint)" by fastforce
  obtain mc1 where mc1: "read_key_plain mc ?mp j header hint = (mc1, Ok (ks ! j))" "seq_ok mc1 ?mp ks"
    "mc_seq_keybuf_valid mc1" "mc_seq_shared mc1 = mdb_leaf_shared_prefix (ks ! 0) (ks ! j)" "\<not> mc_seq_cache_valid mc1"
    using read_key_plain_spec[OF c assms(6,7) hh] by blast
  have one: "mdb_cursor_read_key_at ce mc a j = Some (mc1, Ok (ks ! j))"
    using canonical_leafD(1,2)[OF c] assms(3-6) hh mc1(1) by (simp add: mdb_cursor_read_key_at_def Let_def)
  have "header_ok_in mc1 (ce_deref ce b) ls" using mc1(5) by (simp add: header_ok_in_def seq_ok_def)
  from next_read_key_any[OF assms(2,3) this assms(8,9)] obtain mc2 where
    n: "next_read_key ce mc1 b i = Some (mc2, Ok (mem_read (mc_keybuf mc1) 0 r @ drop r (ls ! i)))"
    using assms(9,10) mc1(3,4) by (auto simp: r_def)
  have "mem_read (mc_keybuf mc1) 0 r = take r (mem_read (mc_keybuf mc1) 0 (mc_seq_shared mc1))"
    by (rule take_mem_read[symmetric]) (simp add: r_def mc1(4))
  also have "\<dots> = take r (ks ! 0)" using mc1(2,3,4) by (simp add: seq_ok_def r_def)
  finally show "read_ops ce [Plain a j, Next b i] mc = Some [Ok (ks ! j), Ok got]" using one n by (simp add: got_def)
  have "r \<le> length (ks ! 0)" using shared_prefix_le(1)[of "ks ! 0" "ks ! j"] by (simp add: r_def)
  then show "got = ls ! i \<longleftrightarrow> take r (ks ! 0) = take r (ls ! 0)"
    unfolding got_def by (intro mixed_key) (simp_all add: r_def)
qed

text \<open>Two pages: 8 with the keys aaaa and aaab, 9 with the keys bbba, bbbb and bbbc. The key read is aaac instead of bbbc.\<close>

definition two_env :: cache_env where
  "two_env = (abc_env False)\<lparr>ce_deref := (\<lambda>a. if a = 0 then sample_leaf 8 4 [[97, 97, 97, 97], [3, 98]]
     else sample_leaf 9 4 [[98, 98, 98, 97], [3, 98], [3, 99]])\<rparr>"

theorem next_after_set_reads_stale_bytes_witness:
  "read_ops two_env [Plain 0 1, Next 1 2] fresh_reader = Some [Ok [97, 97, 97, 98], Ok [97, 97, 97, 99]]"
proof -
  let ?ks = "[[97, 97, 97, 97], [97, 97, 97, 98]] :: bytes list"
  let ?ls = "[[98, 98, 98, 97], [98, 98, 98, 98], [98, 98, 98, 99]] :: bytes list"
  have f: "IS_LEAF (ce_deref two_env 0)" "\<not> IS_LEAF2 (ce_deref two_env 0)" "NUMKEYS (ce_deref two_env 0) = 2" "mp_pad (ce_deref two_env 0) = 4"
    "key_at (ce_deref two_env 0) 0 = ?ks ! 0" "key_at (ce_deref two_env 0) 1 = enc (?ks ! 0) (?ks ! 1)"
    "IS_LEAF (ce_deref two_env 1)" "\<not> IS_LEAF2 (ce_deref two_env 1)" "NUMKEYS (ce_deref two_env 1) = 3" "mp_pad (ce_deref two_env 1) = 4"
    "key_at (ce_deref two_env 1) 0 = ?ls ! 0" "key_at (ce_deref two_env 1) 1 = enc (?ls ! 0) (?ls ! 1)"
    "key_at (ce_deref two_env 1) 2 = enc (?ls ! 0) (?ls ! 2)"
    by code_simp+
  have "key_at (ce_deref two_env 0) i = enc (?ks ! 0) (?ks ! i)" if "0 < i" "i < 2" for i
    using f(6) that by (metis One_nat_def less_2_cases less_irrefl)
  moreover have "key_at (ce_deref two_env 1) i = enc (?ls ! 0) (?ls ! i)" if "0 < i" "i < 3" for i
  proof -
    have "i = 1 \<or> i = 2" using that by auto
    then show ?thesis using f(12,13) by (elim disjE) simp_all
  qed
  ultimately have c: "canonical_leaf (ce_deref two_env 0) ?ks" "canonical_leaf (ce_deref two_env 1) ?ls"
    using f by (simp_all add: canonical_leaf_def MDB_KEYBUF_MAX_def)
  have p: "ce_prefix two_env" "\<not> ce_rdonly two_env" "\<not> rd_seqexpect fresh_reader" by (simp_all add: two_env_def abc_env_def fresh_reader_def)
  have v: "mdb_leaf_shared_prefix [97, 97, 97, 97] [97, 97, 97, 98 :: byte] = 3" "mdb_leaf_shared_prefix [98, 98, 98, 97] [98, 98, 98, 99 :: byte] = 3"
    by code_simp+
  show ?thesis using next_after_set_reads_stale_bytes[OF c p, of 1 2] v by (simp add: NO_IDX_def)
qed

end
