(* ===== verification/Node_Search.thy ===== *)
theory Node_Search
  imports Seq_Reader
begin

text \<open>
  The binary search of a page for a key (\<open>mdb_node_search\<close> and \<open>mdb_node_search_near\<close> in \<open>mdb.c\<close>),
  on branch pages, plain leaf pages, LEAF2 pages, and prefix-compressed leaf pages, where most keys are
  compared without being decoded.
\<close>

section \<open>Comparison functions\<close>

text \<open>The function pointer \<open>md_cmp\<close>: the built-in functions are recognised by their address.\<close>

datatype cmp_func = Cmp_memn | Cmp_memnr | Cmp_cint | Cmp_int | Cmp_long | Cmp_user "bytes \<Rightarrow> bytes \<Rightarrow> int"

fun cmp_call :: "cmp_func \<Rightarrow> bytes \<Rightarrow> bytes \<Rightarrow> int res" where
  "cmp_call Cmp_memn a b = Ok (mdb_cmp_memn a b)"
| "cmp_call Cmp_memnr a b = Ok (mdb_cmp_memnr a b)"
| "cmp_call Cmp_cint a b = (case mdb_cmp_cint a b of Some c \<Rightarrow> Ok c | None \<Rightarrow> Abort)"
| "cmp_call Cmp_int a b = Ok (mdb_cmp_int a b)"
| "cmp_call Cmp_long a b = Ok (mdb_cmp_long a b)"
| "cmp_call (Cmp_user f) a b = Ok (f a b)"

fun is_memn :: "cmp_func \<Rightarrow> bool" where
  "is_memn Cmp_memn = True"
| "is_memn _ = False"

fun is_cint :: "cmp_func \<Rightarrow> bool" where
  "is_cint Cmp_cint = True"
| "is_cint _ = False"

section \<open>Comparing with one node\<close>

text \<open>A search key is its address and its bytes. The outer \<open>option\<close> is termination, as in \<open>read_key_at\<close>.\<close>

type_synonym search_key = "nat \<times> bytes"

definition leaf2_compare :: "cache_env \<Rightarrow> cmp_func \<Rightarrow> nat \<Rightarrow> search_key \<Rightarrow> reader \<Rightarrow> nat \<Rightarrow> (reader \<times> int res) option" where
  "leaf2_compare ce cmp a key mc i =
     (let n = ce_md_pad ce
      in Some (mc, cmp_call cmp (snd key) (mem_read (mp_mem (ce_deref ce a)) (LEAF2KEY_at i n) n)))"

text \<open>\<open>trunk\<close> is the trunk's bytes, or \<open>None\<close> where the code leaves it NULL.\<close>

definition node_compare ::
    "cache_env \<Rightarrow> cmp_func \<Rightarrow> nat \<Rightarrow> MDB_val \<Rightarrow> search_key \<Rightarrow> reader \<Rightarrow> nat \<Rightarrow> (reader \<times> int res) option" where
  "node_compare ce cmp a trunk key mc i =
     (let mp = ce_deref ce a; prefix_enabled = ce_prefix ce;
          need_prefix = IS_LEAF mp \<and> prefix_enabled \<and> is_memn cmp;
          (mc, prefix) = (if need_prefix then mdb_cursor_seq_cmp_refresh prefix_enabled mc mp (Some key) else (mc, 0));
          encoded = (if need_prefix \<and> 0 < i \<and> trunk \<noteq> None
                     then Some (mdb_leaf_cmp_memn_encoded (key_at mp i) trunk (Some (snd key)) prefix) else None);
          full = (\<lambda>_ :: unit.
            case (if IS_LEAF mp \<and> prefix_enabled then mdb_cursor_read_key_at ce mc a i else Some (mc, Ok (key_at mp i))) of
              None \<Rightarrow> None
            | Some (mc, r) \<Rightarrow>
                Some (mc, bind_res r (\<lambda>nodekey.
                  if need_prefix then
                    let skip = (if mc_seq_shared mc < prefix then mc_seq_shared mc else prefix)
                    in if skip > 0 then Ok (mdb_cmp_memn_with_skip (snd key) nodekey skip) else cmp_call cmp (snd key) nodekey
                  else cmp_call cmp (snd key) nodekey)))
      in case encoded of
           Some (Ok c) \<Rightarrow> Some (mc, Ok c)
         | Some (Err e) \<Rightarrow> if e \<noteq> MDB_BAD_VALSIZE then Some (mc, Err e) else full ()
         | Some Abort \<Rightarrow> Some (mc, Abort)
         | None \<Rightarrow> full ())"

section \<open>The search\<close>

text \<open>
  \<open>while (low <= high) { i = (low + high) >> 1; ... }\<close> with \<open>low\<close> and \<open>high\<close> signed. The result is \<open>i\<close>
  and \<open>cmp_res\<close> after the loop.
\<close>

function search_loop ::
    "(reader \<Rightarrow> nat \<Rightarrow> (reader \<times> int res) option) \<Rightarrow> reader \<Rightarrow> int \<Rightarrow> int \<Rightarrow> nat \<Rightarrow> int \<Rightarrow> (reader \<times> (nat \<times> int) res) option" where
  "search_loop f mc low high i cmp_res =
     (if low \<le> high then
        let m = (low + high) div 2; i = nat m in
        case f mc i of
          None \<Rightarrow> None
        | Some (mc, Err e) \<Rightarrow> Some (mc, Err e)
        | Some (mc, Abort) \<Rightarrow> Some (mc, Abort)
        | Some (mc, Ok c) \<Rightarrow>
            if c = 0 then Some (mc, Ok (i, c))
            else if c > 0 then search_loop f mc (m + 1) high i c
            else search_loop f mc low (m - 1) i c
      else Some (mc, Ok (i, cmp_res)))"
  by pat_completeness auto
termination
  by (relation "measure (\<lambda>(f, mc, low, high, i, c). nat (high - low + 1))") auto

declare search_loop.simps [simp del]

text \<open>
  The result: the index stored in \<open>mc_ki\<close>, \<open>*exactp\<close>, and whether a node is returned (not NULL). An
  error is the \<open>bad\<close> exit: NULL, the transaction marked with \<open>MDB_CORRUPTED\<close>, the index untouched.
\<close>

definition mdb_node_search ::
    "cache_env \<Rightarrow> cmp_func \<Rightarrow> nat \<Rightarrow> search_key \<Rightarrow> reader \<Rightarrow> (reader \<times> (nat \<times> bool \<times> bool) res) option" where
  "mdb_node_search ce cmp a key mc =
     (let mp = ce_deref ce a; nkeys = NUMKEYS mp;
          mc = mc\<lparr>mc_seq_cmp_pgno := P_INVALID, mc_seq_cmp_keyptr := None, mc_seq_cmp_keysize := 0, mc_seq_cmp_prefix := 0\<rparr>;
          low = (if IS_LEAF mp then 0 else 1); high = int nkeys - 1;
          trunk = (if IS_LEAF mp \<and> \<not> IS_LEAF2 mp \<and> ce_prefix ce \<and> nkeys > 0 then Some (key_at mp 0) else None);
          cmp = (if is_cint cmp \<and> IS_BRANCH mp
                 then if ksize_at mp 1 = 8 then Cmp_long else Cmp_int else cmp);
          f = (if IS_LEAF2 mp then leaf2_compare ce cmp a key else node_compare ce cmp a trunk key)
      in map_option (\<lambda>(mc, r). (mc,
           case r of
             Ok (i, cmp_res) \<Rightarrow>
               let i = (if cmp_res > 0 then i + 1 else i)
               in Ok (i, cmp_res = 0 \<and> nkeys > 0, i < nkeys)
           | Err e \<Rightarrow> Err MDB_CORRUPTED
           | Abort \<Rightarrow> Abort))
         (search_loop f mc low high 0 0))"

text \<open>
  The loop of the search near the cursor's place, with \<open>unsigned int\<close> bounds: the first probe is the
  given \<open>i\<close>, the others are in the middle.
\<close>

partial_function (option) near_loop :: "(nat \<Rightarrow> int res) \<Rightarrow> nat \<Rightarrow> nat \<Rightarrow> nat \<Rightarrow> (nat \<times> bool) res option" where
  "near_loop f low high i =
     (if low \<le> high then
        case f i of
          Err e \<Rightarrow> Some (Err e)
        | Abort \<Rightarrow> Some Abort
        | Ok c \<Rightarrow>
            if c = 0 then Some (Ok (i, True))
            else if c > 0 then
              let low = (i + 1) mod 2 ^ 32 in near_loop f low high ((low + high) mod 2 ^ 32 div 2)
            else
              let high = (i + (2 ^ 32 - 1)) mod 2 ^ 32 in near_loop f low high ((low + high) mod 2 ^ 32 div 2)
      else Some (Ok (low, False)))"

text \<open>\<open>ki\<close> is the cursor's place; the result is the new place and \<open>*exactp\<close>.\<close>

definition mdb_node_search_near :: "cache_env \<Rightarrow> cmp_func \<Rightarrow> nat \<Rightarrow> bytes \<Rightarrow> nat \<Rightarrow> int \<Rightarrow> (nat \<times> bool) res option" where
  "mdb_node_search_near ce cmp a key ki direction =
     (let mp = ce_deref ce a; low = 1; high = (NUMKEYS mp + (2 ^ 32 - 2)) mod 2 ^ 32;
          f = (\<lambda>i. cmp_call cmp key (NODEKEY mp (NODEPTR mp i)))
      in if direction > 0 then let i = (ki + 1) mod 2 ^ 32 in near_loop f i high i
         else let i = (ki + (2 ^ 32 - 1)) mod 2 ^ 32 in near_loop f low i i)"

section \<open>The loop\<close>

text \<open>
  What a search needs of the comparisons: on a page that satisfies \<open>inv\<close>, probing node \<open>i\<close> succeeds, with
  the sign of \<open>c i\<close>, keeps \<open>inv\<close>, and the signs go from positive to negative, with at most one zero.
\<close>

locale probe =
  fixes f :: "reader \<Rightarrow> nat \<Rightarrow> (reader \<times> int res) option"
    and inv :: "reader \<Rightarrow> bool" and c :: "nat \<Rightarrow> int" and lo n :: nat
  assumes probe: "inv mc \<Longrightarrow> lo \<le> i \<Longrightarrow> i < n \<Longrightarrow> \<exists>mc' v. f mc i = Some (mc', Ok v) \<and> sgn v = sgn (c i) \<and> inv mc'"
    and falls: "inv mc \<Longrightarrow> lo \<le> i \<Longrightarrow> i < j \<Longrightarrow> j < n \<Longrightarrow> c i \<le> 0 \<Longrightarrow> c j < 0"
begin

lemma loop_spec:
  assumes "inv mc" "int lo \<le> low" "high < int n" "low \<le> high + 1"
    and "\<And>j. lo \<le> j \<Longrightarrow> int j < low \<Longrightarrow> c j > 0" "\<And>j. j < n \<Longrightarrow> high < int j \<Longrightarrow> c j < 0"
    and "low \<le> high \<or> (r > 0 \<and> int i + 1 = low) \<or> (r < 0 \<and> int i = low)"
  shows "\<exists>mc' i' r'. search_loop f mc low high i r = Some (mc', Ok (i', r')) \<and> inv mc' \<and>
    (let k = (if r' > 0 then i' + 1 else i') in lo \<le> k \<and> k \<le> n \<and> (\<forall>j. lo \<le> j \<and> j < k \<longrightarrow> c j > 0) \<and>
       (\<forall>j. k < j \<and> j < n \<longrightarrow> c j < 0) \<and> (k < n \<longrightarrow> c k \<le> 0) \<and> (r' = 0 \<longleftrightarrow> k < n \<and> c k = 0))"
  using assms
proof (induction "nat (high - low + 1)" arbitrary: mc low high i r rule: less_induct)
  case less
  show ?case
  proof (cases "low \<le> high")
    case False
    then have hl: "high + 1 = low" using less.prems(4) by simp
    define k where "k = (if r > 0 then i + 1 else i)"
    have k: "int k = low" "r \<noteq> 0" using less.prems(7) False by (auto simp: k_def)
    have "lo \<le> k" "k \<le> n" using less.prems(2,3) k hl by linarith+
    moreover have "c j > 0" if "lo \<le> j" "j < k" for j using less.prems(5) that k by simp
    moreover have neg: "c j < 0" if "k \<le> j" "j < n" for j using less.prems(6) that k hl by simp
    moreover have "k < n \<longrightarrow> c k \<le> 0 \<and> c k \<noteq> 0" using neg[of k] by auto
    ultimately show ?thesis
      using less.prems(1) False k(2) unfolding search_loop.simps[of f mc low high i r] k_def[symmetric]
      by (auto simp: Let_def k_def[symmetric])
  next
    case True
    define m where "m = (low + high) div 2"
    have m: "low \<le> m" "m \<le> high" "0 \<le> m" using True less.prems(2) by (auto simp: m_def)
    define p where "p = nat m"
    have p: "int p = m" "lo \<le> p" "p < n" using m less.prems(2,3) by (auto simp: p_def)
    obtain mc1 v where v: "f mc p = Some (mc1, Ok v)" "sgn v = sgn (c p)" "inv mc1" using probe[OF less.prems(1) p(2,3)] by blast
    have step: "search_loop f mc low high i r =
        (if v = 0 then Some (mc1, Ok (p, v)) else if v > 0 then search_loop f mc1 (m + 1) high p v else search_loop f mc1 low (m - 1) p v)"
      using True v(1) by (subst search_loop.simps) (simp add: m_def p_def Let_def)
    have sign: "v = 0 \<longleftrightarrow> c p = 0" "v > 0 \<longleftrightarrow> c p > 0" "v < 0 \<longleftrightarrow> c p < 0"
      using v(2) by (metis sgn_0_0, metis sgn_greater, metis sgn_less)
    have above: "c j < 0" if "c p \<le> 0" "p < j" "j < n" for j using falls[OF less.prems(1) p(2) that(2,3,1)] .
    have below: "c j > 0" if "c p \<ge> 0" "lo \<le> j" "j < p" for j
    proof (rule ccontr)
      assume "\<not> c j > 0"
      then have "c p < 0" using falls[OF less.prems(1) that(2,3) p(3)] by simp
      with that(1) show False by simp
    qed
    consider "v = 0" | "v > 0" | "v < 0" by linarith
    then show ?thesis
    proof cases
      case 1
      then show ?thesis unfolding step using v(3) p sign above below by (auto simp: Let_def)
    next
      case 2
      have "\<exists>mc' i' r'. search_loop f mc1 (m + 1) high p v = Some (mc', Ok (i', r')) \<and> inv mc' \<and>
        (let k = (if r' > 0 then i' + 1 else i') in lo \<le> k \<and> k \<le> n \<and> (\<forall>j. lo \<le> j \<and> j < k \<longrightarrow> c j > 0) \<and>
          (\<forall>j. k < j \<and> j < n \<longrightarrow> c j < 0) \<and> (k < n \<longrightarrow> c k \<le> 0) \<and> (r' = 0 \<longleftrightarrow> k < n \<and> c k = 0))"
      proof (rule less.hyps[OF _ v(3)])
        show "c j > 0" if "lo \<le> j" "int j < m + 1" for j
          using below[of j] sign(2) 2 that p(1) by (cases "j = p") auto
      qed (use m 2 p less.prems in auto)
      then show ?thesis unfolding step using 2 by simp
    next
      case 3
      have "\<exists>mc' i' r'. search_loop f mc1 low (m - 1) p v = Some (mc', Ok (i', r')) \<and> inv mc' \<and>
        (let k = (if r' > 0 then i' + 1 else i') in lo \<le> k \<and> k \<le> n \<and> (\<forall>j. lo \<le> j \<and> j < k \<longrightarrow> c j > 0) \<and>
          (\<forall>j. k < j \<and> j < n \<longrightarrow> c j < 0) \<and> (k < n \<longrightarrow> c k \<le> 0) \<and> (r' = 0 \<longleftrightarrow> k < n \<and> c k = 0))"
      proof (rule less.hyps[OF _ v(3)])
        show "c j < 0" if "j < n" "m - 1 < int j" for j
          using above[of j] sign(3) 3 that p(1) by (cases "j = p") auto
      qed (use m 3 p less.prems in auto)
      then show ?thesis unfolding step using 3 by simp
    qed
  qed
qed

end


section \<open>Prefix-compressed leaf pages\<close>

lemma common_loop_shared: "common_loop a b = mdb_leaf_shared_prefix a b"
  by (induction a b rule: common_loop.induct) auto

text \<open>The cached prefix, when it is about this page and this search key.\<close>

definition cmp_cache_ok :: "reader \<Rightarrow> MDB_page \<Rightarrow> search_key \<Rightarrow> bool" where
  "cmp_cache_ok mc mp key \<longleftrightarrow>
     (mc_seq_cmp_pgno mc = word_of_nat (mp_pgno mp) \<and> mc_seq_cmp_keyptr mc = Some (fst key) \<and>
      mc_seq_cmp_keysize mc = length (snd key) \<longrightarrow> mc_seq_cmp_prefix mc = common_loop (key_at mp 0) (snd key))"

lemma cmp_refresh_spec:
  assumes "IS_LEAF mp" "NUMKEYS mp > 0" "cmp_cache_ok mc mp key"
  shows "\<exists>mc'. mdb_cursor_seq_cmp_refresh True mc mp (Some key) = (mc', common_loop (key_at mp 0) (snd key)) \<and> cmp_cache_ok mc' mp key"
  using assms by (cases key) (simp add: mdb_cursor_seq_cmp_refresh_def cmp_cache_ok_def Let_def)

lemma read_key_at_0:
  assumes "IS_LEAF (ce_deref ce a)" "\<not> IS_LEAF2 (ce_deref ce a)"
  shows "\<exists>mc'. mdb_cursor_read_key_at ce mc a 0 = Some (mc', Ok (key_at (ce_deref ce a) 0)) \<and> mc_seq_shared mc' = 0 \<and>
    (cmp_cache_ok mc mp key \<longrightarrow> cmp_cache_ok mc' mp key)"
  using assms by (simp add: mdb_cursor_read_key_at_def Let_def seq_forget_def cmp_cache_ok_def)

text \<open>A leaf of an ordered prefix-compressed database, and a search key.\<close>

definition prefix_searchable :: "cache_env \<Rightarrow> nat \<Rightarrow> bytes list \<Rightarrow> search_key \<Rightarrow> bool" where
  "prefix_searchable ce a ks key \<longleftrightarrow> ce_prefix ce \<and> canonical_leaf (ce_deref ce a) ks \<and> sorted_wrt (<) ks \<and> length (snd key) < 2 ^ 32"

lemma prefix_probe:
  assumes s: "prefix_searchable ce a ks key" and ok: "cmp_cache_ok mc (ce_deref ce a) key" and i: "i < length ks"
  shows "\<exists>mc'. node_compare ce Cmp_memn a (Some (key_at (ce_deref ce a) 0)) key mc i = Some (mc', Ok (lexcmp (snd key) (ks ! i))) \<and>
    cmp_cache_ok mc' (ce_deref ce a) key"
proof -
  let ?mp = "ce_deref ce a" and ?k = "snd key" and ?t = "ks ! 0"
  have c: "canonical_leaf ?mp ks" and p: "ce_prefix ce" and len: "length ?k < 2 ^ 32" using s by (simp_all add: prefix_searchable_def)
  note d = canonical_leafD[OF c]
  have n: "NUMKEYS ?mp > 0" using c by (auto simp: canonical_leaf_def)
  obtain mc1 where r: "mdb_cursor_seq_cmp_refresh True mc ?mp (Some key) = (mc1, common_loop ?t ?k)" "cmp_cache_ok mc1 ?mp key"
    using cmp_refresh_spec[OF d(1) n ok] d(4) by auto
  show ?thesis
  proof (cases "i = 0")
    case True
    obtain mc2 where m: "mdb_cursor_read_key_at ce mc1 a 0 = Some (mc2, Ok ?t)" "mc_seq_shared mc2 = 0" "cmp_cache_ok mc2 ?mp key"
      using read_key_at_0[OF d(1,2), where mc = mc1 and mp = ?mp and key = key] r(2) d(4) by auto
    have "mdb_cmp_memn ?k ?t = lexcmp ?k ?t" using cmp_memn_lexcmp[OF len] d(5) by simp
    then show ?thesis
      using True d(1,4) p m by (simp add: node_compare_def Let_def r(1))
  next
    case False
    then have e: "key_at ?mp i = enc ?t (ks ! i)" using d(6) i by simp
    have "mdb_leaf_cmp_memn_encoded (enc ?t (ks ! i)) (Some ?t) (Some ?k) (common_loop ?t ?k) = Ok (mdb_cmp_memn ?k (ks ! i))"
      using d(5) d(7)[OF i] len by (intro cmp_encoded_enc) (simp_all add: common_loop_shared)
    moreover have "mdb_cmp_memn ?k (ks ! i) = lexcmp ?k (ks ! i)" using cmp_memn_lexcmp[OF len, of "ks ! i"] d(7)[OF i] by simp
    ultimately show ?thesis
      using False d(1,4) p r(2) by (simp add: node_compare_def Let_def r(1) e)
  qed
qed

lemma lexcmp_falls: "sorted_wrt (<) ks \<Longrightarrow> i < j \<Longrightarrow> j < length ks \<Longrightarrow> lexcmp key (ks ! i) \<le> 0 \<Longrightarrow> lexcmp key (ks ! j) < 0"
  using sorted_wrt_nth_less[of "(<)" ks i j] by (auto simp: lexcmp_order split: if_splits)

interpretation prefix_leaf: probe "node_compare ce Cmp_memn a (Some (key_at (ce_deref ce a) 0)) key"
  "\<lambda>mc. prefix_searchable ce a ks key \<and> cmp_cache_ok mc (ce_deref ce a) key" "\<lambda>i. lexcmp (snd key) (ks ! i)" 0 "length ks"
  for ce a key ks
proof
  fix mc i
  assume "prefix_searchable ce a ks key \<and> cmp_cache_ok mc (ce_deref ce a) key" "i < length ks"
  then show "\<exists>mc' v. node_compare ce Cmp_memn a (Some (key_at (ce_deref ce a) 0)) key mc i = Some (mc', Ok v) \<and>
      sgn v = sgn (lexcmp (snd key) (ks ! i)) \<and> prefix_searchable ce a ks key \<and> cmp_cache_ok mc' (ce_deref ce a) key"
    using prefix_probe[of ce a ks key mc i] by blast
next
  fix mc i j
  assume "prefix_searchable ce a ks key \<and> cmp_cache_ok mc (ce_deref ce a) key" "i < j" "j < length ks" "lexcmp (snd key) (ks ! i) \<le> 0"
  then show "lexcmp (snd key) (ks ! j) < 0" using lexcmp_falls by (auto simp: prefix_searchable_def)
qed

text \<open>The place of a key: the number of keys before it.\<close>

definition key_place :: "(bytes \<Rightarrow> int) \<Rightarrow> bytes list \<Rightarrow> nat" where
  "key_place c ks = length (takeWhile (\<lambda>k. c k > 0) ks)"

lemma key_placeI:
  assumes "p \<le> length ks" "\<forall>j<p. c (ks ! j) > 0" "p < length ks \<longrightarrow> \<not> c (ks ! p) > 0"
  shows "key_place c ks = p"
proof -
  have "takeWhile (\<lambda>k. c k > 0) ks = take p ks"
    by (rule takeWhile_eq_take_P_nth) (use assms in auto)
  then show ?thesis using assms(1) by (simp add: key_place_def)
qed

lemma node_search_prefix_leaf:
  assumes s: "prefix_searchable ce a ks key"
  shows "\<exists>mc'. mdb_node_search ce Cmp_memn a key mc =
    Some (mc', Ok (key_place (lexcmp (snd key)) ks, snd key \<in> set ks, key_place (lexcmp (snd key)) ks < length ks))"
proof -
  let ?mp = "ce_deref ce a"
  let ?mc = "mc\<lparr>mc_seq_cmp_pgno := P_INVALID, mc_seq_cmp_keyptr := None, mc_seq_cmp_keysize := 0, mc_seq_cmp_prefix := 0\<rparr>"
  let ?f = "node_compare ce Cmp_memn a (Some (key_at ?mp 0)) key"
  have c: "canonical_leaf ?mp ks" and p: "ce_prefix ce" using s by (simp_all add: prefix_searchable_def)
  note d = canonical_leafD[OF c]
  have n: "NUMKEYS ?mp = length ks" "0 < length ks" using c by (auto simp: canonical_leaf_def)
  have "prefix_searchable ce a ks key \<and> cmp_cache_ok ?mc ?mp key" using s by (simp add: cmp_cache_ok_def)
  from prefix_leaf.loop_spec[OF this, of 0 "int (length ks) - 1" 0 0] n(2) obtain mc' i r where
    run: "search_loop ?f ?mc 0 (int (length ks) - 1) 0 0 = Some (mc', Ok (i, r))" and
    k: "let k = (if r > 0 then i + 1 else i) in k \<le> length ks \<and> (\<forall>j<k. lexcmp (snd key) (ks ! j) > 0) \<and>
       (\<forall>j. k < j \<and> j < length ks \<longrightarrow> lexcmp (snd key) (ks ! j) < 0) \<and> (k < length ks \<longrightarrow> lexcmp (snd key) (ks ! k) \<le> 0) \<and>
       (r = 0 \<longleftrightarrow> k < length ks \<and> lexcmp (snd key) (ks ! k) = 0)" by auto
  define k' where "k' = (if r > 0 then i + 1 else i)"
  note k = k[unfolded Let_def k'_def[symmetric]]
  have place: "key_place (lexcmp (snd key)) ks = k'" using k by (intro key_placeI) auto
  have "snd key \<in> set ks \<longleftrightarrow> r = 0"
  proof
    assume "snd key \<in> set ks"
    then obtain j where j: "j < length ks" "ks ! j = snd key" by (auto simp: in_set_conv_nth)
    then have "lexcmp (snd key) (ks ! j) = 0" by (simp add: lexcmp_order)
    then have "\<not> j < k'" "\<not> k' < j" using k j(1) by (metis less_irrefl)+
    then have "j = k'" by simp
    then show "r = 0" using k j by (simp add: lexcmp_order)
  next
    assume "r = 0"
    then have "k' < length ks" "snd key = ks ! k'" using k by (auto simp: lexcmp_order split: if_splits)
    then show "snd key \<in> set ks" by simp
  qed
  then show ?thesis
    using d(1,2) p n run place by (simp add: mdb_node_search_def Let_def k'_def[symmetric])
qed

section \<open>Branch pages and plain leaf pages\<close>

lemma node_compare_plain:
  "\<not> (IS_LEAF (ce_deref ce a) \<and> ce_prefix ce) \<Longrightarrow>
    node_compare ce cmp a trunk key mc i = Some (mc, cmp_call cmp (snd key) (key_at (ce_deref ce a) i))"
  by (auto simp: node_compare_def Let_def split: res.split)

text \<open>
  The keys of a page from node \<open>lo\<close> on, and a comparison that is defined on them and orders them: after
  a key that is not smaller than the sought one, all keys are greater.
\<close>

definition ordered_keys :: "cmp_func \<Rightarrow> MDB_page \<Rightarrow> bytes \<Rightarrow> nat \<Rightarrow> (bytes \<Rightarrow> int) \<Rightarrow> bytes list \<Rightarrow> bool" where
  "ordered_keys cmp mp key lo c ks \<longleftrightarrow> NUMKEYS mp = lo + length ks \<and>
     (\<forall>i<length ks. key_at mp (lo + i) = ks ! i \<and> cmp_call cmp key (ks ! i) = Ok (c (ks ! i))) \<and>
     sorted_wrt (\<lambda>x y. c x \<le> 0 \<longrightarrow> c y < 0) ks"

interpretation plain_page: probe "node_compare ce cmp a trunk key"
  "\<lambda>mc. \<not> (IS_LEAF (ce_deref ce a) \<and> ce_prefix ce) \<and> ordered_keys cmp (ce_deref ce a) (snd key) lo c ks"
  "\<lambda>i. c (ks ! (i - lo))" lo "lo + length ks"
  for ce cmp a trunk key lo c ks
proof
  fix mc i
  assume inv: "\<not> (IS_LEAF (ce_deref ce a) \<and> ce_prefix ce) \<and> ordered_keys cmp (ce_deref ce a) (snd key) lo c ks"
    and i: "lo \<le> i" "i < lo + length ks"
  have "i - lo < length ks" using i by simp
  then have "key_at (ce_deref ce a) (lo + (i - lo)) = ks ! (i - lo) \<and> cmp_call cmp (snd key) (ks ! (i - lo)) = Ok (c (ks ! (i - lo)))"
    using inv unfolding ordered_keys_def by blast
  then show "\<exists>mc' v. node_compare ce cmp a trunk key mc i = Some (mc', Ok v) \<and> sgn v = sgn (c (ks ! (i - lo))) \<and>
      \<not> (IS_LEAF (ce_deref ce a) \<and> ce_prefix ce) \<and> ordered_keys cmp (ce_deref ce a) (snd key) lo c ks"
    using inv i by (simp add: node_compare_plain)
next
  fix mc i j
  assume "\<not> (IS_LEAF (ce_deref ce a) \<and> ce_prefix ce) \<and> ordered_keys cmp (ce_deref ce a) (snd key) lo c ks"
    "lo \<le> i" "i < j" "j < lo + length ks" "c (ks ! (i - lo)) \<le> 0"
  then show "c (ks ! (j - lo)) < 0"
    using sorted_wrt_nth_less[of "\<lambda>x y. c x \<le> 0 \<longrightarrow> c y < 0" ks "i - lo" "j - lo"] by (auto simp: ordered_keys_def)
qed

definition first_key :: "MDB_page \<Rightarrow> nat" where
  "first_key mp = (if IS_LEAF mp then 0 else 1)"

lemma plain_search:
  assumes plain: "\<not> (IS_LEAF (ce_deref ce a) \<and> ce_prefix ce)" "\<not> IS_LEAF2 (ce_deref ce a)" "\<not> is_cint cmp"
    and o: "ordered_keys cmp (ce_deref ce a) (snd key) (first_key (ce_deref ce a)) c ks" and ne: "ks \<noteq> []"
  shows "\<exists>mc'. mdb_node_search ce cmp a key mc =
    Some (mc', Ok (first_key (ce_deref ce a) + key_place c ks, \<exists>k\<in>set ks. c k = 0, key_place c ks < length ks))"
proof -
  let ?mp = "ce_deref ce a" and ?lo = "first_key (ce_deref ce a)"
  let ?mc = "mc\<lparr>mc_seq_cmp_pgno := P_INVALID, mc_seq_cmp_keyptr := None, mc_seq_cmp_keysize := 0, mc_seq_cmp_prefix := 0\<rparr>"
  let ?f = "node_compare ce cmp a None key"
  have n: "NUMKEYS ?mp = ?lo + length ks" using o by (simp add: ordered_keys_def)
  from plain_page.loop_spec[OF conjI[OF plain(1) o], of "int ?lo" "int (NUMKEYS ?mp) - 1" 0 0 None ?mc] ne n
  obtain mc' i r where
    run: "search_loop ?f ?mc (int ?lo) (int (NUMKEYS ?mp) - 1) 0 0 = Some (mc', Ok (i, r))" and
    k: "let k = (if r > 0 then i + 1 else i) in ?lo \<le> k \<and> k \<le> ?lo + length ks \<and> (\<forall>j. ?lo \<le> j \<and> j < k \<longrightarrow> c (ks ! (j - ?lo)) > 0) \<and>
       (\<forall>j. k < j \<and> j < ?lo + length ks \<longrightarrow> c (ks ! (j - ?lo)) < 0) \<and> (k < ?lo + length ks \<longrightarrow> c (ks ! (k - ?lo)) \<le> 0) \<and>
       (r = 0 \<longleftrightarrow> k < ?lo + length ks \<and> c (ks ! (k - ?lo)) = 0)" by auto
  define k' where "k' = (if r > 0 then i + 1 else i)"
  note k = k[unfolded Let_def k'_def[symmetric]]
  obtain q where q: "k' = ?lo + q" using k le_Suc_ex by blast
  have above: "c (ks ! j) < 0" if "q < j" "j < length ks" for j
    using conjunct1[OF conjunct2[OF conjunct2[OF conjunct2[OF k]]], rule_format, of "?lo + j"] that q by simp
  have below: "c (ks ! j) > 0" if "j < q" for j
    using conjunct1[OF conjunct2[OF conjunct2[OF k]], rule_format, of "?lo + j"] that q by simp
  have q': "q \<le> length ks" "q < length ks \<longrightarrow> c (ks ! q) \<le> 0" "r = 0 \<longleftrightarrow> q < length ks \<and> c (ks ! q) = 0" using k q by auto
  have place: "key_place c ks = q" using q' below by (intro key_placeI) auto
  have exact: "(\<exists>k\<in>set ks. c k = 0) \<longleftrightarrow> r = 0"
  proof
    assume "\<exists>k\<in>set ks. c k = 0"
    then obtain j where j: "j < length ks" "c (ks ! j) = 0" by (auto simp: in_set_conv_nth)
    then have "\<not> j < q" "\<not> q < j" using above[of j] below[of j] by auto
    then show "r = 0" using q' j by (metis linorder_neqE_nat)
  qed (use q' in auto)
  have low: "int ?lo = (if IS_LEAF ?mp then 0 else 1)" "NUMKEYS ?mp > 0" using n ne by (auto simp: first_key_def)
  have trunk: "(if IS_LEAF ?mp \<and> \<not> IS_LEAF2 ?mp \<and> ce_prefix ce \<and> NUMKEYS ?mp > 0 then Some (key_at ?mp 0) else None) = None"
    using plain(1) by auto
  show ?thesis
    using run n low(2) place exact q plain(2,3)
    unfolding mdb_node_search_def Let_def trunk low(1)[symmetric]
    by (simp add: k'_def[symmetric])
qed

section \<open>The search near the cursor\<close>

lemma dec_mod: "0 < i \<Longrightarrow> i \<le> 2 ^ 32 \<Longrightarrow> (i + (2 ^ 32 - 1)) mod 2 ^ 32 = i - (1 :: nat)"
  using mod_add_self1[of "2 ^ 32" "i - 1"] by (simp add: add.commute)

lemma near_loop_spec:
  assumes n: "n < 2 ^ 31"
    and f: "\<And>j. j < n \<Longrightarrow> f j = Ok (c j)" and falls: "\<And>i j. i < j \<Longrightarrow> j < n \<Longrightarrow> c i \<le> 0 \<Longrightarrow> c j < 0"
  shows "1 \<le> low \<Longrightarrow> low \<le> high + 1 \<Longrightarrow> high + 1 < n \<Longrightarrow> (\<forall>j<low. c j > 0) \<Longrightarrow> (\<forall>j. high < j \<and> j < n \<longrightarrow> c j < 0) \<Longrightarrow>
     (low \<le> high \<longrightarrow> low \<le> i \<and> i \<le> high) \<Longrightarrow>
     \<exists>p. near_loop f low high i = Some (Ok (p, c p = 0)) \<and> p < n \<and> (\<forall>j<p. c j > 0) \<and> c p \<le> 0"
proof (induction "high + 1 - low" arbitrary: low high i rule: less_induct)
  case less
  show ?case
  proof (cases "low \<le> high")
    case False
    then have "c low < 0" "low < n" using less.prems by auto
    then show ?thesis using False less.prems(4) by (subst near_loop.simps) auto
  next
    case True
    then have i: "low \<le> i" "i \<le> high" "i < n" using less.prems by auto
    have next_low: "(i + 1) mod 2 ^ 32 = i + 1" "(i + 1 + high) mod 2 ^ 32 = i + 1 + high"
      using i less.prems(3) n by (auto intro!: mod_less)
    have next_high: "(i + (2 ^ 32 - 1)) mod 2 ^ 32 = i - 1" using i n less.prems(1) by (intro dec_mod) simp_all
    have next_mid: "(low + (i - 1)) mod 2 ^ 32 = low + (i - 1)" using i n by (intro mod_less) simp
    have step: "near_loop f low high i =
        (if c i = 0 then Some (Ok (i, True)) else if c i > 0 then near_loop f (i + 1) high ((i + 1 + high) div 2)
         else near_loop f low (i - 1) ((low + (i - 1)) div 2))"
      using True f[OF i(3)]
      by (subst near_loop.simps, unfold Let_def next_low next_high next_mid) simp
    have below: "c j > 0" if "c i \<ge> 0" "j < i" for j using falls[OF that(2) i(3)] that(1) by force
    have above: "c j < 0" if "c i \<le> 0" "i < j" "j < n" for j using falls[OF that(2,3,1)] .
    consider "c i = 0" | "c i > 0" | "c i < 0" by linarith
    then show ?thesis
    proof cases
      case 1
      then show ?thesis unfolding step using i below by auto
    next
      case 2
      have "\<exists>p. near_loop f (i + 1) high ((i + 1 + high) div 2) = Some (Ok (p, c p = 0)) \<and> p < n \<and> (\<forall>j<p. c j > 0) \<and> c p \<le> 0"
        using 2 i less.prems below by (intro less.hyps) (auto simp: less_Suc_eq)
      then show ?thesis unfolding step using 2 by simp
    next
      case 3
      have "\<exists>p. near_loop f low (i - 1) ((low + (i - 1)) div 2) = Some (Ok (p, c p = 0)) \<and> p < n \<and> (\<forall>j<p. c j > 0) \<and> c p \<le> 0"
      proof (rule less.hyps)
        show "\<forall>j. i - 1 < j \<and> j < n \<longrightarrow> c j < 0"
        proof (intro allI impI)
          fix j assume "i - 1 < j \<and> j < n"
          then have "j = i \<or> i < j" "j < n" by auto
          then show "c j < 0" using above[of j] 3 by auto
        qed
      qed (use 3 i less.prems in auto)
      then show ?thesis unfolding step using 3 by simp
    qed
  qed
qed

lemma node_search_near_place:
  assumes o: "ordered_keys cmp (ce_deref ce a) key 0 c ks" and n: "length ks < 2 ^ 31"
    and ends: "c (ks ! 0) > 0" "c (ks ! (length ks - 1)) < 0"
    and at: "ki < length ks" "c (ks ! ki) \<noteq> 0" "sgn direction = sgn (c (ks ! ki))"
  shows "mdb_node_search_near ce cmp a key ki direction = Some (Ok (key_place c ks, \<exists>k\<in>set ks. c k = 0))"
proof -
  let ?n = "length ks"
  have falls: "c (ks ! j) < 0" if "i < j" "j < ?n" "c (ks ! i) \<le> 0" for i j
    using o sorted_wrt_nth_less[of "\<lambda>x y. c x \<le> 0 \<longrightarrow> c y < 0" ks i j] that by (auto simp: ordered_keys_def)
  have rises: "c (ks ! i) > 0" if "i < j" "j < ?n" "c (ks ! j) \<ge> 0" for i j using falls[OF that(1,2)] that(3) by force
  have keys: "cmp_call cmp key (NODEKEY (ce_deref ce a) (NODEPTR (ce_deref ce a) j)) = Ok (c (ks ! j))" if "j < ?n" for j
    using o that by (simp add: ordered_keys_def key_at_def)
  have nk: "NUMKEYS (ce_deref ce a) = ?n" using o by (simp add: ordered_keys_def)
  have two: "2 \<le> ?n" using ends at(1) by (cases "?n = 1") auto
  have "(?n + (2 ^ 32 - 2)) mod 2 ^ 32 = (2 ^ 32 + (?n - 2)) mod 2 ^ 32" using two by (intro arg_cong[where f = "\<lambda>x. x mod 2 ^ 32"]) simp
  then have high: "(?n + (2 ^ 32 - 2)) mod 2 ^ 32 = ?n - 2" using n by simp
  let ?f = "\<lambda>i. cmp_call cmp key (NODEKEY (ce_deref ce a) (NODEPTR (ce_deref ce a) i))"
  note loop = near_loop_spec[where f = ?f and c = "\<lambda>j. c (ks ! j)", OF n keys falls]
  have "\<exists>p. mdb_node_search_near ce cmp a key ki direction = Some (Ok (p, c (ks ! p) = 0)) \<and> p < ?n \<and>
      (\<forall>j<p. c (ks ! j) > 0) \<and> c (ks ! p) \<le> 0"
  proof (cases "direction > 0")
    case True
    then have pos: "c (ks ! ki) > 0" using at(2,3) by (metis sgn_greater)
    have last: "ki \<noteq> ?n - 1" using pos ends(2) by auto
    have "(ki + 1) mod 2 ^ 32 = ki + 1" using at(1) n by (intro mod_less) simp
    then have eq: "mdb_node_search_near ce cmp a key ki direction = near_loop ?f (ki + 1) (?n - 2) (ki + 1)"
      using True unfolding mdb_node_search_near_def Let_def nk high by simp
    show ?thesis unfolding eq
    proof (rule loop)
      show "\<forall>j<ki + 1. c (ks ! j) > 0" using rises[OF _ at(1)] pos by (auto simp: less_Suc_eq)
      show "\<forall>j. ?n - 2 < j \<and> j < ?n \<longrightarrow> c (ks ! j) < 0"
      proof (intro allI impI)
        fix j assume "?n - 2 < j \<and> j < ?n"
        then have "j = ?n - 1" using two by linarith
        then show "c (ks ! j) < 0" using ends(2) by simp
      qed
    qed (use two last at(1) in auto)
  next
    case False
    have dir: "direction < 0" using False at(2,3) by (metis linorder_neqE_linordered_idom sgn_0_0)
    then have neg: "c (ks ! ki) < 0" using at(3) by (metis sgn_less)
    have ki: "0 < ki" using neg ends(1) by (cases ki) auto
    have dec: "(ki + (2 ^ 32 - 1)) mod 2 ^ 32 = ki - 1" using ki at(1) n by (intro dec_mod) simp_all
    have eq: "mdb_node_search_near ce cmp a key ki direction = near_loop ?f 1 (ki - 1) (ki - 1)"
      using False unfolding mdb_node_search_near_def Let_def dec by simp
    show ?thesis unfolding eq
    proof (rule loop)
      show "\<forall>j<1. c (ks ! j) > 0" using ends(1) by simp
      show "\<forall>j. ki - 1 < j \<and> j < ?n \<longrightarrow> c (ks ! j) < 0"
      proof (intro allI impI)
        fix j assume j: "ki - 1 < j \<and> j < ?n"
        show "c (ks ! j) < 0"
        proof (cases "j = ki")
          case False
          then have "ki < j" using j ki by linarith
          then show ?thesis using falls[of ki j] j neg by simp
        qed (use neg in simp)
      qed
    qed (use ki at(1) in auto)
  qed
  then obtain p where p: "mdb_node_search_near ce cmp a key ki direction = Some (Ok (p, c (ks ! p) = 0))" "p < ?n"
    "\<forall>j<p. c (ks ! j) > 0" "c (ks ! p) \<le> 0" by blast
  have "(\<exists>k\<in>set ks. c k = 0) \<longleftrightarrow> c (ks ! p) = 0"
  proof
    assume "\<exists>k\<in>set ks. c k = 0"
    then obtain j where j: "j < ?n" "c (ks ! j) = 0" by (auto simp: in_set_conv_nth)
    then have "\<not> j < p" using p(3) by auto
    moreover have "\<not> p < j" using falls[of p j] j p(4) by auto
    ultimately have "j = p" by simp
    then show "c (ks ! p) = 0" using j(2) by simp
  qed (use p(2) in auto)
  moreover have "key_place c ks = p" using p by (intro key_placeI) auto
  ultimately show ?thesis using p(1) by simp
qed

section \<open>Properties\<close>

text \<open>C35. On a prefix-compressed leaf page \<open>mdb_node_search\<close>, which compares the encoded keys without
  decoding them, finds the place of the key in the order of the decoded keys: the index it stores is
  the number of smaller keys, it reports an exact match exactly for a key of the page, and returns a
  node exactly when some key is not smaller.\<close>

theorem node_search_prefix_correct:
  assumes "ce_prefix ce" "canonical_leaf (ce_deref ce a) ks" "sorted_wrt (<) ks" "length key < 2 ^ 32"
  shows "\<exists>mc'. mdb_node_search ce Cmp_memn a (addr, key) mc =
    Some (mc', Ok (length (takeWhile (\<lambda>k. k < key) ks), key \<in> set ks, \<exists>k\<in>set ks. key \<le> k))"
proof -
  have eq: "(\<lambda>k. lexcmp key k > 0) = (\<lambda>k. k < key)" by (auto simp: lexcmp_order fun_eq_iff)
  have "(\<exists>k\<in>set ks. key \<le> k) \<longleftrightarrow> length (takeWhile (\<lambda>k. k < key) ks) < length ks"
  proof -
    have "length (takeWhile (\<lambda>k. k < key) ks) < length ks \<longleftrightarrow> takeWhile (\<lambda>k. k < key) ks \<noteq> ks"
      by (metis length_takeWhile_le nat_less_le takeWhile_eq_take take_all_iff)
    then show ?thesis by (auto simp: takeWhile_eq_all_conv not_less)
  qed
  then show ?thesis
    using node_search_prefix_leaf[of ce a ks "(addr, key)" mc] assms by (simp add: prefix_searchable_def key_place_def eq)
qed

theorem node_search_prefix_correct_witness:
  "\<exists>mc'. mdb_node_search (abc_env False) Cmp_memn 0 (1000, [97, 98, 99, 98, 0]) fresh_reader =
    Some (mc', Ok (length (takeWhile (\<lambda>k. k < [97, 98, 99, 98, 0]) abc_keys), [97, 98, 99, 98, 0] \<in> set abc_keys,
      \<exists>k\<in>set abc_keys. [97, 98, 99, 98, 0] \<le> k))"
  by (rule node_search_prefix_correct) (use abc_canonical in \<open>simp_all add: abc_env_def abc_keys_def\<close>)

text \<open>On an ordinary leaf, when the key is strictly between the first and the last key of the page and
  differs from the current one, the search near the cursor returns the same index and the same
  \<open>exact\<close> as the binary search of the whole page, and it ends.\<close>

theorem node_search_near_equiv:
  assumes "IS_LEAF (ce_deref ce a)" "\<not> ce_prefix ce" "\<not> IS_LEAF2 (ce_deref ce a)" "\<not> is_cint cmp"
    and "ordered_keys cmp (ce_deref ce a) (snd key) 0 c ks" "length ks < 2 ^ 31" "c (ks ! 0) > 0" "c (ks ! (length ks - 1)) < 0"
    and "ki < length ks" "c (ks ! ki) \<noteq> 0" "sgn direction = sgn (c (ks ! ki))"
  shows "\<exists>mc' i exact found. mdb_node_search ce cmp a key mc = Some (mc', Ok (i, exact, found)) \<and>
    mdb_node_search_near ce cmp a (snd key) ki direction = Some (Ok (i, exact)) \<and> found"
proof -
  have "first_key (ce_deref ce a) = 0" using assms(1) by (simp add: first_key_def)
  moreover have "key_place c ks < length ks"
  proof (rule ccontr)
    assume "\<not> key_place c ks < length ks"
    then have "takeWhile (\<lambda>k. c k > 0) ks = ks" by (metis key_place_def nat_less_le length_takeWhile_le takeWhile_eq_take take_all_iff)
    moreover have "ks ! (length ks - 1) \<in> set ks" using assms(9) by (intro nth_mem) simp
    ultimately show False using assms(8) by (metis less_asym takeWhile_eq_all_conv)
  qed
  ultimately show ?thesis
    using plain_search[of ce a cmp key c ks mc] node_search_near_place[of cmp ce a "snd key" c ks ki direction] assms by force
qed

text \<open>A plain leaf with the keys b, d, f, h and j.\<close>

definition plain_env :: cache_env where
  "plain_env = (abc_env False)\<lparr>ce_prefix := False, ce_deref := (\<lambda>_. sample_leaf 7 1 [[98], [100], [102], [104], [106]])\<rparr>"

theorem node_search_near_equiv_witness:
  "\<exists>mc' i exact found. mdb_node_search plain_env Cmp_memn 0 (1000, [105]) fresh_reader = Some (mc', Ok (i, exact, found)) \<and>
    mdb_node_search_near plain_env Cmp_memn 0 (snd (1000 :: nat, [105])) 1 1 = Some (Ok (i, exact)) \<and> found"
proof (rule node_search_near_equiv[where c = "mdb_cmp_memn [105]" and ks = "[[98], [100], [102], [104], [106]]"])
  have cmp: "mdb_cmp_memn [105] [98] > 0 \<and> mdb_cmp_memn [105] [100] > 0 \<and> mdb_cmp_memn [105] [102] > 0 \<and>
     mdb_cmp_memn [105] [104] > 0 \<and> mdb_cmp_memn [105] [106] < 0" by code_simp
  have keys: "\<forall>i\<in>set [0..<5]. key_at (ce_deref plain_env 0) i = [[98], [100], [102], [104], [106]] ! i" by code_simp
  have "NUMKEYS (ce_deref plain_env 0) = 5" by code_simp
  then show "ordered_keys Cmp_memn (ce_deref plain_env 0) (snd (1000, [105])) 0 (mdb_cmp_memn [105]) [[98], [100], [102], [104], [106]]"
    using keys cmp unfolding ordered_keys_def by simp
  show "0 < mdb_cmp_memn [105] ([[98], [100], [102], [104], [106]] ! 0)"
    "mdb_cmp_memn [105] ([[98], [100], [102], [104], [106]] ! (length [[98 :: byte], [100], [102], [104], [106]] - 1)) < 0"
    "mdb_cmp_memn [105] ([[98], [100], [102], [104], [106]] ! 1) \<noteq> 0"
    "sgn 1 = sgn (mdb_cmp_memn [105] ([[98], [100], [102], [104], [106]] ! 1))"
    using cmp by simp_all
  show "IS_LEAF (ce_deref plain_env 0)" "\<not> ce_prefix plain_env" "\<not> IS_LEAF2 (ce_deref plain_env 0)" by code_simp+
qed simp_all

text \<open>
  A page that still holds a raw key: the keys ab and az, the second stored without compression (its first
  byte is no possible length of a shared prefix). The comparison falls back to decoding it, and takes
  the clamped first byte, 2, for the number of bytes shared with the trunk: abz is placed after az.
\<close>

lemma legacy_key_misplaced:
  "let ce = (abc_env False)\<lparr>ce_deref := (\<lambda>_. sample_leaf 8 2 [[97, 98], [97, 122]])\<rparr>
   in map_option snd (mdb_cursor_read_key_at ce fresh_reader 0 1) = Some (Ok [97, 122]) \<and>
      [97, 98, 122] < [97, 122 :: byte] \<and>
      map_option snd (mdb_node_search ce Cmp_memn 0 (1000, [97, 98, 122]) fresh_reader) = Some (Ok (2, False, False))"
  by code_simp

end
