(* ===== verification/Txn_Pages.thy ===== *)
theory Txn_Pages
  imports Id2l Page
begin

text \<open>
  How a transaction finds its pages (\<open>mdb_page_get\<close> in \<open>mdb.c\<close>): the dirty and spilled pages of the
  transaction and of its parents, from the inside out, and the map below them. Pages are addresses.
\<close>

section \<open>The transaction\<close>

text \<open>The flags \<open>MDB_TXN_FINISHED\<close>, \<open>MDB_TXN_ERROR\<close> and \<open>MDB_TXN_HAS_CHILD\<close> make up \<open>MDB_TXN_BLOCKED\<close>.\<close>

record txn_level =
  mt_spill_pgs :: "MDB_IDL option"
  mt_dirty_list :: MDB_ID2L

record MDB_txn =
  mt_levels :: "txn_level list"    \<comment> \<open>this transaction, then \<open>mt_parent\<close> and so on\<close>
  mt_next_pgno :: nat
  mt_finished :: bool
  mt_error :: bool
  mt_has_child :: bool
  mt_last_err :: "rc option"
  me_interrupt :: bool
  me_map :: nat
  me_page_size :: nat

definition mt_blocked :: "MDB_txn \<Rightarrow> bool" where
  "mt_blocked txn \<longleftrightarrow> mt_finished txn \<or> mt_error txn \<or> mt_has_child txn"

definition mdb_txn_mark_error :: "MDB_txn \<Rightarrow> rc \<Rightarrow> MDB_txn" where
  "mdb_txn_mark_error txn err = txn\<lparr>mt_last_err := Some (if err \<noteq> MDB_SUCCESS then err else MDB_BAD_TXN), mt_error := True\<rparr>"

definition mdb_txn_check_interrupt :: "MDB_txn \<Rightarrow> MDB_txn \<times> rc" where
  "mdb_txn_check_interrupt txn = (if me_interrupt txn then (mdb_txn_mark_error txn EINTR, EINTR) else (txn, MDB_SUCCESS))"

text \<open>The \<open>do { ... } while\<close> over the transaction and its parents.\<close>

datatype page_place = Mapped nat | Dirty nat nat | Nowhere

fun page_get_levels :: "txn_level list \<Rightarrow> nat \<Rightarrow> nat \<Rightarrow> page_place" where
  "page_get_levels [] pgno level = Nowhere"
| "page_get_levels (tx2 # parents) pgno level =
     (let dl = mt_dirty_list tx2;
          spilled = (case mt_spill_pgs tx2 of
              None \<Rightarrow> False
            | Some sp \<Rightarrow>
                let pn = push_bit 1 (word_of_nat pgno); x = mdb_midl_search sp pn
                in x \<le> idl_len sp \<and> ids sp ! x = pn)
      in if spilled then Mapped level
         else
           let x = mdb_mid2l_search dl (word_of_nat pgno) in
           if id2l_len dl \<noteq> 0 \<and> x \<le> id2l_len dl \<and> mid (dl ! x) = word_of_nat pgno then Dirty (mptr (dl ! x)) level
           else page_get_levels parents pgno (level + 1))"

text \<open>The result is the address and the level; \<open>own_map\<close> is \<open>C_ORIG_RDONLY|C_WRITEMAP\<close> of the cursor.\<close>

definition mdb_page_get :: "MDB_txn \<Rightarrow> bool \<Rightarrow> nat \<Rightarrow> MDB_txn \<times> (nat \<times> nat) res" where
  "mdb_page_get txn own_map pgno =
     (let mapped = me_map txn + me_page_size txn * pgno in
      case (if \<not> own_map then page_get_levels (mt_levels txn) pgno 1 else Nowhere) of
        Mapped level \<Rightarrow> (txn, Ok (mapped, level))
      | Dirty p level \<Rightarrow> (txn, Ok (p, level))
      | Nowhere \<Rightarrow>
          if pgno \<ge> mt_next_pgno txn then (mdb_txn_mark_error txn MDB_PAGE_NOTFOUND, Err MDB_PAGE_NOTFOUND)
          else (txn, Ok (mapped, 0)))"

section \<open>Freeing an overflow page\<close>

text \<open>
  \<open>ovpage_unlist\<close> takes the page out of the dirty list: the entries above it move one place down. It
  searches from the end by the address; when it is not there, \<open>mdb_cassert(mc, x > 1)\<close> aborts (\<open>None\<close>).
\<close>

fun ovpage_unlist :: "MDB_ID2L \<Rightarrow> nat \<Rightarrow> MDB_ID2 \<Rightarrow> nat \<Rightarrow> MDB_ID2L option" where
  "ovpage_unlist dl x ix mp =
     (if mptr ix = mp then Some dl
      else if x > 1 then ovpage_unlist (dl[x - 1 := ix]) (x - 1) (dl ! (x - 1)) mp
      else None)"

declare ovpage_unlist.simps [simp del]

text \<open>
  \<open>for (i = mop[0]; i && mop[i] < pg; i--) mop[j--] = mop[i];\<close> from \<open>j = mop[0] + ovpages\<close>, then
  \<open>while (j>i) mop[j--] = pg++;\<close>
\<close>

fun pghead_shift :: "MDB_ID list \<Rightarrow> nat \<Rightarrow> nat \<Rightarrow> MDB_ID \<Rightarrow> MDB_ID list \<times> nat \<times> nat" where
  "pghead_shift mop 0 j pg = (mop, 0, j)"
| "pghead_shift mop (Suc i) j pg =
     (if mop ! Suc i < pg then pghead_shift (mop[j := mop ! Suc i]) i (j - 1) pg else (mop, Suc i, j))"

function pghead_fill :: "MDB_ID list \<Rightarrow> nat \<Rightarrow> nat \<Rightarrow> MDB_ID \<Rightarrow> MDB_ID list" where
  "pghead_fill mop i j pg = (if j > i then pghead_fill (mop[j := pg]) i (j - 1) (pg + 1) else mop)"
  by pat_completeness auto
termination by (relation "measure (\<lambda>(mop, i, j, pg). j)") auto

declare pghead_fill.simps [simp del]

definition pghead_insert :: "MDB_IDL \<Rightarrow> MDB_ID \<Rightarrow> nat \<Rightarrow> MDB_IDL" where
  "pghead_insert mop pg ovpages =
     (let n = idl_len mop; (m, i, j) = pghead_shift (ids mop) n (n + ovpages) pg;
          m = pghead_fill m i j pg
      in mop\<lparr>ids := m[0 := word_of_nat (n + ovpages)]\<rparr>)"

text \<open>What the operation changes: the free lists of the environment and of the transaction, its own lists.\<close>

record ovfree_state =
  of_pghead :: "MDB_IDL option"
  of_free_pgs :: MDB_IDL
  of_spill :: "MDB_IDL option"
  of_dirty :: MDB_ID2L
  of_dirty_room :: nat
  of_overflow_pages :: u64

text \<open>\<open>a\<close> is the page's address, \<open>ovpages\<close> its \<open>mp_pages\<close>, \<open>dirty\<close> its \<open>P_DIRTY\<close>; \<open>nested\<close> is \<open>mt_parent\<close>.\<close>

definition mdb_ovpage_free ::
    "bool \<Rightarrow> MDB_ID \<Rightarrow> bool \<Rightarrow> nat \<Rightarrow> MDB_ID \<Rightarrow> nat \<Rightarrow> bool \<Rightarrow> ovfree_state \<Rightarrow> ovfree_state \<times> unit res" where
  "mdb_ovpage_free alloc junk nested a pg ovpages dirty st =
     (let pn = push_bit 1 pg;
          x = (case of_spill st of None \<Rightarrow> 0 | Some sl \<Rightarrow> mdb_midl_search sl pn);
          spilled = (case of_spill st of None \<Rightarrow> False | Some sl \<Rightarrow> x \<le> idl_len sl \<and> ids sl ! x = pn)
      in case (if \<not> nested \<and> (dirty \<or> spilled) then of_pghead st else None) of
           Some mop \<Rightarrow>
             (case mdb_midl_need alloc junk mop ovpages of
                Ok mop \<Rightarrow>
                  let st = st\<lparr>of_pghead := Some mop\<rparr>;
                      release = (\<lambda>st. (st\<lparr>of_pghead := Some (pghead_insert mop pg ovpages),
                                         of_overflow_pages := of_overflow_pages st - word_of_nat ovpages\<rparr>, Ok ()))
                  in if \<not> dirty then
                       let sl = the (of_spill st);
                           sl = (if x = idl_len sl then sl\<lparr>ids := (ids sl)[0 := ids sl ! 0 - 1]\<rparr>
                                 else sl\<lparr>ids := (ids sl)[x := ids sl ! x OR 1]\<rparr>)
                       in release (st\<lparr>of_spill := Some sl\<rparr>)
                     else
                       let dl = of_dirty st; x = id2l_len dl;
                           dl = dl[0 := (dl ! 0)\<lparr>mid := mid (dl ! 0) - 1\<rparr>]
                       in (case ovpage_unlist dl x (dl ! x) a of
                             None \<Rightarrow> (st, Abort)
                           | Some dl \<Rightarrow> release (st\<lparr>of_dirty := dl, of_dirty_room := of_dirty_room st + 1\<rparr>))
              | Err e \<Rightarrow> (st, Err e)
              | Abort \<Rightarrow> (st, Abort))
         | None \<Rightarrow>
             (case mdb_midl_append_range alloc junk (of_free_pgs st) pg ovpages of
                Ok l \<Rightarrow> (st\<lparr>of_free_pgs := l, of_overflow_pages := of_overflow_pages st - word_of_nat ovpages\<rparr>, Ok ())
              | Err e \<Rightarrow> (st, Err e)
              | Abort \<Rightarrow> (st, Abort)))"

section \<open>The overlay\<close>

text \<open>The reference: the pages a level has of its own, by page number.\<close>

definition level_ok :: "txn_level \<Rightarrow> bool" where
  "level_ok l \<longleftrightarrow> id2l_sorted (mt_dirty_list l) \<and> (case mt_spill_pgs l of None \<Rightarrow> True | Some sp \<Rightarrow> idl_desc sp)"

definition level_spilled :: "txn_level \<Rightarrow> nat set" where
  "level_spilled l = (case mt_spill_pgs l of None \<Rightarrow> {} | Some sp \<Rightarrow> {p. push_bit 1 (word_of_nat p) \<in> set (idl_elems sp)})"

text \<open>The address of a page in the map is \<open>mapped\<close>.\<close>

fun overlay :: "txn_level list \<Rightarrow> nat \<Rightarrow> nat \<Rightarrow> nat \<Rightarrow> (nat \<times> nat) option" where
  "overlay [] mapped p n = None"
| "overlay (l # ls) mapped p n =
     (if p \<in> level_spilled l then Some (mapped, n)
      else case id2l_map (mt_dirty_list l) (word_of_nat p) of
        Some a \<Rightarrow> Some (a, n)
      | None \<Rightarrow> overlay ls mapped p (Suc n))"

lemma map_of_distinct_nth:
  assumes "id2l_sorted l" "1 \<le> x" "x \<le> id2l_len l"
  shows "id2l_map l (mid (l ! x)) = Some (mptr (l ! x))"
proof -
  have wf: "id2l_wf l" and d: "distinct (map mid (id2l_elems l))"
    using assms(1) by (auto simp: id2l_sorted_def strict_sorted_iff)
  have "l ! x = id2l_elems l ! (x - 1)" "x - 1 < length (id2l_elems l)"
    using assms wf by (simp_all add: nth_id2l_elems length_id2l_elems)
  then have "l ! x \<in> set (id2l_elems l)" by simp
  then have "(mid (l ! x), mptr (l ! x)) \<in> set (map (\<lambda>e. (mid e, mptr e)) (id2l_elems l))" by auto
  moreover have "distinct (map fst (map (\<lambda>e. (mid e, mptr e)) (id2l_elems l)))" using d by (simp add: comp_def)
  ultimately show ?thesis unfolding id2l_map_def by (rule map_of_is_SomeI[rotated])
qed

lemma idl_mem_iff: "idl_wf l \<Longrightarrow> x \<in> set (idl_elems l) \<longleftrightarrow> (\<exists>i. 1 \<le> i \<and> i \<le> idl_len l \<and> ids l ! i = x)"
  by (auto simp: idl_elems_map less_Suc_eq_le simp del: upt_Suc)

fun place :: "nat \<Rightarrow> page_place \<Rightarrow> (nat \<times> nat) option" where
  "place mapped (Mapped n) = Some (mapped, n)"
| "place mapped (Dirty a n) = Some (a, n)"
| "place mapped Nowhere = None"

lemma spilled_spec:
  assumes "level_ok l"
  shows "(case mt_spill_pgs l of None \<Rightarrow> False
     | Some sp \<Rightarrow> let pn = push_bit 1 (word_of_nat p); x = mdb_midl_search sp pn in x \<le> idl_len sp \<and> ids sp ! x = pn)
    \<longleftrightarrow> p \<in> level_spilled l"
proof (cases "mt_spill_pgs l")
  case None
  then show ?thesis by (simp add: level_spilled_def)
next
  case (Some sp)
  then have d: "idl_desc sp" using assms by (simp add: level_ok_def)
  then have wf: "idl_wf sp" by (simp add: idl_desc_def)
  show ?thesis
    unfolding Some level_spilled_def option.case Let_def mem_Collect_eq idl_mem_iff[OF wf]
    by (rule midl.found_iff_member[OF d, of "push_bit 1 (word_of_nat p)"])
qed

lemma page_get_levels_spec:
  "\<forall>l\<in>set ls. level_ok l \<Longrightarrow> place mapped (page_get_levels ls p n) = overlay ls mapped p n"
proof (induction ls arbitrary: n)
  case Nil
  then show ?case by simp
next
  case (Cons l ls)
  let ?w = "word_of_nat p :: u64" and ?dl = "mt_dirty_list l"
  let ?x = "mdb_mid2l_search ?dl ?w"
  have ok: "level_ok l" using Cons.prems by simp
  then have l: "id2l_sorted ?dl" by (simp add: level_ok_def)
  have range: "1 \<le> ?x" using mid2l.search_range[OF l] by blast
  have found: "?x \<le> id2l_len ?dl \<and> mid (?dl ! ?x) = ?w \<longleftrightarrow> id2l_map ?dl ?w \<noteq> None"
    unfolding id2l_map_None_iff[OF l] not_not by (rule refl)
  have step: "page_get_levels (l # ls) p n =
      (if p \<in> level_spilled l then Mapped n
       else if id2l_len ?dl \<noteq> 0 \<and> ?x \<le> id2l_len ?dl \<and> mid (?dl ! ?x) = ?w then Dirty (mptr (?dl ! ?x)) n
       else page_get_levels ls p (n + 1))"
    unfolding page_get_levels.simps Let_def spilled_spec[OF ok, unfolded Let_def] by (rule refl)
  show ?case
  proof (cases "id2l_map ?dl ?w")
    case None
    then have no: "\<not> (id2l_len ?dl \<noteq> 0 \<and> ?x \<le> id2l_len ?dl \<and> mid (?dl ! ?x) = ?w)" using found by blast
    have "page_get_levels (l # ls) p n = (if p \<in> level_spilled l then Mapped n else page_get_levels ls p (n + 1))"
      by (simp only: step no if_False)
    then show ?thesis using None Cons by simp
  next
    case (Some a)
    then have f: "?x \<le> id2l_len ?dl" "mid (?dl ! ?x) = ?w" using found by auto
    then have "id2l_len ?dl \<noteq> 0" using range by linarith
    moreover have "mptr (?dl ! ?x) = a" using map_of_distinct_nth[OF l range f(1)] f(2) Some by simp
    ultimately show ?thesis unfolding step using f Some by simp
  qed
qed

section \<open>Inserting freed pages\<close>

lemma pghead_shift_spec:
  "pghead_shift m i (i + n) pg = (m', i', j') \<Longrightarrow> i + n < length m \<Longrightarrow>
   i' \<le> i \<and> j' = i' + n \<and> length m' = length m \<and> (\<forall>x. i' < x \<and> x \<le> i \<longrightarrow> m ! x < pg) \<and> (0 < i' \<longrightarrow> \<not> m ! i' < pg) \<and>
   (\<forall>x<length m. m' ! x = (if i' + n < x \<and> x \<le> i + n then m ! (x - n) else m ! x))"
proof (induction i arbitrary: m m' i' j')
  case 0
  then show ?case by auto
next
  case (Suc i)
  show ?case
  proof (cases "m ! Suc i < pg")
    case True
    let ?m = "m[Suc i + n := m ! Suc i]"
    have run: "pghead_shift ?m i (i + n) pg = (m', i', j')" using Suc.prems(1) True by simp
    have "i + n < length ?m" using Suc.prems(2) by simp
    note IH = Suc.IH[OF run this, unfolded length_list_update]
    have low: "?m ! x = m ! x" if "x \<le> i" for x using that by simp
    have "\<forall>x. i' < x \<and> x \<le> Suc i \<longrightarrow> m ! x < pg" using IH low True by (auto simp: le_Suc_eq)
    moreover have "0 < i' \<longrightarrow> \<not> m ! i' < pg"
    proof -
      have "i' \<le> i" using IH by blast
      then have "?m ! i' = m ! i'" by (rule low)
      moreover have "0 < i' \<longrightarrow> \<not> ?m ! i' < pg" using IH by blast
      ultimately show ?thesis by metis
    qed
    moreover have "m' ! x = (if i' + n < x \<and> x \<le> Suc i + n then m ! (x - n) else m ! x)" if x: "x < length m" for x
    proof (cases "x = Suc i + n")
      case True
      then have "m' ! x = ?m ! x" using IH x by auto
      then show ?thesis using True x IH by simp
    next
      case False
      moreover have "?m ! (x - n) = m ! (x - n)" if "i' + n < x" "x \<le> i + n" using that by (intro low) linarith
      ultimately show ?thesis using IH x by auto
    qed
    ultimately show ?thesis using IH by auto
  next
    case False
    then show ?thesis using Suc.prems by auto
  qed
qed

lemma pghead_fill_spec:
  "i + k < length m \<Longrightarrow> length (pghead_fill m i (i + k) pg) = length m \<and>
   (\<forall>x<length m. pghead_fill m i (i + k) pg ! x = (if i < x \<and> x \<le> i + k then pg + word_of_nat (i + k - x) else m ! x))"
proof (induction k arbitrary: m pg)
  case 0
  have "pghead_fill m i (i + 0) pg = m" by (subst pghead_fill.simps) simp
  then show ?case by auto
next
  case (Suc k)
  have run: "pghead_fill m i (i + Suc k) pg = pghead_fill (m[i + Suc k := pg]) i (i + k) (pg + 1)"
    by (subst pghead_fill.simps) simp
  have IH: "length (pghead_fill (m[i + Suc k := pg]) i (i + k) (pg + 1)) = length m \<and>
    (\<forall>x<length m. pghead_fill (m[i + Suc k := pg]) i (i + k) (pg + 1) ! x =
       (if i < x \<and> x \<le> i + k then pg + 1 + word_of_nat (i + k - x) else m[i + Suc k := pg] ! x))"
    using Suc.IH[of "m[i + Suc k := pg]" "pg + 1"] Suc.prems by simp
  have "(if i < x \<and> x \<le> i + k then pg + 1 + word_of_nat (i + k - x) else m[i + Suc k := pg] ! x) =
      (if i < x \<and> x \<le> i + Suc k then pg + word_of_nat (i + Suc k - x) else m ! x)" if "x < length m" for x
  proof (cases "x = i + Suc k")
    case True
    then show ?thesis using that by simp
  next
    case False
    have "(word_of_nat (i + Suc k - x) :: u64) = 1 + word_of_nat (i + k - x)" if "x \<le> i + k"
    proof -
      have "i + Suc k - x = Suc (i + k - x)" using that by simp
      then show ?thesis by simp
    qed
    then show ?thesis using False by (auto simp: add.assoc)
  qed
  then show ?case unfolding run using IH by simp
qed


definition page_run :: "MDB_ID \<Rightarrow> nat \<Rightarrow> MDB_ID list" where
  "page_run pg n = map (\<lambda>k. pg + word_of_nat k) (rev [0..<n])"

lemma length_page_run [simp]: "length (page_run pg n) = n"
  by (simp add: page_run_def)

lemma page_run_bounds:
  assumes "unat pg + n < 2 ^ 64" "x \<in> set (page_run pg n)"
  shows "unat pg \<le> unat x \<and> unat x < unat pg + n"
proof -
  obtain k where k: "k < n" "x = pg + word_of_nat k" using assms(2) by (auto simp: page_run_def)
  then have "unat (word_of_nat k :: u64) = k" using assms(1) by (simp add: unat_of_nat)
  then have "unat x = unat pg + k" using k assms(1) by (simp add: unat_word_ariths)
  then show ?thesis using k(1) by simp
qed

lemma page_run_desc: "unat pg + n < 2 ^ 64 \<Longrightarrow> sorted_wrt (>) (page_run pg n)"
proof (induction n)
  case 0
  then show ?case by (simp add: page_run_def)
next
  case (Suc n)
  have "page_run pg (Suc n) = (pg + word_of_nat n) # page_run pg n" by (simp add: page_run_def)
  moreover have "unat (pg + word_of_nat n) = unat pg + n"
    using Suc.prems by (simp add: unat_word_ariths unat_of_nat)
  ultimately show ?case using Suc page_run_bounds[of pg n] by (auto simp: word_less_nat_alt)
qed

lemma pghead_insert_elems:
  assumes wf: "idl_wf mop" and room: "idl_len mop + n \<le> alloclen mop"
  shows "\<exists>i\<le>idl_len mop. idl_wf (pghead_insert mop pg n) \<and> alloclen (pghead_insert mop pg n) = alloclen mop \<and>
    idl_elems (pghead_insert mop pg n) = take i (idl_elems mop) @ page_run pg n @ drop i (idl_elems mop) \<and>
    (\<forall>x\<in>set (drop i (idl_elems mop)). x < pg) \<and> (0 < i \<longrightarrow> \<not> idl_elems mop ! (i - 1) < pg)"
proof -
  let ?n = "idl_len mop" and ?E = "idl_elems mop"
  obtain m i j where sh: "pghead_shift (ids mop) ?n (?n + n) pg = (m, i, j)" by (metis prod_cases3)
  have L: "length (ids mop) = alloclen mop + 1" "alloclen mop < 2 ^ 32" using wf by (simp_all add: idl_wf_def)
  have len: "?n + n < length (ids mop)" using L room by simp
  from pghead_shift_spec[OF sh len] have i: "i \<le> ?n" "j = i + n" "length m = length (ids mop)"
      "\<forall>x. i < x \<and> x \<le> ?n \<longrightarrow> ids mop ! x < pg" "0 < i \<longrightarrow> \<not> ids mop ! i < pg"
      "\<forall>x<length (ids mop). m ! x = (if i + n < x \<and> x \<le> ?n + n then ids mop ! (x - n) else ids mop ! x)" by blast+
  define f where "f = pghead_fill m i j pg"
  have "i + n < length m" using i(1,3) len by simp
  from pghead_fill_spec[OF this, of pg] have f: "length f = length (ids mop)"
      "\<forall>x<length (ids mop). f ! x = (if i < x \<and> x \<le> i + n then pg + word_of_nat (i + n - x) else m ! x)"
    by (simp_all add: f_def i(2,3))
  let ?r = "pghead_insert mop pg n"
  have r: "?r = mop\<lparr>ids := f[0 := word_of_nat (?n + n)]\<rparr>" by (simp add: pghead_insert_def sh f_def)
  have big: "unat (word_of_nat (?n + n) :: u64) = ?n + n" using room L(2) by (simp add: unat_of_nat del: of_nat_add)
  have rlen: "idl_len ?r = ?n + n" using f(1) L(1) big by (cases f) (simp_all add: r idl_len_def)
  have rwf: "idl_wf ?r" using L room rlen f(1) by (simp add: idl_wf_def r)
  have E: "length ?E = ?n" "\<And>k. k < ?n \<Longrightarrow> ?E ! k = ids mop ! (k + 1)"
    using length_idl_elems[OF wf] nth_idl_elems[OF wf] by auto
  have "idl_elems ?r = take i ?E @ page_run pg n @ drop i ?E"
  proof (rule nth_equalityI)
    show "length (idl_elems ?r) = length (take i ?E @ page_run pg n @ drop i ?E)"
      using length_idl_elems[OF rwf] rlen i(1) E(1) by (simp add: page_run_def)
    fix k assume "k < length (idl_elems ?r)"
    then have k: "k < ?n + n" using length_idl_elems[OF rwf] rlen by simp
    have "idl_elems ?r ! k = f ! (k + 1)" using nth_idl_elems[OF rwf, of k] k rlen by (simp add: r)
    also have "\<dots> = (if i \<le> k \<and> k < i + n then pg + word_of_nat (i + n - (k + 1)) else m ! (k + 1))"
      using f(2) len k by auto
    also have "\<dots> = (take i ?E @ page_run pg n @ drop i ?E) ! k"
    proof (cases "k < i")
      case True
      then show ?thesis using E i(1,6) len k by (simp add: nth_append)
    next
      case False
      show ?thesis
      proof (cases "k < i + n")
        case True
        have "k - i < n" using True False by linarith
        then have "rev [0..<n] ! (k - i) = n - 1 - (k - i)" "k - i < length (rev [0..<n])" by (simp_all add: rev_nth)
        then have "page_run pg n ! (k - i) = pg + word_of_nat (n - 1 - (k - i))"
          by (simp only: page_run_def nth_map)
        moreover have "n - 1 - (k - i) = i + n - (k + 1)" using False by simp
        moreover have "(take i ?E @ page_run pg n @ drop i ?E) ! k = page_run pg n ! (k - i)"
          using \<open>k - i < n\<close> False E(1) i(1) by (simp add: nth_append)
        moreover have "(if i \<le> k \<and> k < i + n then pg + word_of_nat (i + n - (k + 1)) else m ! (k + 1)) = pg + word_of_nat (i + n - (k + 1))"
          using True False by (intro if_P) simp
        ultimately show ?thesis by (simp only:)
      next
        case False
        then have "m ! (k + 1) = ids mop ! (k + 1 - n)" using i(6) len k by simp
        moreover have "k + 1 - n = (k - n) + 1" "k - n < ?n" using False k by simp_all
        moreover have "i + (k - i - n) = k - n" "\<not> k - i < n" using False by linarith+
        ultimately show ?thesis using False E i(1) by (simp add: nth_append page_run_def)
      qed
    qed
    finally show "idl_elems ?r ! k = (take i ?E @ page_run pg n @ drop i ?E) ! k" .
  qed
  moreover have "\<forall>x\<in>set (drop i ?E). x < pg"
  proof
    fix x assume "x \<in> set (drop i ?E)"
    then obtain k where "k < ?n - i" "x = ?E ! (i + k)" using E(1) i(1) by (auto simp: in_set_conv_nth)
    then show "x < pg" using i(4) E(2)[of "i + k"] by simp
  qed
  moreover have "0 < i \<longrightarrow> \<not> ?E ! (i - 1) < pg" using i(1,5) E(2)[of "i - 1"] by auto
  ultimately show ?thesis using i(1) rwf by (intro exI[of _ i]) (simp add: r)
qed

lemma pghead_insert_desc:
  assumes d: "idl_desc mop" and room: "idl_len mop + n \<le> alloclen mop" "unat pg + n < 2 ^ 64"
    and free: "\<forall>x\<in>set (idl_elems mop). unat x < unat pg \<or> unat pg + n \<le> unat x"
  shows "idl_desc (pghead_insert mop pg n) \<and> set (idl_elems (pghead_insert mop pg n)) = set (idl_elems mop) \<union> set (page_run pg n)"
proof -
  let ?E = "idl_elems mop"
  have wf: "idl_wf mop" and s: "sorted_wrt (>) ?E" using d by (auto simp: idl_desc_def)
  from pghead_insert_elems[OF wf room(1), of pg] obtain i where i: "i \<le> idl_len mop" "idl_wf (pghead_insert mop pg n)"
      "idl_elems (pghead_insert mop pg n) = take i ?E @ page_run pg n @ drop i ?E" "\<forall>x\<in>set (drop i ?E). x < pg"
      "0 < i \<longrightarrow> \<not> ?E ! (i - 1) < pg" by blast
  have above: "unat pg + n \<le> unat x" if x: "x \<in> set (take i ?E)" for x
  proof -
    obtain k where k: "k < i" "x = ?E ! k" "k < length ?E" using x i(1) by (auto simp: in_set_conv_nth)
    have "?E ! (i - 1) \<le> x"
    proof (cases "k = i - 1")
      case False
      then have "k < i - 1" "i - 1 < length ?E" using k(1) i(1) length_idl_elems[OF wf] by simp_all
      then have "?E ! k > ?E ! (i - 1)" using s by (simp add: sorted_wrt_iff_nth_less)
      then show ?thesis using k(2) by simp
    qed (simp add: k)
    moreover have "\<not> ?E ! (i - 1) < pg" using i(5) k(1) by simp
    ultimately have "\<not> unat x < unat pg" by (auto simp: word_less_nat_alt word_le_nat_alt)
    moreover have "x \<in> set ?E" using x by (rule in_set_takeD)
    ultimately show ?thesis using free by auto
  qed
  have "sorted_wrt (>) (take i ?E)" "sorted_wrt (>) (drop i ?E)" "\<forall>a\<in>set (take i ?E). \<forall>b\<in>set (drop i ?E). a > b"
    using s[unfolded sorted_wrt_take_drop[of _ ?E i]] by blast+
  moreover have "\<forall>a\<in>set (take i ?E). \<forall>b\<in>set (page_run pg n). a > b"
    using above page_run_bounds[OF room(2)] by (fastforce simp: word_less_nat_alt)
  moreover have "\<forall>a\<in>set (page_run pg n). \<forall>b\<in>set (drop i ?E). a > b"
    using i(4) page_run_bounds[OF room(2)] by (fastforce simp: word_less_nat_alt)
  ultimately have "sorted_wrt (>) (take i ?E @ page_run pg n @ drop i ?E)"
    using page_run_desc[OF room(2)] by (auto simp: sorted_wrt_append)
  moreover have "set (take i ?E @ page_run pg n @ drop i ?E) = set ?E \<union> set (page_run pg n)"
  proof -
    have "set ?E = set (take i ?E) \<union> set (drop i ?E)" by (metis append_take_drop_id set_append)
    then show ?thesis by auto
  qed
  ultimately show ?thesis using i(2,3) by (simp add: idl_desc_def)
qed


section \<open>Taking a page off the dirty list\<close>

lemma ovpage_unlist_spec:
  assumes "1 \<le> p" "p \<le> x" "x < length dl" and "if p = x then mptr ix = mp else mptr ix \<noteq> mp \<and> mptr (dl ! p) = mp"
    and "\<forall>k. p < k \<and> k < x \<longrightarrow> mptr (dl ! k) \<noteq> mp"
  shows "\<exists>dl'. ovpage_unlist dl x ix mp = Some dl' \<and> length dl' = length dl \<and>
    (\<forall>k<length dl. dl' ! k = (if p \<le> k \<and> k < x then if k = x - 1 then ix else dl ! (k + 1) else dl ! k))"
  using assms
proof (induction x arbitrary: dl ix)
  case 0
  then show ?case by simp
next
  case (Suc x)
  show ?case
  proof (cases "p = Suc x")
    case True
    then have "ovpage_unlist dl (Suc x) ix mp = Some dl" using Suc.prems(4) by (subst ovpage_unlist.simps) simp
    then show ?thesis using True by auto
  next
    case False
    then have p: "p \<le> x" "1 \<le> x" and ne: "mptr ix \<noteq> mp" "mptr (dl ! p) = mp" using Suc.prems by auto
    let ?dl = "dl[x := ix]"
    have run: "ovpage_unlist dl (Suc x) ix mp = ovpage_unlist ?dl x (dl ! x) mp"
      using ne(1) p(2) by (subst ovpage_unlist.simps) simp
    have "\<exists>dl'. ovpage_unlist ?dl x (dl ! x) mp = Some dl' \<and> length dl' = length ?dl \<and>
        (\<forall>k<length ?dl. dl' ! k = (if p \<le> k \<and> k < x then if k = x - 1 then dl ! x else ?dl ! (k + 1) else ?dl ! k))"
    proof (rule Suc.IH)
      show "if p = x then mptr (dl ! x) = mp else mptr (dl ! x) \<noteq> mp \<and> mptr (?dl ! p) = mp"
        using ne(2) Suc.prems(5) p by auto
      show "\<forall>k. p < k \<and> k < x \<longrightarrow> mptr (?dl ! k) \<noteq> mp" using Suc.prems(5) by simp
    qed (use p Suc.prems in auto)
    then obtain dl' where dl': "ovpage_unlist ?dl x (dl ! x) mp = Some dl'" "length dl' = length dl"
        "\<forall>k<length dl. dl' ! k = (if p \<le> k \<and> k < x then if k = x - 1 then dl ! x else ?dl ! (k + 1) else ?dl ! k)" by auto
    have "dl' ! k = (if p \<le> k \<and> k < Suc x then if k = Suc x - 1 then ix else dl ! (k + 1) else dl ! k)" if k: "k < length dl" for k
    proof (cases "k = x")
      case True
      then show ?thesis using dl'(3) k p by simp
    next
      case False
      have "k + 1 = x" if "k = x - 1" using that p(2) by simp
      then show ?thesis using dl'(3) k False by auto
    qed
    then show ?thesis using run dl'(1,2) by auto
  qed
qed

lemma sorted_wrt_remove_at: "sorted_wrt P xs \<Longrightarrow> sorted_wrt P (remove_at i xs)"
  unfolding remove_at_def sorted_wrt_append sorted_wrt_take_drop[of P xs i]
  using set_drop_subset_set_drop[of i "Suc i" xs] sorted_wrt_drop[of P "drop i xs" 1] by auto

lemma unlist_elems:
  assumes s: "id2l_sorted dl" and p: "1 \<le> p" "p \<le> id2l_len dl" "mptr (dl ! p) = mp"
    and uniq: "\<forall>k. 1 \<le> k \<and> k \<le> id2l_len dl \<and> mptr (dl ! k) = mp \<longrightarrow> k = p"
  shows "\<exists>dl'. ovpage_unlist (dl[0 := (dl ! 0)\<lparr>mid := mid (dl ! 0) - 1\<rparr>]) (id2l_len dl)
      ((dl[0 := (dl ! 0)\<lparr>mid := mid (dl ! 0) - 1\<rparr>]) ! id2l_len dl) mp = Some dl' \<and>
    id2l_sorted dl' \<and> id2l_elems dl' = remove_at (p - 1) (id2l_elems dl)"
proof -
  let ?n = "id2l_len dl"
  let ?dl = "dl[0 := (dl ! 0)\<lparr>mid := mid (dl ! 0) - 1\<rparr>]"
  have wf: "id2l_wf dl" using s by (simp add: id2l_sorted_def)
  then have L: "length dl = MDB_IDL_UM_MAX + 1" "?n \<le> MDB_IDL_UM_MAX" by (simp_all add: id2l_wf_def)
  have n: "1 \<le> ?n" "?n < length ?dl" using p L by simp_all
  have low: "?dl ! k = dl ! k" if "1 \<le> k" for k using that by simp
  have "if p = ?n then mptr (?dl ! ?n) = mp else mptr (?dl ! ?n) \<noteq> mp \<and> mptr (?dl ! p) = mp"
    unfolding low[OF n(1)] low[OF p(1)] using p(3) uniq n(1) by (metis order_refl)
  moreover have "\<forall>k. p < k \<and> k < ?n \<longrightarrow> mptr (?dl ! k) \<noteq> mp"
  proof (intro allI impI)
    fix k assume k: "p < k \<and> k < ?n"
    then have "1 \<le> k" "k \<le> ?n" "k \<noteq> p" using p(1) by linarith+
    then have "mptr (dl ! k) \<noteq> mp" using uniq by metis
    then show "mptr (?dl ! k) \<noteq> mp" unfolding low[OF \<open>1 \<le> k\<close>] .
  qed
  ultimately obtain dl' where dl': "ovpage_unlist ?dl ?n (?dl ! ?n) mp = Some dl'" "length dl' = length ?dl"
      "\<forall>k<length ?dl. dl' ! k = (if p \<le> k \<and> k < ?n then if k = ?n - 1 then ?dl ! ?n else ?dl ! (k + 1) else ?dl ! k)"
    using ovpage_unlist_spec[OF p(1,2) n(2)] by blast
  have at: "dl' ! k = (if p \<le> k \<and> k < ?n then dl ! (k + 1) else ?dl ! k)" if "k < length dl" for k
  proof -
    have "k + 1 = ?n" if "k = ?n - 1" using that n(1) by simp
    then show ?thesis using dl'(3) that low[of "k + 1"] low[OF n(1)] by auto
  qed
  have "unat (mid (dl ! 0)) = ?n" by (simp add: id2l_len_def)
  moreover from this have "mid (dl ! 0) \<noteq> 0" using n(1) by (cases "mid (dl ! 0) = 0") simp_all
  ultimately have "unat (mid (dl ! 0) - 1) = ?n - 1" by (simp add: unat_minus_one)
  moreover have "mid (dl' ! 0) = mid (dl ! 0) - 1" using at[of 0] p(1) L(1) by (cases dl) simp_all
  ultimately have len: "id2l_len dl' = ?n - 1" by (simp add: id2l_len_def)
  then have wf': "id2l_wf dl'" using L dl'(2) by (simp add: id2l_wf_def)
  have "id2l_elems dl' = remove_at (p - 1) (id2l_elems dl)"
  proof (rule nth_equalityI)
    show "length (id2l_elems dl') = length (remove_at (p - 1) (id2l_elems dl))"
      using length_id2l_elems[OF wf] length_id2l_elems[OF wf'] len p by simp
    fix k assume "k < length (id2l_elems dl')"
    then have k: "k < ?n - 1" using length_id2l_elems[OF wf'] len by simp
    then have "id2l_elems dl' ! k = dl' ! (k + 1)" using nth_id2l_elems[OF wf'] len by simp
    also have "\<dots> = (if p \<le> k + 1 then dl ! (k + 2) else dl ! (k + 1))" using at[of "k + 1"] k L low by simp
    also have "\<dots> = remove_at (p - 1) (id2l_elems dl) ! k"
      using k p length_id2l_elems[OF wf] nth_id2l_elems[OF wf] by (auto simp: nth_remove_at)
    finally show "id2l_elems dl' ! k = remove_at (p - 1) (id2l_elems dl) ! k" .
  qed
  moreover have "sorted_wrt (<) (remove_at (p - 1) (map mid (id2l_elems dl)))"
    using s by (intro sorted_wrt_remove_at) (simp add: id2l_sorted_def)
  ultimately show ?thesis using dl'(1) wf' by (auto simp: id2l_sorted_def remove_at_map)
qed


lemma map_of_remove_at:
  assumes "distinct (map fst xs)" "i < length xs"
  shows "map_of (remove_at i xs) = (map_of xs)(fst (xs ! i) := None)"
proof -
  have xs: "xs = take i xs @ xs ! i # drop (Suc i) xs" using assms(2) by (rule id_take_nth_drop)
  then have "distinct (map fst (take i xs @ xs ! i # drop (Suc i) xs))" using assms(1) by metis
  then have no: "fst (xs ! i) \<notin> fst ` set (take i xs)" "fst (xs ! i) \<notin> fst ` set (drop (Suc i) xs)" by simp_all
  show ?thesis
  proof
    fix y
    have "map_of xs y = map_of (take i xs @ xs ! i # drop (Suc i) xs) y" using xs by metis
    then have eq: "map_of xs y = (case map_of (take i xs) y of None \<Rightarrow> if y = fst (xs ! i) then Some (snd (xs ! i)) else map_of (drop (Suc i) xs) y | Some v \<Rightarrow> Some v)"
      by (cases "xs ! i") (auto simp: map_of_append map_add_def split: option.splits)
    show "map_of (remove_at i xs) y = ((map_of xs)(fst (xs ! i) := None)) y"
    proof (cases "y = fst (xs ! i)")
      case True
      then have "map_of (take i xs) y = None" "map_of (drop (Suc i) xs) y = None"
        using no by (simp_all add: map_of_eq_None_iff)
      then show ?thesis using True by (simp add: remove_at_def map_of_append map_add_def)
    next
      case False
      then show ?thesis
        using eq by (auto simp: remove_at_def map_of_append map_add_def split: option.splits)
    qed
  qed
qed

lemma unlist_map:
  assumes s: "id2l_sorted dl" and p: "1 \<le> p" "p \<le> id2l_len dl"
    and e: "id2l_elems dl' = remove_at (p - 1) (id2l_elems dl)"
  shows "id2l_map dl' = (id2l_map dl)(mid (dl ! p) := None)"
proof -
  let ?kv = "\<lambda>e. (mid e, mptr e)"
  have wf: "id2l_wf dl" and d: "distinct (map mid (id2l_elems dl))"
    using s by (auto simp: id2l_sorted_def strict_sorted_iff)
  have "distinct (map fst (map ?kv (id2l_elems dl)))" using d by (simp add: comp_def)
  moreover have "p - 1 < length (map ?kv (id2l_elems dl))" using p length_id2l_elems[OF wf] by simp
  moreover from this have "fst (map ?kv (id2l_elems dl) ! (p - 1)) = mid (dl ! p)" using nth_id2l_elems[OF wf, of "p - 1"] p by simp
  ultimately show ?thesis
    using map_of_remove_at[of "map ?kv (id2l_elems dl)" "p - 1"] unfolding id2l_map_def e by (simp add: remove_at_map)
qed

section \<open>Properties\<close>

text \<open>C36. A cursor without a map of its own finds a page where the innermost transaction that has it
  keeps it: on its dirty list, or back in the map when it was spilled; otherwise in the map if it lies
  below the next new page, and else the transaction is marked and the read fails.\<close>

theorem page_get_overlay:
  assumes "\<forall>l\<in>set (mt_levels txn). level_ok l"
  shows "mdb_page_get txn own_map pgno =
    (let mapped = me_map txn + me_page_size txn * pgno in
     case (if own_map then None else overlay (mt_levels txn) mapped pgno 1) of
       Some r \<Rightarrow> (txn, Ok r)
     | None \<Rightarrow> if mt_next_pgno txn \<le> pgno
         then (txn\<lparr>mt_last_err := Some MDB_PAGE_NOTFOUND, mt_error := True\<rparr>, Err MDB_PAGE_NOTFOUND)
         else (txn, Ok (mapped, 0)))"
  using page_get_levels_spec[OF assms, of "me_map txn + me_page_size txn * pgno" pgno 1, symmetric]
  by (cases "page_get_levels (mt_levels txn) pgno 1") (auto simp: mdb_page_get_def Let_def mdb_txn_mark_error_def)

definition sample_dirty :: MDB_ID2L where
  "sample_dirty = \<lparr>mid = 1, mptr = 0\<rparr> # \<lparr>mid = 7, mptr = 3\<rparr> # replicate (MDB_IDL_UM_MAX - 1) \<lparr>mid = 0, mptr = 0\<rparr>"

lemma sample_dirty_ok: "id2l_sorted sample_dirty" "id2l_len sample_dirty = 1" "sample_dirty ! Suc 0 = \<lparr>mid = 7, mptr = 3\<rparr>"
    "id2l_map sample_dirty = [7 \<mapsto> 3]"
  by (simp_all add: sample_dirty_def id2l_sorted_def id2l_wf_def id2l_len_def id2l_elems_def id2l_map_def MDB_IDL_UM_MAX_def)

definition sample_txn :: MDB_txn where
  "sample_txn = \<lparr>mt_levels = [\<lparr>mt_spill_pgs = None, mt_dirty_list = sample_dirty\<rparr>], mt_next_pgno = 20, mt_finished = False,
     mt_error = False, mt_has_child = False, mt_last_err = None, me_interrupt = False, me_map = 1000, me_page_size = 64\<rparr>"

theorem page_get_overlay_witness:
  "mdb_page_get sample_txn False 7 = (sample_txn, Ok (3, 1)) \<and> mdb_page_get sample_txn False 8 = (sample_txn, Ok (1512, 0))"
proof -
  have ok: "\<forall>l\<in>set (mt_levels sample_txn). level_ok l" by (simp add: sample_txn_def level_ok_def sample_dirty_ok)
  show ?thesis
    using page_get_overlay[OF ok, of False 7] page_get_overlay[OF ok, of False 8]
    by (simp add: sample_txn_def level_spilled_def sample_dirty_ok)
qed

text \<open>
  When an overflow page of \<open>n\<close> pages from \<open>pg\<close> on at address \<open>a\<close> may be freed: lists are in order, not too long, and do not have
  the pages; a dirty page is on the dirty list of an outermost transaction, under its number only; a page is not on the spill list both as
  spilled and as dropped from there.
\<close>

definition ovfree_ok :: "bool \<Rightarrow> nat \<Rightarrow> MDB_ID \<Rightarrow> nat \<Rightarrow> bool \<Rightarrow> ovfree_state \<Rightarrow> bool" where
  "ovfree_ok nested a pg n dirty st \<longleftrightarrow> unat pg + n < 2 ^ 64 \<and>
     (\<forall>mop. of_pghead st = Some mop \<longrightarrow> idl_desc mop \<and> 5 * (n + alloclen mop) div 4 + 258 < 2 ^ 32 \<and>
        (\<forall>x\<in>set (idl_elems mop). unat x < unat pg \<or> unat pg + n \<le> unat x)) \<and>
     idl_wf (of_free_pgs st) \<and> alloclen (of_free_pgs st) + (n OR MDB_IDL_UM_MAX) < 2 ^ 32 \<and>
     (\<forall>sl. of_spill st = Some sl \<longrightarrow> idl_desc sl \<and> push_bit 1 pg OR 1 \<notin> set (idl_elems sl)) \<and>
     id2l_sorted (of_dirty st) \<and>
     (dirty \<and> \<not> nested \<longrightarrow> id2l_map (of_dirty st) pg = Some a \<and> (\<forall>q. id2l_map (of_dirty st) q = Some a \<longrightarrow> q = pg))"

text \<open>The pages that a spill list has; an entry that is dropped has its lowest bit set.\<close>

definition spill_set :: "MDB_IDL option \<Rightarrow> MDB_ID set" where
  "spill_set sl = (case sl of None \<Rightarrow> {} | Some sl \<Rightarrow> {q. push_bit 1 q \<in> set (idl_elems sl)})"

lemma spill_found:
  assumes "ovfree_ok nested a pg n dirty st"
  shows "(case of_spill st of None \<Rightarrow> False
     | Some sl \<Rightarrow> (case of_spill st of None \<Rightarrow> 0 | Some sl \<Rightarrow> mdb_midl_search sl (push_bit 1 pg)) \<le> idl_len sl \<and>
         ids sl ! (case of_spill st of None \<Rightarrow> 0 | Some sl \<Rightarrow> mdb_midl_search sl (push_bit 1 pg)) = push_bit 1 pg)
    \<longleftrightarrow> pg \<in> spill_set (of_spill st)"
proof (cases "of_spill st")
  case (Some sl)
  then have d: "idl_desc sl" using assms by (simp add: ovfree_ok_def)
  then have wf: "idl_wf sl" by (simp add: idl_desc_def)
  show ?thesis
    unfolding Some spill_set_def option.case mem_Collect_eq idl_mem_iff[OF wf]
    by (rule midl.found_iff_member[OF d, of "push_bit 1 pg"])
qed (simp add: spill_set_def)

lemma sorted_update:
  fixes xs :: "'a::linorder list"
  assumes "sorted_wrt (>) xs" "i < length xs" "\<And>j. j < i \<Longrightarrow> v < xs ! j" "xs ! i \<le> v"
  shows "sorted_wrt (>) (xs[i := v])"
  unfolding sorted_wrt_iff_nth_less
proof (intro allI impI)
  fix j k assume jk: "j < k" "k < length (xs[i := v])"
  then have lt: "xs ! k < xs ! j" using assms(1) by (simp add: sorted_wrt_iff_nth_less)
  show "xs[i := v] ! k < xs[i := v] ! j"
    using jk assms lt by (cases "j = i"; cases "k = i") (auto simp: nth_list_update)
qed

text \<open>Dropping a page from the spill list, as \<open>mdb_ovpage_free\<close> does it.\<close>

lemma spill_drop:
  assumes d: "idl_desc sl" and x: "1 \<le> x" "x \<le> idl_len sl" "ids sl ! x = push_bit 1 pg"
    and no: "push_bit 1 pg OR 1 \<notin> set (idl_elems sl)"
  defines "sl' \<equiv> (if x = idl_len sl then sl\<lparr>ids := (ids sl)[0 := ids sl ! 0 - 1]\<rparr> else sl\<lparr>ids := (ids sl)[x := ids sl ! x OR 1]\<rparr>)"
  shows "idl_desc sl' \<and> spill_set (Some sl') = spill_set (Some sl) - {q. push_bit 1 q = push_bit 1 pg}"
proof -
  let ?pn = "push_bit 1 pg" and ?es = "idl_elems sl"
  have wf: "idl_wf sl" and s: "sorted_wrt (>) ?es" using d by (simp_all add: idl_desc_def)
  have len: "length ?es = idl_len sl" "idl_len sl < length (ids sl)" using wf by (simp_all add: length_idl_elems idl_wf_def)
  have at: "?es ! (x - 1) = ?pn" using nth_idl_elems[OF wf, of "x - 1"] x by simp
  have dist: "distinct ?es" using s by (simp add: sorted_wrt_iff_nth_less distinct_conv_nth) (metis less_irrefl linorder_neqE_nat)
  show ?thesis
  proof (cases "x = idl_len sl")
    case True
    have "ids sl ! 0 \<noteq> 0" using x True by (auto simp: idl_len_def)
    then have u: "unat (ids sl ! 0 - 1) = idl_len sl - 1" by (simp add: unat_minus_one idl_len_def)
    have "0 < length (ids sl)" using len(2) by linarith
    then have "ids sl' ! 0 = ids sl ! 0 - 1" using True by (simp add: sl'_def)
    then have l': "idl_len sl' = idl_len sl - 1" using u by (simp only: idl_len_def)
    have e: "idl_elems sl' = butlast ?es"
      using True len l' by (cases "ids sl") (simp_all add: sl'_def idl_elems_def butlast_take min_def)
    have wf': "idl_wf sl'" using wf l' True by (auto simp: idl_wf_def sl'_def)
    have "?es \<noteq> []" using len x by auto
    then have ne: "?es \<noteq> []" "last ?es = ?pn" using len x at True by (simp_all add: last_conv_nth)
    have es: "?es = butlast ?es @ [?pn]" using ne by (metis append_butlast_last_id)
    then have "sorted_wrt (>) (butlast ?es)" using s by (metis sorted_wrt_append)
    moreover have "?pn \<notin> set (butlast ?es)" using es dist by (metis distinct_append disjoint_insert(1) list.simps(15) empty_set)
    moreover have "set ?es = insert ?pn (set (butlast ?es))" by (subst es) simp
    ultimately show ?thesis using wf' e by (auto simp: idl_desc_def spill_set_def)
  next
    case False
    have odd: "?pn OR 1 = ?pn + 1" "even ?pn" by (simp_all add: or_one_eq)
    have l': "idl_len sl' = idl_len sl" using False x by (simp add: sl'_def idl_len_def)
    have t: "tl (ids sl') = (tl (ids sl))[x - 1 := ?pn OR 1]" using False x by (cases "ids sl"; cases x) (auto simp: sl'_def)
    have e: "idl_elems sl' = ?es[x - 1 := ?pn OR 1]" unfolding idl_elems_def l' t by (rule take_update_swap)
    have wf': "idl_wf sl'" using wf l' False by (auto simp: idl_wf_def sl'_def)
    have bound: "?pn OR 1 < ?es ! j" if "j < x - 1" for j
    proof -
      have l: "x - 1 < length ?es" "j < length ?es" using x len that by linarith+
      have "?pn < ?es ! j" using sorted_wrt_nth_less[OF s that l(1)] at by simp
      moreover have "?es ! j \<noteq> ?pn OR 1" using no nth_mem[OF l(2)] by auto
      ultimately show ?thesis unfolding odd(1) using inc_le order_le_imp_less_or_eq by fastforce
    qed
    have ge: "?es ! (x - 1) \<le> ?pn OR 1" unfolding at by (rule le_word_or2)
    have x1: "x - 1 < length ?es" using x len by simp
    have set': "set (idl_elems sl') = insert (?pn OR 1) (set ?es - {?pn})"
      unfolding e using set_update_distinct[OF dist x1] at by simp
    have ne: "push_bit 1 q \<noteq> ?pn OR 1" for q :: MDB_ID
    proof
      assume "push_bit 1 q = ?pn OR 1"
      then have "even (?pn OR 1)" by (metis odd(2) even_mult_iff push_bit_of_1 push_bit_eq_mult power_one_right dvd_triv_right)
      then show False by (simp add: even_or_iff)
    qed
    have "spill_set (Some sl') = spill_set (Some sl) - {q. push_bit 1 q = ?pn}"
      unfolding spill_set_def set' option.case using ne by blast
    then show ?thesis using sorted_update[OF s x1 bound ge] wf' e by (simp add: idl_desc_def)
  qed
qed

lemma dirty_position:
  assumes s: "id2l_sorted dl" and m: "id2l_map dl pg = Some a" and u: "\<forall>q. id2l_map dl q = Some a \<longrightarrow> q = pg"
  obtains p where "1 \<le> p" "p \<le> id2l_len dl" "mptr (dl ! p) = a" "mid (dl ! p) = pg"
    "\<forall>k. 1 \<le> k \<and> k \<le> id2l_len dl \<and> mptr (dl ! k) = a \<longrightarrow> k = p"
proof -
  have wf: "id2l_wf dl" using s by (simp add: id2l_sorted_def)
  have "(pg, a) \<in> set (map (\<lambda>e. (mid e, mptr e)) (id2l_elems dl))" using m unfolding id2l_map_def by (rule map_of_SomeD)
  then obtain i where i: "i < length (id2l_elems dl)" "mid (id2l_elems dl ! i) = pg" "mptr (id2l_elems dl ! i) = a"
    by (auto simp: in_set_conv_nth)
  then have p: "1 \<le> Suc i" "Suc i \<le> id2l_len dl" "mptr (dl ! Suc i) = a" "mid (dl ! Suc i) = pg"
    using nth_id2l_elems[OF wf, of i] length_id2l_elems[OF wf] by simp_all
  have "k = Suc i" if k: "1 \<le> k" "k \<le> id2l_len dl" "mptr (dl ! k) = a" for k
  proof -
    have "mid (dl ! k) = pg" using u map_of_distinct_nth[OF s k(1,2)] k(3) by metis
    moreover have k1: "k - 1 < length (id2l_elems dl)" "id2l_elems dl ! (k - 1) = dl ! k"
      using k nth_id2l_elems[OF wf, of "k - 1"] length_id2l_elems[OF wf] by simp_all
    ultimately have "map mid (id2l_elems dl) ! (k - 1) = map mid (id2l_elems dl) ! i" using i by simp
    moreover have "distinct (map mid (id2l_elems dl))" using s by (auto simp: id2l_sorted_def strict_sorted_iff)
    ultimately have "k - 1 = i" using nth_eq_iff_index_eq[of "map mid (id2l_elems dl)"] i(1) k1(1) by simp
    then show ?thesis using k(1) by simp
  qed
  then show ?thesis using that[OF p] by blast
qed

text \<open>C38. Freeing an overflow page. In an outermost transaction that has reusable pages in hand, a page that the transaction has dirtied
  or spilled gives its page numbers back at once: they are merged into the reusable pages, which stay in descending order, and
  the page leaves the dirty list, which stays the sorted map of the others, or the spill list, where no other page is touched.
  Any other page adds its numbers to the pages that the transaction has freed, and no other list changes. Without memory nothing changes.\<close>

theorem ovpage_free_correct:
  assumes "ovfree_ok nested a pg n dirty st"
  shows "\<exists>st' r. mdb_ovpage_free alloc junk nested a pg n dirty st = (st', r) \<and>
    (r = Err ENOMEM \<and> \<not> alloc \<and> st' = st \<or>
     r = Ok () \<and> of_overflow_pages st' = of_overflow_pages st - word_of_nat n \<and>
     (if of_pghead st \<noteq> None \<and> \<not> nested \<and> (dirty \<or> pg \<in> spill_set (of_spill st))
      then \<exists>mop mop'. of_pghead st = Some mop \<and> of_pghead st' = Some mop' \<and> idl_desc mop' \<and>
          set (idl_elems mop') = set (idl_elems mop) \<union> set (page_run pg n) \<and> of_free_pgs st' = of_free_pgs st \<and>
          (if dirty
           then id2l_sorted (of_dirty st') \<and> id2l_map (of_dirty st') = (id2l_map (of_dirty st))(pg := None) \<and>
             of_dirty_room st' = of_dirty_room st + 1 \<and> of_spill st' = of_spill st
           else of_dirty st' = of_dirty st \<and> of_dirty_room st' = of_dirty_room st \<and>
             (\<exists>sl. of_spill st' = Some sl \<and> idl_desc sl) \<and>
             spill_set (of_spill st') = spill_set (of_spill st) - {q. push_bit 1 q = push_bit 1 pg})
      else st' = st\<lparr>of_free_pgs := of_free_pgs st', of_overflow_pages := of_overflow_pages st'\<rparr> \<and> idl_wf (of_free_pgs st') \<and>
        idl_elems (of_free_pgs st') = idl_elems (of_free_pgs st) @ page_run pg n))"
proof -
  let ?spilled = "pg \<in> spill_set (of_spill st)"
  let ?x = "case of_spill st of None \<Rightarrow> 0 | Some sl \<Rightarrow> mdb_midl_search sl (push_bit 1 pg)"
  note run = mdb_ovpage_free_def[of alloc junk nested a pg n dirty st, unfolded Let_def spill_found[OF assms]]
  show ?thesis
  proof (cases "of_pghead st \<noteq> None \<and> \<not> nested \<and> (dirty \<or> ?spilled)")
    case no: False
    then have none: "(if \<not> nested \<and> (dirty \<or> ?spilled) then of_pghead st else None) = None" by auto
    show ?thesis
    proof (cases "mdb_midl_append_range alloc junk (of_free_pgs st) pg n")
      case (Ok l)
      have "idl_wf l \<and> idl_elems l = idl_elems (of_free_pgs st) @ page_run pg n"
        using append_range_Ok[OF Ok] assms by (simp add: ovfree_ok_def page_run_def)
      then show ?thesis using no unfolding run none option.case Ok res.case by auto
    next
      case (Err e)
      then have "e = ENOMEM" "\<not> alloc"
        by (auto simp: mdb_midl_append_range_def mdb_midl_grow_def bind_res_def Let_def split: if_splits)
      then show ?thesis unfolding run none option.case Err res.case by auto
    next
      case Abort
      then show ?thesis by (auto simp: mdb_midl_append_range_def mdb_midl_grow_def bind_res_def Let_def split: if_splits)
    qed
  next
    case reuse: True
    then obtain mop where mop: "of_pghead st = Some mop" "(if \<not> nested \<and> (dirty \<or> ?spilled) then of_pghead st else None) = Some mop" by auto
    have A: "unat pg + n < 2 ^ 64" "idl_desc mop" "5 * (n + alloclen mop) div 4 + 258 < 2 ^ 32"
      "\<forall>x\<in>set (idl_elems mop). unat x < unat pg \<or> unat pg + n \<le> unat x"
      using assms mop(1) unfolding ovfree_ok_def by blast+
    show ?thesis
    proof (cases "mdb_midl_need alloc junk mop n")
      case (Ok mop1)
      have m1: "idl_wf mop1" "idl_elems mop1 = idl_elems mop" "idl_len mop + n \<le> alloclen mop1"
        using need_Ok[OF Ok _ A(3)] A(2) by (simp_all add: idl_desc_def)
      then have "idl_len mop1 = idl_len mop"
        using length_idl_elems[of mop1] length_idl_elems[of mop] A(2) by (simp add: idl_desc_def)
      then have m: "idl_desc mop1" "idl_len mop1 + n \<le> alloclen mop1" using m1 A(2) by (simp_all add: idl_desc_def)
      have ins: "idl_desc (pghead_insert mop1 pg n)" "set (idl_elems (pghead_insert mop1 pg n)) = set (idl_elems mop) \<union> set (page_run pg n)"
        using pghead_insert_desc[OF m A(1)] A(4) m1(2) by simp_all
      show ?thesis
      proof (cases dirty)
        case True
        then have d: "id2l_sorted (of_dirty st)" "id2l_map (of_dirty st) pg = Some a" "\<forall>q. id2l_map (of_dirty st) q = Some a \<longrightarrow> q = pg"
          using assms reuse unfolding ovfree_ok_def by blast+
        obtain p where p: "1 \<le> p" "p \<le> id2l_len (of_dirty st)" "mptr (of_dirty st ! p) = a" "mid (of_dirty st ! p) = pg"
          "\<forall>k. 1 \<le> k \<and> k \<le> id2l_len (of_dirty st) \<and> mptr (of_dirty st ! k) = a \<longrightarrow> k = p" using dirty_position[OF d] .
        from unlist_elems[OF d(1) p(1-3,5)] obtain dl' where dl':
          "ovpage_unlist ((of_dirty st)[0 := (of_dirty st ! 0)\<lparr>mid := mid (of_dirty st ! 0) - 1\<rparr>]) (id2l_len (of_dirty st))
            (((of_dirty st)[0 := (of_dirty st ! 0)\<lparr>mid := mid (of_dirty st ! 0) - 1\<rparr>]) ! id2l_len (of_dirty st)) a = Some dl'"
          "id2l_sorted dl'" "id2l_elems dl' = remove_at (p - 1) (id2l_elems (of_dirty st))" by blast
        have "id2l_map dl' = (id2l_map (of_dirty st))(pg := None)" using unlist_map[OF d(1) p(1,2) dl'(3)] p(4) by simp
        then show ?thesis
          using reuse True ins dl'(1,2) unfolding run mop(2) option.case Ok res.case by (simp add: mop(1))
      next
        case False
        then obtain sl where sl: "of_spill st = Some sl" "push_bit 1 pg \<in> set (idl_elems sl)" using reuse by (auto simp: spill_set_def split: option.splits)
        then have D: "idl_desc sl" "push_bit 1 pg OR 1 \<notin> set (idl_elems sl)" using assms by (auto simp: ovfree_ok_def)
        have x: "1 \<le> mdb_midl_search sl (push_bit 1 pg)" "mdb_midl_search sl (push_bit 1 pg) \<le> idl_len sl"
          "ids sl ! mdb_midl_search sl (push_bit 1 pg) = push_bit 1 pg"
          using spill_found[OF assms] False reuse midl.search_range[OF D(1), of "push_bit 1 pg"] sl by auto
        let ?y = "mdb_midl_search sl (push_bit 1 pg)"
        define sl' where "sl' = (if ?y = idl_len sl then sl\<lparr>ids := (ids sl)[0 := ids sl ! 0 - 1]\<rparr> else sl\<lparr>ids := (ids sl)[?y := ids sl ! ?y OR 1]\<rparr>)"
        have drop: "idl_desc sl'" "spill_set (Some sl') = spill_set (Some sl) - {q. push_bit 1 q = push_bit 1 pg}"
          using spill_drop[OF D(1) x D(2)] unfolding sl'_def by blast+
        have sp: "of_spill (st\<lparr>of_pghead := Some mop1\<rparr>) = Some sl" using sl(1) by simp
        show ?thesis
          using reuse False ins drop unfolding run mop(2) option.case Ok res.case unfolding sp sl(1) option.case option.sel sl'_def[symmetric] by (simp add: mop(1))
      qed
    next
      case (Err e)
      then have "e = ENOMEM" "\<not> alloc" by (auto simp: mdb_midl_need_def Let_def split: if_splits)
      then show ?thesis unfolding run mop(2) option.case Err res.case by auto
    next
      case Abort
      then show ?thesis by (simp add: mdb_midl_need_def Let_def split: if_splits)
    qed
  qed
qed

definition sample_ovfree :: ovfree_state where
  "sample_ovfree = \<lparr>of_pghead = Some \<lparr>alloclen = 9, ids = [2, 12, 4, 0, 0, 0, 0, 0, 0, 0]\<rparr>,
     of_free_pgs = \<lparr>alloclen = 1, ids = [0, 0]\<rparr>, of_spill = None, of_dirty = sample_dirty, of_dirty_room = 5, of_overflow_pages = 3\<rparr>"

text \<open>Page 7 of three pages is on the dirty list; page 9 of two is on the spill list \<open>sample_spill\<close>, between two others.\<close>

definition sample_spill :: MDB_IDL where
  "sample_spill = \<lparr>alloclen = 3, ids = [3, 30, 18, 6]\<rparr>"

theorem ovpage_free_correct_witness:
  "(\<exists>st' mop'. mdb_ovpage_free True 0 False 3 7 3 True sample_ovfree = (st', Ok ()) \<and> of_pghead st' = Some mop' \<and>
     idl_desc mop' \<and> set (idl_elems mop') = {4, 7, 8, 9, 12} \<and> id2l_map (of_dirty st') = Map.empty) \<and>
   (\<exists>st' mop'. mdb_ovpage_free True 0 False 5 9 2 False (sample_ovfree\<lparr>of_spill := Some sample_spill\<rparr>) = (st', Ok ()) \<and>
     of_pghead st' = Some mop' \<and> set (idl_elems mop') = {4, 9, 10, 12} \<and>
     spill_set (of_spill st') = spill_set (Some sample_spill) - {q. push_bit 1 q = push_bit 1 9}) \<and>
   (\<exists>st'. mdb_ovpage_free True 0 True 3 7 2 True sample_ovfree = (st', Ok ()) \<and> idl_elems (of_free_pgs st') = [8, 7])"
proof -
  let ?mop = "\<lparr>alloclen = 9, ids = [2, 12, 4, 0, 0, 0, 0, 0, 0, 0 :: u64]\<rparr>"
  let ?spill = "sample_ovfree\<lparr>of_spill := Some sample_spill\<rparr>"
  have e: "idl_elems ?mop = [12, 4]" "idl_desc ?mop" by (simp_all add: idl_elems_def idl_len_def idl_desc_def idl_wf_def)
  have s: "idl_elems sample_spill = [30, 18, 6]" "idl_desc sample_spill"
    by (simp_all add: sample_spill_def idl_elems_def idl_len_def idl_desc_def idl_wf_def)
  have f: "idl_wf (of_free_pgs sample_ovfree)" "idl_elems (of_free_pgs sample_ovfree) = []"
    by (simp_all add: sample_ovfree_def idl_elems_def idl_len_def idl_wf_def)
  have um: "(3 OR MDB_IDL_UM_MAX) < 2 ^ 31" "(2 OR MDB_IDL_UM_MAX) < 2 ^ 31" by (simp_all add: MDB_IDL_UM_MAX_def)
  have run: "page_run 7 3 = [9, 8, 7]" "page_run 9 2 = [10, 9]" "page_run 7 2 = [8, 7]" by (simp_all add: page_run_def numeral_3_eq_3 numeral_2_eq_2)
  have p: "of_pghead sample_ovfree = Some ?mop" "of_spill sample_ovfree = None" "of_dirty sample_ovfree = sample_dirty"
    "alloclen (of_free_pgs sample_ovfree) = 1" by (simp_all add: sample_ovfree_def)
  have m: "id2l_map sample_dirty q = Some 3 \<longleftrightarrow> q = 7" for q by (simp add: sample_dirty_ok)
  have ok: "ovfree_ok False 3 7 3 True sample_ovfree" "ovfree_ok False 5 9 2 False ?spill" "ovfree_ok True 3 7 2 True sample_ovfree"
    using um unfolding ovfree_ok_def by (simp_all add: p e s f m sample_dirty_ok)
  have in9: "9 \<in> spill_set (Some sample_spill)" by (simp add: spill_set_def s)
  show ?thesis
    using ovpage_free_correct[OF ok(1), of True 0] ovpage_free_correct[OF ok(2), of True 0] ovpage_free_correct[OF ok(3), of True 0] in9
    by (auto simp: p e f run sample_dirty_ok insert_commute)
qed

end
