(* ===== verification/Cursor.thy ===== *)
theory Cursor
  imports Node_Search Txn_Pages
begin

text \<open>
  Cursors (\<open>mdb.c\<close>): the stack of pages from the root to a leaf, the descent of the tree, the moves to
  siblings, and the operations of \<open>mdb_cursor_get\<close> and \<open>mdb_get\<close>, on databases without sorted
  duplicates. The sub-cursor \<open>mc_xcursor\<close> of such a database is never positioned, so it is not part of
  the state.
\<close>

section \<open>State\<close>

text \<open>
  What a cursor knows of its database. A page is its address; \<open>te_own_map\<close> is
  \<open>C_ORIG_RDONLY|C_WRITEMAP\<close>; \<open>te_dcmp\<close> is \<open>md_dcmp\<close>, where \<open>None\<close> is NULL.
\<close>

record tree_env =
  te_ce :: cache_env
  te_cmp :: cmp_func
  te_dcmp :: "cmp_func option"
  te_dbi :: nat
  te_own_map :: bool

text \<open>
  A named database has its record in the main database; \<open>db_persistent\<close> is the flags the transaction
  knows it by, \<open>db_changed\<close> is \<open>TXN_DBI_CHANGED\<close>.
\<close>

record db_env =
  db_tree :: tree_env
  db_name :: search_key
  db_persistent :: u16
  db_changed :: bool
  db_main :: tree_env
  db_main_root :: nat

text \<open>
  The cursor, with the \<open>md_root\<close>, the \<open>md_entries\<close> and the \<open>DB_STALE\<close> flag of its database and its transaction, which it
  points to. An address 0 is NULL.
\<close>

record cursor =
  mc_reader :: reader
  mc_txn :: MDB_txn
  mc_root :: nat
  mc_entries :: u64
  mc_stale :: bool
  mc_snum :: nat
  mc_top :: nat
  mc_pg :: "nat \<Rightarrow> nat"
  mc_ki :: "nat \<Rightarrow> nat"
  mc_init :: bool
  mc_eof :: bool
  mc_del :: bool
  mc_rank_base :: "nat \<Rightarrow> u64"

definition CURSOR_STACK :: nat where "CURSOR_STACK = 32"

definition top_addr :: "cursor \<Rightarrow> nat" where "top_addr mc = mc_pg mc (mc_top mc)"
definition top_ki :: "cursor \<Rightarrow> nat" where "top_ki mc = mc_ki mc (mc_top mc)"
definition set_ki :: "nat \<Rightarrow> cursor \<Rightarrow> cursor" where "set_ki i mc = mc\<lparr>mc_ki := (mc_ki mc)(mc_top mc := i)\<rparr>"

definition top_page :: "tree_env \<Rightarrow> cursor \<Rightarrow> MDB_page" where
  "top_page te mc = ce_deref (te_ce te) (top_addr mc)"

text \<open>
  An operation on a cursor: the new cursor, with a value, a return code or an aborted run. The outer
  \<open>None\<close> stands for a run that does not end (see \<open>leaf_cache_read\<close>), and for the use of the
  sub-cursor on a node with duplicates, which is outside the model.
\<close>

type_synonym 'a op = "cursor \<Rightarrow> (cursor \<times> 'a res) option"

definition cret :: "'a \<Rightarrow> 'a op" where "cret x mc = Some (mc, Ok x)"
definition cfail :: "rc \<Rightarrow> 'a op" where "cfail e mc = Some (mc, Err e)"
definition cabort :: "'a op" where "cabort mc = Some (mc, Abort)"
definition cguard :: "bool \<Rightarrow> 'a op \<Rightarrow> 'a op" where "cguard b m = (if b then m else cabort)"
definition cupd :: "(cursor \<Rightarrow> cursor) \<Rightarrow> unit op" where "cupd f mc = Some (f mc, Ok ())"
definition cget :: "(cursor \<Rightarrow> 'a) \<Rightarrow> 'a op" where "cget f mc = Some (mc, Ok (f mc))"

definition cbind :: "'a op \<Rightarrow> ('a \<Rightarrow> 'b op) \<Rightarrow> 'b op" where
  "cbind m f mc = (case m mc of
     None \<Rightarrow> None
   | Some (mc, Ok x) \<Rightarrow> f x mc
   | Some (mc, Err e) \<Rightarrow> Some (mc, Err e)
   | Some (mc, Abort) \<Rightarrow> Some (mc, Abort))"

definition cthen :: "unit op \<Rightarrow> 'b op \<Rightarrow> 'b op" where "cthen m n = cbind m (\<lambda>_. n)"

lemma cbind_Some: "m mc = Some (mc', Ok x) \<Longrightarrow> cbind m f mc = f x mc'"
  by (simp add: cbind_def)

lemma cbind_Err: "m mc = Some (mc', Err e) \<Longrightarrow> cbind m f mc = Some (mc', Err e)"
  by (simp add: cbind_def)

lemma cbind_cret [simp]: "cbind (cret x) f = f x"
  by (simp add: cbind_def cret_def fun_eq_iff)

lemma cbind_cget [simp]: "cbind (cget h) f mc = f (h mc) mc"
  by (simp add: cbind_def cget_def)

lemma cbind_cupd [simp]: "cbind (cupd g) f mc = f () (g mc)" "cthen (cupd g) n mc = n (g mc)"
  by (simp_all add: cthen_def cbind_def cupd_def)

lemma cthen_cret [simp]: "cthen (cret ()) n = n"
  by (simp add: cthen_def cbind_def cret_def fun_eq_iff)

lemma cursor_ops [simp]:
  "cguard True m = m" "cret y mc = Some (mc, Ok y)" "cfail e mc = Some (mc, Err e)" "cupd g mc = Some (g mc, Ok ())"
  by (simp_all add: cret_def cfail_def cupd_def cguard_def)

lemma cthen_Some: "m mc = Some (mc', Ok ()) \<Longrightarrow> cthen m n mc = n mc'"
  by (simp add: cthen_def cbind_def)

lemma cthen_Err: "m mc = Some (mc', Err e) \<Longrightarrow> cthen m n mc = Some (mc', Err e)"
  by (simp add: cthen_def cbind_def)

section \<open>Transaction and pages\<close>

definition mark_error :: "rc \<Rightarrow> cursor \<Rightarrow> cursor" where
  "mark_error e mc = mc\<lparr>mc_txn := mdb_txn_mark_error (mc_txn mc) e\<rparr>"

text \<open>The two tests every entry point starts with.\<close>

definition txn_usable :: "unit op" where
  "txn_usable mc =
     (if mt_blocked (mc_txn mc) then Some (mc, Err MDB_BAD_TXN)
      else case mdb_txn_check_interrupt (mc_txn mc) of
        (txn, e) \<Rightarrow> Some (mc\<lparr>mc_txn := txn\<rparr>, if e \<noteq> MDB_SUCCESS then Err e else Ok ()))"

definition cursor_page_get :: "tree_env \<Rightarrow> nat \<Rightarrow> nat op" where
  "cursor_page_get te pgno mc =
     (case mdb_page_get (mc_txn mc) (te_own_map te) pgno of (txn, r) \<Rightarrow>
        Some (mc\<lparr>mc_txn := txn\<rparr>, bind_res r (\<lambda>(a, level). Ok a)))"

definition mdb_cursor_pop :: "cursor \<Rightarrow> cursor" where
  "mdb_cursor_pop mc =
     (if mc_snum mc \<noteq> 0 then
        let mc = mc\<lparr>mc_snum := mc_snum mc - 1\<rparr>
        in if mc_snum mc \<noteq> 0 then mc\<lparr>mc_top := mc_top mc - 1\<rparr> else mc\<lparr>mc_init := False\<rparr>
      else mc)"

definition mdb_cursor_push :: "nat \<Rightarrow> unit op" where
  "mdb_cursor_push mp mc =
     (if mc_snum mc \<ge> CURSOR_STACK then Some (mark_error MDB_CURSOR_FULL mc, Err MDB_CURSOR_FULL)
      else
        let mc = mc\<lparr>mc_top := mc_snum mc, mc_snum := mc_snum mc + 1\<rparr>
        in Some (mc\<lparr>mc_pg := (mc_pg mc)(mc_top mc := mp), mc_ki := (mc_ki mc)(mc_top mc := 0)\<rparr>, Ok ()))"

text \<open>
  \<open>mdb_node_search\<close> on the top page: \<open>*exactp\<close> and whether a node is returned. An error marks the
  transaction and returns NULL, and leaves \<open>*exactp\<close> at the 0 all callers set it to.
\<close>

definition cursor_node_search :: "tree_env \<Rightarrow> search_key \<Rightarrow> (bool \<times> bool) op" where
  "cursor_node_search te key mc =
     (case mdb_node_search (te_ce te) (te_cmp te) (top_addr mc) key (mc_reader mc) of
        None \<Rightarrow> None
      | Some (rd, Ok (i, exact, found)) \<Rightarrow> Some (set_ki i (mc\<lparr>mc_reader := rd\<rparr>), Ok (exact, found))
      | Some (rd, Err e) \<Rightarrow> Some (mark_error e (mc\<lparr>mc_reader := rd\<rparr>), Ok (False, False))
      | Some (rd, Abort) \<Rightarrow> Some (mc\<lparr>mc_reader := rd\<rparr>, Abort))"

text \<open>\<open>mdb_cursor_read_key_at\<close> on the top page.\<close>

definition cursor_read_key :: "tree_env \<Rightarrow> nat \<Rightarrow> bytes op" where
  "cursor_read_key te idx mc =
     map_option (\<lambda>(rd, r). (mc\<lparr>mc_reader := rd\<rparr>, r)) (mdb_cursor_read_key_at (te_ce te) (mc_reader mc) (top_addr mc) idx)"

text \<open>The data of a node of the page at address \<open>a\<close>; an overflow page holds them behind its header.\<close>

definition mdb_node_read :: "tree_env \<Rightarrow> nat \<Rightarrow> nat \<Rightarrow> bytes op" where
  "mdb_node_read te a leaf =
     (let mp = ce_deref (te_ce te) a; size = NODEDSZ mp leaf in
      if \<not> F_ISSET (mn_flags (mp_mem mp) leaf) F_BIGDATA then cret (mem_read (mp_mem mp) (NODEDATA_at mp leaf) size)
      else
        let pgno = le_nat (mem_read (mp_mem mp) (NODEDATA_at mp leaf) 8)
        in cbind (cursor_page_get te pgno) (\<lambda>omp. cret (mem_read (mp_mem (ce_deref (te_ce te) omp)) PAGEHDRSZ size)))"

section \<open>The descent\<close>

text \<open>The flags of \<open>mdb_page_search\<close> without \<open>MDB_PS_MODIFY\<close>; \<open>PS_KEY\<close> is no flag and a key.\<close>

datatype search_for = PS_FIRST | PS_LAST | PS_ROOTONLY | PS_KEY search_key

text \<open>From the assertion \<open>i < NUMKEYS(mp)\<close> to the push of the child.\<close>

definition descend :: "tree_env \<Rightarrow> nat \<Rightarrow> unit op" where
  "descend te i mc =
     (let mp = top_page te mc in
      cguard (i < NUMKEYS mp)
        (cbind (cursor_page_get te (NODEPGNO mp (NODEPTR mp i))) (\<lambda>child.
           cthen (cupd (set_ki i)) (mdb_cursor_push child))) mc)"

text \<open>
  One round of the loop on a branch page. With \<open>MDB_PS_LAST\<close>, a cursor that is already at the last
  index keeps the page above; there the code does not test \<open>CURSOR_STACK\<close>.
\<close>

definition page_search_step :: "tree_env \<Rightarrow> search_for \<Rightarrow> unit op" where
  "page_search_step te key mc =
     (let mp = top_page te mc in
      cguard (te_dbi te = 0 \<or> NUMKEYS mp > 1)
        (case key of
           PS_LAST \<Rightarrow>
             let i = NUMKEYS mp - 1
             in if mc_init mc \<and> top_ki mc = i
                then cguard (mc_snum mc < CURSOR_STACK) (cupd (\<lambda>mc. mc\<lparr>mc_top := mc_snum mc, mc_snum := mc_snum mc + 1\<rparr>))
                else descend te i
         | PS_KEY k \<Rightarrow>
             cbind (cursor_node_search te k) (\<lambda>(exact, found). cbind (cget top_ki) (\<lambda>i.
               if \<not> found then descend te (NUMKEYS mp - 1)
               else if exact then descend te i
               else cguard (i > 0) (descend te (i - 1))))
         | _ \<Rightarrow> descend te 0) mc)"

lemma push_snum: "mdb_cursor_push a mc = Some (mc', Ok u) \<Longrightarrow> mc_snum mc' = mc_snum mc + 1 \<and> mc_snum mc < CURSOR_STACK"
  by (auto simp: mdb_cursor_push_def Let_def split: if_splits)

lemma descend_snum: "descend te i mc = Some (mc', Ok u) \<Longrightarrow> mc_snum mc' = mc_snum mc + 1 \<and> mc_snum mc < CURSOR_STACK"
  by (auto simp: descend_def Let_def cguard_def cabort_def cursor_page_get_def cbind_def cthen_def bind_res_def set_ki_def
      split: if_splits prod.splits res.splits dest!: push_snum)

lemma step_snum: "page_search_step te key mc = Some (mc', Ok u) \<Longrightarrow> mc_snum mc' = mc_snum mc + 1 \<and> mc_snum mc < CURSOR_STACK"
  by (auto simp: page_search_step_def Let_def cguard_def cabort_def cursor_node_search_def cbind_def cget_def set_ki_def mark_error_def
      split: if_splits search_for.splits option.splits prod.splits res.splits dest!: descend_snum)

function page_search_loop :: "tree_env \<Rightarrow> search_for \<Rightarrow> unit op" where
  "page_search_loop te key mc =
     (if IS_BRANCH (top_page te mc) then
        case page_search_step te key mc of
          Some (mc, Ok _) \<Rightarrow> page_search_loop te key mc
        | r \<Rightarrow> r
      else Some (mc, Ok ()))"
  by pat_completeness auto
termination
  by (relation "measure (\<lambda>(te, key, mc). CURSOR_STACK - mc_snum mc)") (auto dest!: step_snum)

declare page_search_loop.simps [simp del]

definition mdb_page_search_root :: "tree_env \<Rightarrow> search_for \<Rightarrow> unit op" where
  "mdb_page_search_root te key =
     cthen txn_usable (cthen (page_search_loop te key)
       (\<lambda>mc. if \<not> IS_LEAF (top_page te mc) then Some (mark_error MDB_CORRUPTED mc, Err MDB_CORRUPTED)
         else Some (mc\<lparr>mc_init := True, mc_eof := False\<rparr>, Ok ())))"

definition mdb_page_search_lowest :: "tree_env \<Rightarrow> unit op" where
  "mdb_page_search_lowest te =
     cthen txn_usable (cbind (cget (top_page te)) (\<lambda>mp.
       cbind (cursor_page_get te (NODEPGNO mp (NODEPTR mp 0))) (\<lambda>child.
         cthen (cupd (set_ki 0)) (cthen (mdb_cursor_push child) (mdb_page_search_root te PS_FIRST)))))"

text \<open>\<open>mdb_page_search\<close> after the record of the database is known to be up to date.\<close>

definition page_search_tree :: "tree_env \<Rightarrow> search_for \<Rightarrow> unit op" where
  "page_search_tree te key mc =
     (let root = mc_root mc in
      if root = unat P_INVALID then Some (mc, Err MDB_NOTFOUND)
      else cguard (root > 1)
        (cthen
          (if mc_pg mc 0 = 0 \<or> mp_pgno (ce_deref (te_ce te) (mc_pg mc 0)) \<noteq> root
           then cbind (cursor_page_get te root) (\<lambda>a. cupd (\<lambda>mc. mc\<lparr>mc_pg := (mc_pg mc)(0 := a)\<rparr>))
           else cret ())
          (cthen (cupd (\<lambda>mc. mc\<lparr>mc_snum := 1, mc_top := 0\<rparr>))
            (if key = PS_ROOTONLY then cret () else mdb_page_search_root te key))) mc)"

text \<open>
  A cursor initialised by \<open>mdb_cursor_init\<close>; \<open>keep\<close> is its \<open>C_LEAFCACHE\<close>. The \<open>md_entries\<close> of its database matter only
  to the operations on ranks and counts, which set them (see Rank).
\<close>

definition cursor_init :: "bool \<Rightarrow> MDB_txn \<Rightarrow> nat \<Rightarrow> bool \<Rightarrow> cursor" where
  "cursor_init keep txn root stale =
     \<lparr>mc_reader = fresh_reader\<lparr>rd_leafcache := keep\<rparr>, mc_txn = txn, mc_root = root, mc_entries = 0, mc_stale = stale, mc_snum = 0, mc_top = 0,
      mc_pg = (\<lambda>_. 0), mc_ki = (\<lambda>_. 0), mc_init = False, mc_eof = False, mc_del = False, mc_rank_base = (\<lambda>_. 0)\<rparr>"

text \<open>
  The record of a named database is read from the main one: \<open>md_flags\<close>, \<open>md_entries\<close> and \<open>md_root\<close> are at
  the offsets 4, 32 and 40 of \<open>MDB_db\<close>. The result is \<open>md_root\<close> and \<open>md_entries\<close>.
\<close>

definition fetch_record :: "db_env \<Rightarrow> (nat \<times> u64) op" where
  "fetch_record db =
     (let te = db_main db in
      cthen txn_usable (cthen (page_search_tree te (PS_KEY (db_name db)))
        (cbind (cursor_node_search te (db_name db)) (\<lambda>(exact, found).
           if \<not> exact then cfail MDB_BAD_DBI
           else cbind (cget (\<lambda>mc. (top_addr mc, NODEPTR (top_page te mc) (top_ki mc)))) (\<lambda>(a, leaf).
             if mn_flags (mp_mem (ce_deref (te_ce te) a)) leaf AND (F_DUPDATA OR F_SUBDATA) \<noteq> F_SUBDATA
             then cfail MDB_INCOMPATIBLE
             else cbind (mdb_node_read te a leaf) (\<lambda>data.
               if db_persistent db \<noteq> word_of_nat (le_nat (take 2 (drop 4 data))) then cfail MDB_INCOMPATIBLE
               else cret (le_nat (take 8 (drop 40 data)), word_of_nat (le_nat (take 8 (drop 32 data))))))))))"

definition refresh_record :: "db_env \<Rightarrow> unit op" where
  "refresh_record db mc =
     (if \<not> mc_stale mc then Some (mc, Ok ())
      else if db_changed db then Some (mc, Err MDB_BAD_DBI)
      else case fetch_record db (cursor_init False (mc_txn mc) (db_main_root db) False) of
        None \<Rightarrow> None
      | Some (mc2, r) \<Rightarrow>
          (case r of
             Ok (root, n) \<Rightarrow> Some (mc\<lparr>mc_txn := mc_txn mc2, mc_root := root, mc_entries := n, mc_stale := False\<rparr>, Ok ())
           | Err e \<Rightarrow> Some (mc\<lparr>mc_txn := mc_txn mc2\<rparr>, Err e)
           | Abort \<Rightarrow> Some (mc\<lparr>mc_txn := mc_txn mc2\<rparr>, Abort)))"

definition mdb_page_search :: "db_env \<Rightarrow> search_for \<Rightarrow> unit op" where
  "mdb_page_search db key =
     cthen txn_usable (cthen (refresh_record db) (page_search_tree (db_tree db) key))"

end
