(* ===== verification/Cursor_Ops.thy ===== *)
theory Cursor_Ops
  imports Cursor "HOL-Library.While_Combinator"
begin

text \<open>
  The operations of \<open>mdb_cursor_get\<close> and \<open>mdb_get\<close> (\<open>mdb.c\<close>) on a database without sorted
  duplicates: the moves to a sibling page, the search that keeps the ancestors, NEXT, PREV, FIRST,
  LAST, the SET operations, and the dispatch.
\<close>

section \<open>Siblings\<close>

text \<open>The \<open>unsigned int\<close> \<open>NUMKEYS(mp)-1\<close>, which wraps for an empty page.\<close>

definition u32_pred :: "nat \<Rightarrow> nat" where
  "u32_pred n = (n + (2 ^ 32 - 1)) mod 2 ^ 32"

lemma u32_pred: "0 < n \<Longrightarrow> n \<le> 2 ^ 32 \<Longrightarrow> u32_pred n = n - 1"
  unfolding u32_pred_def by (rule dec_mod)

definition sibling_enter :: "tree_env \<Rightarrow> bool \<Rightarrow> unit op" where
  "sibling_enter te move_right mc =
     (let mp = top_page te mc in
      cguard (IS_BRANCH mp)
        (\<lambda>mc. case cursor_page_get te (NODEPGNO mp (NODEPTR mp (top_ki mc))) mc of
             Some (mc, Ok a) \<Rightarrow>
               (case mdb_cursor_push a mc of
                  None \<Rightarrow> None
                | Some (mc, _) \<Rightarrow>
                    Some (if move_right then mc else set_ki (u16_sub (NUMKEYS (ce_deref (te_ce te) a)) 1) mc, Ok ()))
           | Some (mc, Err e) \<Rightarrow> Some (mc\<lparr>mc_init := False, mc_eof := False\<rparr>, Err e)
           | Some (mc, Abort) \<Rightarrow> Some (mc, Abort)
           | None \<Rightarrow> None) mc)"

function mdb_cursor_sibling :: "tree_env \<Rightarrow> bool \<Rightarrow> unit op" where
  "mdb_cursor_sibling te move_right mc =
     (if mc_snum mc < 2 then Some (mc, Err MDB_NOTFOUND)
      else
        let mc = mdb_cursor_pop mc in
        if (if move_right then top_ki mc + 1 \<ge> NUMKEYS (top_page te mc) else top_ki mc = 0) then
          case mdb_cursor_sibling te move_right mc of
            Some (mc, Err e) \<Rightarrow> Some (mc\<lparr>mc_top := mc_top mc + 1, mc_snum := mc_snum mc + 1\<rparr>, Err e)
          | Some (mc, Ok _) \<Rightarrow> sibling_enter te move_right mc
          | r \<Rightarrow> r
        else sibling_enter te move_right (set_ki (if move_right then top_ki mc + 1 else top_ki mc - 1) mc))"
  by pat_completeness auto
termination
  by (relation "measure (\<lambda>(te, r, mc). mc_snum mc)") (auto simp: mdb_cursor_pop_def Let_def)

declare mdb_cursor_sibling.simps [simp del]

section \<open>The search that keeps the ancestors\<close>

text \<open>
  The level whose page still contains the key; \<open>None\<close> is the return to a full search.
\<close>

function reuse_level :: "tree_env \<Rightarrow> bytes \<Rightarrow> int \<Rightarrow> cursor \<Rightarrow> nat \<Rightarrow> nat option res" where
  "reuse_level te key direction mc level =
     (if level + 1 < mc_top mc then
        let mp = ce_deref (te_ce te) (mc_pg mc level); index = mc_ki mc level in
        if \<not> IS_BRANCH mp \<or> index \<ge> NUMKEYS mp then Ok None
        else if (if direction > 0 then index + 1 = NUMKEYS mp else index = 0) then reuse_level te key direction mc (level + 1)
        else
          let index = (if direction > 0 then index + 1 else index)
          in bind_res (cmp_call (te_cmp te) key (NODEKEY mp (NODEPTR mp index))) (\<lambda>result.
               if (if direction > 0 then result \<ge> 0 else result < 0) then Ok (Some level)
               else reuse_level te key direction mc (level + 1))
      else Ok (Some level))"
  by pat_completeness auto
termination
  by (relation "measure (\<lambda>(te, key, d, mc, level). mc_top mc - level)") auto

declare reuse_level.simps [simp del]

definition mdb_page_search_reuse :: "db_env \<Rightarrow> search_key \<Rightarrow> int \<Rightarrow> unit op" where
  "mdb_page_search_reuse db key direction mc =
     (let te = db_tree db in
      if \<not> mc_init mc \<or> mc_top mc < 2 \<or> mc_stale mc \<or> mc_pg mc 0 = 0 \<or>
         mp_pgno (ce_deref (te_ce te) (mc_pg mc 0)) \<noteq> mc_root mc
      then mdb_page_search db (PS_KEY key) mc
      else case reuse_level te (snd key) direction mc 0 of
        Ok None \<Rightarrow> mdb_page_search db (PS_KEY key) mc
      | Ok (Some level) \<Rightarrow>
          (case while_option (\<lambda>mc. mc_top mc > level) mdb_cursor_pop mc of
             None \<Rightarrow> None
           | Some mc \<Rightarrow> mdb_page_search_root te (PS_KEY key) mc)
      | Err e \<Rightarrow> Some (mc, Err e)
      | Abort \<Rightarrow> Some (mc, Abort))"

section \<open>The entry the cursor is at\<close>

text \<open>
  What the operations return: the key and the data, each only when the caller's pointer is not NULL.
\<close>

type_synonym entry = "bytes option \<times> bytes option"

definition leaf_flags :: "tree_env \<Rightarrow> cursor \<Rightarrow> u16" where
  "leaf_flags te mc = mn_flags (mp_mem (top_page te mc)) (NODEPTR (top_page te mc) (top_ki mc))"

text \<open>The data of the node at the cursor, if they are wanted. A node with duplicates is outside the model.\<close>

definition read_data :: "tree_env \<Rightarrow> bool \<Rightarrow> bytes option op" where
  "read_data te wd mc =
     (if F_ISSET (leaf_flags te mc) F_DUPDATA then None
      else if wd then cbind (mdb_node_read te (top_addr mc) (NODEPTR (top_page te mc) (top_ki mc))) (\<lambda>d. cret (Some d)) mc
      else Some (mc, Ok None))"

definition leaf2_key :: "tree_env \<Rightarrow> cursor \<Rightarrow> bytes" where
  "leaf2_key te mc =
     (let n = ce_md_pad (te_ce te) in mem_read (mp_mem (top_page te mc)) (LEAF2KEY_at (top_ki mc) n) n)"

text \<open>FIRST, LAST and PREV end alike: the packed key of a LEAF2 page, or the data and then the key.\<close>

definition read_entry :: "tree_env \<Rightarrow> bool \<Rightarrow> bool \<Rightarrow> entry op" where
  "read_entry te wk wd mc =
     (if IS_LEAF2 (top_page te mc) then Some (mc, Ok (if wk then Some (leaf2_key te mc) else None, None))
      else cbind (read_data te wd) (\<lambda>d. cbind (cget top_ki) (\<lambda>i.
             if wk then cbind (cursor_read_key te i) (\<lambda>k. cret (Some k, d)) else cret (None, d))) mc)"

section \<open>FIRST, LAST, NEXT and PREV\<close>

definition mdb_cursor_first :: "db_env \<Rightarrow> bool \<Rightarrow> bool \<Rightarrow> entry op" where
  "mdb_cursor_first db wk wd mc =
     (let te = db_tree db in
      cthen (if \<not> mc_init mc \<or> mc_top mc \<noteq> 0 then mdb_page_search db PS_FIRST else cret ())
        (\<lambda>mc. cguard (IS_LEAF (top_page te mc))
           (cthen (cupd (\<lambda>mc. set_ki 0 (mc\<lparr>mc_init := True, mc_eof := False\<rparr>))) (read_entry te wk wd)) mc) mc)"

definition mdb_cursor_last :: "db_env \<Rightarrow> bool \<Rightarrow> bool \<Rightarrow> entry op" where
  "mdb_cursor_last db wk wd mc =
     (let te = db_tree db in
      cthen (if \<not> mc_init mc \<or> mc_top mc \<noteq> 0 then mdb_page_search db PS_LAST else cret ())
        (\<lambda>mc. cguard (IS_LEAF (top_page te mc))
           (cthen (cupd (\<lambda>mc. set_ki (u16_sub (NUMKEYS (top_page te mc)) 1) mc\<lparr>mc_init := True, mc_eof := True\<rparr>))
              (read_entry te wk wd)) mc) mc)"

datatype MDB_cursor_op = MDB_FIRST | MDB_FIRST_DUP | MDB_GET_BOTH | MDB_GET_BOTH_RANGE | MDB_GET_CURRENT | MDB_GET_MULTIPLE
  | MDB_LAST | MDB_LAST_DUP | MDB_NEXT | MDB_NEXT_DUP | MDB_NEXT_MULTIPLE | MDB_NEXT_NODUP | MDB_PREV | MDB_PREV_DUP
  | MDB_PREV_NODUP | MDB_SET | MDB_SET_KEY | MDB_SET_RANGE | MDB_PREV_MULTIPLE

text \<open>NEXT reads the key through the sequential path; without a key it forgets the sequential state.\<close>

definition next_entry :: "tree_env \<Rightarrow> bool \<Rightarrow> bool \<Rightarrow> entry op" where
  "next_entry te wk wd mc =
     (if IS_LEAF2 (top_page te mc) then (if wk then Some (mc, Ok (Some (leaf2_key te mc), None)) else Some (mc, Abort))
      else cguard (IS_LEAF (top_page te mc))
        (cbind (read_data te wd) (\<lambda>d mc.
           if wk then
             map_option (\<lambda>(rd, r). (mc\<lparr>mc_reader := rd\<rparr>, bind_res r (\<lambda>k. Ok (Some k, d))))
               (next_read_key (te_ce te) (mc_reader mc) (top_addr mc) (top_ki mc))
           else Some (mc\<lparr>mc_reader := mdb_cursor_seq_invalidate ((mc_reader mc)\<lparr>rd_seqexpect := False\<rparr>)\<rparr>, Ok (None, d)))) mc)"

definition mdb_cursor_next :: "db_env \<Rightarrow> bool \<Rightarrow> bool \<Rightarrow> MDB_cursor_op \<Rightarrow> entry op" where
  "mdb_cursor_next db wk wd op mc =
     (let te = db_tree db in
      if mc_del mc \<and> op = MDB_NEXT_DUP then Some (mc, Err MDB_NOTFOUND)
      else if \<not> mc_init mc then mdb_cursor_first db wk wd mc
      else if mc_eof mc \<and> top_ki mc \<ge> u32_pred (NUMKEYS (top_page te mc)) then Some (mc, Err MDB_NOTFOUND)
      else
        let mc = mc\<lparr>mc_eof := False\<rparr>
        in if mc_del mc then next_entry te wk wd (mc\<lparr>mc_del := False\<rparr>)
           else if top_ki mc + 1 \<ge> NUMKEYS (top_page te mc) then
             case mdb_cursor_sibling te True mc of
               Some (mc, Err e) \<Rightarrow> Some (mc\<lparr>mc_eof := True\<rparr>, Err e)
             | Some (mc, Ok _) \<Rightarrow> next_entry te wk wd mc
             | Some (mc, Abort) \<Rightarrow> Some (mc, Abort)
             | None \<Rightarrow> None
           else next_entry te wk wd (set_ki (top_ki mc + 1) mc))"

definition prev_entry :: "tree_env \<Rightarrow> bool \<Rightarrow> bool \<Rightarrow> entry op" where
  "prev_entry te wk wd mc =
     (if \<not> IS_LEAF (top_page te mc) then Some (mc, Err MDB_CORRUPTED)
      else if IS_LEAF2 (top_page te mc) then (if wk then Some (mc, Ok (Some (leaf2_key te mc), None)) else Some (mc, Abort))
      else read_entry te wk wd mc)"

definition mdb_cursor_prev :: "db_env \<Rightarrow> bool \<Rightarrow> bool \<Rightarrow> entry op" where
  "mdb_cursor_prev db wk wd mc =
     (let te = db_tree db in
      cthen (if mc_init mc then cret ()
             else cbind (mdb_cursor_last db wk wd) (\<lambda>_. cupd (\<lambda>mc. set_ki (top_ki mc + 1) mc)))
        (\<lambda>mc.
          let mc = mc\<lparr>mc_eof := False, mc_del := False\<rparr> in
          if top_ki mc = 0 then
            cthen (mdb_cursor_sibling te False)
              (cthen (cupd (\<lambda>mc. set_ki (u16_sub (NUMKEYS (top_page te mc)) 1) mc)) (prev_entry te wk wd)) mc
          else prev_entry te wk wd (set_ki (top_ki mc - 1) mc)) mc)"

section \<open>The SET operations\<close>

text \<open>Comparing the key with an entry of the page the cursor is at.\<close>

definition page_cmp :: "tree_env \<Rightarrow> bytes \<Rightarrow> nat \<Rightarrow> int op" where
  "page_cmp te key idx =
     cbind (\<lambda>mc. if IS_LEAF2 (top_page te mc)
                 then (let n = ce_md_pad (te_ce te) in Some (mc, Ok (mem_read (mp_mem (top_page te mc)) (LEAF2KEY_at idx n) n)))
                 else cursor_read_key te idx mc)
       (\<lambda>nodekey mc. Some (mc, cmp_call (te_cmp te) key nodekey))"

text \<open>Where \<open>mdb_cursor_set\<close> goes on: to its label \<open>set1\<close> or \<open>set2\<close>, or to a search from an ancestor.\<close>

datatype set_next = Set1 | Set2 | Search int

definition parents_have_right :: "tree_env \<Rightarrow> cursor \<Rightarrow> bool" where
  "parents_have_right te mc \<longleftrightarrow> list_ex (\<lambda>i. mc_ki mc i < u32_pred (NUMKEYS (ce_deref (te_ce te) (mc_pg mc i)))) [0..<mc_top mc]"

text \<open>The key is outside of the page, on the side of \<open>direction\<close>; \<open>wx\<close> is \<open>exactp != NULL\<close>.\<close>

definition set_outside :: "tree_env \<Rightarrow> MDB_cursor_op \<Rightarrow> bool \<Rightarrow> int \<Rightarrow> set_next op" where
  "set_outside te op wx direction mc =
     (if direction > 0 \<and> \<not> parents_have_right te mc then Some (set_ki (NUMKEYS (top_page te mc)) mc, Err MDB_NOTFOUND)
      else if mc_top mc = 0 then
        (if op = MDB_SET_RANGE \<and> \<not> wx then Some (set_ki 0 mc, Ok Set1) else Some (set_ki 0 mc, Err MDB_NOTFOUND))
      else Some (mc, Ok (Search direction)))"

text \<open>The key is strictly between the first and the last of the page.\<close>

definition set_inside :: "tree_env \<Rightarrow> bytes \<Rightarrow> bool \<Rightarrow> set_next op" where
  "set_inside te key wx mc =
     (if top_ki mc < NUMKEYS (top_page te mc) then
        cbind (page_cmp te key (top_ki mc)) (\<lambda>c mc.
          if c = 0 then Some (mc, Ok Set1)
          else
            let mc = mc\<lparr>mc_eof := False\<rparr>
            in if \<not> ce_prefix (te_ce te) \<and> \<not> IS_LEAF2 (top_page te mc) then
                 (case mdb_node_search_near (te_ce te) (te_cmp te) (top_addr mc) key (top_ki mc) c of
                    None \<Rightarrow> None
                  | Some (Ok (i, exact)) \<Rightarrow> Some (set_ki i mc, if wx \<and> \<not> exact then Err MDB_NOTFOUND else Ok Set1)
                  | Some (Err e) \<Rightarrow> Some (mc, Err e)
                  | Some Abort \<Rightarrow> Some (mc, Abort))
               else Some (mc, Ok Set2)) mc
      else Some (mc\<lparr>mc_eof := False\<rparr>, Ok Set2))"

text \<open>An initialised cursor: its own page first.\<close>

definition set_on_page :: "tree_env \<Rightarrow> bytes \<Rightarrow> MDB_cursor_op \<Rightarrow> bool \<Rightarrow> set_next op" where
  "set_on_page te key op wx mc =
     (let nkeys = NUMKEYS (top_page te mc) in
      if nkeys = 0 then Some (set_ki 0 mc, Err MDB_NOTFOUND)
      else cbind (page_cmp te key 0) (\<lambda>c mc.
        if c = 0 then Some (set_ki 0 mc, Ok Set1)
        else if c > 0 then
          if nkeys > 1 then
            cbind (page_cmp te key (nkeys - 1)) (\<lambda>c mc.
              if c = 0 then Some (set_ki (nkeys - 1) mc, Ok Set1)
              else if c < 0 then set_inside te key wx mc
              else set_outside te op wx c mc) mc
          else set_outside te op wx c mc
        else set_outside te op wx c mc) mc)"

definition is_get_both :: "MDB_cursor_op \<Rightarrow> bool" where
  "is_get_both op \<longleftrightarrow> op = MDB_GET_BOTH \<or> op = MDB_GET_BOTH_RANGE"

text \<open>
  The label \<open>set1\<close>: the cursor is at the entry. \<open>data\<close> is the caller's datum, \<open>None\<close> for a NULL
  pointer. GET_BOTH compares it by \<open>md_dcmp\<close>; calling NULL is the end of the program.
  \<open>mdb_cmp_clong\<close> is \<open>mdb_cmp_long\<close> where misaligned access is allowed, as on x86.
\<close>

fun need_cmp_clong :: "cmp_func \<Rightarrow> nat \<Rightarrow> bool" where
  "need_cmp_clong Cmp_int ksize \<longleftrightarrow> ksize = 8"
| "need_cmp_clong _ ksize \<longleftrightarrow> False"

definition set_data :: "tree_env \<Rightarrow> bytes option \<Rightarrow> MDB_cursor_op \<Rightarrow> bytes option op" where
  "set_data te data op =
     (case data of
        Some d \<Rightarrow> cbind (read_data te True) (\<lambda>olddata.
          if is_get_both op then
            case te_dcmp te of
              None \<Rightarrow> cabort
            | Some dcmp \<Rightarrow>
                let dcmp = (if need_cmp_clong dcmp (length (the olddata)) then Cmp_long else dcmp)
                in (\<lambda>mc. Some (mc, bind_res (cmp_call dcmp d (the olddata)) (\<lambda>c.
                     if c \<noteq> 0 \<and> (op = MDB_GET_BOTH \<or> c > 0) then Err MDB_NOTFOUND else Ok olddata)))
          else cret olddata)
      | None \<Rightarrow> read_data te False)"

definition set1_finish :: "tree_env \<Rightarrow> bytes option \<Rightarrow> MDB_cursor_op \<Rightarrow> entry op" where
  "set1_finish te data op mc =
     (let mc = mc\<lparr>mc_init := True, mc_eof := False\<rparr>; want_key = (op = MDB_SET_RANGE \<or> op = MDB_SET_KEY)
      in if IS_LEAF2 (top_page te mc) then Some (mc, Ok (if want_key then Some (leaf2_key te mc) else None, None))
         else cbind (set_data te data op) (\<lambda>d. cbind (cget top_ki) (\<lambda>i.
           if want_key then cbind (cursor_read_key te i) (\<lambda>k. cret (Some k, d))
           else if ce_prefix (te_ce te) \<and> is_get_both op then cbind (cursor_read_key te i) (\<lambda>k. cret (None, d))
           else cret (None, d))) mc)"

definition set2_search :: "tree_env \<Rightarrow> search_key \<Rightarrow> bool \<Rightarrow> unit op" where
  "set2_search te key wx =
     cbind (cursor_node_search te key) (\<lambda>(exact, found).
       if wx \<and> \<not> exact then cfail MDB_NOTFOUND
       else if found then cret ()
       else (\<lambda>mc. case mdb_cursor_sibling te True mc of
           Some (mc, Err e) \<Rightarrow> Some (mc\<lparr>mc_eof := True\<rparr>, Err e)
         | Some (mc, Ok _) \<Rightarrow> cguard (IS_LEAF (top_page te mc)) (cret ()) mc
         | r \<Rightarrow> r))"

text \<open>
  \<open>saved_key_copy\<close>: GET_BOTH on a prefix-compressed database starts from the root. (A key of more than
  \<open>MDB_KEYBUF_MAX\<close> bytes is then copied to a scratch buffer, which is outside the model.)
\<close>

definition mdb_cursor_set :: "db_env \<Rightarrow> search_key \<Rightarrow> bytes option \<Rightarrow> MDB_cursor_op \<Rightarrow> bool \<Rightarrow> entry op" where
  "mdb_cursor_set db key data op wx mc =
     (let te = db_tree db; prefix_both = (ce_prefix (te_ce te) \<and> is_get_both op) in
      if prefix_both \<and> length (snd key) > MDB_KEYBUF_MAX then None
      else if snd key = [] then Some (mc, Err MDB_BAD_VALSIZE)
      else
        let mc = (if prefix_both then mc\<lparr>mc_init := False\<rparr> else mc);
            search = (\<lambda>m. cthen m (\<lambda>mc. cguard (IS_LEAF (top_page te mc)) (cthen (set2_search te key wx) (set1_finish te data op)) mc))
        in if mc_init mc then
             cbind (set_on_page te (snd key) op wx) (\<lambda>goto.
               case goto of
                 Set1 \<Rightarrow> set1_finish te data op
               | Set2 \<Rightarrow> cthen (set2_search te key wx) (set1_finish te data op)
               | Search direction \<Rightarrow> search (mdb_page_search_reuse db key direction)) mc
           else search (mdb_page_search db (PS_KEY key)) (mc\<lparr>mc_pg := (mc_pg mc)(0 := 0)\<rparr>))"

section \<open>The interface\<close>

text \<open>The result of a failed refresh of the database record is ignored here; the operations repeat it.\<close>

definition init_stale :: "db_env \<Rightarrow> cursor \<Rightarrow> (cursor \<times> unit res) option" where
  "init_stale db mc =
     (if mc_stale mc then
        map_option (\<lambda>(mc, r). (mc, if r = Abort then Abort else Ok ())) (mdb_page_search db PS_ROOTONLY mc)
      else Some (mc, Ok ()))"

definition mdb_cursor_init :: "db_env \<Rightarrow> bool \<Rightarrow> MDB_txn \<Rightarrow> nat \<Rightarrow> bool \<Rightarrow> (cursor \<times> unit res) option" where
  "mdb_cursor_init db keep txn root stale = init_stale db (cursor_init keep txn root stale)"

text \<open>\<open>mdb_get\<close> with pointers that are not NULL and an existing \<open>dbi\<close>.\<close>

definition mdb_get :: "db_env \<Rightarrow> MDB_txn \<Rightarrow> nat \<Rightarrow> bool \<Rightarrow> search_key \<Rightarrow> bytes \<Rightarrow> bytes res option" where
  "mdb_get db txn root stale key data =
     (if mt_blocked txn then Some (Err MDB_BAD_TXN)
      else case mdb_cursor_init db False txn root stale of
        Some (mc, Ok _) \<Rightarrow>
          map_option (\<lambda>(mc, r). bind_res r (\<lambda>(k, d). Ok (the d))) (mdb_cursor_set db key (Some data) MDB_SET True mc)
      | Some (mc, _) \<Rightarrow> Some Abort
      | None \<Rightarrow> None)"

text \<open>
  The end of \<open>mdb_cursor_get\<close> clears \<open>C_DEL\<close>; a key that cannot be read returns before it.
\<close>

definition clear_del :: "entry op \<Rightarrow> entry op" where
  "clear_del m mc = map_option (\<lambda>(mc, r). (mc\<lparr>mc_del := False\<rparr>, r)) (m mc)"

definition get_key :: "tree_env \<Rightarrow> bool \<Rightarrow> bytes option op" where
  "get_key te wk mc = (if wk then cbind (cursor_read_key te (top_ki mc)) (\<lambda>k. cret (Some k)) mc else Some (mc, Ok None))"

definition get_current :: "tree_env \<Rightarrow> bool \<Rightarrow> bool \<Rightarrow> entry op" where
  "get_current te wk wd mc =
     (let nkeys = NUMKEYS (top_page te mc) in
      if \<not> mc_init mc then clear_del (cfail EINVAL) mc
      else if nkeys = 0 \<or> top_ki mc \<ge> nkeys then clear_del (cfail MDB_NOTFOUND) (set_ki nkeys mc)
      else if IS_LEAF2 (top_page te mc) then (if wk then clear_del (cret (Some (leaf2_key te mc), None)) mc else Some (mc, Abort))
      else cbind (get_key te wk) (\<lambda>k. clear_del
        (if wd then cbind (read_data te True) (\<lambda>d. cret (k, d)) else cret (k, None))) mc)"

text \<open>FIRST_DUP and LAST_DUP on a node without duplicates.\<close>

definition dup_move :: "tree_env \<Rightarrow> bool \<Rightarrow> bool \<Rightarrow> entry op" where
  "dup_move te wk wd mc =
     (if \<not> wd \<or> \<not> mc_init mc then clear_del (cfail EINVAL) mc
      else if top_ki mc \<ge> NUMKEYS (top_page te mc)
      then clear_del (cfail MDB_NOTFOUND) (set_ki (NUMKEYS (top_page te mc)) mc)
      else
        let mc = mc\<lparr>mc_eof := False\<rparr>
        in if F_ISSET (leaf_flags te mc) F_DUPDATA then None
           else cbind (get_key te wk) (\<lambda>k. clear_del (cbind (read_data te True) (\<lambda>d. cret (k, d)))) mc)"

text \<open>
  \<open>mdb_cursor_get\<close> for a cursor of \<open>mdb_cursor_open\<close>, whose \<open>mc_xcursor\<close> is never NULL, on a database
  without \<open>MDB_DUPSORT\<close>. \<open>key\<close> and \<open>data\<close> are the caller's values, \<open>None\<close> for NULL.
\<close>

definition mdb_cursor_get :: "db_env \<Rightarrow> search_key option \<Rightarrow> bytes option \<Rightarrow> MDB_cursor_op \<Rightarrow> entry op" where
  "mdb_cursor_get db key data op =
     (let te = db_tree db; wk = (key \<noteq> None); wd = (data \<noteq> None);
          set = (case key of None \<Rightarrow> cfail EINVAL | Some k \<Rightarrow> mdb_cursor_set db k data op (op \<noteq> MDB_SET_RANGE))
      in cthen txn_usable
        (cthen (cupd (\<lambda>mc. if op = MDB_GET_CURRENT then mc else mc\<lparr>mc_reader := mdb_cursor_rank_invalidate (mc_reader mc)\<rparr>))
          (case op of
             MDB_GET_CURRENT \<Rightarrow> get_current te wk wd
           | MDB_GET_BOTH \<Rightarrow> clear_del (if \<not> wd then cfail EINVAL else set)
           | MDB_GET_BOTH_RANGE \<Rightarrow> clear_del (if \<not> wd then cfail EINVAL else set)
           | MDB_SET \<Rightarrow> clear_del set
           | MDB_SET_KEY \<Rightarrow> clear_del set
           | MDB_SET_RANGE \<Rightarrow> clear_del set
           | MDB_GET_MULTIPLE \<Rightarrow> clear_del (\<lambda>mc. if \<not> wd \<or> \<not> mc_init mc then Some (mc, Err EINVAL) else Some (mc, Err MDB_INCOMPATIBLE))
           | MDB_NEXT_MULTIPLE \<Rightarrow> clear_del (cfail (if \<not> wd then EINVAL else MDB_INCOMPATIBLE))
           | MDB_PREV_MULTIPLE \<Rightarrow> clear_del (cfail (if \<not> wd then EINVAL else MDB_INCOMPATIBLE))
           | MDB_FIRST \<Rightarrow> clear_del (mdb_cursor_first db wk wd)
           | MDB_LAST \<Rightarrow> clear_del (mdb_cursor_last db wk wd)
           | MDB_FIRST_DUP \<Rightarrow> dup_move te wk wd
           | MDB_LAST_DUP \<Rightarrow> dup_move te wk wd
           | MDB_PREV \<Rightarrow> clear_del (mdb_cursor_prev db wk wd)
           | MDB_PREV_DUP \<Rightarrow> clear_del (mdb_cursor_prev db wk wd)
           | MDB_PREV_NODUP \<Rightarrow> clear_del (mdb_cursor_prev db wk wd)
           | _ \<Rightarrow> clear_del (mdb_cursor_next db wk wd op))))"

end
