(* ===== verification/Btree.thy ===== *)
theory Btree
  imports Cursor
begin

text \<open>
  The tree a database is in its pages, and the descent of a cursor through it: \<open>mdb_page_search\<close> leads
  to the leaf whose range contains the key.
\<close>

section \<open>Trees\<close>

text \<open>A node is the address of its page; a branch has one separator for every child but the first.\<close>

datatype tree = TLeaf nat "(bytes \<times> bytes) list" | TBranch nat "bytes list" "tree list"

fun tree_addr :: "tree \<Rightarrow> nat" where
  "tree_addr (TLeaf a es) = a"
| "tree_addr (TBranch a seps ts) = a"

fun entries :: "tree \<Rightarrow> (bytes \<times> bytes) list" where
  "entries (TLeaf a es) = es"
| "entries (TBranch a seps ts) = concat (map entries ts)"

abbreviation tree_keys :: "tree \<Rightarrow> bytes list" where
  "tree_keys t \<equiv> map fst (entries t)"

text \<open>Every leaf is at the same depth.\<close>

fun balanced :: "nat \<Rightarrow> tree \<Rightarrow> bool" where
  "balanced h (TLeaf a es) \<longleftrightarrow> h = 0"
| "balanced h (TBranch a seps ts) \<longleftrightarrow> h > 0 \<and> list_all (balanced (h - 1)) ts"

text \<open>The keys of a leaf ascend, and the separators bound the keys of the children.\<close>

fun bst :: "tree \<Rightarrow> bool" where
  "bst (TLeaf a es) \<longleftrightarrow> sorted_wrt (<) (map fst es)"
| "bst (TBranch a seps ts) \<longleftrightarrow> sorted_wrt (<) seps \<and> list_all bst ts \<and>
     list_all (\<lambda>i. list_all (\<lambda>k. k < seps ! i) (tree_keys (ts ! i)) \<and> list_all (\<lambda>k. seps ! i \<le> k) (tree_keys (ts ! Suc i)))
       [0..<length seps]"

section \<open>Trees in pages\<close>

definition gets :: "tree_env \<Rightarrow> MDB_txn \<Rightarrow> nat \<Rightarrow> nat \<Rightarrow> bool" where
  "gets te txn pgno a \<longleftrightarrow> (case snd (mdb_page_get txn (te_own_map te) pgno) of Ok (a', level) \<Rightarrow> a' = a | _ \<Rightarrow> False)"

text \<open>The data of a node, in the page or on an overflow page.\<close>

definition node_holds :: "tree_env \<Rightarrow> MDB_txn \<Rightarrow> nat \<Rightarrow> nat \<Rightarrow> bytes \<Rightarrow> bool" where
  "node_holds te txn a leaf d \<longleftrightarrow>
     (let mp = ce_deref (te_ce te) a; flags = mn_flags (mp_mem mp) leaf in
      \<not> F_ISSET flags F_DUPDATA \<and>
      (if \<not> F_ISSET flags F_BIGDATA then mem_read (mp_mem mp) (NODEDATA_at mp leaf) (NODEDSZ mp leaf) = d
       else case snd (mdb_page_get txn (te_own_map te) (le_nat (mem_read (mp_mem mp) (NODEDATA_at mp leaf) 8))) of
         Ok (omp, level) \<Rightarrow> mem_read (mp_mem (ce_deref (te_ce te) omp)) PAGEHDRSZ (NODEDSZ mp leaf) = d
       | _ \<Rightarrow> False))"

lemma canonical_leaf_code [code]:
  "canonical_leaf mp ks \<longleftrightarrow> IS_LEAF mp \<and> \<not> IS_LEAF2 mp \<and> ks \<noteq> [] \<and> NUMKEYS mp = length ks \<and> key_at mp 0 = ks ! 0 \<and>
     list_all (\<lambda>i. key_at mp i = enc (ks ! 0) (ks ! i)) [1..<length ks] \<and>
     list_all (\<lambda>k. length k \<le> mp_pad mp \<and> length k \<le> MDB_KEYBUF_MAX) ks"
  by (auto simp: canonical_leaf_def list_all_iff)

definition leaf_stored :: "tree_env \<Rightarrow> MDB_txn \<Rightarrow> nat \<Rightarrow> (bytes \<times> bytes) list \<Rightarrow> bool" where
  "leaf_stored te txn a es \<longleftrightarrow>
     (let mp = ce_deref (te_ce te) a in
      IS_LEAF mp \<and> \<not> IS_LEAF2 mp \<and> \<not> IS_BRANCH mp \<and> es \<noteq> [] \<and> NUMKEYS mp = length es \<and>
      (if ce_prefix (te_ce te) then canonical_leaf mp (map fst es)
       else list_all (\<lambda>i. key_at mp i = fst (es ! i) \<and> length (fst (es ! i)) < 2 ^ 32) [0..<length es]) \<and>
      list_all (\<lambda>i. node_holds te txn a (NODEPTR mp i) (snd (es ! i))) [0..<length es])"

definition branch_stored :: "tree_env \<Rightarrow> MDB_txn \<Rightarrow> nat \<Rightarrow> bytes list \<Rightarrow> nat list \<Rightarrow> bool" where
  "branch_stored te txn a seps children \<longleftrightarrow>
     (let mp = ce_deref (te_ce te) a in
      IS_BRANCH mp \<and> \<not> IS_LEAF mp \<and> \<not> IS_LEAF2 mp \<and> seps \<noteq> [] \<and> NUMKEYS mp = length children \<and> length children = Suc (length seps) \<and>
      list_all (\<lambda>i. key_at mp (Suc i) = seps ! i \<and> length (seps ! i) < 2 ^ 32) [0..<length seps] \<and>
      list_all (\<lambda>i. gets te txn (NODEPGNO mp (NODEPTR mp i)) (children ! i)) [0..<length children])"

fun stored :: "tree_env \<Rightarrow> MDB_txn \<Rightarrow> tree \<Rightarrow> bool" where
  "stored te txn (TLeaf a es) \<longleftrightarrow> leaf_stored te txn a es"
| "stored te txn (TBranch a seps ts) \<longleftrightarrow> branch_stored te txn a seps (map tree_addr ts) \<and> list_all (stored te txn) ts"

text \<open>A transaction that can be used, and the tree below the root page of the database.\<close>

definition txn_ok :: "MDB_txn \<Rightarrow> bool" where
  "txn_ok txn \<longleftrightarrow> \<not> mt_blocked txn \<and> \<not> me_interrupt txn"

definition tree_at :: "tree_env \<Rightarrow> MDB_txn \<Rightarrow> nat \<Rightarrow> nat \<Rightarrow> tree \<Rightarrow> bool" where
  "tree_at te txn root h t \<longleftrightarrow>
     is_memn (te_cmp te) \<and> txn_ok txn \<and> 1 < root \<and> root \<noteq> unat P_INVALID \<and> gets te txn root (tree_addr t) \<and>
     stored te txn t \<and> bst t \<and> balanced h t \<and> h < CURSOR_STACK"

lemma is_memn_iff: "is_memn cmp \<longleftrightarrow> cmp = Cmp_memn"
  by (cases cmp) auto

lemma tree_atD:
  assumes "tree_at te txn root h t"
  shows "te_cmp te = Cmp_memn" "\<not> mt_blocked txn" "\<not> me_interrupt txn" "1 < root" "root \<noteq> unat P_INVALID"
    "gets te txn root (tree_addr t)" "stored te txn t" "bst t" "balanced h t" "h < CURSOR_STACK"
  using assms by (auto simp: tree_at_def txn_ok_def is_memn_iff)

section \<open>Paths\<close>

fun sub :: "tree \<Rightarrow> nat list \<Rightarrow> tree" where
  "sub t [] = t"
| "sub (TBranch a seps ts) (i # p) = sub (ts ! i) p"
| "sub (TLeaf a es) (i # p) = TLeaf a es"

fun valid_path :: "tree \<Rightarrow> nat list \<Rightarrow> bool" where
  "valid_path t [] \<longleftrightarrow> True"
| "valid_path (TBranch a seps ts) (i # p) \<longleftrightarrow> i < length ts \<and> valid_path (ts ! i) p"
| "valid_path (TLeaf a es) (i # p) \<longleftrightarrow> False"

lemma sub_append: "sub t (p @ q) = sub (sub t p) q"
proof (induction t p rule: sub.induct)
  case (3 a es i p)
  have "sub (TLeaf a es) q = TLeaf a es" by (cases q) auto
  then show ?case by simp
qed auto

lemma valid_append: "valid_path t (p @ q) \<longleftrightarrow> valid_path t p \<and> valid_path (sub t p) q"
  by (induction t p rule: valid_path.induct) auto

lemma sub_props:
  assumes "valid_path t p" "stored te txn t" "bst t" "balanced h t"
  shows "stored te txn (sub t p) \<and> bst (sub t p) \<and> balanced (h - length p) (sub t p) \<and> length p \<le> h"
  using assms
proof (induction t p arbitrary: h rule: valid_path.induct)
  case (2 a seps ts i p)
  then have c: "stored te txn (ts ! i)" "bst (ts ! i)" "balanced (h - 1) (ts ! i)" by (auto simp: list_all_length)
  then show ?case using 2 by fastforce
qed auto

text \<open>The stack of a cursor is the path \<open>p\<close> in \<open>t\<close>; the index in the top page is not part of it.\<close>

definition stack_at :: "cursor \<Rightarrow> tree \<Rightarrow> nat list \<Rightarrow> bool" where
  "stack_at mc t p \<longleftrightarrow> valid_path t p \<and> mc_snum mc = Suc (length p) \<and> mc_top mc = length p \<and>
     (\<forall>j\<le>length p. mc_pg mc j = tree_addr (sub t (take j p))) \<and> (\<forall>j<length p. mc_ki mc j = p ! j)"

lemma stack_atD:
  assumes "stack_at mc t p"
  shows "valid_path t p" "mc_snum mc = Suc (length p)" "mc_top mc = length p" "top_addr mc = tree_addr (sub t p)"
  using assms by (auto simp: stack_at_def top_addr_def)

lemma stack_at_set_ki: "stack_at mc t p \<Longrightarrow> stack_at (set_ki i mc) t p"
  by (auto simp: stack_at_def set_ki_def)

lemma stack_at_cong:
  "stack_at mc t p \<Longrightarrow> mc_snum mc' = mc_snum mc \<Longrightarrow> mc_top mc' = mc_top mc \<Longrightarrow> mc_pg mc' = mc_pg mc \<Longrightarrow> mc_ki mc' = mc_ki mc \<Longrightarrow>
    stack_at mc' t p"
  by (auto simp: stack_at_def)

lemma stack_at_push:
  assumes "stack_at mc t p" "valid_path t (p @ [i])"
  shows "stack_at (mc\<lparr>mc_top := Suc (length p), mc_snum := Suc (Suc (length p)),
      mc_pg := (mc_pg mc)(Suc (length p) := tree_addr (sub t (p @ [i]))), mc_ki := (mc_ki mc)(length p := i, Suc (length p) := x)\<rparr>) t (p @ [i])"
  using assms by (auto simp: stack_at_def nth_append le_Suc_eq)

text \<open>What the descent leaves alone.\<close>

definition keeps :: "cursor \<Rightarrow> cursor \<Rightarrow> bool" where
  "keeps mc mc' \<longleftrightarrow> mc_txn mc' = mc_txn mc \<and> mc_root mc' = mc_root mc \<and> mc_entries mc' = mc_entries mc \<and> mc_stale mc' = mc_stale mc \<and>
     mc_init mc' = mc_init mc \<and> mc_eof mc' = mc_eof mc \<and> mc_del mc' = mc_del mc"

lemma keeps_refl [simp]: "keeps mc mc"
  by (simp add: keeps_def)

lemma keeps_trans: "keeps mc mc1 \<Longrightarrow> keeps mc1 mc2 \<Longrightarrow> keeps mc mc2"
  by (simp add: keeps_def)

lemma keeps_set_ki [simp]: "keeps mc (set_ki i mc)" "keeps mc' (set_ki i mc) = keeps mc' mc"
  by (simp_all add: keeps_def set_ki_def)

section \<open>One step down\<close>

lemma page_get_txn: "snd (mdb_page_get txn own pgno) = Ok x \<Longrightarrow> fst (mdb_page_get txn own pgno) = txn"
  by (auto simp: mdb_page_get_def Let_def split: page_place.splits if_splits)

lemma cursor_page_get_gets: "gets te (mc_txn mc) pgno a \<Longrightarrow> cursor_page_get te pgno mc = Some (mc, Ok a)"
  using page_get_txn[of "mc_txn mc" "te_own_map te" pgno]
  by (auto simp: gets_def cursor_page_get_def split: prod.splits res.splits)

lemma cbind_page_get: "gets te (mc_txn mc) pgno a \<Longrightarrow> cbind (cursor_page_get te pgno) f mc = f a mc"
  by (simp add: cbind_def cursor_page_get_gets)

lemma descend_spec:
  assumes s: "stack_at mc t p" and u: "sub t p = TBranch a seps ts" and st: "stored te (mc_txn mc) (TBranch a seps ts)"
    and i: "i < length ts" and d: "Suc (length p) < CURSOR_STACK"
  shows "\<exists>mc'. descend te i mc = Some (mc', Ok ()) \<and> stack_at mc' t (p @ [i]) \<and> keeps mc mc' \<and> mc_reader mc' = mc_reader mc"
proof -
  note sd = stack_atD[OF s]
  have mp: "top_page te mc = ce_deref (te_ce te) a" using sd(4) u by (simp add: top_page_def)
  have b: "NUMKEYS (ce_deref (te_ce te) a) = length ts"
    "gets te (mc_txn mc) (NODEPGNO (ce_deref (te_ce te) a) (NODEPTR (ce_deref (te_ce te) a) i)) (tree_addr (ts ! i))"
    using st i by (auto simp: branch_stored_def Let_def list_all_length)
  have v: "valid_path t (p @ [i])" using sd(1) u i by (simp add: valid_append)
  have n: "\<not> CURSOR_STACK \<le> Suc (length p)" using d by simp
  have sub: "sub t (p @ [i]) = ts ! i" using u by (simp add: sub_append)
  show ?thesis
    using stack_at_push[OF s v, of 0] i n sd(2,3)
    by (auto simp: descend_def mp b(1) cbind_page_get[OF b(2)] mdb_cursor_push_def set_ki_def sub keeps_def)
qed

text \<open>The child whose range contains the key.\<close>

definition child_for :: "bytes \<Rightarrow> bytes list \<Rightarrow> nat" where
  "child_for k seps = length (takeWhile (\<lambda>x. x \<le> k) seps)"

lemma child_for_le: "child_for k seps \<le> length seps"
  by (simp add: child_for_def length_takeWhile_le)

text \<open>From the place of the key among the separators to the child.\<close>

lemma child_for_place:
  assumes "sorted_wrt (<) seps"
  shows "child_for k seps = (if k \<in> set seps then Suc (length (takeWhile (\<lambda>x. x < k) seps)) else length (takeWhile (\<lambda>x. x < k) seps))"
  using assms
proof (induction seps)
  case Nil
  then show ?case by (simp add: child_for_def)
next
  case (Cons x seps)
  consider "x < k" | "x = k" | "k < x" by (rule linorder_cases)
  then show ?case
  proof cases
    case 2
    then have "takeWhile (\<lambda>x. x \<le> k) seps = []" using Cons.prems by (cases seps) (auto simp: not_le)
    then show ?thesis using 2 by (simp add: child_for_def)
  next
    case 3
    then have "k \<notin> set seps" using Cons.prems by auto
    then show ?thesis using 3 by (auto simp: child_for_def)
  qed (use Cons in \<open>auto simp: child_for_def\<close>)
qed

lemma key_place_lexcmp: "key_place (lexcmp k) ks = length (takeWhile (\<lambda>x. x < k) ks)"
proof -
  have "(\<lambda>x. lexcmp k x > 0) = (\<lambda>x. x < k)" by (auto simp: lexcmp_order fun_eq_iff)
  then show ?thesis by (simp add: key_place_def)
qed

lemma exact_lexcmp: "(\<exists>x\<in>set ks. lexcmp k x = 0) \<longleftrightarrow> k \<in> set ks"
  by (auto simp: lexcmp_order split: if_splits)

lemma sorted_lexcmp: "sorted_wrt (<) ks \<Longrightarrow> sorted_wrt (\<lambda>x y. lexcmp k x \<le> 0 \<longrightarrow> lexcmp k y < 0) ks"
  by (erule sorted_wrt_mono_rel[rotated]) (auto simp: lexcmp_order split: if_splits)

lemma branch_storedD:
  assumes "stored te txn (TBranch a seps ts)"
  shows "IS_BRANCH (ce_deref (te_ce te) a)" "\<not> IS_LEAF (ce_deref (te_ce te) a)" "\<not> IS_LEAF2 (ce_deref (te_ce te) a)"
    "seps \<noteq> []" "NUMKEYS (ce_deref (te_ce te) a) = length ts" "length ts = Suc (length seps)"
    "\<And>i. i < length seps \<Longrightarrow> key_at (ce_deref (te_ce te) a) (Suc i) = seps ! i"
    "\<And>i. i < length seps \<Longrightarrow> length (seps ! i) < 2 ^ 32"
    "\<And>i. i < length ts \<Longrightarrow> gets te txn (NODEPGNO (ce_deref (te_ce te) a) (NODEPTR (ce_deref (te_ce te) a) i)) (tree_addr (ts ! i))"
    "\<And>i. i < length ts \<Longrightarrow> stored te txn (ts ! i)"
  using assms by (auto simp: branch_stored_def Let_def list_all_length)

lemma branch_search:
  assumes st: "stored te txn (TBranch a seps ts)" and cmp: "te_cmp te = Cmp_memn" and srt: "sorted_wrt (<) seps"
    and k: "length (snd key) < 2 ^ 32"
  shows "\<exists>rd'. mdb_node_search (te_ce te) (te_cmp te) a key rd =
     Some (rd', Ok (Suc (length (takeWhile (\<lambda>x. x < snd key) seps)), snd key \<in> set seps, length (takeWhile (\<lambda>x. x < snd key) seps) < length seps))"
proof -
  note b = branch_storedD[OF st]
  have "ordered_keys Cmp_memn (ce_deref (te_ce te) a) (snd key) (first_key (ce_deref (te_ce te) a)) (lexcmp (snd key)) seps"
    using b k srt by (auto simp: ordered_keys_def first_key_def cmp_memn_lexcmp sorted_lexcmp)
  from plain_search[OF _ b(3) _ this b(4), of rd] b(2) cmp show ?thesis
    by (simp add: key_place_lexcmp exact_lexcmp first_key_def)
qed

lemma step_spec:
  assumes s: "stack_at mc t p" and u: "sub t p = TBranch a seps ts" and st: "stored te (mc_txn mc) (TBranch a seps ts)"
    and cmp: "te_cmp te = Cmp_memn" and srt: "sorted_wrt (<) seps" and k: "length (snd key) < 2 ^ 32"
    and d: "Suc (length p) < CURSOR_STACK"
  shows "\<exists>mc'. page_search_step te (PS_KEY key) mc = Some (mc', Ok ()) \<and> stack_at mc' t (p @ [child_for (snd key) seps]) \<and> keeps mc mc'"
proof -
  note b = branch_storedD[OF st]
  let ?l = "length (takeWhile (\<lambda>x. x < snd key) seps)"
  have top: "top_addr mc = a" using stack_atD(4)[OF s] u by simp
  then have mp: "top_page te mc = ce_deref (te_ce te) a" by (simp add: top_page_def)
  obtain rd' where search: "mdb_node_search (te_ce te) (te_cmp te) a key (mc_reader mc) = Some (rd', Ok (Suc ?l, snd key \<in> set seps, ?l < length seps))"
    using branch_search[OF st cmp srt k] by blast
  define mc1 where "mc1 = set_ki (Suc ?l) (mc\<lparr>mc_reader := rd'\<rparr>)"
  have ns: "cursor_node_search te key mc = Some (mc1, Ok (snd key \<in> set seps, ?l < length seps))"
    by (simp add: cursor_node_search_def top search mc1_def)
  have mc1: "stack_at mc1 t p" "keeps mc mc1" "top_ki mc1 = Suc ?l"
    unfolding mc1_def by (intro stack_at_set_ki stack_at_cong[OF s]; simp add: keeps_def)+ (simp_all add: keeps_def set_ki_def top_ki_def)
  have st1: "stored te (mc_txn mc1) (TBranch a seps ts)" using st mc1(2) by (simp add: keeps_def)
  have "?l \<le> length seps" by (rule length_takeWhile_le)
  moreover have "?l < length seps" if "snd key \<in> set seps"
    using that by (metis length_takeWhile_le less_irrefl nat_less_le set_takeWhileD takeWhile_eq_take take_all_iff)
  ultimately have child: "(if \<not> ?l < length seps then length ts - 1 else if snd key \<in> set seps then Suc ?l else ?l) = child_for (snd key) seps"
    using b(6) by (auto simp: child_for_place[OF srt])
  have "child_for (snd key) seps < length ts" using child_for_le[of "snd key" seps] b(6) by simp
  then obtain mc2 where mc2: "descend te (child_for (snd key) seps) mc1 = Some (mc2, Ok ())"
      "stack_at mc2 t (p @ [child_for (snd key) seps])" "keeps mc1 mc2"
    using descend_spec[OF mc1(1) u st1 _ d] by blast
  have "length seps > 0" using b(4) by simp
  then have "page_search_step te (PS_KEY key) mc = Some (mc2, Ok ())"
    using mc2(1) b(5,6) child
    by (auto simp: page_search_step_def mp cbind_Some[where m = "cursor_node_search te key", OF ns] mc1(3) split: if_splits)
  then show ?thesis using mc2 keeps_trans[OF mc1(2)] by blast
qed

text \<open>The path the descent takes.\<close>

lemma size_child [termination_simp]: "i < length ts \<Longrightarrow> size (ts ! i) < Suc (size_list size ts)"
  by (rule le_imp_less_Suc, rule size_list_estimation'[of "ts ! i"]) simp_all

lemma size_last [termination_simp]: "ts \<noteq> [] \<Longrightarrow> size (last ts) < Suc (size_list size ts)"
  by (rule le_imp_less_Suc, rule size_list_estimation'[of "last ts"]) simp_all

fun key_path :: "bytes \<Rightarrow> tree \<Rightarrow> nat list" where
  "key_path k (TLeaf a es) = []"
| "key_path k (TBranch a seps ts) = (let i = child_for k seps in if i < length ts then i # key_path k (ts ! i) else [])"

fun first_path :: "tree \<Rightarrow> nat list" where
  "first_path (TLeaf a es) = []"
| "first_path (TBranch a seps ts) = (case ts of [] \<Rightarrow> [] | t # ts' \<Rightarrow> 0 # first_path t)"

fun last_path :: "tree \<Rightarrow> nat list" where
  "last_path (TLeaf a es) = []"
| "last_path (TBranch a seps ts) = (if ts = [] then [] else (length ts - 1) # last_path (last ts))"

text \<open>
  A step that goes to the child \<open>pick\<close> names: the loop follows it to a leaf. The step for a key, for
  FIRST and for LAST are of this kind.
\<close>

lemma loop_follows:
  assumes step: "\<And>mc p a seps ts. stack_at mc t p \<Longrightarrow> ok mc \<Longrightarrow> valid_path t p \<Longrightarrow> sub t p = TBranch a seps ts \<Longrightarrow> stored te (mc_txn mc) (TBranch a seps ts) \<Longrightarrow>
        bst (TBranch a seps ts) \<Longrightarrow> Suc (length p) < CURSOR_STACK \<Longrightarrow>
        \<exists>mc'. page_search_step te what mc = Some (mc', Ok ()) \<and> stack_at mc' t (p @ [pick seps]) \<and> keeps mc mc' \<and> ok mc'"
    and path: "\<And>a seps ts. length ts = Suc (length seps) \<Longrightarrow> path (TBranch a seps ts) = pick seps # path (ts ! pick seps) \<and> pick seps < length ts"
    and leaf: "\<And>a es. path (TLeaf a es) = []"
    and txn: "txn = mc_txn mc"
  shows "stack_at mc t p \<Longrightarrow> ok mc \<Longrightarrow> stored te txn (sub t p) \<Longrightarrow> bst (sub t p) \<Longrightarrow> balanced h (sub t p) \<Longrightarrow> length p + h < CURSOR_STACK \<Longrightarrow>
    \<exists>mc'. page_search_loop te what mc = Some (mc', Ok ()) \<and> stack_at mc' t (p @ path (sub t p)) \<and> keeps mc mc' \<and>
      (\<exists>a es. sub t (p @ path (sub t p)) = TLeaf a es)"
  using txn
proof (induction h arbitrary: mc p)
  case 0
  then obtain a es where u: "sub t p = TLeaf a es" by (cases "sub t p") auto
  then have "\<not> IS_BRANCH (top_page te mc)"
    using 0 stack_atD(4)[OF 0(1)] by (simp add: top_page_def leaf_stored_def Let_def)
  then show ?case using 0 u leaf by (subst page_search_loop.simps) auto
next
  case (Suc h)
  then obtain a seps ts where u: "sub t p = TBranch a seps ts" by (cases "sub t p") auto
  note b = branch_storedD[OF Suc.prems(3)[unfolded u]]
  have br: "IS_BRANCH (top_page te mc)" using b(1) stack_atD(4)[OF Suc.prems(1)] u by (simp add: top_page_def)
  have d: "Suc (length p) < CURSOR_STACK" using Suc.prems(6) by simp
  have st: "stored te (mc_txn mc) (TBranch a seps ts)" "bst (TBranch a seps ts)"
    using Suc.prems(3,4,7) unfolding u by blast+
  from step[OF Suc.prems(1,2) stack_atD(1)[OF Suc.prems(1)] u st d]
  obtain mc1 where mc1: "page_search_step te what mc = Some (mc1, Ok ())" "stack_at mc1 t (p @ [pick seps])" "keeps mc mc1" "ok mc1"
    by blast
  note pa = path[OF b(6), of a]
  have c: "sub t (p @ [pick seps]) = ts ! pick seps" using u by (simp add: sub_append)
  have "stored te txn (ts ! pick seps)" "bst (ts ! pick seps)" "balanced h (ts ! pick seps)"
    using Suc.prems u pa b(10) by (auto simp: list_all_length)
  then have "stored te txn (sub t (p @ [pick seps]))" "bst (sub t (p @ [pick seps]))" "balanced h (sub t (p @ [pick seps]))"
    by (simp_all add: c)
  note IH = Suc.IH[OF mc1(2,4) this]
  have "length (p @ [pick seps]) + h < CURSOR_STACK" "txn = mc_txn mc1" using Suc.prems(6,7) mc1(3) by (auto simp: keeps_def)
  from IH[OF this, unfolded c] obtain mc2 where mc2: "page_search_loop te what mc1 = Some (mc2, Ok ())"
    "stack_at mc2 t ((p @ [pick seps]) @ path (ts ! pick seps))" "keeps mc1 mc2"
    "\<exists>a es. sub t ((p @ [pick seps]) @ path (ts ! pick seps)) = TLeaf a es"
    by blast
  have "page_search_loop te what mc = Some (mc2, Ok ())"
    using br mc1(1) mc2(1) by (subst page_search_loop.simps) simp
  then show ?case using mc2 keeps_trans[OF mc1(3)] u pa by auto
qed

section \<open>The whole search\<close>

lemma txn_usable_ok: "txn_ok (mc_txn mc) \<Longrightarrow> txn_usable mc = Some (mc, Ok ())"
  by (simp add: txn_usable_def txn_ok_def mdb_txn_check_interrupt_def)

text \<open>The path of each search, and what it needs of the cursor.\<close>

fun what_path :: "search_for \<Rightarrow> tree \<Rightarrow> nat list" where
  "what_path (PS_KEY key) t = key_path (snd key) t"
| "what_path PS_FIRST t = first_path t"
| "what_path PS_LAST t = last_path t"
| "what_path PS_ROOTONLY t = []"

text \<open>
  LAST reuses the pages an initialised cursor has above its stack: they must be those of a path to a
  leaf, or the cursor must have just entered the top page.
\<close>

definition stack_above :: "cursor \<Rightarrow> tree \<Rightarrow> nat list \<Rightarrow> bool" where
  "stack_above mc t p0 \<longleftrightarrow> stack_at (mc\<lparr>mc_snum := Suc (length p0), mc_top := length p0\<rparr>) t p0 \<and> (\<exists>a es. sub t p0 = TLeaf a es)"

definition what_ok :: "search_for \<Rightarrow> tree \<Rightarrow> nat list \<Rightarrow> cursor \<Rightarrow> bool" where
  "what_ok what t p0 mc \<longleftrightarrow> (case what of
     PS_KEY key \<Rightarrow> length (snd key) < 2 ^ 32
   | PS_LAST \<Rightarrow> \<not> mc_init mc \<or> top_ki mc = 0 \<or> stack_above mc t p0
   | PS_FIRST \<Rightarrow> True
   | PS_ROOTONLY \<Rightarrow> False)"

lemma stack_prefix:
  assumes "stack_at mc t p" "stack_above mc t p0" "sub t p = TBranch a seps ts"
  shows "length p < length p0 \<and> take (length p) p0 = p \<and> top_ki mc = p0 ! length p"
proof -
  have p0: "valid_path t p0" "\<And>j. j < length p0 \<Longrightarrow> mc_ki mc j = p0 ! j" "\<exists>a es. sub t p0 = TLeaf a es"
    using assms(2) by (auto simp: stack_above_def stack_at_def)
  have p: "valid_path t p" "\<And>j. j < length p \<Longrightarrow> mc_ki mc j = p ! j" "mc_top mc = length p"
    using assms(1) by (auto simp: stack_at_def)
  have less: "length p < length p0"
  proof (rule ccontr)
    assume "\<not> length p < length p0"
    then have "take (length p0) p = p0" using p0(2) p(2) by (intro nth_equalityI) auto
    then have eq: "p = p0 @ drop (length p0) p" by (metis append_take_drop_id)
    obtain b es where leaf: "sub t p0 = TLeaf b es" using p0(3) by blast
    have "sub t p = sub (TLeaf b es) (drop (length p0) p)" using eq leaf by (metis sub_append)
    then show False using assms(3) by (cases "drop (length p0) p") simp_all
  qed
  moreover have "take (length p) p0 = p" using less p0(2) p(2) by (intro nth_equalityI) auto
  ultimately show ?thesis using p0(2) p(3) by (simp add: top_ki_def)
qed

lemma descend_ki: "descend te i mc = Some (mc', Ok u) \<Longrightarrow> top_ki mc' = 0"
  by (auto simp: descend_def Let_def cguard_def cabort_def cursor_page_get_def cbind_def bind_res_def set_ki_def
      mdb_cursor_push_def top_ki_def split: if_splits prod.splits res.splits)

lemma last_step:
  assumes s: "stack_at mc t p" and ok: "what_ok PS_LAST t p0 mc" and u: "sub t p = TBranch a seps ts"
    and st: "stored te (mc_txn mc) (TBranch a seps ts)" and d: "Suc (length p) < CURSOR_STACK"
  shows "\<exists>mc'. page_search_step te PS_LAST mc = Some (mc', Ok ()) \<and> stack_at mc' t (p @ [length seps]) \<and> keeps mc mc' \<and> what_ok PS_LAST t p0 mc'"
proof -
  note b = branch_storedD[OF st]
  note sd = stack_atD[OF s]
  have mp: "top_page te mc = ce_deref (te_ce te) a" using sd(4) u by (simp add: top_page_def)
  have n: "length seps > 0" using b(4) by simp
  obtain mc1 where mc1: "descend te (length seps) mc = Some (mc1, Ok ())" "stack_at mc1 t (p @ [length seps])" "keeps mc mc1"
    using descend_spec[OF s u st _ d, of "length seps"] b(6) by auto
  show ?thesis
  proof (cases "mc_init mc \<and> top_ki mc = length seps")
    case True
    then have above: "stack_above mc t p0" using ok n by (auto simp: what_ok_def)
    note pre = stack_prefix[OF s above u]
    define mc2 where "mc2 = mc\<lparr>mc_top := mc_snum mc, mc_snum := mc_snum mc + 1\<rparr>"
    have p1: "take (Suc (length p)) p0 = p @ [length seps]"
      using pre True by (simp add: take_Suc_conv_app_nth)
    have pg: "\<And>j. j \<le> length p0 \<Longrightarrow> mc_pg mc j = tree_addr (sub t (take j p0))" "\<And>j. j < length p0 \<Longrightarrow> mc_ki mc j = p0 ! j"
      using above by (auto simp: stack_above_def stack_at_def)
    have "stack_at mc2 t (p @ [length seps])"
      unfolding stack_at_def
    proof (intro conjI allI impI)
      show "valid_path t (p @ [length seps])" using sd(1) u b(6) by (simp add: valid_append)
      show "mc_pg mc2 j = tree_addr (sub t (take j (p @ [length seps])))" if "j \<le> length (p @ [length seps])" for j
      proof -
        have "take j (p @ [length seps]) = take j p0" unfolding p1[symmetric] using that by (simp add: min_def)
        then show ?thesis using pg(1)[of j] that pre by (simp add: mc2_def)
      qed
      show "mc_ki mc2 j = (p @ [length seps]) ! j" if "j < length (p @ [length seps])" for j
      proof -
        have "(p @ [length seps]) ! j = p0 ! j" unfolding p1[symmetric] using that by simp
        then show ?thesis using pg(2)[of j] that pre by (simp add: mc2_def)
      qed
    qed (simp_all add: mc2_def sd(2,3))
    moreover have "what_ok PS_LAST t p0 mc2"
      using above by (simp add: what_ok_def stack_above_def mc2_def)
    moreover have "page_search_step te PS_LAST mc = Some (mc2, Ok ())"
      using True b(5,6) n d sd(2) by (simp add: page_search_step_def mp Let_def mc2_def)
    moreover have "keeps mc mc2" by (simp add: keeps_def mc2_def)
    ultimately show ?thesis by blast
  next
    case False
    then have "page_search_step te PS_LAST mc = Some (mc1, Ok ())"
      using mc1(1) b(5,6) n by (auto simp: page_search_step_def mp Let_def)
    then show ?thesis using mc1 descend_ki[OF mc1(1)] by (auto simp: what_ok_def)
  qed
qed

lemma loop_arrives:
  assumes s: "stack_at mc t p" and st: "stored te (mc_txn mc) (sub t p)" "bst (sub t p)" "balanced h (sub t p)" "length p + h < CURSOR_STACK"
    and cmp: "te_cmp te = Cmp_memn" and ok: "what_ok what t p0 mc"
  shows "\<exists>mc'. page_search_loop te what mc = Some (mc', Ok ()) \<and> stack_at mc' t (p @ what_path what (sub t p)) \<and> keeps mc mc' \<and>
      (\<exists>a es. sub t (p @ what_path what (sub t p)) = TLeaf a es)"
proof (cases what)
  case PS_FIRST
  note loop = loop_follows[where what = what and ok = "\<lambda>_. True" and pick = "\<lambda>_. 0" and path = first_path and t = t and te = te]
  show ?thesis unfolding PS_FIRST what_path.simps
  proof (rule loop[unfolded PS_FIRST, OF _ _ _ refl s TrueI st])
    fix mc p a seps ts
    assume *: "stack_at mc t p" "sub t p = TBranch a seps ts" "stored te (mc_txn mc) (TBranch a seps ts)" "Suc (length p) < CURSOR_STACK"
    note b = branch_storedD[OF *(3)]
    have "top_page te mc = ce_deref (te_ce te) a" using stack_atD(4)[OF *(1)] *(2) by (simp add: top_page_def)
    then have "page_search_step te PS_FIRST mc = descend te 0 mc"
      using b(4-6) by (simp add: page_search_step_def)
    then show "\<exists>mc'. page_search_step te PS_FIRST mc = Some (mc', Ok ()) \<and> stack_at mc' t (p @ [0]) \<and> keeps mc mc' \<and> True"
      using descend_spec[OF *(1-3) _ *(4), of 0] b(6) by auto
  next
    fix a and seps :: "bytes list" and ts :: "tree list"
    assume "length ts = Suc (length seps)"
    then show "first_path (TBranch a seps ts) = 0 # first_path (ts ! 0) \<and> 0 < length ts" by (cases ts) auto
  qed simp
next
  case PS_LAST
  note loop = loop_follows[where what = what and ok = "what_ok PS_LAST t p0" and pick = length and path = last_path and t = t and te = te]
  show ?thesis unfolding PS_LAST what_path.simps
  proof (rule loop[unfolded PS_LAST, OF _ _ _ refl s ok[unfolded PS_LAST] st])
    fix mc p a seps ts
    assume "stack_at mc t p" "what_ok PS_LAST t p0 mc" "sub t p = TBranch a seps ts" "stored te (mc_txn mc) (TBranch a seps ts)" "Suc (length p) < CURSOR_STACK"
    then show "\<exists>mc'. page_search_step te PS_LAST mc = Some (mc', Ok ()) \<and> stack_at mc' t (p @ [length seps]) \<and> keeps mc mc' \<and> what_ok PS_LAST t p0 mc'"
      by (rule last_step)
  next
    fix a and seps :: "bytes list" and ts :: "tree list"
    assume "length ts = Suc (length seps)"
    then show "last_path (TBranch a seps ts) = length seps # last_path (ts ! length seps) \<and> length seps < length ts"
      by (auto simp: last_conv_nth)
  qed simp
next
  case (PS_KEY key)
  then have k: "length (snd key) < 2 ^ 32" using ok by (simp add: what_ok_def)
  note loop = loop_follows[where what = what and ok = "\<lambda>_. True" and pick = "child_for (snd key)" and path = "key_path (snd key)" and t = t and te = te]
  show ?thesis unfolding PS_KEY what_path.simps
  proof (rule loop[unfolded PS_KEY, OF _ _ _ refl s TrueI st])
    fix mc p a seps ts
    assume *: "stack_at mc t p" "sub t p = TBranch a seps ts" "stored te (mc_txn mc) (TBranch a seps ts)" "bst (TBranch a seps ts)" "Suc (length p) < CURSOR_STACK"
    then show "\<exists>mc'. page_search_step te (PS_KEY key) mc = Some (mc', Ok ()) \<and> stack_at mc' t (p @ [child_for (snd key) seps]) \<and> keeps mc mc' \<and> True"
      using step_spec[OF *(1-3) cmp _ k *(5)] by simp
  next
    fix a and seps :: "bytes list" and ts :: "tree list"
    assume "length ts = Suc (length seps)"
    then show "key_path (snd key) (TBranch a seps ts) = child_for (snd key) seps # key_path (snd key) (ts ! child_for (snd key) seps) \<and>
        child_for (snd key) seps < length ts"
      using child_for_le[of "snd key" seps] by (simp add: Let_def)
  qed simp
next
  case PS_ROOTONLY
  then show ?thesis using ok by (simp add: what_ok_def)
qed

text \<open>The cursor after a search that has found its leaf.\<close>

definition arrived :: "cursor \<Rightarrow> cursor \<Rightarrow> tree \<Rightarrow> nat list \<Rightarrow> bool" where
  "arrived mc mc' t p \<longleftrightarrow> stack_at mc' t p \<and> (\<exists>a es. sub t p = TLeaf a es) \<and> mc_txn mc' = mc_txn mc \<and> mc_root mc' = mc_root mc \<and> mc_entries mc' = mc_entries mc \<and>
     mc_stale mc' = mc_stale mc \<and> mc_del mc' = mc_del mc \<and> mc_init mc' \<and> \<not> mc_eof mc'"

lemma search_root_arrives:
  assumes s: "stack_at mc t p" and st: "stored te (mc_txn mc) (sub t p)" "bst (sub t p)" "balanced h (sub t p)" "length p + h < CURSOR_STACK"
    and cmp: "te_cmp te = Cmp_memn" and ok: "what_ok what t p0 mc" and txn: "txn_ok (mc_txn mc)"
  shows "\<exists>mc'. mdb_page_search_root te what mc = Some (mc', Ok ()) \<and> arrived mc mc' t (p @ what_path what (sub t p))"
proof -
  let ?q = "what_path what (sub t p)"
  obtain mc1 where mc1: "page_search_loop te what mc = Some (mc1, Ok ())" "stack_at mc1 t (p @ ?q)" "keeps mc mc1"
      "\<exists>a es. sub t (p @ ?q) = TLeaf a es"
    using loop_arrives[OF s st cmp ok] by blast
  then obtain a es where leaf: "sub t (p @ ?q) = TLeaf a es" by blast
  have "valid_path (sub t p) ?q" using stack_atD(1)[OF mc1(2)] by (simp add: valid_append)
  then have "stored te (mc_txn mc) (TLeaf a es)" using sub_props[OF _ st(1-3), of ?q] leaf by (simp add: sub_append)
  then have "IS_LEAF (top_page te mc1)" using stack_atD(4)[OF mc1(2)] leaf by (simp add: top_page_def leaf_stored_def Let_def)
  then have "mdb_page_search_root te what mc = Some (mc1\<lparr>mc_init := True, mc_eof := False\<rparr>, Ok ())"
    by (simp add: mdb_page_search_root_def cthen_Some[where m = txn_usable, OF txn_usable_ok[OF txn]]
        cthen_Some[where m = "page_search_loop te what", OF mc1(1)])
  moreover have "arrived mc (mc1\<lparr>mc_init := True, mc_eof := False\<rparr>) t (p @ ?q)"
    using mc1(2,3) leaf by (auto simp: arrived_def keeps_def intro: stack_at_cong)
  ultimately show ?thesis by blast
qed

text \<open>A cursor whose root page, if it has one, is the root page of the tree.\<close>

definition root_ok :: "tree_env \<Rightarrow> tree \<Rightarrow> cursor \<Rightarrow> bool" where
  "root_ok te t mc \<longleftrightarrow> mc_pg mc 0 = 0 \<or> mp_pgno (ce_deref (te_ce te) (mc_pg mc 0)) \<noteq> mc_root mc \<or> mc_pg mc 0 = tree_addr t"

definition above_ok :: "search_for \<Rightarrow> tree \<Rightarrow> nat list \<Rightarrow> cursor \<Rightarrow> bool" where
  "above_ok what t p0 mc \<longleftrightarrow> (case what of
     PS_KEY key \<Rightarrow> length (snd key) < 2 ^ 32
   | PS_LAST \<Rightarrow> \<not> mc_init mc \<or> stack_above mc t p0
   | PS_FIRST \<Rightarrow> True
   | PS_ROOTONLY \<Rightarrow> False)"

lemma above_root: "stack_above mc t p0 \<Longrightarrow> mc_pg mc 0 = tree_addr t"
  by (auto simp: stack_above_def stack_at_def)

lemma search_tree_arrives:
  assumes t: "tree_at te (mc_txn mc) (mc_root mc) h t" and r: "root_ok te t mc" and ok: "above_ok what t p0 mc"
  shows "\<exists>mc'. page_search_tree te what mc = Some (mc', Ok ()) \<and> arrived mc mc' t (what_path what t)"
proof -
  note d = tree_atD[OF t]
  define mc1 where "mc1 = mc\<lparr>mc_pg := (mc_pg mc)(0 := tree_addr t)\<rparr>"
  define mc2 where "mc2 = mc1\<lparr>mc_snum := 1, mc_top := 0\<rparr>"
  define m where "m = (if mc_pg mc 0 = 0 \<or> mp_pgno (ce_deref (te_ce te) (mc_pg mc 0)) \<noteq> mc_root mc
       then cbind (cursor_page_get te (mc_root mc)) (\<lambda>a. cupd (\<lambda>mc. mc\<lparr>mc_pg := (mc_pg mc)(0 := a)\<rparr>)) else cret ())"
  have get: "m mc = Some (mc1, Ok ())"
  proof (cases "mc_pg mc 0 = 0 \<or> mp_pgno (ce_deref (te_ce te) (mc_pg mc 0)) \<noteq> mc_root mc")
    case False
    then have "mc_pg mc 0 = tree_addr t" using r by (simp add: root_ok_def)
    then have "mc1 = mc" by (simp add: mc1_def fun_upd_idem)
    then show ?thesis using False by (simp add: m_def)
  qed (simp add: cbind_page_get[OF d(6)] mc1_def m_def)
  have s: "stack_at mc2 t []" by (simp add: stack_at_def mc2_def mc1_def)
  have ok2: "what_ok what t p0 mc2"
  proof (cases what)
    case PS_LAST
    have "stack_above mc2 t p0" if "stack_above mc t p0"
    proof -
      have "mc1 = mc" using above_root[OF that] by (simp add: mc1_def fun_upd_idem)
      then show ?thesis using that by (simp add: stack_above_def mc2_def)
    qed
    then show ?thesis using ok PS_LAST by (auto simp: what_ok_def above_ok_def mc2_def mc1_def)
  qed (use ok in \<open>simp_all add: what_ok_def above_ok_def\<close>)
  have ne: "what \<noteq> PS_ROOTONLY" using ok by (auto simp: above_ok_def)
  have txn: "mc_txn mc2 = mc_txn mc" by (simp add: mc2_def mc1_def)
  obtain mc' where mc': "mdb_page_search_root te what mc2 = Some (mc', Ok ())" "arrived mc2 mc' t (what_path what t)"
    using search_root_arrives[OF s _ _ _ _ d(1) ok2, of h] d(2,3,7-10) txn by (auto simp: txn_ok_def)
  have "page_search_tree te what mc = Some (mc', Ok ())"
    unfolding page_search_tree_def Let_def m_def[symmetric]
    using d(4,5) ne mc'(1) by (simp add: cthen_Some[where m = m, OF get] mc2_def)
  moreover have "arrived mc mc' t (what_path what t)"
    using mc'(2) by (simp add: arrived_def mc2_def mc1_def)
  ultimately show ?thesis by blast
qed

lemma page_search_arrives:
  assumes t: "tree_at (db_tree db) (mc_txn mc) (mc_root mc) h t" and stale: "\<not> mc_stale mc"
    and r: "root_ok (db_tree db) t mc" and ok: "above_ok what t p0 mc"
  shows "\<exists>mc'. mdb_page_search db what mc = Some (mc', Ok ()) \<and> arrived mc mc' t (what_path what t)"
proof -
  have "txn_ok (mc_txn mc)" using tree_atD(2,3)[OF t] by (simp add: txn_ok_def)
  then have "mdb_page_search db what mc = page_search_tree (db_tree db) what mc"
    using stale by (simp add: mdb_page_search_def cthen_Some[where m = txn_usable, OF txn_usable_ok]
        cthen_Some[where m = "refresh_record db", where mc' = mc] refresh_record_def)
  then show ?thesis using search_tree_arrives[OF t r ok] by simp
qed

section \<open>The leaf\<close>

lemma leaf_storedD:
  assumes "leaf_stored te txn a es"
  shows "IS_LEAF (ce_deref (te_ce te) a)" "\<not> IS_LEAF2 (ce_deref (te_ce te) a)" "\<not> IS_BRANCH (ce_deref (te_ce te) a)" "es \<noteq> []"
    "NUMKEYS (ce_deref (te_ce te) a) = length es"
    "\<And>i. i < length es \<Longrightarrow> node_holds te txn a (NODEPTR (ce_deref (te_ce te) a) i) (snd (es ! i))"
    "ce_prefix (te_ce te) \<Longrightarrow> canonical_leaf (ce_deref (te_ce te) a) (map fst es)"
    "\<And>i. \<not> ce_prefix (te_ce te) \<Longrightarrow> i < length es \<Longrightarrow> key_at (ce_deref (te_ce te) a) i = fst (es ! i)"
    "\<And>i. \<not> ce_prefix (te_ce te) \<Longrightarrow> i < length es \<Longrightarrow> length (fst (es ! i)) < 2 ^ 32"
  using assms by (auto simp: leaf_stored_def Let_def list_all_length)

text \<open>The number of smaller keys.\<close>

definition place_in :: "bytes \<Rightarrow> (bytes \<times> bytes) list \<Rightarrow> nat" where
  "place_in k es = length (takeWhile (\<lambda>e. fst e < k) es)"

lemma place_in_map: "place_in k es = length (takeWhile (\<lambda>x. x < k) (map fst es))"
  by (simp add: place_in_def takeWhile_map o_def)

lemma leaf_search:
  assumes l: "leaf_stored te txn a es" and cmp: "te_cmp te = Cmp_memn" and srt: "sorted_wrt (<) (map fst es)"
    and k: "length (snd key) < 2 ^ 32"
  shows "\<exists>rd'. mdb_node_search (te_ce te) (te_cmp te) a key rd =
     Some (rd', Ok (place_in (snd key) es, snd key \<in> fst ` set es, place_in (snd key) es < length es))"
proof (cases "ce_prefix (te_ce te)")
  case True
  have "prefix_searchable (te_ce te) a (map fst es) key"
    using True leaf_storedD(7)[OF l] srt k by (simp add: prefix_searchable_def)
  from node_search_prefix_leaf[OF this, of rd] show ?thesis
    by (simp add: cmp key_place_lexcmp place_in_map)
next
  case False
  note d = leaf_storedD[OF l]
  have o: "ordered_keys Cmp_memn (ce_deref (te_ce te) a) (snd key) (first_key (ce_deref (te_ce te) a)) (lexcmp (snd key)) (map fst es)"
    using d(1,5) d(8,9)[OF False] k sorted_lexcmp[OF srt] by (auto simp: ordered_keys_def first_key_def cmp_memn_lexcmp)
  have ne: "map fst es \<noteq> []" using d(4) by simp
  from plain_search[OF _ d(2) _ o ne, of rd] False cmp d(1) show ?thesis
    by (simp add: key_place_lexcmp exact_lexcmp[of "map fst es", simplified] place_in_map first_key_def)
qed

end
