(* ===== verification/Btree_Order.thy ===== *)
theory Btree_Order
  imports Btree
begin

text \<open>
  The order of the entries of a tree: positions (a path to a leaf and an index in it) and their ranks,
  the leaf next to a leaf on either side, and the leaf and the rank of a key.
\<close>

section \<open>Positions and ranks\<close>

fun leaf_entries :: "tree \<Rightarrow> (bytes \<times> bytes) list" where
  "leaf_entries (TLeaf a es) = es"
| "leaf_entries (TBranch a seps ts) = []"

fun is_leaf :: "tree \<Rightarrow> bool" where
  "is_leaf (TLeaf a es) = True"
| "is_leaf (TBranch a seps ts) = False"

fun width :: "tree \<Rightarrow> nat" where
  "width (TLeaf a es) = 0"
| "width (TBranch a seps ts) = length ts"

text \<open>The number of entries before the subtree of a path.\<close>

fun offset :: "tree \<Rightarrow> nat list \<Rightarrow> nat" where
  "offset t [] = 0"
| "offset (TLeaf a es) (i # p) = 0"
| "offset (TBranch a seps ts) (i # p) = sum_list (map (length \<circ> entries) (take i ts)) + offset (ts ! i) p"

lemma offset_append: "valid_path t p \<Longrightarrow> offset t (p @ q) = offset t p + offset (sub t p) q"
  by (induction t p rule: offset.induct) auto

lemma concat_split:
  assumes "i < length xss"
  shows "concat xss = concat (take i xss) @ xss ! i @ concat (drop (Suc i) xss)"
  using assms by (metis append.assoc concat.simps(2) concat_append id_take_nth_drop)

text \<open>The entries are those before the subtree, those of the subtree, and those behind it.\<close>

lemma entries_split:
  "valid_path t p \<Longrightarrow> \<exists>xs ys. entries t = xs @ entries (sub t p) @ ys \<and> length xs = offset t p"
proof (induction t p rule: offset.induct)
  case (3 a seps ts i p)
  then obtain xs ys where e: "entries (ts ! i) = xs @ entries (sub (ts ! i) p) @ ys" "length xs = offset (ts ! i) p" by auto
  have "entries (TBranch a seps ts) =
      (concat (take i (map entries ts)) @ xs) @ entries (sub (ts ! i) p) @ ys @ concat (drop (Suc i) (map entries ts))"
    using concat_split[of i "map entries ts"] 3 e(1) by simp
  moreover have "length (concat (take i (map entries ts)) @ xs) = offset (TBranch a seps ts) (i # p)"
    using e(2) by (simp add: length_concat take_map o_def)
  ultimately show ?case unfolding sub.simps by blast
qed auto

lemma nth_entries:
  assumes "valid_path t p" "sub t p = TLeaf a es" "i < length es"
  shows "entries t ! (offset t p + i) = es ! i" "offset t p + i < length (entries t)"
proof -
  obtain xs ys where e: "entries t = xs @ es @ ys" "length xs = offset t p" using entries_split[OF assms(1)] assms(2) by auto
  show "entries t ! (offset t p + i) = es ! i" "offset t p + i < length (entries t)"
    using e assms(3) by (auto simp: nth_append)
qed

section \<open>The leaf beside a leaf\<close>

text \<open>
  \<open>beside right t p\<close>: the path of the same length next to \<open>p\<close>, to the right or to the left.
\<close>

fun edge :: "bool \<Rightarrow> nat \<Rightarrow> tree \<Rightarrow> nat list" where
  "edge right 0 t = []"
| "edge right (Suc n) (TLeaf a es) = []"
| "edge right (Suc n) (TBranch a seps ts) =
     (let i = (if right then 0 else length ts - 1) in if i < length ts then i # edge right n (ts ! i) else [])"

fun beside :: "bool \<Rightarrow> tree \<Rightarrow> nat list \<Rightarrow> nat list option" where
  "beside right t [] = None"
| "beside right (TLeaf a es) (i # p) = None"
| "beside right (TBranch a seps ts) (i # p) =
     (case beside right (ts ! i) p of
        Some q \<Rightarrow> Some (i # q)
      | None \<Rightarrow>
          if right then (if i + 1 < length ts then Some ((i + 1) # edge right (length p) (ts ! (i + 1))) else None)
          else (if i > 0 then Some ((i - 1) # edge right (length p) (ts ! (i - 1))) else None))"

text \<open>The trees in question: all leaves at depth \<open>h\<close>, no branch without children, no leaf without entries.\<close>

fun full :: "nat \<Rightarrow> tree \<Rightarrow> bool" where
  "full h (TLeaf a es) \<longleftrightarrow> h = 0 \<and> es \<noteq> []"
| "full h (TBranch a seps ts) \<longleftrightarrow> h > 0 \<and> ts \<noteq> [] \<and> list_all (full (h - 1)) ts"

lemma full_stored: "stored te txn t \<Longrightarrow> balanced h t \<Longrightarrow> full h t"
proof (induction t arbitrary: h)
  case (TBranch a seps ts)
  then have "ts \<noteq> []" using branch_storedD(6)[OF TBranch.prems(1)] by auto
  then show ?case using TBranch by (auto simp: list_all_iff)
qed (simp add: leaf_stored_def Let_def)

lemma full_sub: "full h t \<Longrightarrow> valid_path t p \<Longrightarrow> full (h - length p) (sub t p) \<and> length p \<le> h"
proof (induction t p arbitrary: h rule: valid_path.induct)
  case (2 a seps ts i p)
  then have "full (h - 1) (ts ! i)" by (auto simp: list_all_length)
  then show ?case using 2 by fastforce
qed auto

lemma full_leaf: "full h t \<Longrightarrow> valid_path t p \<Longrightarrow> is_leaf (sub t p) \<longleftrightarrow> length p = h"
  using full_sub[of h t p] by (cases "sub t p") auto

lemma edge_valid: "full h t \<Longrightarrow> n \<le> h \<Longrightarrow> valid_path t (edge right n t) \<and> length (edge right n t) = n"
proof (induction right n t arbitrary: h rule: edge.induct)
  case (3 right n a seps ts)
  let ?i = "if right then 0 else length ts - 1"
  have "?i < length ts" "full (h - 1) (ts ! ?i)" using 3 by (auto simp: list_all_length)
  then show ?case using 3 by (auto simp: Let_def)
qed auto

lemma edge_snoc:
  "full h t \<Longrightarrow> n < h \<Longrightarrow> edge right (Suc n) t = edge right n t @ [if right then 0 else width (sub t (edge right n t)) - 1]"
proof (induction right n t arbitrary: h rule: edge.induct)
  case (1 right t)
  then obtain a seps ts where "t = TBranch a seps ts" by (cases t) auto
  then show ?case using 1 by auto
next
  case (3 right n a seps ts)
  let ?i = "if right then 0 else length ts - 1"
  have i: "?i < length ts" "full (h - 1) (ts ! ?i)" using 3 by (auto simp: list_all_length)
  have eq: "edge right (Suc m) (TBranch a seps ts) = ?i # edge right m (ts ! ?i)" for m using i(1) by (auto simp: Let_def)
  have "n < h - 1" using 3 by auto
  then show ?case using 3(1)[OF refl i(1) i(2)] unfolding eq by simp
qed auto

lemma beside_length: "beside right t p = Some q \<Longrightarrow> full h t \<Longrightarrow> valid_path t p \<Longrightarrow> length q = length p \<and> valid_path t q"
proof (induction right t p arbitrary: q h rule: beside.induct)
  case (3 right a seps ts i p)
  then have i: "i < length ts" "full (h - 1) (ts ! i)" "valid_path (ts ! i) p" by (auto simp: list_all_length)
  have len: "length p \<le> h - 1" using full_sub[OF i(2,3)] by simp
  have e: "valid_path (ts ! j) (edge right (length p) (ts ! j)) \<and> length (edge right (length p) (ts ! j)) = length p" if "j < length ts" for j
    using edge_valid[of "h - 1" "ts ! j", OF _ len] 3(3) that by (auto simp: list_all_length)
  show ?case
  proof (cases "beside right (ts ! i) p")
    case None
    then show ?thesis using 3(2) e[of "i + 1"] e[of "i - 1"] i(1) by (auto split: if_splits)
  next
    case (Some q')
    then show ?thesis using 3(1)[OF Some i(2,3)] 3(2) i(1) by auto
  qed
qed auto

text \<open>How the recursion of \<open>mdb_cursor_sibling\<close>, from the end of the path, computes it.\<close>

lemma beside_snoc:
  "full h t \<Longrightarrow> valid_path t (p @ [i]) \<Longrightarrow> beside right t (p @ [i]) =
    (if (if right then i + 1 \<ge> width (sub t p) else i = 0)
     then map_option (\<lambda>q. q @ [if right then 0 else width (sub t q) - 1]) (beside right t p)
     else Some (p @ [if right then i + 1 else i - 1]))"
proof (induction p arbitrary: t h)
  case Nil
  then show ?case by (cases t) auto
next
  case (Cons j p)
  then obtain a seps ts where t: "t = TBranch a seps ts" by (cases t) auto
  have j: "j < length ts" "full (h - 1) (ts ! j)" "valid_path (ts ! j) (p @ [i])" using Cons.prems t by (auto simp: list_all_length)
  note IH = Cons.IH[OF j(2,3)]
  have len: "length p < h - 1" using full_sub[OF j(2,3)] by simp
  have e: "edge right (Suc (length p)) (ts ! k) = edge right (length p) (ts ! k) @ [if right then 0 else width (sub (ts ! k) (edge right (length p) (ts ! k))) - 1]"
    if "k < length ts" for k
    by (rule edge_snoc[OF _ len]) (use Cons.prems(1) t that in \<open>auto simp: list_all_length\<close>)
  define full_up where "full_up = (if right then i + 1 \<ge> width (sub (ts ! j) p) else i = 0)"
  have rec: "beside right t ((j # p) @ [i]) = (case beside right (ts ! j) (p @ [i]) of
        Some q \<Rightarrow> Some (j # q)
      | None \<Rightarrow>
          if right then (if j + 1 < length ts then Some ((j + 1) # edge right (Suc (length p)) (ts ! (j + 1))) else None)
          else (if j > 0 then Some ((j - 1) # edge right (Suc (length p)) (ts ! (j - 1))) else None))"
    unfolding t append_Cons beside.simps length_append_singleton by (rule refl)
  have sub: "sub t (j # p) = sub (ts ! j) p" by (simp add: t)
  show ?case
  proof (cases full_up)
    case False
    then have "beside right (ts ! j) (p @ [i]) = Some (p @ [if right then i + 1 else i - 1])" using IH by (simp add: full_up_def)
    then show ?thesis unfolding rec sub full_up_def[symmetric] using False by simp
  next
    case True
    then have step: "beside right (ts ! j) (p @ [i]) = map_option (\<lambda>q. q @ [if right then 0 else width (sub (ts ! j) q) - 1]) (beside right (ts ! j) p)"
      using IH unfolding full_up_def[symmetric] by simp
    show ?thesis
    proof (cases "beside right (ts ! j) p")
      case None
      have "beside right t (j # p) = (if right then (if j + 1 < length ts then Some ((j + 1) # edge right (length p) (ts ! (j + 1))) else None)
          else (if j > 0 then Some ((j - 1) # edge right (length p) (ts ! (j - 1))) else None))"
        using None by (simp add: t)
      then show ?thesis unfolding rec sub full_up_def[symmetric] step None
        using True e[of "j + 1"] e[of "j - 1"] j(1) by (cases right) (auto simp: t)
    next
      case (Some q)
      then have "beside right t (j # p) = Some (j # q)" by (simp add: t)
      then show ?thesis unfolding rec sub full_up_def[symmetric] step Some using True by (cases right) (auto simp: t)
    qed
  qed
qed

lemma beside_Nil [simp]: "beside right t [] = None"
  by (cases t) auto

section \<open>Ranks beside\<close>

lemma sub_leaf:
  assumes "full h t" "valid_path t p" "length p = h"
  obtains a es where "sub t p = TLeaf a es" "es \<noteq> []"
  using full_leaf[OF assms(1,2)] full_sub[OF assms(1,2)] assms(3) by (cases "sub t p") auto

lemma offset_edge:
  "full h t \<Longrightarrow> offset t (edge True h t) = 0 \<and> offset t (edge False h t) + length (leaf_entries (sub t (edge False h t))) = length (entries t)"
proof (induction h arbitrary: t)
  case 0
  then obtain a es where "t = TLeaf a es" by (cases t) auto
  then show ?case by simp
next
  case (Suc h)
  then obtain a seps ts where t: "t = TBranch a seps ts" by (cases t) auto
  have ne: "ts \<noteq> []" "full h (ts ! 0)" "full h (ts ! (length ts - 1))" using Suc.prems t by (auto simp: list_all_length)
  obtain us u where us: "ts = us @ [u]" using ne(1) by (metis rev_exhaust)
  have "length (entries t) = sum_list (map (length \<circ> entries) (take (length ts - 1) ts)) + length (entries (ts ! (length ts - 1)))"
    by (simp add: t us length_concat o_def)
  then show ?case using Suc.IH[OF ne(2)] Suc.IH[OF ne(3)] t ne(1) by (auto simp: Let_def)
qed

lemma offset_beside_right:
  "full h t \<Longrightarrow> valid_path t p \<Longrightarrow> length p = h \<Longrightarrow>
    offset t p + length (leaf_entries (sub t p)) = (case beside True t p of Some q \<Rightarrow> offset t q | None \<Rightarrow> length (entries t))"
proof (induction p arbitrary: t h)
  case Nil
  then obtain a es where "t = TLeaf a es" by (cases t) auto
  then show ?case by simp
next
  case (Cons i p)
  then obtain a seps ts where t: "t = TBranch a seps ts" by (cases t) auto
  have i: "i < length ts" "full (h - 1) (ts ! i)" "valid_path (ts ! i) p" "length p = h - 1" using Cons.prems t by (auto simp: list_all_length)
  note IH = Cons.IH[OF i(2-4)]
  have all: "length (entries t) = sum_list (map (length \<circ> entries) (take i ts)) + length (entries (ts ! i)) + sum_list (map (length \<circ> entries) (drop (Suc i) ts))"
  proof -
    have "sum_list (map f ts) = sum_list (map f (take i ts)) + f (ts ! i) + sum_list (map f (drop (Suc i) ts))" for f :: "tree \<Rightarrow> nat"
      by (subst id_take_nth_drop[OF i(1)]) (simp only: map_append list.map sum_list.append sum_list.Cons add.assoc)
    from this[of "length \<circ> entries"] show ?thesis by (simp add: t length_concat o_def)
  qed
  show ?case
  proof (cases "beside True (ts ! i) p")
    case (Some q)
    then show ?thesis using IH t by simp
  next
    case None
    show ?thesis
    proof (cases "i + 1 < length ts")
      case True
      then have "offset (ts ! (i + 1)) (edge True (length p) (ts ! (i + 1))) = 0"
        using offset_edge[of "h - 1" "ts ! (i + 1)"] Cons.prems(1) t i(4) by (auto simp: list_all_length)
      then show ?thesis using None True IH t by (simp add: take_Suc_conv_app_nth)
    next
      case False
      then have "Suc i = length ts" using i(1) by simp
      then show ?thesis using None IH t all by simp
    qed
  qed
qed

lemma offset_beside_left:
  "full h t \<Longrightarrow> valid_path t p \<Longrightarrow> length p = h \<Longrightarrow>
    (case beside False t p of Some q \<Rightarrow> offset t q + length (leaf_entries (sub t q)) = offset t p | None \<Rightarrow> offset t p = 0)"
proof (induction p arbitrary: t h)
  case Nil
  then show ?case by simp
next
  case (Cons i p)
  then obtain a seps ts where t: "t = TBranch a seps ts" by (cases t) auto
  have i: "i < length ts" "full (h - 1) (ts ! i)" "valid_path (ts ! i) p" "length p = h - 1" using Cons.prems t by (auto simp: list_all_length)
  note IH = Cons.IH[OF i(2-4)]
  show ?case
  proof (cases "beside False (ts ! i) p")
    case (Some q)
    then show ?thesis using IH t by simp
  next
    case None
    show ?thesis
    proof (cases "i > 0")
      case True
      then have l: "i - 1 < length ts" "Suc (i - 1) = i" using i(1) by auto
      have "offset (ts ! (i - 1)) (edge False (length p) (ts ! (i - 1))) +
          length (leaf_entries (sub (ts ! (i - 1)) (edge False (length p) (ts ! (i - 1))))) = length (entries (ts ! (i - 1)))"
        using offset_edge[of "h - 1" "ts ! (i - 1)"] Cons.prems(1) t i(4) l(1) by (auto simp: list_all_length)
      moreover have "take i ts = take (i - 1) ts @ [ts ! (i - 1)]" using l by (metis take_Suc_conv_app_nth)
      ultimately show ?thesis using None True IH t by simp
    next
      case False
      then show ?thesis using None IH t by simp
    qed
  qed
qed

lemma first_path_edge: "full h t \<Longrightarrow> first_path t = edge True h t"
proof (induction t arbitrary: h rule: first_path.induct)
  case (2 a seps ts)
  then show ?case by (cases ts; cases h) auto
qed simp

lemma last_path_edge: "full h t \<Longrightarrow> last_path t = edge False h t"
proof (induction t arbitrary: h rule: last_path.induct)
  case (2 a seps ts)
  then obtain h' where h: "h = Suc h'" by (cases h) auto
  have "ts \<noteq> []" "full h' (last ts)" using 2 h by (auto simp: list_all_iff)
  then show ?case using 2 h by (auto simp: Let_def last_conv_nth)
qed simp

section \<open>The leaf and the rank of a key\<close>

lemma bst_child:
  assumes b: "bst (TBranch a seps ts)" and len: "length ts = Suc (length seps)" and j: "j < length ts" and x: "x \<in> set (tree_keys (ts ! j))"
  shows "j < child_for k seps \<Longrightarrow> x < k" "child_for k seps < j \<Longrightarrow> k < x"
proof -
  have srt: "\<And>i j. i \<le> j \<Longrightarrow> j < length seps \<Longrightarrow> seps ! i \<le> seps ! j"
    using b sorted_wrt_nth_less[of "(<)" seps] by (metis bst.simps(2) le_less order_refl)
  have "\<forall>i<length seps. (\<forall>x\<in>set (tree_keys (ts ! i)). x < seps ! i) \<and> (\<forall>x\<in>set (tree_keys (ts ! Suc i)). seps ! i \<le> x)"
    using b by (simp add: list_all_iff)
  then have bounds: "j < length seps \<Longrightarrow> x < seps ! j" "\<And>i. j = Suc i \<Longrightarrow> seps ! i \<le> x"
    using x j len by auto
  let ?c = "child_for k seps"
  have below: "seps ! i \<le> k" if "i < ?c" for i
    using nth_mem[of i "takeWhile (\<lambda>x. x \<le> k) seps"] that takeWhile_nth[of i "\<lambda>x. x \<le> k" seps] set_takeWhileD
    by (fastforce simp: child_for_def)
  have above: "k < seps ! ?c" if "?c < length seps"
    using nth_length_takeWhile[of "\<lambda>x. x \<le> k" seps] that by (simp add: child_for_def)
  show "x < k" if c: "j < ?c"
  proof -
    have "j < length seps" using c child_for_le[of k seps] by simp
    then show ?thesis using bounds(1) below[OF c] by simp
  qed
  show "k < x" if c: "?c < j"
  proof -
    obtain i where i: "j = Suc i" using c by (cases j) auto
    have "?c < length seps" using c j len by simp
    then have "k < seps ! ?c" by (rule above)
    also have "\<dots> \<le> seps ! i" using srt[of ?c i] c i j len by simp
    also have "\<dots> \<le> x" using bounds(2)[OF i] .
    finally show ?thesis .
  qed
qed

text \<open>All entries before the leaf of the key are smaller, all behind it are greater.\<close>

lemma key_path_splits:
  "bst t \<Longrightarrow> full h t \<Longrightarrow> stored te txn t \<Longrightarrow> valid_path t (key_path k t) \<and> length (key_path k t) = h \<and>
    (\<exists>xs ys. entries t = xs @ leaf_entries (sub t (key_path k t)) @ ys \<and> length xs = offset t (key_path k t) \<and>
       (\<forall>e\<in>set xs. fst e < k) \<and> (\<forall>e\<in>set ys. k < fst e))"
proof (induction h arbitrary: t)
  case 0
  then obtain a es where "t = TLeaf a es" by (cases t) auto
  then show ?case by auto
next
  case (Suc h)
  then obtain a seps ts where t: "t = TBranch a seps ts" by (cases t) auto
  note b = branch_storedD[OF Suc.prems(3)[unfolded t]]
  let ?c = "child_for k seps"
  have c: "?c < length ts" using child_for_le[of k seps] b(6) by simp
  have "bst (ts ! ?c)" "full h (ts ! ?c)" using Suc.prems t c by (auto simp: list_all_length)
  note IH = Suc.IH[OF this b(10)[OF c]]
  let ?q = "key_path k (ts ! ?c)"
  obtain xs ys where e: "entries (ts ! ?c) = xs @ leaf_entries (sub (ts ! ?c) ?q) @ ys" "length xs = offset (ts ! ?c) ?q"
    "\<forall>e\<in>set xs. fst e < k" "\<forall>e\<in>set ys. k < fst e" using IH by blast
  let ?xs = "concat (take ?c (map entries ts)) @ xs" and ?ys = "ys @ concat (drop (Suc ?c) (map entries ts))"
  have path: "key_path k t = ?c # ?q" using t c by (simp add: Let_def)
  have eq: "entries t = ?xs @ leaf_entries (sub t (key_path k t)) @ ?ys"
    using concat_split[of ?c "map entries ts"] c e(1) unfolding path by (simp add: t)
  have len: "length ?xs = offset t (key_path k t)"
    using e(2) unfolding path by (simp add: t length_concat take_map o_def)
  have less: "\<forall>e\<in>set ?xs. fst e < k"
  proof
    fix e assume "e \<in> set ?xs"
    then consider "e \<in> set xs" | j where "j < ?c" "e \<in> set (entries (ts ! j))"
      using c by (auto simp: take_map in_set_conv_nth[of _ "take ?c ts"])
    then show "fst e < k"
      using e(3) bst_child(1)[OF Suc.prems(1)[unfolded t] b(6), of _ "fst e" k] c by cases (auto)
  qed
  have more: "\<forall>e\<in>set ?ys. k < fst e"
  proof
    fix e assume "e \<in> set ?ys"
    then have "e \<in> set ys \<or> (\<exists>i. i < length ts - Suc ?c \<and> e \<in> set (entries (ts ! (Suc ?c + i))))"
      using c by (auto simp: drop_map in_set_conv_nth[of _ "drop (Suc ?c) ts"])
    then consider "e \<in> set ys" | i where "i < length ts - Suc ?c" "e \<in> set (entries (ts ! (Suc ?c + i)))" by blast
    then show "k < fst e"
    proof cases
      case (2 i)
      then show ?thesis using bst_child(2)[OF Suc.prems(1)[unfolded t] b(6), of "Suc ?c + i" "fst e" k] by simp
    qed (use e(4) in simp)
  qed
  have "valid_path t (key_path k t)" "length (key_path k t) = Suc h" using IH c unfolding path by (auto simp: t)
  then show ?case using eq len less more by blast
qed

end
