(* ===== verification/Lookup.thy ===== *)
theory Lookup
  imports Cursor_Ops Btree_Order
begin

text \<open>
  Looking a key up: the entry a search arrives at, the data read there, and \<open>mdb_get\<close> as the lookup in
  the map of all entries of the tree.
\<close>

section \<open>The keys of a tree\<close>

lemma sorted_split:
  assumes "sorted_wrt (<) (map fst es)" "\<forall>e\<in>set xs. fst e < k" "\<forall>e\<in>set ys. k < fst e"
  shows "place_in k (xs @ es @ ys) = length xs + place_in k es"
    and "map_of (xs @ es @ ys) k = map_of es k"
    and "k \<in> fst ` set (xs @ es @ ys) \<longleftrightarrow> k \<in> fst ` set es"
proof -
  have ys: "takeWhile (\<lambda>e. fst e < k) ys = []" using assms(3) by (cases ys) auto
  have "takeWhile (\<lambda>e. fst e < k) (es @ ys) = takeWhile (\<lambda>e. fst e < k) es"
    using ys by (induction es) auto
  then show "place_in k (xs @ es @ ys) = length xs + place_in k es"
    using assms(2) by (simp add: place_in_def takeWhile_append2)
  have x: "map_of xs k = None" using assms(2) by (auto simp: map_of_eq_None_iff)
  have y: "map_of ys k = None" using assms(3) by (auto simp: map_of_eq_None_iff)
  show "map_of (xs @ es @ ys) k = map_of es k" using x y by (simp add: map_add_def split: option.splits)
  show "k \<in> fst ` set (xs @ es @ ys) \<longleftrightarrow> k \<in> fst ` set es" using assms(2,3) by auto
qed

text \<open>In a leaf, the entry at the place of a key it has is the entry of the key.\<close>

lemma place_in_le: "place_in k es \<le> length es"
  by (simp add: place_in_def length_takeWhile_le)

lemma place_in_exact:
  assumes "sorted_wrt (<) (map fst es)" "k \<in> fst ` set es"
  shows "place_in k es < length es \<and> fst (es ! place_in k es) = k \<and> map_of es k = Some (snd (es ! place_in k es))"
  using assms
proof (induction es)
  case Nil
  then show ?case by simp
next
  case (Cons e es)
  consider "fst e = k" | "fst e \<noteq> k" "k \<in> fst ` set es" using Cons.prems(2) by auto
  then show ?case
  proof cases
    case 1
    then show ?thesis by (simp add: place_in_def)
  next
    case 2
    then have "fst e < k" using Cons.prems(1) by auto
    then show ?thesis using Cons 2 by (auto simp: place_in_def)
  qed
qed

text \<open>The leaf the search for a key ends in.\<close>

lemma key_leaf:
  assumes t: "tree_at te txn root h t"
  obtains a es where "sub t (key_path k t) = TLeaf a es" "leaf_stored te txn a es" "sorted_wrt (<) (map fst es)"
    "valid_path t (key_path k t)" "length (key_path k t) = h"
    "place_in k (entries t) = offset t (key_path k t) + place_in k es" "map_of (entries t) k = map_of es k"
    "k \<in> fst ` set (entries t) \<longleftrightarrow> k \<in> fst ` set es"
proof -
  note d = tree_atD[OF t]
  have f: "full h t" using full_stored[OF d(7,9)] .
  let ?p = "key_path k t"
  obtain xs ys where s: "valid_path t ?p" "length ?p = h" "entries t = xs @ leaf_entries (sub t ?p) @ ys" "length xs = offset t ?p"
    "\<forall>e\<in>set xs. fst e < k" "\<forall>e\<in>set ys. k < fst e"
    using key_path_splits[OF d(8) f d(7), of k] by blast
  obtain a es where l: "sub t ?p = TLeaf a es" using sub_leaf[OF f s(1,2)] .
  have "stored te txn (TLeaf a es)" "bst (TLeaf a es)" using sub_props[OF s(1) d(7-9)] l by simp_all
  then have "leaf_stored te txn a es" "sorted_wrt (<) (map fst es)" by simp_all
  then show ?thesis using that[OF l] s l sorted_split[of es xs k ys] by simp
qed

section \<open>Reading at an entry\<close>

lemma node_read_holds:
  assumes "node_holds te (mc_txn mc) a leaf d"
  shows "mdb_node_read te a leaf mc = Some (mc, Ok d)"
proof (cases "F_ISSET (mn_flags (mp_mem (ce_deref (te_ce te) a)) leaf) F_BIGDATA")
  case False
  then show ?thesis using assms by (simp add: node_holds_def mdb_node_read_def Let_def)
next
  case True
  let ?pgno = "le_nat (mem_read (mp_mem (ce_deref (te_ce te) a)) (NODEDATA_at (ce_deref (te_ce te) a) leaf) 8)"
  obtain omp level where g: "snd (mdb_page_get (mc_txn mc) (te_own_map te) ?pgno) = Ok (omp, level)"
    "mem_read (mp_mem (ce_deref (te_ce te) omp)) PAGEHDRSZ (NODEDSZ (ce_deref (te_ce te) a) leaf) = d"
    using assms True by (auto simp: node_holds_def Let_def split: res.splits)
  then have "gets te (mc_txn mc) ?pgno omp" by (simp add: gets_def)
  then show ?thesis using True g(2) by (simp add: mdb_node_read_def Let_def cbind_page_get)
qed

text \<open>A cursor whose stack is the path of a leaf.\<close>

lemma read_data_leaf:
  assumes s: "stack_at mc t p" and l: "sub t p = TLeaf a es" "leaf_stored te (mc_txn mc) a es" and i: "top_ki mc < length es"
  shows "read_data te wd mc = Some (mc, Ok (if wd then Some (snd (es ! top_ki mc)) else None))"
proof -
  have top: "top_addr mc = a" using stack_atD(4)[OF s] l(1) by simp
  note h = leaf_storedD(6)[OF l(2) i]
  have "\<not> F_ISSET (leaf_flags te mc) F_DUPDATA" using h by (simp add: leaf_flags_def top_page_def top node_holds_def Let_def)
  then show ?thesis
    using node_read_holds[OF h] by (simp add: read_data_def top top_page_def cbind_Some[where m = "mdb_node_read te a _"])
qed

lemma leaf_top:
  assumes "stack_at mc t p" "sub t p = TLeaf a es" "leaf_stored te txn a es"
  shows "top_addr mc = a" "IS_LEAF (top_page te mc)" "\<not> IS_LEAF2 (top_page te mc)" "NUMKEYS (top_page te mc) = length es" "es \<noteq> []"
  using stack_atD(4)[OF assms(1)] assms(2) leaf_storedD[OF assms(3)] by (simp_all add: top_page_def)

lemma node_search_leaf:
  assumes s: "stack_at mc t p" and l: "sub t p = TLeaf a es" "leaf_stored te (mc_txn mc) a es" "sorted_wrt (<) (map fst es)"
    and cmp: "te_cmp te = Cmp_memn" and k: "length (snd key) < 2 ^ 32"
  shows "\<exists>rd. cursor_node_search te key mc = Some (set_ki (place_in (snd key) es) (mc\<lparr>mc_reader := rd\<rparr>),
    Ok (snd key \<in> fst ` set es, place_in (snd key) es < length es))"
  using leaf_search[OF l(2) cmp l(3) k, of "mc_reader mc"] leaf_top(1)[OF s l(1,2)] by (auto simp: cursor_node_search_def)

section \<open>mdb_get\<close>

lemma set_ki_reader:
  assumes "stack_at mc t p"
  shows "stack_at (set_ki i (mc\<lparr>mc_reader := rd\<rparr>)) t p" "top_ki (set_ki i (mc\<lparr>mc_reader := rd\<rparr>)) = i"
    "mc_txn (set_ki i (mc\<lparr>mc_reader := rd\<rparr>)) = mc_txn mc"
  by (intro stack_at_set_ki stack_at_cong[OF assms]; simp) (simp_all add: set_ki_def top_ki_def)

text \<open>An exact search from a new cursor fails, or ends at the entry of the key.\<close>

lemma set_fresh_search:
  assumes t: "tree_at (db_tree db) (mc_txn mc) (mc_root mc) h t" and stale: "\<not> mc_stale mc" and init: "\<not> mc_init mc"
    and k: "snd key \<noteq> []" "length (snd key) < 2 ^ 32" "is_get_both op \<Longrightarrow> length (snd key) \<le> MDB_KEYBUF_MAX"
  shows "(\<exists>mc'. mdb_cursor_set db key d op True mc = Some (mc', Err MDB_NOTFOUND)) \<and> snd key \<notin> fst ` set (entries t) \<and>
      map_of (entries t) (snd key) = None \<or>
    (\<exists>mc2 p a es. mdb_cursor_set db key d op True mc = set1_finish (db_tree db) d op mc2 \<and> stack_at mc2 t p \<and> sub t p = TLeaf a es \<and>
      leaf_stored (db_tree db) (mc_txn mc2) a es \<and> top_ki mc2 < length es \<and> snd key \<in> fst ` set (entries t) \<and>
      map_of (entries t) (snd key) = Some (snd (es ! top_ki mc2)))"
proof -
  let ?te = "db_tree db" and ?p = "key_path (snd key) t"
  define mc0 where "mc0 = mc\<lparr>mc_pg := (mc_pg mc)(0 := 0)\<rparr>"
  have t0: "tree_at ?te (mc_txn mc0) (mc_root mc0) h t" "\<not> mc_stale mc0" "root_ok ?te t mc0" "above_ok (PS_KEY key) t [] mc0"
    using t stale k by (simp_all add: mc0_def root_ok_def above_ok_def)
  obtain mc1 where search: "mdb_page_search db (PS_KEY key) mc0 = Some (mc1, Ok ())" and "arrived mc0 mc1 t (what_path (PS_KEY key) t)"
    using page_search_arrives[OF t0] by blast
  then have arr: "stack_at mc1 t ?p" "mc_txn mc1 = mc_txn mc" by (simp_all add: arrived_def mc0_def)
  obtain a es where l: "sub t ?p = TLeaf a es" "leaf_stored ?te (mc_txn mc) a es" "sorted_wrt (<) (map fst es)"
    "map_of (entries t) (snd key) = map_of es (snd key)" "snd key \<in> fst ` set (entries t) \<longleftrightarrow> snd key \<in> fst ` set es"
    using key_leaf[OF t, of "snd key"] by metis
  have l1: "leaf_stored ?te (mc_txn mc1) a es" using l(2) arr(2) by simp
  note top = leaf_top[OF arr(1) l(1) l1]
  obtain rd where ns: "cursor_node_search ?te key mc1 = Some (set_ki (place_in (snd key) es) (mc1\<lparr>mc_reader := rd\<rparr>),
      Ok (snd key \<in> fst ` set es, place_in (snd key) es < length es))"
    using node_search_leaf[OF arr(1) l(1) l1 l(3) tree_atD(1)[OF t] k(2)] by blast
  define mc2 where "mc2 = set_ki (place_in (snd key) es) (mc1\<lparr>mc_reader := rd\<rparr>)"
  note mc2 = set_ki_reader[OF arr(1), of "place_in (snd key) es" rd, folded mc2_def]
  have same: "mc\<lparr>mc_init := False\<rparr> = mc" using init by (cases mc) simp
  have run: "mdb_cursor_set db key d op True mc = cthen (set2_search ?te key True) (set1_finish ?te d op) mc1"
    using init k(1,3) top(2)
    by (auto simp: mdb_cursor_set_def Let_def same mc0_def[symmetric] cthen_Some[where m = "mdb_page_search db (PS_KEY key)", OF search])
  show ?thesis
  proof (cases "snd key \<in> fst ` set es")
    case False
    then have "map_of es (snd key) = None" by (simp add: map_of_eq_None_iff)
    then show ?thesis unfolding run l(4,5)
      using False by (simp add: cthen_def cbind_def set2_search_def ns)
  next
    case True
    note ex = place_in_exact[OF l(3) True]
    have s2: "set2_search ?te key True mc1 = Some (mc2, Ok ())"
      using True ex by (simp add: set2_search_def cbind_Some[where m = "cursor_node_search ?te key", OF ns] mc2_def)
    have "leaf_stored ?te (mc_txn mc2) a es" using mc2(3) l1 by simp
    then show ?thesis unfolding run l(4,5) cthen_Some[where m = "set2_search ?te key True", OF s2]
      using mc2 ex True l(1) by (intro disjI2 exI[of _ mc2] exI[of _ ?p] exI[of _ a] exI[of _ es]) simp
  qed
qed

lemma set1_data:
  assumes "stack_at mc2 t p" "sub t p = TLeaf a es" "leaf_stored te (mc_txn mc2) a es" "top_ki mc2 < length es"
  defines "mc3 \<equiv> mc2\<lparr>mc_init := True, mc_eof := False\<rparr>"
  shows "read_data te True mc3 = Some (mc3, Ok (Some (snd (es ! top_ki mc2))))" "\<not> IS_LEAF2 (top_page te mc3)"
proof -
  have mc3: "stack_at mc3 t p" "top_ki mc3 = top_ki mc2" "leaf_stored te (mc_txn mc3) a es"
    using assms(1,3) by (auto simp: mc3_def top_ki_def intro: stack_at_cong)
  show "read_data te True mc3 = Some (mc3, Ok (Some (snd (es ! top_ki mc2))))"
    using read_data_leaf[OF mc3(1) assms(2) mc3(3)] mc3(2) assms(4) by simp
  show "\<not> IS_LEAF2 (top_page te mc3)" by (rule leaf_top(3)[OF mc3(1) assms(2) mc3(3)])
qed

lemma set_fresh:
  assumes t: "tree_at (db_tree db) (mc_txn mc) (mc_root mc) h t" and stale: "\<not> mc_stale mc" and init: "\<not> mc_init mc"
    and k: "snd key \<noteq> []" "length (snd key) < 2 ^ 32"
  shows "\<exists>mc'. mdb_cursor_set db key (Some d) MDB_SET True mc =
    Some (mc', case map_of (entries t) (snd key) of Some v \<Rightarrow> Ok (None, Some v) | None \<Rightarrow> Err MDB_NOTFOUND)"
proof -
  have "set1_finish (db_tree db) (Some d) MDB_SET mc2 =
      Some (mc2\<lparr>mc_init := True, mc_eof := False\<rparr>, Ok (None, Some (snd (es ! top_ki mc2))))"
    if "stack_at mc2 t p" "sub t p = TLeaf a es" "leaf_stored (db_tree db) (mc_txn mc2) a es" "top_ki mc2 < length es" for mc2 p a es
    using set1_data[OF that] by (simp add: set1_finish_def set_data_def is_get_both_def Let_def cbind_def cget_def cret_def)
  then show ?thesis
    using set_fresh_search[OF t stale init k, of MDB_SET "Some d"] by (auto simp: is_get_both_def)
qed

lemma both_fresh:
  assumes t: "tree_at (db_tree db) (mc_txn mc) (mc_root mc) h t" and stale: "\<not> mc_stale mc" and init: "\<not> mc_init mc"
    and k: "snd key \<noteq> []" "length (snd key) \<le> MDB_KEYBUF_MAX" and op: "is_get_both op" and d: "te_dcmp (db_tree db) = None"
  shows "\<exists>mc'. mdb_cursor_set db key (Some d) op True mc =
    Some (mc', if snd key \<in> fst ` set (entries t) then Abort else Err MDB_NOTFOUND)"
proof -
  have "set1_finish (db_tree db) (Some d) op mc2 = Some (mc2\<lparr>mc_init := True, mc_eof := False\<rparr>, Abort)"
    if "stack_at mc2 t p" "sub t p = TLeaf a es" "leaf_stored (db_tree db) (mc_txn mc2) a es" "top_ki mc2 < length es" for mc2 p a es
    using set1_data[OF that] op d
    by (simp add: set1_finish_def set_data_def Let_def cbind_def cabort_def)
  then show ?thesis
    using set_fresh_search[OF t stale init k(1), of op "Some d"] k(2) by (auto simp: MDB_KEYBUF_MAX_def)
qed

section \<open>Properties\<close>

text \<open>C28. Lookup end to end: when the root page of a database carries a tree (every leaf at the same depth,
  at most \<open>CURSOR_STACK\<close> levels, keys in order, separators between the keys, pages found through the
  transaction), \<open>mdb_get\<close> returns the data of the key in the map of all entries, and
  \<open>MDB_NOTFOUND\<close> exactly for a key without an entry, with or without prefix compression.\<close>

theorem mdb_get_correct:
  assumes "tree_at (db_tree db) txn root h t" "key \<noteq> []" "length key < 2 ^ 32"
  shows "mdb_get db txn root False (addr, key) d =
    Some (case map_of (entries t) key of Some v \<Rightarrow> Ok v | None \<Rightarrow> Err MDB_NOTFOUND)"
proof -
  let ?mc = "cursor_init False txn root False"
  have t: "tree_at (db_tree db) (mc_txn ?mc) (mc_root ?mc) h t" "\<not> mc_stale ?mc" "\<not> mc_init ?mc"
    using assms(1) by (simp_all add: cursor_init_def)
  obtain mc' where "mdb_cursor_set db (addr, key) (Some d) MDB_SET True ?mc =
      Some (mc', case map_of (entries t) key of Some v \<Rightarrow> Ok (None, Some v) | None \<Rightarrow> Err MDB_NOTFOUND)"
    using set_fresh[OF t, of "(addr, key)" d] assms(2,3) by auto
  then show ?thesis using tree_atD(2)[OF assms(1)] t(2)
    by (auto simp: mdb_get_def mdb_cursor_init_def init_stale_def split: option.splits)
qed

text \<open>
  A database of two levels: the root page 2 at address 8192 with the separator m, and the leaf pages 3
  and 4 with the keys b, d and m, x. The data of a node are one byte, the complement of its key's.
\<close>

definition kv_node :: "nat \<Rightarrow> bytes \<Rightarrow> bytes \<Rightarrow> mem \<Rightarrow> mem" where
  "kv_node at k d m = mem_write m at ([word_of_nat (length d), 0, 0, 0, 0, 0, word_of_nat (length k), 0] @ k @ (if odd (length k) then [0] else []) @ d)"

definition kv_leaf :: "nat \<Rightarrow> (bytes \<times> bytes) list \<Rightarrow> MDB_page" where
  "kv_leaf pgno es = \<lparr>mp_pgno = pgno, mp_pad = 0, mp_flags = P_LEAF, mp_lower = 16 + 2 * length es, mp_upper = 64,
     mp_ptrs = (\<lambda>i. 64 + 32 * i),
     mp_mem = foldr (\<lambda>(i, k, d). kv_node (64 + 32 * i) k d) (zip [0..<length es] es) (\<lambda>_. 0)\<rparr>"

definition kv_branch :: "nat \<Rightarrow> (bytes \<times> nat) list \<Rightarrow> MDB_page" where
  "kv_branch pgno cs = \<lparr>mp_pgno = pgno, mp_pad = 0, mp_flags = P_BRANCH, mp_lower = 16 + 2 * length cs, mp_upper = 64,
     mp_ptrs = (\<lambda>i. 64 + 32 * i),
     mp_mem = foldr (\<lambda>(i, k, pg) m. mem_write m (64 + 32 * i) ([word_of_nat pg, 0, 0, 0, 0, 0, word_of_nat (length k), 0] @ k))
       (zip [0..<length cs] cs) (\<lambda>_. 0)\<rparr>"

definition kv_tree :: tree where
  "kv_tree = TBranch 8192 [[109]] [TLeaf 12288 [([98], [157]), ([100], [155])], TLeaf 16384 [([109], [146]), ([120], [135])]]"

definition kv_te :: tree_env where
  "kv_te = \<lparr>te_ce = (abc_env False)\<lparr>ce_prefix := False, ce_deref := (\<lambda>a.
       if a = 8192 then kv_branch 2 [([], 3), ([109], 4)]
       else if a = 12288 then kv_leaf 3 [([98], [157]), ([100], [155])]
       else kv_leaf 4 [([109], [146]), ([120], [135])])\<rparr>,
     te_cmp = Cmp_memn, te_dcmp = None, te_dbi = 1, te_own_map = True\<rparr>"

definition kv_txn :: MDB_txn where
  "kv_txn = \<lparr>mt_levels = [], mt_next_pgno = 5, mt_finished = False, mt_error = False, mt_has_child = False, mt_last_err = None,
     me_interrupt = False, me_map = 0, me_page_size = 4096\<rparr>"

definition kv_db :: db_env where
  "kv_db = \<lparr>db_tree = kv_te, db_name = (0, []), db_persistent = 0, db_changed = False, db_main = kv_te, db_main_root = 2\<rparr>"

lemma kv_tree_at: "tree_at kv_te kv_txn 2 1 kv_tree"
  by code_simp

theorem mdb_get_correct_witness:
  "mdb_get kv_db kv_txn 2 False (1000, [120]) [] =
    Some (case map_of (entries kv_tree) [120] of Some v \<Rightarrow> Ok v | None \<Rightarrow> Err MDB_NOTFOUND)"
  by (rule mdb_get_correct[where h = 1]) (use kv_tree_at in \<open>simp_all add: kv_db_def\<close>)

text \<open>C31. GET_BOTH and GET_BOTH_RANGE are documented for databases with \<open>MDB_DUPSORT\<close> only, and \<open>mdb_cursor_get\<close> means to refuse
  them elsewhere with \<open>MDB_INCOMPATIBLE\<close>, by testing \<open>mc_xcursor\<close>. A cursor of \<open>mdb_cursor_open\<close> always has
  one, so the operation goes on: on every database without sorted duplicates, whose \<open>md_dcmp\<close> is NULL, a new cursor answers
  \<open>MDB_NOTFOUND\<close> for a key that is not there and calls NULL for every key that is.\<close>

theorem get_both_calls_null:
  assumes "tree_at (db_tree db) txn root h t" "te_dcmp (db_tree db) = None" "key \<noteq> []" "length key \<le> MDB_KEYBUF_MAX" "is_get_both op"
  shows "map_option snd (mdb_cursor_get db (Some (addr, key)) (Some d) op (cursor_init True txn root False)) =
    Some (if key \<in> fst ` set (entries t) then Abort else Err MDB_NOTFOUND)"
proof -
  let ?mc = "cursor_init True txn root False"
  define mc where "mc = ?mc\<lparr>mc_reader := mdb_cursor_rank_invalidate (mc_reader ?mc)\<rparr>"
  have t: "tree_at (db_tree db) (mc_txn mc) (mc_root mc) h t" "\<not> mc_stale mc" "\<not> mc_init mc"
    using assms(1) by (simp_all add: mc_def cursor_init_def)
  obtain mc' where set: "mdb_cursor_set db (addr, key) (Some d) op True mc =
      Some (mc', if key \<in> fst ` set (entries t) then Abort else Err MDB_NOTFOUND)"
    using both_fresh[OF t, of "(addr, key)" op d] assms(2-5) by auto
  have u: "txn_usable ?mc = Some (?mc, Ok ())"
    by (rule txn_usable_ok) (use tree_atD(2,3)[OF assms(1)] in \<open>simp add: txn_ok_def cursor_init_def\<close>)
  have op: "op = MDB_GET_BOTH \<or> op = MDB_GET_BOTH_RANGE" using assms(5) by (simp add: is_get_both_def)
  then have "mdb_cursor_get db (Some (addr, key)) (Some d) op ?mc = clear_del (mdb_cursor_set db (addr, key) (Some d) op True) mc"
    by (elim disjE) (simp_all add: mdb_cursor_get_def Let_def cthen_Some[where m = txn_usable, OF u] mc_def)
  then show ?thesis by (simp add: clear_del_def set)
qed

theorem get_both_calls_null_witness:
  "map_option snd (mdb_cursor_get kv_db (Some (1000, [120])) (Some [135]) MDB_GET_BOTH (cursor_init True kv_txn 2 False)) = Some Abort \<and>
   map_option snd (mdb_cursor_get kv_db (Some (1000, [121])) (Some [135]) MDB_GET_BOTH_RANGE (cursor_init True kv_txn 2 False)) =
     Some (Err MDB_NOTFOUND)"
proof -
  have c: "te_dcmp (db_tree kv_db) = None" "tree_at (db_tree kv_db) kv_txn 2 1 kv_tree"
    using kv_tree_at by (simp_all add: kv_db_def kv_te_def)
  show ?thesis
    using get_both_calls_null[OF c(2,1), of "[120]" MDB_GET_BOTH 1000 "[135]"]
      get_both_calls_null[OF c(2,1), of "[121]" MDB_GET_BOTH_RANGE 1000 "[135]"]
    by (simp add: MDB_KEYBUF_MAX_def is_get_both_def kv_tree_def)
qed

end
