(* ===== verification/Cursor_Walk.thy ===== *)
theory Cursor_Walk
  imports Lookup
begin

text \<open>
  A cursor as an iterator over the sorted list of the entries of its tree: the moves to siblings, FIRST,
  LAST, NEXT, PREV and the SET operations, for databases without prefix compression, where what the
  cursor remembers of earlier keys plays no role.
\<close>

section \<open>Siblings\<close>

lemma pop_stack:
  assumes "stack_at mc t (p @ [i])"
  shows "stack_at (mdb_cursor_pop mc) t p" "top_ki (mdb_cursor_pop mc) = i" "keeps mc (mdb_cursor_pop mc)"
    "mdb_cursor_pop mc = mc\<lparr>mc_snum := Suc (length p), mc_top := length p\<rparr>"
proof -
  note s = stack_atD[OF assms]
  show eq: "mdb_cursor_pop mc = mc\<lparr>mc_snum := Suc (length p), mc_top := length p\<rparr>"
    using s by (simp add: mdb_cursor_pop_def)
  have pg: "mc_pg mc j = tree_addr (sub t (take j p))" if "j \<le> length p" for j
    using assms that by (simp add: stack_at_def)
  have ki: "mc_ki mc j = p ! j" if "j < length p" for j
    using assms that by (simp add: stack_at_def nth_append)
  show "stack_at (mdb_cursor_pop mc) t p"
    using s(1) pg ki unfolding eq stack_at_def by (simp add: valid_append)
  show "top_ki (mdb_cursor_pop mc) = i" using assms unfolding eq by (simp add: top_ki_def stack_at_def)
  show "keeps mc (mdb_cursor_pop mc)" unfolding eq by (simp add: keeps_def)
qed

text \<open>Entering the child at the index of the top page.\<close>

lemma sibling_enter_spec:
  assumes s: "stack_at mc t p" and u: "sub t p = TBranch a seps ts" and st: "stored te (mc_txn mc) (TBranch a seps ts)"
    and i: "top_ki mc = i" "i < length ts" and d: "Suc (length p) < CURSOR_STACK"
  shows "\<exists>mc'. sibling_enter te right mc = Some (mc', Ok ()) \<and> stack_at mc' t (p @ [i]) \<and> keeps mc mc' \<and>
    top_ki mc' = (if right then 0 else u16_sub (NUMKEYS (ce_deref (te_ce te) (tree_addr (ts ! i)))) 1)"
proof -
  note sd = stack_atD[OF s] and b = branch_storedD[OF st]
  have mp: "top_page te mc = ce_deref (te_ce te) a" using sd(4) u by (simp add: top_page_def)
  have v: "valid_path t (p @ [i])" using sd(1) u i by (simp add: valid_append)
  have subi: "sub t (p @ [i]) = ts ! i" using u by (simp add: sub_append)
  let ?mc1 = "mc\<lparr>mc_top := Suc (length p), mc_snum := Suc (Suc (length p)),
      mc_pg := (mc_pg mc)(Suc (length p) := tree_addr (ts ! i)), mc_ki := (mc_ki mc)(Suc (length p) := 0)\<rparr>"
  have ki: "(mc_ki mc)(length p := i) = mc_ki mc" using i(1) sd(3) by (simp add: top_ki_def fun_upd_idem)
  have s1: "stack_at ?mc1 t (p @ [i])" using stack_at_push[OF s v, of 0] unfolding subi ki .
  have push: "mdb_cursor_push (tree_addr (ts ! i)) mc = Some (?mc1, Ok ())" using sd(2,3) d by (simp add: mdb_cursor_push_def)
  have get: "cursor_page_get te (NODEPGNO (ce_deref (te_ce te) a) (NODEPTR (ce_deref (te_ce te) a) i)) mc = Some (mc, Ok (tree_addr (ts ! i)))"
    by (rule cursor_page_get_gets[OF b(9)[OF i(2)]])
  let ?mc2 = "if right then ?mc1 else set_ki (u16_sub (NUMKEYS (ce_deref (te_ce te) (tree_addr (ts ! i)))) 1) ?mc1"
  have "sibling_enter te right mc = Some (?mc2, Ok ())"
    using b(1) by (simp add: sibling_enter_def mp i(1) get push)
  moreover have "stack_at ?mc2 t (p @ [i])" using s1 stack_at_set_ki[OF s1] by simp
  moreover have "keeps mc ?mc2" by (simp add: keeps_def set_ki_def)
  moreover have "top_ki ?mc2 = (if right then 0 else u16_sub (NUMKEYS (ce_deref (te_ce te) (tree_addr (ts ! i)))) 1)"
    by (simp add: top_ki_def set_ki_def)
  ultimately show ?thesis by blast
qed

lemma numkeys_width:
  assumes "stored te txn u" "full h u"
  shows "NUMKEYS (ce_deref (te_ce te) (tree_addr u)) = (case u of TLeaf a es \<Rightarrow> length es | TBranch a seps ts \<Rightarrow> length ts)"
  using assms branch_storedD(5)[of te txn] leaf_storedD(5)[of te txn] by (cases u) auto

lemma numkeys_less: "NUMKEYS mp < 65536"
proof -
  have "u16_sub (mp_lower mp) PAGEHDRSZ < 65536" by (simp add: u16_sub_def nat_less_iff)
  then show ?thesis by (simp add: NUMKEYS_def)
qed

lemma sibling_spec:
  assumes d: "h < CURSOR_STACK" and f: "full h t" and st: "stored te txn t" "bst t" "balanced h t"
  shows "stack_at mc t p \<Longrightarrow> mc_txn mc = txn \<Longrightarrow>
    (case beside right t p of
       None \<Rightarrow> mdb_cursor_sibling te right mc = Some (mc, Err MDB_NOTFOUND)
     | Some q \<Rightarrow> \<exists>mc'. mdb_cursor_sibling te right mc = Some (mc', Ok ()) \<and> stack_at mc' t q \<and> keeps mc mc' \<and>
         top_ki mc' = (if right then 0 else u16_sub (NUMKEYS (ce_deref (te_ce te) (tree_addr (sub t q)))) 1))"
proof (induction p arbitrary: mc rule: rev_induct)
  case Nil
  then show ?case using stack_atD(2)[OF Nil(1)] by (subst mdb_cursor_sibling.simps) (simp add: beside_Nil)
next
  case (snoc i p)
  note sd = stack_atD[OF snoc.prems(1)]
  have v: "valid_path t p" "valid_path (sub t p) [i]" using sd(1) by (simp_all add: valid_append)
  then obtain a seps ts where u: "sub t p = TBranch a seps ts" "i < length ts" by (cases "sub t p") auto
  note sp = sub_props[OF v(1) st]
  have sts: "stored te txn (TBranch a seps ts)" using sp u by simp
  have len: "Suc (length p) \<le> h" using full_sub[OF f sd(1)] by simp
  define mc1 where "mc1 = mdb_cursor_pop mc"
  note pop = pop_stack[OF snoc.prems(1), folded mc1_def]
  have txn1: "mc_txn mc1 = txn" using pop(3) snoc.prems(2) by (simp add: keeps_def)
  have top: "top_page te mc1 = ce_deref (te_ce te) a" using stack_atD(4)[OF pop(1)] u by (simp add: top_page_def)
  have n: "NUMKEYS (top_page te mc1) = length ts" using branch_storedD(5)[OF sts] top by simp
  define stop where "stop = (if right then i + 1 \<ge> length ts else i = 0)"
  have run: "mdb_cursor_sibling te right mc =
      (if stop then case mdb_cursor_sibling te right mc1 of
            Some (mc, Err e) \<Rightarrow> Some (mc\<lparr>mc_top := mc_top mc + 1, mc_snum := mc_snum mc + 1\<rparr>, Err e)
          | Some (mc, Ok _) \<Rightarrow> sibling_enter te right mc
          | r \<Rightarrow> r
       else sibling_enter te right (set_ki (if right then i + 1 else i - 1) mc1))"
    using sd(2) unfolding stop_def
    by (subst mdb_cursor_sibling.simps) (simp add: mc1_def[symmetric] n pop(2) Let_def)
  have bs: "beside right t (p @ [i]) =
    (if stop then map_option (\<lambda>q. q @ [if right then 0 else width (sub t q) - 1]) (beside right t p)
     else Some (p @ [if right then i + 1 else i - 1]))"
    using beside_snoc[OF f sd(1), of right] u by (simp add: stop_def)
  show ?case
  proof (cases stop)
    case False
    let ?j = "if right then i + 1 else i - 1"
    let ?mc2 = "set_ki ?j mc1"
    have j: "?j < length ts" using False u(2) by (auto simp: stop_def split: if_splits)
    have "stored te (mc_txn ?mc2) (TBranch a seps ts)" "top_ki ?mc2 = ?j" using sts txn1 by (simp_all add: set_ki_def top_ki_def)
    then obtain mc' where e: "sibling_enter te right ?mc2 = Some (mc', Ok ())" "stack_at mc' t (p @ [?j])" "keeps ?mc2 mc'"
       "top_ki mc' = (if right then 0 else u16_sub (NUMKEYS (ce_deref (te_ce te) (tree_addr (ts ! ?j)))) 1)"
      using sibling_enter_spec[OF stack_at_set_ki[OF pop(1)] u(1) _ _ j, where te = te and right = right] len d by fastforce
    have "keeps mc ?mc2" using pop(3) by simp
    then have "keeps mc mc'" using e(3) by (rule keeps_trans)
    moreover have "sub t (p @ [?j]) = ts ! ?j" using u by (simp add: sub_append)
    ultimately show ?thesis unfolding bs run using False e by auto
  next
    case True
    show ?thesis
    proof (cases "beside right t p")
      case None
      then have "mdb_cursor_sibling te right mc1 = Some (mc1, Err MDB_NOTFOUND)" using snoc.IH[OF pop(1) txn1] by simp
      moreover have "mc1\<lparr>mc_top := mc_top mc1 + 1, mc_snum := mc_snum mc1 + 1\<rparr> = mc"
        using sd(2,3) by (simp add: pop(4))
      ultimately show ?thesis unfolding bs run using True None by simp
    next
      case (Some q)
      then obtain mc2 where mc2: "mdb_cursor_sibling te right mc1 = Some (mc2, Ok ())" "stack_at mc2 t q" "keeps mc1 mc2"
         "top_ki mc2 = (if right then 0 else u16_sub (NUMKEYS (ce_deref (te_ce te) (tree_addr (sub t q)))) 1)"
        using snoc.IH[OF pop(1) txn1] by auto
      have q: "length q = length p" "valid_path t q" using beside_length[OF Some f v(1)] by auto
      note spq = sub_props[OF q(2) st]
      have "full (h - length q) (sub t q)" "h - length q > 0" using full_sub[OF f q(2)] len q(1) by auto
      then obtain b seps' ts' where w: "sub t q = TBranch b seps' ts'" "ts' \<noteq> []" by (cases "sub t q") auto
      have stq: "stored te (mc_txn mc2) (TBranch b seps' ts')" using spq w mc2(3) txn1 by (simp add: keeps_def)
      let ?j = "if right then 0 else length ts' - 1"
      have "NUMKEYS (ce_deref (te_ce te) b) = length ts'" using branch_storedD(5)[OF stq] .
      then have ki: "top_ki mc2 = ?j" using mc2(4) w numkeys_less[of "ce_deref (te_ce te) b"] by (cases ts') (auto simp: u16_sub_le)
      have "?j < length ts'" using w(2) by simp
      then obtain mc' where e: "sibling_enter te right mc2 = Some (mc', Ok ())" "stack_at mc' t (q @ [?j])" "keeps mc2 mc'"
         "top_ki mc' = (if right then 0 else u16_sub (NUMKEYS (ce_deref (te_ce te) (tree_addr (ts' ! ?j)))) 1)"
        using sibling_enter_spec[OF mc2(2) w(1) stq ki, where right = right] len d q(1) by auto
      have "sub t (q @ [?j]) = ts' ! ?j" using w by (simp add: sub_append)
      moreover have "keeps mc mc'" using keeps_trans[OF keeps_trans[OF pop(3) mc2(3)] e(3)] .
      ultimately show ?thesis unfolding bs run using True Some mc2(1) w e by auto
    qed
  qed
qed

end
