(* ===== verification/Reuse.thy ===== *)
theory Reuse
  imports Cursor_Walk
begin

text \<open>
  The search from a retained ancestor (\<open>mdb_page_search_reuse\<close>): when the key is on the side of the
  current leaf that the caller has found by one comparison, checking one separator per level is enough
  to reach the leaf a search from the root reaches.
\<close>

section \<open>The order of all entries\<close>

lemma bst_children:
  assumes "bst (TBranch a seps ts)"
  shows "sorted_wrt (<) seps" "\<And>i. i < length ts \<Longrightarrow> bst (ts ! i)"
    "\<And>i x. i < length seps \<Longrightarrow> x \<in> set (tree_keys (ts ! i)) \<Longrightarrow> x < seps ! i"
    "\<And>i x. i < length seps \<Longrightarrow> x \<in> set (tree_keys (ts ! Suc i)) \<Longrightarrow> seps ! i \<le> x"
proof -
  have "\<forall>i<length seps. (\<forall>x\<in>set (tree_keys (ts ! i)). x < seps ! i) \<and> (\<forall>x\<in>set (tree_keys (ts ! Suc i)). seps ! i \<le> x)"
    using assms by (simp add: list_all_iff)
  then show "\<And>i x. i < length seps \<Longrightarrow> x \<in> set (tree_keys (ts ! i)) \<Longrightarrow> x < seps ! i"
    "\<And>i x. i < length seps \<Longrightarrow> x \<in> set (tree_keys (ts ! Suc i)) \<Longrightarrow> seps ! i \<le> x" by blast+
qed (use assms in \<open>auto simp: list_all_length\<close>)

lemma sorted_concat:
  assumes "\<And>i. i < length xss \<Longrightarrow> sorted_wrt (<) (xss ! i)"
    and "\<And>i j x y. i < j \<Longrightarrow> j < length xss \<Longrightarrow> x \<in> set (xss ! i) \<Longrightarrow> y \<in> set (xss ! j) \<Longrightarrow> x < (y :: 'a :: linorder)"
  shows "sorted_wrt (<) (concat xss)"
  using assms
proof (induction xss)
  case (Cons xs xss)
  have "sorted_wrt (<) (concat xss)"
  proof (rule Cons.IH)
    show "sorted_wrt (<) (xss ! i)" if "i < length xss" for i using Cons.prems(1)[of "Suc i"] that by simp
    show "x < y" if "i < j" "j < length xss" "x \<in> set (xss ! i)" "y \<in> set (xss ! j)" for i j x y
      using Cons.prems(2)[of "Suc i" "Suc j" x y] that by simp
  qed
  moreover have "x < y" if x: "x \<in> set xs" and "y \<in> set (concat xss)" for x y
  proof -
    obtain j where "j < length xss" "y \<in> set (xss ! j)" using \<open>y \<in> set (concat xss)\<close> by (auto simp: in_set_conv_nth[of _ xss])
    then show ?thesis using Cons.prems(2)[of 0 "Suc j" x y] x by simp
  qed
  moreover have "sorted_wrt (<) xs" using Cons.prems(1)[of 0] by simp
  ultimately show ?case by (simp add: sorted_wrt_append)
qed simp

lemma bst_sorted: "bst t \<Longrightarrow> stored te txn t \<Longrightarrow> sorted_wrt (<) (tree_keys t)"
proof (induction t)
  case (TBranch a seps ts)
  note c = bst_children[OF TBranch.prems(1)] and b = branch_storedD[OF TBranch.prems(2)]
  have eq: "tree_keys (TBranch a seps ts) = concat (map tree_keys ts)" by (simp add: map_concat o_def)
  show ?case unfolding eq
  proof (rule sorted_concat)
    show "sorted_wrt (<) (map tree_keys ts ! i)" if "i < length (map tree_keys ts)" for i
      using TBranch.IH[of "ts ! i"] c(2)[of i] b(10)[of i] that by simp
    show "x < y" if ij: "i < j" "j < length (map tree_keys ts)" "x \<in> set (map tree_keys ts ! i)" "y \<in> set (map tree_keys ts ! j)" for i j x y
    proof -
      obtain j' where j: "j = Suc j'" using ij(1) by (cases j) auto
      have less: "i < length seps" "j' < length seps" using ij(1,2) b(6) j by auto
      have "x < seps ! i" using c(3)[OF less(1)] ij by simp
      also have "\<dots> \<le> seps ! j'" using c(1) less(2) ij(1) j sorted_wrt_nth_less[of "(<)" seps i j'] by (cases "i = j'") auto
      also have "\<dots> \<le> y" using c(4)[OF less(2)] ij j by simp
      finally show ?thesis .
    qed
  qed
qed simp

section \<open>The path of a key\<close>

fun seps_of :: "tree \<Rightarrow> bytes list" where
  "seps_of (TLeaf a es) = []"
| "seps_of (TBranch a seps ts) = seps"

lemma child_forI:
  assumes "sorted_wrt (<) seps" "i \<le> length seps" "0 < i \<Longrightarrow> seps ! (i - 1) \<le> k" "i < length seps \<Longrightarrow> k < seps ! i"
  shows "child_for k seps = i"
proof -
  have "seps ! j \<le> k" if j: "j < i" for j
  proof -
    have "j = i - 1 \<or> j < i - 1" "i - 1 < length seps" using j assms(2) by linarith+
    then have "seps ! j \<le> seps ! (i - 1)" using sorted_wrt_nth_less[OF assms(1), of j "i - 1"] by auto
    then show ?thesis using assms(3) j by simp
  qed
  then have "takeWhile (\<lambda>x. x \<le> k) seps = take i seps"
    using assms(2,4) by (intro takeWhile_eq_take_P_nth) auto
  then show ?thesis using assms(2) by (simp add: child_for_def)
qed

lemma valid_take: "valid_path t p \<Longrightarrow> valid_path t (take j p)"
  using valid_append[of t "take j p" "drop j p"] by simp

lemma path_branch:
  assumes "valid_path t p" "j < length p"
  obtains a seps ts where "sub t (take j p) = TBranch a seps ts" "p ! j < length ts" "sub t (take (Suc j) p) = ts ! (p ! j)"
proof -
  have "valid_path t (take j p @ [p ! j])" using valid_take[OF assms(1), of "Suc j"] assms(2) by (simp add: take_Suc_conv_app_nth)
  then have "valid_path (sub t (take j p)) [p ! j]" by (simp add: valid_append)
  then obtain a seps ts where u: "sub t (take j p) = TBranch a seps ts" "p ! j < length ts" by (cases "sub t (take j p)") auto
  then have "sub t (take (Suc j) p) = ts ! (p ! j)" using assms(2) by (simp add: take_Suc_conv_app_nth sub_append)
  then show ?thesis using that u by blast
qed

text \<open>While the children of the path are the children for the key, the search follows the path.\<close>

definition follows :: "bytes \<Rightarrow> tree \<Rightarrow> nat list \<Rightarrow> nat \<Rightarrow> bool" where
  "follows k t p n \<longleftrightarrow> (\<forall>j<n. child_for k (seps_of (sub t (take j p))) = p ! j)"

lemma key_path_follows:
  assumes v: "valid_path t p"
  shows "n \<le> length p \<Longrightarrow> follows k t p n \<Longrightarrow> key_path k t = take n p @ key_path k (sub t (take n p))"
proof (induction n)
  case (Suc n)
  then have IH: "key_path k t = take n p @ key_path k (sub t (take n p))" by (simp add: follows_def)
  have n: "n < length p" using Suc.prems(1) by simp
  obtain a seps ts where u: "sub t (take n p) = TBranch a seps ts" "p ! n < length ts" "sub t (take (Suc n) p) = ts ! (p ! n)"
    using path_branch[OF v n] .
  have "child_for k seps = p ! n" using Suc.prems(2) u(1) by (auto simp: follows_def)
  then have "key_path k (sub t (take n p)) = p ! n # key_path k (sub t (take (Suc n) p))" using u by (simp add: Let_def)
  then show ?case using IH n by (simp add: take_Suc_conv_app_nth)
qed simp

lemma keys_sub: "valid_path t p \<Longrightarrow> set (tree_keys (sub t p)) \<subseteq> set (tree_keys t)"
  using entries_split[of t p] by auto

lemma key_in_child:
  assumes v: "valid_path t p" and j: "j < length p" and x: "x \<in> set (tree_keys (sub t p))"
    and u: "sub t (take j p) = TBranch a seps ts"
  shows "x \<in> set (tree_keys (ts ! (p ! j)))"
proof -
  obtain a' seps' ts' where u': "sub t (take j p) = TBranch a' seps' ts'" "sub t (take (Suc j) p) = ts' ! (p ! j)"
    using path_branch[OF v j] by metis
  have "valid_path t (take (Suc j) p @ drop (Suc j) p)" using v by simp
  then have "valid_path (sub t (take (Suc j) p)) (drop (Suc j) p)" by (simp only: valid_append)
  from keys_sub[OF this] have "set (tree_keys (sub t p)) \<subseteq> set (tree_keys (sub t (take (Suc j) p)))"
    by (metis append_take_drop_id sub_append)
  then show ?thesis using x u u' by auto
qed

section \<open>The search from an ancestor\<close>

text \<open>The side of the leaf the key is on: what one comparison with a key of the leaf has told the caller.\<close>

definition on_side :: "int \<Rightarrow> bytes \<Rightarrow> bytes \<Rightarrow> bool" where
  "on_side direction k x \<longleftrightarrow> (if direction > 0 then x < k else k < x)"

lemma reuse_level_spec:
  assumes s: "stack_at mc t p" and st: "stored te txn t" "bst t" "balanced h t" and cmp: "te_cmp te = Cmp_memn"
    and k: "length k < 2 ^ 32" and x: "x \<in> set (tree_keys (sub t p))" "on_side direction k x"
  shows "level < length p \<Longrightarrow> follows k t p level \<Longrightarrow>
    \<exists>n. reuse_level te k direction mc level = Ok (Some n) \<and> n < length p \<and> follows k t p n"
proof (induction "length p - level" arbitrary: level)
  case (Suc m)
  note sd = stack_atD[OF s]
  show ?case
  proof (cases "level + 1 < length p")
    case False
    then show ?thesis using Suc.prems sd(3) by (subst reuse_level.simps) auto
  next
    case True
    obtain a seps ts where u: "sub t (take level p) = TBranch a seps ts" "p ! level < length ts"
      using path_branch[OF sd(1) Suc.prems(1)] by metis
    have sub: "stored te txn (TBranch a seps ts)" "bst (TBranch a seps ts)"
      using sub_props[OF valid_take[OF sd(1)] st, of level] u(1) by auto
    note b = branch_storedD[OF sub(1)] and c = bst_children[OF sub(2)]
    define i where "i = p ! level"
    have pg: "mc_pg mc level = a" "mc_ki mc level = i" using s u(1) Suc.prems(1) by (auto simp: stack_at_def i_def)
    have xi: "x \<in> set (tree_keys (ts ! i))" using key_in_child[OF sd(1) Suc.prems(1) x(1) u(1)] by (simp add: i_def)
    have lo: "seps ! (i - 1) \<le> x" if "0 < i" using c(4)[of "i - 1" x] xi that u(2) b(6) by (simp add: i_def)
    have hi: "x < seps ! i" if "i < length seps" using c(3)[OF that xi] .
    have il: "i \<le> length seps" "i < length ts" using u(2) b(6) by (auto simp: i_def)
    have next_level: "\<exists>n. reuse_level te k direction mc (level + 1) = Ok (Some n) \<and> n < length p \<and> follows k t p n"
      if "child_for k seps = i"
    proof -
      have "follows k t p (level + 1)" using Suc.prems(2) that u(1) by (auto simp: follows_def i_def less_Suc_eq)
      then show ?thesis using Suc.hyps(1)[of "level + 1"] Suc.hyps(2) True by simp
    qed
    let ?j = "if direction > 0 then i + 1 else i"
    define fence where "fence = seps ! (?j - 1)"
    define at_end where "at_end = (if direction > 0 then i + 1 = length ts else i = 0)"
    have kf: "cmp_call (te_cmp te) k (NODEKEY (ce_deref (te_ce te) a) (NODEPTR (ce_deref (te_ce te) a) ?j)) = Ok (lexcmp k fence)"
      if "\<not> at_end"
    proof -
      have j: "?j - 1 < length seps" "Suc (?j - 1) = ?j" using that il b(6) by (auto simp: at_end_def split: if_splits)
      have "key_at (ce_deref (te_ce te) a) ?j = fence" using b(7)[OF j(1)] j(2) by (simp add: fence_def)
      then show ?thesis using cmp cmp_memn_lexcmp[OF k b(8)[OF j(1)]] by (simp add: key_at_def fence_def)
    qed
    have run: "reuse_level te k direction mc level = (if at_end then reuse_level te k direction mc (level + 1)
        else if (if direction > 0 then lexcmp k fence \<ge> 0 else lexcmp k fence < 0) then Ok (Some level)
        else reuse_level te k direction mc (level + 1))"
    proof -
      have "reuse_level te k direction mc level = (if at_end then reuse_level te k direction mc (level + 1)
          else bind_res (cmp_call (te_cmp te) k (NODEKEY (ce_deref (te_ce te) a) (NODEPTR (ce_deref (te_ce te) a) ?j)))
            (\<lambda>result. if (if direction > 0 then result \<ge> 0 else result < 0) then Ok (Some level) else reuse_level te k direction mc (level + 1)))"
        using True sd(3) b(1,5) il unfolding at_end_def
        by (subst reuse_level.simps) (simp add: pg Let_def)
      then show ?thesis using kf by (cases at_end) simp_all
    qed
    show ?thesis
    proof (cases "\<not> at_end \<and> (if direction > 0 then lexcmp k fence \<ge> 0 else lexcmp k fence < 0)")
      case True
      then show ?thesis using Suc.prems unfolding run by auto
    next
      case False
      have "child_for k seps = i"
      proof (rule child_forI[OF c(1) il(1)])
        show "seps ! (i - 1) \<le> k" if "0 < i"
        proof (cases "direction > 0")
          case True
          then show ?thesis using lo[OF that] x(2) by (auto simp: on_side_def)
        next
          case neg: False
          then have "\<not> lexcmp k fence < 0" using False that by (simp add: at_end_def)
          then show ?thesis using neg by (auto simp: lexcmp_order fence_def split: if_splits)
        qed
        show "k < seps ! i" if "i < length seps"
        proof (cases "direction > 0")
          case True
          then have "\<not> lexcmp k fence \<ge> 0" using False that b(6) by (simp add: at_end_def)
          then show ?thesis using True by (auto simp: lexcmp_order fence_def split: if_splits)
        next
          case False
          then show ?thesis using hi[OF that] x(2) by (auto simp: on_side_def)
        qed
      qed
      from next_level[OF this] show ?thesis using False unfolding run by auto
    qed
  qed
qed simp

lemma pop_while:
  "stack_at mc t p \<Longrightarrow> n \<le> length p \<Longrightarrow>
    \<exists>mc'. while_option (\<lambda>mc. mc_top mc > n) mdb_cursor_pop mc = Some mc' \<and> stack_at mc' t (take n p) \<and> keeps mc mc'"
proof (induction "length p - n" arbitrary: mc p)
  case 0
  then have "\<not> mc_top mc > n" "take n p = p" using stack_atD(3)[OF 0(2)] by auto
  then show ?case using 0 by (subst while_option_unfold) simp
next
  case (Suc m)
  then have ne: "p \<noteq> []" by auto
  then obtain q i where q: "p = q @ [i]" by (metis rev_exhaust)
  note pop = pop_stack[OF Suc.prems(1)[unfolded q]]
  have "m = length q - n" "n \<le> length q" using Suc.hyps(2) q by auto
  from Suc.hyps(1)[OF this(1) pop(1) this(2)] obtain mc' where
    "while_option (\<lambda>mc. mc_top mc > n) mdb_cursor_pop (mdb_cursor_pop mc) = Some mc'" "stack_at mc' t (take n q)" "keeps (mdb_cursor_pop mc) mc'" by blast
  moreover have "mc_top mc > n" using stack_atD(3)[OF Suc.prems(1)] Suc.hyps(2) by simp
  moreover have "take n q = take n p" using q Suc.hyps(2) by simp
  ultimately show ?case using keeps_trans[OF pop(3)] by (subst while_option_unfold) auto
qed

lemma reuse_arrives:
  assumes t: "tree_at (db_tree db) (mc_txn mc) (mc_root mc) h t" and stale: "\<not> mc_stale mc" and s: "stack_at mc t p"
    and k: "length (snd key) < 2 ^ 32" and x: "x \<in> set (tree_keys (sub t p))" "on_side direction (snd key) x"
  shows "\<exists>mc'. mdb_page_search_reuse db key direction mc = Some (mc', Ok ()) \<and> arrived mc mc' t (key_path (snd key) t)"
proof -
  let ?te = "db_tree db"
  note d = tree_atD[OF t] and sd = stack_atD[OF s]
  have root: "mc_pg mc 0 = tree_addr t" using s by (auto simp: stack_at_def)
  obtain mc0 where full: "mdb_page_search db (PS_KEY key) mc = Some (mc0, Ok ())" "arrived mc mc0 t (key_path (snd key) t)"
    using page_search_arrives[OF t stale, of "PS_KEY key" "[]"] root k by (auto simp: root_ok_def above_ok_def)
  show ?thesis
  proof (cases "mc_init mc \<and> \<not> mc_top mc < 2 \<and> mc_pg mc 0 \<noteq> 0 \<and> mp_pgno (ce_deref (te_ce ?te) (mc_pg mc 0)) = mc_root mc")
    case False
    then have "mdb_page_search_reuse db key direction mc = mdb_page_search db (PS_KEY key) mc"
      using stale by (auto simp: mdb_page_search_reuse_def Let_def)
    then show ?thesis using full by simp
  next
    case True
    have "0 < length p" using True sd(3) by (cases p) auto
    then obtain n where n: "reuse_level ?te (snd key) direction mc 0 = Ok (Some n)" "n < length p" "follows (snd key) t p n"
      using reuse_level_spec[OF s d(7-9,1) k x, of 0] by (auto simp: follows_def)
    obtain mc1 where mc1: "while_option (\<lambda>mc. mc_top mc > n) mdb_cursor_pop mc = Some mc1" "stack_at mc1 t (take n p)" "keeps mc mc1"
      using pop_while[OF s, of n] n(2) by auto
    note sp = sub_props[OF valid_take[OF sd(1)] d(7-9), of n]
    have ok: "stored ?te (mc_txn mc1) (sub t (take n p))" "what_ok (PS_KEY key) t [] mc1" "txn_ok (mc_txn mc1)"
      using sp mc1(3) k d(2,3) by (simp_all add: keeps_def what_ok_def txn_ok_def)
    have "length (take n p) \<le> h" "length (take n p) + (h - length (take n p)) < CURSOR_STACK" using sp d(10) by auto
    then obtain mc2 where mc2: "mdb_page_search_root ?te (PS_KEY key) mc1 = Some (mc2, Ok ())"
       "arrived mc1 mc2 t (take n p @ what_path (PS_KEY key) (sub t (take n p)))"
      using search_root_arrives[OF mc1(2) ok(1) _ _ _ d(1) ok(2,3), of "h - length (take n p)"] sp by auto
    have "mdb_page_search_reuse db key direction mc = Some (mc2, Ok ())"
      using True stale n(1) mc1(1) mc2(1) by (simp add: mdb_page_search_reuse_def Let_def)
    moreover have "take n p @ what_path (PS_KEY key) (sub t (take n p)) = key_path (snd key) t"
      using key_path_follows[OF sd(1) _ n(3)] n(2) by simp
    ultimately show ?thesis using mc2(2) mc1(3) by (auto simp: arrived_def keeps_def)
  qed
qed

end
