(* ===== verification/Cursor_Iterator.thy ===== *)
theory Cursor_Iterator
  imports Reuse
begin

text \<open>
  The operations of \<open>mdb_cursor_get\<close> as those of an iterator over a sorted list of entries.
\<close>

section \<open>Positions of a cursor\<close>

text \<open>What the operations leave alone.\<close>

definition same_db :: "cursor \<Rightarrow> cursor \<Rightarrow> bool" where
  "same_db mc mc' \<longleftrightarrow> mc_txn mc' = mc_txn mc \<and> mc_root mc' = mc_root mc \<and> mc_entries mc' = mc_entries mc \<and> mc_stale mc' = mc_stale mc \<and> mc_del mc' = mc_del mc"

lemma same_db_refl [simp]: "same_db mc mc"
  by (simp add: same_db_def)

lemma same_db_trans: "same_db mc mc1 \<Longrightarrow> same_db mc1 mc2 \<Longrightarrow> same_db mc mc2"
  by (simp add: same_db_def)

lemma keeps_same: "keeps mc mc' \<Longrightarrow> same_db mc mc'"
  by (simp add: keeps_def same_db_def)

lemma arrived_same: "arrived mc mc' t p \<Longrightarrow> same_db mc mc'"
  by (simp add: arrived_def same_db_def)

definition at_leaf :: "cursor \<Rightarrow> tree \<Rightarrow> bool" where
  "at_leaf mc t \<longleftrightarrow> (\<exists>p. stack_at mc t p \<and> is_leaf (sub t p))"

text \<open>The cursor is at the entry of the given rank.\<close>

definition at_entry :: "cursor \<Rightarrow> tree \<Rightarrow> nat \<Rightarrow> bool" where
  "at_entry mc t r \<longleftrightarrow> (\<exists>p a es. stack_at mc t p \<and> sub t p = TLeaf a es \<and> top_ki mc < length es \<and> r = offset t p + top_ki mc)"

lemma at_entry_leaf: "at_entry mc t r \<Longrightarrow> at_leaf mc t"
  by (auto simp: at_entry_def at_leaf_def)

lemma stack_reader [simp]:
  "stack_at (mc\<lparr>mc_reader := rd\<rparr>) t p = stack_at mc t p" "top_ki (mc\<lparr>mc_reader := rd\<rparr>) = top_ki mc"
  "stack_at (mc\<lparr>mc_init := b\<rparr>) t p = stack_at mc t p" "top_ki (mc\<lparr>mc_init := b\<rparr>) = top_ki mc"
  "stack_at (mc\<lparr>mc_eof := b\<rparr>) t p = stack_at mc t p" "top_ki (mc\<lparr>mc_eof := b\<rparr>) = top_ki mc"
  "stack_at (mc\<lparr>mc_del := b\<rparr>) t p = stack_at mc t p" "top_ki (mc\<lparr>mc_del := b\<rparr>) = top_ki mc"
  by (simp_all add: stack_at_def top_ki_def)

lemma at_reader [simp]:
  "at_entry (mc\<lparr>mc_reader := rd\<rparr>) t r = at_entry mc t r" "at_entry (mc\<lparr>mc_init := b\<rparr>) t r = at_entry mc t r"
  "at_entry (mc\<lparr>mc_eof := b\<rparr>) t r = at_entry mc t r" "at_entry (mc\<lparr>mc_del := b\<rparr>) t r = at_entry mc t r"
  "at_leaf (mc\<lparr>mc_reader := rd\<rparr>) t = at_leaf mc t" "at_leaf (mc\<lparr>mc_init := b\<rparr>) t = at_leaf mc t"
  "at_leaf (mc\<lparr>mc_eof := b\<rparr>) t = at_leaf mc t" "at_leaf (mc\<lparr>mc_del := b\<rparr>) t = at_leaf mc t"
  by (simp_all add: at_entry_def at_leaf_def)

lemma top_ki_set [simp]: "top_ki (set_ki i mc) = i"
  by (simp add: top_ki_def set_ki_def)

lemma same_set [simp]:
  "same_db mc (set_ki i mc') = same_db mc mc'" "same_db mc (mc'\<lparr>mc_reader := rd\<rparr>) = same_db mc mc'"
  "same_db mc (mc'\<lparr>mc_init := b\<rparr>) = same_db mc mc'" "same_db mc (mc'\<lparr>mc_eof := b\<rparr>) = same_db mc mc'"
  by (simp_all add: same_db_def set_ki_def)

lemma set_ki_flags [simp]: "mc_init (set_ki i mc) = mc_init mc" "mc_eof (set_ki i mc) = mc_eof mc"
  by (simp_all add: set_ki_def)

section \<open>Reading the entry\<close>

text \<open>Without prefix compression a key is read as it is stored.\<close>

lemma read_key_leaf:
  assumes l: "leaf_stored te txn (top_addr mc) es" and np: "\<not> ce_prefix (te_ce te)" and i: "i < length es"
  shows "\<exists>rd. cursor_read_key te i mc = Some (mc\<lparr>mc_reader := rd\<rparr>, Ok (fst (es ! i)))"
  using leaf_storedD[OF l] np i by (auto simp: cursor_read_key_def mdb_cursor_read_key_at_def Let_def)

lemma read_entry_leaf:
  assumes s: "stack_at mc t p" and l: "sub t p = TLeaf a es" "leaf_stored te (mc_txn mc) a es" and i: "top_ki mc < length es"
    and np: "\<not> ce_prefix (te_ce te)"
  shows "\<exists>rd. read_entry te True True mc = Some (mc\<lparr>mc_reader := rd\<rparr>, Ok (Some (fst (es ! top_ki mc)), Some (snd (es ! top_ki mc))))"
    and "\<exists>rd. next_entry te True True mc = Some (mc\<lparr>mc_reader := rd\<rparr>, Ok (Some (fst (es ! top_ki mc)), Some (snd (es ! top_ki mc))))"
proof -
  note top = leaf_top[OF s l]
  have d: "read_data te True mc = Some (mc, Ok (Some (snd (es ! top_ki mc))))" using read_data_leaf[OF s l i, of True] by simp
  obtain rd where k: "cursor_read_key te (top_ki mc) mc = Some (mc\<lparr>mc_reader := rd\<rparr>, Ok (fst (es ! top_ki mc)))"
    using read_key_leaf[of te _ mc es "top_ki mc"] l(2) top(1) np i by blast
  show "\<exists>rd. read_entry te True True mc = Some (mc\<lparr>mc_reader := rd\<rparr>, Ok (Some (fst (es ! top_ki mc)), Some (snd (es ! top_ki mc))))"
    using top(3) d k by (auto simp: read_entry_def cbind_def cget_def cret_def)
  have "\<exists>rd. next_read_key (te_ce te) (mc_reader mc) a (top_ki mc) = Some (rd, Ok (fst (es ! top_ki mc)))"
    using leaf_storedD(1,2,8)[OF l(2)] np i by (auto simp: next_read_key_def mdb_cursor_read_key_at_def Let_def)
  then show "\<exists>rd. next_entry te True True mc = Some (mc\<lparr>mc_reader := rd\<rparr>, Ok (Some (fst (es ! top_ki mc)), Some (snd (es ! top_ki mc))))"
    using top d by (auto simp: next_entry_def cbind_def)
qed

text \<open>The database the cursor is on.\<close>

definition on_tree :: "db_env \<Rightarrow> nat \<Rightarrow> tree \<Rightarrow> cursor \<Rightarrow> bool" where
  "on_tree db h t mc \<longleftrightarrow> tree_at (db_tree db) (mc_txn mc) (mc_root mc) h t \<and> \<not> mc_stale mc \<and> \<not> mc_del mc \<and> \<not> ce_prefix (te_ce (db_tree db))"

lemma on_treeD:
  assumes "on_tree db h t mc"
  shows "tree_at (db_tree db) (mc_txn mc) (mc_root mc) h t" "\<not> mc_stale mc" "\<not> mc_del mc" "\<not> ce_prefix (te_ce (db_tree db))"
    "full h t" "stored (db_tree db) (mc_txn mc) t" "bst t" "balanced h t" "h < CURSOR_STACK" "te_cmp (db_tree db) = Cmp_memn"
  using assms tree_atD[of "db_tree db" "mc_txn mc" "mc_root mc" h t] full_stored[of "db_tree db" "mc_txn mc" t h] by (auto simp: on_tree_def)

lemma on_tree_same: "on_tree db h t mc \<Longrightarrow> same_db mc mc' \<Longrightarrow> on_tree db h t mc'"
  by (simp add: on_tree_def same_db_def)

text \<open>A leaf of the tree.\<close>

lemma leaf_of:
  assumes o: "on_tree db h t mc" and v: "valid_path t p" and l: "sub t p = TLeaf a es"
  shows "leaf_stored (db_tree db) (mc_txn mc) a es" "sorted_wrt (<) (map fst es)" "length p = h" "es \<noteq> []"
proof -
  note d = on_treeD[OF o]
  have "stored (db_tree db) (mc_txn mc) (TLeaf a es) \<and> bst (TLeaf a es)" using sub_props[OF v d(6-8)] l by simp
  then show "leaf_stored (db_tree db) (mc_txn mc) a es" "sorted_wrt (<) (map fst es)" by simp_all
  then show "es \<noteq> []" using leaf_storedD(4) by blast
  show "length p = h" using full_leaf[OF d(5) v] l by simp
qed

definition entry_at :: "(bytes \<times> bytes) list \<Rightarrow> nat \<Rightarrow> entry" where
  "entry_at es r = (Some (fst (es ! r)), Some (snd (es ! r)))"

lemma read_at:
  assumes o: "on_tree db h t mc" and e: "at_entry mc t r"
  shows "\<exists>rd. read_entry (db_tree db) True True mc = Some (mc\<lparr>mc_reader := rd\<rparr>, Ok (entry_at (entries t) r))"
    "\<exists>rd. next_entry (db_tree db) True True mc = Some (mc\<lparr>mc_reader := rd\<rparr>, Ok (entry_at (entries t) r))"
    "\<exists>rd. prev_entry (db_tree db) True True mc = Some (mc\<lparr>mc_reader := rd\<rparr>, Ok (entry_at (entries t) r))"
proof -
  obtain p a es where s: "stack_at mc t p" "sub t p = TLeaf a es" "top_ki mc < length es" "r = offset t p + top_ki mc"
    using e by (auto simp: at_entry_def)
  note v = stack_atD(1)[OF s(1)]
  note l = leaf_of[OF o v s(2)]
  have eq: "entry_at (entries t) r = (Some (fst (es ! top_ki mc)), Some (snd (es ! top_ki mc)))"
    using nth_entries[OF v s(2,3)] s(4) by (simp add: entry_at_def)
  show r1: "\<exists>rd. read_entry (db_tree db) True True mc = Some (mc\<lparr>mc_reader := rd\<rparr>, Ok (entry_at (entries t) r))"
    unfolding eq by (rule read_entry_leaf(1)[OF s(1,2) l(1) s(3) on_treeD(4)[OF o]])
  show "\<exists>rd. next_entry (db_tree db) True True mc = Some (mc\<lparr>mc_reader := rd\<rparr>, Ok (entry_at (entries t) r))"
    unfolding eq by (rule read_entry_leaf(2)[OF s(1,2) l(1) s(3) on_treeD(4)[OF o]])
  show "\<exists>rd. prev_entry (db_tree db) True True mc = Some (mc\<lparr>mc_reader := rd\<rparr>, Ok (entry_at (entries t) r))"
    using r1 leaf_top[OF s(1,2) l(1)] by (simp add: prev_entry_def)
qed

section \<open>FIRST and LAST\<close>

text \<open>A cursor that is not initialised, or at some leaf.\<close>

definition settled :: "cursor \<Rightarrow> tree \<Rightarrow> bool" where
  "settled mc t \<longleftrightarrow> (if mc_init mc then at_leaf mc t else mc_pg mc 0 = 0)"

lemma leaf_above:
  assumes "stack_at mc t p" "is_leaf (sub t p)"
  shows "stack_above mc t p"
proof -
  have "mc\<lparr>mc_snum := Suc (length p), mc_top := length p\<rparr> = mc" using stack_atD(2,3)[OF assms(1)] by simp
  then show ?thesis using assms by (cases "sub t p") (auto simp: stack_above_def)
qed

lemma enter_edge:
  assumes o: "on_tree db h t mc" and s: "settled mc t" and w: "what = PS_FIRST \<or> what = PS_LAST"
  shows "\<exists>mc1. (if \<not> mc_init mc \<or> mc_top mc \<noteq> 0 then mdb_page_search db what else cret ()) mc = Some (mc1, Ok ()) \<and>
     stack_at mc1 t (what_path what t) \<and> same_db mc mc1"
proof (cases "\<not> mc_init mc \<or> mc_top mc \<noteq> 0")
  case True
  note d = on_treeD[OF o]
  have "root_ok (db_tree db) t mc \<and> (\<exists>p0. above_ok what t p0 mc)"
  proof (cases "mc_init mc")
    case True
    then obtain p where p: "stack_at mc t p" "is_leaf (sub t p)" using s by (auto simp: settled_def at_leaf_def)
    have "mc_pg mc 0 = tree_addr t" using p(1) by (auto simp: stack_at_def)
    then show ?thesis using leaf_above[OF p] w by (auto simp: root_ok_def above_ok_def)
  qed (use s w in \<open>auto simp: root_ok_def above_ok_def settled_def\<close>)
  then obtain p0 where p0: "root_ok (db_tree db) t mc" "above_ok what t p0 mc" by blast
  obtain mc1 where "mdb_page_search db what mc = Some (mc1, Ok ())" "arrived mc mc1 t (what_path what t)"
    using page_search_arrives[OF d(1,2) p0] by blast
  then show ?thesis using True arrived_same[of mc mc1] by (auto simp: arrived_def)
next
  case False
  then obtain p where p: "stack_at mc t p" "is_leaf (sub t p)" using s by (auto simp: settled_def at_leaf_def)
  then have "p = []" using False stack_atD(3)[OF p(1)] by simp
  then have "what_path what t = p" using p(2) w by (cases t) auto
  then show ?thesis using False p by auto
qed

text \<open>The first and the last leaf.\<close>

lemma edge_leaf:
  assumes o: "on_tree db h t mc"
  obtains a es where "sub t (edge right h t) = TLeaf a es" "es \<noteq> []" "valid_path t (edge right h t)"
    "right \<Longrightarrow> offset t (edge right h t) = 0" "\<not> right \<Longrightarrow> offset t (edge right h t) + length es = length (entries t)"
proof -
  note d = on_treeD[OF o]
  have v: "valid_path t (edge right h t)" "length (edge right h t) = h" using edge_valid[OF d(5), of h right] by auto
  obtain a es where l: "sub t (edge right h t) = TLeaf a es" "es \<noteq> []" using sub_leaf[OF d(5) v] .
  show ?thesis using that[OF l v(1)] offset_edge[OF d(5)] l by (cases right) auto
qed

lemma entries_ne: "on_tree db h t mc \<Longrightarrow> entries t \<noteq> []"
  by (metis add_is_0 edge_leaf length_0_conv)

lemma first_spec:
  assumes o: "on_tree db h t mc" and s: "settled mc t"
  shows "\<exists>mc'. mdb_cursor_first db True True mc = Some (mc', Ok (entry_at (entries t) 0)) \<and> at_entry mc' t 0 \<and> same_db mc mc' \<and> mc_init mc' \<and> \<not> mc_eof mc'"
proof -
  note d = on_treeD[OF o]
  define m where "m = (if \<not> mc_init mc \<or> mc_top mc \<noteq> 0 then mdb_page_search db PS_FIRST else cret ())"
  obtain mc1 where mc1: "m mc = Some (mc1, Ok ())" "stack_at mc1 t (first_path t)" "same_db mc mc1"
    using enter_edge[OF o s, of PS_FIRST] unfolding m_def by auto
  obtain a es where e: "sub t (first_path t) = TLeaf a es" "es \<noteq> []" "offset t (first_path t) = 0"
    using edge_leaf[OF o, of True] first_path_edge[OF d(5)] by metis
  note o1 = on_tree_same[OF o mc1(3)]
  note top = leaf_top[OF mc1(2) e(1) leaf_of(1)[OF o1 stack_atD(1)[OF mc1(2)] e(1)]]
  define mc2 where "mc2 = set_ki 0 (mc1\<lparr>mc_init := True, mc_eof := False\<rparr>)"
  have s2: "stack_at mc2 t (first_path t)" "top_ki mc2 = 0" "same_db mc mc2"
    using mc1 by (auto simp: mc2_def intro: stack_at_set_ki)
  then have at: "at_entry mc2 t 0" using e by (auto simp: at_entry_def)
  obtain rd where "read_entry (db_tree db) True True mc2 = Some (mc2\<lparr>mc_reader := rd\<rparr>, Ok (entry_at (entries t) 0))"
    using read_at(1)[OF on_tree_same[OF o s2(3)] at] by blast
  then have "mdb_cursor_first db True True mc = Some (mc2\<lparr>mc_reader := rd\<rparr>, Ok (entry_at (entries t) 0))"
    using top(2) unfolding mdb_cursor_first_def Let_def m_def[symmetric] by (simp add: cthen_Some[where m = m, OF mc1(1)] mc2_def)
  moreover have "mc_init mc2" "\<not> mc_eof mc2" by (simp_all add: mc2_def set_ki_def)
  moreover have "same_db mc (mc2\<lparr>mc_reader := rd\<rparr>)" using s2(3) by simp
  ultimately show ?thesis using at by auto
qed

lemma last_spec:
  assumes o: "on_tree db h t mc" and s: "settled mc t"
  shows "\<exists>mc'. mdb_cursor_last db True True mc = Some (mc', Ok (entry_at (entries t) (length (entries t) - 1))) \<and>
    at_entry mc' t (length (entries t) - 1) \<and> same_db mc mc' \<and> mc_init mc'"
proof -
  note d = on_treeD[OF o]
  define m where "m = (if \<not> mc_init mc \<or> mc_top mc \<noteq> 0 then mdb_page_search db PS_LAST else cret ())"
  let ?n = "length (entries t) - 1"
  obtain mc1 where mc1: "m mc = Some (mc1, Ok ())" "stack_at mc1 t (last_path t)" "same_db mc mc1"
    using enter_edge[OF o s, of PS_LAST] unfolding m_def by auto
  obtain a es where e: "sub t (last_path t) = TLeaf a es" "es \<noteq> []" "offset t (last_path t) + length es = length (entries t)"
    using edge_leaf[OF o, of False] last_path_edge[OF d(5)] by metis
  note o1 = on_tree_same[OF o mc1(3)]
  note top = leaf_top[OF mc1(2) e(1) leaf_of(1)[OF o1 stack_atD(1)[OF mc1(2)] e(1)]]
  have ki: "u16_sub (NUMKEYS (top_page (db_tree db) mc1)) (Suc 0) = length es - 1"
    using numkeys_less[of "top_page (db_tree db) mc1"] top(4) e(2) by (cases es) (auto simp: u16_sub_le)
  define mc2 where "mc2 = (set_ki (length es - 1) mc1)\<lparr>mc_init := True, mc_eof := True\<rparr>"
  have s2: "stack_at mc2 t (last_path t)" "top_ki mc2 = length es - 1" "same_db mc mc2"
    using mc1 by (auto simp: mc2_def intro: stack_at_set_ki)
  have "length es - 1 < length es" "?n = offset t (last_path t) + (length es - 1)" using e(2,3) by (cases es; simp)+
  then have at: "at_entry mc2 t ?n" using e(1) s2(1,2) by (auto simp: at_entry_def)
  obtain rd where "read_entry (db_tree db) True True mc2 = Some (mc2\<lparr>mc_reader := rd\<rparr>, Ok (entry_at (entries t) ?n))"
    using read_at(1)[OF on_tree_same[OF o s2(3)] at] by blast
  then have "mdb_cursor_last db True True mc = Some (mc2\<lparr>mc_reader := rd\<rparr>, Ok (entry_at (entries t) ?n))"
    using top(2) unfolding mdb_cursor_last_def Let_def m_def[symmetric] by (simp add: cthen_Some[where m = m, OF mc1(1)] ki mc2_def)
  moreover have "mc_init mc2" by (simp add: mc2_def set_ki_def)
  moreover have "same_db mc (mc2\<lparr>mc_reader := rd\<rparr>)" using s2(3) by simp
  ultimately show ?thesis using at by auto
qed

section \<open>NEXT and PREV\<close>

lemma sibling_entry:
  assumes o: "on_tree db h t mc" and e: "at_entry mc t r"
  shows "top_ki mc + 1 \<ge> NUMKEYS (top_page (db_tree db) mc) \<Longrightarrow>
     (if Suc r < length (entries t)
      then \<exists>mc'. mdb_cursor_sibling (db_tree db) True mc = Some (mc', Ok ()) \<and> at_entry mc' t (Suc r) \<and> keeps mc mc'
      else mdb_cursor_sibling (db_tree db) True mc = Some (mc, Err MDB_NOTFOUND))"
    and "top_ki mc + 1 < NUMKEYS (top_page (db_tree db) mc) \<Longrightarrow>
     Suc r < length (entries t) \<and> at_entry (set_ki (top_ki mc + 1) mc) t (Suc r)"
    and "top_ki mc = 0 \<Longrightarrow>
     (if 0 < r
      then \<exists>mc'. mdb_cursor_sibling (db_tree db) False mc = Some (mc', Ok ()) \<and> at_entry mc' t (r - 1) \<and> keeps mc mc' \<and>
          set_ki (u16_sub (NUMKEYS (top_page (db_tree db) mc')) 1) mc' = mc'
      else mdb_cursor_sibling (db_tree db) False mc = Some (mc, Err MDB_NOTFOUND))"
    and "0 < top_ki mc \<Longrightarrow> 0 < r \<and> at_entry (set_ki (top_ki mc - 1) mc) t (r - 1)"
    and "r < length (entries t)"
proof -
  obtain p a es where s: "stack_at mc t p" "sub t p = TLeaf a es" "top_ki mc < length es" "r = offset t p + top_ki mc"
    using e by (auto simp: at_entry_def)
  note d = on_treeD[OF o] and v = stack_atD(1)[OF s(1)]
  note l = leaf_of[OF o v s(2)]
  note top = leaf_top[OF s(1,2) l(1)]
  note right = offset_beside_right[OF d(5) v l(3)] and left = offset_beside_left[OF d(5) v l(3)]
  have in_leaf: "offset t p + length es \<le> length (entries t)" using nth_entries(2)[OF v s(2), of "length es - 1"] l(4) by (cases es) auto
  show "r < length (entries t)" using nth_entries(2)[OF v s(2,3)] s(4) by simp
  show "Suc r < length (entries t) \<and> at_entry (set_ki (top_ki mc + 1) mc) t (Suc r)" if "top_ki mc + 1 < NUMKEYS (top_page (db_tree db) mc)"
    using that s in_leaf top(4) stack_at_set_ki[OF s(1)] by (auto simp: at_entry_def)
  show "0 < r \<and> at_entry (set_ki (top_ki mc - 1) mc) t (r - 1)" if "0 < top_ki mc"
  proof -
    have "stack_at (set_ki (top_ki mc - 1) mc) t p" "top_ki (set_ki (top_ki mc - 1) mc) < length es"
        "r - 1 = offset t p + top_ki (set_ki (top_ki mc - 1) mc)" using that s stack_at_set_ki[OF s(1)] by auto
    then show ?thesis using that s(2,4) by (auto simp: at_entry_def)
  qed
  note sib = sibling_spec[OF d(9,5-8) s(1) refl]
  have beside_leaf: "\<exists>b fs. sub t q = TLeaf b fs \<and> fs \<noteq> [] \<and> valid_path t q \<and> NUMKEYS (ce_deref (te_ce (db_tree db)) b) = length fs"
    if "beside right t p = Some q" for right q
  proof -
    have q: "length q = h" "valid_path t q" using beside_length[OF that d(5) v] l(3) by auto
    obtain b fs where q3: "sub t q = TLeaf b fs" "fs \<noteq> []" using sub_leaf[OF d(5) q(2,1)] .
    then show ?thesis using q(2) leaf_storedD(5)[OF leaf_of(1)[OF o q(2) q3(1)]] by blast
  qed
  show "if Suc r < length (entries t)
      then \<exists>mc'. mdb_cursor_sibling (db_tree db) True mc = Some (mc', Ok ()) \<and> at_entry mc' t (Suc r) \<and> keeps mc mc'
      else mdb_cursor_sibling (db_tree db) True mc = Some (mc, Err MDB_NOTFOUND)" if "top_ki mc + 1 \<ge> NUMKEYS (top_page (db_tree db) mc)"
  proof -
    have r: "Suc r = offset t p + length es" using that s(3,4) top(4) by simp
    show ?thesis
    proof (cases "beside True t p")
      case None
      then show ?thesis using right r s(2) sib[of True] by simp
    next
      case (Some q)
      obtain b fs where q: "sub t q = TLeaf b fs" "fs \<noteq> []" "valid_path t q" using beside_leaf[OF Some] by blast
      obtain mc' where mc': "mdb_cursor_sibling (db_tree db) True mc = Some (mc', Ok ())" "stack_at mc' t q" "keeps mc mc'" "top_ki mc' = 0"
        using sib[of True] Some by auto
      have "Suc r = offset t q" using right Some r s(2) by simp
      then have "at_entry mc' t (Suc r)" using mc' q by (auto simp: at_entry_def)
      moreover have "Suc r < length (entries t)" using nth_entries(2)[OF q(3,1), of 0] q(2) \<open>Suc r = offset t q\<close> by simp
      ultimately show ?thesis using mc' by auto
    qed
  qed
  show "if 0 < r
      then \<exists>mc'. mdb_cursor_sibling (db_tree db) False mc = Some (mc', Ok ()) \<and> at_entry mc' t (r - 1) \<and> keeps mc mc' \<and>
          set_ki (u16_sub (NUMKEYS (top_page (db_tree db) mc')) 1) mc' = mc'
      else mdb_cursor_sibling (db_tree db) False mc = Some (mc, Err MDB_NOTFOUND)" if "top_ki mc = 0"
  proof (cases "beside False t p")
    case None
    then show ?thesis using left that s(4) sib[of False] by simp
  next
    case (Some q)
    obtain b fs where q: "sub t q = TLeaf b fs" "fs \<noteq> []" "valid_path t q" "NUMKEYS (ce_deref (te_ce (db_tree db)) b) = length fs"
      using beside_leaf[OF Some] by blast
    have ki: "u16_sub (length fs) 1 = length fs - 1"
      using q(2,4) numkeys_less[of "ce_deref (te_ce (db_tree db)) b"] by (cases fs) (auto simp: u16_sub_le)
    obtain mc' where mc': "mdb_cursor_sibling (db_tree db) False mc = Some (mc', Ok ())" "stack_at mc' t q" "keeps mc mc'" "top_ki mc' = length fs - 1"
      using sib[of False] Some q(1,4) ki by auto
    have "top_page (db_tree db) mc' = ce_deref (te_ce (db_tree db)) b" using stack_atD(4)[OF mc'(2)] q(1) by (simp add: top_page_def)
    then have "set_ki (u16_sub (NUMKEYS (top_page (db_tree db) mc')) 1) mc' = mc'"
      using mc'(4) ki q(4) by (simp add: set_ki_def top_ki_def fun_upd_idem)
    moreover have r: "r = offset t q + length fs" using left Some that s(4) q(1) by simp
    moreover have "at_entry mc' t (r - 1)" unfolding at_entry_def
    proof (intro exI conjI)
      show "top_ki mc' < length fs" "r - 1 = offset t q + top_ki mc'" using mc'(4) q(2) r by (cases fs; simp)+
    qed (use mc'(2) q(1) in simp_all)
    ultimately show ?thesis using mc' q(2) by auto
  qed
qed

definition at_pos :: "cursor \<Rightarrow> tree \<Rightarrow> nat \<Rightarrow> bool" where
  "at_pos mc t r \<longleftrightarrow> at_entry mc t r \<and> mc_init mc \<and> (mc_eof mc \<longrightarrow> Suc r = length (entries t))"

lemma next_spec:
  assumes o: "on_tree db h t mc" and a: "at_pos mc t r"
  shows "\<exists>mc'. mdb_cursor_next db True True op mc =
      Some (mc', if Suc r < length (entries t) then Ok (entry_at (entries t) (Suc r)) else Err MDB_NOTFOUND) \<and>
    at_pos mc' t (if Suc r < length (entries t) then Suc r else r) \<and> same_db mc mc'"
proof -
  have e: "at_entry mc t r" and init: "mc_init mc" and eof: "mc_eof mc \<Longrightarrow> Suc r = length (entries t)"
    using a by (auto simp: at_pos_def)
  note sib = sibling_entry[OF o e]
  have nodel: "\<not> mc_del mc" using o by (simp add: on_tree_def)
  show ?thesis
  proof (cases "mc_eof mc \<and> top_ki mc \<ge> u32_pred (NUMKEYS (top_page (db_tree db) mc))")
    case True
    then show ?thesis using init nodel eof a by (auto simp: mdb_cursor_next_def Let_def)
  next
    case False
    have neof: "\<not> mc_eof mc"
    proof
      assume "mc_eof mc"
      then have "\<not> top_ki mc + 1 < NUMKEYS (top_page (db_tree db) mc)" using eof sib(2) by auto
      moreover have "u32_pred (NUMKEYS (top_page (db_tree db) mc)) = NUMKEYS (top_page (db_tree db) mc) - 1 \<or> NUMKEYS (top_page (db_tree db) mc) = 0"
        using u32_pred[of "NUMKEYS (top_page (db_tree db) mc)"] numkeys_less[of "top_page (db_tree db) mc"]
        by (cases "NUMKEYS (top_page (db_tree db) mc) = 0") simp_all
      moreover obtain p b es where "stack_at mc t p" "sub t p = TLeaf b es" using e by (auto simp: at_entry_def)
      then have "NUMKEYS (top_page (db_tree db) mc) \<noteq> 0"
        using leaf_top(4,5) leaf_of(1)[OF o] stack_atD(1) by (metis length_0_conv)
      ultimately show False using False \<open>mc_eof mc\<close> by linarith
    qed
    then have mc: "mc\<lparr>mc_eof := False\<rparr> = mc" by simp
    have run: "mdb_cursor_next db True True op mc =
        (if top_ki mc + 1 \<ge> NUMKEYS (top_page (db_tree db) mc) then
           case mdb_cursor_sibling (db_tree db) True mc of
             Some (mc, Err e) \<Rightarrow> Some (mc\<lparr>mc_eof := True\<rparr>, Err e)
           | Some (mc, Ok _) \<Rightarrow> next_entry (db_tree db) True True mc
           | Some (mc, Abort) \<Rightarrow> Some (mc, Abort)
           | None \<Rightarrow> None
         else next_entry (db_tree db) True True (set_ki (top_ki mc + 1) mc))"
      using neof init nodel unfolding mdb_cursor_next_def Let_def mc by simp
    have step: "\<exists>mc'. next_entry (db_tree db) True True mc1 = Some (mc', Ok (entry_at (entries t) (Suc r))) \<and> at_pos mc' t (Suc r) \<and> same_db mc mc'"
      if "at_entry mc1 t (Suc r)" "same_db mc mc1" "mc_init mc1" "\<not> mc_eof mc1" for mc1
      using read_at(2)[OF on_tree_same[OF o that(2)] that(1)] that by (auto simp: at_pos_def)
    show ?thesis
    proof (cases "top_ki mc + 1 \<ge> NUMKEYS (top_page (db_tree db) mc)")
      case False
      have "at_entry (set_ki (top_ki mc + 1) mc) t (Suc r)" "Suc r < length (entries t)" using sib(2) False by auto
      then show ?thesis using step[of "set_ki (top_ki mc + 1) mc"] False init neof unfolding run by simp
    next
      case up: True
      show ?thesis
      proof (cases "Suc r < length (entries t)")
        case True
        then obtain mc1 where mc1: "mdb_cursor_sibling (db_tree db) True mc = Some (mc1, Ok ())" "at_entry mc1 t (Suc r)" "keeps mc mc1"
          using sib(1)[OF up] by auto
        have "mc_init mc1" "\<not> mc_eof mc1" using mc1(3) init neof by (auto simp: keeps_def)
        then show ?thesis using step[OF mc1(2) keeps_same[OF mc1(3)]] up mc1(1) True unfolding run by simp
      next
        case False
        then have "mdb_cursor_sibling (db_tree db) True mc = Some (mc, Err MDB_NOTFOUND)" using sib(1)[OF up] by simp
        moreover have "at_pos (mc\<lparr>mc_eof := True\<rparr>) t r" using e init False sib(5) by (simp add: at_pos_def)
        ultimately show ?thesis using up False unfolding run by simp
      qed
    qed
  qed
qed

lemma prev_spec:
  assumes o: "on_tree db h t mc" and a: "at_pos mc t r"
  shows "\<exists>mc'. mdb_cursor_prev db True True mc =
      Some (mc', if 0 < r then Ok (entry_at (entries t) (r - 1)) else Err MDB_NOTFOUND) \<and>
    at_pos mc' t (r - 1) \<and> same_db mc mc'"
proof -
  define mc0 where "mc0 = mc\<lparr>mc_eof := False, mc_del := False\<rparr>"
  have init: "mc_init mc" "mc_init mc0" "\<not> mc_eof mc0" and e: "at_entry mc0 t r" using a by (auto simp: at_pos_def mc0_def)
  have same: "same_db mc mc0" using o by (simp add: same_db_def mc0_def on_tree_def)
  note o0 = on_tree_same[OF o same]
  note sib = sibling_entry[OF o0 e]
  have run: "mdb_cursor_prev db True True mc = (if top_ki mc0 = 0 then
        cthen (mdb_cursor_sibling (db_tree db) False)
          (cthen (cupd (\<lambda>mc. set_ki (u16_sub (NUMKEYS (top_page (db_tree db) mc)) 1) mc)) (prev_entry (db_tree db) True True)) mc0
      else prev_entry (db_tree db) True True (set_ki (top_ki mc0 - 1) mc0))"
    using init(1) by (simp add: mdb_cursor_prev_def Let_def mc0_def)
  have step: "\<exists>mc'. prev_entry (db_tree db) True True mc1 = Some (mc', Ok (entry_at (entries t) (r - 1))) \<and> at_pos mc' t (r - 1) \<and> same_db mc mc'"
    if "at_entry mc1 t (r - 1)" "same_db mc0 mc1" "mc_init mc1" "\<not> mc_eof mc1" for mc1
    using read_at(3)[OF on_tree_same[OF o0 that(2)] that(1)] that same_db_trans[OF same] by (auto simp: at_pos_def)
  show ?thesis
  proof (cases "top_ki mc0 = 0")
    case False
    then have "at_entry (set_ki (top_ki mc0 - 1) mc0) t (r - 1)" "0 < r" using sib(4) by auto
    then show ?thesis using step[of "set_ki (top_ki mc0 - 1) mc0"] False init unfolding run by simp
  next
    case zero: True
    show ?thesis
    proof (cases "0 < r")
      case True
      then obtain mc1 where mc1: "mdb_cursor_sibling (db_tree db) False mc0 = Some (mc1, Ok ())" "at_entry mc1 t (r - 1)" "keeps mc0 mc1"
        "set_ki (u16_sub (NUMKEYS (top_page (db_tree db) mc1)) 1) mc1 = mc1" using sib(3)[OF zero] by auto
      have "mc_init mc1" "\<not> mc_eof mc1" using mc1(3) init by (auto simp: keeps_def)
      then show ?thesis using step[OF mc1(2) keeps_same[OF mc1(3)]] zero True mc1(4) unfolding run
        by (simp add: cthen_Some[where m = "mdb_cursor_sibling (db_tree db) False", OF mc1(1)])
    next
      case False
      then have "mdb_cursor_sibling (db_tree db) False mc0 = Some (mc0, Err MDB_NOTFOUND)" using sib(3)[OF zero] by simp
      moreover have "at_pos mc0 t r" using e init by (simp add: at_pos_def)
      ultimately show ?thesis using zero False same unfolding run by (simp add: cthen_Err)
    qed
  qed
qed

end
