(* ===== verification/Cursor_Set.thy ===== *)
theory Cursor_Set
  imports Cursor_Iterator
begin

text \<open>
  The SET operations find the place of their key in the sorted list of all entries, from whatever place
  the cursor is at: on its own page, by the search near it, or from a retained ancestor.
\<close>

section \<open>The leaf that decides\<close>

text \<open>A leaf that covers a key tells its place among all entries.\<close>

definition covers :: "tree \<Rightarrow> nat list \<Rightarrow> (bytes \<times> bytes) list \<Rightarrow> bytes \<Rightarrow> bool" where
  "covers t p es k \<longleftrightarrow> place_in k (entries t) = offset t p + place_in k es \<and> (k \<in> fst ` set (entries t) \<longleftrightarrow> k \<in> fst ` set es)"

lemma covers_key_path:
  assumes "on_tree db h t mc"
  obtains a es where "sub t (key_path k t) = TLeaf a es" "covers t (key_path k t) es k"
  using key_leaf[OF on_treeD(1)[OF assms], of k] unfolding covers_def by metis

lemma leaf_split:
  assumes o: "on_tree db h t mc" and v: "valid_path t p" and l: "sub t p = TLeaf a es"
  obtains xs ys where "entries t = xs @ es @ ys" "length xs = offset t p"
    "\<And>x y. x \<in> fst ` set xs \<Longrightarrow> y \<in> fst ` set es \<Longrightarrow> x < y" "\<And>x y. x \<in> fst ` set es \<Longrightarrow> y \<in> fst ` set ys \<Longrightarrow> x < y"
    "\<And>x y. x \<in> fst ` set xs \<Longrightarrow> y \<in> fst ` set ys \<Longrightarrow> x < y"
proof -
  note d = on_treeD[OF o]
  obtain xs ys where e: "entries t = xs @ es @ ys" "length xs = offset t p" using entries_split[OF v] l by auto
  have "sorted_wrt (<) (map fst xs @ map fst es @ map fst ys)" using bst_sorted[OF d(7,6)] e(1) by simp
  then have o3: "\<And>x y. x \<in> fst ` set xs \<Longrightarrow> y \<in> fst ` set es \<Longrightarrow> x < y" "\<And>x y. x \<in> fst ` set es \<Longrightarrow> y \<in> fst ` set ys \<Longrightarrow> x < y"
    "\<And>x y. x \<in> fst ` set xs \<Longrightarrow> y \<in> fst ` set ys \<Longrightarrow> x < y"
    unfolding sorted_wrt_append by (auto simp: ball_Un)
  show ?thesis by (rule that[OF e o3])
qed

lemma covers_between:
  assumes o: "on_tree db h t mc" and v: "valid_path t p" and l: "sub t p = TLeaf a es"
    and x: "x \<in> fst ` set es" "x \<le> k" and y: "y \<in> fst ` set es" "k \<le> y"
  shows "covers t p es k"
proof -
  obtain xs ys where s: "entries t = xs @ es @ ys" "length xs = offset t p"
    "\<And>x y. x \<in> fst ` set xs \<Longrightarrow> y \<in> fst ` set es \<Longrightarrow> x < y" "\<And>x y. x \<in> fst ` set es \<Longrightarrow> y \<in> fst ` set ys \<Longrightarrow> x < y"
    using leaf_split[OF o v l] by metis
  have "\<forall>e\<in>set xs. fst e < k" using s(3) x by (metis image_eqI less_le_trans)
  moreover have "\<forall>e\<in>set ys. k < fst e" using s(4) y by (metis image_eqI le_less_trans)
  ultimately show ?thesis
    unfolding covers_def s(1) s(2)[symmetric] using sorted_split[OF leaf_of(2)[OF o v l]] by blast
qed

text \<open>All keys of the last leaf are smaller, or all keys of the only leaf are greater.\<close>

lemma place_behind:
  assumes o: "on_tree db h t mc" and v: "valid_path t p" and l: "sub t p = TLeaf a es"
    and last: "offset t p + length es = length (entries t)" and less: "\<forall>x\<in>fst ` set es. x < k"
  shows "place_in k (entries t) = length (entries t)" "k \<notin> fst ` set (entries t)"
proof -
  obtain xs ys where s: "entries t = xs @ es @ ys" "length xs = offset t p"
    "\<And>x y. x \<in> fst ` set xs \<Longrightarrow> y \<in> fst ` set es \<Longrightarrow> x < y" using leaf_split[OF o v l] by metis
  have "ys = []" using last s(1,2) by simp
  moreover have "\<forall>x\<in>fst ` set xs. x < k"
  proof
    fix x assume x: "x \<in> fst ` set xs"
    obtain e where "e \<in> set es" using leaf_of(4)[OF o v l] by (cases es) auto
    then show "x < k" using s(3)[OF x, of "fst e"] less by force
  qed
  ultimately have all: "\<forall>e\<in>set (entries t). fst e < k" using s(1) less by auto
  have "takeWhile (\<lambda>e. fst e < k) (entries t) = entries t" unfolding takeWhile_eq_all_conv by (rule all)
  then show "place_in k (entries t) = length (entries t)" unfolding place_in_def by (rule arg_cong)
  show "k \<notin> fst ` set (entries t)" using all by auto
qed

lemma place_before: "\<forall>x\<in>fst ` set es. k < x \<Longrightarrow> place_in k es = 0 \<and> k \<notin> fst ` set es"
  by (cases es) (auto simp: place_in_def)

text \<open>The last leaf is the one where no ancestor has a right sibling.\<close>

lemma beside_right_None:
  "valid_path t p \<Longrightarrow> beside True t p = None \<longleftrightarrow> (\<forall>j<length p. width (sub t (take j p)) \<le> Suc (p ! j))"
proof (induction p arbitrary: t)
  case (Cons i p)
  then obtain a seps ts where t: "t = TBranch a seps ts" by (cases t) auto
  have IH: "beside True (ts ! i) p = None \<longleftrightarrow> (\<forall>j<length p. width (sub (ts ! i) (take j p)) \<le> Suc (p ! j))" using Cons t by simp
  have "(\<forall>j<length (i # p). width (sub t (take j (i # p))) \<le> Suc ((i # p) ! j)) \<longleftrightarrow>
      length ts \<le> Suc i \<and> (\<forall>j<length p. width (sub (ts ! i) (take j p)) \<le> Suc (p ! j))"
    by (simp add: t less_Suc_eq_0_disj all_conj_distrib flip: ex_simps) (auto simp: less_Suc_eq_0_disj)
  then show ?case using IH t by (auto split: option.splits)
qed simp

lemma parents_right:
  assumes o: "on_tree db h t mc" and s: "stack_at mc t p"
  shows "parents_have_right (db_tree db) mc \<longleftrightarrow> beside True t p \<noteq> None"
proof -
  note d = on_treeD[OF o] and sd = stack_atD[OF s]
  have "mc_ki mc j < u32_pred (NUMKEYS (ce_deref (te_ce (db_tree db)) (mc_pg mc j))) \<longleftrightarrow> \<not> width (sub t (take j p)) \<le> Suc (p ! j)"
    if j: "j < length p" for j
  proof -
    obtain a seps ts where u: "sub t (take j p) = TBranch a seps ts" "p ! j < length ts" using path_branch[OF sd(1) j] by metis
    have "stored (db_tree db) (mc_txn mc) (TBranch a seps ts)" using sub_props[OF valid_take[OF sd(1)] d(6-8), of j] u(1) by simp
    note b = branch_storedD[OF this]
    have pg: "mc_pg mc j = a" "mc_ki mc j = p ! j" using s j u(1) by (auto simp: stack_at_def)
    have "u32_pred (length ts) = length ts - 1"
      using u32_pred[of "length ts"] b(5,6) numkeys_less[of "ce_deref (te_ce (db_tree db)) a"] by simp
    then show ?thesis using u b(5) pg by auto
  qed
  then show ?thesis
    unfolding parents_have_right_def list_ex_iff beside_right_None[OF sd(1)] using sd(3) by auto
qed

section \<open>Comparing on the page\<close>

lemma page_cmp_leaf:
  assumes s: "stack_at mc t p" and l: "sub t p = TLeaf a es" "leaf_stored te (mc_txn mc) a es" and np: "\<not> ce_prefix (te_ce te)"
    and i: "i < length es" and cmp: "te_cmp te = Cmp_memn" and k: "length k < 2 ^ 32"
  shows "\<exists>rd. page_cmp te k i mc = Some (mc\<lparr>mc_reader := rd\<rparr>, Ok (lexcmp k (fst (es ! i))))"
proof -
  note top = leaf_top[OF s l]
  obtain rd where "cursor_read_key te i mc = Some (mc\<lparr>mc_reader := rd\<rparr>, Ok (fst (es ! i)))"
    using read_key_leaf[of te _ mc es i] l(2) top(1) np i by blast
  then show ?thesis
    using top(3) cmp cmp_memn_lexcmp[OF k leaf_storedD(9)[OF l(2) np i]] by (auto simp: page_cmp_def cbind_def)
qed

lemma leaf_ordered:
  assumes l: "leaf_stored te txn a es" and srt: "sorted_wrt (<) (map fst es)" and np: "\<not> ce_prefix (te_ce te)" and k: "length k < 2 ^ 32"
  shows "ordered_keys Cmp_memn (ce_deref (te_ce te) a) k 0 (lexcmp k) (map fst es)"
  using leaf_storedD(5,8,9)[OF l] np k sorted_lexcmp[OF srt] by (auto simp: ordered_keys_def cmp_memn_lexcmp)

lemma near_leaf:
  assumes l: "leaf_stored te txn a es" and srt: "sorted_wrt (<) (map fst es)" and np: "\<not> ce_prefix (te_ce te)" and k: "length k < 2 ^ 32"
    and cmp: "te_cmp te = Cmp_memn" and ends: "fst (es ! 0) < k" "k < fst (es ! (length es - 1))"
    and i: "i < length es" "lexcmp k (fst (es ! i)) \<noteq> 0"
  shows "mdb_node_search_near (te_ce te) (te_cmp te) a k i (lexcmp k (fst (es ! i))) = Some (Ok (place_in k es, k \<in> fst ` set es))"
proof -
  have n: "length (map fst es) < 2 ^ 31" using leaf_storedD(5)[OF l] numkeys_less[of "ce_deref (te_ce te) a"] by simp
  have ne: "0 < length es" "es \<noteq> []" using i by auto
  have "mdb_node_search_near (te_ce te) Cmp_memn a k i (lexcmp k (fst (es ! i))) =
      Some (Ok (key_place (lexcmp k) (map fst es), \<exists>x\<in>set (map fst es). lexcmp k x = 0))"
    by (rule node_search_near_place[OF leaf_ordered[OF l srt np k] n]) (use ends i ne in \<open>auto simp: lexcmp_order\<close>)
  then show ?thesis by (simp add: cmp key_place_lexcmp place_in_map exact_lexcmp[of "map fst es", simplified])
qed

section \<open>The steps of SET\<close>

text \<open>What each way out of the part on the cursor's own page means.\<close>

definition goto_ok :: "tree \<Rightarrow> nat list \<Rightarrow> (bytes \<times> bytes) list \<Rightarrow> bytes \<Rightarrow> bool \<Rightarrow> cursor \<Rightarrow> cursor \<Rightarrow> set_next res \<Rightarrow> bool" where
  "goto_ok t p es k wx mc mc' r \<longleftrightarrow> same_db mc mc' \<and> mc_init mc' = mc_init mc \<and> (case r of
     Ok Set1 \<Rightarrow> at_entry mc' t (place_in k (entries t)) \<and> (k \<in> fst ` set (entries t) \<or> \<not> wx)
   | Ok Set2 \<Rightarrow> stack_at mc' t p \<and> covers t p es k
   | Ok (Search direction) \<Rightarrow> stack_at mc' t p \<and> (\<exists>x\<in>fst ` set es. on_side direction k x)
   | Err e \<Rightarrow> e = MDB_NOTFOUND \<and> at_leaf mc' t \<and> k \<notin> fst ` set (entries t) \<and> (wx \<or> place_in k (entries t) = length (entries t))
   | Abort \<Rightarrow> False)"

lemma leaf_at:
  assumes "stack_at mc t p" "sub t p = TLeaf a es"
  shows "at_leaf mc t" "i < length es \<Longrightarrow> at_entry (set_ki i mc) t (offset t p + i)"
  using assms stack_at_set_ki[OF assms(1)] by (auto simp: at_leaf_def at_entry_def)

lemma outside_spec:
  assumes o: "on_tree db h t mc" and s: "stack_at mc t p" and l: "sub t p = TLeaf a es"
    and wx: "wx \<or> op = MDB_SET_RANGE"
    and side: "(0 < c \<and> (\<forall>x\<in>fst ` set es. x < k)) \<or> (c < 0 \<and> (\<forall>x\<in>fst ` set es. k < x))"
  shows "\<exists>mc' r. set_outside (db_tree db) op wx c mc = Some (mc', r) \<and> goto_ok t p es k wx mc mc' r"
proof -
  note d = on_treeD[OF o] and v = stack_atD(1)[OF s] and sd = stack_atD[OF s]
  note lf = leaf_of[OF o v l]
  have ne: "fst (es ! 0) \<in> fst ` set es" using lf(4) by simp
  have search: ?thesis if "set_outside (db_tree db) op wx c mc = Some (mc, Ok (Search c))"
    using that side ne s by (auto simp: goto_ok_def on_side_def)
  show ?thesis
  proof (cases "c > 0 \<and> \<not> parents_have_right (db_tree db) mc")
    case True
    then have "beside True t p = None" using parents_right[OF o s] by simp
    then have last: "offset t p + length es = length (entries t)" using offset_beside_right[OF d(5) v lf(3)] l by simp
    have "\<forall>x\<in>fst ` set es. x < k" using side True by auto
    note pl = place_behind[OF o v l last this]
    then show ?thesis using True leaf_at(1)[OF stack_at_set_ki[OF s] l] by (auto simp: set_outside_def goto_ok_def)
  next
    case inner: False
    show ?thesis
    proof (cases "mc_top mc = 0")
      case False
      then show ?thesis using inner search by (auto simp: set_outside_def)
    next
      case True
      then have p: "p = []" using sd(3) by simp
      then have "\<not> parents_have_right (db_tree db) mc" using parents_right[OF o s] by simp
      then have "\<forall>x\<in>fst ` set es. k < x" using inner side by auto
      then have pl: "place_in k (entries t) = 0" "k \<notin> fst ` set (entries t)" using place_before[of es k] l p by auto
      have "at_entry (set_ki 0 mc) t 0" using leaf_at(2)[OF s l, of 0] lf(4) p by simp
      moreover have "\<not> (c > 0 \<and> \<not> parents_have_right (db_tree db) mc)" using inner by simp
      ultimately show ?thesis using pl True wx at_entry_leaf by (auto simp: set_outside_def goto_ok_def)
    qed
  qed
qed

lemma inside_spec:
  assumes o: "on_tree db h t mc" and s: "stack_at mc t p" and l: "sub t p = TLeaf a es" and k: "length k < 2 ^ 32"
    and ends: "fst (es ! 0) < k" "k < fst (es ! (length es - 1))"
  shows "\<exists>mc' r. set_inside (db_tree db) k wx mc = Some (mc', r) \<and> goto_ok t p es k wx mc mc' r"
proof -
  note d = on_treeD[OF o] and v = stack_atD(1)[OF s]
  note lf = leaf_of[OF o v l]
  note top = leaf_top[OF s l lf(1)]
  have mem: "fst (es ! 0) \<in> fst ` set es" "fst (es ! (length es - 1)) \<in> fst ` set es" using lf(4) by simp_all
  have cov: "covers t p es k"
    by (rule covers_between[OF o v l mem(1) _ mem(2)]) (use ends in simp_all)
  have place: "place_in k es < length es"
  proof (rule ccontr)
    assume "\<not> place_in k es < length es"
    then have "takeWhile (\<lambda>e. fst e < k) es = es" using place_in_le[of k es] unfolding place_in_def
      by (metis le_antisym linorder_not_less takeWhile_eq_take take_all)
    then have "fst (es ! (length es - 1)) < k" using lf(4) by (metis diff_less length_greater_0_conv nth_mem takeWhile_eq_all_conv zero_less_one)
    then show False using ends(2) by simp
  qed
  show ?thesis
  proof (cases "top_ki mc < length es")
    case False
    then show ?thesis using s cov top(4) by (auto simp: set_inside_def goto_ok_def)
  next
    case i: True
    obtain rd where c: "page_cmp (db_tree db) k (top_ki mc) mc = Some (mc\<lparr>mc_reader := rd\<rparr>, Ok (lexcmp k (fst (es ! top_ki mc))))"
      using page_cmp_leaf[OF s l lf(1) d(4) i d(10) k] by blast
    define mc1 where "mc1 = mc\<lparr>mc_reader := rd\<rparr>"
    have s1: "stack_at mc1 t p" "top_ki mc1 = top_ki mc" "same_db mc mc1" "mc_init mc1 = mc_init mc" using s by (auto simp: mc1_def same_db_def)
    note top1 = leaf_top[OF s1(1) l lf(1)]
    show ?thesis
    proof (cases "lexcmp k (fst (es ! top_ki mc)) = 0")
      case True
      then have eq: "k = fst (es ! top_ki mc)" by (auto simp: lexcmp_order split: if_splits)
      then have "k \<in> fst ` set es" using i by simp
      moreover have "place_in k es = top_ki mc"
      proof -
        have "place_in k es < length es" "fst (es ! place_in k es) = k" using place_in_exact[OF lf(2) \<open>k \<in> fst ` set es\<close>] by auto
        then show ?thesis using eq i lf(2) by (metis length_map less_irrefl linorder_neqE_nat nth_map sorted_wrt_nth_less)
      qed
      ultimately have "at_entry mc t (place_in k (entries t))" "k \<in> fst ` set (entries t)"
        using cov s l i by (auto simp: covers_def at_entry_def)
      then show ?thesis using True i top(4) c by (auto simp: set_inside_def goto_ok_def cbind_def same_db_def)
    next
      case False
      note near = near_leaf[OF lf(1,2) d(4) k d(10) ends i False]
      let ?mc2 = "mc1\<lparr>mc_eof := False\<rparr>" and ?pl = "place_in k es"
      have "top_addr ?mc2 = a" "top_page (db_tree db) ?mc2 = top_page (db_tree db) mc1"
        using top1(1) by (simp_all add: top_addr_def top_page_def)
      then have run: "set_inside (db_tree db) k wx mc =
          Some (set_ki ?pl ?mc2, if wx \<and> k \<notin> fst ` set es then Err MDB_NOTFOUND else Ok Set1)"
        using i top(4) c False d(4) top1 near s1(2)
        by (simp add: set_inside_def cbind_def mc1_def[symmetric] Let_def top_ki_def)
      have "at_entry (set_ki ?pl ?mc2) t (place_in k (entries t))" "stack_at ?mc2 t p"
        using leaf_at(2)[OF _ l place, of ?mc2] s1(1) cov by (simp_all add: covers_def)
      then show ?thesis unfolding run
        using cov s1 at_entry_leaf by (auto simp: goto_ok_def covers_def)
    qed
  qed
qed

lemma goto_reader:
  assumes "goto_ok t p es k wx (mc\<lparr>mc_reader := rd\<rparr>) mc' r"
  shows "goto_ok t p es k wx mc mc' r"
  using assms by (simp add: goto_ok_def same_db_def)

lemma on_page_spec:
  assumes o: "on_tree db h t mc" and s: "stack_at mc t p" and l: "sub t p = TLeaf a es" and k: "length k < 2 ^ 32"
    and wx: "wx \<or> op = MDB_SET_RANGE"
  shows "\<exists>mc' r. set_on_page (db_tree db) k op wx mc = Some (mc', r) \<and> goto_ok t p es k wx mc mc' r"
proof -
  note d = on_treeD[OF o] and v = stack_atD(1)[OF s]
  note lf = leaf_of[OF o v l]
  note top = leaf_top[OF s l lf(1)]
  let ?n = "length es"
  have n: "0 < ?n" "?n - 1 < ?n" using lf(4) by simp_all
  have srt: "fst (es ! i) < fst (es ! j)" if "i < j" "j < ?n" for i j using sorted_wrt_nth_less[OF lf(2) that(1)] that by simp
  have found: "goto_ok t p es k wx mc (set_ki i (mc\<lparr>mc_reader := rd\<rparr>)) (Ok Set1)" if i: "i < ?n" and "lexcmp k (fst (es ! i)) = 0" for i rd
  proof -
    have eq: "k = fst (es ! i)" using that(2) by (auto simp: lexcmp_order split: if_splits)
    have mem: "k \<in> fst ` set es" using eq i by simp
    have cov: "covers t p es k" by (rule covers_between[OF o v l mem order_refl mem order_refl])
    have "place_in k es < ?n" "fst (es ! place_in k es) = k" using place_in_exact[OF lf(2) mem] by auto
    then have "place_in k es = i" using eq i srt by (metis less_irrefl linorder_neqE_nat)
    then have "place_in k (entries t) = offset t p + i" "k \<in> fst ` set (entries t)" using cov mem by (auto simp: covers_def)
    then show ?thesis using leaf_at(2)[OF _ l i, of "mc\<lparr>mc_reader := rd\<rparr>"] s by (auto simp: goto_ok_def)
  qed
  obtain rd0 where c0: "page_cmp (db_tree db) k 0 mc = Some (mc\<lparr>mc_reader := rd0\<rparr>, Ok (lexcmp k (fst (es ! 0))))"
    using page_cmp_leaf[OF s l lf(1) d(4) n(1) d(10) k] by blast
  define mc0 where "mc0 = mc\<lparr>mc_reader := rd0\<rparr>"
  have s0: "stack_at mc0 t p" "same_db mc mc0" using s by (auto simp: mc0_def same_db_def)
  note o0 = on_tree_same[OF o s0(2)]
  obtain rd1 where c1: "page_cmp (db_tree db) k (?n - 1) mc0 = Some (mc0\<lparr>mc_reader := rd1\<rparr>, Ok (lexcmp k (fst (es ! (?n - 1)))))"
    using page_cmp_leaf[OF s0(1) l _ d(4) n(2) d(10) k] lf(1) s0(2) by (auto simp: same_db_def)
  define mc1 where "mc1 = mc\<lparr>mc_reader := rd1\<rparr>"
  have m1: "mc0\<lparr>mc_reader := rd1\<rparr> = mc1" by (simp add: mc0_def mc1_def)
  have s1: "stack_at mc1 t p" "same_db mc mc1" using s by (auto simp: mc1_def same_db_def)
  note o1 = on_tree_same[OF o s1(2)]
  have run: "set_on_page (db_tree db) k op wx mc =
      (let c = lexcmp k (fst (es ! 0)) in
       if c = 0 then Some (set_ki 0 mc0, Ok Set1)
       else if c > 0 then
         if ?n > 1 then
           (let c = lexcmp k (fst (es ! (?n - 1))) in
            if c = 0 then Some (set_ki (?n - 1) mc1, Ok Set1)
            else if c < 0 then set_inside (db_tree db) k wx mc1
            else set_outside (db_tree db) op wx c mc1)
         else set_outside (db_tree db) op wx c mc0
       else set_outside (db_tree db) op wx c mc0)"
    using top(4) n(1) c0 c1 unfolding set_on_page_def mc0_def[symmetric] m1
    by (simp add: cbind_def Let_def)
  have above: "\<forall>x\<in>fst ` set es. x < k" if "lexcmp k (fst (es ! (?n - 1))) > 0"
  proof
    fix x assume "x \<in> fst ` set es"
    then obtain i where i: "i < ?n" "x = fst (es ! i)" by (auto simp: in_set_conv_nth)
    have "i = ?n - 1 \<or> i < ?n - 1" using i(1) by linarith
    then have "x \<le> fst (es ! (?n - 1))" using srt[of i "?n - 1"] i n by auto
    then show "x < k" using that by (auto simp: lexcmp_order split: if_splits)
  qed
  have below: "\<forall>x\<in>fst ` set es. k < x" if "lexcmp k (fst (es ! 0)) < 0"
  proof
    fix x assume "x \<in> fst ` set es"
    then obtain i where i: "i < ?n" "x = fst (es ! i)" by (auto simp: in_set_conv_nth)
    then have "fst (es ! 0) \<le> x" using srt[of 0 i] by (cases i) auto
    then show "k < x" using that by (auto simp: lexcmp_order split: if_splits)
  qed
  let ?c0 = "lexcmp k (fst (es ! 0))" and ?c1 = "lexcmp k (fst (es ! (?n - 1)))"
  consider "?c0 = 0" | "?c0 > 0" "?n > 1" "?c1 = 0" | "?c0 > 0" "?n > 1" "?c1 < 0" | "?c0 > 0" "?n > 1" "?c1 > 0"
    | "?c0 > 0" "?n = 1" | "?c0 < 0" using n by linarith
  then show ?thesis
  proof cases
    case 1
    then show ?thesis using found[OF n(1), of rd0] unfolding run by (auto simp: mc0_def)
  next
    case 2
    then show ?thesis using found[OF n(2), of rd1] unfolding run by (auto simp: mc1_def)
  next
    case 3
    have "fst (es ! 0) < k" "k < fst (es ! (?n - 1))" using 3 by (auto simp: lexcmp_order split: if_splits)
    from inside_spec[OF o1 s1(1) l k this, of wx] show ?thesis
      using 3 goto_reader[where mc = mc and rd = rd1] unfolding run by (auto simp: mc1_def Let_def)
  next
    case 4
    then show ?thesis
      using outside_spec[OF o1 s1(1) l wx, where c = ?c1 and k = k] above goto_reader[where mc = mc and rd = rd1] unfolding run by (auto simp: mc1_def Let_def)
  next
    case 5
    then show ?thesis
      using outside_spec[OF o0 s0(1) l wx, where c = ?c0 and k = k] above goto_reader[where mc = mc and rd = rd0] unfolding run by (auto simp: mc0_def Let_def)
  next
    case 6
    then show ?thesis
      using outside_spec[OF o0 s0(1) l wx, where c = ?c0 and k = k] below goto_reader[where mc = mc and rd = rd0] unfolding run by (auto simp: mc0_def Let_def)
  qed
qed

section \<open>The search on the leaf\<close>

text \<open>What the labels \<open>set2\<close> and \<open>set1\<close> leave: the cursor at the place of the key, or the absence of the key.\<close>

definition placed :: "tree \<Rightarrow> bytes \<Rightarrow> bool \<Rightarrow> cursor \<Rightarrow> cursor \<Rightarrow> unit res \<Rightarrow> bool" where
  "placed t k wx mc mc' r \<longleftrightarrow> same_db mc mc' \<and> mc_init mc' = mc_init mc \<and> (case r of
     Ok _ \<Rightarrow> at_entry mc' t (place_in k (entries t)) \<and> (k \<in> fst ` set (entries t) \<or> \<not> wx)
   | Err e \<Rightarrow> e = MDB_NOTFOUND \<and> at_leaf mc' t \<and> k \<notin> fst ` set (entries t) \<and> (wx \<or> place_in k (entries t) = length (entries t))
   | Abort \<Rightarrow> False)"

lemma set2_spec:
  assumes o: "on_tree db h t mc" and s: "stack_at mc t p" and l: "sub t p = TLeaf a es" and k: "length (snd key) < 2 ^ 32"
    and cov: "covers t p es (snd key)"
  shows "\<exists>mc' r. set2_search (db_tree db) key wx mc = Some (mc', r) \<and> placed t (snd key) wx mc mc' r"
proof -
  note d = on_treeD[OF o] and v = stack_atD(1)[OF s]
  note lf = leaf_of[OF o v l]
  let ?k = "snd key" and ?hit = "snd key \<in> fst ` set es"
  obtain rd where ns: "cursor_node_search (db_tree db) key mc = Some (set_ki (place_in ?k es) (mc\<lparr>mc_reader := rd\<rparr>),
      Ok (?hit, place_in ?k es < length es))"
    using node_search_leaf[OF s l lf(1,2) d(10) k] by blast
  define mc1 where "mc1 = set_ki (place_in ?k es) (mc\<lparr>mc_reader := rd\<rparr>)"
  have s1: "stack_at mc1 t p" "top_ki mc1 = place_in ?k es" "same_db mc mc1" "mc_init mc1 = mc_init mc"
    using set_ki_reader[OF s] by (simp_all add: mc1_def)
  note o1 = on_tree_same[OF o s1(3)]
  have run: "set2_search (db_tree db) key wx mc =
     (if wx \<and> \<not> ?hit then Some (mc1, Err MDB_NOTFOUND)
      else if place_in ?k es < length es then Some (mc1, Ok ())
      else case mdb_cursor_sibling (db_tree db) True mc1 of
           Some (mc, Err e) \<Rightarrow> Some (mc\<lparr>mc_eof := True\<rparr>, Err e)
         | Some (mc, Ok _) \<Rightarrow> cguard (IS_LEAF (top_page (db_tree db) mc)) (cret ()) mc
         | r \<Rightarrow> r)"
    unfolding set2_search_def cbind_Some[where m = "cursor_node_search (db_tree db) key", OF ns, folded mc1_def] by simp
  have hit: "?hit \<Longrightarrow> place_in ?k es < length es" using place_in_exact[OF lf(2)] by blast
  have pl: "place_in ?k (entries t) = offset t p + place_in ?k es" and mem: "?k \<in> fst ` set (entries t) \<longleftrightarrow> ?hit"
    using cov by (auto simp: covers_def)
  consider "wx \<and> \<not> ?hit" | "\<not> (wx \<and> \<not> ?hit)" "place_in ?k es < length es" | "\<not> (wx \<and> \<not> ?hit)" "\<not> place_in ?k es < length es" by blast
  then show ?thesis
  proof cases
    case 1
    then show ?thesis using s1 leaf_at(1)[OF s1(1) l] mem unfolding run by (simp add: placed_def)
  next
    case 2
    then have "at_entry mc1 t (place_in ?k (entries t))" using s1 l pl by (auto simp: at_entry_def)
    then show ?thesis using 2 s1 mem unfolding run by (auto simp: placed_def)
  next
    case 3
    then have wx: "\<not> wx" "\<not> ?hit" and pl2: "place_in ?k (entries t) = offset t p + length es"
      using hit pl place_in_le[of ?k es] by auto
    note sib = sibling_spec[OF d(9,5-8) s1(1), of True]
    note right = offset_beside_right[OF d(5) v lf(3)]
    show ?thesis
    proof (cases "beside True t p")
      case None
      have "mdb_cursor_sibling (db_tree db) True mc1 = Some (mc1, Err MDB_NOTFOUND)" using sib None s1(3) by (simp add: same_db_def)
      moreover have "place_in ?k (entries t) = length (entries t)" using right None l pl2 by simp
      moreover have "at_leaf (mc1\<lparr>mc_eof := True\<rparr>) t" using leaf_at(1)[OF s1(1) l] by simp
      ultimately show ?thesis using 3 wx s1 mem unfolding run by (simp add: placed_def)
    next
      case (Some q)
      have q: "length q = h" "valid_path t q" using beside_length[OF Some d(5) v] lf(3) by auto
      obtain b fs where qf: "sub t q = TLeaf b fs" "fs \<noteq> []" using sub_leaf[OF d(5) q(2,1)] .
      obtain mc2 where mc2: "mdb_cursor_sibling (db_tree db) True mc1 = Some (mc2, Ok ())" "stack_at mc2 t q" "keeps mc1 mc2" "top_ki mc2 = 0"
        using sib Some s1(3) by (auto simp: same_db_def)
      have same: "same_db mc mc2" "mc_init mc2 = mc_init mc" using same_db_trans[OF s1(3) keeps_same[OF mc2(3)]] mc2(3) s1(4) by (auto simp: keeps_def)
      note l2 = leaf_top(2)[OF mc2(2) qf(1) leaf_of(1)[OF on_tree_same[OF o same(1)] q(2) qf(1)]]
      have "place_in ?k (entries t) = offset t q" using right Some l pl2 by simp
      then have "at_entry mc2 t (place_in ?k (entries t))" using mc2 qf by (auto simp: at_entry_def)
      then show ?thesis using 3 wx mc2(1) l2 same unfolding run by (simp add: placed_def)
    qed
  qed
qed

text \<open>The key and the data at the place, each when the operation returns it.\<close>

definition set_entry :: "MDB_cursor_op \<Rightarrow> bool \<Rightarrow> (bytes \<times> bytes) list \<Rightarrow> nat \<Rightarrow> entry" where
  "set_entry op wd es r = (if op = MDB_SET then None else Some (fst (es ! r)), if wd then Some (snd (es ! r)) else None)"

lemma set1_spec:
  assumes o: "on_tree db h t mc" and e: "at_entry mc t r" and op: "op = MDB_SET \<or> op = MDB_SET_KEY \<or> op = MDB_SET_RANGE"
  shows "\<exists>mc'. set1_finish (db_tree db) data op mc = Some (mc', Ok (set_entry op (data \<noteq> None) (entries t) r)) \<and> at_pos mc' t r \<and> same_db mc mc'"
proof -
  define mc1 where "mc1 = mc\<lparr>mc_init := True, mc_eof := False\<rparr>"
  obtain p a es where s: "stack_at mc t p" "sub t p = TLeaf a es" "top_ki mc < length es" "r = offset t p + top_ki mc"
    using e by (auto simp: at_entry_def)
  have s1: "stack_at mc1 t p" "top_ki mc1 = top_ki mc" "same_db mc mc1" "at_pos mc1 t r"
    using s(1) e by (simp_all add: mc1_def at_pos_def)
  note o1 = on_tree_same[OF o s1(3)]
  note v = stack_atD(1)[OF s1(1)]
  note lf = leaf_of[OF o1 v s(2)] and nth = nth_entries(1)[OF v s(2,3)]
  note top = leaf_top[OF s1(1) s(2) lf(1)]
  have i: "top_ki mc1 < length es" using s(3) s1(2) by simp
  have rd: "read_data (db_tree db) True mc1 = Some (mc1, Ok (Some (snd (es ! top_ki mc))))" using read_data_leaf[OF s1(1) s(2) lf(1) i, of True] s1(2) by simp
  have rd0: "read_data (db_tree db) False mc1 = Some (mc1, Ok None)" using read_data_leaf[OF s1(1) s(2) lf(1) i, of False] s1(2) by simp
  obtain rd' where rk: "cursor_read_key (db_tree db) (top_ki mc) mc1 = Some (mc1\<lparr>mc_reader := rd'\<rparr>, Ok (fst (es ! top_ki mc)))"
    using read_key_leaf[of "db_tree db" _ mc1 es "top_ki mc"] lf(1) top(1) on_treeD(4)[OF o] s(3) by blast
  have "at_pos (mc1\<lparr>mc_reader := rd'\<rparr>) t r" using s1(4) by (simp add: at_pos_def)
  moreover have "set1_finish (db_tree db) data op mc =
      Some (if op = MDB_SET then mc1 else mc1\<lparr>mc_reader := rd'\<rparr>, Ok (set_entry op (data \<noteq> None) (entries t) r))"
    using op rd rd0 rk top(3) s1(2) nth s(4) on_treeD(4)[OF o] unfolding set1_finish_def Let_def mc1_def[symmetric]
    by (cases data) (auto simp: set_data_def cbind_def is_get_both_def set_entry_def cget_def cret_def)
  ultimately show ?thesis using s1 by auto
qed

section \<open>mdb_cursor_set\<close>

text \<open>What is found, with an exact match wanted or not.\<close>

definition seek_hit :: "bool \<Rightarrow> (bytes \<times> bytes) list \<Rightarrow> bytes \<Rightarrow> bool" where
  "seek_hit wx es k \<longleftrightarrow> (if wx then k \<in> fst ` set es else place_in k es < length es)"

definition seek_done :: "tree \<Rightarrow> bytes \<Rightarrow> MDB_cursor_op \<Rightarrow> bool \<Rightarrow> bool \<Rightarrow> cursor \<Rightarrow> (cursor \<times> entry res) option \<Rightarrow> bool" where
  "seek_done t k op wx wd mc res \<longleftrightarrow> (\<exists>mc'. same_db mc mc' \<and>
     (if seek_hit wx (entries t) k
      then res = Some (mc', Ok (set_entry op wd (entries t) (place_in k (entries t)))) \<and> at_pos mc' t (place_in k (entries t))
      else res = Some (mc', Err MDB_NOTFOUND) \<and> mc_init mc' \<and> at_leaf mc' t))"

lemma at_entry_bound: "on_tree db h t mc \<Longrightarrow> at_entry mc t r \<Longrightarrow> r < length (entries t)"
  using sibling_entry(5) by blast

lemma seek_finish:
  assumes o: "on_tree db h t mc" and e: "at_entry mc t (place_in k (entries t))" and op: "op = MDB_SET \<or> op = MDB_SET_KEY \<or> op = MDB_SET_RANGE"
    and hit: "k \<in> fst ` set (entries t) \<or> \<not> wx" and same: "same_db mc0 mc"
  shows "seek_done t k op wx (data \<noteq> None) mc0 (set1_finish (db_tree db) data op mc)"
proof -
  have "seek_hit wx (entries t) k" using hit at_entry_bound[OF o e] by (auto simp: seek_hit_def)
  then show ?thesis using set1_spec[OF o e op] same_db_trans[OF same] by (fastforce simp: seek_done_def)
qed

lemma seek_missed:
  assumes "at_leaf mc t" "mc_init mc" "k \<notin> fst ` set (entries t)" "wx \<or> place_in k (entries t) = length (entries t)" "same_db mc0 mc"
  shows "seek_done t k op wx wd mc0 (Some (mc, Err MDB_NOTFOUND))"
  using assms by (auto simp: seek_done_def seek_hit_def)

lemma seek_search:
  assumes o: "on_tree db h t mc" and s: "stack_at mc t p" and l: "sub t p = TLeaf a es" and k: "length (snd key) < 2 ^ 32"
    and cov: "covers t p es (snd key)" and init: "mc_init mc" and op: "op = MDB_SET \<or> op = MDB_SET_KEY \<or> op = MDB_SET_RANGE"
    and same: "same_db mc0 mc"
  shows "seek_done t (snd key) op wx (data \<noteq> None) mc0 (cthen (set2_search (db_tree db) key wx) (set1_finish (db_tree db) data op) mc)"
proof -
  define m where "m = set2_search (db_tree db) key wx"
  obtain mc1 r where r: "m mc = Some (mc1, r)" "placed t (snd key) wx mc mc1 r"
    using set2_spec[OF o s l k cov, of wx] unfolding m_def by blast
  have same1: "same_db mc mc1" and init1: "mc_init mc1" using r(2) init by (simp_all add: placed_def)
  note same2 = same_db_trans[OF same same1]
  show ?thesis
  proof (cases r)
    case (Ok u)
    then show ?thesis using r seek_finish[OF on_tree_same[OF o same1] _ op _ same2]
      unfolding m_def[symmetric] by (auto simp: cthen_def cbind_def placed_def)
  next
    case (Err e)
    then show ?thesis using r seek_missed[OF _ init1 _ _ same2]
      unfolding m_def[symmetric] by (auto simp: cthen_def cbind_def placed_def)
  next
    case Abort
    then show ?thesis using r(2) by (simp add: placed_def)
  qed
qed

text \<open>A search that reaches the leaf of the key.\<close>

lemma seek_arrived:
  assumes o: "on_tree db h t mc" and m: "m mc = Some (mc1, Ok ())" "arrived mc mc1 t (key_path (snd key) t)" and k: "length (snd key) < 2 ^ 32"
    and op: "op = MDB_SET \<or> op = MDB_SET_KEY \<or> op = MDB_SET_RANGE" and same: "same_db mc0 mc"
  shows "seek_done t (snd key) op wx (data \<noteq> None) mc0 (cthen m (\<lambda>mc. cguard (IS_LEAF (top_page (db_tree db) mc))
      (cthen (set2_search (db_tree db) key wx) (set1_finish (db_tree db) data op)) mc) mc)"
proof -
  obtain a es where l: "sub t (key_path (snd key) t) = TLeaf a es" "covers t (key_path (snd key) t) es (snd key)"
    using covers_key_path[OF o] by metis
  have s: "stack_at mc1 t (key_path (snd key) t)" "mc_init mc1" using m(2) by (auto simp: arrived_def)
  note same1 = arrived_same[of mc mc1, OF m(2)]
  note o1 = on_tree_same[OF o same1]
  note top = leaf_top[OF s(1) l(1) leaf_of(1)[OF o1 stack_atD(1)[OF s(1)] l(1)]]
  show ?thesis unfolding cthen_Some[where m = m, OF m(1)] cguard_def
    using top(2) seek_search[OF o1 s(1) l(1) k l(2) s(2) op same_db_trans[OF same same1]] by simp
qed

lemma set_spec:
  assumes o: "on_tree db h t mc" and s: "settled mc t" and k: "snd key \<noteq> []" "length (snd key) < 2 ^ 32"
    and op: "op = MDB_SET \<or> op = MDB_SET_KEY \<or> op = MDB_SET_RANGE" and wx: "wx \<or> op = MDB_SET_RANGE"
  shows "seek_done t (snd key) op wx (data \<noteq> None) mc (mdb_cursor_set db key data op wx mc)"
proof (cases "mc_init mc")
  case False
  note d = on_treeD[OF o]
  define mc0 where "mc0 = mc\<lparr>mc_pg := (mc_pg mc)(0 := 0)\<rparr>"
  have same: "same_db mc mc0" by (simp add: same_db_def mc0_def)
  note o0 = on_tree_same[OF o same]
  have ok: "root_ok (db_tree db) t mc0" "above_ok (PS_KEY key) t [] mc0" using k by (simp_all add: mc0_def root_ok_def above_ok_def)
  obtain mc1 where m: "mdb_page_search db (PS_KEY key) mc0 = Some (mc1, Ok ())" "arrived mc0 mc1 t (key_path (snd key) t)"
    using page_search_arrives[OF on_treeD(1,2)[OF o0] ok] by auto
  from seek_arrived[where m = "mdb_page_search db (PS_KEY key)", OF o0 m k(2) op same] show ?thesis
    using False k(1) d(4) by (simp add: mdb_cursor_set_def Let_def mc0_def)
next
  case True
  note d = on_treeD[OF o]
  obtain p a es where p: "stack_at mc t p" "sub t p = TLeaf a es"
    using s True by (auto simp: settled_def at_leaf_def elim: is_leaf.elims)
  let ?search = "\<lambda>m. cthen m (\<lambda>mc. cguard (IS_LEAF (top_page (db_tree db) mc))
     (cthen (set2_search (db_tree db) key wx) (set1_finish (db_tree db) data op)) mc)"
  obtain mc1 r where r: "set_on_page (db_tree db) (snd key) op wx mc = Some (mc1, r)" "goto_ok t p es (snd key) wx mc mc1 r"
    using on_page_spec[OF o p k(2) wx] by blast
  have same: "same_db mc mc1" and init: "mc_init mc1" using r(2) True by (auto simp: goto_ok_def)
  note o1 = on_tree_same[OF o same]
  have run: "mdb_cursor_set db key data op wx mc = (case r of
      Ok Set1 \<Rightarrow> set1_finish (db_tree db) data op mc1
    | Ok Set2 \<Rightarrow> cthen (set2_search (db_tree db) key wx) (set1_finish (db_tree db) data op) mc1
    | Ok (Search direction) \<Rightarrow> ?search (mdb_page_search_reuse db key direction) mc1
    | Err e \<Rightarrow> Some (mc1, Err e)
    | Abort \<Rightarrow> Some (mc1, Abort))"
    using True k(1) d(4) r(1) by (simp add: mdb_cursor_set_def Let_def cbind_def split: res.splits set_next.splits)
  show ?thesis
  proof (cases r)
    case (Ok goto)
    show ?thesis
    proof (cases goto)
      case Set1
      then show ?thesis using r(2) Ok seek_finish[OF o1 _ op _ same] unfolding run by (simp add: goto_ok_def)
    next
      case Set2
      then show ?thesis using r(2) Ok seek_search[OF o1 _ p(2) k(2) _ init op same] unfolding run by (simp add: goto_ok_def)
    next
      case (Search direction)
      then obtain x where x: "x \<in> fst ` set es" "on_side direction (snd key) x" "stack_at mc1 t p" using r(2) Ok by (auto simp: goto_ok_def)
      have "x \<in> set (tree_keys (sub t p))" using x(1) p(2) by simp
      note reuse_arrives[OF on_treeD(1,2)[OF o1] x(3) k(2) this x(2)]
      then obtain mc2 where m: "mdb_page_search_reuse db key direction mc1 = Some (mc2, Ok ())" "arrived mc1 mc2 t (key_path (snd key) t)" by blast
      from seek_arrived[where m = "mdb_page_search_reuse db key direction", OF o1 m k(2) op same] show ?thesis
        using Ok Search unfolding run by simp
    qed
  next
    case (Err e)
    then show ?thesis using r(2) seek_missed[OF _ init _ _ same] unfolding run by (auto simp: goto_ok_def)
  next
    case Abort
    then show ?thesis using r(2) by (simp add: goto_ok_def)
  qed
qed

end
