(* ===== verification/Cursor_Refines.thy ===== *)
theory Cursor_Refines
  imports Cursor_Set
begin

text \<open>
  \<open>mdb_cursor_get\<close> refines an iterator over the sorted list of the entries of the tree: a sequence of
  calls returns what the iterator returns, whatever the cursor's page stack does.
\<close>

section \<open>The iterator\<close>

text \<open>
  \<open>Fresh\<close> is a cursor that no operation has placed, \<open>Lost\<close> one whose last SET operation found nothing. Where
  \<open>Lost\<close> is in the list depends on the borders of the pages, so no move from it has a specified result.
\<close>

datatype pos = Fresh | At nat | Lost

definition move_to :: "(bytes \<times> bytes) list \<Rightarrow> nat \<Rightarrow> (pos \<times> entry res) option" where
  "move_to es r = Some (At r, Ok (entry_at es r))"

fun list_next :: "(bytes \<times> bytes) list \<Rightarrow> pos \<Rightarrow> (pos \<times> entry res) option" where
  "list_next es Fresh = move_to es 0"
| "list_next es (At r) = (if Suc r < length es then move_to es (Suc r) else Some (At r, Err MDB_NOTFOUND))"
| "list_next es Lost = None"

fun list_prev :: "(bytes \<times> bytes) list \<Rightarrow> pos \<Rightarrow> (pos \<times> entry res) option" where
  "list_prev es Fresh = move_to es (length es - 1)"
| "list_prev es (At r) = (if 0 < r then move_to es (r - 1) else Some (At r, Err MDB_NOTFOUND))"
| "list_prev es Lost = None"

fun list_current :: "(bytes \<times> bytes) list \<Rightarrow> pos \<Rightarrow> (pos \<times> entry res) option" where
  "list_current es Fresh = Some (Fresh, Err EINVAL)"
| "list_current es (At r) = move_to es r"
| "list_current es Lost = None"

definition list_set :: "(bytes \<times> bytes) list \<Rightarrow> MDB_cursor_op \<Rightarrow> bytes \<Rightarrow> pos \<Rightarrow> (pos \<times> entry res) option" where
  "list_set es op k pos =
     (if k = [] then Some (pos, Err MDB_BAD_VALSIZE)
      else if seek_hit (op \<noteq> MDB_SET_RANGE) es k then Some (At (place_in k es), Ok (set_entry op True es (place_in k es)))
      else Some (Lost, Err MDB_NOTFOUND))"

text \<open>GET_BOTH on a database without duplicates is left out; see \<open>get_both_calls_null\<close> in Lookup.\<close>

fun list_step :: "(bytes \<times> bytes) list \<Rightarrow> MDB_cursor_op \<times> search_key \<Rightarrow> pos \<Rightarrow> (pos \<times> entry res) option" where
  "list_step es (MDB_FIRST, k) pos = move_to es 0"
| "list_step es (MDB_LAST, k) pos = move_to es (length es - 1)"
| "list_step es (MDB_NEXT, k) pos = list_next es pos"
| "list_step es (MDB_NEXT_DUP, k) pos = list_next es pos"
| "list_step es (MDB_NEXT_NODUP, k) pos = list_next es pos"
| "list_step es (MDB_PREV, k) pos = list_prev es pos"
| "list_step es (MDB_PREV_DUP, k) pos = list_prev es pos"
| "list_step es (MDB_PREV_NODUP, k) pos = list_prev es pos"
| "list_step es (MDB_GET_CURRENT, k) pos = list_current es pos"
| "list_step es (MDB_FIRST_DUP, k) pos = list_current es pos"
| "list_step es (MDB_LAST_DUP, k) pos = list_current es pos"
| "list_step es (MDB_SET, k) pos = list_set es MDB_SET (snd k) pos"
| "list_step es (MDB_SET_KEY, k) pos = list_set es MDB_SET_KEY (snd k) pos"
| "list_step es (MDB_SET_RANGE, k) pos = list_set es MDB_SET_RANGE (snd k) pos"
| "list_step es (MDB_GET_MULTIPLE, k) pos = Some (pos, Err (if pos = Fresh then EINVAL else MDB_INCOMPATIBLE))"
| "list_step es (MDB_NEXT_MULTIPLE, k) pos = Some (pos, Err MDB_INCOMPATIBLE)"
| "list_step es (MDB_PREV_MULTIPLE, k) pos = Some (pos, Err MDB_INCOMPATIBLE)"
| "list_step es (MDB_GET_BOTH, k) pos = None"
| "list_step es (MDB_GET_BOTH_RANGE, k) pos = None"

section \<open>Runs\<close>

primrec run_ops :: "('o \<Rightarrow> 's \<Rightarrow> ('s \<times> 'r) option) \<Rightarrow> 'o list \<Rightarrow> 's \<Rightarrow> ('s \<times> 'r list) option" where
  "run_ops step [] s = Some (s, [])"
| "run_ops step (x # xs) s = (case step x s of
     None \<Rightarrow> None
   | Some (s, r) \<Rightarrow> map_option (\<lambda>(s, rs). (s, r # rs)) (run_ops step xs s))"

text \<open>A forward simulation whose steps have the same results carries over to runs.\<close>

locale forward_simulation =
  fixes sim :: "'c \<Rightarrow> 'a \<Rightarrow> bool" and cstep :: "'o \<Rightarrow> 'c \<Rightarrow> ('c \<times> 'r) option" and astep :: "'o \<Rightarrow> 'a \<Rightarrow> ('a \<times> 'r) option"
    and legal :: "'o \<Rightarrow> bool"
  assumes step: "sim c a \<Longrightarrow> legal x \<Longrightarrow> astep x a = Some (a', r) \<Longrightarrow> \<exists>c'. cstep x c = Some (c', r) \<and> sim c' a'"
begin

lemma runs: "sim c a \<Longrightarrow> list_all legal xs \<Longrightarrow> run_ops astep xs a = Some (a', rs) \<Longrightarrow> \<exists>c'. run_ops cstep xs c = Some (c', rs) \<and> sim c' a'"
proof (induction xs arbitrary: c a rs)
  case (Cons x xs)
  then obtain a1 r rs1 where a: "astep x a = Some (a1, r)" "run_ops astep xs a1 = Some (a', rs1)" "rs = r # rs1"
    by (auto split: option.splits)
  obtain c1 where c: "cstep x c = Some (c1, r)" "sim c1 a1" using step[OF Cons.prems(1) _ a(1)] Cons.prems(2) by auto
  then show ?case using Cons.IH[OF c(2) _ a(2)] Cons.prems(2) a(3) by auto
qed simp

text \<open>A run of the simulated machine fails only where the specification does.\<close>

corollary runs_defined: "sim c a \<Longrightarrow> list_all legal xs \<Longrightarrow> run_ops astep xs a \<noteq> None \<Longrightarrow> run_ops cstep xs c \<noteq> None"
  using runs by fastforce

end

section \<open>The cursor simulates the iterator\<close>

definition cursor_sim :: "db_env \<Rightarrow> nat \<Rightarrow> tree \<Rightarrow> cursor \<Rightarrow> pos \<Rightarrow> bool" where
  "cursor_sim db h t mc pos \<longleftrightarrow> on_tree db h t mc \<and> (case pos of
     Fresh \<Rightarrow> \<not> mc_init mc \<and> mc_pg mc 0 = 0
   | At r \<Rightarrow> at_pos mc t r
   | Lost \<Rightarrow> mc_init mc \<and> at_leaf mc t)"

definition cursor_step :: "db_env \<Rightarrow> MDB_cursor_op \<times> search_key \<Rightarrow> cursor \<Rightarrow> (cursor \<times> entry res) option" where
  "cursor_step db x mc = (case x of (op, k) \<Rightarrow> mdb_cursor_get db (Some k) (Some []) op mc)"

definition short_key :: "MDB_cursor_op \<times> search_key \<Rightarrow> bool" where
  "short_key x \<longleftrightarrow> length (snd (snd x)) < 2 ^ 32"

lemma sim_settled: "cursor_sim db h t mc pos \<Longrightarrow> settled mc t"
  by (cases pos) (auto simp: cursor_sim_def settled_def at_pos_def at_entry_leaf)

lemma at_pos_reader [simp]:
  "at_pos (mc\<lparr>mc_reader := rd\<rparr>) t r = at_pos mc t r" "at_pos (mc\<lparr>mc_del := b\<rparr>) t r = at_pos mc t r"
  by (simp_all add: at_pos_def)

lemma on_tree_flags [simp]:
  "on_tree db h t (mc\<lparr>mc_reader := rd\<rparr>) = on_tree db h t mc"
  "on_tree db h t (mc\<lparr>mc_eof := b\<rparr>) = on_tree db h t mc"
  by (simp_all add: on_tree_def)

lemma sim_reader [simp]: "cursor_sim db h t (mc\<lparr>mc_reader := rd\<rparr>) pos = cursor_sim db h t mc pos"
  by (cases pos) (simp_all add: cursor_sim_def)

text \<open>Clearing \<open>C_DEL\<close> changes nothing, the cursor of a read sequence never has it.\<close>

lemma clear_del_Some:
  assumes "m mc = Some (mc', r)" "cursor_sim db h t mc' pos"
  shows "clear_del m mc = Some (mc', r)"
proof -
  have "mc'\<lparr>mc_del := False\<rparr> = mc'" using assms(2) by (simp add: cursor_sim_def on_tree_def)
  then show ?thesis using assms(1) by (simp add: clear_del_def)
qed

lemma sim_At:
  assumes "on_tree db h t mc" "same_db mc mc'" "at_pos mc' t r"
  shows "cursor_sim db h t mc' (At r)"
  using assms on_tree_same by (simp add: cursor_sim_def)

lemma first_sim:
  assumes "cursor_sim db h t mc pos"
  shows "\<exists>mc'. mdb_cursor_first db True True mc = Some (mc', Ok (entry_at (entries t) 0)) \<and> cursor_sim db h t mc' (At 0)"
proof -
  have o: "on_tree db h t mc" using assms by (simp add: cursor_sim_def)
  show ?thesis using first_spec[OF o sim_settled[OF assms]] sim_At[OF o] by (auto simp: at_pos_def)
qed

lemma last_sim:
  assumes "cursor_sim db h t mc pos"
  shows "\<exists>mc'. mdb_cursor_last db True True mc = Some (mc', Ok (entry_at (entries t) (length (entries t) - 1))) \<and>
    cursor_sim db h t mc' (At (length (entries t) - 1))"
proof -
  have o: "on_tree db h t mc" using assms by (simp add: cursor_sim_def)
  show ?thesis using last_spec[OF o sim_settled[OF assms]] sim_At[OF o] entries_ne[OF o] by (auto simp: at_pos_def)
qed

lemma next_sim:
  assumes c: "cursor_sim db h t mc pos" and a: "list_next (entries t) pos = Some (pos', r)"
  shows "\<exists>mc'. mdb_cursor_next db True True op mc = Some (mc', r) \<and> cursor_sim db h t mc' pos'"
proof (cases pos)
  case Fresh
  have "\<not> mc_del mc" "\<not> mc_init mc" using c Fresh by (auto simp: cursor_sim_def on_tree_def)
  then have "mdb_cursor_next db True True op mc = mdb_cursor_first db True True mc" by (simp add: mdb_cursor_next_def)
  then show ?thesis using first_sim[OF c] a Fresh by (auto simp: move_to_def)
next
  case (At i)
  then have o: "on_tree db h t mc" and p: "at_pos mc t i" using c by (auto simp: cursor_sim_def)
  show ?thesis using next_spec[OF o p, of op] a At sim_At[OF o] by (auto simp: move_to_def split: if_splits)
next
  case Lost
  then show ?thesis using a by simp
qed

lemma prev_sim:
  assumes c: "cursor_sim db h t mc pos" and a: "list_prev (entries t) pos = Some (pos', r)"
  shows "\<exists>mc'. mdb_cursor_prev db True True mc = Some (mc', r) \<and> cursor_sim db h t mc' pos'"
proof (cases pos)
  case Fresh
  then have init: "\<not> mc_init mc" using c by (simp add: cursor_sim_def)
  let ?n = "length (entries t) - 1"
  obtain mc1 where mc1: "mdb_cursor_last db True True mc = Some (mc1, Ok (entry_at (entries t) ?n))" "cursor_sim db h t mc1 (At ?n)"
    using last_sim[OF c] by blast
  have o1: "on_tree db h t mc1" and e1: "at_entry mc1 t ?n" and i1: "mc_init mc1" using mc1(2) by (auto simp: cursor_sim_def at_pos_def)
  define mc2 where "mc2 = mc1\<lparr>mc_eof := False, mc_del := False\<rparr>"
  have s2: "same_db mc1 mc2" "at_entry mc2 t ?n" using o1 e1 by (simp_all add: mc2_def same_db_def on_tree_def)
  have restored: "set_ki (top_ki mc1) (set_ki (top_ki mc1 + 1) mc1\<lparr>mc_eof := False, mc_del := False\<rparr>) = mc2"
    by (simp add: mc2_def set_ki_def top_ki_def fun_upd_idem)
  have run: "mdb_cursor_prev db True True mc = prev_entry (db_tree db) True True mc2"
    using init mc1(1) restored by (simp add: mdb_cursor_prev_def Let_def cthen_def cbind_def cupd_def top_ki_def set_ki_def)
  obtain rd where "prev_entry (db_tree db) True True mc2 = Some (mc2\<lparr>mc_reader := rd\<rparr>, Ok (entry_at (entries t) ?n))"
    using read_at(3)[OF on_tree_same[OF o1 s2(1)] s2(2)] by blast
  moreover have "at_pos mc2 t ?n" using s2(2) i1 by (simp add: at_pos_def mc2_def)
  ultimately show ?thesis using a Fresh sim_At[OF o1 s2(1)] unfolding run by (auto simp: move_to_def)
next
  case (At i)
  then have o: "on_tree db h t mc" and p: "at_pos mc t i" using c by (auto simp: cursor_sim_def)
  show ?thesis using prev_spec[OF o p] a At sim_At[OF o] by (auto simp: move_to_def split: if_splits)
next
  case Lost
  then show ?thesis using a by simp
qed

lemma current_sim:
  assumes c: "cursor_sim db h t mc pos" and a: "list_current (entries t) pos = Some (pos', r)"
  shows "\<exists>mc'. get_current (db_tree db) True True mc = Some (mc', r) \<and> cursor_sim db h t mc' pos'"
    and "\<exists>mc'. dup_move (db_tree db) True True mc = Some (mc', r) \<and> cursor_sim db h t mc' pos'"
proof -
  note s = c
  have "(\<exists>mc'. get_current (db_tree db) True True mc = Some (mc', r) \<and> cursor_sim db h t mc' pos') \<and>
      (\<exists>mc'. dup_move (db_tree db) True True mc = Some (mc', r) \<and> cursor_sim db h t mc' pos')"
  proof (cases pos)
    case Fresh
    then have init: "\<not> mc_init mc" using c by (simp add: cursor_sim_def)
    have "clear_del (cfail EINVAL) mc = Some (mc, Err EINVAL)"
      by (rule clear_del_Some[OF _ c]) (simp add: cfail_def)
    then show ?thesis using init a Fresh c by (auto simp: get_current_def dup_move_def Let_def)
  next
    case (At i)
    then have o: "on_tree db h t mc" and e: "at_entry mc t i" and ps: "at_pos mc t i" using c by (auto simp: cursor_sim_def at_pos_def)
    obtain p b es where p: "stack_at mc t p" "sub t p = TLeaf b es" "top_ki mc < length es" "i = offset t p + top_ki mc"
      using e by (auto simp: at_entry_def)
    note v = stack_atD(1)[OF p(1)]
    note lf = leaf_of[OF o v p(2)] and nth = nth_entries(1)[OF v p(2,3)]
    have eq: "entry_at (entries t) i = (Some (fst (es ! top_ki mc)), Some (snd (es ! top_ki mc)))" using nth p(4) by (simp add: entry_at_def)
    have go: "\<exists>mc'. cbind (get_key (db_tree db) True) (\<lambda>k. clear_del (cbind (read_data (db_tree db) True) (\<lambda>d. cret (k, d)))) mc1 =
        Some (mc', Ok (entry_at (entries t) i)) \<and> cursor_sim db h t mc' (At i)"
      if o1: "on_tree db h t mc1" and q: "stack_at mc1 t p" "top_ki mc1 = top_ki mc" and p1: "at_pos mc1 t i" for mc1
    proof -
      note l1 = leaf_of(1)[OF o1 v p(2)]
      obtain rd where k: "cursor_read_key (db_tree db) (top_ki mc) mc1 = Some (mc1\<lparr>mc_reader := rd\<rparr>, Ok (fst (es ! top_ki mc)))"
        using read_key_leaf[of "db_tree db" _ mc1 es "top_ki mc"] l1 leaf_top(1)[OF q(1) p(2) l1] on_treeD(4)[OF o] p(3) by blast
      define mc2 where "mc2 = mc1\<lparr>mc_reader := rd\<rparr>"
      have q2: "stack_at mc2 t p" "top_ki mc2 = top_ki mc" "cursor_sim db h t mc2 (At i)"
        using q o1 p1 by (simp_all add: mc2_def cursor_sim_def)
      have o2: "on_tree db h t mc2" using o1 by (simp add: mc2_def)
      have "read_data (db_tree db) True mc2 = Some (mc2, Ok (Some (snd (es ! top_ki mc))))"
        using read_data_leaf[OF q2(1) p(2) leaf_of(1)[OF o2 v p(2)], of True] p(3) q2(2) by simp
      then have "clear_del (cbind (read_data (db_tree db) True) (\<lambda>d. cret (Some (fst (es ! top_ki mc)), d))) mc2 = Some (mc2, Ok (entry_at (entries t) i))"
        by (intro clear_del_Some[OF _ q2(3)]) (simp add: cbind_def cret_def eq)
      then show ?thesis
        using k q(2) q2(3) by (auto simp: get_key_def cbind_def cret_def mc2_def)
    qed
    note top = leaf_top[OF p(1,2) lf(1)]
    have init: "mc_init mc" using ps by (simp add: at_pos_def)
    have nk: "NUMKEYS (top_page (db_tree db) mc) = length es" "\<not> IS_LEAF2 (top_page (db_tree db) mc)" using top by simp_all
    have "get_current (db_tree db) True True mc =
        cbind (get_key (db_tree db) True) (\<lambda>k. clear_del (cbind (read_data (db_tree db) True) (\<lambda>d. cret (k, d)))) mc"
      using nk p(3) init by (auto simp: get_current_def Let_def)
    moreover have dup: "\<not> F_ISSET (leaf_flags (db_tree db) (mc\<lparr>mc_eof := False\<rparr>)) F_DUPDATA"
    proof -
      have "leaf_flags (db_tree db) (mc\<lparr>mc_eof := False\<rparr>) = leaf_flags (db_tree db) mc" by (simp add: leaf_flags_def top_page_def top_ki_def top_addr_def)
      moreover have "\<not> F_ISSET (leaf_flags (db_tree db) mc) F_DUPDATA"
        using read_data_leaf[OF p(1,2) lf(1) p(3), of True] by (auto simp: read_data_def split: if_splits)
      ultimately show ?thesis by simp
    qed
    moreover have "dup_move (db_tree db) True True mc =
        cbind (get_key (db_tree db) True) (\<lambda>k. clear_del (cbind (read_data (db_tree db) True) (\<lambda>d. cret (k, d)))) (mc\<lparr>mc_eof := False\<rparr>)"
      using nk p(3) init dup by (auto simp: dup_move_def Let_def)
    moreover have "at_pos (mc\<lparr>mc_eof := False\<rparr>) t i" using ps by (simp add: at_pos_def)
    ultimately show ?thesis using a At go[OF o p(1) refl ps] go[of "mc\<lparr>mc_eof := False\<rparr>"] o p(1) by (simp add: move_to_def)
  next
    case Lost
    then show ?thesis using a by simp
  qed
  then show "\<exists>mc'. get_current (db_tree db) True True mc = Some (mc', r) \<and> cursor_sim db h t mc' pos'"
    "\<exists>mc'. dup_move (db_tree db) True True mc = Some (mc', r) \<and> cursor_sim db h t mc' pos'" by auto
qed

lemma set_sim:
  assumes c: "cursor_sim db h t mc pos" and a: "list_set (entries t) op (snd k) pos = Some (pos', r)" and k: "length (snd k) < 2 ^ 32"
    and op: "op = MDB_SET \<or> op = MDB_SET_KEY \<or> op = MDB_SET_RANGE"
  shows "\<exists>mc'. mdb_cursor_set db k (Some []) op (op \<noteq> MDB_SET_RANGE) mc = Some (mc', r) \<and> cursor_sim db h t mc' pos'"
proof (cases "snd k = []")
  case True
  have "\<not> ce_prefix (te_ce (db_tree db))" using c by (simp add: cursor_sim_def on_tree_def)
  then show ?thesis using True a c by (auto simp: list_set_def mdb_cursor_set_def Let_def)
next
  case False
  have o: "on_tree db h t mc" using c by (simp add: cursor_sim_def)
  obtain mc' where mc': "same_db mc mc'"
     "if seek_hit (op \<noteq> MDB_SET_RANGE) (entries t) (snd k)
      then mdb_cursor_set db k (Some []) op (op \<noteq> MDB_SET_RANGE) mc =
          Some (mc', Ok (set_entry op True (entries t) (place_in (snd k) (entries t)))) \<and> at_pos mc' t (place_in (snd k) (entries t))
      else mdb_cursor_set db k (Some []) op (op \<noteq> MDB_SET_RANGE) mc = Some (mc', Err MDB_NOTFOUND) \<and> mc_init mc' \<and> at_leaf mc' t"
  proof -
    have some: "(Some ([] :: bytes) \<noteq> None) = True" by simp
    have "op \<noteq> MDB_SET_RANGE \<or> op = MDB_SET_RANGE" by simp
    from set_spec[OF o sim_settled[OF c] False k op this, where data = "Some []"] show thesis using that unfolding seek_done_def some by blast
  qed
  show ?thesis
  proof (cases "seek_hit (op \<noteq> MDB_SET_RANGE) (entries t) (snd k)")
    case True
    then show ?thesis using mc' a False sim_At[OF o mc'(1)] by (auto simp: list_set_def)
  next
    case miss: False
    then show ?thesis using mc' a False on_tree_same[OF o mc'(1)] by (simp add: list_set_def cursor_sim_def)
  qed
qed

lemma clear_del_sim:
  assumes "\<exists>mc'. m mc = Some (mc', r) \<and> cursor_sim db h t mc' pos"
  shows "\<exists>mc'. clear_del m mc = Some (mc', r) \<and> cursor_sim db h t mc' pos"
  using assms clear_del_Some by blast

text \<open>The checks and the forgetting of the rank in front of every operation.\<close>

lemma get_enter:
  assumes "cursor_sim db h t mc pos"
  obtains mc1 where "cursor_sim db h t mc1 pos"
    "\<And>m. cthen txn_usable (cthen (cupd (\<lambda>mc. if op = MDB_GET_CURRENT then mc else mc\<lparr>mc_reader := mdb_cursor_rank_invalidate (mc_reader mc)\<rparr>)) m) mc = m mc1"
proof -
  have "txn_ok (mc_txn mc)" using assms tree_atD(2,3) by (auto simp: cursor_sim_def on_tree_def txn_ok_def)
  note u = cthen_Some[where m = txn_usable, OF txn_usable_ok[OF this]]
  show thesis
    by (rule that[of "if op = MDB_GET_CURRENT then mc else mc\<lparr>mc_reader := mdb_cursor_rank_invalidate (mc_reader mc)\<rparr>"])
      (use assms in \<open>simp_all add: u\<close>)
qed

lemma cursor_simulates:
  assumes c: "cursor_sim db h t mc pos" and k: "short_key x" and a: "list_step (entries t) x pos = Some (pos', r)"
  shows "\<exists>mc'. cursor_step db x mc = Some (mc', r) \<and> cursor_sim db h t mc' pos'"
proof -
  obtain op key where x: "x = (op, key)" by (cases x)
  have len: "length (snd key) < 2 ^ 32" using k x by (simp add: short_key_def)
  obtain mc1 where c1: "cursor_sim db h t mc1 pos" and run:
    "\<And>m :: entry op. cthen txn_usable (cthen (cupd (\<lambda>mc. if op = MDB_GET_CURRENT then mc else mc\<lparr>mc_reader := mdb_cursor_rank_invalidate (mc_reader mc)\<rparr>)) m) mc = m mc1"
    using get_enter[OF c, of op] by blast
  have init: "mc_init mc1 \<longleftrightarrow> pos \<noteq> Fresh" using c1 by (cases pos) (auto simp: cursor_sim_def at_pos_def)
  show ?thesis
    unfolding cursor_step_def x prod.case mdb_cursor_get_def Let_def run
    using a x init c1
    by (cases op) (auto intro!: clear_del_sim first_sim[OF c1] last_sim[OF c1] first_sim[OF c1, simplified] last_sim[OF c1, simplified] next_sim[OF c1] prev_sim[OF c1] current_sim[OF c1]
        set_sim[OF c1 _ len, where op = MDB_SET, simplified] set_sim[OF c1 _ len, where op = MDB_SET_KEY, simplified]
        set_sim[OF c1 _ len, where op = MDB_SET_RANGE, simplified] simp: move_to_def cfail_def intro: c1)
qed

interpretation cursor_get: forward_simulation "cursor_sim db h t" "cursor_step db" "list_step (entries t)" short_key
  for db h t by unfold_locales (rule cursor_simulates)

text \<open>C2. From a new cursor of a read transaction, any sequence of FIRST, LAST, NEXT, PREV, SET, SET_KEY, SET_RANGE,
  GET_CURRENT and the like returns what the iterator over the sorted list of all entries returns, as long as the
  iterator's result is specified. In particular no call fails to end, and none ends in an assertion.\<close>

theorem cursor_refines_list:
  assumes "tree_at (db_tree db) txn root h t" "\<not> ce_prefix (te_ce (db_tree db))" "list_all short_key ops"
    and "run_ops (list_step (entries t)) ops Fresh = Some (pos, rs)"
  shows "\<exists>mc. run_ops (cursor_step db) ops (cursor_init True txn root False) = Some (mc, rs)"
proof -
  have "cursor_sim db h t (cursor_init True txn root False) Fresh"
    using assms(1,2) by (simp add: cursor_sim_def on_tree_def cursor_init_def)
  from cursor_get.runs[OF this assms(3,4)] show ?thesis by blast
qed

theorem cursor_refines_list_witness:
  "\<exists>mc. run_ops (cursor_step kv_db)
     [(MDB_SET_RANGE, 1000, [99]), (MDB_NEXT, 0, []), (MDB_PREV, 0, []), (MDB_GET_CURRENT, 0, []), (MDB_SET, 1000, [121]),
      (MDB_SET_KEY, 1000, [120]), (MDB_NEXT, 0, []), (MDB_FIRST, 0, [])] (cursor_init True kv_txn 2 False) =
    Some (mc, [Ok (Some [100], Some [155]), Ok (Some [109], Some [146]), Ok (Some [100], Some [155]), Ok (Some [100], Some [155]),
      Err MDB_NOTFOUND, Ok (Some [120], Some [135]), Err MDB_NOTFOUND, Ok (Some [98], Some [157])])"
  by (rule cursor_refines_list[where h = 1 and t = kv_tree and pos = "At 0"])
    (use kv_tree_at in \<open>simp_all add: kv_db_def kv_te_def kv_tree_def short_key_def move_to_def list_set_def seek_hit_def place_in_def entry_at_def set_entry_def\<close>)

text \<open>A scan of the list.\<close>

lemma list_scan:
  "run_ops (list_step es) (replicate (Suc n) (MDB_NEXT, k)) (At r) =
     Some (At (length es - 1), map (\<lambda>i. Ok (entry_at es i)) [Suc r..<length es] @ [Err MDB_NOTFOUND])"
  if "r < length es" "length es = r + Suc n"
  using that
proof (induction n arbitrary: r)
  case 0
  then show ?case by simp
next
  case (Suc n)
  have "run_ops (list_step es) (replicate (Suc n) (MDB_NEXT, k)) (At (Suc r)) =
     Some (At (length es - 1), map (\<lambda>i. Ok (entry_at es i)) [Suc (Suc r)..<length es] @ [Err MDB_NOTFOUND])"
    by (rule Suc.IH) (use Suc.prems in simp_all)
  moreover have "[Suc r..<length es] = Suc r # [Suc (Suc r)..<length es]" using Suc.prems by (simp add: upt_conv_Cons)
  ultimately show ?case using Suc.prems unfolding replicate_Suc[of "Suc n"] by (simp add: move_to_def)
qed

text \<open>C29. A new cursor moved by NEXT returns every entry once, in ascending order of the keys, and then \<open>MDB_NOTFOUND\<close>.\<close>

theorem full_scan:
  assumes "tree_at (db_tree db) txn root h t" "\<not> ce_prefix (te_ce (db_tree db))" "length (snd k) < 2 ^ 32"
  shows "(\<exists>mc. run_ops (cursor_step db) (replicate (Suc (length (entries t))) (MDB_NEXT, k)) (cursor_init True txn root False) =
      Some (mc, map (\<lambda>(key, d). Ok (Some key, Some d)) (entries t) @ [Err MDB_NOTFOUND])) \<and>
    sorted_wrt (<) (map fst (entries t))"
proof -
  let ?mc = "cursor_init True txn root False" and ?n = "length (entries t)"
  have sim: "cursor_sim db h t ?mc Fresh" using assms(1,2) by (simp add: cursor_sim_def on_tree_def cursor_init_def)
  then have o: "on_tree db h t ?mc" by (simp add: cursor_sim_def)
  obtain n where n: "?n = Suc n" using entries_ne[OF o] by (cases "entries t") auto
  have "run_ops (list_step (entries t)) (replicate (Suc n) (MDB_NEXT, k)) (At 0) =
      Some (At n, map (\<lambda>i. Ok (entry_at (entries t) i)) [Suc 0..<?n] @ [Err MDB_NOTFOUND])"
    using list_scan[of 0 "entries t" n k] n by simp
  then have "run_ops (list_step (entries t)) (replicate (Suc ?n) (MDB_NEXT, k)) Fresh =
      Some (At n, map (\<lambda>i. Ok (entry_at (entries t) i)) [0..<?n] @ [Err MDB_NOTFOUND])"
    unfolding n replicate_Suc[of "Suc n"] upt_conv_Cons[OF zero_less_Suc] by (simp add: move_to_def)
  moreover have "map (\<lambda>i. Ok (entry_at (entries t) i)) [0..<?n] = map (\<lambda>(key, d). Ok (Some key, Some d)) (entries t)"
    by (rule nth_equalityI) (simp_all add: entry_at_def case_prod_beta)
  moreover have "list_all short_key (replicate (Suc ?n) (MDB_NEXT, k))" using assms(3) by (simp add: short_key_def list_all_iff)
  ultimately have "\<exists>mc. run_ops (cursor_step db) (replicate (Suc ?n) (MDB_NEXT, k)) ?mc =
      Some (mc, map (\<lambda>(key, d). Ok (Some key, Some d)) (entries t) @ [Err MDB_NOTFOUND])"
    using cursor_get.runs[OF sim] by metis
  then show ?thesis using bst_sorted on_treeD(6,7)[OF o] by blast
qed

theorem full_scan_witness:
  "\<exists>mc. run_ops (cursor_step kv_db) (replicate 5 (MDB_NEXT, 0, [])) (cursor_init True kv_txn 2 False) =
    Some (mc, [Ok (Some [98], Some [157]), Ok (Some [100], Some [155]), Ok (Some [109], Some [146]), Ok (Some [120], Some [135]), Err MDB_NOTFOUND])"
proof -
  have e: "entries kv_tree = [([98], [157]), ([100], [155]), ([109], [146]), ([120], [135])]" by (simp add: kv_tree_def)
  have "tree_at (db_tree kv_db) kv_txn 2 1 kv_tree" "\<not> ce_prefix (te_ce (db_tree kv_db))"
    using kv_tree_at by (simp_all add: kv_db_def) (simp add: kv_te_def)
  note scan = full_scan[OF this, of "(0, [])"]
  have n: "Suc (length (entries kv_tree)) = 5" by (simp add: e)
  have r: "map (\<lambda>(key, d). Ok (Some key, Some d)) (entries kv_tree) @ [Err MDB_NOTFOUND] =
    [Ok (Some [98], Some [157]), Ok (Some [100], Some [155]), Ok (Some [109], Some [146]), Ok (Some [120], Some [135]), Err MDB_NOTFOUND]"
    by (simp add: e)
  have "length (snd (0 :: nat, [] :: bytes)) < 2 ^ 32" by simp
  from scan[OF this] show ?thesis unfolding n r by (rule conjunct1)
qed

text \<open>C30. The search from a kept ancestor ends on the pages and indices of the search from the root, for a key on the
  given side of some key of the current page.\<close>

theorem reuse_search_equiv:
  assumes "tree_at (db_tree db) (mc_txn mc) (mc_root mc) h t" "\<not> mc_stale mc" "stack_at mc t p"
    and "length (snd key) < 2 ^ 32" "x \<in> set (tree_keys (sub t p))" "on_side direction (snd key) x"
  shows "\<exists>mc1 mc2. mdb_page_search_reuse db key direction mc = Some (mc1, Ok ()) \<and> mdb_page_search db (PS_KEY key) mc = Some (mc2, Ok ()) \<and>
    mc_snum mc1 = mc_snum mc2 \<and> (\<forall>i<mc_snum mc1. mc_pg mc1 i = mc_pg mc2 i) \<and> (\<forall>i<mc_top mc1. mc_ki mc1 i = mc_ki mc2 i)"
proof -
  obtain mc1 where mc1: "mdb_page_search_reuse db key direction mc = Some (mc1, Ok ())" "stack_at mc1 t (key_path (snd key) t)"
    using reuse_arrives[OF assms] by (auto simp: arrived_def)
  have "mc_pg mc 0 = tree_addr t" using assms(3) by (auto simp: stack_at_def)
  then obtain mc2 where mc2: "mdb_page_search db (PS_KEY key) mc = Some (mc2, Ok ())" "stack_at mc2 t (key_path (snd key) t)"
    using page_search_arrives[OF assms(1,2), of "PS_KEY key" "[]"] assms(4) by (auto simp: root_ok_def above_ok_def arrived_def)
  have "mc_pg mc1 i = mc_pg mc2 i" if "i < mc_snum mc1" for i using that mc1(2) mc2(2) by (simp add: stack_at_def)
  moreover have "mc_ki mc1 i = mc_ki mc2 i" if "i < mc_top mc1" for i using that mc1(2) mc2(2) by (simp add: stack_at_def)
  moreover have "mc_snum mc1 = mc_snum mc2" using stack_atD(2)[OF mc1(2)] stack_atD(2)[OF mc2(2)] by simp
  ultimately show ?thesis using mc1(1) mc2(1) by blast
qed

text \<open>A database of three levels: the root page 2 over the branch pages 3 and 4 and the leaf pages 5 to 8.\<close>

definition deep_tree :: tree where
  "deep_tree = TBranch 8192 [[109]] [
     TBranch 12288 [[104]] [TLeaf 20480 [([98], [157]), ([100], [155])], TLeaf 24576 [([104], [151])]],
     TBranch 16384 [[118]] [TLeaf 28672 [([109], [146])], TLeaf 32768 [([120], [135])]]]"

definition deep_te :: tree_env where
  "deep_te = kv_te\<lparr>te_ce := (te_ce kv_te)\<lparr>ce_deref := (\<lambda>a.
       if a = 8192 then kv_branch 2 [([], 3), ([109], 4)]
       else if a = 12288 then kv_branch 3 [([], 5), ([104], 6)]
       else if a = 16384 then kv_branch 4 [([], 7), ([118], 8)]
       else if a = 20480 then kv_leaf 5 [([98], [157]), ([100], [155])]
       else if a = 24576 then kv_leaf 6 [([104], [151])]
       else if a = 28672 then kv_leaf 7 [([109], [146])]
       else kv_leaf 8 [([120], [135])])\<rparr>\<rparr>"

definition deep_mc :: cursor where
  "deep_mc = (cursor_init True (kv_txn\<lparr>mt_next_pgno := 9\<rparr>) 2 False)\<lparr>mc_init := True, mc_snum := 3, mc_top := 2,
     mc_pg := (\<lambda>_. 0)(0 := 8192, 1 := 12288, 2 := 20480), mc_ki := (\<lambda>_. 0)\<rparr>"

lemma deep_tree_at: "tree_at deep_te (kv_txn\<lparr>mt_next_pgno := 9\<rparr>) 2 2 deep_tree"
  by code_simp

lemma deep_stack: "stack_at deep_mc deep_tree [0, 0]"
  by code_simp

theorem reuse_search_equiv_witness:
  "\<exists>mc1 mc2. mdb_page_search_reuse (kv_db\<lparr>db_tree := deep_te\<rparr>) (1000, [105]) 1 deep_mc = Some (mc1, Ok ()) \<and>
    mdb_page_search (kv_db\<lparr>db_tree := deep_te\<rparr>) (PS_KEY (1000, [105])) deep_mc = Some (mc2, Ok ()) \<and>
    mc_snum mc1 = mc_snum mc2 \<and> (\<forall>i<mc_snum mc1. mc_pg mc1 i = mc_pg mc2 i) \<and> (\<forall>i<mc_top mc1. mc_ki mc1 i = mc_ki mc2 i)"
  by (rule reuse_search_equiv[where h = 2 and t = deep_tree and p = "[0, 0]" and x = "[100]"])
    (use deep_tree_at deep_stack in \<open>simp_all add: deep_mc_def cursor_init_def deep_tree_def on_side_def\<close>)

end
