(* ===== verification/Rank.thy ===== *)
theory Rank
  imports Cursor_Refines
begin

text \<open>
  Order statistics (\<open>mdb.c\<close>): the number of entries before a place, counting the entries of a range of
  keys, the rank of a key, and the move of a cursor to a rank, on databases without sorted duplicates.
\<close>

section \<open>Sums along the path\<close>

text \<open>The counts of the first \<open>limit\<close> children of a branch page.\<close>

definition branch_prefix :: "MDB_page \<Rightarrow> nat \<Rightarrow> u64 \<Rightarrow> u64" where
  "branch_prefix mp limit tot = foldl (\<lambda>tot i. tot + mdb_node_get_count mp (NODEPTR mp i)) tot [0..<limit]"

text \<open>
  \<open>mdb_page_count\<close> and \<open>mdb_branch_child_count\<close>, for branch pages without counts: the sum over the
  children of index \<open>i\<close> on. A child that cannot be read counts as 0.
\<close>

partial_function (option) page_count_from :: "tree_env \<Rightarrow> MDB_page \<Rightarrow> nat \<Rightarrow> nat \<Rightarrow> u64 \<Rightarrow> MDB_txn \<Rightarrow> (MDB_txn \<times> u64) option" where
  "page_count_from te mp i n tot txn =
     (if i < n then
        case mdb_page_get txn (te_own_map te) (NODEPGNO mp (NODEPTR mp i)) of (txn, r) \<Rightarrow>
          (case r of
             Ok al \<Rightarrow>
               Option.bind
                 (if IS_LEAF (ce_deref (te_ce te) (fst al)) \<or> IS_LEAF2 (ce_deref (te_ce te) (fst al))
                  then Some (txn, mdb_leaf_count (ce_deref (te_ce te) (fst al)))
                  else if IS_COUNTED (ce_deref (te_ce te) (fst al)) then Some (txn, mdb_branch_sum (ce_deref (te_ce te) (fst al)))
                  else page_count_from te (ce_deref (te_ce te) (fst al)) 0 (NUMKEYS (ce_deref (te_ce te) (fst al))) 0 txn)
                 (\<lambda>x. page_count_from te mp (i + 1) n (tot + snd x) (fst x))
           | Err e \<Rightarrow> page_count_from te mp (i + 1) n tot txn
           | Abort \<Rightarrow> None)
      else Some (txn, tot))"

declare page_count_from.simps [code]

text \<open>The levels above the leaf: \<open>mdb_prefix_count\<close> passes over a branch page without counts.\<close>

definition path_prefix :: "tree_env \<Rightarrow> cursor \<Rightarrow> u64" where
  "path_prefix te mc = foldl (\<lambda>tot level.
     let branch = ce_deref (te_ce te) (mc_pg mc level)
     in if IS_COUNTED branch then branch_prefix branch (mc_ki mc level) tot else tot) 0 [0..<mc_top mc]"

fun path_prefix_any :: "tree_env \<Rightarrow> nat list \<Rightarrow> u64 \<Rightarrow> u64 op" where
  "path_prefix_any te [] tot mc = Some (mc, Ok tot)"
| "path_prefix_any te (level # levels) tot mc =
     (let branch = ce_deref (te_ce te) (mc_pg mc level); limit = mc_ki mc level in
      if IS_BRANCH branch \<and> IS_COUNTED branch then path_prefix_any te levels (branch_prefix branch limit tot) mc
      else if IS_BRANCH branch then
        case page_count_from te branch 0 limit tot (mc_txn mc) of
          None \<Rightarrow> None
        | Some (txn, tot) \<Rightarrow> path_prefix_any te levels tot (mc\<lparr>mc_txn := txn\<rparr>)
      else path_prefix_any te levels tot mc)"

section \<open>The record of the database\<close>

text \<open>
  What operations that take a \<open>dbi\<close> see of the transaction: its \<open>mt_dbs[dbi]\<close> with the flag \<open>DB_STALE\<close>. A
  cursor points to the same record, so what it refreshes is seen afterwards.
\<close>

record db_state =
  ds_txn :: MDB_txn
  ds_root :: nat
  ds_entries :: u64
  ds_stale :: bool

definition ds_cursor :: "db_state \<Rightarrow> cursor" where
  "ds_cursor ds = (cursor_init False (ds_txn ds) (ds_root ds) (ds_stale ds))\<lparr>mc_entries := ds_entries ds\<rparr>"

definition cursor_ds :: "cursor \<Rightarrow> db_state" where
  "cursor_ds mc = \<lparr>ds_txn = mc_txn mc, ds_root = mc_root mc, ds_entries = mc_entries mc, ds_stale = mc_stale mc\<rparr>"

type_synonym 'a db_op = "db_state \<Rightarrow> (db_state \<times> 'a res) option"

definition with_cursor :: "db_env \<Rightarrow> 'a op \<Rightarrow> 'a db_op" where
  "with_cursor db m ds =
     (case init_stale db (ds_cursor ds) of
        None \<Rightarrow> None
      | Some (mc, Abort) \<Rightarrow> Some (cursor_ds mc, Abort)
      | Some (mc, _) \<Rightarrow> map_option (\<lambda>(mc, r). (cursor_ds mc, r)) (m mc))"

definition db_bind :: "'a db_op \<Rightarrow> ('a \<Rightarrow> 'b db_op) \<Rightarrow> 'b db_op" where
  "db_bind m f ds = (case m ds of
     None \<Rightarrow> None
   | Some (ds, Ok x) \<Rightarrow> f x ds
   | Some (ds, Err e) \<Rightarrow> Some (ds, Err e)
   | Some (ds, Abort) \<Rightarrow> Some (ds, Abort))"

definition db_ret :: "'a res \<Rightarrow> 'a db_op" where "db_ret r ds = Some (ds, r)"

definition MDB_DUPSORT :: u16 where "MDB_DUPSORT = 0x04"
definition MDB_COUNTED :: u16 where "MDB_COUNTED = 0x80"
definition MDB_COUNT_LOWER_INCL :: u32 where "MDB_COUNT_LOWER_INCL = 0x02"
definition MDB_COUNT_UPPER_INCL :: u32 where "MDB_COUNT_UPPER_INCL = 0x04"

definition count_flags_ok :: "u32 \<Rightarrow> bool" where
  "count_flags_ok flags \<longleftrightarrow> flags AND NOT (MDB_COUNT_LOWER_INCL OR MDB_COUNT_UPPER_INCL) = 0"

definition counted_db :: "db_env \<Rightarrow> bool" where "counted_db db \<longleftrightarrow> db_persistent db AND MDB_COUNTED \<noteq> 0"
definition dupsort_db :: "db_env \<Rightarrow> bool" where "dupsort_db db \<longleftrightarrow> db_persistent db AND MDB_DUPSORT \<noteq> 0"

section \<open>Counting a range\<close>

text \<open>The number of entries before a key, or up to it.\<close>

definition prefix_count :: "db_env \<Rightarrow> search_key \<Rightarrow> bool \<Rightarrow> u64 op" where
  "prefix_count db key inclusive mc =
     (let te = db_tree db in
      case mdb_cursor_set db key None MDB_SET_RANGE False mc of
        None \<Rightarrow> None
      | Some (mc, Abort) \<Rightarrow> Some (mc, Abort)
      | Some (mc, Err e) \<Rightarrow> Some (mc, if e = MDB_NOTFOUND then Ok (mc_entries mc) else Err e)
      | Some (mc, Ok (search, d)) \<Rightarrow>
          Some (mc, bind_res (cmp_call (te_cmp te) (snd key) (the search)) (\<lambda>c.
            let leaf = top_page te mc; idx = top_ki mc;
                tot = path_prefix te mc + mdb_leaf_prefix_contribution leaf idx
            in Ok (if inclusive \<and> c = 0 \<and> idx < NUMKEYS leaf
                   then tot + mdb_leaf_entry_contribution leaf (NODEPTR leaf idx) else tot))))"

definition mdb_prefix_count :: "db_env \<Rightarrow> search_key \<Rightarrow> bool \<Rightarrow> u64 db_op" where
  "mdb_prefix_count db key inclusive = with_cursor db (prefix_count db key inclusive)"

definition mdb_count_all :: "db_env \<Rightarrow> u32 \<Rightarrow> u64 db_op" where
  "mdb_count_all db flags ds =
     (if \<not> count_flags_ok flags then Some (ds, Err EINVAL)
      else if \<not> counted_db db then Some (ds, Err MDB_INCOMPATIBLE)
      else if ds_stale ds then with_cursor db (cget mc_entries) ds
      else Some (ds, Ok (ds_entries ds)))"

definition mdb_count_range :: "db_env \<Rightarrow> search_key option \<Rightarrow> search_key option \<Rightarrow> u32 \<Rightarrow> u64 db_op" where
  "mdb_count_range db low high flags ds =
     (let lower_incl = (flags AND MDB_COUNT_LOWER_INCL \<noteq> 0); upper_incl = (flags AND MDB_COUNT_UPPER_INCL \<noteq> 0) in
      if \<not> count_flags_ok flags then Some (ds, Err EINVAL)
      else if \<not> counted_db db then Some (ds, Err MDB_INCOMPATIBLE)
      else if dupsort_db db then Some (ds, Err MDB_INCOMPATIBLE)
      else if ds_entries ds = 0 then Some (ds, Ok 0)
      else
        db_bind (case (low, high) of
            (Some l, Some h) \<Rightarrow> db_ret (bind_res (cmp_call (te_cmp (db_tree db)) (snd l) (snd h))
              (\<lambda>c. Ok (c > 0 \<or> (c = 0 \<and> \<not> (lower_incl \<and> upper_incl)))))
          | _ \<Rightarrow> db_ret (Ok False)) (\<lambda>empty.
          if empty then db_ret (Ok 0)
          else db_bind (case high of Some h \<Rightarrow> mdb_prefix_count db h upper_incl | None \<Rightarrow> mdb_count_all db flags) (\<lambda>upper.
            db_bind (case low of Some l \<Rightarrow> mdb_prefix_count db l (\<not> lower_incl) | None \<Rightarrow> db_ret (Ok 0)) (\<lambda>lower.
              db_ret (Ok (if upper \<ge> lower then upper - lower else 0))))) ds)"

text \<open>\<open>mdb_range_count_keys\<close>; the count of distinct keys with sorted duplicates is outside the model.\<close>

definition mdb_range_count_keys :: "db_env \<Rightarrow> search_key option \<Rightarrow> search_key option \<Rightarrow> u32 \<Rightarrow> u64 db_op" where
  "mdb_range_count_keys db low high flags ds =
     (let lower_incl = (flags AND MDB_COUNT_LOWER_INCL \<noteq> 0); upper_incl = (flags AND MDB_COUNT_UPPER_INCL \<noteq> 0) in
      if mt_blocked (ds_txn ds) then Some (ds, Err MDB_BAD_TXN)
      else if \<not> count_flags_ok flags then Some (ds, Err EINVAL)
      else if \<not> counted_db db then Some (ds, Err MDB_INCOMPATIBLE)
      else if ds_entries ds = 0 then Some (ds, Ok 0)
      else
        db_bind (case (low, high) of
            (Some l, Some h) \<Rightarrow> db_ret (bind_res (cmp_call (te_cmp (db_tree db)) (snd l) (snd h))
              (\<lambda>c. Ok (c > 0 \<or> (c = 0 \<and> \<not> (lower_incl \<and> upper_incl)))))
          | _ \<Rightarrow> db_ret (Ok False)) (\<lambda>empty.
          if empty then db_ret (Ok 0)
          else if dupsort_db db then (\<lambda>ds. None)
          else mdb_count_range db low high flags) ds)"

section \<open>The rank of a key\<close>

text \<open>
  \<open>mdb_prefix_pair_leq_cursor\<close>, with \<open>value\<close> NULL or not. It asks \<open>mdb_cursor_set\<close> for an exact match, so
  a key that is not there goes through the two ends of the database.
\<close>

definition pair_leq_absent :: "db_env \<Rightarrow> bytes \<Rightarrow> bool \<Rightarrow> u64 op" where
  "pair_leq_absent db key key_inclusive mc =
     (let cmp = te_cmp (db_tree db);
          get = mdb_cursor_get db (Some (0, [])) (Some []);
          first = (\<lambda>mc. case get MDB_FIRST mc of
              None \<Rightarrow> None
            | Some (mc, Abort) \<Rightarrow> Some (mc, Abort)
            | Some (mc, Err e) \<Rightarrow> Some (mc, if e = MDB_NOTFOUND then Ok 0 else Err e)
            | Some (mc, Ok (k, d)) \<Rightarrow>
                Some (mc, bind_res (cmp_call cmp (the k) key) (\<lambda>c.
                  Ok (if c > 0 \<or> (c = 0 \<and> \<not> key_inclusive) then 0 else mc_entries mc))))
      in if mc_entries mc = 0 then Some (mc, Ok 0)
         else case get MDB_LAST mc of
            None \<Rightarrow> None
          | Some (mc, Abort) \<Rightarrow> Some (mc, Abort)
          | Some (mc, Err e) \<Rightarrow> if e = MDB_NOTFOUND then first mc else Some (mc, Err e)
          | Some (mc, Ok (k, d)) \<Rightarrow>
              (case cmp_call cmp (the k) key of
                 Ok c \<Rightarrow> if c < 0 \<or> (c = 0 \<and> key_inclusive) then Some (mc, Ok (mc_entries mc)) else first mc
               | Err e \<Rightarrow> Some (mc, Err e)
               | Abort \<Rightarrow> Some (mc, Abort)))"

definition pair_leq_self :: "tree_env \<Rightarrow> bytes option \<Rightarrow> bool \<Rightarrow> u64 \<Rightarrow> u64 op" where
  "pair_leq_self te val value_inclusive tot mc =
     (let leaf = top_page te mc; node = NODEPTR leaf (top_ki mc) in
      if IS_LEAF2 leaf then Some (mc, Err MDB_CORRUPTED)
      else if mn_flags (mp_mem leaf) node AND F_DUPDATA \<noteq> 0 then None
      else cbind (mdb_node_read te (top_addr mc) node) (\<lambda>datum mc.
        case val of
          None \<Rightarrow> Some (mc, Ok (tot + 1))
        | Some v \<Rightarrow> Some (mc, bind_res (cmp_call (case te_dcmp te of Some dcmp \<Rightarrow> dcmp | None \<Rightarrow> te_cmp te) datum v) (\<lambda>c.
            Ok (if c < 0 \<or> (c = 0 \<and> value_inclusive) then tot + 1 else tot)))) mc)"

definition mdb_prefix_pair_leq_cursor :: "db_env \<Rightarrow> search_key \<Rightarrow> bool \<Rightarrow> bytes option \<Rightarrow> bool \<Rightarrow> u64 op" where
  "mdb_prefix_pair_leq_cursor db key key_inclusive val value_inclusive mc =
     (let te = db_tree db in
      case mdb_cursor_set db key (Some []) MDB_SET_RANGE True mc of
        None \<Rightarrow> None
      | Some (mc, Abort) \<Rightarrow> Some (mc, Abort)
      | Some (mc, Err e) \<Rightarrow> if e = MDB_NOTFOUND then pair_leq_absent db (snd key) key_inclusive mc else Some (mc, Err e)
      | Some (mc, Ok _) \<Rightarrow>
          cbind (path_prefix_any te [0..<mc_top mc] 0) (\<lambda>tot mc.
            let leaf = top_page te mc; idx = top_ki mc; tot = tot + mdb_leaf_prefix_contribution leaf idx
            in if key_inclusive \<and> idx < NUMKEYS leaf then pair_leq_self te val value_inclusive tot mc
               else Some (mc, Ok tot)) mc)"

definition mdb_prefix_pair_leq :: "db_env \<Rightarrow> search_key \<Rightarrow> bool \<Rightarrow> bytes option \<Rightarrow> bool \<Rightarrow> u64 db_op" where
  "mdb_prefix_pair_leq db key key_inclusive val value_inclusive =
     with_cursor db (mdb_prefix_pair_leq_cursor db key key_inclusive val value_inclusive)"

text \<open>The key must be there, and with the data when they are given.\<close>

definition rank_check :: "db_env \<Rightarrow> search_key \<Rightarrow> bytes option \<Rightarrow> unit op" where
  "rank_check db key data =
     cbind (mdb_cursor_get db (Some key) (Some []) MDB_SET_KEY) (\<lambda>(k, d).
       case data of Some v \<Rightarrow> if the d \<noteq> v then cfail MDB_NOTFOUND else cret () | None \<Rightarrow> cret ())"

definition mdb_rank_for_key :: "db_env \<Rightarrow> search_key option \<Rightarrow> bytes option \<Rightarrow> u32 \<Rightarrow> u64 db_op" where
  "mdb_rank_for_key db key data flags ds =
     (case key of
        None \<Rightarrow> Some (ds, Err EINVAL)
      | Some key \<Rightarrow>
          if flags \<noteq> 0 then Some (ds, Err EINVAL)
          else if mt_blocked (ds_txn ds) then Some (ds, Err MDB_BAD_TXN)
          else if \<not> counted_db db then Some (ds, Err MDB_INCOMPATIBLE)
          else if dupsort_db db then None
          else db_bind (with_cursor db (rank_check db key data)) (\<lambda>_. mdb_prefix_pair_leq db key False None False) ds)"

definition mdb_get_key_rank :: "db_env \<Rightarrow> search_key option \<Rightarrow> bytes option \<Rightarrow> u64 db_op" where
  "mdb_get_key_rank db key data = mdb_rank_for_key db key data 0"

text \<open>The cursor only names the transaction and the database.\<close>

definition mdb_cursor_key_rank :: "db_env \<Rightarrow> search_key option \<Rightarrow> bytes option \<Rightarrow> u32 \<Rightarrow> u64 op" where
  "mdb_cursor_key_rank db key data flags mc =
     map_option (\<lambda>(ds, r). (mc\<lparr>mc_txn := ds_txn ds, mc_root := ds_root ds, mc_entries := ds_entries ds, mc_stale := ds_stale ds\<rparr>, r))
       (mdb_rank_for_key db key data flags (cursor_ds mc))"

section \<open>The entry of a rank\<close>

text \<open>\<open>for (i = 0; i < nkeys; ++i) { if (remaining < f(i)) break; remaining -= f(i); }\<close>\<close>

function rank_pick :: "(nat \<Rightarrow> u64) \<Rightarrow> nat \<Rightarrow> nat \<Rightarrow> u64 \<Rightarrow> nat \<times> u64" where
  "rank_pick f i n remaining =
     (if i < n then if remaining < f i then (i, remaining) else rank_pick f (i + 1) n (remaining - f i) else (i, remaining))"
  by pat_completeness auto
termination by (relation "measure (\<lambda>(f, i, n, r). n - i)") auto

declare rank_pick.simps [simp del]

definition set_rank :: "u64 \<Rightarrow> u64 \<Rightarrow> cursor \<Rightarrow> cursor" where
  "set_rank rank off mc = mc\<lparr>mc_reader := (mc_reader mc)\<lparr>mc_rank_cached := rank, mc_rank_offset := off\<rparr>\<rparr>"

text \<open>One round on a branch page; the result is what remains of the rank below the child.\<close>

definition rank_step :: "tree_env \<Rightarrow> u64 \<Rightarrow> u64 \<Rightarrow> u64 op" where
  "rank_step te rank remaining mc =
     (let mp = top_page te mc; nkeys = NUMKEYS mp in
      if \<not> IS_COUNTED mp then Some (mc, Err MDB_INCOMPATIBLE)
      else
        let (i, remaining) = rank_pick (\<lambda>i. mdb_node_get_count mp (NODEPTR mp i)) 0 nkeys remaining
        in if i = nkeys then Some (mc, Err MDB_NOTFOUND)
           else cbind (cursor_page_get te (NODEPGNO mp (NODEPTR mp i))) (\<lambda>child.
             cthen (mdb_cursor_push child)
               (\<lambda>mc. Some (mc\<lparr>mc_rank_base := (mc_rank_base mc)(mc_top mc := rank - remaining)\<rparr>, Ok remaining)))
             (set_ki i mc))"

lemma rank_step_snum: "rank_step te rank remaining mc = Some (mc', Ok r) \<Longrightarrow> mc_snum mc' = mc_snum mc + 1 \<and> mc_snum mc < CURSOR_STACK"
  by (auto simp: rank_step_def Let_def cursor_page_get_def cbind_def cthen_def bind_res_def set_ki_def
      split: if_splits prod.splits option.splits res.splits dest!: push_snum)

function rank_descend_loop :: "tree_env \<Rightarrow> u64 \<Rightarrow> u64 \<Rightarrow> u64 op" where
  "rank_descend_loop te rank remaining mc =
     (if IS_BRANCH (top_page te mc) then
        case rank_step te rank remaining mc of
          Some (mc, Ok remaining) \<Rightarrow> rank_descend_loop te rank remaining mc
        | r \<Rightarrow> r
      else Some (mc, Ok remaining))"
  by pat_completeness auto
termination
  by (relation "measure (\<lambda>(te, rank, r, mc). CURSOR_STACK - mc_snum mc)") (auto dest!: rank_step_snum)

declare rank_descend_loop.simps [simp del]

definition rank_leaf :: "tree_env \<Rightarrow> u64 \<Rightarrow> u64 \<Rightarrow> u64 op" where
  "rank_leaf te rank remaining mc =
     (let mp = top_page te mc; nkeys = NUMKEYS mp in
      if IS_LEAF2 mp then
        if remaining \<ge> word_of_nat nkeys then Some (mc, Err MDB_NOTFOUND)
        else Some (set_rank rank 0 (set_ki (unat remaining) mc), Ok 0)
      else if \<not> IS_LEAF mp then Some (mc, Err MDB_CORRUPTED)
      else
        let (i, remaining) = rank_pick (\<lambda>i. mdb_leaf_entry_contribution mp (NODEPTR mp i)) 0 nkeys remaining
        in if i = nkeys then Some (mc, Err MDB_NOTFOUND)
           else Some (set_rank rank remaining (set_ki i mc), Ok remaining))"

definition mdb_cursor_rank_descend :: "tree_env \<Rightarrow> u64 \<Rightarrow> u64 op" where
  "mdb_cursor_rank_descend te rank mc =
     (if mc_snum mc = 0 then Some (mc, Err MDB_NOTFOUND)
      else if mc_rank_base mc (mc_top mc) > rank then Some (mc, Err MDB_CORRUPTED)
      else if top_addr mc = 0 then Some (mc, Err MDB_CORRUPTED)
      else cbind (rank_descend_loop te rank (rank - mc_rank_base mc (mc_top mc))) (rank_leaf te rank) mc)"

definition mdb_cursor_rank_search :: "db_env \<Rightarrow> u64 \<Rightarrow> u64 op" where
  "mdb_cursor_rank_search db rank mc =
     (let te = db_tree db in
      if mc_entries mc \<le> rank then Some (mc, Err MDB_NOTFOUND)
      else cthen (if mc_pg mc 0 = 0 \<or> \<not> IS_SUBP (ce_deref (te_ce te) (mc_pg mc 0)) then mdb_page_search db PS_ROOTONLY
                  else cupd (\<lambda>mc. mc\<lparr>mc_top := 0, mc_snum := 1\<rparr>))
        (cthen (cupd (\<lambda>mc. mc\<lparr>mc_rank_base := (mc_rank_base mc)(0 := 0), mc_init := True, mc_eof := False, mc_del := False\<rparr>))
          (mdb_cursor_rank_descend te rank)) mc)"

text \<open>The lowest level, from \<open>level - 1\<close> down, whose page contains the rank.\<close>

fun resume_level :: "tree_env \<Rightarrow> u64 \<Rightarrow> cursor \<Rightarrow> nat \<Rightarrow> nat option res" where
  "resume_level te rank mc 0 = Ok None"
| "resume_level te rank mc (Suc level) =
     (let base = mc_rank_base mc level in
      if mc_pg mc level = 0 then Err MDB_CORRUPTED
      else if rank < base then resume_level te rank mc level
      else if rank - base < mdb_page_subtree_count (ce_deref (te_ce te) (mc_pg mc level)) then Ok (Some level)
      else resume_level te rank mc level)"

definition mdb_cursor_rank_resume :: "tree_env \<Rightarrow> u64 \<Rightarrow> u64 op" where
  "mdb_cursor_rank_resume te rank mc =
     (if \<not> mc_init mc \<or> mc_snum mc = 0 \<or> mc_entries mc \<le> rank then Some (mc, Err MDB_NOTFOUND)
      else if rank = mc_rank_cached (mc_reader mc) then Some (mc, Ok (mc_rank_offset (mc_reader mc)))
      else case resume_level te rank mc (Suc (mc_top mc)) of
        Abort \<Rightarrow> Some (mc, Abort)
      | Err e \<Rightarrow> Some (mc, Err e)
      | Ok None \<Rightarrow> Some (mc, Err MDB_NOTFOUND)
      | Ok (Some level) \<Rightarrow>
          (case while_option (\<lambda>mc. mc_top mc > level) mdb_cursor_pop mc of
             None \<Rightarrow> None
           | Some mc \<Rightarrow> mdb_cursor_rank_descend te rank (mc\<lparr>mc_init := True, mc_eof := False, mc_del := False\<rparr>)))"

text \<open>The label \<open>positioned\<close>; \<open>wk\<close> and \<open>wd\<close> tell whether the caller's pointers are not NULL.\<close>

definition rank_finish :: "db_env \<Rightarrow> bool \<Rightarrow> bool \<Rightarrow> u64 \<Rightarrow> entry op" where
  "rank_finish db wk wd dup_index mc =
     (let te = db_tree db; mp = top_page te mc; valid = (\<lambda>mc. mc\<lparr>mc_reader := (mc_reader mc)\<lparr>rd_rankvalid := True\<rparr>\<rparr>) in
      if IS_LEAF2 mp then Some (mc, Ok (if wk then Some (leaf2_key te mc) else None, if wd then Some [] else None))
      else if F_ISSET (leaf_flags te mc) F_DUPDATA then None
      else if dup_index \<noteq> 0 then Some (mc, Err MDB_CORRUPTED)
      else if \<not> wk \<and> \<not> wd then Some (valid mc, Ok (None, None))
      else case mdb_cursor_get db (if wk then Some (0, []) else None) (if wd then Some [] else None) MDB_GET_CURRENT mc of
        None \<Rightarrow> None
      | Some (mc, Ok e) \<Rightarrow> Some (valid mc, Ok e)
      | Some (mc, r) \<Rightarrow> Some (mc\<lparr>mc_reader := mdb_cursor_rank_invalidate (mc_reader mc)\<rparr>, r))"

definition mdb_cursor_get_rank :: "db_env \<Rightarrow> bool \<Rightarrow> bool \<Rightarrow> u32 \<Rightarrow> u64 \<Rightarrow> entry op" where
  "mdb_cursor_get_rank db wk wd flags rank mc =
     (let te = db_tree db; search = cbind (mdb_cursor_rank_search db rank) (rank_finish db wk wd) in
      if flags \<noteq> 0 then Some (mc, Err EINVAL)
      else if \<not> counted_db db then Some (mc, Err MDB_INCOMPATIBLE)
      else if mt_blocked (mc_txn mc) then Some (mc, Err MDB_BAD_TXN)
      else if mc_entries mc = 0 then Some (mc, Err MDB_NOTFOUND)
      else if mc_entries mc \<le> rank then Some (mc, Err MDB_NOTFOUND)
      else if rd_rankvalid (mc_reader mc) \<and> mc_init mc \<and> mc_snum mc \<noteq> 0 \<and> rank \<ge> mc_rank_cached (mc_reader mc) then
        case mdb_cursor_rank_resume te rank mc of
          None \<Rightarrow> None
        | Some (mc, Ok dup_index) \<Rightarrow> rank_finish db wk wd dup_index mc
        | Some (mc, Err e) \<Rightarrow> if e = MDB_NOTFOUND then search mc else Some (mc, Err e)
        | Some (mc, Abort) \<Rightarrow> Some (mc, Abort)
      else search mc)"

text \<open>\<open>mdb_get_rank\<close> on a database without prefix compression, where the results are not copied.\<close>

definition mdb_get_rank :: "db_env \<Rightarrow> bool \<Rightarrow> bool \<Rightarrow> u64 \<Rightarrow> entry db_op" where
  "mdb_get_rank db wk wd rank ds =
     (if mt_blocked (ds_txn ds) then Some (ds, Err MDB_BAD_TXN)
      else if ce_prefix (te_ce (db_tree db)) then None
      else with_cursor db (mdb_cursor_get_rank db wk wd 0 rank) ds)"

end
