(* ===== verification/Rank_Correct.thy ===== *)
theory Rank_Correct
  imports Rank
begin

text \<open>
  The order statistics of a counted tree: the sums along a path are the number of entries before it, so
  a range count is the number of entries in the range, and a cursor moved to a rank is at its entry.
\<close>

section \<open>Counts of a tree\<close>

text \<open>Every branch page stores the number of entries below each of its children.\<close>

fun counted :: "tree_env \<Rightarrow> tree \<Rightarrow> bool" where
  "counted te (TLeaf a es) \<longleftrightarrow> True"
| "counted te (TBranch a seps ts) \<longleftrightarrow>
     IS_COUNTED (ce_deref (te_ce te) a) \<and>
     list_all (\<lambda>i. mdb_node_get_count (ce_deref (te_ce te) a) (NODEPTR (ce_deref (te_ce te) a) i) =
       word_of_nat (length (entries (ts ! i)))) [0..<length ts] \<and>
     list_all (counted te) ts"

lemma counted_sub: "counted te t \<Longrightarrow> valid_path t p \<Longrightarrow> counted te (sub t p)"
  by (induction t p rule: valid_path.induct) (auto simp: list_all_length)

lemma countedD:
  assumes "counted te (TBranch a seps ts)"
  shows "IS_COUNTED (ce_deref (te_ce te) a)" "i < length ts \<Longrightarrow> counted te (ts ! i)"
    "i < length ts \<Longrightarrow> mdb_node_get_count (ce_deref (te_ce te) a) (NODEPTR (ce_deref (te_ce te) a) i) = word_of_nat (length (entries (ts ! i)))"
  using assms by (auto simp: list_all_length)

lemma foldl_counts: "\<forall>i<n. f i = word_of_nat (c i) \<Longrightarrow> foldl (\<lambda>tot i. tot + f i) (x :: u64) [0..<n] = x + word_of_nat (\<Sum>i<n. c i)"
  by (induction n) (auto simp: algebra_simps)

lemma and_exp_bit: "bit w n \<Longrightarrow> w AND 2 ^ n = 2 ^ n" for w :: u16
  by (rule bit_eqI) (auto simp: bit_and_iff bit_exp_iff)

lemma leaf_contribution:
  assumes l: "leaf_stored te txn a es" and i: "i < length es"
  shows "mdb_leaf_entry_contribution (ce_deref (te_ce te) a) (NODEPTR (ce_deref (te_ce te) a) i) = 1"
proof -
  have d: "\<not> F_ISSET (mn_flags (mp_mem (ce_deref (te_ce te) a)) (NODEPTR (ce_deref (te_ce te) a) i)) F_DUPDATA"
    using leaf_storedD(6)[OF l i] by (simp add: node_holds_def Let_def)
  have "w AND 4 = 0" if "\<not> F_ISSET w F_DUPDATA" for w
  proof -
    have "w AND 4 = 0 \<or> w AND 4 = (4 :: u16)" using and_exp_eq_0_iff_not_bit[of w 2] and_exp_bit[of w 2] by auto
    then show ?thesis using that by (auto simp: F_ISSET_def F_DUPDATA_def)
  qed
  then show ?thesis using d leaf_storedD(1,2)[OF l] by (simp add: mdb_leaf_entry_contribution_def F_DUPDATA_def)
qed

lemma leaf_prefix:
  assumes l: "leaf_stored te txn a es" and i: "i \<le> length es"
  shows "mdb_leaf_prefix_contribution (ce_deref (te_ce te) a) i = word_of_nat i"
  using i leaf_storedD(1,2,5)[OF l] foldl_counts[of i _ "\<lambda>_. 1" 0] leaf_contribution[OF l]
  by (auto simp: mdb_leaf_prefix_contribution_def Let_def)

lemma leaf_sum:
  assumes l: "leaf_stored te txn a es"
  shows "mdb_page_subtree_count (ce_deref (te_ce te) a) = word_of_nat (length es)"
  using leaf_storedD(1,2,5)[OF l] foldl_counts[of "length es" _ "\<lambda>_. 1" 0] leaf_contribution[OF l]
  by (auto simp: mdb_page_subtree_count_def mdb_leaf_contribution_def)

lemma sum_entries: "i \<le> length ts \<Longrightarrow> (\<Sum>j<i. length (entries (ts ! j))) = sum_list (map (length \<circ> entries) (take i ts))"
  by (simp add: sum_list_sum_nth atLeast0LessThan)

lemma offset_snoc:
  assumes "valid_path t p" "sub t p = TBranch a seps ts" "i < length ts"
  shows "offset t (p @ [i]) = offset t p + (\<Sum>j<i. length (entries (ts ! j)))"
  using assms by (simp add: offset_append sum_entries)

lemma branch_sum:
  assumes st: "stored te txn (TBranch a seps ts)" and c: "counted te (TBranch a seps ts)"
  shows "mdb_page_subtree_count (ce_deref (te_ce te) a) = word_of_nat (length (entries (TBranch a seps ts)))"
proof -
  have "(\<Sum>j<length ts. length (entries (ts ! j))) = length (entries (TBranch a seps ts))"
    using sum_entries[of "length ts" ts] by (simp add: length_concat comp_def)
  then show ?thesis
    using branch_storedD(1,2,3,5)[OF st] countedD(1,3)[OF c] foldl_counts[of "length ts" _ "\<lambda>i. length (entries (ts ! i))" 0]
    by (simp add: mdb_page_subtree_count_def mdb_branch_sum_def)
qed

lemma subtree_sum:
  assumes "stored te txn t" "counted te t"
  shows "mdb_page_subtree_count (ce_deref (te_ce te) (tree_addr t)) = word_of_nat (length (entries t))"
  using assms leaf_sum branch_sum by (cases t) auto

text \<open>The sums of the levels above the leaf.\<close>

lemma path_level:
  assumes s: "stack_at mc t p" and st: "stored te txn t" "bst t" "balanced h t" and c: "counted te t" and j: "j < length p"
  shows "IS_COUNTED (ce_deref (te_ce te) (mc_pg mc j))" "IS_BRANCH (ce_deref (te_ce te) (mc_pg mc j))"
    "branch_prefix (ce_deref (te_ce te) (mc_pg mc j)) (mc_ki mc j) tot = tot + word_of_nat (offset t (take (Suc j) p) - offset t (take j p))"
    "offset t (take j p) \<le> offset t (take (Suc j) p)"
proof -
  note v = stack_atD(1)[OF s]
  obtain a seps ts where u: "sub t (take j p) = TBranch a seps ts" "p ! j < length ts" using path_branch[OF v j] by metis
  have pg: "mc_pg mc j = a" "mc_ki mc j = p ! j" using s j u(1) by (auto simp: stack_at_def)
  have sb: "stored te txn (TBranch a seps ts)" "counted te (TBranch a seps ts)"
    using sub_props[OF valid_take[OF v] st, of j] counted_sub[OF c valid_take[OF v], of j] u(1) by simp_all
  show "IS_COUNTED (ce_deref (te_ce te) (mc_pg mc j))" "IS_BRANCH (ce_deref (te_ce te) (mc_pg mc j))"
    using branch_storedD(1)[OF sb(1)] countedD(1)[OF sb(2)] pg(1) by simp_all
  have "take (Suc j) p = take j p @ [p ! j]" using j by (simp add: take_Suc_conv_app_nth)
  then have off: "offset t (take (Suc j) p) = offset t (take j p) + (\<Sum>i<p ! j. length (entries (ts ! i)))"
    using offset_snoc[OF valid_take[OF v] u] by simp
  then show "offset t (take j p) \<le> offset t (take (Suc j) p)" by simp
  have "\<forall>i<p ! j. mdb_node_get_count (ce_deref (te_ce te) a) (NODEPTR (ce_deref (te_ce te) a) i) = word_of_nat (length (entries (ts ! i)))"
    using countedD(3)[OF sb(2)] u(2) by simp
  then show "branch_prefix (ce_deref (te_ce te) (mc_pg mc j)) (mc_ki mc j) tot = tot + word_of_nat (offset t (take (Suc j) p) - offset t (take j p))"
    using foldl_counts off pg by (simp add: branch_prefix_def)
qed

lemma path_prefix_offset:
  assumes s: "stack_at mc t p" and st: "stored te txn t" "bst t" "balanced h t" and c: "counted te t"
  shows "path_prefix te mc = word_of_nat (offset t p)"
proof -
  note lv = path_level[OF s st c]
  have "n \<le> length p \<Longrightarrow> foldl (\<lambda>tot level. let branch = ce_deref (te_ce te) (mc_pg mc level)
      in if IS_COUNTED branch then branch_prefix branch (mc_ki mc level) tot else tot) 0 [0..<n] = word_of_nat (offset t (take n p))" for n
    by (induction n) (use lv in \<open>auto simp: Let_def simp flip: of_nat_add\<close>)
  from this[of "length p"] show ?thesis using stack_atD(3)[OF s] by (simp add: path_prefix_def)
qed

lemma path_prefix_any_offset:
  assumes s: "stack_at mc t p" and st: "stored te txn t" "bst t" "balanced h t" and c: "counted te t"
  shows "path_prefix_any te [0..<mc_top mc] 0 mc = Some (mc, Ok (word_of_nat (offset t p)))"
proof -
  note lv = path_level[OF s st c]
  have "n \<le> length p \<Longrightarrow> path_prefix_any te [n..<length p] (word_of_nat (offset t (take n p))) mc = Some (mc, Ok (word_of_nat (offset t p)))" for n
  proof (induction "length p - n" arbitrary: n)
    case (Suc m)
    then have n: "n < length p" by simp
    have "word_of_nat (offset t (take n p)) + word_of_nat (offset t (take (Suc n) p) - offset t (take n p)) =
        (word_of_nat (offset t (take (Suc n) p)) :: u64)"
      using lv(4)[OF n] by (simp flip: of_nat_add)
    then show ?case using Suc.hyps(1)[of "Suc n"] Suc.hyps(2) n lv(1,2)[OF n] lv(3)[OF n]
      by (simp add: upt_conv_Cons Let_def)
  qed simp
  from this[of 0] show ?thesis using stack_atD(3)[OF s] by simp
qed

section \<open>Places as numbers of entries\<close>

definition num_where :: "(bytes \<Rightarrow> bool) \<Rightarrow> (bytes \<times> bytes) list \<Rightarrow> nat" where
  "num_where P es = length (filter (\<lambda>e. P (fst e)) es)"

lemma num_where_le: "num_where P es \<le> length es"
  by (simp add: num_where_def)

lemma place_num: "sorted_wrt (<) (map fst es) \<Longrightarrow> place_in k es = num_where (\<lambda>x. x < k) es"
proof (induction es)
  case (Cons e es)
  then show ?case
  proof (cases "fst e < k")
    case False
    then have "\<forall>x\<in>set es. \<not> fst x < k" using Cons.prems by (auto simp: not_less)
    then have "filter (\<lambda>x. fst x < k) es = []" by (simp add: filter_empty_conv)
    then show ?thesis using False by (simp add: place_in_def num_where_def)
  qed (auto simp: place_in_def num_where_def)
qed (simp add: place_in_def num_where_def)

lemma num_upto: "sorted_wrt (<) (map fst es) \<Longrightarrow> num_where (\<lambda>x. x \<le> k) es = num_where (\<lambda>x. x < k) es + (if k \<in> fst ` set es then 1 else 0)"
proof (induction es)
  case (Cons e es)
  have "k \<notin> fst ` set es" if "fst e = k" using Cons.prems that by auto
  then show ?case using Cons by (auto simp: num_where_def le_less)
qed (simp add: num_where_def)

definition before :: "bool \<Rightarrow> bytes \<Rightarrow> bytes \<Rightarrow> bool" where
  "before inclusive k x \<longleftrightarrow> (if inclusive then x \<le> k else x < k)"

lemma num_before:
  "sorted_wrt (<) (map fst es) \<Longrightarrow>
    num_where (before inclusive k) es = place_in k es + (if inclusive \<and> k \<in> fst ` set es then 1 else 0)"
  using num_upto[of es k] place_num[of es k] by (cases inclusive) (auto simp: before_def[abs_def])

section \<open>Counting up to a key\<close>

definition counts_tree :: "db_env \<Rightarrow> nat \<Rightarrow> tree \<Rightarrow> cursor \<Rightarrow> bool" where
  "counts_tree db h t mc \<longleftrightarrow> on_tree db h t mc \<and> counted (db_tree db) t \<and> mc_entries mc = word_of_nat (length (entries t)) \<and>
     length (entries t) < 2 ^ 64"

lemma counts_tree_same: "counts_tree db h t mc \<Longrightarrow> same_db mc mc' \<Longrightarrow> counts_tree db h t mc'"
  using on_tree_same[of db h t mc mc'] by (simp add: counts_tree_def same_db_def)

lemma tree_sorted: "on_tree db h t mc \<Longrightarrow> sorted_wrt (<) (map fst (entries t))"
  using bst_sorted on_treeD(6,7) by blast

text \<open>The sums at an entry are its rank.\<close>

lemma rank_sums:
  assumes c: "counts_tree db h t mc" and e: "at_entry mc t r"
  shows "path_prefix (db_tree db) mc + mdb_leaf_prefix_contribution (top_page (db_tree db) mc) (top_ki mc) = word_of_nat r"
    and "\<exists>n. path_prefix_any (db_tree db) [0..<mc_top mc] 0 mc = Some (mc, Ok n) \<and>
      n + mdb_leaf_prefix_contribution (top_page (db_tree db) mc) (top_ki mc) = word_of_nat r"
    and "top_ki mc < NUMKEYS (top_page (db_tree db) mc)"
    and "mdb_leaf_entry_contribution (top_page (db_tree db) mc) (NODEPTR (top_page (db_tree db) mc) (top_ki mc)) = 1"
proof -
  have o: "on_tree db h t mc" and ct: "counted (db_tree db) t" using c by (simp_all add: counts_tree_def)
  note d = on_treeD[OF o]
  obtain p a es where p: "stack_at mc t p" "sub t p = TLeaf a es" "top_ki mc < length es" "r = offset t p + top_ki mc"
    using e by (auto simp: at_entry_def)
  note l = leaf_of(1)[OF o stack_atD(1)[OF p(1)] p(2)]
  have pg: "top_page (db_tree db) mc = ce_deref (te_ce (db_tree db)) a" using leaf_top(1)[OF p(1,2) l] by (simp add: top_page_def)
  have lp: "mdb_leaf_prefix_contribution (top_page (db_tree db) mc) (top_ki mc) = word_of_nat (top_ki mc)"
    using leaf_prefix[OF l, of "top_ki mc"] p(3) pg by simp
  show "path_prefix (db_tree db) mc + mdb_leaf_prefix_contribution (top_page (db_tree db) mc) (top_ki mc) = word_of_nat r"
    using path_prefix_offset[OF p(1) d(6-8) ct] lp p(4) by simp
  show "\<exists>n. path_prefix_any (db_tree db) [0..<mc_top mc] 0 mc = Some (mc, Ok n) \<and>
      n + mdb_leaf_prefix_contribution (top_page (db_tree db) mc) (top_ki mc) = word_of_nat r"
    using path_prefix_any_offset[OF p(1) d(6-8) ct] lp p(4) by simp
  show "top_ki mc < NUMKEYS (top_page (db_tree db) mc)" using leaf_top(4)[OF p(1,2) l] p(3) by simp
  show "mdb_leaf_entry_contribution (top_page (db_tree db) mc) (NODEPTR (top_page (db_tree db) mc) (top_ki mc)) = 1"
    using leaf_contribution[OF l p(3)] pg by simp
qed

lemma place_hit:
  assumes "sorted_wrt (<) (map fst es)" "place_in k es < length es"
  shows "fst (es ! place_in k es) = k \<longleftrightarrow> k \<in> fst ` set es"
  using place_in_exact[OF assms(1)] assms(2) by (metis image_eqI nth_mem)

lemma prefix_count_spec:
  assumes c: "counts_tree db h t mc" and s: "settled mc t" and k: "snd key \<noteq> []" "length (snd key) < 2 ^ 32"
  shows "\<exists>mc'. prefix_count db key inclusive mc = Some (mc', Ok (word_of_nat (num_where (before inclusive (snd key)) (entries t)))) \<and> same_db mc mc'"
proof -
  have o: "on_tree db h t mc" and n: "mc_entries mc = word_of_nat (length (entries t))" using c by (simp_all add: counts_tree_def)
  note d = on_treeD[OF o] and srt = tree_sorted[OF o]
  let ?pl = "place_in (snd key) (entries t)"
  have sd: "seek_done t (snd key) MDB_SET_RANGE False False mc (mdb_cursor_set db key None MDB_SET_RANGE False mc)"
    using set_spec[OF o s k, of MDB_SET_RANGE False None] by simp
  show ?thesis
  proof (cases "?pl < length (entries t)")
    case True
    then obtain mc1 where m1: "mdb_cursor_set db key None MDB_SET_RANGE False mc = Some (mc1, Ok (Some (fst (entries t ! ?pl)), None))"
      "at_pos mc1 t ?pl" "same_db mc mc1"
      using sd by (auto simp: seek_done_def seek_hit_def set_entry_def)
    note c1 = counts_tree_same[OF c m1(3)]
    have e1: "at_entry mc1 t ?pl" using m1(2) by (simp add: at_pos_def)
    note rs = rank_sums[OF c1 e1]
    obtain p a es where p: "stack_at mc1 t p" "sub t p = TLeaf a es" "top_ki mc1 < length es" "?pl = offset t p + top_ki mc1"
      using e1 by (auto simp: at_entry_def)
    have "entries t ! ?pl = es ! top_ki mc1" using nth_entries(1)[OF stack_atD(1)[OF p(1)] p(2,3)] p(4) by simp
    moreover have "length (fst (es ! top_ki mc1)) < 2 ^ 32"
      using leaf_storedD(9)[OF leaf_of(1)[OF on_tree_same[OF o m1(3)] stack_atD(1)[OF p(1)] p(2)] d(4) p(3)] .
    ultimately have cmp: "cmp_call (te_cmp (db_tree db)) (snd key) (fst (entries t ! ?pl)) = Ok (lexcmp (snd key) (fst (entries t ! ?pl)))"
      using d(10) k(2) by (simp add: cmp_memn_lexcmp)
    have eq: "lexcmp (snd key) (fst (entries t ! ?pl)) = 0 \<longleftrightarrow> snd key \<in> fst ` set (entries t)"
      using place_hit[OF srt True] by (auto simp: lexcmp_order)
    have "prefix_count db key inclusive mc = Some (mc1, Ok (word_of_nat ?pl + (if inclusive \<and> snd key \<in> fst ` set (entries t) then 1 else 0)))"
      using m1(1) cmp rs(1,3,4) by (simp add: prefix_count_def Let_def eq)
    then show ?thesis using num_before[OF srt, of inclusive "snd key"] m1(3) by (auto simp: add.commute)
  next
    case False
    then obtain mc1 where m1: "mdb_cursor_set db key None MDB_SET_RANGE False mc = Some (mc1, Err MDB_NOTFOUND)" "same_db mc mc1"
      using sd by (auto simp: seek_done_def seek_hit_def)
    have "?pl = length (entries t)" using False place_in_le[of "snd key" "entries t"] by simp
    moreover from this have "snd key \<notin> fst ` set (entries t)" using place_in_exact[OF srt] by fastforce
    moreover have "mc_entries mc1 = word_of_nat (length (entries t))" using m1(2) n by (simp add: same_db_def)
    ultimately show ?thesis using m1 num_before[OF srt, of inclusive "snd key"] by (auto simp: prefix_count_def)
  qed
qed

section \<open>Counting a range\<close>

text \<open>The database as the transaction sees it.\<close>

definition db_at :: "db_env \<Rightarrow> nat \<Rightarrow> tree \<Rightarrow> db_state \<Rightarrow> bool" where
  "db_at db h t ds \<longleftrightarrow> tree_at (db_tree db) (ds_txn ds) (ds_root ds) h t \<and> \<not> ce_prefix (te_ce (db_tree db)) \<and> \<not> ds_stale ds \<and>
     ds_entries ds = word_of_nat (length (entries t)) \<and> length (entries t) < 2 ^ 64 \<and> counted (db_tree db) t \<and>
     counted_db db \<and> \<not> dupsort_db db"

lemma db_at_cursor:
  assumes "db_at db h t ds"
  shows "counts_tree db h t (ds_cursor ds)" "settled (ds_cursor ds) t" "init_stale db (ds_cursor ds) = Some (ds_cursor ds, Ok ())"
    "\<And>mc. same_db (ds_cursor ds) mc \<Longrightarrow> cursor_ds mc = ds" "\<not> rd_rankvalid (mc_reader (ds_cursor ds))"
  using assms
  by (auto simp: db_at_def counts_tree_def on_tree_def ds_cursor_def cursor_init_def settled_def init_stale_def same_db_def cursor_ds_def fresh_reader_def)

lemma with_cursor_spec:
  assumes "db_at db h t ds" "m (ds_cursor ds) = Some (mc, r)" "same_db (ds_cursor ds) mc"
  shows "with_cursor db m ds = Some (ds, r)"
  using db_at_cursor(3,4)[OF assms(1)] assms(2,3) by (simp add: with_cursor_def)

lemma prefix_count_db:
  assumes "db_at db h t ds" "snd key \<noteq> []" "length (snd key) < 2 ^ 32"
  shows "mdb_prefix_count db key inclusive ds = Some (ds, Ok (word_of_nat (num_where (before inclusive (snd key)) (entries t))))"
  using prefix_count_spec[OF db_at_cursor(1,2)[OF assms(1)] assms(2,3)] with_cursor_spec[OF assms(1)]
  unfolding mdb_prefix_count_def by blast

text \<open>The range as the caller gives it: the bounds that are not NULL, and whether they are included.\<close>

definition in_range :: "search_key option \<Rightarrow> search_key option \<Rightarrow> u32 \<Rightarrow> bytes \<Rightarrow> bool" where
  "in_range low high flags x \<longleftrightarrow>
     (case low of None \<Rightarrow> True | Some l \<Rightarrow> if flags AND MDB_COUNT_LOWER_INCL \<noteq> 0 then snd l \<le> x else snd l < x) \<and>
     (case high of None \<Rightarrow> True | Some h \<Rightarrow> if flags AND MDB_COUNT_UPPER_INCL \<noteq> 0 then x \<le> snd h else x < snd h)"

lemma num_where_diff:
  assumes "\<And>x. Q x \<Longrightarrow> P x"
  shows "num_where (\<lambda>x. P x \<and> \<not> Q x) es = num_where P es - num_where Q es" "num_where Q es \<le> num_where P es"
proof -
  have "num_where P es = num_where (\<lambda>x. P x \<and> \<not> Q x) es + num_where Q es"
    using assms by (induction es) (auto simp: num_where_def)
  then show "num_where (\<lambda>x. P x \<and> \<not> Q x) es = num_where P es - num_where Q es" "num_where Q es \<le> num_where P es" by simp_all
qed

definition key_ok :: "search_key option \<Rightarrow> bool" where
  "key_ok k \<longleftrightarrow> (case k of None \<Rightarrow> True | Some k \<Rightarrow> snd k \<noteq> [] \<and> length (snd k) < 2 ^ 32)"

text \<open>The two ends, where the NULL ones are beyond all keys.\<close>

definition below_high :: "search_key option \<Rightarrow> u32 \<Rightarrow> bytes \<Rightarrow> bool" where
  "below_high high flags x \<longleftrightarrow> (case high of None \<Rightarrow> True | Some h \<Rightarrow> before (flags AND MDB_COUNT_UPPER_INCL \<noteq> 0) (snd h) x)"

definition below_low :: "search_key option \<Rightarrow> u32 \<Rightarrow> bytes \<Rightarrow> bool" where
  "below_low low flags x \<longleftrightarrow> (case low of None \<Rightarrow> False | Some l \<Rightarrow> before (\<not> flags AND MDB_COUNT_LOWER_INCL \<noteq> 0) (snd l) x)"

lemma in_range_below: "in_range low high flags x \<longleftrightarrow> below_high high flags x \<and> \<not> below_low low flags x"
  by (auto simp: in_range_def below_high_def below_low_def before_def not_less not_le split: option.splits)

definition range_empty :: "search_key option \<Rightarrow> search_key option \<Rightarrow> u32 \<Rightarrow> bool" where
  "range_empty low high flags \<longleftrightarrow> (case (low, high) of
     (Some l, Some h) \<Rightarrow> snd h < snd l \<or> (snd l = snd h \<and> \<not> (flags AND MDB_COUNT_LOWER_INCL \<noteq> 0 \<and> flags AND MDB_COUNT_UPPER_INCL \<noteq> 0))
   | _ \<Rightarrow> False)"

lemma range_empty_none:
  assumes "range_empty low high flags"
  shows "\<not> in_range low high flags x"
proof -
  obtain l h where lh: "low = Some l" "high = Some h" using assms by (auto simp: range_empty_def split: option.splits)
  have "snd h < snd l \<or> snd l = snd h" using assms lh by (auto simp: range_empty_def)
  then show ?thesis
  proof
    assume "snd h < snd l"
    then have "\<not> (snd l \<le> x \<and> x \<le> snd h)" by (meson leD order_trans)
    then show ?thesis using lh by (auto simp: in_range_def split: if_splits)
  next
    assume "snd l = snd h"
    then show ?thesis using assms lh by (auto simp: in_range_def range_empty_def)
  qed
qed

lemma range_nonempty:
  assumes "\<not> range_empty low high flags" "below_low low flags x"
  shows "below_high high flags x"
proof (cases "low = None \<or> high = None")
  case True
  then show ?thesis using assms(2) by (auto simp: below_low_def below_high_def)
next
  case False
  then obtain l h where lh: "low = Some l" "high = Some h" by auto
  then have "snd l < snd h \<or> (snd l = snd h \<and> flags AND MDB_COUNT_LOWER_INCL \<noteq> 0 \<and> flags AND MDB_COUNT_UPPER_INCL \<noteq> 0)"
    using assms(1) by (auto simp: range_empty_def not_less)
  then show ?thesis using assms(2) lh by (auto simp: below_low_def below_high_def before_def split: if_splits)
qed

lemma range_test:
  assumes k: "key_ok low" "key_ok high" and cmp: "te_cmp (db_tree db) = Cmp_memn"
  shows "(case (low, high) of
      (Some l, Some h) \<Rightarrow> db_ret (bind_res (cmp_call (te_cmp (db_tree db)) (snd l) (snd h))
        (\<lambda>c. Ok (c > 0 \<or> (c = 0 \<and> \<not> (flags AND MDB_COUNT_LOWER_INCL \<noteq> 0 \<and> flags AND MDB_COUNT_UPPER_INCL \<noteq> 0)))))
    | _ \<Rightarrow> db_ret (Ok False)) = db_ret (Ok (range_empty low high flags))"
proof (cases "low = None \<or> high = None")
  case True
  then show ?thesis by (auto simp: range_empty_def split: option.splits)
next
  case False
  then obtain l h where lh: "low = Some l" "high = Some h" by auto
  then have "cmp_call (te_cmp (db_tree db)) (snd l) (snd h) = Ok (lexcmp (snd l) (snd h))"
    using k cmp by (simp add: key_ok_def cmp_memn_lexcmp)
  then show ?thesis using lh by (cases "snd l" "snd h" rule: linorder_cases) (auto simp: range_empty_def lexcmp_order less_not_sym)
qed

lemma db_bind_ret [simp]: "db_bind (db_ret (Ok x)) f = f x"
  by (simp add: db_bind_def db_ret_def fun_eq_iff)

lemma db_bind_Some: "m ds = Some (ds', Ok x) \<Longrightarrow> db_bind m f ds = f x ds'"
  by (simp add: db_bind_def)

lemma u64_diff: "b \<le> a \<Longrightarrow> a < 2 ^ 64 \<Longrightarrow> (if (word_of_nat b :: u64) \<le> word_of_nat a then word_of_nat a - word_of_nat b else 0) = (word_of_nat (a - b) :: u64)"
  by (simp add: of_nat_diff word_le_nat_alt unat_of_nat)

lemma count_range_spec:
  assumes d: "db_at db h t ds" and k: "key_ok low" "key_ok high" and fl: "count_flags_ok flags"
  shows "mdb_count_range db low high flags ds = Some (ds, Ok (word_of_nat (num_where (in_range low high flags) (entries t))))"
proof -
  let ?es = "entries t"
  have c: "counts_tree db h t (ds_cursor ds)" using db_at_cursor(1)[OF d] .
  have o: "on_tree db h t (ds_cursor ds)" using c by (simp add: counts_tree_def)
  have n: "length ?es < 2 ^ 64" "ds_entries ds = word_of_nat (length ?es)" "counted_db db" "\<not> dupsort_db db" "\<not> ds_stale ds"
    using d by (simp_all add: db_at_def)
  have ne: "ds_entries ds \<noteq> 0" using entries_ne[OF o] n(1,2) by (simp add: word_of_nat_eq_0_iff nat_dvd_not_less)
  have hi: "(case high of Some h \<Rightarrow> mdb_prefix_count db h (flags AND MDB_COUNT_UPPER_INCL \<noteq> 0) | None \<Rightarrow> mdb_count_all db flags) ds =
      Some (ds, Ok (word_of_nat (num_where (below_high high flags) ?es)))"
  proof (cases high)
    case None
    then show ?thesis using n fl by (simp add: mdb_count_all_def below_high_def[abs_def] num_where_def)
  next
    case (Some h)
    then show ?thesis using prefix_count_db[OF d, of h] k(2) by (simp add: below_high_def[abs_def] key_ok_def)
  qed
  have lo: "(case low of Some l \<Rightarrow> mdb_prefix_count db l (\<not> flags AND MDB_COUNT_LOWER_INCL \<noteq> 0) | None \<Rightarrow> db_ret (Ok 0)) ds =
      Some (ds, Ok (word_of_nat (num_where (below_low low flags) ?es)))"
  proof (cases low)
    case None
    then show ?thesis by (simp add: db_ret_def below_low_def[abs_def] num_where_def)
  next
    case (Some l)
    then show ?thesis using prefix_count_db[OF d, of l] k(1) by (simp add: below_low_def[abs_def] key_ok_def)
  qed
  show ?thesis
  proof (cases "range_empty low high flags")
    case True
    then have "num_where (in_range low high flags) ?es = 0" using range_empty_none by (auto simp: num_where_def filter_empty_conv)
    then show ?thesis using True n(3,4) fl ne unfolding mdb_count_range_def Let_def range_test[OF k on_treeD(10)[OF o]]
      by (simp add: db_ret_def)
  next
    case False
    have sub: "below_low low flags x \<Longrightarrow> below_high high flags x" for x using range_nonempty[OF False] .
    have eq: "in_range low high flags = (\<lambda>x. below_high high flags x \<and> \<not> below_low low flags x)" using in_range_below by blast
    have diff: "num_where (in_range low high flags) ?es = num_where (below_high high flags) ?es - num_where (below_low low flags) ?es"
      "num_where (below_low low flags) ?es \<le> num_where (below_high high flags) ?es"
      using num_where_diff[OF sub] unfolding eq by simp_all
    have "num_where (below_high high flags) ?es < 2 ^ 64" using num_where_le[of _ ?es] n(1) by (meson le_less_trans)
    note u = u64_diff[OF diff(2) this]
    have "mdb_count_range db low high flags ds =
       db_bind (case high of Some h \<Rightarrow> mdb_prefix_count db h (flags AND MDB_COUNT_UPPER_INCL \<noteq> 0) | None \<Rightarrow> mdb_count_all db flags) (\<lambda>upper.
         db_bind (case low of Some l \<Rightarrow> mdb_prefix_count db l (\<not> flags AND MDB_COUNT_LOWER_INCL \<noteq> 0) | None \<Rightarrow> db_ret (Ok 0)) (\<lambda>lower.
           db_ret (Ok (if upper \<ge> lower then upper - lower else 0)))) ds"
      unfolding mdb_count_range_def Let_def range_test[OF k on_treeD(10)[OF o]] using False n(3,4) fl ne by simp
    also have "\<dots> = db_ret (Ok (word_of_nat (num_where (in_range low high flags) ?es))) ds"
      
      unfolding db_bind_Some[where m = "case high of Some h \<Rightarrow> mdb_prefix_count db h (flags AND MDB_COUNT_UPPER_INCL \<noteq> 0) | None \<Rightarrow> mdb_count_all db flags", OF hi]
        db_bind_Some[where m = "case low of Some l \<Rightarrow> mdb_prefix_count db l (\<not> flags AND MDB_COUNT_LOWER_INCL \<noteq> 0) | None \<Rightarrow> db_ret (Ok 0)", OF lo]
        u diff(1) ..
    finally show ?thesis by (simp add: db_ret_def)
  qed
qed

lemma range_count_keys_spec:
  assumes d: "db_at db h t ds" and k: "key_ok low" "key_ok high" and fl: "count_flags_ok flags"
  shows "mdb_range_count_keys db low high flags ds = Some (ds, Ok (word_of_nat (num_where (in_range low high flags) (entries t))))"
proof -
  have o: "on_tree db h t (ds_cursor ds)" using db_at_cursor(1)[OF d] by (simp add: counts_tree_def)
  have n: "length (entries t) < 2 ^ 64" "ds_entries ds = word_of_nat (length (entries t))" "counted_db db" "\<not> dupsort_db db"
    using d by (simp_all add: db_at_def)
  have ne: "ds_entries ds \<noteq> 0" using entries_ne[OF o] n(1,2) by (simp add: word_of_nat_eq_0_iff nat_dvd_not_less)
  have "\<not> mt_blocked (ds_txn ds)" using d tree_atD(2) by (auto simp: db_at_def)
  then have "mdb_range_count_keys db low high flags ds =
      (if range_empty low high flags then Some (ds, Ok 0) else mdb_count_range db low high flags ds)"
    using n(3,4) fl ne unfolding mdb_range_count_keys_def Let_def range_test[OF k on_treeD(10)[OF o]] by (simp add: db_ret_def)
  moreover have "num_where (in_range low high flags) (entries t) = 0" if "range_empty low high flags"
    using range_empty_none[OF that] by (auto simp: num_where_def filter_empty_conv)
  ultimately show ?thesis using count_range_spec[OF assms] by simp
qed

section \<open>The rank of a key\<close>

lemma same_del: "on_tree db h t mc' \<Longrightarrow> mc'\<lparr>mc_del := False\<rparr> = mc'"
  by (simp add: on_tree_def)

text \<open>What the dispatch adds to an operation other than \<open>GET_CURRENT\<close>.\<close>

definition forget_rank :: "cursor \<Rightarrow> cursor" where
  "forget_rank mc = mc\<lparr>mc_reader := mdb_cursor_rank_invalidate (mc_reader mc)\<rparr>"

lemma forget_rank_simps [simp]:
  "on_tree db h t (forget_rank mc) = on_tree db h t mc" "settled (forget_rank mc) t = settled mc t"
  "same_db mc' (forget_rank mc) = same_db mc' mc" "same_db (forget_rank mc) mc' = same_db mc mc'"
  by (simp_all add: forget_rank_def settled_def) (simp add: same_db_def)

lemma set_key_spec:
  assumes o: "on_tree db h t mc" and s: "settled mc t" and k: "snd key \<noteq> []" "length (snd key) < 2 ^ 32"
  shows "seek_done t (snd key) MDB_SET_KEY True True mc (mdb_cursor_get db (Some key) (Some []) MDB_SET_KEY mc)"
proof -
  have "txn_ok (mc_txn mc)" using o tree_atD(2,3) by (auto simp: on_tree_def txn_ok_def)
  then have get: "mdb_cursor_get db (Some key) (Some []) MDB_SET_KEY mc =
      clear_del (mdb_cursor_set db key (Some []) MDB_SET_KEY True) (forget_rank mc)"
    by (simp add: mdb_cursor_get_def Let_def cthen_Some[where m = txn_usable, OF txn_usable_ok] forget_rank_def)
  have sd: "seek_done t (snd key) MDB_SET_KEY True True (forget_rank mc) (mdb_cursor_set db key (Some []) MDB_SET_KEY True (forget_rank mc))"
    using set_spec[of db h t "forget_rank mc" key MDB_SET_KEY True "Some []"] o s k by simp
  then obtain mc' r where m: "mdb_cursor_set db key (Some []) MDB_SET_KEY True (forget_rank mc) = Some (mc', r)" "same_db mc mc'"
    by (auto simp: seek_done_def split: if_splits)
  have "clear_del (mdb_cursor_set db key (Some []) MDB_SET_KEY True) (forget_rank mc) =
      mdb_cursor_set db key (Some []) MDB_SET_KEY True (forget_rank mc)"
    using m same_del[OF on_tree_same[OF o m(2)]] by (simp add: clear_del_def)
  then show ?thesis using sd unfolding get by (simp add: seek_done_def)
qed

lemma pair_leq_present:
  assumes c: "counts_tree db h t mc" and s: "settled mc t" and k: "snd key \<noteq> []" "length (snd key) < 2 ^ 32"
    and hit: "snd key \<in> fst ` set (entries t)"
  shows "\<exists>mc'. mdb_prefix_pair_leq_cursor db key False None False mc = Some (mc', Ok (word_of_nat (place_in (snd key) (entries t)))) \<and> same_db mc mc'"
proof -
  have o: "on_tree db h t mc" using c by (simp add: counts_tree_def)
  have "seek_done t (snd key) MDB_SET_RANGE True True mc (mdb_cursor_set db key (Some []) MDB_SET_RANGE True mc)"
    using set_spec[OF o s k, of MDB_SET_RANGE True "Some []"] by simp
  then obtain mc1 e where m1: "mdb_cursor_set db key (Some []) MDB_SET_RANGE True mc = Some (mc1, Ok e)"
    "at_pos mc1 t (place_in (snd key) (entries t))" "same_db mc mc1"
    using hit by (auto simp: seek_done_def seek_hit_def set_entry_def)
  have e1: "at_entry mc1 t (place_in (snd key) (entries t))" using m1(2) by (simp add: at_pos_def)
  obtain n where n: "path_prefix_any (db_tree db) [0..<mc_top mc1] 0 mc1 = Some (mc1, Ok n)"
    "n + mdb_leaf_prefix_contribution (top_page (db_tree db) mc1) (top_ki mc1) = word_of_nat (place_in (snd key) (entries t))"
    using rank_sums(2)[OF counts_tree_same[OF c m1(3)] e1] by blast
  have "mdb_prefix_pair_leq_cursor db key False None False mc = Some (mc1, Ok (word_of_nat (place_in (snd key) (entries t))))"
    using m1(1) n(2) by (simp add: mdb_prefix_pair_leq_cursor_def Let_def cbind_Some[where m = "path_prefix_any (db_tree db) [0..<mc_top mc1] 0", OF n(1)])
  then show ?thesis using m1(3) by blast
qed

lemma rank_for_key_spec:
  assumes d: "db_at db h t ds" and k: "snd key \<noteq> []" "length (snd key) < 2 ^ 32"
  shows "mdb_rank_for_key db (Some key) data 0 ds = Some (ds, case map_of (entries t) (snd key) of
     None \<Rightarrow> Err MDB_NOTFOUND
   | Some v \<Rightarrow> if data = None \<or> data = Some v then Ok (word_of_nat (place_in (snd key) (entries t))) else Err MDB_NOTFOUND)"
proof -
  let ?mc = "ds_cursor ds" and ?es = "entries t" and ?pl = "place_in (snd key) (entries t)"
  note c = db_at_cursor(1,2)[OF d]
  have o: "on_tree db h t ?mc" using c(1) by (simp add: counts_tree_def)
  have fl: "counted_db db" "\<not> dupsort_db db" "\<not> mt_blocked (ds_txn ds)" using d tree_atD(2) by (auto simp: db_at_def)
  have run: "mdb_rank_for_key db (Some key) data 0 ds =
      db_bind (with_cursor db (rank_check db key data)) (\<lambda>_. mdb_prefix_pair_leq db key False None False) ds"
    using fl by (simp add: mdb_rank_for_key_def)
  note sd = set_key_spec[OF o c(2) k]
  show ?thesis
  proof (cases "snd key \<in> fst ` set ?es")
    case False
    then obtain mc1 where m: "mdb_cursor_get db (Some key) (Some []) MDB_SET_KEY ?mc = Some (mc1, Err MDB_NOTFOUND)" "same_db ?mc mc1"
      using sd by (auto simp: seek_done_def seek_hit_def)
    have "rank_check db key data ?mc = Some (mc1, Err MDB_NOTFOUND)" using m(1) by (simp add: rank_check_def cbind_def)
    from with_cursor_spec[where m = "rank_check db key data", OF d this m(2)] show ?thesis using False map_of_eq_None_iff[of ?es "snd key"] unfolding run
      by (auto simp: db_bind_def)
  next
    case True
    note ex = place_in_exact[OF tree_sorted[OF o] True]
    obtain mc1 where m: "mdb_cursor_get db (Some key) (Some []) MDB_SET_KEY ?mc =
        Some (mc1, Ok (Some (fst (?es ! ?pl)), Some (snd (?es ! ?pl))))" "same_db ?mc mc1"
      using sd True by (auto simp: seek_done_def seek_hit_def set_entry_def)
    define good where "good = (data = None \<or> data = Some (snd (?es ! ?pl)))"
    have "rank_check db key data ?mc = Some (mc1, if good then Ok () else Err MDB_NOTFOUND)"
      using m(1) by (cases data) (auto simp: rank_check_def cbind_def good_def)
    from with_cursor_spec[where m = "rank_check db key data", OF d this m(2)]
    have ck: "with_cursor db (rank_check db key data) ds = Some (ds, if good then Ok () else Err MDB_NOTFOUND)" .
    obtain mc2 where "mdb_prefix_pair_leq_cursor db key False None False ?mc = Some (mc2, Ok (word_of_nat ?pl))" "same_db ?mc mc2"
      using pair_leq_present[OF c k True] by blast
    from with_cursor_spec[where m = "mdb_prefix_pair_leq_cursor db key False None False", OF d this] have "mdb_prefix_pair_leq db key False None False ds = Some (ds, Ok (word_of_nat ?pl))"
      by (simp add: mdb_prefix_pair_leq_def)
    then show ?thesis using ck ex unfolding run good_def by (auto simp: db_bind_def)
  qed
qed

section \<open>Moving to a rank\<close>

lemma rank_pick_spec:
  assumes "\<forall>i<n. f i = word_of_nat (c i)" "(\<Sum>i<j. c i) \<le> r" "r < (\<Sum>i<n. c i)" "(\<Sum>i<n. c i) < 2 ^ 64"
  shows "j \<le> n \<Longrightarrow> \<exists>i. j \<le> i \<and> i < n \<and> rank_pick f j n (word_of_nat (r - (\<Sum>i<j. c i))) = (i, word_of_nat (r - (\<Sum>k<i. c k))) \<and>
     (\<Sum>k<i. c k) \<le> r \<and> r < (\<Sum>k<Suc i. c k)"
  using assms(2)
proof (induction "n - j" arbitrary: j)
  case 0
  then show ?case using assms(3) by auto
next
  case (Suc m)
  have j: "j < n" using Suc.hyps(2) by simp
  have "(\<Sum>i<Suc j. c i) \<le> (\<Sum>i<n. c i)" by (rule sum_mono2) (use j in auto)
  then have small: "c j < 2 ^ 64" "r < 2 ^ 64" using assms(3,4) by simp_all
  have fj: "f j = word_of_nat (c j)" using assms(1) j by simp
  define d where "d = r - (\<Sum>i<j. c i)"
  have "d < 2 ^ 64" using small(2) by (simp add: d_def)
  then have "word_of_nat d < f j \<longleftrightarrow> d < c j" using small(1) by (simp add: fj word_less_nat_alt unat_of_nat)
  then have less: "word_of_nat (r - (\<Sum>i<j. c i)) < f j \<longleftrightarrow> r < (\<Sum>i<Suc j. c i)"
    using Suc.prems(2) unfolding d_def by auto
  show ?case
  proof (cases "r < (\<Sum>i<Suc j. c i)")
    case True
    then show ?thesis using Suc.prems j less by (subst rank_pick.simps) auto
  next
    case False
    have e: "r - (\<Sum>i<Suc j. c i) = d - c j" "c j \<le> d" using False by (auto simp: d_def)
    have "word_of_nat d - f j = (word_of_nat (d - c j) :: u64)" using e(2) by (simp add: fj)
    then have "rank_pick f j n (word_of_nat d) = rank_pick f (Suc j) n (word_of_nat (d - c j))"
      using j less False unfolding d_def[symmetric] by (subst rank_pick.simps) simp
    then have "rank_pick f j n (word_of_nat (r - (\<Sum>i<j. c i))) = rank_pick f (Suc j) n (word_of_nat (r - (\<Sum>i<Suc j. c i)))"
      unfolding e(1) d_def[symmetric] .
    then show ?thesis using Suc.hyps(1)[of "Suc j"] Suc.hyps(2) j False by fastforce
  qed
qed

text \<open>The bases of the levels are the ranks of the first entries below their pages.\<close>

definition bases_ok :: "cursor \<Rightarrow> tree \<Rightarrow> nat list \<Rightarrow> bool" where
  "bases_ok mc t p \<longleftrightarrow> (\<forall>j\<le>length p. mc_rank_base mc j = word_of_nat (offset t (take j p)))"

text \<open>A cursor that \<open>mdb_cursor_get_rank\<close> has moved to a rank and that nothing has moved since.\<close>

definition rank_at :: "cursor \<Rightarrow> tree \<Rightarrow> nat \<Rightarrow> bool" where
  "rank_at mc t r \<longleftrightarrow> (\<exists>p a es. stack_at mc t p \<and> sub t p = TLeaf a es \<and> top_ki mc < length es \<and> r = offset t p + top_ki mc \<and>
     bases_ok mc t p) \<and> mc_init mc \<and> \<not> mc_eof mc \<and> mc_rank_cached (mc_reader mc) = word_of_nat r \<and> mc_rank_offset (mc_reader mc) = 0"

lemma rank_at_pos: "rank_at mc t r \<Longrightarrow> at_pos mc t r"
  by (auto simp: rank_at_def at_pos_def at_entry_def)

text \<open>No page is at the address 0, which is NULL.\<close>

fun mapped :: "tree \<Rightarrow> bool" where
  "mapped (TLeaf a es) \<longleftrightarrow> a \<noteq> 0"
| "mapped (TBranch a seps ts) \<longleftrightarrow> a \<noteq> 0 \<and> list_all mapped ts"

lemma mapped_sub: "mapped t \<Longrightarrow> valid_path t p \<Longrightarrow> mapped (sub t p) \<and> tree_addr (sub t p) \<noteq> 0"
proof (induction t p rule: valid_path.induct)
  case (1 t)
  then show ?case by (cases t) auto
qed (auto simp: list_all_length)

definition rank_tree :: "db_env \<Rightarrow> nat \<Rightarrow> tree \<Rightarrow> cursor \<Rightarrow> bool" where
  "rank_tree db h t mc \<longleftrightarrow> counts_tree db h t mc \<and> mapped t"

lemma rank_tree_same: "rank_tree db h t mc \<Longrightarrow> same_db mc mc' \<Longrightarrow> rank_tree db h t mc'"
  using counts_tree_same by (auto simp: rank_tree_def)

lemma rank_treeD:
  assumes "rank_tree db h t mc"
  shows "on_tree db h t mc" "counted (db_tree db) t" "mc_entries mc = word_of_nat (length (entries t))" "length (entries t) < 2 ^ 64" "mapped t"
  using assms by (auto simp: rank_tree_def counts_tree_def)

lemma same_base [simp]: "same_db mc (mc'\<lparr>mc_rank_base := b\<rparr>) = same_db mc mc'" "top_addr (mc'\<lparr>mc_rank_base := b\<rparr>) = top_addr mc'"
  "stack_at (mc'\<lparr>mc_rank_base := b\<rparr>) t p = stack_at mc' t p" "top_ki (mc'\<lparr>mc_rank_base := b\<rparr>) = top_ki mc'"
  by (simp_all add: same_db_def top_addr_def stack_at_def top_ki_def)

lemma branch_total: "(\<Sum>i<length ts. length (entries (ts ! i))) = length (entries (TBranch a seps ts))"
  using sum_entries[of "length ts" ts] by (simp add: length_concat comp_def)

lemma sub_entries_le: "valid_path t p \<Longrightarrow> offset t p + length (entries (sub t p)) \<le> length (entries t)"
  using entries_split[of t p] by auto

lemma rank_step_spec:
  assumes rt: "rank_tree db h t mc" and s: "stack_at mc t p" and u: "sub t p = TBranch a seps ts" and b: "bases_ok mc t p"
    and r: "offset t p \<le> r" "r < offset t p + length (entries (sub t p))"
  shows "\<exists>mc' i. rank_step (db_tree db) (word_of_nat r) (word_of_nat (r - offset t p)) mc = Some (mc', Ok (word_of_nat (r - offset t (p @ [i])))) \<and>
    stack_at mc' t (p @ [i]) \<and> bases_ok mc' t (p @ [i]) \<and> same_db mc mc' \<and> mc_init mc' = mc_init mc \<and> mc_eof mc' = mc_eof mc \<and>
    mc_reader mc' = mc_reader mc \<and> offset t (p @ [i]) \<le> r \<and> r < offset t (p @ [i]) + length (entries (sub t (p @ [i])))"
proof -
  let ?te = "db_tree db"
  note R = rank_treeD[OF rt]
  note d = on_treeD[OF R(1)] and sd = stack_atD[OF s]
  have st: "stored ?te (mc_txn mc) (TBranch a seps ts)" and c: "counted ?te (TBranch a seps ts)"
    using sub_props[OF sd(1) d(6-8)] counted_sub[OF R(2) sd(1)] u by simp_all
  note bs = branch_storedD[OF st] and cs = countedD[OF c]
  have pg: "top_page ?te mc = ce_deref (te_ce ?te) a" using sd(4) u by (simp add: top_page_def)
  let ?c = "\<lambda>i. length (entries (ts ! i))" and ?f = "\<lambda>i. mdb_node_get_count (top_page ?te mc) (NODEPTR (top_page ?te mc) i)"
  have tot: "(\<Sum>i<length ts. ?c i) = length (entries (sub t p))" using branch_total u by simp
  have small: "length (entries t) < 2 ^ 64" "offset t p + length (entries (sub t p)) \<le> length (entries t)" using R(4) sub_entries_le[OF sd(1)] by simp_all
  have "\<exists>i. 0 \<le> i \<and> i < length ts \<and> rank_pick ?f 0 (length ts) (word_of_nat (r - offset t p - (\<Sum>i<0. ?c i))) =
      (i, word_of_nat (r - offset t p - (\<Sum>k<i. ?c k))) \<and> (\<Sum>k<i. ?c k) \<le> r - offset t p \<and> r - offset t p < (\<Sum>k<Suc i. ?c k)"
    by (rule rank_pick_spec) (use cs(3) r small tot in \<open>auto simp: pg\<close>)
  then obtain i where i: "i < length ts" "rank_pick ?f 0 (length ts) (word_of_nat (r - offset t p)) =
      (i, word_of_nat (r - offset t p - (\<Sum>k<i. ?c k)))" "(\<Sum>k<i. ?c k) \<le> r - offset t p" "r - offset t p < (\<Sum>k<Suc i. ?c k)"
    by auto
  have off: "offset t (p @ [i]) = offset t p + (\<Sum>k<i. ?c k)" by (rule offset_snoc[OF sd(1) u i(1)])
  have sub: "sub t (p @ [i]) = ts ! i" using u by (simp add: sub_append)
  have v: "valid_path t (p @ [i])" using sd(1) u i(1) by (simp add: valid_append)
  have len: "length (p @ [i]) \<le> h" using full_sub[OF d(5) v] by simp
  then have room: "\<not> CURSOR_STACK \<le> Suc (length p)" using d(9) by simp
  define mc1 where "mc1 = mc\<lparr>mc_top := Suc (length p), mc_snum := Suc (Suc (length p)),
      mc_pg := (mc_pg mc)(Suc (length p) := tree_addr (sub t (p @ [i]))), mc_ki := (mc_ki mc)(length p := i, Suc (length p) := 0)\<rparr>"
  have s1: "stack_at mc1 t (p @ [i])" unfolding mc1_def by (rule stack_at_push[OF s v])
  define rem where "rem = r - offset t (p @ [i])"
  have rem: "r - offset t p - (\<Sum>k<i. ?c k) = rem" using off by (simp add: rem_def)
  have base: "word_of_nat r - word_of_nat rem = (word_of_nat (offset t (p @ [i])) :: u64)"
  proof -
    have "r = rem + offset t (p @ [i])" using off i(3) r(1) by (simp add: rem_def)
    then show ?thesis by simp
  qed
  define mc2 where "mc2 = mc1\<lparr>mc_rank_base := (mc_rank_base mc1)(Suc (length p) := word_of_nat (offset t (p @ [i])))\<rparr>"
  have push: "mdb_cursor_push (tree_addr (ts ! i)) (set_ki i mc) = Some (mc1, Ok ())"
    using room sd(2,3) sub by (simp add: mdb_cursor_push_def set_ki_def mc1_def)
  have get: "cbind (cursor_page_get ?te (NODEPGNO (ce_deref (te_ce ?te) a) (NODEPTR (ce_deref (te_ce ?te) a) i))) f (set_ki i mc) = f (tree_addr (ts ! i)) (set_ki i mc)" for f :: "nat \<Rightarrow> u64 op"
    using bs(9)[OF i(1)] by (intro cbind_page_get) (simp add: pg set_ki_def)
  have "rank_step ?te (word_of_nat r) (word_of_nat (r - offset t p)) mc = Some (mc2, Ok (word_of_nat rem))"
    using cs(1) bs(5) i(1) i(2)[unfolded rem] pg base
    by (simp add: rank_step_def Let_def get cthen_Some[where m = "mdb_cursor_push (tree_addr (ts ! i))", OF push] mc2_def) (simp add: mc1_def)
  moreover have "stack_at mc2 t (p @ [i])" "same_db mc mc2" "mc_init mc2 = mc_init mc" "mc_eof mc2 = mc_eof mc" "mc_reader mc2 = mc_reader mc"
    using s1 by (simp_all add: mc2_def) (simp_all add: mc1_def same_db_def)
  moreover have "bases_ok mc2 t (p @ [i])"
    using b by (auto simp: bases_ok_def mc2_def mc1_def le_Suc_eq)
  moreover have "offset t (p @ [i]) \<le> r" "r < offset t (p @ [i]) + length (entries (sub t (p @ [i])))"
    using off i(3,4) r(1) sub by simp_all
  ultimately show ?thesis unfolding rem_def by blast
qed

lemma rank_loop_spec:
  assumes "rank_tree db h t mc" "stack_at mc t p" "bases_ok mc t p" "offset t p \<le> r" "r < offset t p + length (entries (sub t p))"
  shows "\<exists>mc' q a es. rank_descend_loop (db_tree db) (word_of_nat r) (word_of_nat (r - offset t p)) mc = Some (mc', Ok (word_of_nat (r - offset t q))) \<and>
    stack_at mc' t q \<and> sub t q = TLeaf a es \<and> bases_ok mc' t q \<and> same_db mc mc' \<and> mc_init mc' = mc_init mc \<and> mc_eof mc' = mc_eof mc \<and>
    offset t q \<le> r \<and> r < offset t q + length es"
  using assms
proof (induction "h - length p" arbitrary: mc p rule: less_induct)
  case less
  note R = rank_treeD[OF less.prems(1)]
  note d = on_treeD[OF R(1)] and sd = stack_atD[OF less.prems(2)]
  show ?case
  proof (cases "sub t p")
    case (TLeaf a es)
    note l = leaf_of(1)[OF R(1) sd(1) TLeaf]
    have "\<not> IS_BRANCH (top_page (db_tree db) mc)" using sd(4) TLeaf l by (simp add: top_page_def leaf_stored_def Let_def)
    then show ?thesis using less.prems TLeaf by (subst rank_descend_loop.simps) (auto intro!: exI[of _ mc] exI[of _ p])
  next
    case (TBranch a seps ts)
    have "stored (db_tree db) (mc_txn mc) (TBranch a seps ts)" using sub_props[OF sd(1) d(6-8)] TBranch by simp
    then have br: "IS_BRANCH (top_page (db_tree db) mc)" using sd(4) TBranch branch_storedD(1) by (auto simp: top_page_def)
    obtain mc1 i where step: "rank_step (db_tree db) (word_of_nat r) (word_of_nat (r - offset t p)) mc = Some (mc1, Ok (word_of_nat (r - offset t (p @ [i]))))"
      and s1: "stack_at mc1 t (p @ [i])" "bases_ok mc1 t (p @ [i])" and k: "same_db mc mc1" "mc_init mc1 = mc_init mc" "mc_eof mc1 = mc_eof mc"
      and r1: "offset t (p @ [i]) \<le> r" "r < offset t (p @ [i]) + length (entries (sub t (p @ [i])))"
      using rank_step_spec[OF less.prems(1,2) TBranch less.prems(3-5)] by blast
    have "length (p @ [i]) \<le> h" using full_sub[OF d(5) stack_atD(1)[OF s1(1)]] by simp
    then have "h - length (p @ [i]) < h - length p" by simp
    note less.hyps[OF this rank_tree_same[OF less.prems(1) k(1)] s1 r1]
    then obtain mc2 q a es where "rank_descend_loop (db_tree db) (word_of_nat r) (word_of_nat (r - offset t (p @ [i]))) mc1 = Some (mc2, Ok (word_of_nat (r - offset t q)))"
      "stack_at mc2 t q" "sub t q = TLeaf a es" "bases_ok mc2 t q" "same_db mc1 mc2" "mc_init mc2 = mc_init mc1" "mc_eof mc2 = mc_eof mc1"
      "offset t q \<le> r" "r < offset t q + length es" by blast
    moreover have "rank_descend_loop (db_tree db) (word_of_nat r) (word_of_nat (r - offset t p)) mc =
        rank_descend_loop (db_tree db) (word_of_nat r) (word_of_nat (r - offset t (p @ [i]))) mc1"
      using br step by (subst rank_descend_loop.simps) simp
    ultimately show ?thesis using k same_db_trans[OF k(1)] by (intro exI[of _ mc2] exI[of _ q]) auto
  qed
qed

lemma rank_leaf_spec:
  assumes rt: "rank_tree db h t mc" and s: "stack_at mc t q" and l: "sub t q = TLeaf a es" and b: "bases_ok mc t q"
    and r: "offset t q \<le> r" "r < offset t q + length es" and fl: "mc_init mc" "\<not> mc_eof mc"
  shows "\<exists>mc'. rank_leaf (db_tree db) (word_of_nat r) (word_of_nat (r - offset t q)) mc = Some (mc', Ok 0) \<and> rank_at mc' t r \<and> same_db mc mc'"
proof -
  let ?te = "db_tree db" and ?i = "r - offset t q"
  note R = rank_treeD[OF rt]
  note lf = leaf_of(1)[OF R(1) stack_atD(1)[OF s] l]
  note top = leaf_top[OF s l lf]
  have pg: "top_page ?te mc = ce_deref (te_ce ?te) a" using top(1) by (simp add: top_page_def)
  let ?f = "\<lambda>i. mdb_leaf_entry_contribution (top_page ?te mc) (NODEPTR (top_page ?te mc) i)"
  have i: "?i < length es" using r by simp
  have "length es < 2 ^ 64" using sub_entries_le[OF stack_atD(1)[OF s]] l R(4) by simp
  then have "\<exists>j. 0 \<le> j \<and> j < length es \<and> rank_pick ?f 0 (length es) (word_of_nat (?i - (\<Sum>k<(0::nat). 1::nat))) = (j, word_of_nat (?i - (\<Sum>k<j. 1::nat))) \<and>
      (\<Sum>k<j. 1::nat) \<le> ?i \<and> ?i < (\<Sum>k<Suc j. 1::nat)"
    by (intro rank_pick_spec) (use leaf_contribution[OF lf] i in \<open>auto simp: pg\<close>)
  then have pick: "rank_pick ?f 0 (length es) (word_of_nat ?i) = (?i, 0)" by (auto simp: le_less_Suc_eq less_Suc_eq_le)
  define mc' where "mc' = set_rank (word_of_nat r) 0 (set_ki ?i mc)"
  have "rank_leaf ?te (word_of_nat r) (word_of_nat ?i) mc = Some (mc', Ok 0)"
    using top(2-4) pick i by (simp add: rank_leaf_def Let_def mc'_def)
  moreover have "stack_at mc' t q" "same_db mc mc'" "top_ki mc' = ?i"
    using stack_at_set_ki[OF s, of ?i] by (simp_all add: mc'_def set_rank_def)
  moreover have "bases_ok mc' t q" using b by (simp add: bases_ok_def mc'_def set_rank_def set_ki_def)
  ultimately show ?thesis using l i r fl by (auto simp: rank_at_def mc'_def set_rank_def)
qed

lemma descend_rank_spec:
  assumes rt: "rank_tree db h t mc" and s: "stack_at mc t p" and b: "bases_ok mc t p"
    and r: "offset t p \<le> r" "r < offset t p + length (entries (sub t p))" and fl: "mc_init mc" "\<not> mc_eof mc"
  shows "\<exists>mc'. mdb_cursor_rank_descend (db_tree db) (word_of_nat r) mc = Some (mc', Ok 0) \<and> rank_at mc' t r \<and> same_db mc mc'"
proof -
  note R = rank_treeD[OF rt] and sd = stack_atD[OF s]
  obtain mc1 q a es where loop: "rank_descend_loop (db_tree db) (word_of_nat r) (word_of_nat (r - offset t p)) mc = Some (mc1, Ok (word_of_nat (r - offset t q)))"
    and q: "stack_at mc1 t q" "sub t q = TLeaf a es" "bases_ok mc1 t q" and k: "same_db mc mc1" "mc_init mc1" "\<not> mc_eof mc1"
    and r1: "offset t q \<le> r" "r < offset t q + length es"
    using rank_loop_spec[OF rt s b r] fl by auto
  obtain mc2 where leaf: "rank_leaf (db_tree db) (word_of_nat r) (word_of_nat (r - offset t q)) mc1 = Some (mc2, Ok 0)" "rank_at mc2 t r" "same_db mc1 mc2"
    using rank_leaf_spec[OF rank_tree_same[OF rt k(1)] q r1 k(2,3)] by blast
  have small: "r < 2 ^ 64" "offset t p < 2 ^ 64" using r sub_entries_le[OF sd(1)] R(4) by linarith+
  have base: "mc_rank_base mc (mc_top mc) = word_of_nat (offset t p)" using b sd(3) by (simp add: bases_ok_def)
  then have "\<not> mc_rank_base mc (mc_top mc) > word_of_nat r" using small r(1) by (simp add: word_less_nat_alt unat_of_nat)
  moreover have "word_of_nat r - mc_rank_base mc (mc_top mc) = (word_of_nat (r - offset t p) :: u64)" using base r(1) by simp
  moreover have "top_addr mc \<noteq> 0" using mapped_sub[OF R(5) sd(1)] sd(4) by simp
  ultimately have "mdb_cursor_rank_descend (db_tree db) (word_of_nat r) mc = Some (mc2, Ok 0)"
    using sd(2) leaf(1) by (simp add: mdb_cursor_rank_descend_def cbind_Some[where m = "rank_descend_loop (db_tree db) (word_of_nat r) (word_of_nat (r - offset t p))", OF loop])
  then show ?thesis using leaf(2,3) same_db_trans[OF k(1)] by blast
qed

section \<open>From the root and from the last rank\<close>

lemma root_only_spec:
  assumes o: "on_tree db h t mc" and s: "settled mc t"
  shows "\<exists>mc'. mdb_page_search db PS_ROOTONLY mc = Some (mc', Ok ()) \<and> stack_at mc' t [] \<and> same_db mc mc'"
proof -
  let ?te = "db_tree db"
  note d = on_treeD[OF o]
  note td = tree_atD[OF d(1)]
  have txn: "txn_ok (mc_txn mc)" using td(2,3) by (simp add: txn_ok_def)
  have root: "mc_pg mc 0 = 0 \<or> mc_pg mc 0 = tree_addr t" using s by (auto simp: settled_def at_leaf_def stack_at_def split: if_splits)
  define mc1 where "mc1 = mc\<lparr>mc_pg := (mc_pg mc)(0 := tree_addr t)\<rparr>"
  define m where "m = (if mc_pg mc 0 = 0 \<or> mp_pgno (ce_deref (te_ce ?te) (mc_pg mc 0)) \<noteq> mc_root mc
       then cbind (cursor_page_get ?te (mc_root mc)) (\<lambda>a. cupd (\<lambda>mc. mc\<lparr>mc_pg := (mc_pg mc)(0 := a)\<rparr>)) else cret ())"
  have "gets ?te (mc_txn mc) (mc_root mc) (tree_addr t)" using d(1) by (simp add: tree_at_def)
  then have m: "m mc = Some (mc1, Ok ())"
    using root by (auto simp: m_def mc1_def cbind_page_get fun_upd_idem)
  have "mdb_page_search db PS_ROOTONLY mc = page_search_tree ?te PS_ROOTONLY mc"
    using d(2) by (simp add: mdb_page_search_def cthen_Some[where m = txn_usable, OF txn_usable_ok[OF txn]]
        cthen_Some[where m = "refresh_record db", where mc' = mc] refresh_record_def)
  also have "\<dots> = Some (mc1\<lparr>mc_snum := 1, mc_top := 0\<rparr>, Ok ())"
    using td by (simp add: page_search_tree_def Let_def m_def[symmetric] cthen_Some[where m = m, OF m])
  finally have "mdb_page_search db PS_ROOTONLY mc = Some (mc1\<lparr>mc_snum := 1, mc_top := 0\<rparr>, Ok ())" .
  moreover have "stack_at (mc1\<lparr>mc_snum := 1, mc_top := 0\<rparr>) t []" by (simp add: stack_at_def mc1_def)
  moreover have "same_db mc (mc1\<lparr>mc_snum := 1, mc_top := 0\<rparr>)" by (simp add: same_db_def mc1_def)
  ultimately show ?thesis by blast
qed

lemma search_rank_spec:
  assumes rt: "rank_tree db h t mc" and s: "settled mc t" and r: "r < length (entries t)"
  shows "\<exists>mc'. mdb_cursor_rank_search db (word_of_nat r) mc = Some (mc', Ok 0) \<and> rank_at mc' t r \<and> same_db mc mc'"
proof -
  note R = rank_treeD[OF rt]
  define m where "m = (if mc_pg mc 0 = 0 \<or> \<not> IS_SUBP (ce_deref (te_ce (db_tree db)) (mc_pg mc 0)) then mdb_page_search db PS_ROOTONLY
     else cupd (\<lambda>mc. mc\<lparr>mc_top := 0, mc_snum := 1\<rparr>))"
  have "\<exists>mc1. m mc = Some (mc1, Ok ()) \<and> stack_at mc1 t [] \<and> same_db mc mc1"
  proof (cases "mc_pg mc 0 = 0 \<or> \<not> IS_SUBP (ce_deref (te_ce (db_tree db)) (mc_pg mc 0))")
    case True
    then show ?thesis using root_only_spec[OF R(1) s] by (simp add: m_def)
  next
    case False
    then have "mc_pg mc 0 = tree_addr t" using s by (auto simp: settled_def at_leaf_def stack_at_def split: if_splits)
    then show ?thesis using False by (auto simp: m_def cupd_def stack_at_def same_db_def)
  qed
  then obtain mc1 where m: "m mc = Some (mc1, Ok ())" "stack_at mc1 t []" "same_db mc mc1" by blast
  define mc2 where "mc2 = mc1\<lparr>mc_rank_base := (mc_rank_base mc1)(0 := 0), mc_init := True, mc_eof := False, mc_del := False\<rparr>"
  have s2: "stack_at mc2 t []" "same_db mc mc2" "bases_ok mc2 t []" "mc_init mc2" "\<not> mc_eof mc2"
    using m(2,3) R(1) by (simp_all add: mc2_def stack_at_def bases_ok_def same_db_def on_tree_def)
  have "\<not> mc_entries mc \<le> word_of_nat r" using R(3,4) r by (simp add: word_le_nat_alt unat_of_nat)
  then have "mdb_cursor_rank_search db (word_of_nat r) mc = mdb_cursor_rank_descend (db_tree db) (word_of_nat r) mc2"
    unfolding mdb_cursor_rank_search_def Let_def m_def[symmetric] by (simp add: cthen_Some[where m = m, OF m(1)] mc2_def)
  then show ?thesis
    using descend_rank_spec[OF rank_tree_same[OF rt s2(2)] s2(1,3) _ _ s2(4,5), of r] r same_db_trans[OF s2(2)] by auto
qed

lemma resume_level_spec:
  assumes rt: "rank_tree db h t mc" and s: "stack_at mc t p" and b: "bases_ok mc t p" and r: "r < length (entries t)"
  shows "0 < n \<Longrightarrow> n \<le> Suc (length p) \<Longrightarrow> \<exists>level<n. resume_level (db_tree db) (word_of_nat r) mc n = Ok (Some level) \<and>
    offset t (take level p) \<le> r \<and> r < offset t (take level p) + length (entries (sub t (take level p)))"
proof (induction n)
  case (Suc n)
  note R = rank_treeD[OF rt] and v = valid_take[OF stack_atD(1)[OF s], of n]
  note d = on_treeD[OF R(1)]
  let ?u = "sub t (take n p)" and ?o = "offset t (take n p)"
  have pg: "mc_pg mc n = tree_addr ?u" "mc_rank_base mc n = word_of_nat ?o" using Suc.prems s b by (auto simp: stack_at_def bases_ok_def)
  have cnt: "mdb_page_subtree_count (ce_deref (te_ce (db_tree db)) (mc_pg mc n)) = word_of_nat (length (entries ?u))"
    using subtree_sum[of "db_tree db" "mc_txn mc" ?u] sub_props[OF v d(6-8)] counted_sub[OF R(2) v] pg(1) by simp
  have small: "r < 2 ^ 64" "?o < 2 ^ 64" "length (entries ?u) < 2 ^ 64" using r R(4) sub_entries_le[OF v] by linarith+
  have base: "word_of_nat r < mc_rank_base mc n \<longleftrightarrow> r < ?o" using small by (simp add: pg(2) word_less_nat_alt unat_of_nat)
  have win: "word_of_nat r - mc_rank_base mc n < (word_of_nat (length (entries ?u)) :: u64) \<longleftrightarrow> r < ?o + length (entries ?u)" if "?o \<le> r"
  proof -
    define w where "w = r - ?o"
    have "r = w + ?o" "w < 2 ^ 64" using that small by (simp_all add: w_def)
    then have "word_of_nat r - mc_rank_base mc n = (word_of_nat w :: u64)" using pg(2) by simp
    moreover have "(word_of_nat w :: u64) < word_of_nat (length (entries ?u)) \<longleftrightarrow> w < length (entries ?u)"
      using \<open>w < 2 ^ 64\<close> small(3) by (simp add: word_less_nat_alt unat_of_nat)
    ultimately show ?thesis using \<open>r = w + ?o\<close> by auto
  qed
  have "mc_pg mc n \<noteq> 0" using mapped_sub[OF R(5) v] pg(1) by simp
  then have run: "resume_level (db_tree db) (word_of_nat r) mc (Suc n) =
      (if ?o \<le> r \<and> r < ?o + length (entries ?u) then Ok (Some n) else resume_level (db_tree db) (word_of_nat r) mc n)"
    using base win cnt by (auto simp: Let_def not_le not_less)
  show ?case
  proof (cases "?o \<le> r \<and> r < ?o + length (entries ?u)")
    case True
    then show ?thesis unfolding run by auto
  next
    case False
    then have "0 < n" using r by (cases n) auto
    then show ?thesis using False Suc.IH Suc.prems(2) unfolding run by (auto intro: less_SucI)
  qed
qed simp

lemma pop_base:
  assumes "while_option (\<lambda>mc. mc_top mc > n) mdb_cursor_pop mc = Some mc'"
  shows "mc_rank_base mc' = mc_rank_base mc"
  by (rule while_option_rule[where P = "\<lambda>x. mc_rank_base x = mc_rank_base mc", OF _ assms])
    (simp_all add: mdb_cursor_pop_def Let_def)

lemma resume_spec:
  assumes rt: "rank_tree db h t mc" and a: "rank_at mc t r0" and r: "r < length (entries t)"
  shows "\<exists>mc'. mdb_cursor_rank_resume (db_tree db) (word_of_nat r) mc = Some (mc', Ok 0) \<and> rank_at mc' t r \<and> same_db mc mc'"
proof -
  note R = rank_treeD[OF rt]
  obtain p b es where p: "stack_at mc t p" "sub t p = TLeaf b es" "top_ki mc < length es" "r0 = offset t p + top_ki mc" "bases_ok mc t p"
    and fl: "mc_init mc" "\<not> mc_eof mc" "mc_rank_cached (mc_reader mc) = word_of_nat r0" "mc_rank_offset (mc_reader mc) = 0"
    using a unfolding rank_at_def by blast
  note sd = stack_atD[OF p(1)]
  have "r0 < 2 ^ 64" "r < 2 ^ 64" using r R(4) nth_entries(2)[OF sd(1) p(2,3)] p(4) by linarith+
  then have eq: "(word_of_nat r :: u64) = word_of_nat r0 \<longleftrightarrow> r = r0" "\<not> mc_entries mc \<le> word_of_nat r"
    using r R(3,4) by (auto simp: word_of_nat_eq_iff take_bit_nat_eq_self word_le_nat_alt unat_of_nat)
  show ?thesis
  proof (cases "r = r0")
    case True
    then have "mdb_cursor_rank_resume (db_tree db) (word_of_nat r) mc = Some (mc, Ok 0)"
      using fl eq(2) sd(2) by (simp add: mdb_cursor_rank_resume_def)
    then show ?thesis using a True same_db_refl by blast
  next
    case False
    obtain level where lv: "level \<le> length p" "resume_level (db_tree db) (word_of_nat r) mc (Suc (mc_top mc)) = Ok (Some level)"
      "offset t (take level p) \<le> r" "r < offset t (take level p) + length (entries (sub t (take level p)))"
      using resume_level_spec[OF rt p(1,5) r, of "Suc (length p)"] sd(3) by (auto simp: less_Suc_eq_le)
    obtain mc1 where mc1: "while_option (\<lambda>mc. mc_top mc > level) mdb_cursor_pop mc = Some mc1" "stack_at mc1 t (take level p)" "keeps mc mc1"
      using pop_while[OF p(1) lv(1)] by blast
    have same: "same_db mc mc1" using keeps_same[OF mc1(3)] .
    have up: "mc1\<lparr>mc_init := True, mc_eof := False, mc_del := False\<rparr> = mc1"
      using mc1(3) fl R(1) by (simp add: keeps_def on_tree_def)
    have "bases_ok mc1 t (take level p)" using p(5) pop_base[OF mc1(1)] by (simp add: bases_ok_def)
    moreover have "mc_init mc1" "\<not> mc_eof mc1" using mc1(3) fl by (simp_all add: keeps_def)
    ultimately obtain mc2 where mc2: "mdb_cursor_rank_descend (db_tree db) (word_of_nat r) mc1 = Some (mc2, Ok 0)" "rank_at mc2 t r" "same_db mc1 mc2"
      using descend_rank_spec[OF rank_tree_same[OF rt same] mc1(2) _ lv(3,4)] by blast
    have "mdb_cursor_rank_resume (db_tree db) (word_of_nat r) mc = Some (mc2, Ok 0)"
      using fl eq False sd(2) lv(2) mc1(1) mc2(1) up by (simp add: mdb_cursor_rank_resume_def)
    then show ?thesis using mc2(2) same_db_trans[OF same mc2(3)] by blast
  qed
qed

section \<open>Reading at a rank\<close>

lemma read_key_rank:
  assumes "leaf_stored te txn (top_addr mc) es" "\<not> ce_prefix (te_ce te)" "i < length es"
  shows "\<exists>rd. cursor_read_key te i mc = Some (mc\<lparr>mc_reader := rd\<rparr>, Ok (fst (es ! i))) \<and> rd_rankvalid rd = rd_rankvalid (mc_reader mc) \<and>
    mc_rank_cached rd = mc_rank_cached (mc_reader mc) \<and> mc_rank_offset rd = mc_rank_offset (mc_reader mc)"
  using leaf_storedD[OF assms(1)] assms(2,3) by (auto simp: cursor_read_key_def mdb_cursor_read_key_at_def Let_def seq_forget_def)

lemma get_current_rank:
  assumes o: "on_tree db h t mc" and e: "at_entry mc t r" and init: "mc_init mc"
  shows "\<exists>rd. mdb_cursor_get db (Some k) (Some []) MDB_GET_CURRENT mc = Some (mc\<lparr>mc_reader := rd\<rparr>, Ok (entry_at (entries t) r)) \<and>
    rd_rankvalid rd = rd_rankvalid (mc_reader mc) \<and> mc_rank_cached rd = mc_rank_cached (mc_reader mc) \<and> mc_rank_offset rd = mc_rank_offset (mc_reader mc)"
proof -
  note d = on_treeD[OF o]
  obtain p b es where p: "stack_at mc t p" "sub t p = TLeaf b es" "top_ki mc < length es" "r = offset t p + top_ki mc"
    using e by (auto simp: at_entry_def)
  note v = stack_atD(1)[OF p(1)]
  note lf = leaf_of[OF o v p(2)] and nth = nth_entries(1)[OF v p(2,3)]
  note top = leaf_top[OF p(1,2) lf(1)]
  obtain rd where rd: "cursor_read_key (db_tree db) (top_ki mc) mc = Some (mc\<lparr>mc_reader := rd\<rparr>, Ok (fst (es ! top_ki mc)))"
    "rd_rankvalid rd = rd_rankvalid (mc_reader mc)" "mc_rank_cached rd = mc_rank_cached (mc_reader mc)" "mc_rank_offset rd = mc_rank_offset (mc_reader mc)"
    using read_key_rank[of "db_tree db" _ mc es "top_ki mc"] lf(1) top(1) d(4) p(3) by blast
  define mc1 where "mc1 = mc\<lparr>mc_reader := rd\<rparr>"
  have s1: "stack_at mc1 t p" "top_ki mc1 = top_ki mc" "on_tree db h t mc1" using p(1) o by (simp_all add: mc1_def)
  have "read_data (db_tree db) True mc1 = Some (mc1, Ok (Some (snd (es ! top_ki mc))))"
    using read_data_leaf[OF s1(1) p(2) leaf_of(1)[OF s1(3) v p(2)], of True] p(3) s1(2) by simp
  then have "clear_del (cbind (read_data (db_tree db) True) (\<lambda>d. cret (Some (fst (es ! top_ki mc)), d))) mc1 = Some (mc1, Ok (entry_at (entries t) r))"
    using nth p(4) same_del[OF s1(3)] by (simp add: clear_del_def cbind_def cret_def entry_at_def)
  then have "get_current (db_tree db) True True mc = Some (mc1, Ok (entry_at (entries t) r))"
    using top init p(3) rd(1) by (auto simp: get_current_def Let_def get_key_def cbind_def cret_def mc1_def)
  moreover have "txn_ok (mc_txn mc)" using d(1) tree_atD(2,3) by (auto simp: txn_ok_def)
  ultimately have "mdb_cursor_get db (Some k) (Some []) MDB_GET_CURRENT mc = Some (mc1, Ok (entry_at (entries t) r))"
    by (simp add: mdb_cursor_get_def Let_def cthen_Some[where m = txn_usable, OF txn_usable_ok])
  then show ?thesis using rd(2-4) unfolding mc1_def by blast
qed

lemma rank_at_reader:
  "mc_rank_cached rd = mc_rank_cached (mc_reader mc) \<Longrightarrow> mc_rank_offset rd = mc_rank_offset (mc_reader mc) \<Longrightarrow>
    rank_at (mc\<lparr>mc_reader := rd\<rparr>) t r = rank_at mc t r"
  by (simp add: rank_at_def bases_ok_def)

lemma finish_spec:
  assumes o: "on_tree db h t mc" and a: "rank_at mc t r"
  shows "\<exists>mc'. rank_finish db True True 0 mc = Some (mc', Ok (entry_at (entries t) r)) \<and> rank_at mc' t r \<and> same_db mc mc'"
proof -
  have e: "at_entry mc t r" and init: "mc_init mc" using rank_at_pos[OF a] by (simp_all add: at_pos_def)
  obtain p b es where p: "stack_at mc t p" "sub t p = TLeaf b es" "top_ki mc < length es" using e by (auto simp: at_entry_def)
  note lf = leaf_of(1)[OF o stack_atD(1)[OF p(1)] p(2)]
  have nodup: "\<not> F_ISSET (leaf_flags (db_tree db) mc) F_DUPDATA"
    using read_data_leaf[OF p(1,2) lf p(3), of True] by (auto simp: read_data_def split: if_splits)
  obtain rd where rd: "mdb_cursor_get db (Some (0, [])) (Some []) MDB_GET_CURRENT mc = Some (mc\<lparr>mc_reader := rd\<rparr>, Ok (entry_at (entries t) r))"
    "mc_rank_cached rd = mc_rank_cached (mc_reader mc)" "mc_rank_offset rd = mc_rank_offset (mc_reader mc)"
    using get_current_rank[OF o e init] by blast
  have "rank_finish db True True 0 mc = Some (mc\<lparr>mc_reader := rd\<lparr>rd_rankvalid := True\<rparr>\<rparr>, Ok (entry_at (entries t) r))"
    using leaf_top(3)[OF p(1,2) lf] nodup rd(1) by (simp add: rank_finish_def Let_def)
  moreover have "rank_at (mc\<lparr>mc_reader := rd\<lparr>rd_rankvalid := True\<rparr>\<rparr>) t r" using a rd(2,3) by (simp add: rank_at_reader)
  ultimately show ?thesis by auto
qed

text \<open>The cached rank of a cursor can be trusted.\<close>

definition rank_inv :: "cursor \<Rightarrow> tree \<Rightarrow> bool" where
  "rank_inv mc t \<longleftrightarrow> (rd_rankvalid (mc_reader mc) \<longrightarrow> (\<exists>r. rank_at mc t r))"

lemma get_rank_spec:
  assumes rt: "rank_tree db h t mc" and s: "settled mc t" and inv: "rank_inv mc t" and cnt: "counted_db db" and r: "r < 2 ^ 64"
  shows "if r < length (entries t)
    then \<exists>mc'. mdb_cursor_get_rank db True True 0 (word_of_nat r) mc = Some (mc', Ok (entry_at (entries t) r)) \<and> rank_at mc' t r \<and> same_db mc mc'
    else mdb_cursor_get_rank db True True 0 (word_of_nat r) mc = Some (mc, Err MDB_NOTFOUND)"
proof -
  note R = rank_treeD[OF rt]
  note d = on_treeD[OF R(1)]
  have blocked: "\<not> mt_blocked (mc_txn mc)" using d(1) tree_atD(2) by blast
  have ne: "mc_entries mc \<noteq> 0" using entries_ne[OF R(1)] R(3,4) by (simp add: word_of_nat_eq_0_iff nat_dvd_not_less)
  have le: "mc_entries mc \<le> word_of_nat r \<longleftrightarrow> length (entries t) \<le> r" using R(3,4) r by (simp add: word_le_nat_alt unat_of_nat)
  show ?thesis
  proof (cases "r < length (entries t)")
    case False
    then show ?thesis using cnt blocked ne le by (simp add: mdb_cursor_get_rank_def Let_def)
  next
    case True
    define search where "search = cbind (mdb_cursor_rank_search db (word_of_nat r)) (rank_finish db True True)"
    have run: "mdb_cursor_get_rank db True True 0 (word_of_nat r) mc =
        (if rd_rankvalid (mc_reader mc) \<and> mc_init mc \<and> mc_snum mc \<noteq> 0 \<and> word_of_nat r \<ge> mc_rank_cached (mc_reader mc) then
           case mdb_cursor_rank_resume (db_tree db) (word_of_nat r) mc of
             None \<Rightarrow> None
           | Some (mc, Ok dup_index) \<Rightarrow> rank_finish db True True dup_index mc
           | Some (mc, Err e) \<Rightarrow> if e = MDB_NOTFOUND then search mc else Some (mc, Err e)
           | Some (mc, Abort) \<Rightarrow> Some (mc, Abort)
         else search mc)"
      unfolding mdb_cursor_get_rank_def Let_def search_def[symmetric] using True cnt blocked ne le by simp
    have fin: "\<exists>mc'. rank_finish db True True 0 mc1 = Some (mc', Ok (entry_at (entries t) r)) \<and> rank_at mc' t r \<and> same_db mc mc'"
      if "rank_at mc1 t r" "same_db mc mc1" for mc1
      using finish_spec[OF on_tree_same[OF R(1) that(2)] that(1)] same_db_trans[OF that(2)] by blast
    show ?thesis
    proof (cases "rd_rankvalid (mc_reader mc) \<and> mc_init mc \<and> mc_snum mc \<noteq> 0 \<and> word_of_nat r \<ge> mc_rank_cached (mc_reader mc)")
      case resume: True
      then obtain r0 where "rank_at mc t r0" using inv by (auto simp: rank_inv_def)
      then obtain mc1 where "mdb_cursor_rank_resume (db_tree db) (word_of_nat r) mc = Some (mc1, Ok 0)" "rank_at mc1 t r" "same_db mc mc1"
        using resume_spec[OF rt _ True] by blast
      then show ?thesis using resume True fin[of mc1] unfolding run by simp
    next
      case False
      obtain mc1 where m: "mdb_cursor_rank_search db (word_of_nat r) mc = Some (mc1, Ok 0)" "rank_at mc1 t r" "same_db mc mc1"
        using search_rank_spec[OF rt s True] by blast
      have "search mc = rank_finish db True True 0 mc1"
        unfolding search_def by (rule cbind_Some[where m = "mdb_cursor_rank_search db (word_of_nat r)", OF m(1)])
      then show ?thesis using True fin[OF m(2,3)] unfolding run if_not_P[OF False] by simp
    qed
  qed
qed

end
