(* ===== verification/Rank_Kept.thy ===== *)
theory Rank_Kept
  imports Rank_Correct
begin

text \<open>
  The operations of \<open>mdb_cursor_get\<close> other than \<open>GET_CURRENT\<close> start by forgetting the cached rank, and none of
  their steps makes it valid again or touches the count of the database.
\<close>

section \<open>Invariants of operations\<close>

definition kept :: "(cursor \<Rightarrow> bool) \<Rightarrow> 'a op \<Rightarrow> bool" where
  "kept P m \<longleftrightarrow> (\<forall>mc mc' r. P mc \<longrightarrow> m mc = Some (mc', r) \<longrightarrow> P mc')"

named_theorems kept_intros "operations that keep an invariant"

lemma keptI: "(\<And>mc mc' r. P mc \<Longrightarrow> m mc = Some (mc', r) \<Longrightarrow> P mc') \<Longrightarrow> kept P m"
  by (auto simp: kept_def)

lemma keptD: "kept P m \<Longrightarrow> m mc = Some (mc', r) \<Longrightarrow> P mc \<Longrightarrow> P mc'"
  by (auto simp: kept_def)

lemma kept_basic [kept_intros]:
  "kept P (cret x)" "kept P (cfail e)" "kept P cabort" "kept P (cget f)"
  by (auto simp: kept_def cret_def cfail_def cabort_def cget_def)

lemma kept_cbind [kept_intros]:
  assumes m: "kept P m" and f: "\<And>x. kept P (f x)"
  shows "kept P (cbind m f)"
proof (rule keptI)
  fix mc mc' r assume p: "P mc" "cbind m f mc = Some (mc', r)"
  then obtain mc1 r1 where m1: "m mc = Some (mc1, r1)" by (auto simp: cbind_def split: option.splits)
  note p1 = keptD[OF m m1 p(1)]
  show "P mc'" using p(2) m1 p1 keptD[OF f _ p1] by (cases r1) (auto simp: cbind_def)
qed

lemma kept_cthen [kept_intros]: "kept P m \<Longrightarrow> kept P n \<Longrightarrow> kept P (cthen m n)"
  unfolding cthen_def by (intro kept_cbind)

lemma kept_cupd [kept_intros]: "(\<And>mc. P mc \<Longrightarrow> P (f mc)) \<Longrightarrow> kept P (cupd f)"
  by (auto simp: kept_def cupd_def)

lemma kept_cguard [kept_intros]: "kept P m \<Longrightarrow> kept P (cguard b m)"
  by (auto simp: cguard_def kept_basic)

lemma kept_if [kept_intros]: "kept P m \<Longrightarrow> kept P n \<Longrightarrow> kept P (if b then m else n)"
  by simp

text \<open>An operation that looks at the cursor first.\<close>

lemma kept_look: "(\<And>x. kept P (m x)) \<Longrightarrow> kept P (\<lambda>mc. m (g mc) mc)"
  by (auto simp: kept_def)

lemma kept_if_look:
  assumes m: "kept P m" and n: "kept P n"
  shows "kept P (\<lambda>mc. if b mc then m mc else n mc)"
proof (rule keptI)
  fix mc mc' r assume p: "P mc" "(if b mc then m mc else n mc) = Some (mc', r)"
  show "P mc'" using p(2) keptD[OF m _ p(1)] keptD[OF n _ p(1)] by (cases "b mc") simp_all
qed

lemma kept_after:
  assumes m: "kept P m" and f: "\<And>mc. P mc \<Longrightarrow> P (f mc)"
  shows "kept P (\<lambda>mc. m (f mc))"
proof (rule keptI)
  fix mc mc' r assume p: "P mc" "m (f mc) = Some (mc', r)"
  show "P mc'" by (rule keptD[OF m p(2) f[OF p(1)]])
qed

section \<open>The cached rank stays forgotten\<close>

definition quiet :: "u64 \<Rightarrow> cursor \<Rightarrow> bool" where
  "quiet n mc \<longleftrightarrow> \<not> rd_rankvalid (mc_reader mc) \<and> mc_entries mc = n \<and> \<not> mc_stale mc"

lemma quiet_simps [simp]:
  "quiet n (mc\<lparr>mc_init := b\<rparr>) = quiet n mc" "quiet n (mc\<lparr>mc_eof := b\<rparr>) = quiet n mc" "quiet n (mc\<lparr>mc_del := b\<rparr>) = quiet n mc"
  "quiet n (mc\<lparr>mc_txn := x\<rparr>) = quiet n mc" "quiet n (mc\<lparr>mc_pg := f\<rparr>) = quiet n mc" "quiet n (mc\<lparr>mc_ki := k\<rparr>) = quiet n mc"
  "quiet n (mc\<lparr>mc_snum := s\<rparr>) = quiet n mc" "quiet n (mc\<lparr>mc_top := s\<rparr>) = quiet n mc" "quiet n (set_ki i mc) = quiet n mc"
  "quiet n (mark_error e mc) = quiet n mc" "quiet n (mdb_cursor_pop mc) = quiet n mc"
  by (simp_all add: quiet_def set_ki_def mark_error_def mdb_cursor_pop_def Let_def)

lemma quiet_reader: "quiet n mc \<Longrightarrow> rd_rankvalid rd = rd_rankvalid (mc_reader mc) \<Longrightarrow> quiet n (mc\<lparr>mc_reader := rd\<rparr>)"
  by (simp add: quiet_def)

text \<open>Reading keys, without prefix compression.\<close>

lemma read_key_at_rankvalid:
  "mdb_cursor_read_key_at ce rd a i = Some (rd', r) \<Longrightarrow> \<not> ce_prefix ce \<Longrightarrow> rd_rankvalid rd' = rd_rankvalid rd"
  by (auto simp: mdb_cursor_read_key_at_def Let_def seq_forget_def split: if_splits)

lemma next_read_rankvalid:
  assumes "next_read_key ce rd a i = Some (rd', r)" "\<not> ce_prefix ce" "\<not> rd_rankvalid rd"
  shows "\<not> rd_rankvalid rd'"
proof -
  define rd0 where "rd0 = (if i > 0 then rd\<lparr>rd_seqexpect := True, mc_seq_pgno := word_of_nat (mp_pgno (ce_deref ce a)), mc_seq_idx := i - 1\<rparr>
    else mdb_cursor_seq_invalidate (rd\<lparr>rd_seqexpect := False\<rparr>))"
  have rd0: "\<not> rd_rankvalid rd0" using assms(3) by (simp add: rd0_def mdb_cursor_seq_invalidate_def mdb_cursor_rank_invalidate_def)
  obtain rd1 r1 where 1: "mdb_cursor_read_key_at ce rd0 a i = Some (rd1, r1)"
    using assms(1) unfolding next_read_key_def Let_def rd0_def[symmetric] by auto
  have "\<not> rd_rankvalid rd1" using read_key_at_rankvalid[OF 1 assms(2)] rd0 by simp
  then show ?thesis
    using assms(1) 1 unfolding next_read_key_def Let_def rd0_def[symmetric]
    by (cases r1) (auto simp: mdb_cursor_seq_invalidate_def mdb_cursor_rank_invalidate_def)
qed

lemma search_loop_kept:
  assumes f: "\<And>rd i rd' r. f rd i = Some (rd', r) \<Longrightarrow> rd_rankvalid rd' = rd_rankvalid rd"
  shows "search_loop f rd low high i c = Some (rd', r) \<Longrightarrow> rd_rankvalid rd' = rd_rankvalid rd"
proof (induction "nat (high - low + 1)" arbitrary: rd low high i c rule: less_induct)
  case less
  show ?case
  proof (cases "low \<le> high")
    case False
    then show ?thesis using less.prems by (subst (asm) search_loop.simps) simp
  next
    case True
    define m where "m = (low + high) div 2"
    have lt: "nat (high - (m + 1) + 1) < nat (high - low + 1)" "nat (m - 1 - low + 1) < nat (high - low + 1)" using True by (auto simp: m_def)
    obtain rd1 r1 where 1: "f rd (nat m) = Some (rd1, r1)"
      using less.prems True by (subst (asm) search_loop.simps) (auto simp: Let_def m_def split: option.splits)
    note eq = f[OF 1]
    show ?thesis
    proof (cases r1)
      case (Ok c)
      have "search_loop f rd low high i c' = (if c = 0 then Some (rd1, Ok (nat m, c))
          else if c > 0 then search_loop f rd1 (m + 1) high (nat m) c else search_loop f rd1 low (m - 1) (nat m) c)" for c'
        using True 1 Ok by (subst search_loop.simps) (simp add: Let_def m_def)
      then show ?thesis using less.prems eq less.hyps[OF lt(1), of rd1] less.hyps[OF lt(2), of rd1] by (auto split: if_splits)
    qed (use less.prems True 1 eq in \<open>subst (asm) search_loop.simps, auto simp: Let_def m_def\<close>)+
  qed
qed

lemma node_search_rankvalid:
  assumes "mdb_node_search ce cmp a key rd = Some (rd', r)" "\<not> ce_prefix ce"
  shows "rd_rankvalid rd' = rd_rankvalid rd"
proof -
  have "\<exists>f rd0 low high r'. search_loop f rd0 low high 0 0 = Some (rd', r') \<and> rd_rankvalid rd0 = rd_rankvalid rd \<and>
      (\<forall>rd i rd' r. f rd i = Some (rd', r) \<longrightarrow> rd_rankvalid rd' = rd_rankvalid rd)"
  proof -
    define mp where "mp = ce_deref ce a"
    define cmp' where "cmp' = (if is_cint cmp \<and> IS_BRANCH mp then if ksize_at mp 1 = 8 then Cmp_long else Cmp_int else cmp)"
    define trunk where "trunk = (if IS_LEAF mp \<and> \<not> IS_LEAF2 mp \<and> ce_prefix ce \<and> NUMKEYS mp > 0 then Some (key_at mp 0) else None)"
    define f where "f = (if IS_LEAF2 mp then leaf2_compare ce cmp' a key else node_compare ce cmp' a trunk key)"
    define rd0 where "rd0 = rd\<lparr>mc_seq_cmp_pgno := P_INVALID, mc_seq_cmp_keyptr := None, mc_seq_cmp_keysize := 0, mc_seq_cmp_prefix := 0\<rparr>"
    have "\<exists>r'. search_loop f rd0 (if IS_LEAF mp then 0 else 1) (int (NUMKEYS mp) - 1) 0 0 = Some (rd', r')"
      using assms(1) unfolding mdb_node_search_def Let_def mp_def[symmetric] cmp'_def[symmetric] trunk_def[symmetric] f_def[symmetric] rd0_def[symmetric]
      by auto
    moreover have "rd_rankvalid rd0 = rd_rankvalid rd" by (simp add: rd0_def)
    moreover have "rd_rankvalid rd2 = rd_rankvalid rd1" if "f rd1 i = Some (rd2, r)" for rd1 i rd2 r
      using that assms(2) by (auto simp: f_def leaf2_compare_def node_compare_def Let_def split: if_splits)
    ultimately show ?thesis by blast
  qed
  then show ?thesis using search_loop_kept by metis
qed

section \<open>The steps of the operations\<close>

lemma kept_txn_usable [kept_intros]: "kept (quiet n) txn_usable"
  by (auto simp: kept_def txn_usable_def split: prod.splits if_splits)

lemma kept_page_get [kept_intros]: "kept (quiet n) (cursor_page_get te pgno)"
  by (auto simp: kept_def cursor_page_get_def split: prod.splits)

lemma kept_push [kept_intros]: "kept (quiet n) (mdb_cursor_push a)"
  by (auto simp: kept_def mdb_cursor_push_def Let_def split: if_splits)

lemma kept_set_ki [kept_intros]: "kept (quiet n) (cupd (set_ki i))"
  by (rule kept_cupd) simp

lemma kept_read_key [kept_intros]:
  assumes "\<not> ce_prefix (te_ce te)"
  shows "kept (quiet n) (cursor_read_key te i)"
  by (auto simp: kept_def cursor_read_key_def intro: quiet_reader dest: read_key_at_rankvalid[OF _ assms])

lemma kept_node_search [kept_intros]:
  assumes "\<not> ce_prefix (te_ce te)"
  shows "kept (quiet n) (cursor_node_search te key)"
  by (auto simp: kept_def cursor_node_search_def intro: quiet_reader split: option.splits prod.splits res.splits
      dest!: node_search_rankvalid[OF _ assms])

lemma kept_node_read [kept_intros]: "kept (quiet n) (mdb_node_read te a leaf)"
  unfolding mdb_node_read_def Let_def by (intro kept_intros)

lemma kept_descend [kept_intros]: "kept (quiet n) (descend te i)"
proof -
  have "kept (quiet n) (cguard (i < NUMKEYS mp) (cbind (cursor_page_get te (NODEPGNO mp (NODEPTR mp i))) (\<lambda>child.
      cthen (cupd (set_ki i)) (mdb_cursor_push child))))" for mp
    by (intro kept_intros) simp
  then show ?thesis unfolding descend_def[abs_def] Let_def by (rule kept_look)
qed

lemma kept_step [kept_intros]:
  assumes np: "\<not> ce_prefix (te_ce te)"
  shows "kept (quiet n) (page_search_step te key)"
proof (rule keptI)
  fix mc mc' r assume p: "quiet n mc" "page_search_step te key mc = Some (mc', r)"
  have search: "kept (quiet n) (cbind (cursor_node_search te k) (\<lambda>(exact, found). cbind (cget top_ki) (\<lambda>i.
       if \<not> found then descend te m else if exact then descend te i else cguard (i > 0) (descend te (i - 1)))))" for k m
    by (intro kept_cbind kept_node_search np) (auto intro!: kept_intros)
  show "quiet n mc'"
    using p keptD[OF kept_descend, of te _ mc mc' r n] keptD[OF search, of _ _ mc mc' r]
    by (auto simp: page_search_step_def Let_def cguard_def cabort_def cupd_def split: if_splits search_for.splits)
qed

lemma kept_loop [kept_intros]:
  assumes np: "\<not> ce_prefix (te_ce te)"
  shows "kept (quiet n) (page_search_loop te key)"
proof (rule keptI)
  fix mc mc' r show "quiet n mc \<Longrightarrow> page_search_loop te key mc = Some (mc', r) \<Longrightarrow> quiet n mc'"
  proof (induction "CURSOR_STACK - mc_snum mc" arbitrary: mc rule: less_induct)
    case less
    show ?case
    proof (cases "IS_BRANCH (top_page te mc)")
      case False
      then show ?thesis using less.prems by (simp add: page_search_loop.simps)
    next
      case True
      then obtain mc1 r1 where 1: "page_search_step te key mc = Some (mc1, r1)"
        using less.prems(2) by (subst (asm) page_search_loop.simps) (auto split: option.splits)
      note q = keptD[OF kept_step[OF np] 1 less.prems(1)]
      show ?thesis
      proof (cases r1)
        case (Ok u)
        have "CURSOR_STACK - mc_snum mc1 < CURSOR_STACK - mc_snum mc" using step_snum[of te key mc mc1 u] 1 Ok by auto
        moreover have "page_search_loop te key mc = page_search_loop te key mc1" using True 1 Ok by (subst page_search_loop.simps) simp
        ultimately show ?thesis using less.hyps[OF _ q] less.prems(2) by simp
      qed (use less.prems(2) True 1 q in \<open>subst (asm) page_search_loop.simps, auto\<close>)+
    qed
  qed
qed

lemma kept_search_root [kept_intros]:
  assumes np: "\<not> ce_prefix (te_ce te)"
  shows "kept (quiet n) (mdb_page_search_root te key)"
proof -
  have "kept (quiet n) (\<lambda>mc. if \<not> IS_LEAF (top_page te mc) then Some (mark_error MDB_CORRUPTED mc, Err MDB_CORRUPTED)
      else Some (mc\<lparr>mc_init := True, mc_eof := False\<rparr>, Ok ()))"
    by (auto simp: kept_def split: if_splits)
  then show ?thesis unfolding mdb_page_search_root_def by (intro kept_intros np)
qed

lemma kept_search_tree [kept_intros]:
  assumes np: "\<not> ce_prefix (te_ce te)"
  shows "kept (quiet n) (page_search_tree te key)"
proof (rule keptI)
  fix mc mc' r assume q: "quiet n mc" and m: "page_search_tree te key mc = Some (mc', r)"
  have "kept (quiet n) (cguard (root > 1)
        (cthen (if b then cbind (cursor_page_get te root) (\<lambda>a. cupd (\<lambda>mc. mc\<lparr>mc_pg := (mc_pg mc)(0 := a)\<rparr>)) else cret ())
          (cthen (cupd (\<lambda>mc. mc\<lparr>mc_snum := 1, mc_top := 0\<rparr>))
            (if key = PS_ROOTONLY then cret () else mdb_page_search_root te key))))" for root b
    by (intro kept_intros np) simp_all
  from keptD[OF this _ q] show "quiet n mc'" using q m by (auto simp: page_search_tree_def Let_def split: if_splits)
qed

lemma kept_refresh [kept_intros]: "kept (quiet n) (refresh_record db)"
  by (auto simp: kept_def refresh_record_def quiet_def)

lemma kept_page_search [kept_intros]:
  assumes np: "\<not> ce_prefix (te_ce (db_tree db))"
  shows "kept (quiet n) (mdb_page_search db key)"
  unfolding mdb_page_search_def by (intro kept_intros np)

lemma kept_sibling_enter: "kept (quiet n) (sibling_enter te right)"
proof (rule keptI)
  fix mc mc' r assume q: "quiet n mc" and m: "sibling_enter te right mc = Some (mc', r)"
  show "quiet n mc'"
    using m keptD[OF kept_page_get _ q] keptD[OF kept_push]
    by (auto simp: sibling_enter_def Let_def cguard_def cabort_def split: if_splits option.splits prod.splits res.splits)
      (use q in \<open>auto\<close>)
qed

lemma kept_sibling [kept_intros]: "kept (quiet n) (mdb_cursor_sibling te right)"
proof (rule keptI)
  fix mc mc' r show "quiet n mc \<Longrightarrow> mdb_cursor_sibling te right mc = Some (mc', r) \<Longrightarrow> quiet n mc'"
  proof (induction "mc_snum mc" arbitrary: mc mc' r rule: less_induct)
    case less
    show ?case
    proof (cases "mc_snum mc < 2")
      case True
      then show ?thesis using less.prems by (simp add: mdb_cursor_sibling.simps)
    next
      case False
      define mc0 where "mc0 = mdb_cursor_pop mc"
      have lt: "mc_snum mc0 < mc_snum mc" using False by (simp add: mc0_def mdb_cursor_pop_def Let_def)
      have q0: "quiet n mc0" using less.prems(1) by (simp add: mc0_def)
      note IH = less.hyps[OF lt q0]
      have run: "mdb_cursor_sibling te right mc =
          (if (if right then top_ki mc0 + 1 \<ge> NUMKEYS (top_page te mc0) else top_ki mc0 = 0) then
             case mdb_cursor_sibling te right mc0 of
               Some (mc, Err e) \<Rightarrow> Some (mc\<lparr>mc_top := mc_top mc + 1, mc_snum := mc_snum mc + 1\<rparr>, Err e)
             | Some (mc, Ok _) \<Rightarrow> sibling_enter te right mc
             | r \<Rightarrow> r
           else sibling_enter te right (set_ki (if right then top_ki mc0 + 1 else top_ki mc0 - 1) mc0))"
        using False by (subst mdb_cursor_sibling.simps) (simp add: Let_def mc0_def)
      show ?thesis using less.prems(2) IH q0 keptD[OF kept_sibling_enter] unfolding run
        by (auto split: if_splits option.splits prod.splits res.splits)
    qed
  qed
qed

lemma kept_pops:
  assumes "while_option b mdb_cursor_pop mc = Some mc'" "quiet n mc"
  shows "quiet n mc'"
  by (rule while_option_rule[where P = "quiet n", OF _ assms]) simp

lemma kept_reuse [kept_intros]:
  assumes np: "\<not> ce_prefix (te_ce (db_tree db))"
  shows "kept (quiet n) (mdb_page_search_reuse db key direction)"
proof (rule keptI)
  fix mc mc' r assume q: "quiet n mc" and m: "mdb_page_search_reuse db key direction mc = Some (mc', r)"
  show "quiet n mc'"
    using m q keptD[OF kept_page_search[OF np] _ q] keptD[OF kept_search_root[OF np]] kept_pops[OF _ q]
    by (auto simp: mdb_page_search_reuse_def Let_def split: if_splits option.splits res.splits)
qed

section \<open>The operations\<close>

lemma kept_read_data [kept_intros]: "kept (quiet n) (read_data te wd)"
proof (rule keptI)
  fix mc mc' r assume q: "quiet n mc" and m: "read_data te wd mc = Some (mc', r)"
  have "kept (quiet n) (cbind (mdb_node_read te a l) (\<lambda>d. cret (Some d)))" for a l by (intro kept_intros)
  from keptD[OF this _ q] show "quiet n mc'" using m q by (auto simp: read_data_def split: if_splits)
qed

lemma kept_read_entry [kept_intros]:
  assumes np: "\<not> ce_prefix (te_ce te)"
  shows "kept (quiet n) (read_entry te wk wd)"
proof (rule keptI)
  fix mc mc' r assume q: "quiet n mc" and m: "read_entry te wk wd mc = Some (mc', r)"
  have "kept (quiet n) (cbind (read_data te wd) (\<lambda>d. cbind (cget top_ki) (\<lambda>i.
      if wk then cbind (cursor_read_key te i) (\<lambda>k. cret (Some k, d)) else cret (None, d))))" by (intro kept_intros np)
  from keptD[OF this _ q] show "quiet n mc'" using m q by (auto simp: read_entry_def split: if_splits)
qed

lemma kept_leaf:
  assumes m: "kept (quiet n) m"
  shows "kept (quiet n) (\<lambda>mc. cguard (IS_LEAF (top_page te mc)) m mc)"
  using m by (auto simp: kept_def cguard_def cabort_def)

lemma kept_first [kept_intros]:
  assumes np: "\<not> ce_prefix (te_ce (db_tree db))"
  shows "kept (quiet n) (mdb_cursor_first db wk wd)"
proof (rule keptI)
  fix mc mc' r assume q: "quiet n mc" and m: "mdb_cursor_first db wk wd mc = Some (mc', r)"
  have "kept (quiet n) (cthen (cupd (\<lambda>mc. set_ki 0 (mc\<lparr>mc_init := True, mc_eof := False\<rparr>))) (read_entry (db_tree db) wk wd))"
    by (intro kept_cthen kept_cupd kept_read_entry np) simp
  note body = kept_leaf[OF this]
  have "kept (quiet n) (cthen (if b then mdb_page_search db PS_FIRST else cret ())
        (\<lambda>mc. cguard (IS_LEAF (top_page (db_tree db) mc))
           (cthen (cupd (\<lambda>mc. set_ki 0 (mc\<lparr>mc_init := True, mc_eof := False\<rparr>))) (read_entry (db_tree db) wk wd)) mc))" for b
    by (intro kept_cthen kept_if kept_page_search kept_basic body np)
  from keptD[OF this m[unfolded mdb_cursor_first_def Let_def] q] show "quiet n mc'" .
qed

lemma kept_last [kept_intros]:
  assumes np: "\<not> ce_prefix (te_ce (db_tree db))"
  shows "kept (quiet n) (mdb_cursor_last db wk wd)"
proof (rule keptI)
  fix mc mc' r assume q: "quiet n mc" and m: "mdb_cursor_last db wk wd mc = Some (mc', r)"
  have "kept (quiet n) (cthen (cupd (\<lambda>mc. set_ki (u16_sub (NUMKEYS (top_page (db_tree db) mc)) 1) mc\<lparr>mc_init := True, mc_eof := True\<rparr>))
              (read_entry (db_tree db) wk wd))"
    by (intro kept_cthen kept_cupd kept_read_entry np) simp
  note body = kept_leaf[OF this]
  have "kept (quiet n) (cthen (if b then mdb_page_search db PS_LAST else cret ())
        (\<lambda>mc. cguard (IS_LEAF (top_page (db_tree db) mc))
           (cthen (cupd (\<lambda>mc. set_ki (u16_sub (NUMKEYS (top_page (db_tree db) mc)) 1) mc\<lparr>mc_init := True, mc_eof := True\<rparr>))
              (read_entry (db_tree db) wk wd)) mc))" for b
    by (intro kept_cthen kept_if kept_page_search kept_basic body np)
  from keptD[OF this m[unfolded mdb_cursor_last_def Let_def] q] show "quiet n mc'" .
qed

lemma kept_next_entry [kept_intros]:
  assumes np: "\<not> ce_prefix (te_ce te)"
  shows "kept (quiet n) (next_entry te wk wd)"
proof (rule keptI)
  fix mc mc' r assume q: "quiet n mc" and m: "next_entry te wk wd mc = Some (mc', r)"
  have "kept (quiet n) (\<lambda>mc. if wk then
             map_option (\<lambda>(rd, r). (mc\<lparr>mc_reader := rd\<rparr>, bind_res r (\<lambda>k. Ok (Some k, d))))
               (next_read_key (te_ce te) (mc_reader mc) (top_addr mc) (top_ki mc))
           else Some (mc\<lparr>mc_reader := mdb_cursor_seq_invalidate ((mc_reader mc)\<lparr>rd_seqexpect := False\<rparr>)\<rparr>, Ok (None, d)))" for d
    by (rule keptI)
      (auto simp: quiet_def mdb_cursor_seq_invalidate_def mdb_cursor_rank_invalidate_def split: if_splits dest: next_read_rankvalid[OF _ np])
  then have "kept (quiet n) (cguard b (cbind (read_data te wd) (\<lambda>d mc. if wk then
             map_option (\<lambda>(rd, r). (mc\<lparr>mc_reader := rd\<rparr>, bind_res r (\<lambda>k. Ok (Some k, d))))
               (next_read_key (te_ce te) (mc_reader mc) (top_addr mc) (top_ki mc))
           else Some (mc\<lparr>mc_reader := mdb_cursor_seq_invalidate ((mc_reader mc)\<lparr>rd_seqexpect := False\<rparr>)\<rparr>, Ok (None, d)))))" for b
    by (intro kept_cguard kept_cbind kept_read_data)
  from keptD[OF this _ q] show "quiet n mc'" using m q by (auto simp: next_entry_def split: if_splits)
qed

lemma kept_next [kept_intros]:
  assumes np: "\<not> ce_prefix (te_ce (db_tree db))"
  shows "kept (quiet n) (mdb_cursor_next db wk wd op)"
proof (rule keptI)
  fix mc mc' r assume q: "quiet n mc" and m: "mdb_cursor_next db wk wd op mc = Some (mc', r)"
  have ne: "quiet n mc'" if "next_entry (db_tree db) wk wd mc1 = Some (mc', r)" "quiet n mc1" for mc1
    using keptD[OF kept_next_entry[OF np] that] .
  show "quiet n mc'"
  proof (cases "mc_init mc \<and> \<not> (mc_eof mc \<and> top_ki mc \<ge> u32_pred (NUMKEYS (top_page (db_tree db) mc))) \<and> \<not> (mc_del mc \<and> op = MDB_NEXT_DUP)")
    case False
    then show ?thesis using m q keptD[OF kept_first[OF np] _ q] by (auto simp: mdb_cursor_next_def Let_def split: if_splits)
  next
    case True
    define mc0 where "mc0 = mc\<lparr>mc_eof := False\<rparr>"
    have q0: "quiet n mc0" using q by (simp add: mc0_def)
    have run: "mdb_cursor_next db wk wd op mc =
       (if mc_del mc0 then next_entry (db_tree db) wk wd (mc0\<lparr>mc_del := False\<rparr>)
        else if top_ki mc0 + 1 \<ge> NUMKEYS (top_page (db_tree db) mc0) then
          case mdb_cursor_sibling (db_tree db) True mc0 of
            Some (mc, Err e) \<Rightarrow> Some (mc\<lparr>mc_eof := True\<rparr>, Err e)
          | Some (mc, Ok _) \<Rightarrow> next_entry (db_tree db) wk wd mc
          | Some (mc, Abort) \<Rightarrow> Some (mc, Abort)
          | None \<Rightarrow> None
        else next_entry (db_tree db) wk wd (set_ki (top_ki mc0 + 1) mc0))"
    proof -
      have n1: "\<not> (mc_eof mc \<and> top_ki mc \<ge> u32_pred (NUMKEYS (top_page (db_tree db) mc)))" "\<not> (mc_del mc \<and> op = MDB_NEXT_DUP)" "\<not> \<not> mc_init mc"
        using True by blast+
      show ?thesis unfolding mdb_cursor_next_def Let_def mc0_def[symmetric] if_not_P[OF n1(1)] if_not_P[OF n1(2)] if_not_P[OF n1(3)] by (rule refl)
    qed
    show ?thesis using m ne q0 keptD[OF kept_sibling _ q0] unfolding run
      by (auto split: if_splits option.splits prod.splits res.splits)
  qed
qed

lemma kept_prev [kept_intros]:
  assumes np: "\<not> ce_prefix (te_ce (db_tree db))"
  shows "kept (quiet n) (mdb_cursor_prev db wk wd)"
proof (rule keptI)
  fix mc mc' r assume q: "quiet n mc" and m: "mdb_cursor_prev db wk wd mc = Some (mc', r)"
  have pe: "kept (quiet n) (prev_entry (db_tree db) wk wd)"
  proof (rule keptI)
    fix mc mc' r assume q: "quiet n mc" and m: "prev_entry (db_tree db) wk wd mc = Some (mc', r)"
    show "quiet n mc'" using m q keptD[OF kept_read_entry[OF np] _ q] by (auto simp: prev_entry_def split: if_splits)
  qed
  define body where "body = (\<lambda>mc. if top_ki mc = 0 then
      cthen (mdb_cursor_sibling (db_tree db) False)
        (cthen (cupd (\<lambda>mc. set_ki (u16_sub (NUMKEYS (top_page (db_tree db) mc)) 1) mc)) (prev_entry (db_tree db) wk wd)) mc
    else prev_entry (db_tree db) wk wd (set_ki (top_ki mc - 1) mc))"
  have "kept (quiet n) (cthen (mdb_cursor_sibling (db_tree db) False)
        (cthen (cupd (\<lambda>mc. set_ki (u16_sub (NUMKEYS (top_page (db_tree db) mc)) 1) mc)) (prev_entry (db_tree db) wk wd)))"
    by (intro kept_cthen kept_sibling kept_cupd pe) simp
  then have "kept (quiet n) body" unfolding body_def by (rule kept_if_look) (rule kept_after[OF pe], simp)
  then have start: "kept (quiet n) (\<lambda>mc. body (mc\<lparr>mc_eof := False, mc_del := False\<rparr>))" by (rule kept_after) simp
  have "kept (quiet n) (cupd (\<lambda>mc. set_ki (top_ki mc + 1) mc))" by (rule kept_cupd) simp
  then have "kept (quiet n) (cbind (mdb_cursor_last db wk wd) (\<lambda>_. cupd (\<lambda>mc. set_ki (top_ki mc + 1) mc)))"
    by (intro kept_cbind kept_last np)
  then have "kept (quiet n) (if b then cret () else cbind (mdb_cursor_last db wk wd) (\<lambda>_. cupd (\<lambda>mc. set_ki (top_ki mc + 1) mc)))" for b
    by (simp add: kept_basic)
  then have all: "kept (quiet n) (cthen (if b then cret () else cbind (mdb_cursor_last db wk wd) (\<lambda>_. cupd (\<lambda>mc. set_ki (top_ki mc + 1) mc)))
        (\<lambda>mc. body (mc\<lparr>mc_eof := False, mc_del := False\<rparr>)))" for b
    by (rule kept_cthen[OF _ start])
  have run: "mdb_cursor_prev db wk wd mc = cthen (if mc_init mc then cret () else cbind (mdb_cursor_last db wk wd) (\<lambda>_. cupd (\<lambda>mc. set_ki (top_ki mc + 1) mc)))
        (\<lambda>mc. body (mc\<lparr>mc_eof := False, mc_del := False\<rparr>)) mc"
    unfolding mdb_cursor_prev_def Let_def body_def by (rule refl)
  show "quiet n mc'" by (rule keptD[OF all _ q]) (rule m[unfolded run])
qed

lemma kept_clear_del [kept_intros]:
  assumes m: "kept (quiet n) m"
  shows "kept (quiet n) (clear_del m)"
proof (rule keptI)
  fix mc mc' r assume q: "quiet n mc" and p: "clear_del m mc = Some (mc', r)"
  then obtain mc1 where 1: "m mc = Some (mc1, r)" "mc' = mc1\<lparr>mc_del := False\<rparr>" by (auto simp: clear_del_def)
  show "quiet n mc'" using keptD[OF m 1(1) q] by (simp add: 1(2))
qed

section \<open>The SET operations\<close>

lemma kept_result [kept_intros]: "kept P (\<lambda>mc. Some (mc, r))"
  by (auto simp: kept_def)

lemma kept_page_cmp [kept_intros]:
  assumes np: "\<not> ce_prefix (te_ce te)"
  shows "kept (quiet n) (page_cmp te key i)"
proof -
  have "kept (quiet n) (\<lambda>mc. if IS_LEAF2 (top_page te mc)
                 then (let n = ce_md_pad (te_ce te) in Some (mc, Ok (mem_read (mp_mem (top_page te mc)) (LEAF2KEY_at i n) n)))
                 else cursor_read_key te i mc)"
    by (rule kept_if_look) (auto simp: kept_def Let_def intro: keptD[OF kept_read_key[OF np]])
  then show ?thesis unfolding page_cmp_def by (rule kept_cbind) (rule kept_result)
qed

lemma kept_set_outside [kept_intros]: "kept (quiet n) (set_outside te op wx d)"
  by (auto simp: kept_def set_outside_def split: if_splits)

lemma kept_set_inside [kept_intros]:
  assumes np: "\<not> ce_prefix (te_ce te)"
  shows "kept (quiet n) (set_inside te key wx)"
proof (rule keptI)
  fix mc mc' r assume q: "quiet n mc" and m: "set_inside te key wx mc = Some (mc', r)"
  show "quiet n mc'"
  proof (cases "top_ki mc < NUMKEYS (top_page te mc)")
    case True
    define body where "body = (\<lambda>c mc. if c = 0 then Some (mc, Ok Set1) else
            let mc = mc\<lparr>mc_eof := False\<rparr>
            in if \<not> ce_prefix (te_ce te) \<and> \<not> IS_LEAF2 (top_page te mc) then
                 (case mdb_node_search_near (te_ce te) (te_cmp te) (top_addr mc) key (top_ki mc) c of
                    None \<Rightarrow> None
                  | Some (Ok (i, exact)) \<Rightarrow> Some (set_ki i mc, if wx \<and> \<not> exact then Err MDB_NOTFOUND else Ok Set1)
                  | Some (Err e) \<Rightarrow> Some (mc, Err e)
                  | Some Abort \<Rightarrow> Some (mc, Abort))
               else Some (mc, Ok Set2))"
    have "kept (quiet n) (body c)" for c
      by (auto simp: kept_def body_def Let_def split: if_splits option.splits res.splits)
    then have "kept (quiet n) (cbind (page_cmp te key i) body)" for i by (intro kept_cbind kept_page_cmp np)
    from keptD[OF this _ q] show ?thesis
      using m[unfolded set_inside_def if_P[OF True], folded body_def] by blast
  qed (use q m in \<open>auto simp: set_inside_def\<close>)
qed

lemma kept_set_on_page [kept_intros]:
  assumes np: "\<not> ce_prefix (te_ce te)"
  shows "kept (quiet n) (set_on_page te key op wx)"
proof (rule keptI)
  fix mc mc' r assume q: "quiet n mc" and m: "set_on_page te key op wx mc = Some (mc', r)"
  have up: "kept (quiet n) (\<lambda>mc. Some (set_ki i mc, r))" for i and r :: "set_next res" by (rule keptI) auto
  have body: "kept (quiet n) (cbind (page_cmp te key 0) (\<lambda>c mc.
        if c = 0 then Some (set_ki 0 mc, Ok Set1)
        else if c > 0 then
          if k > 1 then
            cbind (page_cmp te key (k - 1)) (\<lambda>c mc.
              if c = 0 then Some (set_ki (k - 1) mc, Ok Set1)
              else if c < 0 then set_inside te key wx mc
              else set_outside te op wx c mc) mc
          else set_outside te op wx c mc
        else set_outside te op wx c mc))" for k
    by (intro kept_cbind kept_page_cmp np kept_if_look up kept_set_inside kept_set_outside)
  show "quiet n mc'"
    using m q keptD[OF body _ q] by (auto simp: set_on_page_def Let_def split: if_splits)
qed

lemma kept_set_data [kept_intros]: "kept (quiet n) (set_data te data op)"
  unfolding set_data_def by (auto intro!: kept_intros simp: Let_def split: option.splits)

lemma kept_set1_finish [kept_intros]:
  assumes np: "\<not> ce_prefix (te_ce te)"
  shows "kept (quiet n) (set1_finish te data op)"
proof (rule keptI)
  fix mc mc' r assume q: "quiet n mc" and m: "set1_finish te data op mc = Some (mc', r)"
  define mc1 where "mc1 = mc\<lparr>mc_init := True, mc_eof := False\<rparr>"
  have q1: "quiet n mc1" using q by (simp add: mc1_def)
  have body: "kept (quiet n) (cbind (set_data te data op) (\<lambda>d. cbind (cget top_ki) (\<lambda>i.
           if b then cbind (cursor_read_key te i) (\<lambda>k. cret (Some k, d))
           else if c then cbind (cursor_read_key te i) (\<lambda>k. cret (None, d))
           else cret (None, d))))" for b c
    by (intro kept_intros np)
  show "quiet n mc'" using m q1 keptD[OF body _ q1] unfolding set1_finish_def Let_def mc1_def[symmetric] by (auto split: if_splits)
qed

lemma kept_set2_search [kept_intros]:
  assumes np: "\<not> ce_prefix (te_ce te)"
  shows "kept (quiet n) (set2_search te key wx)"
proof -
  have "kept (quiet n) (\<lambda>mc. case mdb_cursor_sibling te True mc of
           Some (mc, Err e) \<Rightarrow> Some (mc\<lparr>mc_eof := True\<rparr>, Err e)
         | Some (mc, Ok _) \<Rightarrow> cguard (IS_LEAF (top_page te mc)) (cret ()) mc
         | r \<Rightarrow> r)"
  proof (rule keptI)
    fix mc mc' and r :: "unit res"
    assume q: "quiet n mc" and m: "(case mdb_cursor_sibling te True mc of
           Some (mc, Err e) \<Rightarrow> Some (mc\<lparr>mc_eof := True\<rparr>, Err e)
         | Some (mc, Ok _) \<Rightarrow> cguard (IS_LEAF (top_page te mc)) (cret ()) mc
         | r \<Rightarrow> r) = Some (mc', r)"
    show "quiet n mc'" using m keptD[OF kept_sibling _ q]
      by (auto simp: cguard_def cabort_def cret_def split: option.splits prod.splits res.splits if_splits)
  qed
  then show ?thesis unfolding set2_search_def by (intro kept_cbind kept_node_search np) (auto intro!: kept_intros)
qed

lemma kept_set [kept_intros]:
  assumes np: "\<not> ce_prefix (te_ce (db_tree db))"
  shows "kept (quiet n) (mdb_cursor_set db key data op wx)"
proof (rule keptI)
  fix mc mc' r assume q: "quiet n mc" and m: "mdb_cursor_set db key data op wx mc = Some (mc', r)"
  define te where "te = db_tree db"
  have np': "\<not> ce_prefix (te_ce te)" using np by (simp add: te_def)
  define search where "search = (\<lambda>m. cthen m (\<lambda>mc. cguard (IS_LEAF (top_page te mc)) (cthen (set2_search te key wx) (set1_finish te data op)) mc))"
  have end2: "kept (quiet n) (cthen (set2_search te key wx) (set1_finish te data op))" by (intro kept_intros np')
  have search: "kept (quiet n) (search m)" if "kept (quiet n) m" for m
    unfolding search_def by (rule kept_cthen[OF that kept_leaf[OF end2]])
  have on: "kept (quiet n) (cbind (set_on_page te (snd key) op wx) (\<lambda>goto.
               case goto of Set1 \<Rightarrow> set1_finish te data op | Set2 \<Rightarrow> cthen (set2_search te key wx) (set1_finish te data op)
               | Search direction \<Rightarrow> search (mdb_page_search_reuse db key direction)))"
  proof (rule kept_cbind[OF kept_set_on_page[OF np']])
    fix goto show "kept (quiet n) (case goto of Set1 \<Rightarrow> set1_finish te data op | Set2 \<Rightarrow> cthen (set2_search te key wx) (set1_finish te data op)
               | Search direction \<Rightarrow> search (mdb_page_search_reuse db key direction))"
      using kept_set1_finish[OF np'] end2 search[OF kept_reuse[OF np]] by (cases goto) simp_all
  qed
  have q0: "quiet n (mc\<lparr>mc_pg := f\<rparr>)" for f using q by simp
  have np2: "(ce_prefix (te_ce te) \<and> is_get_both op) = False" using np' by simp
  have run: "mdb_cursor_set db key data op wx mc =
     (if snd key = [] then Some (mc, Err MDB_BAD_VALSIZE)
      else if mc_init mc then cbind (set_on_page te (snd key) op wx) (\<lambda>goto.
               case goto of Set1 \<Rightarrow> set1_finish te data op | Set2 \<Rightarrow> cthen (set2_search te key wx) (set1_finish te data op)
               | Search direction \<Rightarrow> search (mdb_page_search_reuse db key direction)) mc
      else search (mdb_page_search db (PS_KEY key)) (mc\<lparr>mc_pg := (mc_pg mc)(0 := 0)\<rparr>))"
    unfolding mdb_cursor_set_def Let_def te_def[symmetric] search_def np2 simp_thms if_False by (rule TrueI)
  consider "mc' = mc" | "cbind (set_on_page te (snd key) op wx) (\<lambda>goto.
               case goto of Set1 \<Rightarrow> set1_finish te data op | Set2 \<Rightarrow> cthen (set2_search te key wx) (set1_finish te data op)
               | Search direction \<Rightarrow> search (mdb_page_search_reuse db key direction)) mc = Some (mc', r)"
    | "search (mdb_page_search db (PS_KEY key)) (mc\<lparr>mc_pg := (mc_pg mc)(0 := 0)\<rparr>) = Some (mc', r)"
    using m unfolding run by (metis option.inject prod.inject)
  then show "quiet n mc'"
    by cases (use q keptD[OF on _ q] keptD[OF search[OF kept_page_search[OF np]] _ q0] in \<open>simp, blast, blast\<close>)
qed

section \<open>The interface\<close>

lemma kept_dup_move [kept_intros]:
  assumes np: "\<not> ce_prefix (te_ce te)"
  shows "kept (quiet n) (dup_move te wk wd)"
proof (rule keptI)
  fix mc mc' r assume q: "quiet n mc" and m: "dup_move te wk wd mc = Some (mc', r)"
  have get_key: "kept (quiet n) (get_key te wk)"
  proof (rule keptI)
    fix mc mc' r assume q: "quiet n mc" and m: "get_key te wk mc = Some (mc', r)"
    have "kept (quiet n) (cbind (cursor_read_key te i) (\<lambda>k. cret (Some k)))" for i by (intro kept_intros np)
    from keptD[OF this _ q] show "quiet n mc'" using m q by (auto simp: get_key_def split: if_splits)
  qed
  have body: "kept (quiet n) (cbind (get_key te wk) (\<lambda>k. clear_del (cbind (read_data te True) (\<lambda>d. cret (k, d)))))"
    by (intro kept_intros get_key)
  have q0: "quiet n (mc\<lparr>mc_eof := False\<rparr>)" "quiet n (set_ki i mc)" for i using q by simp_all
  show "quiet n mc'"
    using m keptD[OF body _ q0(1)] keptD[OF kept_clear_del[OF kept_basic(2)] _ q] keptD[OF kept_clear_del[OF kept_basic(2)] _ q0(2)]
    by (auto simp: dup_move_def Let_def split: if_splits)
qed

lemma get_forgets_rank:
  assumes np: "\<not> ce_prefix (te_ce (db_tree db))" and op: "op \<noteq> MDB_GET_CURRENT"
    and fresh: "\<not> mc_stale mc" and usable: "txn_ok (mc_txn mc)"
    and get: "mdb_cursor_get db key data op mc = Some (mc', r)"
  shows "\<not> rd_rankvalid (mc_reader mc') \<and> mc_entries mc' = mc_entries mc \<and> \<not> mc_stale mc'"
proof -
  define n where "n = mc_entries mc"
  define set where "set = (case key of None \<Rightarrow> cfail EINVAL | Some k \<Rightarrow> mdb_cursor_set db k data op (op \<noteq> MDB_SET_RANGE))"
  have set: "kept (quiet n) set" unfolding set_def by (auto intro!: kept_intros np split: option.split)
  have multi: "kept (quiet n) (\<lambda>mc. if b mc then Some (mc, Err x) else Some (mc, Err y))" for b x y
    by (rule kept_if_look) (rule kept_result)+
  define body where "body = (case op of
             MDB_GET_CURRENT \<Rightarrow> get_current (db_tree db) (key \<noteq> None) (data \<noteq> None)
           | MDB_GET_BOTH \<Rightarrow> clear_del (if \<not> (data \<noteq> None) then cfail EINVAL else set)
           | MDB_GET_BOTH_RANGE \<Rightarrow> clear_del (if \<not> (data \<noteq> None) then cfail EINVAL else set)
           | MDB_SET \<Rightarrow> clear_del set
           | MDB_SET_KEY \<Rightarrow> clear_del set
           | MDB_SET_RANGE \<Rightarrow> clear_del set
           | MDB_GET_MULTIPLE \<Rightarrow> clear_del (\<lambda>mc. if \<not> (data \<noteq> None) \<or> \<not> mc_init mc then Some (mc, Err EINVAL) else Some (mc, Err MDB_INCOMPATIBLE))
           | MDB_NEXT_MULTIPLE \<Rightarrow> clear_del (cfail (if \<not> (data \<noteq> None) then EINVAL else MDB_INCOMPATIBLE))
           | MDB_PREV_MULTIPLE \<Rightarrow> clear_del (cfail (if \<not> (data \<noteq> None) then EINVAL else MDB_INCOMPATIBLE))
           | MDB_FIRST \<Rightarrow> clear_del (mdb_cursor_first db (key \<noteq> None) (data \<noteq> None))
           | MDB_LAST \<Rightarrow> clear_del (mdb_cursor_last db (key \<noteq> None) (data \<noteq> None))
           | MDB_FIRST_DUP \<Rightarrow> dup_move (db_tree db) (key \<noteq> None) (data \<noteq> None)
           | MDB_LAST_DUP \<Rightarrow> dup_move (db_tree db) (key \<noteq> None) (data \<noteq> None)
           | MDB_PREV \<Rightarrow> clear_del (mdb_cursor_prev db (key \<noteq> None) (data \<noteq> None))
           | MDB_PREV_DUP \<Rightarrow> clear_del (mdb_cursor_prev db (key \<noteq> None) (data \<noteq> None))
           | MDB_PREV_NODUP \<Rightarrow> clear_del (mdb_cursor_prev db (key \<noteq> None) (data \<noteq> None))
           | _ \<Rightarrow> clear_del (mdb_cursor_next db (key \<noteq> None) (data \<noteq> None) op))"
  have body: "kept (quiet n) body"
    unfolding body_def by (cases op) (use op in \<open>auto intro!: kept_clear_del kept_if kept_basic set kept_first kept_last kept_next kept_prev kept_dup_move multi np\<close>)
  define mc1 where "mc1 = mc\<lparr>mc_reader := mdb_cursor_rank_invalidate (mc_reader mc)\<rparr>"
  have q: "quiet n mc1" using fresh by (simp add: quiet_def mc1_def n_def mdb_cursor_rank_invalidate_def)
  have "mdb_cursor_get db key data op mc = body mc1"
    unfolding mdb_cursor_get_def Let_def set_def[symmetric] body_def[symmetric] cthen_Some[where m = txn_usable, OF txn_usable_ok[OF usable]]
    using op by (simp add: mc1_def)
  then have "body mc1 = Some (mc', r)" using get by simp
  from keptD[OF body this q] show ?thesis by (simp add: quiet_def n_def)
qed

end
