(* ===== verification/Rank_Refines.thy ===== *)
theory Rank_Refines
  imports Rank_Kept
begin

text \<open>
  A cursor moved by ranks and by the operations of \<open>mdb_cursor_get\<close> in any order refines the iterator over
  the sorted list, extended with a jump to an index; and the counts of a range and the rank of a key are
  those of the list.
\<close>

section \<open>The iterator with jumps\<close>

datatype iter_op = Get MDB_cursor_op search_key | Get_rank u64

fun iter_step :: "(bytes \<times> bytes) list \<Rightarrow> iter_op \<Rightarrow> pos \<Rightarrow> (pos \<times> entry res) option" where
  "iter_step es (Get op k) pos = list_step es (op, k) pos"
| "iter_step es (Get_rank r) pos = (if unat r < length es then move_to es (unat r) else Some (pos, Err MDB_NOTFOUND))"

fun cursor_iter :: "db_env \<Rightarrow> iter_op \<Rightarrow> cursor \<Rightarrow> (cursor \<times> entry res) option" where
  "cursor_iter db (Get op k) mc = mdb_cursor_get db (Some k) (Some []) op mc"
| "cursor_iter db (Get_rank r) mc = mdb_cursor_get_rank db True True 0 r mc"

fun short_op :: "iter_op \<Rightarrow> bool" where
  "short_op (Get op k) \<longleftrightarrow> length (snd k) < 2 ^ 32"
| "short_op (Get_rank r) \<longleftrightarrow> True"

definition rank_sim :: "db_env \<Rightarrow> nat \<Rightarrow> tree \<Rightarrow> cursor \<Rightarrow> pos \<Rightarrow> bool" where
  "rank_sim db h t mc pos \<longleftrightarrow> cursor_sim db h t mc pos \<and> rank_tree db h t mc \<and> rank_inv mc t \<and> counted_db db"

lemma rank_sim_get:
  assumes s: "rank_sim db h t mc pos" and a: "list_step (entries t) (op, k) pos = Some (pos', r)" and k: "length (snd k) < 2 ^ 32"
    and op: "op \<noteq> MDB_GET_CURRENT"
  shows "\<exists>mc'. mdb_cursor_get db (Some k) (Some []) op mc = Some (mc', r) \<and> rank_sim db h t mc' pos'"
proof -
  have c: "cursor_sim db h t mc pos" and rt: "rank_tree db h t mc" and cnt: "counted_db db" using s by (simp_all add: rank_sim_def)
  note R = rank_treeD[OF rt]
  have sk: "short_key (op, k)" using k by (simp add: short_key_def)
  obtain mc' where mc': "mdb_cursor_get db (Some k) (Some []) op mc = Some (mc', r)" "cursor_sim db h t mc' pos'"
    using cursor_simulates[OF c sk a] by (auto simp: cursor_step_def)
  have o: "on_tree db h t mc'" using mc'(2) by (simp add: cursor_sim_def)
  have "txn_ok (mc_txn mc)" "\<not> mc_stale mc" using R(1) tree_atD(2,3) by (auto simp: on_tree_def txn_ok_def)
  from get_forgets_rank[OF _ op this(2,1) mc'(1)] have f: "\<not> rd_rankvalid (mc_reader mc')" "mc_entries mc' = mc_entries mc"
    using R(1) by (simp_all add: on_tree_def)
  have "rank_tree db h t mc'" using rt o f(2) by (simp add: rank_tree_def counts_tree_def)
  then show ?thesis using mc' f(1) cnt by (auto simp: rank_sim_def rank_inv_def)
qed

lemma rank_sim_current:
  assumes s: "rank_sim db h t mc pos" and a: "list_current (entries t) pos = Some (pos', r)"
  shows "\<exists>mc'. mdb_cursor_get db (Some k) (Some []) MDB_GET_CURRENT mc = Some (mc', r) \<and> rank_sim db h t mc' pos'"
proof (cases pos)
  case Fresh
  have c: "cursor_sim db h t mc pos" using s by (simp add: rank_sim_def)
  have t: "txn_ok (mc_txn mc)" using c tree_atD(2,3) by (auto simp: cursor_sim_def on_tree_def txn_ok_def)
  have "clear_del (cfail EINVAL) mc = Some (mc, Err EINVAL)" by (rule clear_del_Some[OF _ c]) (simp add: cfail_def)
  then have "mdb_cursor_get db (Some k) (Some []) MDB_GET_CURRENT mc = Some (mc, Err EINVAL)"
    using c Fresh by (simp add: mdb_cursor_get_def Let_def cthen_Some[where m = txn_usable, OF txn_usable_ok[OF t]] get_current_def cursor_sim_def)
  then show ?thesis using a s Fresh by simp
next
  case (At i)
  have c: "cursor_sim db h t mc pos" and rt: "rank_tree db h t mc" and cnt: "counted_db db" and inv: "rank_inv mc t"
    using s by (simp_all add: rank_sim_def)
  have o: "on_tree db h t mc" and e: "at_entry mc t i" and init: "mc_init mc" using c At by (auto simp: cursor_sim_def at_pos_def)
  obtain rd where rd: "mdb_cursor_get db (Some k) (Some []) MDB_GET_CURRENT mc = Some (mc\<lparr>mc_reader := rd\<rparr>, Ok (entry_at (entries t) i))"
      "rd_rankvalid rd = rd_rankvalid (mc_reader mc)" "mc_rank_cached rd = mc_rank_cached (mc_reader mc)" "mc_rank_offset rd = mc_rank_offset (mc_reader mc)"
    using get_current_rank[OF o e init] by blast
  have "rank_inv (mc\<lparr>mc_reader := rd\<rparr>) t" using inv rd(2) by (simp add: rank_inv_def rank_at_reader[OF rd(3,4)])
  moreover have "rank_tree db h t (mc\<lparr>mc_reader := rd\<rparr>)" using rt by (simp add: rank_tree_def counts_tree_def)
  ultimately show ?thesis using rd(1) a At c cnt by (auto simp: rank_sim_def move_to_def)
qed (use a in simp)

lemma rank_simulates:
  assumes s: "rank_sim db h t mc pos" and k: "short_op x" and a: "iter_step (entries t) x pos = Some (pos', r)"
  shows "\<exists>mc'. cursor_iter db x mc = Some (mc', r) \<and> rank_sim db h t mc' pos'"
proof (cases x)
  case (Get op key)
  show ?thesis
  proof (cases "op = MDB_GET_CURRENT")
    case True
    then show ?thesis using rank_sim_current[OF s, of pos' r key] a Get by simp
  next
    case False
    then show ?thesis using rank_sim_get[OF s _ _ False, of key pos' r] a k Get by simp
  qed
next
  case (Get_rank rk)
  have c: "cursor_sim db h t mc pos" and rt: "rank_tree db h t mc" and cnt: "counted_db db" and inv: "rank_inv mc t"
    using s by (simp_all add: rank_sim_def)
  have bound: "unat rk < 2 ^ 64" using unsigned_less[of rk] by simp
  have id: "word_of_nat (unat rk) = rk" by simp
  note g = get_rank_spec[OF rt sim_settled[OF c] inv cnt bound, unfolded id]
  show ?thesis
  proof (cases "unat rk < length (entries t)")
    case True
    then obtain mc' where mc': "mdb_cursor_get_rank db True True 0 rk mc = Some (mc', Ok (entry_at (entries t) (unat rk)))"
        "rank_at mc' t (unat rk)" "same_db mc mc'" using g by auto
    have "cursor_sim db h t mc' (At (unat rk))"
      using sim_At[OF rank_treeD(1)[OF rt] mc'(3) rank_at_pos[OF mc'(2)]] .
    moreover have "rank_inv mc' t" using mc'(2) by (auto simp: rank_inv_def)
    ultimately show ?thesis
      using a True mc'(1) rank_tree_same[OF rt mc'(3)] cnt Get_rank by (auto simp: rank_sim_def move_to_def)
  next
    case False
    then show ?thesis using g a s Get_rank by simp
  qed
qed

interpretation rank_get: forward_simulation "rank_sim db h t" "cursor_iter db" "iter_step (entries t)" short_op
  for db h t by unfold_locales (rule rank_simulates)

section \<open>Reading a stale record\<close>

text \<open>
  The record of the database in the main one, under its name: the node has the flag \<open>F_SUBDATA\<close>, and the record the flags of the
  database.
\<close>

definition record_root :: "bytes \<Rightarrow> nat" where
  "record_root rcd = le_nat (take 8 (drop 40 rcd))"

definition record_entries :: "bytes \<Rightarrow> u64" where
  "record_entries rcd = word_of_nat (le_nat (take 8 (drop 32 rcd)))"

fun leaves :: "tree \<Rightarrow> (nat \<times> (bytes \<times> bytes) list) list" where
  "leaves (TLeaf a es) = [(a, es)]"
| "leaves (TBranch a seps ts) = concat (map leaves ts)"

definition sub_entry :: "tree_env \<Rightarrow> bytes \<Rightarrow> tree \<Rightarrow> bool" where
  "sub_entry te k t \<longleftrightarrow> list_all (\<lambda>(a, es). list_all (\<lambda>i. fst (es ! i) = k \<longrightarrow>
     mn_flags (mp_mem (ce_deref (te_ce te) a)) (NODEPTR (ce_deref (te_ce te) a) i) AND (F_DUPDATA OR F_SUBDATA) = F_SUBDATA) [0..<length es]) (leaves t)"

definition record_of :: "db_env \<Rightarrow> MDB_txn \<Rightarrow> bytes \<Rightarrow> bool" where
  "record_of db txn rcd \<longleftrightarrow> \<not> db_changed db \<and> length (snd (db_name db)) < 2 ^ 32 \<and>
     db_persistent db = word_of_nat (le_nat (take 2 (drop 4 rcd))) \<and>
     (\<exists>h t. tree_at (db_main db) txn (db_main_root db) h t \<and> map_of (entries t) (snd (db_name db)) = Some rcd \<and>
       sub_entry (db_main db) (snd (db_name db)) t)"

lemma sub_leaves: "valid_path t p \<Longrightarrow> sub t p = TLeaf a es \<Longrightarrow> (a, es) \<in> set (leaves t)"
  by (induction t p rule: sub.induct) auto

lemma fetch_record_spec:
  assumes r: "record_of db (mc_txn mc) rcd" and mc: "mc_root mc = db_main_root db" "mc_pg mc 0 = 0"
  shows "\<exists>mc'. fetch_record db mc = Some (mc', Ok (record_root rcd, record_entries rcd)) \<and> mc_txn mc' = mc_txn mc"
proof -
  let ?te = "db_main db" and ?k = "snd (db_name db)"
  obtain h t where t: "tree_at ?te (mc_txn mc) (mc_root mc) h t" "map_of (entries t) ?k = Some rcd" "sub_entry ?te ?k t"
    using r mc(1) by (auto simp: record_of_def)
  have k: "length ?k < 2 ^ 32" "db_persistent db = word_of_nat (le_nat (take 2 (drop 4 rcd)))" using r by (simp_all add: record_of_def)
  have "root_ok ?te t mc" "above_ok (PS_KEY (db_name db)) t [] mc" using mc(2) k by (simp_all add: root_ok_def above_ok_def)
  from search_tree_arrives[OF t(1) this] obtain mc1 where
    search: "page_search_tree ?te (PS_KEY (db_name db)) mc = Some (mc1, Ok ())" and "arrived mc mc1 t (key_path ?k t)" by auto
  then have arr: "stack_at mc1 t (key_path ?k t)" "mc_txn mc1 = mc_txn mc" by (simp_all add: arrived_def)
  obtain a es where l: "sub t (key_path ?k t) = TLeaf a es" "leaf_stored ?te (mc_txn mc) a es" "sorted_wrt (<) (map fst es)"
    "valid_path t (key_path ?k t)" "map_of (entries t) ?k = map_of es ?k"
    using key_leaf[OF t(1), of ?k] by metis
  have l1: "leaf_stored ?te (mc_txn mc1) a es" using l(2) arr(2) by simp
  have "?k \<in> fst ` set es" using l(5) t(2) by (metis domI dom_map_of_conv_image_fst)
  note ex = place_in_exact[OF l(3) this]
  obtain rd where ns: "cursor_node_search ?te (db_name db) mc1 = Some (set_ki (place_in ?k es) (mc1\<lparr>mc_reader := rd\<rparr>), Ok (True, True))"
    using node_search_leaf[OF arr(1) l(1) l1 l(3) tree_atD(1)[OF t(1)] k(1)] ex \<open>?k \<in> fst ` set es\<close> by auto
  define mc2 where "mc2 = set_ki (place_in ?k es) (mc1\<lparr>mc_reader := rd\<rparr>)"
  note mc2 = set_ki_reader[OF arr(1), of "place_in ?k es" rd, folded mc2_def]
  have l2: "leaf_stored ?te (mc_txn mc2) a es" using mc2(3) l1 by simp
  note top = leaf_top[OF mc2(1) l(1) l2]
  have fl: "mn_flags (mp_mem (ce_deref (te_ce ?te) a)) (NODEPTR (ce_deref (te_ce ?te) a) (place_in ?k es)) AND (F_DUPDATA OR F_SUBDATA) = F_SUBDATA"
    using t(3) sub_leaves[OF l(4,1)] ex by (auto simp: sub_entry_def list_all_iff)
  have "rcd = snd (es ! place_in ?k es)" using ex l(5) t(2) by simp
  then have "mdb_node_read ?te a (NODEPTR (ce_deref (te_ce ?te) a) (place_in ?k es)) mc2 = Some (mc2, Ok rcd)"
    using node_read_holds leaf_storedD(6)[OF l2] ex by metis
  then have "fetch_record db mc = Some (mc2, Ok (record_root rcd, record_entries rcd))"
    unfolding fetch_record_def Let_def
    using tree_atD(2,3)[OF t(1)] fl k(2) ns
    by (simp add: cthen_Some[where m = txn_usable, OF txn_usable_ok] txn_ok_def
        cthen_Some[where m = "page_search_tree ?te (PS_KEY (db_name db))", OF search]
        cbind_Some[where m = "cursor_node_search ?te (db_name db)", OF ns] mc2_def[symmetric] top top_page_def mc2(2)
        cbind_Some[where m = "mdb_node_read ?te a _"] record_root_def record_entries_def)
  then show ?thesis using mc2(3) arr(2) by auto
qed

lemma read_stale:
  assumes r: "record_of db txn rcd" and t: "tree_at (db_tree db) txn (record_root rcd) h t"
  shows "with_cursor db (cget mc_entries) \<lparr>ds_txn = txn, ds_root = r, ds_entries = n, ds_stale = True\<rparr> =
    Some (\<lparr>ds_txn = txn, ds_root = record_root rcd, ds_entries = record_entries rcd, ds_stale = False\<rparr>, Ok (record_entries rcd))"
proof -
  define mc where "mc = ds_cursor \<lparr>ds_txn = txn, ds_root = r, ds_entries = n, ds_stale = True\<rparr>"
  have m: "mc_txn mc = txn" "mc_stale mc" "mc_pg mc 0 = 0" by (simp_all add: mc_def ds_cursor_def cursor_init_def)
  define mc1 where "mc1 = mc\<lparr>mc_root := record_root rcd, mc_entries := record_entries rcd, mc_stale := False\<rparr>"
  define mc2 where "mc2 = mc1\<lparr>mc_pg := (mc_pg mc1)(0 := tree_addr t), mc_snum := 1, mc_top := 0\<rparr>"
  have m1: "mc_txn mc1 = txn" "mc_root mc1 = record_root rcd" "mc_pg mc1 0 = 0" by (simp_all add: mc1_def m)
  have "\<exists>mc'. fetch_record db (cursor_init False txn (db_main_root db) False) = Some (mc', Ok (record_root rcd, record_entries rcd)) \<and>
      mc_txn mc' = txn"
    using fetch_record_spec[of db "cursor_init False txn (db_main_root db) False" rcd] r by (simp add: cursor_init_def)
  then have "refresh_record db mc = Some (mc1, Ok ())"
    using m r by (auto simp: refresh_record_def mc1_def record_of_def)
  moreover have "page_search_tree (db_tree db) PS_ROOTONLY mc1 = Some (mc2, Ok ())"
  proof -
    have g: "gets (db_tree db) (mc_txn mc1) (record_root rcd) (tree_addr t)" using tree_atD(6)[OF t] m1(1) by simp
    have "cbind (cursor_page_get (db_tree db) (record_root rcd)) (\<lambda>a. cupd (\<lambda>mc. mc\<lparr>mc_pg := (mc_pg mc)(0 := a)\<rparr>)) mc1 =
        Some (mc1\<lparr>mc_pg := (mc_pg mc1)(0 := tree_addr t)\<rparr>, Ok ())"
      by (simp add: cbind_page_get[OF g])
    then show ?thesis
      using tree_atD(4,5)[OF t] m1
      by (simp add: page_search_tree_def cthen_Some[where m = "cbind (cursor_page_get (db_tree db) (record_root rcd)) _"] mc2_def)
  qed
  moreover have "txn_usable mc = Some (mc, Ok ())"
    by (rule txn_usable_ok) (use tree_atD(2,3)[OF t] m(1) in \<open>simp add: txn_ok_def\<close>)
  ultimately have "mdb_page_search db PS_ROOTONLY mc = Some (mc2, Ok ())"
    by (simp add: mdb_page_search_def cthen_Some[where m = txn_usable] cthen_Some[where m = "refresh_record db"])
  then show ?thesis
    using m by (simp add: with_cursor_def mc_def[symmetric] init_stale_def cget_def mc2_def mc1_def cursor_ds_def)
qed

section \<open>A counted database\<close>

text \<open>The database of \<open>kv_tree\<close> with counts, under the name \<open>db\<close> in the main database on page 5.\<close>

definition stat_branch :: "nat \<Rightarrow> (bytes \<times> nat \<times> nat) list \<Rightarrow> MDB_page" where
  "stat_branch pgno cs = \<lparr>mp_pgno = pgno, mp_pad = 0, mp_flags = P_BRANCH OR P_COUNTED, mp_lower = 16 + 2 * length cs, mp_upper = 64,
     mp_ptrs = (\<lambda>i. 64 + 32 * i),
     mp_mem = foldr (\<lambda>(i, k, pg, n) m. mem_write m (64 + 32 * i)
         ([word_of_nat pg, 0, 0, 0, 0, 0, word_of_nat (length k), 0, word_of_nat n, 0, 0, 0, 0, 0, 0, 0] @ k))
       (zip [0..<length cs] cs) (\<lambda>_. 0)\<rparr>"

definition stat_record :: bytes where
  "stat_record = [0, 0, 0, 0, 128, 0, 2, 0] @ [1, 0, 0, 0, 0, 0, 0, 0] @ [2, 0, 0, 0, 0, 0, 0, 0] @ [0, 0, 0, 0, 0, 0, 0, 0] @
     [4, 0, 0, 0, 0, 0, 0, 0] @ [2, 0, 0, 0, 0, 0, 0, 0]"

definition stat_main :: MDB_page where
  "stat_main = \<lparr>mp_pgno = 5, mp_pad = 0, mp_flags = P_LEAF, mp_lower = 18, mp_upper = 64, mp_ptrs = (\<lambda>i. 64),
     mp_mem = mem_write (\<lambda>_. 0) 64 ([48, 0, 0, 0, 2, 0, 2, 0, 100, 98] @ stat_record)\<rparr>"

definition stat_te :: tree_env where
  "stat_te = kv_te\<lparr>te_ce := (te_ce kv_te)\<lparr>ce_deref := (\<lambda>a.
       if a = 8192 then stat_branch 2 [([], 3, 2), ([109], 4, 2)]
       else if a = 12288 then kv_leaf 3 [([98], [157]), ([100], [155])]
       else if a = 16384 then kv_leaf 4 [([109], [146]), ([120], [135])]
       else stat_main)\<rparr>\<rparr>"

definition stat_db :: db_env where
  "stat_db = \<lparr>db_tree = stat_te, db_name = (0, [100, 98]), db_persistent = MDB_COUNTED, db_changed = False, db_main = stat_te, db_main_root = 5\<rparr>"

definition stat_txn :: MDB_txn where
  "stat_txn = kv_txn\<lparr>mt_next_pgno := 6\<rparr>"

definition stat_ds :: db_state where
  "stat_ds = \<lparr>ds_txn = stat_txn, ds_root = 2, ds_entries = 4, ds_stale = False\<rparr>"

definition stat_mc :: cursor where
  "stat_mc = (cursor_init True stat_txn 2 False)\<lparr>mc_entries := 4\<rparr>"

lemma stat_tree_at: "tree_at stat_te stat_txn 2 1 kv_tree" "counted stat_te kv_tree" "counted_db stat_db" "\<not> dupsort_db stat_db"
  "mapped kv_tree" "\<not> ce_prefix (te_ce stat_te)"
  by code_simp+

lemma stat_len: "length (entries kv_tree) = 4"
  by (simp add: kv_tree_def)

lemma stat_db_at: "db_at stat_db 1 kv_tree stat_ds"
  using stat_tree_at stat_len by (simp add: db_at_def stat_ds_def stat_db_def counted_db_def dupsort_db_def)

text \<open>The main database of the sample has one leaf with the one record.\<close>

definition stat_main_tree :: tree where
  "stat_main_tree = TLeaf 20480 [([100, 98], stat_record)]"

lemma stat_record_of: "record_of stat_db stat_txn stat_record"
proof -
  have "tree_at (db_main stat_db) stat_txn (db_main_root stat_db) 0 stat_main_tree" by code_simp
  moreover have "map_of (entries stat_main_tree) (snd (db_name stat_db)) = Some stat_record" by code_simp
  moreover have "sub_entry (db_main stat_db) (snd (db_name stat_db)) stat_main_tree" by code_simp
  moreover have "\<not> db_changed stat_db" "length (snd (db_name stat_db)) < 2 ^ 32" by (simp_all add: stat_db_def)
  moreover have "db_persistent stat_db = word_of_nat (le_nat (take 2 (drop 4 stat_record)))" by code_simp
  ultimately show ?thesis unfolding record_of_def by blast
qed

section \<open>Properties\<close>

text \<open>C1. On a counted database without sorted duplicates and without prefix compression, from a new cursor, any sequence of jumps by rank (\<open>mdb_cursor_get_rank\<close>) and of operations of
  \<open>mdb_cursor_get\<close> returns what the iterator over the sorted list of all entries returns, where a jump to rank
  \<open>r\<close> goes to index \<open>r\<close> of the list, or fails with \<open>MDB_NOTFOUND\<close> and leaves the cursor alone when the list
  is shorter. In particular the resumption from a cached rank is never out of date.\<close>

theorem rank_cursor_refines_list:
  assumes "tree_at (db_tree db) txn root h t" "\<not> ce_prefix (te_ce (db_tree db))" "counted_db db" "counted (db_tree db) t" "mapped t"
    and "length (entries t) < 2 ^ 64" "list_all short_op ops" "run_ops (iter_step (entries t)) ops Fresh = Some (pos, rs)"
  shows "\<exists>mc. run_ops (cursor_iter db) ops ((cursor_init True txn root False)\<lparr>mc_entries := word_of_nat (length (entries t))\<rparr>) = Some (mc, rs)"
proof -
  let ?mc = "(cursor_init True txn root False)\<lparr>mc_entries := word_of_nat (length (entries t))\<rparr>"
  have "cursor_sim db h t ?mc Fresh" using assms(1,2) by (simp add: cursor_sim_def on_tree_def cursor_init_def)
  then have "rank_sim db h t ?mc Fresh"
    using assms(3-6) by (simp add: rank_sim_def rank_tree_def counts_tree_def cursor_sim_def rank_inv_def cursor_init_def fresh_reader_def)
  from rank_get.runs[OF this assms(7,8)] show ?thesis by blast
qed

theorem rank_cursor_refines_list_witness:
  "\<exists>mc. run_ops (cursor_iter stat_db)
     [Get_rank 1, Get MDB_GET_CURRENT (0, []), Get_rank 3, Get MDB_PREV (0, []), Get_rank 4, Get_rank 0, Get MDB_NEXT (0, [])] stat_mc =
    Some (mc, [Ok (Some [100], Some [155]), Ok (Some [100], Some [155]), Ok (Some [120], Some [135]), Ok (Some [109], Some [146]),
      Err MDB_NOTFOUND, Ok (Some [98], Some [157]), Ok (Some [100], Some [155])])"
proof -
  have e: "entries kv_tree = [([98], [157]), ([100], [155]), ([109], [146]), ([120], [135])]" by (simp add: kv_tree_def)
  have mc: "stat_mc = (cursor_init True stat_txn 2 False)\<lparr>mc_entries := word_of_nat (length (entries kv_tree))\<rparr>"
    by (simp add: stat_mc_def e)
  show ?thesis unfolding mc
    by (rule rank_cursor_refines_list[where h = 1 and t = kv_tree and pos = "At 1"])
      (use stat_tree_at in \<open>simp_all add: stat_db_def e move_to_def entry_at_def\<close>)
qed

text \<open>C20. On a counted database without sorted duplicates and without prefix compression, whose record the transaction has read, \<open>mdb_count_range\<close> and \<open>mdb_range_count_keys\<close> return the number of entries whose
  keys are in the range, for every combination of missing, included and excluded bounds, and change nothing.\<close>

theorem count_range_correct:
  assumes "db_at db h t ds" "key_ok low" "key_ok high" "count_flags_ok flags"
  shows "mdb_count_range db low high flags ds = Some (ds, Ok (word_of_nat (num_where (in_range low high flags) (entries t)))) \<and>
    mdb_range_count_keys db low high flags ds = Some (ds, Ok (word_of_nat (num_where (in_range low high flags) (entries t))))"
  using count_range_spec[OF assms] range_count_keys_spec[OF assms] by (rule conjI)

theorem count_range_correct_witness:
  "mdb_count_range stat_db (Some (0, [99])) (Some (0, [120])) MDB_COUNT_LOWER_INCL stat_ds = Some (stat_ds, Ok 2) \<and>
   mdb_range_count_keys stat_db (Some (0, [99])) (Some (0, [120])) MDB_COUNT_LOWER_INCL stat_ds = Some (stat_ds, Ok 2)"
proof -
  have n: "word_of_nat (num_where (in_range (Some (0, [99])) (Some (0, [120])) MDB_COUNT_LOWER_INCL) (entries kv_tree)) = (2 :: u64)"
    by code_simp
  have "key_ok (Some (0, [99]))" "key_ok (Some (0, [120]))" "count_flags_ok MDB_COUNT_LOWER_INCL"
    by (simp_all add: key_ok_def) code_simp
  from count_range_correct[OF stat_db_at this] show ?thesis unfolding n .
qed

text \<open>C21. On a counted database without sorted duplicates and without prefix compression, whose record the transaction has read,
  \<open>mdb_get_key_rank\<close> returns the index of a key in the sorted list of the entries, and \<open>MDB_NOTFOUND\<close> when the
  key is not there or its value is not the one the caller gives. (\<open>dlmdb.h\<close> documents the value as ignored for such databases; the code
  compares it.)\<close>

theorem key_rank_correct:
  assumes d: "db_at db h t ds" and k: "snd key \<noteq> []" "length (snd key) < 2 ^ 32"
  shows "mdb_get_key_rank db (Some key) data ds = Some (ds, case map_of (entries t) (snd key) of
     None \<Rightarrow> Err MDB_NOTFOUND
   | Some v \<Rightarrow> if data = None \<or> data = Some v then Ok (word_of_nat (length (filter (\<lambda>(x, d). x < snd key) (entries t)))) else Err MDB_NOTFOUND)"
proof -
  have o: "on_tree db h t (ds_cursor ds)" using db_at_cursor(1)[OF d] by (simp add: counts_tree_def)
  have n: "length (filter (\<lambda>(x, d). x < snd key) (entries t)) = place_in (snd key) (entries t)"
    using place_num[OF tree_sorted[OF o]] by (simp add: num_where_def case_prod_beta')
  then show ?thesis using rank_for_key_spec[OF d k, of data] unfolding mdb_get_key_rank_def n by blast
qed

theorem key_rank_correct_witness:
  "mdb_get_key_rank stat_db (Some (1000, [109])) (Some [146]) stat_ds = Some (stat_ds, Ok 2) \<and>
   mdb_get_key_rank stat_db (Some (1000, [110])) None stat_ds = Some (stat_ds, Err MDB_NOTFOUND)"
  using key_rank_correct[OF stat_db_at, of "(1000, [109])" "Some [146]"] key_rank_correct[OF stat_db_at, of "(1000, [110])" None]
  by (simp add: kv_tree_def)

lemma get_rank_db:
  assumes d: "db_at db h t ds" and m: "mapped t" and r: "unat r < length (entries t)"
  shows "mdb_get_rank db True True r ds = Some (ds, Ok (entry_at (entries t) (unat r)))"
proof -
  note c = db_at_cursor(1,2)[OF d]
  have rt: "rank_tree db h t (ds_cursor ds)" using c(1) m by (simp add: rank_tree_def)
  have inv: "rank_inv (ds_cursor ds) t" using db_at_cursor(5)[OF d] by (simp add: rank_inv_def)
  have cnt: "counted_db db" using d by (simp add: db_at_def)
  have bound: "unat r < 2 ^ 64" using unsigned_less[of r] by simp
  have id: "word_of_nat (unat r) = r" by simp
  obtain mc where mc: "mdb_cursor_get_rank db True True 0 r (ds_cursor ds) = Some (mc, Ok (entry_at (entries t) (unat r)))" "same_db (ds_cursor ds) mc"
    using get_rank_spec[OF rt c(2) inv cnt bound, unfolded id] r by auto
  have "\<not> mt_blocked (ds_txn ds)" "\<not> ce_prefix (te_ce (db_tree db))" using d tree_atD(2) by (auto simp: db_at_def)
  then show ?thesis using with_cursor_spec[where m = "mdb_cursor_get_rank db True True 0 r", OF d mc] by (simp add: mdb_get_rank_def)
qed

text \<open>C22. The rank of a key and the entry of a rank are inverse: for every key of a counted database, \<open>mdb_get_key_rank\<close>
  gives a rank at which \<open>mdb_get_rank\<close> returns the key and its value; and the key that \<open>mdb_get_rank\<close> returns for a rank
  below the number of entries has that rank.\<close>

theorem rank_roundtrip:
  assumes d: "db_at db h t ds" and m: "mapped t" and i: "i < length (entries t)"
    and k: "fst (entries t ! i) = key" "key \<noteq> []" "length key < 2 ^ 32"
  shows "mdb_get_key_rank db (Some (p, key)) None ds = Some (ds, Ok (word_of_nat i)) \<and>
    mdb_get_rank db True True (word_of_nat i) ds = Some (ds, Ok (Some key, Some (snd (entries t ! i))))"
proof -
  have o: "on_tree db h t (ds_cursor ds)" using db_at_cursor(1)[OF d] by (simp add: counts_tree_def)
  note s = tree_sorted[OF o]
  have lt: "length (entries t) < 2 ^ 64" using d by (simp add: db_at_def)
  have dist: "distinct (map fst (entries t))" using s strict_sorted_iff by blast
  have "key \<in> fst ` set (entries t)" using i k(1) by (metis image_eqI nth_mem)
  note ex = place_in_exact[OF s this]
  have n: "place_in key (entries t) = i"
    using nth_eq_iff_index_eq[OF dist, of "place_in key (entries t)" i] ex i k(1) by simp
  then have v: "map_of (entries t) key = Some (snd (entries t ! i))" using ex by simp
  have u: "unat (word_of_nat i :: u64) = i" using i lt by (simp add: unat_of_nat)
  have "snd (p, key) \<noteq> []" "length (snd (p, key)) < 2 ^ 32" using k by simp_all
  from rank_for_key_spec[OF d this, of None] have "mdb_get_key_rank db (Some (p, key)) None ds = Some (ds, Ok (word_of_nat i))"
    unfolding mdb_get_key_rank_def snd_conv v n by simp
  moreover have "mdb_get_rank db True True (word_of_nat i) ds = Some (ds, Ok (entry_at (entries t) i))"
    using get_rank_db[OF d m, of "word_of_nat i"] i unfolding u by blast
  ultimately show ?thesis using k(1) by (simp add: entry_at_def)
qed

theorem rank_roundtrip_witness:
  "mdb_get_key_rank stat_db (Some (0, [109])) None stat_ds = Some (stat_ds, Ok 2) \<and>
   mdb_get_rank stat_db True True 2 stat_ds = Some (stat_ds, Ok (Some [109], Some [146]))"
  using rank_roundtrip[OF stat_db_at stat_tree_at(5), of 2 "[109]" 0] by (simp add: kv_tree_def)

text \<open>C23. A named database opened before has a record in a new transaction that is stale, and \<open>md_entries\<close> of a read transaction is 0
  until something reads the record. Whatever the database has, \<open>mdb_count_range\<close> and \<open>mdb_range_count_keys\<close> test \<open>md_entries\<close> before
  that and answer 0 for every range; \<open>mdb_count_all\<close> reads the record from the main database and answers the number of entries, and
  after it \<open>mdb_count_range\<close> answers the number in the range. The order of the calls decides the count.\<close>

theorem count_range_stale:
  assumes "record_of db txn rcd" "ds = \<lparr>ds_txn = txn, ds_root = r, ds_entries = 0, ds_stale = True\<rparr>"
    and "ds' = \<lparr>ds_txn = txn, ds_root = record_root rcd, ds_entries = record_entries rcd, ds_stale = False\<rparr>" "db_at db h t ds'"
    and "key_ok low" "key_ok high" "count_flags_ok flags"
  shows "mdb_count_range db low high flags ds = Some (ds, Ok 0) \<and> mdb_range_count_keys db low high flags ds = Some (ds, Ok 0) \<and>
    mdb_count_all db flags ds = Some (ds', Ok (word_of_nat (length (entries t)))) \<and>
    mdb_count_range db low high flags ds' = Some (ds', Ok (word_of_nat (num_where (in_range low high flags) (entries t))))"
proof -
  have d: "counted_db db" "\<not> dupsort_db db" "\<not> mt_blocked txn" "tree_at (db_tree db) txn (record_root rcd) h t"
    "record_entries rcd = word_of_nat (length (entries t))"
    using assms(3,4) tree_atD(2) by (auto simp: db_at_def)
  have "mdb_count_all db flags ds = Some (ds', Ok (record_entries rcd))"
    using read_stale[OF assms(1) d(4)] d(1) assms(2,3,7) by (simp add: mdb_count_all_def)
  then show ?thesis
    using count_range_spec[OF assms(4-7)] d assms(2,7) by (simp add: mdb_count_range_def mdb_range_count_keys_def Let_def)
qed

text \<open>The database of the sample, not read yet in the transaction: it has 4 entries, 2 of them from c up to x.\<close>

theorem count_range_stale_witness:
  "let ds = \<lparr>ds_txn = stat_txn, ds_root = 0, ds_entries = 0, ds_stale = True\<rparr> in
   mdb_count_range stat_db (Some (0, [99])) (Some (0, [120])) MDB_COUNT_LOWER_INCL ds = Some (ds, Ok 0) \<and>
   mdb_count_all stat_db MDB_COUNT_LOWER_INCL ds = Some (stat_ds, Ok 4) \<and>
   mdb_count_range stat_db (Some (0, [99])) (Some (0, [120])) MDB_COUNT_LOWER_INCL stat_ds = Some (stat_ds, Ok 2)"
proof -
  have n: "word_of_nat (num_where (in_range (Some (0, [99])) (Some (0, [120])) MDB_COUNT_LOWER_INCL) (entries kv_tree)) = (2 :: u64)"
    by code_simp
  have k: "key_ok (Some (0, [99]))" "key_ok (Some (0, [120]))" by (simp_all add: key_ok_def)
  have fl: "count_flags_ok MDB_COUNT_LOWER_INCL" by code_simp
  have ds: "stat_ds = \<lparr>ds_txn = stat_txn, ds_root = record_root stat_record, ds_entries = record_entries stat_record, ds_stale = False\<rparr>"
    by code_simp
  show ?thesis
    using count_range_stale[OF stat_record_of refl ds stat_db_at k fl, of 0] unfolding Let_def n stat_len by simp
qed

end
