(* ===== verification/Midl_Sort.thy ===== *)
theory Midl_Sort
  imports Midl "HOL-Library.Monad_Syntax"
begin

text \<open>
  Sorting an ID list (\<open>mdb_midl_sort\<close> in \<open>midl.c\<close>): a quicksort with its own stack of pending parts and an
  insertion sort for short parts. Every access to the list and to the stack is checked: the result is \<open>None\<close>
  when one is outside the array, or when the loop does not end.
\<close>

section \<open>The code\<close>

definition rd :: "'a list \<Rightarrow> nat \<Rightarrow> 'a option" where
  "rd xs i = (if i < length xs then Some (xs ! i) else None)"

definition wr :: "'a list \<Rightarrow> nat \<Rightarrow> 'a \<Rightarrow> 'a list option" where
  "wr xs i x = (if i < length xs then Some (xs[i := x]) else None)"

definition SMALL :: nat where "SMALL = 8"

definition MIDL_SWAP :: "MDB_ID list \<Rightarrow> nat \<Rightarrow> nat \<Rightarrow> MDB_ID list option" where
  "MIDL_SWAP xs i j = do { x \<leftarrow> rd xs i; y \<leftarrow> rd xs j; xs \<leftarrow> wr xs i y; wr xs j x }"

definition swap_if_less :: "MDB_ID list \<Rightarrow> nat \<Rightarrow> nat \<Rightarrow> MDB_ID list option" where
  "swap_if_less xs i j = do { x \<leftarrow> rd xs i; y \<leftarrow> rd xs j; if x < y then MIDL_SWAP xs i j else Some xs }"

text \<open>The insertion sort: \<open>a\<close> goes to the hole that moves down from behind \<open>i\<close>.\<close>

fun insert_down :: "nat \<Rightarrow> MDB_ID \<Rightarrow> MDB_ID list \<Rightarrow> MDB_ID list option" where
  "insert_down 0 a xs = wr xs 1 a"
| "insert_down (Suc i) a xs = do {
     x \<leftarrow> rd xs (Suc i);
     if x \<ge> a then wr xs (Suc i + 1) a
     else do { xs \<leftarrow> wr xs (Suc i + 1) x; insert_down i a xs } }"

fun insertion_sort :: "nat list \<Rightarrow> MDB_ID list \<Rightarrow> MDB_ID list option" where
  "insertion_sort [] xs = Some xs"
| "insertion_sort (j # js) xs = do { a \<leftarrow> rd xs j; xs \<leftarrow> insert_down (j - 1) a xs; insertion_sort js xs }"

text \<open>The median of three, and the partition around it.\<close>

definition pick_median :: "nat \<Rightarrow> nat \<Rightarrow> MDB_ID list \<Rightarrow> MDB_ID list option" where
  "pick_median l ir xs = do {
     xs \<leftarrow> MIDL_SWAP xs (drop_bit 1 (l + ir)) (l + 1);
     xs \<leftarrow> swap_if_less xs l ir;
     xs \<leftarrow> swap_if_less xs (l + 1) ir;
     swap_if_less xs l (l + 1) }"

function scan_up :: "MDB_ID \<Rightarrow> MDB_ID list \<Rightarrow> nat \<Rightarrow> nat option" where
  "scan_up a xs i = do { x \<leftarrow> rd xs (i + 1); if x > a then scan_up a xs (i + 1) else Some (i + 1) }"
  by pat_completeness auto
termination by (relation "measure (\<lambda>(a, xs, i). length xs - i)") (auto simp: rd_def split: if_splits)

fun scan_down :: "MDB_ID \<Rightarrow> MDB_ID list \<Rightarrow> nat \<Rightarrow> nat option" where
  "scan_down a xs 0 = None"
| "scan_down a xs (Suc j) = do { x \<leftarrow> rd xs j; if x < a then scan_down a xs j else Some j }"

declare scan_up.simps [simp del]

partial_function (option) partition_loop :: "MDB_ID \<Rightarrow> MDB_ID list \<Rightarrow> nat \<Rightarrow> nat \<Rightarrow> (nat \<times> nat \<times> MDB_ID list) option" where
  "partition_loop a xs i j = do {
     i \<leftarrow> scan_up a xs i;
     j \<leftarrow> scan_down a xs j;
     if j < i then Some (i, j, xs)
     else do { xs \<leftarrow> MIDL_SWAP xs i j; partition_loop a xs i j } }"

declare partition_loop.simps [code]

text \<open>The larger part is put on the stack; \<open>istack\<close> has \<open>sizeof(int) * CHAR_BIT * 2\<close> places.\<close>

partial_function (option) sort_loop :: "nat list \<Rightarrow> nat \<Rightarrow> nat \<Rightarrow> nat \<Rightarrow> MDB_ID list \<Rightarrow> MDB_ID list option" where
  "sort_loop istack jstack l ir xs =
     (if ir < l + SMALL then do {
        xs \<leftarrow> insertion_sort [l + 1..<ir + 1] xs;
        if jstack = 0 then Some xs
        else do {
          ir \<leftarrow> rd istack jstack;
          l \<leftarrow> rd istack (jstack - 1);
          sort_loop istack (jstack - 2) l ir xs } }
      else do {
        xs \<leftarrow> pick_median l ir xs;
        a \<leftarrow> rd xs (l + 1);
        (i, j, xs) \<leftarrow> partition_loop a xs (l + 1) ir;
        y \<leftarrow> rd xs j;
        xs \<leftarrow> wr xs (l + 1) y;
        xs \<leftarrow> wr xs j a;
        if ir + 1 + l \<ge> j + i then do {
          istack \<leftarrow> wr istack (jstack + 2) ir;
          istack \<leftarrow> wr istack (jstack + 1) i;
          sort_loop istack (jstack + 2) l (j - 1) xs }
        else do {
          istack \<leftarrow> wr istack (jstack + 2) (j - 1);
          istack \<leftarrow> wr istack (jstack + 1) l;
          sort_loop istack (jstack + 2) i ir xs } })"

declare sort_loop.simps [code]

text \<open>\<open>istack\<close> is the unspecified content of the local array.\<close>

definition mdb_midl_sort :: "nat list \<Rightarrow> MDB_IDL \<Rightarrow> MDB_IDL option" where
  "mdb_midl_sort istack l = map_option (\<lambda>xs. l\<lparr>ids := xs\<rparr>) (sort_loop istack 0 1 (idl_len l) (ids l))"

section \<open>Permutations of a part\<close>

lemma rd_Some [simp]: "i < length xs \<Longrightarrow> rd xs i = Some (xs ! i)"
  by (simp add: rd_def)

lemma wr_Some [simp]: "i < length xs \<Longrightarrow> wr xs i x = Some (xs[i := x])"
  by (simp add: wr_def)

definition perm_in :: "nat \<Rightarrow> nat \<Rightarrow> 'a list \<Rightarrow> 'a list \<Rightarrow> bool" where
  "perm_in l r xs ys \<longleftrightarrow> mset ys = mset xs \<and> (\<forall>p. p < l \<or> r < p \<longrightarrow> ys ! p = xs ! p)"

lemma perm_in_length: "perm_in l r xs ys \<Longrightarrow> length ys = length xs"
  unfolding perm_in_def by (metis size_mset)

lemma perm_in_refl: "perm_in l r xs xs"
  by (simp add: perm_in_def)

lemma perm_in_trans: "perm_in l r xs ys \<Longrightarrow> perm_in l r ys zs \<Longrightarrow> perm_in l r xs zs"
  by (simp add: perm_in_def)

lemma perm_in_mono: "perm_in l r xs ys \<Longrightarrow> l' \<le> l \<Longrightarrow> r \<le> r' \<Longrightarrow> perm_in l' r' xs ys"
  by (auto simp: perm_in_def)

text \<open>A value in the part comes from the part.\<close>

lemma perm_in_from:
  assumes p: "perm_in l r xs ys" and q: "l \<le> q" "q \<le> r" "r < length xs"
  shows "\<exists>q'. l \<le> q' \<and> q' \<le> r \<and> ys ! q = xs ! q'"
proof -
  note len = perm_in_length[OF p]
  let ?part = "\<lambda>zs. take (r + 1 - l) (drop l zs)"
  have split: "mset zs = mset (take l zs) + mset (?part zs) + mset (drop (r + 1) zs)" if "length zs = length xs" for zs :: "'a list"
  proof -
    have "drop (r + 1 - l) (drop l zs) = drop (r + 1) zs" using q by (simp add: add.commute)
    then have "zs = take l zs @ ?part zs @ drop (r + 1) zs"
      by (metis append_take_drop_id)
    then show ?thesis by (metis mset_append add.assoc)
  qed
  have "take l ys = take l xs" "drop (r + 1) ys = drop (r + 1) xs"
    using p len by (auto intro!: nth_equalityI simp: perm_in_def)
  then have "mset (?part ys) = mset (?part xs)" using split[OF len] split[OF refl] p by (simp add: perm_in_def)
  then have s: "set (?part ys) = set (?part xs)" by (metis set_mset_mset)
  have nth: "?part zs ! k = zs ! (l + k)" if "k < r + 1 - l" "length zs = length xs" for zs :: "'a list" and k
    using that q by simp
  have "\<exists>k<length (?part ys). ?part ys ! k = ys ! q"
    by (rule exI[of _ "q - l"]) (use q len nth[of "q - l" ys] in auto)
  then have "ys ! q \<in> set (?part ys)" by (metis nth_mem)
  then obtain k where "k < length (?part xs)" "?part xs ! k = ys ! q" unfolding s by (metis in_set_conv_nth)
  then show ?thesis using nth[of k xs] q by (intro exI[of _ "l + k"]) auto
qed

lemma perm_in_swap:
  assumes "l \<le> i" "i \<le> r" "l \<le> j" "j \<le> r" "r < length xs"
  shows "perm_in l r xs (xs[i := xs ! j, j := xs ! i])"
  using assms by (auto simp: perm_in_def nth_list_update intro: mset_swap)

lemma MIDL_SWAP_Some [simp]: "i < length xs \<Longrightarrow> j < length xs \<Longrightarrow> MIDL_SWAP xs i j = Some (xs[i := xs ! j, j := xs ! i])"
  by (simp add: MIDL_SWAP_def)

section \<open>The insertion sort\<close>

definition desc :: "nat \<Rightarrow> nat \<Rightarrow> MDB_ID list \<Rightarrow> bool" where
  "desc l r xs \<longleftrightarrow> (\<forall>p q. l \<le> p \<and> p < q \<and> q \<le> r \<longrightarrow> xs ! q \<le> xs ! p)"

lemma descI: "(\<And>p q. l \<le> p \<Longrightarrow> p < q \<Longrightarrow> q \<le> r \<Longrightarrow> xs ! q \<le> xs ! p) \<Longrightarrow> desc l r xs"
  by (simp add: desc_def)

lemma descD: "desc l r xs \<Longrightarrow> l \<le> p \<Longrightarrow> p \<le> q \<Longrightarrow> q \<le> r \<Longrightarrow> xs ! q \<le> xs ! p"
  by (cases "p = q") (auto simp: desc_def)

lemma insert_down_spec:
  "i + 1 < length xs \<Longrightarrow> \<exists>m ys. insert_down i a xs = Some ys \<and> 1 \<le> m \<and> m \<le> i + 1 \<and> (m = 1 \<or> a \<le> xs ! (m - 1)) \<and>
     (\<forall>p. m \<le> p \<and> p \<le> i \<longrightarrow> xs ! p < a) \<and> mset ys = mset (xs[i + 1 := a]) \<and>
     (\<forall>p. ys ! p = (if p = m then a else if m < p \<and> p \<le> i + 1 then xs ! (p - 1) else xs ! p))"
proof (induction i arbitrary: xs)
  case 0
  then show ?case by (intro exI[of _ 1] exI[of _ "xs[1 := a]"]) (auto simp: nth_list_update)
next
  case (Suc i)
  let ?x = "xs ! Suc i"
  show ?case
  proof (cases "a \<le> ?x")
    case True
    then show ?thesis using Suc.prems
      by (intro exI[of _ "i + 2"] exI[of _ "xs[i + 2 := a]"]) (auto simp: nth_list_update)
  next
    case False
    define xs1 where "xs1 = xs[i + 2 := ?x]"
    have "i + 1 < length xs1" using Suc.prems by (simp add: xs1_def)
    from Suc.IH[OF this] obtain m ys where m: "insert_down i a xs1 = Some ys" "1 \<le> m" "m \<le> i + 1" "m = 1 \<or> a \<le> xs1 ! (m - 1)"
      "\<forall>p. m \<le> p \<and> p \<le> i \<longrightarrow> xs1 ! p < a" "mset ys = mset (xs1[i + 1 := a])"
      "\<forall>p. ys ! p = (if p = m then a else if m < p \<and> p \<le> i + 1 then xs1 ! (p - 1) else xs1 ! p)" by blast
    have at: "xs1 ! p = (if p = i + 2 then ?x else xs ! p)" for p using Suc.prems by (simp add: xs1_def nth_list_update)
    define zs where "zs = xs[i + 2 := a]"
    have "xs1[i + 1 := a] = zs[i + 1 := zs ! (i + 2), i + 2 := zs ! (i + 1)]"
      using Suc.prems by (intro nth_equalityI) (auto simp: xs1_def zs_def nth_list_update)
    then have ms: "mset ys = mset (xs[Suc i + 1 := a])"
      using Suc.prems m(6) mset_swap[of "i + 2" zs "i + 1"] by (simp add: zs_def)
    have "insert_down (Suc i) a xs = Some ys" using False Suc.prems m(1) by (simp add: xs1_def)
    moreover have "\<forall>p. m \<le> p \<and> p \<le> Suc i \<longrightarrow> xs ! p < a" using m(5) False by (auto simp: at le_Suc_eq)
    moreover have "\<forall>p. ys ! p = (if p = m then a else if m < p \<and> p \<le> Suc i + 1 then xs ! (p - 1) else xs ! p)"
      using m(3,7) by (auto simp: at le_Suc_eq)
    moreover have "m = 1 \<or> a \<le> xs ! (m - 1)" using m(3,4) by (auto simp: at split: if_splits)
    ultimately show ?thesis using m(2,3) ms by (intro exI[of _ m] exI[of _ ys]) auto
  qed
qed

lemma insertion_sort_spec:
  assumes "1 \<le> l" "l < j" "ir < length xs" "desc l (j - 1) xs" "l = 1 \<or> (\<forall>p. l \<le> p \<and> p \<le> ir \<longrightarrow> xs ! p \<le> xs ! (l - 1))"
  shows "\<exists>ys. insertion_sort [j..<ir + 1] xs = Some ys \<and> perm_in l ir xs ys \<and> desc l ir ys"
  using assms
proof (induction "ir + 1 - j" arbitrary: j xs)
  case 0
  have j: "ir \<le> j - 1" "[j..<ir + 1] = []" using 0(1,3) by simp_all
  have "desc l ir xs" using j(1) by (intro descI) (rule descD[OF 0(5)], simp_all)
  then show ?case unfolding j(2) by (simp add: perm_in_refl)
next
  case (Suc n)
  then have j: "j \<le> ir" "j - 1 + 1 = j" "1 \<le> l" "l < j" by auto
  have up: "[j..<ir + 1] = j # [j + 1..<ir + 1]" using j by (simp add: upt_conv_Cons)
  let ?a = "xs ! j"
  have "j - 1 + 1 < length xs" using j Suc.prems by simp
  from insert_down_spec[OF this, of ?a] obtain m ys where m: "insert_down (j - 1) ?a xs = Some ys" "1 \<le> m" "m \<le> j" "m = 1 \<or> ?a \<le> xs ! (m - 1)"
    "\<forall>p. m \<le> p \<and> p \<le> j - 1 \<longrightarrow> xs ! p < ?a" "mset ys = mset xs"
    "\<forall>p. ys ! p = (if p = m then ?a else if m < p \<and> p \<le> j then xs ! (p - 1) else xs ! p)"
    unfolding j(2) list_update_id by (elim exE conjE) (rule that)
  have lm: "l \<le> m"
  proof (rule ccontr)
    assume c: "\<not> l \<le> m"
    then have "xs ! (l - 1) < ?a" using m(5) j by (intro m(5)[rule_format]) auto
    moreover have "?a \<le> xs ! (l - 1)" using Suc.prems(5) j c m(2) by auto
    ultimately show False by simp
  qed
  have pi: "perm_in l ir xs ys" using m(3,6,7) lm j by (auto simp: perm_in_def)
  have ds: "desc l j ys"
  proof (rule descI)
    fix p q assume pq: "l \<le> p" "p < q" "q \<le> j"
    have old: "xs ! v \<le> xs ! u" if "l \<le> u" "u \<le> v" "v \<le> j - 1" for u v using descD[OF Suc.prems(4) that] .
    show "ys ! q \<le> ys ! p"
    proof (cases "p < m")
      case True
      then have p: "ys ! p = xs ! p" using m(7) by simp
      have "?a \<le> xs ! p" if "q = m"
      proof -
        have "?a \<le> xs ! (m - 1)" using m(4) True pq j(3) by auto
        also have "\<dots> \<le> xs ! p" using old[of p "m - 1"] True pq m(3) by auto
        finally show ?thesis .
      qed
      then show ?thesis using p m(3,7) pq True old[of p q] old[of p "q - 1"] by auto
    next
      case False
      have "xs ! (q - 1) < ?a" if "p = m" by (rule m(5)[rule_format]) (use pq that in auto)
      then show ?thesis using m(7) pq False old[of "p - 1" "q - 1"] lm by (auto simp: less_imp_le)
    qed
  qed
  have "l = 1 \<or> (\<forall>p. l \<le> p \<and> p \<le> ir \<longrightarrow> ys ! p \<le> ys ! (l - 1))"
  proof (cases "l = 1")
    case False
    have "ys ! (l - 1) = xs ! (l - 1)" using pi j by (simp add: perm_in_def)
    then show ?thesis using perm_in_from[OF pi] Suc.prems(3,5) False by metis
  qed simp
  moreover have "desc l (j + 1 - 1) ys" "l < j + 1" "ir < length ys" "n = ir + 1 - (j + 1)"
    using ds j Suc.prems(3) Suc.hyps(2) perm_in_length[OF pi] by simp_all
  ultimately obtain zs where zs: "insertion_sort [j + 1..<ir + 1] ys = Some zs" "perm_in l ir ys zs" "desc l ir zs"
    using Suc.hyps(1)[of "j + 1" ys] Suc.prems(1) by blast
  have "insertion_sort [j..<ir + 1] xs = Some zs" unfolding up using Suc.prems(3) j m(1) zs(1) by simp
  then show ?case using zs perm_in_trans[OF pi zs(2)] by blast
qed

section \<open>The partition\<close>

text \<open>A sentinel behind \<open>i\<close>, or before \<open>j\<close>, stops a scan.\<close>

lemma scan_up_spec:
  "i < s \<Longrightarrow> s < length xs \<Longrightarrow> xs ! s \<le> a \<Longrightarrow>
   \<exists>k. scan_up a xs i = Some k \<and> i < k \<and> k \<le> s \<and> xs ! k \<le> a \<and> (\<forall>p. i < p \<and> p < k \<longrightarrow> a < xs ! p)"
proof (induction "s - i" arbitrary: i)
  case (Suc n)
  show ?case
  proof (cases "xs ! (i + 1) > a")
    case True
    then have "i + 1 < s" using Suc.prems by (cases "i + 1 = s") auto
    then obtain k where "scan_up a xs (i + 1) = Some k" "i + 1 < k" "k \<le> s" "xs ! k \<le> a" "\<forall>p. i + 1 < p \<and> p < k \<longrightarrow> a < xs ! p"
      using Suc.hyps(1)[of "i + 1", OF _ _ Suc.prems(2,3)] Suc.hyps(2) by fastforce
    moreover have "a < xs ! p" if "i < p" "p < k" for p using True calculation(5) that by (cases "p = i + 1") auto
    ultimately show ?thesis using True Suc.prems by (subst scan_up.simps) auto
  next
    case False
    then show ?thesis using Suc.prems by (subst scan_up.simps) auto
  qed
qed simp

lemma scan_down_spec:
  "s < j \<Longrightarrow> j \<le> length xs \<Longrightarrow> a \<le> xs ! s \<Longrightarrow>
   \<exists>k. scan_down a xs j = Some k \<and> k < j \<and> s \<le> k \<and> a \<le> xs ! k \<and> (\<forall>p. k < p \<and> p < j \<longrightarrow> xs ! p < a)"
proof (induction j)
  case (Suc j)
  show ?case
  proof (cases "xs ! j < a")
    case True
    then have "s < j" using Suc.prems by (cases "s = j") auto
    then obtain k where "scan_down a xs j = Some k" "k < j" "s \<le> k" "a \<le> xs ! k" "\<forall>p. k < p \<and> p < j \<longrightarrow> xs ! p < a"
      using Suc by auto
    then show ?thesis using True Suc.prems by (auto simp: less_Suc_eq)
  next
    case False
    then show ?thesis using Suc.prems by auto
  qed
qed simp

text \<open>
  The outcome of the partition of \<open>l..r\<close> around \<open>a\<close> in position \<open>l + 1\<close>: \<open>j < i\<close>, the values before \<open>i\<close> are
  not below \<open>a\<close> and the values behind \<open>j\<close> not above.
\<close>

definition partitioned :: "nat \<Rightarrow> nat \<Rightarrow> MDB_ID \<Rightarrow> MDB_ID list \<Rightarrow> nat \<Rightarrow> nat \<Rightarrow> MDB_ID list \<Rightarrow> bool" where
  "partitioned l r a xs i j ys \<longleftrightarrow> perm_in (l + 1) r xs ys \<and> ys ! (l + 1) = a \<and> l + 1 \<le> j \<and> j < i \<and> i \<le> r \<and>
     (\<forall>p. l + 1 \<le> p \<and> p < i \<longrightarrow> a \<le> ys ! p) \<and> (\<forall>p. j < p \<and> p \<le> r \<longrightarrow> ys ! p \<le> a)"

lemma partition_loop_spec:
  assumes "l + 1 \<le> i" "i = l + 1 \<and> j = r \<or> l + 2 \<le> i \<and> i \<le> j \<and> j < r" "l + 1 < r" "r < length xs" "xs ! (l + 1) = a"
    and "\<forall>p. l + 1 \<le> p \<and> p \<le> i \<longrightarrow> a \<le> xs ! p" "\<forall>p. j \<le> p \<and> p \<le> r \<longrightarrow> xs ! p \<le> a"
  shows "\<exists>i' j' ys. partition_loop a xs i j = Some (i', j', ys) \<and> partitioned l r a xs i' j' ys"
  using assms
proof (induction "r - i" arbitrary: i j xs rule: less_induct)
  case less
  note A = less.prems
  define su where "su = (if i < j then j else j + 1)"
  define sd where "sd = (if i < j then i else l + 1)"
  have su: "i < su" "su < length xs" "xs ! su \<le> a" "su \<le> r" using A by (auto simp: su_def)
  have sd: "sd < j" "j \<le> length xs" "a \<le> xs ! sd" "l + 1 \<le> sd" using A by (auto simp: sd_def)
  obtain k where k: "scan_up a xs i = Some k" "i < k" "k \<le> su" "xs ! k \<le> a" "\<forall>p. i < p \<and> p < k \<longrightarrow> a < xs ! p"
    using scan_up_spec[OF su(1-3)] by blast
  obtain m where m: "scan_down a xs j = Some m" "m < j" "sd \<le> m" "a \<le> xs ! m" "\<forall>p. m < p \<and> p < j \<longrightarrow> xs ! p < a"
    using scan_down_spec[OF sd(1-3)] by blast
  have left: "a \<le> xs ! p" if "l + 1 \<le> p" "p < k" for p using A(6) k(5) that by (cases "p \<le> i") (auto simp: less_imp_le)
  have right: "xs ! p \<le> a" if "m < p" "p \<le> r" for p using A(7) m(5) that by (cases "j \<le> p") (auto simp: less_imp_le)
  have kr: "k \<le> r" "k < length xs" "m < length xs" "l + 1 \<le> m" using k(3) su m(2,3) sd by auto
  show ?case
  proof (cases "m < k")
    case True
    then have "partition_loop a xs i j = Some (k, m, xs)" using k(1) m(1) by (subst partition_loop.simps) simp
    moreover have "partitioned l r a xs k m xs" using True kr left right A(5) by (auto simp: partitioned_def perm_in_refl)
    ultimately show ?thesis by blast
  next
    case False
    then have km: "k \<le> m" by simp
    define xs1 where "xs1 = xs[k := xs ! m, m := xs ! k]"
    have run: "partition_loop a xs i j = partition_loop a xs1 k m"
      using k(1) m(1) kr False by (subst partition_loop.simps) (simp add: xs1_def)
    have at: "xs1 ! p = (if p = m then xs ! k else if p = k then xs ! m else xs ! p)" for p
      using kr by (auto simp: xs1_def nth_list_update)
    have mr: "m < r" using m(2) A(2) by auto
    have k2: "l + 2 \<le> k" using k(2) A(1) by simp
    have pi: "perm_in (l + 1) r xs xs1" unfolding xs1_def by (rule perm_in_swap) (use kr k2 mr A(4) in auto)
    have "\<forall>p. l + 1 \<le> p \<and> p \<le> k \<longrightarrow> a \<le> xs1 ! p"
    proof (intro allI impI)
      fix p assume p: "l + 1 \<le> p \<and> p \<le> k"
      show "a \<le> xs1 ! p"
        using p km m(4) left[of p] by (cases "p = k") (auto simp: at)
    qed
    moreover have "\<forall>p. m \<le> p \<and> p \<le> r \<longrightarrow> xs1 ! p \<le> a"
    proof (intro allI impI)
      fix p assume p: "m \<le> p \<and> p \<le> r"
      show "xs1 ! p \<le> a" using p km k(4) right[of p] by (cases "p = m") (auto simp: at)
    qed
    moreover have "r - k < r - i" using k(2) kr by simp
    moreover have "xs1 ! (l + 1) = a" using k2 km A(5) by (simp add: at)
    moreover have "r < length xs1" using A(4) by (simp add: xs1_def)
    ultimately obtain i' j' ys where "partition_loop a xs1 k m = Some (i', j', ys)" "partitioned l r a xs1 i' j' ys"
      using less.hyps[of k m xs1] k2 km mr A(3) by auto
    then show ?thesis unfolding run using perm_in_trans[OF pi] by (auto simp: partitioned_def)
  qed
qed

section \<open>The pending parts\<close>

text \<open>
  What is out of order lies inside a pending part. The parts do not overlap.
\<close>

type_synonym part = "nat \<times> nat"

definition inside :: "nat \<Rightarrow> part \<Rightarrow> bool" where
  "inside p s \<longleftrightarrow> fst s \<le> p \<and> p \<le> snd s"

definition settled :: "nat \<Rightarrow> part list \<Rightarrow> MDB_ID list \<Rightarrow> bool" where
  "settled n ss xs \<longleftrightarrow> (\<forall>p q. 1 \<le> p \<and> p < q \<and> q \<le> n \<longrightarrow> xs ! q \<le> xs ! p \<or> (\<exists>s\<in>set ss. inside p s \<and> inside q s))"

definition apart :: "part \<Rightarrow> part \<Rightarrow> bool" where
  "apart s t \<longleftrightarrow> (\<forall>p. \<not> (inside p s \<and> inside p t))"

lemma settled_step:
  assumes st: "settled n ((l, r) # ss) xs" and p: "perm_in l r xs ys" and r: "1 \<le> l" "r \<le> n" "n < length xs"
    and ap: "\<forall>s\<in>set ss. apart (l, r) s"
    and new: "\<And>p q. l \<le> p \<Longrightarrow> p < q \<Longrightarrow> q \<le> r \<Longrightarrow> ys ! q \<le> ys ! p \<or> (\<exists>s\<in>set ts. inside p s \<and> inside q s)"
  shows "settled n (ts @ ss) ys"
  unfolding settled_def
proof (intro allI impI)
  fix u v assume uv: "1 \<le> u \<and> u < v \<and> v \<le> n"
  let ?in = "\<lambda>p. l \<le> p \<and> p \<le> r"
  have same: "ys ! w = xs ! w" if "\<not> ?in w" for w using p that by (auto simp: perm_in_def)
  have old: "xs ! b \<le> xs ! a \<or> (\<exists>s\<in>set ((l, r) # ss). inside a s \<and> inside b s)" if "1 \<le> a" "a < b" "b \<le> n" for a b
    using st that by (auto simp: settled_def)
  have none: "\<not> (\<exists>s\<in>set ((l, r) # ss). inside a s \<and> inside b s)" if "?in a \<noteq> ?in b" for a b
    using ap that by (auto simp: apart_def inside_def)
  show "ys ! v \<le> ys ! u \<or> (\<exists>s\<in>set (ts @ ss). inside u s \<and> inside v s)"
  proof (cases "?in u")
    case u: True
    show ?thesis
    proof (cases "?in v")
      case True
      then show ?thesis using new[of u v] u uv by auto
    next
      case v: False
      obtain u' where u': "?in u'" "ys ! u = xs ! u'" using perm_in_from[OF p] u r by fastforce
      have "u' < v" using u'(1) v u uv by auto
      then show ?thesis using old[of u' v] none[of u' v] u' v same[OF v] r uv by auto
    qed
  next
    case u: False
    show ?thesis
    proof (cases "?in v")
      case v: True
      obtain v' where v': "?in v'" "ys ! v = xs ! v'" using perm_in_from[OF p] v r by fastforce
      have "u < v'" using v'(1) v u uv by auto
      then show ?thesis using old[of u v'] none[of u v'] v' u same[OF u] r uv by auto
    next
      case False
      then show ?thesis using old[of u v] u uv same[of u] same[of v] by (auto simp: inside_def)
    qed
  qed
qed

text \<open>The pending parts as they lie on the stack, the last one on top.\<close>

definition stack_is :: "nat list \<Rightarrow> part list \<Rightarrow> bool" where
  "stack_is istack ss \<longleftrightarrow> length istack = 64 \<and> 2 * length ss < 64 \<and>
     (\<forall>k<length ss. istack ! (2 * k + 1) = fst (ss ! k) \<and> istack ! (2 * k + 2) = snd (ss ! k))"

lemma stack_push:
  assumes "stack_is istack ss" "2 * length ss + 2 < 64"
  shows "stack_is (istack[2 * length ss + 2 := r, 2 * length ss + 1 := l]) (ss @ [(l, r)])"
  using assms by (auto simp: stack_is_def nth_append nth_list_update less_Suc_eq)

lemma stack_pop:
  assumes "stack_is istack (ss @ [(l, r)])"
  shows "rd istack (2 * length ss + 2) = Some r" "rd istack (2 * length ss + 1) = Some l" "stack_is istack ss"
proof -
  have k: "length istack = 64" "2 * length ss + 2 < 64"
    "\<And>k. k < length (ss @ [(l, r)]) \<Longrightarrow> istack ! (2 * k + 1) = fst ((ss @ [(l, r)]) ! k) \<and> istack ! (2 * k + 2) = snd ((ss @ [(l, r)]) ! k)"
    using assms by (auto simp: stack_is_def)
  show "rd istack (2 * length ss + 2) = Some r" "rd istack (2 * length ss + 1) = Some l" using k(1,2) k(3)[of "length ss"] by simp_all
  show "stack_is istack ss" using k(1,2) k(3) by (auto simp: stack_is_def nth_append)
qed

section \<open>One round\<close>

lemma swap_if_less_spec:
  assumes "i < length xs" "j < length xs" "i \<noteq> j" "l \<le> i" "i \<le> r" "l \<le> j" "j \<le> r" "r < length xs"
  shows "\<exists>ys. swap_if_less xs i j = Some ys \<and> perm_in l r xs ys \<and> ys ! i = max (xs ! i) (xs ! j) \<and> ys ! j = min (xs ! i) (xs ! j) \<and>
    (\<forall>p. p \<noteq> i \<and> p \<noteq> j \<longrightarrow> ys ! p = xs ! p)"
proof (cases "xs ! i < xs ! j")
  case True
  then have "swap_if_less xs i j = Some (xs[i := xs ! j, j := xs ! i])" using assms by (simp add: swap_if_less_def)
  moreover have "perm_in l r xs (xs[i := xs ! j, j := xs ! i])" by (rule perm_in_swap) (use assms in auto)
  ultimately show ?thesis using True assms by (auto simp: nth_list_update max_def min_def)
next
  case False
  then show ?thesis using assms by (auto simp: swap_if_less_def perm_in_refl max_def min_def)
qed

lemma pick_median_spec:
  assumes "l + 2 \<le> r" "r < length xs"
  shows "\<exists>ys. pick_median l r xs = Some ys \<and> perm_in l r xs ys \<and> ys ! (l + 1) \<le> ys ! l \<and> ys ! r \<le> ys ! (l + 1)"
proof -
  let ?k = "drop_bit 1 (l + r)"
  have k: "l \<le> ?k" "?k \<le> r" using assms by (simp_all add: drop_bit_eq_div)
  define x0 where "x0 = xs[?k := xs ! (l + 1), l + 1 := xs ! ?k]"
  have s0: "MIDL_SWAP xs ?k (l + 1) = Some x0" using k assms by (simp add: x0_def)
  have p0: "perm_in l r xs x0" unfolding x0_def by (rule perm_in_swap) (use k assms in auto)
  have l0: "r < length x0" using assms by (simp add: x0_def)
  obtain x1 where x1: "swap_if_less x0 l r = Some x1" "perm_in l r x0 x1" "x1 ! l = max (x0 ! l) (x0 ! r)" "x1 ! r = min (x0 ! l) (x0 ! r)"
    using swap_if_less_spec[of l x0 r l r] assms l0 by auto
  have l1: "r < length x1" using l0 perm_in_length[OF x1(2)] by simp
  obtain x2 where x2: "swap_if_less x1 (l + 1) r = Some x2" "perm_in l r x1 x2" "x2 ! (l + 1) = max (x1 ! (l + 1)) (x1 ! r)"
    "x2 ! r = min (x1 ! (l + 1)) (x1 ! r)" "x2 ! l = x1 ! l"
    using swap_if_less_spec[of "l + 1" x1 r l r] assms l1 by auto
  have l2: "r < length x2" using l1 perm_in_length[OF x2(2)] by simp
  obtain x3 where x3: "swap_if_less x2 l (l + 1) = Some x3" "perm_in l r x2 x3" "x3 ! l = max (x2 ! l) (x2 ! (l + 1))"
    "x3 ! (l + 1) = min (x2 ! l) (x2 ! (l + 1))" "x3 ! r = x2 ! r"
    using swap_if_less_spec[of l x2 "l + 1" l r] assms l2 by auto
  have run: "pick_median l r xs = Some x3" using s0 x1(1) x2(1) x3(1) by (simp add: pick_median_def)
  have "perm_in l r xs x3" using perm_in_trans p0 x1(2) x2(2) x3(2) by blast
  moreover have "x1 ! r \<le> x1 ! l" unfolding x1(3,4) by (rule min.coboundedI1) simp
  then have "x2 ! r \<le> x2 ! l" "x2 ! r \<le> x2 ! (l + 1)" using x2(3-5) by (auto simp: min_le_iff_disj le_max_iff_disj)
  then have "x3 ! r \<le> x3 ! (l + 1)" "x3 ! (l + 1) \<le> x3 ! l" using x3(3-5) by (auto simp: min_le_iff_disj le_max_iff_disj)
  ultimately show ?thesis using run by blast
qed

text \<open>Choosing the pivot, partitioning and putting the pivot to its place.\<close>

lemma partition_spec:
  assumes l: "1 \<le> l" "l + 8 \<le> r" "r < length xs"
  shows "\<exists>x0 i j x1 x2. pick_median l r xs = Some x0 \<and> partition_loop (x0 ! (l + 1)) x0 (l + 1) r = Some (i, j, x1) \<and>
    l + 1 < length x0 \<and> j < length x1 \<and> l + 1 < length x1 \<and> x2 = x1[l + 1 := x1 ! j, j := x0 ! (l + 1)] \<and>
    l + 1 \<le> j \<and> j < i \<and> i \<le> r \<and> perm_in l r xs x2 \<and>
    (\<forall>p q. l \<le> p \<and> p < q \<and> q \<le> r \<longrightarrow> x2 ! q \<le> x2 ! p \<or> q \<le> j - 1 \<or> i \<le> p)"
proof -
  obtain x0 where x0: "pick_median l r xs = Some x0" "perm_in l r xs x0" "x0 ! (l + 1) \<le> x0 ! l" "x0 ! r \<le> x0 ! (l + 1)"
    using pick_median_spec[of l r xs] l by auto
  have len0: "length x0 = length xs" using perm_in_length[OF x0(2)] .
  let ?a = "x0 ! (l + 1)"
  have "\<forall>p. l + 1 \<le> p \<and> p \<le> l + 1 \<longrightarrow> ?a \<le> x0 ! p" "\<forall>p. r \<le> p \<and> p \<le> r \<longrightarrow> x0 ! p \<le> ?a"
    using x0(4) by (metis order_refl order_antisym, metis order_antisym)
  then obtain i j x1 where x1: "partition_loop ?a x0 (l + 1) r = Some (i, j, x1)" "partitioned l r ?a x0 i j x1"
    using partition_loop_spec[of l "l + 1" r r x0 ?a] l len0 by auto
  note P = x1(2)[unfolded partitioned_def]
  have len1: "length x1 = length xs" using P len0 perm_in_length by metis
  define x2 where "x2 = x1[l + 1 := x1 ! j, j := ?a]"
  have x2': "x2 = x1[l + 1 := x1 ! j, j := x1 ! (l + 1)]" using P by (simp add: x2_def)
  have ij: "l + 1 \<le> j" "j < i" "i \<le> r" using P by simp_all
  have "perm_in l r x1 x2" unfolding x2' by (rule perm_in_swap) (use ij len1 l in auto)
  moreover have "perm_in l r x0 x1" by (rule perm_in_mono[of "l + 1" r]) (use P in simp_all)
  ultimately have pi: "perm_in l r xs x2" using x0(2) perm_in_trans by blast
  have at: "x2 ! p = (if p = j then ?a else if p = l + 1 then x1 ! j else x1 ! p)" for p
    using ij len1 l by (auto simp: x2_def nth_list_update)
  have "x1 ! l = x0 ! l" using P by (simp add: perm_in_def)
  then have lo: "?a \<le> x2 ! p" if "l \<le> p" "p < i" for p
    using that P x0(3) ij by (cases "p = l") (auto simp: at)
  have hi: "x2 ! p \<le> ?a" if "j \<le> p" "p \<le> r" for p using that P ij by (auto simp: at)
  have "x2 ! q \<le> x2 ! p \<or> q \<le> j - 1 \<or> i \<le> p" if "l \<le> p" "p < q" "q \<le> r" for p q
    using lo[of p] hi[of q] that by (cases "i \<le> p"; cases "j \<le> q") (auto intro: order_trans)
  then show ?thesis
    by (intro exI[of _ x0] exI[of _ i] exI[of _ j] exI[of _ x1] exI[of _ x2]) (use x0(1) x1(1) len0 len1 l ij pi in \<open>auto simp: x2_def\<close>)
qed

section \<open>The loop\<close>

definition part_size :: "part \<Rightarrow> nat" where
  "part_size s = snd s + 1 - fst s"

text \<open>
  The current part and the parts on the stack: apart, inside the list, and each at most half as large as
  the part it came from, so that 31 of them are enough for a list that an \<open>int\<close> can index.
\<close>

definition pending :: "nat \<Rightarrow> part \<Rightarrow> part list \<Rightarrow> bool" where
  "pending n s ss \<longleftrightarrow> sorted_wrt apart (s # ss) \<and> (\<forall>t\<in>set (s # ss). 1 \<le> fst t \<and> snd t \<le> n) \<and>
     part_size s * 2 ^ length ss \<le> n \<and> (\<forall>k<length ss. part_size (ss ! k) * 2 ^ k \<le> n)"

definition todo :: "part list \<Rightarrow> nat" where
  "todo ss = (\<Sum>s\<leftarrow>ss. 2 * part_size s + 1)"

lemma apart_sym: "apart s t \<Longrightarrow> apart t s"
  by (auto simp: apart_def)

lemma settled_cong: "set ss = set ts \<Longrightarrow> settled n ss xs = settled n ts xs"
  by (simp add: settled_def)

lemma pending_pop:
  assumes "pending n s (ss @ [t])"
  shows "pending n t ss"
proof -
  have "part_size ((ss @ [t]) ! k) * 2 ^ k \<le> n" if "k \<le> length ss" for k using assms that by (auto simp: pending_def)
  then have "part_size t * 2 ^ length ss \<le> n" "\<forall>k<length ss. part_size (ss ! k) * 2 ^ k \<le> n"
    using nth_append_length[of ss t "[]"] by (metis order_refl, metis less_imp_le nth_append)
  then show ?thesis using assms by (auto simp: pending_def sorted_wrt_append intro: apart_sym)
qed

text \<open>Two parts of the current one that leave out a place in it: the smaller becomes current, the larger waits.\<close>

lemma pending_push:
  assumes p: "pending n (l, r) ss" and s: "l \<le> fst s" "snd s \<le> r" and t: "l \<le> fst t" "snd t \<le> r" and ap: "apart s t"
    and sz: "part_size s + part_size t < part_size (l, r)" "part_size s \<le> part_size t"
  shows "pending n s (ss @ [t])" "todo (s # ss @ [t]) < todo ((l, r) # ss)"
proof -
  have sub: "apart s u" "apart t u" if "apart (l, r) u" for u using that s t by (auto simp: apart_def inside_def)
  have "2 * part_size s * 2 ^ length ss \<le> part_size (l, r) * 2 ^ length ss" using sz by (intro mult_right_mono) auto
  moreover have "part_size s * 2 ^ length (ss @ [t]) = 2 * part_size s * 2 ^ length ss" by simp
  ultimately have s2: "part_size s * 2 ^ length (ss @ [t]) \<le> n" using p unfolding pending_def by linarith
  have "part_size t * 2 ^ length ss \<le> part_size (l, r) * 2 ^ length ss" using sz by (intro mult_right_mono) auto
  then have t2: "part_size t * 2 ^ length ss \<le> n" using p unfolding pending_def by linarith
  have "\<forall>k<length (ss @ [t]). part_size ((ss @ [t]) ! k) * 2 ^ k \<le> n"
    using p t2 by (auto simp: pending_def nth_append less_Suc_eq)
  moreover have "sorted_wrt apart (s # ss @ [t])"
    using p ap sub by (auto simp: pending_def sorted_wrt_append intro: apart_sym)
  moreover have "\<forall>u\<in>set (s # ss @ [t]). 1 \<le> fst u \<and> snd u \<le> n" using p s t by (auto simp: pending_def)
  ultimately show "pending n s (ss @ [t])" using s2 by (simp add: pending_def)
  show "todo (s # ss @ [t]) < todo ((l, r) # ss)" using sz by (simp add: todo_def)
qed

lemma pending_room:
  assumes p: "pending n (l, r) ss" and big: "l + 8 \<le> r" and n: "n < 2 ^ 31"
  shows "2 * length ss + 2 < 64"
proof -
  have "2 ^ length ss \<le> part_size (l, r) * 2 ^ length ss" using big by (simp add: part_size_def)
  then have "(2::nat) ^ length ss < 2 ^ 31" using p n unfolding pending_def by linarith
  then have "length ss < 31" by (rule power_less_imp_less_exp[rotated]) simp
  then show ?thesis by simp
qed

lemma sort_loop_spec:
  assumes "pending n (l, r) ss" "stack_is istack ss" "settled n ((l, r) # ss) xs" "n < length xs" "n < 2 ^ 31"
  shows "\<exists>ys. sort_loop istack (2 * length ss) l r xs = Some ys \<and> perm_in 1 n xs ys \<and> desc 1 n ys"
  using assms
proof (induction "todo ((l, r) # ss)" arbitrary: l r ss istack xs rule: less_induct)
  case less
  note P = less.prems(1)[unfolded pending_def]
  have lr: "1 \<le> l" "r \<le> n" "r < length xs" using P less.prems(4) by auto
  have ap: "\<forall>s\<in>set ss. apart (l, r) s" using P by simp
  note step = settled_step[OF less.prems(3) _ lr(1,2) less.prems(4) ap]
  show ?case
  proof (cases "r < l + SMALL")
    case True
    have "xs ! p \<le> xs ! (l - 1)" if "l \<noteq> 1" "l \<le> p" "p \<le> r" for p
    proof -
      have "xs ! p \<le> xs ! (l - 1) \<or> (\<exists>s\<in>set ((l, r) # ss). inside (l - 1) s \<and> inside p s)"
        by (rule less.prems(3)[unfolded settled_def, rule_format]) (use that lr in auto)
      then show ?thesis using ap that lr by (auto simp: apart_def inside_def)
    qed
    then have low: "l = 1 \<or> (\<forall>p. l \<le> p \<and> p \<le> r \<longrightarrow> xs ! p \<le> xs ! (l - 1))" by blast
    have one: "desc l (l + 1 - 1) xs" by (rule descI) simp
    obtain ys where ys: "insertion_sort [l + 1..<r + 1] xs = Some ys" "perm_in l r xs ys" "desc l r ys"
      using insertion_sort_spec[OF lr(1) _ lr(3) one low] by auto
    have len: "n < length ys" using perm_in_length[OF ys(2)] less.prems(4) by simp
    have st: "settled n ss ys" using step[OF ys(2), of "[]"] ys(3) by (auto simp: desc_def)
    have pi: "perm_in 1 n xs ys" by (rule perm_in_mono[OF ys(2)]) (use lr in auto)
    have run: "sort_loop istack (2 * length ss) l r xs = (if length ss = 0 then Some ys else do {
          ir \<leftarrow> rd istack (2 * length ss); l \<leftarrow> rd istack (2 * length ss - 1); sort_loop istack (2 * length ss - 2) l ir ys })"
      using True ys(1) by (subst sort_loop.simps) simp
    show ?thesis
    proof (cases ss rule: rev_cases)
      case Nil
      then have "desc 1 n ys" using st by (auto simp: settled_def desc_def)
      then show ?thesis using run pi Nil by simp
    next
      case (snoc ss' t)
      obtain l' r' where t: "t = (l', r')" by (cases t)
      note st' = stack_pop[OF less.prems(2)[unfolded snoc t]]
      have run': "sort_loop istack (2 * length ss) l r xs = sort_loop istack (2 * length ss') l' r' ys"
        unfolding run using st' snoc by simp
      have "pending n (l', r') ss'" using pending_pop less.prems(1) snoc t by blast
      moreover have "settled n ((l', r') # ss') ys" using st settled_cong[of ss "(l', r') # ss'"] snoc t by simp
      moreover have "todo ((l', r') # ss') < todo ((l, r) # ss)" using snoc t by (simp add: todo_def)
      ultimately obtain zs where "sort_loop istack (2 * length ss') l' r' ys = Some zs" "perm_in 1 n ys zs" "desc 1 n zs"
        using less.hyps st'(3) len less.prems(5) by blast
      then show ?thesis unfolding run' using perm_in_trans[OF pi] by blast
    qed
  next
    case False
    then have big: "l + 8 \<le> r" by (simp add: SMALL_def)
    obtain x0 i j x1 x2 where x: "pick_median l r xs = Some x0" "partition_loop (x0 ! (l + 1)) x0 (l + 1) r = Some (i, j, x1)"
      "l + 1 < length x0" "j < length x1" "l + 1 < length x1" "x2 = x1[l + 1 := x1 ! j, j := x0 ! (l + 1)]"
      "l + 1 \<le> j" "j < i" "i \<le> r" "perm_in l r xs x2"
      "\<forall>p q. l \<le> p \<and> p < q \<and> q \<le> r \<longrightarrow> x2 ! q \<le> x2 ! p \<or> q \<le> j - 1 \<or> i \<le> p"
      using partition_spec[OF lr(1) big lr(3)] by (elim exE conjE) (rule that)
    define a where "a = (l, j - 1)"
    define b where "b = (i, r)"
    have pi: "perm_in 1 n xs x2" by (rule perm_in_mono[OF x(10)]) (use lr in auto)
    have len: "n < length x2" using perm_in_length[OF x(10)] less.prems(4) by simp
    have new: "settled n ([a, b] @ ss) x2"
    proof (rule step[OF x(10)])
      fix p q assume pq: "l \<le> p" "p < q" "q \<le> r"
      then have "x2 ! q \<le> x2 ! p \<or> q \<le> j - 1 \<or> i \<le> p" using x(11) by blast
      then show "x2 ! q \<le> x2 ! p \<or> (\<exists>s\<in>set [a, b]. inside p s \<and> inside q s)"
        using pq by (auto simp: a_def b_def inside_def)
    qed
    have room: "2 * length ss + 2 < 64" by (rule pending_room[OF less.prems(1) big less.prems(5)])
    have ist: "2 * length ss + 2 < length istack" "2 * length ss + 1 < length istack" using room less.prems(2) by (auto simp: stack_is_def)
    have sz: "part_size a + part_size b < part_size (l, r)" using x(7-9) by (simp add: a_def b_def part_size_def)
    have apt: "apart a b" using x(8) by (auto simp: a_def b_def apart_def inside_def)
    let ?push = "\<lambda>t. istack[2 * length ss + 2 := snd t, 2 * length ss + 1 := fst t]"
    have run: "sort_loop istack (2 * length ss) l r xs =
        (if r + 1 + l \<ge> j + i then sort_loop (?push b) (2 * length (ss @ [b])) (fst a) (snd a) x2
         else sort_loop (?push a) (2 * length (ss @ [a])) (fst b) (snd b) x2)"
      using False x(1-6) ist by (subst sort_loop.simps) (simp add: a_def b_def)
    have go: "\<exists>ys. sort_loop (?push t) (2 * length (ss @ [t])) (fst s) (snd s) x2 = Some ys \<and> perm_in 1 n xs ys \<and> desc 1 n ys"
      if st: "s = a \<and> t = b \<or> s = b \<and> t = a" and le: "part_size s \<le> part_size t" for s t
    proof -
      have in_lr: "l \<le> fst s" "snd s \<le> r" "l \<le> fst t" "snd t \<le> r" using st x(7-9) by (auto simp: a_def b_def)
      have "apart s t" using st apt apart_sym by blast
      moreover have "part_size s + part_size t < part_size (l, r)" using st sz by auto
      ultimately have "pending n s (ss @ [t])" "todo (s # ss @ [t]) < todo ((l, r) # ss)"
        using pending_push[OF less.prems(1) in_lr _ _ le] by blast+
      moreover have "stack_is (?push t) (ss @ [t])" using stack_push[OF less.prems(2) room, of "snd t" "fst t"] by simp
      moreover have "settled n (s # ss @ [t]) x2" using new settled_cong[of "[a, b] @ ss" "s # ss @ [t]"] st by auto
      ultimately obtain ys where "sort_loop (?push t) (2 * length (ss @ [t])) (fst s) (snd s) x2 = Some ys" "perm_in 1 n x2 ys" "desc 1 n ys"
        using less.hyps[of "fst s" "snd s" "ss @ [t]" "?push t" x2] len less.prems(5) by auto
      then show ?thesis using perm_in_trans[OF pi] by blast
    qed
    show ?thesis
    proof (cases "r + 1 + l \<ge> j + i")
      case True
      then have "part_size a \<le> part_size b" using x(7-9) by (auto simp: a_def b_def part_size_def)
      then show ?thesis unfolding run if_P[OF True] by (intro go) auto
    next
      case False
      then have "part_size b \<le> part_size a" using x(7-9) by (auto simp: a_def b_def part_size_def)
      then show ?thesis unfolding run if_not_P[OF False] by (intro go) auto
    qed
  qed
qed

section \<open>Properties\<close>

text \<open>C32. Sorting an ID list ends, touches no cell outside the list and no place outside the stack of pending
  parts, and gives the same IDs in descending order. The list may hold duplicates; an \<open>int\<close> must be able to hold
  twice its length, as the code adds two positions.\<close>

theorem midl_sort_correct:
  assumes "idl_wf l" "idl_len l < 2 ^ 30" "length istack = 64"
  shows "\<exists>l'. mdb_midl_sort istack l = Some l' \<and> idl_wf l' \<and> alloclen l' = alloclen l \<and>
    mset (idl_elems l') = mset (idl_elems l) \<and> sorted_wrt (\<ge>) (idl_elems l')"
proof -
  let ?n = "idl_len l"
  have len: "?n < length (ids l)" "length (ids l) = alloclen l + 1" using assms(1) by (simp_all add: idl_wf_def)
  have "settled ?n [(1, ?n)] (ids l)" by (auto simp: settled_def inside_def)
  moreover have "pending ?n (1, ?n) []" by (simp add: pending_def part_size_def)
  moreover have "stack_is istack []" using assms(3) by (simp add: stack_is_def)
  ultimately obtain ys where ys: "sort_loop istack 0 1 ?n (ids l) = Some ys" "perm_in 1 ?n (ids l) ys" "desc 1 ?n ys"
    using sort_loop_spec[of ?n 1 ?n "[]" istack "ids l"] len assms(2) by auto
  define l' where "l' = l\<lparr>ids := ys\<rparr>"
  have eq: "length ys = length (ids l)" "ys ! 0 = ids l ! 0" using ys(2) perm_in_length[OF ys(2)] by (simp_all add: perm_in_def)
  then have n': "idl_len l' = ?n" by (simp add: l'_def idl_len_def)
  have wf: "idl_wf l'" using assms(1) n' eq(1) by (simp add: idl_wf_def l'_def)
  have split: "mset (ids m) = {#ids m ! 0#} + mset (idl_elems m) + mset (drop (idl_len m + 1) (ids m))" if "idl_wf m" for m
  proof -
    have "ids m = ids m ! 0 # tl (ids m)" using that by (cases "ids m") (simp_all add: idl_wf_def)
    then have "ids m = ids m ! 0 # idl_elems m @ drop (idl_len m) (tl (ids m))" by (simp add: idl_elems_def)
    then show ?thesis by (metis (no_types) add_mset_add_single drop_Suc mset.simps(2) mset_append Suc_eq_plus1 add.commute union_mset_add_mset_left)
  qed
  have "drop (?n + 1) ys = drop (?n + 1) (ids l)"
    by (rule nth_equalityI) (use ys(2) eq in \<open>auto simp: perm_in_def\<close>)
  then have ms: "mset (idl_elems l') = mset (idl_elems l)"
    using split[OF wf] split[OF assms(1)] ys(2) eq n' by (simp add: perm_in_def l'_def)
  have "sorted_wrt (\<ge>) (idl_elems l')"
    unfolding sorted_wrt_iff_nth_less using wf ys(3) n' by (auto simp: length_idl_elems nth_idl_elems desc_def l'_def)
  then show ?thesis using ys(1) wf ms by (auto simp: mdb_midl_sort_def l'_def)
qed

theorem midl_sort_correct_witness:
  "\<exists>l'. mdb_midl_sort (replicate 64 0) \<lparr>alloclen = 12, ids = [11, 3, 9, 3, 1, 7, 12, 5, 8, 2, 10, 4, 6]\<rparr> = Some l' \<and> idl_wf l' \<and>
    alloclen l' = 12 \<and> mset (idl_elems l') = {#1, 2, 3, 3, 4, 5, 7, 8, 9, 10, 12#} \<and> sorted_wrt (\<ge>) (idl_elems l')"
  using midl_sort_correct[of "\<lparr>alloclen = 12, ids = [11, 3, 9, 3, 1, 7, 12, 5, 8, 2, 10, 4, 6]\<rparr>" "replicate 64 0"]
  by (simp add: idl_wf_def idl_len_def idl_elems_def add_mset_commute)

end
