(* ===== verification/Page_Alloc.thy ===== *)
theory Page_Alloc
  imports Midl_Merge Txn_Pages
begin

text \<open>
  Allocating pages (\<open>mdb_page_alloc\<close>) from the pages that earlier transactions freed, with \<open>mdb_find_oldest\<close>,
  \<open>mdb_page_dirty\<close> and \<open>mdb_page_loose\<close>: which freed pages may be used again while readers still look at old
  snapshots, and that no page is given away twice.
\<close>

section \<open>State\<close>

text \<open>\<open>mr_pid\<close> is zero in a free slot of the reader table.\<close>

record MDB_reader =
  mr_pid :: nat
  mr_txnid :: u64

text \<open>
  \<open>ae_free\<close> is what a cursor of the free database reads from its first record on: the ID of the transaction
  that freed the pages and the list of them, \<open>Err\<close> where \<open>mdb_cursor_get\<close>, or then \<open>mdb_node_read\<close>, fails.
  \<open>ae_malloc\<close> is \<open>mdb_page_malloc\<close>, the address of so many new pages.
\<close>

record alloc_env =
  ae_readers :: "MDB_reader list option"
  ae_free :: "(u64 \<times> MDB_IDL res) res list"
  ae_maxpg :: nat
  ae_writemap :: bool
  ae_malloc :: "nat \<Rightarrow> nat option"
  ae_ok :: bool
  ae_junk :: MDB_ID

text \<open>The list of loose pages has the addresses and numbers of the pages.\<close>

record alloc_state =
  al_txn :: MDB_txn
  al_txnid :: u64
  al_room :: nat
  al_loose :: "(nat \<times> nat) list"
  al_loose_count :: nat
  al_free_pgs :: MDB_IDL
  me_pghead :: "MDB_IDL option"
  me_pglast :: u64
  me_pgoldest :: u64

definition al_dirty :: "alloc_state \<Rightarrow> MDB_ID2L" where
  "al_dirty st = mt_dirty_list (hd (mt_levels (al_txn st)))"

definition set_dirty :: "MDB_ID2L \<Rightarrow> MDB_txn \<Rightarrow> MDB_txn" where
  "set_dirty dl txn = txn\<lparr>mt_levels := (hd (mt_levels txn))\<lparr>mt_dirty_list := dl\<rparr> # tl (mt_levels txn)\<rparr>"

section \<open>The operations\<close>

definition mdb_find_oldest :: "u64 \<Rightarrow> MDB_reader list option \<Rightarrow> u64" where
  "mdb_find_oldest txnid readers =
     (case readers of
        None \<Rightarrow> txnid - 1
      | Some rs \<Rightarrow> foldl (\<lambda>oldest r. if mr_pid r \<noteq> 0 \<and> oldest > mr_txnid r then mr_txnid r else oldest) (txnid - 1) (rev rs))"

definition mdb_page_dirty :: "bool \<Rightarrow> nat \<Rightarrow> nat \<Rightarrow> alloc_state \<Rightarrow> alloc_state \<times> unit res" where
  "mdb_page_dirty writemap addr pgno st =
     (let e = \<lparr>mid = word_of_nat pgno, mptr = addr\<rparr>;
          (rc, dl) = (if writemap then mdb_mid2l_append (al_dirty st) e else mdb_mid2l_insert (al_dirty st) e)
      in if rc \<noteq> 0 then (st, Abort)
         else (st\<lparr>al_txn := set_dirty dl (al_txn st), al_room := al_room st - 1\<rparr>, Ok ()))"

text \<open>Seeking a contiguous range, from the tail of the list on; \<open>n2\<close> is one less than the number of pages.\<close>

fun find_run :: "MDB_ID list \<Rightarrow> nat \<Rightarrow> nat \<Rightarrow> nat option" where
  "find_run mop n2 0 = None"
| "find_run mop n2 (Suc i) =
     (if mop ! (Suc i - n2) = mop ! Suc i + word_of_nat n2 then Some (Suc i)
      else if i > n2 then find_run mop n2 i else None)"

text \<open>\<open>if (!found_old) \<dots>\<close>: looking at the readers once.\<close>

definition refresh_oldest :: "alloc_env \<Rightarrow> u64 \<Rightarrow> alloc_state \<times> u64 \<times> bool \<Rightarrow> alloc_state \<times> u64 \<times> bool" where
  "refresh_oldest ae lastid = (\<lambda>(st, oldest, found_old).
     if oldest \<le> lastid \<and> \<not> found_old
     then let oldest = mdb_find_oldest (al_txnid st) (ae_readers ae) in (st\<lparr>me_pgoldest := oldest\<rparr>, oldest, True)
     else (st, oldest, found_old))"

definition mop_len :: "alloc_state \<Rightarrow> nat" where
  "mop_len st = (case me_pghead st of Some mop \<Rightarrow> idl_len mop | None \<Rightarrow> 0)"

text \<open>Merging the list of a record into \<open>me_pghead\<close>.\<close>

definition take_record :: "alloc_env \<Rightarrow> u64 \<Rightarrow> MDB_IDL \<Rightarrow> alloc_state \<Rightarrow> alloc_state \<times> unit res" where
  "take_record ae lastid idl st =
     (case (case me_pghead st of
          None \<Rightarrow> (case mdb_midl_alloc (ae_ok ae) (ae_junk ae) (idl_len idl) of None \<Rightarrow> Err ENOMEM | Some mop \<Rightarrow> Ok mop)
        | Some mop \<Rightarrow> mdb_midl_need (ae_ok ae) (ae_junk ae) mop (idl_len idl)) of
        Err e \<Rightarrow> (st, Err e)
      | Abort \<Rightarrow> (st, Abort)
      | Ok mop \<Rightarrow>
          let st = st\<lparr>me_pghead := Some mop, me_pglast := lastid\<rparr> in
          (case mdb_midl_xmerge mop idl of None \<Rightarrow> (st, Abort) | Some mop \<Rightarrow> (st\<lparr>me_pghead := Some mop\<rparr>, Ok ())))"

text \<open>
  The loop over the records: the result is the index of a range, or \<open>None\<close> when new pages of the map have to be used.
  The list is checked when it can hold a range and \<open>retry\<close> counts the checks.
\<close>

function alloc_loop ::
    "alloc_env \<Rightarrow> nat \<Rightarrow> (u64 \<times> MDB_IDL res) res list \<Rightarrow> int \<Rightarrow> u64 \<Rightarrow> bool \<Rightarrow> u64 \<Rightarrow> alloc_state \<Rightarrow> alloc_state \<times> nat option res" where
  "alloc_loop ae n2 recs retry oldest found_old lastid st =
     (let search = mop_len st > n2 in
      case (if search then find_run (ids (the (me_pghead st))) n2 (mop_len st) else None) of
        Some i \<Rightarrow> (st, Ok (Some i))
      | None \<Rightarrow>
          let retry = (if search then retry - 1 else retry) in
          if search \<and> retry < 0 then (st, Ok None)
          else case refresh_oldest ae (lastid + 1) (st, oldest, found_old) of (st, oldest, found_old) \<Rightarrow>
            if oldest \<le> lastid + 1 then (st, Ok None)
            else case recs of
              [] \<Rightarrow> (st, Ok None)
            | r # recs \<Rightarrow>
              (case r of
                Err e \<Rightarrow> (st, Err e)
              | Abort \<Rightarrow> (st, Abort)
              | Ok (lastid, data) \<Rightarrow>
                  (case refresh_oldest ae lastid (st, oldest, found_old) of (st, oldest, found_old) \<Rightarrow>
                    if oldest \<le> lastid then (st, Ok None)
                    else case data of
                      Err e \<Rightarrow> (st, Err e)
                    | Abort \<Rightarrow> (st, Abort)
                    | Ok idl \<Rightarrow>
                        (case take_record ae lastid idl st of
                          (st, Ok _) \<Rightarrow> alloc_loop ae n2 recs retry oldest found_old lastid st
                        | (st, Err e) \<Rightarrow> (st, Err e)
                        | (st, Abort) \<Rightarrow> (st, Abort)))))"
  by pat_completeness auto
termination by (relation "measure (\<lambda>(ae, n2, recs, _). length recs)") auto

declare alloc_loop.simps [simp del]

text \<open>Where the cursor of the free database starts: \<open>MDB_FIRST\<close>, or \<open>MDB_SET_RANGE\<close> behind the last record used.\<close>

definition start_records :: "u64 \<Rightarrow> (u64 \<times> MDB_IDL res) res list \<Rightarrow> (u64 \<times> MDB_IDL res) res list" where
  "start_records lastid recs =
     (if lastid = 0 then recs else dropWhile (\<lambda>r. case r of Ok (k, _) \<Rightarrow> k < lastid + 1 | _ \<Rightarrow> False) recs)"

text \<open>\<open>for (j = i-num; j < mop_len; ) mop[++j] = mop[++i];\<close>, \<open>k\<close> times.\<close>

fun move_down :: "MDB_ID list \<Rightarrow> nat \<Rightarrow> nat \<Rightarrow> nat \<Rightarrow> MDB_ID list" where
  "move_down mop j i 0 = mop"
| "move_down mop j i (Suc k) = move_down (mop[Suc j := mop ! Suc i]) (Suc j) (Suc i) k"

definition take_run :: "nat \<Rightarrow> nat \<Rightarrow> MDB_IDL \<Rightarrow> MDB_IDL" where
  "take_run num i mop =
     (let n = idl_len mop - num in mop\<lparr>ids := move_down ((ids mop)[0 := word_of_nat n]) (i - num) i (n - (i - num))\<rparr>)"

definition alloc_fail :: "rc \<Rightarrow> alloc_state \<Rightarrow> alloc_state \<times> 'a res" where
  "alloc_fail e st = (st\<lparr>al_txn := mdb_txn_mark_error (al_txn st) e\<rparr>, Err e)"

text \<open>The part after \<open>search_done\<close>; the result is the address and the number of the first page.\<close>

definition alloc_done :: "alloc_env \<Rightarrow> nat \<Rightarrow> nat option \<Rightarrow> nat \<Rightarrow> alloc_state \<Rightarrow> alloc_state \<times> (nat \<times> nat) res" where
  "alloc_done ae num i pgno st =
     (case (if ae_writemap ae then Some (me_map (al_txn st) + me_page_size (al_txn st) * pgno) else ae_malloc ae num) of
        None \<Rightarrow> alloc_fail ENOMEM st
      | Some np \<Rightarrow>
          let st = (case i of
                Some i \<Rightarrow> st\<lparr>me_pghead := Some (take_run num i (the (me_pghead st)))\<rparr>
              | None \<Rightarrow> st\<lparr>al_txn := (al_txn st)\<lparr>mt_next_pgno := pgno + num\<rparr>\<rparr>)
          in (case mdb_page_dirty (ae_writemap ae) np pgno st of
                (st, Ok _) \<Rightarrow> (st, Ok (np, pgno))
              | (st, Err e) \<Rightarrow> (st, Err e)
              | (st, Abort) \<Rightarrow> (st, Abort)))"

definition mdb_page_alloc :: "alloc_env \<Rightarrow> nat \<Rightarrow> alloc_state \<Rightarrow> alloc_state \<times> (nat \<times> nat) res" where
  "mdb_page_alloc ae num st =
     (if num = 1 \<and> al_loose st \<noteq> []
      then (st\<lparr>al_loose := tl (al_loose st), al_loose_count := al_loose_count st - 1\<rparr>, Ok (hd (al_loose st)))
      else if al_room st = 0 then alloc_fail MDB_TXN_FULL st
      else case alloc_loop ae (num - 1) (start_records (me_pglast st) (ae_free ae)) (int num * 60) (me_pgoldest st)
          (me_pgoldest st = al_txnid st - 1) (me_pglast st) st of
        (st, Err e) \<Rightarrow> alloc_fail e st
      | (st, Abort) \<Rightarrow> (st, Abort)
      | (st, Ok (Some i)) \<Rightarrow> alloc_done ae num (Some i) (unat (ids (the (me_pghead st)) ! i)) st
      | (st, Ok None) \<Rightarrow>
          let pgno = mt_next_pgno (al_txn st) in
          if pgno + num \<ge> ae_maxpg ae then alloc_fail MDB_MAP_FULL st
          else alloc_done ae num None pgno st)"

text \<open>
  Giving up a page: a page that this transaction has dirtied becomes loose, any other is freed. \<open>free_db\<close> tells that the
  cursor is of the free database, \<open>nested\<close> that the transaction has a parent. A page of a nested transaction at another
  address than on the dirty list is an error; the cursor's flags are not modelled.
\<close>

definition mdb_page_loose :: "alloc_env \<Rightarrow> bool \<Rightarrow> bool \<Rightarrow> nat \<Rightarrow> nat \<Rightarrow> bool \<Rightarrow> alloc_state \<Rightarrow> alloc_state \<times> unit res" where
  "mdb_page_loose ae free_db nested addr pgno dirty st =
     (let dl = al_dirty st; x = mdb_mid2l_search dl (word_of_nat pgno);
          listed = (id2l_len dl \<noteq> 0 \<and> x \<le> id2l_len dl \<and> mid (dl ! x) = word_of_nat pgno)
      in if dirty \<and> \<not> free_db \<and> nested \<and> listed \<and> mptr (dl ! x) \<noteq> addr then alloc_fail MDB_PROBLEM st
         else if dirty \<and> \<not> free_db \<and> (nested \<longrightarrow> listed)
         then (st\<lparr>al_loose := (addr, pgno) # al_loose st, al_loose_count := al_loose_count st + 1\<rparr>, Ok ())
         else (case mdb_midl_append (ae_ok ae) (ae_junk ae) (al_free_pgs st) (word_of_nat pgno) of
             Ok l \<Rightarrow> (st\<lparr>al_free_pgs := l\<rparr>, Ok ())
           | Err e \<Rightarrow> (st, Err e)
           | Abort \<Rightarrow> (st, Abort)))"

section \<open>The oldest reader\<close>

lemma foldl_oldest:
  fixes rs :: "MDB_reader list"
  defines "f \<equiv> \<lambda>oldest r. if mr_pid r \<noteq> 0 \<and> oldest > mr_txnid r then mr_txnid r else oldest"
  shows "foldl f t rs \<le> t" "r \<in> set rs \<Longrightarrow> mr_pid r \<noteq> 0 \<Longrightarrow> foldl f t rs \<le> mr_txnid r"
    "foldl f t rs = t \<or> (\<exists>r\<in>set rs. mr_pid r \<noteq> 0 \<and> foldl f t rs = mr_txnid r)"
proof -
  have le: "foldl f t rs \<le> t" for t rs
  proof (induction rs arbitrary: t)
    case (Cons a rs)
    have "f t a \<le> t" by (auto simp: f_def)
    then show ?case using Cons[of "f t a"] by simp
  qed simp
  show "foldl f t rs \<le> t" by (rule le)
  show "foldl f t rs \<le> mr_txnid r" if "r \<in> set rs" "mr_pid r \<noteq> 0"
    using that
  proof (induction rs arbitrary: t)
    case (Cons a rs)
    show ?case
    proof (cases "a = r")
      case True
      have "f t r \<le> mr_txnid r" using Cons.prems(2) by (auto simp: f_def)
      then show ?thesis using le[of "f t r" rs] True by simp
    qed (use Cons in auto)
  qed simp
  show "foldl f t rs = t \<or> (\<exists>r\<in>set rs. mr_pid r \<noteq> 0 \<and> foldl f t rs = mr_txnid r)"
  proof (induction rs arbitrary: t)
    case (Cons a rs)
    then show ?case using Cons[of "f t a"] by (auto simp: f_def)
  qed simp
qed

section \<open>Contiguous ranges\<close>

lemma find_run_spec:
  "n2 < i \<Longrightarrow> find_run mop n2 i = Some k \<Longrightarrow> n2 < k \<and> k \<le> i \<and> mop ! (k - n2) = mop ! k + word_of_nat n2"
proof (induction i)
  case (Suc i)
  then show ?case by (auto split: if_splits)
qed simp

text \<open>The numbers of a range, as they lie in a descending list.\<close>

definition run_pages :: "nat \<Rightarrow> nat \<Rightarrow> MDB_ID list" where
  "run_pages pgno num = map word_of_nat (rev [pgno..<pgno + num])"

lemma desc_distance:
  assumes d: "idl_desc l" and k: "j < k" "k \<le> idl_len l"
  shows "unat (ids l ! k) + j \<le> unat (ids l ! (k - j))"
  using k(1)
proof (induction j)
  case (Suc j)
  have "ids l ! (k - j) < ids l ! (k - Suc j)" by (rule idl_desc_nth[OF d]) (use Suc.prems k in auto)
  then show ?case using Suc by (simp add: word_less_nat_alt)
qed simp

lemma run_contiguous:
  assumes d: "idl_desc l" and k: "n2 < k" "k \<le> idl_len l" and n2: "n2 < 2 ^ 63" and eq: "ids l ! (k - n2) = ids l ! k + word_of_nat n2"
  shows "take (n2 + 1) (drop (k - (n2 + 1)) (idl_elems l)) = run_pages (unat (ids l ! k)) (n2 + 1)"
    "unat (ids l ! k) + n2 < 2 ^ 64"
proof -
  have wf: "idl_wf l" using d by (simp add: idl_desc_def)
  have u: "unat (ids l ! (k - n2)) = (unat (ids l ! k) + n2) mod 2 ^ 64"
    using eq n2 by (simp add: unat_word_ariths unat_of_nat mod_add_right_eq)
  have "unat (ids l ! k) + n2 \<le> unat (ids l ! (k - n2))" by (rule desc_distance[OF d k])
  then have top: "unat (ids l ! (k - n2)) = unat (ids l ! k) + n2" using u mod_less_eq_dividend[of "unat (ids l ! k) + n2" "2 ^ 64"] by linarith
  have "unat (ids l ! (k - n2)) < 2 ^ 64" by (rule order_less_le_trans[OF unsigned_less]) simp
  then show "unat (ids l ! k) + n2 < 2 ^ 64" using top by simp
  have at: "unat (ids l ! (k - j)) = unat (ids l ! k) + j" if "j \<le> n2" for j
  proof -
    have "unat (ids l ! k) + j \<le> unat (ids l ! (k - j))" by (rule desc_distance[OF d]) (use that k in auto)
    moreover have "unat (ids l ! (k - j)) + (n2 - j) \<le> unat (ids l ! (k - j - (n2 - j)))" by (rule desc_distance[OF d]) (use that k in auto)
    moreover have "k - j - (n2 - j) = k - n2" using that by simp
    ultimately show ?thesis using top that by simp
  qed
  show "take (n2 + 1) (drop (k - (n2 + 1)) (idl_elems l)) = run_pages (unat (ids l ! k)) (n2 + 1)"
  proof (rule nth_equalityI)
    show "length (take (n2 + 1) (drop (k - (n2 + 1)) (idl_elems l))) = length (run_pages (unat (ids l ! k)) (n2 + 1))"
      using k by (simp add: length_idl_elems[OF wf] run_pages_def)
    fix j assume "j < length (take (n2 + 1) (drop (k - (n2 + 1)) (idl_elems l)))"
    then have j: "j \<le> n2" by simp
    have "k - (n2 + 1) + j + 1 = k - (n2 - j)" using j k by simp
    moreover have "take (n2 + 1) (drop (k - (n2 + 1)) (idl_elems l)) ! j = idl_elems l ! (k - (n2 + 1) + j)"
      using j k by (simp add: length_idl_elems[OF wf])
    moreover have "idl_elems l ! (k - (n2 + 1) + j) = ids l ! (k - (n2 + 1) + j + 1)" using j k by (intro nth_idl_elems[OF wf]) simp
    ultimately have "take (n2 + 1) (drop (k - (n2 + 1)) (idl_elems l)) ! j = ids l ! (k - (n2 - j))" by (simp only:)
    also have "\<dots> = word_of_nat (unat (ids l ! (k - (n2 - j))))" by simp
    also have "\<dots> = word_of_nat (unat (ids l ! k) + (n2 - j))" using at[of "n2 - j"] by simp
    also have "\<dots> = run_pages (unat (ids l ! k)) (n2 + 1) ! j" using j by (simp add: run_pages_def rev_nth Suc_diff_le del: upt_Suc)
    finally show "take (n2 + 1) (drop (k - (n2 + 1)) (idl_elems l)) ! j = run_pages (unat (ids l ! k)) (n2 + 1) ! j" .
  qed
qed

lemma move_down_spec:
  "j \<le> i \<Longrightarrow> i + k < length mop \<Longrightarrow> length (move_down mop j i k) = length mop \<and>
    (\<forall>p. move_down mop j i k ! p = (if j < p \<and> p \<le> j + k then mop ! (p + (i - j)) else mop ! p))"
proof (induction k arbitrary: mop i j)
  case (Suc k)
  let ?m = "mop[Suc j := mop ! Suc i]"
  have at: "?m ! p = (if p = Suc j then mop ! Suc i else mop ! p)" for p using Suc.prems by (simp add: nth_list_update)
  have "length (move_down ?m (Suc j) (Suc i) k) = length ?m \<and>
    (\<forall>p. move_down ?m (Suc j) (Suc i) k ! p = (if Suc j < p \<and> p \<le> Suc j + k then ?m ! (p + (Suc i - Suc j)) else ?m ! p))"
    by (rule Suc.IH) (use Suc.prems in auto)
  then show ?case using Suc.prems(1) by (auto simp: at)
qed simp

lemma take_run_spec:
  assumes wf: "idl_wf l" and i: "num \<le> i" "i \<le> idl_len l"
  shows "idl_elems (take_run num i l) = take (i - num) (idl_elems l) @ drop i (idl_elems l)" "idl_wf (take_run num i l)"
    "alloclen (take_run num i l) = alloclen l"
proof -
  let ?n = "idl_len l - num" and ?l = "take_run num i l"
  let ?m = "(ids l)[0 := word_of_nat ?n]"
  have len: "length (ids l) = alloclen l + 1" "idl_len l \<le> alloclen l" "alloclen l < 2 ^ 32" using wf by (simp_all add: idl_wf_def)
  have ids: "ids ?l = move_down ?m (i - num) i (?n - (i - num))" by (simp add: take_run_def Let_def)
  have b: "i - num \<le> i" "i + (?n - (i - num)) < length ?m" using i len by auto
  note M = move_down_spec[OF b]
  have at: "ids ?l ! p = (if p = 0 then word_of_nat ?n else if p \<le> i - num then ids l ! p else ids l ! (p + num))" if "p \<le> ?n" for p
    using M i that len unfolding ids by (auto simp: nth_list_update)
  have n: "idl_len ?l = ?n" using at[of 0] len by (simp add: idl_len_def unat_of_nat)
  show al: "alloclen ?l = alloclen l" by (simp add: take_run_def Let_def)
  show wf': "idl_wf ?l" using M n al len by (simp add: idl_wf_def ids)
  show "idl_elems ?l = take (i - num) (idl_elems l) @ drop i (idl_elems l)"
  proof (rule nth_equalityI)
    show "length (idl_elems ?l) = length (take (i - num) (idl_elems l) @ drop i (idl_elems l))"
      using i by (simp add: length_idl_elems[OF wf] length_idl_elems[OF wf'] n)
    fix p assume "p < length (idl_elems ?l)"
    then have p: "p < ?n" by (simp add: length_idl_elems[OF wf'] n)
    show "idl_elems ?l ! p = (take (i - num) (idl_elems l) @ drop i (idl_elems l)) ! p"
      using p i at[of "Suc p"] by (auto simp: nth_append length_idl_elems[OF wf] nth_idl_elems[OF wf] nth_idl_elems[OF wf'] n)
  qed
qed

section \<open>Fetching records\<close>

definition avail :: "alloc_state \<Rightarrow> MDB_ID list" where
  "avail st = (case me_pghead st of Some mop \<Rightarrow> idl_elems mop | None \<Rightarrow> [])"

definition pages_of :: "(u64 \<times> MDB_IDL res) res \<Rightarrow> MDB_ID list" where
  "pages_of r = (case r of Ok (_, Ok l) \<Rightarrow> idl_elems l | _ \<Rightarrow> [])"

text \<open>
  The pages in hand and in the records are different and not too many, lists are descending, and reading a
  record can fail but not abort.
\<close>

definition pool_ok :: "alloc_state \<Rightarrow> (u64 \<times> MDB_IDL res) res list \<Rightarrow> bool" where
  "pool_ok st recs \<longleftrightarrow> (\<forall>mop. me_pghead st = Some mop \<longrightarrow> idl_desc mop \<and> alloclen mop \<le> 2 ^ 31) \<and>
     distinct (avail st @ concat (map pages_of recs)) \<and> length (avail st @ concat (map pages_of recs)) \<le> 2 ^ 30 \<and>
     (\<forall>r\<in>set recs. r \<noteq> Abort \<and> (\<forall>k d. r = Ok (k, d) \<longrightarrow> d \<noteq> Abort \<and> (\<forall>l. d = Ok l \<longrightarrow> idl_desc l)))"

lemma desc_iff: "idl_desc l \<longleftrightarrow> idl_wf l \<and> sorted (rev (idl_elems l)) \<and> distinct (idl_elems l)"
  using strict_sorted_iff[of "rev (idl_elems l)"] by (auto simp: idl_desc_def sorted_wrt_rev)

definition need_size :: "nat \<Rightarrow> nat" where
  "need_size n = (let num1 = n mod 2 ^ 32 in (num1 + num1 div 4 + (256 + 2)) mod 2 ^ 32 div 256 * 256)"

lemma need_size_le: "need_size n \<le> n + n div 4 + 258"
proof -
  let ?m = "n mod 2 ^ 32"
  have "need_size n \<le> (?m + ?m div 4 + 258) mod 2 ^ 32" by (simp add: need_size_def Let_def div_times_less_eq_dividend)
  also have "\<dots> \<le> ?m + ?m div 4 + 258" by (rule mod_less_eq_dividend)
  also have "\<dots> \<le> n + n div 4 + 258" by (intro add_mono div_le_mono mod_less_eq_dividend order_refl)
  finally show ?thesis .
qed

lemma need_alloclen: "mdb_midl_need ok junk l n = Ok l' \<Longrightarrow> alloclen l' = alloclen l \<or> alloclen l' = need_size (n + idl_len l) - 2"
proof -
  assume r: "mdb_midl_need ok junk l n = Ok l'"
  define m where "m = (n + idl_len l) mod 2 ^ 32"
  define k where "k = need_size (n + idl_len l)"
  have "mdb_midl_need ok junk l n = (if m > alloclen l then if \<not> ok then Err ENOMEM
      else Ok \<lparr>alloclen = k - 2, ids = take (k - 1) (ids l @ replicate (k - 1 - length (ids l)) junk)\<rparr> else Ok l)"
    unfolding mdb_midl_need_def k_def need_size_def m_def Let_def ..
  then show ?thesis using r unfolding k_def[symmetric] by (cases "m > alloclen l"; cases ok) auto
qed

lemma take_record_spec:
  assumes p: "pool_ok st (Ok (k, Ok idl) # recs)"
  shows "take_record ae lastid idl st = (st, Err ENOMEM) \<and> \<not> ae_ok ae \<or>
    (\<exists>mop. take_record ae lastid idl st = (st\<lparr>me_pghead := Some mop, me_pglast := lastid\<rparr>, Ok ()) \<and>
      pool_ok (st\<lparr>me_pghead := Some mop, me_pglast := lastid\<rparr>) recs \<and> mset (idl_elems mop) = mset (avail st) + mset (idl_elems idl))"
proof -
  have d: "idl_desc idl" and dis: "distinct (avail st @ idl_elems idl @ concat (map pages_of recs))"
    and len: "length (avail st) + length (idl_elems idl) + length (concat (map pages_of recs)) \<le> 2 ^ 30"
    using p by (auto simp: pool_ok_def pages_of_def)
  have li: "length (idl_elems idl) = idl_len idl" using d by (simp add: idl_desc_def length_idl_elems)
  define m where "m = (case me_pghead st of
          None \<Rightarrow> (case mdb_midl_alloc (ae_ok ae) (ae_junk ae) (idl_len idl) of None \<Rightarrow> Err ENOMEM | Some mop \<Rightarrow> Ok mop)
        | Some mop \<Rightarrow> mdb_midl_need (ae_ok ae) (ae_junk ae) mop (idl_len idl))"
  have m: "m = Err ENOMEM \<and> \<not> ae_ok ae \<or>
      (\<exists>mop. m = Ok mop \<and> idl_wf mop \<and> idl_elems mop = avail st \<and> idl_len mop + idl_len idl \<le> alloclen mop \<and> alloclen mop \<le> 2 ^ 31)"
  proof (cases "me_pghead st")
    case None
    show ?thesis
    proof (cases "ae_ok ae")
      case True
      have "idl_wf \<lparr>alloclen = idl_len idl, ids = 0 # replicate (idl_len idl) (ae_junk ae)\<rparr>"
        using len li by (simp add: idl_wf_def idl_len_def)
      then show ?thesis using True None len li by (simp add: m_def mdb_midl_alloc_def avail_def idl_elems_def idl_len_def)
    qed (simp add: m_def None mdb_midl_alloc_def)
  next
    case (Some mop)
    have mop: "idl_wf mop" "alloclen mop \<le> 2 ^ 31" using p Some by (auto simp: pool_ok_def idl_desc_def)
    have lm: "idl_len mop + idl_len idl \<le> 2 ^ 30" using len li length_idl_elems[OF mop(1)] Some by (simp add: avail_def)
    show ?thesis
    proof (cases m)
      case (Ok mop')
      then have need: "mdb_midl_need (ae_ok ae) (ae_junk ae) mop (idl_len idl) = Ok mop'" using Some by (simp add: m_def)
      have b: "5 * (idl_len idl + alloclen mop) div 4 + 258 < 2 ^ 32" using lm mop(2) by simp
      have al: "alloclen mop' \<le> 2 ^ 31"
      proof -
        define num2 where "num2 = need_size (idl_len idl + idl_len mop)"
        have "num2 \<le> (idl_len idl + idl_len mop) + (idl_len idl + idl_len mop) div 4 + 258"
          unfolding num2_def by (rule need_size_le)
        moreover have "(idl_len idl + idl_len mop) div 4 \<le> 2 ^ 30 div 4" by (rule div_le_mono) (use lm in simp)
        ultimately have "num2 - 2 \<le> 2 ^ 31" using lm by simp
        then show ?thesis using need_alloclen[OF need] mop(2) unfolding num2_def by auto
      qed
      have n: "idl_wf mop'" "idl_elems mop' = idl_elems mop" "idl_len mop + idl_len idl \<le> alloclen mop'"
        using need_Ok[OF need mop(1) b] by simp_all
      have "idl_len mop' = idl_len mop" using length_idl_elems[OF n(1)] length_idl_elems[OF mop(1)] n(2) by simp
      then show ?thesis using Ok Some al n by (simp add: avail_def)
    next
      case (Err e)
      then show ?thesis using Some by (auto simp: m_def mdb_midl_need_def Let_def split: if_splits)
    next
      case Abort
      then show ?thesis using Some by (auto simp: m_def mdb_midl_need_def Let_def split: if_splits)
    qed
  qed
  from m show ?thesis
  proof (elim disjE exE conjE)
    assume "m = Err ENOMEM" "\<not> ae_ok ae"
    then show ?thesis unfolding take_record_def m_def[symmetric] by simp
  next
    fix mop assume a: "m = Ok mop" "idl_wf mop" "idl_elems mop = avail st" "idl_len mop + idl_len idl \<le> alloclen mop" "alloclen mop \<le> 2 ^ 31"
    have "sorted (rev (avail st))" using p by (auto simp: pool_ok_def avail_def desc_iff split: option.splits)
    moreover obtain r where r: "mdb_midl_xmerge mop idl = Some r" "idl_wf r" "idl_elems r = rev (rmerge (rev (idl_elems mop)) (rev (idl_elems idl)))"
      using xmerge_Some[OF a(2) _ a(4)] d by (auto simp: idl_desc_def)
    ultimately have s: "sorted (rev (idl_elems r))" using d by (simp add: a(3) sorted_rmerge desc_iff)
    have ms: "mset (idl_elems r) = mset (avail st) + mset (idl_elems idl)" by (simp add: r(3) a(3))
    have "distinct (idl_elems r)" using dis ms by (metis distinct_append append_assoc mset_append mset_eq_imp_distinct_iff)
    then have dr: "idl_desc r" using r(2) s by (simp add: desc_iff)
    have al: "alloclen r = alloclen mop" using r(1) by (auto simp: mdb_midl_xmerge_def Let_def)
    have sr: "set (idl_elems r) = set (avail st) \<union> set (idl_elems idl)" "length (idl_elems r) = length (avail st) + length (idl_elems idl)"
      using arg_cong[OF ms, of set_mset] arg_cong[OF ms, of size] by simp_all
    have "pool_ok (st\<lparr>me_pghead := Some r, me_pglast := lastid\<rparr>) recs"
      using p dis len dr al a(5) sr by (auto simp: pool_ok_def avail_def desc_iff[of r])
    moreover have "take_record ae lastid idl st = (st\<lparr>me_pghead := Some r, me_pglast := lastid\<rparr>, Ok ())"
      unfolding take_record_def m_def[symmetric] by (simp add: a(1) r(1))
    ultimately show ?thesis using ms by blast
  qed
qed

text \<open>
  The outcome of the loop, with the records \<open>used\<close>: they lie at the front of \<open>recs\<close>, are older than the oldest reader, and
  their pages and no others are added to those in hand.
\<close>

definition used_pages :: "(u64 \<times> MDB_IDL) list \<Rightarrow> MDB_ID list" where
  "used_pages used = concat (map (\<lambda>(k, l). idl_elems l) used)"

definition fetched :: "alloc_env \<Rightarrow> (u64 \<times> MDB_IDL res) res list \<Rightarrow> alloc_state \<Rightarrow> (u64 \<times> MDB_IDL) list \<Rightarrow> alloc_state \<Rightarrow> bool" where
  "fetched ae recs st used st' \<longleftrightarrow>
     (\<exists>rest. recs = map (\<lambda>(k, l). Ok (k, Ok l)) used @ rest \<and> pool_ok st' rest) \<and>
     (\<forall>(k, l)\<in>set used. k < mdb_find_oldest (al_txnid st) (ae_readers ae)) \<and>
     mset (avail st') = mset (avail st) + mset (used_pages used) \<and>
     me_pgoldest st' \<le> mdb_find_oldest (al_txnid st) (ae_readers ae) \<and>
     me_pglast st' = (if used = [] then me_pglast st else fst (last used)) \<and>
     (\<exists>mop g. st' = st\<lparr>me_pghead := mop, me_pglast := me_pglast st', me_pgoldest := g\<rparr>)"

lemma refresh_oldest_spec:
  assumes "oldest \<le> mdb_find_oldest (al_txnid st) (ae_readers ae)" "me_pgoldest st \<le> mdb_find_oldest (al_txnid st) (ae_readers ae)"
  shows "\<exists>g o' f. refresh_oldest ae k (st, oldest, found) = (st\<lparr>me_pgoldest := g\<rparr>, o', f) \<and>
    g \<le> mdb_find_oldest (al_txnid st) (ae_readers ae) \<and> o' \<le> mdb_find_oldest (al_txnid st) (ae_readers ae)"
proof -
  have "st = st\<lparr>me_pgoldest := me_pgoldest st\<rparr>" by simp
  then show ?thesis using assms by (auto simp: refresh_oldest_def Let_def intro: exI[of _ "me_pgoldest st"])
qed

lemma pool_ok_oldest [simp]: "pool_ok (st\<lparr>me_pgoldest := g\<rparr>) recs = pool_ok st recs" "avail (st\<lparr>me_pgoldest := g\<rparr>) = avail st"
  "mop_len (st\<lparr>me_pgoldest := g\<rparr>) = mop_len st"
  by (simp_all add: pool_ok_def avail_def mop_len_def)

lemma fetched_none:
  assumes "pool_ok st recs" "g \<le> mdb_find_oldest (al_txnid st) (ae_readers ae)"
  shows "fetched ae recs st [] (st\<lparr>me_pgoldest := g\<rparr>)"
proof -
  have "\<exists>mop h. st\<lparr>me_pgoldest := g\<rparr> = st\<lparr>me_pghead := mop, me_pglast := me_pglast st, me_pgoldest := h\<rparr>"
    by (intro exI[of _ "me_pghead st"] exI[of _ g]) simp
  then show ?thesis using assms by (simp add: fetched_def used_pages_def)
qed

lemma fetched_step:
  assumes f: "fetched ae recs (st\<lparr>me_pghead := Some mop, me_pglast := k, me_pgoldest := g\<rparr>) used st'"
    and k: "k < mdb_find_oldest (al_txnid st) (ae_readers ae)" and m: "mset (idl_elems mop) = mset (avail st) + mset (idl_elems l)"
  shows "fetched ae (Ok (k, Ok l) # recs) st ((k, l) # used) st'"
proof -
  obtain mop' g' where st': "st' = st\<lparr>me_pghead := mop', me_pglast := me_pglast st', me_pgoldest := g'\<rparr>"
    using f by (auto simp: fetched_def)
  have av: "avail (st\<lparr>me_pghead := Some mop, me_pglast := k, me_pgoldest := g\<rparr>) = idl_elems mop" by (simp add: avail_def)
  show ?thesis unfolding fetched_def
  proof (intro conjI)
    show "\<exists>mop g. st' = st\<lparr>me_pghead := mop, me_pglast := me_pglast st', me_pgoldest := g\<rparr>" using st' by blast
    show "mset (avail st') = mset (avail st) + mset (used_pages ((k, l) # used))"
      using f m av by (simp add: fetched_def used_pages_def)
  qed (use f k in \<open>auto simp: fetched_def\<close>)
qed

lemma alloc_loop_spec:
  assumes "pool_ok st recs" "oldest \<le> mdb_find_oldest (al_txnid st) (ae_readers ae)" "me_pgoldest st \<le> mdb_find_oldest (al_txnid st) (ae_readers ae)"
  shows "\<exists>st' r used. alloc_loop ae n2 recs retry oldest found lst st = (st', r) \<and> fetched ae recs st used st' \<and> r \<noteq> Abort \<and>
    (\<forall>i. r \<noteq> Ok (Some i) \<or> n2 < i \<and> (\<exists>mop. me_pghead st' = Some mop \<and> i \<le> idl_len mop \<and> ids mop ! (i - n2) = ids mop ! i + word_of_nat n2))"
  using assms
proof (induction "length recs" arbitrary: recs retry oldest found lst st rule: less_induct)
  case less
  let ?old = "mdb_find_oldest (al_txnid st) (ae_readers ae)"
  let ?run = "alloc_loop ae n2 recs retry oldest found lst st"
  have stop: ?case if "?run = (st\<lparr>me_pgoldest := g\<rparr>, r)" "g \<le> ?old" "r = Ok None \<or> (\<exists>e. r = Err e)" for g r
    using that fetched_none[OF less.prems(1) that(2)] by (intro exI[of _ "st\<lparr>me_pgoldest := g\<rparr>"] exI[of _ r] exI[of _ "[]"]) auto
  have same: "st\<lparr>me_pgoldest := me_pgoldest st\<rparr> = st" by simp
  define search where "search \<longleftrightarrow> mop_len st > n2"
  define hit where "hit = (if search then find_run (ids (the (me_pghead st))) n2 (mop_len st) else None)"
  define retry' where "retry' = (if search then retry - 1 else retry)"
  note unfold = alloc_loop.simps[of ae n2 recs retry oldest found lst st, unfolded Let_def, folded search_def, folded hit_def retry'_def]
  show ?case
  proof (cases hit)
    case (Some i)
    then have s: search "find_run (ids (the (me_pghead st))) n2 (mop_len st) = Some i" by (auto simp: hit_def split: if_splits)
    then obtain mop where mop: "me_pghead st = Some mop" "mop_len st = idl_len mop" by (auto simp: search_def mop_len_def split: option.splits)
    have "n2 < i \<and> i \<le> idl_len mop \<and> ids mop ! (i - n2) = ids mop ! i + word_of_nat n2"
      using find_run_spec[OF _ s(2)] s(1) mop by (simp add: search_def)
    moreover have "?run = (st, Ok (Some i))" using unfold Some by simp
    moreover have "fetched ae recs st [] st" using fetched_none[OF less.prems(1,3)] same by simp
    ultimately show ?thesis using mop(1) by (intro exI[of _ st] exI[of _ "Ok (Some i)"] exI[of _ "[]"]) auto
  next
    case None
    show ?thesis
    proof (cases "search \<and> retry' < 0")
      case True
      then show ?thesis using unfold None same less.prems(3) by (intro stop[of "me_pgoldest st" "Ok None"]) simp_all
    next
      case False
      obtain g o1 f1 where R1: "refresh_oldest ae (lst + 1) (st, oldest, found) = (st\<lparr>me_pgoldest := g\<rparr>, o1, f1)" "g \<le> ?old" "o1 \<le> ?old"
        using refresh_oldest_spec[OF less.prems(2,3)] by metis
      note unfold1 = unfold[unfolded None option.case if_not_P[OF False] R1(1) prod.case]
      show ?thesis
      proof (cases "o1 \<le> lst + 1")
        case True
        then show ?thesis using unfold1 R1(2) by (intro stop[of g "Ok None"]) simp_all
      next
        case o1: False
        show ?thesis
        proof (cases recs)
          case Nil
          then show ?thesis using unfold1 o1 R1(2) by (intro stop[of g "Ok None"]) simp_all
        next
          case (Cons r recs')
          note unfold2 = unfold1[unfolded if_not_P[OF o1] Cons list.case]
          show ?thesis
          proof (cases r)
            case (Err e)
            then show ?thesis using unfold2 R1(2) Cons by (intro stop[of g "Err e"]) simp_all
          next
            case Abort
            then show ?thesis using less.prems(1) Cons by (simp add: pool_ok_def)
          next
            case (Ok x)
            obtain k d where x: "x = (k, d)" by (cases x)
            have "g \<le> mdb_find_oldest (al_txnid (st\<lparr>me_pgoldest := g\<rparr>)) (ae_readers ae)" "o1 \<le> mdb_find_oldest (al_txnid (st\<lparr>me_pgoldest := g\<rparr>)) (ae_readers ae)"
              using R1 by simp_all
            then obtain g2 o2 f2 where R2: "refresh_oldest ae k (st\<lparr>me_pgoldest := g\<rparr>, o1, f1) = (st\<lparr>me_pgoldest := g2\<rparr>, o2, f2)" "g2 \<le> ?old" "o2 \<le> ?old"
              using refresh_oldest_spec[of o1 "st\<lparr>me_pgoldest := g\<rparr>" ae k f1] by auto
            note unfold3 = unfold2[unfolded Ok x res.case prod.case R2(1)]
            show ?thesis
            proof (cases "o2 \<le> k")
              case True
              then show ?thesis using unfold3 R2(2) Cons Ok x by (intro stop[of g2 "Ok None"]) simp_all
            next
              case o2: False
              note unfold4 = unfold3[unfolded if_not_P[OF o2]]
              show ?thesis
              proof (cases d)
                case (Err e)
                then show ?thesis using unfold4 R2(2) Cons Ok x by (intro stop[of g2 "Err e"]) simp_all
              next
                case Abort
                then show ?thesis using less.prems(1) Cons Ok x by (auto simp: pool_ok_def)
              next
                case dOk: (Ok idl)
                let ?st2 = "st\<lparr>me_pgoldest := g2\<rparr>"
                have "pool_ok ?st2 (Ok (k, Ok idl) # recs')" using less.prems(1) Cons Ok x dOk by simp
                from take_record_spec[OF this, of ae k] show ?thesis
                proof (elim disjE exE conjE)
                  assume "take_record ae k idl ?st2 = (?st2, Err ENOMEM)"
                  then show ?thesis using unfold4 R2(2) Cons Ok x dOk by (intro stop[of g2 "Err ENOMEM"]) simp_all
                next
                  fix mop assume T: "take_record ae k idl ?st2 = (?st2\<lparr>me_pghead := Some mop, me_pglast := k\<rparr>, Ok ())"
                    "pool_ok (?st2\<lparr>me_pghead := Some mop, me_pglast := k\<rparr>) recs'" "mset (idl_elems mop) = mset (avail ?st2) + mset (idl_elems idl)"
                  define st3 where "st3 = ?st2\<lparr>me_pghead := Some mop, me_pglast := k\<rparr>"
                  have e3: "st3 = st\<lparr>me_pghead := Some mop, me_pglast := k, me_pgoldest := g2\<rparr>" by (simp add: st3_def)
                  have run: "?run = alloc_loop ae n2 recs' retry' o2 f2 k st3"
                    using unfold4 Cons Ok x dOk T(1) by (simp add: st3_def)
                  have "length recs' < length recs" using Cons by simp
                  from less.hyps[OF this, of st3 o2 retry' f2 k]
                  obtain st' r' used where I: "alloc_loop ae n2 recs' retry' o2 f2 k st3 = (st', r')" "fetched ae recs' st3 used st'" "r' \<noteq> Abort"
                    "\<forall>i. r' \<noteq> Ok (Some i) \<or> n2 < i \<and> (\<exists>mop. me_pghead st' = Some mop \<and> i \<le> idl_len mop \<and> ids mop ! (i - n2) = ids mop ! i + word_of_nat n2)"
                    using T(2) R2(2,3) unfolding st3_def[symmetric] by (auto simp: e3)
                  have "k < ?old" using o2 R2(3) by simp
                  from fetched_step[OF I(2)[unfolded e3] this] have "fetched ae recs st ((k, idl) # used) st'"
                    using T(3) Cons Ok x dOk by simp
                  then show ?thesis unfolding run using I by blast
                qed
              qed
            qed
          qed
        qed
      qed
    qed
  qed
qed

section \<open>An allocation\<close>

text \<open>
  What a caller sees to: the pool is in order, the cached boundary is no later than the oldest reader, and no page
  in the pool or beyond the end of the map is on the dirty list, which has room as counted.
\<close>

definition alloc_ok :: "alloc_env \<Rightarrow> nat \<Rightarrow> alloc_state \<Rightarrow> bool" where
  "alloc_ok ae num st \<longleftrightarrow>
     (let recs = start_records (me_pglast st) (ae_free ae) in
      0 < num \<and> num < 2 ^ 31 \<and> \<not> ae_writemap ae \<and> mt_levels (al_txn st) \<noteq> [] \<and> id2l_sorted (al_dirty st) \<and>
      al_room st + id2l_len (al_dirty st) \<le> MDB_IDL_UM_MAX \<and> pool_ok st recs \<and>
      me_pgoldest st \<le> mdb_find_oldest (al_txnid st) (ae_readers ae) \<and> mt_next_pgno (al_txn st) + num < 2 ^ 64 \<and>
      (\<forall>p\<in>set (avail st @ concat (map pages_of recs)). unat p < mt_next_pgno (al_txn st) \<and> id2l_map (al_dirty st) p = None) \<and>
      id2l_map (al_dirty st) (word_of_nat (mt_next_pgno (al_txn st))) = None)"

text \<open>
  A successful allocation of the pages from \<open>pgno\<close> on at the address \<open>np\<close>: they leave the pages in hand, or are new pages
  of the map, and the first is on the dirty list.
\<close>

definition allocated :: "alloc_env \<Rightarrow> nat \<Rightarrow> alloc_state \<Rightarrow> (u64 \<times> MDB_IDL) list \<Rightarrow> alloc_state \<Rightarrow> nat \<Rightarrow> nat \<Rightarrow> bool" where
  "allocated ae num st used st' np pgno \<longleftrightarrow>
     (mt_next_pgno (al_txn st') = mt_next_pgno (al_txn st) \<and>
        mset (avail st') + mset (run_pages pgno num) = mset (avail st) + mset (used_pages used) \<or>
      pgno = mt_next_pgno (al_txn st) \<and> mt_next_pgno (al_txn st') = pgno + num \<and> pgno + num < ae_maxpg ae \<and>
        mset (avail st') = mset (avail st) + mset (used_pages used)) \<and>
     ae_malloc ae num = Some np \<and> id2l_sorted (al_dirty st') \<and>
     id2l_map (al_dirty st') = (id2l_map (al_dirty st))(word_of_nat pgno \<mapsto> np) \<and> al_room st' + 1 = al_room st \<and>
     (\<exists>dl n. al_txn st' = (set_dirty dl (al_txn st))\<lparr>mt_next_pgno := n\<rparr>)"

definition alloc_outcome :: "alloc_env \<Rightarrow> nat \<Rightarrow> alloc_state \<Rightarrow> (u64 \<times> MDB_IDL) list \<Rightarrow> alloc_state \<times> (nat \<times> nat) res \<Rightarrow> bool" where
  "alloc_outcome ae num st used res \<longleftrightarrow>
     (\<forall>(k, l)\<in>set used. k < mdb_find_oldest (al_txnid st) (ae_readers ae)) \<and>
     (\<exists>rest. start_records (me_pglast st) (ae_free ae) = map (\<lambda>(k, l). Ok (k, Ok l)) used @ rest) \<and>
     (case snd res of
        Ok (np, pgno) \<Rightarrow> allocated ae num st used (fst res) np pgno
      | Err e \<Rightarrow> mt_error (al_txn (fst res)) \<and> mset (avail (fst res)) = mset (avail st) + mset (used_pages used) \<and>
          al_dirty (fst res) = al_dirty st \<and> mt_next_pgno (al_txn (fst res)) = mt_next_pgno (al_txn st)
      | Abort \<Rightarrow> False)"

lemma avail_txn [simp]: "avail (st\<lparr>al_txn := t\<rparr>) = avail st" "avail (st\<lparr>al_txn := t, al_room := n\<rparr>) = avail st"
  by (simp_all add: avail_def)

lemma al_dirty_set [simp]: "al_dirty (st\<lparr>al_txn := set_dirty dl t, al_room := n\<rparr>) = dl"
  by (simp add: al_dirty_def set_dirty_def)

lemma page_dirty_spec:
  assumes d: "id2l_sorted (al_dirty st)" "id2l_map (al_dirty st) (word_of_nat pgno) = None"
    and room: "0 < al_room st" "al_room st + id2l_len (al_dirty st) \<le> MDB_IDL_UM_MAX"
  shows "\<exists>dl. mdb_page_dirty False np pgno st = (st\<lparr>al_txn := set_dirty dl (al_txn st), al_room := al_room st - 1\<rparr>, Ok ()) \<and>
    id2l_sorted dl \<and> id2l_map dl = (id2l_map (al_dirty st))(word_of_nat pgno \<mapsto> np)"
  using insert_map[OF d(1), of "\<lparr>mid = word_of_nat pgno, mptr = np\<rparr>"] d(2) room by (auto simp: mdb_page_dirty_def Let_def)

lemma alloc_fail_outcome:
  assumes "fetched ae (start_records (me_pglast st) (ae_free ae)) st used st1"
  shows "alloc_outcome ae num st used (alloc_fail e st1)"
  using assms by (auto simp: alloc_outcome_def alloc_fail_def fetched_def mdb_txn_mark_error_def al_dirty_def)

lemma alloc_done_outcome:
  assumes ok: "alloc_ok ae num st" and f: "fetched ae (start_records (me_pglast st) (ae_free ae)) st used st1" and room: "0 < al_room st"
    and i: "case i of
        Some i \<Rightarrow> \<exists>mop. me_pghead st1 = Some mop \<and> pgno = unat (ids mop ! i) \<and> num - 1 < i \<and> i \<le> idl_len mop \<and> ids mop ! (i - (num - 1)) = ids mop ! i + word_of_nat (num - 1)
      | None \<Rightarrow> pgno = mt_next_pgno (al_txn st) \<and> pgno + num < ae_maxpg ae"
  shows "alloc_outcome ae num st used (alloc_done ae num i pgno st1)"
proof (cases "ae_malloc ae num")
  case None
  then show ?thesis using alloc_fail_outcome[OF f] ok by (simp add: alloc_done_def alloc_ok_def Let_def)
next
  case (Some np)
  note O = ok[unfolded alloc_ok_def Let_def]
  note F = f[unfolded fetched_def]
  obtain mp0 g where st1: "st1 = st\<lparr>me_pghead := mp0, me_pglast := me_pglast st1, me_pgoldest := g\<rparr>" using F by blast
  have same: "al_txn st1 = al_txn st" "al_room st1 = al_room st" "al_txnid st1 = al_txnid st" by (subst st1; simp)+
  have av1: "mset (avail st1) = mset (avail st) + mset (used_pages used)" using F by blast
  obtain rest where rest: "start_records (me_pglast st) (ae_free ae) = map (\<lambda>(k, l). Ok (k, Ok l)) used @ rest" "pool_ok st1 rest" using F by blast
  have up: "set (used_pages used) \<subseteq> set (concat (map pages_of (start_records (me_pglast st) (ae_free ae))))"
    unfolding rest(1) by (auto simp: used_pages_def pages_of_def)
  have av_ok: "id2l_map (al_dirty st) p = None" if "p \<in> set (avail st1)" for p
  proof -
    have "set (avail st1) = set (avail st) \<union> set (used_pages used)" using arg_cong[OF av1, of set_mset] by simp
    then show ?thesis using that up O by auto
  qed
  define st2 where "st2 = (case i of
                Some i \<Rightarrow> st1\<lparr>me_pghead := Some (take_run num i (the (me_pghead st1)))\<rparr>
              | None \<Rightarrow> st1\<lparr>al_txn := (al_txn st1)\<lparr>mt_next_pgno := pgno + num\<rparr>\<rparr>)"
  have d2: "al_dirty st2 = al_dirty st" "al_room st2 = al_room st" using same by (simp_all add: st2_def al_dirty_def split: option.split)
  have key: "id2l_map (al_dirty st) (word_of_nat pgno) = None \<and>
      (mt_next_pgno (al_txn st2) = mt_next_pgno (al_txn st) \<and> mset (avail st2) + mset (run_pages pgno num) = mset (avail st) + mset (used_pages used) \<or>
       pgno = mt_next_pgno (al_txn st) \<and> mt_next_pgno (al_txn st2) = pgno + num \<and> pgno + num < ae_maxpg ae \<and>
        mset (avail st2) = mset (avail st) + mset (used_pages used))"
  proof (cases i)
    case None
    then show ?thesis using i O av1 by (simp add: st2_def)
  next
    case (Some j)
    then obtain mop where j: "me_pghead st1 = Some mop" "pgno = unat (ids mop ! j)" "num - 1 < j" "j \<le> idl_len mop"
      "ids mop ! (j - (num - 1)) = ids mop ! j + word_of_nat (num - 1)" using i by auto
    have d: "idl_desc mop" using rest(2) j(1) by (simp add: pool_ok_def)
    then have wf: "idl_wf mop" by (simp add: idl_desc_def)
    have num: "num - 1 + 1 = num" "num - 1 < 2 ^ 63" "num \<le> j" using O j(3) by auto
    have run: "take num (drop (j - num) (idl_elems mop)) = run_pages pgno num"
      using run_contiguous(1)[OF d j(3,4) num(2) j(5)] num(1) j(2) by simp
    have st2: "st2 = st1\<lparr>me_pghead := Some (take_run num j mop)\<rparr>" using Some j(1) by (simp add: st2_def)
    have e: "idl_elems mop = take (j - num) (idl_elems mop) @ run_pages pgno num @ drop j (idl_elems mop)"
    proof -
      have "drop num (drop (j - num) (idl_elems mop)) = drop j (idl_elems mop)" using num(3) by simp
      then show ?thesis using run by (metis append_take_drop_id)
    qed
    have a2: "avail st2 = take (j - num) (idl_elems mop) @ drop j (idl_elems mop)"
      using take_run_spec(1)[OF wf num(3) j(4)] by (simp add: st2 avail_def)
    have a1: "avail st1 = idl_elems mop" using j(1) by (simp add: avail_def)
    have m: "mset (avail st2) + mset (run_pages pgno num) = mset (avail st) + mset (used_pages used)"
      using arg_cong[OF e, of mset] av1 a1 a2 by (simp add: union_ac)
    have "word_of_nat pgno \<in> set (run_pages pgno num)" using O by (auto simp: run_pages_def)
    then have "word_of_nat pgno \<in> set (avail st1)" unfolding a1 by (subst e) simp
    then show ?thesis using m av_ok same by (simp add: st2)
  qed
  obtain dl where dl: "mdb_page_dirty False np pgno st2 = (st2\<lparr>al_txn := set_dirty dl (al_txn st2), al_room := al_room st2 - 1\<rparr>, Ok ())"
    "id2l_sorted dl" "id2l_map dl = (id2l_map (al_dirty st2))(word_of_nat pgno \<mapsto> np)"
    using page_dirty_spec[of st2 pgno np] key d2 O room by auto
  have run: "alloc_done ae num i pgno st1 = (st2\<lparr>al_txn := set_dirty dl (al_txn st2), al_room := al_room st2 - 1\<rparr>, Ok (np, pgno))"
    using Some dl(1) O unfolding alloc_done_def st2_def[symmetric] Let_def by simp
  have "allocated ae num st used (st2\<lparr>al_txn := set_dirty dl (al_txn st2), al_room := al_room st2 - 1\<rparr>) np pgno"
  proof -
    have "\<exists>n. al_txn st2 = (al_txn st)\<lparr>mt_next_pgno := n\<rparr>"
    proof (cases i)
      case None
      then show ?thesis using same by (auto simp: st2_def)
    next
      case (Some j)
      then have "al_txn st2 = (al_txn st)\<lparr>mt_next_pgno := mt_next_pgno (al_txn st)\<rparr>" using same by (simp add: st2_def)
      then show ?thesis ..
    qed
    then obtain n where n: "al_txn st2 = (al_txn st)\<lparr>mt_next_pgno := n\<rparr>" ..
    have "\<exists>n. set_dirty dl (al_txn st2) = (set_dirty dl (al_txn st))\<lparr>mt_next_pgno := n\<rparr>"
      by (rule exI[of _ n]) (simp add: set_dirty_def n)
    then show ?thesis using key dl(2,3) d2 Some room by (auto simp: allocated_def set_dirty_def al_dirty_def)
  qed
  then show ?thesis unfolding run alloc_outcome_def using F rest(1) by auto
qed

lemma page_alloc_spec:
  assumes ok: "alloc_ok ae num st" and loose: "num = 1 \<Longrightarrow> al_loose st = []"
  shows "\<exists>used. alloc_outcome ae num st used (mdb_page_alloc ae num st)"
proof -
  note O = ok[unfolded alloc_ok_def Let_def]
  let ?recs = "start_records (me_pglast st) (ae_free ae)"
  have nl: "\<not> (num = 1 \<and> al_loose st \<noteq> [])" using loose by blast
  show ?thesis
  proof (cases "al_room st = 0")
    case True
    have "fetched ae ?recs st [] st" using fetched_none[of st ?recs "me_pgoldest st" ae] O by simp
    from alloc_fail_outcome[OF this] show ?thesis using True nl by (auto simp: mdb_page_alloc_def)
  next
    case False
    obtain st1 r used where L: "alloc_loop ae (num - 1) ?recs (int num * 60) (me_pgoldest st) (me_pgoldest st = al_txnid st - 1) (me_pglast st) st = (st1, r)"
      "fetched ae ?recs st used st1" "r \<noteq> Abort"
      "\<forall>i. r \<noteq> Ok (Some i) \<or> num - 1 < i \<and> (\<exists>mop. me_pghead st1 = Some mop \<and> i \<le> idl_len mop \<and> ids mop ! (i - (num - 1)) = ids mop ! i + word_of_nat (num - 1))"
      using alloc_loop_spec[of st ?recs "me_pgoldest st" ae "num - 1" "int num * 60" "me_pgoldest st = al_txnid st - 1" "me_pglast st"] O by auto
    have txn: "al_txn st1 = al_txn st"
    proof -
      obtain mp0 g where e: "st1 = st\<lparr>me_pghead := mp0, me_pglast := me_pglast st1, me_pgoldest := g\<rparr>" using L(2) unfolding fetched_def by blast
      show ?thesis by (subst e) simp
    qed
    have run: "mdb_page_alloc ae num st = (case r of
        Err e \<Rightarrow> alloc_fail e st1 | Abort \<Rightarrow> (st1, Abort)
      | Ok (Some i) \<Rightarrow> alloc_done ae num (Some i) (unat (ids (the (me_pghead st1)) ! i)) st1
      | Ok None \<Rightarrow> if mt_next_pgno (al_txn st1) + num \<ge> ae_maxpg ae then alloc_fail MDB_MAP_FULL st1
          else alloc_done ae num None (mt_next_pgno (al_txn st1)) st1)"
      unfolding mdb_page_alloc_def if_not_P[OF nl] if_not_P[OF False] L(1) by (simp add: Let_def split: res.split option.split)
    have "alloc_outcome ae num st used (mdb_page_alloc ae num st)"
    proof (cases r)
      case (Ok o')
      show ?thesis
      proof (cases o')
        case None
        show ?thesis
        proof (cases "mt_next_pgno (al_txn st1) + num \<ge> ae_maxpg ae")
          case True
          then show ?thesis using run Ok None alloc_fail_outcome[OF L(2)] by simp
        next
          case f: False
          have "alloc_outcome ae num st used (alloc_done ae num None (mt_next_pgno (al_txn st1)) st1)"
            by (rule alloc_done_outcome[OF ok L(2)]) (use False f txn in simp_all)
          then show ?thesis using run Ok None f by simp
        qed
      next
        case (Some i)
        have "alloc_outcome ae num st used (alloc_done ae num (Some i) (unat (ids (the (me_pghead st1)) ! i)) st1)"
          by (rule alloc_done_outcome[OF ok L(2)]) (use False L(4) Ok Some in auto)
        then show ?thesis using run Ok Some by simp
      qed
    next
      case (Err e)
      then show ?thesis using run alloc_fail_outcome[OF L(2)] by simp
    next
      case Abort
      then show ?thesis using L(3) by simp
    qed
    then show ?thesis ..
  qed
qed

section \<open>Properties\<close>

text \<open>C9. An allocation takes a contiguous range from the pages in hand, after it has added to them the pages of some records at
  the front of the free database, or new pages at the end of the map when it stays below the limit; no page is lost and none is
  given away twice, the first page is on the dirty list under its number, and the list keeps its order. A failed
  allocation loses no page, changes neither the dirty list nor the end of the map and marks the transaction.\<close>

theorem page_alloc_correct:
  assumes "alloc_ok ae num st" "num \<noteq> 1 \<or> al_loose st = []"
  shows "\<exists>used. alloc_outcome ae num st used (mdb_page_alloc ae num st)"
  by (rule page_alloc_spec[OF assms(1)]) (use assms(2) in auto)

text \<open>
  Three readers, of which one looks at snapshot 7. Records 3 and 8 hold the pages 9, 8, 7 and 12.
\<close>

definition sample_ae :: alloc_env where
  "sample_ae = \<lparr>ae_readers = Some [\<lparr>mr_pid = 4, mr_txnid = 9\<rparr>, \<lparr>mr_pid = 0, mr_txnid = 1\<rparr>, \<lparr>mr_pid = 5, mr_txnid = 7\<rparr>],
     ae_free = [Ok (3, Ok \<lparr>alloclen = 3, ids = [3, 9, 8, 6]\<rparr>), Ok (8, Ok \<lparr>alloclen = 1, ids = [1, 12]\<rparr>)], ae_maxpg = 100,
     ae_writemap = False, ae_malloc = (\<lambda>n. Some (4096 * n)), ae_ok = True, ae_junk = 0\<rparr>"

definition sample_as :: alloc_state where
  "sample_as = \<lparr>al_txn = sample_txn, al_txnid = 10, al_room = 5, al_loose = [], al_loose_count = 0,
     al_free_pgs = \<lparr>alloclen = 1, ids = [0, 0]\<rparr>, me_pghead = None, me_pglast = 0, me_pgoldest = 4\<rparr>"

lemma sample_alloc_ok: "alloc_ok sample_ae 2 sample_as"
  unfolding alloc_ok_def Let_def
  by (simp add: sample_ae_def sample_as_def start_records_def pool_ok_def avail_def pages_of_def idl_elems_def idl_len_def idl_desc_def idl_wf_def
      mdb_find_oldest_def al_dirty_def sample_txn_def sample_dirty_ok MDB_IDL_UM_MAX_def)

theorem page_alloc_correct_witness:
  "\<exists>used. alloc_outcome sample_ae 2 sample_as used (mdb_page_alloc sample_ae 2 sample_as)"
  by (rule page_alloc_correct[OF sample_alloc_ok]) simp

text \<open>C8. No page that an active reader may still look at is used again: every page of the range was already in hand, or is
  a new page of the map, or comes from a record of a transaction that is older than the snapshot of every reader and than the
  last committed one.\<close>

theorem alloc_respects_readers:
  assumes "alloc_ok ae num st" "num \<noteq> 1 \<or> al_loose st = []" "mdb_page_alloc ae num st = (st', Ok (np, pgno))" "p \<in> set (run_pages pgno num)"
  shows "p \<in> set (avail st) \<or> mt_next_pgno (al_txn st) \<le> unat p \<or>
    (\<exists>k l. Ok (k, Ok l) \<in> set (ae_free ae) \<and> p \<in> set (idl_elems l) \<and> k < al_txnid st - 1 \<and>
      (\<forall>rs r. ae_readers ae \<noteq> Some rs \<or> r \<notin> set rs \<or> mr_pid r = 0 \<or> k < mr_txnid r))"
proof -
  obtain used where u: "alloc_outcome ae num st used (st', Ok (np, pgno))" using page_alloc_spec[OF assms(1)] assms(2,3) by metis
  then have al: "allocated ae num st used st' np pgno" and old: "\<And>k l. (k, l) \<in> set used \<Longrightarrow> k < mdb_find_oldest (al_txnid st) (ae_readers ae)"
    and sub: "\<And>k l. (k, l) \<in> set used \<Longrightarrow> Ok (k, Ok l) \<in> set (start_records (me_pglast st) (ae_free ae))"
    by (auto simp: alloc_outcome_def)
  have sub': "Ok (k, Ok l) \<in> set (ae_free ae)" if "(k, l) \<in> set used" for k l
    using sub[OF that] by (auto simp: start_records_def dest: set_dropWhileD split: if_splits)
  show ?thesis
  proof (cases "pgno = mt_next_pgno (al_txn st)")
    case True
    obtain x where x: "p = word_of_nat x" "pgno \<le> x" "x < pgno + num" using assms(4) by (auto simp: run_pages_def)
    have "x < 2 ^ 64" using x True assms(1) by (simp add: alloc_ok_def Let_def)
    then have "unat p = x" using x(1) by (simp add: unat_of_nat)
    then show ?thesis using x True by simp
  next
    case False
    then have "mset (avail st') + mset (run_pages pgno num) = mset (avail st) + mset (used_pages used)" using al by (simp add: allocated_def)
    from arg_cong[OF this, of set_mset] have "p \<in> set (avail st) \<union> set (used_pages used)" using assms(4) by auto
    then consider "p \<in> set (avail st)" | k l where "(k, l) \<in> set used" "p \<in> set (idl_elems l)" by (auto simp: used_pages_def)
    then show ?thesis
    proof cases
      case 2
      have k: "k < mdb_find_oldest (al_txnid st) (ae_readers ae)" by (rule old[OF 2(1)])
      have "mdb_find_oldest (al_txnid st) (ae_readers ae) \<le> al_txnid st - 1"
        using foldl_oldest(1) by (simp add: mdb_find_oldest_def split: option.split)
      moreover have "mdb_find_oldest (al_txnid st) (ae_readers ae) \<le> mr_txnid r" if "ae_readers ae = Some rs" "r \<in> set rs" "mr_pid r \<noteq> 0" for rs r
        using foldl_oldest(2)[of r "rev rs"] that by (simp add: mdb_find_oldest_def)
      ultimately show ?thesis using k sub'[OF 2(1)] 2(2) by (meson less_le_trans)
    qed simp
  qed
qed

lemma sample_alloc: "\<exists>st'. mdb_page_alloc sample_ae 2 sample_as = (st', Ok (8192, 8))"
proof -
  let ?mop = "\<lparr>alloclen = 3, ids = [3, 9, 8, 6 :: MDB_ID]\<rparr>"
  let ?st1 = "sample_as\<lparr>me_pghead := Some ?mop, me_pglast := 3, me_pgoldest := 4\<rparr>"
  have a: "mdb_midl_alloc True 0 (idl_len ?mop) = Some \<lparr>alloclen = 3, ids = [0, 0, 0, 0]\<rparr>" by code_simp
  have x: "mdb_midl_xmerge \<lparr>alloclen = 3, ids = [0, 0, 0, 0]\<rparr> ?mop = Some ?mop" by code_simp
  have t: "take_record sample_ae 3 ?mop (sample_as\<lparr>me_pgoldest := 4\<rparr>) = (?st1, Ok ())"
    by (simp add: take_record_def sample_as_def sample_ae_def a x)
  have f: "find_run [3, 9, 8, 6 :: MDB_ID] 1 3 = Some 2" by code_simp
  let ?r = "[Ok (8, Ok \<lparr>alloclen = 1, ids = [1, 12]\<rparr>)] :: (u64 \<times> MDB_IDL res) res list"
  have recs: "start_records 0 (ae_free sample_ae) = Ok (3, Ok ?mop) # ?r" by (simp add: start_records_def sample_ae_def)
  have same: "sample_as\<lparr>me_pgoldest := 4\<rparr> = sample_as" "mop_len sample_as = 0" by (simp_all add: sample_as_def mop_len_def)
  have old: "refresh_oldest sample_ae k (sample_as, 4, False) = (sample_as, 4, False)" if "k < 4" for k
    using that by (auto simp: refresh_oldest_def)
  have le: "\<not> (4 :: u64) \<le> 1" "\<not> (4 :: u64) \<le> 3" by code_simp+
  have "alloc_loop sample_ae 1 (Ok (3, Ok ?mop) # ?r) 120 4 False 0 sample_as = alloc_loop sample_ae 1 ?r 120 4 False 3 ?st1"
    unfolding alloc_loop.simps[of sample_ae 1 "Ok (3, Ok ?mop) # ?r"] using t same old[of 1] old[of 3] le by simp
  also have "\<dots> = (?st1, Ok (Some 2))"
    unfolding alloc_loop.simps[of sample_ae 1 ?r] using f by (simp add: mop_len_def idl_len_def)
  finally have L: "alloc_loop sample_ae 1 (start_records 0 (ae_free sample_ae)) 120 4 False 0 sample_as = (?st1, Ok (Some 2))" unfolding recs .
  define st2 where "st2 = ?st1\<lparr>me_pghead := Some (take_run 2 2 ?mop)\<rparr>"
  have d: "al_dirty st2 = sample_dirty" "al_room st2 = 5" by (simp_all add: st2_def sample_as_def al_dirty_def sample_txn_def)
  have "\<exists>dl. mdb_page_dirty False 8192 8 st2 = (st2\<lparr>al_txn := set_dirty dl (al_txn st2), al_room := al_room st2 - 1\<rparr>, Ok ()) \<and>
    id2l_sorted dl \<and> id2l_map dl = (id2l_map (al_dirty st2))(word_of_nat 8 \<mapsto> 8192)"
    by (rule page_dirty_spec) (simp_all add: d sample_dirty_ok MDB_IDL_UM_MAX_def)
  then obtain st3 where d3: "mdb_page_dirty False 8192 8 st2 = (st3, Ok ())" by blast
  have "alloc_done sample_ae 2 (Some 2) 8 ?st1 = (st3, Ok (8192, 8))"
    using d3 by (simp add: alloc_done_def Let_def st2_def sample_ae_def)
  moreover have c: "me_pglast sample_as = 0" "me_pgoldest sample_as = 4" "al_txnid sample_as = 10" "al_room sample_as = 5" by (simp_all add: sample_as_def)
  have L': "alloc_loop sample_ae (2 - 1) (start_records 0 (ae_free sample_ae)) (int 2 * 60) 4 (4 = (10 :: u64) - 1) 0 sample_as = (?st1, Ok (Some 2))"
    using L by simp
  have n: "\<not> (2 = (1 :: nat) \<and> al_loose sample_as \<noteq> [])" "\<not> (5 :: nat) = 0" by simp_all
  have "mdb_page_alloc sample_ae 2 sample_as = alloc_done sample_ae 2 (Some 2) (unat (ids (the (me_pghead ?st1)) ! 2)) ?st1"
    unfolding mdb_page_alloc_def if_not_P[OF n(1)] c if_not_P[OF n(2)] L' prod.case res.case option.case ..
  moreover have "unat (ids (the (me_pghead ?st1)) ! 2) = 8" by simp
  ultimately show ?thesis by simp
qed

theorem alloc_respects_readers_witness:
  "set (run_pages 8 2) \<subseteq> {9, 8, 6} \<union> {p. 20 \<le> unat p}"
proof
  fix p assume p: "p \<in> set (run_pages 8 2)"
  obtain st' where "mdb_page_alloc sample_ae 2 sample_as = (st', Ok (8192, 8))" using sample_alloc by blast
  note a = alloc_respects_readers[OF sample_alloc_ok _ this p]
  have c: "avail sample_as = []" "mt_next_pgno (al_txn sample_as) = 20" by (simp_all add: sample_as_def avail_def sample_txn_def)
  have "p \<in> {9, 8, 6}" if "Ok (k, Ok l) \<in> set (ae_free sample_ae)" "p \<in> set (idl_elems l)"
    "\<forall>rs r. ae_readers sample_ae \<noteq> Some rs \<or> r \<notin> set rs \<or> mr_pid r = 0 \<or> k < mr_txnid r" for k l
  proof -
    have "k < 7" using that(3)[rule_format, of "the (ae_readers sample_ae)" "\<lparr>mr_pid = 5, mr_txnid = 7\<rparr>"] by (simp add: sample_ae_def)
    then have "l = \<lparr>alloclen = 3, ids = [3, 9, 8, 6]\<rparr>" using that(1) by (auto simp: sample_ae_def)
    then show ?thesis using that(2) by (simp add: idl_elems_def idl_len_def)
  qed
  then have "p \<in> {9, 8, 6} \<or> 20 \<le> unat p" using a unfolding c by (simp add: sample_as_def) blast
  then show "p \<in> {9, 8, 6} \<union> {p. 20 \<le> unat p}" by blast
qed

text \<open>C37. Without \<open>MDB_WRITEMAP\<close>, a page that was just allocated, also one that was loose, is found by \<open>mdb_page_get\<close>
  under its number, at the address where it was put, whatever the parents of the transaction have for that number: the
  dirty list of this transaction has it. The spill list of this transaction, which is searched first, may have any pages but
  this one, and the loose pages are on the dirty list.\<close>

theorem alloc_then_get:
  assumes "alloc_ok ae num st" "mdb_page_alloc ae num st = (st', Ok (np, pgno))"
    and "\<forall>l\<in>set (mt_levels (al_txn st)). level_ok l" "pgno \<notin> level_spilled (hd (mt_levels (al_txn st)))"
    and "\<forall>(a, p)\<in>set (al_loose st). id2l_map (al_dirty st) (word_of_nat p) = Some a"
  shows "mdb_page_get (al_txn st') False pgno = (al_txn st', Ok (np, 1))"
proof -
  have ne: "mt_levels (al_txn st) \<noteq> []" using assms(1) by (simp add: alloc_ok_def Let_def)
  obtain l ls where L: "mt_levels (al_txn st') = l # ls" "\<forall>l\<in>set (mt_levels (al_txn st')). level_ok l" "pgno \<notin> level_spilled l"
    "id2l_map (mt_dirty_list l) (word_of_nat pgno) = Some np"
  proof (cases "num = 1 \<and> al_loose st \<noteq> []")
    case True
    then have r: "al_txn st' = al_txn st" "(np, pgno) \<in> set (al_loose st)" using assms(2) hd_in_set[of "al_loose st"] by (auto simp: mdb_page_alloc_def)
    show ?thesis
      by (rule that[of "hd (mt_levels (al_txn st))" "tl (mt_levels (al_txn st))"])
        (use r ne assms(3-5) in \<open>auto simp: al_dirty_def\<close>)
  next
    case False
    then obtain used where u: "alloc_outcome ae num st used (st', Ok (np, pgno))" using page_alloc_spec[OF assms(1)] assms(2) by metis
    then have al: "allocated ae num st used st' np pgno" by (simp add: alloc_outcome_def)
    then obtain dl n where t: "al_txn st' = (set_dirty dl (al_txn st))\<lparr>mt_next_pgno := n\<rparr>" by (auto simp: allocated_def)
    let ?l = "(hd (mt_levels (al_txn st)))\<lparr>mt_dirty_list := dl\<rparr>"
    have levels: "mt_levels (al_txn st') = ?l # tl (mt_levels (al_txn st))" by (simp add: t set_dirty_def)
    have dl: "al_dirty st' = dl" by (simp add: al_dirty_def levels)
    have "level_ok (hd (mt_levels (al_txn st)))" using assms(3) ne by simp
    then have ok: "\<forall>l\<in>set (mt_levels (al_txn st')). level_ok l"
      using al assms(3) ne by (auto simp: levels level_ok_def allocated_def dl dest: list.set_sel(2)[OF ne])
    have "pgno \<notin> level_spilled ?l" using assms(4) by (simp add: level_spilled_def)
    then show ?thesis using that[OF levels ok] al by (simp add: allocated_def dl)
  qed
  let ?mapped = "me_map (al_txn st') + me_page_size (al_txn st') * pgno"
  have "overlay (mt_levels (al_txn st')) ?mapped pgno 1 = Some (np, 1)" using L(3,4) unfolding L(1) by simp
  then have "place ?mapped (page_get_levels (mt_levels (al_txn st')) pgno 1) = Some (np, 1)" using page_get_levels_spec[OF L(2)] by simp
  then show ?thesis by (cases "page_get_levels (mt_levels (al_txn st')) pgno 1") (auto simp: mdb_page_get_def Let_def)
qed

text \<open>A state with a spill list and with the dirty page 7 loose.\<close>

definition sample_loose :: alloc_state where
  "sample_loose = sample_as\<lparr>al_txn := sample_txn\<lparr>mt_levels := [\<lparr>mt_spill_pgs = Some sample_spill, mt_dirty_list = sample_dirty\<rparr>]\<rparr>,
     al_loose := [(3, 7)], al_loose_count := 1\<rparr>"

theorem alloc_then_get_witness:
  "(\<exists>st'. mdb_page_alloc sample_ae 2 sample_as = (st', Ok (8192, 8)) \<and> mdb_page_get (al_txn st') False 8 = (al_txn st', Ok (8192, 1))) \<and>
   (\<exists>st'. mdb_page_alloc sample_ae 1 sample_loose = (st', Ok (3, 7)) \<and> mdb_page_get (al_txn st') False 7 = (al_txn st', Ok (3, 1)))"
proof
  obtain st' where st': "mdb_page_alloc sample_ae 2 sample_as = (st', Ok (8192, 8))" using sample_alloc by blast
  have h: "\<forall>l\<in>set (mt_levels (al_txn sample_as)). level_ok l" "8 \<notin> level_spilled (hd (mt_levels (al_txn sample_as)))"
    "\<forall>(a, p)\<in>set (al_loose sample_as). id2l_map (al_dirty sample_as) (word_of_nat p) = Some a"
    by (simp_all add: sample_as_def sample_txn_def level_ok_def level_spilled_def sample_dirty_ok)
  from alloc_then_get[OF sample_alloc_ok st' h] st'
  show "\<exists>st'. mdb_page_alloc sample_ae 2 sample_as = (st', Ok (8192, 8)) \<and> mdb_page_get (al_txn st') False 8 = (al_txn st', Ok (8192, 1))" by auto
next
  have sp: "idl_elems sample_spill = [30, 18, 6]" "idl_desc sample_spill"
    by (simp_all add: sample_spill_def idl_elems_def idl_len_def idl_desc_def idl_wf_def)
  have ok: "alloc_ok sample_ae 1 sample_loose"
    unfolding alloc_ok_def Let_def
    by (simp add: sample_ae_def sample_loose_def sample_as_def start_records_def pool_ok_def avail_def pages_of_def idl_elems_def idl_len_def
        idl_desc_def idl_wf_def mdb_find_oldest_def al_dirty_def sample_txn_def sample_dirty_ok MDB_IDL_UM_MAX_def)
  obtain st' where st': "mdb_page_alloc sample_ae 1 sample_loose = (st', Ok (3, 7))"
    by (simp add: mdb_page_alloc_def sample_loose_def)
  have h: "\<forall>l\<in>set (mt_levels (al_txn sample_loose)). level_ok l" "7 \<notin> level_spilled (hd (mt_levels (al_txn sample_loose)))"
    "\<forall>(a, p)\<in>set (al_loose sample_loose). id2l_map (al_dirty sample_loose) (word_of_nat p) = Some a"
    by (simp_all add: sample_loose_def al_dirty_def level_ok_def level_spilled_def sample_dirty_ok sp)
  from alloc_then_get[OF ok st' h] st'
  show "\<exists>st'. mdb_page_alloc sample_ae 1 sample_loose = (st', Ok (3, 7)) \<and> mdb_page_get (al_txn st') False 7 = (al_txn st', Ok (3, 1))" by auto
qed

end
