(* ===== verification/Readers.thy ===== *)
theory Readers
  imports Page_Alloc
begin

text \<open>
  The reader table (\<open>mti_readers\<close> in the lock file) as a state machine over the threads of several processes: claiming a
  slot, announcing a snapshot (\<open>mdb_txn_renew0\<close>) and giving it up (\<open>mdb_txn_end\<close>), while one writer at a time looks for
  the oldest reader (\<open>mdb_find_oldest\<close>), commits (\<open>mdb_env_write_meta\<close>) or dies, and others clear the slots of dead processes
  (\<open>mdb_reader_check0\<close>). Every step is one access to the shared memory, and the steps of all threads interleave
  freely. The invariant is what the reuse of pages rests on: the boundary a writer works with, fresh or cached, is never
  later than the snapshot of an active reader.
\<close>

section \<open>State\<close>

text \<open>The part of a meta page that matters: its transaction, and the transaction whose roots are in \<open>mm_dbs\<close>.\<close>

record meta_view =
  mv_txnid :: u64
  mv_dbs :: u64

text \<open>
  Where a thread is in \<open>mdb_txn_renew0\<close>, with its local variables: it has no slot; it looks for one, resets, publishes
  and claims it; it has a slot and no transaction; it loads \<open>mti_txnid\<close>, stores it in the slot, compares it again;
  it copies the meta record; its transaction runs, with the number of the snapshot and the transaction whose roots it copied.
\<close>

datatype reader_pc = Outside | Search nat | Reset nat | Publish nat | Claim nat | Owned nat | Load nat | Store nat u64
  | Recheck nat | Copy nat u64 | Running nat u64 u64

text \<open>
  The writer, which holds \<open>me_wmutex\<close>, with its process and its transaction: working, inside the loop of \<open>mdb_find_oldest\<close>
  before it reads \<open>mr_pid\<close> or \<open>mr_txnid\<close> of a slot, inside \<open>mdb_env_write_meta\<close> before it writes \<open>mm_txnid\<close> or
  \<open>mti_txnid\<close>; or dead without having unlocked.
\<close>

datatype writer_pc = W_idle | W_txn nat u64 | W_scan nat u64 nat u64 | W_read nat u64 nat u64 | W_meta nat u64 | W_commit nat u64 | W_dead

text \<open>\<open>me_rmutex\<close>: free, held by a thread that claims a slot, or by \<open>mdb_reader_check0\<close> before or after it has found a process dead.\<close>

datatype reader_lock = R_free | R_thread nat | R_checking | R_clearing nat

record reader_sys =
  rs_pid :: "nat \<Rightarrow> nat"
  rs_alive :: "nat \<Rightarrow> bool"
  me_maxreaders :: nat
  mti_readers :: "nat \<Rightarrow> MDB_reader"
  mti_numreaders :: nat
  mti_txnid :: u64
  me_metas :: "bool \<Rightarrow> meta_view"
  me_rmutex :: reader_lock
  rs_threads :: "nat \<Rightarrow> reader_pc"
  rs_writer :: writer_pc
  rs_pgoldest :: "nat \<Rightarrow> u64"

definition set_pid :: "nat \<Rightarrow> nat \<Rightarrow> reader_sys \<Rightarrow> reader_sys" where
  "set_pid i p s = s\<lparr>mti_readers := (mti_readers s)(i := (mti_readers s i)\<lparr>mr_pid := p\<rparr>)\<rparr>"

definition set_txnid :: "nat \<Rightarrow> u64 \<Rightarrow> reader_sys \<Rightarrow> reader_sys" where
  "set_txnid i v s = s\<lparr>mti_readers := (mti_readers s)(i := (mti_readers s i)\<lparr>mr_txnid := v\<rparr>)\<rparr>"

definition goto :: "nat \<Rightarrow> reader_pc \<Rightarrow> reader_sys \<Rightarrow> reader_sys" where
  "goto t pc s = s\<lparr>rs_threads := (rs_threads s)(t := pc)\<rparr>"

section \<open>The steps\<close>

text \<open>
  One step of \<open>mdb_txn_renew0\<close> for a reader; \<open>None\<close> where it has to wait for the mutex, or has returned. Both early
  returns leave the thread where it was: \<open>MDB_READERS_FULL\<close> without a slot, \<open>MDB_BAD_RSLOT\<close> with its slot. Two branches are left out: a failing \<open>pthread_setspecific\<close> after the claim of the slot
  (which only gives it back), and, for an environment opened with \<open>MDB_RDONLY\<close> before any writer has set \<open>mti_txnid\<close>, the choice of the
  newest meta page in place of the stored number 0.
\<close>

definition renew_step :: "nat \<Rightarrow> reader_sys \<Rightarrow> reader_sys option" where
  "renew_step t s =
     (case rs_threads s t of
        Outside \<Rightarrow> if me_rmutex s = R_free then Some (goto t (Search 0) (s\<lparr>me_rmutex := R_thread t\<rparr>)) else None
      | Search i \<Rightarrow>
          if i < mti_numreaders s \<and> mr_pid (mti_readers s i) \<noteq> 0 then Some (goto t (Search (i + 1)) s)
          else if i = me_maxreaders s then Some (goto t Outside (s\<lparr>me_rmutex := R_free\<rparr>))
          else Some (goto t (Reset i) s)
      | Reset i \<Rightarrow> Some (goto t (Publish i) (set_txnid i (- 1) (set_pid i 0 s)))
      | Publish i \<Rightarrow>
          Some (goto t (Claim i) (s\<lparr>mti_numreaders := (if i = mti_numreaders s then mti_numreaders s + 1 else mti_numreaders s)\<rparr>))
      | Claim i \<Rightarrow> Some (goto t (Load i) ((set_pid i (rs_pid s t) s)\<lparr>me_rmutex := R_free\<rparr>))
      | Owned i \<Rightarrow>
          if mr_pid (mti_readers s i) \<noteq> rs_pid s t \<or> mr_txnid (mti_readers s i) \<noteq> - 1 then Some s
          else Some (goto t (Load i) s)
      | Load i \<Rightarrow> Some (goto t (Store i (mti_txnid s)) s)
      | Store i v \<Rightarrow> Some (goto t (Recheck i) (set_txnid i v s))
      | Recheck i \<Rightarrow>
          if mr_txnid (mti_readers s i) \<noteq> mti_txnid s then Some (goto t (Load i) s)
          else Some (goto t (Copy i (mr_txnid (mti_readers s i))) s)
      | Copy i v \<Rightarrow> Some (goto t (Running i v (mv_dbs (me_metas s (odd v)))) s)
      | Running i v m \<Rightarrow> None)"

text \<open>The end of a read transaction, and giving up the slot: \<open>MDB_END_SLOT\<close>, or the end of the thread.\<close>

definition end_step :: "nat \<Rightarrow> reader_sys \<Rightarrow> reader_sys option" where
  "end_step t s = (case rs_threads s t of Running i v m \<Rightarrow> Some (goto t (Owned i) (set_txnid i (- 1) s)) | _ \<Rightarrow> None)"

definition free_step :: "nat \<Rightarrow> reader_sys \<Rightarrow> reader_sys option" where
  "free_step t s = (case rs_threads s t of Owned i \<Rightarrow> Some (goto t Outside (set_pid i 0 s)) | _ \<Rightarrow> None)"

text \<open>The writer of process \<open>e\<close> begins; transaction numbers do not wrap around.\<close>

definition begin_step :: "nat \<Rightarrow> reader_sys \<Rightarrow> reader_sys option" where
  "begin_step e s =
     (if rs_writer s = W_idle \<and> rs_alive s e \<and> mti_txnid s < - 2 then Some (s\<lparr>rs_writer := W_txn e (mti_txnid s + 1)\<rparr>) else None)"

definition scan_start :: "reader_sys \<Rightarrow> reader_sys option" where
  "scan_start s = (case rs_writer s of W_txn e T \<Rightarrow> Some (s\<lparr>rs_writer := W_scan e T (mti_numreaders s) (T - 1)\<rparr>) | _ \<Rightarrow> None)"

definition scan_step :: "reader_sys \<Rightarrow> reader_sys option" where
  "scan_step s =
     (case rs_writer s of
        W_scan e T 0 old \<Rightarrow> Some (s\<lparr>rs_pgoldest := (rs_pgoldest s)(e := old), rs_writer := W_txn e T\<rparr>)
      | W_scan e T (Suc i) old \<Rightarrow>
          Some (s\<lparr>rs_writer := (if mr_pid (mti_readers s i) \<noteq> 0 then W_read e T i old else W_scan e T i old)\<rparr>)
      | W_read e T i old \<Rightarrow>
          (let mr = mr_txnid (mti_readers s i) in Some (s\<lparr>rs_writer := W_scan e T i (if old > mr then mr else old)\<rparr>))
      | _ \<Rightarrow> None)"

text \<open>The commit writes the record of the meta page, its transaction, and then \<open>mti_txnid\<close>.\<close>

definition commit_step :: "reader_sys \<Rightarrow> reader_sys option" where
  "commit_step s =
     (case rs_writer s of
        W_txn e T \<Rightarrow> Some (s\<lparr>me_metas := (me_metas s)(odd T := (me_metas s (odd T))\<lparr>mv_dbs := T\<rparr>), rs_writer := W_meta e T\<rparr>)
      | W_meta e T \<Rightarrow> Some (s\<lparr>me_metas := (me_metas s)(odd T := (me_metas s (odd T))\<lparr>mv_txnid := T\<rparr>), rs_writer := W_commit e T\<rparr>)
      | W_commit e T \<Rightarrow> Some (s\<lparr>mti_txnid := T, rs_writer := W_idle\<rparr>)
      | _ \<Rightarrow> None)"

definition abort_step :: "reader_sys \<Rightarrow> reader_sys option" where
  "abort_step s = (case rs_writer s of W_txn e T \<Rightarrow> Some (s\<lparr>rs_writer := W_idle\<rparr>) | _ \<Rightarrow> None)"

text \<open>
  The newest meta page, and the recovery when the writer died (\<open>mdb_mutex_failed\<close>). A process dies with all its threads here, so the
  one that recovers has no write transaction of its own: the branch for a dead thread of the same process, which gives up the
  environment (\<open>MDB_PANIC\<close>), is left out.
\<close>

definition mdb_env_pick_meta :: "bool \<Rightarrow> (bool \<Rightarrow> u64) \<Rightarrow> bool" where
  "mdb_env_pick_meta prevsnapshot txnids = ((txnids False < txnids True) \<noteq> prevsnapshot)"

definition recover_step :: "reader_sys \<Rightarrow> reader_sys option" where
  "recover_step s =
     (if rs_writer s = W_dead
      then Some (s\<lparr>mti_txnid := mv_txnid (me_metas s (mdb_env_pick_meta False (\<lambda>k. mv_txnid (me_metas s k)))), rs_writer := W_idle\<rparr>) else None)"

text \<open>
  \<open>mdb_reader_check0\<close>: it takes the mutex, looks again whether the process is dead, and clears the slots one by one.
\<close>

definition check_step :: "nat \<Rightarrow> reader_sys \<Rightarrow> reader_sys option" where
  "check_step p s =
     (case me_rmutex s of
        R_free \<Rightarrow> Some (s\<lparr>me_rmutex := R_checking\<rparr>)
      | R_checking \<Rightarrow> if p \<noteq> 0 \<and> \<not> rs_alive s p then Some (s\<lparr>me_rmutex := R_clearing p\<rparr>) else Some (s\<lparr>me_rmutex := R_free\<rparr>)
      | R_clearing q \<Rightarrow> Some (s\<lparr>me_rmutex := R_free\<rparr>)
      | R_thread t \<Rightarrow> None)"

definition clear_step :: "nat \<Rightarrow> reader_sys \<Rightarrow> reader_sys option" where
  "clear_step j s =
     (case me_rmutex s of
        R_clearing p \<Rightarrow> if mr_pid (mti_readers s j) = p then Some (set_pid j 0 s) else Some s
      | _ \<Rightarrow> None)"

text \<open>
  What may happen at any time: a process dies with all its threads, and the mutexes it held become free for the next one that
  asks for them (\<open>MDB_OWNERDEAD\<close>); a process starts, perhaps with the number of a dead one.
\<close>

definition writer_of :: "writer_pc \<Rightarrow> nat option" where
  "writer_of w = (case w of W_txn e T \<Rightarrow> Some e | W_scan e T i old \<Rightarrow> Some e | W_read e T i old \<Rightarrow> Some e
     | W_meta e T \<Rightarrow> Some e | W_commit e T \<Rightarrow> Some e | _ \<Rightarrow> None)"

definition die_step :: "nat \<Rightarrow> reader_sys \<Rightarrow> reader_sys" where
  "die_step p s = s\<lparr>rs_alive := (rs_alive s)(p := False),
     rs_threads := (\<lambda>t. if rs_pid s t = p then Outside else rs_threads s t),
     me_rmutex := (case me_rmutex s of R_thread t \<Rightarrow> if rs_pid s t = p then R_free else R_thread t | l \<Rightarrow> l),
     rs_writer := (if writer_of (rs_writer s) = Some p then W_dead else rs_writer s)\<rparr>"

definition start_step :: "nat \<Rightarrow> reader_sys \<Rightarrow> reader_sys" where
  "start_step p s = s\<lparr>rs_alive := (rs_alive s)(p := True)\<rparr>"

text \<open>The steps of the system, and the states it can reach from an environment without readers.\<close>

inductive reader_step :: "reader_sys \<Rightarrow> reader_sys \<Rightarrow> bool" where
  renew: "rs_alive s (rs_pid s t) \<Longrightarrow> renew_step t s = Some s' \<Longrightarrow> reader_step s s'"
| end_txn: "rs_alive s (rs_pid s t) \<Longrightarrow> end_step t s = Some s' \<Longrightarrow> reader_step s s'"
| free_slot: "rs_alive s (rs_pid s t) \<Longrightarrow> free_step t s = Some s' \<Longrightarrow> reader_step s s'"
| begin_txn: "begin_step e s = Some s' \<Longrightarrow> reader_step s s'"
| scan_begin: "scan_start s = Some s' \<Longrightarrow> reader_step s s'"
| scan: "scan_step s = Some s' \<Longrightarrow> reader_step s s'"
| commit: "commit_step s = Some s' \<Longrightarrow> reader_step s s'"
| abort: "abort_step s = Some s' \<Longrightarrow> reader_step s s'"
| recover: "recover_step s = Some s' \<Longrightarrow> reader_step s s'"
| check: "check_step p s = Some s' \<Longrightarrow> reader_step s s'"
| clear: "clear_step j s = Some s' \<Longrightarrow> reader_step s s'"
| die: "reader_step s (die_step p s)"
| start: "reader_step s (start_step p s)"

definition reader_init :: "reader_sys \<Rightarrow> bool" where
  "reader_init s \<longleftrightarrow> (\<forall>t. rs_pid s t \<noteq> 0) \<and> (\<forall>i. mr_pid (mti_readers s i) = 0) \<and> mti_numreaders s = 0 \<and> mti_txnid s \<noteq> - 1 \<and>
     me_metas s (odd (mti_txnid s)) = \<lparr>mv_txnid = mti_txnid s, mv_dbs = mti_txnid s\<rparr> \<and>
     (mv_txnid (me_metas s (even (mti_txnid s))) < mti_txnid s \<or> mti_txnid s = 0 \<and> mv_txnid (me_metas s True) = 0) \<and>
     me_rmutex s = R_free \<and> rs_threads s = (\<lambda>t. Outside) \<and> rs_writer s = W_idle \<and> (\<forall>e. rs_pgoldest s e \<le> mti_txnid s)"

inductive reader_reach :: "reader_sys \<Rightarrow> bool" where
  init: "reader_init s \<Longrightarrow> reader_reach s"
| step: "reader_reach s \<Longrightarrow> reader_step s s' \<Longrightarrow> reader_reach s'"


section \<open>Runs\<close>

text \<open>The steps as named actions, to compute runs.\<close>

datatype reader_act = A_renew nat | A_end nat | A_free nat | A_begin nat | A_scan_start | A_scan | A_commit | A_abort | A_recover
  | A_check nat | A_clear nat | A_die nat | A_start nat

fun do_act :: "reader_act \<Rightarrow> reader_sys \<Rightarrow> reader_sys option" where
  "do_act (A_renew t) s = (if rs_alive s (rs_pid s t) then renew_step t s else None)"
| "do_act (A_end t) s = (if rs_alive s (rs_pid s t) then end_step t s else None)"
| "do_act (A_free t) s = (if rs_alive s (rs_pid s t) then free_step t s else None)"
| "do_act (A_begin e) s = begin_step e s"
| "do_act A_scan_start s = scan_start s"
| "do_act A_scan s = scan_step s"
| "do_act A_commit s = commit_step s"
| "do_act A_abort s = abort_step s"
| "do_act A_recover s = recover_step s"
| "do_act (A_check p) s = check_step p s"
| "do_act (A_clear j) s = clear_step j s"
| "do_act (A_die p) s = Some (die_step p s)"
| "do_act (A_start p) s = Some (start_step p s)"

fun reader_run :: "reader_act list \<Rightarrow> reader_sys \<Rightarrow> reader_sys option" where
  "reader_run [] s = Some s"
| "reader_run (a # as) s = (case do_act a s of None \<Rightarrow> None | Some s \<Rightarrow> reader_run as s)"

lemma act_step: "do_act a s = Some s' \<Longrightarrow> reader_step s s'"
  by (cases a) (auto intro: reader_step.intros split: if_splits)

lemma run_steps: "reader_run as s = Some s' \<Longrightarrow> rtranclp reader_step s s'"
  by (induction as arbitrary: s) (auto split: option.splits intro: converse_rtranclp_into_rtranclp dest: act_step)

lemma reach_steps: "rtranclp reader_step s s' \<Longrightarrow> reader_reach s \<Longrightarrow> reader_reach s'"
  by (induction rule: rtranclp_induct) (auto intro: reader_reach.step)

lemma run_reach: "reader_run as s = Some s' \<Longrightarrow> reader_reach s \<Longrightarrow> reader_reach s'"
  using run_steps reach_steps by blast

end
