(* ===== verification/Reader_Safety.thy ===== *)
theory Reader_Safety
  imports Readers
begin

text \<open>
  What the reader table guarantees: the invariants of the slots, of the two meta pages and of the boundary of the
  writers, for every interleaving of the steps, and the properties that follow.
\<close>

section \<open>Slots\<close>

text \<open>The slot a thread claims or owns, and its slot and snapshot while a transaction is active.\<close>

definition slot :: "reader_pc \<Rightarrow> nat option" where
  "slot pc = (case pc of Outside \<Rightarrow> None | Search i \<Rightarrow> None | Reset i \<Rightarrow> Some i | Publish i \<Rightarrow> Some i | Claim i \<Rightarrow> Some i
     | Owned i \<Rightarrow> Some i | Load i \<Rightarrow> Some i | Store i v \<Rightarrow> Some i | Recheck i \<Rightarrow> Some i | Copy i v \<Rightarrow> Some i | Running i v m \<Rightarrow> Some i)"

definition searching :: "reader_pc \<Rightarrow> bool" where
  "searching pc = (case pc of Search i \<Rightarrow> True | Reset i \<Rightarrow> True | Publish i \<Rightarrow> True | Claim i \<Rightarrow> True | _ \<Rightarrow> False)"

definition active :: "reader_pc \<Rightarrow> (nat \<times> u64) option" where
  "active pc = (case pc of Copy i v \<Rightarrow> Some (i, v) | Running i v m \<Rightarrow> Some (i, v) | _ \<Rightarrow> None)"

lemma pc_simps [simp]:
  "slot Outside = None" "slot (Search i) = None" "slot (Reset i) = Some i" "slot (Publish i) = Some i" "slot (Claim i) = Some i"
  "slot (Owned i) = Some i" "slot (Load i) = Some i" "slot (Store i v) = Some i" "slot (Recheck i) = Some i" "slot (Copy i v) = Some i"
  "slot (Running i v m) = Some i"
  "searching Outside = False" "searching (Search i) = True" "searching (Reset i) = True" "searching (Publish i) = True"
  "searching (Claim i) = True" "searching (Owned i) = False" "searching (Load i) = False" "searching (Store i v) = False"
  "searching (Recheck i) = False" "searching (Copy i v) = False" "searching (Running i v m) = False"
  "active Outside = None" "active (Search i) = None" "active (Reset i) = None" "active (Publish i) = None" "active (Claim i) = None"
  "active (Owned i) = None" "active (Load i) = None" "active (Store i v) = None" "active (Recheck i) = None" "active (Copy i v) = Some (i, v)"
  "active (Running i v m) = Some (i, v)"
  by (simp_all add: slot_def searching_def active_def)

lemma active_slot: "active pc = Some (i, v) \<Longrightarrow> slot pc = Some i \<and> \<not> searching pc"
  by (auto simp: active_def split: reader_pc.splits)

text \<open>What a thread at a program point relies on.\<close>

definition pc_ok :: "reader_sys \<Rightarrow> nat \<Rightarrow> reader_pc \<Rightarrow> bool" where
  "pc_ok s t pc \<longleftrightarrow>
     (pc \<noteq> Outside \<longrightarrow> rs_alive s (rs_pid s t) \<and> me_rmutex s \<noteq> R_clearing (rs_pid s t)) \<and>
     (searching pc \<longrightarrow> me_rmutex s = R_thread t) \<and>
     (case pc of
        Search i \<Rightarrow> i \<le> mti_numreaders s
      | Reset i \<Rightarrow> mr_pid (mti_readers s i) = 0 \<and> i \<le> mti_numreaders s
      | Publish i \<Rightarrow> mr_pid (mti_readers s i) = 0 \<and> i \<le> mti_numreaders s
      | Claim i \<Rightarrow> mr_pid (mti_readers s i) = 0 \<and> i < mti_numreaders s
      | Owned i \<Rightarrow> mti_readers s i = \<lparr>mr_pid = rs_pid s t, mr_txnid = - 1\<rparr> \<and> i < mti_numreaders s
      | Load i \<Rightarrow> mr_pid (mti_readers s i) = rs_pid s t \<and> i < mti_numreaders s
      | Store i v \<Rightarrow> mr_pid (mti_readers s i) = rs_pid s t \<and> i < mti_numreaders s
      | Recheck i \<Rightarrow> mr_pid (mti_readers s i) = rs_pid s t \<and> i < mti_numreaders s
      | Copy i v \<Rightarrow> mti_readers s i = \<lparr>mr_pid = rs_pid s t, mr_txnid = v\<rparr> \<and> i < mti_numreaders s
      | Running i v m \<Rightarrow> mti_readers s i = \<lparr>mr_pid = rs_pid s t, mr_txnid = v\<rparr> \<and> i < mti_numreaders s
      | _ \<Rightarrow> True)"

definition slots_ok :: "reader_sys \<Rightarrow> bool" where
  "slots_ok s \<longleftrightarrow> (\<forall>t. rs_pid s t \<noteq> 0) \<and> (\<forall>i\<ge>mti_numreaders s. mr_pid (mti_readers s i) = 0) \<and> me_rmutex s \<noteq> R_clearing 0 \<and>
     (\<forall>t. pc_ok s t (rs_threads s t)) \<and>
     (\<forall>t u i. t \<noteq> u \<longrightarrow> slot (rs_threads s t) = Some i \<longrightarrow> slot (rs_threads s u) \<noteq> Some i)"

lemma slots_okD:
  assumes "slots_ok s"
  shows "rs_pid s t \<noteq> 0" "mti_numreaders s \<le> i \<Longrightarrow> mr_pid (mti_readers s i) = 0" "me_rmutex s \<noteq> R_clearing 0"
    "pc_ok s t (rs_threads s t)" "t \<noteq> u \<Longrightarrow> slot (rs_threads s t) = Some i \<Longrightarrow> slot (rs_threads s u) \<noteq> Some i"
  using assms by (auto simp: slots_ok_def)

lemma slot_pid: "pc_ok s t pc \<Longrightarrow> slot pc = Some i \<Longrightarrow> mr_pid (mti_readers s i) = (if searching pc then 0 else rs_pid s t)"
  by (cases pc) (auto simp: pc_ok_def)

text \<open>What concerns a thread at a program point: its process, the mutex while it searches, its slot.\<close>

definition same_for :: "reader_sys \<Rightarrow> reader_sys \<Rightarrow> nat \<Rightarrow> reader_pc \<Rightarrow> bool" where
  "same_for s s' t pc \<longleftrightarrow> rs_pid s' = rs_pid s \<and>
     (pc \<noteq> Outside \<longrightarrow> (rs_alive s (rs_pid s t) \<longrightarrow> rs_alive s' (rs_pid s t)) \<and>
       (me_rmutex s' = R_clearing (rs_pid s t) \<longrightarrow> me_rmutex s = R_clearing (rs_pid s t))) \<and>
     (searching pc \<longrightarrow> me_rmutex s' = me_rmutex s) \<and> mti_numreaders s \<le> mti_numreaders s' \<and>
     (\<forall>i. slot pc = Some i \<longrightarrow> mti_readers s' i = mti_readers s i)"

lemma pc_ok_frame: "pc_ok s t pc \<Longrightarrow> same_for s s' t pc \<Longrightarrow> pc_ok s' t pc"
  by (cases pc) (auto simp: pc_ok_def same_for_def)

text \<open>A step of one thread: it goes from \<open>pc\<close> to \<open>pc'\<close>, and all others keep what they rely on.\<close>

lemma slots_move:
  assumes ok: "slots_ok s" and th: "rs_threads s' = (rs_threads s)(t := pc')"
    and same: "\<And>u. u \<noteq> t \<Longrightarrow> same_for s s' u (rs_threads s u)" and pc: "pc_ok s' t pc'"
    and slot: "\<And>i u. slot pc' = Some i \<Longrightarrow> u \<noteq> t \<Longrightarrow> slot (rs_threads s u) \<noteq> Some i"
    and g: "rs_pid s' = rs_pid s" "\<And>i. mti_numreaders s' \<le> i \<Longrightarrow> mr_pid (mti_readers s' i) = 0" "me_rmutex s' \<noteq> R_clearing 0"
  shows "slots_ok s'"
  unfolding slots_ok_def
proof (intro conjI allI impI)
  show "rs_pid s' u \<noteq> 0" for u using slots_okD(1)[OF ok] g by simp
  show "pc_ok s' u (rs_threads s' u)" for u using pc_ok_frame[OF slots_okD(4)[OF ok] same] pc by (simp add: th)
  show "slot (rs_threads s' v) \<noteq> Some i" if "u \<noteq> v" "slot (rs_threads s' u) = Some i" for u v i
    using that slot[of i] slots_okD(5)[OF ok, of u v i] by (auto simp: th split: if_splits)
qed (use g in auto)

text \<open>A thread that holds a slot writes only to that slot, and a thread inside the mutex is alone there.\<close>

lemma slots_own:
  assumes ok: "slots_ok s" and t: "slot (rs_threads s t) = Some i" and u: "u \<noteq> t"
  shows "slot (rs_threads s u) \<noteq> Some i"
  using slots_okD(5)[OF ok, of t u i] t u by auto

lemma slots_local:
  assumes ok: "slots_ok s" and t: "slot (rs_threads s t) = Some i" "slot pc' = Some i \<or> slot pc' = None"
    and s': "rs_threads s' = (rs_threads s)(t := pc')" "rs_pid s' = rs_pid s" "rs_alive s' = rs_alive s" "mti_numreaders s \<le> mti_numreaders s'"
      "me_rmutex s' = me_rmutex s \<or> searching (rs_threads s t) \<and> me_rmutex s' = R_free"
      "\<And>j. j \<noteq> i \<Longrightarrow> mti_readers s' j = mti_readers s j" "i < mti_numreaders s' \<or> mr_pid (mti_readers s' i) = 0"
    and pc: "pc_ok s' t pc'"
  shows "slots_ok s'"
proof (rule slots_move[OF ok s'(1) _ pc])
  show "slot (rs_threads s u) \<noteq> Some j" if "slot pc' = Some j" "u \<noteq> t" for j u using slots_own[OF ok t(1) that(2)] t(2) that(1) by auto
  have lock: "me_rmutex s = R_thread t" if "searching (rs_threads s t)" using slots_okD(4)[OF ok, of t] that by (simp add: pc_ok_def)
  show "same_for s s' u (rs_threads s u)" if "u \<noteq> t" for u
    unfolding same_for_def using slots_own[OF ok t(1) that] s' slots_okD(4)[OF ok, of u] lock that by (auto simp: pc_ok_def)
  show "mr_pid (mti_readers s' j) = 0" if "mti_numreaders s' \<le> j" for j
    using that s'(4,6,7) slots_okD(2)[OF ok, of j] by (cases "j = i") auto
  show "me_rmutex s' \<noteq> R_clearing 0" using s'(5) slots_okD(3)[OF ok] by auto
qed (use s' in simp)

lemmas step_defs = renew_step_def end_step_def free_step_def begin_step_def scan_start_def scan_step_def commit_step_def
  abort_step_def recover_step_def check_step_def clear_step_def die_step_def start_step_def

lemma slots_init: "reader_init s \<Longrightarrow> slots_ok s"
  by (simp add: slots_ok_def reader_init_def pc_ok_def)

lemma upd_simps [simp]:
  "rs_threads (goto t pc s) = (rs_threads s)(t := pc)" "rs_threads (set_pid i p s) = rs_threads s" "rs_threads (set_txnid i v s) = rs_threads s"
  "mti_readers (goto t pc s) = mti_readers s" "mti_readers (set_pid i p s) = (mti_readers s)(i := (mti_readers s i)\<lparr>mr_pid := p\<rparr>)"
  "mti_readers (set_txnid i v s) = (mti_readers s)(i := (mti_readers s i)\<lparr>mr_txnid := v\<rparr>)"
  "rs_pid (goto t pc s) = rs_pid s" "rs_pid (set_pid i p s) = rs_pid s" "rs_pid (set_txnid i v s) = rs_pid s"
  "rs_alive (goto t pc s) = rs_alive s" "rs_alive (set_pid i p s) = rs_alive s" "rs_alive (set_txnid i v s) = rs_alive s"
  "mti_numreaders (goto t pc s) = mti_numreaders s" "mti_numreaders (set_pid i p s) = mti_numreaders s"
  "mti_numreaders (set_txnid i v s) = mti_numreaders s"
  "me_rmutex (goto t pc s) = me_rmutex s" "me_rmutex (set_pid i p s) = me_rmutex s" "me_rmutex (set_txnid i v s) = me_rmutex s"
  "mti_txnid (goto t pc s) = mti_txnid s" "mti_txnid (set_pid i p s) = mti_txnid s" "mti_txnid (set_txnid i v s) = mti_txnid s"
  "me_metas (goto t pc s) = me_metas s" "me_metas (set_pid i p s) = me_metas s" "me_metas (set_txnid i v s) = me_metas s"
  "rs_writer (goto t pc s) = rs_writer s" "rs_writer (set_pid i p s) = rs_writer s" "rs_writer (set_txnid i v s) = rs_writer s"
  "rs_pgoldest (goto t pc s) = rs_pgoldest s" "rs_pgoldest (set_pid i p s) = rs_pgoldest s" "rs_pgoldest (set_txnid i v s) = rs_pgoldest s"
  by (simp_all add: goto_def set_pid_def set_txnid_def)

lemma slots_renew:
  assumes ok: "slots_ok s" and al: "rs_alive s (rs_pid s t)" and st: "renew_step t s = Some s'"
  shows "slots_ok s'"
proof -
  note pc = slots_okD(4)[OF ok, of t]
  note L = slots_local[OF ok, where t = t]
  show ?thesis
  proof (cases "rs_threads s t")
    case Outside
    then have s': "me_rmutex s = R_free" "s' = goto t (Search 0) (s\<lparr>me_rmutex := R_thread t\<rparr>)"
      using st by (auto simp: renew_step_def split: if_splits)
    have none: "\<not> searching (rs_threads s u)" for u using slots_okD(4)[OF ok, of u] s' by (auto simp: pc_ok_def)
    show ?thesis
      by (rule slots_move[OF ok, where t = t and pc' = "Search 0"])
        (use s' al none slots_okD[OF ok] in \<open>auto simp: pc_ok_def same_for_def\<close>)
  next
    case (Search i)
    then have lock: "me_rmutex s = R_thread t" using pc by (simp add: pc_ok_def)
    have none: "\<not> searching (rs_threads s u)" if "u \<noteq> t" for u using slots_okD(4)[OF ok, of u] lock that by (auto simp: pc_ok_def)
    consider "s' = goto t (Search (i + 1)) s" "i < mti_numreaders s" | "s' = goto t Outside (s\<lparr>me_rmutex := R_free\<rparr>)"
      | "s' = goto t (Reset i) s" "mr_pid (mti_readers s i) = 0"
      using st Search slots_okD(2)[OF ok, of i] by (fastforce simp: renew_step_def split: if_splits)
    then show ?thesis
    proof cases
      case 1
      show ?thesis
        by (rule slots_move[OF ok, where t = t and pc' = "Search (i + 1)"])
          (use 1 al lock slots_okD[OF ok] in \<open>auto simp: pc_ok_def same_for_def\<close>)
    next
      case 2
      show ?thesis
        by (rule slots_move[OF ok, where t = t and pc' = Outside])
          (use 2 al none slots_okD[OF ok] in \<open>auto simp: pc_ok_def same_for_def\<close>)
    next
      case 3
      have "slot (rs_threads s u) \<noteq> Some i" if "u \<noteq> t" for u
        using slot_pid[OF slots_okD(4)[OF ok, of u]] none[OF that] slots_okD(1)[OF ok, of u] 3(2) by force
      moreover have "i \<le> mti_numreaders s" using pc Search by (simp add: pc_ok_def)
      ultimately show ?thesis
        by (intro slots_move[OF ok, where t = t and pc' = "Reset i"])
          (use 3 al lock slots_okD[OF ok] in \<open>auto simp: pc_ok_def same_for_def\<close>)
    qed
  next
    case (Reset i)
    show ?thesis by (rule L[of i "Publish i"]) (use Reset pc st in \<open>auto simp: renew_step_def pc_ok_def\<close>)
  next
    case (Publish i)
    show ?thesis by (rule L[of i "Claim i"]) (use Publish pc st in \<open>auto simp: renew_step_def pc_ok_def\<close>)
  next
    case (Claim i)
    show ?thesis by (rule L[of i "Load i"]) (use Claim pc st in \<open>auto simp: renew_step_def pc_ok_def\<close>)
  next
    case (Owned i)
    show ?thesis by (rule L[of i "Load i"]) (use Owned pc st in \<open>auto simp: renew_step_def pc_ok_def split: if_splits\<close>)
  next
    case (Load i)
    show ?thesis by (rule L[of i "Store i (mti_txnid s)"]) (use Load pc st in \<open>auto simp: renew_step_def pc_ok_def\<close>)
  next
    case (Store i v)
    show ?thesis by (rule L[of i "Recheck i"]) (use Store pc st in \<open>auto simp: renew_step_def pc_ok_def\<close>)
  next
    case (Recheck i)
    show ?thesis
      by (rule L[of i "if mr_txnid (mti_readers s i) \<noteq> mti_txnid s then Load i else Copy i (mr_txnid (mti_readers s i))"])
        (use Recheck pc st in \<open>auto simp: renew_step_def pc_ok_def split: if_splits\<close>)
  next
    case (Copy i v)
    show ?thesis by (rule L[of i "Running i v (mv_dbs (me_metas s (odd v)))"]) (use Copy pc st in \<open>auto simp: renew_step_def pc_ok_def\<close>)
  next
    case (Running i v m)
    then show ?thesis using st by (simp add: renew_step_def)
  qed
qed

lemma slots_end:
  assumes ok: "slots_ok s" and st: "end_step t s = Some s'"
  shows "slots_ok s'"
proof -
  obtain i v m where r: "rs_threads s t = Running i v m" "s' = goto t (Owned i) (set_txnid i (- 1) s)"
    using st by (auto simp: end_step_def split: reader_pc.splits)
  show ?thesis by (rule slots_local[OF ok, of t i "Owned i"]) (use r slots_okD(4)[OF ok, of t] in \<open>auto simp: pc_ok_def\<close>)
qed

lemma slots_free:
  assumes ok: "slots_ok s" and st: "free_step t s = Some s'"
  shows "slots_ok s'"
proof -
  obtain i where r: "rs_threads s t = Owned i" "s' = goto t Outside (set_pid i 0 s)"
    using st by (auto simp: free_step_def split: reader_pc.splits)
  show ?thesis by (rule slots_local[OF ok, of t i Outside]) (use r slots_okD(4)[OF ok, of t] in \<open>auto simp: pc_ok_def\<close>)
qed

text \<open>The steps of the writer do not touch the table.\<close>

definition same_slots :: "reader_sys \<Rightarrow> reader_sys \<Rightarrow> bool" where
  "same_slots s s' \<longleftrightarrow> rs_pid s' = rs_pid s \<and> rs_alive s' = rs_alive s \<and> me_rmutex s' = me_rmutex s \<and>
     mti_readers s' = mti_readers s \<and> mti_numreaders s' = mti_numreaders s \<and> rs_threads s' = rs_threads s"

lemma same_slots_ok: "same_slots s s' \<Longrightarrow> slots_ok s \<Longrightarrow> slots_ok s'"
  by (simp add: same_slots_def slots_ok_def pc_ok_def cong: reader_pc.case_cong)

lemma writer_same_slots:
  "begin_step e s = Some s' \<Longrightarrow> same_slots s s'" "scan_start s = Some s' \<Longrightarrow> same_slots s s'" "scan_step s = Some s' \<Longrightarrow> same_slots s s'"
  "commit_step s = Some s' \<Longrightarrow> same_slots s s'" "abort_step s = Some s' \<Longrightarrow> same_slots s s'" "recover_step s = Some s' \<Longrightarrow> same_slots s s'"
  by (auto simp: same_slots_def step_defs Let_def split: writer_pc.splits nat.splits if_splits)

lemma slots_frame:
  assumes ok: "slots_ok s" and th: "\<And>t. rs_threads s' t = rs_threads s t \<or> rs_threads s' t = Outside"
    and same: "\<And>t. rs_threads s' t \<noteq> Outside \<Longrightarrow> same_for s s' t (rs_threads s t)"
    and g: "rs_pid s' = rs_pid s" "\<And>i. mti_numreaders s' \<le> i \<Longrightarrow> mr_pid (mti_readers s' i) = 0" "me_rmutex s' \<noteq> R_clearing 0"
  shows "slots_ok s'"
  unfolding slots_ok_def
proof (intro conjI allI impI)
  show "rs_pid s' u \<noteq> 0" for u using slots_okD(1)[OF ok] g by simp
  show "pc_ok s' u (rs_threads s' u)" for u
  proof (cases "rs_threads s' u = Outside")
    case False
    then show ?thesis using pc_ok_frame[OF slots_okD(4)[OF ok] same] th[of u] by force
  qed (simp add: pc_ok_def)
  show "slot (rs_threads s' v) \<noteq> Some i" if "u \<noteq> v" "slot (rs_threads s' u) = Some i" for u v i
    using that slots_okD(5)[OF ok, of u v i] th[of u] th[of v] by auto
qed (use g in auto)

lemma slots_check: "slots_ok s \<Longrightarrow> check_step p s = Some s' \<Longrightarrow> slots_ok s'"
proof (rule slots_frame[of s])
  assume ok: "slots_ok s" and st: "check_step p s = Some s'"
  note pc = slots_okD(4)[OF ok]
  show "same_for s s' t (rs_threads s t)" for t
    using pc[of t] st by (auto simp: check_step_def same_for_def pc_ok_def split: reader_lock.splits if_splits)
  show "mr_pid (mti_readers s' i) = 0" if "mti_numreaders s' \<le> i" for i
    using that st slots_okD(2)[OF ok] by (auto simp: check_step_def split: reader_lock.splits if_splits)
  show "rs_threads s' t = rs_threads s t \<or> rs_threads s' t = Outside" "rs_pid s' = rs_pid s" "me_rmutex s' \<noteq> R_clearing 0" for t
    using st by (auto simp: check_step_def split: reader_lock.splits if_splits)
qed

lemma slots_clear: "slots_ok s \<Longrightarrow> clear_step j s = Some s' \<Longrightarrow> slots_ok s'"
proof (rule slots_frame[of s])
  assume ok: "slots_ok s" and st: "clear_step j s = Some s'"
  then obtain p where p: "me_rmutex s = R_clearing p" "p \<noteq> 0" "s' = (if mr_pid (mti_readers s j) = p then set_pid j 0 s else s)"
    using slots_okD(3)[OF ok] by (auto simp: clear_step_def split: reader_lock.splits if_splits)
  show "same_for s s' t (rs_threads s t)" for t
  proof -
    have "mr_pid (mti_readers s j) \<noteq> p" if "slot (rs_threads s t) = Some j"
    proof -
      have "rs_threads s t \<noteq> Outside" using that by auto
      then show ?thesis using slot_pid[OF slots_okD(4)[OF ok] that] slots_okD(4)[OF ok, of t] p by (auto simp: pc_ok_def split: if_splits)
    qed
    then show ?thesis using p by (auto simp: same_for_def)
  qed
  show "mr_pid (mti_readers s' i) = 0" if "mti_numreaders s' \<le> i" for i using that p slots_okD(2)[OF ok, of i] by (auto split: if_splits)
qed (auto simp: clear_step_def split: reader_lock.splits if_splits dest: slots_okD(3))

lemma slots_die: "slots_ok s \<Longrightarrow> slots_ok (die_step p s)"
proof (rule slots_frame[of s])
  assume ok: "slots_ok s"
  show "same_for s (die_step p s) t (rs_threads s t)" if "rs_threads (die_step p s) t \<noteq> Outside" for t
    using that slots_okD(4)[OF ok, of t] by (auto simp: same_for_def die_step_def pc_ok_def split: reader_lock.splits if_splits)
  show "rs_threads (die_step p s) t = rs_threads s t \<or> rs_threads (die_step p s) t = Outside" "rs_pid (die_step p s) = rs_pid s" for t
    by (simp_all add: die_step_def)
  show "mr_pid (mti_readers (die_step p s) i) = 0" if "mti_numreaders (die_step p s) \<le> i" for i
    using that slots_okD(2)[OF ok, of i] by (simp add: die_step_def)
  show "me_rmutex (die_step p s) \<noteq> R_clearing 0" using slots_okD(3)[OF ok] by (auto simp: die_step_def split: reader_lock.splits)
qed

lemma slots_start: "slots_ok s \<Longrightarrow> slots_ok (start_step p s)"
  by (rule slots_frame[of s]) (auto simp: start_step_def same_for_def dest: slots_okD)

lemma slots_step: "reader_step s s' \<Longrightarrow> slots_ok s \<Longrightarrow> slots_ok s'"
  by (erule reader_step.cases)
    (blast intro: slots_renew slots_end slots_free slots_check slots_clear slots_die slots_start same_slots_ok dest: writer_same_slots)+

lemma slots_reach: "reader_reach s \<Longrightarrow> slots_ok s"
  by (induction rule: reader_reach.induct) (blast intro: slots_init slots_step)+

section \<open>Meta pages\<close>

text \<open>
  The number of the writer's transaction, and the two meta pages: one holds the last committed transaction, the other an
  older one, unless the writer has already completed it.
\<close>

definition writer_txn :: "writer_pc \<Rightarrow> u64 option" where
  "writer_txn w = (case w of W_txn e T \<Rightarrow> Some T | W_scan e T i old \<Rightarrow> Some T | W_read e T i old \<Rightarrow> Some T
     | W_meta e T \<Rightarrow> Some T | W_commit e T \<Rightarrow> Some T | _ \<Rightarrow> None)"

definition other_ok :: "u64 \<Rightarrow> meta_view \<Rightarrow> writer_pc \<Rightarrow> bool" where
  "other_ok v other w \<longleftrightarrow>
     (if mv_txnid other = v + 1 then mv_dbs other = v + 1 \<and> (w = W_dead \<or> (\<exists>e. w = W_commit e (v + 1)))
      else (mv_txnid other < v \<or> v = 0 \<and> mv_txnid other = 0) \<and> (\<forall>e T. w \<noteq> W_commit e T) \<and>
        (\<forall>e T. w = W_meta e T \<longrightarrow> mv_dbs other = v + 1))"

definition metas_ok :: "reader_sys \<Rightarrow> bool" where
  "metas_ok s \<longleftrightarrow> mti_txnid s \<noteq> - 1 \<and> (rs_writer s \<noteq> W_idle \<longrightarrow> mti_txnid s + 1 \<noteq> - 1) \<and>
     (\<forall>T. writer_txn (rs_writer s) = Some T \<longrightarrow> T = mti_txnid s + 1) \<and>
     me_metas s (odd (mti_txnid s)) = \<lparr>mv_txnid = mti_txnid s, mv_dbs = mti_txnid s\<rparr> \<and>
     other_ok (mti_txnid s) (me_metas s (even (mti_txnid s))) (rs_writer s)"

lemma next_txn:
  fixes T :: u64
  shows "T \<noteq> - 1 \<Longrightarrow> T < T + 1" "odd (T + 1) \<longleftrightarrow> even T" "T + 1 \<noteq> T" "T \<noteq> T + 1 + 1" "T < - 2 \<Longrightarrow> T + 1 \<noteq> - 1" "T < - 2 \<Longrightarrow> T \<noteq> - 1"
proof -
  show "T < T + 1" if "T \<noteq> - 1"
  proof -
    have "1 + T \<noteq> 0" using that add_eq_0_iff[of 1 T] by simp
    then show ?thesis using unatSuc[of T] by (simp add: word_less_nat_alt add.commute)
  qed
  show "T + 1 \<noteq> - 1" if "T < - 2"
  proof
    assume "T + 1 = - 1"
    then have "T + 1 - 1 = - 1 - 1" by (rule arg_cong)
    then have "T = - 2" by simp
    then show False using that by simp
  qed
  show "T \<noteq> - 1" if "T < - 2" using that by auto
qed simp_all

lemma metas_init: "reader_init s \<Longrightarrow> metas_ok s"
  unfolding metas_ok_def other_ok_def
  using next_txn(1)[of "mti_txnid s"] by (auto simp: reader_init_def writer_txn_def)

text \<open>Only the writer changes what \<open>metas_ok\<close> speaks of.\<close>

lemma metas_same:
  "metas_ok s \<Longrightarrow> mti_txnid s' = mti_txnid s \<Longrightarrow> me_metas s' = me_metas s \<Longrightarrow> rs_writer s' = rs_writer s \<Longrightarrow> metas_ok s'"
  by (simp add: metas_ok_def)

lemma reader_same_metas:
  "renew_step t s = Some s' \<Longrightarrow> mti_txnid s' = mti_txnid s \<and> me_metas s' = me_metas s \<and> rs_writer s' = rs_writer s \<and> rs_pgoldest s' = rs_pgoldest s"
  "end_step t s = Some s' \<Longrightarrow> mti_txnid s' = mti_txnid s \<and> me_metas s' = me_metas s \<and> rs_writer s' = rs_writer s \<and> rs_pgoldest s' = rs_pgoldest s"
  "free_step t s = Some s' \<Longrightarrow> mti_txnid s' = mti_txnid s \<and> me_metas s' = me_metas s \<and> rs_writer s' = rs_writer s \<and> rs_pgoldest s' = rs_pgoldest s"
  "check_step p s = Some s' \<Longrightarrow> mti_txnid s' = mti_txnid s \<and> me_metas s' = me_metas s \<and> rs_writer s' = rs_writer s \<and> rs_pgoldest s' = rs_pgoldest s"
  "clear_step j s = Some s' \<Longrightarrow> mti_txnid s' = mti_txnid s \<and> me_metas s' = me_metas s \<and> rs_writer s' = rs_writer s \<and> rs_pgoldest s' = rs_pgoldest s"
  by (auto simp: step_defs split: reader_pc.splits reader_lock.splits if_splits)

lemma writer_txn_simps [simp]:
  "writer_txn W_idle = None" "writer_txn (W_txn e T) = Some T" "writer_txn (W_scan e T i old) = Some T" "writer_txn (W_read e T i old) = Some T"
  "writer_txn (W_meta e T) = Some T" "writer_txn (W_commit e T) = Some T" "writer_txn W_dead = None"
  "writer_of W_idle = None" "writer_of (W_txn e T) = Some e" "writer_of (W_scan e T i old) = Some e" "writer_of (W_read e T i old) = Some e"
  "writer_of (W_meta e T) = Some e" "writer_of (W_commit e T) = Some e" "writer_of W_dead = None"
  by (simp_all add: writer_txn_def writer_of_def)

lemma other_ok_cong: "other_ok v m w \<Longrightarrow> (\<And>e T. w \<noteq> W_commit e T) \<Longrightarrow> w \<noteq> W_dead \<Longrightarrow> (\<And>e T. w' \<noteq> W_commit e T) \<Longrightarrow>
    (\<And>e T. w' \<noteq> W_meta e T) \<Longrightarrow> other_ok v m w'"
  by (auto simp: other_ok_def split: if_splits)

text \<open>A step that leaves the meta pages alone, outside the commit.\<close>

lemma metas_frame:
  assumes ok: "metas_ok s" and same: "mti_txnid s' = mti_txnid s" "me_metas s' = me_metas s"
    and w: "\<And>e T. rs_writer s \<noteq> W_commit e T" "rs_writer s \<noteq> W_dead" "\<And>e T. rs_writer s' \<noteq> W_commit e T" "\<And>e T. rs_writer s' \<noteq> W_meta e T"
      "rs_writer s' \<noteq> W_idle \<Longrightarrow> mti_txnid s + 1 \<noteq> - 1" "\<And>T. writer_txn (rs_writer s') = Some T \<Longrightarrow> T = mti_txnid s + 1"
  shows "metas_ok s'"
proof -
  have "other_ok (mti_txnid s) (me_metas s (even (mti_txnid s))) (rs_writer s')"
    using other_ok_cong[OF _ w(1-4)] ok by (simp add: metas_ok_def)
  then show ?thesis unfolding metas_ok_def same using ok w(5,6) by (auto simp: metas_ok_def)
qed

lemma metas_writer:
  assumes ok: "metas_ok s"
  shows "rs_writer s \<noteq> W_idle \<Longrightarrow> mti_txnid s + 1 \<noteq> - 1" "writer_txn (rs_writer s) = Some T \<Longrightarrow> T = mti_txnid s + 1"
  using ok by (auto simp: metas_ok_def)

lemma metas_work:
  assumes ok: "metas_ok s"
    and st: "begin_step e s = Some s' \<or> scan_start s = Some s' \<or> scan_step s = Some s' \<or> abort_step s = Some s'"
  shows "metas_ok s'"
proof (rule metas_frame[OF ok])
  note W = metas_writer[OF ok]
  show "mti_txnid s' = mti_txnid s" "me_metas s' = me_metas s" "\<And>e T. rs_writer s \<noteq> W_commit e T" "rs_writer s \<noteq> W_dead"
    "\<And>e T. rs_writer s' \<noteq> W_commit e T" "\<And>e T. rs_writer s' \<noteq> W_meta e T"
    using st by (auto simp: step_defs Let_def split: writer_pc.splits nat.splits if_splits)
  show "mti_txnid s + 1 \<noteq> - 1" if "rs_writer s' \<noteq> W_idle"
  proof (cases "rs_writer s = W_idle")
    case True
    then have "mti_txnid s < - 2" using st by (auto simp: step_defs split: if_splits)
    then show ?thesis by (rule next_txn(5))
  qed (rule W(1))
  show "T = mti_txnid s + 1" if "writer_txn (rs_writer s') = Some T" for T
    using that st W(2) by (auto simp: step_defs Let_def split: writer_pc.splits nat.splits if_splits)
qed

lemma metas_commit:
  assumes ok: "metas_ok s" and st: "commit_step s = Some s'"
  shows "metas_ok s'"
proof -
  define v where "v = mti_txnid s"
  define T where "T = v + 1"
  define o' where "o' = me_metas s (even v)"
  have v: "v \<noteq> - 1" "me_metas s (odd v) = \<lparr>mv_txnid = v, mv_dbs = v\<rparr>" "other_ok v o' (rs_writer s)"
    using ok by (simp_all add: metas_ok_def v_def o'_def)
  have "rs_writer s \<noteq> W_idle" using st by (auto simp: commit_step_def)
  from metas_writer(1)[OF ok this] have "T \<noteq> - 1" by (simp add: T_def v_def)
  moreover have "odd T \<longleftrightarrow> even v" "v \<noteq> T" "v < T" "v \<noteq> T + 1"
    using next_txn(1-4)[of v] v(1) by (simp_all add: T_def)
  ultimately have T: "T \<noteq> - 1" "odd T \<longleftrightarrow> even v" "v \<noteq> T" "v < T" "v \<noteq> T + 1" by simp_all
  have w: "writer_txn (rs_writer s) = Some U \<Longrightarrow> U = T" for U using metas_writer(2)[OF ok] by (simp add: T_def v_def)
  consider e where "rs_writer s = W_txn e T" | e where "rs_writer s = W_meta e T" | e where "rs_writer s = W_commit e T"
    using st w by (cases "rs_writer s") (simp_all add: commit_step_def)
  then show ?thesis
  proof cases
    case 1
    then have s': "s' = s\<lparr>me_metas := (me_metas s)(even v := o'\<lparr>mv_dbs := T\<rparr>), rs_writer := W_meta e T\<rparr>"
      using st T by (simp add: commit_step_def o'_def)
    have "mv_txnid o' \<noteq> T \<and> (mv_txnid o' < v \<or> v = 0 \<and> mv_txnid o' = 0)" using v(3) 1 by (auto simp: other_ok_def T_def split: if_splits)
    then have "other_ok v (o'\<lparr>mv_dbs := T\<rparr>) (W_meta e T)" by (simp add: other_ok_def T_def)
    then show ?thesis using v T unfolding metas_ok_def s' by (simp flip: v_def T_def)
  next
    case 2
    then have s': "s' = s\<lparr>me_metas := (me_metas s)(even v := o'\<lparr>mv_txnid := T\<rparr>), rs_writer := W_commit e T\<rparr>"
      using st T by (simp add: commit_step_def o'_def)
    have "mv_dbs o' = T" using v(3) 2 by (auto simp: other_ok_def T_def split: if_splits)
    then have "other_ok v (o'\<lparr>mv_txnid := T\<rparr>) (W_commit e T)" by (simp add: other_ok_def T_def)
    then show ?thesis using v T unfolding metas_ok_def s' by (simp flip: v_def T_def)
  next
    case 3
    then have s': "s' = s\<lparr>mti_txnid := T, rs_writer := W_idle\<rparr>" using st by (simp add: commit_step_def)
    have o: "o' = \<lparr>mv_txnid = T, mv_dbs = T\<rparr>" using v(3) 3 by (cases o') (auto simp: other_ok_def T_def split: if_splits)
    have "even T \<longleftrightarrow> odd v" using T(2) by blast
    then show ?thesis using v(1,2) T unfolding metas_ok_def s' by (simp add: other_ok_def o flip: o'_def)
  qed
qed

lemma metas_recover:
  assumes ok: "metas_ok s" and st: "recover_step s = Some s'"
  shows "metas_ok s'" "mti_txnid s \<le> mti_txnid s'"
proof -
  define v where "v = mti_txnid s"
  define T where "T = v + 1"
  define o' where "o' = me_metas s (even v)"
  have dead: "rs_writer s = W_dead" using st by (auto simp: recover_step_def split: if_splits)
  have v: "v \<noteq> - 1" "T \<noteq> - 1" "me_metas s (odd v) = \<lparr>mv_txnid = v, mv_dbs = v\<rparr>" "other_ok v o' W_dead"
    using ok dead by (simp_all add: metas_ok_def v_def o'_def T_def)
  have T: "odd T \<longleftrightarrow> even v" "v \<noteq> T" "v < T" "v \<noteq> T + 1" using next_txn(1-4)[of v] v(1) by (simp_all add: T_def)
  define k where "k = mdb_env_pick_meta False (\<lambda>k. mv_txnid (me_metas s k))"
  have s': "s' = s\<lparr>mti_txnid := mv_txnid (me_metas s k), rs_writer := W_idle\<rparr>" using st dead by (simp add: recover_step_def k_def)
  have k: "k \<longleftrightarrow> mv_txnid (me_metas s False) < mv_txnid (me_metas s True)" by (simp add: k_def mdb_env_pick_meta_def)
  have "metas_ok s' \<and> v \<le> mti_txnid s'"
  proof (cases "mv_txnid o' = T")
    case True
    then have o: "o' = \<lparr>mv_txnid = T, mv_dbs = T\<rparr>" using v(4) by (cases o') (simp add: other_ok_def T_def)
    have "k = even v" using k v(3) o T(3) unfolding o'_def by (cases "even v") auto
    then have s': "s' = s\<lparr>mti_txnid := T, rs_writer := W_idle\<rparr>" using s' o by (simp add: o'_def)
    have "even T \<longleftrightarrow> odd v" using T(1) by blast
    then show ?thesis using v(1-3) T unfolding metas_ok_def s' by (simp add: other_ok_def o flip: o'_def)
  next
    case False
    then have lt: "mv_txnid o' < v \<or> v = 0 \<and> mv_txnid o' = 0" using v(4) by (simp add: other_ok_def T_def)
    have "mv_txnid o' \<le> v" using lt by auto
    moreover have "odd v \<Longrightarrow> v \<noteq> 0" by auto
    then have "odd v \<Longrightarrow> mv_txnid o' < v" using lt by blast
    ultimately have "k = odd v" using k v(3) unfolding o'_def by (cases "even v") (simp_all add: not_less)
    then have s': "s' = s\<lparr>mti_txnid := v, rs_writer := W_idle\<rparr>" using s' v(3) by simp
    have "other_ok v o' W_idle" using lt False by (simp add: other_ok_def T_def)
    then show ?thesis using v unfolding metas_ok_def s' by (simp flip: o'_def)
  qed
  then show "metas_ok s'" "mti_txnid s \<le> mti_txnid s'" by (simp_all add: v_def)
qed

lemma other_ok_dead: "other_ok v m w \<Longrightarrow> other_ok v m W_dead"
  by (cases "mv_txnid m = v + 1") (simp_all add: other_ok_def)

lemma metas_die:
  assumes ok: "metas_ok s"
  shows "metas_ok (die_step p s)"
proof (cases "writer_of (rs_writer s) = Some p")
  case True
  then have "rs_writer s \<noteq> W_idle" by auto
  moreover have "rs_writer (die_step p s) = W_dead" using True by (simp add: die_step_def)
  moreover have "me_metas (die_step p s) = me_metas s" "mti_txnid (die_step p s) = mti_txnid s" by (simp_all add: die_step_def)
  ultimately show ?thesis using ok other_ok_dead unfolding metas_ok_def by (metis option.distinct(1) writer_txn_simps(7))
next
  case False
  then show ?thesis by (intro metas_same[OF ok]) (simp_all add: die_step_def)
qed

lemma metas_step:
  assumes "reader_step s s'" "metas_ok s"
  shows "metas_ok s'"
  using assms(1)
proof cases
  case (start p)
  then show ?thesis using assms(2) by (simp add: metas_ok_def start_step_def)
qed (use assms(2) in \<open>blast intro: metas_same metas_work metas_commit metas_recover metas_die dest: reader_same_metas\<close>)+

lemma metas_reach: "reader_reach s \<Longrightarrow> metas_ok s"
  by (induction rule: reader_reach.induct) (blast intro: metas_init metas_step)+

section \<open>The boundary\<close>

text \<open>
  The number of a snapshot in use is committed, and neither a boundary in use nor the one a scan has so far is later than
  it, unless the scan has the reader's slot still in front of it.
\<close>

definition bound_ok :: "reader_sys \<Rightarrow> bool" where
  "bound_ok s \<longleftrightarrow>
     (\<forall>t i v. active (rs_threads s t) = Some (i, v) \<longrightarrow> v \<le> mti_txnid s \<and> (\<forall>e. rs_pgoldest s e \<le> v) \<and>
        (\<forall>e T k old. rs_writer s = W_scan e T k old \<longrightarrow> old \<le> v \<or> i < k) \<and>
        (\<forall>e T k old. rs_writer s = W_read e T k old \<longrightarrow> old \<le> v \<or> i \<le> k)) \<and>
     (\<forall>e. rs_pgoldest s e \<le> mti_txnid s) \<and>
     (\<forall>e T k old. rs_writer s = W_scan e T k old \<or> rs_writer s = W_read e T k old \<longrightarrow> old \<le> mti_txnid s)"

lemma bound_init: "reader_init s \<Longrightarrow> bound_ok s"
  by (simp add: bound_ok_def reader_init_def)

text \<open>A reader becomes active when the number it announced is still the last committed one.\<close>

lemma bound_renew:
  assumes ok: "bound_ok s" and st: "renew_step t s = Some s'"
  shows "bound_ok s'"
proof -
  note same = reader_same_metas(1)[OF st]
  have "active (rs_threads s' t) = Some (i, v) \<Longrightarrow> active (rs_threads s t) = Some (i, v) \<or> v = mti_txnid s" for i v
    using st by (auto simp: renew_step_def split: reader_pc.splits if_splits)
  moreover have "rs_threads s' u = rs_threads s u" if "u \<noteq> t" for u
    using st that by (auto simp: renew_step_def split: reader_pc.splits if_splits)
  ultimately have act: "active (rs_threads s' u) = Some (i, v) \<Longrightarrow> active (rs_threads s u) = Some (i, v) \<or> v = mti_txnid s" for u i v
    by (cases "u = t") auto
  show ?thesis
    unfolding bound_ok_def
    using same ok act unfolding bound_ok_def by (metis order_refl)
qed

text \<open>The steps that make no reader active and leave the numbers alone.\<close>

lemma bound_frame:
  assumes ok: "bound_ok s" and act: "\<And>t. rs_threads s' t = rs_threads s t \<or> active (rs_threads s' t) = None"
    and same: "mti_txnid s' = mti_txnid s" "rs_pgoldest s' = rs_pgoldest s"
    and w: "rs_writer s' = rs_writer s \<or> (\<forall>e T k old. rs_writer s' \<noteq> W_scan e T k old \<and> rs_writer s' \<noteq> W_read e T k old)"
  shows "bound_ok s'"
proof -
  have "active (rs_threads s' t) = Some (i, v) \<Longrightarrow> active (rs_threads s t) = Some (i, v)" for t i v using act[of t] by auto
  then show ?thesis using ok w unfolding bound_ok_def same by metis
qed

lemma bound_scan_start:
  assumes ok: "bound_ok s" and sl: "slots_ok s" and m: "metas_ok s" and st: "scan_start s = Some s'"
  shows "bound_ok s'"
proof -
  obtain e T where w: "rs_writer s = W_txn e T" "s' = s\<lparr>rs_writer := W_scan e T (mti_numreaders s) (T - 1)\<rparr>"
    using st by (auto simp: scan_start_def split: writer_pc.splits)
  have T: "T - 1 = mti_txnid s" using metas_writer(2)[OF m, of T] w by simp
  have "i < mti_numreaders s" if "active (rs_threads s t) = Some (i, v)" for t i v
    using that slots_okD(4)[OF sl, of t] by (auto simp: active_def pc_ok_def split: reader_pc.splits)
  then show ?thesis using ok unfolding bound_ok_def w(2) T by auto
qed

lemma bound_scan:
  assumes ok: "bound_ok s" and sl: "slots_ok s" and st: "scan_step s = Some s'"
  shows "bound_ok s'"
proof -
  have act: "mr_pid (mti_readers s i) \<noteq> 0" "mr_txnid (mti_readers s i) = v" if "active (rs_threads s t) = Some (i, v)" for t i v
    using that slots_okD(4)[OF sl, of t] slots_okD(1)[OF sl, of t] by (auto simp: active_def pc_ok_def split: reader_pc.splits)
  consider e T old where "rs_writer s = W_scan e T 0 old" | e T i old where "rs_writer s = W_scan e T (Suc i) old"
    | e T i old where "rs_writer s = W_read e T i old"
    using st by (auto simp: scan_step_def split: writer_pc.splits nat.splits)
  then show ?thesis
  proof cases
    case 1
    then have s': "s' = s\<lparr>rs_pgoldest := (rs_pgoldest s)(e := old), rs_writer := W_txn e T\<rparr>" using st by (simp add: scan_step_def)
    show ?thesis using ok 1 unfolding bound_ok_def s' by fastforce
  next
    case 2
    show ?thesis
    proof (cases "mr_pid (mti_readers s i) = 0")
      case True
      then have s': "s' = s\<lparr>rs_writer := W_scan e T i old\<rparr>" using st 2 by (simp add: scan_step_def)
      have "old \<le> v \<or> j < i" if "active (rs_threads s t) = Some (j, v)" for t j v
        using ok 2 that act(1)[OF that] True unfolding bound_ok_def by (metis less_SucE)
      then show ?thesis using ok 2 unfolding bound_ok_def s' by auto
    next
      case False
      then have s': "s' = s\<lparr>rs_writer := W_read e T i old\<rparr>" using st 2 by (simp add: scan_step_def)
      have "old \<le> v \<or> j \<le> i" if "active (rs_threads s t) = Some (j, v)" for t j v
        using ok 2 that unfolding bound_ok_def by (metis less_Suc_eq_le)
      then show ?thesis using ok 2 unfolding bound_ok_def s' by auto
    qed
  next
    case 3
    define new where "new = (if old > mr_txnid (mti_readers s i) then mr_txnid (mti_readers s i) else old)"
    have s': "s' = s\<lparr>rs_writer := W_scan e T i new\<rparr>" using st 3 by (simp add: scan_step_def new_def Let_def)
    have le: "new \<le> old" "new \<le> mr_txnid (mti_readers s i)" by (auto simp: new_def)
    have "new \<le> v \<or> j < i" if "active (rs_threads s t) = Some (j, v)" for t j v
    proof -
      have "old \<le> v \<or> j \<le> i" using ok 3 that unfolding bound_ok_def by metis
      then show ?thesis using le act(2)[OF that] by (metis nat_less_le order_trans)
    qed
    moreover have "old \<le> mti_txnid s" using ok 3 unfolding bound_ok_def by metis
    then have "new \<le> mti_txnid s" using le(1) by (rule order_trans[rotated])
    ultimately show ?thesis using ok unfolding bound_ok_def s' by auto
  qed
qed

lemma bound_mti:
  assumes ok: "bound_ok s" and le: "mti_txnid s \<le> v" and s': "s' = s\<lparr>mti_txnid := v, rs_writer := W_idle\<rparr>"
  shows "bound_ok s'"
  using ok le unfolding bound_ok_def s' by (fastforce intro: order_trans)

lemma bound_commit:
  assumes ok: "bound_ok s" and m: "metas_ok s" and st: "commit_step s = Some s'"
  shows "bound_ok s'"
proof (cases "\<exists>e T. rs_writer s = W_commit e T")
  case True
  then obtain e T where w: "rs_writer s = W_commit e T" by blast
  have "mti_txnid s \<le> T" using metas_writer(2)[OF m, of T] next_txn(1)[of "mti_txnid s"] w m by (simp add: metas_ok_def)
  moreover have "s' = s\<lparr>mti_txnid := T, rs_writer := W_idle\<rparr>" using st w by (simp add: commit_step_def)
  ultimately show ?thesis by (rule bound_mti[OF ok])
next
  case False
  then show ?thesis using st by (intro bound_frame[OF ok]) (auto simp: commit_step_def split: writer_pc.splits)
qed

lemma bound_step:
  assumes st: "reader_step s s'" and ok: "bound_ok s" and sl: "slots_ok s" and m: "metas_ok s"
  shows "bound_ok s'"
  using st
proof cases
  case (renew t)
  then show ?thesis using bound_renew[OF ok] by blast
next
  case (recover)
  then have "s' = s\<lparr>mti_txnid := mti_txnid s', rs_writer := W_idle\<rparr>" by (auto simp: recover_step_def split: if_splits)
  then show ?thesis by (rule bound_mti[OF ok metas_recover(2)[OF m recover]])
next
  case scan_begin
  then show ?thesis using bound_scan_start[OF ok sl m] by blast
next
  case scan
  then show ?thesis using bound_scan[OF ok sl] by blast
next
  case commit
  then show ?thesis using bound_commit[OF ok m] by blast
qed (rule bound_frame[OF ok]; auto simp: step_defs split: reader_pc.splits reader_lock.splits writer_pc.splits if_splits)+

lemma bound_reach: "reader_reach s \<Longrightarrow> bound_ok s"
proof (induction rule: reader_reach.induct)
  case (step s s')
  then show ?case using bound_step[OF step.hyps(2) step.IH slots_reach metas_reach] by blast
qed (rule bound_init)

text \<open>Two processes with two threads each, after transaction 1.\<close>

definition sample_sys :: reader_sys where
  "sample_sys = \<lparr>rs_pid = (\<lambda>t. t div 2 + 1), rs_alive = (\<lambda>p. True), me_maxreaders = 126,
     mti_readers = (\<lambda>i. \<lparr>mr_pid = 0, mr_txnid = 0\<rparr>), mti_numreaders = 0, mti_txnid = 1,
     me_metas = (\<lambda>k. if k then \<lparr>mv_txnid = 1, mv_dbs = 1\<rparr> else \<lparr>mv_txnid = 0, mv_dbs = 0\<rparr>),
     me_rmutex = R_free, rs_threads = (\<lambda>t. Outside), rs_writer = W_idle, rs_pgoldest = (\<lambda>e. 0)\<rparr>"

lemma sample_sys_reach: "reader_reach sample_sys"
  by (rule reader_reach.init) (simp add: reader_init_def sample_sys_def)

lemma below_minus_2 [simp]: "(1 :: u64) < - 2" "(2 :: u64) < - 2"
  by (code_simp, code_simp)

definition sample_claim :: "nat \<Rightarrow> reader_act list" where
  "sample_claim t = [A_renew t, A_renew t, A_renew t, A_renew t, A_renew t, A_renew t, A_renew t, A_renew t]"

lemmas run_simps = sample_claim_def sample_sys_def step_defs goto_def set_pid_def set_txnid_def

text \<open>A reader of the snapshot 1, a commit, and the next writer has looked for the oldest reader.\<close>

lemma sample_boundary_run:
  "\<exists>s. reader_run (sample_claim 0 @ [A_begin 2, A_commit, A_commit, A_commit, A_begin 2, A_scan_start, A_scan, A_scan, A_scan]) sample_sys = Some s \<and>
     rs_threads s 0 = Copy 0 1 \<and> rs_pgoldest s 2 = 1 \<and> mti_txnid s = 2 \<and> rs_writer s = W_txn 2 3"
  by (simp add: run_simps)

lemma sample_race_run:
  "\<exists>s. reader_run (sample_claim 0 @ [A_begin 2, A_commit, A_commit, A_commit, A_begin 2, A_commit, A_renew 0]) sample_sys = Some s \<and>
     rs_threads s 0 = Running 0 1 3 \<and> mti_txnid s = 2"
  by (simp add: run_simps)

text \<open>Two readers, and a writer that dies with a complete meta page.\<close>

lemma sample_two_run:
  "\<exists>s. reader_run (sample_claim 0 @ sample_claim 2 @ [A_begin 1, A_commit, A_commit]) sample_sys = Some s \<and>
     slot (rs_threads s 0) = Some 0 \<and> slot (rs_threads s 2) = Some 1 \<and> rs_writer s = W_commit 1 2"
  by (simp add: run_simps)

lemma sample_dead_run:
  "\<exists>s. reader_run (sample_claim 2 @ [A_begin 1, A_commit, A_commit, A_die 1]) sample_sys = Some s \<and>
     rs_writer s = W_dead \<and> mti_txnid s = 1 \<and> me_metas s False = \<lparr>mv_txnid = 2, mv_dbs = 2\<rparr> \<and> me_metas s True = \<lparr>mv_txnid = 1, mv_dbs = 1\<rparr>"
  by (simp add: run_simps)

section \<open>What the protocol guarantees\<close>

text \<open>C10. The reader table protects snapshots: while a thread has an active read transaction, its slot shows its process and
  the number of its snapshot, the slot is among those that a writer scans, and no boundary that any process found or keeps
  (\<open>me_pgoldest\<close>) is later than the snapshot, whatever readers, writers, deaths and cleanups came in between. So the records
  of the free database with smaller numbers than the boundary, which are all that \<open>mdb_page_alloc\<close> uses, are of older
  transactions than the snapshot.\<close>

theorem reader_boundary_safe:
  assumes "reader_reach s" "active (rs_threads s t) = Some (i, v)"
  shows "rs_pgoldest s e \<le> v \<and> v \<le> mti_txnid s \<and> i < mti_numreaders s \<and> mti_readers s i = \<lparr>mr_pid = rs_pid s t, mr_txnid = v\<rparr>"
proof -
  have b: "v \<le> mti_txnid s \<and> rs_pgoldest s e \<le> v" using bound_reach[OF assms(1)] assms(2) unfolding bound_ok_def by blast
  have "pc_ok s t (rs_threads s t)" by (rule slots_okD(4)[OF slots_reach[OF assms(1)]])
  then show ?thesis using b assms(2) by (cases "rs_threads s t") (auto simp: pc_ok_def)
qed

theorem reader_boundary_safe_witness:
  "\<exists>s. reader_reach s \<and> rs_threads s 0 = Copy 0 1 \<and> mti_txnid s = 2 \<and> rs_pgoldest s 2 = 1 \<and> rs_pgoldest s 2 \<le> 1 \<and>
     mti_readers s 0 = \<lparr>mr_pid = rs_pid s 0, mr_txnid = 1\<rparr>"
proof -
  obtain s where r: "reader_reach s" and s: "rs_threads s 0 = Copy 0 1" "rs_pgoldest s 2 = 1" "mti_txnid s = 2"
    using sample_boundary_run run_reach[OF _ sample_sys_reach] by blast
  have "active (rs_threads s 0) = Some (0, 1)" using s(1) by simp
  from reader_boundary_safe[OF r this, of 2] show ?thesis using r s by blast
qed

text \<open>C12. A slot belongs to one thread: two threads never hold the same slot, and the slot of a thread carries the number of
  its process from the time it is claimed until the thread gives it up, also while slots of dead processes are cleared. So a
  new transaction in a slot that a thread already has never fails with \<open>MDB_BAD_RSLOT\<close>.\<close>

theorem reader_slots_exclusive:
  assumes "reader_reach s" "slot (rs_threads s t) = Some i" "u \<noteq> t"
  shows "slot (rs_threads s u) \<noteq> Some i \<and> mr_pid (mti_readers s i) = (if searching (rs_threads s t) then 0 else rs_pid s t) \<and>
    (rs_threads s t \<noteq> Owned i \<or> renew_step t s = Some (goto t (Load i) s))"
proof -
  note ok = slots_reach[OF assms(1)]
  have "mti_readers s i = \<lparr>mr_pid = rs_pid s t, mr_txnid = - 1\<rparr>" if "rs_threads s t = Owned i"
    using slots_okD(4)[OF ok, of t] that by (simp add: pc_ok_def)
  then show ?thesis using slots_own[OF ok assms(2,3)] slot_pid[OF slots_okD(4)[OF ok] assms(2)] by (auto simp: renew_step_def)
qed

theorem reader_slots_exclusive_witness:
  "\<exists>s. reader_reach s \<and> slot (rs_threads s 0) = Some 0 \<and> slot (rs_threads s 2) \<noteq> Some 0"
proof -
  obtain s where r: "reader_reach s" and s: "slot (rs_threads s 0) = Some 0"
    using sample_two_run run_reach[OF _ sample_sys_reach] by blast
  from reader_slots_exclusive[OF r s, of 2] show ?thesis using r s by auto
qed

text \<open>The scan of the steps is \<open>mdb_find_oldest\<close>: a writer that is not disturbed goes through the loop and keeps as its
  boundary what the function returns for the table.\<close>

lemma scan_loop:
  assumes "rs_writer s = W_scan e T k old"
  shows "\<exists>s'. rtranclp reader_step s s' \<and> rs_writer s' = W_txn e T \<and> same_slots s s' \<and>
    rs_pgoldest s' e = foldl (\<lambda>oldest r. if mr_pid r \<noteq> 0 \<and> oldest > mr_txnid r then mr_txnid r else oldest) old (rev (map (mti_readers s) [0..<k]))"
  using assms
proof (induction k arbitrary: s old)
  case 0
  have st: "scan_step s = Some (s\<lparr>rs_pgoldest := (rs_pgoldest s)(e := old), rs_writer := W_txn e T\<rparr>)" using 0 by (simp add: scan_step_def)
  show ?case by (rule exI, rule conjI, rule r_into_rtranclp, rule reader_step.scan, rule st) (simp add: same_slots_def)
next
  case (Suc k)
  let ?mr = "mr_txnid (mti_readers s k)"
  let ?new = "if mr_pid (mti_readers s k) \<noteq> 0 \<and> old > ?mr then ?mr else old"
  have "\<exists>s1. rtranclp reader_step s s1 \<and> rs_writer s1 = W_scan e T k ?new \<and> same_slots s s1"
  proof (cases "mr_pid (mti_readers s k) = 0")
    case True
    then have st: "scan_step s = Some (s\<lparr>rs_writer := W_scan e T k old\<rparr>)" using Suc.prems by (simp add: scan_step_def)
    show ?thesis by (rule exI, rule conjI, rule r_into_rtranclp, rule reader_step.scan, rule st) (simp add: same_slots_def True)
  next
    case False
    then have st: "scan_step s = Some (s\<lparr>rs_writer := W_read e T k old\<rparr>)" using Suc.prems by (simp add: scan_step_def)
    have st2: "scan_step (s\<lparr>rs_writer := W_read e T k old\<rparr>) = Some (s\<lparr>rs_writer := W_scan e T k ?new\<rparr>)"
      using False by (simp add: scan_step_def)
    have "rtranclp reader_step s (s\<lparr>rs_writer := W_scan e T k ?new\<rparr>)"
      by (rule rtranclp_trans[OF r_into_rtranclp[where r = reader_step, OF reader_step.scan[OF st]]
            r_into_rtranclp[where r = reader_step, OF reader_step.scan[OF st2]]])
    then show ?thesis by (intro exI[of _ "s\<lparr>rs_writer := W_scan e T k ?new\<rparr>"]) (simp add: same_slots_def)
  qed
  then obtain s1 where s1: "rtranclp reader_step s s1" "rs_writer s1 = W_scan e T k ?new" "same_slots s s1" by blast
  from Suc.IH[OF s1(2)] obtain s' where s': "rtranclp reader_step s1 s'" "rs_writer s' = W_txn e T" "same_slots s1 s'"
    "rs_pgoldest s' e = foldl (\<lambda>oldest r. if mr_pid r \<noteq> 0 \<and> oldest > mr_txnid r then mr_txnid r else oldest) ?new (rev (map (mti_readers s1) [0..<k]))"
    by blast
  have tb: "mti_readers s1 = mti_readers s" using s1(3) by (simp add: same_slots_def)
  show ?case
  proof (intro exI conjI)
    show "rtranclp reader_step s s'" using s1(1) s'(1) by (rule rtranclp_trans)
    show "same_slots s s'" using s1(3) s'(3) by (simp add: same_slots_def)
  qed (use s' tb in simp_all)
qed

theorem scan_finds_oldest:
  assumes "rs_writer s = W_txn e T"
  shows "\<exists>s'. rtranclp reader_step s s' \<and> rs_writer s' = W_txn e T \<and> mti_readers s' = mti_readers s \<and>
    rs_pgoldest s' e = mdb_find_oldest T (Some (map (mti_readers s) [0..<mti_numreaders s]))"
proof -
  let ?s1 = "s\<lparr>rs_writer := W_scan e T (mti_numreaders s) (T - 1)\<rparr>"
  have st: "reader_step s ?s1" using assms by (intro reader_step.scan_begin) (simp add: scan_start_def)
  from scan_loop[of ?s1 e T "mti_numreaders s" "T - 1"] obtain s' where s': "rtranclp reader_step ?s1 s'" "rs_writer s' = W_txn e T"
    "same_slots ?s1 s'" "rs_pgoldest s' e = mdb_find_oldest T (Some (map (mti_readers s) [0..<mti_numreaders s]))"
    by (auto simp: mdb_find_oldest_def)
  show ?thesis using converse_rtranclp_into_rtranclp[OF st s'(1)] s'(2-4) by (auto simp: same_slots_def)
qed

theorem scan_finds_oldest_witness:
  "\<exists>s' :: reader_sys. rs_pgoldest s' 2 = mdb_find_oldest 5 (Some [\<lparr>mr_pid = 1, mr_txnid = 3\<rparr>, \<lparr>mr_pid = 0, mr_txnid = 2\<rparr>]) \<and> rs_writer s' = W_txn 2 5"
proof -
  define w where "w = sample_sys\<lparr>rs_writer := W_txn 2 5, mti_numreaders := 2,
    mti_readers := (\<lambda>i. if i = 0 then \<lparr>mr_pid = 1, mr_txnid = 3\<rparr> else \<lparr>mr_pid = 0, mr_txnid = 2\<rparr>)\<rparr>"
  have w: "rs_writer w = W_txn 2 5" "map (mti_readers w) [0..<mti_numreaders w] = [\<lparr>mr_pid = 1, mr_txnid = 3\<rparr>, \<lparr>mr_pid = 0, mr_txnid = 2\<rparr>]"
    by (simp_all add: w_def upt_rec)
  from scan_finds_oldest[OF w(1)] show ?thesis unfolding w(2) by blast
qed

text \<open>C13. Recovery after the death of a writer is atomic: \<open>mti_txnid\<close> becomes the number of a complete meta page, of the last
  committed transaction or of the one that the dead writer had completely written, and no active reader loses its snapshot.\<close>

theorem recover_newest:
  assumes "reader_reach s" "recover_step s = Some s'"
  shows "(mti_txnid s' = mti_txnid s \<or> mti_txnid s' = mti_txnid s + 1) \<and>
    me_metas s' (odd (mti_txnid s')) = \<lparr>mv_txnid = mti_txnid s', mv_dbs = mti_txnid s'\<rparr> \<and> (\<forall>e. rs_pgoldest s' e \<le> mti_txnid s')"
proof -
  note m = metas_reach[OF assms(1)]
  have r: "reader_reach s'" using assms reader_reach.step reader_step.recover by blast
  have dead: "rs_writer s = W_dead" using assms(2) by (auto simp: recover_step_def split: if_splits)
  have "mm = mti_txnid s + 1 \<or> mm \<le> mti_txnid s" if "mm = mv_txnid (me_metas s k)" for k mm
  proof (cases "k = odd (mti_txnid s)")
    case True
    then show ?thesis using m that by (simp add: metas_ok_def)
  next
    case False
    then have "k = even (mti_txnid s)" by auto
    then show ?thesis using m that unfolding metas_ok_def other_ok_def by (auto split: if_splits)
  qed
  moreover have "\<exists>k. mti_txnid s' = mv_txnid (me_metas s k)" using assms(2) dead by (auto simp: recover_step_def)
  moreover note metas_recover(2)[OF m assms(2)]
  ultimately have "mti_txnid s' = mti_txnid s \<or> mti_txnid s' = mti_txnid s + 1" by force
  then show ?thesis using metas_reach[OF r] bound_reach[OF r] by (simp add: metas_ok_def bound_ok_def)
qed

theorem recover_newest_witness:
  "\<exists>s s'. reader_reach s \<and> mti_txnid s = 1 \<and> recover_step s = Some s' \<and> mti_txnid s' = 2 \<and>
     me_metas s' False = \<lparr>mv_txnid = 2, mv_dbs = 2\<rparr>"
proof -
  obtain s where r: "reader_reach s" and s: "rs_writer s = W_dead" "mti_txnid s = 1" "me_metas s False = \<lparr>mv_txnid = 2, mv_dbs = 2\<rparr>"
      "me_metas s True = \<lparr>mv_txnid = 1, mv_dbs = 1\<rparr>"
    using sample_dead_run run_reach[OF _ sample_sys_reach] by blast
  let ?s' = "s\<lparr>mti_txnid := 2, rs_writer := W_idle\<rparr>"
  have st: "recover_step s = Some ?s'" using s by (simp add: recover_step_def mdb_env_pick_meta_def)
  from recover_newest[OF r this] show ?thesis using r s(2) st by auto
qed

text \<open>C14. The copy of the meta page is not part of the protocol: a reader that waits between the last comparison of
  \<open>mti_txnid\<close> and \<open>memcpy(txn->mt_dbs, meta->mm_dbs, \<dots>)\<close> while one transaction commits and the next one writes its meta
  page, which is the page of its own snapshot, runs as snapshot 1 with the roots of transaction 3, which is not committed.\<close>

theorem meta_copy_race:
  "\<exists>s. reader_reach s \<and> rs_threads s 0 = Running 0 1 3 \<and> mti_txnid s = 2"
  using sample_race_run run_reach[OF _ sample_sys_reach] by blast

text \<open>Without such a delay the copy is of the snapshot.\<close>

lemma meta_copy_prompt:
  assumes "reader_reach s" "rs_threads s t = Copy i v" "mti_txnid s = v"
  shows "renew_step t s = Some (goto t (Running i v v) s)"
  using metas_reach[OF assms(1)] assms(2,3) by (simp add: metas_ok_def renew_step_def)

end
