(* ===== verification/Env_Meta.thy ===== *)
theory Env_Meta
  imports Reader_Safety
begin

text \<open>
  The meta pages: \<open>mdb_env_write_meta\<close>, which makes a transaction the last one, with the writes and syncs that may fail, and
  the choice of the newest page (\<open>mdb_env_pick_meta\<close>). A commit is one page: whatever fails, one of the two pages is
  complete and newest, unless the undoing of a failed write is itself torn.
\<close>

section \<open>State\<close>

text \<open>The part of a meta page that a commit writes, in the order of the bytes; \<open>'d\<close> is \<open>MDB_db\<close>.\<close>

record 'd MDB_meta =
  mm_mapsize :: nat
  mm_free_db :: 'd
  mm_main_db :: 'd
  mm_last_pg :: nat
  mm_txnid :: u64

record 'd commit_txn =
  ct_txnid :: u64
  ct_free_db :: 'd
  ct_main_db :: 'd
  ct_next_pgno :: nat

text \<open>\<open>em_nosync\<close> is \<open>MDB_NOSYNC\<close> or \<open>MDB_NOMETASYNC\<close>; \<open>em_txns\<close> is \<open>mti_txnid\<close> when the environment has a lock file.\<close>

record 'd meta_env =
  em_metas :: "bool \<Rightarrow> 'd MDB_meta"
  em_mapsize :: nat
  em_inmemory :: bool
  em_writemap :: bool
  em_nosync :: bool
  em_fatal :: bool
  em_txns :: "u64 option"

text \<open>
  The result of \<open>pwrite\<close>: so many of the five fields, all of them if it returns the length, and fewer if it returns less;
  or an error after which the page cache has so many of the fields.
\<close>

datatype pwrite_res = Wrote nat | Write_err rc nat

section \<open>Operations\<close>

definition write_fields :: "nat \<Rightarrow> 'd MDB_meta \<Rightarrow> 'd MDB_meta \<Rightarrow> 'd MDB_meta" where
  "write_fields k new old =
     \<lparr>mm_mapsize = (if 0 < k then mm_mapsize new else mm_mapsize old), mm_free_db = (if 1 < k then mm_free_db new else mm_free_db old),
      mm_main_db = (if 2 < k then mm_main_db new else mm_main_db old), mm_last_pg = (if 3 < k then mm_last_pg new else mm_last_pg old),
      mm_txnid = (if 4 < k then mm_txnid new else mm_txnid old)\<rparr>"

text \<open>\<open>retry_write\<close>: an interrupted write is tried again; \<open>None\<close> when none of the results ends it.\<close>

fun pwrite_retry :: "pwrite_res list \<Rightarrow> 'd MDB_meta \<Rightarrow> 'd MDB_meta \<Rightarrow> ('d MDB_meta \<times> rc) option" where
  "pwrite_retry [] new old = None"
| "pwrite_retry (Wrote k # rs) new old = Some (write_fields k new old, if 5 \<le> k then MDB_SUCCESS else EIO)"
| "pwrite_retry (Write_err e k # rs) new old =
     (if e = EINTR then pwrite_retry rs new (write_fields k new old) else Some (write_fields k new old, e))"

definition commit_meta :: "nat \<Rightarrow> 'd commit_txn \<Rightarrow> 'd MDB_meta" where
  "commit_meta mapsize txn =
     \<lparr>mm_mapsize = mapsize, mm_free_db = ct_free_db txn, mm_main_db = ct_main_db txn, mm_last_pg = ct_next_pgno txn - 1,
      mm_txnid = ct_txnid txn\<rparr>"

definition set_meta :: "bool \<Rightarrow> 'd MDB_meta \<Rightarrow> 'd meta_env \<Rightarrow> 'd meta_env" where
  "set_meta k m env = env\<lparr>em_metas := (em_metas env)(k := m)\<rparr>"

definition publish_txnid :: "u64 \<Rightarrow> 'd meta_env \<Rightarrow> 'd meta_env" where
  "publish_txnid T env = env\<lparr>em_txns := map_option (\<lambda>_. T) (em_txns env)\<rparr>"

text \<open>
  \<open>writes\<close> are the results of the write, \<open>undo\<close> the number of fields that the write of the old data gets down, and \<open>msync\<close>
  the result of the sync of a writable map.
\<close>

definition mdb_env_write_meta ::
    "pwrite_res list \<Rightarrow> nat \<Rightarrow> rc option \<Rightarrow> 'd commit_txn \<Rightarrow> 'd meta_env \<Rightarrow> ('d meta_env \<times> unit res) option" where
  "mdb_env_write_meta writes undo msync txn env =
     (let toggle = odd (ct_txnid txn);
          mp = em_metas env toggle;
          mapsize = mm_mapsize (em_metas env (\<not> toggle));
          mapsize = (if mapsize < em_mapsize env then em_mapsize env else mapsize);
          meta = commit_meta mapsize txn
      in if em_inmemory env then Some (publish_txnid (ct_txnid txn) (set_meta toggle meta env), Ok ())
         else if em_writemap env
         then let env = set_meta toggle meta env in
           (case (if em_nosync env then None else msync) of
              None \<Rightarrow> Some (publish_txnid (ct_txnid txn) env, Ok ())
            | Some e \<Rightarrow> Some (env\<lparr>em_fatal := True\<rparr>, Err e))
         else (case pwrite_retry writes meta mp of
              None \<Rightarrow> None
            | Some (m, rc) \<Rightarrow>
                if rc = MDB_SUCCESS then Some (publish_txnid (ct_txnid txn) (set_meta toggle m env), Ok ())
                else
                  let old = meta\<lparr>mm_last_pg := mm_last_pg mp, mm_txnid := mm_txnid mp\<rparr>
                  in Some ((set_meta toggle (write_fields undo old m) env)\<lparr>em_fatal := True\<rparr>, Err rc)))"

text \<open>The newest page.\<close>

definition newest :: "'d meta_env \<Rightarrow> bool" where
  "newest env = mdb_env_pick_meta False (\<lambda>k. mm_txnid (em_metas env k))"

section \<open>Atomic commits\<close>

lemma write_fields_all: "5 \<le> k \<Longrightarrow> write_fields k new old = new"
  by (simp add: write_fields_def)

lemma write_fields_none: "write_fields 0 new old = old"
  by (simp add: write_fields_def)

lemma write_fields_txnid: "mm_txnid (write_fields k new old) = (if 5 \<le> k then mm_txnid new else mm_txnid old)"
  by (simp add: write_fields_def)

lemma write_fields_same: "write_fields k new new = new"
  by (simp add: write_fields_def)

text \<open>An error is not \<open>MDB_SUCCESS\<close>.\<close>

definition real_errors :: "pwrite_res list \<Rightarrow> bool" where
  "real_errors rs \<longleftrightarrow> list_all (\<lambda>r. case r of Write_err e k \<Rightarrow> e \<noteq> MDB_SUCCESS | _ \<Rightarrow> True) rs"

lemma pwrite_retry_spec:
  "real_errors rs \<Longrightarrow> pwrite_retry rs new old = Some (m, rc) \<Longrightarrow> (rc = MDB_SUCCESS \<longrightarrow> m = new) \<and>
    (m = new \<or> mm_txnid m = mm_txnid old) \<and> (old = new \<longrightarrow> m = new)"
proof (induction rs new old rule: pwrite_retry.induct)
  case (2 k rs new old)
  then show ?case by (auto simp: write_fields_all write_fields_txnid write_fields_same split: if_splits)
next
  case (3 e k rs new old)
  then show ?case by (cases "5 \<le> k") (auto simp: real_errors_def write_fields_all write_fields_txnid write_fields_same split: if_splits)
qed simp

text \<open>What the two pages are when transaction \<open>T\<close> commits: the other page is of the transaction before.\<close>

definition meta_ready :: "u64 \<Rightarrow> 'd meta_env \<Rightarrow> bool" where
  "meta_ready T env \<longleftrightarrow> T \<noteq> 0 \<and> mm_txnid (em_metas env (even T)) = T - 1 \<and>
     (mm_txnid (em_metas env (odd T)) < T - 1 \<or> T = 1 \<and> mm_txnid (em_metas env True) = 0)"

definition commit_mapsize :: "'d commit_txn \<Rightarrow> 'd meta_env \<Rightarrow> nat" where
  "commit_mapsize txn env = max (mm_mapsize (em_metas env (even (ct_txnid txn)))) (em_mapsize env)"

text \<open>The newest page, by the number in the page of \<open>T\<close>.\<close>

lemma newest_toggle:
  assumes "mm_txnid (em_metas env (even T)) = T - 1" "T \<noteq> 0"
  shows "mm_txnid (em_metas env (odd T)) = T \<Longrightarrow> newest env = odd T"
    "mm_txnid (em_metas env (odd T)) < T - 1 \<or> T = 1 \<and> mm_txnid (em_metas env True) = 0 \<Longrightarrow> newest env = even T"
proof -
  have "T - 1 \<noteq> - 1" using assms(2) by simp
  from next_txn(1)[OF this] have lt: "T - 1 < T" by simp
  show "newest env = odd T" if "mm_txnid (em_metas env (odd T)) = T"
    using assms(1) that lt by (cases "even T") (simp_all add: newest_def mdb_env_pick_meta_def order_less_not_sym)
  show "newest env = even T" if "mm_txnid (em_metas env (odd T)) < T - 1 \<or> T = 1 \<and> mm_txnid (em_metas env True) = 0"
  proof (cases "even T")
    case True
    then have "T \<noteq> 1" by auto
    then have "mm_txnid (em_metas env False) < T - 1" using that True by simp
    then show ?thesis using assms(1) True by (simp add: newest_def mdb_env_pick_meta_def)
  next
    case False
    then have "mm_txnid (em_metas env True) \<le> T - 1" using that by auto
    then show ?thesis using assms(1) False by (simp add: newest_def mdb_env_pick_meta_def not_less)
  qed
qed

text \<open>C11. A commit is atomic, but for one way to fail twice. If \<open>mdb_env_write_meta\<close> succeeds, the newest page is the
  complete record of the transaction and \<open>mti_txnid\<close> its number. If it fails, the environment refuses further work and
  \<open>mti_txnid\<close> is unchanged, and the newest page is that of the transaction before, as it was, or the complete record;
  the exception is a failed write that put down all fields and whose undoing stopped between \<open>mm_last_pg\<close> and
  \<open>mm_txnid\<close>: then the newest page has the number of the transaction with the last page of an older one. Once the old
  data are written back the newest page is that of the transaction before, which is never touched. The
  hypotheses: the pages are those of the last two transactions, and an error is not \<open>MDB_SUCCESS\<close>. (The model lets a write stop between
  fields only; of a field that is torn, \<open>mm_last_pg\<close> and \<open>mm_txnid\<close> would matter, which are aligned words.)\<close>

theorem commit_atomic:
  assumes "meta_ready (ct_txnid txn) env" "real_errors writes"
    "mdb_env_write_meta writes undo msync txn env = Some (env', r)"
  defines "T \<equiv> ct_txnid txn"
  shows "em_metas env' (even T) = em_metas env (even T) \<and>
    (newest env' = even T \<or> em_metas env' (newest env') = commit_meta (commit_mapsize txn env) txn \<or>
     undo = 4 \<and> r \<noteq> Ok () \<and> em_metas env' (newest env') =
       (commit_meta (commit_mapsize txn env) txn)\<lparr>mm_last_pg := mm_last_pg (em_metas env (odd T))\<rparr>) \<and>
    (if r = Ok () then newest env' = odd T \<and> em_txns env' = map_option (\<lambda>_. T) (em_txns env) \<and> em_fatal env' = em_fatal env
     else em_fatal env' \<and> em_txns env' = em_txns env \<and> (em_writemap env \<or> undo < 5 \<or> newest env' = even T))"
proof -
  let ?meta = "commit_meta (commit_mapsize txn env) txn" and ?mp = "em_metas env (odd T)"
  have T: "T \<noteq> 0" "mm_txnid (em_metas env (even T)) = T - 1" "mm_txnid ?mp < T - 1 \<or> T = 1 \<and> mm_txnid (em_metas env True) = 0"
    using assms(1) by (simp_all add: meta_ready_def T_def)
  have ms: "(if mm_mapsize (em_metas env (even T)) < em_mapsize env then em_mapsize env else mm_mapsize (em_metas env (even T))) = commit_mapsize txn env"
    by (simp add: commit_mapsize_def T_def)
  have id: "mm_txnid ?meta = T" by (simp add: commit_meta_def T_def)
  have new: "newest e = odd T" if "em_metas e = (em_metas env)(odd T := ?meta)" for e
    by (rule newest_toggle(1)) (use T that id in auto)
  have old: "newest e = even T" if "em_metas e = (em_metas env)(odd T := m)" "mm_txnid m = mm_txnid ?mp" for e m
  proof (rule newest_toggle(2))
    show "mm_txnid (em_metas e (odd T)) < T - 1 \<or> T = 1 \<and> mm_txnid (em_metas e True) = 0" using T(3) that by auto
  qed (use T that in auto)
  have ev: "((em_metas env)(odd T := m)) (even T) = em_metas env (even T)" "((em_metas env)(odd T := m)) (odd T) = m" for m by auto
  note run = assms(3)[unfolded mdb_env_write_meta_def Let_def, folded T_def, unfolded not_not ms]
  consider (success) "env' = publish_txnid T (set_meta (odd T) ?meta env)" "r = Ok ()"
    | (unsynced) e where "em_writemap env" "env' = (set_meta (odd T) ?meta env)\<lparr>em_fatal := True\<rparr>" "r = Err e"
    | (failed) m rc where "pwrite_retry writes ?meta ?mp = Some (m, rc)" "rc \<noteq> MDB_SUCCESS" "r = Err rc"
        "env' = (set_meta (odd T) (write_fields undo (?meta\<lparr>mm_last_pg := mm_last_pg ?mp, mm_txnid := mm_txnid ?mp\<rparr>) m) env)\<lparr>em_fatal := True\<rparr>"
  proof (cases "em_inmemory env")
    case True
    then show ?thesis using run that(1) by simp
  next
    case False
    show ?thesis
    proof (cases "em_writemap env")
      case True
      then show ?thesis using run False that(1,2) by (auto split: option.splits if_splits)
    next
      case wm: False
      then obtain m rc where p: "pwrite_retry writes ?meta ?mp = Some (m, rc)"
        using run False by (auto split: option.splits)
      have "m = ?meta" if "rc = MDB_SUCCESS" using pwrite_retry_spec[OF assms(2) p] that by simp
      then show ?thesis using run False wm p that(1,3) by (auto split: if_splits)
    qed
  qed
  then show ?thesis
  proof cases
    case success
    then have "em_metas env' = (em_metas env)(odd T := ?meta)" by (simp add: publish_txnid_def set_meta_def)
    then show ?thesis using success new[of env'] ev by (simp add: publish_txnid_def set_meta_def)
  next
    case unsynced
    then have "em_metas env' = (em_metas env)(odd T := ?meta)" by (simp add: set_meta_def)
    then show ?thesis using unsynced new[of env'] ev by (simp add: set_meta_def)
  next
    case failed
    let ?old = "?meta\<lparr>mm_last_pg := mm_last_pg ?mp, mm_txnid := mm_txnid ?mp\<rparr>"
    have env': "em_metas env' = (em_metas env)(odd T := write_fields undo ?old m)" "em_fatal env'" "em_txns env' = em_txns env"
      using failed by (simp_all add: set_meta_def)
    have m: "m = ?meta \<or> mm_txnid m = mm_txnid ?mp" using pwrite_retry_spec[OF assms(2) failed(1)] by simp
    show ?thesis
    proof (cases "5 \<le> undo")
      case True
      then have "newest env' = even T" by (intro old[OF env'(1)]) (simp add: write_fields_all)
      then show ?thesis using env' ev failed by simp
    next
      case False
      define w where "w = write_fields undo ?old m"
      have "newest env' = even T \<or> em_metas env' (newest env') = ?meta \<or>
          undo = 4 \<and> em_metas env' (newest env') = ?meta\<lparr>mm_last_pg := mm_last_pg ?mp\<rparr>"
      proof (cases "m = ?meta")
        case True
        then have w: "mm_txnid w = T" "w = ?meta \<or> undo = 4 \<and> w = ?meta\<lparr>mm_last_pg := mm_last_pg ?mp\<rparr>"
          using False id by (auto simp: w_def write_fields_def)
        then have "newest env' = odd T"
          by (intro newest_toggle(1)) (use T env'(1) ev in \<open>simp_all add: w_def\<close>)
        then show ?thesis using w(2) env'(1) ev(2) by (simp add: w_def)
      next
        case False
        then have "mm_txnid w = mm_txnid ?mp" using m by (simp add: w_def write_fields_txnid)
        then show ?thesis using old[of env' w] env'(1) by (simp add: w_def)
      qed
      then show ?thesis using env' ev failed False by auto
    qed
  qed
qed

definition sample_meta_env :: "nat meta_env" where
  "sample_meta_env = \<lparr>em_metas = (\<lambda>k. if k then \<lparr>mm_mapsize = 100, mm_free_db = 5, mm_main_db = 6, mm_last_pg = 9, mm_txnid = 7\<rparr>
       else \<lparr>mm_mapsize = 100, mm_free_db = 3, mm_main_db = 4, mm_last_pg = 8, mm_txnid = 6\<rparr>),
     em_mapsize = 200, em_inmemory = False, em_writemap = False, em_nosync = False, em_fatal = False, em_txns = Some 7\<rparr>"

definition sample_commit :: "nat commit_txn" where
  "sample_commit = \<lparr>ct_txnid = 8, ct_free_db = 11, ct_main_db = 12, ct_next_pgno = 20\<rparr>"

theorem commit_atomic_witness:
  "\<exists>env'. mdb_env_write_meta [Write_err EINTR 0, Wrote 3] 5 None sample_commit sample_meta_env = Some (env', Err EIO) \<and>
     newest env' = True \<and> em_metas env' True = em_metas sample_meta_env True \<and> em_fatal env'"
proof -
  have r: "meta_ready (ct_txnid sample_commit) sample_meta_env" by (simp add: meta_ready_def sample_commit_def sample_meta_env_def)
  obtain env' where run: "mdb_env_write_meta [Write_err EINTR 0, Wrote 3] 5 None sample_commit sample_meta_env = Some (env', Err EIO)"
    by (simp add: mdb_env_write_meta_def sample_commit_def sample_meta_env_def Let_def)
  from commit_atomic[OF r _ run] show ?thesis using run by (simp add: real_errors_def sample_commit_def sample_meta_env_def)
qed

end
