(* ===== verification/Reader_Check.thy ===== *)
theory Reader_Check
  imports Readers
begin

text \<open>
  Clearing the slots of dead processes: \<open>mdb_reader_check0\<close> with \<open>mdb_pid_insert\<close>, which keeps the processes seen so far
  in an ordered list whose element 0 is its length.
\<close>

section \<open>The list of processes\<close>

function pid_search :: "nat list \<Rightarrow> nat \<Rightarrow> nat \<Rightarrow> nat \<Rightarrow> int \<Rightarrow> nat \<Rightarrow> (nat \<times> int) option" where
  "pid_search pids pid base cur val n =
     (if n = 0 then Some (cur, val)
      else
        let pivot = n div 2; cur = base + pivot + 1; val = int pid - int (pids ! cur)
        in if val < 0 then pid_search pids pid base cur val pivot
           else if val > 0 then pid_search pids pid cur cur val (n - (pivot + 1))
           else None)"
  by pat_completeness auto
termination by (relation "measure (\<lambda>(_, _, _, _, _, n). n)") auto

declare pid_search.simps [simp del]

text \<open>\<open>for (n = ids[0]; n > cursor; n--) ids[n] = ids[n-1]\<close>\<close>

fun pid_shift :: "nat list \<Rightarrow> nat \<Rightarrow> nat \<Rightarrow> nat list" where
  "pid_shift pids cur 0 = pids"
| "pid_shift pids cur (Suc n) = (if Suc n > cur then pid_shift (pids[Suc n := pids ! n]) cur n else pids)"

definition mdb_pid_insert :: "nat list \<Rightarrow> nat \<Rightarrow> nat list \<times> bool" where
  "mdb_pid_insert pids pid =
     (case pid_search pids pid 0 1 0 (pids ! 0) of
        None \<Rightarrow> (pids, False)
      | Some (cur, val) \<Rightarrow>
          let cur = (if val > 0 then cur + 1 else cur);
              pids = pids[0 := pids ! 0 + 1]
          in ((pid_shift pids cur (pids ! 0))[cur := pid], True))"

definition pid_elems :: "nat list \<Rightarrow> nat list" where
  "pid_elems pids = take (pids ! 0) (tl pids)"

definition pids_ok :: "nat list \<Rightarrow> bool" where
  "pids_ok pids \<longleftrightarrow> pids ! 0 < length pids \<and> sorted_wrt (<) (pid_elems pids)"

lemma pid_elems_nth: "pids ! 0 < length pids \<Longrightarrow> i < pids ! 0 \<Longrightarrow> pid_elems pids ! i = pids ! Suc i"
  by (simp add: pid_elems_def nth_tl)

lemma length_pid_elems: "pids ! 0 < length pids \<Longrightarrow> length (pid_elems pids) = pids ! 0"
  by (simp add: pid_elems_def)

lemma pids_less: "pids_ok pids \<Longrightarrow> 0 < i \<Longrightarrow> i < j \<Longrightarrow> j \<le> pids ! 0 \<Longrightarrow> pids ! i < pids ! j"
  using sorted_wrt_nth_less[of "(<)" "pid_elems pids" "i - 1" "j - 1"]
  by (simp add: pids_ok_def pid_elems_nth length_pid_elems)

text \<open>The search: everything up to \<open>base\<close> is smaller and everything behind \<open>base + n\<close> is larger.\<close>

lemma pid_search_spec:
  assumes "pids_ok pids" "base + n \<le> pids ! 0" "\<And>i. 0 < i \<Longrightarrow> i \<le> base \<Longrightarrow> pids ! i < pid"
    "\<And>i. base + n < i \<Longrightarrow> i \<le> pids ! 0 \<Longrightarrow> pid < pids ! i"
    "n = 0 \<longrightarrow> (if val > 0 then cur = base else cur = base + 1)"
  shows "case pid_search pids pid base cur val n of
      None \<Rightarrow> pid \<in> set (pid_elems pids)
    | Some (c, v) \<Rightarrow> \<exists>b. (if v > 0 then c = b else c = b + 1) \<and> b \<le> pids ! 0 \<and> (\<forall>i. 0 < i \<longrightarrow> i \<le> b \<longrightarrow> pids ! i < pid) \<and>
        (\<forall>i. b < i \<longrightarrow> i \<le> pids ! 0 \<longrightarrow> pid < pids ! i)"
  using assms
proof (induction pids pid base cur val n rule: pid_search.induct)
  case (1 pids pid base cur val n)
  show ?case
  proof (cases "n = 0")
    case True
    then show ?thesis using "1.prems" by (subst pid_search.simps) (auto intro!: exI[of _ base])
  next
    case False
    let ?c = "base + n div 2 + 1"
    let ?v = "int pid - int (pids ! ?c)"
    have c: "?c \<le> base + n" "?c \<le> pids ! 0" using False "1.prems"(2) by linarith+
    consider "?v < 0" | "?v > 0" | "?v = 0" by linarith
    then show ?thesis
    proof cases
      case 1
      have up: "pid < pids ! i" if "base + n div 2 < i" "i \<le> pids ! 0" for i
        using 1 pids_less[OF "1.prems"(1), of ?c i] that by (cases "i = ?c") auto
      have p5: "n div 2 = 0 \<longrightarrow> (if ?v > 0 then ?c = base else ?c = base + 1)" using 1 by (metis add_0_right not_less_iff_gr_or_eq)
      have "case pid_search pids pid base ?c ?v (n div 2) of
          None \<Rightarrow> pid \<in> set (pid_elems pids)
        | Some (c, v) \<Rightarrow> \<exists>b. (if v > 0 then c = b else c = b + 1) \<and> b \<le> pids ! 0 \<and> (\<forall>i. 0 < i \<longrightarrow> i \<le> b \<longrightarrow> pids ! i < pid) \<and>
            (\<forall>i. b < i \<longrightarrow> i \<le> pids ! 0 \<longrightarrow> pid < pids ! i)"
        by (rule "1.IH"(1)[OF False refl refl refl 1 "1.prems"(1)]) (use "1.prems"(2,3) up p5 in auto)
      then show ?thesis using False 1 by (subst pid_search.simps) (simp add: Let_def)
    next
      case 2
      have low: "pids ! i < pid" if "0 < i" "i \<le> ?c" for i
        using 2 pids_less[OF "1.prems"(1) that(1), of ?c] that c by (cases "i = ?c") auto
      have p5: "n - (n div 2 + 1) = 0 \<longrightarrow> (if ?v > 0 then ?c = ?c else ?c = ?c + 1)" and v0: "\<not> ?v < 0" using 2 by simp_all
      have "case pid_search pids pid ?c ?c ?v (n - (n div 2 + 1)) of
          None \<Rightarrow> pid \<in> set (pid_elems pids)
        | Some (c, v) \<Rightarrow> \<exists>b. (if v > 0 then c = b else c = b + 1) \<and> b \<le> pids ! 0 \<and> (\<forall>i. 0 < i \<longrightarrow> i \<le> b \<longrightarrow> pids ! i < pid) \<and>
            (\<forall>i. b < i \<longrightarrow> i \<le> pids ! 0 \<longrightarrow> pid < pids ! i)"
        by (rule "1.IH"(2)[OF False refl refl refl _ 2 "1.prems"(1)]) (use v0 p5 "1.prems"(2,4) low c False in auto)
      then show ?thesis using False 2 by (subst pid_search.simps) (simp add: Let_def)
    next
      case 3
      then have "pid = pid_elems pids ! (?c - 1)" using c "1.prems"(1) by (simp add: pid_elems_nth pids_ok_def)
      moreover have "?c - 1 < length (pid_elems pids)" using c "1.prems"(1) by (simp add: length_pid_elems pids_ok_def)
      ultimately have "pid \<in> set (pid_elems pids)" by (metis nth_mem)
      then show ?thesis using False 3 by (subst pid_search.simps) (simp add: Let_def)
    qed
  qed
qed

text \<open>The shift moves the elements from \<open>cur\<close> on up by one.\<close>

lemma pid_shift_spec:
  "n < length pids \<Longrightarrow> cur \<le> n \<Longrightarrow> length (pid_shift pids cur n) = length pids \<and>
    (\<forall>i. pid_shift pids cur n ! i = (if cur < i \<and> i \<le> n then pids ! (i - 1) else pids ! i))"
proof (induction n arbitrary: pids)
  case (Suc n)
  show ?case
  proof (cases "Suc n > cur")
    case True
    let ?p = "pids[Suc n := pids ! n]"
    have "length (pid_shift ?p cur n) = length ?p \<and> (\<forall>i. pid_shift ?p cur n ! i = (if cur < i \<and> i \<le> n then ?p ! (i - 1) else ?p ! i))"
      by (rule Suc.IH) (use Suc.prems True in auto)
    then show ?thesis using True Suc.prems by (auto simp: nth_list_update)
  next
    case False
    then show ?thesis using Suc.prems by auto
  qed
qed auto

declare pid_shift.simps [simp del]

lemma pid_insert_spec:
  fixes pid :: nat
  assumes ok: "pids_ok pids" and room: "pids ! 0 + 1 < length pids"
  defines "r \<equiv> mdb_pid_insert pids pid"
  shows "pids_ok (fst r)" "length (fst r) = length pids" "snd r \<longleftrightarrow> pid \<notin> set (pid_elems pids)"
    "set (pid_elems (fst r)) = insert pid (set (pid_elems pids))" "fst r ! 0 = pids ! 0 + (if snd r then 1 else 0)"
proof -
  let ?n = "pids ! 0"
  have mem: "set (pid_elems q) = (\<lambda>i. q ! i) ` {0<..q ! 0}" if "q ! 0 < length q" for q
  proof -
    have "set (pid_elems q) = (\<lambda>i. q ! Suc i) ` {0..<q ! 0}"
      using that by (force simp: set_conv_nth length_pid_elems pid_elems_nth image_def)
    also have "\<dots> = (\<lambda>i. q ! i) ` Suc ` {0..<q ! 0}" unfolding image_image ..
    also have "Suc ` {0..<q ! 0} = {0<..q ! 0}" unfolding image_Suc_atLeastLessThan by auto
    finally show ?thesis .
  qed
  note S = pid_search_spec[OF ok, of 0 ?n pid 0 1]
  have pre: "0 + ?n \<le> ?n" "\<And>i. 0 < i \<Longrightarrow> i \<le> 0 \<Longrightarrow> pids ! i < pid" "\<And>i. 0 + ?n < i \<Longrightarrow> i \<le> ?n \<Longrightarrow> pid < pids ! i"
    "?n = 0 \<longrightarrow> (if (0 :: int) > 0 then 1 = (0 :: nat) else 1 = 0 + (1 :: nat))" by auto
  have "pids_ok (fst r) \<and> length (fst r) = length pids \<and> (snd r \<longleftrightarrow> pid \<notin> set (pid_elems pids)) \<and>
    set (pid_elems (fst r)) = insert pid (set (pid_elems pids)) \<and> fst r ! 0 = pids ! 0 + (if snd r then 1 else 0)"
  proof (cases "pid_search pids pid 0 1 0 ?n")
    case None
    then have "pid \<in> set (pid_elems pids)" using S[OF pre] by simp
    then show ?thesis using None ok by (auto simp: r_def mdb_pid_insert_def)
  next
    case (Some cv)
    obtain c v where cv: "cv = (c, v)" by (cases cv)
    obtain b where b: "if v > 0 then c = b else c = b + 1" "b \<le> ?n" "\<And>i. 0 < i \<Longrightarrow> i \<le> b \<Longrightarrow> pids ! i < pid"
      "\<And>i. b < i \<Longrightarrow> i \<le> ?n \<Longrightarrow> pid < pids ! i" using S[OF pre] Some cv by auto
    have cur: "(if v > 0 then c + 1 else c) = b + 1" using b(1) by (simp split: if_splits)
    let ?a = "pids[0 := ?n + 1]"
    define q where "q = pid_shift ?a (b + 1) (?n + 1)"
    let ?p = "q[b + 1 := pid]"
    have r: "r = (?p, True)" using Some cv cur room by (cases pids) (simp_all add: r_def mdb_pid_insert_def Let_def q_def)
    have "length q = length ?a \<and> (\<forall>i. q ! i = (if b + 1 < i \<and> i \<le> ?n + 1 then ?a ! (i - 1) else ?a ! i))"
      unfolding q_def by (rule pid_shift_spec) (use room b(2) in auto)
    then have lenq: "length q = length pids" and sh: "\<And>i. q ! i = (if b + 1 < i \<and> i \<le> ?n + 1 then ?a ! (i - 1) else ?a ! i)" by auto
    have len: "length ?p = length pids" using lenq by simp
    have p0: "?p ! 0 = ?n + 1" using sh[of 0] room by (cases pids) auto
    have at: "?p ! i = (if i = b + 1 then pid else if b + 1 < i then pids ! (i - 1) else pids ! i)" if "0 < i" "i \<le> ?n + 1" for i
      using sh[of i] that room lenq b(2) by (auto simp: nth_list_update)
    have lt: "?p ! i < ?p ! j" if "0 < i" "i < j" "j \<le> ?n + 1" for i j
    proof -
      have i: "?p ! i = (if i = b + 1 then pid else if b + 1 < i then pids ! (i - 1) else pids ! i)" by (rule at) (use that in auto)
      have j: "?p ! j = (if j = b + 1 then pid else if b + 1 < j then pids ! (j - 1) else pids ! j)" by (rule at) (use that in auto)
      show ?thesis unfolding i j using that b(2,3,4) pids_less[OF ok] by auto
    qed
    have ok': "pids_ok ?p"
      unfolding pids_ok_def sorted_wrt_iff_nth_less
    proof (intro conjI allI impI)
      show "?p ! 0 < length ?p" using p0 len room by simp
      show "pid_elems ?p ! i < pid_elems ?p ! j" if "i < j" "j < length (pid_elems ?p)" for i j
      proof -
        have "j < ?n + 1" using that(2) p0 len room by (simp add: length_pid_elems)
        then show ?thesis using lt[of "Suc i" "Suc j"] that(1) p0 len room by (simp add: pid_elems_nth)
      qed
    qed
    have "(\<lambda>i. ?p ! i) ` {0<..?n + 1} = insert pid ((\<lambda>i. pids ! i) ` {0<..?n})"
    proof (intro equalityI subsetI)
      fix x assume "x \<in> (\<lambda>i. ?p ! i) ` {0<..?n + 1}"
      then obtain i where i: "0 < i" "i \<le> ?n + 1" "x = ?p ! i" by auto
      consider "i = b + 1" | "b + 1 < i" | "i < b + 1" by linarith
      then show "x \<in> insert pid ((\<lambda>i. pids ! i) ` {0<..?n})"
      proof cases
        case 1
        then show ?thesis using i at[of i] b(2) by simp
      next
        case 2
        then have "x = pids ! (i - 1)" "i - 1 \<in> {0<..?n}" using i at[of i] by auto
        then show ?thesis by blast
      next
        case 3
        then have "x = pids ! i" "i \<in> {0<..?n}" using i at[of i] b(2) by auto
        then show ?thesis by blast
      qed
    next
      fix x assume "x \<in> insert pid ((\<lambda>i. pids ! i) ` {0<..?n})"
      then consider "x = pid" | i where "0 < i" "i \<le> b" "x = pids ! i" | i where "b < i" "i \<le> ?n" "x = pids ! i"
      proof (cases "x = pid")
        case False
        then obtain i where "0 < i" "i \<le> ?n" "x = pids ! i" using \<open>x \<in> _\<close> by auto
        then show ?thesis using that(2)[of i] that(3)[of i] by (cases "i \<le> b") auto
      qed
      then obtain k where "k \<in> {0<..?n + 1}" "x = ?p ! k"
      proof cases
        case 1
        then show ?thesis using at[of "b + 1"] b(2) by (intro that[of "b + 1"]) auto
      next
        case 2
        then show ?thesis using at[of i] b(2) by (intro that[of i]) auto
      next
        case 3
        then show ?thesis using at[of "i + 1"] b(2) by (intro that[of "i + 1"]) auto
      qed
      then show "x \<in> (\<lambda>i. ?p ! i) ` {0<..?n + 1}" by blast
    qed
    then have set: "set (pid_elems ?p) = insert pid (set (pid_elems pids))"
      using mem[of ?p] mem[of pids] p0 len room by simp
    have "pid \<notin> set (pid_elems pids)"
    proof
      assume "pid \<in> set (pid_elems pids)"
      then obtain i where "0 < i" "i \<le> ?n" "pid = pids ! i" using mem[of pids] room by auto
      then show False using b(3)[of i] b(4)[of i] by (cases "i \<le> b") auto
    qed
    then show ?thesis using r ok' len set p0 by simp
  qed
  then show "pids_ok (fst r)" "length (fst r) = length pids" "snd r \<longleftrightarrow> pid \<notin> set (pid_elems pids)"
    "set (pid_elems (fst r)) = insert pid (set (pid_elems pids))" "fst r ! 0 = pids ! 0 + (if snd r then 1 else 0)" by auto
qed

section \<open>The check\<close>

text \<open>
  What \<open>LOCK_MUTEX0\<close> and \<open>mdb_mutex_failed\<close> answer: locked; locked, but the previous owner died, and then the recovery
  checks all readers itself; or an error.
\<close>

datatype lock_result = Locked | Recovered | Lock_error rc

text \<open>
  \<open>cr_live\<close> and \<open>cr_live2\<close> are \<open>mdb_reader_pid(env, Pidcheck, pid)\<close> before and inside the mutex, \<open>cr_lock\<close> the answers for
  the slots, \<open>cr_rlocked\<close> tells that the caller has the mutex, \<open>cr_malloc\<close> that \<open>malloc\<close> succeeds.
\<close>

record check_env =
  cr_pid :: nat
  cr_live :: "nat \<Rightarrow> bool"
  cr_live2 :: "nat \<Rightarrow> bool"
  cr_lock :: "nat \<Rightarrow> lock_result"
  cr_rlocked :: bool
  cr_malloc :: bool

function clear_slots :: "nat \<Rightarrow> nat \<Rightarrow> nat \<Rightarrow> MDB_reader list \<times> nat \<Rightarrow> MDB_reader list \<times> nat" where
  "clear_slots pid j rdrs (mr, cnt) =
     (if j < rdrs
      then clear_slots pid (j + 1) rdrs
        (if mr_pid (mr ! j) = pid then (mr[j := (mr ! j)\<lparr>mr_pid := 0\<rparr>], cnt + 1) else (mr, cnt))
      else (mr, cnt))"
  by pat_completeness auto
termination by (relation "measure (\<lambda>(_, j, rdrs, _). rdrs - j)") auto

declare clear_slots.simps [simp del]

text \<open>The loop over the slots; \<open>rdrs = 0\<close> ends it.\<close>

function check_loop :: "check_env \<Rightarrow> nat \<Rightarrow> nat \<Rightarrow> nat list \<Rightarrow> MDB_reader list \<times> nat \<Rightarrow> (MDB_reader list \<times> nat) \<times> unit res" where
  "check_loop env i rdrs pids (mr, cnt) =
     (if i < rdrs
      then
        let pid = mr_pid (mr ! i)
        in if pid \<noteq> 0 \<and> pid \<noteq> cr_pid env
           then (case mdb_pid_insert pids pid of (pids, inserted) \<Rightarrow>
             if inserted \<and> \<not> cr_live env pid
             then (if cr_rlocked env then check_loop env (i + 1) rdrs pids (clear_slots pid i rdrs (mr, cnt))
               else (case cr_lock env i of
                 Lock_error e \<Rightarrow> ((mr, cnt), Err e)
               | Recovered \<Rightarrow>
                   (case check_loop (env\<lparr>cr_rlocked := True\<rparr>) 0 (length mr) (replicate (length mr + 1) 0) (mr, 0) of
                     ((mr, _), rc) \<Rightarrow> ((mr, cnt), rc))
               | Locked \<Rightarrow> check_loop env (i + 1) rdrs pids (clear_slots pid (if cr_live2 env pid then rdrs else i) rdrs (mr, cnt))))
             else check_loop env (i + 1) rdrs pids (mr, cnt))
           else check_loop env (i + 1) rdrs pids (mr, cnt)
      else ((mr, cnt), Ok ()))"
  by pat_completeness auto
termination by (relation "inv_image (less_than <*lex*> less_than) (\<lambda>(env, i, rdrs, _). (if cr_rlocked env then 0 else 1 :: nat, rdrs - i))") auto

declare check_loop.simps [simp del]

definition mdb_reader_check0 :: "check_env \<Rightarrow> MDB_reader list \<Rightarrow> (MDB_reader list \<times> nat) \<times> unit res" where
  "mdb_reader_check0 env mr =
     (if cr_malloc env then check_loop env 0 (length mr) (replicate (length mr + 1) 0) (mr, 0) else ((mr, 0), Err ENOMEM))"

definition clear_pid :: "nat set \<Rightarrow> MDB_reader \<Rightarrow> MDB_reader" where
  "clear_pid P r = (if mr_pid r \<in> P then r\<lparr>mr_pid := 0\<rparr> else r)"

lemma clear_slots_spec:
  "rdrs = length mr \<Longrightarrow> j \<le> rdrs \<Longrightarrow>
    clear_slots pid j rdrs (mr, cnt) = (take j mr @ map (clear_pid {pid}) (drop j mr), cnt + length (filter (\<lambda>r. mr_pid r = pid) (drop j mr)))"
proof (induction "rdrs - j" arbitrary: j mr cnt)
  case 0
  then show ?case by (subst clear_slots.simps) simp
next
  case (Suc d)
  then have j: "j < length mr" by simp
  let ?r = "if mr_pid (mr ! j) = pid then (mr[j := (mr ! j)\<lparr>mr_pid := 0\<rparr>], cnt + 1) else (mr, cnt)"
  have r: "fst ?r = mr[j := clear_pid {pid} (mr ! j)]" "snd ?r = cnt + (if mr_pid (mr ! j) = pid then 1 else 0)"
    by (auto simp: clear_pid_def)
  have "clear_slots pid j rdrs (mr, cnt) = clear_slots pid (j + 1) rdrs (fst ?r, snd ?r)"
    using Suc.prems(1) j by (subst clear_slots.simps) simp
  also have "\<dots> = (take (j + 1) (fst ?r) @ map (clear_pid {pid}) (drop (j + 1) (fst ?r)),
      snd ?r + length (filter (\<lambda>r. mr_pid r = pid) (drop (j + 1) (fst ?r))))"
    by (rule Suc.hyps(1)) (use Suc.hyps(2) Suc.prems j r in auto)
  also have "\<dots> = (take j mr @ map (clear_pid {pid}) (drop j mr), cnt + length (filter (\<lambda>r. mr_pid r = pid) (drop j mr)))"
    using j unfolding r by (simp add: Cons_nth_drop_Suc[symmetric] take_Suc_conv_app_nth)
  finally show ?case .
qed

lemma clear_pid_simps: "clear_pid P (clear_pid Q r) = clear_pid (P \<union> Q) r" if "0 \<notin> P"
  using that by (auto simp: clear_pid_def)

text \<open>The processes that are found dead.\<close>

definition dead_pids :: "check_env \<Rightarrow> nat set" where
  "dead_pids env = {p. p \<noteq> 0 \<and> p \<noteq> cr_pid env \<and> \<not> cr_live env p \<and> (cr_rlocked env \<or> \<not> cr_live2 env p)}"

text \<open>
  The loop at slot \<open>i\<close>, started on the table \<open>mr0\<close>: the list has the other processes of the slots before \<open>i\<close>, and the slots of
  those that are dead are cleared everywhere.
\<close>

definition seen_pids :: "check_env \<Rightarrow> nat \<Rightarrow> MDB_reader list \<Rightarrow> nat set" where
  "seen_pids env i mr0 = mr_pid ` set (take i mr0) - {0, cr_pid env}"

text \<open>One round of the loop.\<close>

lemma check_loop_own:
  "i < rdrs \<Longrightarrow> \<not> (mr_pid (mr ! i) \<noteq> 0 \<and> mr_pid (mr ! i) \<noteq> cr_pid env) \<Longrightarrow>
    check_loop env i rdrs pids (mr, cnt) = check_loop env (i + 1) rdrs pids (mr, cnt)"
  by (subst check_loop.simps) (simp only: Let_def if_True if_False if_not_P)

lemma check_loop_other:
  assumes "i < rdrs" "mr_pid (mr ! i) \<noteq> 0 \<and> mr_pid (mr ! i) \<noteq> cr_pid env" "mdb_pid_insert pids (mr_pid (mr ! i)) = (pids', ins)" "cr_lock env i = Locked"
  shows "check_loop env i rdrs pids (mr, cnt) = check_loop env (i + 1) rdrs pids'
    (if ins \<and> \<not> cr_live env (mr_pid (mr ! i)) \<and> (cr_rlocked env \<or> \<not> cr_live2 env (mr_pid (mr ! i)))
     then clear_slots (mr_pid (mr ! i)) i rdrs (mr, cnt) else (mr, cnt))"
proof -
  have skip: "clear_slots p rdrs rdrs (mr, cnt) = (mr, cnt)" for p by (subst clear_slots.simps) simp
  have "check_loop env i rdrs pids (mr, cnt) = (case (pids', ins) of (pids, inserted) \<Rightarrow>
      if inserted \<and> \<not> cr_live env (mr_pid (mr ! i))
      then (if cr_rlocked env then check_loop env (i + 1) rdrs pids (clear_slots (mr_pid (mr ! i)) i rdrs (mr, cnt))
        else (case cr_lock env i of
          Lock_error e \<Rightarrow> ((mr, cnt), Err e)
        | Recovered \<Rightarrow> (case check_loop (env\<lparr>cr_rlocked := True\<rparr>) 0 (length mr) (replicate (length mr + 1) 0) (mr, 0) of
                     ((mr, _), rc) \<Rightarrow> ((mr, cnt), rc))
        | Locked \<Rightarrow> check_loop env (i + 1) rdrs pids
            (clear_slots (mr_pid (mr ! i)) (if cr_live2 env (mr_pid (mr ! i)) then rdrs else i) rdrs (mr, cnt))))
      else check_loop env (i + 1) rdrs pids (mr, cnt))"
    unfolding check_loop.simps[of env i rdrs pids mr cnt] Let_def if_P[OF assms(1)] if_P[OF assms(2)] assms(3) ..
  then show ?thesis unfolding assms(4) using skip by (simp split: if_split)
qed

lemma check_loop_spec:
  assumes "\<forall>i. cr_lock env i = Locked" "i \<le> length mr0" "pids_ok pids" "length pids = length mr0 + 1" "pids ! 0 \<le> i"
    "set (pid_elems pids) = seen_pids env i mr0" "mr = map (clear_pid (seen_pids env i mr0 \<inter> dead_pids env)) mr0"
    "cnt = length (filter (\<lambda>r. mr_pid r \<in> seen_pids env i mr0 \<inter> dead_pids env) mr0)"
  shows "check_loop env i (length mr0) pids (mr, cnt) =
    ((map (clear_pid (seen_pids env (length mr0) mr0 \<inter> dead_pids env)) mr0,
      length (filter (\<lambda>r. mr_pid r \<in> seen_pids env (length mr0) mr0 \<inter> dead_pids env) mr0)), Ok ())"
  using assms(2-)
proof (induction "length mr0 - i" arbitrary: i pids mr cnt)
  case 0
  then show ?case by (subst check_loop.simps) simp
next
  case (Suc d)
  then have i: "i < length mr0" by simp
  define S where "S = seen_pids env i mr0"
  define D where "D = dead_pids env"
  let ?a = "mr_pid (mr0 ! i)" and ?p = "mr_pid (mr ! i)"
  have mi: "mr ! i = clear_pid (S \<inter> D) (mr0 ! i)" using Suc.prems i by (simp add: S_def D_def)
  have S': "seen_pids env (i + 1) mr0 = (if ?a = 0 \<or> ?a = cr_pid env then S else insert ?a S)"
    using i by (auto simp: S_def seen_pids_def take_Suc_conv_app_nth)
  have d: "d = length mr0 - (i + 1)" using Suc.hyps(2) by simp
  note IH = Suc.hyps(1)[OF d]
  have S0: "0 \<notin> S" "cr_pid env \<notin> S" by (auto simp: S_def seen_pids_def)
  have len: "length mr = length mr0" using Suc.prems by simp
  have next0: "check_loop env (i + 1) (length mr0) pids' (mr, cnt) =
      ((map (clear_pid (seen_pids env (length mr0) mr0 \<inter> D)) mr0, length (filter (\<lambda>r. mr_pid r \<in> seen_pids env (length mr0) mr0 \<inter> D) mr0)), Ok ())"
    if "seen_pids env (i + 1) mr0 \<inter> D = S \<inter> D" "pids_ok pids'" "length pids' = length mr0 + 1" "pids' ! 0 \<le> i + 1"
      "set (pid_elems pids') = seen_pids env (i + 1) mr0" for pids'
    unfolding D_def by (rule IH) (use that Suc.prems i in \<open>auto simp: S_def D_def\<close>)
  show ?case
  proof (cases "?p \<noteq> 0 \<and> ?p \<noteq> cr_pid env")
    case False
    have "seen_pids env (i + 1) mr0 = S"
    proof (cases "mr_pid (mr0 ! i) \<in> S \<inter> D")
      case True
      then show ?thesis using S' S0 by (auto simp: insert_absorb)
    next
      case f: False
      then have "?p = ?a" using mi by (auto simp: clear_pid_def)
      then show ?thesis using False S' by auto
    qed
    then show ?thesis using next0[of pids] Suc.prems check_loop_own[OF i False] by (simp add: S_def D_def)
  next
    case True
    then have p: "?a = ?p" "?a \<notin> S \<inter> D" using mi by (auto simp: clear_pid_def split: if_splits)
    have S1: "seen_pids env (i + 1) mr0 = insert ?a S" using S' True p(1) by simp
    have room: "pids ! 0 + 1 < length pids" using Suc.prems i by simp
    obtain pids' ins where pi: "mdb_pid_insert pids ?a = (pids', ins)" by fastforce
    note P = pid_insert_spec[OF Suc.prems(2) room, of ?a, unfolded pi fst_conv snd_conv]
    have P': "pids_ok pids'" "length pids' = length mr0 + 1" "pids' ! 0 \<le> i + 1" "set (pid_elems pids') = seen_pids env (i + 1) mr0"
      using P Suc.prems S1 by (auto simp: S_def)
    show ?thesis
    proof (cases "?a \<in> D \<and> ?a \<notin> S")
      case t: True
      have fresh: "\<forall>r\<in>set (take i mr0). mr_pid r \<noteq> ?a" using t True p(1) by (metis Diff_iff S_def image_eqI insertE seen_pids_def singletonD)
      have ins: "ins" using P(3) t Suc.prems by (simp add: S_def)
      have live: "\<not> cr_live env ?a" "cr_rlocked env \<or> \<not> cr_live2 env ?a" using t by (simp_all add: D_def dead_pids_def)
      have keep: "mr_pid (clear_pid (S \<inter> D) r) = ?a \<longleftrightarrow> mr_pid r = ?a" for r
        using t True p(1) by (auto simp: clear_pid_def)
      have both: "clear_pid {?a} (clear_pid (S \<inter> D) r) = clear_pid (insert ?a S \<inter> D) r" for r
        using t True p(1) by (auto simp: clear_pid_def)
      have "clear_slots ?a i (length mr0) (mr, cnt) =
          (take i mr @ map (clear_pid {?a}) (drop i mr), cnt + length (filter (\<lambda>r. mr_pid r = ?a) (drop i mr)))"
        by (rule clear_slots_spec) (use len i in auto)
      also have "take i mr @ map (clear_pid {?a}) (drop i mr) = map (clear_pid (insert ?a S \<inter> D)) mr0"
      proof -
        have "take i mr = map (clear_pid (insert ?a S \<inter> D)) (take i mr0)"
          using fresh Suc.prems(6) by (auto simp: take_map S_def D_def clear_pid_def)
        moreover have "map (clear_pid {?a}) (drop i mr) = map (clear_pid (insert ?a S \<inter> D)) (drop i mr0)"
          using Suc.prems(6) both by (simp add: drop_map S_def D_def)
        ultimately show ?thesis by (metis append_take_drop_id map_append)
      qed
      also have "cnt + length (filter (\<lambda>r. mr_pid r = ?a) (drop i mr)) = length (filter (\<lambda>r. mr_pid r \<in> insert ?a S \<inter> D) mr0)"
      proof -
        have 1: "length (filter (\<lambda>r. mr_pid r = ?a) (drop i mr)) = length (filter (\<lambda>r. mr_pid r = ?a) (drop i mr0))"
          using Suc.prems(6) keep by (simp add: drop_map filter_map S_def D_def comp_def)
        have 2: "filter (\<lambda>r. mr_pid r = ?a) (take i mr0) = []" using fresh by (auto simp: filter_empty_conv)
        have "filter (\<lambda>r. mr_pid r = ?a) mr0 = filter (\<lambda>r. mr_pid r = ?a) (drop i mr0)"
          using 2 by (metis append_Nil append_take_drop_id filter_append)
        moreover have "length (filter (\<lambda>r. mr_pid r \<in> insert ?a S \<inter> D) rs) =
            length (filter (\<lambda>r. mr_pid r \<in> S \<inter> D) rs) + length (filter (\<lambda>r. mr_pid r = ?a) rs)" for rs
          using t by (induction rs) auto
        from this[of mr0] calculation show ?thesis using 1 Suc.prems(7) by (simp add: S_def D_def)
      qed
      finally have cl: "clear_slots ?a i (length mr0) (mr, cnt) =
          (map (clear_pid (insert ?a S \<inter> D)) mr0, length (filter (\<lambda>r. mr_pid r \<in> insert ?a S \<inter> D) mr0))" .
      have "check_loop env i (length mr0) pids (mr, cnt) =
          check_loop env (i + 1) (length mr0) pids' (clear_slots ?a i (length mr0) (mr, cnt))"
        using check_loop_other[OF i True pi[unfolded p(1)], of cnt] ins live assms(1) p(1) by simp
      also have "\<dots> = check_loop env (i + 1) (length mr0) pids' (map (clear_pid (insert ?a S \<inter> D)) mr0,
          length (filter (\<lambda>r. mr_pid r \<in> insert ?a S \<inter> D) mr0))" by (simp only: cl)
      also have "\<dots> = ((map (clear_pid (seen_pids env (length mr0) mr0 \<inter> D)) mr0,
          length (filter (\<lambda>r. mr_pid r \<in> seen_pids env (length mr0) mr0 \<inter> D) mr0)), Ok ())"
        unfolding D_def by (rule IH) (use P' S1 i in \<open>simp_all add: D_def\<close>)
      finally show ?thesis by (simp add: D_def)
    next
      case f: False
      have same: "seen_pids env (i + 1) mr0 \<inter> D = S \<inter> D" using f S1 by auto
      have no: "\<not> (ins \<and> \<not> cr_live env ?a \<and> (cr_rlocked env \<or> \<not> cr_live2 env ?a))"
        using f P(3) Suc.prems(5) True p(1) by (auto simp: S_def D_def dead_pids_def)
      have "check_loop env i (length mr0) pids (mr, cnt) = check_loop env (i + 1) (length mr0) pids' (mr, cnt)"
        using check_loop_other[OF i True pi[unfolded p(1)], of cnt] assms(1) unfolding if_not_P[OF no[unfolded p(1)]] by blast
      then show ?thesis using next0[OF same P'] by (simp add: D_def)
    qed
  qed
qed

text \<open>C15. \<open>mdb_reader_check0\<close> clears exactly the slots of dead processes: every slot whose process is another one than the
  caller's and is found dead, again inside the mutex unless the caller has it, becomes free; all others stay as they are;
  and the result counts the cleared slots.\<close>

theorem reader_check_correct:
  assumes "cr_malloc env" "\<forall>i. cr_lock env i = Locked"
  shows "mdb_reader_check0 env mr =
    ((map (clear_pid (dead_pids env)) mr, length (filter (\<lambda>r. mr_pid r \<in> dead_pids env) mr)), Ok ())"
proof -
  have "seen_pids env 0 mr = {}" by (simp add: seen_pids_def)
  have c0: "clear_pid {} = (\<lambda>r. r)" by (simp add: clear_pid_def fun_eq_iff)
  have "mdb_reader_check0 env mr = check_loop env 0 (length mr) (replicate (length mr + 1) 0) (mr, 0)" using assms(1) by (simp add: mdb_reader_check0_def)
  also have "\<dots> = ((map (clear_pid (seen_pids env (length mr) mr \<inter> dead_pids env)) mr,
      length (filter (\<lambda>r. mr_pid r \<in> seen_pids env (length mr) mr \<inter> dead_pids env) mr)), Ok ())"
    by (rule check_loop_spec[OF assms(2)]) (simp_all add: pids_ok_def pid_elems_def seen_pids_def c0)
  also have "map (clear_pid (seen_pids env (length mr) mr \<inter> dead_pids env)) mr = map (clear_pid (dead_pids env)) mr"
    by (auto simp: seen_pids_def clear_pid_def dead_pids_def)
  also have "filter (\<lambda>r. mr_pid r \<in> seen_pids env (length mr) mr \<inter> dead_pids env) mr = filter (\<lambda>r. mr_pid r \<in> dead_pids env) mr"
    by (rule filter_cong) (auto simp: seen_pids_def dead_pids_def)
  finally show ?thesis .
qed

definition sample_check_env :: check_env where
  "sample_check_env = \<lparr>cr_pid = 3, cr_live = (\<lambda>p. p = 9), cr_live2 = (\<lambda>p. p = 9), cr_lock = (\<lambda>i. Locked), cr_rlocked = False, cr_malloc = True\<rparr>"

theorem reader_check_correct_witness:
  "mdb_reader_check0 sample_check_env
      [\<lparr>mr_pid = 7, mr_txnid = 1\<rparr>, \<lparr>mr_pid = 3, mr_txnid = 2\<rparr>, \<lparr>mr_pid = 9, mr_txnid = 3\<rparr>, \<lparr>mr_pid = 7, mr_txnid = 4\<rparr>] =
    (([\<lparr>mr_pid = 0, mr_txnid = 1\<rparr>, \<lparr>mr_pid = 3, mr_txnid = 2\<rparr>, \<lparr>mr_pid = 9, mr_txnid = 3\<rparr>, \<lparr>mr_pid = 0, mr_txnid = 4\<rparr>], 2), Ok ())"
  using reader_check_correct[of sample_check_env] by (simp add: sample_check_env_def clear_pid_def dead_pids_def)

end
