(* ===== verification/Rebuild.thy ===== *)
theory Rebuild
  imports Stride
begin

text \<open>
  Rebuilding a prefix-compressed leaf page when its trunk changes (\<open>mdb_leaf_rebuild_*\<close> in \<open>mdb.c\<close>):
  the page is copied to a snapshot, every node becomes an entry with its decoded key, the entries are
  measured and encoded against the new trunk, and the page is written again. The state is the
  transaction's scratch sizes, the stride cache and the page; the outcome of an operation is in
  \<open>res\<close>, and a loop that would not end is \<open>None\<close>. The refresh of the cursors' sub-page pointers
  that follows a rebuild is not part of the page state.
\<close>

section \<open>State and entries\<close>

record rb_state =
  rs_scratch :: MDB_prefix_scratch
  rs_cache :: MDB_prefix_stride_cache
  rs_page :: MDB_page

type_synonym 'a rb = "rb_state \<Rightarrow> (rb_state \<times> 'a res) option"

definition rb_lift :: "'a res \<Rightarrow> 'a rb" where
  "rb_lift r = (\<lambda>s. Some (s, r))"

definition rb_bind :: "'a rb \<Rightarrow> ('a \<Rightarrow> 'b rb) \<Rightarrow> 'b rb" where
  "rb_bind f g = (\<lambda>s. case f s of None \<Rightarrow> None
     | Some (s, Ok x) \<Rightarrow> g x s | Some (s, Err e) \<Rightarrow> Some (s, Err e) | Some (s, Abort) \<Rightarrow> Some (s, Abort))"

definition rb_ensure :: "(MDB_prefix_scratch \<Rightarrow> MDB_prefix_scratch res option) \<Rightarrow> unit rb" where
  "rb_ensure f = (\<lambda>s. case f (rs_scratch s) of None \<Rightarrow> None
     | Some (Ok x) \<Rightarrow> Some (s\<lparr>rs_scratch := x\<rparr>, Ok ()) | Some (Err e) \<Rightarrow> Some (s, Err e) | Some Abort \<Rightarrow> Some (s, Abort))"

text \<open>\<open>encoded_key\<close> is a pointer with a length, \<open>data_ptr\<close> one with \<open>data_payload\<close> bytes; None is NULL.\<close>

record MDB_prefix_rebuild_entry =
  re_key :: bytes
  re_data_ptr :: MDB_val
  re_data_payload :: nat
  re_data_size :: nat
  re_encoded_ksize :: nat
  re_flags :: u16
  re_encoded_key :: MDB_val
  re_encoded_used :: nat
  re_shared_prefix :: nat

definition UINT16_MAX :: nat where "UINT16_MAX = 65535"

abbreviation re_encoded_len :: "MDB_prefix_rebuild_entry \<Rightarrow> nat" where
  "re_encoded_len e \<equiv> mv_size (re_encoded_key e)"

text \<open>
  The header (of at least \<open>PAGEHDRSZ\<close> bytes), the slots in use, and the bytes from \<open>mp_upper\<close> to the
  capacity are copied; the rest of the snapshot buffer keeps what it held.
\<close>

definition mdb_prefix_snapshot_capture :: "MDB_page \<Rightarrow> MDB_page \<Rightarrow> nat \<Rightarrow> MDB_page" where
  "mdb_prefix_snapshot_capture dst src capacity =
     (let keys = NUMKEYS src; upper = mp_upper src in
      src\<lparr>mp_ptrs := (\<lambda>i. if i < keys then mp_ptrs src i else mp_ptrs dst i),
          mp_mem := (if upper < capacity
                     then mem_write (mp_mem dst) upper (mem_read (mp_mem src) upper (capacity - upper))
                     else mp_mem dst)\<rparr>)"

section \<open>Collecting entries\<close>

definition data_payload :: "MDB_page \<Rightarrow> nat \<Rightarrow> nat" where
  "data_payload mp node =
     (if F_ISSET (mn_flags (mp_mem mp) node) F_BIGDATA then 8 else NODEDSZ mp node)"

text \<open>The fields of an entry that are read off its node; the key is still empty.\<close>

definition src_entry :: "MDB_page \<Rightarrow> nat \<Rightarrow> MDB_prefix_rebuild_entry" where
  "src_entry snapshot src =
     \<lparr>re_key = [],
      re_data_ptr = Some (mem_read (mp_mem snapshot) (NODEDATA_at snapshot src) (data_payload snapshot src)),
      re_data_payload = data_payload snapshot src, re_data_size = NODEDSZ snapshot src, re_encoded_ksize = 0,
      re_flags = mn_flags (mp_mem snapshot) src, re_encoded_key = Some (NODEKEY snapshot src),
      re_encoded_used = 0, re_shared_prefix = UINT16_MAX\<rparr>"

text \<open>Decoding the header of an entry; the result is the entry and the length of its key.\<close>

definition decode_entry :: "MDB_val \<Rightarrow> MDB_prefix_rebuild_entry \<Rightarrow> MDB_prefix_rebuild_entry \<times> nat" where
  "decode_entry trunk e =
     (case mdb_prefix_decode_canonical trunk (the (re_encoded_key e)) of
        Some (shared, used, full_len) \<Rightarrow>
          (let e = (if shared \<le> UINT16_MAX then e\<lparr>re_shared_prefix := shared\<rparr> else e)
           in (e\<lparr>re_encoded_used := used mod 65536\<rparr>, full_len))
      | None \<Rightarrow> (e, re_encoded_len e))"

text \<open>Copying \<open>encoded_len\<close> bytes, cut or filled up with zeros to the key's length.\<close>

definition copy_raw :: "nat \<Rightarrow> MDB_prefix_rebuild_entry \<Rightarrow> bytes" where
  "copy_raw key_len e =
     (let copy_len = (if re_encoded_len e > key_len then key_len else re_encoded_len e)
      in take copy_len (the (re_encoded_key e)) @ replicate (key_len - copy_len) 0)"

definition copy_prefix :: "bytes \<Rightarrow> MDB_prefix_rebuild_entry \<Rightarrow> bytes" where
  "copy_prefix trunk e = take (re_shared_prefix e) trunk @ drop (re_encoded_used e) (the (re_encoded_key e))"

section \<open>Measuring\<close>

text \<open>The first loop: the sizes, with \<open>used\<close> and the sum of the encoded sizes.\<close>

fun measure_loop :: "bytes \<Rightarrow> nat \<Rightarrow> MDB_prefix_rebuild_entry list \<Rightarrow> nat \<Rightarrow> nat \<Rightarrow>
    (MDB_prefix_rebuild_entry list \<times> nat \<times> nat) res" where
  "measure_loop trunk i [] used total_encoded = Ok ([], used, total_encoded)"
| "measure_loop trunk i (e # es) used total_encoded =
     (let (key_bytes, shared) = (if i = 0 then (length (re_key e), 0)
                                 else let (n, s) = mdb_leaf_encoded_size (Some trunk) (re_key e) in (n, the s));
          e = (if i = 0 then e\<lparr>re_shared_prefix := UINT16_MAX, re_encoded_used := 0\<rparr>
               else e\<lparr>re_shared_prefix := (if shared \<le> UINT16_MAX then shared else UINT16_MAX),
                      re_encoded_used := mdb_varint_length (word_of_nat shared) mod 65536\<rparr>)
      in if key_bytes > UINT16_MAX then Err MDB_BAD_VALSIZE
         else
           let node_bytes = EVEN (NODESIZE + EVEN key_bytes + re_data_payload e) in
           if 2 ^ 64 - 1 - used < node_bytes then Err MDB_PAGE_FULL
           else bind_res (measure_loop trunk (Suc i) es (used + node_bytes) (total_encoded + key_bytes))
                  (\<lambda>(es, used, total). Ok (e\<lparr>re_encoded_ksize := key_bytes\<rparr> # es, used, total)))"

text \<open>The second loop: the encoded keys, one after the other in \<open>encodedbuf\<close>.\<close>

fun encode_loop :: "bytes \<Rightarrow> nat \<Rightarrow> MDB_prefix_rebuild_entry list \<Rightarrow> MDB_prefix_rebuild_entry list res" where
  "encode_loop trunk i [] = Ok []"
| "encode_loop trunk i (e # es) =
     (let key_bytes = re_encoded_ksize e;
          have_shared_hint = (i \<noteq> 0 \<and> re_shared_prefix e \<noteq> UINT16_MAX \<and> re_shared_prefix e \<le> length (re_key e));
          (e, wrote) =
            (if i = 0 then (e\<lparr>re_encoded_key := Some (take key_bytes (re_key e)), re_encoded_used := 0,
                              re_shared_prefix := UINT16_MAX\<rparr>, key_bytes)
             else if have_shared_hint then
               (let shared = re_shared_prefix e; w = mdb_leaf_encode_key_fast (re_key e) shared
                in (e\<lparr>re_encoded_key := Some (take key_bytes w),
                      re_encoded_used := (if re_encoded_used e = 0 then mdb_varint_length (word_of_nat shared) mod 65536
                                          else re_encoded_used e)\<rparr>, length w))
             else
               (let (w, shared) = mdb_leaf_encode_key (Some trunk) (re_key e)
                in (e\<lparr>re_encoded_key := Some (take key_bytes w),
                      re_shared_prefix := (if shared \<le> UINT16_MAX then shared else UINT16_MAX),
                      re_encoded_used := mdb_varint_length (word_of_nat shared) mod 65536\<rparr>, length w)))
      in if wrote \<noteq> key_bytes then Err MDB_CORRUPTED
         else bind_res (encode_loop trunk (Suc i) es) (\<lambda>es. Ok (e # es)))"

definition limit_of :: "nat \<Rightarrow> nat" where
  "limit_of capacity = (if capacity > 0 then capacity else 0)"

definition mdb_leaf_rebuild_measure ::
    "bool \<Rightarrow> MDB_env_sizes \<Rightarrow> MDB_prefix_rebuild_entry list \<Rightarrow> nat \<Rightarrow> (MDB_prefix_rebuild_entry list \<times> nat) rb" where
  "mdb_leaf_rebuild_measure alloc env entries capacity =
     (let limit = limit_of capacity; used = PAGEHDRSZ + length entries * 2 in
      if entries = [] then rb_lift (if used > limit then Err MDB_PAGE_FULL else Ok ([], used))
      else
        let trunk = re_key (hd entries) in
        rb_bind (rb_lift (measure_loop trunk 0 entries used 0)) (\<lambda>(entries, used, total_encoded).
          if used > limit then rb_lift (Err MDB_PAGE_FULL)
          else if total_encoded = 0 then rb_lift (Ok (entries, used))
          else rb_bind (rb_ensure (\<lambda>s. mdb_prefix_ensure_encbuf alloc env s total_encoded)) (\<lambda>_.
            rb_lift (bind_res (encode_loop trunk 0 entries) (\<lambda>entries. Ok (entries, used))))))"

section \<open>Applying\<close>

text \<open>Writing one node at offset \<open>ofs\<close>.\<close>

definition apply_key :: "bytes \<Rightarrow> bool \<Rightarrow> nat \<Rightarrow> MDB_prefix_rebuild_entry \<Rightarrow> bytes" where
  "apply_key trunk trunk_cached i e =
     (if re_encoded_key e \<noteq> None \<and> re_encoded_len e = re_encoded_ksize e then the (re_encoded_key e)
      else if i = 0 then trunk
      else if trunk_cached \<and> re_shared_prefix e \<noteq> UINT16_MAX \<and> re_shared_prefix e \<le> length trunk \<and>
              length (re_key e) \<ge> re_shared_prefix e
      then mdb_varint_encode (word_of_nat (re_shared_prefix e)) @ drop (re_shared_prefix e) (re_key e)
      else fst (mdb_leaf_encode_key (Some trunk) (re_key e)))"

definition apply_data :: "MDB_prefix_rebuild_entry \<Rightarrow> MDB_val" where
  "apply_data e =
     (if F_ISSET (re_flags e) F_BIGDATA then map_option (take 8) (re_data_ptr e)
      else if re_data_payload e > 0
      then Some (case re_data_ptr e of Some d \<Rightarrow> take (re_data_payload e) d | None \<Rightarrow> replicate (re_data_payload e) 0)
      else None)"

definition apply_node :: "bytes \<Rightarrow> bool \<Rightarrow> nat \<Rightarrow> MDB_prefix_rebuild_entry \<Rightarrow> nat \<Rightarrow> MDB_page \<Rightarrow> MDB_page" where
  "apply_node trunk trunk_cached i e ofs mp =
     (let mp = mp\<lparr>mp_ptrs := (mp_ptrs mp)(i := ofs mod 65536)\<rparr>;
          node = NODEPTR mp i;
          mp = mp\<lparr>mp_mem := set16 (mp_mem mp) (node + 6) (re_encoded_ksize e)\<rparr>;
          mp = mp\<lparr>mp_mem := set16 (mp_mem mp) (node + 4) (unat (re_flags e))\<rparr>;
          mp = mdb_node_set_count mp node 0;
          mp = mp\<lparr>mp_mem := SETDSZ (mp_mem mp) node (re_data_size e)\<rparr>;
          mp = mp\<lparr>mp_mem := mem_write (mp_mem mp) (NODEKEY_at mp node) (apply_key trunk trunk_cached i e)\<rparr>
      in case apply_data e of None \<Rightarrow> mp
         | Some d \<Rightarrow> mp\<lparr>mp_mem := mem_write (mp_mem mp) (NODEDATA_at mp node) d\<rparr>)"

text \<open>The loop over the entries; the page is returned in every case, with the code's result.\<close>

fun apply_loop :: "bytes \<Rightarrow> bool \<Rightarrow> nat \<Rightarrow> nat \<Rightarrow> MDB_prefix_rebuild_entry list \<Rightarrow> nat \<Rightarrow> MDB_page \<Rightarrow> MDB_page \<times> nat res" where
  "apply_loop trunk tc lower_base i [] ofs mp = (mp, Ok ofs)"
| "apply_loop trunk tc lower_base i (e # es) ofs mp =
     (let node_bytes = EVEN (NODESIZE + EVEN (re_encoded_ksize e) + re_data_payload e) in
      if node_bytes > ofs then (mp, Err MDB_PAGE_FULL)
      else if ofs - node_bytes < lower_base then (mp, Err MDB_PAGE_FULL)
      else apply_loop trunk tc lower_base (Suc i) es (ofs - node_bytes) (apply_node trunk tc i e (ofs - node_bytes) mp))"

definition max_decoded :: "MDB_prefix_rebuild_entry list \<Rightarrow> nat" where
  "max_decoded es = foldl (\<lambda>m e. if length (re_key e) > m then length (re_key e) else m) 0 es"

definition mdb_leaf_rebuild_apply :: "bool \<Rightarrow> MDB_prefix_rebuild_entry list \<Rightarrow> nat \<Rightarrow> unit rb" where
  "mdb_leaf_rebuild_apply prefix entries capacity = (\<lambda>s.
     let s = s\<lparr>rs_cache := mdb_prefix_stride_entry_invalidate (rs_cache s) (word_of_nat (mp_pgno (rs_page s)))\<rparr>;
         mp = rs_page s in
     if capacity = 0 then Some (s, Err MDB_PAGE_FULL)
     else
       let mp = mp\<lparr>mp_lower := PAGEHDRSZ, mp_upper := capacity mod 65536\<rparr> in
       if \<not> IS_LEAF mp \<or> IS_LEAF2 mp then
         Some (s\<lparr>rs_page := (if \<not> IS_LEAF2 mp then mdb_prefix_leaf_store_stride prefix mp 0 else mp)\<rparr>, Ok ())
       else if entries = [] then Some (s\<lparr>rs_page := mdb_prefix_leaf_store_stride prefix mp 0\<rparr>, Ok ())
       else
         let lower_base = PAGEHDRSZ + length entries * 2; ofs = capacity in
         if lower_base > ofs then Some (s\<lparr>rs_page := mp\<rparr>, Err MDB_PAGE_FULL)
         else
           case apply_loop (re_key (hd entries)) (re_encoded_key (hd entries) \<noteq> None) lower_base 0 entries ofs mp of
             (mp, Ok ofs) \<Rightarrow>
               let mp = mp\<lparr>mp_upper := ofs mod 65536, mp_lower := (PAGEHDRSZ + length entries * 2) mod 65536\<rparr>
               in Some (s\<lparr>rs_page := mdb_prefix_leaf_store_stride prefix mp (max_decoded entries)\<rparr>, Ok ())
           | (mp, Err e) \<Rightarrow> Some (s\<lparr>rs_page := mp\<rparr>, Err e)
           | (mp, Abort) \<Rightarrow> Some (s\<lparr>rs_page := mp\<rparr>, Abort))"

section \<open>After the trunk is deleted\<close>

text \<open>The entry of node \<open>i\<close>, and then its key.\<close>

definition delete_entry :: "MDB_page \<Rightarrow> MDB_val \<Rightarrow> nat \<Rightarrow> MDB_prefix_rebuild_entry \<times> nat" where
  "delete_entry snapshot old_trunk i =
     (let e = src_entry snapshot (NODEPTR snapshot i) in
      if i \<noteq> 0 \<and> old_trunk \<noteq> None \<and> re_encoded_len e > 0 then decode_entry old_trunk e
      else (e, re_encoded_len e))"

definition delete_key :: "MDB_val \<Rightarrow> nat \<Rightarrow> MDB_prefix_rebuild_entry \<times> nat \<Rightarrow> MDB_prefix_rebuild_entry" where
  "delete_key old_trunk i = (\<lambda>(e, key_len).
     e\<lparr>re_key :=
        (if key_len = 0 then []
         else if i = 0 then copy_raw key_len e
         else case old_trunk of
           Some t \<Rightarrow>
             if re_shared_prefix e \<noteq> UINT16_MAX \<and> re_encoded_used e \<le> re_encoded_len e \<and> re_shared_prefix e \<le> length t
             then copy_prefix t e else copy_raw key_len e
         | None \<Rightarrow> copy_raw key_len e)\<rparr>)"

definition mdb_leaf_rebuild_after_trunk_delete ::
    "bool \<Rightarrow> MDB_env_sizes \<Rightarrow> bool \<Rightarrow> MDB_page \<Rightarrow> nat \<Rightarrow> nat \<Rightarrow> MDB_val \<Rightarrow> unit rb" where
  "mdb_leaf_rebuild_after_trunk_delete alloc env prefix snap0 capacity removed old_trunk = (\<lambda>s.
     let mp = rs_page s; total = NUMKEYS mp in
     if \<not> IS_LEAF mp \<or> IS_LEAF2 mp \<or> total = 0 \<or> removed \<ge> total then Some (s, Ok ())
     else
       let remain = total - 1 in
       rb_bind (rb_ensure (\<lambda>x. mdb_prefix_ensure_snapshot alloc env x (me_psize env))) (\<lambda>_.
         let snapshot = mdb_prefix_snapshot_capture snap0 mp capacity in
         if remain = 0 then mdb_leaf_rebuild_apply prefix [] capacity
         else
           rb_bind (rb_ensure (\<lambda>x. mdb_prefix_ensure_entries alloc env x remain)) (\<lambda>_.
             let kept = filter (\<lambda>i. i \<noteq> removed) [0..<total];
                 sized = map (delete_entry snapshot old_trunk) kept;
                 total_key_bytes = sum_list (map snd sized)
             in rb_bind (rb_ensure (\<lambda>x. mdb_prefix_ensure_keybuf alloc env x total_key_bytes)) (\<lambda>_.
                  let entries = map2 (delete_key old_trunk) kept sized
                  in rb_bind (mdb_leaf_rebuild_measure alloc env entries capacity) (\<lambda>(entries, used).
                       mdb_leaf_rebuild_apply prefix entries capacity)))) s)"

section \<open>After a new trunk is inserted\<close>

definition insert_entry ::
    "MDB_page \<Rightarrow> MDB_val \<Rightarrow> MDB_val \<Rightarrow> nat \<Rightarrow> MDB_prefix_rebuild_entry \<times> nat" where
  "insert_entry snapshot old_trunk trunk_ref src_idx =
     (let e = src_entry snapshot (NODEPTR snapshot src_idx);
          same_as_trunk = (case old_trunk of None \<Rightarrow> False | Some t \<Rightarrow> the (re_encoded_key e) = t) in
      if src_idx = 0 \<or> same_as_trunk then (e, re_encoded_len e)
      else if trunk_ref \<noteq> None \<and> re_encoded_len e > 0 then decode_entry trunk_ref e
      else (e, re_encoded_len e))"

definition insert_key :: "MDB_val \<Rightarrow> nat \<Rightarrow> MDB_prefix_rebuild_entry \<times> nat \<Rightarrow> MDB_prefix_rebuild_entry" where
  "insert_key trunk_ref src_idx = (\<lambda>(e, key_len).
     e\<lparr>re_key :=
        (if src_idx = 0 then copy_raw key_len e
         else case trunk_ref of
           Some t \<Rightarrow>
             if re_shared_prefix e \<noteq> UINT16_MAX \<and> re_encoded_used e \<le> re_encoded_len e \<and> re_shared_prefix e \<le> length t
             then copy_prefix t e else copy_raw key_len e
         | None \<Rightarrow> copy_raw key_len e)\<rparr>)"

text \<open>\<open>node_flags\<close> is \<open>new_flags\<close> cut to the flags a node stores; \<open>ofp\<close> the bytes of an overflow page's number.\<close>

definition new_entry :: "bytes \<Rightarrow> bytes \<Rightarrow> u16 \<Rightarrow> bool \<Rightarrow> MDB_val \<Rightarrow> MDB_prefix_rebuild_entry" where
  "new_entry new_key new_data node_flags is_reserve ofp =
     (let big = F_ISSET node_flags F_BIGDATA in
      \<lparr>re_key = new_key,
       re_data_ptr = (if big then Some (case ofp of Some pg \<Rightarrow> pg | None \<Rightarrow> new_data)
                      else if is_reserve then None else Some new_data),
       re_data_payload = (if big then 8 else length new_data), re_data_size = length new_data,
       re_encoded_ksize = 0, re_flags = node_flags, re_encoded_key = None, re_encoded_used = 0,
       re_shared_prefix = UINT16_MAX\<rparr>)"

definition mdb_leaf_rebuild_after_trunk_insert ::
    "bool \<Rightarrow> MDB_env_sizes \<Rightarrow> bool \<Rightarrow> MDB_page \<Rightarrow> nat \<Rightarrow> MDB_val \<Rightarrow> nat \<Rightarrow> bytes \<Rightarrow> bytes \<Rightarrow> u16 \<Rightarrow> bool \<Rightarrow> MDB_val \<Rightarrow> unit rb" where
  "mdb_leaf_rebuild_after_trunk_insert alloc env prefix snap0 capacity old_trunk ins new_key new_data node_flags is_reserve ofp = (\<lambda>s.
     let mp = rs_page s; total = NUMKEYS mp in
     if \<not> IS_LEAF mp \<or> IS_LEAF2 mp then Some (s, Ok ())
     else
       let ins = (if ins > total then total else ins); new_total = total + 1 in
       rb_bind (rb_ensure (\<lambda>x. mdb_prefix_ensure_entries alloc env x new_total)) (\<lambda>_.
       rb_bind (rb_ensure (\<lambda>x. mdb_prefix_ensure_snapshot alloc env x (me_psize env))) (\<lambda>_.
         let snapshot = mdb_prefix_snapshot_capture snap0 mp capacity;
             trunk_ref = (case old_trunk of Some t \<Rightarrow> Some t
               | None \<Rightarrow> if total > 0 then Some (NODEKEY snapshot (NODEPTR snapshot 0)) else None);
             sized = map (insert_entry snapshot old_trunk trunk_ref) [0..<total];
             total_key_bytes = sum_list (map snd sized) + length new_key
         in rb_bind (rb_ensure (\<lambda>x. mdb_prefix_ensure_keybuf alloc env x total_key_bytes)) (\<lambda>_.
              let olds = map2 (insert_key trunk_ref) [0..<total] sized;
                  entries = insert_at ins (new_entry new_key new_data node_flags is_reserve ofp) olds
              in rb_bind (mdb_leaf_rebuild_measure alloc env entries capacity) (\<lambda>(entries, used).
                   mdb_leaf_rebuild_apply prefix entries capacity)))) s)"

section \<open>What a leaf page stores\<close>

record leaf_node =
  ln_key :: bytes
  ln_flags :: u16
  ln_size :: nat
  ln_data :: bytes

definition leaf_node_at :: "MDB_page \<Rightarrow> nat \<Rightarrow> leaf_node" where
  "leaf_node_at mp i =
     \<lparr>ln_key = key_at mp i, ln_flags = mn_flags (mp_mem mp) (NODEPTR mp i), ln_size = NODEDSZ mp (NODEPTR mp i),
      ln_data = mem_read (mp_mem mp) (NODEDATA_at mp (NODEPTR mp i)) (data_payload mp (NODEPTR mp i))\<rparr>"

definition stored_nodes :: "MDB_page \<Rightarrow> leaf_node list" where
  "stored_nodes mp = map (leaf_node_at mp) [0..<NUMKEYS mp]"

text \<open>A leaf node is determined by the bytes it owns.\<close>

definition plain_leaf :: "MDB_page \<Rightarrow> bool" where
  "plain_leaf mp \<longleftrightarrow> IS_LEAF mp \<and> \<not> IS_LEAF2 mp \<and> \<not> counted_branch mp"

lemma plain_leaf_cong: "mp_flags mp = mp_flags mp' \<Longrightarrow> plain_leaf mp = plain_leaf mp'"
  by (simp add: plain_leaf_def counted_branch_def IS_LEAF_def IS_LEAF2_def IS_BRANCH_def IS_COUNTED_def)

lemma node_size_leaf:
  "plain_leaf mp \<Longrightarrow> node_size mp a = EVEN (8 + EVEN (mn_ksize (mp_mem mp) a) + data_payload mp a)"
  by (auto simp: plain_leaf_def counted_branch_def node_size_def data_payload_def NODESIZE_def Let_def)

lemma leaf_node_cong:
  assumes l: "plain_leaf mp" "mp_flags mp = mp_flags mp'"
    and r: "mem_read (mp_mem mp) (NODEPTR mp i) (node_size mp (NODEPTR mp i)) =
            mem_read (mp_mem mp') (NODEPTR mp' j) (node_size mp (NODEPTR mp i))"
  shows "leaf_node_at mp i = leaf_node_at mp' j" "node_size mp (NODEPTR mp i) = node_size mp' (NODEPTR mp' j)"
proof -
  let ?a = "NODEPTR mp i" and ?b = "NODEPTR mp' j"
  let ?sz = "node_size mp ?a"
  have sub: "mem_read (mp_mem mp) (?a + x) n = mem_read (mp_mem mp') (?b + x) n" if "x + n \<le> ?sz" for x n
  proof (rule nth_equalityI)
    fix k assume "k < length (mem_read (mp_mem mp) (?a + x) n)"
    then have k: "k < n" "x + k < ?sz" using that by simp_all
    have "mem_read (mp_mem mp) ?a ?sz ! (x + k) = mem_read (mp_mem mp') ?b ?sz ! (x + k)" using r by simp
    with k show "mem_read (mp_mem mp) (?a + x) n ! k = mem_read (mp_mem mp') (?b + x) n ! k"
      by (simp add: add.assoc)
  qed simp
  have sz8: "8 \<le> ?sz" by (rule node_size_ge)
  have r8: "mem_read (mp_mem mp) ?a 8 = mem_read (mp_mem mp') ?b 8" using sub[of 0 8] sz8 by simp
  have g: "get16 (mp_mem mp) (?a + k) = get16 (mp_mem mp') (?b + k)" if "k \<le> 6" for k by (rule get16_cong[OF r8 that])
  have f: "mn_ksize (mp_mem mp) ?a = mn_ksize (mp_mem mp') ?b" "mn_flags (mp_mem mp) ?a = mn_flags (mp_mem mp') ?b"
    "NODEDSZ mp ?a = NODEDSZ mp' ?b"
    using g[of 0] g[of 2] g[of 4] g[of 6] by (simp_all only: mn_ksize_def mn_flags_def NODEDSZ_def mn_lo_def mn_hi_def add_0_right)
  have p: "data_payload mp ?a = data_payload mp' ?b" by (simp only: data_payload_def f)
  have l': "plain_leaf mp'" using l plain_leaf_cong by blast
  have ksz: "8 + EVEN (mn_ksize (mp_mem mp) ?a) + data_payload mp ?a \<le> ?sz"
    unfolding node_size_leaf[OF l(1)] by (rule EVEN_ge)
  have "key_at mp i = key_at mp' j"
    using sub[of 8 "mn_ksize (mp_mem mp) ?a"] ksz EVEN_ge[of "mn_ksize (mp_mem mp) ?a"] l l'
    by (simp add: key_at_def NODEKEY_def NODEKEY_at_def NODESIZE_def plain_leaf_def f)
  moreover have "mem_read (mp_mem mp) (NODEDATA_at mp ?a) (data_payload mp ?a) =
      mem_read (mp_mem mp') (NODEDATA_at mp' ?b) (data_payload mp' ?b)"
    using sub[of "8 + EVEN (mn_ksize (mp_mem mp) ?a)" "data_payload mp ?a"] ksz
    by (simp add: NODEDATA_at_def NODESIZE_def f p add.assoc)
  ultimately show "leaf_node_at mp i = leaf_node_at mp' j" by (simp add: leaf_node_at_def f)
  show "?sz = node_size mp' ?b" by (rule node_size_cong[OF r8 l(2)])
qed

section \<open>Writing one node\<close>

abbreviation node_bytes :: "MDB_prefix_rebuild_entry \<Rightarrow> nat" where
  "node_bytes e \<equiv> EVEN (NODESIZE + EVEN (re_encoded_ksize e) + re_data_payload e)"

text \<open>The data an entry carries, and that its sizes are consistent.\<close>

definition entry_data :: "MDB_prefix_rebuild_entry \<Rightarrow> bytes" where
  "entry_data e = (case re_data_ptr e of Some d \<Rightarrow> take (re_data_payload e) d | None \<Rightarrow> replicate (re_data_payload e) 0)"

definition data_ok :: "MDB_prefix_rebuild_entry \<Rightarrow> bool" where
  "data_ok e \<longleftrightarrow> re_data_size e < 2 ^ 32 \<and>
     re_data_payload e = (if F_ISSET (re_flags e) F_BIGDATA then 8 else re_data_size e) \<and>
     (case re_data_ptr e of None \<Rightarrow> \<not> F_ISSET (re_flags e) F_BIGDATA | Some d \<Rightarrow> re_data_payload e \<le> length d)"

lemma length_entry_data: "data_ok e \<Longrightarrow> length (entry_data e) = re_data_payload e"
  by (auto simp: entry_data_def data_ok_def split: option.splits)

lemma apply_data_entry_data:
  "data_ok e \<Longrightarrow> apply_data e = Some (entry_data e) \<or> apply_data e = None \<and> entry_data e = []"
  by (auto simp: apply_data_def entry_data_def data_ok_def split: option.splits)

definition entry_node :: "bytes \<Rightarrow> bool \<Rightarrow> nat \<Rightarrow> MDB_prefix_rebuild_entry \<Rightarrow> leaf_node" where
  "entry_node trunk tc i e =
     \<lparr>ln_key = apply_key trunk tc i e, ln_flags = re_flags e, ln_size = re_data_size e, ln_data = entry_data e\<rparr>"

text \<open>The bytes of the node after it is written.\<close>

definition node_mem :: "mem \<Rightarrow> nat \<Rightarrow> MDB_prefix_rebuild_entry \<Rightarrow> bytes \<Rightarrow> mem" where
  "node_mem m ofs e key =
     mem_write (mem_write (SETDSZ (set16 (set16 m (ofs + 6) (re_encoded_ksize e)) (ofs + 4) (unat (re_flags e))) ofs (re_data_size e))
        (ofs + 8) key) (ofs + 8 + EVEN (length key)) (entry_data e)"

lemma node_mem_fields:
  assumes e: "data_ok e" "re_encoded_ksize e = length key" "length key < 65536"
  shows "mn_ksize (node_mem m ofs e key) ofs = length key"
    "mn_flags (node_mem m ofs e key) ofs = re_flags e"
    "mn_lo (node_mem m ofs e key) ofs + mn_hi (node_mem m ofs e key) ofs * 2 ^ 16 = re_data_size e"
    "mem_read (node_mem m ofs e key) (ofs + 8) (length key) = key"
    "mem_read (node_mem m ofs e key) (ofs + 8 + EVEN (length key)) (re_data_payload e) = entry_data e"
    "x < ofs \<or> ofs + node_bytes e \<le> x \<Longrightarrow> node_mem m ofs e key x = m x"
proof -
  have ge: "length key \<le> EVEN (length key)" by (rule EVEN_ge)
  have fl: "unat (re_flags e) < 65536" using unsigned_less[of "re_flags e"] by simp
  show "mn_ksize (node_mem m ofs e key) ofs = length key"
    using e by (simp add: node_mem_def mn_ksize_def SETDSZ_def mem_simps)
  show "mn_flags (node_mem m ofs e key) ofs = re_flags e"
    using fl by (simp add: node_mem_def mn_flags_def SETDSZ_def mem_simps)
  have "re_data_size e div 65536 < 65536" using e(1) by (simp add: data_ok_def div_less_iff_less_mult)
  then show "mn_lo (node_mem m ofs e key) ofs + mn_hi (node_mem m ofs e key) ofs * 2 ^ 16 = re_data_size e"
    by (simp add: node_mem_def mn_lo_def mn_hi_def SETDSZ_def mem_simps)
  show "mem_read (node_mem m ofs e key) (ofs + 8) (length key) = key"
    using ge by (simp add: node_mem_def mem_simps)
  show "mem_read (node_mem m ofs e key) (ofs + 8 + EVEN (length key)) (re_data_payload e) = entry_data e"
    using length_entry_data[OF e(1)] by (simp add: node_mem_def mem_simps)
  assume x: "x < ofs \<or> ofs + node_bytes e \<le> x"
  have "8 + EVEN (length key) + re_data_payload e \<le> node_bytes e"
    using EVEN_ge[of "NODESIZE + EVEN (re_encoded_ksize e) + re_data_payload e"] e(2) by (simp add: NODESIZE_def)
  then show "node_mem m ofs e key x = m x"
    using x ge length_entry_data[OF e(1)]
    by (auto simp: node_mem_def SETDSZ_def set16_def mem_write_apply_other)
qed

lemma apply_node_eq:
  assumes l: "plain_leaf mp" and e: "data_ok e" "re_encoded_ksize e = length (apply_key trunk tc i e)"
    "length (apply_key trunk tc i e) < 65536" and ofs: "ofs < 65536"
  shows "apply_node trunk tc i e ofs mp =
    mp\<lparr>mp_ptrs := (mp_ptrs mp)(i := ofs), mp_mem := node_mem (mp_mem mp) ofs e (apply_key trunk tc i e)\<rparr>"
proof -
  have nc: "\<not> (IS_BRANCH mp \<and> IS_COUNTED mp)" using l by (simp add: plain_leaf_def counted_branch_def)
  define k where "k = apply_key trunk tc i e"
  define m1 where "m1 = SETDSZ (set16 (set16 (mp_mem mp) (ofs + 6) (re_encoded_ksize e)) (ofs + 4) (unat (re_flags e))) ofs (re_data_size e)"
  define mp1 where "mp1 = mp\<lparr>mp_ptrs := (mp_ptrs mp)(i := ofs), mp_mem := mem_write m1 (ofs + 8) k\<rparr>"
  have ks: "mn_ksize (mp_mem mp1) ofs = length k"
    using e by (simp add: mp1_def m1_def mn_ksize_def SETDSZ_def mem_simps k_def)
  have nc': "\<not> counted_branch (mp\<lparr>mp_ptrs := p, mp_mem := m\<rparr>)" for p m
    using nc by (simp add: counted_branch_def IS_BRANCH_def IS_COUNTED_def)
  have set0: "mdb_node_set_count (mp\<lparr>mp_ptrs := p, mp_mem := m\<rparr>) a 0 = mp\<lparr>mp_ptrs := p, mp_mem := m\<rparr>" for p m a
    using nc by (auto simp: mdb_node_set_count_def IS_BRANCH_def IS_COUNTED_def)
  have "apply_node trunk tc i e ofs mp =
      (case apply_data e of None \<Rightarrow> mp1 | Some d \<Rightarrow> mp1\<lparr>mp_mem := mem_write (mp_mem mp1) (NODEDATA_at mp1 ofs) d\<rparr>)"
    using ofs nc'[where p = "(mp_ptrs mp)(i := ofs)"] set0[where p = "(mp_ptrs mp)(i := ofs)"]
    by (cases "apply_data e") (simp_all add: apply_node_def Let_def NODEPTR_def NODEKEY_at_def NODESIZE_def mp1_def m1_def k_def)
  also have "\<dots> = mp1\<lparr>mp_mem := mem_write (mp_mem mp1) (NODEDATA_at mp1 ofs) (entry_data e)\<rparr>"
    using apply_data_entry_data[OF e(1)] by auto
  also have "\<dots> = mp\<lparr>mp_ptrs := (mp_ptrs mp)(i := ofs), mp_mem := node_mem (mp_mem mp) ofs e k\<rparr>"
    unfolding NODEDATA_at_def ks by (simp add: node_mem_def mp1_def m1_def NODESIZE_def)
  finally show ?thesis by (simp add: k_def)
qed

section \<open>Writing all nodes\<close>

definition entry_ok_at :: "bytes \<Rightarrow> bool \<Rightarrow> nat \<Rightarrow> MDB_prefix_rebuild_entry \<Rightarrow> bool" where
  "entry_ok_at trunk tc i e \<longleftrightarrow> data_ok e \<and> re_encoded_ksize e = length (apply_key trunk tc i e) \<and>
     length (apply_key trunk tc i e) < 65536"

definition total_bytes :: "MDB_prefix_rebuild_entry list \<Rightarrow> nat" where
  "total_bytes es = sum_list (map node_bytes es)"

lemma total_bytes_simps [simp]: "total_bytes [] = 0" "total_bytes (e # es) = node_bytes e + total_bytes es"
  by (simp_all add: total_bytes_def)

lemma node_mem_node:
  assumes l: "plain_leaf mp" and e: "entry_ok_at trunk tc i e" and p: "mp_ptrs mp i = ofs"
    and r: "mem_read (mp_mem mp) ofs (node_bytes e) = mem_read (node_mem m ofs e (apply_key trunk tc i e)) ofs (node_bytes e)"
  shows "leaf_node_at mp i = entry_node trunk tc i e" "node_size mp ofs = node_bytes e"
proof -
  let ?k = "apply_key trunk tc i e"
  let ?mp = "mp\<lparr>mp_mem := node_mem m ofs e ?k\<rparr>"
  have d: "data_ok e" "re_encoded_ksize e = length ?k" "length ?k < 65536" using e by (simp_all add: entry_ok_at_def)
  note F = node_mem_fields[OF d, where m = m and ofs = ofs]
  have l': "plain_leaf ?mp" using l plain_leaf_cong[of mp ?mp] by simp
  have dsz: "NODEDSZ ?mp ofs = re_data_size e" using F(3) by (simp add: NODEDSZ_def)
  have pl: "data_payload ?mp ofs = re_data_payload e"
    using d(1) by (simp add: data_payload_def F(2) dsz data_ok_def)
  have sz: "node_size ?mp ofs = node_bytes e"
    using node_size_leaf[OF l'] F(1) d(2) pl by (simp add: NODESIZE_def)
  have nk: "NODEKEY_at ?mp ofs = ofs + 8" using l' by (simp add: NODEKEY_at_def plain_leaf_def NODESIZE_def)
  have "leaf_node_at ?mp i = entry_node trunk tc i e"
    using p F(1,2,4,5) by (simp add: leaf_node_at_def entry_node_def NODEPTR_def key_at_def NODEKEY_def nk dsz pl NODEDATA_at_def NODESIZE_def)
  moreover have "leaf_node_at ?mp i = leaf_node_at mp i" "node_size ?mp (NODEPTR ?mp i) = node_size mp (NODEPTR mp i)"
    using leaf_node_cong[OF l', of mp i i] r sz p by (simp_all add: NODEPTR_def)
  ultimately show "leaf_node_at mp i = entry_node trunk tc i e" "node_size mp ofs = node_bytes e"
    using sz p by (simp_all add: NODEPTR_def)
qed

lemma node_bytes_ge: "8 \<le> node_bytes e"
  using EVEN_ge[of "NODESIZE + EVEN (re_encoded_ksize e) + re_data_payload e"] by (simp add: NODESIZE_def)

text \<open>The slot of the node \<open>j\<close> places after the first one written.\<close>

definition slot_ofs :: "MDB_prefix_rebuild_entry list \<Rightarrow> nat \<Rightarrow> nat \<Rightarrow> nat" where
  "slot_ofs es ofs j = ofs - total_bytes (take (Suc j) es)"

lemma total_bytes_take_le: "total_bytes (take j es) \<le> total_bytes es"
  by (metis append_take_drop_id le_add1 map_append sum_list.append total_bytes_def)

lemma apply_loop_Ok:
  assumes "plain_leaf mp" "ofs < 65536" "lower_base + total_bytes es \<le> ofs"
    and "\<And>j. j < length es \<Longrightarrow> entry_ok_at trunk tc (i + j) (es ! j)"
  shows "\<exists>mp'. apply_loop trunk tc lower_base i es ofs mp = (mp', Ok (ofs - total_bytes es)) \<and>
    mp' = mp\<lparr>mp_ptrs := mp_ptrs mp', mp_mem := mp_mem mp'\<rparr> \<and>
    (\<forall>j<i. mp_ptrs mp' j = mp_ptrs mp j) \<and> (\<forall>x\<ge>ofs. mp_mem mp' x = mp_mem mp x) \<and>
    (\<forall>j<length es. mp_ptrs mp' (i + j) = slot_ofs es ofs j \<and> leaf_node_at mp' (i + j) = entry_node trunk tc (i + j) (es ! j) \<and>
        node_size mp' (slot_ofs es ofs j) = node_bytes (es ! j))"
  using assms
proof (induction es arbitrary: i ofs mp)
  case Nil
  then show ?case by simp
next
  case (Cons e es)
  let ?nb = "node_bytes e"
  let ?ofs = "ofs - ?nb"
  let ?k = "apply_key trunk tc i e"
  have room: "?nb \<le> ofs" "lower_base + total_bytes es \<le> ?ofs" "lower_base \<le> ?ofs" "?ofs < 65536"
    using Cons.prems(2,3) by (simp_all add: total_bytes_def)
  have e: "entry_ok_at trunk tc i e" using Cons.prems(4)[of 0] by simp
  then have d: "data_ok e" "re_encoded_ksize e = length ?k" "length ?k < 65536" by (simp_all add: entry_ok_at_def)
  define mp1 where "mp1 = apply_node trunk tc i e ?ofs mp"
  have mp1: "mp1 = mp\<lparr>mp_ptrs := (mp_ptrs mp)(i := ?ofs), mp_mem := node_mem (mp_mem mp) ?ofs e ?k\<rparr>"
    unfolding mp1_def by (rule apply_node_eq[OF Cons.prems(1) d room(4)])
  have l1: "plain_leaf mp1" using Cons.prems(1) plain_leaf_cong[of mp mp1] by (simp add: mp1)
  have es: "entry_ok_at trunk tc (Suc i + j) (es ! j)" if "j < length es" for j
    using Cons.prems(4)[of "Suc j"] that by simp
  obtain mp' where mp': "apply_loop trunk tc lower_base (Suc i) es ?ofs mp1 = (mp', Ok (?ofs - total_bytes es))"
    "mp' = mp1\<lparr>mp_ptrs := mp_ptrs mp', mp_mem := mp_mem mp'\<rparr>"
    "\<forall>j<Suc i. mp_ptrs mp' j = mp_ptrs mp1 j" "\<forall>x\<ge>?ofs. mp_mem mp' x = mp_mem mp1 x"
    "\<forall>j<length es. mp_ptrs mp' (Suc i + j) = slot_ofs es ?ofs j \<and>
        leaf_node_at mp' (Suc i + j) = entry_node trunk tc (Suc i + j) (es ! j) \<and>
        node_size mp' (slot_ofs es ?ofs j) = node_bytes (es ! j)"
    using Cons.IH[OF l1 room(4,2) es] by blast
  have l': "plain_leaf mp'" using l1 plain_leaf_cong[of mp1 mp'] mp'(2) by (metis MDB_page.select_convs(3) MDB_page.surjective MDB_page.update_convs(6,7))
  have pi: "mp_ptrs mp' i = ?ofs" using mp'(3) by (simp add: mp1)
  have rd: "mem_read (mp_mem mp') ?ofs ?nb = mem_read (node_mem (mp_mem mp) ?ofs e ?k) ?ofs ?nb"
    by (rule mem_read_cong) (use mp'(4) in \<open>simp add: mp1\<close>)
  note first = node_mem_node[OF l' e pi rd]
  have run: "apply_loop trunk tc lower_base i (e # es) ofs mp = (mp', Ok (ofs - total_bytes (e # es)))"
    using mp'(1) room by (simp add: Let_def flip: mp1_def)
  have "mp_mem mp' x = mp_mem mp x" if "x \<ge> ofs" for x
    using mp'(4) node_mem_fields(6)[OF d, where x = x and ofs = ?ofs and m = "mp_mem mp"] that room(1) by (simp add: mp1)
  moreover have "mp_ptrs mp' j = mp_ptrs mp j" if "j < i" for j
    using mp'(3) that by (simp add: mp1)
  moreover have "mp' = mp\<lparr>mp_ptrs := mp_ptrs mp', mp_mem := mp_mem mp'\<rparr>"
    using mp'(2) by (simp add: mp1)
  moreover have "mp_ptrs mp' (i + j) = slot_ofs (e # es) ofs j \<and>
      leaf_node_at mp' (i + j) = entry_node trunk tc (i + j) ((e # es) ! j) \<and>
      node_size mp' (slot_ofs (e # es) ofs j) = node_bytes ((e # es) ! j)" if "j < length (e # es)" for j
  proof (cases j)
    case 0
    then show ?thesis using pi first by (simp add: slot_ofs_def)
  next
    case (Suc j')
    moreover have "slot_ofs (e # es) ofs (Suc j') = slot_ofs es ?ofs j'" by (simp add: slot_ofs_def)
    ultimately show ?thesis using mp'(5) that by simp
  qed
  ultimately show ?case using run by blast
qed

lemma total_bytes_snoc: "j < length es \<Longrightarrow> total_bytes (take (Suc j) es) = total_bytes (take j es) + node_bytes (es ! j)"
  by (simp add: total_bytes_def take_Suc_conv_app_nth)

lemma total_bytes_mono: "j \<le> k \<Longrightarrow> total_bytes (take j es) \<le> total_bytes (take k es)"
  using total_bytes_take_le[of j "take k es"] by (simp add: min_def)

lemma slot_ofs_bounds:
  assumes "j < length es" "total_bytes es \<le> ofs"
  shows "ofs - total_bytes es \<le> slot_ofs es ofs j" "slot_ofs es ofs j + node_bytes (es ! j) \<le> ofs"
    "i < j \<Longrightarrow> slot_ofs es ofs j + node_bytes (es ! j) \<le> slot_ofs es ofs i"
proof -
  have le: "total_bytes (take (Suc j) es) \<le> total_bytes es" by (rule total_bytes_take_le)
  then show "ofs - total_bytes es \<le> slot_ofs es ofs j" by (simp add: slot_ofs_def)
  have s: "slot_ofs es ofs j + node_bytes (es ! j) = ofs - total_bytes (take j es)"
    using le assms unfolding slot_ofs_def total_bytes_snoc[OF assms(1)] by linarith
  then show "slot_ofs es ofs j + node_bytes (es ! j) \<le> ofs" by simp
  assume "i < j"
  then have "total_bytes (take (Suc i) es) \<le> total_bytes (take j es)" by (intro total_bytes_mono) simp
  then show "slot_ofs es ofs j + node_bytes (es ! j) \<le> slot_ofs es ofs i" using s by (simp add: slot_ofs_def)
qed

text \<open>Rewriting the page: it stores the entries, in order, and is well-formed without holes.\<close>

lemma rebuild_apply_Ok:
  assumes l: "plain_leaf (rs_page s)" and pre: prefix and ne: "entries \<noteq> []" and cap: "capacity < 65536"
    and room: "PAGEHDRSZ + 2 * length entries + total_bytes entries \<le> capacity"
    and ok: "\<And>i. i < length entries \<Longrightarrow> entry_ok_at (re_key (hd entries)) (re_encoded_key (hd entries) \<noteq> None) i (entries ! i)"
  obtains s' where "mdb_leaf_rebuild_apply prefix entries capacity s = Some (s', Ok ())"
    "stored_nodes (rs_page s') = map (\<lambda>i. entry_node (re_key (hd entries)) (re_encoded_key (hd entries) \<noteq> None) i (entries ! i)) [0..<length entries]"
    "page_wf capacity (rs_page s')" "NUMKEYS (rs_page s') = length entries"
    "mp_flags (rs_page s') = mp_flags (rs_page s)" "mp_pgno (rs_page s') = mp_pgno (rs_page s)"
    "mp_pad (rs_page s') = min (max_decoded entries) 65535" "rs_scratch s' = rs_scratch s"
    "mp_upper (rs_page s') + total_bytes entries = capacity"
proof -
  let ?t = "re_key (hd entries)" and ?tc = "re_encoded_key (hd entries) \<noteq> None" and ?n = "length entries"
  let ?lb = "PAGEHDRSZ + ?n * 2"
  define mp0 where "mp0 = (rs_page s)\<lparr>mp_lower := PAGEHDRSZ, mp_upper := capacity mod 65536\<rparr>"
  have l0: "plain_leaf mp0" using l plain_leaf_cong[of "rs_page s" mp0] by (simp add: mp0_def)
  have lb: "?lb + total_bytes entries \<le> capacity" using room by simp
  obtain mp1 where mp1: "apply_loop ?t ?tc ?lb 0 entries capacity mp0 = (mp1, Ok (capacity - total_bytes entries))"
    "mp1 = mp0\<lparr>mp_ptrs := mp_ptrs mp1, mp_mem := mp_mem mp1\<rparr>"
    "\<forall>j<?n. mp_ptrs mp1 (0 + j) = slot_ofs entries capacity j \<and>
        leaf_node_at mp1 (0 + j) = entry_node ?t ?tc (0 + j) (entries ! j) \<and>
        node_size mp1 (slot_ofs entries capacity j) = node_bytes (entries ! j)"
    using apply_loop_Ok[OF l0 cap lb, of ?t ?tc 0] ok by auto
  define up where "up = capacity - total_bytes entries"
  define mp2 where "mp2 = mp1\<lparr>mp_upper := up mod 65536, mp_lower := ?lb mod 65536\<rparr>"
  define mp3 where "mp3 = mp2\<lparr>mp_pad := min (max_decoded entries) 65535\<rparr>"
  have l1: "plain_leaf mp1" using l0 plain_leaf_cong[of mp0 mp1] by (subst (asm) plain_leaf_cong[of mp0 mp1]) (subst mp1(2), simp, simp)
  have fl: "mp_flags mp1 = mp_flags (rs_page s)" "mp_pgno mp1 = mp_pgno (rs_page s)"
    by (subst mp1(2), simp add: mp0_def)+
  have mods: "up mod 65536 = up" "?lb mod 65536 = ?lb" "?lb \<le> up" "up \<le> capacity"
    using lb cap by (simp_all add: up_def)
  have pl: "is_prefix_leaf prefix mp2" using pre l1 by (simp add: mp2_def is_prefix_leaf_def plain_leaf_def IS_LEAF_def IS_LEAF2_def)
  define s1 where "s1 = s\<lparr>rs_cache := mdb_prefix_stride_entry_invalidate (rs_cache s) (word_of_nat (mp_pgno (rs_page s)))\<rparr>"
  have c0: "capacity \<noteq> 0" "\<not> ?lb > capacity" using room ne by (cases entries; simp add: PAGEHDRSZ_def)+
  have leaf0: "\<not> (\<not> IS_LEAF mp0 \<or> IS_LEAF2 mp0)" using l0 by (simp add: plain_leaf_def)
  have run: "mdb_leaf_rebuild_apply prefix entries capacity s = Some (s1\<lparr>rs_page := mp3\<rparr>, Ok ())"
  proof -
    have p1: "rs_page s1 = rs_page s" by (simp add: s1_def)
    have "mdb_leaf_rebuild_apply prefix entries capacity s =
      Some (s1\<lparr>rs_page := mdb_prefix_leaf_store_stride prefix mp2 (max_decoded entries)\<rparr>, Ok ())"
      unfolding mdb_leaf_rebuild_apply_def Let_def s1_def[symmetric] p1 mp0_def[symmetric]
        if_not_P[OF c0(1)] if_not_P[OF c0(2)] if_not_P[OF leaf0] if_not_P[OF ne] mp1(1) prod.case res.case
      by (simp add: mp2_def up_def)
    then show ?thesis by (simp add: store_stride_prefix[OF pl] mp3_def)
  qed
  have n3: "NUMKEYS mp3 = ?n"
    using mods cap by (simp add: mp3_def mp2_def NUMKEYS_def PAGEHDRSZ_def u16_sub_le)
  have m3: "mp_ptrs mp3 = mp_ptrs mp1" "mp_mem mp3 = mp_mem mp1" "mp_flags mp3 = mp_flags mp1"
    by (simp_all add: mp3_def mp2_def)
  have ln: "leaf_node_at mp3 i = leaf_node_at mp1 i" "node_size mp3 a = node_size mp1 a" for i a
  proof -
    show "leaf_node_at mp3 i = leaf_node_at mp1 i"
      by (simp add: leaf_node_at_def key_at_def NODEPTR_def NODEKEY_def NODEKEY_at_def counted_branch_def IS_BRANCH_def
          IS_COUNTED_def NODEDSZ_def NODEDATA_at_def data_payload_def m3)
    show "node_size mp3 a = node_size mp1 a" by (rule node_size_cong) (simp_all add: m3)
  qed
  have node: "mp_ptrs mp3 j = slot_ofs entries capacity j" "leaf_node_at mp3 j = entry_node ?t ?tc j (entries ! j)"
    "node_size mp3 (mp_ptrs mp3 j) = node_bytes (entries ! j)" if "j < ?n" for j
    using mp1(3) that by (simp_all add: ln m3)
  have tb: "total_bytes entries \<le> capacity" using lb by simp
  have "page_wf capacity mp3"
    unfolding page_wf_def slots_wf_def n3
  proof (intro conjI allI impI)
    have f3: "mp_lower mp3 = ?lb" "mp_upper mp3 = up" using mods by (simp_all add: mp3_def mp2_def)
    show "capacity < 65536" "even (mp_lower mp3)" "PAGEHDRSZ \<le> mp_lower mp3" "mp_lower mp3 \<le> mp_upper mp3" "mp_upper mp3 \<le> capacity"
      using cap mods unfolding f3 by (simp_all add: PAGEHDRSZ_def)
    fix i assume i: "i < ?n"
    show "0 < node_size mp3 (mp_ptrs mp3 i)" using node_size_ge[of mp3 "mp_ptrs mp3 i"] by simp
    show "mp_upper mp3 \<le> mp_ptrs mp3 i" "mp_ptrs mp3 i + node_size mp3 (mp_ptrs mp3 i) \<le> capacity"
      using slot_ofs_bounds(1,2)[OF i tb] node[OF i] unfolding f3 up_def by simp_all
    fix j assume j: "j < ?n" "i \<noteq> j"
    show "mp_ptrs mp3 i + node_size mp3 (mp_ptrs mp3 i) \<le> mp_ptrs mp3 j \<or> mp_ptrs mp3 j + node_size mp3 (mp_ptrs mp3 j) \<le> mp_ptrs mp3 i"
      using slot_ofs_bounds(3)[OF i tb, of j] slot_ofs_bounds(3)[OF j(1) tb, of i] node[OF i] node[OF j(1)] j(2)
      by (cases "i < j") simp_all
  qed
  moreover have "stored_nodes mp3 = map (\<lambda>i. entry_node ?t ?tc i (entries ! i)) [0..<?n]"
    unfolding stored_nodes_def n3 using node(2) by simp
  moreover have "mp_upper mp3 + total_bytes entries = capacity" using mods tb by (simp add: mp3_def mp2_def up_def)
  ultimately show thesis
    using that[OF run] n3 fl m3 by (simp add: s1_def) (simp add: mp3_def mp2_def)
qed

section \<open>Measuring and encoding\<close>

text \<open>The stored form of entry \<open>i\<close>, and what measuring records.\<close>

definition stored_key :: "bytes \<Rightarrow> nat \<Rightarrow> bytes \<Rightarrow> bytes" where
  "stored_key trunk i k = (if i = 0 then k else enc trunk k)"

definition measured :: "bytes \<Rightarrow> nat \<Rightarrow> MDB_prefix_rebuild_entry \<Rightarrow> MDB_prefix_rebuild_entry" where
  "measured trunk i e =
     (if i = 0 then e\<lparr>re_shared_prefix := UINT16_MAX, re_encoded_used := 0, re_encoded_ksize := length (re_key e)\<rparr>
      else e\<lparr>re_shared_prefix := mdb_leaf_shared_prefix trunk (re_key e),
             re_encoded_used := mdb_varint_length (word_of_nat (mdb_leaf_shared_prefix trunk (re_key e))) mod 65536,
             re_encoded_ksize := length (enc trunk (re_key e))\<rparr>)"

definition small_key :: "bytes \<Rightarrow> bool" where
  "small_key k \<longleftrightarrow> length k \<le> MDB_KEYBUF_MAX"

lemma shared_small: "small_key k \<Longrightarrow> mdb_leaf_shared_prefix t k < UINT16_MAX"
  using shared_prefix_le(2)[of t k] by (simp add: small_key_def MDB_KEYBUF_MAX_def UINT16_MAX_def)

lemma varint_length_small: "n < 65536 \<Longrightarrow> mdb_varint_length (word_of_nat n) \<le> 3"
proof -
  assume n: "n < 65536"
  then have "unat (word_of_nat n :: u64) = n" by (simp add: unat_of_nat)
  with n show ?thesis by (simp add: varint_length_le_iff)
qed

lemma length_enc_small: "small_key k \<Longrightarrow> length (enc t k) \<le> MDB_KEYBUF_MAX + 3"
  using varint_length_small[of "mdb_leaf_shared_prefix t k"] shared_small[of k t]
  by (simp add: enc_eq small_key_def UINT16_MAX_def)

lemma length_stored_key: "small_key k \<Longrightarrow> length (stored_key t i k) \<le> MDB_KEYBUF_MAX + 3"
  using length_enc_small[of k t] by (simp add: stored_key_def small_key_def)

fun measured_from :: "bytes \<Rightarrow> nat \<Rightarrow> MDB_prefix_rebuild_entry list \<Rightarrow> MDB_prefix_rebuild_entry list" where
  "measured_from trunk i [] = []"
| "measured_from trunk i (e # es) = measured trunk i e # measured_from trunk (Suc i) es"

lemma length_measured_from [simp]: "length (measured_from t i es) = length es"
  by (induction es arbitrary: i) auto

lemma nth_measured_from: "j < length es \<Longrightarrow> measured_from t i es ! j = measured t (i + j) (es ! j)"
proof (induction es arbitrary: i j)
  case (Cons e es)
  then show ?case by (cases j) auto
qed simp

definition total_encoded :: "MDB_prefix_rebuild_entry list \<Rightarrow> nat" where
  "total_encoded es = sum_list (map re_encoded_ksize es)"

lemma measured_fields [simp]:
  "re_key (measured t i e) = re_key e" "re_data_ptr (measured t i e) = re_data_ptr e"
  "re_data_payload (measured t i e) = re_data_payload e" "re_data_size (measured t i e) = re_data_size e"
  "re_flags (measured t i e) = re_flags e" "re_encoded_key (measured t i e) = re_encoded_key e"
  "re_encoded_ksize (measured t i e) = length (stored_key t i (re_key e))"
  by (simp_all add: measured_def stored_key_def)

lemma measure_loop_spec:
  assumes "\<And>e. e \<in> set es \<Longrightarrow> small_key (re_key e)" "used < 2 ^ 64"
  shows "measure_loop t i es used tot =
    (if used + total_bytes (measured_from t i es) < 2 ^ 64
     then Ok (measured_from t i es, used + total_bytes (measured_from t i es), tot + total_encoded (measured_from t i es))
     else Err MDB_PAGE_FULL)"
  using assms
proof (induction es arbitrary: i used tot)
  case Nil
  then show ?case by (simp add: total_encoded_def)
next
  case (Cons e es)
  let ?m = "measured t i e"
  let ?k = "length (stored_key t i (re_key e))"
  have sk: "small_key (re_key e)" using Cons.prems(1) by simp
  have kb: "\<not> ?k > UINT16_MAX" using length_stored_key[OF sk, of t i] by (simp add: MDB_KEYBUF_MAX_def UINT16_MAX_def)
  have sp: "mdb_leaf_shared_prefix t (re_key e) \<le> UINT16_MAX" using shared_small[OF sk, of t] by simp
  have nb: "node_bytes ?m = EVEN (NODESIZE + EVEN ?k + re_data_payload e)" by simp
  have step: "measure_loop t i (e # es) used tot =
     (if 2 ^ 64 - 1 - used < node_bytes ?m then Err MDB_PAGE_FULL
      else bind_res (measure_loop t (Suc i) es (used + node_bytes ?m) (tot + ?k)) (\<lambda>(es, used, total). Ok (?m # es, used, total)))"
  proof (cases "i = 0")
    case True
    then show ?thesis using kb by (simp add: Let_def measured_def stored_key_def)
  next
    case False
    have "mdb_leaf_encoded_size (Some t) (re_key e) = (length (enc t (re_key e)), Some (mdb_leaf_shared_prefix t (re_key e)))"
      by (simp add: length_enc mdb_leaf_encoded_size_def Let_def)
    then show ?thesis using kb sp False by (simp add: Let_def measured_def stored_key_def)
  qed
  show ?case
  proof (cases "2 ^ 64 - 1 - used < node_bytes ?m")
    case True
    then have "\<not> used + total_bytes (measured_from t i (e # es)) < 2 ^ 64" using Cons.prems(2) by simp
    with True show ?thesis unfolding step by simp
  next
    case False
    then have lt: "used + node_bytes ?m < 2 ^ 64" using Cons.prems(2) by simp
    show ?thesis
      unfolding step if_not_P[OF False] using Cons.IH[OF _ lt, of "Suc i" "tot + ?k"] Cons.prems(1)
      by (simp add: add.assoc total_encoded_def)
  qed
qed

definition encoded_entry :: "bytes \<Rightarrow> nat \<Rightarrow> MDB_prefix_rebuild_entry \<Rightarrow> MDB_prefix_rebuild_entry" where
  "encoded_entry t i e = (measured t i e)\<lparr>re_encoded_key := Some (stored_key t i (re_key e))\<rparr>"

lemma encode_fast_shared: "mdb_leaf_encode_key_fast k (mdb_leaf_shared_prefix t k) = enc t k"
  by (simp add: enc_def mdb_leaf_encode_key_def Let_def)

lemma encode_loop_spec:
  assumes "\<And>e. e \<in> set es \<Longrightarrow> small_key (re_key e)"
  shows "\<exists>es'. encode_loop t i (measured_from t i es) = Ok es' \<and> length es' = length es \<and>
    (\<forall>j<length es. es' ! j = encoded_entry t (i + j) (es ! j))"
  using assms
proof (induction es arbitrary: i)
  case Nil
  then show ?case by simp
next
  case (Cons e es)
  then obtain es' where es': "encode_loop t (Suc i) (measured_from t (Suc i) es) = Ok es'" "length es' = length es"
    "\<forall>j<length es. es' ! j = encoded_entry t (Suc i + j) (es ! j)" by (meson list.set_intros(2))
  have sk: "small_key (re_key e)" using Cons.prems by simp
  have sp: "mdb_leaf_shared_prefix t (re_key e) \<noteq> UINT16_MAX" "mdb_leaf_shared_prefix t (re_key e) \<le> length (re_key e)"
    using shared_small[OF sk, of t] shared_prefix_le(2)[of t "re_key e"] by simp_all
  have vl: "mdb_varint_length (word_of_nat (mdb_leaf_shared_prefix t (re_key e))) mod 65536 =
      mdb_varint_length (word_of_nat (mdb_leaf_shared_prefix t (re_key e)))"
    "mdb_varint_length (word_of_nat (mdb_leaf_shared_prefix t (re_key e))) \<noteq> 0"
    using varint_length_small[of "mdb_leaf_shared_prefix t (re_key e)"] shared_small[OF sk, of t]
      varint_length_pos[of "word_of_nat (mdb_leaf_shared_prefix t (re_key e))"] by (simp_all add: UINT16_MAX_def)
  have "encode_loop t i (measured_from t i (e # es)) = Ok (encoded_entry t i e # es')"
    using es'(1) sp vl
    by (cases "i = 0") (simp_all add: Let_def measured_def encoded_entry_def stored_key_def encode_fast_shared)
  then show ?case
    using es'(2,3) by (auto simp: nth_Cons' )
qed

text \<open>The scratch sizes stay within their types; only memory exhaustion makes a buffer fail.\<close>

definition scratch_ok :: "MDB_prefix_scratch \<Rightarrow> bool" where
  "scratch_ok x \<longleftrightarrow> snapshot_size x < 2 ^ 64 \<and> entries_cap x < 2 ^ 32 \<and> keybuf_size x < 2 ^ 64 \<and> encodedbuf_size x < 2 ^ 64"

definition env_ok :: "MDB_env_sizes \<Rightarrow> bool" where
  "env_ok env \<longleftrightarrow> me_maxkey env < 2 ^ 32 \<and> me_nodemax env < 2 ^ 32 \<and> me_psize env < 2 ^ 32"

lemma prealloc_less: "env_ok env \<Longrightarrow> mdb_prefix_prealloc_size env < 2 ^ 34"
  by (auto simp: env_ok_def mdb_prefix_prealloc_size_def Let_def)

text \<open>The outcome of growing a buffer: the page and the cache are untouched.\<close>

definition ensured :: "bool \<Rightarrow> rb_state \<Rightarrow> (rb_state \<times> unit res) option \<Rightarrow> bool" where
  "ensured alloc s r \<longleftrightarrow> (\<exists>s' o'. r = Some (s', o') \<and> rs_page s' = rs_page s \<and> rs_cache s' = rs_cache s \<and>
     scratch_ok (rs_scratch s') \<and> (o' = Ok () \<or> o' = Err ENOMEM \<and> \<not> alloc))"

lemma ensure_bytes_ensured:
  assumes ok: "scratch_ok (rs_scratch s)" "env_ok env" and req: "required < 2 ^ 64" and have_size: "have_size < 2 ^ 64"
    and upd: "\<And>n. n < 2 ^ 64 \<Longrightarrow> scratch_ok (upd n)"
    and f: "f (rs_scratch s) = map_option (\<lambda>r. bind_res r (\<lambda>n. Ok (upd n)))
        (ensure_bytes alloc (mdb_prefix_prealloc_size env) have_size required)"
  shows "ensured alloc s (rb_ensure f s)"
proof -
  have "0 < mdb_prefix_prealloc_size env" "mdb_prefix_prealloc_size env < 2 ^ 64"
    using prealloc_pos[of env] prealloc_less[OF ok(2)] by simp_all
  then obtain r where r: "ensure_bytes alloc (mdb_prefix_prealloc_size env) have_size required = Some r"
    "case r of Ok n \<Rightarrow> required \<le> n \<and> mdb_prefix_prealloc_size env \<le> n \<and> have_size \<le> n \<and> n < 2 ^ 64
     | Err e \<Rightarrow> e = ENOMEM \<and> \<not> alloc \<and> have_size < max required (mdb_prefix_prealloc_size env) | Abort \<Rightarrow> False"
    using ensure_bytes_spec[of "mdb_prefix_prealloc_size env" have_size required alloc] req have_size by blast
  have fr: "f (rs_scratch s) = Some (bind_res r (\<lambda>n. Ok (upd n)))" unfolding f r(1) by simp
  show ?thesis
    using r(2) upd ok(1) by (cases r) (auto simp: ensured_def rb_ensure_def fr)
qed

lemma ensure_snapshot_ensured:
  "scratch_ok (rs_scratch s) \<Longrightarrow> env_ok env \<Longrightarrow> n < 2 ^ 64 \<Longrightarrow>
   ensured alloc s (rb_ensure (\<lambda>x. mdb_prefix_ensure_snapshot alloc env x n) s)"
  by (rule ensure_bytes_ensured[where upd = "\<lambda>n. (rs_scratch s)\<lparr>snapshot_size := n\<rparr>" and have_size = "snapshot_size (rs_scratch s)"])
    (auto simp: mdb_prefix_ensure_snapshot_def scratch_ok_def)

lemma ensure_keybuf_ensured:
  "scratch_ok (rs_scratch s) \<Longrightarrow> env_ok env \<Longrightarrow> n < 2 ^ 64 \<Longrightarrow>
   ensured alloc s (rb_ensure (\<lambda>x. mdb_prefix_ensure_keybuf alloc env x n) s)"
  by (rule ensure_bytes_ensured[where upd = "\<lambda>n. (rs_scratch s)\<lparr>keybuf_size := n\<rparr>" and have_size = "keybuf_size (rs_scratch s)"
        and required = "if n = 0 then 1 else n"])
    (auto simp: mdb_prefix_ensure_keybuf_def scratch_ok_def)

lemma ensure_encbuf_ensured:
  "scratch_ok (rs_scratch s) \<Longrightarrow> env_ok env \<Longrightarrow> n < 2 ^ 64 \<Longrightarrow>
   ensured alloc s (rb_ensure (\<lambda>x. mdb_prefix_ensure_encbuf alloc env x n) s)"
  by (rule ensure_bytes_ensured[where upd = "\<lambda>n. (rs_scratch s)\<lparr>encodedbuf_size := n\<rparr>" and have_size = "encodedbuf_size (rs_scratch s)"
        and required = "if n = 0 then 1 else n"])
    (auto simp: mdb_prefix_ensure_encbuf_def scratch_ok_def)

lemma ensure_entries_ensured:
  assumes ok: "scratch_ok (rs_scratch s)" "env_ok env" and n: "n < 2 ^ 32"
  shows "ensured alloc s (rb_ensure (\<lambda>x. mdb_prefix_ensure_entries alloc env x n) s)"
proof (cases "n = 0")
  case True
  then show ?thesis using ok by (simp add: ensured_def rb_ensure_def mdb_prefix_ensure_entries_def Let_def)
next
  case False
  let ?x = "rs_scratch s"
  define b where "b = (let bb = mdb_prefix_prealloc_size env;
      baseline = (if bb \<ge> 56 then (bb div 56) mod 2 ^ 32 else 0) in if baseline = 0 then 32 else baseline)"
  define t where "t = (if n < b then b else n)"
  have b: "0 < b" "b < 2 ^ 32" unfolding b_def Let_def by auto
  have t: "t < 2 ^ 32" using b n by (simp add: t_def)
  show ?thesis
  proof (cases "entries_cap ?x < t")
    case no: False
    then have "mdb_prefix_ensure_entries alloc env ?x n = Some (Ok ?x)"
      using False unfolding mdb_prefix_ensure_entries_def t_def b_def Let_def by simp
    then show ?thesis using ok by (simp add: ensured_def rb_ensure_def)
  next
    case True
    define c where "c = (if entries_cap ?x = 0 \<or> entries_cap ?x < b then b else entries_cap ?x)"
    have half: "2 * UINT_HALF + 1 = 2 ^ 32 - 1" by (simp add: UINT_HALF_def)
    have c: "0 < c" "c \<le> 2 * UINT_HALF + 1" "t \<le> 2 * UINT_HALF + 1"
      using b t ok(1) unfolding half by (auto simp: c_def scratch_ok_def)
    obtain m where m: "grow_loop UINT_HALF c t = Some m" "m \<le> 2 * UINT_HALF + 1" using grow_loop_Some[OF c] by blast
    have "mdb_prefix_ensure_entries alloc env ?x n = Some (if \<not> alloc then Err ENOMEM else Ok (?x\<lparr>entries_cap := m\<rparr>))"
      using False True m(1) unfolding mdb_prefix_ensure_entries_def t_def c_def b_def Let_def by simp
    then show ?thesis using ok m(2) unfolding half by (auto simp: ensured_def rb_ensure_def scratch_ok_def)
  qed
qed

text \<open>Sequencing after a buffer is ensured: the result of the rest, or the exhausted memory.\<close>

lemma ensured_bind:
  assumes "ensured alloc s (rb_ensure h s)"
  obtains s' where "rs_page s' = rs_page s" "rs_cache s' = rs_cache s" "scratch_ok (rs_scratch s')"
    "rb_bind (rb_ensure h) g s = g () s' \<or> \<not> alloc \<and> rb_bind (rb_ensure h) g s = Some (s', Err ENOMEM)"
  using assms unfolding ensured_def rb_bind_def by auto

text \<open>A written entry: its key as stored, whichever way \<open>apply\<close> takes the bytes from.\<close>

definition ready :: "bytes \<Rightarrow> nat \<Rightarrow> MDB_prefix_rebuild_entry \<Rightarrow> MDB_prefix_rebuild_entry \<Rightarrow> bool" where
  "ready t i e e' \<longleftrightarrow> re_key e' = re_key e \<and> re_data_ptr e' = re_data_ptr e \<and> re_data_payload e' = re_data_payload e \<and>
     re_data_size e' = re_data_size e \<and> re_flags e' = re_flags e \<and> re_encoded_ksize e' = length (stored_key t i (re_key e)) \<and>
     (\<forall>tc. apply_key t tc i e' = stored_key t i (re_key e))"

lemma ready_data: "ready t i e e' \<Longrightarrow> entry_data e' = entry_data e"
  by (auto simp: ready_def entry_data_def split: option.splits)

lemma ready_encoded: "ready t i e (encoded_entry t i e)"
  by (simp add: ready_def encoded_entry_def apply_key_def)

lemma ready_total: "length es' = length es \<Longrightarrow> (\<And>j. j < length es \<Longrightarrow> ready t (i + j) (es ! j) (es' ! j)) \<Longrightarrow>
    total_bytes es' = total_bytes (measured_from t i es)"
proof -
  assume len: "length es' = length es" and r: "\<And>j. j < length es \<Longrightarrow> ready t (i + j) (es ! j) (es' ! j)"
  have "map node_bytes es' = map node_bytes (measured_from t i es)"
    by (rule nth_equalityI) (use len r in \<open>simp_all add: nth_measured_from ready_def\<close>)
  then show ?thesis by (simp add: total_bytes_def)
qed

text \<open>
  Measuring: the entries get their stored keys, the size is the header, the slots and the nodes, and
  \<open>MDB_PAGE_FULL\<close> says exactly that this size is over the capacity.
\<close>

lemma total_encoded_0:
  assumes "total_encoded (measured_from t 0 es) = 0" "es \<noteq> []"
  shows "\<exists>e. es = [e] \<and> re_key e = []"
proof -
  obtain e es1 where es: "es = e # es1" using assms(2) by (cases es) auto
  have "es1 = []"
  proof (cases es1)
    case (Cons e2 es2)
    have "length (enc t (re_key e2)) = 0"
      using assms(1) by (simp add: es Cons total_encoded_def stored_key_def)
    then show ?thesis by simp
  qed simp
  then show ?thesis using assms(1) by (simp add: es total_encoded_def stored_key_def)
qed

lemma total_encoded_le: "total_encoded (measured_from t i es) \<le> total_bytes (measured_from t i es)"
proof (induction es arbitrary: i)
  case (Cons e es)
  have "length (stored_key t i (re_key e)) \<le> node_bytes (measured t i e)"
    using EVEN_ge[of "length (stored_key t i (re_key e))"]
      EVEN_ge[of "NODESIZE + EVEN (length (stored_key t i (re_key e))) + re_data_payload e"] by simp
  then show ?case using Cons[of "Suc i"] by (simp add: total_encoded_def)
qed (simp add: total_encoded_def)

lemma measure_spec:
  assumes ne: "entries \<noteq> []" and small: "\<And>e. e \<in> set entries \<Longrightarrow> small_key (re_key e)"
    and ok: "scratch_ok (rs_scratch s)" "env_ok env" and cap: "capacity < 2 ^ 64" "0 < capacity" and cnt: "length entries < 2 ^ 32"
  defines "t \<equiv> re_key (hd entries)"
  defines "need \<equiv> PAGEHDRSZ + 2 * length entries + total_bytes (measured_from t 0 entries)"
  shows "\<exists>s' r. mdb_leaf_rebuild_measure alloc env entries capacity s = Some (s', r) \<and>
    rs_page s' = rs_page s \<and> rs_cache s' = rs_cache s \<and> scratch_ok (rs_scratch s') \<and>
    (if need > capacity then r = Err MDB_PAGE_FULL
     else r = Err ENOMEM \<and> \<not> alloc \<or>
       (\<exists>es'. r = Ok (es', need) \<and> length es' = length entries \<and>
          (\<forall>j<length entries. ready t j (entries ! j) (es' ! j))))"
proof -
  let ?used = "PAGEHDRSZ + length entries * 2"
  let ?ms = "measured_from t 0 entries"
  have u: "?used < 2 ^ 64" using cnt by (simp add: PAGEHDRSZ_def)
  have lim: "limit_of capacity = capacity" using cap by (simp add: limit_of_def)
  have need: "need = ?used + total_bytes ?ms" by (simp add: need_def)
  have loop: "measure_loop t 0 entries ?used 0 =
      (if need < 2 ^ 64 then Ok (?ms, need, total_encoded ?ms) else Err MDB_PAGE_FULL)"
    using measure_loop_spec[OF small u, where t = t and i = 0 and tot = 0] unfolding need by simp
  have run: "mdb_leaf_rebuild_measure alloc env entries capacity s =
      (if need > capacity then Some (s, Err MDB_PAGE_FULL)
       else if total_encoded ?ms = 0 then Some (s, Ok (?ms, need))
       else rb_bind (rb_ensure (\<lambda>x. mdb_prefix_ensure_encbuf alloc env x (total_encoded ?ms)))
          (\<lambda>_. rb_lift (bind_res (encode_loop t 0 ?ms) (\<lambda>es. Ok (es, need)))) s)"
  proof (cases "need < 2 ^ 64")
    case True
    then show ?thesis
      using ne unfolding mdb_leaf_rebuild_measure_def Let_def lim t_def[symmetric] loop rb_lift_def
      by (simp add: rb_bind_def)
  next
    case False
    then have "need > capacity" using cap by simp
    with False show ?thesis
      using ne unfolding mdb_leaf_rebuild_measure_def Let_def lim t_def[symmetric] loop rb_lift_def
      by (simp add: rb_bind_def)
  qed
  show ?thesis
  proof (cases "need > capacity")
    case True
    then show ?thesis using ok by (simp add: run)
  next
    case fits: False
    show ?thesis
    proof (cases "total_encoded ?ms = 0")
      case True
      obtain e where e: "entries = [e]" "re_key e = []" using total_encoded_0[OF True ne] by blast
      have "ready t 0 e (measured t 0 e)"
        using e by (auto simp: ready_def apply_key_def stored_key_def t_def split: option.splits)
      then show ?thesis using True fits ok run e by auto
    next
      case False
      obtain es' where es': "encode_loop t 0 ?ms = Ok es'" "length es' = length entries"
        "\<forall>j<length entries. es' ! j = encoded_entry t (0 + j) (entries ! j)"
        using encode_loop_spec[OF small] by blast
      have te: "total_encoded ?ms < 2 ^ 64" using total_encoded_le[of t 0 entries] fits cap need by linarith
      obtain s' where s': "rs_page s' = rs_page s" "rs_cache s' = rs_cache s" "scratch_ok (rs_scratch s')"
        "mdb_leaf_rebuild_measure alloc env entries capacity s = Some (s', Ok (es', need)) \<or>
         \<not> alloc \<and> mdb_leaf_rebuild_measure alloc env entries capacity s = Some (s', Err ENOMEM)"
        by (rule ensured_bind[OF ensure_encbuf_ensured[OF ok te, of alloc], where g = "\<lambda>_. rb_lift (bind_res (encode_loop t 0 ?ms) (\<lambda>es. Ok (es, need)))"])
          (use fits False in \<open>auto simp: run es'(1) rb_lift_def\<close>)
      have "ready t j (entries ! j) (es' ! j)" if "j < length entries" for j
        using es'(3) that ready_encoded by simp
      with s' es'(2) fits show ?thesis by auto
    qed
  qed
qed

section \<open>The logical content of a leaf page\<close>

text \<open>The key a stored key stands for on a page with trunk \<open>t\<close>, and the nodes with their keys decoded.\<close>

definition logical_key :: "bytes \<Rightarrow> bytes \<Rightarrow> bytes" where
  "logical_key t e = (case mdb_prefix_decode_canonical (Some t) e of
     Some (shared, used, _) \<Rightarrow> take shared t @ drop used e | None \<Rightarrow> e)"

definition logical_node :: "bytes \<Rightarrow> nat \<Rightarrow> leaf_node \<Rightarrow> leaf_node" where
  "logical_node t i n = (if i = 0 then n else n\<lparr>ln_key := logical_key t (ln_key n)\<rparr>)"

definition leaf_view :: "MDB_page \<Rightarrow> leaf_node list" where
  "leaf_view mp = map (\<lambda>i. logical_node (key_at mp 0) i (leaf_node_at mp i)) [0..<NUMKEYS mp]"

lemma length_leaf_view [simp]: "length (leaf_view mp) = NUMKEYS mp"
  by (simp add: leaf_view_def)

lemma logical_key_enc:
  assumes t: "length t < 2 ^ 63" and k: "length k < 2 ^ 62"
  shows "logical_key t (enc t k) = k"
proof -
  let ?n = "mdb_leaf_shared_prefix t k" and ?u = "mdb_varint_length (word_of_nat (mdb_leaf_shared_prefix t k))"
  have le: "?n \<le> length t" "?n \<le> length k" by (rule shared_prefix_le)+
  then have n: "unat (word_of_nat ?n :: u64) = ?n" using t unat_small[of ?n] by linarith
  have "unat (word_of_nat ?n :: u64) < 128 ^ 9" using le(1) t unfolding n by simp
  then have "?u \<le> 9" by (simp add: varint_length_le_iff)
  then have e: "length (enc t k) < 2 ^ 63" using k by (simp add: enc_eq)
  have d: "drop ?u (enc t k) = drop ?n k" and u: "?u \<le> length (enc t k)" by (simp_all add: enc_eq)
  have "mdb_prefix_decode_canonical (Some t) (enc t k) = Some (?n, ?u, ?n + (length (enc t k) - ?u))"
    unfolding decode_canonical_spec[OF t e decode_shared_enc[OF t]] n d shared_prefix_split using le u by simp
  then show ?thesis by (simp add: logical_key_def d shared_prefix_split)
qed

lemma list_max_keys: "max_decoded es = list_max (map (\<lambda>e. length (re_key e)) es)"
proof -
  have "foldl (\<lambda>m e. if length (re_key e) > m then length (re_key e) else m) m0 es
      = max m0 (list_max (map (\<lambda>e. length (re_key e)) es))" for m0
    by (induction es arbitrary: m0) (auto simp: max_def)
  then show ?thesis by (simp add: max_decoded_def)
qed

definition view_of :: "MDB_prefix_rebuild_entry \<Rightarrow> leaf_node" where
  "view_of e = \<lparr>ln_key = re_key e, ln_flags = re_flags e, ln_size = re_data_size e, ln_data = entry_data e\<rparr>"

lemma leaf_view_stored:
  assumes n: "NUMKEYS mp = length es" and small: "\<And>e. e \<in> set es \<Longrightarrow> small_key (re_key e)"
    and st: "stored_nodes mp = map (\<lambda>i. (view_of (es ! i))\<lparr>ln_key := stored_key (re_key (hd es)) i (re_key (es ! i))\<rparr>) [0..<length es]"
  shows "leaf_view mp = map view_of es"
proof (cases "es = []")
  case True
  then show ?thesis using n by (simp add: leaf_view_def)
next
  case False
  let ?t = "re_key (hd es)"
  have node: "leaf_node_at mp i = (view_of (es ! i))\<lparr>ln_key := stored_key ?t i (re_key (es ! i))\<rparr>" if "i < length es" for i
    using arg_cong[OF st, of "\<lambda>xs. xs ! i"] that n by (simp add: stored_nodes_def)
  have "key_at mp 0 = ?t"
    using arg_cong[OF node[of 0], of ln_key] False by (simp add: leaf_node_at_def stored_key_def hd_conv_nth)
  moreover have "logical_node ?t i (leaf_node_at mp i) = view_of (es ! i)" if i: "i < length es" for i
  proof (cases "i = 0")
    case True
    then show ?thesis using node[OF i] by (simp add: logical_node_def stored_key_def view_of_def)
  next
    case nz: False
    have "small_key ?t" "small_key (re_key (es ! i))" using small False i by simp_all
    then have "logical_key ?t (enc ?t (re_key (es ! i))) = re_key (es ! i)"
      by (intro logical_key_enc) (simp_all add: small_key_def MDB_KEYBUF_MAX_def)
    then show ?thesis using nz node[OF i] by (simp add: logical_node_def stored_key_def view_of_def)
  qed
  ultimately show ?thesis using n by (intro nth_equalityI) (simp_all add: leaf_view_def)
qed

text \<open>Measuring and rewriting a page with given entries.\<close>

definition rebuilt :: "bool \<Rightarrow> nat \<Rightarrow> rb_state \<Rightarrow> MDB_prefix_rebuild_entry list \<Rightarrow> (rb_state \<times> unit res) option \<Rightarrow> bool" where
  "rebuilt alloc capacity s es result \<longleftrightarrow>
     (let need = PAGEHDRSZ + 2 * length es + total_bytes (measured_from (re_key (hd es)) 0 es) in
      \<exists>s' r. result = Some (s', r) \<and> scratch_ok (rs_scratch s') \<and>
        (if need > capacity then r = Err MDB_PAGE_FULL \<and> rs_page s' = rs_page s
         else r = Err ENOMEM \<and> \<not> alloc \<and> rs_page s' = rs_page s \<or>
           r = Ok () \<and> leaf_view (rs_page s') = map view_of es \<and> page_wf capacity (rs_page s') \<and>
           mp_flags (rs_page s') = mp_flags (rs_page s) \<and> mp_pgno (rs_page s') = mp_pgno (rs_page s) \<and>
           mp_pad (rs_page s') = min (list_max (map (\<lambda>e. length (re_key e)) es)) 65535 \<and>
           SIZELEFT (rs_page s') = capacity - need))"

lemma rewrite_spec:
  assumes l: "plain_leaf (rs_page s)" and pre: prefix and ne: "es \<noteq> []"
    and small: "\<And>e. e \<in> set es \<Longrightarrow> small_key (re_key e)" and dat: "\<And>e. e \<in> set es \<Longrightarrow> data_ok e"
    and ok: "scratch_ok (rs_scratch s)" "env_ok env" and cap: "capacity < 65536" "0 < capacity" and cnt: "length es < 2 ^ 32"
  shows "rebuilt alloc capacity s es
    (rb_bind (mdb_leaf_rebuild_measure alloc env es capacity) (\<lambda>(es, used). mdb_leaf_rebuild_apply prefix es capacity) s)"
proof -
  let ?t = "re_key (hd es)"
  define need where "need = PAGEHDRSZ + 2 * length es + total_bytes (measured_from ?t 0 es)"
  have c64: "capacity < 2 ^ 64" using cap(1) by simp
  obtain s1 r1 where m: "mdb_leaf_rebuild_measure alloc env es capacity s = Some (s1, r1)"
    "rs_page s1 = rs_page s" "rs_cache s1 = rs_cache s" "scratch_ok (rs_scratch s1)"
    "if need > capacity then r1 = Err MDB_PAGE_FULL
     else r1 = Err ENOMEM \<and> \<not> alloc \<or>
       (\<exists>es'. r1 = Ok (es', need) \<and> length es' = length es \<and> (\<forall>j<length es. ready ?t j (es ! j) (es' ! j)))"
    using measure_spec[OF ne small ok c64 cap(2) cnt, of alloc] unfolding need_def by blast
  show ?thesis
  proof (cases "need > capacity")
    case True
    then show ?thesis using m by (simp add: rebuilt_def Let_def rb_bind_def need_def)
  next
    case fits: False
    show ?thesis
    proof (cases "r1 = Err ENOMEM \<and> \<not> alloc")
      case True
      then show ?thesis using m fits by (simp add: rebuilt_def Let_def rb_bind_def need_def)
    next
      case False
      then obtain es' where es': "r1 = Ok (es', need)" "length es' = length es" "\<forall>j<length es. ready ?t j (es ! j) (es' ! j)"
        using m(5) fits by auto
      have ne': "es' \<noteq> []" using es'(2) ne by auto
      have hd': "re_key (hd es') = ?t" using es'(2,3) ne ne' by (simp add: hd_conv_nth ready_def)
      have tb: "total_bytes es' = total_bytes (measured_from ?t 0 es)" by (rule ready_total) (use es' in simp_all)
      have room: "PAGEHDRSZ + 2 * length es' + total_bytes es' \<le> capacity" using fits by (simp add: need_def tb es'(2))
      have eok: "entry_ok_at (re_key (hd es')) tc i (es' ! i)" if "i < length es'" for i tc
      proof -
        have i: "i < length es" using that es'(2) by simp
        then have r: "ready ?t i (es ! i) (es' ! i)" using es'(3) by simp
        have "data_ok (es ! i)" "small_key (re_key (es ! i))" using dat small i by simp_all
        moreover have "re_data_ptr (es' ! i) = re_data_ptr (es ! i)" "re_data_payload (es' ! i) = re_data_payload (es ! i)"
          "re_data_size (es' ! i) = re_data_size (es ! i)" "re_flags (es' ! i) = re_flags (es ! i)"
          using r by (simp_all only: ready_def)
        then have "data_ok (es' ! i) = data_ok (es ! i)" by (simp only: data_ok_def)
        ultimately show ?thesis
          using r length_stored_key[of "re_key (es ! i)" ?t i] unfolding hd'
          by (simp add: entry_ok_at_def ready_def MDB_KEYBUF_MAX_def)
      qed
      have l1: "plain_leaf (rs_page s1)" using l m(2) by simp
      obtain s2 where s2: "mdb_leaf_rebuild_apply prefix es' capacity s1 = Some (s2, Ok ())"
        "stored_nodes (rs_page s2) = map (\<lambda>i. entry_node (re_key (hd es')) (re_encoded_key (hd es') \<noteq> None) i (es' ! i)) [0..<length es']"
        "page_wf capacity (rs_page s2)" "NUMKEYS (rs_page s2) = length es'"
        "mp_flags (rs_page s2) = mp_flags (rs_page s1)" "mp_pgno (rs_page s2) = mp_pgno (rs_page s1)"
        "mp_pad (rs_page s2) = min (max_decoded es') 65535" "rs_scratch s2 = rs_scratch s1"
        "mp_upper (rs_page s2) + total_bytes es' = capacity"
        by (rule rebuild_apply_Ok[OF l1 pre ne' cap(1) room eok])
      have "entry_node ?t tc i (es' ! i) = (view_of (es ! i))\<lparr>ln_key := stored_key ?t i (re_key (es ! i))\<rparr>" if "i < length es" for i tc
      proof -
        have r: "ready ?t i (es ! i) (es' ! i)" using es'(3) that by simp
        then show ?thesis using ready_data[OF r] by (simp add: entry_node_def view_of_def ready_def)
      qed
      then have "leaf_view (rs_page s2) = map view_of es"
        using s2(2,4) es'(2) small unfolding hd' by (intro leaf_view_stored) simp_all
      moreover have "map (\<lambda>e. length (re_key e)) es' = map (\<lambda>e. length (re_key e)) es"
        by (rule nth_equalityI) (use es' in \<open>simp_all add: ready_def\<close>)
      moreover have "SIZELEFT (rs_page s2) = capacity - need"
      proof -
        have "mp_lower (rs_page s2) = 16 + 2 * length es" using slots_wf_lower[OF s2(3)[unfolded page_wf_def]] s2(4) es'(2) by simp
        moreover have "mp_upper (rs_page s2) = capacity - total_bytes es'" using s2(9) by simp
        ultimately show ?thesis
          using fits cap(1) unfolding SIZELEFT_def need_def tb PAGEHDRSZ_def by (simp add: u16_sub_le)
      qed
      moreover have "rb_bind (mdb_leaf_rebuild_measure alloc env es capacity) (\<lambda>(es, used). mdb_leaf_rebuild_apply prefix es capacity) s = Some (s2, Ok ())"
        using m(1) es'(1) s2(1) by (simp add: rb_bind_def)
      ultimately show ?thesis
        using s2 m fits unfolding rebuilt_def Let_def need_def[symmetric] by (simp add: list_max_keys)
    qed
  qed
qed

end
