(* ===== verification/Rebuild_Content.thy ===== *)
theory Rebuild_Content
  imports Rebuild
begin

text \<open>
  The rebuilds of a leaf page keep its logical content: what the two operations of \<open>Rebuild\<close> that
  follow a change of the trunk leave on the page, as decoded keys with their flags and data.
\<close>

section \<open>The snapshot and the entries read from it\<close>

lemma snapshot_node:
  assumes wf: "page_wf capacity mp" and l: "plain_leaf mp" and i: "i < NUMKEYS mp"
  shows "leaf_node_at (mdb_prefix_snapshot_capture snap0 mp capacity) i = leaf_node_at mp i"
proof -
  let ?sn = "mdb_prefix_snapshot_capture snap0 mp capacity"
  note W = slots_wfD[OF wf[unfolded page_wf_def]]
  have p: "NODEPTR ?sn i = NODEPTR mp i" using i by (simp add: mdb_prefix_snapshot_capture_def NODEPTR_def Let_def)
  have b: "mp_upper mp \<le> NODEPTR mp i" "NODEPTR mp i + node_size mp (NODEPTR mp i) \<le> capacity" "0 < node_size mp (NODEPTR mp i)"
    using W(6-8)[OF i] by (simp_all add: NODEPTR_def)
  have m: "mp_mem ?sn x = mp_mem mp x" if "mp_upper mp \<le> x" "x < capacity" for x
    using that by (simp add: mdb_prefix_snapshot_capture_def Let_def mem_write_def)
  have "mem_read (mp_mem mp) (NODEPTR mp i) (node_size mp (NODEPTR mp i)) = mem_read (mp_mem ?sn) (NODEPTR ?sn i) (node_size mp (NODEPTR mp i))"
    unfolding p by (rule mem_read_cong) (use b m in simp)
  then show ?thesis
    using leaf_node_cong(1)[OF l, of ?sn i i] by (simp add: mdb_prefix_snapshot_capture_def Let_def)
qed

lemma NODEDSZ_less: "NODEDSZ mp a < 2 ^ 32"
  using get16_less[of "mp_mem mp" a] get16_less[of "mp_mem mp" "a + 2"]
  by (simp add: NODEDSZ_def mn_lo_def mn_hi_def)

lemma src_entry_facts:
  "data_ok (src_entry mp (NODEPTR mp i))" "entry_data (src_entry mp (NODEPTR mp i)) = ln_data (leaf_node_at mp i)"
  "re_flags (src_entry mp (NODEPTR mp i)) = ln_flags (leaf_node_at mp i)"
  "re_data_size (src_entry mp (NODEPTR mp i)) = ln_size (leaf_node_at mp i)"
  "re_encoded_key (src_entry mp (NODEPTR mp i)) = Some (ln_key (leaf_node_at mp i))"
  using NODEDSZ_less[of mp "NODEPTR mp i"]
  by (auto simp: data_ok_def src_entry_def data_payload_def entry_data_def leaf_node_at_def key_at_def)

text \<open>Decoding an entry and copying its key gives the key it stands for.\<close>

lemma decode_entry_fields:
  "decode_entry t e = (e', n) \<Longrightarrow> re_data_ptr e' = re_data_ptr e \<and> re_data_payload e' = re_data_payload e \<and>
     re_data_size e' = re_data_size e \<and> re_flags e' = re_flags e \<and> re_encoded_key e' = re_encoded_key e"
  by (auto simp: decode_entry_def Let_def split: option.splits if_splits)

lemma decode_canonical_bounds:
  "mdb_prefix_decode_canonical (Some t) e = Some (s, u, f) \<Longrightarrow> s \<le> length t \<and> u \<le> length e \<and> f = s + (length e - u)"
  by (auto simp: mdb_prefix_decode_canonical_def Let_def split: option.splits res.splits prod.splits if_splits)

lemma varint_decode_used: "varint_decode_loop src v c = Ok (x, u) \<Longrightarrow> c \<le> MDB_VARINT_MAX \<Longrightarrow> u \<le> MDB_VARINT_MAX"
  by (induction src v c rule: varint_decode_loop.induct) (auto simp: Let_def split: if_splits)

lemma decode_canonical_used:
  "mdb_prefix_decode_canonical (Some t) e = Some (s, u, f) \<Longrightarrow> u \<le> 9"
  using varint_decode_used[of e 0 0]
  by (auto simp: mdb_prefix_decode_canonical_def decode_shared_varint mdb_varint_decode_def MDB_VARINT_MAX_def Let_def
      split: option.splits res.splits prod.splits if_splits)

lemma key_of_decoded:
  assumes e: "re_encoded_key e = Some k" "re_encoded_used e = 0" "re_shared_prefix e = UINT16_MAX"
    and d: "decode_entry (Some t) e = (e', n)" and t: "length t < UINT16_MAX"
  shows "(if re_shared_prefix e' \<noteq> UINT16_MAX \<and> re_encoded_used e' \<le> re_encoded_len e' \<and> re_shared_prefix e' \<le> length t
          then copy_prefix t e' else copy_raw n e') = logical_key t k"
    and "n = 0 \<Longrightarrow> logical_key t k = []"
proof -
  have "(if re_shared_prefix e' \<noteq> UINT16_MAX \<and> re_encoded_used e' \<le> re_encoded_len e' \<and> re_shared_prefix e' \<le> length t
          then copy_prefix t e' else copy_raw n e') = logical_key t k \<and> (n = 0 \<longrightarrow> logical_key t k = [])"
  proof (cases "mdb_prefix_decode_canonical (Some t) k")
    case None
    then show ?thesis using d e by (auto simp: decode_entry_def logical_key_def copy_raw_def)
  next
    case (Some a)
    then obtain s u f where a: "mdb_prefix_decode_canonical (Some t) k = Some (s, u, f)" by (cases a) auto
    note B = decode_canonical_bounds[OF a] decode_canonical_used[OF a]
    have "s \<le> UINT16_MAX" "s \<noteq> UINT16_MAX" "u mod 65536 = u" using B t by simp_all
    then have e': "e' = e\<lparr>re_shared_prefix := s, re_encoded_used := u\<rparr>" "n = f"
      using d e a by (simp_all add: decode_entry_def)
    then show ?thesis
      using B e a \<open>s \<noteq> UINT16_MAX\<close> by (auto simp: copy_prefix_def logical_key_def)
  qed
  then show "(if re_shared_prefix e' \<noteq> UINT16_MAX \<and> re_encoded_used e' \<le> re_encoded_len e' \<and> re_shared_prefix e' \<le> length t
          then copy_prefix t e' else copy_raw n e') = logical_key t k" "n = 0 \<Longrightarrow> logical_key t k = []" by blast+
qed

lemma copy_raw_self: "re_encoded_key e = Some k \<Longrightarrow> copy_raw (length k) e = k"
  by (simp add: copy_raw_def)

lemma delete_key_spec:
  fixes mp i
  assumes t: "length t < UINT16_MAX"
  defines "e \<equiv> delete_key (Some t) i (delete_entry mp (Some t) i)"
  shows "view_of e = logical_node t i (leaf_node_at mp i)" "data_ok e"
    "re_key e = ln_key (logical_node t i (leaf_node_at mp i))"
proof -
  let ?s = "src_entry mp (NODEPTR mp i)"
  let ?k = "ln_key (leaf_node_at mp i)"
  note S = src_entry_facts[of mp i]
  have s0: "re_encoded_used ?s = 0" "re_shared_prefix ?s = UINT16_MAX" by (simp_all add: src_entry_def)
  obtain e' n where en: "delete_entry mp (Some t) i = (e', n)" by fastforce
  have f: "re_data_ptr e' = re_data_ptr ?s \<and> re_data_payload e' = re_data_payload ?s \<and>
     re_data_size e' = re_data_size ?s \<and> re_flags e' = re_flags ?s \<and> re_encoded_key e' = re_encoded_key ?s"
    using en decode_entry_fields[of "Some t" ?s e' n] by (auto simp: delete_entry_def Let_def split: if_splits)
  have key: "re_key e = (if i = 0 then ?k else logical_key t ?k)"
  proof (cases "i \<noteq> 0 \<and> re_encoded_len ?s > 0")
    case True
    then have d: "decode_entry (Some t) ?s = (e', n)" using en by (simp add: delete_entry_def Let_def)
    show ?thesis
      using key_of_decoded[OF S(5) s0 d t] True by (auto simp: e_def en delete_key_def)
  next
    case False
    then have e': "e' = ?s" "n = length ?k" using en S(5) by (auto simp: delete_entry_def Let_def split: if_splits)
    show ?thesis
    proof (cases "i = 0")
      case True
      then show ?thesis using e' copy_raw_self[OF S(5)] en by (simp add: e_def delete_key_def)
    next
      case nz: False
      then have "?k = []" using False S(5) by simp
      moreover have "logical_key t [] = []" by (simp add: logical_key_def mdb_prefix_decode_canonical_def)
      ultimately show ?thesis using e' nz by (simp add: e_def en delete_key_def)
    qed
  qed
  then show "re_key e = ln_key (logical_node t i (leaf_node_at mp i))" by (simp add: logical_node_def)
  have fe: "re_data_ptr e = re_data_ptr ?s" "re_data_payload e = re_data_payload ?s" "re_data_size e = re_data_size ?s"
    "re_flags e = re_flags ?s" using f by (simp_all add: e_def en delete_key_def)
  show "data_ok e" using S(1) unfolding data_ok_def fe .
  have "entry_data e = ln_data (leaf_node_at mp i)" using S(2) unfolding entry_data_def fe .
  then show "view_of e = logical_node t i (leaf_node_at mp i)"
    using key S(3,4) fe by (simp add: view_of_def logical_node_def)
qed

text \<open>The key an insertion keeps for node \<open>i\<close>: a node that stores the trunk's bytes is taken for a raw key.\<close>

definition kept_node :: "bytes \<Rightarrow> nat \<Rightarrow> leaf_node \<Rightarrow> leaf_node" where
  "kept_node t i n = (if ln_key n = t then n else logical_node t i n)"

lemma insert_key_spec:
  fixes mp i
  assumes t: "length t < UINT16_MAX"
  defines "e \<equiv> insert_key (Some t) i (insert_entry mp (Some t) (Some t) i)"
  shows "view_of e = kept_node t i (leaf_node_at mp i)" "data_ok e"
    "re_key e = ln_key (kept_node t i (leaf_node_at mp i))"
proof -
  let ?s = "src_entry mp (NODEPTR mp i)"
  let ?k = "ln_key (leaf_node_at mp i)"
  note S = src_entry_facts[of mp i]
  have s0: "re_encoded_used ?s = 0" "re_shared_prefix ?s = UINT16_MAX" by (simp_all add: src_entry_def)
  obtain e' n where en: "insert_entry mp (Some t) (Some t) i = (e', n)" by fastforce
  have f: "re_data_ptr e' = re_data_ptr ?s \<and> re_data_payload e' = re_data_payload ?s \<and>
     re_data_size e' = re_data_size ?s \<and> re_flags e' = re_flags ?s \<and> re_encoded_key e' = re_encoded_key ?s"
    using en decode_entry_fields[of "Some t" ?s e' n] by (auto simp: insert_entry_def Let_def split: if_splits)
  have key: "re_key e = ln_key (kept_node t i (leaf_node_at mp i))"
  proof (cases "i \<noteq> 0 \<and> ?k \<noteq> t \<and> ?k \<noteq> []")
    case True
    then have d: "decode_entry (Some t) ?s = (e', n)" using en S(5) by (simp add: insert_entry_def Let_def)
    show ?thesis
      using key_of_decoded(1)[OF S(5) s0 d t] True by (simp add: e_def en insert_key_def kept_node_def logical_node_def)
  next
    case False
    then have e': "e' = ?s" "n = length ?k" using en S(5) by (auto simp: insert_entry_def Let_def split: if_splits)
    have "logical_key t [] = []" by (simp add: logical_key_def mdb_prefix_decode_canonical_def)
    then have kn: "ln_key (kept_node t i (leaf_node_at mp i)) = ?k" using False by (auto simp: kept_node_def logical_node_def)
    show ?thesis
      unfolding kn using e' copy_raw_self[OF S(5)] s0 en by (cases "i = 0") (simp_all add: e_def insert_key_def)
  qed
  then show "re_key e = ln_key (kept_node t i (leaf_node_at mp i))" .
  have fe: "re_data_ptr e = re_data_ptr ?s" "re_data_payload e = re_data_payload ?s" "re_data_size e = re_data_size ?s"
    "re_flags e = re_flags ?s" using f by (simp_all add: e_def en insert_key_def)
  show "data_ok e" using S(1) unfolding data_ok_def fe .
  have "entry_data e = ln_data (leaf_node_at mp i)" using S(2) unfolding entry_data_def fe .
  then show "view_of e = kept_node t i (leaf_node_at mp i)"
    using key S(3,4) fe by (simp add: view_of_def kept_node_def logical_node_def)
qed

section \<open>Rebuilding keeps the logical content\<close>

text \<open>A leaf page the operations work on, with keys of at most \<open>MDB_KEYBUF_MAX\<close> bytes.\<close>

definition prefix_page :: "nat \<Rightarrow> MDB_page \<Rightarrow> bool" where
  "prefix_page capacity mp \<longleftrightarrow> page_wf capacity mp \<and> plain_leaf mp \<and>
     (\<forall>n\<in>set (leaf_view mp). small_key (ln_key n))"

lemma filter_remove_at: "r < n \<Longrightarrow> filter (\<lambda>i. i \<noteq> r) [0..<n] = remove_at r [0..<n]"
proof -
  assume r: "r < n"
  have "[0..<n] = [0..<r] @ [r..<n]" using r upt_add_eq_append[of 0 r "n - r"] by simp
  also have "\<dots> = [0..<r] @ r # [Suc r..<n]" using r by (simp add: upt_conv_Cons)
  finally have u: "[0..<n] = [0..<r] @ r # [Suc r..<n]" .
  have "filter (\<lambda>i. i \<noteq> r) [0..<r] = [0..<r]" "filter (\<lambda>i. i \<noteq> r) [Suc r..<n] = [Suc r..<n]"
    by (auto intro: filter_True)
  then show ?thesis unfolding u by (simp add: remove_at_def)
qed

lemma trunk_small: "prefix_page capacity mp \<Longrightarrow> NUMKEYS mp > 0 \<Longrightarrow> small_key (key_at mp 0)"
proof -
  assume p: "prefix_page capacity mp" "NUMKEYS mp > 0"
  have "leaf_view mp ! 0 \<in> set (leaf_view mp)" using p(2) by (intro nth_mem) simp
  moreover have "ln_key (leaf_view mp ! 0) = key_at mp 0"
    using p(2) by (simp add: leaf_view_def logical_node_def leaf_node_at_def)
  ultimately show ?thesis using p(1) unfolding prefix_page_def by metis
qed

text \<open>The bytes a page with given nodes takes: header, slots, and the nodes with their stored keys.\<close>

fun nodes_need :: "bytes \<Rightarrow> nat \<Rightarrow> leaf_node list \<Rightarrow> nat" where
  "nodes_need trunk i [] = 0"
| "nodes_need trunk i (n # ns) =
     EVEN (NODESIZE + EVEN (length (stored_key trunk i (ln_key n))) + length (ln_data n)) + nodes_need trunk (Suc i) ns"

definition page_need :: "leaf_node list \<Rightarrow> nat" where
  "page_need view = PAGEHDRSZ + 2 * length view + nodes_need (ln_key (hd view)) 0 view"

lemma nodes_need_measured:
  "(\<And>e. e \<in> set es \<Longrightarrow> data_ok e) \<Longrightarrow> nodes_need t i (map view_of es) = total_bytes (measured_from t i es)"
  by (induction es arbitrary: i) (simp_all add: view_of_def length_entry_data)

lemma page_need_measured:
  assumes "es \<noteq> []" "\<And>e. e \<in> set es \<Longrightarrow> data_ok e"
  shows "page_need (map view_of es) = PAGEHDRSZ + 2 * length es + total_bytes (measured_from (re_key (hd es)) 0 es)"
proof -
  have "ln_key (hd (map view_of es)) = re_key (hd es)" using assms(1) by (simp add: hd_map view_of_def)
  then show ?thesis using nodes_need_measured[of es, OF assms(2)] by (simp add: page_need_def)
qed

text \<open>
  The outcome of a rebuild, over the page's logical content \<open>view\<close>: the page is full exactly when
  the content does not fit, and running out of memory or of room leaves the page as it was.
\<close>

definition rebuilds_to :: "bool \<Rightarrow> nat \<Rightarrow> rb_state \<Rightarrow> leaf_node list \<Rightarrow> (rb_state \<times> unit res) option \<Rightarrow> bool" where
  "rebuilds_to alloc capacity s view result \<longleftrightarrow>
     (\<exists>s' r. result = Some (s', r) \<and> scratch_ok (rs_scratch s') \<and>
        (r = Ok () \<and> page_need view \<le> capacity \<and> leaf_view (rs_page s') = view \<and> prefix_page capacity (rs_page s') \<and>
           mp_flags (rs_page s') = mp_flags (rs_page s) \<and> mp_pgno (rs_page s') = mp_pgno (rs_page s) \<and>
           mp_pad (rs_page s') = list_max (map (\<lambda>n. length (ln_key n)) view) \<or>
         r = Err MDB_PAGE_FULL \<and> capacity < page_need view \<and> rs_page s' = rs_page s \<or>
         r = Err ENOMEM \<and> \<not> alloc \<and> rs_page s' = rs_page s))"

lemma rebuilt_rebuilds_to:
  assumes r: "rebuilt alloc capacity s es result" and l: "plain_leaf (rs_page s)" and ne: "es \<noteq> []"
    and small: "\<And>e. e \<in> set es \<Longrightarrow> small_key (re_key e)" and dat: "\<And>e. e \<in> set es \<Longrightarrow> data_ok e"
  shows "rebuilds_to alloc capacity s (map view_of es) result"
proof -
  have m: "list_max (map (\<lambda>e. length (re_key e)) es) \<le> MDB_KEYBUF_MAX"
    unfolding list_max_le_iff using small by (auto simp: small_key_def)
  have k: "map (\<lambda>n. length (ln_key n)) (map view_of es) = map (\<lambda>e. length (re_key e)) es"
    by (simp add: view_of_def)
  have "\<forall>n\<in>set (map view_of es). small_key (ln_key n)" using small by (auto simp: view_of_def)
  moreover have "min (list_max (map (\<lambda>e. length (re_key e)) es)) 65535 = list_max (map (\<lambda>e. length (re_key e)) es)"
    using m by (simp add: MDB_KEYBUF_MAX_def)
  ultimately have v: "\<forall>n\<in>set (map view_of es). small_key (ln_key n)"
    "min (list_max (map (\<lambda>e. length (re_key e)) es)) 65535 = list_max (map (\<lambda>n. length (ln_key n)) (map view_of es))"
    unfolding k by simp_all
  define need where "need = PAGEHDRSZ + 2 * length es + total_bytes (measured_from (re_key (hd es)) 0 es)"
  have pn: "page_need (map view_of es) = need" unfolding need_def by (rule page_need_measured[OF ne dat])
  obtain s' r' where s': "result = Some (s', r')" "scratch_ok (rs_scratch s')"
    and o': "if need > capacity then r' = Err MDB_PAGE_FULL \<and> rs_page s' = rs_page s
         else r' = Err ENOMEM \<and> \<not> alloc \<and> rs_page s' = rs_page s \<or>
           r' = Ok () \<and> leaf_view (rs_page s') = map view_of es \<and> page_wf capacity (rs_page s') \<and>
           mp_flags (rs_page s') = mp_flags (rs_page s) \<and> mp_pgno (rs_page s') = mp_pgno (rs_page s) \<and>
           mp_pad (rs_page s') = min (list_max (map (\<lambda>e. length (re_key e)) es)) 65535 \<and>
           SIZELEFT (rs_page s') = capacity - need"
    using r unfolding rebuilt_def Let_def need_def[symmetric] by blast
  show ?thesis
  proof (cases "r' = Ok ()")
    case True
    with o' have w: "\<not> need > capacity" "leaf_view (rs_page s') = map view_of es" "page_wf capacity (rs_page s')"
      "mp_flags (rs_page s') = mp_flags (rs_page s)" "mp_pgno (rs_page s') = mp_pgno (rs_page s)"
      "mp_pad (rs_page s') = list_max (map (\<lambda>n. length (ln_key n)) (map view_of es))"
      unfolding v(2)[symmetric] by (auto split: if_splits)
    have "prefix_page capacity (rs_page s')"
      unfolding prefix_page_def w(2) using w(3,4) l v(1) plain_leaf_cong by blast
    with w True s' show ?thesis unfolding rebuilds_to_def pn not_less by blast
  next
    case False
    with o' s' show ?thesis unfolding rebuilds_to_def pn by (auto split: if_splits)
  qed
qed

text \<open>Deleting node \<open>removed\<close> rebuilds the page to the other nodes, with their keys.\<close>

lemma rebuilds_to_ensure:
  assumes e: "ensured alloc s (rb_ensure h s)"
    and g: "\<And>s'. rs_page s' = rs_page s \<Longrightarrow> scratch_ok (rs_scratch s') \<Longrightarrow> rebuilds_to alloc capacity s' v (g () s')"
  shows "rebuilds_to alloc capacity s v (rb_bind (rb_ensure h) g s)"
proof (rule ensured_bind[OF e, where g = g])
  fix s'
  assume s': "rs_page s' = rs_page s" "scratch_ok (rs_scratch s')"
    and r: "rb_bind (rb_ensure h) g s = g () s' \<or> \<not> alloc \<and> rb_bind (rb_ensure h) g s = Some (s', Err ENOMEM)"
  from r show ?thesis
  proof
    assume "rb_bind (rb_ensure h) g s = g () s'"
    then show ?thesis using g[OF s'] s'(1) by (simp add: rebuilds_to_def)
  next
    assume "\<not> alloc \<and> rb_bind (rb_ensure h) g s = Some (s', Err ENOMEM)"
    then show ?thesis using s' by (simp add: rebuilds_to_def)
  qed
qed

lemma apply_empty:
  assumes l: "plain_leaf (rs_page s)" and pre: prefix and cap: "capacity < 65536" "PAGEHDRSZ \<le> capacity"
    and ok: "scratch_ok (rs_scratch s)"
  shows "rebuilds_to alloc capacity s [] (mdb_leaf_rebuild_apply prefix [] capacity s)"
proof -
  define mp where "mp = (rs_page s)\<lparr>mp_lower := PAGEHDRSZ, mp_upper := capacity, mp_pad := 0\<rparr>"
  have l': "plain_leaf mp" using l plain_leaf_cong[of "rs_page s" mp] by (simp add: mp_def)
  have n: "NUMKEYS mp = 0" by (simp add: mp_def NUMKEYS_def PAGEHDRSZ_def u16_sub_def)
  have "page_wf capacity mp" using cap n by (simp add: page_wf_def slots_wf_def mp_def PAGEHDRSZ_def)
  then have "prefix_page capacity mp" using l' n by (simp add: prefix_page_def leaf_view_def)
  moreover have "\<exists>s'. mdb_leaf_rebuild_apply prefix [] capacity s = Some (s', Ok ()) \<and> rs_page s' = mp \<and> rs_scratch s' = rs_scratch s"
  proof -
    have f: "IS_LEAF (rs_page s)" "\<not> IS_LEAF2 (rs_page s)" "capacity \<noteq> 0" using l cap by (simp_all add: plain_leaf_def PAGEHDRSZ_def)
    then show ?thesis
      using pre cap by (simp add: mdb_leaf_rebuild_apply_def Let_def mp_def IS_LEAF_def IS_LEAF2_def mdb_prefix_leaf_store_stride_def)
  qed
  ultimately show ?thesis
    using ok n cap by (auto simp: rebuilds_to_def leaf_view_def mp_def page_need_def)
qed

lemma decode_entry_size:
  "re_encoded_key e = Some k \<Longrightarrow> decode_entry (Some t) e = (e', n) \<Longrightarrow> n \<le> length t + length k"
  by (auto simp: decode_entry_def Let_def dest: decode_canonical_bounds split: option.splits if_splits)

lemma entry_size_less:
  assumes "length t < UINT16_MAX"
  shows "snd (delete_entry mp (Some t) i) < 2 ^ 17" "snd (insert_entry mp (Some t) (Some t) i) < 2 ^ 17"
proof -
  let ?e = "src_entry mp (NODEPTR mp i)"
  have l: "re_encoded_len ?e < 65536" using ksize_less[of "mp_mem mp" "NODEPTR mp i"] by (simp add: src_entry_def NODEKEY_def)
  have d: "snd (decode_entry (Some t) ?e) \<le> length t + re_encoded_len ?e"
    using decode_entry_size[of ?e _ t "fst (decode_entry (Some t) ?e)" "snd (decode_entry (Some t) ?e)"]
    by (simp add: src_entry_def)
  show "snd (delete_entry mp (Some t) i) < 2 ^ 17" "snd (insert_entry mp (Some t) (Some t) i) < 2 ^ 17"
    using d l assms by (simp_all add: delete_entry_def insert_entry_def Let_def UINT16_MAX_def)
qed

lemma sum_list_bound: "(\<And>x. x \<in> set xs \<Longrightarrow> f x < B) \<Longrightarrow> sum_list (map f xs) \<le> length xs * B"
proof (induction xs)
  case (Cons x xs)
  have "f x < B" using Cons.prems by simp
  moreover have "sum_list (map f xs) \<le> length xs * B" using Cons by simp
  ultimately show ?case by simp
qed simp

lemma trunk_delete_spec:
  assumes p: "prefix_page capacity (rs_page s)" and pre: prefix and n: "removed < NUMKEYS (rs_page s)"
    and ok: "scratch_ok (rs_scratch s)" "env_ok env" and cap: "capacity < 65536"
  shows "rebuilds_to alloc capacity s (remove_at removed (leaf_view (rs_page s)))
    (mdb_leaf_rebuild_after_trunk_delete alloc env prefix snap0 capacity removed (Some (key_at (rs_page s) 0)) s)"
proof -
  let ?mp = "rs_page s" and ?n = "NUMKEYS (rs_page s)" and ?t = "key_at (rs_page s) 0"
  let ?sn = "mdb_prefix_snapshot_capture snap0 ?mp capacity"
  have wf: "page_wf capacity ?mp" and l: "plain_leaf ?mp" using p by (simp_all add: prefix_page_def)
  have leaf: "\<not> (\<not> IS_LEAF ?mp \<or> IS_LEAF2 ?mp \<or> ?n = 0 \<or> removed \<ge> ?n)" using l n by (simp add: plain_leaf_def)
  have c0: "0 < capacity" using slots_wfD(3,4,5)[OF wf[unfolded page_wf_def]] by linarith
  have t: "length ?t < UINT16_MAX" using trunk_small[OF p] n by (simp add: small_key_def MDB_KEYBUF_MAX_def UINT16_MAX_def)
  define kept where "kept = filter (\<lambda>i. i \<noteq> removed) [0..<?n]"
  define sized where "sized = map (delete_entry ?sn (Some ?t)) kept"
  define entries where "entries = map2 (delete_key (Some ?t)) kept sized"
  have kept: "kept = remove_at removed [0..<?n]" "\<And>i. i \<in> set kept \<Longrightarrow> i < ?n" "length kept = ?n - 1"
  proof -
    show k: "kept = remove_at removed [0..<?n]" unfolding kept_def by (rule filter_remove_at[OF n])
    show "i \<in> set kept \<Longrightarrow> i < ?n" for i by (simp add: kept_def)
    show "length kept = ?n - 1" unfolding k using n by simp
  qed
  have ent: "entries = map (\<lambda>i. delete_key (Some ?t) i (delete_entry ?sn (Some ?t) i)) kept"
    by (simp add: entries_def sized_def zip_map2 map2_map_map[symmetric] comp_def zip_same_conv_map)
  have node: "leaf_node_at ?sn i = leaf_node_at ?mp i" if "i < ?n" for i by (rule snapshot_node[OF wf l that])
  have view: "map view_of entries = remove_at removed (leaf_view ?mp)"
  proof -
    have "map view_of entries = map (\<lambda>i. logical_node ?t i (leaf_node_at ?mp i)) kept"
      unfolding ent using kept(2) node by (auto simp: delete_key_spec(1)[OF t])
    then show ?thesis by (simp add: kept(1) remove_at_map leaf_view_def)
  qed
  have small: "small_key (re_key e)" if "e \<in> set entries" for e
  proof -
    have "view_of e \<in> set (remove_at removed (leaf_view ?mp))" using that view by (metis image_eqI set_map)
    then have "view_of e \<in> set (leaf_view ?mp)" by (rule subsetD[OF set_remove_at])
    then have "small_key (ln_key (view_of e))" using p by (simp add: prefix_page_def)
    then show ?thesis by (simp add: view_of_def)
  qed
  have dat: "data_ok e" if "e \<in> set entries" for e
    using that unfolding ent by (auto simp: delete_key_spec(2)[OF t])
  have sum: "sum_list (map snd sized) < 2 ^ 64"
  proof -
    have "sum_list (map snd sized) \<le> length sized * 2 ^ 17"
    proof (rule sum_list_bound)
      fix x assume "x \<in> set sized"
      then obtain i where "x = delete_entry ?sn (Some ?t) i" by (auto simp: sized_def)
      then show "snd x < 2 ^ 17" by (simp only: entry_size_less(1)[OF t])
    qed
    moreover have "length sized < 2 ^ 16" using NUMKEYS_less[of ?mp] by (simp add: sized_def kept(3))
    ultimately show ?thesis by simp
  qed
  have psz: "me_psize env < 2 ^ 64" using ok(2) by (simp add: env_ok_def)
  have cnt: "?n - 1 < 2 ^ 32" using NUMKEYS_less[of ?mp] by simp
  have le: "length entries = ?n - 1" unfolding ent by (simp add: kept(3))
  have run: "mdb_leaf_rebuild_after_trunk_delete alloc env prefix snap0 capacity removed (Some ?t) s =
     rb_bind (rb_ensure (\<lambda>x. mdb_prefix_ensure_snapshot alloc env x (me_psize env))) (\<lambda>_.
         if ?n - 1 = 0 then mdb_leaf_rebuild_apply prefix [] capacity
         else
           rb_bind (rb_ensure (\<lambda>x. mdb_prefix_ensure_entries alloc env x (?n - 1))) (\<lambda>_.
             rb_bind (rb_ensure (\<lambda>x. mdb_prefix_ensure_keybuf alloc env x (sum_list (map snd sized)))) (\<lambda>_.
               rb_bind (mdb_leaf_rebuild_measure alloc env entries capacity) (\<lambda>(entries, used).
                       mdb_leaf_rebuild_apply prefix entries capacity)))) s"
    unfolding mdb_leaf_rebuild_after_trunk_delete_def Let_def if_not_P[OF leaf] kept_def[symmetric] sized_def[symmetric]
      entries_def[symmetric] ..
  show ?thesis
    unfolding run
  proof (rule rebuilds_to_ensure[OF ensure_snapshot_ensured[OF ok psz]])
    fix s1 :: rb_state assume s1: "rs_page s1 = ?mp" "scratch_ok (rs_scratch s1)"
    show "rebuilds_to alloc capacity s1 (remove_at removed (leaf_view ?mp))
       ((if ?n - 1 = 0 then mdb_leaf_rebuild_apply prefix [] capacity
         else rb_bind (rb_ensure (\<lambda>x. mdb_prefix_ensure_entries alloc env x (?n - 1))) (\<lambda>_.
             rb_bind (rb_ensure (\<lambda>x. mdb_prefix_ensure_keybuf alloc env x (sum_list (map snd sized)))) (\<lambda>_.
               rb_bind (mdb_leaf_rebuild_measure alloc env entries capacity) (\<lambda>(entries, used).
                       mdb_leaf_rebuild_apply prefix entries capacity)))) s1)"
    proof (cases "?n - 1 = 0")
      case True
      then have "entries = []" using le by simp
      then have v: "remove_at removed (leaf_view ?mp) = []" using view by simp
      have "PAGEHDRSZ \<le> capacity" using slots_wfD(3,4,5)[OF wf[unfolded page_wf_def]] by (simp add: PAGEHDRSZ_def)
      then show ?thesis using apply_empty[of s1 prefix capacity alloc] l pre cap s1 True by (simp add: v)
    next
      case False
      show ?thesis
        unfolding if_not_P[OF False]
      proof (rule rebuilds_to_ensure[OF ensure_entries_ensured[OF s1(2) ok(2) cnt]])
        fix s2 :: rb_state assume s2: "rs_page s2 = rs_page s1" "scratch_ok (rs_scratch s2)"
        show "rebuilds_to alloc capacity s2 (remove_at removed (leaf_view ?mp))
          (rb_bind (rb_ensure (\<lambda>x. mdb_prefix_ensure_keybuf alloc env x (sum_list (map snd sized)))) (\<lambda>_.
               rb_bind (mdb_leaf_rebuild_measure alloc env entries capacity) (\<lambda>(entries, used).
                       mdb_leaf_rebuild_apply prefix entries capacity)) s2)"
        proof (rule rebuilds_to_ensure[OF ensure_keybuf_ensured[OF s2(2) ok(2) sum]])
          fix s3 :: rb_state assume s3: "rs_page s3 = rs_page s2" "scratch_ok (rs_scratch s3)"
          have l3: "plain_leaf (rs_page s3)" using l s1 s2 s3 by simp
          have ne: "entries \<noteq> []" using le False by auto
          have "rebuilt alloc capacity s3 entries (rb_bind (mdb_leaf_rebuild_measure alloc env entries capacity)
              (\<lambda>(entries, used). mdb_leaf_rebuild_apply prefix entries capacity) s3)"
            by (rule rewrite_spec[OF l3 pre ne small dat s3(2) ok(2) cap c0]) (use le cnt in simp_all)
          from rebuilt_rebuilds_to[OF this l3 ne small dat]
          show "rebuilds_to alloc capacity s3 (remove_at removed (leaf_view ?mp)) (rb_bind (mdb_leaf_rebuild_measure alloc env entries capacity)
              (\<lambda>(entries, used). mdb_leaf_rebuild_apply prefix entries capacity) s3)"
            by (simp only: view)
        qed
      qed
    qed
  qed
qed

text \<open>
  Inserting a node rebuilds the page to the new node and the others. The other nodes keep
  their keys, except those that store the very bytes of the old trunk.
\<close>

definition kept_view :: "MDB_page \<Rightarrow> leaf_node list" where
  "kept_view mp = map (\<lambda>i. kept_node (key_at mp 0) i (leaf_node_at mp i)) [0..<NUMKEYS mp]"

lemma kept_view_leaf_view:
  assumes "\<And>i. 0 < i \<Longrightarrow> i < NUMKEYS mp \<Longrightarrow> key_at mp i \<noteq> key_at mp 0"
  shows "kept_view mp = leaf_view mp"
proof -
  have "kept_node (key_at mp 0) i (leaf_node_at mp i) = logical_node (key_at mp 0) i (leaf_node_at mp i)" if "i < NUMKEYS mp" for i
    using assms[of i] that by (cases "i = 0") (simp_all add: kept_node_def logical_node_def leaf_node_at_def)
  then show ?thesis by (simp add: kept_view_def leaf_view_def)
qed

lemma kept_view_small:
  assumes "prefix_page capacity mp" "n \<in> set (kept_view mp)"
  shows "small_key (ln_key n)"
proof -
  obtain i where i: "i < NUMKEYS mp" "n = kept_node (key_at mp 0) i (leaf_node_at mp i)"
    using assms(2) by (auto simp: kept_view_def)
  have "logical_node (key_at mp 0) i (leaf_node_at mp i) \<in> set (leaf_view mp)" using i(1) by (simp add: leaf_view_def)
  then have "small_key (ln_key (logical_node (key_at mp 0) i (leaf_node_at mp i)))" using assms(1) by (simp add: prefix_page_def)
  moreover have "small_key (key_at mp 0)" using trunk_small[OF assms(1)] i(1) by simp
  ultimately show ?thesis by (auto simp: i(2) kept_node_def)
qed

definition view_new :: "bytes \<Rightarrow> bytes \<Rightarrow> u16 \<Rightarrow> bool \<Rightarrow> MDB_val \<Rightarrow> leaf_node" where
  "view_new key data flags is_reserve ofp =
     \<lparr>ln_key = key, ln_flags = flags, ln_size = length data,
      ln_data = (if F_ISSET flags F_BIGDATA then take 8 (case ofp of Some pg \<Rightarrow> pg | None \<Rightarrow> data)
                 else if is_reserve then replicate (length data) 0 else data)\<rparr>"

lemma trunk_insert_spec:
  assumes p: "prefix_page capacity (rs_page s)" and pre: prefix and n: "0 < NUMKEYS (rs_page s)"
    and key: "small_key new_key" and dat: "length new_data < 2 ^ 32"
      "F_ISSET flags F_BIGDATA \<Longrightarrow> 8 \<le> length (case ofp of Some pg \<Rightarrow> pg | None \<Rightarrow> new_data)"
    and ok: "scratch_ok (rs_scratch s)" "env_ok env" and cap: "capacity < 65536" and ins: "ins \<le> NUMKEYS (rs_page s)"
  shows "rebuilds_to alloc capacity s (insert_at ins (view_new new_key new_data flags is_reserve ofp) (kept_view (rs_page s)))
    (mdb_leaf_rebuild_after_trunk_insert alloc env prefix snap0 capacity (Some (key_at (rs_page s) 0)) ins new_key new_data
       flags is_reserve ofp s)"
proof -
  let ?mp = "rs_page s" and ?n = "NUMKEYS (rs_page s)" and ?t = "key_at (rs_page s) 0"
  let ?sn = "mdb_prefix_snapshot_capture snap0 ?mp capacity"
  let ?new = "new_entry new_key new_data flags is_reserve ofp"
  have wf: "page_wf capacity ?mp" and l: "plain_leaf ?mp" using p by (simp_all add: prefix_page_def)
  have leaf: "\<not> (\<not> IS_LEAF ?mp \<or> IS_LEAF2 ?mp)" using l by (simp add: plain_leaf_def)
  have c0: "0 < capacity" using slots_wfD(3,4,5)[OF wf[unfolded page_wf_def]] by linarith
  have t: "length ?t < UINT16_MAX" using trunk_small[OF p n] by (simp add: small_key_def MDB_KEYBUF_MAX_def UINT16_MAX_def)
  define sized where "sized = map (insert_entry ?sn (Some ?t) (Some ?t)) [0..<?n]"
  define olds where "olds = map2 (insert_key (Some ?t)) [0..<?n] sized"
  define entries where "entries = insert_at ins ?new olds"
  have olds: "olds = map (\<lambda>i. insert_key (Some ?t) i (insert_entry ?sn (Some ?t) (Some ?t) i)) [0..<?n]"
    by (simp add: olds_def sized_def zip_map2 map2_map_map[symmetric] comp_def zip_same_conv_map)
  have node: "leaf_node_at ?sn i = leaf_node_at ?mp i" if "i < ?n" for i by (rule snapshot_node[OF wf l that])
  have vo: "map view_of olds = kept_view ?mp"
    unfolding olds kept_view_def using node insert_key_spec(1)[OF t] by simp
  have vn: "view_of ?new = view_new new_key new_data flags is_reserve ofp" "data_ok ?new"
    using dat by (auto simp: view_of_def view_new_def new_entry_def entry_data_def data_ok_def Let_def)
  have view: "map view_of entries = insert_at ins (view_new new_key new_data flags is_reserve ofp) (kept_view ?mp)"
    by (simp add: entries_def insert_at_map vo vn(1))
  have seti: "set (insert_at ins x xs) = insert x (set xs)" for x :: MDB_prefix_rebuild_entry and xs
  proof -
    have "set xs = set (take ins xs) \<union> set (drop ins xs)" by (metis append_take_drop_id set_append)
    then show ?thesis by (auto simp: insert_at_def)
  qed
  have small: "small_key (re_key e)" if "e \<in> set entries" for e
  proof (cases "e = ?new")
    case True
    then show ?thesis using key by (simp add: new_entry_def Let_def)
  next
    case False
    then have "e \<in> set olds" using that by (simp add: entries_def seti)
    then have "view_of e \<in> set (kept_view ?mp)" using vo by (metis image_eqI set_map)
    then have "small_key (ln_key (view_of e))" by (rule kept_view_small[OF p])
    then show ?thesis by (simp add: view_of_def)
  qed
  have dok: "data_ok e" if "e \<in> set entries" for e
    using that insert_key_spec(2)[OF t] vn(2) by (auto simp: entries_def seti olds)
  have sum: "sum_list (map snd sized) + length new_key < 2 ^ 64"
  proof -
    have "sum_list (map snd sized) \<le> length sized * 2 ^ 17"
    proof (rule sum_list_bound)
      fix x assume "x \<in> set sized"
      then obtain i where "x = insert_entry ?sn (Some ?t) (Some ?t) i" by (auto simp: sized_def)
      then show "snd x < 2 ^ 17" by (simp only: entry_size_less(2)[OF t])
    qed
    moreover have "length sized < 2 ^ 16" using NUMKEYS_less[of ?mp] by (simp add: sized_def)
    ultimately show ?thesis using key by (simp add: small_key_def MDB_KEYBUF_MAX_def)
  qed
  have psz: "me_psize env < 2 ^ 64" using ok(2) by (simp add: env_ok_def)
  have cnt: "?n + 1 < 2 ^ 32" using NUMKEYS_less[of ?mp] by simp
  have le: "length entries = ?n + 1" by (simp add: entries_def olds)
  have ii: "(if ins > ?n then ?n else ins) = ins" using ins by simp
  have run: "mdb_leaf_rebuild_after_trunk_insert alloc env prefix snap0 capacity (Some ?t) ins new_key new_data flags is_reserve ofp s =
     rb_bind (rb_ensure (\<lambda>x. mdb_prefix_ensure_entries alloc env x (?n + 1))) (\<lambda>_.
       rb_bind (rb_ensure (\<lambda>x. mdb_prefix_ensure_snapshot alloc env x (me_psize env))) (\<lambda>_.
         rb_bind (rb_ensure (\<lambda>x. mdb_prefix_ensure_keybuf alloc env x (sum_list (map snd sized) + length new_key))) (\<lambda>_.
           rb_bind (mdb_leaf_rebuild_measure alloc env entries capacity) (\<lambda>(entries, used).
                   mdb_leaf_rebuild_apply prefix entries capacity)))) s"
    unfolding mdb_leaf_rebuild_after_trunk_insert_def Let_def if_not_P[OF leaf] ii option.case sized_def[symmetric]
      olds_def[symmetric] entries_def[symmetric] ..
  show ?thesis
    unfolding run
  proof (rule rebuilds_to_ensure[OF ensure_entries_ensured[OF ok cnt]])
    fix s1 :: rb_state assume s1: "rs_page s1 = ?mp" "scratch_ok (rs_scratch s1)"
    show "rebuilds_to alloc capacity s1 (insert_at ins (view_new new_key new_data flags is_reserve ofp) (kept_view ?mp))
       (rb_bind (rb_ensure (\<lambda>x. mdb_prefix_ensure_snapshot alloc env x (me_psize env))) (\<lambda>_.
         rb_bind (rb_ensure (\<lambda>x. mdb_prefix_ensure_keybuf alloc env x (sum_list (map snd sized) + length new_key))) (\<lambda>_.
           rb_bind (mdb_leaf_rebuild_measure alloc env entries capacity) (\<lambda>(entries, used).
                   mdb_leaf_rebuild_apply prefix entries capacity))) s1)"
    proof (rule rebuilds_to_ensure[OF ensure_snapshot_ensured[OF s1(2) ok(2) psz]])
      fix s2 :: rb_state assume s2: "rs_page s2 = rs_page s1" "scratch_ok (rs_scratch s2)"
      show "rebuilds_to alloc capacity s2 (insert_at ins (view_new new_key new_data flags is_reserve ofp) (kept_view ?mp))
         (rb_bind (rb_ensure (\<lambda>x. mdb_prefix_ensure_keybuf alloc env x (sum_list (map snd sized) + length new_key))) (\<lambda>_.
           rb_bind (mdb_leaf_rebuild_measure alloc env entries capacity) (\<lambda>(entries, used).
                   mdb_leaf_rebuild_apply prefix entries capacity)) s2)"
      proof (rule rebuilds_to_ensure[OF ensure_keybuf_ensured[OF s2(2) ok(2) sum]])
        fix s3 :: rb_state assume s3: "rs_page s3 = rs_page s2" "scratch_ok (rs_scratch s3)"
        have l3: "plain_leaf (rs_page s3)" using l s1 s2 s3 by simp
        have ne: "entries \<noteq> []" using le by auto
        have "rebuilt alloc capacity s3 entries (rb_bind (mdb_leaf_rebuild_measure alloc env entries capacity)
            (\<lambda>(entries, used). mdb_leaf_rebuild_apply prefix entries capacity) s3)"
          by (rule rewrite_spec[OF l3 pre ne small dok s3(2) ok(2) cap c0]) (use le cnt in simp_all)
        from rebuilt_rebuilds_to[OF this l3 ne small dok]
        show "rebuilds_to alloc capacity s3 (insert_at ins (view_new new_key new_data flags is_reserve ofp) (kept_view ?mp))
            (rb_bind (mdb_leaf_rebuild_measure alloc env entries capacity)
            (\<lambda>(entries, used). mdb_leaf_rebuild_apply prefix entries capacity) s3)"
          by (simp only: view)
      qed
    qed
  qed
qed

section \<open>A page on which an insertion loses a key\<close>

text \<open>
  Two keys, 02 09 07 and 02 09 09 07: the second is stored as 02 (two shared bytes) and the suffix
  09 07, which are the very bytes of the first.
\<close>

definition clash_env :: MDB_env_sizes where
  "clash_env = \<lparr>me_maxkey = 511, me_nodemax = 60, me_psize = 128\<rparr>"

definition clash_state :: rb_state where
  "clash_state = \<lparr>rs_scratch = \<lparr>snapshot_size = 0, entries_cap = 0, keybuf_size = 0, encodedbuf_size = 0\<rparr>,
     rs_cache = \<lparr>sc_entries = [], sc_count = 0, sc_capacity = 0, sc_generation = 0\<rparr>, rs_page = sample_page\<rparr>"

lemma clash_trunk: "key_at sample_page 0 = [2, 9, 7]" "key_at sample_page 1 = [2, 9, 7]"
  by code_simp+

lemma clash_keys: "map ln_key (leaf_view sample_page) = [[2, 9, 7], [2, 9, 9, 7]]"
  by code_simp

definition plain_page :: MDB_page where
  "plain_page = sample_page\<lparr>mp_mem := mem_write (mp_mem sample_page) 100 [1, 0, 0, 0, 0, 0, 3, 0, 2, 9, 8, 0, 66, 0]\<rparr>"

lemma plain_nodes: "NUMKEYS plain_page = 2" "node_size plain_page 114 = 14" "node_size plain_page 100 = 14"
  "mp_lower plain_page = 20" "mp_upper plain_page = 100" "mp_ptrs plain_page 0 = 114" "mp_ptrs plain_page (Suc 0) = 100"
  "key_at plain_page 0 = [2, 9, 7]" "key_at plain_page (Suc 0) = [2, 9, 8]"
  by code_simp+

lemma plain_keys: "map ln_key (leaf_view plain_page) = [[2, 9, 7], [2, 9, 9, 8]]"
  by code_simp

lemma prefix_pageI:
  assumes "page_wf capacity mp" "plain_leaf mp" "map ln_key (leaf_view mp) = ks" "\<forall>k\<in>set ks. small_key k"
  shows "prefix_page capacity mp"
  unfolding prefix_page_def
proof (intro conjI ballI assms(1,2))
  fix n assume "n \<in> set (leaf_view mp)"
  then have "ln_key n \<in> set (map ln_key (leaf_view mp))" by simp
  then show "small_key (ln_key n)" using assms(3,4) by simp
qed

lemma clash_prefix_page: "prefix_page 128 sample_page"
  by (rule prefix_pageI[OF sample_page_wf _ clash_keys]) (code_simp, simp add: small_key_def MDB_KEYBUF_MAX_def)

lemma plain_prefix_page: "prefix_page 128 plain_page"
proof (rule prefix_pageI[OF _ _ plain_keys])
  show "page_wf 128 plain_page"
    unfolding page_wf_def slots_wf_def plain_nodes(1) by (auto simp: PAGEHDRSZ_def less_2_cases_iff plain_nodes)
  show "plain_leaf plain_page" by code_simp
qed (simp add: small_key_def MDB_KEYBUF_MAX_def)

section \<open>Properties\<close>

text \<open>C3. Rebuilding a prefix-compressed leaf page after the deletion of any of its nodes, the trunk
  included, leaves exactly the other nodes with their decoded keys, flags and data in order, on a
  well-formed page whose stride is the exact longest key. The page is full exactly when these nodes,
  encoded against the new trunk, need more than the page, and then, as without memory, the page is
  unchanged.\<close>

theorem trunk_delete_keeps_content:
  assumes "prefix_page capacity (rs_page s)" "removed < NUMKEYS (rs_page s)"
    and "scratch_ok (rs_scratch s)" "env_ok env" "capacity < 65536"
  shows "rebuilds_to alloc capacity s (remove_at removed (leaf_view (rs_page s)))
    (mdb_leaf_rebuild_after_trunk_delete alloc env True snap0 capacity removed (Some (key_at (rs_page s) 0)) s)"
  by (rule trunk_delete_spec[OF assms(1) _ assms(2-5)]) simp

theorem trunk_delete_keeps_content_witness:
  "rebuilds_to True 128 clash_state (remove_at 0 (leaf_view sample_page))
    (mdb_leaf_rebuild_after_trunk_delete True clash_env True sample_page 128 0 (Some (key_at sample_page 0)) clash_state)"
  using trunk_delete_keeps_content[of 128 clash_state 0 clash_env True sample_page] clash_prefix_page
  by (simp add: clash_state_def clash_env_def scratch_ok_def env_ok_def sample_nodes)

text \<open>C4. Rebuilding after an insertion that replaces the trunk leaves the new node at its place among the
  others with their decoded keys, when no other key is stored with the very bytes of the old trunk.\<close>

theorem trunk_insert_keeps_content:
  assumes "prefix_page capacity (rs_page s)" "0 < NUMKEYS (rs_page s)" "small_key new_key" "length new_data < 2 ^ 32"
    and "\<not> F_ISSET flags F_BIGDATA"
    and "\<forall>i. 0 < i \<and> i < NUMKEYS (rs_page s) \<longrightarrow> key_at (rs_page s) i \<noteq> key_at (rs_page s) 0"
    and "scratch_ok (rs_scratch s)" "env_ok env" "capacity < 65536" "ins \<le> NUMKEYS (rs_page s)"
  shows "rebuilds_to alloc capacity s
    (insert_at ins \<lparr>ln_key = new_key, ln_flags = flags, ln_size = length new_data, ln_data = new_data\<rparr> (leaf_view (rs_page s)))
    (mdb_leaf_rebuild_after_trunk_insert alloc env True snap0 capacity (Some (key_at (rs_page s) 0)) ins new_key new_data
       flags False None s)"
proof -
  have "kept_view (rs_page s) = leaf_view (rs_page s)" using assms(6) by (intro kept_view_leaf_view) blast
  moreover have "view_new new_key new_data flags False None =
      \<lparr>ln_key = new_key, ln_flags = flags, ln_size = length new_data, ln_data = new_data\<rparr>"
    using assms(5) by (simp add: view_new_def)
  ultimately show ?thesis
    using trunk_insert_spec[OF assms(1) _ assms(2,3,4) _ assms(7-10), of True flags None alloc False snap0] assms(5) by simp
qed

theorem trunk_insert_keeps_content_witness:
  "rebuilds_to True 128 (clash_state\<lparr>rs_page := plain_page\<rparr>)
    (insert_at 0 \<lparr>ln_key = [1], ln_flags = 0, ln_size = length [67 :: byte], ln_data = [67]\<rparr> (leaf_view plain_page))
    (mdb_leaf_rebuild_after_trunk_insert True clash_env True sample_page 128 (Some (key_at plain_page 0)) 0 [1] [67]
       0 False None (clash_state\<lparr>rs_page := plain_page\<rparr>))"
proof -
  have c: "0 < i \<and> i < 2 \<longrightarrow> key_at plain_page i \<noteq> key_at plain_page 0" for i
    by (auto simp: less_2_cases_iff plain_nodes)
  show ?thesis
    using trunk_insert_keeps_content[of 128 "clash_state\<lparr>rs_page := plain_page\<rparr>" "[1]" "[67]" 0 clash_env 0 True sample_page] c
      plain_prefix_page
    by (simp add: clash_state_def clash_env_def scratch_ok_def env_ok_def plain_nodes(1) small_key_def MDB_KEYBUF_MAX_def
        F_ISSET_def F_BIGDATA_def)
qed

text \<open>C27. The condition on the bytes of the old trunk is needed: on a well-formed page with the keys
  02 09 07 and 02 09 09 07, the insertion of the key 01 in front succeeds and leaves the second old key
  as 02 09 07. The code takes a node that stores the bytes of the trunk for a raw key.\<close>

theorem trunk_insert_loses_key:
  "map ln_key (leaf_view sample_page) = [[2, 9, 7], [2, 9, 9, 7]] \<and>
   (\<exists>s'. mdb_leaf_rebuild_after_trunk_insert True clash_env True sample_page 128 (Some (key_at sample_page 0)) 0 [1] [67]
      0 False None clash_state = Some (s', Ok ()) \<and>
    map ln_key (leaf_view (rs_page s')) = [[1], [2, 9, 7], [2, 9, 7]])"
proof -
  let ?v = "insert_at 0 (view_new [1] [67] 0 False None) (kept_view sample_page)"
  have k: "map ln_key ?v = [[1], [2, 9, 7], [2, 9, 7]]" "page_need ?v \<le> 128" by code_simp+
  have "rebuilds_to True 128 clash_state (insert_at 0 (view_new [1] [67] 0 False None) (kept_view (rs_page clash_state)))
    (mdb_leaf_rebuild_after_trunk_insert True clash_env True sample_page 128 (Some (key_at (rs_page clash_state) 0)) 0 [1] [67]
       0 False None clash_state)"
    by (rule trunk_insert_spec)
      (use clash_prefix_page in \<open>simp_all add: clash_state_def clash_env_def scratch_ok_def env_ok_def sample_nodes small_key_def
        MDB_KEYBUF_MAX_def F_ISSET_def F_BIGDATA_def\<close>)
  moreover have "rs_page clash_state = sample_page" by (simp add: clash_state_def)
  ultimately obtain s' where "mdb_leaf_rebuild_after_trunk_insert True clash_env True sample_page 128 (Some (key_at sample_page 0))
      0 [1] [67] 0 False None clash_state = Some (s', Ok ())" "leaf_view (rs_page s') = ?v"
    using k(2) by (auto simp: rebuilds_to_def)
  then show ?thesis using clash_keys k(1) by metis
qed

end
