(* ===== verification/Node_Ops.thy ===== *)
theory Node_Ops
  imports Rebuild_Content Seq_Reader Txn_Pages
begin

text \<open>
  Adding a node to a page and deleting one (\<open>mdb_node_add\<close>, \<open>mdb_node_del\<close> in \<open>mdb.c\<close>), with the sizes
  the callers compute beforehand, the page that an overflow value is put on, and the stride that
  follows each change of a prefix-compressed leaf.
\<close>

section \<open>State\<close>

text \<open>
  The page of the cursor with the scratch buffers and the stride cache, what the cursor has read, and
  the transaction. \<open>ne_new\<close> stands for \<open>mdb_page_alloc\<close>, the result of allocating so many pages;
  \<open>ne_capacity\<close> for the size of the page, \<open>me_psize\<close> or the sub-page's own.
\<close>

record node_state =
  nd_rb :: rb_state
  nd_rd :: reader
  nd_txn :: MDB_txn

record node_env =
  ne_ce :: cache_env
  ne_alloc :: bool
  ne_snap0 :: MDB_page
  ne_capacity :: nat
  ne_new :: "nat \<Rightarrow> MDB_page res"
  ne_own_map :: bool

type_synonym 'a nd = "node_state \<Rightarrow> (node_state \<times> 'a res) option"

abbreviation nd_page :: "node_state \<Rightarrow> MDB_page" where
  "nd_page s \<equiv> rs_page (nd_rb s)"

definition set_page :: "MDB_page \<Rightarrow> node_state \<Rightarrow> node_state" where
  "set_page mp s = s\<lparr>nd_rb := (nd_rb s)\<lparr>rs_page := mp\<rparr>\<rparr>"

definition nd_res :: "'a res \<Rightarrow> 'a nd" where
  "nd_res r = (\<lambda>s. Some (s, r))"

definition nd_bind :: "'a nd \<Rightarrow> ('a \<Rightarrow> 'b nd) \<Rightarrow> 'b nd" where
  "nd_bind f g = (\<lambda>s. case f s of None \<Rightarrow> None
     | Some (s, Ok x) \<Rightarrow> g x s | Some (s, Err e) \<Rightarrow> Some (s, Err e) | Some (s, Abort) \<Rightarrow> Some (s, Abort))"

definition nd_rebuild :: "'a rb \<Rightarrow> 'a nd" where
  "nd_rebuild f = (\<lambda>s. map_option (\<lambda>(rb, r). (s\<lparr>nd_rb := rb\<rparr>, r)) (f (nd_rb s)))"

definition nd_update :: "(MDB_page \<Rightarrow> MDB_page res) \<Rightarrow> unit nd" where
  "nd_update f = (\<lambda>s. Some (case f (nd_page s) of
     Ok mp \<Rightarrow> (set_page mp s, Ok ()) | Err e \<Rightarrow> (s, Err e) | Abort \<Rightarrow> (s, Abort)))"

definition nd_guard :: "bool \<Rightarrow> unit nd" where
  "nd_guard b = nd_res (if b then Ok () else Abort)"

definition nd_prefix :: "node_env \<Rightarrow> bool" where "nd_prefix ne = ce_prefix (ne_ce ne)"

section \<open>Sizes\<close>

definition MDB_RESERVE :: u32 where "MDB_RESERVE = 0x10000"
definition MDB_SPLIT_REPLACE :: u32 where "MDB_SPLIT_REPLACE = 0x40000"

abbreviation node_flag :: "u32 \<Rightarrow> u16 \<Rightarrow> bool" where
  "node_flag flags f \<equiv> F_ISSET (ucast flags) f"

definition F_ISSET32 :: "u32 \<Rightarrow> u32 \<Rightarrow> bool" where "F_ISSET32 w f \<longleftrightarrow> w AND f = f"

definition mdb_leaf_size :: "MDB_env_sizes \<Rightarrow> MDB_page option \<Rightarrow> nat \<Rightarrow> bytes \<Rightarrow> bytes \<Rightarrow> bool \<Rightarrow> nat" where
  "mdb_leaf_size env mp indx key data prefix =
     (let trunk = (case mp of
            Some mp \<Rightarrow> if prefix \<and> \<not> IS_LEAF2 mp \<and> NUMKEYS mp > 0 \<and> indx \<noteq> 0 then Some (key_at mp 0) else None
          | None \<Rightarrow> None);
          key_bytes = fst (mdb_leaf_encoded_size trunk key);
          sz = NODESIZE + EVEN key_bytes + length data;
          sz = (if sz > me_nodemax env then sz + 8 - length data else sz)
      in EVEN (sz + 2))"

definition mdb_branch_size :: "MDB_page option \<Rightarrow> bytes option \<Rightarrow> nat" where
  "mdb_branch_size mp key =
     (let sz = NODESIZE + (case key of None \<Rightarrow> 0 | Some k \<Rightarrow> length k);
          sz = (case mp of Some mp \<Rightarrow> if IS_COUNTED mp then sz + 8 else sz | None \<Rightarrow> sz)
      in EVEN (sz + 2))"

section \<open>New pages\<close>

text \<open>\<open>np\<close> is the page \<open>mdb_page_alloc\<close> gives; the result is with the counters of the database to increase.\<close>

datatype page_counter = Branch_pages | Leaf_pages | Overflow_pages | No_pages

definition mdb_page_new :: "MDB_page res \<Rightarrow> bool \<Rightarrow> nat \<Rightarrow> u16 \<Rightarrow> nat \<Rightarrow> (MDB_page \<times> page_counter \<times> nat) res" where
  "mdb_page_new np counted psize flags num =
     bind_res np (\<lambda>np.
       let fl = flags OR P_DIRTY;
           fl = (if flags AND P_BRANCH \<noteq> 0 \<and> counted then fl OR P_COUNTED else fl);
           np = np\<lparr>mp_flags := fl, mp_lower := PAGEHDRSZ, mp_upper := psize mod 65536\<rparr>
       in Ok (if IS_BRANCH np then (np, Branch_pages, 1)
              else if IS_LEAF np then (np, Leaf_pages, 1)
              else if F_ISSET fl P_OVERFLOW
              then (np\<lparr>mp_lower := num mod 65536, mp_upper := num div 65536\<rparr>, Overflow_pages, num)
              else (np, No_pages, 0)))"

section \<open>Adding a node\<close>

text \<open>The trunk the new key is encoded against, on a leaf page.\<close>

definition add_trunk :: "bool \<Rightarrow> MDB_page \<Rightarrow> nat \<Rightarrow> bytes option \<Rightarrow> bytes option" where
  "add_trunk prefix mp indx key =
     (if key \<noteq> None \<and> IS_LEAF mp \<and> prefix \<and> NUMKEYS mp > 0 \<and> indx \<noteq> 0 then Some (key_at mp 0) else None)"

definition add_key_bytes :: "bool \<Rightarrow> MDB_page \<Rightarrow> nat \<Rightarrow> bytes option \<Rightarrow> nat" where
  "add_key_bytes prefix mp indx key =
     (case key of None \<Rightarrow> 0
      | Some k \<Rightarrow> if IS_LEAF mp then fst (mdb_leaf_encoded_size (add_trunk prefix mp indx key) k) else length k)"

text \<open>The new node is the first of a prefix-compressed leaf that has another trunk.\<close>

definition need_reencode :: "bool \<Rightarrow> MDB_page \<Rightarrow> nat \<Rightarrow> bytes option \<Rightarrow> bool" where
  "need_reencode prefix mp indx key \<longleftrightarrow>
     prefix \<and> IS_LEAF mp \<and> \<not> IS_LEAF2 mp \<and> indx = 0 \<and> NUMKEYS mp > 0 \<and> key \<noteq> Some (key_at mp 0)"

text \<open>
  The old trunk as a main cursor reads it. (The other way, through the key of a parent leaf, needs
  a leaf above the page, which no page stack has.)
\<close>

definition read_old_trunk :: "node_env \<Rightarrow> bytes nd" where
  "read_old_trunk ne = (\<lambda>s.
     let mp = nd_page s; raw = key_at mp 0 in
     if length raw > MDB_KEYBUF_MAX then Some (s, Err MDB_BAD_VALSIZE)
     else if length raw > 0 then
       map_option (\<lambda>(rd, r). (s\<lparr>nd_rd := rd\<rparr>, Ok (case r of Ok k \<Rightarrow> if length k \<le> MDB_KEYBUF_MAX then k else raw | _ \<Rightarrow> raw)))
         (mdb_cursor_read_key_at ((ne_ce ne)\<lparr>ce_deref := (\<lambda>_. mp)\<rparr>) (nd_rd s) 0 0)
     else Some (s, Ok raw))"

definition node_full :: "'a nd" where
  "node_full = (\<lambda>s. Some (s\<lparr>nd_txn := mdb_txn_mark_error (nd_txn s) MDB_PAGE_FULL\<rparr>, Err MDB_PAGE_FULL))"

text \<open>Writing the node: its header, its key with the padding, and its data.\<close>

definition write_header :: "MDB_page \<Rightarrow> nat \<Rightarrow> nat \<Rightarrow> u32 \<Rightarrow> nat \<Rightarrow> nat \<Rightarrow> MDB_page" where
  "write_header mp node ksize flags dsize pgno =
     (let m = set16 (set16 (mp_mem mp) (node + 6) ksize) (node + 4) (unat (ucast flags :: u16));
          m = (if IS_LEAF mp then SETDSZ m node dsize else SETPGNO m node pgno)
      in mdb_node_set_count (mp\<lparr>mp_mem := m\<rparr>) node 0)"

definition write_key :: "bool \<Rightarrow> MDB_val \<Rightarrow> nat \<Rightarrow> nat \<Rightarrow> bytes \<Rightarrow> MDB_page \<Rightarrow> MDB_page res" where
  "write_key prefix trunk key_bytes node key mp =
     (let stored = (if IS_LEAF mp then
                      if prefix \<and> trunk \<noteq> None
                      then mdb_leaf_encode_key_fast key (the (snd (mdb_leaf_encoded_size trunk key)))
                      else fst (mdb_leaf_encode_key (if prefix then trunk else None) key)
                    else key);
          at = NODEKEY_at mp node;
          m = mem_write (mp_mem mp) at stored;
          m = (if EVEN key_bytes \<noteq> key_bytes then mem_write m (at + key_bytes) [0] else m)
      in cassert (IS_LEAF mp \<longrightarrow> length stored = key_bytes) (Ok (mp\<lparr>mp_mem := m\<rparr>)))"

text \<open>\<open>ofp\<close> is the number of the overflow page.\<close>

definition write_data :: "u32 \<Rightarrow> nat option \<Rightarrow> nat \<Rightarrow> bytes \<Rightarrow> MDB_page \<Rightarrow> MDB_page" where
  "write_data flags ofp node data mp =
     (let at = NODEDATA_at mp node in
      case ofp of
        Some pg \<Rightarrow> mp\<lparr>mp_mem := mem_write (mp_mem mp) at (le_bytes 8 pg)\<rparr>
      | None \<Rightarrow>
          if node_flag flags F_BIGDATA then mp\<lparr>mp_mem := mem_write (mp_mem mp) at (take 8 data)\<rparr>
          else if F_ISSET32 flags MDB_RESERVE then mp
          else mp\<lparr>mp_mem := mem_write (mp_mem mp) at data\<rparr>)"

text \<open>The count of a new child: given, or of the page that is given or looked up.\<close>

definition child_count :: "node_env \<Rightarrow> nat \<Rightarrow> MDB_page option \<Rightarrow> u64 option \<Rightarrow> u64 nd" where
  "child_count ne pgno child cnt = (\<lambda>s.
     case cnt of
       Some c \<Rightarrow> Some (s, Ok c)
     | None \<Rightarrow>
         (case child of
            Some cp \<Rightarrow> Some (s, Ok (mdb_page_subtree_count cp))
          | None \<Rightarrow>
              if pgno \<noteq> 0 then
                case mdb_page_get (nd_txn s) (ne_own_map ne) pgno of (txn, r) \<Rightarrow>
                  Some (s\<lparr>nd_txn := txn\<rparr>, Ok (case r of Ok (a, _) \<Rightarrow> mdb_page_subtree_count (ce_deref (ne_ce ne) a) | _ \<Rightarrow> 0))
              else Some (s, Ok 0)))"

text \<open>The stride after the node is written, with the entry of the stride cache if it was prepared.\<close>

definition add_stride :: "node_env \<Rightarrow> nat option \<Rightarrow> nat \<Rightarrow> bytes option \<Rightarrow> unit nd" where
  "add_stride ne stride indx key = (\<lambda>s.
     let mp = nd_page s; rb = nd_rb s; prefix = nd_prefix ne in
     if \<not> prefix then Some (set_page (mdb_prefix_leaf_store_stride prefix mp 0) s, Ok ())
     else case stride of
       Some i \<Rightarrow>
         (case mdb_prefix_stride_apply_insert (ne_alloc ne) prefix (sc_entries (rs_cache rb) ! i) mp indx
               (case key of Some k \<Rightarrow> length k | None \<Rightarrow> 0) of
            None \<Rightarrow> None
          | Some (Ok (e, mp)) \<Rightarrow>
              Some (s\<lparr>nd_rb := rb\<lparr>rs_page := mp, rs_cache := (rs_cache rb)\<lparr>sc_entries := (sc_entries (rs_cache rb))[i := e]\<rparr>\<rparr>\<rparr>, Ok ())
          | Some (Err x) \<Rightarrow> Some (s, Err x)
          | Some Abort \<Rightarrow> Some (s, Abort))
     | None \<Rightarrow>
         (case key of
            None \<Rightarrow> Some (s, Ok ())
          | Some k \<Rightarrow>
              Some (set_page
                (if mp_pad mp = 0
                 then if NUMKEYS mp = 1 then mdb_prefix_leaf_store_stride prefix mp (length k) else mdb_prefix_leaf_refresh_stride prefix mp
                 else if length k > mp_pad mp then mdb_prefix_leaf_store_stride prefix mp (length k) else mp) s, Ok ())))"

text \<open>The part after the label \<open>update\<close>. The content of the overflow page is the caller's part.\<close>

definition add_update ::
    "node_env \<Rightarrow> nat \<Rightarrow> bytes option \<Rightarrow> MDB_val \<Rightarrow> nat \<Rightarrow> u32 \<Rightarrow> MDB_page option \<Rightarrow> u64 option \<Rightarrow>
     MDB_val \<Rightarrow> nat \<Rightarrow> nat \<Rightarrow> nat option \<Rightarrow> nat option \<Rightarrow> unit nd" where
  "add_update ne indx key data pgno flags child cnt trunk key_bytes sz ofp stride =
     nd_bind (nd_update (\<lambda>mp. mdb_page_insert_slot mp indx sz)) (\<lambda>_.
     nd_bind (nd_update (\<lambda>mp. Ok (write_header mp (NODEPTR mp indx) (case key of None \<Rightarrow> 0 | Some _ \<Rightarrow> key_bytes) flags
       (mv_size data) pgno))) (\<lambda>_.
     nd_bind (nd_update (\<lambda>mp. case key of None \<Rightarrow> Ok mp | Some k \<Rightarrow> write_key (nd_prefix ne) trunk key_bytes (NODEPTR mp indx) k mp)) (\<lambda>_.
     nd_bind (\<lambda>s. if IS_LEAF (nd_page s) then nd_update (\<lambda>mp. Ok (write_data flags ofp (NODEPTR mp indx) (the data) mp)) s
       else Some (s, Ok ())) (\<lambda>_.
     nd_bind (\<lambda>s. if counted_branch (nd_page s) then
         nd_bind (child_count ne pgno child cnt) (\<lambda>c. nd_update (\<lambda>mp. Ok (mdb_node_set_count mp (NODEPTR mp indx) c))) s
       else Some (s, Ok ())) (\<lambda>_ s.
       if IS_LEAF (nd_page s) \<and> \<not> IS_LEAF2 (nd_page s) then add_stride ne stride indx key s else Some (s, Ok ()))))))"

text \<open>What is added to the size of a leaf node for its data, or the overflow page the data goes to.\<close>

datatype data_place = In_node nat | Overflow

definition data_place :: "MDB_env_sizes \<Rightarrow> nat \<Rightarrow> u32 \<Rightarrow> nat \<Rightarrow> data_place" where
  "data_place env sz flags dsize =
     (if node_flag flags F_BIGDATA then In_node (sz + 8)
      else if sz + dsize > me_nodemax env then
        if node_flag flags F_DUPDATA \<and> \<not> node_flag flags F_SUBDATA then In_node (sz + dsize) else Overflow
      else In_node (sz + dsize))"

text \<open>
  Re-encoding the page. Replacing a node (\<open>MDB_SPLIT_REPLACE\<close>) in the same step is outside the model,
  as is giving back the overflow page after an error.
\<close>

definition add_reencode :: "node_env \<Rightarrow> nat \<Rightarrow> bytes option \<Rightarrow> bytes \<Rightarrow> u32 \<Rightarrow> bytes \<Rightarrow> nat option \<Rightarrow> unit nd" where
  "add_reencode ne indx key data flags old_trunk ofp =
     (if F_ISSET32 flags MDB_SPLIT_REPLACE then (\<lambda>s. None)
      else nd_rebuild (mdb_leaf_rebuild_after_trunk_insert (ne_alloc ne) (ce_env (ne_ce ne)) (nd_prefix ne) (ne_snap0 ne) (ne_capacity ne)
        (Some old_trunk) indx (case key of Some k \<Rightarrow> k | None \<Rightarrow> []) data (ucast flags) (F_ISSET32 flags MDB_RESERVE)
        (map_option (le_bytes 8) ofp)))"

text \<open>The rest for a node that stays in the page.\<close>

definition add_inline ::
    "node_env \<Rightarrow> nat \<Rightarrow> bytes option \<Rightarrow> MDB_val \<Rightarrow> nat \<Rightarrow> u32 \<Rightarrow> MDB_page option \<Rightarrow> u64 option \<Rightarrow>
     MDB_val \<Rightarrow> nat \<Rightarrow> nat \<Rightarrow> bytes option \<Rightarrow> unit nd" where
  "add_inline ne indx key data pgno flags child cnt trunk key_bytes sz old_trunk = (\<lambda>s.
     let mp = nd_page s; room = int (SIZELEFT mp) - 2; sz = EVEN sz in
     case old_trunk of
       Some t \<Rightarrow> add_reencode ne indx key (the data) flags t None s
     | None \<Rightarrow>
         if int sz > room then node_full s
         else if nd_prefix ne \<and> IS_LEAF mp then
           case mdb_prefix_stride_prepare (ne_alloc ne) (ce_rdonly (ne_ce ne)) (nd_prefix ne) (rs_cache (nd_rb s)) mp of
             None \<Rightarrow> None
           | Some (cache, Ok (mp, stride)) \<Rightarrow>
               add_update ne indx key data pgno flags child cnt trunk key_bytes sz None stride
                 (s\<lparr>nd_rb := (nd_rb s)\<lparr>rs_cache := cache, rs_page := mp\<rparr>\<rparr>)
           | Some (cache, Err e) \<Rightarrow> Some (s\<lparr>nd_rb := (nd_rb s)\<lparr>rs_cache := cache\<rparr>\<rparr>, Err e)
           | Some (cache, Abort) \<Rightarrow> Some (s\<lparr>nd_rb := (nd_rb s)\<lparr>rs_cache := cache\<rparr>\<rparr>, Abort)
         else add_update ne indx key data pgno flags child cnt trunk key_bytes sz None None s)"

definition add_overflow ::
    "node_env \<Rightarrow> nat \<Rightarrow> bytes option \<Rightarrow> bytes \<Rightarrow> nat \<Rightarrow> u32 \<Rightarrow> MDB_val \<Rightarrow> nat \<Rightarrow> nat \<Rightarrow> bytes option \<Rightarrow> MDB_page option nd" where
  "add_overflow ne indx key data pgno flags trunk key_bytes sz old_trunk = (\<lambda>s.
     let env = ce_env (ne_ce ne); ovpages = OVPAGES (length data) (me_psize env); sz = EVEN (sz + 8); big = flags OR ucast F_BIGDATA
     in if int sz > int (SIZELEFT (nd_page s)) - 2 then node_full s
        else case mdb_page_new (ne_new ne ovpages) False (me_psize env) P_OVERFLOW ovpages of
          Err e \<Rightarrow> Some (s, Err e)
        | Abort \<Rightarrow> Some (s, Abort)
        | Ok (ofp, _) \<Rightarrow>
            let ofp = (if F_ISSET32 flags MDB_RESERVE then ofp else ofp\<lparr>mp_mem := mem_write (mp_mem ofp) PAGEHDRSZ data\<rparr>)
            in nd_bind (case old_trunk of
                 Some t \<Rightarrow> add_reencode ne indx key data big t (Some (mp_pgno ofp))
               | None \<Rightarrow> add_update ne indx key (Some data) pgno big None None trunk key_bytes sz (Some (mp_pgno ofp)) None)
                 (\<lambda>_. nd_res (Ok (Some ofp))) s)"

text \<open>The result is the overflow page the data was put on, if it was.\<close>

definition mdb_node_add ::
    "node_env \<Rightarrow> nat \<Rightarrow> bytes option \<Rightarrow> MDB_val \<Rightarrow> nat \<Rightarrow> u32 \<Rightarrow> MDB_page option \<Rightarrow> u64 option \<Rightarrow> MDB_page option nd" where
  "mdb_node_add ne indx key data pgno flags child cnt = (\<lambda>s.
     let mp = nd_page s; prefix = nd_prefix ne;
         trunk = add_trunk prefix mp indx key; key_bytes = add_key_bytes prefix mp indx key;
         sz = NODESIZE + (if counted_branch mp then 8 else 0) + EVEN key_bytes;
         unit = (\<lambda>m. nd_bind m (\<lambda>_. nd_res (Ok None)))
     in nd_bind (nd_guard (mp_upper mp \<ge> mp_lower mp)) (\<lambda>_.
          if IS_LEAF2 mp then unit (nd_update (\<lambda>mp. mdb_leaf2_add mp indx (ce_md_pad (ne_ce ne)) (the key)))
          else nd_bind (if need_reencode prefix mp indx key then nd_bind (read_old_trunk ne) (\<lambda>t. nd_res (Ok (Some t))) else nd_res (Ok None))
            (\<lambda>old_trunk.
              if IS_LEAF mp then
                nd_bind (nd_guard (key \<noteq> None \<and> data \<noteq> None)) (\<lambda>_.
                  case data_place (ce_env (ne_ce ne)) sz flags (mv_size data) of
                    Overflow \<Rightarrow> add_overflow ne indx key (the data) pgno flags trunk key_bytes sz old_trunk
                  | In_node sz \<Rightarrow> unit (add_inline ne indx key data pgno flags child cnt trunk key_bytes sz old_trunk))
              else unit (add_inline ne indx key data pgno flags child cnt trunk key_bytes sz old_trunk))) s)"

section \<open>Deleting a node\<close>

definition del_stride :: "node_env \<Rightarrow> nat option \<Rightarrow> unit nd" where
  "del_stride ne stride = (\<lambda>s.
     let mp = nd_page s; prefix = nd_prefix ne in
     Some (if \<not> prefix then set_page (mdb_prefix_leaf_store_stride prefix mp 0) s
           else if stride = None then
             set_page (if NUMKEYS mp = 0 then mdb_prefix_leaf_store_stride prefix mp 0 else mdb_prefix_leaf_refresh_stride prefix mp) s
           else s, Ok ()))"

text \<open>Removing the slot; \<open>i\<close> is the entry of the stride cache, when there is one.\<close>

definition del_slot :: "node_env \<Rightarrow> nat \<Rightarrow> nat option \<Rightarrow> unit nd" where
  "del_slot ne indx stride = (\<lambda>s.
     let rb = nd_rb s; mp = rs_page rb; sz = node_size mp (NODEPTR mp indx);
         rb = (case stride of None \<Rightarrow> rb
           | Some i \<Rightarrow> (case mdb_prefix_stride_apply_delete (nd_prefix ne) (sc_entries (rs_cache rb) ! i) mp indx of (e, mp) \<Rightarrow>
               rb\<lparr>rs_page := mp, rs_cache := (rs_cache rb)\<lparr>sc_entries := (sc_entries (rs_cache rb))[i := e]\<rparr>\<rparr>))
     in nd_bind (nd_update (\<lambda>mp. mdb_page_remove_slot mp indx sz)) (\<lambda>_ s.
          if IS_LEAF (nd_page s) \<and> \<not> IS_LEAF2 (nd_page s) then del_stride ne stride s else Some (s, Ok ()))
        (s\<lparr>nd_rb := rb\<rparr>))"

text \<open>The result of a failed rebuild is the error mark of the transaction; the function returns nothing.\<close>

definition mdb_node_del :: "node_env \<Rightarrow> nat \<Rightarrow> nat \<Rightarrow> unit nd" where
  "mdb_node_del ne ksize indx = (\<lambda>s.
     let mp = nd_page s; numkeys = NUMKEYS mp; prefix = nd_prefix ne in
     nd_bind (nd_guard (indx < numkeys)) (\<lambda>_ s.
       if prefix \<and> IS_LEAF mp \<and> \<not> IS_LEAF2 mp \<and> indx = 0 then
         nd_bind (nd_guard (ksize_at mp 0 \<le> MDB_KEYBUF_MAX)) (\<lambda>_ s.
           case nd_rebuild (mdb_leaf_rebuild_after_trunk_delete (ne_alloc ne) (ce_env (ne_ce ne)) prefix (ne_snap0 ne) (ne_capacity ne)
               indx (Some (key_at mp 0))) s of
             Some (s, Err e) \<Rightarrow> Some (s\<lparr>nd_txn := mdb_txn_mark_error (nd_txn s) e\<rparr>, Ok ())
           | r \<Rightarrow> r) s
       else if prefix \<and> IS_LEAF mp \<and> \<not> IS_LEAF2 mp then
         case mdb_prefix_stride_prepare (ne_alloc ne) (ce_rdonly (ne_ce ne)) prefix (rs_cache (nd_rb s)) mp of
           None \<Rightarrow> None
         | Some (cache, Ok (mp, stride)) \<Rightarrow> del_slot ne indx stride (s\<lparr>nd_rb := (nd_rb s)\<lparr>rs_cache := cache, rs_page := mp\<rparr>\<rparr>)
         | Some (cache, Err e) \<Rightarrow> del_slot ne indx None (s\<lparr>nd_rb := (nd_rb s)\<lparr>rs_cache := cache\<rparr>\<rparr>)
         | Some (cache, Abort) \<Rightarrow> Some (s\<lparr>nd_rb := (nd_rb s)\<lparr>rs_cache := cache\<rparr>\<rparr>, Abort)
       else if IS_LEAF2 mp then nd_update (\<lambda>mp. Ok (leaf2_del mp indx ksize)) s
       else del_slot ne indx None s) s)"

end
