(* ===== verification/Node_Ops_Correct.thy ===== *)
theory Node_Ops_Correct
  imports Node_Ops
begin

text \<open>
  What \<open>mdb_node_add\<close> and \<open>mdb_node_del\<close> do to the nodes of a page: one node is inserted into, or removed
  from, the list of nodes, and the page stays well-formed.
\<close>

section \<open>Pages with the same nodes\<close>

lemma node_same:
  assumes l: "plain_leaf mp" "mp_flags mp = mp_flags mp'" and j: "j < NUMKEYS mp" "k < NUMKEYS mp'"
    and eq: "page_nodes mp ! j = page_nodes mp' ! k"
  shows "leaf_node_at mp j = leaf_node_at mp' k"
proof (rule leaf_node_cong(1)[OF l])
  have r: "mem_read (mp_mem mp) (mp_ptrs mp j) (node_size mp (mp_ptrs mp j)) = mem_read (mp_mem mp') (mp_ptrs mp' k) (node_size mp' (mp_ptrs mp' k))"
    using eq j by (simp add: nth_page_nodes)
  from arg_cong[OF this, of length] have "node_size mp (mp_ptrs mp j) = node_size mp' (mp_ptrs mp' k)" by simp
  then show "mem_read (mp_mem mp) (NODEPTR mp j) (node_size mp (NODEPTR mp j)) = mem_read (mp_mem mp') (NODEPTR mp' k) (node_size mp (NODEPTR mp j))"
    using r by (simp add: NODEPTR_def)
qed

lemma length_stored_nodes [simp]: "length (stored_nodes mp) = NUMKEYS mp"
  by (simp add: stored_nodes_def)

lemma nth_stored_nodes: "j < NUMKEYS mp \<Longrightarrow> stored_nodes mp ! j = leaf_node_at mp j"
  by (simp add: stored_nodes_def)

lemma stored_remove:
  assumes l: "plain_leaf mp" "mp_flags mp' = mp_flags mp" and i: "i < NUMKEYS mp"
    and n: "page_nodes mp' = remove_at i (page_nodes mp)"
  shows "stored_nodes mp' = remove_at i (stored_nodes mp)"
proof (rule nth_equalityI)
  have k: "NUMKEYS mp' = NUMKEYS mp - 1" using arg_cong[OF n, of length] i by simp
  then show "length (stored_nodes mp') = length (remove_at i (stored_nodes mp))" using i by simp
  fix j assume "j < length (stored_nodes mp')"
  then have j: "j < NUMKEYS mp'" by simp
  have l': "plain_leaf mp'" using l plain_leaf_cong[of mp mp'] by simp
  have "leaf_node_at mp' j = leaf_node_at mp (if j < i then j else Suc j)"
    by (rule node_same[OF l' l(2) j]) (use j k i n in \<open>auto simp: nth_remove_at\<close>)
  then show "stored_nodes mp' ! j = remove_at i (stored_nodes mp) ! j"
    using j k i by (auto simp: nth_stored_nodes nth_remove_at)
qed

lemma stored_insert:
  assumes l: "plain_leaf mp" "mp_flags mp' = mp_flags mp" and i: "i \<le> NUMKEYS mp"
    and n: "page_nodes mp' = insert_at i b (page_nodes mp)"
  shows "stored_nodes mp' = insert_at i (leaf_node_at mp' i) (stored_nodes mp)"
proof (rule nth_equalityI)
  have k: "NUMKEYS mp' = Suc (NUMKEYS mp)" using arg_cong[OF n, of length] i by simp
  then show "length (stored_nodes mp') = length (insert_at i (leaf_node_at mp' i) (stored_nodes mp))" using i by simp
  fix j assume "j < length (stored_nodes mp')"
  then have j: "j < NUMKEYS mp'" by simp
  have l': "plain_leaf mp'" using l plain_leaf_cong[of mp mp'] by simp
  have "leaf_node_at mp' j = leaf_node_at mp (if j < i then j else j - 1)" if "j \<noteq> i"
    by (rule node_same[OF l' l(2) j]) (use j k i n that in \<open>auto simp: nth_insert_at\<close>)
  then show "stored_nodes mp' ! j = insert_at i (leaf_node_at mp' i) (stored_nodes mp) ! j"
    using j k i by (auto simp: nth_stored_nodes nth_insert_at)
qed

section \<open>Writing into a new slot\<close>

lemma insert_written:
  assumes wf: "page_wf psize mp" and i: "i \<le> NUMKEYS mp" and sz: "0 < sz" and room: "sz + 2 \<le> mp_upper mp - mp_lower mp"
    and m: "\<And>x. x < mp_upper mp - sz \<or> mp_upper mp \<le> x \<Longrightarrow> m x = mp_mem mp x"
  obtains mp1 where "mdb_page_insert_slot mp i sz = Ok mp1" "NODEPTR mp1 i = mp_upper mp - sz" "mp_mem mp1 = mp_mem mp"
    "mp_flags mp1 = mp_flags mp" "mp_pgno mp1 = mp_pgno mp" "mp_pad mp1 = mp_pad mp" "NUMKEYS mp1 = NUMKEYS mp + 1"
    "SIZELEFT mp1 = SIZELEFT mp - sz - 2"
    "node_size (mp1\<lparr>mp_mem := m\<rparr>) (mp_upper mp - sz) = sz \<Longrightarrow>
       page_wf psize (mp1\<lparr>mp_mem := m\<rparr>) \<and> page_nodes (mp1\<lparr>mp_mem := m\<rparr>) = insert_at i (mem_read m (mp_upper mp - sz) sz) (page_nodes mp)"
proof -
  let ?len = "\<lambda>i. node_size mp (mp_ptrs mp i)"
  note W = slots_wfD[OF wf[unfolded page_wf_def]]
  obtain mp1 where ok: "mdb_page_insert_slot mp i sz = Ok mp1"
    and fl: "mp_flags mp1 = mp_flags mp" "mp_pgno mp1 = mp_pgno mp" "mp_pad mp1 = mp_pad mp" "mp_mem mp1 = mp_mem mp"
    and lu: "mp_lower mp1 = mp_lower mp + 2" "mp_upper mp1 = mp_upper mp - sz" and n: "NUMKEYS mp1 = NUMKEYS mp + 1"
    and p: "\<And>j. j \<le> NUMKEYS mp \<Longrightarrow> mp_ptrs mp1 j = (if j < i then mp_ptrs mp j else if j = i then mp_upper mp - sz else mp_ptrs mp (j - 1))"
    and wf1: "slots_wf psize (insert_len i sz ?len) mp1"
    by (rule insert_slot_spec[OF wf[unfolded page_wf_def] i sz room]) blast
  have left: "SIZELEFT mp1 = SIZELEFT mp - sz - 2"
    using W(1,4,5) room by (simp add: SIZELEFT_def lu u16_sub_le)
  define mp2 where "mp2 = mp1\<lparr>mp_mem := m\<rparr>"
  have n2: "NUMKEYS mp2 = NUMKEYS mp + 1" and ptr2: "mp_ptrs mp2 = mp_ptrs mp1" and fl2: "mp_flags mp2 = mp_flags mp"
    using n fl by (simp_all add: mp2_def NUMKEYS_def)
  have old: "mem_read m (mp_ptrs mp j) k = mem_read (mp_mem mp) (mp_ptrs mp j) k" if "j < NUMKEYS mp" for j k
    by (rule mem_read_cong) (use W(7)[OF that] m in simp)
  have size_old: "node_size mp2 (mp_ptrs mp j) = ?len j" if "j < NUMKEYS mp" for j
    by (rule node_size_cong) (use old[OF that] fl2 in \<open>simp_all add: mp2_def\<close>)
  have "page_wf psize mp2 \<and> page_nodes mp2 = insert_at i (mem_read m (mp_upper mp - sz) sz) (page_nodes mp)"
    if new: "node_size mp2 (mp_upper mp - sz) = sz"
  proof
    have len: "node_size mp2 (mp_ptrs mp2 j) = insert_len i sz ?len j" if "j < NUMKEYS mp2" for j
      using that i new size_old[of j] size_old[of "j - 1"] p[of j] by (auto simp: n2 ptr2 insert_len_def)
    have "slots_wf psize (insert_len i sz ?len) mp2" using wf1 by (simp add: slots_wf_def mp2_def NUMKEYS_def)
    then show "page_wf psize mp2" unfolding page_wf_def slots_wf_def by (simp add: len)
    show "page_nodes mp2 = insert_at i (mem_read m (mp_upper mp - sz) sz) (page_nodes mp)"
    proof (rule nth_equalityI)
      show "length (page_nodes mp2) = length (insert_at i (mem_read m (mp_upper mp - sz) sz) (page_nodes mp))" using i n2 by simp
      fix j assume "j < length (page_nodes mp2)"
      then have j: "j < NUMKEYS mp2" by simp
      then show "page_nodes mp2 ! j = insert_at i (mem_read m (mp_upper mp - sz) sz) (page_nodes mp) ! j"
        using i p[of j] len[OF j] old[of j] old[of "j - 1"]
        by (auto simp: nth_page_nodes nth_insert_at n2 ptr2 insert_len_def) (auto simp: mp2_def)
    qed
  qed
  then show thesis using that[OF ok _ fl(4,1,2,3) n left] p[OF i] unfolding mp2_def by (simp add: NODEPTR_def)
qed

section \<open>Writing a leaf node\<close>

definition leaf_mem :: "mem \<Rightarrow> nat \<Rightarrow> u16 \<Rightarrow> nat \<Rightarrow> bytes \<Rightarrow> bytes \<Rightarrow> mem" where
  "leaf_mem m ofs fl ds stored d =
     (let kb = length stored;
          m1 = mem_write (SETDSZ (set16 (set16 m (ofs + 6) kb) (ofs + 4) (unat fl)) ofs ds) (ofs + 8) stored;
          m2 = (if EVEN kb \<noteq> kb then mem_write m1 (ofs + 8 + kb) [0] else m1)
      in mem_write m2 (ofs + 8 + EVEN kb) d)"

lemma EVEN_pad: "EVEN n \<noteq> n \<Longrightarrow> EVEN n = n + 1"
  by (auto simp: EVEN_def)

lemma leaf_mem_fields:
  assumes k: "length stored < 65536" and ds: "ds < 2 ^ 32"
  shows "mn_ksize (leaf_mem m ofs fl ds stored d) ofs = length stored"
    "mn_flags (leaf_mem m ofs fl ds stored d) ofs = fl"
    "mn_lo (leaf_mem m ofs fl ds stored d) ofs + mn_hi (leaf_mem m ofs fl ds stored d) ofs * 2 ^ 16 = ds"
    "mem_read (leaf_mem m ofs fl ds stored d) (ofs + 8) (length stored) = stored"
    "mem_read (leaf_mem m ofs fl ds stored d) (ofs + 8 + EVEN (length stored)) (length d) = d"
    "x < ofs \<or> ofs + (8 + EVEN (length stored) + length d) \<le> x \<Longrightarrow> leaf_mem m ofs fl ds stored d x = m x"
proof -
  have ge: "length stored \<le> EVEN (length stored)" by (rule EVEN_ge)
  have f: "unat fl < 65536" using unsigned_less[of fl] by simp
  show "mn_ksize (leaf_mem m ofs fl ds stored d) ofs = length stored"
    using k by (simp add: leaf_mem_def Let_def mn_ksize_def SETDSZ_def mem_simps)
  show "mn_flags (leaf_mem m ofs fl ds stored d) ofs = fl"
    using f by (simp add: leaf_mem_def Let_def mn_flags_def SETDSZ_def mem_simps)
  have "ds div 65536 < 65536" using ds by (simp add: div_less_iff_less_mult)
  then show "mn_lo (leaf_mem m ofs fl ds stored d) ofs + mn_hi (leaf_mem m ofs fl ds stored d) ofs * 2 ^ 16 = ds"
    by (simp add: leaf_mem_def Let_def mn_lo_def mn_hi_def SETDSZ_def mem_simps)
  show "mem_read (leaf_mem m ofs fl ds stored d) (ofs + 8) (length stored) = stored"
    using ge by (simp add: leaf_mem_def Let_def mem_simps)
  show "mem_read (leaf_mem m ofs fl ds stored d) (ofs + 8 + EVEN (length stored)) (length d) = d"
    by (simp add: leaf_mem_def Let_def mem_simps)
  assume x: "x < ofs \<or> ofs + (8 + EVEN (length stored) + length d) \<le> x"
  then show "leaf_mem m ofs fl ds stored d x = m x"
    using ge EVEN_pad[of "length stored"] by (auto simp: leaf_mem_def Let_def SETDSZ_def set16_def mem_write_apply_other)
qed

lemma leaf_mem_node:
  assumes l: "plain_leaf mp" and p: "NODEPTR mp i = ofs" and k: "length stored < 65536" and ds: "ds < 2 ^ 32"
    and d: "length d = (if F_ISSET fl F_BIGDATA then 8 else ds)" and m: "mp_mem mp = leaf_mem m ofs fl ds stored d"
  shows "leaf_node_at mp i = \<lparr>ln_key = stored, ln_flags = fl, ln_size = ds, ln_data = d\<rparr>"
    "node_size mp ofs = EVEN (8 + EVEN (length stored) + length d)"
proof -
  note F = leaf_mem_fields[OF k ds, where m = m and ofs = ofs and fl = fl and d = d]
  have dsz: "NODEDSZ mp ofs = ds" using F(3) by (simp add: NODEDSZ_def m)
  have pl: "data_payload mp ofs = length d" by (simp add: data_payload_def m F(2) dsz d)
  show "node_size mp ofs = EVEN (8 + EVEN (length stored) + length d)"
    using node_size_leaf[OF l, of ofs] F(1) by (simp add: m pl)
  have nk: "NODEKEY_at mp ofs = ofs + 8" using l by (simp add: NODEKEY_at_def plain_leaf_def NODESIZE_def)
  show "leaf_node_at mp i = \<lparr>ln_key = stored, ln_flags = fl, ln_size = ds, ln_data = d\<rparr>"
    using p F(1,2,4,5) by (simp add: leaf_node_at_def key_at_def NODEKEY_def nk dsz pl NODEDATA_at_def NODESIZE_def m)
qed

text \<open>What \<open>mdb_node_add\<close> stores of a key, and of the data.\<close>

definition added_key :: "bool \<Rightarrow> MDB_val \<Rightarrow> bytes \<Rightarrow> bytes" where
  "added_key prefix trunk key = (case trunk of Some t \<Rightarrow> if prefix then enc t key else key | None \<Rightarrow> key)"

definition added_data :: "u32 \<Rightarrow> nat option \<Rightarrow> bytes \<Rightarrow> bytes" where
  "added_data flags ofp data =
     (case ofp of Some pg \<Rightarrow> le_bytes 8 pg | None \<Rightarrow> if node_flag flags F_BIGDATA then take 8 data else data)"

lemma bind_res_Ok: "bind_res m f = Ok y \<longleftrightarrow> (\<exists>x. m = Ok x \<and> f x = Ok y)"
  by (cases m) (simp_all add: bind_res_def)

lemma write_leaf:
  assumes l: "plain_leaf mp" and k: "length (added_key prefix trunk key) = kb" "kb < 65536" and ds: "length data < 2 ^ 32"
    and nores: "\<not> F_ISSET32 flags MDB_RESERVE"
  shows "bind_res (write_key prefix trunk kb node key (write_header mp node kb flags (length data) pgno)) (\<lambda>mp. Ok (write_data flags ofp node data mp)) =
    Ok (mp\<lparr>mp_mem := leaf_mem (mp_mem mp) node (ucast flags) (length data) (added_key prefix trunk key) (added_data flags ofp data)\<rparr>)"
proof -
  have f: "IS_LEAF mp" "\<not> counted_branch mp" using l by (simp_all add: plain_leaf_def)
  let ?m1 = "SETDSZ (set16 (set16 (mp_mem mp) (node + 6) kb) (node + 4) (unat (ucast flags :: u16))) node (length data)"
  let ?st = "added_key prefix trunk key"
  have h: "write_header mp node kb flags (length data) pgno = mp\<lparr>mp_mem := ?m1\<rparr>"
    using f by (auto simp: write_header_def Let_def mdb_node_set_count_def counted_branch_def IS_BRANCH_def IS_COUNTED_def)
  have st: "(if prefix \<and> trunk \<noteq> None then mdb_leaf_encode_key_fast key (the (snd (mdb_leaf_encoded_size trunk key)))
      else fst (mdb_leaf_encode_key (if prefix then trunk else None) key)) = ?st"
    by (cases trunk) (simp_all add: added_key_def mdb_leaf_encoded_size_def mdb_leaf_encode_key_def Let_def encode_fast_shared)
  define m2 where "m2 = (let m = mem_write ?m1 (node + 8) ?st in if EVEN kb \<noteq> kb then mem_write m (node + 8 + kb) [0] else m)"
  have fl: "IS_LEAF (mp\<lparr>mp_mem := m\<rparr>)" "\<not> counted_branch (mp\<lparr>mp_mem := m\<rparr>)" for m
    using f by (simp_all add: IS_LEAF_def counted_branch_def IS_BRANCH_def IS_COUNTED_def)
  have w: "write_key prefix trunk kb node key (mp\<lparr>mp_mem := ?m1\<rparr>) = Ok (mp\<lparr>mp_mem := m2\<rparr>)"
    using k(1) fl unfolding write_key_def Let_def st m2_def by (simp add: NODEKEY_at_def NODESIZE_def)
  have ks: "mn_ksize m2 node = kb"
    using k by (simp add: m2_def Let_def mn_ksize_def SETDSZ_def mem_simps)
  have "write_data flags ofp node data (mp\<lparr>mp_mem := m2\<rparr>) = mp\<lparr>mp_mem := mem_write m2 (node + 8 + EVEN kb) (added_data flags ofp data)\<rparr>"
    using nores by (simp add: write_data_def Let_def added_data_def NODEDATA_at_def NODESIZE_def ks split: option.splits)
  then show ?thesis unfolding h w using k(1) by (simp add: leaf_mem_def m2_def Let_def)
qed

lemma write_key_same:
  "write_key prefix trunk kb node key mp = Ok mp2 \<Longrightarrow> mp_flags mp2 = mp_flags mp \<and> mp_ptrs mp2 = mp_ptrs mp"
  unfolding write_key_def Let_def cassert_Ok_iff by auto

lemma write_header_same:
  "mp_flags (write_header mp node ks flags ds pgno) = mp_flags mp \<and> mp_ptrs (write_header mp node ks flags ds pgno) = mp_ptrs mp"
  by (simp add: write_header_def Let_def mdb_node_set_count_def)

lemma nd_update_simps:
  "f (nd_page s) = Ok mp \<Longrightarrow> nd_bind (nd_update f) g s = g () (set_page mp s)"
  "f (nd_page s) = Err e \<Longrightarrow> nd_bind (nd_update f) g s = Some (s, Err e)"
  "f (nd_page s) = Abort \<Longrightarrow> nd_bind (nd_update f) g s = Some (s, Abort)"
  by (simp_all add: nd_bind_def nd_update_def)

lemma set_page_simps [simp]: "nd_page (set_page mp s) = mp" "set_page mp (set_page mp' s) = set_page mp s"
  "nd_rd (set_page mp s) = nd_rd s" "nd_txn (set_page mp s) = nd_txn s" "rs_cache (nd_rb (set_page mp s)) = rs_cache (nd_rb s)"
  "rs_scratch (nd_rb (set_page mp s)) = rs_scratch (nd_rb s)"
  by (simp_all add: set_page_def)

lemma add_update_leaf:
  assumes wf: "page_wf cap (nd_page s)" and l: "plain_leaf (nd_page s)" and i: "i \<le> NUMKEYS (nd_page s)"
    and k: "length (added_key (nd_prefix ne) trunk key) = kb" "kb < 65536" and ds: "length data < 2 ^ 32" and nores: "\<not> F_ISSET32 flags MDB_RESERVE"
    and d: "length (added_data flags ofp data) = (if node_flag flags F_BIGDATA then 8 else length data)"
    and sz: "sz = EVEN (8 + EVEN kb + length (added_data flags ofp data))"
    and room: "sz + 2 \<le> mp_upper (nd_page s) - mp_lower (nd_page s)"
  obtains mp' where "add_update ne i (Some key) (Some data) pgno flags child cnt trunk kb sz ofp stride s =
      add_stride ne stride i (Some key) (set_page mp' s)"
    "page_wf cap mp'" "NUMKEYS mp' = NUMKEYS (nd_page s) + 1" "mp_flags mp' = mp_flags (nd_page s)" "mp_pgno mp' = mp_pgno (nd_page s)"
    "mp_pad mp' = mp_pad (nd_page s)" "SIZELEFT mp' = SIZELEFT (nd_page s) - sz - 2"
    "stored_nodes mp' = insert_at i \<lparr>ln_key = added_key (nd_prefix ne) trunk key, ln_flags = ucast flags, ln_size = length data,
        ln_data = added_data flags ofp data\<rparr> (stored_nodes (nd_page s))"
proof -
  define mp where "mp = nd_page s"
  let ?ofs = "mp_upper mp - sz" and ?st = "added_key (nd_prefix ne) trunk key" and ?d = "added_data flags ofp data"
  let ?m = "leaf_mem (mp_mem mp) ?ofs (ucast flags) (length data) ?st ?d"
  have psz: "0 < sz" using EVEN_ge[of "8 + EVEN kb + length ?d"] by (simp add: sz)
  have k': "length ?st < 65536" using k by simp
  have le: "8 + EVEN kb + length ?d \<le> sz" by (simp add: sz EVEN_ge)
  have m: "?m x = mp_mem mp x" if "x < ?ofs \<or> mp_upper mp \<le> x" for x
    by (rule leaf_mem_fields(6)[OF k' ds]) (use that le room k(1) mp_def in auto)
  obtain mp1 where mp1: "mdb_page_insert_slot mp i sz = Ok mp1" "NODEPTR mp1 i = ?ofs" "mp_mem mp1 = mp_mem mp"
    "mp_flags mp1 = mp_flags mp" "mp_pgno mp1 = mp_pgno mp" "mp_pad mp1 = mp_pad mp" "NUMKEYS mp1 = NUMKEYS mp + 1"
    "SIZELEFT mp1 = SIZELEFT mp - sz - 2"
    and fin: "node_size (mp1\<lparr>mp_mem := ?m\<rparr>) ?ofs = sz \<Longrightarrow>
       page_wf cap (mp1\<lparr>mp_mem := ?m\<rparr>) \<and> page_nodes (mp1\<lparr>mp_mem := ?m\<rparr>) = insert_at i (mem_read ?m ?ofs sz) (page_nodes mp)"
    using insert_written[OF wf[folded mp_def] i[folded mp_def] psz room[folded mp_def] m] by blast
  define mp' where "mp' = mp1\<lparr>mp_mem := ?m\<rparr>"
  have l1: "plain_leaf mp1" "plain_leaf mp'" using l mp1(4) plain_leaf_cong[of mp mp1] plain_leaf_cong[of mp mp'] by (simp_all add: mp'_def mp_def)
  have ptr: "NODEPTR mp' i = ?ofs" using mp1(2) by (simp add: mp'_def NODEPTR_def)
  note node = leaf_mem_node[OF l1(2) ptr k' ds d, where m = "mp_mem mp"]
  have nd: "leaf_node_at mp' i = \<lparr>ln_key = ?st, ln_flags = ucast flags, ln_size = length data, ln_data = ?d\<rparr>" "node_size mp' ?ofs = sz"
    using node by (simp_all add: mp'_def sz k(1))
  have res: "page_wf cap mp'" "page_nodes mp' = insert_at i (mem_read ?m ?ofs sz) (page_nodes mp)"
    using fin[folded mp'_def, OF nd(2)] by simp_all
  have "stored_nodes mp' = insert_at i (leaf_node_at mp' i) (stored_nodes mp)"
    by (rule stored_insert[OF _ _ _ res(2)]) (use l i mp1 in \<open>simp_all add: mp_def mp'_def\<close>)
  then have st: "stored_nodes mp' = insert_at i \<lparr>ln_key = ?st, ln_flags = ucast flags, ln_size = length data, ln_data = ?d\<rparr> (stored_nodes mp)"
    unfolding nd(1) .
  have wr: "bind_res (write_key (nd_prefix ne) trunk kb ?ofs key (write_header mp1 ?ofs kb flags (length data) pgno))
      (\<lambda>mp. Ok (write_data flags ofp ?ofs data mp)) = Ok mp'"
    using write_leaf[OF l1(1) k ds nores, of ?ofs pgno ofp] by (simp add: mp'_def mp1(3))
  then obtain mp2 where mp2: "write_key (nd_prefix ne) trunk kb ?ofs key (write_header mp1 ?ofs kb flags (length data) pgno) = Ok mp2"
    "write_data flags ofp ?ofs data mp2 = mp'" unfolding bind_res_Ok by (metis res.inject(1))
  define mph where "mph = write_header mp1 ?ofs kb flags (length data) pgno"
  have ph: "NODEPTR mph i = ?ofs" using mp1(2) by (simp add: mph_def write_header_def Let_def mdb_node_set_count_def NODEPTR_def)
  have f2: "mp_flags mp2 = mp_flags mp1" "mp_ptrs mp2 = mp_ptrs mp1"
    using write_key_same[OF mp2(1)] write_header_same[of mp1 ?ofs kb flags "length data" pgno] by simp_all
  have p2: "NODEPTR mp2 i = ?ofs" "IS_LEAF mp2" using f2 mp1(2) l1 by (simp_all add: NODEPTR_def plain_leaf_def IS_LEAF_def)
  have f': "IS_LEAF mp'" "\<not> counted_branch mp'" "\<not> IS_LEAF2 mp'" using l1(2) by (simp_all add: plain_leaf_def)
  let ?s1 = "set_page mp1 s" and ?s2 = "set_page mph s" and ?s3 = "set_page mp2 s"
  have u1: "mdb_page_insert_slot (nd_page s) i sz = Ok mp1" using mp1(1) by (simp add: mp_def)
  have u2: "Ok (write_header (nd_page ?s1) (NODEPTR (nd_page ?s1) i) (case Some key of None \<Rightarrow> 0 | Some _ \<Rightarrow> kb) flags (mv_size (Some data)) pgno) = Ok mph"
    by (simp add: mph_def mp1(2))
  have u3: "(case Some key of None \<Rightarrow> Ok (nd_page ?s2) | Some k \<Rightarrow> write_key (nd_prefix ne) trunk kb (NODEPTR (nd_page ?s2) i) k (nd_page ?s2)) = Ok mp2"
    using mp2(1) by (simp add: ph flip: mph_def)
  have u4: "Ok (write_data flags ofp (NODEPTR (nd_page ?s3) i) (the (Some data)) (nd_page ?s3)) = Ok mp'"
    by (simp add: p2(1) mp2(2))
  have u4': "nd_bind (\<lambda>s. if IS_LEAF (nd_page s) then nd_update (\<lambda>mp. Ok (write_data flags ofp (NODEPTR mp i) (the (Some data)) mp)) s
       else Some (s, Ok ())) g ?s3 = g () (set_page mp' s)" for g :: "unit \<Rightarrow> unit nd"
    using nd_update_simps(1)[where f = "\<lambda>mp. Ok (write_data flags ofp (NODEPTR mp i) (the (Some data)) mp)", OF u4, of g] p2(2)
    by (simp add: nd_bind_def)
  have u5: "nd_bind (\<lambda>s. if counted_branch (nd_page s) then m s else Some (s, Ok ())) g (set_page mp' s) = g () (set_page mp' s)"
    for m :: "unit nd" and g :: "unit \<Rightarrow> unit nd" using f'(2) by (simp add: nd_bind_def)
  have run: "add_update ne i (Some key) (Some data) pgno flags child cnt trunk kb sz ofp stride s = add_stride ne stride i (Some key) (set_page mp' s)"
    unfolding add_update_def nd_update_simps(1)[where f = "\<lambda>mp. mdb_page_insert_slot mp i sz", OF u1]
      nd_update_simps(1)[where f = "\<lambda>mp. Ok (write_header mp (NODEPTR mp i) (case Some key of None \<Rightarrow> 0 | Some _ \<Rightarrow> kb) flags (mv_size (Some data)) pgno)", OF u2]
      set_page_simps(2)
      nd_update_simps(1)[where f = "\<lambda>mp. case Some key of None \<Rightarrow> Ok mp | Some k \<Rightarrow> write_key (nd_prefix ne) trunk kb (NODEPTR mp i) k mp", OF u3]
      u4' u5 using f' by simp
  show thesis
    by (rule that[OF run res(1)]) (use mp1 st in \<open>simp_all add: mp'_def mp_def NUMKEYS_def SIZELEFT_def\<close>)
qed

section \<open>The nodes of a leaf as the database sees them\<close>

definition page_view :: "bool \<Rightarrow> MDB_page \<Rightarrow> leaf_node list" where
  "page_view prefix mp = (if prefix then leaf_view mp else stored_nodes mp)"

definition leaf_page :: "bool \<Rightarrow> nat \<Rightarrow> MDB_page \<Rightarrow> bool" where
  "leaf_page prefix cap mp \<longleftrightarrow> page_wf cap mp \<and> plain_leaf mp \<and> (prefix \<longrightarrow> (\<forall>n\<in>set (leaf_view mp). small_key (ln_key n)))"

lemma length_page_view [simp]: "length (page_view prefix mp) = NUMKEYS mp"
  by (simp add: page_view_def)

lemma leaf_pageD:
  assumes "leaf_page prefix cap mp"
  shows "page_wf cap mp" "plain_leaf mp" "IS_LEAF mp" "\<not> IS_LEAF2 mp" "\<not> counted_branch mp" "mp_lower mp \<le> mp_upper mp" "cap < 65536"
  using assms slots_wfD(1,4) by (auto simp: leaf_page_def plain_leaf_def page_wf_def)

lemma leaf_page_prefix: "leaf_page True cap mp \<longleftrightarrow> prefix_page cap mp"
  by (simp add: leaf_page_def prefix_page_def)

lemma leaf_view_logical: "leaf_view mp = map (\<lambda>(i, n). logical_node (key_at mp 0) i n) (zip [0..<NUMKEYS mp] (stored_nodes mp))"
  by (rule nth_equalityI) (simp_all add: leaf_view_def nth_stored_nodes)

text \<open>The stride field of a page does not matter.\<close>

lemma pad_same [simp]:
  "NUMKEYS (mp\<lparr>mp_pad := x\<rparr>) = NUMKEYS mp" "page_wf cap (mp\<lparr>mp_pad := x\<rparr>) = page_wf cap mp" "plain_leaf (mp\<lparr>mp_pad := x\<rparr>) = plain_leaf mp"
  "stored_nodes (mp\<lparr>mp_pad := x\<rparr>) = stored_nodes mp" "leaf_view (mp\<lparr>mp_pad := x\<rparr>) = leaf_view mp" "SIZELEFT (mp\<lparr>mp_pad := x\<rparr>) = SIZELEFT mp"
  "page_view prefix (mp\<lparr>mp_pad := x\<rparr>) = page_view prefix mp" "leaf_page prefix cap (mp\<lparr>mp_pad := x\<rparr>) = leaf_page prefix cap mp"
  "key_at (mp\<lparr>mp_pad := x\<rparr>) i = key_at mp i" "page_nodes (mp\<lparr>mp_pad := x\<rparr>) = page_nodes mp"
proof -
  have n: "NUMKEYS (mp\<lparr>mp_pad := x\<rparr>) = NUMKEYS mp" by (simp add: NUMKEYS_def)
  have sz: "node_size (mp\<lparr>mp_pad := x\<rparr>) a = node_size mp a" for a by (rule node_size_cong) simp_all
  have p: "plain_leaf (mp\<lparr>mp_pad := x\<rparr>) = plain_leaf mp" by (rule plain_leaf_cong) simp
  have k: "key_at (mp\<lparr>mp_pad := x\<rparr>) i = key_at mp i" for i
    by (simp add: key_at_def NODEKEY_def NODEKEY_at_def counted_branch_def IS_BRANCH_def IS_COUNTED_def NODEPTR_def)
  have l: "leaf_node_at (mp\<lparr>mp_pad := x\<rparr>) i = leaf_node_at mp i" for i
    by (simp add: leaf_node_at_def k NODEPTR_def NODEDSZ_def NODEDATA_at_def data_payload_def)
  show "NUMKEYS (mp\<lparr>mp_pad := x\<rparr>) = NUMKEYS mp" by (rule n)
  show w: "page_wf cap (mp\<lparr>mp_pad := x\<rparr>) = page_wf cap mp" by (simp add: page_wf_def slots_wf_def sz n)
  show "plain_leaf (mp\<lparr>mp_pad := x\<rparr>) = plain_leaf mp" by (rule p)
  show st: "stored_nodes (mp\<lparr>mp_pad := x\<rparr>) = stored_nodes mp" by (simp add: stored_nodes_def n l)
  show lv: "leaf_view (mp\<lparr>mp_pad := x\<rparr>) = leaf_view mp" by (simp add: leaf_view_def n l k)
  show "SIZELEFT (mp\<lparr>mp_pad := x\<rparr>) = SIZELEFT mp" by (simp add: SIZELEFT_def)
  show "page_view prefix (mp\<lparr>mp_pad := x\<rparr>) = page_view prefix mp" by (simp add: page_view_def st lv)
  show "leaf_page prefix cap (mp\<lparr>mp_pad := x\<rparr>) = leaf_page prefix cap mp" by (simp add: leaf_page_def w p lv)
  show "key_at (mp\<lparr>mp_pad := x\<rparr>) i = key_at mp i" by (rule k)
  show "page_nodes (mp\<lparr>mp_pad := x\<rparr>) = page_nodes mp" by (simp add: page_nodes_def n sz)
qed

text \<open>Inserting a stored node behind the trunk, or into an empty page, inserts its decoded node.\<close>

lemma key_at_stored: "0 < NUMKEYS mp \<Longrightarrow> key_at mp 0 = ln_key (stored_nodes mp ! 0)"
  by (simp add: nth_stored_nodes leaf_node_at_def)

lemma view_insert:
  assumes st: "stored_nodes mp' = insert_at i n (stored_nodes mp)" and i: "i \<le> NUMKEYS mp"
    and key: "NUMKEYS mp = 0 \<and> ln_key n = k \<or> 0 < i \<and> ln_key n = enc (key_at mp 0) k"
    and small: "small_key k" "0 < NUMKEYS mp \<Longrightarrow> small_key (key_at mp 0)"
  shows "leaf_view mp' = insert_at i (n\<lparr>ln_key := k\<rparr>) (leaf_view mp)"
proof (rule nth_equalityI)
  have num: "NUMKEYS mp' = NUMKEYS mp + 1" using arg_cong[OF st, of length] i by simp
  then show "length (leaf_view mp') = length (insert_at i (n\<lparr>ln_key := k\<rparr>) (leaf_view mp))" using i by simp
  have nth: "leaf_node_at mp' j = insert_at i n (stored_nodes mp) ! j" if "j < NUMKEYS mp'" for j
    using arg_cong[OF st, of "\<lambda>xs. xs ! j"] that by (simp add: nth_stored_nodes)
  fix j assume "j < length (leaf_view mp')"
  then have j: "j < NUMKEYS mp'" by simp
  have lv: "leaf_view mp' ! j = logical_node (key_at mp' 0) j (leaf_node_at mp' j)" using j by (simp add: leaf_view_def)
  show "leaf_view mp' ! j = insert_at i (n\<lparr>ln_key := k\<rparr>) (leaf_view mp) ! j"
  proof (cases "NUMKEYS mp = 0")
    case True
    then have z: "j = 0" "i = 0" using j num i by auto
    have k0: "ln_key n = k" using key True i by auto
    have "leaf_node_at mp' 0 = n" using nth[of 0] num z by (simp add: insert_at_def)
    then show ?thesis using z k0 lv by (simp add: logical_node_def insert_at_def)
  next
    case False
    then have i0: "0 < i" and nk: "ln_key n = enc (key_at mp 0) k" using key by auto
    have t: "key_at mp' 0 = key_at mp 0"
      using nth[of 0] num False i i0 by (simp add: key_at_stored nth_stored_nodes nth_insert_at)
    have lk: "logical_key (key_at mp 0) (enc (key_at mp 0) k) = k"
      using small False by (intro logical_key_enc) (simp_all add: small_key_def MDB_KEYBUF_MAX_def)
    show ?thesis
    proof (cases "j = i")
      case True
      then show ?thesis using lv nth[OF j] i i0 lk nk by (simp add: t nth_insert_at logical_node_def)
    next
      case ji: False
      define x where "x = (if j < i then j else j - 1)"
      have x: "x < NUMKEYS mp" using j num ji i by (auto simp: x_def)
      have e: "insert_at i a xs ! j = xs ! x" if "length xs = NUMKEYS mp" for a :: leaf_node and xs
        using that i ji j num by (simp add: nth_insert_at x_def)
      have "leaf_node_at mp' j = leaf_node_at mp x" using nth[OF j] x by (simp add: e nth_stored_nodes)
      moreover have "logical_node t' j y = logical_node t' x y" for t' y
        using ji i0 by (simp add: logical_node_def x_def)
      ultimately show ?thesis using lv x by (simp add: e t leaf_view_def)
    qed
  qed
qed

section \<open>The stride after an insertion\<close>

lemma store_stride_pad: "plain_leaf mp \<Longrightarrow> \<exists>x. mdb_prefix_leaf_store_stride prefix mp n = mp\<lparr>mp_pad := x\<rparr>"
  by (auto simp: mdb_prefix_leaf_store_stride_def plain_leaf_def Let_def)

lemma refresh_stride_pad: "plain_leaf mp \<Longrightarrow> \<exists>x. mdb_prefix_leaf_refresh_stride prefix mp = mp\<lparr>mp_pad := x\<rparr>"
  using store_stride_pad[of mp prefix] by (auto simp: mdb_prefix_leaf_refresh_stride_def plain_leaf_def Let_def)

lemma apply_insert_pad:
  assumes l: "plain_leaf mp" and e: "se_length_cap e < 2 ^ 32" "se_count e < 2 ^ 16"
  shows "mdb_prefix_stride_apply_insert alloc prefix e mp i k = Some (Err ENOMEM) \<and> \<not> alloc \<or>
    (\<exists>e' x. mdb_prefix_stride_apply_insert alloc prefix e mp i k = Some (Ok (e', mp\<lparr>mp_pad := x\<rparr>)))"
proof -
  have "se_count e + 1 < 2 ^ 32" using e(2) by simp
  from reserve_spec[OF e(1) this, of alloc] obtain r where r: "mdb_prefix_stride_entry_reserve alloc e (se_count e + 1) = Some r"
    "r = Err ENOMEM \<and> \<not> alloc \<or> (\<exists>e1. r = Ok e1)" by metis
  show ?thesis
  proof (cases "\<exists>e1. r = Ok e1")
    case True
    then obtain e1 where "r = Ok e1" by blast
    then show ?thesis using r(1) store_stride_pad[OF l, of prefix]
      by (auto simp: mdb_prefix_stride_apply_insert_def Let_def split: prod.splits)
  qed (use r in \<open>simp add: mdb_prefix_stride_apply_insert_def\<close>)
qed

text \<open>A stride cache of a transaction in order, and the outcome of preparing a leaf page.\<close>

definition stride_ready :: "MDB_prefix_stride_cache \<Rightarrow> MDB_page \<Rightarrow> bool" where
  "stride_ready c mp \<longleftrightarrow> cache_ok c \<and> sc_capacity c \<le> 2 ^ 28 \<and> word_of_nat (mp_pgno mp) \<noteq> P_INVALID \<and>
     (\<forall>e\<in>occupied (sc_entries c). se_length_cap e < 2 ^ 32)"

definition stride_usable :: "MDB_prefix_stride_cache \<Rightarrow> nat option \<Rightarrow> bool" where
  "stride_usable c stride \<longleftrightarrow> (\<forall>i. stride = Some i \<longrightarrow> se_length_cap (sc_entries c ! i) < 2 ^ 32 \<and> se_count (sc_entries c ! i) < 2 ^ 16)"

lemma stride_get_occupied: "cache_ok c \<Longrightarrow> p \<noteq> P_INVALID \<Longrightarrow> stride_get (sc_entries c) p = Some e \<Longrightarrow> e \<in> occupied (sc_entries c)"
  using stride.lookup_iff[of "sc_entries c" p e] by (auto simp: cache_ok_def)

lemma prepare_outcome:
  assumes c: "stride_ready c mp" and l: "plain_leaf mp" and w: "\<not> rdonly"
  shows "\<exists>c' r. mdb_prefix_stride_prepare alloc rdonly True c mp = Some (c', r) \<and>
    (r = Err ENOMEM \<and> \<not> alloc \<or> (\<exists>x stride. r = Ok (mp\<lparr>mp_pad := x\<rparr>, stride) \<and> stride_usable c' stride))"
proof (cases "IS_SUBP mp")
  case True
  then have run: "mdb_prefix_stride_prepare alloc rdonly True c mp = Some (c, Ok (mp, None))"
    by (simp add: mdb_prefix_stride_prepare_def)
  have "\<exists>x. mp = mp\<lparr>mp_pad := x\<rparr>" by (rule exI[of _ "mp_pad mp"]) simp
  then show ?thesis unfolding run by (auto simp: stride_usable_def)
next
  case False
  have leaf: "is_prefix_leaf True mp" using l by (simp add: is_prefix_leaf_def plain_leaf_def)
  have c': "cache_ok c" "sc_capacity c \<le> 2 ^ 28" "word_of_nat (mp_pgno mp) \<noteq> P_INVALID"
    "\<And>e. e \<in> occupied (sc_entries c) \<Longrightarrow> se_length_cap e < 2 ^ 32" using c by (auto simp: stride_ready_def)
  from prepare_spec[OF c'(1-3) leaf False c'(4), of alloc] obtain c1 r
    where r: "mdb_prefix_stride_prepare alloc False True c mp = Some (c1, r)"
      "r = Err ENOMEM \<and> \<not> alloc \<or> (\<exists>mp' i. r = Ok (mp', Some i) \<and> prepared c mp c1 mp' i)" by blast
  have "\<exists>x. mp' = mp\<lparr>mp_pad := x\<rparr> \<and> stride_usable c1 (Some i)" if p: "prepared c mp c1 mp' i" for mp' i
  proof -
    let ?e = "sc_entries c1 ! i"
    have cnt: "se_count ?e = NUMKEYS mp" using p by (simp add: prepared_def Let_def)
    have "se_length_cap ?e < 2 ^ 32"
      using p c'(4) stride_get_occupied[OF c'(1,3), of ?e] by (auto simp: prepared_def Let_def entry_ok_def)
    moreover have "\<exists>x. mp' = mp\<lparr>mp_pad := x\<rparr>"
    proof -
      have "mp = mp\<lparr>mp_pad := mp_pad mp\<rparr>" by simp
      then show ?thesis using p unfolding prepared_def Let_def by metis
    qed
    ultimately show ?thesis using NUMKEYS_less[of mp] by (simp add: stride_usable_def cnt)
  qed
  then show ?thesis using r w by (cases rdonly) auto
qed

lemma add_stride_pad:
  assumes l: "plain_leaf (nd_page s)" and u: "stride_usable (rs_cache (nd_rb s)) stride"
  shows "\<exists>s' r. add_stride ne stride i key s = Some (s', r) \<and> (\<exists>x. nd_page s' = (nd_page s)\<lparr>mp_pad := x\<rparr>) \<and>
    (r = Ok () \<or> r = Err ENOMEM \<and> \<not> ne_alloc ne)"
proof -
  let ?mp = "nd_page s"
  have same: "\<exists>x. ?mp = ?mp\<lparr>mp_pad := x\<rparr>" by (rule exI[of _ "mp_pad ?mp"]) simp
  show ?thesis
  proof (cases "nd_prefix ne")
    case False
    then show ?thesis using store_stride_pad[OF l, of "nd_prefix ne" 0] by (simp add: add_stride_def Let_def)
  next
    case True
    show ?thesis
    proof (cases stride)
      case None
      then show ?thesis
        using True same store_stride_pad[OF l, of True] refresh_stride_pad[OF l, of True]
        by (cases key) (auto simp: add_stride_def Let_def)
    next
      case (Some j)
      let ?e = "sc_entries (rs_cache (nd_rb s)) ! j" and ?k = "case key of Some k \<Rightarrow> length k | None \<Rightarrow> 0"
      have e: "se_length_cap ?e < 2 ^ 32" "se_count ?e < 2 ^ 16" using u Some by (simp_all add: stride_usable_def)
      from apply_insert_pad[OF l e, of "ne_alloc ne" True i ?k] show ?thesis
        using True Some same by (auto simp: add_stride_def Let_def)
    qed
  qed
qed

section \<open>Inserting a leaf node\<close>

text \<open>
  The outcome over the nodes of the page: the new node is at its place, or the page is full, or memory
  ran out. \<open>fits\<close> tells whether there is room.
\<close>

definition node_added :: "node_env \<Rightarrow> node_state \<Rightarrow> nat \<Rightarrow> leaf_node \<Rightarrow> bool \<Rightarrow> (node_state \<times> 'a res) option \<Rightarrow> bool" where
  "node_added ne s i n fits result \<longleftrightarrow>
     (\<exists>s' r. result = Some (s', r) \<and>
       ((\<exists>x. r = Ok x) \<and> fits \<and> leaf_page (nd_prefix ne) (ne_capacity ne) (nd_page s') \<and>
          page_view (nd_prefix ne) (nd_page s') = insert_at i n (page_view (nd_prefix ne) (nd_page s)) \<and>
          mp_flags (nd_page s') = mp_flags (nd_page s) \<and> mp_pgno (nd_page s') = mp_pgno (nd_page s) \<or>
        r = Err MDB_PAGE_FULL \<and> \<not> fits \<and> nd_page s' = nd_page s \<or>
        r = Err ENOMEM \<and> \<not> ne_alloc ne))"

text \<open>The bytes a node takes on the page besides its slot, encoded behind the trunk.\<close>

definition node_takes :: "bool \<Rightarrow> MDB_page \<Rightarrow> nat \<Rightarrow> bytes \<Rightarrow> bytes \<Rightarrow> nat" where
  "node_takes prefix mp i key d = EVEN (8 + EVEN (add_key_bytes prefix mp i (Some key)) + length d)"

lemma trunk_small_leaf: "leaf_page True cap mp \<Longrightarrow> 0 < NUMKEYS mp \<Longrightarrow> small_key (key_at mp 0)"
  using trunk_small by (simp add: leaf_page_prefix)

lemma length_added:
  assumes "plain_leaf mp"
  shows "length (added_key prefix (add_trunk prefix mp i (Some key)) key) = add_key_bytes prefix mp i (Some key)"
  using assms by (simp add: added_key_def add_key_bytes_def add_trunk_def plain_leaf_def length_enc mdb_leaf_encoded_size_def)

lemma add_update_added:
  assumes lp: "leaf_page (nd_prefix ne) (ne_capacity ne) (nd_page s)" and i: "i \<le> NUMKEYS (nd_page s)"
    and first: "nd_prefix ne \<Longrightarrow> i = 0 \<Longrightarrow> NUMKEYS (nd_page s) = 0"
    and k: "small_key key \<or> \<not> nd_prefix ne \<and> length key < 65536" and ds: "length data < 2 ^ 32" and nores: "\<not> F_ISSET32 flags MDB_RESERVE"
    and d: "length (added_data flags ofp data) = (if node_flag flags F_BIGDATA then 8 else length data)"
    and sz: "sz = EVEN (8 + EVEN (add_key_bytes (nd_prefix ne) (nd_page s) i (Some key)) + length (added_data flags ofp data))"
    and fit: "sz + 2 \<le> SIZELEFT (nd_page s)" and page: "nd_page s1 = (nd_page s)\<lparr>mp_pad := x\<rparr>" and s12: "stride_usable (rs_cache (nd_rb s1)) stride"
  shows "node_added ne s i \<lparr>ln_key = key, ln_flags = ucast flags, ln_size = length data, ln_data = added_data flags ofp data\<rparr> True
    (add_update ne i (Some key) (Some data) pgno flags child cnt (add_trunk (nd_prefix ne) (nd_page s) i (Some key))
      (add_key_bytes (nd_prefix ne) (nd_page s) i (Some key)) sz ofp stride s1)"
proof -
  define mp where "mp = nd_page s"
  define prefix where "prefix = nd_prefix ne"
  define trunk where "trunk = add_trunk prefix mp i (Some key)"
  define kb where "kb = add_key_bytes prefix mp i (Some key)"
  define n where "n = \<lparr>ln_key = key, ln_flags = (ucast flags :: u16), ln_size = length data, ln_data = added_data flags ofp data\<rparr>"
  note lp' = lp[folded mp_def prefix_def]
  note L = leaf_pageD[OF lp']
  have stk: "length (added_key prefix trunk key) = kb" unfolding trunk_def kb_def by (rule length_added[OF L(2)])
  have tr: "trunk = (if prefix \<and> NUMKEYS mp > 0 \<and> i \<noteq> 0 then Some (key_at mp 0) else None)" using L by (simp add: trunk_def add_trunk_def)
  have kb: "kb < 65536"
  proof (cases "small_key key")
    case True
    then show ?thesis
      using length_enc_small[of key "key_at mp 0"] stk by (auto simp: added_key_def tr small_key_def MDB_KEYBUF_MAX_def split: if_splits)
  next
    case False
    then have "\<not> prefix" "length key < 65536" using k by (simp_all add: prefix_def)
    then show ?thesis using stk by (simp add: added_key_def tr)
  qed
  have left: "SIZELEFT mp = mp_upper mp - mp_lower mp" using L(6) slots_wfD(1,5)[OF L(1)[unfolded page_wf_def]] by (simp add: SIZELEFT_def u16_sub_le)
  have szE: "sz = EVEN (8 + EVEN kb + length (added_data flags ofp data))" by (simp add: sz kb_def mp_def prefix_def)
  have s1: "nd_page s1 = mp\<lparr>mp_pad := x\<rparr>" "stride_usable (rs_cache (nd_rb s1)) stride" using page s12 by (simp_all add: mp_def)
  have fit': "sz + 2 \<le> SIZELEFT mp" using fit by (simp add: mp_def)
  have room: "sz + 2 \<le> mp_upper (nd_page s1) - mp_lower (nd_page s1)" using fit' left s1(1) by simp
  have wf1: "page_wf (ne_capacity ne) (nd_page s1)" "plain_leaf (nd_page s1)" "i \<le> NUMKEYS (nd_page s1)" using L(1,2) i s1(1) by (simp_all add: mp_def)
  have stk': "length (added_key (nd_prefix ne) trunk key) = kb" using stk by (simp add: prefix_def)
  have nk: "\<lparr>ln_key = added_key (nd_prefix ne) trunk key, ln_flags = ucast flags, ln_size = length data, ln_data = added_data flags ofp data\<rparr> =
      n\<lparr>ln_key := added_key prefix trunk key\<rparr>" by (simp add: n_def prefix_def)
  obtain mp' where run: "add_update ne i (Some key) (Some data) pgno flags child cnt trunk kb sz ofp stride s1 =
      add_stride ne stride i (Some key) (set_page mp' s1)"
    and mp': "page_wf (ne_capacity ne) mp'" "NUMKEYS mp' = NUMKEYS (nd_page s1) + 1" "mp_flags mp' = mp_flags (nd_page s1)" "mp_pgno mp' = mp_pgno (nd_page s1)"
      "stored_nodes mp' = insert_at i (n\<lparr>ln_key := added_key prefix trunk key\<rparr>) (stored_nodes (nd_page s1))"
    unfolding nk[symmetric]
    by (rule add_update_leaf[OF wf1 stk' kb ds nores d szE room, of pgno child cnt stride]) blast
  have l': "plain_leaf mp'" using plain_leaf_cong[of mp mp'] L(2) mp'(3) s1(1) by simp
  have st: "stored_nodes mp' = insert_at i (n\<lparr>ln_key := added_key prefix trunk key\<rparr>) (stored_nodes mp)" using mp'(5) s1(1) by simp
  have view: "page_view prefix mp' = insert_at i n (page_view prefix mp)"
  proof (cases prefix)
    case False
    then show ?thesis using st by (simp add: page_view_def tr added_key_def n_def)
  next
    case True
    have sm: "0 < NUMKEYS mp \<Longrightarrow> small_key (key_at mp 0)" "small_key key" using trunk_small_leaf[of _ mp] lp' True k by (auto simp: prefix_def)
    have "leaf_view mp' = insert_at i (n\<lparr>ln_key := added_key prefix trunk key\<rparr>\<lparr>ln_key := key\<rparr>) (leaf_view mp)"
      by (rule view_insert[OF st]) (use i first True sm in \<open>auto simp: mp_def prefix_def[symmetric] tr added_key_def\<close>)
    then show ?thesis using True by (simp add: page_view_def n_def)
  qed
  have lp1: "leaf_page prefix (ne_capacity ne) mp'"
  proof -
    have "\<forall>a\<in>set (leaf_view mp'). small_key (ln_key a)" if prefix
    proof -
      have "leaf_view mp' = insert_at i n (leaf_view mp)" using view that by (simp add: page_view_def)
      moreover have "set (insert_at i n (leaf_view mp)) \<subseteq> insert n (set (leaf_view mp))"
        by (auto simp: insert_at_def dest: in_set_takeD in_set_dropD)
      ultimately show ?thesis using lp' k that by (auto simp: leaf_page_def n_def prefix_def)
    qed
    then show ?thesis using mp'(1) l' by (simp add: leaf_page_def)
  qed
  obtain s' r x' where res: "add_stride ne stride i (Some key) (set_page mp' s1) = Some (s', r)" "nd_page s' = mp'\<lparr>mp_pad := x'\<rparr>"
    "r = Ok () \<or> r = Err ENOMEM \<and> \<not> ne_alloc ne"
    using add_stride_pad[where s = "set_page mp' s1" and stride = stride and ne = ne and i = i and key = "Some key"] l' s1(2) by auto
  have "node_added ne s i n True (add_update ne i (Some key) (Some data) pgno flags child cnt trunk kb sz ofp stride s1)"
    unfolding run res(1) node_added_def
    using res(2,3) fit lp1 view mp'(3,4) s1(1) by (auto simp: prefix_def mp_def)
  then show ?thesis unfolding mp_def[symmetric] prefix_def[symmetric] trunk_def kb_def n_def .
qed

lemma add_inline_leaf:
  assumes lp: "leaf_page (nd_prefix ne) (ne_capacity ne) (nd_page s)" and i: "i \<le> NUMKEYS (nd_page s)"
    and first: "nd_prefix ne \<Longrightarrow> i = 0 \<Longrightarrow> NUMKEYS (nd_page s) = 0"
    and k: "small_key key \<or> \<not> nd_prefix ne \<and> length key < 65536" and ds: "length data < 2 ^ 32" and nores: "\<not> F_ISSET32 flags MDB_RESERVE"
    and d: "length (added_data flags None data) = (if node_flag flags F_BIGDATA then 8 else length data)"
    and c: "nd_prefix ne \<Longrightarrow> stride_ready (rs_cache (nd_rb s)) (nd_page s)" "nd_prefix ne \<Longrightarrow> \<not> ce_rdonly (ne_ce ne)"
    and sz: "sz = 8 + EVEN (add_key_bytes (nd_prefix ne) (nd_page s) i (Some key)) + length (added_data flags None data)"
  shows "node_added ne s i \<lparr>ln_key = key, ln_flags = ucast flags, ln_size = length data, ln_data = added_data flags None data\<rparr>
    (EVEN sz + 2 \<le> SIZELEFT (nd_page s))
    (add_inline ne i (Some key) (Some data) pgno flags child cnt (add_trunk (nd_prefix ne) (nd_page s) i (Some key))
      (add_key_bytes (nd_prefix ne) (nd_page s) i (Some key)) sz None s)"
proof -
  define mp where "mp = nd_page s"
  define prefix where "prefix = nd_prefix ne"
  define trunk where "trunk = add_trunk prefix mp i (Some key)"
  define kb where "kb = add_key_bytes prefix mp i (Some key)"
  define n where "n = \<lparr>ln_key = key, ln_flags = (ucast flags :: u16), ln_size = length data, ln_data = added_data flags None data\<rparr>"
  note lp' = lp[folded mp_def prefix_def]
  note L = leaf_pageD[OF lp']
  have go: "node_added ne s i n (EVEN sz + 2 \<le> SIZELEFT mp)
      (add_update ne i (Some key) (Some data) pgno flags child cnt trunk kb (EVEN sz) None stride s1)"
    if fit: "EVEN sz + 2 \<le> SIZELEFT mp" and s1: "nd_page s1 = mp\<lparr>mp_pad := x\<rparr>" "stride_usable (rs_cache (nd_rb s1)) stride" for s1 stride x
  proof -
    have "EVEN sz = EVEN (8 + EVEN (add_key_bytes (nd_prefix ne) (nd_page s) i (Some key)) + length (added_data flags None data))" by (simp add: sz)
    from add_update_added[OF lp i first k ds nores d this _ _ s1(2), of x pgno child cnt] s1(1) fit show ?thesis
      by (simp add: mp_def prefix_def trunk_def kb_def n_def)
  qed
  have "node_added ne s i n (EVEN sz + 2 \<le> SIZELEFT mp)
    (add_inline ne i (Some key) (Some data) pgno flags child cnt trunk kb sz None s)"
  proof (cases "EVEN sz + 2 \<le> SIZELEFT mp")
    case False
    then show ?thesis by (auto simp: add_inline_def Let_def node_full_def node_added_def mp_def)
  next
    case fit: True
    show ?thesis
    proof (cases prefix)
      case False
      have "add_inline ne i (Some key) (Some data) pgno flags child cnt trunk kb sz None s =
          add_update ne i (Some key) (Some data) pgno flags child cnt trunk kb (EVEN sz) None None s"
        using fit False by (simp add: add_inline_def Let_def mp_def prefix_def)
      moreover have "nd_page s = mp\<lparr>mp_pad := mp_pad mp\<rparr>" by (simp add: mp_def)
      ultimately show ?thesis using go[OF fit, of s "mp_pad mp" None] by (simp add: stride_usable_def)
    next
      case True
      obtain c' r where pr: "mdb_prefix_stride_prepare (ne_alloc ne) (ce_rdonly (ne_ce ne)) prefix (rs_cache (nd_rb s)) mp = Some (c', r)"
        "r = Err ENOMEM \<and> \<not> ne_alloc ne \<or> (\<exists>x stride. r = Ok (mp\<lparr>mp_pad := x\<rparr>, stride) \<and> stride_usable c' stride)"
        using prepare_outcome[OF _ L(2), of "rs_cache (nd_rb s)" "ce_rdonly (ne_ce ne)" "ne_alloc ne"] c True by (auto simp: mp_def prefix_def)
      have run: "add_inline ne i (Some key) (Some data) pgno flags child cnt trunk kb sz None s =
          (case r of Ok (mp, stride) \<Rightarrow> add_update ne i (Some key) (Some data) pgno flags child cnt trunk kb (EVEN sz) None stride
                 (s\<lparr>nd_rb := (nd_rb s)\<lparr>rs_cache := c', rs_page := mp\<rparr>\<rparr>)
           | Err e \<Rightarrow> Some (s\<lparr>nd_rb := (nd_rb s)\<lparr>rs_cache := c'\<rparr>\<rparr>, Err e)
           | Abort \<Rightarrow> Some (s\<lparr>nd_rb := (nd_rb s)\<lparr>rs_cache := c'\<rparr>\<rparr>, Abort))"
        using fit True pr(1) L(3) by (cases r) (auto simp: add_inline_def Let_def mp_def prefix_def)
      from pr(2) show ?thesis
      proof (elim disjE exE conjE)
        assume "r = Err ENOMEM" "\<not> ne_alloc ne"
        then show ?thesis unfolding run by (simp add: node_added_def)
      next
        fix x stride assume "r = Ok (mp\<lparr>mp_pad := x\<rparr>, stride)" "stride_usable c' stride"
        then show ?thesis unfolding run using go[OF fit, of "s\<lparr>nd_rb := (nd_rb s)\<lparr>rs_cache := c', rs_page := mp\<lparr>mp_pad := x\<rparr>\<rparr>\<rparr>" x stride] by simp
      qed
    qed
  qed
  then show ?thesis unfolding mp_def[symmetric] prefix_def[symmetric] trunk_def kb_def n_def .
qed

section \<open>\<open>mdb_node_add\<close> on leaf pages\<close>

lemma nd_bind_Some: "m s = Some (s', Ok x) \<Longrightarrow> nd_bind m f s = f x s'"
  by (simp add: nd_bind_def)

lemma nd_bind_guard [simp]: "nd_bind (nd_guard True) f = f ()"
  by (rule ext) (simp add: nd_bind_def nd_guard_def nd_res_def)

lemma nd_bind_res [simp]: "nd_bind (nd_res (Ok x)) f = f x"
  by (rule ext) (simp add: nd_bind_def nd_res_def)

lemma node_added_bind:
  assumes "node_added ne s i n fits (m s1)"
  shows "node_added ne s i n fits (nd_bind m (\<lambda>_. nd_res (Ok x)) s1)"
proof -
  obtain s' r where m: "m s1 = Some (s', r)" using assms by (auto simp: node_added_def)
  show ?thesis using assms by (cases r) (auto simp: node_added_def nd_bind_def nd_res_def m)
qed

lemma read_old_trunk_spec:
  assumes p: "prefix_page cap (nd_page s)" "0 < NUMKEYS (nd_page s)"
  shows "\<exists>rd. read_old_trunk ne s = Some (s\<lparr>nd_rd := rd\<rparr>, Ok (key_at (nd_page s) 0))"
proof -
  let ?mp = "nd_page s"
  have k: "length (key_at ?mp 0) \<le> MDB_KEYBUF_MAX" using trunk_small[OF p] by (simp add: small_key_def)
  have l: "IS_LEAF ?mp" "\<not> IS_LEAF2 ?mp" using p(1) by (simp_all add: prefix_page_def plain_leaf_def)
  show ?thesis
  proof (cases "length (key_at ?mp 0) > 0")
    case True
    then show ?thesis using k l by (auto simp: read_old_trunk_def Let_def mdb_cursor_read_key_at_def)
  next
    case False
    have "\<exists>rd. s = s\<lparr>nd_rd := rd\<rparr>" by (rule exI[of _ "nd_rd s"]) simp
    then show ?thesis using k False by (auto simp: read_old_trunk_def Let_def simp del: length_key_at)
  qed
qed

lemma node_add_run:
  assumes lp: "leaf_page (nd_prefix ne) (ne_capacity ne) (nd_page s)"
  shows "mdb_node_add ne i (Some key) (Some data) pgno flags child cnt s =
    (let kb = add_key_bytes (nd_prefix ne) (nd_page s) i (Some key); trunk = add_trunk (nd_prefix ne) (nd_page s) i (Some key) in
     nd_bind (if need_reencode (nd_prefix ne) (nd_page s) i (Some key) then nd_bind (read_old_trunk ne) (\<lambda>t. nd_res (Ok (Some t))) else nd_res (Ok None))
       (\<lambda>old_trunk. case data_place (ce_env (ne_ce ne)) (8 + EVEN kb) flags (length data) of
           Overflow \<Rightarrow> add_overflow ne i (Some key) data pgno flags trunk kb (8 + EVEN kb) old_trunk
         | In_node sz \<Rightarrow> nd_bind (add_inline ne i (Some key) (Some data) pgno flags child cnt trunk kb sz old_trunk) (\<lambda>_. nd_res (Ok None))) s)"
proof -
  note L = leaf_pageD[OF lp]
  have sz: "NODESIZE + (if counted_branch (nd_page s) then 8 else 0) + x = 8 + x" for x using L(5) by (simp add: NODESIZE_def)
  have g: "(Some key \<noteq> None \<and> Some data \<noteq> None) = True" "(mp_upper (nd_page s) \<ge> mp_lower (nd_page s)) = True" using L(6) by simp_all
  show ?thesis
    unfolding mdb_node_add_def Let_def sz g nd_bind_guard if_not_P[OF L(4)] if_P[OF L(3)] option.sel option.case by (rule refl)
qed

lemma add_reencode_spec:
  assumes p: "prefix_page (ne_capacity ne) (nd_page s)" and pre: "nd_prefix ne" and n: "0 < NUMKEYS (nd_page s)" and i: "i \<le> NUMKEYS (nd_page s)"
    and key: "small_key key" and ds: "length data < 2 ^ 32" and nores: "\<not> F_ISSET32 flags MDB_RESERVE" "\<not> F_ISSET32 flags MDB_SPLIT_REPLACE"
    and big: "node_flag flags F_BIGDATA \<Longrightarrow> 8 \<le> length (case ofp of Some pg \<Rightarrow> le_bytes 8 pg | None \<Rightarrow> data)"
    and ofp: "ofp \<noteq> None \<Longrightarrow> node_flag flags F_BIGDATA"
    and clash: "\<And>j. 0 < j \<Longrightarrow> j < NUMKEYS (nd_page s) \<Longrightarrow> key_at (nd_page s) j \<noteq> key_at (nd_page s) 0"
    and ok: "scratch_ok (rs_scratch (nd_rb s))" "env_ok (ce_env (ne_ce ne))"
  defines "nn \<equiv> \<lparr>ln_key = key, ln_flags = ucast flags, ln_size = length data, ln_data = added_data flags ofp data\<rparr>"
  shows "node_added ne s i nn (page_need (insert_at i nn (leaf_view (nd_page s))) \<le> ne_capacity ne)
    (add_reencode ne i (Some key) data flags (key_at (nd_page s) 0) ofp s)"
proof -
  have cap: "ne_capacity ne < 65536" using p slots_wfD(1) by (auto simp: prefix_page_def page_wf_def)
  let ?ofp = "map_option (le_bytes 8) ofp"
  have big': "8 \<le> length (case ?ofp of Some pg \<Rightarrow> pg | None \<Rightarrow> data)" if "node_flag flags F_BIGDATA"
    using big[OF that] by (cases ofp) auto
  have kv: "kept_view (nd_page s) = leaf_view (nd_page s)" by (rule kept_view_leaf_view) (rule clash)
  have nv: "view_new key data (ucast flags) False ?ofp = nn"
    using ofp by (auto simp: view_new_def nn_def added_data_def split: option.splits)
  have spec: "rebuilds_to (ne_alloc ne) (ne_capacity ne) (nd_rb s) (insert_at i nn (leaf_view (nd_page s)))
      (mdb_leaf_rebuild_after_trunk_insert (ne_alloc ne) (ce_env (ne_ce ne)) (nd_prefix ne) (ne_snap0 ne) (ne_capacity ne)
        (Some (key_at (nd_page s) 0)) i key data (ucast flags) False ?ofp (nd_rb s))"
    using trunk_insert_spec[where is_reserve = False and alloc = "ne_alloc ne" and ?snap0.0 = "ne_snap0 ne" and flags = "ucast flags", OF p pre n key ds big' ok cap i]
    unfolding kv nv by simp
  obtain s' r where r: "mdb_leaf_rebuild_after_trunk_insert (ne_alloc ne) (ce_env (ne_ce ne)) (nd_prefix ne) (ne_snap0 ne) (ne_capacity ne)
        (Some (key_at (nd_page s) 0)) i key data (ucast flags) False ?ofp (nd_rb s) = Some (s', r)"
    "r = Ok () \<and> page_need (insert_at i nn (leaf_view (nd_page s))) \<le> ne_capacity ne \<and> leaf_view (rs_page s') = insert_at i nn (leaf_view (nd_page s)) \<and>
           prefix_page (ne_capacity ne) (rs_page s') \<and> mp_flags (rs_page s') = mp_flags (nd_page s) \<and> mp_pgno (rs_page s') = mp_pgno (nd_page s) \<and>
           mp_pad (rs_page s') = list_max (map (\<lambda>n. length (ln_key n)) (insert_at i nn (leaf_view (nd_page s)))) \<or>
         r = Err MDB_PAGE_FULL \<and> ne_capacity ne < page_need (insert_at i nn (leaf_view (nd_page s))) \<and> rs_page s' = nd_page s \<or>
         r = Err ENOMEM \<and> \<not> ne_alloc ne \<and> rs_page s' = nd_page s"
    using spec unfolding rebuilds_to_def by (elim exE conjE) (rule that)
  have "add_reencode ne i (Some key) data flags (key_at (nd_page s) 0) ofp s = Some (s\<lparr>nd_rb := s'\<rparr>, r)"
    using r(1) nores by (simp add: add_reencode_def nd_rebuild_def)
  then show ?thesis using r(2) pre by (auto simp: node_added_def leaf_page_prefix page_view_def)
qed

text \<open>What a caller of \<open>mdb_node_add\<close> for a leaf must see to.\<close>

definition add_ok :: "node_env \<Rightarrow> node_state \<Rightarrow> nat \<Rightarrow> bytes \<Rightarrow> bytes \<Rightarrow> u32 \<Rightarrow> bool" where
  "add_ok ne s i key data flags \<longleftrightarrow>
     leaf_page (nd_prefix ne) (ne_capacity ne) (nd_page s) \<and> i \<le> NUMKEYS (nd_page s) \<and> length data < 2 ^ 32 \<and>
     \<not> F_ISSET32 flags MDB_RESERVE \<and> \<not> F_ISSET32 flags MDB_SPLIT_REPLACE \<and> (node_flag flags F_BIGDATA \<longrightarrow> 8 \<le> length data) \<and>
     (if nd_prefix ne
      then small_key key \<and> \<not> ce_rdonly (ne_ce ne) \<and> stride_ready (rs_cache (nd_rb s)) (nd_page s) \<and>
        scratch_ok (rs_scratch (nd_rb s)) \<and> env_ok (ce_env (ne_ce ne)) \<and>
        (i = 0 \<longrightarrow> (\<forall>j<NUMKEYS (nd_page s). key_at (nd_page s) j \<noteq> (if j = 0 then key else key_at (nd_page s) 0)))
      else length key < 65536)"

definition add_fits :: "node_env \<Rightarrow> MDB_page \<Rightarrow> nat \<Rightarrow> leaf_node \<Rightarrow> bool" where
  "add_fits ne mp i n \<longleftrightarrow>
     (if nd_prefix ne \<and> i = 0 \<and> 0 < NUMKEYS mp then page_need (insert_at i n (leaf_view mp)) \<le> ne_capacity ne
      else node_takes (nd_prefix ne) mp i (ln_key n) (ln_data n) + 2 \<le> SIZELEFT mp)"

lemma add_okD:
  assumes "add_ok ne s i key data flags"
  shows "leaf_page (nd_prefix ne) (ne_capacity ne) (nd_page s)" "i \<le> NUMKEYS (nd_page s)" "length data < 2 ^ 32"
    "\<not> F_ISSET32 flags MDB_RESERVE" "\<not> F_ISSET32 flags MDB_SPLIT_REPLACE" "node_flag flags F_BIGDATA \<Longrightarrow> 8 \<le> length data"
    "small_key key \<or> \<not> nd_prefix ne \<and> length key < 65536"
    "nd_prefix ne \<Longrightarrow> stride_ready (rs_cache (nd_rb s)) (nd_page s)" "nd_prefix ne \<Longrightarrow> \<not> ce_rdonly (ne_ce ne)"
    "nd_prefix ne \<Longrightarrow> small_key key" "nd_prefix ne \<Longrightarrow> scratch_ok (rs_scratch (nd_rb s))" "nd_prefix ne \<Longrightarrow> env_ok (ce_env (ne_ce ne))"
  using assms by (auto simp: add_ok_def split: if_splits)

lemma need_reencode_iff:
  "add_ok ne s i key data flags \<Longrightarrow> need_reencode (nd_prefix ne) (nd_page s) i (Some key) \<longleftrightarrow> nd_prefix ne \<and> i = 0 \<and> 0 < NUMKEYS (nd_page s)"
  using leaf_pageD[OF add_okD(1), of ne s i key data flags] by (auto simp: need_reencode_def add_ok_def)

lemma node_add_leaf_spec:
  assumes ok: "add_ok ne s i key data flags"
    and inl: "data_place (ce_env (ne_ce ne)) (8 + EVEN (add_key_bytes (nd_prefix ne) (nd_page s) i (Some key))) flags (length data) \<noteq> Overflow"
  defines "n \<equiv> \<lparr>ln_key = key, ln_flags = ucast flags, ln_size = length data, ln_data = added_data flags None data\<rparr>"
  shows "node_added ne s i n (add_fits ne (nd_page s) i n) (mdb_node_add ne i (Some key) (Some data) pgno flags child cnt s)"
proof -
  note A = add_okD[OF ok]
  let ?kb = "add_key_bytes (nd_prefix ne) (nd_page s) i (Some key)" and ?trunk = "add_trunk (nd_prefix ne) (nd_page s) i (Some key)"
  have d: "length (added_data flags None data) = (if node_flag flags F_BIGDATA then 8 else length data)"
    using A(6) by (simp add: added_data_def)
  obtain sz where sz: "data_place (ce_env (ne_ce ne)) (8 + EVEN ?kb) flags (length data) = In_node sz" "sz = 8 + EVEN ?kb + length (added_data flags None data)"
    using inl d by (auto simp: data_place_def split: if_splits)
  show ?thesis
  proof (cases "nd_prefix ne \<and> i = 0 \<and> 0 < NUMKEYS (nd_page s)")
    case False
    then have nr: "\<not> need_reencode (nd_prefix ne) (nd_page s) i (Some key)" using need_reencode_iff[OF ok] by simp
    have fits: "add_fits ne (nd_page s) i n \<longleftrightarrow> EVEN sz + 2 \<le> SIZELEFT (nd_page s)"
      using False by (auto simp: add_fits_def node_takes_def n_def sz(2))
    have "node_added ne s i n (add_fits ne (nd_page s) i n) (add_inline ne i (Some key) (Some data) pgno flags child cnt ?trunk ?kb sz None s)"
      unfolding fits unfolding n_def by (rule add_inline_leaf[OF A(1,2) _ A(7,3,4) d A(8,9) sz(2)]) (use False in auto)
    then show ?thesis unfolding node_add_run[OF A(1)] Let_def if_not_P[OF nr] nd_bind_res sz(1) data_place.case by (rule node_added_bind)
  next
    case True
    then have nr: "need_reencode (nd_prefix ne) (nd_page s) i (Some key)" using need_reencode_iff[OF ok] by simp
    have p: "prefix_page (ne_capacity ne) (nd_page s)" using A(1) True leaf_page_prefix by simp
    have pre: "nd_prefix ne" and n0: "0 < NUMKEYS (nd_page s)" using True by simp_all
    obtain rd where rd: "read_old_trunk ne s = Some (s\<lparr>nd_rd := rd\<rparr>, Ok (key_at (nd_page s) 0))"
      using read_old_trunk_spec[OF p n0] by blast
    let ?s1 = "s\<lparr>nd_rd := rd\<rparr>"
    have clash: "key_at (nd_page ?s1) j \<noteq> key_at (nd_page ?s1) 0" if "0 < j" "j < NUMKEYS (nd_page ?s1)" for j
      using ok that True by (auto simp: add_ok_def)
    have r: "node_added ne ?s1 i n (page_need (insert_at i n (leaf_view (nd_page ?s1))) \<le> ne_capacity ne)
      (add_reencode ne i (Some key) data flags (key_at (nd_page ?s1) 0) None ?s1)"
      unfolding n_def
      by (rule add_reencode_spec) (use p pre n0 A clash in \<open>simp_all\<close>)
    have "node_added ne s i n (add_fits ne (nd_page s) i n) (add_inline ne i (Some key) (Some data) pgno flags child cnt ?trunk ?kb sz (Some (key_at (nd_page s) 0)) ?s1)"
      using r True by (simp add: node_added_def add_inline_def Let_def add_fits_def)
    moreover have "nd_bind (nd_bind (read_old_trunk ne) (\<lambda>t. nd_res (Ok (Some t)))) g s = g (Some (key_at (nd_page s) 0)) ?s1" for g :: "bytes option \<Rightarrow> MDB_page option nd"
      using rd by (simp add: nd_bind_def nd_res_def)
    ultimately show ?thesis unfolding node_add_run[OF A(1)] Let_def if_P[OF nr] sz(1) data_place.case by (simp add: node_added_bind sz(1))
  qed
qed

section \<open>Data on an overflow page\<close>

definition overflow_page :: "MDB_page \<Rightarrow> nat \<Rightarrow> bytes \<Rightarrow> MDB_page" where
  "overflow_page np ovpages data = np\<lparr>mp_flags := P_OVERFLOW OR P_DIRTY, mp_lower := ovpages mod 65536, mp_upper := ovpages div 65536,
     mp_mem := mem_write (mp_mem np) PAGEHDRSZ data\<rparr>"

lemma page_new_overflow:
  "mdb_page_new (Ok np) counted psize P_OVERFLOW num =
    Ok (np\<lparr>mp_flags := P_OVERFLOW OR P_DIRTY, mp_lower := num mod 65536, mp_upper := num div 65536\<rparr>, Overflow_pages, num)"
proof -
  have "\<not> (P_OVERFLOW AND P_BRANCH \<noteq> 0)" "(P_OVERFLOW OR P_DIRTY) AND P_BRANCH \<noteq> P_BRANCH" "(P_OVERFLOW OR P_DIRTY) AND P_LEAF \<noteq> P_LEAF"
    "(P_OVERFLOW OR P_DIRTY) AND P_OVERFLOW = P_OVERFLOW" by code_simp+
  then show ?thesis by (simp add: mdb_page_new_def Let_def IS_BRANCH_def IS_LEAF_def F_ISSET_def)
qed

lemma big_flag: "node_flag (flags OR ucast F_BIGDATA) F_BIGDATA"
  "F_ISSET32 (flags OR ucast F_BIGDATA) MDB_RESERVE \<longleftrightarrow> F_ISSET32 flags MDB_RESERVE"
  "F_ISSET32 (flags OR ucast F_BIGDATA) MDB_SPLIT_REPLACE \<longleftrightarrow> F_ISSET32 flags MDB_SPLIT_REPLACE"
proof -
  have b: "F_BIGDATA = 2 ^ 0" "MDB_RESERVE = 2 ^ 16" "MDB_SPLIT_REPLACE = 2 ^ 18"
    by (simp_all add: F_BIGDATA_def MDB_RESERVE_def MDB_SPLIT_REPLACE_def)
  show "node_flag (flags OR ucast F_BIGDATA) F_BIGDATA"
    unfolding F_ISSET_def b by (rule bit_eqI) (auto simp: bit_simps)
  have i: "x AND 2 ^ n = 2 ^ n \<longleftrightarrow> bit x n" if "n < 32" for x :: u32 and n
  proof
    assume "x AND 2 ^ n = 2 ^ n"
    from arg_cong[OF this, of "\<lambda>w. bit w n"] show "bit x n" using that by (simp add: bit_simps)
  next
    assume "bit x n"
    then show "x AND 2 ^ n = 2 ^ n" by (intro bit_word_eqI) (auto simp: bit_simps)
  qed
  show "F_ISSET32 (flags OR ucast F_BIGDATA) MDB_RESERVE \<longleftrightarrow> F_ISSET32 flags MDB_RESERVE"
    "F_ISSET32 (flags OR ucast F_BIGDATA) MDB_SPLIT_REPLACE \<longleftrightarrow> F_ISSET32 flags MDB_SPLIT_REPLACE"
    by (simp_all only: F_ISSET32_def b(2,3) i bit_or_iff) (simp_all add: b(1) bit_simps)
qed

lemma node_add_overflow_spec:
  fixes ne s pgno child cnt
  assumes ok: "add_ok ne s i key data flags"
    and place: "data_place (ce_env (ne_ce ne)) (8 + EVEN (add_key_bytes (nd_prefix ne) (nd_page s) i (Some key))) flags (length data) = Overflow"
    and new: "ne_new ne (OVPAGES (length data) (me_psize (ce_env (ne_ce ne)))) = Ok np"
  defines "n \<equiv> \<lparr>ln_key = key, ln_flags = ucast flags OR F_BIGDATA, ln_size = length data, ln_data = le_bytes 8 (mp_pgno np)\<rparr>"
    and "result \<equiv> mdb_node_add ne i (Some key) (Some data) pgno flags child cnt s"
  shows "node_added ne s i n (node_takes (nd_prefix ne) (nd_page s) i key (ln_data n) + 2 \<le> SIZELEFT (nd_page s) \<and> add_fits ne (nd_page s) i n) result"
    and "result = Some (s', Ok x) \<Longrightarrow> x = Some (overflow_page np (OVPAGES (length data) (me_psize (ce_env (ne_ce ne)))) data)"
proof -
  note A = add_okD[OF ok]
  define mp where "mp = nd_page s"
  define big where "big = flags OR ucast F_BIGDATA"
  define kb where "kb = add_key_bytes (nd_prefix ne) mp i (Some key)"
  define trunk where "trunk = add_trunk (nd_prefix ne) mp i (Some key)"
  define ovp where "ovp = OVPAGES (length data) (me_psize (ce_env (ne_ce ne)))"
  define ofp where "ofp = overflow_page np ovp data"
  define fits where "fits \<longleftrightarrow> node_takes (nd_prefix ne) mp i key (ln_data n) + 2 \<le> SIZELEFT mp \<and> add_fits ne mp i n"
  have bf: "node_flag big F_BIGDATA" "\<not> F_ISSET32 big MDB_RESERVE" "\<not> F_ISSET32 big MDB_SPLIT_REPLACE"
    using big_flag[of flags] A(4,5) by (simp_all add: big_def)
  have uf: "(ucast big :: u16) = ucast flags OR F_BIGDATA" unfolding big_def by (rule bit_eqI) (auto simp: bit_simps)
  have ad: "added_data big (Some pg) data = le_bytes 8 pg" for pg by (simp add: added_data_def)
  have nn: "n = \<lparr>ln_key = key, ln_flags = ucast big, ln_size = length data, ln_data = added_data big (Some (mp_pgno np)) data\<rparr>"
    by (simp add: n_def uf ad)
  have takes: "node_takes (nd_prefix ne) mp i key (ln_data n) = EVEN (8 + EVEN kb + 8)" by (simp add: node_takes_def n_def kb_def)
  have ofp: "mp_pgno ofp = mp_pgno np" by (simp add: ofp_def overflow_page_def)
  define rest where "rest = (\<lambda>old_trunk. nd_bind (case old_trunk of
                 Some t \<Rightarrow> add_reencode ne i (Some key) data big t (Some (mp_pgno ofp))
               | None \<Rightarrow> add_update ne i (Some key) (Some data) pgno big None None trunk kb (EVEN (8 + EVEN kb + 8)) (Some (mp_pgno ofp)) None)
                 (\<lambda>_. nd_res (Ok (Some ofp))))"
  have run: "add_overflow ne i (Some key) data pgno flags trunk kb (8 + EVEN kb) old s1 =
      (if EVEN (8 + EVEN kb + 8) + 2 \<le> SIZELEFT mp then rest old s1 else node_full s1)" if "nd_page s1 = mp" for old s1
    using that A(4) new
    by (cases old) (simp_all add: add_overflow_def Let_def page_new_overflow rest_def ofp_def overflow_page_def ovp_def big_def)
  define s0 where "s0 = s"
  obtain old s1 where s1: "mdb_node_add ne i (Some key) (Some data) pgno flags child cnt s = add_overflow ne i (Some key) data pgno flags trunk kb (8 + EVEN kb) old s1"
    "nd_rb s1 = nd_rb s" "old = (if nd_prefix ne \<and> i = 0 \<and> 0 < NUMKEYS mp then Some (key_at mp 0) else None)"
  proof (cases "nd_prefix ne \<and> i = 0 \<and> 0 < NUMKEYS mp")
    case False
    then have nr: "\<not> need_reencode (nd_prefix ne) (nd_page s) i (Some key)" using need_reencode_iff[OF ok] by (simp add: mp_def)
    show ?thesis
      by (rule that[of None s]) (use False in \<open>simp_all add: node_add_run[OF A(1)] Let_def if_not_P[OF nr] place trunk_def kb_def mp_def\<close>)
  next
    case True
    then have nr: "need_reencode (nd_prefix ne) (nd_page s) i (Some key)" using need_reencode_iff[OF ok] by (simp add: mp_def)
    have "prefix_page (ne_capacity ne) (nd_page s)" "0 < NUMKEYS (nd_page s)" using A(1) True leaf_page_prefix by (simp_all add: mp_def)
    then obtain rd where rd: "read_old_trunk ne s = Some (s\<lparr>nd_rd := rd\<rparr>, Ok (key_at (nd_page s) 0))" using read_old_trunk_spec by blast
    have b: "nd_bind (nd_bind (read_old_trunk ne) (\<lambda>t. nd_res (Ok (Some t)))) g s = g (Some (key_at (nd_page s) 0)) (s\<lparr>nd_rd := rd\<rparr>)" for g :: "bytes option \<Rightarrow> MDB_page option nd"
      using rd by (simp add: nd_bind_def nd_res_def)
    have "mdb_node_add ne i (Some key) (Some data) pgno flags child cnt s =
        add_overflow ne i (Some key) data pgno flags trunk kb (8 + EVEN kb) (Some (key_at mp 0)) (s\<lparr>nd_rd := rd\<rparr>)"
      unfolding node_add_run[OF A(1)] Let_def if_P[OF nr] b place data_place.case trunk_def kb_def mp_def ..
    then show ?thesis by (rule that) (use True in simp_all)
  qed
  have p1: "nd_page s1 = mp" using s1(2) by (simp add: mp_def)
  have res: "result = (if EVEN (8 + EVEN kb + 8) + 2 \<le> SIZELEFT mp then rest old s1 else node_full s1)"
    unfolding result_def s1(1) run[OF p1] ..
  show "result = Some (s', Ok x) \<Longrightarrow> x = Some (overflow_page np (OVPAGES (length data) (me_psize (ce_env (ne_ce ne)))) data)"
    unfolding res by (auto simp: rest_def nd_bind_def nd_res_def node_full_def ofp_def ovp_def split: if_splits option.splits prod.splits res.splits)
  have full: "node_added ne s i n fits (node_full s1)" if "\<not> EVEN (8 + EVEN kb + 8) + 2 \<le> SIZELEFT mp"
    using that s1(2) by (simp add: node_added_def node_full_def fits_def takes)
  have room: "node_added ne s i n fits (rest old s1)" if r: "EVEN (8 + EVEN kb + 8) + 2 \<le> SIZELEFT mp"
  proof (cases "nd_prefix ne \<and> i = 0 \<and> 0 < NUMKEYS mp")
    case True
    have p: "prefix_page (ne_capacity ne) (nd_page s1)" using A(1) True leaf_page_prefix p1 by (simp add: mp_def)
    have clash: "key_at (nd_page s1) j \<noteq> key_at (nd_page s1) 0" if "0 < j" "j < NUMKEYS (nd_page s1)" for j
      using ok that True p1 by (auto simp: add_ok_def mp_def)
    have "node_added ne s1 i n (page_need (insert_at i n (leaf_view (nd_page s1))) \<le> ne_capacity ne)
        (add_reencode ne i (Some key) data big (key_at (nd_page s1) 0) (Some (mp_pgno np)) s1)"
      unfolding nn by (rule add_reencode_spec) (use p True A bf clash p1 s1(2) in \<open>simp_all add: mp_def\<close>)
    moreover have "fits \<longleftrightarrow> page_need (insert_at i n (leaf_view (nd_page s1))) \<le> ne_capacity ne"
      unfolding fits_def takes add_fits_def p1 using r True by simp
    ultimately have "node_added ne s i n fits (add_reencode ne i (Some key) data big (key_at mp 0) (Some (mp_pgno ofp)) s1)"
      unfolding node_added_def p1 ofp mp_def by simp
    then show ?thesis using s1(3) True by (simp add: rest_def node_added_bind)
  next
    case False
    have sz: "EVEN (8 + EVEN kb + 8) = EVEN (8 + EVEN (add_key_bytes (nd_prefix ne) (nd_page s) i (Some key)) + length (added_data big (Some (mp_pgno np)) data))"
      by (simp add: kb_def mp_def ad)
    have ld: "length (added_data big (Some (mp_pgno np)) data) = (if node_flag big F_BIGDATA then 8 else length data)" using bf by (simp add: ad)
    have fit: "EVEN (8 + EVEN kb + 8) + 2 \<le> SIZELEFT (nd_page s)" using r by (simp add: mp_def)
    have pg: "nd_page s1 = (nd_page s)\<lparr>mp_pad := mp_pad mp\<rparr>" using p1 by (simp add: mp_def)
    have us: "stride_usable (rs_cache (nd_rb s1)) None" by (simp add: stride_usable_def)
    have first: "nd_prefix ne \<Longrightarrow> i = 0 \<Longrightarrow> NUMKEYS (nd_page s) = 0" using False by (auto simp: mp_def)
    have "node_added ne s i n True (add_update ne i (Some key) (Some data) pgno big None None trunk kb (EVEN (8 + EVEN kb + 8)) (Some (mp_pgno ofp)) None s1)"
      using add_update_added[OF A(1,2) first A(7,3) bf(2) ld sz fit pg us, of pgno None None] unfolding nn ofp trunk_def kb_def mp_def .
    moreover have "fits"
    proof -
      have k: "ln_key n = key" by (simp add: n_def)
      show ?thesis unfolding fits_def add_fits_def if_not_P[OF False] k takes using r by simp
    qed
    ultimately show ?thesis using s1(3) False by (simp add: rest_def node_added_bind)
  qed
  show "node_added ne s i n (node_takes (nd_prefix ne) (nd_page s) i key (ln_data n) + 2 \<le> SIZELEFT (nd_page s) \<and> add_fits ne (nd_page s) i n) result"
    using full room unfolding res fits_def mp_def by auto
qed

end
