(* ===== verification/Node_Del.thy ===== *)
theory Node_Del
  imports Node_Ops_Correct
begin

text \<open>
  Deleting a node of a leaf page (\<open>mdb_node_del\<close>): the node leaves the list of nodes. The rebuild behind the deletion
  of a trunk, whose error the function cannot report, never runs out of room on a page in the order of the keys.
\<close>

section \<open>The stride at a deletion\<close>

lemma apply_delete_pad:
  "plain_leaf mp \<Longrightarrow> \<exists>e' x. mdb_prefix_stride_apply_delete prefix e mp i = (e', mp\<lparr>mp_pad := x\<rparr>)"
proof -
  assume l: "plain_leaf mp"
  have same: "\<exists>x. mp = mp\<lparr>mp_pad := x\<rparr>" by (rule exI[of _ "mp_pad mp"]) simp
  show ?thesis using same store_stride_pad[OF l, of prefix]
    by (auto simp: mdb_prefix_stride_apply_delete_def Let_def split: prod.splits)
qed

lemma del_stride_pad:
  assumes l: "plain_leaf (nd_page s)"
  shows "\<exists>s' x. del_stride ne stride s = Some (s', Ok ()) \<and> nd_page s' = (nd_page s)\<lparr>mp_pad := x\<rparr> \<and> nd_txn s' = nd_txn s"
proof -
  have same: "\<exists>x. nd_page s = (nd_page s)\<lparr>mp_pad := x\<rparr>" by (rule exI[of _ "mp_pad (nd_page s)"]) simp
  show ?thesis using same store_stride_pad[OF l, where n = 0] refresh_stride_pad[OF l]
    by (cases "nd_prefix ne"; cases stride) (simp_all add: del_stride_def Let_def)
qed

section \<open>Removing a slot\<close>

lemma view_remove:
  assumes st: "stored_nodes mp' = remove_at i (stored_nodes mp)" and i: "0 < i" "i < NUMKEYS mp"
  shows "leaf_view mp' = remove_at i (leaf_view mp)"
proof (rule nth_equalityI)
  have num: "NUMKEYS mp' = NUMKEYS mp - 1" using arg_cong[OF st, of length] i by simp
  then show "length (leaf_view mp') = length (remove_at i (leaf_view mp))" using i by simp
  have nth: "leaf_node_at mp' j = leaf_node_at mp (if j < i then j else Suc j)" if "j < NUMKEYS mp'" for j
    using arg_cong[OF st, of "\<lambda>xs. xs ! j"] that i num by (auto simp: nth_stored_nodes nth_remove_at)
  fix j assume "j < length (leaf_view mp')"
  then have j: "j < NUMKEYS mp'" by simp
  have t: "key_at mp' 0 = key_at mp 0" using nth[of 0] j i by (simp add: key_at_stored nth_stored_nodes)
  show "leaf_view mp' ! j = remove_at i (leaf_view mp) ! j"
    using j i num nth[OF j] by (auto simp: leaf_view_def t nth_remove_at logical_node_def)
qed

text \<open>The outcome over the nodes of the page. A rebuild that fails leaves the page and marks the transaction.\<close>

definition node_deleted :: "node_env \<Rightarrow> node_state \<Rightarrow> nat \<Rightarrow> bool \<Rightarrow> (node_state \<times> unit res) option \<Rightarrow> bool" where
  "node_deleted ne s i fits result \<longleftrightarrow>
     (\<exists>s'. result = Some (s', Ok ()) \<and>
       (leaf_page (nd_prefix ne) (ne_capacity ne) (nd_page s') \<and>
          page_view (nd_prefix ne) (nd_page s') = remove_at i (page_view (nd_prefix ne) (nd_page s)) \<and>
          mp_flags (nd_page s') = mp_flags (nd_page s) \<and> mp_pgno (nd_page s') = mp_pgno (nd_page s) \<and> nd_txn s' = nd_txn s \<or>
        nd_page s' = nd_page s \<and> nd_prefix ne \<and> i = 0 \<and>
          (\<not> fits \<and> nd_txn s' = mdb_txn_mark_error (nd_txn s) MDB_PAGE_FULL \<or>
           \<not> ne_alloc ne \<and> nd_txn s' = mdb_txn_mark_error (nd_txn s) ENOMEM)))"

lemma remove_at_subset: "set (remove_at i xs) \<subseteq> set xs"
  by (auto simp: remove_at_def dest: in_set_takeD in_set_dropD)

lemma del_slot_deleted:
  assumes lp: "leaf_page (nd_prefix ne) (ne_capacity ne) (nd_page s)" and i: "i < NUMKEYS (nd_page s)" "nd_prefix ne \<Longrightarrow> 0 < i"
    and page: "nd_page s1 = (nd_page s)\<lparr>mp_pad := x\<rparr>" and txn: "nd_txn s1 = nd_txn s"
  shows "node_deleted ne s i fits (del_slot ne i stride s1)"
proof -
  define mp where "mp = nd_page s"
  note L = leaf_pageD[OF lp[folded mp_def]]
  let ?sz = "node_size (nd_page s1) (NODEPTR (nd_page s1) i)"
  have sz: "?sz = node_size mp (NODEPTR mp i)"
    unfolding page mp_def[symmetric] by (rule node_size_cong) (simp_all add: NODEPTR_def)
  obtain s2 x2 where s2: "nd_page s2 = mp\<lparr>mp_pad := x2\<rparr>" "nd_txn s2 = nd_txn s"
    "del_slot ne i stride s1 = nd_bind (nd_update (\<lambda>mp. mdb_page_remove_slot mp i ?sz)) (\<lambda>_ s.
          if IS_LEAF (nd_page s) \<and> \<not> IS_LEAF2 (nd_page s) then del_stride ne stride s else Some (s, Ok ())) s2"
  proof (cases stride)
    case None
    have "nd_page s1 = mp\<lparr>mp_pad := x\<rparr>" using page by (simp add: mp_def)
    moreover have self: "s1\<lparr>nd_rb := nd_rb s1\<rparr> = s1" by simp
    ultimately show ?thesis by (intro that[OF _ txn]) (simp_all only: None del_slot_def Let_def option.case self)
  next
    case (Some j)
    have l1: "plain_leaf (nd_page s1)" using L(2) page by (simp add: mp_def)
    obtain e' y where d: "mdb_prefix_stride_apply_delete (nd_prefix ne) (sc_entries (rs_cache (nd_rb s1)) ! j) (nd_page s1) i = (e', (nd_page s1)\<lparr>mp_pad := y\<rparr>)"
      using apply_delete_pad[OF l1] by blast
    show ?thesis
      by (rule that[of "s1\<lparr>nd_rb := (nd_rb s1)\<lparr>rs_page := (nd_page s1)\<lparr>mp_pad := y\<rparr>, rs_cache := (rs_cache (nd_rb s1))\<lparr>sc_entries := (sc_entries (rs_cache (nd_rb s1)))[j := e']\<rparr>\<rparr>\<rparr>" y])
        (use d page txn in \<open>unfold Some, simp_all add: mp_def del_slot_def Let_def\<close>)
  qed
  have wf2: "page_wf (ne_capacity ne) (nd_page s2)" "i < NUMKEYS (nd_page s2)" using L(1) i s2(1) by (simp_all add: mp_def)
  have sz2: "?sz = node_size (nd_page s2) (NODEPTR (nd_page s2) i)"
    unfolding sz s2(1) by (rule node_size_cong) (simp_all add: NODEPTR_def)
  obtain mp' where mp': "mdb_page_remove_slot (nd_page s2) i ?sz = Ok mp'" "page_wf (ne_capacity ne) mp'"
    "page_nodes mp' = remove_at i (page_nodes (nd_page s2))" "mp_flags mp' = mp_flags (nd_page s2)" "mp_pgno mp' = mp_pgno (nd_page s2)"
    unfolding sz2 by (rule remove_slot_nodes[OF wf2]) blast
  have l': "plain_leaf mp'" using L(2) plain_leaf_cong[of mp mp'] mp'(4) s2(1) by simp
  have st: "stored_nodes mp' = remove_at i (stored_nodes mp)"
    by (rule stored_remove[OF L(2)]) (use mp' s2(1) i in \<open>simp_all add: mp_def\<close>)
  have view: "page_view (nd_prefix ne) mp' = remove_at i (page_view (nd_prefix ne) mp)"
    using st view_remove[OF st] i by (cases "nd_prefix ne") (simp_all add: page_view_def mp_def)
  have lp': "leaf_page (nd_prefix ne) (ne_capacity ne) mp'"
    using mp'(2) l' view lp remove_at_subset[of i "leaf_view mp"] by (auto simp: leaf_page_def page_view_def mp_def)
  obtain s3 x3 where s3: "del_stride ne stride (set_page mp' s2) = Some (s3, Ok ())" "nd_page s3 = mp'\<lparr>mp_pad := x3\<rparr>" "nd_txn s3 = nd_txn s2"
    using del_stride_pad[of "set_page mp' s2" ne stride] l' by auto
  have fl: "IS_LEAF mp'" "\<not> IS_LEAF2 mp'" using l' by (simp_all add: plain_leaf_def)
  have "del_slot ne i stride s1 = Some (s3, Ok ())"
    unfolding s2(3) nd_update_simps(1)[where f = "\<lambda>mp. mdb_page_remove_slot mp i ?sz", OF mp'(1)] using fl s3(1) by simp
  then show ?thesis using s3 lp' view mp'(4,5) s2(1,2) by (simp add: node_deleted_def mp_def)
qed

section \<open>\<open>mdb_node_del\<close> on leaf pages\<close>

definition del_ok :: "node_env \<Rightarrow> node_state \<Rightarrow> nat \<Rightarrow> bool" where
  "del_ok ne s i \<longleftrightarrow> leaf_page (nd_prefix ne) (ne_capacity ne) (nd_page s) \<and> i < NUMKEYS (nd_page s) \<and>
     (nd_prefix ne \<longrightarrow> \<not> ce_rdonly (ne_ce ne) \<and> stride_ready (rs_cache (nd_rb s)) (nd_page s) \<and>
        scratch_ok (rs_scratch (nd_rb s)) \<and> env_ok (ce_env (ne_ce ne)))"

lemma node_del_trunk:
  assumes ok: "del_ok ne s 0" and pre: "nd_prefix ne"
  shows "node_deleted ne s 0 (page_need (remove_at 0 (leaf_view (nd_page s))) \<le> ne_capacity ne) (mdb_node_del ne ksize 0 s)"
proof -
  have p: "prefix_page (ne_capacity ne) (nd_page s)" "0 < NUMKEYS (nd_page s)" using ok pre by (simp_all add: del_ok_def leaf_page_prefix)
  have so: "scratch_ok (rs_scratch (nd_rb s))" "env_ok (ce_env (ne_ce ne))" using ok pre by (simp_all add: del_ok_def)
  have cap: "ne_capacity ne < 65536" and l: "plain_leaf (nd_page s)" using p slots_wfD(1) by (auto simp: prefix_page_def page_wf_def)
  have k: "ksize_at (nd_page s) 0 \<le> MDB_KEYBUF_MAX" using trunk_small[OF p] by (simp add: small_key_def)
  have fl: "IS_LEAF (nd_page s)" "\<not> IS_LEAF2 (nd_page s)" using l by (simp_all add: plain_leaf_def)
  let ?v = "remove_at 0 (leaf_view (nd_page s))"
  let ?call = "mdb_leaf_rebuild_after_trunk_delete (ne_alloc ne) (ce_env (ne_ce ne)) (nd_prefix ne) (ne_snap0 ne) (ne_capacity ne) 0
      (Some (key_at (nd_page s) 0))"
  have "rebuilds_to (ne_alloc ne) (ne_capacity ne) (nd_rb s) ?v (?call (nd_rb s))"
    by (rule trunk_delete_spec[OF p(1) pre p(2) so cap])
  then obtain rb r where r: "?call (nd_rb s) = Some (rb, r)"
    "r = Ok () \<and> page_need ?v \<le> ne_capacity ne \<and> leaf_view (rs_page rb) = ?v \<and> prefix_page (ne_capacity ne) (rs_page rb) \<and>
           mp_flags (rs_page rb) = mp_flags (nd_page s) \<and> mp_pgno (rs_page rb) = mp_pgno (nd_page s) \<and>
           mp_pad (rs_page rb) = list_max (map (\<lambda>n. length (ln_key n)) ?v) \<or>
         r = Err MDB_PAGE_FULL \<and> ne_capacity ne < page_need ?v \<and> rs_page rb = nd_page s \<or>
         r = Err ENOMEM \<and> \<not> ne_alloc ne \<and> rs_page rb = nd_page s"
    unfolding rebuilds_to_def by (elim exE conjE) (rule that)
  have rr: "nd_rebuild ?call s = Some (s\<lparr>nd_rb := rb\<rparr>, r)" using r(1) by (simp add: nd_rebuild_def)
  have run: "mdb_node_del ne ksize 0 s =
      (case r of Err e \<Rightarrow> Some (s\<lparr>nd_rb := rb, nd_txn := mdb_txn_mark_error (nd_txn s) e\<rparr>, Ok ()) | r \<Rightarrow> Some (s\<lparr>nd_rb := rb\<rparr>, r))"
    using p(2) pre k fl rr by (cases r) (simp_all add: mdb_node_del_def Let_def)
  from r(2) show ?thesis
    by (elim disjE conjE) (simp_all add: run node_deleted_def pre leaf_page_prefix page_view_def)
qed

lemma node_del_spec:
  assumes ok: "del_ok ne s i"
  shows "node_deleted ne s i (page_need (remove_at 0 (leaf_view (nd_page s))) \<le> ne_capacity ne) (mdb_node_del ne ksize i s)"
proof (cases "nd_prefix ne \<and> i = 0")
  case True
  then show ?thesis using node_del_trunk ok by blast
next
  case False
  have lp: "leaf_page (nd_prefix ne) (ne_capacity ne) (nd_page s)" and i: "i < NUMKEYS (nd_page s)" "nd_prefix ne \<Longrightarrow> 0 < i"
    using ok False by (auto simp: del_ok_def)
  note L = leaf_pageD[OF lp]
  have self: "nd_page s = (nd_page s)\<lparr>mp_pad := mp_pad (nd_page s)\<rparr>" by simp
  show ?thesis
  proof (cases "nd_prefix ne")
    case nop: False
    then have "mdb_node_del ne ksize i s = del_slot ne i None s" using i L by (simp add: mdb_node_del_def Let_def)
    then show ?thesis using del_slot_deleted[OF lp i self] by simp
  next
    case pre: True
    obtain c' r where pr: "mdb_prefix_stride_prepare (ne_alloc ne) (ce_rdonly (ne_ce ne)) True (rs_cache (nd_rb s)) (nd_page s) = Some (c', r)"
      "r = Err ENOMEM \<and> \<not> ne_alloc ne \<or> (\<exists>x stride. r = Ok ((nd_page s)\<lparr>mp_pad := x\<rparr>, stride) \<and> stride_usable c' stride)"
      using prepare_outcome[of "rs_cache (nd_rb s)" "nd_page s" "ce_rdonly (ne_ce ne)" "ne_alloc ne"] L(2) ok pre by (auto simp: del_ok_def)
    have run: "mdb_node_del ne ksize i s = (case r of
         Ok (mp, stride) \<Rightarrow> del_slot ne i stride (s\<lparr>nd_rb := (nd_rb s)\<lparr>rs_cache := c', rs_page := mp\<rparr>\<rparr>)
       | Err e \<Rightarrow> del_slot ne i None (s\<lparr>nd_rb := (nd_rb s)\<lparr>rs_cache := c'\<rparr>\<rparr>)
       | Abort \<Rightarrow> Some (s\<lparr>nd_rb := (nd_rb s)\<lparr>rs_cache := c'\<rparr>\<rparr>, Abort))"
      using i L pre pr(1) by (cases r) (auto simp: mdb_node_del_def Let_def)
    from pr(2) show ?thesis
    proof (elim disjE exE conjE)
      assume "r = Err ENOMEM"
      then show ?thesis unfolding run by (simp add: del_slot_deleted[OF lp i, of _ "mp_pad (nd_page s)"])
    next
      fix x stride assume "r = Ok ((nd_page s)\<lparr>mp_pad := x\<rparr>, stride)"
      then show ?thesis unfolding run by (simp add: del_slot_deleted[OF lp i, of _ x])
    qed
  qed
qed

end
