(* ===== verification/Node_Props.thy ===== *)
theory Node_Props
  imports Node_Del
begin

text \<open>
  What callers rely on when they add and delete nodes of leaf pages: the sizes they compute beforehand
  are enough, and a rebuild behind the deletion of the first key never runs out of room on a page whose
  keys are in the order of their bytes.
\<close>

section \<open>Shared prefixes in key order\<close>

lemma shared_prefix_mono:
  "a \<le> b \<Longrightarrow> b \<le> c \<Longrightarrow> mdb_leaf_shared_prefix a c \<le> mdb_leaf_shared_prefix b c" for a b c :: bytes
proof (induction a c arbitrary: b rule: mdb_leaf_shared_prefix.induct)
  case (1 x xs y ys)
  show ?case
  proof (cases b)
    case (Cons z zs)
    then show ?thesis using 1 by (auto split: if_splits)
  qed (use 1 in simp)
qed auto

lemma varint_length_step: "n < 2 ^ 62 \<Longrightarrow> mdb_varint_length (word_of_nat (Suc n)) \<le> Suc (mdb_varint_length (word_of_nat n))"
proof -
  assume n: "n < 2 ^ 62"
  let ?l = "mdb_varint_length (word_of_nat n)"
  have u: "unat (word_of_nat n :: u64) = n" "unat (word_of_nat (Suc n) :: u64) = Suc n"
    using n by (simp add: unat_small) (rule unat_small, use n in simp)
  have "n < 128 ^ ?l" using varint_length_le_iff[of ?l "word_of_nat n"] u by simp
  moreover have "(128::nat) ^ ?l * 1 < 128 ^ ?l * 128" by simp
  ultimately have "Suc n < 128 ^ Suc ?l" by (simp add: mult.commute)
  then show ?thesis using varint_length_le_iff[of "Suc ?l" "word_of_nat (Suc n)"] u by simp
qed

lemma varint_length_diff: "m \<le> n \<Longrightarrow> n < 2 ^ 62 \<Longrightarrow> mdb_varint_length (word_of_nat n) \<le> mdb_varint_length (word_of_nat m) + (n - m)"
proof (induction n)
  case (Suc n)
  then show ?case using varint_length_step[of n] by (cases "m = Suc n") auto
qed simp

text \<open>A key encoded against a nearer key is no longer.\<close>

lemma length_enc_mono:
  assumes "a \<le> b" "b \<le> c" "small_key c"
  shows "length (enc b c) \<le> length (enc a c)"
proof -
  have le: "mdb_leaf_shared_prefix a c \<le> mdb_leaf_shared_prefix b c" by (rule shared_prefix_mono[OF assms(1,2)])
  have lc: "mdb_leaf_shared_prefix b c \<le> length c" by (rule shared_prefix_le)
  then have "mdb_leaf_shared_prefix b c < 2 ^ 62" using assms(3) by (simp add: small_key_def MDB_KEYBUF_MAX_def)
  from varint_length_diff[OF le this] show ?thesis using le lc
    by (simp add: length_enc mdb_leaf_encoded_size_def Let_def)
qed

lemma EVEN_mono: "a \<le> b \<Longrightarrow> EVEN a \<le> EVEN b"
  unfolding EVEN_def by (auto elim!: evenE oddE)

section \<open>The bytes of a page\<close>

text \<open>The nodes of a well-formed page lie apart between its upper boundary and its end.\<close>

lemma slots_space:
  assumes "slots_wf psize len mp"
  shows "mp_upper mp + (\<Sum>i<NUMKEYS mp. len i) \<le> psize"
proof -
  note W = slots_wfD[OF assms]
  let ?c = "\<lambda>i. {mp_ptrs mp i..<mp_ptrs mp i + len i}"
  have "(\<Sum>i<NUMKEYS mp. len i) = (\<Sum>i<NUMKEYS mp. card (?c i))" by simp
  also have "\<dots> = card (\<Union>i<NUMKEYS mp. ?c i)"
  proof (rule card_UN_disjoint[symmetric])
    show "\<forall>i\<in>{..<NUMKEYS mp}. \<forall>j\<in>{..<NUMKEYS mp}. i \<noteq> j \<longrightarrow> ?c i \<inter> ?c j = {}"
    proof (intro ballI impI)
      fix i j assume "i \<in> {..<NUMKEYS mp}" "j \<in> {..<NUMKEYS mp}" "i \<noteq> j"
      then have "mp_ptrs mp i + len i \<le> mp_ptrs mp j \<or> mp_ptrs mp j + len j \<le> mp_ptrs mp i" using W(9)[of i j] by auto
      then show "?c i \<inter> ?c j = {}" by auto
    qed
  qed auto
  also have "\<dots> \<le> card {mp_upper mp..<psize}"
  proof (rule card_mono)
    show "(\<Union>i<NUMKEYS mp. ?c i) \<subseteq> {mp_upper mp..<psize}" using W(7,8) by fastforce
  qed simp
  finally show ?thesis using W(5) by simp
qed

text \<open>Every stored key is the encoding of its key against the trunk, as \<open>mdb_node_add\<close> and the rebuild store it.\<close>

definition canonical_page :: "MDB_page \<Rightarrow> bool" where
  "canonical_page mp \<longleftrightarrow> (\<forall>i<NUMKEYS mp. key_at mp i = stored_key (key_at mp 0) i (ln_key (leaf_view mp ! i)))"

lemma nodes_need_sum:
  "nodes_need t i ns = (\<Sum>j<length ns. EVEN (NODESIZE + EVEN (length (stored_key t (i + j) (ln_key (ns ! j)))) + length (ln_data (ns ! j))))"
proof (induction ns arbitrary: i)
  case (Cons n ns)
  show ?case unfolding nodes_need.simps Cons by (simp add: sum.lessThan_Suc_shift del: sum.lessThan_Suc)
qed simp

lemma canonical_need:
  assumes lp: "leaf_page True cap mp" and c: "canonical_page mp" and n: "0 < NUMKEYS mp"
  shows "page_need (leaf_view mp) \<le> cap"
proof -
  note L = leaf_pageD[OF lp]
  note W = L(1)[unfolded page_wf_def]
  have hd: "ln_key (hd (leaf_view mp)) = key_at mp 0"
    using n by (simp add: hd_conv_nth leaf_view_def logical_node_def leaf_node_at_def)
  have "EVEN (NODESIZE + EVEN (length (stored_key (key_at mp 0) j (ln_key (leaf_view mp ! j)))) + length (ln_data (leaf_view mp ! j))) =
      node_size mp (mp_ptrs mp j)" if "j < NUMKEYS mp" for j
  proof -
    have "length (key_at mp j) = ksize_at mp j" by simp
    moreover have "length (ln_data (leaf_view mp ! j)) = data_payload mp (NODEPTR mp j)"
      using that by (simp add: leaf_view_def logical_node_def leaf_node_at_def)
    moreover have "stored_key (key_at mp 0) j (ln_key (leaf_view mp ! j)) = key_at mp j" 
      by (rule c[unfolded canonical_page_def, rule_format, OF that, symmetric])
    ultimately show ?thesis using node_size_leaf[OF L(2), of "NODEPTR mp j"] by (simp add: NODESIZE_def NODEPTR_def)
  qed
  then have "nodes_need (key_at mp 0) 0 (leaf_view mp) = (\<Sum>j<NUMKEYS mp. node_size mp (mp_ptrs mp j))"
    by (simp add: nodes_need_sum)
  then show ?thesis
    using slots_space[OF W] slots_wf_lower[OF W] L(6) by (simp add: page_need_def hd PAGEHDRSZ_def)
qed

lemma nodes_need_nearer:
  assumes "0 < i" "0 < j" "\<And>n. n \<in> set ns \<Longrightarrow> length (enc b (ln_key n)) \<le> length (enc a (ln_key n))"
  shows "nodes_need b i ns \<le> nodes_need a j ns"
  using assms
proof (induction ns arbitrary: i j)
  case (Cons n ns)
  have "EVEN (NODESIZE + EVEN (length (enc b (ln_key n))) + length (ln_data n)) \<le> EVEN (NODESIZE + EVEN (length (enc a (ln_key n))) + length (ln_data n))"
    using Cons.prems(3)[of n] by (intro EVEN_mono) (auto intro: EVEN_mono)
  moreover have "nodes_need b (Suc i) ns \<le> nodes_need a (Suc j) ns" using Cons by simp
  ultimately show ?case using Cons.prems(1,2) by (simp add: stored_key_def)
qed simp

text \<open>Without its first node a page in key order needs no more than before.\<close>

lemma need_tl:
  assumes s: "sorted_wrt (<) (map ln_key view)" and small: "\<And>n. n \<in> set view \<Longrightarrow> small_key (ln_key n)"
  shows "page_need (remove_at 0 view) \<le> page_need view"
proof (cases view)
  case Nil
  then show ?thesis by (simp add: remove_at_def)
next
  case (Cons n0 ns)
  note v0 = this
  show ?thesis
  proof (cases ns)
    case Nil
    then show ?thesis by (simp add: v0 remove_at_def page_need_def)
  next
    case (Cons n1 rest)
    let ?k0 = "ln_key n0" and ?k1 = "ln_key n1"
    have len: "length (enc ?k1 (ln_key n)) \<le> length (enc ?k0 (ln_key n))" if "n \<in> set rest" for n
      by (rule length_enc_mono) (use s small that v0 Cons in \<open>auto simp: less_imp_le\<close>)
    have rest: "nodes_need ?k1 1 rest \<le> nodes_need ?k0 2 rest" by (rule nodes_need_nearer) (simp_all add: len)
    have "length ?k1 \<le> length ?k0 + length (enc ?k0 ?k1)"
      using shared_prefix_le[of ?k0 ?k1] by (simp add: length_enc mdb_leaf_encoded_size_def Let_def)
    then have "EVEN (NODESIZE + EVEN (length ?k1) + length (ln_data n1)) \<le>
        EVEN (NODESIZE + EVEN (length ?k0) + length (ln_data n0)) + EVEN (NODESIZE + EVEN (length (enc ?k0 ?k1)) + length (ln_data n1))"
      using EVEN_le[of "length ?k1"] EVEN_le[of "NODESIZE + EVEN (length ?k1) + length (ln_data n1)"]
        EVEN_ge[of "length ?k0"] EVEN_ge[of "NODESIZE + EVEN (length ?k0) + length (ln_data n0)"] EVEN_ge[of "length (enc ?k0 ?k1)"]
        EVEN_ge[of "NODESIZE + EVEN (length (enc ?k0 ?k1)) + length (ln_data n1)"]
      by (simp add: NODESIZE_def)
    then show ?thesis using rest by (simp add: v0 Cons remove_at_def page_need_def stored_key_def numeral_2_eq_2)
  qed
qed

section \<open>The size a caller computes\<close>

lemma EVEN_2: "EVEN (n + 2) = EVEN n + 2"
  by (simp add: EVEN_def)

lemma leaf_size_takes:
  assumes "IS_LEAF mp" "\<not> IS_LEAF2 mp"
  shows "mdb_leaf_size env (Some mp) i key data prefix =
    EVEN (if 8 + EVEN (add_key_bytes prefix mp i (Some key)) + length data > me_nodemax env
          then 8 + EVEN (add_key_bytes prefix mp i (Some key)) + 8
          else 8 + EVEN (add_key_bytes prefix mp i (Some key)) + length data) + 2"
proof -
  have "add_trunk prefix mp i (Some key) = (if prefix \<and> \<not> IS_LEAF2 mp \<and> NUMKEYS mp > 0 \<and> i \<noteq> 0 then Some (key_at mp 0) else None)"
    using assms by (simp add: add_trunk_def)
  then have "fst (mdb_leaf_encoded_size (if prefix \<and> \<not> IS_LEAF2 mp \<and> NUMKEYS mp > 0 \<and> i \<noteq> 0 then Some (key_at mp 0) else None) key) =
      add_key_bytes prefix mp i (Some key)"
    using assms by (simp add: add_key_bytes_def)
  then show ?thesis unfolding mdb_leaf_size_def Let_def EVEN_2 NODESIZE_def option.case by simp
qed

section \<open>Properties\<close>

definition sample_ne :: node_env where
  "sample_ne = \<lparr>ne_ce = two_env\<lparr>ce_env := clash_env\<rparr>, ne_alloc = True, ne_snap0 = sample_page, ne_capacity = 128,
     ne_new = (\<lambda>_. Ok sample_page), ne_own_map = False\<rparr>"

definition sample_ns :: node_state where
  "sample_ns = \<lparr>nd_rb = clash_state\<lparr>rs_page := plain_page\<rparr>, nd_rd = fresh_reader, nd_txn = sample_txn\<rparr>"

lemma sample_node_state: "nd_page sample_ns = plain_page" "nd_prefix sample_ne" "ne_capacity sample_ne = 128" "ne_alloc sample_ne"
  "ce_env (ne_ce sample_ne) = clash_env" "\<not> ce_rdonly (ne_ce sample_ne)" "leaf_page True 128 plain_page"
  "stride_ready (rs_cache (nd_rb sample_ns)) plain_page" "scratch_ok (rs_scratch (nd_rb sample_ns))" "env_ok clash_env"
  using plain_prefix_page
  by (simp_all add: sample_ns_def sample_ne_def nd_prefix_def two_env_def abc_env_def leaf_page_prefix stride_ready_def cache_ok_def load_def
      clash_state_def scratch_ok_def clash_env_def env_ok_def occupied_def plain_page_def sample_page_def P_INVALID_def)

text \<open>C5. Adding a node to a leaf page, prefix-compressed or not, whose data stays in it: when there is room the new
  node, with its decoded key, its flags and its data, is inserted at its index into the list of nodes of the page and no other
  node changes, also when it becomes the first node and the whole page is encoded anew; else the page is unchanged
  and the error is MDB_PAGE_FULL. The conditions are those of \<open>add_ok\<close>: no MDB_RESERVE and no MDB_SPLIT_REPLACE, and, when the new node
  becomes the trunk of a compressed page, no other node stores the very bytes of the old trunk and the new key is not the old trunk
  (see \<open>trunk_insert_loses_key\<close> for what happens otherwise). Room is counted exactly. Only without memory can it fail otherwise.\<close>

theorem node_add_correct:
  assumes "add_ok ne s i key data flags"
    and "data_place (ce_env (ne_ce ne)) (8 + EVEN (add_key_bytes (nd_prefix ne) (nd_page s) i (Some key))) flags (length data) \<noteq> Overflow"
  shows "node_added ne s i \<lparr>ln_key = key, ln_flags = ucast flags, ln_size = length data, ln_data = added_data flags None data\<rparr>
    (add_fits ne (nd_page s) i \<lparr>ln_key = key, ln_flags = ucast flags, ln_size = length data, ln_data = added_data flags None data\<rparr>)
    (mdb_node_add ne i (Some key) (Some data) pgno flags child cnt s)"
  by (rule node_add_leaf_spec[OF assms])

theorem node_add_correct_witness:
  "\<exists>s' x. mdb_node_add sample_ne 0 (Some [1]) (Some [67]) 0 0 None None sample_ns = Some (s', Ok x) \<and>
    map ln_key (leaf_view (nd_page s')) = [[1], [2, 9, 7], [2, 9, 9, 8]]"
proof -
  let ?n = "\<lparr>ln_key = [1], ln_flags = ucast (0 :: u32), ln_size = length [67 :: byte], ln_data = added_data 0 None [67]\<rparr>"
  have "add_ok sample_ne sample_ns 0 [1] [67] 0"
    by (auto simp: plain_nodes less_2_cases_iff add_ok_def sample_node_state F_ISSET32_def MDB_RESERVE_def MDB_SPLIT_REPLACE_def F_ISSET_def F_BIGDATA_def small_key_def MDB_KEYBUF_MAX_def)
  moreover have "data_place clash_env (8 + EVEN (add_key_bytes True plain_page 0 (Some [1]))) 0 (length [67 :: byte]) \<noteq> Overflow" by code_simp
  ultimately have add: "node_added sample_ne sample_ns 0 ?n (add_fits sample_ne plain_page 0 ?n) (mdb_node_add sample_ne 0 (Some [1]) (Some [67]) 0 0 None None sample_ns)"
    using node_add_correct[of sample_ne sample_ns 0 "[1]" "[67]" 0 0 None None] by (simp add: sample_node_state)
  have "page_need (insert_at 0 ?n (leaf_view plain_page)) \<le> 128" by code_simp
  then have "add_fits sample_ne plain_page 0 ?n" by (simp add: add_fits_def sample_node_state plain_nodes)
  then show ?thesis using add plain_keys by (auto simp: node_added_def sample_node_state page_view_def insert_at_def)
qed

text \<open>C34. Data too large for a node goes to an overflow page of just enough pages, whose header and content are as
  given, and the node holds its number and the size of the data. There must be room for that node, checked before a page is taken.\<close>

theorem node_add_overflow_correct:
  assumes "add_ok ne s i key data flags"
    and "data_place (ce_env (ne_ce ne)) (8 + EVEN (add_key_bytes (nd_prefix ne) (nd_page s) i (Some key))) flags (length data) = Overflow"
    and "ne_new ne (OVPAGES (length data) (me_psize (ce_env (ne_ce ne)))) = Ok np"
  shows "node_added ne s i \<lparr>ln_key = key, ln_flags = ucast flags OR F_BIGDATA, ln_size = length data, ln_data = le_bytes 8 (mp_pgno np)\<rparr>
      (node_takes (nd_prefix ne) (nd_page s) i key (le_bytes 8 (mp_pgno np)) + 2 \<le> SIZELEFT (nd_page s) \<and>
        add_fits ne (nd_page s) i \<lparr>ln_key = key, ln_flags = ucast flags OR F_BIGDATA, ln_size = length data, ln_data = le_bytes 8 (mp_pgno np)\<rparr>)
      (mdb_node_add ne i (Some key) (Some data) pgno flags child cnt s) \<and>
    (\<forall>s' x. mdb_node_add ne i (Some key) (Some data) pgno flags child cnt s \<noteq> Some (s', Ok x) \<or>
      x = Some (overflow_page np (OVPAGES (length data) (me_psize (ce_env (ne_ce ne)))) data))"
  using node_add_overflow_spec(1)[OF assms, of pgno child cnt] node_add_overflow_spec(2)[OF assms, of pgno child cnt] by auto

theorem node_add_overflow_correct_witness:
  "\<exists>s'. mdb_node_add sample_ne 1 (Some [2, 9, 8]) (Some (replicate 100 7)) 0 0 None None sample_ns =
      Some (s', Ok (Some (overflow_page sample_page 1 (replicate 100 7)))) \<and>
    map ln_key (leaf_view (nd_page s')) = [[2, 9, 7], [2, 9, 8], [2, 9, 9, 8]]"
proof -
  let ?d = "replicate 100 7 :: bytes"
  let ?n = "\<lparr>ln_key = [2, 9, 8], ln_flags = ucast (0 :: u32) OR F_BIGDATA, ln_size = length ?d, ln_data = le_bytes 8 (mp_pgno sample_page)\<rparr>"
  let ?r = "mdb_node_add sample_ne 1 (Some [2, 9, 8]) (Some ?d) 0 0 None None sample_ns"
  have ok: "add_ok sample_ne sample_ns 1 [2, 9, 8] ?d 0"
    by (simp add: add_ok_def sample_node_state plain_nodes F_ISSET32_def MDB_RESERVE_def MDB_SPLIT_REPLACE_def F_ISSET_def F_BIGDATA_def small_key_def MDB_KEYBUF_MAX_def)
  have place: "data_place clash_env (8 + EVEN (add_key_bytes True plain_page 1 (Some [2, 9, 8]))) 0 (length ?d) = Overflow" by code_simp
  have pages: "OVPAGES (length ?d) (me_psize clash_env) = 1" by code_simp
  have "node_added sample_ne sample_ns 1 ?n (node_takes True plain_page 1 [2, 9, 8] (le_bytes 8 (mp_pgno sample_page)) + 2 \<le> SIZELEFT plain_page \<and>
        add_fits sample_ne plain_page 1 ?n) ?r \<and> (\<forall>s' x. ?r \<noteq> Some (s', Ok x) \<or> x = Some (overflow_page sample_page 1 ?d))"
    using node_add_overflow_correct[OF ok, of sample_page 0 None None] place pages
    by (simp only: sample_node_state simp_thms) (simp add: sample_ne_def)
  moreover have "node_takes True plain_page 1 [2, 9, 8] (le_bytes 8 (mp_pgno sample_page)) + 2 \<le> SIZELEFT plain_page" by code_simp
  moreover from this have "add_fits sample_ne plain_page 1 ?n" by (simp add: add_fits_def sample_node_state)
  ultimately have "node_added sample_ne sample_ns 1 ?n True ?r" "\<forall>s' x. ?r \<noteq> Some (s', Ok x) \<or> x = Some (overflow_page sample_page 1 ?d)" by simp_all
  then show ?thesis using plain_keys by (auto simp: node_added_def sample_node_state page_view_def insert_at_def take_Cons' drop_Cons')
qed

text \<open>C33. The size a caller computes with \<open>mdb_leaf_size\<close> is enough: when that much is left on the page, adding the
  node, with its data in the page or on an overflow page, does not report a full page. This is for an insertion that
  leaves the trunk of a compressed page as it is (in front of it the size of the whole page counts, see \<open>node_add_correct\<close>), for data that are
  neither a page number (F_BIGDATA) nor a sub-page (F_DUPDATA without F_SUBDATA), under the conditions of \<open>add_ok\<close> (no MDB_RESERVE,
  no MDB_SPLIT_REPLACE), and when an overflow page, if one is needed, can be allocated.\<close>

theorem leaf_size_enough:
  assumes "add_ok ne s i key data flags" "\<not> (nd_prefix ne \<and> i = 0 \<and> 0 < NUMKEYS (nd_page s))"
    and "\<not> node_flag flags F_BIGDATA" "\<not> node_flag flags F_DUPDATA \<or> node_flag flags F_SUBDATA"
    and "mdb_leaf_size (ce_env (ne_ce ne)) (Some (nd_page s)) i key data (nd_prefix ne) \<le> SIZELEFT (nd_page s)"
    and "ne_new ne (OVPAGES (length data) (me_psize (ce_env (ne_ce ne)))) = Ok np"
  shows "\<exists>n. ln_key n = key \<and> ln_size n = length data \<and>
    node_added ne s i n True (mdb_node_add ne i (Some key) (Some data) pgno flags child cnt s)"
proof -
  let ?mp = "nd_page s" and ?env = "ce_env (ne_ce ne)"
  let ?sz = "8 + EVEN (add_key_bytes (nd_prefix ne) ?mp i (Some key))"
  note L = leaf_pageD[OF add_okD(1)[OF assms(1)]]
  note size = assms(5)[unfolded leaf_size_takes[OF L(3,4)]]
  show ?thesis
  proof (cases "?sz + length data > me_nodemax ?env")
    case False
    then have "data_place ?env ?sz flags (length data) = In_node (?sz + length data)" using assms(3) by (simp add: data_place_def)
    then have inl: "data_place ?env ?sz flags (length data) \<noteq> Overflow" by simp
    have fits: "add_fits ne ?mp i \<lparr>ln_key = key, ln_flags = ucast flags, ln_size = length data, ln_data = added_data flags None data\<rparr> = True"
      using size False assms(2,3) by (auto simp: add_fits_def node_takes_def added_data_def)
    show ?thesis using node_add_leaf_spec[OF assms(1) inl, unfolded fits]
      by (intro exI[of _ "\<lparr>ln_key = key, ln_flags = ucast flags, ln_size = length data, ln_data = added_data flags None data\<rparr>"]) simp
  next
    case True
    then have ov: "data_place ?env ?sz flags (length data) = Overflow" using assms(3,4) by (auto simp: data_place_def)
    let ?n = "\<lparr>ln_key = key, ln_flags = ucast flags OR F_BIGDATA, ln_size = length data, ln_data = le_bytes 8 (mp_pgno np)\<rparr>"
    have fits: "(node_takes (nd_prefix ne) ?mp i key (ln_data ?n) + 2 \<le> SIZELEFT ?mp \<and> add_fits ne ?mp i ?n) = True"
      using size True assms(2) by (auto simp: add_fits_def node_takes_def)
    show ?thesis using node_add_overflow_spec(1)[OF assms(1) ov assms(6), unfolded fits] by (intro exI[of _ ?n]) simp
  qed
qed

theorem leaf_size_enough_witness:
  "\<exists>n. ln_key n = [2, 9, 8] \<and> ln_size n = 1 \<and>
    node_added sample_ne sample_ns 1 n True (mdb_node_add sample_ne 1 (Some [2, 9, 8]) (Some [67]) 0 0 None None sample_ns)"
proof -
  have ok: "add_ok sample_ne sample_ns 1 [2, 9, 8] [67] 0"
    by (simp add: add_ok_def sample_node_state plain_nodes F_ISSET32_def MDB_RESERVE_def MDB_SPLIT_REPLACE_def F_ISSET_def F_BIGDATA_def small_key_def MDB_KEYBUF_MAX_def)
  have sz: "mdb_leaf_size clash_env (Some plain_page) 1 [2, 9, 8] [67] True \<le> SIZELEFT plain_page" by code_simp
  have f: "\<not> node_flag 0 F_BIGDATA" "\<not> node_flag 0 F_DUPDATA \<or> node_flag 0 F_SUBDATA" by code_simp+
  have "ne_new sample_ne m = Ok sample_page" for m by (simp add: sample_ne_def)
  then show ?thesis using leaf_size_enough[OF ok _ f, of sample_page 0 None None] sz by (simp add: sample_node_state)
qed

text \<open>C6. Deleting a node of a leaf page takes it out of the list of nodes and leaves every other node, the page well-formed and the
  transaction unmarked. Only the deletion of the first node of a prefix-compressed page can fail, when the others do not fit
  behind the new trunk or without memory: then the page is unchanged and the transaction is marked, as the function has no result.\<close>

theorem node_del_correct:
  assumes "del_ok ne s i"
  shows "node_deleted ne s i (page_need (remove_at 0 (leaf_view (nd_page s))) \<le> ne_capacity ne) (mdb_node_del ne ksize i s)"
  by (rule node_del_spec[OF assms])

theorem node_del_correct_witness:
  "\<exists>s'. mdb_node_del sample_ne 0 1 sample_ns = Some (s', Ok ()) \<and> map ln_key (leaf_view (nd_page s')) = [[2, 9, 7]]"
proof -
  have "del_ok sample_ne sample_ns 1" by (simp add: del_ok_def sample_node_state plain_nodes)
  from node_del_correct[OF this, of 0] show ?thesis
    using plain_keys by (auto simp: node_deleted_def sample_node_state page_view_def remove_at_def take_map drop_map)
qed

text \<open>C7. With the default comparison that failure cannot occur for want of room: on a page whose keys ascend in byte order
  and are stored as the code stores them, the nodes behind the first need no more bytes encoded against the second key than
  against the first, so the deletion of the first node always succeeds when there is memory.\<close>

theorem trunk_delete_never_full:
  assumes "del_ok ne s 0" "nd_prefix ne" "ne_alloc ne" "canonical_page (nd_page s)" "sorted_wrt (<) (map ln_key (leaf_view (nd_page s)))"
  shows "\<exists>s'. mdb_node_del ne ksize 0 s = Some (s', Ok ()) \<and> leaf_view (nd_page s') = remove_at 0 (leaf_view (nd_page s)) \<and>
    leaf_page True (ne_capacity ne) (nd_page s') \<and> nd_txn s' = nd_txn s"
proof -
  have lp: "leaf_page True (ne_capacity ne) (nd_page s)" "0 < NUMKEYS (nd_page s)" using assms(1,2) by (simp_all add: del_ok_def)
  have "page_need (remove_at 0 (leaf_view (nd_page s))) \<le> page_need (leaf_view (nd_page s))"
    by (rule need_tl[OF assms(5)]) (use lp(1) in \<open>simp add: leaf_page_def\<close>)
  also have "\<dots> \<le> ne_capacity ne" by (rule canonical_need[OF lp(1) assms(4) lp(2)])
  finally show ?thesis using node_del_trunk[OF assms(1,2), of ksize] assms(2,3) by (auto simp: node_deleted_def page_view_def)
qed

theorem trunk_delete_never_full_witness:
  "\<exists>s'. mdb_node_del sample_ne 0 0 sample_ns = Some (s', Ok ()) \<and> map ln_key (leaf_view (nd_page s')) = [[2, 9, 9, 8]]"
proof -
  have ok: "del_ok sample_ne sample_ns 0" by (simp add: del_ok_def sample_node_state plain_nodes)
  have k: "ln_key (leaf_view plain_page ! 0) = [2, 9, 7]" "ln_key (leaf_view plain_page ! Suc 0) = [2, 9, 9, 8]" by code_simp+
  have e: "enc [2, 9, 7] [2, 9, 9, 8] = [2, 9, 8]" by code_simp
  have "canonical_page plain_page" by (auto simp: canonical_page_def plain_nodes less_2_cases_iff k stored_key_def e)
  then show ?thesis using trunk_delete_never_full[OF ok, of 0] plain_keys
    by (auto simp: sample_node_state remove_at_def take_map drop_map)
qed

end
