(* ===== verification/Split_Point.thy ===== *)
theory Split_Point
  imports Node_Props
begin

text \<open>
  Where a full page is split: the search for the split point in \<open>mdb_page_split\<close> (\<open>mdb.c\<close>) for pages whose nodes are
  not encoded against a trunk, and when the nodes on either side of it fit their pages. (On compressed leaves the split point
  is moved afterwards by \<open>mdb_prefix_leaf_adjust_split_index\<close>, which is not modelled; nor is the moving of the nodes.)
\<close>

section \<open>The code\<close>

text \<open>
  The nodes of the page and the new one have the indices \<open>0..nkeys\<close>; \<open>copy->mp_ptrs\<close> has their slots, 0 for the new one.
  (A new node behind all others gets no slot, and its slot is never read.)
\<close>

definition split_slots :: "MDB_page \<Rightarrow> nat \<Rightarrow> nat list" where
  "split_slots mp newindx = concat (map (\<lambda>i. if i = newindx then [0, mp_ptrs mp i] else [mp_ptrs mp i]) [0..<NUMKEYS mp])"

text \<open>What the search adds to \<open>psize\<close> for the node at a slot.\<close>

definition split_node_size :: "MDB_page \<Rightarrow> nat \<Rightarrow> nat" where
  "split_node_size mp node =
     NODESIZE + EVEN (mn_ksize (mp_mem mp) node) + 2 +
     (if IS_LEAF mp then if F_ISSET (mn_flags (mp_mem mp) node) F_BIGDATA then 8 else EVEN (NODEDSZ mp node)
      else if IS_COUNTED mp then 8 else 0)"

definition split_item_size :: "MDB_page \<Rightarrow> nat \<Rightarrow> nat \<Rightarrow> nat \<Rightarrow> nat" where
  "split_item_size mp newindx nsize i = (if i = newindx then nsize else split_node_size mp (split_slots mp newindx ! i))"

text \<open>
  \<open>for (; i != k; i += j)\<close>, with \<open>n\<close> the number of steps that are left until \<open>i\<close> is \<open>k\<close>, and \<open>down\<close> for \<open>j < 0\<close>;
  \<open>None\<close> when the loop ends without a \<open>break\<close>.
\<close>

fun split_scan :: "(nat \<Rightarrow> nat) \<Rightarrow> nat \<Rightarrow> bool \<Rightarrow> nat \<Rightarrow> nat \<Rightarrow> nat \<Rightarrow> nat option" where
  "split_scan item_size pmax down 0 i psize = None"
| "split_scan item_size pmax down (Suc n) i psize =
     (let psize = psize + item_size i in
      if psize > pmax \<or> n = 0 then Some (if down then i + 1 else i)
      else split_scan item_size pmax down n (if down then i - 1 else i + 1) psize)"

text \<open>The page is split before the node of the result.\<close>

definition split_checked :: "MDB_env_sizes \<Rightarrow> nat \<Rightarrow> nat \<Rightarrow> nat \<Rightarrow> bool" where
  "split_checked env nkeys newindx nsize \<longleftrightarrow>
     nkeys < me_psize env div 128 \<or> nsize > (me_psize env - PAGEHDRSZ) div 16 \<or> newindx \<ge> nkeys"

definition split_index :: "MDB_env_sizes \<Rightarrow> MDB_page \<Rightarrow> nat \<Rightarrow> nat \<Rightarrow> nat" where
  "split_index env mp newindx nsize =
     (let nkeys = NUMKEYS mp; split_indx = (nkeys + 1) div 2; pmax = me_psize env - PAGEHDRSZ;
          up = (newindx \<le> split_indx \<or> newindx \<ge> nkeys);
          k = (if newindx \<ge> nkeys then nkeys else split_indx + 1 + (if IS_LEAF mp then 1 else 0))
      in if split_checked env nkeys newindx nsize
         then case (if up then split_scan (split_item_size mp newindx nsize) pmax False k 0 0
                    else split_scan (split_item_size mp newindx nsize) pmax True (nkeys + 1 - split_indx) nkeys 0) of
                None \<Rightarrow> split_indx
              | Some i \<Rightarrow> i
         else split_indx)"

section \<open>The loop\<close>

lemma scan_up:
  assumes "split_scan f pmax False n i p = Some r" "p = sum f {..<i}" "p \<le> pmax"
  shows "i \<le> r \<and> r < i + n \<and> sum f {..<r} \<le> pmax \<and> (pmax < sum f {..r} \<or> r = i + n - 1)"
  using assms
proof (induction n arbitrary: i p)
  case (Suc n)
  have s: "sum f {..<Suc i} = p + f i" using Suc.prems(2) by simp
  show ?case
  proof (cases "p + f i > pmax \<or> n = 0")
    case True
    then have "r = i" using Suc.prems(1) by (auto simp: Let_def)
    then show ?thesis using True Suc.prems s by (auto simp: lessThan_Suc_atMost[symmetric])
  next
    case False
    then have "split_scan f pmax False n (i + 1) (p + f i) = Some r" using Suc.prems(1) by (auto simp: Let_def split: if_splits)
    from Suc.IH[OF this] s False show ?thesis by auto
  qed
qed simp

lemma scan_down:
  assumes "split_scan f pmax True n i p = Some r" "p = sum f {Suc i..m}" "p \<le> pmax" "i \<le> m" "n \<le> Suc i"
  shows "r \<le> Suc i \<and> Suc i < r + n \<and> sum f {r..m} \<le> pmax \<and> (0 < r \<and> pmax < sum f {r - 1..m} \<or> r + n = Suc (Suc i))"
  using assms
proof (induction n arbitrary: i p)
  case (Suc n)
  have s: "sum f {i..m} = p + f i" using Suc.prems(2,4) by (simp add: sum.atLeast_Suc_atMost)
  show ?case
  proof (cases "p + f i > pmax \<or> n = 0")
    case True
    then have "r = Suc i" using Suc.prems(1) by (auto simp: Let_def split: if_splits)
    then show ?thesis using True Suc.prems s by auto
  next
    case False
    then have r: "split_scan f pmax True n (i - 1) (p + f i) = Some r" using Suc.prems(1) by (auto simp: Let_def split: if_splits)
    have i: "0 < i" using False Suc.prems(5) by (cases i) auto
    then have "p + f i = sum f {Suc (i - 1)..m}" using s by simp
    moreover have "p + f i \<le> pmax" "i - 1 \<le> m" "n \<le> Suc (i - 1)" using False i Suc.prems(4,5) by auto
    ultimately show ?thesis using Suc.IH[OF r] i by auto
  qed
qed simp

section \<open>Both sides fit\<close>

text \<open>The sizes of all nodes but the new one add up to at most a page, and no node is larger than half a page.\<close>

lemma scan_up_fits:
  assumes r: "split_scan f pmax False n 0 0 = Some s" and n: "2 \<le> n" "n \<le> Suc m \<or> pmax < sum f {..m}"
    and old: "sum f ({..m} - {x}) \<le> pmax" and x: "x \<le> m" "x \<le> n - 1 \<or> n = m \<and> x = m"
    and half: "\<And>i. i \<le> m \<Longrightarrow> 2 * f i \<le> pmax"
  shows "0 < s \<and> s \<le> m \<and> sum f {..<s} \<le> pmax \<and> (sum f {s..m} \<le> pmax \<or> s = x \<and> s = n - 1)"
proof -
  have S: "s < n" "sum f {..<s} \<le> pmax" "pmax < sum f {..s} \<or> s = n - 1" using scan_up[OF r] by auto
  have tot: "sum f {..m} = f x + sum f ({..m} - {x})" using x(1) by (simp add: sum.remove)
  have s0: "0 < s" using S(3) half[of 0] n(1) by (cases s) auto
  have sm: "s \<le> m"
  proof (rule ccontr)
    assume "\<not> s \<le> m"
    then have "sum f {..m} \<le> sum f {..<s}" by (intro sum_mono2) auto
    then show False using S(1,2) n(2) \<open>\<not> s \<le> m\<close> by auto
  qed
  have split: "sum f {..m} = sum f {..<s} + sum f {s..m}"
  proof -
    have "{..m} = {..<s} \<union> {s..m}" using sm by auto
    then show ?thesis by (simp only:) (rule sum.union_disjoint, auto)
  qed
  have "sum f {s..m} \<le> pmax" if ne: "s \<noteq> x \<or> s \<noteq> n - 1"
  proof (cases "pmax < sum f {..s}")
    case True
    have "sum f {..s} = sum f {..<s} + f s" by (simp add: lessThan_Suc_atMost[symmetric])
    then show ?thesis using True split tot old half[OF x(1)] half[OF sm] by linarith
  next
    case False
    then have s: "s = n - 1" using S(3) by simp
    show ?thesis
    proof (cases "x < n - 1")
      case True
      then have "{s..m} \<subseteq> {..m} - {x}" using s by auto
      then have "sum f {s..m} \<le> sum f ({..m} - {x})" by (intro sum_mono2) auto
      then show ?thesis using old by simp
    next
      case False
      then have "s = m - 1" "x = m" "0 < m" using x s s0 ne by auto
      then have "{s..m} = {m - 1, m}" by auto
      then show ?thesis using half[of "m - 1"] half[of m] \<open>0 < m\<close> by simp
    qed
  qed
  then show ?thesis using s0 sm S(2) by blast
qed

lemma scan_down_fits:
  assumes r: "split_scan f pmax True (m + 1 - k) m 0 = Some s" and k: "0 < k" "k < x" "x \<le> m"
    and old: "sum f ({..m} - {x}) \<le> pmax" and half: "\<And>i. i \<le> m \<Longrightarrow> 2 * f i \<le> pmax"
  shows "0 < s \<and> s \<le> m \<and> sum f {..<s} \<le> pmax \<and> sum f {s..m} \<le> pmax"
proof -
  have S: "s \<le> Suc m" "k < s" "sum f {s..m} \<le> pmax" "pmax < sum f {s - 1..m} \<or> s = Suc k"
    using scan_down[OF r, of m] k by auto
  have tot: "sum f {..m} = f x + sum f ({..m} - {x})" using k(3) by (simp add: sum.remove)
  have sm: "s \<le> m"
  proof (rule ccontr)
    assume "\<not> s \<le> m"
    then have "s = Suc m" using S(1) by simp
    then have "pmax < sum f {m..m} \<or> m = k" using S(4) by auto
    then show False using half[of m] k by auto
  qed
  have split: "sum f {..m} = sum f {..<s} + sum f {s..m}"
  proof -
    have "{..m} = {..<s} \<union> {s..m}" using sm by auto
    then show ?thesis by (simp only:) (rule sum.union_disjoint, auto)
  qed
  have "sum f {..<s} \<le> pmax"
  proof (cases "pmax < sum f {s - 1..m}")
    case True
    have e: "sum f {s - 1..m} = f (s - 1) + sum f {s..m}" using S(2) sm sum.atLeast_Suc_atMost[of "s - 1" m f] by simp
    have h: "2 * f (s - 1) \<le> pmax" using half[of "s - 1"] sm by simp
    show ?thesis using True e split tot old half[OF k(3)] h by linarith
  next
    case False
    then have "{..<s} \<subseteq> {..m} - {x}" using S(4) k sm by auto
    then have "sum f {..<s} \<le> sum f ({..m} - {x})" by (intro sum_mono2) auto
    then show ?thesis using old by simp
  qed
  then show ?thesis using S sm by simp
qed

section \<open>The sizes on a page\<close>

lemma split_slots_insert:
  "split_slots mp x = (if x < NUMKEYS mp then insert_at x 0 (map (mp_ptrs mp) [0..<NUMKEYS mp]) else map (mp_ptrs mp) [0..<NUMKEYS mp])"
proof -
  let ?g = "\<lambda>i. if i = x then [0, mp_ptrs mp i] else [mp_ptrs mp i]"
  have c: "concat (map ?g is) = map (mp_ptrs mp) is" if "x \<notin> set is" for "is"
    using that by (induction "is") auto
  show ?thesis
  proof (cases "x < NUMKEYS mp")
    case True
    then have u: "[0..<NUMKEYS mp] = [0..<x] @ x # [Suc x..<NUMKEYS mp]"
      using upt_add_eq_append[of 0 x "NUMKEYS mp - x"] by (simp add: upt_conv_Cons)
    have l: "concat (map ?g [0..<x]) = map (mp_ptrs mp) [0..<x]" "concat (map ?g [Suc x..<NUMKEYS mp]) = map (mp_ptrs mp) [Suc x..<NUMKEYS mp]"
      by (rule c, simp)+
    show ?thesis using True l unfolding split_slots_def u by (simp add: insert_at_def)
  next
    case False
    then show ?thesis using c[of "[0..<NUMKEYS mp]"] by (simp add: split_slots_def)
  qed
qed

lemma nth_split_slots:
  "i \<noteq> x \<Longrightarrow> x \<le> NUMKEYS mp \<Longrightarrow> i \<le> NUMKEYS mp \<Longrightarrow> split_slots mp x ! i = mp_ptrs mp (if i < x then i else i - 1)"
  by (auto simp: split_slots_insert nth_insert_at)

lemma sum_skip: "x \<le> m \<Longrightarrow> (\<Sum>i\<in>{..m} - {x}. g (if i < x then i else i - 1)) = (\<Sum>i<m. g i)" for g :: "nat \<Rightarrow> nat"
proof (rule sum.reindex_bij_witness[where i = "\<lambda>j. if j < x then j else Suc j" and j = "\<lambda>i. if i < x then i else i - 1"])
qed auto

text \<open>\<open>me_nodemax\<close> as \<open>mdb_env_open2\<close> computes it.\<close>

definition nodemax_for :: "nat \<Rightarrow> nat" where
  "nodemax_for psize = (psize - PAGEHDRSZ) div 2 div 2 * 2 - 2"

definition tree_page :: "nat \<Rightarrow> MDB_page \<Rightarrow> bool" where
  "tree_page psize mp \<longleftrightarrow> page_wf psize mp \<and> (plain_leaf mp \<or> IS_BRANCH mp \<and> \<not> IS_LEAF mp)"

lemma EVEN_add: "even a \<Longrightarrow> EVEN (a + b) = a + EVEN b"
proof -
  assume "even a"
  then obtain k where "a = 2 * k" by (elim evenE)
  moreover have "(2 * k + b + 1) div 2 = k + (b + 1) div 2" by simp
  ultimately show ?thesis by (simp add: EVEN_def)
qed

lemma split_node_size_eq:
  assumes "plain_leaf mp \<or> IS_BRANCH mp \<and> \<not> IS_LEAF mp"
  shows "split_node_size mp a = node_size mp a + 2"
  using assms EVEN_add[of "8 + EVEN (mn_ksize (mp_mem mp) a)"] EVEN_even EVEN_id
  by (auto simp: split_node_size_def node_size_def plain_leaf_def counted_branch_def NODESIZE_def Let_def)

text \<open>
  The bytes each side needs; the first node of a right branch page is written without its key.
\<close>

definition left_need :: "MDB_page \<Rightarrow> nat \<Rightarrow> nat \<Rightarrow> nat \<Rightarrow> nat" where
  "left_need mp newindx nsize s = sum (split_item_size mp newindx nsize) {..<s}"

definition right_need :: "MDB_page \<Rightarrow> nat \<Rightarrow> nat \<Rightarrow> nat \<Rightarrow> nat" where
  "right_need mp newindx nsize s =
     (if IS_LEAF mp then (\<Sum>i\<in>{s..NUMKEYS mp}. split_item_size mp newindx nsize i)
      else 10 + (if IS_COUNTED mp then 8 else 0) + (\<Sum>i\<in>{Suc s..NUMKEYS mp}. split_item_size mp newindx nsize i))"

lemma old_sizes:
  assumes t: "tree_page psize mp" and x: "x \<le> NUMKEYS mp"
  shows "sum (split_item_size mp x nsize) ({..NUMKEYS mp} - {x}) \<le> psize - PAGEHDRSZ"
proof -
  have W: "slots_wf psize (\<lambda>i. node_size mp (mp_ptrs mp i)) mp" and k: "plain_leaf mp \<or> IS_BRANCH mp \<and> \<not> IS_LEAF mp"
    using t by (auto simp: tree_page_def page_wf_def)
  have "sum (split_item_size mp x nsize) ({..NUMKEYS mp} - {x}) =
      (\<Sum>i\<in>{..NUMKEYS mp} - {x}. (\<lambda>i. node_size mp (mp_ptrs mp i) + 2) (if i < x then i else i - 1))"
    by (rule sum.cong) (use x in \<open>auto simp: split_item_size_def nth_split_slots split_node_size_eq[OF k]\<close>)
  also have "\<dots> = (\<Sum>i<NUMKEYS mp. node_size mp (mp_ptrs mp i) + 2)" by (rule sum_skip[OF x])
  also have "\<dots> = (\<Sum>i<NUMKEYS mp. node_size mp (mp_ptrs mp i)) + 2 * NUMKEYS mp" by (simp only: sum.distrib sum_constant card_lessThan mult.commute of_nat_id)
  finally show ?thesis
    using slots_space[OF W] slots_wf_lower[OF W] slots_wfD(4)[OF W] by (simp add: PAGEHDRSZ_def)
qed

lemma split_index_fits:
  assumes t: "tree_page (me_psize env) mp" and x: "x \<le> NUMKEYS mp" and n: "2 \<le> NUMKEYS mp"
    and checked: "split_checked env (NUMKEYS mp) x nsize"
    and nodes: "me_nodemax env = nodemax_for (me_psize env)" "\<And>i. i < NUMKEYS mp \<Longrightarrow> node_size mp (mp_ptrs mp i) \<le> me_nodemax env"
      "nsize \<le> me_nodemax env + 2"
  defines "s \<equiv> split_index env mp x nsize"
  shows "0 < s \<and> s \<le> NUMKEYS mp \<and> left_need mp x nsize s \<le> me_psize env - PAGEHDRSZ \<and> right_need mp x nsize s \<le> me_psize env - PAGEHDRSZ"
proof -
  let ?f = "split_item_size mp x nsize" and ?m = "NUMKEYS mp" and ?p = "me_psize env - PAGEHDRSZ" and ?h = "(NUMKEYS mp + 1) div 2"
  define l where "l = (if IS_LEAF mp then 1 else 0 :: nat)"
  have W: "slots_wf (me_psize env) (\<lambda>i. node_size mp (mp_ptrs mp i)) mp" and k: "plain_leaf mp \<or> IS_BRANCH mp \<and> \<not> IS_LEAF mp"
    using t by (auto simp: tree_page_def page_wf_def)
  have f: "?f i = (if i = x then nsize else node_size mp (mp_ptrs mp (if i < x then i else i - 1)) + 2)" if "i \<le> ?m" for i
    using that x by (simp add: split_item_size_def nth_split_slots split_node_size_eq[OF k])
  have "16 + 2 * ?m + (\<Sum>i<?m. node_size mp (mp_ptrs mp i)) \<le> me_psize env"
    using slots_space[OF W] slots_wf_lower[OF W] slots_wfD(4)[OF W] by simp
  moreover have "(\<Sum>i<?m. 8) \<le> (\<Sum>i<?m. node_size mp (mp_ptrs mp i))" by (rule sum_mono) (rule node_size_ge)
  ultimately have "36 \<le> me_psize env" using n by simp
  then have cap: "2 * (me_nodemax env + 2) \<le> ?p" unfolding nodes(1) nodemax_for_def PAGEHDRSZ_def by simp
  have half: "2 * ?f i \<le> ?p" if i: "i \<le> ?m" for i
  proof (cases "i = x")
    case False
    then have "(if i < x then i else i - 1) < ?m" using i x by auto
    from nodes(2)[OF this] show ?thesis using f[OF i] cap False by simp
  qed (use f[OF i] nodes(3) cap in simp)
  note old = old_sizes[OF t x, of nsize]
  have right: "right_need mp x nsize s \<le> ?p" if s: "0 < s" "s \<le> ?m" and l: "sum ?f {..<s} \<le> ?p" "sum ?f {s..?m} \<le> ?p \<or> s = x \<and> \<not> IS_LEAF mp"
  proof (cases "IS_LEAF mp")
    case True
    then show ?thesis using l by (simp add: right_need_def)
  next
    case False
    define b where "b = 10 + (if IS_COUNTED mp then 8 else 0 :: nat)"
    have br: "IS_BRANCH mp" using k False by (simp add: plain_leaf_def)
    have b: "b \<le> ?f i" if "i \<le> ?m" "i \<noteq> x" for i
      using f[OF that(1)] that br EVEN_ge[of "8 + EVEN (mn_ksize (mp_mem mp) a) + 8" for a] node_size_ge[of mp]
      by (auto simp: b_def node_size_def Let_def NODESIZE_def False intro: order_trans[OF _ EVEN_ge])
    show ?thesis
    proof (cases "s = x")
      case False
      have "sum ?f {s..?m} = ?f s + sum ?f {Suc s..?m}" using s by (simp add: sum.atLeast_Suc_atMost)
      moreover have "sum ?f {s..?m} \<le> ?p" using l False by auto
      ultimately show ?thesis using b[OF s(2) False] \<open>\<not> IS_LEAF mp\<close> by (simp add: right_need_def b_def)
    next
      case True
      have "b \<le> ?f 0" using b[of 0] s True by simp
      also have "\<dots> \<le> sum ?f {..<s}" using s by (intro member_le_sum) auto
      finally have "b + sum ?f {Suc s..?m} \<le> sum ?f {..<s} + sum ?f {Suc s..?m}" by simp
      also have "\<dots> = sum ?f ({..<s} \<union> {Suc s..?m})" by (rule sum.union_disjoint[symmetric]) auto
      also have "{..<s} \<union> {Suc s..?m} = {..?m} - {x}" using s True by auto
      finally show ?thesis using old False by (simp add: right_need_def b_def)
    qed
  qed
  have fin: ?thesis if "0 < s \<and> s \<le> ?m \<and> sum ?f {..<s} \<le> ?p \<and> (sum ?f {s..?m} \<le> ?p \<or> s = x \<and> \<not> IS_LEAF mp)"
    using that right by (simp add: left_need_def)
  have some: "\<exists>r. split_scan g q down (Suc j) i p = Some r" for g q down j i p
    by (induction j arbitrary: i p) (auto simp: Let_def)
  show ?thesis
  proof (cases "x \<le> ?h \<or> ?m \<le> x")
    case True
    define K where "K = (if ?m \<le> x then ?m else ?h + 1 + l)"
    have K: "2 \<le> K" using n by (auto simp: K_def)
    then obtain K' where "K = Suc K'" by (cases K) auto
    then obtain r where r: "split_scan ?f ?p False K 0 0 = Some r" using some by blast
    moreover have "s = (case split_scan ?f ?p False K 0 0 of None \<Rightarrow> ?h | Some i \<Rightarrow> i)"
      unfolding s_def split_index_def Let_def if_P[OF checked] if_P[OF True] K_def l_def ..
    ultimately have "s = r" by simp
    moreover have "K \<le> Suc ?m \<or> ?p < sum ?f {..?m}" using n by (auto simp: K_def l_def)
    moreover have "x \<le> K - 1 \<or> K = ?m \<and> x = ?m" using True x by (auto simp: K_def)
    ultimately have F: "0 < s \<and> s \<le> ?m \<and> sum ?f {..<s} \<le> ?p \<and> (sum ?f {s..?m} \<le> ?p \<or> s = x \<and> s = K - 1)"
      using scan_up_fits[OF r K _ old x _ half] by simp
    have "\<not> (s = x \<and> s = K - 1 \<and> IS_LEAF mp)" using True n by (auto simp: K_def l_def)
    then show ?thesis using F fin by blast
  next
    case False
    then have "Suc ?m - ?h = Suc (?m - ?h)" by simp
    then obtain r where r: "split_scan ?f ?p True (?m + 1 - ?h) ?m 0 = Some r" using some by (metis Suc_eq_plus1)
    moreover have "s = (case split_scan ?f ?p True (?m + 1 - ?h) ?m 0 of None \<Rightarrow> ?h | Some i \<Rightarrow> i)"
      unfolding s_def split_index_def Let_def if_P[OF checked] if_not_P[OF False] ..
    ultimately have "s = r" by simp
    moreover have "0 < ?h" "?h < x" using False n by auto
    ultimately show ?thesis using scan_down_fits[OF r _ _ x old half] fin by blast
  qed
qed

section \<open>Without the search\<close>

text \<open>
  With many nodes and a new one that is small the page is split in the middle, and the side the new node goes to may not
  have room for it: the page of 32 nodes, 15 of them with 246 bytes of data and 17 without data, that is split for a node of 242 bytes.
\<close>

definition uneven_mem :: mem where
  "uneven_mem a =
     (if 256 \<le> a then if a mod 256 = 0 then 246 else if a mod 256 = 6 then 1 else if a mod 256 = 8 then word_of_nat (15 - a div 256) else 0
      else if (a - 86) mod 10 = 6 then 1 else if (a - 86) mod 10 = 8 then word_of_nat (31 - (a - 86) div 10) else 0)"

definition uneven_page :: MDB_page where
  "uneven_page = \<lparr>mp_pgno = 7, mp_pad = 0, mp_flags = P_LEAF, mp_lower = 80, mp_upper = 86,
     mp_ptrs = (\<lambda>i. if i < 15 then 4096 - 256 * (i + 1) else 256 - 10 * (i - 14)), mp_mem = uneven_mem\<rparr>"

lemma uneven_page_nodes:
  "NUMKEYS uneven_page = 32" "plain_leaf uneven_page"
  "i < 15 \<Longrightarrow> node_size uneven_page (mp_ptrs uneven_page i) = 256"
  "15 \<le> i \<Longrightarrow> i < 32 \<Longrightarrow> node_size uneven_page (mp_ptrs uneven_page i) = 10"
proof -
  show n: "NUMKEYS uneven_page = 32" by code_simp
  show "plain_leaf uneven_page" by code_simp
  have "\<forall>i\<in>set [0..<15]. node_size uneven_page (mp_ptrs uneven_page i) = 256" by code_simp
  from bspec[OF this, of i] show "i < 15 \<Longrightarrow> node_size uneven_page (mp_ptrs uneven_page i) = 256" by simp
  have "\<forall>i\<in>set [15..<32]. node_size uneven_page (mp_ptrs uneven_page i) = 10" by code_simp
  from bspec[OF this, of i] show "15 \<le> i \<Longrightarrow> i < 32 \<Longrightarrow> node_size uneven_page (mp_ptrs uneven_page i) = 10" unfolding set_upt atLeastLessThan_iff by blast
qed

lemma uneven_page_wf: "tree_page 4096 uneven_page"
proof -
  have u: "mp_lower uneven_page = 80" "mp_upper uneven_page = 86" "mp_ptrs uneven_page i = (if i < 15 then 4096 - 256 * (i + 1) else 256 - 10 * (i - 14))" for i
    by (simp_all add: uneven_page_def)
  define sz where "sz i = (if i < 15 then 256 else 10 :: nat)" for i :: nat
  have sz: "node_size uneven_page (mp_ptrs uneven_page i) = sz i" if "i < 32" for i
    using that uneven_page_nodes(3,4)[of i] by (simp add: sz_def)
  have "slots_wf 4096 sz uneven_page"
    unfolding slots_wf_def uneven_page_nodes(1) u PAGEHDRSZ_def sz_def by auto
  then have "page_wf 4096 uneven_page" unfolding page_wf_def slots_wf_def uneven_page_nodes(1) by (simp add: sz)
  then show ?thesis by (simp add: tree_page_def uneven_page_nodes(2))
qed

lemma uneven_unchecked: "\<not> split_checked \<lparr>me_maxkey = 511, me_nodemax = nodemax_for 4096, me_psize = 4096\<rparr> 32 0 254"
  by code_simp

lemma uneven_left_need:
  "left_need uneven_page 0 254 (split_index \<lparr>me_maxkey = 511, me_nodemax = nodemax_for 4096, me_psize = 4096\<rparr> uneven_page 0 254) = 4124"
  by code_simp

section \<open>Properties\<close>

text \<open>When \<open>mdb_page_split\<close> searches for the split point of an uncompressed leaf or a branch page with at least two nodes,
  none of them and not the new one larger than \<open>me_nodemax\<close>, neither side is empty and the nodes of either side fit an empty page, the first key of a right
  branch page being dropped, wherever the new node goes.\<close>

theorem split_point_fits:
  assumes "tree_page (me_psize env) mp" "x \<le> NUMKEYS mp" "2 \<le> NUMKEYS mp" "split_checked env (NUMKEYS mp) x nsize"
    and "me_nodemax env = nodemax_for (me_psize env)" "\<forall>i<NUMKEYS mp. node_size mp (mp_ptrs mp i) \<le> me_nodemax env"
      "nsize \<le> me_nodemax env + 2"
  shows "0 < split_index env mp x nsize \<and> split_index env mp x nsize \<le> NUMKEYS mp \<and>
    left_need mp x nsize (split_index env mp x nsize) \<le> me_psize env - PAGEHDRSZ \<and>
    right_need mp x nsize (split_index env mp x nsize) \<le> me_psize env - PAGEHDRSZ"
  by (rule split_index_fits[OF assms(1-5) _ assms(7)]) (use assms(6) in blast)

theorem split_point_fits_witness:
  "let env = \<lparr>me_maxkey = 511, me_nodemax = nodemax_for 4096, me_psize = 4096\<rparr>; s = split_index env uneven_page 3 300 in
     0 < s \<and> s \<le> 32 \<and> left_need uneven_page 3 300 s \<le> 4080 \<and> right_need uneven_page 3 300 s \<le> 4080"
proof -
  let ?env = "\<lparr>me_maxkey = 511, me_nodemax = nodemax_for 4096, me_psize = 4096\<rparr>"
  have n: "nodemax_for 4096 = 2038" by (simp add: nodemax_for_def PAGEHDRSZ_def)
  have "node_size uneven_page (mp_ptrs uneven_page i) \<le> 2038" if "i < 32" for i
    using that uneven_page_nodes(3,4)[of i] by (cases "i < 15") auto
  moreover have "split_checked ?env 32 3 300" by code_simp
  ultimately show ?thesis
    using split_point_fits[of ?env uneven_page 3 300] uneven_page_wf uneven_page_nodes(1) by (simp add: n PAGEHDRSZ_def Let_def)
qed

end
